(* ===== verification/Prelude.thy ===== *)
theory Prelude
  imports Main "HOL-Library.Word" "HOL-Library.Multiset"
begin

text \<open>
  Shared vocabulary of the development: the error numbers the modelled services set in
  \<open>u.u_error\<close>, the conversions the C code performs when it stores an \<open>int\<close> into a
  narrower field, and the generic lemmas on lists and options that the component
  theories use. The collection \<open>kwrap\<close> holds the rules that remove a conversion whose
  argument is already in range.
\<close>

unbundle bit_operations_syntax

section \<open>Error numbers\<close>

datatype errno =
    EPERM | ENOENT | EINTR | E2BIG | EBADF | EAGAIN | ENOMEM | EACCES | EFAULT
  | EEXIST | EINVAL | EMFILE | EFBIG | ENOSPC | ERANGE | ENOMSG | EIDRM
  | EDEADLK | ENOLCK | ENFILE | ERESTART | ESPIPE | EIO

text \<open>\<open>u.u_error\<close> holds 0 or an error number; 0 is \<open>None\<close>.\<close>

type_synonym uerror = "errno option"

section \<open>Stores into narrow fields\<close>

text \<open>
  Arithmetic of the modelled code is done in \<open>int\<close> (32 bits) on operands that are at most
  16 bits wide, so it is exact; what can lose information is the store back into an
  \<open>unsigned short\<close> or \<open>short\<close> field, which these two functions perform.
\<close>

named_theorems kwrap

definition ushort :: "int \<Rightarrow> int" where
  "ushort x = x mod 65536"

definition sshort :: "int \<Rightarrow> int" where
  "sshort x = (x + 32768) mod 65536 - 32768"

lemma ushort_id [kwrap]: "0 \<le> x \<Longrightarrow> x < 65536 \<Longrightarrow> ushort x = x"
  by (simp add: ushort_def)

lemma sshort_id [kwrap]: "- 32768 \<le> x \<Longrightarrow> x < 32768 \<Longrightarrow> sshort x = x"
  by (simp add: sshort_def)

lemma ushort_range: "0 \<le> ushort x" "ushort x < 65536"
  by (simp_all add: ushort_def)

lemma sshort_range: "- 32768 \<le> sshort x" "sshort x < 32768"
  by (simp_all add: sshort_def)

lemma ushort_zero [simp]: "ushort 0 = 0"
  by (simp add: ushort_def)

lemma sshort_zero [simp]: "sshort 0 = 0"
  by (simp add: sshort_def)

lemma sshort_add_wrap: "sshort (sshort x + y) = sshort (x + y)"
  unfolding sshort_def
  by (smt (verit, ccfv_threshold) mod_add_left_eq)

text \<open>The same for an \<open>int\<close> and for a \<open>long long\<close>.\<close>

definition wrap32 :: "int \<Rightarrow> int" where
  "wrap32 x = (x + 2 ^ 31) mod 2 ^ 32 - 2 ^ 31"

lemma wrap32_id [kwrap]: "- (2 ^ 31) \<le> x \<Longrightarrow> x < 2 ^ 31 \<Longrightarrow> wrap32 x = x"
  by (simp add: wrap32_def)

definition wrap64 :: "int \<Rightarrow> int" where
  "wrap64 x = (x + 2 ^ 63) mod 2 ^ 64 - 2 ^ 63"

lemma wrap64_id [kwrap]: "- (2 ^ 63) \<le> x \<Longrightarrow> x < 2 ^ 63 \<Longrightarrow> wrap64 x = x"
  by (simp add: wrap64_def)

lemma wrap64_add [kwrap]: "wrap64 (wrap64 x + y) = wrap64 (x + y)"
proof -
  have "(x + 2 ^ 63) mod 2 ^ 64 - 2 ^ 63 + y + 2 ^ 63 = y + (x + 2 ^ 63) mod 2 ^ 64" by simp
  then have "((x + 2 ^ 63) mod 2 ^ 64 - 2 ^ 63 + y + 2 ^ 63) mod 2 ^ 64 = (y + (x + 2 ^ 63)) mod 2 ^ 64"
    by (simp only: mod_add_right_eq)
  then show ?thesis unfolding wrap64_def by (simp only: ac_simps)
qed

lemma wrap64_add' [kwrap]: "wrap64 (y + wrap64 x) = wrap64 (y + x)"
  using wrap64_add [of x y] by (simp only: ac_simps)

lemma wrap64_idem [simp]: "wrap64 (wrap64 x) = wrap64 x"
  using wrap64_add [of x 0] by simp

section \<open>Lists updated in place\<close>

text \<open>\<open>upd xs i f\<close> is the C statement that reads slot \<open>i\<close> and stores the changed value.\<close>

definition upd :: "'a list \<Rightarrow> nat \<Rightarrow> ('a \<Rightarrow> 'a) \<Rightarrow> 'a list" where
  "upd xs i f = (if i < length xs then xs[i := f (xs ! i)] else xs)"

lemma length_upd [simp]: "length (upd xs i f) = length xs"
  by (simp add: upd_def)

lemma nth_upd: "i < length xs \<Longrightarrow> upd xs j f ! i = (if i = j then f (xs ! i) else xs ! i)"
  by (simp add: upd_def nth_list_update)

lemma nth_upd_eq [simp]: "i < length xs \<Longrightarrow> upd xs i f ! i = f (xs ! i)"
  by (simp add: upd_def)

lemma nth_upd_neq [simp]: "i \<noteq> j \<Longrightarrow> upd xs j f ! i = xs ! i"
  by (simp add: upd_def)

lemma upd_upd_same: "upd (upd xs i f) i g = upd xs i (\<lambda>x. g (f x))"
  by (simp add: upd_def)

lemma upd_id: "(\<And>x. f x = x) \<Longrightarrow> upd xs i f = xs"
  by (simp add: upd_def)

lemma list_all_upd: "list_all P xs \<Longrightarrow> (\<And>x. P x \<Longrightarrow> P (f x)) \<Longrightarrow> list_all P (upd xs i f)"
  by (auto simp: upd_def list_all_length nth_list_update)

section \<open>Chains\<close>

text \<open>\<open>path nx h xs\<close>: from the pointer \<open>h\<close> the links \<open>nx\<close> lead through \<open>xs\<close> to NULL.\<close>

fun path :: "(nat \<Rightarrow> nat option) \<Rightarrow> nat option \<Rightarrow> nat list \<Rightarrow> bool" where
  "path nx h [] = (h = None)"
| "path nx h (x # xs) = (h = Some x \<and> path nx (nx x) xs)"

lemma path_other [simp]: "b \<notin> set xs \<Longrightarrow> path (nx(b := y)) h xs = path nx h xs"
  by (induction xs arbitrary: h) auto

lemma path_cong: "(\<And>x. x \<in> set xs \<Longrightarrow> nx x = ny x) \<Longrightarrow> path nx h xs = path ny h xs"
  by (induction xs arbitrary: h) auto

lemma path_None: "path nx None xs \<longleftrightarrow> xs = []"
  by (cases xs) auto

lemma path_Some: "path nx (Some b) xs \<longleftrightarrow> (\<exists>ys. xs = b # ys \<and> path nx (nx b) ys)"
  by (cases xs) auto

lemma path_append_new:
  "path nx h xs \<Longrightarrow> xs \<noteq> [] \<Longrightarrow> distinct xs \<Longrightarrow> b \<notin> set xs \<Longrightarrow> path (nx(last xs := Some b, b := None)) h (xs @ [b])"
  by (induction xs arbitrary: h) (auto split: if_splits)

lemma path_skip:
  "path nx h (a @ p # b # c) \<Longrightarrow> distinct (a @ p # b # c) \<Longrightarrow> path (nx(p := nx b)) h (a @ p # c)"
  by (induction a arbitrary: h) (auto simp: fun_upd_def[symmetric])

lemma path_last: "path nx h xs \<Longrightarrow> xs \<noteq> [] \<Longrightarrow> nx (last xs) = None"
  by (induction xs arbitrary: h) (auto simp: path_None split: if_splits)

section \<open>Machines driven by a sequence of events\<close>

text \<open>
  Several components are state machines: a step takes an event and a state and gives the
  next state, or \<open>None\<close> where the code does not come back. A run feeds a list of events.
  The first contract is that a step keeps an invariant, the second that it always comes
  back; what they give for whole runs is proved here once.
\<close>

fun run :: "('e \<Rightarrow> 's \<Rightarrow> 's option) \<Rightarrow> 'e list \<Rightarrow> 's \<Rightarrow> 's option" where
  "run step [] s = Some s"
| "run step (e # es) s = (case step e s of None \<Rightarrow> None | Some s' \<Rightarrow> run step es s')"

lemma run_append:
  "run step (es @ fs) s =
     (case run step es s of None \<Rightarrow> None | Some s' \<Rightarrow> run step fs s')"
  by (induction es arbitrary: s) (auto split: option.splits)

locale machine =
  fixes step :: "'e \<Rightarrow> 's \<Rightarrow> 's option"
    and inv :: "'s \<Rightarrow> bool"
  assumes step_inv: "inv s \<Longrightarrow> step e s = Some s' \<Longrightarrow> inv s'"
begin

lemma run_inv: "inv s \<Longrightarrow> run step es s = Some s' \<Longrightarrow> inv s'"
  by (induction es arbitrary: s) (auto split: option.splits dest: step_inv)

end

locale total_machine = machine +
  assumes step_total: "inv s \<Longrightarrow> \<exists>s'. step e s = Some s'"
begin

lemma run_total: "inv s \<Longrightarrow> \<exists>s'. run step es s = Some s' \<and> inv s'"
proof (induction es arbitrary: s)
  case Nil
  then show ?case by simp
next
  case (Cons e es)
  from step_total [OF Cons.prems, of e] obtain t where t: "step e s = Some t" by blast
  with Cons.prems have "inv t" by (rule step_inv)
  then show ?case using Cons.IH t by simp
qed

end

text \<open>
  A machine whose environment keeps to a set of legal events; a total machine is the case in
  which every event is legal.
\<close>

locale guarded_machine =
  fixes legal :: "'e \<Rightarrow> bool"
    and step :: "'e \<Rightarrow> 's \<Rightarrow> 's option"
    and inv :: "'s \<Rightarrow> bool"
  assumes step_legal: "legal e \<Longrightarrow> inv s \<Longrightarrow> \<exists>s'. step e s = Some s' \<and> inv s'"
begin

lemma run_legal: "list_all legal es \<Longrightarrow> inv s \<Longrightarrow> \<exists>s'. run step es s = Some s' \<and> inv s'"
proof (induction es arbitrary: s)
  case (Cons e es)
  then obtain t where "step e s = Some t" "inv t" using step_legal by fastforce
  with Cons show ?case by simp
qed simp

end

sublocale total_machine \<subseteq> guarded_machine "\<lambda>_. True"
  using step_total step_inv by unfold_locales blast

end
