(* ===== verification/Cred.thy ===== *)
theory Cred
  imports Prelude "HOL-Library.Monad_Syntax"
begin

text \<open>
  Credentials and privileges of a process: \<open>src/bos/kernel/s/priv/priv.c\<close> (privilege
  vectors and the checks on them), \<open>src/bos/kernel/s/auth/uid.c\<close> and
  \<open>src/bos/kernel/s/auth/gid.c\<close> (the calls that read and change the user and group
  identities) and the uid-list service \<open>new_uidl\<close> of
  \<open>src/bos/kernel/proc/sysproc.c\<close>. The definitions take the fields of the user area they
  use as one record; audit records, which change nothing else, are left out, and so is the
  serialisation by \<open>CRED_LOCK\<close>, each call being one step. An outcome \<open>None\<close> says that a
  walk over a uid list does not end.
\<close>

section \<open>Privilege vectors\<close>

type_synonym uid_t = "32 word"
type_synonym gid_t = "32 word"

record priv_t =
  pv_priv0 :: "32 word"
  pv_priv1 :: "32 word"

definition priv_clr :: "priv_t \<Rightarrow> priv_t" where
  "priv_clr p = p\<lparr>pv_priv0 := 0, pv_priv1 := 0\<rparr>"

definition priv_null :: "priv_t \<Rightarrow> bool" where
  "priv_null p = (if pv_priv0 p \<noteq> 0 \<or> pv_priv1 p \<noteq> 0 then False else True)"

definition priv_add :: "priv_t \<Rightarrow> priv_t \<Rightarrow> priv_t" where
  "priv_add p1 p2 = p1\<lparr>pv_priv0 := pv_priv0 p1 OR pv_priv0 p2,
                       pv_priv1 := pv_priv1 p1 OR pv_priv1 p2\<rparr>"

definition priv_sub :: "priv_t \<Rightarrow> priv_t \<Rightarrow> priv_t" where
  "priv_sub p1 p2 = p1\<lparr>pv_priv0 := pv_priv0 p1 AND NOT (pv_priv0 p2),
                       pv_priv1 := pv_priv1 p1 AND NOT (pv_priv1 p2)\<rparr>"

definition priv_and :: "priv_t \<Rightarrow> priv_t \<Rightarrow> priv_t" where
  "priv_and p1 p2 = p1\<lparr>pv_priv0 := pv_priv0 p1 AND pv_priv0 p2,
                       pv_priv1 := pv_priv1 p1 AND pv_priv1 p2\<rparr>"

definition priv_not :: "priv_t \<Rightarrow> priv_t" where
  "priv_not p = p\<lparr>pv_priv0 := NOT (pv_priv0 p), pv_priv1 := NOT (pv_priv1 p)\<rparr>"

definition priv_le :: "priv_t \<Rightarrow> priv_t \<Rightarrow> bool" where
  "priv_le p1 p2 =
     (if pv_priv0 p1 \<noteq> pv_priv0 p1 AND pv_priv0 p2 then False
      else if pv_priv1 p1 \<noteq> pv_priv1 p1 AND pv_priv1 p2 then False
      else True)"

section \<open>The credentials and the user area\<close>

record ucred =
  cr_ruid :: uid_t
  cr_uid :: uid_t
  cr_suid :: uid_t
  cr_luid :: uid_t
  cr_gid :: gid_t
  cr_rgid :: gid_t
  cr_sgid :: gid_t
  cr_groups :: "gid_t list"   \<comment> \<open>the first \<open>cr_ngrps\<close> elements of the array\<close>
  cr_mpriv :: priv_t
  cr_ipriv :: priv_t
  cr_epriv :: priv_t
  cr_bpriv :: priv_t

text \<open>
  The tunables read here: \<open>v.v_leastpriv\<close> (false for the value 0), \<open>v.v_maxup\<close>, and
  whether the process's terminal answers that it is on the trusted path.
\<close>

record sysvars =
  v_leastpriv :: bool
  v_maxup :: int
  on_tpath :: bool

datatype p_stat = SNONE | SIDL | SZOMB | SACTIVE

record proc_t =
  p_stat :: p_stat
  p_uid :: uid_t
  p_suid :: uid_t
  p_uidl :: nat          \<comment> \<open>slot of the next process on the circular uid list\<close>

record uarea =
  u_cred :: ucred
  u_error :: uerror
  proc_tab :: "proc_t list"
  u_procp :: nat          \<comment> \<open>slot of the current process\<close>

abbreviation (input) SET_PROC_DAC :: nat where "SET_PROC_DAC \<equiv> 20"
abbreviation (input) SET_PROC_RAC :: nat where "SET_PROC_RAC \<equiv> 21"
abbreviation (input) SET_PROC_AUDIT :: nat where "SET_PROC_AUDIT \<equiv> 26"
abbreviation (input) SET_OBJ_DAC :: nat where "SET_OBJ_DAC \<equiv> 10"
abbreviation (input) SET_OBJ_STAT :: nat where "SET_OBJ_STAT \<equiv> 14"
abbreviation (input) BYPASS_DAC_WRITE :: nat where "BYPASS_DAC_WRITE \<equiv> 1"
abbreviation (input) BYPASS_DAC_READ :: nat where "BYPASS_DAC_READ \<equiv> 2"
abbreviation (input) TRUSTED_PATH :: nat where "TRUSTED_PATH \<equiv> 910"

abbreviation (input) ID_EFFECTIVE :: int where "ID_EFFECTIVE \<equiv> 1"
abbreviation (input) ID_REAL :: int where "ID_REAL \<equiv> 2"
abbreviation (input) ID_SAVED :: int where "ID_SAVED \<equiv> 4"
abbreviation (input) ID_LOGIN :: int where "ID_LOGIN \<equiv> 8"

abbreviation UID_MAX :: uid_t where "UID_MAX \<equiv> 0xFFFFFFFF"
abbreviation (input) NGROUPS_MAX :: int where "NGROUPS_MAX \<equiv> 32"

section \<open>Privilege checks\<close>

text \<open>\<open>None\<close> is the C result 0: the credentials have the privilege.\<close>

definition privcheck_cr :: "sysvars \<Rightarrow> nat \<Rightarrow> ucred \<Rightarrow> uerror" where
  "privcheck_cr v p crp =
     (if \<not> v_leastpriv v \<and> cr_uid crp = 0 \<and> p \<noteq> TRUSTED_PATH then None
      else if p = TRUSTED_PATH then (if on_tpath v then None else Some EPERM)
      else let rc = (if p < 33
                     then pv_priv0 (cr_epriv crp) AND push_bit (p - 1) 1
                     else pv_priv1 (cr_epriv crp) AND push_bit (p - 33) 1)
           in if rc \<noteq> 0 then None else Some EPERM)"

definition privcheck :: "sysvars \<Rightarrow> nat \<Rightarrow> uarea \<Rightarrow> uerror" where
  "privcheck v p u = privcheck_cr v p (u_cred u)"

definition priv_req :: "sysvars \<Rightarrow> nat \<Rightarrow> ucred \<Rightarrow> bool" where
  "priv_req v p crp =
     (if \<not> v_leastpriv v \<and> cr_uid crp = 0 \<and> p \<noteq> TRUSTED_PATH then True
      else if p = TRUSTED_PATH then (if on_tpath v then True else False)
      else let rc = (if p < 33
                     then pv_priv0 (cr_epriv crp) AND push_bit (p - 1) 1
                     else pv_priv1 (cr_epriv crp) AND push_bit (p - 33) 1)
           in rc \<noteq> 0)"

definition suser :: "ucred \<Rightarrow> bool \<times> uerror" where
  "suser crp = (if cr_uid crp = 0 \<or> \<not> priv_null (cr_epriv crp) then (True, None)
                else (False, Some EPERM))"

lemma priv_req_iff: "priv_req v p c \<longleftrightarrow> privcheck_cr v p c = None"
  by (simp add: priv_req_def privcheck_cr_def Let_def)

section \<open>The lists of processes by user\<close>

text \<open>
  The processes of one user form a circular list through \<open>p_uidl\<close>. The two walks of
  \<open>new_uidl\<close> are given as many steps as the table has slots, which is enough on every
  table whose links are a permutation; when the steps run out the
  walk has no end and the outcome is \<open>None\<close>.
\<close>

definition uid_proc :: "proc_t list \<Rightarrow> uid_t \<Rightarrow> nat option" where
  "uid_proc tab newuid =
     find (\<lambda>p. \<not> (p_uid (tab ! p) \<noteq> newuid \<or> p_stat (tab ! p) = SNONE
                   \<or> p_stat (tab ! p) = SZOMB)) [0..<length tab]"

fun uid_cnt_walk :: "nat \<Rightarrow> proc_t list \<Rightarrow> nat \<Rightarrow> nat \<Rightarrow> int \<Rightarrow> int option" where
  "uid_cnt_walk 0 tab p q uid_cnt = None"
| "uid_cnt_walk (Suc n) tab p q uid_cnt =
     (if p \<noteq> q then uid_cnt_walk n tab p (p_uidl (tab ! q)) (uid_cnt + 1)
      else Some uid_cnt)"

fun uidl_pred :: "nat \<Rightarrow> proc_t list \<Rightarrow> nat \<Rightarrow> nat \<Rightarrow> nat option" where
  "uidl_pred 0 tab pr q = None"
| "uidl_pred (Suc n) tab pr q =
     (if pr \<noteq> p_uidl (tab ! q) then uidl_pred n tab pr (p_uidl (tab ! q)) else Some q)"

text \<open>
  The process \<open>pr\<close>, whose predecessor on its old list is \<open>q\<close>, is unlinked and then put
  behind \<open>p\<close>, a process of the new user, or on a list of its own.
\<close>

definition uidl_relink ::
    "uid_t \<Rightarrow> int \<Rightarrow> nat \<Rightarrow> nat option \<Rightarrow> nat \<Rightarrow> proc_t list \<Rightarrow> proc_t list" where
  "uidl_relink newuid msk pr p q tab = (
     let tab = upd tab q (\<lambda>r. r\<lparr>p_uidl := p_uidl (tab ! pr)\<rparr>);
         tab = (case p of
                  Some p \<Rightarrow>
                    (let q = p_uidl (tab ! p);
                         tab = upd tab pr (\<lambda>r. r\<lparr>p_uidl := q\<rparr>)
                     in upd tab p (\<lambda>r. r\<lparr>p_uidl := pr\<rparr>))
                | None \<Rightarrow> upd tab pr (\<lambda>r. r\<lparr>p_uidl := pr\<rparr>));
         tab = (if msk AND ID_REAL \<noteq> 0
                then upd tab pr (\<lambda>r. r\<lparr>p_uid := newuid\<rparr>) else tab);
         tab = (if msk AND ID_SAVED \<noteq> 0
                then upd tab pr (\<lambda>r. r\<lparr>p_suid := newuid\<rparr>) else tab)
     in tab)"

definition new_uidl :: "sysvars \<Rightarrow> uid_t \<Rightarrow> int \<Rightarrow> uarea \<Rightarrow> (uarea \<times> int) option" where
  "new_uidl v newuid msk u = (
     let tab = proc_tab u; pr = u_procp u; p = uid_proc tab newuid in do {
       uid_cnt \<leftarrow> (case p of None \<Rightarrow> Some 0
                    | Some p \<Rightarrow> uid_cnt_walk (length tab) tab p (p_uidl (tab ! p)) 1);
       if p \<noteq> None \<and> uid_cnt > v_maxup v - 1 \<and> privcheck v SET_PROC_RAC u \<noteq> None
       then Some (u\<lparr>u_error := Some EAGAIN\<rparr>, -1)
       else do {
         q \<leftarrow> uidl_pred (length tab) tab pr pr;
         Some (u\<lparr>proc_tab := uidl_relink newuid msk pr p q tab\<rparr>, 0)
       }
     })"

section \<open>User identities\<close>

text \<open>
  \<open>locked_setuidx\<close> and its siblings are the C functions with a leading underscore, which
  run with the credentials lock held; the system calls add only the lock and the audit
  records.
\<close>

definition set_cred :: "(ucred \<Rightarrow> ucred) \<Rightarrow> uarea \<Rightarrow> uarea" where
  "set_cred f u = u\<lparr>u_cred := f (u_cred u)\<rparr>"

definition fail :: "errno \<Rightarrow> uarea \<Rightarrow> (uarea \<times> int) option" where
  "fail e u = Some (u\<lparr>u_error := Some e\<rparr>, -1)"

definition locked_setuidx :: "sysvars \<Rightarrow> int \<Rightarrow> uid_t \<Rightarrow> uarea \<Rightarrow> (uarea \<times> int) option" where
  "locked_setuidx v msk uid u =
     (if uid \<ge> UID_MAX then fail EINVAL u
      else if msk = (ID_EFFECTIVE OR ID_REAL OR ID_SAVED OR ID_LOGIN) then
        (let u = u\<lparr>u_error := privcheck v SET_PROC_DAC u\<rparr> in
         if u_error u \<noteq> None then Some (u, -1)
         else let u = u\<lparr>u_error := privcheck v SET_PROC_AUDIT u\<rparr> in
         if u_error u \<noteq> None then Some (u, -1)
         else do {
           (u, rc) \<leftarrow> new_uidl v uid msk u;
           if rc \<noteq> 0 then Some (u, -1)
           else Some (set_cred (\<lambda>c. c\<lparr>cr_luid := uid, cr_suid := uid,
                                      cr_ruid := uid, cr_uid := uid\<rparr>) u, 0)
         })
      else if msk = (ID_EFFECTIVE OR ID_REAL OR ID_SAVED) then
        (let u = u\<lparr>u_error := privcheck v SET_PROC_DAC u\<rparr> in
         if u_error u \<noteq> None then Some (u, -1)
         else do {
           (u, rc) \<leftarrow> new_uidl v uid msk u;
           if rc \<noteq> 0 then Some (u, -1)
           else Some (set_cred (\<lambda>c. c\<lparr>cr_suid := uid, cr_ruid := uid, cr_uid := uid\<rparr>) u, 0)
         })
      else if msk = (ID_EFFECTIVE OR ID_REAL) then
        (let u = u\<lparr>u_error := privcheck v SET_PROC_DAC u\<rparr> in
         if u_error u \<noteq> None then Some (u, -1)
         else do {
           (u, rc) \<leftarrow> new_uidl v uid msk u;
           if rc \<noteq> 0 then Some (u, -1)
           else Some (set_cred (\<lambda>c. c\<lparr>cr_ruid := uid, cr_uid := uid\<rparr>) u, 0)
         })
      else if msk = ID_EFFECTIVE then
        (if uid \<noteq> cr_ruid (u_cred u) \<and> uid \<noteq> cr_suid (u_cred u)
            \<and> privcheck v SET_PROC_DAC u \<noteq> None
         then fail EPERM u
         else Some (set_cred (\<lambda>c. c\<lparr>cr_uid := uid\<rparr>) u, 0))
      else if msk = ID_LOGIN then
        (let u = u\<lparr>u_error := privcheck v SET_PROC_AUDIT u\<rparr> in
         if u_error u \<noteq> None then Some (u, -1)
         else let u = u\<lparr>u_error := privcheck v SET_PROC_DAC u\<rparr> in
         if u_error u \<noteq> None then Some (u, -1)
         else Some (set_cred (\<lambda>c. c\<lparr>cr_luid := uid\<rparr>) u, 0))
      else fail EINVAL u)"

definition setuidx :: "sysvars \<Rightarrow> int \<Rightarrow> uid_t \<Rightarrow> uarea \<Rightarrow> (uarea \<times> int) option" where
  "setuidx v msk uid u = locked_setuidx v msk uid u"

definition locked_setuid :: "sysvars \<Rightarrow> uid_t \<Rightarrow> uarea \<Rightarrow> (uarea \<times> int) option" where
  "locked_setuid v uid u =
     (if uid \<ge> UID_MAX then fail EINVAL u
      else if privcheck v SET_PROC_DAC u = None then do {
        (u, rc) \<leftarrow> new_uidl v uid (ID_REAL OR ID_SAVED) u;
        if rc \<noteq> 0 then Some (u, -1)
        else let u = set_cred (\<lambda>c. c\<lparr>cr_suid := uid, cr_ruid := uid, cr_uid := uid\<rparr>) u in
        if \<not> (uid = 0 \<and> \<not> v_leastpriv v)
        then Some (set_cred (\<lambda>c. let m = priv_clr (cr_mpriv c) in
               c\<lparr>cr_mpriv := m, cr_epriv := m, cr_ipriv := m, cr_bpriv := m\<rparr>) u, 0)
        else Some (u, 0)
      }
      else if uid = cr_ruid (u_cred u) then
        Some (set_cred (\<lambda>c. c\<lparr>cr_uid := uid, cr_epriv := cr_ipriv c,
                              cr_bpriv := cr_ipriv c\<rparr>) u, 0)
      else if uid = cr_suid (u_cred u) then
        (if uid = cr_uid (u_cred u)
         then Some (set_cred (\<lambda>c. c\<lparr>cr_ipriv := cr_mpriv c, cr_bpriv := cr_mpriv c,
                                    cr_epriv := cr_mpriv c\<rparr>) u, 0)
         else Some (set_cred (\<lambda>c. c\<lparr>cr_uid := uid, cr_epriv := cr_mpriv c,
                                    cr_bpriv := cr_mpriv c\<rparr>) u, 0))
      else fail EPERM u)"

definition setuid :: "sysvars \<Rightarrow> uid_t \<Rightarrow> uarea \<Rightarrow> (uarea \<times> int) option" where
  "setuid v uid u = locked_setuid v uid u"

definition locked_setreuid :: "sysvars \<Rightarrow> uid_t \<Rightarrow> uid_t \<Rightarrow> uarea \<Rightarrow> (uarea \<times> int) option" where
  "locked_setreuid v real eff u = (
     let eff = (if eff = -1 then cr_uid (u_cred u) else eff);
         real = (if real = -1 then cr_ruid (u_cred u) else real)
     in
     if eff = cr_ruid (u_cred u) then
       (if eff = real then do {
          (u, rc) \<leftarrow> locked_setuidx v (ID_EFFECTIVE OR ID_REAL OR ID_SAVED) eff u;
          if rc \<noteq> 0 then Some (u, rc)
          else Some (set_cred (\<lambda>c. c\<lparr>cr_epriv := cr_ipriv c, cr_bpriv := cr_ipriv c,
                                     cr_mpriv := cr_ipriv c\<rparr>) u, 0)
        }
        else do {
          (u, rc) \<leftarrow> locked_setuidx v ID_EFFECTIVE eff u;
          if rc \<noteq> 0 then Some (u, rc)
          else Some (set_cred (\<lambda>c. c\<lparr>cr_epriv := cr_ipriv c, cr_bpriv := cr_ipriv c\<rparr>) u, 0)
        })
     else if eff = cr_suid (u_cred u) then
       (if eff = real then do {
          (u, rc) \<leftarrow> locked_setuidx v (ID_SAVED OR ID_REAL OR ID_EFFECTIVE) eff u;
          if rc \<noteq> 0 then Some (u, rc)
          else Some (set_cred (\<lambda>c. c\<lparr>cr_epriv := cr_mpriv c, cr_bpriv := cr_mpriv c,
                                     cr_ipriv := cr_mpriv c\<rparr>) u, 0)
        }
        else do {
          (u, rc) \<leftarrow> locked_setuidx v ID_EFFECTIVE eff u;
          if rc \<noteq> 0 then Some (u, rc)
          else Some (set_cred (\<lambda>c. c\<lparr>cr_epriv := cr_mpriv c, cr_bpriv := cr_mpriv c\<rparr>) u, 0)
        })
     else if eff \<noteq> real then fail EPERM u
     else do {
       (u, rc) \<leftarrow> locked_setuidx v (ID_EFFECTIVE OR ID_REAL OR ID_SAVED) eff u;
       if rc \<noteq> 0 then Some (u, rc)
       else Some (set_cred (\<lambda>c. let m = priv_clr (cr_mpriv c) in
              c\<lparr>cr_mpriv := m, cr_ipriv := m, cr_bpriv := m, cr_epriv := m\<rparr>) u, rc)
     })"

definition setreuid :: "sysvars \<Rightarrow> uid_t \<Rightarrow> uid_t \<Rightarrow> uarea \<Rightarrow> (uarea \<times> int) option" where
  "setreuid v real eff u = locked_setreuid v real eff u"

definition getuidx :: "int \<Rightarrow> uarea \<Rightarrow> uarea \<times> uid_t" where
  "getuidx which u =
     (if which = ID_LOGIN then (u, cr_luid (u_cred u))
      else if which = ID_SAVED then (u, cr_suid (u_cred u))
      else if which = ID_REAL then (u, cr_ruid (u_cred u))
      else if which = ID_EFFECTIVE then (u, cr_uid (u_cred u))
      else (u\<lparr>u_error := Some EINVAL\<rparr>, -1))"

definition locked_seteuid :: "sysvars \<Rightarrow> uid_t \<Rightarrow> uarea \<Rightarrow> (uarea \<times> int) option" where
  "locked_seteuid v uid u =
     (if uid = cr_ruid (u_cred u) then do {
        (u, rc) \<leftarrow> locked_setuidx v ID_EFFECTIVE uid u;
        if rc \<noteq> 0 then Some (u, rc)
        else Some (set_cred (\<lambda>c. c\<lparr>cr_epriv := cr_ipriv c, cr_bpriv := cr_ipriv c\<rparr>) u, 0)
      }
      else if uid = cr_suid (u_cred u) then do {
        (u, rc) \<leftarrow> locked_setuidx v ID_EFFECTIVE uid u;
        if rc \<noteq> 0 then Some (u, rc)
        else Some (set_cred (\<lambda>c. c\<lparr>cr_epriv := cr_mpriv c, cr_bpriv := cr_mpriv c\<rparr>) u, 0)
      }
      else if privcheck v SET_PROC_DAC u = None then do {
        (u, rc) \<leftarrow> locked_setuidx v ID_EFFECTIVE uid u;
        if rc \<noteq> 0 then Some (u, rc)
        else if \<not> (uid = 0 \<and> \<not> v_leastpriv v)
        then Some (set_cred (\<lambda>c. c\<lparr>cr_epriv := priv_clr (cr_epriv c),
                                   cr_bpriv := priv_clr (cr_bpriv c)\<rparr>) u, 0)
        else Some (u, 0)
      }
      else if uid = cr_uid (u_cred u) then Some (u, 0)
      else fail EPERM u)"

definition seteuid :: "sysvars \<Rightarrow> uid_t \<Rightarrow> uarea \<Rightarrow> (uarea \<times> int) option" where
  "seteuid v uid u = locked_seteuid v uid u"

section \<open>Group identities\<close>

fun in_groups :: "gid_t \<Rightarrow> gid_t list \<Rightarrow> bool" where
  "in_groups gid [] = False"
| "in_groups gid (g # gs) = (if g = gid then True else in_groups gid gs)"

definition groupmember_cr :: "gid_t \<Rightarrow> ucred \<Rightarrow> bool" where
  "groupmember_cr gid crp =
     (if cr_gid crp = gid then True else in_groups gid (cr_groups crp))"

definition groupmember :: "gid_t \<Rightarrow> uarea \<Rightarrow> bool" where
  "groupmember gid u = groupmember_cr gid (u_cred u)"

definition setgidx :: "sysvars \<Rightarrow> int \<Rightarrow> gid_t \<Rightarrow> uarea \<Rightarrow> uarea \<times> int" where
  "setgidx v which gid u =
     (if gid = -1 then (u\<lparr>u_error := Some EINVAL\<rparr>, -1)
      else if which = (ID_SAVED OR ID_REAL OR ID_EFFECTIVE) then
        (let u = u\<lparr>u_error := privcheck v SET_PROC_DAC u\<rparr> in
         if u_error u \<noteq> None then (u\<lparr>u_error := Some EPERM\<rparr>, -1)
         else (set_cred (\<lambda>c. c\<lparr>cr_sgid := gid, cr_rgid := gid, cr_gid := gid\<rparr>) u, 0))
      else if which = (ID_REAL OR ID_EFFECTIVE) then
        (let u = u\<lparr>u_error := privcheck v SET_PROC_DAC u\<rparr> in
         if u_error u \<noteq> None then (u\<lparr>u_error := Some EPERM\<rparr>, -1)
         else (set_cred (\<lambda>c. c\<lparr>cr_rgid := gid, cr_gid := gid\<rparr>) u, 0))
      else if which = ID_EFFECTIVE then
        (let rgid = cr_rgid (u_cred u); sgid = cr_sgid (u_cred u) in
         if gid \<noteq> rgid \<and> gid \<noteq> sgid \<and> \<not> groupmember gid u
            \<and> privcheck v SET_PROC_DAC u \<noteq> None
         then (u\<lparr>u_error := Some EPERM\<rparr>, -1)
         else (set_cred (\<lambda>c. c\<lparr>cr_gid := gid\<rparr>) u, 0))
      else (u\<lparr>u_error := Some EINVAL\<rparr>, -1))"

definition setgid :: "sysvars \<Rightarrow> gid_t \<Rightarrow> uarea \<Rightarrow> uarea \<times> int" where
  "setgid v gid u =
     (if privcheck v SET_PROC_DAC u \<noteq> None then setgidx v ID_EFFECTIVE gid u
      else setgidx v (ID_SAVED OR ID_REAL OR ID_EFFECTIVE) gid u)"

definition getgidx :: "int \<Rightarrow> uarea \<Rightarrow> uarea \<times> gid_t" where
  "getgidx which u =
     (if which = ID_EFFECTIVE then (u, cr_gid (u_cred u))
      else if which = ID_REAL then (u, cr_rgid (u_cred u))
      else if which = ID_SAVED then (u, cr_sgid (u_cred u))
      else (u\<lparr>u_error := Some EINVAL\<rparr>, -1))"

text \<open>
  \<open>getgroups\<close> returns what was copied out as a third component; \<open>copyout_ok\<close> says whether
  the user's buffer could be written.
\<close>

definition getgroups ::
    "int \<Rightarrow> bool \<Rightarrow> uarea \<Rightarrow> uarea \<times> int \<times> gid_t list option" where
  "getgroups ngroups copyout_ok u = (
     let gs = cr_groups (u_cred u); n = int (length gs) in
     if ngroups = 0 then (u, n, None)
     else if ngroups < n then (u\<lparr>u_error := Some EINVAL\<rparr>, -1, None)
     else if \<not> copyout_ok then (u\<lparr>u_error := Some EFAULT\<rparr>, -1, None)
     else (u, n, Some gs))"

text \<open>
  The loop over the new set stops at the first invalid identifier; otherwise it says
  whether some member is not in the present group set.
\<close>

fun scan_gidset :: "gid_t list \<Rightarrow> bool \<Rightarrow> uarea \<Rightarrow> bool option" where
  "scan_gidset [] notsubset u = Some notsubset"
| "scan_gidset (g # gs) notsubset u =
     (if g = -1 then None
      else scan_gidset gs (if \<not> groupmember g u then True else notsubset) u)"

text \<open>
  The user's array \<open>gidset\<close> holds \<open>ngroups\<close> elements when it can be read
  (\<open>copyin_ok\<close>).
\<close>

definition setgroups ::
    "sysvars \<Rightarrow> int \<Rightarrow> gid_t list \<Rightarrow> bool \<Rightarrow> uarea \<Rightarrow> uarea \<times> int" where
  "setgroups v ngroups gidset copyin_ok u =
     (if ngroups < 0 \<or> ngroups > NGROUPS_MAX then (u\<lparr>u_error := Some EINVAL\<rparr>, -1)
      else if \<not> copyin_ok then (u\<lparr>u_error := Some EFAULT\<rparr>, -1)
      else let new_gidset = take (nat ngroups) gidset in
        (case scan_gidset new_gidset False u of
           None \<Rightarrow> (u\<lparr>u_error := Some EINVAL\<rparr>, -1)
         | Some notsubset \<Rightarrow>
             if notsubset \<and> privcheck v SET_PROC_DAC u \<noteq> None
             then (u\<lparr>u_error := Some EPERM\<rparr>, -1)
             else (set_cred (\<lambda>c. c\<lparr>cr_groups := new_gidset\<rparr>) u, 0)))"

section \<open>A process's sequence of identity calls\<close>

datatype credcall =
    Setuidx int uid_t | Setuid uid_t | Setreuid uid_t uid_t | Seteuid uid_t
  | Setgidx int gid_t | Setgid gid_t | Setgroups int "gid_t list" bool

fun cred_step :: "sysvars \<Rightarrow> credcall \<Rightarrow> uarea \<Rightarrow> (uarea \<times> int) option" where
  "cred_step v (Setuidx m uid) u = setuidx v m uid u"
| "cred_step v (Setuid uid) u = setuid v uid u"
| "cred_step v (Setreuid r e) u = setreuid v r e u"
| "cred_step v (Seteuid uid) u = seteuid v uid u"
| "cred_step v (Setgidx w gid) u = Some (setgidx v w gid u)"
| "cred_step v (Setgid gid) u = Some (setgid v gid u)"
| "cred_step v (Setgroups n gs ok) u = Some (setgroups v n gs ok u)"

definition cred_next :: "sysvars \<Rightarrow> credcall \<Rightarrow> uarea \<Rightarrow> uarea option" where
  "cred_next v call u = map_option fst (cred_step v call u)"

section \<open>What the identity calls keep\<close>

lemma new_uidl_frame:
  "new_uidl v newuid m u = Some (u', rc) \<Longrightarrow> u_cred u' = u_cred u \<and> u_procp u' = u_procp u"
  by (auto simp: new_uidl_def Let_def bind_eq_Some_conv split: if_splits option.splits)

definition has_bit :: "nat \<Rightarrow> priv_t \<Rightarrow> bool" where
  "has_bit p pv = (if p < 33 then bit (pv_priv0 pv) (p - 1) else bit (pv_priv1 pv) (p - 33))"

lemma privcheck_cr_iff:
  "privcheck_cr v p c = None \<longleftrightarrow>
     (if p = TRUSTED_PATH then on_tpath v
      else \<not> v_leastpriv v \<and> cr_uid c = 0 \<or> has_bit p (cr_epriv c))"
  by (simp add: privcheck_cr_def has_bit_def Let_def and_exp_eq_0_iff_not_bit)

text \<open>Every privilege in one of the four vectors of the credentials is in \<open>B\<close>.\<close>

definition priv_bound :: "priv_t \<Rightarrow> ucred \<Rightarrow> bool" where
  "priv_bound B c \<longleftrightarrow> priv_le (cr_mpriv c) B \<and> priv_le (cr_ipriv c) B
     \<and> priv_le (cr_epriv c) B \<and> priv_le (cr_bpriv c) B"

lemma priv_le_clr [simp]: "priv_le (priv_clr p) B"
  by (simp add: priv_le_def priv_clr_def)

lemma priv_le_none:
  "priv_le p \<lparr>pv_priv0 = 0, pv_priv1 = 0\<rparr> \<longleftrightarrow> pv_priv0 p = 0 \<and> pv_priv1 p = 0"
  by (simp add: priv_le_def)

lemma priv_le_of_none: "pv_priv0 p = 0 \<Longrightarrow> pv_priv1 p = 0 \<Longrightarrow> priv_le p B"
  by (simp add: priv_le_def)

lemma priv_le_bit: "priv_le p B \<Longrightarrow> has_bit n p \<Longrightarrow> has_bit n B"
  by (auto simp: priv_le_def has_bit_def split: if_splits) (metis bit_and_iff)+

lemma set_cred_simps [simp]:
  "u_cred (set_cred f u) = f (u_cred u)" "u_error (set_cred f u) = u_error u"
  "proc_tab (set_cred f u) = proc_tab u" "u_procp (set_cred f u) = u_procp u"
  by (simp_all add: set_cred_def)

lemma fail_Some: "fail e u = Some (u', rc) \<longleftrightarrow> u' = u\<lparr>u_error := Some e\<rparr> \<and> rc = -1"
  by (auto simp: fail_def)

lemma locked_setuidx_bound:
  "locked_setuidx v m uid u = Some (u', rc) \<Longrightarrow> priv_bound B (u_cred u)
     \<Longrightarrow> priv_bound B (u_cred u')"
  by (auto simp: locked_setuidx_def fail_Some Let_def priv_bound_def
        bind_eq_Some_conv split: if_splits dest!: new_uidl_frame)

text \<open>
  With \<open>locked_setuidx\<close> characterised, the calls built on it are settled by the four
  updates of the privilege vectors they may make.
\<close>

lemma priv_bound_updates:
  assumes "priv_bound B c"
  shows "priv_bound B (c\<lparr>cr_epriv := cr_ipriv c, cr_bpriv := cr_ipriv c\<rparr>)"
    "priv_bound B (c\<lparr>cr_epriv := cr_mpriv c, cr_bpriv := cr_mpriv c\<rparr>)"
    "priv_bound B (c\<lparr>cr_epriv := cr_ipriv c, cr_bpriv := cr_ipriv c, cr_mpriv := cr_ipriv c\<rparr>)"
    "priv_bound B (c\<lparr>cr_epriv := cr_mpriv c, cr_bpriv := cr_mpriv c, cr_ipriv := cr_mpriv c\<rparr>)"
    "priv_bound B (c\<lparr>cr_ipriv := cr_mpriv c, cr_bpriv := cr_mpriv c, cr_epriv := cr_mpriv c\<rparr>)"
    "priv_bound B (c\<lparr>cr_epriv := priv_clr (cr_epriv c), cr_bpriv := priv_clr (cr_bpriv c)\<rparr>)"
    "priv_bound B (let m = priv_clr (cr_mpriv c)
       in c\<lparr>cr_mpriv := m, cr_ipriv := m, cr_bpriv := m, cr_epriv := m\<rparr>)"
    "priv_bound B (let m = priv_clr (cr_mpriv c)
       in c\<lparr>cr_mpriv := m, cr_epriv := m, cr_ipriv := m, cr_bpriv := m\<rparr>)"
  using assms by (simp_all add: priv_bound_def Let_def)

lemma priv_bound_ids [simp]:
  "priv_bound B (c\<lparr>cr_uid := x\<rparr>) = priv_bound B c"
  "priv_bound B (c\<lparr>cr_ruid := x\<rparr>) = priv_bound B c"
  "priv_bound B (c\<lparr>cr_suid := x\<rparr>) = priv_bound B c"
  "priv_bound B (c\<lparr>cr_gid := x\<rparr>) = priv_bound B c"
  "priv_bound B (c\<lparr>cr_rgid := x\<rparr>) = priv_bound B c"
  "priv_bound B (c\<lparr>cr_sgid := x\<rparr>) = priv_bound B c"
  "priv_bound B (c\<lparr>cr_groups := gs\<rparr>) = priv_bound B c"
  by (simp_all add: priv_bound_def)

lemma setuid_bound:
  "setuid v uid u = Some (u', rc) \<Longrightarrow> priv_bound B (u_cred u) \<Longrightarrow> priv_bound B (u_cred u')"
  by (auto simp: setuid_def locked_setuid_def fail_Some Let_def priv_bound_def
        bind_eq_Some_conv split: if_splits dest!: new_uidl_frame)

lemma setreuid_bound:
  "setreuid v r e u = Some (u', rc) \<Longrightarrow> priv_bound B (u_cred u) \<Longrightarrow> priv_bound B (u_cred u')"
  unfolding setreuid_def locked_setreuid_def Let_def
  by (auto simp: fail_Some bind_eq_Some_conv split: if_splits
      dest!: locked_setuidx_bound [where B = B]
      intro: priv_bound_updates [unfolded Let_def])

lemma seteuid_bound:
  "seteuid v uid u = Some (u', rc) \<Longrightarrow> priv_bound B (u_cred u) \<Longrightarrow> priv_bound B (u_cred u')"
  unfolding seteuid_def locked_seteuid_def
  by (auto simp: fail_Some bind_eq_Some_conv split: if_splits
      dest!: locked_setuidx_bound [where B = B]
      intro: priv_bound_updates)

lemma group_calls_bound:
  "priv_bound B (u_cred u) \<Longrightarrow> priv_bound B (u_cred (fst (setgidx v w gid u)))"
  "priv_bound B (u_cred u) \<Longrightarrow> priv_bound B (u_cred (fst (setgid v gid u)))"
  "priv_bound B (u_cred u) \<Longrightarrow> priv_bound B (u_cred (fst (setgroups v n gs ok u)))"
  by (simp_all add: setgidx_def setgid_def setgroups_def Let_def split: option.splits)

lemma cred_next_bound:
  assumes "priv_bound B (u_cred u)" and "cred_next v call u = Some u'"
  shows "priv_bound B (u_cred u')"
  using assms
  by (cases call) (auto simp: cred_next_def setuidx_def
      dest: locked_setuidx_bound setuid_bound setreuid_bound seteuid_bound
      intro: group_calls_bound)

interpretation privs: machine "cred_next v" "\<lambda>u. priv_bound B (u_cred u)" for v B
  by unfold_locales (rule cred_next_bound)

section \<open>Processes without privilege\<close>

definition all_but_dac :: priv_t where
  "all_but_dac = \<lparr>pv_priv0 = NOT (push_bit 19 1), pv_priv1 = -1\<rparr>"

definition unprivileged :: "sysvars \<Rightarrow> ucred \<Rightarrow> bool" where
  "unprivileged v c \<longleftrightarrow> priv_bound all_but_dac c
     \<and> (v_leastpriv v \<or> cr_uid c \<noteq> 0 \<and> cr_ruid c \<noteq> 0 \<and> cr_suid c \<noteq> 0)"

definition gid_set :: "ucred \<Rightarrow> gid_t set" where
  "gid_set c = {cr_gid c, cr_rgid c, cr_sgid c} \<union> set (cr_groups c)"

text \<open>\<open>c\<close> is what a process that started with \<open>c0\<close> may have become.\<close>

definition confined :: "sysvars \<Rightarrow> ucred \<Rightarrow> ucred \<Rightarrow> bool" where
  "confined v c0 c \<longleftrightarrow> unprivileged v c
     \<and> cr_ruid c = cr_ruid c0 \<and> cr_suid c = cr_suid c0 \<and> cr_luid c = cr_luid c0
     \<and> cr_rgid c = cr_rgid c0 \<and> cr_sgid c = cr_sgid c0
     \<and> cr_uid c \<in> {cr_uid c0, cr_ruid c0, cr_suid c0}
     \<and> gid_set c \<subseteq> gid_set c0"

lemma all_but_dac_bit: "\<not> has_bit SET_PROC_DAC all_but_dac"
  by (simp add: all_but_dac_def has_bit_def bit_simps)

lemma unprivileged_check:
  "unprivileged v (u_cred u) \<Longrightarrow> privcheck v SET_PROC_DAC u = Some EPERM"
proof -
  assume *: "unprivileged v (u_cred u)"
  then have "\<not> has_bit SET_PROC_DAC (cr_epriv (u_cred u))"
    using all_but_dac_bit priv_le_bit by (auto simp: unprivileged_def priv_bound_def)
  with * have "privcheck_cr v SET_PROC_DAC (u_cred u) \<noteq> None"
    by (auto simp: privcheck_cr_iff unprivileged_def)
  then show ?thesis by (auto simp: privcheck_def privcheck_cr_def Let_def split: if_splits)
qed

lemma privcheck_cases: "privcheck v p u = None \<or> privcheck v p u = Some EPERM"
  by (simp add: privcheck_def privcheck_cr_def Let_def)

lemma in_groups_iff: "in_groups g gs \<longleftrightarrow> g \<in> set gs"
  by (induction gs) auto

lemma groupmember_iff: "groupmember g u \<longleftrightarrow> g = cr_gid (u_cred u) \<or> g \<in> set (cr_groups (u_cred u))"
  by (auto simp: groupmember_def groupmember_cr_def in_groups_iff)

lemma unprivileged_setuidx:
  assumes "unprivileged v (u_cred u)"
  shows "\<exists>u' rc. locked_setuidx v m uid u = Some (u', rc)
     \<and> (rc \<noteq> 0 \<and> u_cred u' = u_cred u
        \<or> rc = 0 \<and> uid \<in> {cr_ruid (u_cred u), cr_suid (u_cred u)}
           \<and> u_cred u' = (u_cred u)\<lparr>cr_uid := uid\<rparr>)"
proof (cases "m = ID_EFFECTIVE")
  case True
  then show ?thesis
    using unprivileged_check [OF assms]
    by (auto simp: locked_setuidx_def fail_def)
next
  case False
  then show ?thesis
    using unprivileged_check [OF assms]
      unprivileged_check [of v "u\<lparr>u_error := x\<rparr>" for x] assms
    by (auto simp: locked_setuidx_def fail_def Let_def privcheck_def)
qed

definition uid_frame :: "ucred \<Rightarrow> ucred \<Rightarrow> bool" where
  "uid_frame c0 c \<longleftrightarrow> cr_ruid c = cr_ruid c0 \<and> cr_suid c = cr_suid c0 \<and> cr_luid c = cr_luid c0
     \<and> cr_gid c = cr_gid c0 \<and> cr_rgid c = cr_rgid c0 \<and> cr_sgid c = cr_sgid c0
     \<and> cr_groups c = cr_groups c0 \<and> cr_uid c \<in> {cr_uid c0, cr_ruid c0, cr_suid c0}"

text \<open>The call came back and changed at most the effective user and the vectors.\<close>

definition uid_kept :: "uarea \<Rightarrow> (uarea \<times> int) option \<Rightarrow> bool" where
  "uid_kept u res \<longleftrightarrow> (\<exists>u' rc. res = Some (u', rc) \<and> uid_frame (u_cred u) (u_cred u'))"

lemma uid_kept_Some: "uid_frame (u_cred u) (u_cred u') \<Longrightarrow> uid_kept u (Some (u', rc))"
  by (simp add: uid_kept_def)

lemma uid_kept_fail: "uid_kept u (fail e u)"
  by (simp add: uid_kept_def fail_def uid_frame_def)

lemma uid_kept_if: "(P \<Longrightarrow> uid_kept u a) \<Longrightarrow> (\<not> P \<Longrightarrow> uid_kept u b) \<Longrightarrow> uid_kept u (if P then a else b)"
  by simp

lemma uid_kept_setuidx:
  "unprivileged v (u_cred u) \<Longrightarrow> uid_kept u (locked_setuidx v m uid u)"
  using unprivileged_setuidx [of v u m uid] by (auto simp: uid_kept_def uid_frame_def)

lemma uid_kept_then:
  assumes "unprivileged v (u_cred u)"
    and "\<And>c. uid_frame (u_cred u) c \<Longrightarrow> uid_frame (u_cred u) (g c)"
  shows "uid_kept u (do { (u, rc) \<leftarrow> locked_setuidx v m uid u;
            if rc \<noteq> 0 then Some (u, rc) else Some (set_cred g u, h rc) })"
proof -
  obtain u' rc where st: "locked_setuidx v m uid u = Some (u', rc)"
    and "uid_frame (u_cred u) (u_cred u')"
    using uid_kept_setuidx [OF assms(1), of m uid] by (auto simp: uid_kept_def)
  with assms(2) show ?thesis by (cases "rc = 0") (auto simp: uid_kept_def)
qed

lemmas uid_kept_intros = uid_kept_Some uid_kept_fail uid_kept_if uid_kept_setuidx uid_kept_then

lemma unprivileged_uid_step:
  assumes "unprivileged v (u_cred u)"
    and "call = Setuidx m uid \<or> call = Setuid uid \<or> call = Setreuid r uid \<or> call = Seteuid uid"
  shows "uid_kept u (cred_step v call u)"
  using assms(2)
proof (elim disjE)
  assume c: "call = Setuidx m uid"
  show ?thesis by (simp add: c setuidx_def uid_kept_setuidx [OF assms(1)])
next
  assume c: "call = Setuid uid"
  show ?thesis using unprivileged_check [OF assms(1)]
    by (simp add: c setuid_def locked_setuid_def uid_kept_def fail_def uid_frame_def)
next
  assume c: "call = Setreuid r uid"
  show ?thesis unfolding c cred_step.simps setreuid_def locked_setreuid_def Let_def
    by (intro uid_kept_intros assms(1)) (simp_all add: uid_frame_def)
next
  assume c: "call = Seteuid uid"
  show ?thesis
    unfolding c cred_step.simps seteuid_def locked_seteuid_def unprivileged_check [OF assms(1)]
    by (intro uid_kept_if uid_kept_fail uid_kept_then uid_kept_Some assms(1))
      (simp_all add: uid_frame_def)
qed

lemma unprivileged_gid_step:
  assumes "unprivileged v (u_cred u)"
    and "call = Setgidx w gid \<or> call = Setgid gid \<or> call = Setgroups n gs ok"
  shows "\<exists>u' rc. cred_step v call u = Some (u', rc)
     \<and> cr_ruid (u_cred u') = cr_ruid (u_cred u) \<and> cr_suid (u_cred u') = cr_suid (u_cred u)
     \<and> cr_luid (u_cred u') = cr_luid (u_cred u) \<and> cr_uid (u_cred u') = cr_uid (u_cred u)
     \<and> cr_rgid (u_cred u') = cr_rgid (u_cred u) \<and> cr_sgid (u_cred u') = cr_sgid (u_cred u)
     \<and> gid_set (u_cred u') \<subseteq> gid_set (u_cred u)"
  using assms(2)
proof (elim disjE)
  have setgidx_ok: "\<exists>u' rc. setgidx v w gid u = (u', rc)
     \<and> (u_cred u' = u_cred u \<or> gid \<in> gid_set (u_cred u) \<and> u_cred u' = (u_cred u)\<lparr>cr_gid := gid\<rparr>)"
    for w
    using unprivileged_check [OF assms(1)] unprivileged_check [of v "u\<lparr>u_error := x\<rparr>" for x] assms(1)
    by (auto simp: setgidx_def Let_def groupmember_iff gid_set_def privcheck_def)
  {
    assume c: "call = Setgidx w gid"
    show ?thesis using setgidx_ok [of w] by (auto simp: c gid_set_def)
  next
    assume c: "call = Setgid gid"
    show ?thesis using setgidx_ok [of ID_EFFECTIVE] unprivileged_check [OF assms(1)]
      by (auto simp: c setgid_def gid_set_def)
  }
next
  assume c: "call = Setgroups n gs ok"
  have scan: "scan_gidset xs b u = Some False \<Longrightarrow> \<not> b \<and> set xs \<subseteq> gid_set (u_cred u)" for xs b
    by (induction xs arbitrary: b) (auto simp: groupmember_iff gid_set_def split: if_splits)
  show ?thesis
    using unprivileged_check [OF assms(1)] scan [of "take (nat n) gs" False]
    by (auto simp: c setgroups_def Let_def gid_set_def split: option.splits)
qed

lemma unprivileged_next:
  assumes "unprivileged v (u_cred u)"
  shows "\<exists>u'. cred_next v call u = Some u' \<and> confined v (u_cred u) (u_cred u')"
proof -
  obtain u' rc where st: "cred_step v call u = Some (u', rc)"
    and same: "cr_ruid (u_cred u') = cr_ruid (u_cred u)" "cr_suid (u_cred u') = cr_suid (u_cred u)"
      "cr_luid (u_cred u') = cr_luid (u_cred u)" "cr_rgid (u_cred u') = cr_rgid (u_cred u)"
      "cr_sgid (u_cred u') = cr_sgid (u_cred u)"
    and uid: "cr_uid (u_cred u') \<in> {cr_uid (u_cred u), cr_ruid (u_cred u), cr_suid (u_cred u)}"
    and gid: "gid_set (u_cred u') \<subseteq> gid_set (u_cred u)"
  proof (cases call)
    case (Setgidx w g)
    with unprivileged_gid_step [OF assms, of call w g _ _ _] that show ?thesis by auto
  next
    case (Setgid g)
    with unprivileged_gid_step [OF assms, of call _ g] that show ?thesis by auto
  next
    case (Setgroups n gs ok)
    with unprivileged_gid_step [OF assms, of call _ _ n gs ok] that show ?thesis by auto
  qed (use unprivileged_uid_step [OF assms, of call] that in \<open>force simp: uid_kept_def gid_set_def uid_frame_def\<close>)+
  have nx: "cred_next v call u = Some u'" by (simp add: cred_next_def st)
  have "priv_bound all_but_dac (u_cred u')"
    using cred_next_bound [OF _ nx] assms by (auto simp: unprivileged_def)
  with same uid assms have "unprivileged v (u_cred u')" by (auto simp: unprivileged_def)
  with nx same uid gid show ?thesis by (auto simp: confined_def)
qed

interpretation unpriv: total_machine "cred_next v" "\<lambda>u. confined v c0 (u_cred u)" for v c0
proof unfold_locales
  fix u :: uarea and call
  assume c: "confined v c0 (u_cred u)"
  from unprivileged_next [of v u call] c
  obtain u' where u': "cred_next v call u = Some u'" "confined v (u_cred u) (u_cred u')"
    by (auto simp: confined_def)
  then show "\<exists>u'. cred_next v call u = Some u'" by blast
  fix t
  assume "cred_next v call u = Some t"
  with u' c show "confined v c0 (u_cred t)" by (auto simp: confined_def)
qed

section \<open>Walks over the uid lists\<close>

text \<open>
  The links are a permutation of the slots: every list through \<open>p_uidl\<close> is circular. On
  such a table both walks end within as many steps as there are slots.
\<close>

definition uidl_perm :: "proc_t list \<Rightarrow> bool" where
  "uidl_perm tab \<longleftrightarrow> (\<forall>i < length tab. p_uidl (tab ! i) < length tab)
     \<and> inj_on (\<lambda>i. p_uidl (tab ! i)) {..<length tab}"

lemma uidl_perm_lists:
  "uidl_perm tab \<longleftrightarrow> list_all (\<lambda>p. p_uidl p < length tab) tab \<and> distinct (map p_uidl tab)"
proof -
  have "inj_on (\<lambda>i. p_uidl (tab ! i)) {..<length tab} \<longleftrightarrow> distinct (map p_uidl tab)"
    by (auto simp: distinct_conv_nth inj_on_def)
  then show ?thesis by (simp add: uidl_perm_def list_all_length)
qed

lemma funpow_cycle:
  fixes f :: "nat \<Rightarrow> nat"
  assumes range: "\<forall>i < n. f i < n" and inj: "inj_on f {..<n}" and x: "x < n"
  shows "\<exists>k < n. (f ^^ Suc k) x = x"
proof -
  have in_n: "(f ^^ k) x < n" for k
    by (induction k) (use range x in auto)
  have "\<not> inj_on (\<lambda>k. (f ^^ k) x) {..n}"
  proof
    assume "inj_on (\<lambda>k. (f ^^ k) x) {..n}"
    then have "card {..n} \<le> card {..<n}"
      by (rule card_inj_on_le) (use in_n in auto)
    then show False by simp
  qed
  then obtain i j where "i < j" "j \<le> n" and eq: "(f ^^ i) x = (f ^^ j) x"
    unfolding inj_on_def by (metis atMost_iff linorder_neqE_nat)
  have "(f ^^ i) x = (f ^^ (i + d)) x \<Longrightarrow> x = (f ^^ d) x" for d
  proof (induction i)
    case (Suc i)
    then have "f ((f ^^ i) x) = f ((f ^^ (i + d)) x)" by simp
    with inj in_n have "(f ^^ i) x = (f ^^ (i + d)) x"
      by (meson inj_onD lessThan_iff)
    then show ?case by (rule Suc.IH)
  qed simp
  from this [of "j - i"] eq \<open>i < j\<close> have "x = (f ^^ (j - i)) x" by simp
  with \<open>i < j\<close> \<open>j \<le> n\<close> show ?thesis
    by (intro exI [of _ "j - i - 1"]) (simp add: Suc_diff_Suc)
qed

lemma uidl_cycle:
  "uidl_perm tab \<Longrightarrow> x < length tab
     \<Longrightarrow> \<exists>k < length tab. ((\<lambda>i. p_uidl (tab ! i)) ^^ Suc k) x = x"
  by (rule funpow_cycle) (auto simp: uidl_perm_def)

lemma uid_cnt_walk_ends:
  "((\<lambda>i. p_uidl (tab ! i)) ^^ j) q = p \<Longrightarrow> j < n \<Longrightarrow> \<exists>c. uid_cnt_walk n tab p q c0 = Some c"
proof (induction n arbitrary: q j c0)
  case (Suc n)
  then show ?case by (cases j) (auto simp: funpow_Suc_right simp del: funpow.simps)
qed simp

lemma uidl_pred_ends:
  "((\<lambda>i. p_uidl (tab ! i)) ^^ Suc j) q = pr \<Longrightarrow> j < n \<Longrightarrow> uidl_perm tab \<Longrightarrow> q < length tab
     \<Longrightarrow> \<exists>q'. uidl_pred n tab pr q = Some q' \<and> q' < length tab \<and> p_uidl (tab ! q') = pr"
proof (induction n arbitrary: q j)
  case (Suc n)
  show ?case
  proof (cases "pr = p_uidl (tab ! q)")
    case False
    with Suc.prems obtain i where "j = Suc i" by (cases j) auto
    with Suc.prems have "((\<lambda>i. p_uidl (tab ! i)) ^^ Suc i) (p_uidl (tab ! q)) = pr"
      by (simp add: funpow_Suc_right del: funpow.simps)
    from Suc.IH [OF this] Suc.prems \<open>j = Suc i\<close> False show ?thesis
      by (auto simp: uidl_perm_def)
  qed (use Suc.prems in auto)
qed simp

lemma uid_proc_Some: "uid_proc tab newuid = Some p \<Longrightarrow> p < length tab"
  by (auto simp: uid_proc_def find_Some_iff)

text \<open>The effect of \<open>uidl_relink\<close> on the links, as an update of the link function.\<close>

lemma length_uidl_relink [simp]: "length (uidl_relink newuid m pr p q tab) = length tab"
  by (simp add: uidl_relink_def Let_def split: option.splits)

lemma uidl_relink_links:
  assumes "q < length tab" "pr < length tab" "\<And>x. p = Some x \<Longrightarrow> x < length tab" "i < length tab"
  shows "p_uidl (uidl_relink newuid m pr p q tab ! i) =
    (let f = (\<lambda>i. p_uidl (tab ! i)); f = f(q := f pr)
     in (case p of Some p \<Rightarrow> f(pr := f p, p := pr) | None \<Rightarrow> f(pr := pr)) i)"
  using assms
  by (cases p) (auto simp: uidl_relink_def Let_def nth_upd)

lemma uidl_perm_relink:
  assumes perm: "uidl_perm tab" and q: "q < length tab" "p_uidl (tab ! q) = pr"
    and pr: "pr < length tab" and p: "\<And>x. p = Some x \<Longrightarrow> x < length tab"
  shows "uidl_perm (uidl_relink newuid m pr p q tab)"
proof -
  let ?n = "length tab"
  define f where "f = (\<lambda>i. p_uidl (tab ! i))"
  define g where "g = (let f = f(q := f pr)
     in (case p of Some p \<Rightarrow> f(pr := f p, p := pr) | None \<Rightarrow> f(pr := pr)))"
  have f: "\<forall>i < ?n. f i < ?n" "inj_on f {..<?n}" "f q = pr"
    using perm q by (auto simp: uidl_perm_def f_def)
  have links: "i < ?n \<Longrightarrow> p_uidl (uidl_relink newuid m pr p q tab ! i) = g i" for i
    using uidl_relink_links [OF q(1) pr p] by (simp add: g_def f_def Let_def)
  have "\<forall>i < ?n. g i < ?n"
    using f pr q p by (auto simp: g_def Let_def split: option.splits)
  moreover have "inj_on g {..<?n}"
  proof (rule inj_onI)
    fix i j assume ij: "i \<in> {..<?n}" "j \<in> {..<?n}" and eq: "g i = g j"
    have inj: "a < ?n \<Longrightarrow> b < ?n \<Longrightarrow> f a = f b \<longleftrightarrow> a = b" for a b
      using f(2) by (auto simp: inj_on_def)
    show "i = j"
    proof (cases p)
      case None
      then show ?thesis using eq ij f q pr inj
        by (auto simp: g_def Let_def split: if_splits)
    next
      case (Some x)
      then show ?thesis using eq ij f q pr inj p [OF Some]
        by (auto simp: g_def Let_def split: if_splits)
    qed
  qed
  moreover have "inj_on (\<lambda>i. p_uidl (uidl_relink newuid m pr p q tab ! i)) {..<?n} = inj_on g {..<?n}"
    by (rule inj_on_cong) (simp add: links)
  ultimately show ?thesis using links by (simp add: uidl_perm_def)
qed

lemma new_uidl_ends:
  assumes perm: "uidl_perm (proc_tab u)" and pr: "u_procp u < length (proc_tab u)"
  shows "\<exists>u' rc. new_uidl v newuid m u = Some (u', rc) \<and> uidl_perm (proc_tab u')"
proof -
  let ?tab = "proc_tab u"
  have walk: "\<exists>c. uid_cnt_walk (length ?tab) ?tab p (p_uidl (?tab ! p)) 1 = Some c"
    if "uid_proc ?tab newuid = Some p" for p
  proof -
    from uidl_cycle [OF perm uid_proc_Some [OF that]]
    obtain k where "k < length ?tab" "((\<lambda>i. p_uidl (?tab ! i)) ^^ Suc k) p = p" by blast
    then show ?thesis by (intro uid_cnt_walk_ends) (auto simp: funpow_Suc_right simp del: funpow.simps)
  qed
  from uidl_cycle [OF perm pr]
  obtain k where "k < length ?tab" "((\<lambda>i. p_uidl (?tab ! i)) ^^ Suc k) (u_procp u) = u_procp u" by blast
  from uidl_pred_ends [OF this(2,1) perm pr]
  obtain q where q: "uidl_pred (length ?tab) ?tab (u_procp u) (u_procp u) = Some q"
    "q < length ?tab" "p_uidl (?tab ! q) = u_procp u" by blast
  have "uidl_perm (uidl_relink newuid m (u_procp u) (uid_proc ?tab newuid) q ?tab)"
    by (rule uidl_perm_relink [OF perm q(2,3) pr]) (rule uid_proc_Some)
  then show ?thesis
    using walk q perm by (cases "uid_proc ?tab newuid") (auto simp: new_uidl_def Let_def)
qed

section \<open>Properties\<close>

text \<open>A process used by the witnesses: user 100 running a set-user-id program of user 200.\<close>

definition ex_cred :: ucred where
  "ex_cred = \<lparr>cr_ruid = 100, cr_uid = 200, cr_suid = 200, cr_luid = 100, cr_gid = 1,
     cr_rgid = 1, cr_sgid = 7, cr_groups = [1, 3],
     cr_mpriv = \<lparr>pv_priv0 = 0, pv_priv1 = 0\<rparr>, cr_ipriv = \<lparr>pv_priv0 = 0, pv_priv1 = 0\<rparr>,
     cr_epriv = \<lparr>pv_priv0 = 0, pv_priv1 = 0\<rparr>, cr_bpriv = \<lparr>pv_priv0 = 0, pv_priv1 = 0\<rparr>\<rparr>"

definition ex_vars :: sysvars where
  "ex_vars = \<lparr>v_leastpriv = False, v_maxup = 40, on_tpath = False\<rparr>"

definition ex_uarea :: uarea where
  "ex_uarea = \<lparr>u_cred = ex_cred, u_error = None,
     proc_tab = [\<lparr>p_stat = SACTIVE, p_uid = 0, p_suid = 0, p_uidl = 2\<rparr>,
                 \<lparr>p_stat = SACTIVE, p_uid = 100, p_suid = 200, p_uidl = 1\<rparr>,
                 \<lparr>p_stat = SACTIVE, p_uid = 0, p_suid = 0, p_uidl = 0\<rparr>],
     u_procp = 1\<rparr>"

lemmas ex_cred_defs = ex_cred_def ex_vars_def ex_uarea_def

text \<open>
  C5. A process without SET_PROC_DAC in any of its privilege vectors and without user 0
  among its identities stays so through every sequence of identity calls: each call comes
  back, the real, saved and login users and the real and saved groups never change, the
  effective user is always one of the initial effective, real and saved users, and the
  effective group and the group set never leave the groups it started with.
\<close>

theorem unprivileged_confined:
  assumes "unprivileged v (u_cred u)"
  shows "\<exists>u'. run (cred_next v) calls u = Some u' \<and> confined v (u_cred u) (u_cred u')"
proof -
  from assms have "confined v (u_cred u) (u_cred u)" by (simp add: confined_def)
  then show ?thesis by (rule unpriv.run_total)
qed

theorem unprivileged_confined_witness:
  "unprivileged ex_vars (u_cred ex_uarea) \<and>
   (\<exists>u'. run (cred_next ex_vars) [Seteuid 100, Setuid 0, Setgroups 1 [7] True] ex_uarea = Some u'
     \<and> confined ex_vars (u_cred ex_uarea) (u_cred u'))"
proof -
  have "unprivileged ex_vars (u_cred ex_uarea)"
    by (simp add: unprivileged_def priv_bound_def priv_le_def ex_cred_defs)
  with unprivileged_confined [OF this] show ?thesis by blast
qed

text \<open>
  No sequence of identity calls, of whatever process, brings a privilege into any of
  its four vectors that was in none of them before.
\<close>

lemma no_privilege_gained:
  assumes "priv_bound B (u_cred u)" and "run (cred_next v) calls u = Some u'"
  shows "priv_bound B (u_cred u')"
  using assms by (rule privs.run_inv)

lemma no_privilege_gained_witness:
  "\<exists>u'. run (cred_next ex_vars) [Seteuid 100, Seteuid 200, Setreuid 100 200] ex_uarea = Some u'
     \<and> priv_bound \<lparr>pv_priv0 = 5, pv_priv1 = 0\<rparr> (u_cred u')"
proof -
  have start: "priv_bound \<lparr>pv_priv0 = 5, pv_priv1 = 0\<rparr> (u_cred ex_uarea)"
    by (simp add: priv_bound_def priv_le_def ex_cred_defs)
  obtain u' where run: "run (cred_next ex_vars) [Seteuid 100, Seteuid 200, Setreuid 100 200] ex_uarea = Some u'"
    by (simp add: cred_next_def seteuid_def locked_seteuid_def setreuid_def locked_setreuid_def
        locked_setuidx_def set_cred_def ex_cred_defs)
  from no_privilege_gained [OF start run] run show ?thesis by blast
qed

lemma setuid_privileged:
  assumes dac: "privcheck v SET_PROC_DAC u = None" and "uid \<noteq> 0"
    and call: "setuid v uid u = Some (u1, 0)"
  shows "cr_uid (u_cred u1) = uid \<and> cr_ruid (u_cred u1) = uid \<and> cr_suid (u_cred u1) = uid
    \<and> priv_bound \<lparr>pv_priv0 = 0, pv_priv1 = 0\<rparr> (u_cred u1)"
  using assms
  by (auto simp: setuid_def locked_setuid_def fail_Some Let_def bind_eq_Some_conv
      priv_bound_def priv_le_def priv_clr_def split: if_splits)

text \<open>
  C8. A privileged process that sets its user to \<open>uid\<close>, not 0, by \<open>setuid\<close> has given
  its privileges up for good: whatever identity calls follow, all three user identities stay
  \<open>uid\<close> and no privilege but the trusted path, which is not a bit of the vectors, is granted.
\<close>

theorem setuid_drops_for_good:
  assumes "privcheck v SET_PROC_DAC u = None" and "uid \<noteq> 0"
    and "setuid v uid u = Some (u1, 0)"
  shows "\<exists>u2. run (cred_next v) calls u1 = Some u2
    \<and> cr_uid (u_cred u2) = uid \<and> cr_ruid (u_cred u2) = uid \<and> cr_suid (u_cred u2) = uid
    \<and> (\<forall>p. p \<noteq> TRUSTED_PATH \<longrightarrow> privcheck v p u2 = Some EPERM)"
proof -
  let ?B = "\<lparr>pv_priv0 = 0, pv_priv1 = 0\<rparr>"
  from setuid_privileged [OF assms]
  have ids: "cr_uid (u_cred u1) = uid" "cr_ruid (u_cred u1) = uid" "cr_suid (u_cred u1) = uid"
    and none: "priv_bound ?B (u_cred u1)" by auto
  then have "unprivileged v (u_cred u1)" using \<open>uid \<noteq> 0\<close>
    by (simp add: unprivileged_def priv_bound_def priv_le_none priv_le_of_none)
  then have "confined v (u_cred u1) (u_cred u1)" by (simp add: confined_def)
  from unpriv.run_total [OF this, of calls]
  obtain u2 where u2: "run (cred_next v) calls u1 = Some u2"
    and conf: "confined v (u_cred u1) (u_cred u2)" by blast
  from privs.run_inv [OF none u2] have "priv_bound ?B (u_cred u2)" .
  then have "\<not> has_bit p (cr_epriv (u_cred u2))" for p
    by (simp add: priv_bound_def priv_le_none has_bit_def)
  with conf ids \<open>uid \<noteq> 0\<close> have "p \<noteq> TRUSTED_PATH \<Longrightarrow> privcheck v p u2 \<noteq> None" for p
    by (auto simp: privcheck_def privcheck_cr_iff confined_def)
  then have "p \<noteq> TRUSTED_PATH \<Longrightarrow> privcheck v p u2 = Some EPERM" for p
    using privcheck_cases by blast
  with u2 conf ids show ?thesis by (auto simp: confined_def)
qed

theorem setuid_drops_for_good_witness:
  "\<exists>u1 u2. setuid ex_vars 100 (ex_uarea\<lparr>u_procp := 2, u_cred := ex_cred\<lparr>cr_uid := 0\<rparr>\<rparr>) = Some (u1, 0)
     \<and> run (cred_next ex_vars) [Setuid 0, Seteuid 0, Setuidx 7 0] u1 = Some u2 \<and> cr_uid (u_cred u2) = 100"
proof -
  let ?u = "ex_uarea\<lparr>u_procp := 2, u_cred := ex_cred\<lparr>cr_uid := 0\<rparr>\<rparr>"
  have dac: "privcheck ex_vars SET_PROC_DAC ?u = None"
    by (simp add: privcheck_def privcheck_cr_def ex_cred_defs)
  have "case setuid ex_vars 100 ?u of Some (u1, rc) \<Rightarrow> rc = 0 | None \<Rightarrow> False"
    by code_simp
  then obtain u1 where u1: "setuid ex_vars 100 ?u = Some (u1, 0)"
    by (auto split: option.splits)
  have "(100 :: uid_t) \<noteq> 0" by simp
  from setuid_drops_for_good [OF dac this u1, of "[Setuid 0, Seteuid 0, Setuidx 7 0]"] u1
  show ?thesis by blast
qed

text \<open>
  When the first process of the table with the new user is the calling process itself,
  \<open>new_uidl\<close> leaves it on a list of its own, however many other processes of that user there
  are: the next count for the user, which starts at this process, is 1.
\<close>

lemma new_uidl_isolates_itself:
  assumes "uidl_perm (proc_tab u)" and "uid_proc (proc_tab u) newuid = Some (u_procp u)"
    and "new_uidl v newuid m u = Some (u', 0)"
  shows "p_uidl (proc_tab u' ! u_procp u) = u_procp u
    \<and> uid_cnt_walk (length (proc_tab u')) (proc_tab u') (u_procp u)
        (p_uidl (proc_tab u' ! u_procp u)) 1 = Some 1"
proof -
  let ?tab = "proc_tab u" and ?pr = "u_procp u"
  have pr: "?pr < length ?tab" using assms(2) by (rule uid_proc_Some)
  from uidl_cycle [OF assms(1) pr]
  obtain k where "k < length ?tab" "((\<lambda>i. p_uidl (?tab ! i)) ^^ Suc k) ?pr = ?pr" by blast
  from uidl_pred_ends [OF this(2,1) assms(1) pr]
  obtain q where q: "uidl_pred (length ?tab) ?tab ?pr ?pr = Some q" "q < length ?tab" by blast
  from assms(2,3) q have tab': "proc_tab u' = uidl_relink newuid m ?pr (Some ?pr) q ?tab"
    by (auto simp: new_uidl_def Let_def bind_eq_Some_conv split: if_splits)
  then have "p_uidl (proc_tab u' ! ?pr) = ?pr"
    using uidl_relink_links [OF q(2) pr, of "Some ?pr" ?pr newuid m] pr by (simp add: Let_def)
  with tab' pr show ?thesis by (cases "length ?tab") auto
qed

lemma new_uidl_isolates_itself_witness:
  "\<exists>u'. new_uidl ex_vars 0 ID_REAL (ex_uarea\<lparr>u_procp := 0\<rparr>) = Some (u', 0)
     \<and> p_uid (proc_tab u' ! 2) = 0 \<and> p_uidl (proc_tab u' ! 0) = 0"
proof -
  let ?u = "ex_uarea\<lparr>u_procp := 0\<rparr>"
  have perm: "uidl_perm (proc_tab ?u)"
    by (simp add: uidl_perm_lists ex_cred_defs)
  have first: "uid_proc (proc_tab ?u) 0 = Some (u_procp ?u)"
    by code_simp
  have "case new_uidl ex_vars 0 ID_REAL ?u of
      Some (u', rc) \<Rightarrow> rc = 0 \<and> p_uid (proc_tab u' ! 2) = 0 | None \<Rightarrow> False"
    by code_simp
  then obtain u' where u': "new_uidl ex_vars 0 ID_REAL ?u = Some (u', 0)" "p_uid (proc_tab u' ! 2) = 0"
    by (auto split: option.splits)
  from new_uidl_isolates_itself [OF perm first u'(1)] u' show ?thesis
    by (simp add: ex_cred_defs)
qed

end
