(* ===== verification/Uidl.thy ===== *)
theory Uidl
  imports Cred
begin

text \<open>
  The lists of processes by user over the life of processes: \<open>kforkx\<close> counts the caller's list,
  \<open>newproc\<close> (\<open>src/bos/kernel/proc/newproc.c\<close>) puts the child on it, \<open>freeproc\<close> takes a process off
  its list, and \<open>new_uidl\<close> moves one to another. A free slot keeps a stale link; the
  lists are rings over the slots in use.
\<close>

section \<open>fork and exit\<close>

definition fork_uid_cnt :: "proc_t list \<Rightarrow> nat \<Rightarrow> int option" where
  "fork_uid_cnt tab p = uid_cnt_walk (length tab) tab p (p_uidl (tab ! p)) 1"

text \<open>
  What \<open>newproc\<close> does to the lists, for the slot \<open>child\<close> that \<open>pm_alloc\<close> found. \<open>real_fork\<close> is the test
  \<open>error == &u.u_error\<close>, false for the first processes only.
\<close>

definition newproc :: "bool \<Rightarrow> sysvars \<Rightarrow> ucred \<Rightarrow> nat \<Rightarrow> nat \<Rightarrow> proc_t list \<Rightarrow> proc_t list" where
  "newproc real_fork v cr cp child tab =
     (let tab = (if real_fork \<and> privcheck_cr v SET_PROC_RAC cr \<noteq> None
                 then let tab = upd tab child (\<lambda>r. r\<lparr>p_uidl := p_uidl (tab ! cp)\<rparr>)
                      in upd tab cp (\<lambda>r. r\<lparr>p_uidl := child\<rparr>)
                 else upd tab child (\<lambda>r. r\<lparr>p_uidl := child\<rparr>))
      in upd tab child (\<lambda>r. r\<lparr>p_uid := p_uid (tab ! cp), p_suid := p_suid (tab ! cp), p_stat := SIDL\<rparr>))"

text \<open>
  The test at the head of \<open>kforkx\<close>; \<open>None\<close> is a walk without end. The lock of the table is given up after the count, and \<open>newproc\<close> links the
  child later, without another look: what comes in between is up to other threads.
\<close>

definition kfork :: "sysvars \<Rightarrow> ucred \<Rightarrow> nat \<Rightarrow> proc_t list \<Rightarrow> errno option option" where
  "kfork v cr p tab =
     map_option (\<lambda>uid_cnt. if uid_cnt > v_maxup v - 1 \<and> privcheck_cr v SET_PROC_RAC cr \<noteq> None then Some EAGAIN else None) (fork_uid_cnt tab p)"

definition freeproc :: "nat \<Rightarrow> proc_t list \<Rightarrow> proc_t list option" where
  "freeproc p tab = do {
     q \<leftarrow> uidl_pred (length tab) tab p p;
     let tab = upd tab q (\<lambda>r. r\<lparr>p_uidl := p_uidl (tab ! p)\<rparr>) in
     Some (upd tab p (\<lambda>r. r\<lparr>p_stat := SNONE\<rparr>))
   }"

section \<open>Rings\<close>

fun chain :: "(nat \<Rightarrow> nat) \<Rightarrow> nat list \<Rightarrow> nat \<Rightarrow> bool" where
  "chain f [] y = True"
| "chain f [x] y = (f x = y)"
| "chain f (x # z # xs) y = (f x = z \<and> chain f (z # xs) y)"

definition ring :: "(nat \<Rightarrow> nat) \<Rightarrow> nat list \<Rightarrow> bool" where
  "ring f r \<longleftrightarrow> r \<noteq> [] \<and> chain f r (hd r)"

definition rings :: "nat set \<Rightarrow> (nat \<Rightarrow> nat) \<Rightarrow> nat list list \<Rightarrow> bool" where
  "rings L f rs \<longleftrightarrow> distinct (concat rs) \<and> set (concat rs) = L \<and> (\<forall>r \<in> set rs. ring f r)"

lemma chain_append: "xs \<noteq> [] \<Longrightarrow> ys \<noteq> [] \<Longrightarrow> chain f (xs @ ys) y \<longleftrightarrow> chain f xs (hd ys) \<and> chain f ys y"
  by (induction f xs y rule: chain.induct) (auto simp: neq_Nil_conv)

lemma chain_cong: "(\<And>x. x \<in> set xs \<Longrightarrow> f x = g x) \<Longrightarrow> chain f xs y = chain g xs y"
  by (induction f xs y rule: chain.induct) auto

lemma chain_last: "chain f xs y \<Longrightarrow> xs \<noteq> [] \<Longrightarrow> f (last xs) = y"
  by (induction f xs y rule: chain.induct) auto

lemma chain_end: "xs \<noteq> [] \<Longrightarrow> distinct xs \<Longrightarrow> chain f xs y \<Longrightarrow> chain (f(last xs := z)) xs z"
  by (induction f xs y rule: chain.induct) (auto split: if_splits)

lemma ring_cong: "(\<And>x. x \<in> set r \<Longrightarrow> f x = g x) \<Longrightarrow> ring f r = ring g r"
  using chain_cong [of r f g "hd r"] by (auto simp: ring_def)

lemma ring_other: "ring f r \<Longrightarrow> x \<notin> set r \<Longrightarrow> ring (f(x := y)) r"
  using ring_cong [of r f "f(x := y)"] by fastforce

lemma ring_rotate: "ring f (a @ b) \<Longrightarrow> a @ b \<noteq> [] \<Longrightarrow> ring f (b @ a)"
proof (cases "a = [] \<or> b = []")
  case False
  assume "ring f (a @ b)"
  with False show ?thesis by (simp add: ring_def chain_append hd_append2)
qed auto

lemma rings_same: "rings L f rs \<Longrightarrow> (\<And>x. x \<in> L \<Longrightarrow> f x = g x) \<Longrightarrow> rings L g rs"
proof -
  assume r: "rings L f rs" and fg: "\<And>x. x \<in> L \<Longrightarrow> f x = g x"
  have "ring g r" if "r \<in> set rs" for r
    using ring_cong [of r f g] that r fg by (auto simp: rings_def)
  with r show ?thesis by (simp add: rings_def)
qed

text \<open>Any slot can be brought to the front.\<close>

lemma rings_shuffle:
  assumes "rings L f rs" and "mset (concat rs') = mset (concat rs)" and "\<forall>r \<in> set rs'. ring f r"
  shows "rings L f rs'"
proof -
  have old: "distinct (concat rs)" "set (concat rs) = L" using assms(1) unfolding rings_def by blast+
  have "distinct (concat rs')" using mset_eq_imp_distinct_iff [OF assms(2)] old(1) by (rule iffD2)
  moreover have "set (concat rs') = L" using mset_eq_setD [OF assms(2)] old(2) by (rule trans)
  ultimately show ?thesis using assms(3) unfolding rings_def by (intro conjI)
qed

lemma rings_ring: "rings L f rs \<Longrightarrow> r \<in> set rs \<Longrightarrow> ring f r"
  by (simp add: rings_def)

lemma rings_turn:
  assumes "rings L f (as @ (a @ x # b) # bs)"
  shows "rings L f ((x # b @ a) # as @ bs)"
proof (rule rings_shuffle [OF assms])
  have "ring f ((x # b) @ a)" by (rule ring_rotate, rule rings_ring [OF assms]) simp_all
  then show "\<forall>r \<in> set ((x # b @ a) # as @ bs). ring f r" using rings_ring [OF assms] by simp
qed simp

lemma rings_at:
  assumes "rings L f rs" and "x \<in> L"
  shows "\<exists>as a b bs. rs = as @ (a @ x # b) # bs"
proof -
  from assms obtain r where "r \<in> set rs" "x \<in> set r" by (auto simp: rings_def)
  then show ?thesis by (metis in_set_conv_decomp)
qed

lemma rings_focus:
  assumes "rings L f rs" and "x \<in> L" and "\<forall>r \<in> set rs. P (length r) (set r)"
  shows "\<exists>b rs'. rings L f ((x # b) # rs') \<and> (\<forall>r \<in> set ((x # b) # rs'). P (length r) (set r))"
proof -
  obtain as a b bs where rs: "rs = as @ (a @ x # b) # bs" using rings_at [OF assms(1,2)] by blast
  have "rings L f ((x # b @ a) # as @ bs)" using assms(1) unfolding rs by (rule rings_turn)
  moreover have "\<forall>r \<in> set ((x # b @ a) # as @ bs). P (length r) (set r)"
    using assms(3) by (auto simp: rs add.commute Un_commute)
  ultimately show ?thesis by blast
qed

lemma rings_unlink:
  assumes "rings L f ((x # b) # rs)"
  shows "rings (L - {x}) (f(last (x # b) := f x)) ((if b = [] then [] else [b]) @ rs)"
proof -
  let ?g = "f(last (x # b) := f x)"
  have d: "distinct (concat ((x # b) # rs))" and r: "\<forall>r \<in> set rs. ring f r" and xb: "ring f (x # b)"
    and L: "set (concat ((x # b) # rs)) = L" using assms by (simp_all add: rings_def)
  have "last (x # b) \<in> set (x # b)" by (rule last_in_set) simp
  then have "ring ?g r" if "r \<in> set rs" for r
    using that d by (intro ring_other) (auto simp del: last.simps simp: r)
  moreover have "ring ?g b" if "b \<noteq> []"
  proof -
    have b: "chain f b x" "f x = hd b" using xb that by (cases b; simp add: ring_def)+
    have "chain (f(last b := hd b)) b (hd b)" by (rule chain_end [OF that _ b(1)]) (use d in simp)
    with that b(2) show ?thesis by (simp add: ring_def)
  qed
  ultimately show ?thesis using d L by (auto simp: rings_def)
qed

lemma rings_own:
  assumes "rings L f rs" and "x \<notin> L"
  shows "rings (insert x L) (f(x := x)) ([x] # rs)"
proof -
  have "ring (f(x := x)) r" if "r \<in> set rs" for r
    using that assms by (intro ring_other) (auto simp: rings_def)
  then show ?thesis using assms by (auto simp: rings_def ring_def)
qed

lemma rings_insert:
  assumes "rings L f ((p # c) # rs)" and "x \<notin> L"
  shows "rings (insert x L) (f(x := f p, p := x)) ((p # x # c) # rs)"
proof -
  let ?g = "f(x := f p, p := x)"
  have d: "distinct (concat ((p # c) # rs))" and r: "\<forall>r \<in> set rs. ring f r" and pc: "ring f (p # c)"
    and L: "set (concat ((p # c) # rs)) = L" using assms by (simp_all add: rings_def)
  have "ring ?g r" if "r \<in> set rs" for r
    using that d L assms(2) r by (intro ring_other) auto
  moreover have "ring ?g (p # x # c)"
  proof (cases c)
    case Nil
    with pc L assms(2) show ?thesis by (auto simp: ring_def)
  next
    case (Cons z zs)
    have "chain ?g (z # zs) p = chain f (z # zs) p"
      by (rule chain_cong) (use d L assms(2) Cons in auto)
    with pc L assms(2) Cons show ?thesis by (auto simp: ring_def)
  qed
  ultimately show ?thesis using d L assms(2) by (auto simp: rings_def)
qed

section \<open>The walks\<close>

lemma uid_cnt_walk_chain:
  "chain (\<lambda>i. p_uidl (tab ! i)) c p \<Longrightarrow> p \<notin> set c \<Longrightarrow> length c < n
    \<Longrightarrow> uid_cnt_walk n tab p (case c of [] \<Rightarrow> p | q # _ \<Rightarrow> q) k = Some (k + int (length c))"
proof (induction c arbitrary: n k)
  case Nil
  then show ?case by (cases n) auto
next
  case (Cons q c)
  then obtain m where n: "n = Suc m" "length c < m" by (cases n) auto
  have "p_uidl (tab ! q) = (case c of [] \<Rightarrow> p | q # _ \<Rightarrow> q)" using Cons.prems(1) by (cases c) auto
  moreover have "chain (\<lambda>i. p_uidl (tab ! i)) c p" using Cons.prems(1) by (cases c) auto
  ultimately show ?case using Cons.IH [of m "k + 1"] Cons.prems(2) n by simp
qed

lemma uidl_pred_chain:
  "chain (\<lambda>i. p_uidl (tab ! i)) (q # c) p \<Longrightarrow> p \<notin> set c \<Longrightarrow> length c < n \<Longrightarrow> uidl_pred n tab p q = Some (last (q # c))"
proof (induction c arbitrary: q n)
  case Nil
  then show ?case by (cases n) auto
next
  case (Cons z c)
  then obtain m where n: "n = Suc m" "length c < m" by (cases n) auto
  have "p_uidl (tab ! q) = z" "z \<noteq> p" using Cons.prems by auto
  then show ?case using Cons.IH [of z m] Cons.prems n by auto
qed

text \<open>The slots in use, and the rings of a table.\<close>

definition in_use :: "proc_t list \<Rightarrow> nat set" where
  "in_use tab = {i. i < length tab \<and> p_stat (tab ! i) \<noteq> SNONE}"

lemma in_use_code [code]: "in_use tab = set (filter (\<lambda>i. p_stat (tab ! i) \<noteq> SNONE) [0..<length tab])"
  by (auto simp: in_use_def)

text \<open>
  \<open>fs\<close> are the callers of \<open>fork\<close> that have passed the test and have not yet linked their child; a ring carries its slots and, in advance, the children
  of its callers.
\<close>

definition load :: "nat list \<Rightarrow> nat list \<Rightarrow> nat" where
  "load fs r = length r + length (filter (\<lambda>p. p \<in> set r) fs)"

definition tab_rings :: "nat \<Rightarrow> nat list \<Rightarrow> proc_t list \<Rightarrow> nat list list \<Rightarrow> bool" where
  "tab_rings m fs tab rs \<longleftrightarrow> rings (in_use tab) (\<lambda>i. p_uidl (tab ! i)) rs \<and> (\<forall>r \<in> set rs. load fs r \<le> m)"

lemma length_load: "length r \<le> load fs r" "load fs r \<le> length r + length fs"
  by (simp_all add: load_def)

lemma filter_mono_length: "(\<And>x. P x \<Longrightarrow> Q x) \<Longrightarrow> length (filter P xs) \<le> length (filter Q xs)"
  by (induction xs) auto

lemma load_sub: "length r' \<le> length r \<Longrightarrow> set r' \<subseteq> set r \<Longrightarrow> load fs r' \<le> load fs r"
  unfolding load_def by (intro add_mono filter_mono_length) auto

lemma ring_short:
  assumes "tab_rings m fs tab ((p # c) # rs)"
  shows "length c < length tab" "p \<notin> set c" "p < length tab" "chain (\<lambda>i. p_uidl (tab ! i)) (p # c) p" "load fs (p # c) \<le> m"
proof -
  have d: "distinct (concat ((p # c) # rs))" and s: "set (concat ((p # c) # rs)) \<subseteq> {..<length tab}"
    using assms by (auto simp: tab_rings_def rings_def in_use_def)
  have "card (set (p # c)) \<le> card {..<length tab}" by (rule card_mono) (use s in auto)
  moreover have "card (set (p # c)) = length (p # c)" using d by (intro distinct_card) simp
  ultimately show "length c < length tab" by simp
  show "p \<notin> set c" "p < length tab" "chain (\<lambda>i. p_uidl (tab ! i)) (p # c) p" "load fs (p # c) \<le> m"
    using assms d s by (auto simp: tab_rings_def rings_def ring_def)
qed

lemma count_ring:
  assumes "tab_rings m fs tab ((p # c) # rs)"
  shows "uid_cnt_walk (length tab) tab p (p_uidl (tab ! p)) 1 = Some (int (length (p # c)))"
proof -
  note r = ring_short [OF assms]
  have "chain (\<lambda>i. p_uidl (tab ! i)) c p" "p_uidl (tab ! p) = (case c of [] \<Rightarrow> p | q # _ \<Rightarrow> q)"
    using r(4) by (cases c; simp)+
  with uid_cnt_walk_chain [of tab c p "length tab" 1] r show ?thesis by simp
qed

lemma pred_ring: "tab_rings m fs tab ((p # c) # rs) \<Longrightarrow> uidl_pred (length tab) tab p p = Some (last (p # c))"
  using ring_short [of m fs tab p c rs] by (intro uidl_pred_chain) auto

lemma tab_focus: "tab_rings m fs tab rs \<Longrightarrow> p \<in> in_use tab \<Longrightarrow> \<exists>c rs'. tab_rings m fs tab ((p # c) # rs')"
  using rings_focus [of "in_use tab" "\<lambda>i. p_uidl (tab ! i)" rs p "\<lambda>l A. l + length (filter (\<lambda>p. p \<in> A) fs) \<le> m"]
  by (auto simp: tab_rings_def load_def)


section \<open>Unlinking\<close>

text \<open>Every ring without \<open>x\<close>.\<close>

definition without :: "nat \<Rightarrow> nat list list \<Rightarrow> nat list list" where
  "without x rs = filter (\<lambda>r. r \<noteq> []) (map (filter (\<lambda>y. y \<noteq> x)) rs)"

lemma without_other: "\<forall>r \<in> set rs. r \<noteq> [] \<and> x \<notin> set r \<Longrightarrow> without x rs = rs"
proof (induction rs)
  case (Cons r rs)
  then have "filter (\<lambda>y. y \<noteq> x) r = r" by (auto simp: filter_id_conv)
  with Cons show ?case by (simp add: without_def)
qed (simp add: without_def)

lemma load_filter: "load fs (filter P r) \<le> load fs r"
  by (rule load_sub) auto

lemma without_short: "\<forall>r \<in> set rs. load fs r \<le> m \<Longrightarrow> \<forall>r \<in> set (without x rs). load fs r \<le> m"
  by (auto simp: without_def intro: order_trans [OF load_filter])

lemma tab_unlink:
  assumes t: "tab_rings m fs tab rs" and x: "x \<in> in_use tab"
  shows "\<exists>q. uidl_pred (length tab) tab x x = Some q \<and> q \<in> in_use tab
    \<and> rings (in_use tab - {x}) ((\<lambda>i. p_uidl (tab ! i))(q := p_uidl (tab ! x))) (without x rs)"
proof -
  let ?f = "\<lambda>i. p_uidl (tab ! i)"
  have r: "rings (in_use tab) ?f rs" and m: "\<forall>r \<in> set rs. load fs r \<le> m" using t by (simp_all add: tab_rings_def)
  obtain as a b bs where rs: "rs = as @ (a @ x # b) # bs" using rings_at [OF r x] by blast
  have turn: "rings (in_use tab) ?f ((x # b @ a) # as @ bs)" using r unfolding rs by (rule rings_turn)
  moreover have "load fs (x # b @ a) = load fs (a @ x # b)" by (auto simp: load_def intro!: arg_cong [where f = length] filter_cong)
  then have "\<forall>r \<in> set ((x # b @ a) # as @ bs). load fs r \<le> m" using m by (auto simp: rs)
  ultimately have t': "tab_rings m fs tab ((x # b @ a) # as @ bs)" by (simp add: tab_rings_def)
  let ?q = "last (x # b @ a)"
  let ?g = "?f(?q := ?f x)"
  have "?q \<in> set (x # b @ a)" by (rule last_in_set) simp
  then have q: "?q \<in> in_use tab" using turn by (auto simp: rings_def)
  have un: "rings (in_use tab - {x}) ?g ((if b @ a = [] then [] else [b @ a]) @ as @ bs)"
    by (rule rings_unlink [OF turn])
  have d: "distinct (concat rs)" and ne: "\<forall>r \<in> set rs. r \<noteq> []" using r by (auto simp: rings_def ring_def)
  have o: "without x as = as" "without x bs = bs" using d ne by (auto simp: rs intro!: without_other)
  have "filter (\<lambda>y. y \<noteq> x) a = a" "filter (\<lambda>y. y \<noteq> x) b = b" using d by (auto simp: rs intro!: filter_True)
  then have ab: "filter (\<lambda>y. y \<noteq> x) (a @ x # b) = a @ b" by simp
  have w: "without x rs = as @ (if a @ b = [] then [] else [a @ b]) @ bs"
    using o ab unfolding rs without_def by simp
  have "rings (in_use tab - {x}) ?g (without x rs)"
  proof (rule rings_shuffle [OF un])
    show "mset (concat (without x rs)) = mset (concat ((if b @ a = [] then [] else [b @ a]) @ as @ bs))"
      unfolding w by simp
    have "ring ?g (a @ b)" if "a @ b \<noteq> []"
      using ring_rotate [of ?g b a] rings_ring [OF un, of "b @ a"] that by auto
    then show "\<forall>r \<in> set (without x rs). ring ?g r" unfolding w using rings_ring [OF un] by auto
  qed
  with pred_ring [OF t'] q show ?thesis by blast
qed

section \<open>The operations\<close>

lemma tab_ringsI:
  assumes "rings L f rs" and "in_use tab = L" and "\<And>i. i \<in> L \<Longrightarrow> f i = p_uidl (tab ! i)" and "\<forall>r \<in> set rs. load fs r \<le> m"
  shows "tab_rings m fs tab rs"
  using rings_same [OF assms(1,3)] assms(2,4) by (simp add: tab_rings_def)

lemma in_useD: "x \<in> in_use tab \<Longrightarrow> x < length tab"
  by (simp add: in_use_def)

lemma freeproc_rings:
  assumes t: "tab_rings m fs tab rs" and p: "p \<in> in_use tab"
  shows "\<exists>tab'. freeproc p tab = Some tab' \<and> length tab' = length tab \<and> tab_rings m fs tab' (without p rs)"
proof -
  obtain q where q: "uidl_pred (length tab) tab p p = Some q" "q \<in> in_use tab"
    "rings (in_use tab - {p}) ((\<lambda>i. p_uidl (tab ! i))(q := p_uidl (tab ! p))) (without p rs)"
    using tab_unlink [OF t p] by blast
  let ?tab = "upd (upd tab q (\<lambda>r. r\<lparr>p_uidl := p_uidl (tab ! p)\<rparr>)) p (\<lambda>r. r\<lparr>p_stat := SNONE\<rparr>)"
  have "tab_rings m fs ?tab (without p rs)"
  proof (rule tab_ringsI [OF q(3)])
    show "in_use ?tab = in_use tab - {p}" using q(2) p by (auto simp: in_use_def nth_upd split: if_splits)
    show "\<forall>r \<in> set (without p rs). load fs r \<le> m" by (rule without_short) (use t in \<open>simp add: tab_rings_def\<close>)
  qed (use q(2) in \<open>auto simp: in_use_def nth_upd\<close>)
  then show ?thesis by (simp add: freeproc_def q(1) Let_def)
qed

lemma newproc_rings:
  assumes t: "tab_rings m fs tab ((cp # c) # rs)" and child: "child < length tab" "child \<notin> in_use tab" and cp: "cp \<in> in_use tab"
    and fs: "child \<notin> set fs" and m: "Suc (load fs (cp # c)) \<le> m \<or> privcheck_cr v SET_PROC_RAC cr = None"
  shows "length (newproc real_fork v cr cp child tab) = length tab
    \<and> (\<exists>rs'. tab_rings m fs (newproc real_fork v cr cp child tab) rs')"
proof -
  let ?f = "\<lambda>i. p_uidl (tab ! i)" and ?tab = "newproc real_fork v cr cp child tab"
  have r: "rings (in_use tab) ?f ((cp # c) # rs)" and s: "\<forall>r \<in> set ((cp # c) # rs). load fs r \<le> m"
    using t unfolding tab_rings_def by blast+
  have ne: "cp \<noteq> child" "cp < length tab" using cp child in_useD by auto
  have use: "in_use ?tab = insert child (in_use tab)" using child ne by (auto simp: newproc_def Let_def in_use_def nth_upd split: if_splits)
  have len: "length ?tab = length tab" by (simp add: newproc_def Let_def)
  have pos: "1 \<le> m" using s length_load(1) [of "cp # c" fs] by auto
  have one: "load fs [child] = 1" using fs by (auto simp: load_def filter_empty_conv)
  have more: "load fs (cp # child # c) = Suc (load fs (cp # c))"
    using fs by (auto simp: load_def intro!: arg_cong [where f = length] filter_cong)
  show ?thesis
  proof (cases "real_fork \<and> privcheck_cr v SET_PROC_RAC cr \<noteq> None")
    case True
    have "tab_rings m fs ?tab ((cp # child # c) # rs)"
    proof (rule tab_ringsI [OF rings_insert [OF r child(2)] use])
      show "\<And>i. i \<in> insert child (in_use tab) \<Longrightarrow> (?f(child := ?f cp, cp := child)) i = p_uidl (?tab ! i)"
        using True ne child in_useD by (auto simp: newproc_def Let_def nth_upd)
      show "\<forall>r \<in> set ((cp # child # c) # rs). load fs r \<le> m" using s m True more by auto
    qed
    with len show ?thesis by blast
  next
    case False
    have "tab_rings m fs ?tab ([child] # (cp # c) # rs)"
    proof (rule tab_ringsI [OF rings_own [OF r child(2)] use])
      show "\<And>i. i \<in> insert child (in_use tab) \<Longrightarrow> (?f(child := child)) i = p_uidl (?tab ! i)"
        using False ne child in_useD by (auto simp: newproc_def Let_def nth_upd)
      show "\<forall>r \<in> set ([child] # (cp # c) # rs). load fs r \<le> m" using s pos one by auto
    qed
    with len show ?thesis by blast
  qed
qed

lemma uid_proc_use: "uid_proc tab newuid = Some x \<Longrightarrow> x \<in> in_use tab"
  by (auto simp: uid_proc_def in_use_def find_Some_iff)

lemma relink_use:
  assumes "q < length tab" "pr < length tab" "\<And>x. p = Some x \<Longrightarrow> x < length tab"
  shows "in_use (uidl_relink newuid m pr p q tab) = in_use tab"
proof -
  have "p_stat (uidl_relink newuid m pr p q tab ! i) = p_stat (tab ! i)" if "i < length tab" for i
    using assms that by (cases p) (auto simp: uidl_relink_def Let_def nth_upd)
  then show ?thesis by (auto simp: in_use_def)
qed

lemma relink_rings:
  assumes t: "tab_rings m fs tab rs" and pr: "pr \<in> in_use tab" and pos: "Suc (length fs) \<le> m"
    and p: "\<And>x. p = Some x \<Longrightarrow> x \<in> in_use tab"
    and room: "\<And>x c rs'. p = Some x \<Longrightarrow> tab_rings m fs tab ((x # c) # rs') \<Longrightarrow> Suc (length (x # c)) + length fs \<le> m"
  shows "\<exists>q. uidl_pred (length tab) tab pr pr = Some q
    \<and> (\<exists>rs'. tab_rings m fs (uidl_relink newuid msk pr p q tab) rs')"
proof -
  let ?f = "\<lambda>i. p_uidl (tab ! i)"
  obtain rs1 where t1: "tab_rings m fs tab rs1" and front: "\<And>x. p = Some x \<Longrightarrow> \<exists>c rs2. rs1 = (x # c) # rs2"
    using t tab_focus [OF t] p by (cases p) (fastforce, metis option.inject)
  obtain q where q: "uidl_pred (length tab) tab pr pr = Some q" "q \<in> in_use tab"
    "rings (in_use tab - {pr}) (?f(q := ?f pr)) (without pr rs1)"
    using tab_unlink [OF t1 pr] by blast
  let ?g = "?f(q := ?f pr)" and ?tab = "uidl_relink newuid msk pr p q tab"
  have bd: "q < length tab" "pr < length tab" "\<And>x. p = Some x \<Longrightarrow> x < length tab" using q pr p in_useD by blast+
  have use: "in_use ?tab = insert pr (in_use tab - {pr})" using relink_use [OF bd] pr by auto
  have links: "p_uidl (?tab ! i) = (let f = ?f; f = f(q := f pr)
      in (case p of Some p \<Rightarrow> f(pr := f p, p := pr) | None \<Rightarrow> f(pr := pr)) i)" if "i < length tab" for i
    by (rule uidl_relink_links [OF bd(1,2)]) (use bd(3) that in simp_all)
  have own: "load fs [pr] \<le> m" using length_load(2) [of fs "[pr]"] pos by simp
  have short: "\<forall>r \<in> set (without pr rs1). load fs r \<le> m" by (rule without_short) (use t1 in \<open>simp add: tab_rings_def\<close>)
  have "\<exists>rs'. tab_rings m fs ?tab rs'"
  proof (cases "p = None \<or> p = Some pr")
    case True
    have "tab_rings m fs ?tab ([pr] # without pr rs1)"
    proof (rule tab_ringsI [OF rings_own [OF q(3)] use])
      show "\<And>i. i \<in> insert pr (in_use tab - {pr}) \<Longrightarrow> (?g(pr := pr)) i = p_uidl (?tab ! i)"
        using links True pr in_useD by (auto simp: Let_def)
    qed (use short own in auto)
    then show ?thesis by blast
  next
    case False
    then obtain x where x: "p = Some x" "x \<noteq> pr" by auto
    obtain c rs2 where rs1: "rs1 = (x # c) # rs2" using front [OF x(1)] by blast
    let ?c = "filter (\<lambda>y. y \<noteq> pr) c"
    have w: "without pr rs1 = (x # ?c) # without pr rs2" using x(2) by (simp add: rs1 without_def)
    have "tab_rings m fs ?tab ((x # pr # ?c) # without pr rs2)"
    proof (rule tab_ringsI [OF rings_insert [OF q(3) [unfolded w]] use])
      show "\<And>i. i \<in> insert pr (in_use tab - {pr}) \<Longrightarrow> (?g(pr := ?g x, x := pr)) i = p_uidl (?tab ! i)"
        using links x pr in_useD by (auto simp: Let_def)
      have "Suc (length (x # c)) + length fs \<le> m" by (rule room [OF x(1)]) (use t1 in \<open>simp add: rs1\<close>)
      moreover have "length ?c \<le> length c" by (rule length_filter_le)
      ultimately have "load fs (x # pr # ?c) \<le> m" using length_load(2) [of fs "x # pr # ?c"] unfolding length_Cons by linarith
      then show "\<forall>r \<in> set ((x # pr # ?c) # without pr rs2). load fs r \<le> m" using short unfolding w by simp
    qed simp
    then show ?thesis by blast
  qed
  with q(1) show ?thesis by blast
qed

section \<open>Runs\<close>

text \<open>
  What happens to the lists. \<open>UCount\<close> is the test of a \<open>fork\<close> by a thread of \<open>p\<close>, with the credentials \<open>cr\<close>; \<open>ULink\<close> is \<open>newproc\<close> for one that has
  passed, with the slot \<open>child\<close> that \<open>pm_alloc\<close> took from the free ones, and \<open>UFail\<close> where it got none. A process is freed when none of its threads is in a call, or changes
  its user. The state is the table and the callers between test and link, of whom there are never more than \<open>mx\<close>. Events that cannot be do not happen.
\<close>

datatype uidl_ev = UCount ucred nat | ULink ucred nat nat | UFail nat | UFree nat | USet ucred nat uid_t int

definition uidl_next :: "nat \<Rightarrow> sysvars \<Rightarrow> uidl_ev \<Rightarrow> proc_t list \<times> nat list \<Rightarrow> (proc_t list \<times> nat list) option" where
  "uidl_next mx v e s =
     (let (tab, fs) = s in
      case e of
        UCount cr p \<Rightarrow>
          if p \<in> in_use tab \<and> length fs < mx
          then map_option (\<lambda>rc. (tab, if rc = None then p # fs else fs)) (kfork v cr p tab)
          else Some (tab, fs)
      | ULink cr p child \<Rightarrow>
          if p \<in> set fs \<and> child < length tab \<and> child \<notin> in_use tab then Some (newproc True v cr p child tab, remove1 p fs) else Some (tab, fs)
      | UFail p \<Rightarrow> Some (tab, remove1 p fs)
      | UFree p \<Rightarrow> if p \<in> in_use tab \<and> p \<notin> set fs then map_option (\<lambda>tab. (tab, fs)) (freeproc p tab) else Some (tab, fs)
      | USet cr p newuid msk \<Rightarrow>
          if p \<in> in_use tab
          then map_option (\<lambda>(u, rc). (proc_tab u, fs))
                 (new_uidl v newuid msk \<lparr>u_cred = cr, u_error = None, proc_tab = tab, u_procp = p\<rparr>)
          else Some (tab, fs))"

text \<open>With \<open>lim\<close> no caller has the privilege to go past \<open>v_maxup\<close>.\<close>

definition uidl_legal :: "bool \<Rightarrow> sysvars \<Rightarrow> uidl_ev \<Rightarrow> bool" where
  "uidl_legal lim v e \<longleftrightarrow> lim \<longrightarrow>
     (case e of UCount cr _ \<Rightarrow> privcheck_cr v SET_PROC_RAC cr \<noteq> None | ULink cr _ _ \<Rightarrow> privcheck_cr v SET_PROC_RAC cr \<noteq> None
      | USet cr _ _ _ \<Rightarrow> privcheck_cr v SET_PROC_RAC cr \<noteq> None | _ \<Rightarrow> True)"

definition ring_max :: "bool \<Rightarrow> sysvars \<Rightarrow> nat \<Rightarrow> nat \<Rightarrow> nat" where
  "ring_max lim v n mx = (if lim then max 1 (nat (v_maxup v)) else Suc n) + mx"

definition uidl_inv :: "bool \<Rightarrow> sysvars \<Rightarrow> nat \<Rightarrow> nat \<Rightarrow> proc_t list \<times> nat list \<Rightarrow> bool" where
  "uidl_inv lim v n mx s \<longleftrightarrow> length (fst s) = n \<and> set (snd s) \<subseteq> in_use (fst s) \<and> length (snd s) \<le> mx
     \<and> (\<exists>rs. tab_rings (ring_max lim v n mx) (snd s) (fst s) rs)"

lemma fork_count: "tab_rings m fs tab ((p # c) # rs) \<Longrightarrow> fork_uid_cnt tab p = Some (int (length (p # c)))"
  unfolding fork_uid_cnt_def by (rule count_ring)

lemma room:
  assumes "tab_rings (ring_max lim v n mx) fs tab ((x # c) # rs)"
    and "lim \<longrightarrow> \<not> int (length (x # c)) > v_maxup v - 1" and "length tab = n"
  shows "Suc (length (x # c)) + mx \<le> ring_max lim v n mx"
  using ring_short(1) [OF assms(1)] assms(2,3) by (cases lim) (auto simp: ring_max_def)

lemma kfork_ok:
  assumes p: "p \<in> in_use tab" "length fs < mx" and inv: "uidl_inv lim v n mx (tab, fs)"
    and legal: "lim \<longrightarrow> privcheck_cr v SET_PROC_RAC cr \<noteq> None"
  shows "\<exists>rc. kfork v cr p tab = Some rc \<and> (rc = None \<longrightarrow> uidl_inv lim v n mx (tab, p # fs))"
proof -
  let ?m = "ring_max lim v n mx"
  obtain rs where t: "tab_rings ?m fs tab rs" and n: "length tab = n" using inv by (auto simp: uidl_inv_def)
  from tab_focus [OF t p(1)] obtain c rs' where r: "tab_rings ?m fs tab ((p # c) # rs')" by blast
  let ?full = "int (length (p # c)) > v_maxup v - 1 \<and> privcheck_cr v SET_PROC_RAC cr \<noteq> None"
  have st: "kfork v cr p tab = Some (if ?full then Some EAGAIN else None)" unfolding kfork_def fork_count [OF r] by simp
  have "uidl_inv lim v n mx (tab, p # fs)" if "\<not> ?full"
  proof -
    from that legal have "lim \<longrightarrow> \<not> int (length (p # c)) > v_maxup v - 1" by blast
    from room [OF r this n] have m: "load (p # fs) (p # c) \<le> ?m" using length_load(2) [of "p # fs" "p # c"] p(2) by simp
    have "load (p # fs) q = load fs q" if "q \<in> set rs'" for q using r that by (auto simp: tab_rings_def rings_def load_def)
    then have "tab_rings ?m (p # fs) tab ((p # c) # rs')" using r m by (auto simp: tab_rings_def)
    then show ?thesis using inv p by (auto simp: uidl_inv_def)
  qed
  then show ?thesis unfolding st by auto
qed

lemma load_remove1:
  assumes "p \<in> set fs"
  shows "load (remove1 p fs) r = (if p \<in> set r then load fs r - 1 else load fs r)" and "p \<in> set r \<Longrightarrow> 0 < load fs r"
proof -
  have "length (filter (\<lambda>q. q \<in> set r) (remove1 p fs)) = (if p \<in> set r then length (filter (\<lambda>q. q \<in> set r) fs) - 1 else length (filter (\<lambda>q. q \<in> set r) fs))"
    using assms by (simp add: filter_remove1 length_remove1)
  moreover have "0 < length (filter (\<lambda>q. q \<in> set r) fs)" if "p \<in> set r" using assms that by (auto simp: filter_empty_conv)
  ultimately show "load (remove1 p fs) r = (if p \<in> set r then load fs r - 1 else load fs r)" "p \<in> set r \<Longrightarrow> 0 < load fs r"
    by (auto simp: load_def length_greater_0_conv [symmetric] simp del: length_greater_0_conv)
qed

lemma fewer_forks: "tab_rings m fs tab rs \<Longrightarrow> tab_rings m (remove1 p fs) tab rs"
proof (cases "p \<in> set fs")
  case True
  assume "tab_rings m fs tab rs"
  then show ?thesis unfolding tab_rings_def load_remove1(1) [OF True] by fastforce
qed (simp add: remove1_idem)

lemma link_ok:
  assumes p: "p \<in> set fs" "child < length tab" "child \<notin> in_use tab" and inv: "uidl_inv lim v n mx (tab, fs)"
  shows "uidl_inv lim v n mx (newproc True v cr p child tab, remove1 p fs)"
proof -
  let ?m = "ring_max lim v n mx"
  obtain rs where t: "tab_rings ?m fs tab rs" and n: "length tab = n" and i: "set fs \<subseteq> in_use tab" "length fs \<le> mx" using inv by (auto simp: uidl_inv_def)
  have u: "p \<in> in_use tab" using p(1) i(1) by blast
  from tab_focus [OF t u] obtain c rs' where r: "tab_rings ?m fs tab ((p # c) # rs')" by blast
  have "Suc (load (remove1 p fs) (p # c)) \<le> ?m"
    using r load_remove1 [OF p(1), of "p # c"] by (auto simp: tab_rings_def)
  moreover have "child \<notin> set (remove1 p fs)" using p(3) i(1) set_remove1_subset by fastforce
  ultimately have "length (newproc True v cr p child tab) = length tab \<and> (\<exists>rs'. tab_rings ?m (remove1 p fs) (newproc True v cr p child tab) rs')"
    using newproc_rings [OF fewer_forks [OF r] p(2,3) u] by blast
  moreover have "in_use tab \<subseteq> in_use (newproc True v cr p child tab)"
    using p(2,3) u by (auto simp: newproc_def Let_def in_use_def nth_upd split: if_splits)
  ultimately show ?thesis using n i set_remove1_subset [of p fs] by (auto simp: uidl_inv_def length_remove1)
qed

lemma new_uidl_ok:
  assumes p: "p \<in> in_use tab" and inv: "uidl_inv lim v n mx (tab, fs)"
    and legal: "lim \<longrightarrow> privcheck_cr v SET_PROC_RAC cr \<noteq> None"
  defines "u \<equiv> \<lparr>u_cred = cr, u_error = None, proc_tab = tab, u_procp = p\<rparr>"
  shows "\<exists>u' rc. new_uidl v newuid msk u = Some (u', rc) \<and> uidl_inv lim v n mx (proc_tab u', fs)"
proof -
  let ?m = "ring_max lim v n mx" and ?x = "uid_proc tab newuid"
  obtain rs where t: "tab_rings ?m fs tab rs" and n: "length tab = n" and i: "set fs \<subseteq> in_use tab" "length fs \<le> mx" using inv by (auto simp: uidl_inv_def)
  have pos: "Suc (length fs) \<le> ?m" using i(2) by (auto simp: ring_max_def)
  define cnt where "cnt = (case ?x of None \<Rightarrow> Some 0
    | Some x \<Rightarrow> uid_cnt_walk (length tab) tab x (p_uidl (tab ! x)) 1)"
  have walk: "cnt = Some (int (length (x # c)))" if "?x = Some x" "tab_rings ?m fs tab ((x # c) # rs')" for x c rs'
    unfolding cnt_def that(1) using count_ring [OF that(2)] by simp
  obtain k where k: "cnt = Some k"
  proof (cases ?x)
    case (Some x)
    with that walk [OF Some] tab_focus [OF t uid_proc_use [OF Some]] show ?thesis by blast
  qed (simp add: cnt_def that)
  let ?full = "?x \<noteq> None \<and> k > v_maxup v - 1 \<and> privcheck_cr v SET_PROC_RAC cr \<noteq> None"
  have st: "new_uidl v newuid msk u = (if ?full then Some (u\<lparr>u_error := Some EAGAIN\<rparr>, -1)
      else map_option (\<lambda>q. (u\<lparr>proc_tab := uidl_relink newuid msk p ?x q tab\<rparr>, 0)) (uidl_pred (length tab) tab p p))"
    using k unfolding cnt_def
    by (cases "uidl_pred (length tab) tab p p") (simp_all add: new_uidl_def u_def privcheck_def Let_def del: not_None_eq)
  show ?thesis
  proof (cases ?full)
    case True
    show ?thesis unfolding st if_P [OF True] using inv by (simp add: u_def)
  next
    case False
    have "Suc (length (x # c)) + length fs \<le> ?m" if x: "?x = Some x" and r: "tab_rings ?m fs tab ((x # c) # rs')" for x c rs'
    proof -
      have "k = int (length (x # c))" using k walk [OF x r] by simp
      then have "lim \<longrightarrow> \<not> int (length (x # c)) > v_maxup v - 1" using False x legal by blast
      from room [OF r this n] i(2) show ?thesis by simp
    qed
    note r = relink_rings [OF t p pos uid_proc_use this]
    have "\<exists>q. uidl_pred (length tab) tab p p = Some q \<and> (\<exists>rs'. tab_rings ?m fs (uidl_relink newuid msk p ?x q tab) rs')"
      by (rule r) simp_all
    then obtain q rs' where q: "uidl_pred (length tab) tab p p = Some q"
      "tab_rings ?m fs (uidl_relink newuid msk p ?x q tab) rs'" by blast
    obtain q' where "uidl_pred (length tab) tab p p = Some q'" "q' \<in> in_use tab" using tab_unlink [OF t p] by blast
    then have b: "q < length tab" "p < length tab" "?x = Some y \<Longrightarrow> y < length tab" for y
      using q(1) in_useD p uid_proc_use [of tab newuid y] by auto
    have "in_use (uidl_relink newuid msk p ?x q tab) = in_use tab" by (rule relink_use [OF b])
    then have "uidl_inv lim v n mx (uidl_relink newuid msk p ?x q tab, fs)"
      unfolding uidl_inv_def fst_conv snd_conv using q(2) n i by auto
    then show ?thesis unfolding st if_not_P [OF False] q(1) by (simp add: u_def)
  qed
qed

lemma free_ok:
  assumes p: "p \<in> in_use tab" "p \<notin> set fs" and inv: "uidl_inv lim v n mx (tab, fs)"
  shows "\<exists>tab'. freeproc p tab = Some tab' \<and> uidl_inv lim v n mx (tab', fs)"
proof -
  obtain rs where t: "tab_rings (ring_max lim v n mx) fs tab rs" and i: "length tab = n" "set fs \<subseteq> in_use tab" "length fs \<le> mx" using inv by (auto simp: uidl_inv_def)
  from freeproc_rings [OF t p(1)] obtain tab' where f: "freeproc p tab = Some tab'" "length tab' = length tab"
    "tab_rings (ring_max lim v n mx) fs tab' (without p rs)" by blast
  have "in_use tab - {p} \<subseteq> in_use tab'" using f(1) by (auto simp: freeproc_def Let_def in_use_def nth_upd split: Option.bind_splits if_splits)
  with f i p(2) show ?thesis by (auto simp: uidl_inv_def)
qed

lemma uidl_next_ok:
  assumes legal: "uidl_legal lim v e" and inv: "uidl_inv lim v n mx s"
  shows "\<exists>s'. uidl_next mx v e s = Some s' \<and> uidl_inv lim v n mx s'"
proof -
  obtain tab fs where s: "s = (tab, fs)" by fastforce
  note inv = inv [unfolded s]
  have same: "uidl_inv lim v n mx (tab, fs)" by (rule inv)
  show ?thesis
  proof (cases e)
    case (UCount cr p)
    with legal have "lim \<longrightarrow> privcheck_cr v SET_PROC_RAC cr \<noteq> None" by (simp add: uidl_legal_def)
    from kfork_ok [OF _ _ inv this, of p] same show ?thesis unfolding UCount uidl_next_def s Let_def by fastforce
  next
    case (ULink cr p child)
    show ?thesis unfolding ULink uidl_next_def s Let_def using link_ok [OF _ _ _ inv] same by auto
  next
    case (UFail p)
    have "uidl_inv lim v n mx (tab, remove1 p fs)"
      using inv fewer_forks set_remove1_subset [of p fs] length_remove1 [of p fs] by (fastforce simp: uidl_inv_def)
    then show ?thesis unfolding UFail uidl_next_def s by simp
  next
    case (UFree p)
    show ?thesis unfolding UFree uidl_next_def s Let_def using free_ok [OF _ _ inv, of p] same by auto
  next
    case (USet cr p newuid msk)
    with legal have "lim \<longrightarrow> privcheck_cr v SET_PROC_RAC cr \<noteq> None" by (simp add: uidl_legal_def)
    from new_uidl_ok [OF _ inv this, of p newuid msk] same show ?thesis unfolding USet uidl_next_def s Let_def by fastforce
  qed
qed

interpretation uidl_machine: guarded_machine "uidl_legal lim v" "uidl_next mx v" "uidl_inv lim v n mx" for lim v n mx
  by unfold_locales (rule uidl_next_ok)

section \<open>The properties\<close>

lemma uidl_inv_count:
  assumes "uidl_inv lim v n mx (tab, fs)" and "p \<in> in_use tab"
  shows "\<exists>c rs. tab_rings (ring_max lim v n mx) fs tab ((p # c) # rs) \<and> fork_uid_cnt tab p = Some (int (length (p # c)))"
proof -
  obtain rs where "tab_rings (ring_max lim v n mx) fs tab rs" using assms(1) by (auto simp: uidl_inv_def)
  from tab_focus [OF this assms(2)] obtain c rs' where r: "tab_rings (ring_max lim v n mx) fs tab ((p # c) # rs')" by blast
  from r fork_count [OF r] show ?thesis by blast
qed

lemma load_none [simp]: "load [] r = length r"
  by (simp add: load_def)

text \<open>
  C9. The process table is well typed at every moment: from a table whose slots in use form
  rings, whatever tests and links of forks, exits and changes of user follow, in any order and with any number of forks under way,
  each of them comes back, and the slots in use again form rings, so that every walk of a list ends.
\<close>

theorem uid_lists_typed:
  assumes "rings (in_use tab) (\<lambda>i. p_uidl (tab ! i)) rs"
  shows "\<exists>tab' fs. run (uidl_next mx v) es (tab, []) = Some (tab', fs) \<and> length tab' = length tab
    \<and> (\<exists>rs'. rings (in_use tab') (\<lambda>i. p_uidl (tab' ! i)) rs')
    \<and> (\<forall>p \<in> in_use tab'. \<exists>k. fork_uid_cnt tab' p = Some k)"
proof -
  have "length r \<le> Suc (length tab)" if "r \<in> set rs" for r
  proof -
    from that obtain as bs where rs: "rs = as @ r # bs" by (meson split_list)
    have "card (set r) = length r" using assms by (intro distinct_card) (auto simp: rs rings_def)
    moreover have "card (set r) \<le> card {..<length tab}"
      by (rule card_mono) (use assms in \<open>auto simp: rs rings_def in_use_def\<close>)
    ultimately show ?thesis by simp
  qed
  with assms have "uidl_inv False v (length tab) mx (tab, [])" by (force simp: uidl_inv_def tab_rings_def ring_max_def)
  from uidl_machine.run_legal [of False v es, OF _ this]
  obtain tab' fs where "run (uidl_next mx v) es (tab, []) = Some (tab', fs)" and inv: "uidl_inv False v (length tab) mx (tab', fs)"
    by (auto simp: uidl_legal_def list_all_iff)
  moreover from inv have "length tab' = length tab"
    "\<exists>rs'. rings (in_use tab') (\<lambda>i. p_uidl (tab' ! i)) rs'"
    by (auto simp: uidl_inv_def tab_rings_def)
  ultimately show ?thesis using uidl_inv_count [OF inv] by blast
qed

definition ex_ptab :: "proc_t list" where
  "ex_ptab = [
     \<lparr>p_stat = SACTIVE, p_uid = 7, p_suid = 7, p_uidl = 2\<rparr>,
     \<lparr>p_stat = SACTIVE, p_uid = 0, p_suid = 0, p_uidl = 1\<rparr>,
     \<lparr>p_stat = SACTIVE, p_uid = 7, p_suid = 7, p_uidl = 0\<rparr>,
     \<lparr>p_stat = SNONE, p_uid = 7, p_suid = 7, p_uidl = 2\<rparr>]"

definition ex_uidl_evs :: "uidl_ev list" where
  "ex_uidl_evs = [UCount ex_cred 0, UFree 2, ULink ex_cred 0 3, USet ex_cred 1 7 ID_REAL, UCount ex_cred 1, UFree 0, UFail 1, USet ex_cred 1 7 ID_REAL]"

lemma ex_ptab_use: "in_use ex_ptab = {0, 1, 2}"
proof -
  have "in_use ex_ptab = {i \<in> {..<4}. p_stat (ex_ptab ! i) \<noteq> SNONE}" by (auto simp: in_use_def ex_ptab_def)
  also have "{..<4 :: nat} = {0, 1, 2, 3}" by auto
  finally show ?thesis by (simp add: ex_ptab_def Collect_conv_if insert_commute conj_disj_distribR Collect_disj_eq)
qed

lemma ex_ptab_rings: "rings (in_use ex_ptab) (\<lambda>i. p_uidl (ex_ptab ! i)) [[0, 2], [1]]"
  unfolding ex_ptab_use by (auto simp: rings_def ring_def ex_ptab_def)

theorem uid_lists_typed_witness:
  "\<exists>tab' fs. run (uidl_next 2 ex_vars) ex_uidl_evs (ex_ptab, []) = Some (tab', fs) \<and> length tab' = length ex_ptab
    \<and> (\<exists>rs'. rings (in_use tab') (\<lambda>i. p_uidl (tab' ! i)) rs')
    \<and> (\<forall>p \<in> in_use tab'. \<exists>k. fork_uid_cnt tab' p = Some k)"
  by (rule uid_lists_typed [OF ex_ptab_rings])



text \<open>
  The bound is reached: with a limit of 3 processes and two forks under way, both pass the test with two processes on the list, which then has four.
\<close>

definition ex_race :: "proc_t list" where
  "ex_race = ex_ptab @ [\<lparr>p_stat = SNONE, p_uid = 0, p_suid = 0, p_uidl = 0\<rparr>]"

lemma forks_pass_limit:
  "\<exists>tab'. run (uidl_next 2 (ex_vars\<lparr>v_maxup := 3\<rparr>)) [UCount ex_cred 0, UCount ex_cred 2, ULink ex_cred 0 3, ULink ex_cred 2 4] (ex_race, []) = Some (tab', [])
     \<and> fork_uid_cnt tab' 0 = Some 4 \<and> privcheck_cr (ex_vars\<lparr>v_maxup := 3\<rparr>) SET_PROC_RAC ex_cred \<noteq> None"
proof -
  have "case run (uidl_next 2 (ex_vars\<lparr>v_maxup := 3\<rparr>)) [UCount ex_cred 0, UCount ex_cred 2, ULink ex_cred 0 3, ULink ex_cred 2 4] (ex_race, []) of None \<Rightarrow> False
    | Some (tab', fs) \<Rightarrow> fs = [] \<and> fork_uid_cnt tab' 0 = Some 4" by code_simp
  moreover have "privcheck_cr (ex_vars\<lparr>v_maxup := 3\<rparr>) SET_PROC_RAC ex_cred \<noteq> None" by code_simp
  ultimately show ?thesis by (auto split: option.splits prod.splits)
qed

end
