(* ===== verification/Ipc.thy ===== *)
theory Ipc
  imports Cred
begin

text \<open>
  The services shared by the three System V IPC facilities,
  \<open>src/bos/kernel/ipc/ipc.c\<close>: the permission check \<open>ipcaccess\<close> and the allocation of
  a descriptor by key, \<open>ipcget\<close>. The source compiles \<open>ipcget\<close> in two ways: \<open>ipcget\<close>
  is the uniprocessor kernel's, \<open>ipcget_mp\<close> the multiprocessor kernel's
  (\<open>_POWER_MP\<close>), executed without interference from another processor. A facility's array
  is seen as the list of the \<open>ipc_perm\<close> headers of its entries; the caller stores the
  header that is returned.
\<close>

unbundle bit_operations_syntax

section \<open>Permission headers\<close>

record ipc_perm =
  ip_uid :: uid_t
  ip_gid :: gid_t
  ip_cuid :: uid_t
  ip_cgid :: gid_t
  ip_mode :: "32 word"
  ip_seq :: int           \<comment> \<open>\<open>unsigned short\<close>\<close>
  ip_key :: int

abbreviation IPC_CREAT :: "32 word" where "IPC_CREAT \<equiv> 0x200"    \<comment> \<open>0001000\<close>
abbreviation IPC_EXCL :: "32 word" where "IPC_EXCL \<equiv> 0x400"      \<comment> \<open>0002000\<close>
abbreviation IPC_NOWAIT :: "32 word" where "IPC_NOWAIT \<equiv> 0x800"  \<comment> \<open>0004000\<close>
abbreviation IPC_ALLOC :: "32 word" where "IPC_ALLOC \<equiv> 0x8000"   \<comment> \<open>0100000\<close>
abbreviation IPC_R :: "32 word" where "IPC_R \<equiv> 0x100"            \<comment> \<open>0000400\<close>
abbreviation IPC_W :: "32 word" where "IPC_W \<equiv> 0x80"             \<comment> \<open>0000200\<close>
abbreviation ACC_BITS :: "32 word" where "ACC_BITS \<equiv> 0x1FF"      \<comment> \<open>0777\<close>
abbreviation (input) IPC_PRIVATE :: int where "IPC_PRIVATE \<equiv> 0"

definition allocated :: "ipc_perm \<Rightarrow> bool" where
  "allocated p \<longleftrightarrow> ip_mode p AND IPC_ALLOC \<noteq> 0"

section \<open>ipcaccess\<close>

text \<open>\<open>None\<close> is the result 0, \<open>Some EACCES\<close> the result 1 with \<open>u.u_error\<close> set.\<close>

definition ipcaccess :: "sysvars \<Rightarrow> ucred \<Rightarrow> ipc_perm \<Rightarrow> 32 word \<Rightarrow> uerror" where
  "ipcaccess v cr p mode =
     (let current_uid = cr_uid cr in
      if mode = IPC_R \<and> priv_req v BYPASS_DAC_READ cr then None
      else if mode \<noteq> IPC_R \<and> priv_req v BYPASS_DAC_WRITE cr then None
      else
        let mode = (if current_uid \<noteq> ip_uid p \<and> current_uid \<noteq> ip_cuid p
                    then let mode = drop_bit 3 mode
                         in if \<not> groupmember_cr (ip_gid p) cr \<and> \<not> groupmember_cr (ip_cgid p) cr
                            then drop_bit 3 mode else mode
                    else mode)
        in if mode AND ip_mode p \<noteq> 0 then None else Some EACCES)"

section \<open>The owner test of the control calls\<close>

text \<open>
  \<open>IPC_RMID\<close> and \<open>IPC_SET\<close> of each facility: the owner, the creator, or a process
  with the given privilege.
\<close>

definition owner_or :: "nat \<Rightarrow> sysvars \<Rightarrow> ucred \<Rightarrow> ipc_perm \<Rightarrow> bool" where
  "owner_or priv v cr p \<longleftrightarrow>
     \<not> (cr_uid cr \<noteq> ip_uid p \<and> cr_uid cr \<noteq> ip_cuid p \<and> \<not> priv_req v priv cr)"

section \<open>ipcget\<close>

text \<open>
  \<open>IGOk i s p m\<close>: entry \<open>i\<close>, status word \<open>s\<close> (1 for a new entry), its header \<open>p\<close> and
  the high water mark \<open>m\<close> afterwards. \<open>IGWild\<close>: the search read beyond the array.
\<close>

datatype ipcget_res = IGErr errno | IGOk nat nat ipc_perm nat | IGWild

text \<open>The search by key: a hit, an error, or the first free entry seen on the way.\<close>

datatype key_scan = KErr errno | KHit nat | KMiss "nat option"

definition key_hit :: "32 word \<Rightarrow> ipc_perm \<Rightarrow> nat \<Rightarrow> key_scan" where
  "key_hit flag p i =
     (if flag AND (IPC_CREAT OR IPC_EXCL) = (IPC_CREAT OR IPC_EXCL) then KErr EEXIST
      else if (flag AND ACC_BITS) AND NOT (ip_mode p) \<noteq> 0 then KErr EACCES
      else KHit i)"

fun key_search :: "int \<Rightarrow> 32 word \<Rightarrow> ipc_perm list \<Rightarrow> nat \<Rightarrow> nat option \<Rightarrow> key_scan" where
  "key_search key flag [] i a = KMiss a"
| "key_search key flag (p # ps) i a =
     (if allocated p then
        (if ip_key p = key then key_hit flag p i
         else key_search key flag ps (Suc i) a)
      else key_search key flag ps (Suc i) (if a = None then Some i else a))"

fun free_search :: "ipc_perm list \<Rightarrow> nat \<Rightarrow> nat option" where
  "free_search [] i = None"
| "free_search (p # ps) i = (if allocated p then free_search ps (Suc i) else Some i)"

definition new_perm :: "ucred \<Rightarrow> int \<Rightarrow> 32 word \<Rightarrow> ipc_perm \<Rightarrow> ipc_perm" where
  "new_perm cr key flag p =
     p\<lparr>ip_mode := IPC_ALLOC OR (flag AND ACC_BITS), ip_key := key,
       ip_cuid := cr_uid cr, ip_uid := cr_uid cr,
       ip_cgid := cr_gid cr, ip_gid := cr_gid cr\<rparr>"

definition ipcget ::
    "ucred \<Rightarrow> int \<Rightarrow> 32 word \<Rightarrow> ipc_perm list \<Rightarrow> nat \<Rightarrow> ipcget_res" where
  "ipcget cr key flag perms mark = (
     let cnt = length perms;
         init = (\<lambda>i m. IGOk i 1 (new_perm cr key flag (perms ! i)) m) in
     if key = IPC_PRIVATE then
       (case free_search (take mark perms) 0 of
          Some i \<Rightarrow> init i mark
        | None \<Rightarrow> if mark < cnt then init mark (mark + 1) else IGErr ENOSPC)
     else
       (case key_search key flag (take mark perms) 0 None of
          KErr e \<Rightarrow> IGErr e
        | KHit i \<Rightarrow> IGOk i 0 (perms ! i) mark
        | KMiss a \<Rightarrow>
            if mark > cnt then IGWild
            else if flag AND IPC_CREAT = 0 then IGErr ENOENT
            else (case a of
                    Some i \<Rightarrow> init i mark
                  | None \<Rightarrow> if mark < cnt then init mark (mark + 1) else IGErr ENOSPC)))"

text \<open>
  The multiprocessor version stores the mode by \<open>compare_and_swap\<close> against 0 and leaves
  the key to the caller. Its loops count entries from 1; \<open>cas_search\<close> runs over the
  entries \<open>i\<close>, \<open>i + 1\<close>, ... of the list it is given and stops at the first that it takes.
\<close>

definition new_perm_mp :: "ucred \<Rightarrow> 32 word \<Rightarrow> ipc_perm \<Rightarrow> ipc_perm" where
  "new_perm_mp cr flag p =
     p\<lparr>ip_mode := IPC_ALLOC OR (flag AND ACC_BITS),
       ip_cuid := cr_uid cr, ip_uid := cr_uid cr,
       ip_cgid := cr_gid cr, ip_gid := cr_gid cr\<rparr>"

fun cas_search :: "ipc_perm list \<Rightarrow> nat \<Rightarrow> nat option" where
  "cas_search [] i = None"
| "cas_search (p # ps) i =
     (if allocated p then cas_search ps (Suc i)
      else if ip_mode p \<noteq> 0 then cas_search ps (Suc i)
      else Some i)"

definition ipcget_mp ::
    "ucred \<Rightarrow> int \<Rightarrow> 32 word \<Rightarrow> ipc_perm list \<Rightarrow> nat \<Rightarrow> ipcget_res" where
  "ipcget_mp cr key flag perms mark = (
     let cnt = length perms; inmark = mark;
         init = (\<lambda>i m. IGOk i 1 (new_perm_mp cr flag (perms ! i)) m) in
     if key = IPC_PRIVATE then
       (case cas_search perms 0 of
          Some j \<Rightarrow> let i = j + 1 in init j (if i \<ge> inmark then mark + 1 else mark)
        | None \<Rightarrow> IGErr ENOSPC)
     else
       (case key_search key flag (take mark perms) 0 None of
          KErr e \<Rightarrow> IGErr e
        | KHit i \<Rightarrow> IGOk i 0 (perms ! i) mark
        | KMiss a \<Rightarrow>
            if mark > cnt then IGWild
            else if flag AND IPC_CREAT = 0 then IGErr ENOENT
            else
              let i = mark + 1 in
              (case a of
                 Some j \<Rightarrow>
                   if ip_mode (perms ! j) = 0 then init j mark
                   else (case cas_search (take (cnt - i) (drop mark perms)) mark of
                           Some j \<Rightarrow> init j (mark + 1) | None \<Rightarrow> IGErr ENOSPC)
               | None \<Rightarrow>
                   (case cas_search (take (cnt - i) (drop mark perms)) mark of
                      Some j \<Rightarrow> init j (mark + 1) | None \<Rightarrow> IGErr ENOSPC))))"

section \<open>Permission check\<close>

text \<open>Owner or creator 0, member of their groups 1, everyone else 2.\<close>

definition perm_class :: "ucred \<Rightarrow> ipc_perm \<Rightarrow> nat" where
  "perm_class cr p =
     (if cr_uid cr = ip_uid p \<or> cr_uid cr = ip_cuid p then 0
      else if groupmember_cr (ip_gid p) cr \<or> groupmember_cr (ip_cgid p) cr then 1 else 2)"

text \<open>
  \<open>ipcaccess\<close> grants a read or write request exactly when the process bypasses
  the check by privilege or the one bit of its class is set in the header: the classes are
  exclusive, so an owner without the owner bit is refused whatever the other bits say.
\<close>

lemma ipcaccess_decides:
  "(ipcaccess v cr p IPC_R = None \<longleftrightarrow>
      priv_req v BYPASS_DAC_READ cr \<or> bit (ip_mode p) (8 - 3 * perm_class cr p)) \<and>
   (ipcaccess v cr p IPC_W = None \<longleftrightarrow>
      priv_req v BYPASS_DAC_WRITE cr \<or> bit (ip_mode p) (7 - 3 * perm_class cr p))"
proof -
  have bits: "(2 ^ n :: 32 word) AND m \<noteq> 0 \<longleftrightarrow> bit m n" for n m
    by (metis and.commute and_exp_eq_0_iff_not_bit)
  have masks: "(256 :: 32 word) = 2 ^ 8" "(32 :: 32 word) = 2 ^ 5" "(4 :: 32 word) = 2 ^ 2"
    "(128 :: 32 word) = 2 ^ 7" "(16 :: 32 word) = 2 ^ 4" "(2 :: 32 word) = 2 ^ 1" by simp_all
  have "ipcaccess v cr p IPC_R = None \<longleftrightarrow>
     priv_req v BYPASS_DAC_READ cr \<or> bit (ip_mode p) (8 - 3 * perm_class cr p)"
    using bits [of 8 "ip_mode p"] bits [of 5 "ip_mode p"] bits [of 2 "ip_mode p"]
    by (auto simp: ipcaccess_def perm_class_def Let_def)
  moreover have "ipcaccess v cr p IPC_W = None \<longleftrightarrow>
     priv_req v BYPASS_DAC_WRITE cr \<or> bit (ip_mode p) (7 - 3 * perm_class cr p)"
    using bits [of 7 "ip_mode p"] bits [of 4 "ip_mode p"] bits [of 1 "ip_mode p"]
    by (auto simp: ipcaccess_def perm_class_def Let_def)
  ultimately show ?thesis ..
qed

section \<open>Searches\<close>

lemma allocated_iff: "allocated p \<longleftrightarrow> bit (ip_mode p) 15"
  using and_exp_eq_0_iff_not_bit [of "ip_mode p" 15] by (simp add: allocated_def)

lemma key_hit_KHit: "key_hit flag p i = KHit j \<Longrightarrow> j = i"
  by (simp add: key_hit_def split: if_splits)

lemma key_hit_not_miss [simp]: "key_hit flag p i \<noteq> KMiss b"
  by (simp add: key_hit_def)

lemma key_search_hit:
  "key_search key flag ps i a = KHit j \<Longrightarrow>
     i \<le> j \<and> j < i + length ps \<and> allocated (ps ! (j - i)) \<and> ip_key (ps ! (j - i)) = key"
proof (induction ps arbitrary: i a)
  case (Cons p ps)
  show ?case
  proof (cases "allocated p \<and> ip_key p = key")
    case False
    with Cons.prems obtain a' where "key_search key flag ps (Suc i) a' = KHit j"
      by (auto split: if_splits)
    from Cons.IH [OF this] show ?thesis by (auto simp: nth_Cons')
  qed (use Cons.prems in \<open>auto dest: key_hit_KHit\<close>)
qed simp

lemma free_search_Some:
  "free_search ps i = Some j \<Longrightarrow>
     i \<le> j \<and> j < i + length ps \<and> \<not> allocated (ps ! (j - i)) \<and> (\<forall>k < j - i. allocated (ps ! k))"
proof (induction ps arbitrary: i)
  case (Cons p ps)
  show ?case
  proof (cases "allocated p")
    case True
    with Cons.prems have "free_search ps (Suc i) = Some j" by simp
    from Cons.IH [OF this] True show ?thesis by (auto simp: nth_Cons')
  qed (use Cons.prems in auto)
qed simp

lemma free_search_None: "free_search ps i = None \<longleftrightarrow> (\<forall>p \<in> set ps. allocated p)"
  by (induction ps arbitrary: i) auto

lemma key_search_miss:
  "key_search key flag ps i a = KMiss b \<Longrightarrow>
     (\<forall>p \<in> set ps. allocated p \<longrightarrow> ip_key p \<noteq> key) \<and> b = (if a = None then free_search ps i else a)"
proof (induction ps arbitrary: i a)
  case (Cons p ps)
  then show ?case
    by (cases "allocated p"; cases a) (auto split: if_splits dest: Cons.IH)
qed simp

lemma key_search_present:
  "p \<in> set ps \<Longrightarrow> allocated p \<Longrightarrow> ip_key p = key \<Longrightarrow> key_search key flag ps i a \<noteq> KMiss b"
  using key_search_miss by blast

lemma key_search_unique:
  assumes "j < length ps" "allocated (ps ! j)" "ip_key (ps ! j) = key"
    and "\<And>k. k < length ps \<Longrightarrow> allocated (ps ! k) \<Longrightarrow> ip_key (ps ! k) = key \<Longrightarrow> k = j"
  shows "key_search key flag ps i a = key_hit flag (ps ! j) (i + j)"
  using assms
proof (induction ps arbitrary: i a j)
  case (Cons p ps)
  show ?case
  proof (cases j)
    case 0
    then have "allocated p" "ip_key p = key" using Cons.prems(2,3) by simp_all
    then show ?thesis by (simp add: 0)
  next
    case (Suc j')
    have tl: "k < length ps \<Longrightarrow> allocated (ps ! k) \<Longrightarrow> ip_key (ps ! k) = key \<Longrightarrow> k = j'" for k
      using Cons.prems(4) [of "Suc k"] Suc by simp
    have p: "\<not> (allocated p \<and> ip_key p = key)"
      using Cons.prems(4) [of 0] Suc by auto
    have j': "j' < length ps" "allocated (ps ! j')" "ip_key (ps ! j') = key"
      using Cons.prems(1-3) Suc by simp_all
    have "key_search key flag (p # ps) i a =
        key_search key flag ps (Suc i) (if allocated p then a else if a = None then Some i else a)"
      using p by simp
    also have "\<dots> = key_hit flag (ps ! j') (Suc i + j')" by (rule Cons.IH [OF j' tl])
    finally show ?thesis by (simp add: Suc)
  qed
qed simp

section \<open>The table invariant\<close>

text \<open>
  No entry at or above the high water mark is allocated, and no two allocated entries have
  the same key, \<open>IPC_PRIVATE\<close> apart.
\<close>

definition key_table :: "ipc_perm list \<Rightarrow> nat \<Rightarrow> bool" where
  "key_table perms mark \<longleftrightarrow> mark \<le> length perms
     \<and> (\<forall>i < length perms. allocated (perms ! i) \<longrightarrow> i < mark)
     \<and> (\<forall>i < length perms. \<forall>j < length perms. allocated (perms ! i) \<longrightarrow> allocated (perms ! j)
          \<longrightarrow> ip_key (perms ! i) = ip_key (perms ! j) \<longrightarrow> ip_key (perms ! i) \<noteq> IPC_PRIVATE
          \<longrightarrow> i = j)"

lemma new_perm_allocated [simp]: "allocated (new_perm cr key flag p)"
proof -
  have "bit (ip_mode (new_perm cr key flag p)) 15" by (simp add: new_perm_def bit_simps)
  then show ?thesis by (simp add: allocated_iff)
qed

lemma new_perm_key [simp]: "ip_key (new_perm cr key flag p) = key"
  by (simp add: new_perm_def)

lemma free_entry:
  assumes "key_table perms mark" and "free_search (take mark perms) 0 = Some i"
  shows "i < mark \<and> \<not> allocated (perms ! i)"
  using free_search_Some [OF assms(2)] assms(1) by (auto simp: key_table_def)

text \<open>Storing a header with a fresh key in a free entry keeps the invariant.\<close>

lemma key_table_insert:
  assumes tab: "key_table perms mark" and i: "i < length perms" "i < m" "mark \<le> m" "m \<le> length perms"
    and fresh: "\<And>j. j < length perms \<Longrightarrow> allocated (perms ! j) \<Longrightarrow> ip_key (perms ! j) \<noteq> key \<or> key = IPC_PRIVATE"
    and key: "ip_key p = key" and "\<not> allocated (perms ! i)"
  shows "key_table (perms[i := p]) m"
  using assms
  unfolding key_table_def by (auto simp: nth_list_update)

lemma key_search_fresh:
  "\<forall>q \<in> set ps. allocated q \<longrightarrow> ip_key q \<noteq> key \<Longrightarrow>
     key_search key flag ps i a = KMiss (if a = None then free_search ps i else a)"
  by (induction ps arbitrary: i a) auto

section \<open>What ipcget does\<close>

lemma take_mark_complete:
  assumes "key_table perms mark" "i < length perms" "allocated (perms ! i)"
  shows "i < length (take mark perms)" "take mark perms ! i = perms ! i"
  using assms by (auto simp: key_table_def)

lemma all_taken:
  assumes "key_table perms mark" "free_search (take mark perms) 0 = None"
  shows "i < mark \<Longrightarrow> allocated (perms ! i)"
proof -
  assume i: "i < mark"
  with assms(1) have "take mark perms ! i \<in> set (take mark perms)"
    by (intro nth_mem) (simp add: key_table_def)
  with assms(2) i show "allocated (perms ! i)" by (simp add: free_search_None)
qed

lemma mark_free:
  assumes "key_table perms mark" "mark < length perms"
  shows "\<not> allocated (perms ! mark)"
  using assms by (auto simp: key_table_def)

lemma key_missing:
  assumes tab: "key_table perms mark"
    and miss: "key_search key flag (take mark perms) 0 None = KMiss a"
    and j: "j < length perms" "allocated (perms ! j)"
  shows "ip_key (perms ! j) \<noteq> key"
proof -
  from take_mark_complete [OF tab j] have "perms ! j \<in> set (take mark perms)"
    by (metis nth_mem)
  with key_search_miss [OF miss] j(2) show ?thesis by blast
qed

text \<open>What is known of an entry that \<open>ipcget\<close> hands out.\<close>

definition handed_out :: "int \<Rightarrow> ipc_perm list \<Rightarrow> nat \<Rightarrow> nat \<Rightarrow> nat \<Rightarrow> ipc_perm \<Rightarrow> nat \<Rightarrow> bool" where
  "handed_out key perms mark i s p m \<longleftrightarrow>
     i < length perms \<and> i < m \<and> mark \<le> m \<and> m \<le> length perms \<and> allocated p \<and> ip_key p = key \<and>
     (if s = 0 then p = perms ! i \<and> m = mark
      else s = 1 \<and> \<not> allocated (perms ! i) \<and>
        (key = IPC_PRIVATE \<or> (\<forall>j < length perms. allocated (perms ! j) \<longrightarrow> ip_key (perms ! j) \<noteq> key)))"

lemma handed_out_free:
  assumes "key_table perms mark" "free_search (take mark perms) 0 = Some i"
    and "key = IPC_PRIVATE \<or> (\<forall>j < length perms. allocated (perms ! j) \<longrightarrow> ip_key (perms ! j) \<noteq> key)"
  shows "handed_out key perms mark i 1 (new_perm cr key flag (perms ! i)) mark"
  using free_entry [OF assms(1,2)] assms(1,3) by (auto simp: handed_out_def key_table_def)

lemma handed_out_mark:
  assumes "key_table perms mark" "mark < length perms"
    and "key = IPC_PRIVATE \<or> (\<forall>j < length perms. allocated (perms ! j) \<longrightarrow> ip_key (perms ! j) \<noteq> key)"
  shows "handed_out key perms mark mark 1 (new_perm cr key flag (perms ! mark)) (mark + 1)"
  using mark_free [OF assms(1,2)] assms(2,3) by (auto simp: handed_out_def)

lemma handed_out_hit:
  assumes tab: "key_table perms mark"
    and hit: "key_search key flag (take mark perms) 0 None = KHit i"
  shows "handed_out key perms mark i 0 (perms ! i) mark"
  using key_search_hit [OF hit] tab by (auto simp: handed_out_def key_table_def)

lemma ipcget_handed_out:
  assumes tab: "key_table perms mark" and res: "ipcget cr key flag perms mark = IGOk i s p m"
  shows "handed_out key perms mark i s p m"
proof (cases "key = IPC_PRIVATE")
  case True
  with res show ?thesis
    using handed_out_free [OF tab] handed_out_mark [OF tab]
    by (auto simp: ipcget_def Let_def split: option.splits if_splits)
next
  case False
  show ?thesis
  proof (cases "key_search key flag (take mark perms) 0 None")
    case (KHit j)
    with res False have "i = j" "s = 0" "p = perms ! j" "m = mark" by (auto simp: ipcget_def)
    with handed_out_hit [OF tab KHit] show ?thesis by simp
  next
    case (KMiss a)
    have fresh: "\<forall>j < length perms. allocated (perms ! j) \<longrightarrow> ip_key (perms ! j) \<noteq> key"
      using key_missing [OF tab KMiss] by blast
    have a: "a = free_search (take mark perms) 0" using key_search_miss [OF KMiss] by simp
    from res False KMiss show ?thesis
      using handed_out_free [OF tab] handed_out_mark [OF tab] fresh
      by (auto simp: ipcget_def Let_def a split: option.splits if_splits)
  qed (use res False in \<open>simp add: ipcget_def\<close>)
qed

lemma ipcget_table:
  assumes "key_table perms mark" and "ipcget cr key flag perms mark = IGOk i s p m"
  shows "key_table (perms[i := p]) m \<and> i < length perms \<and> allocated p \<and> ip_key p = key
    \<and> (s = 1 \<longleftrightarrow> \<not> allocated (perms ! i)) \<and> (s = 0 \<longleftrightarrow> p = perms ! i \<and> m = mark)"
proof -
  note out = ipcget_handed_out [OF assms]
  show ?thesis
  proof (cases "s = 0")
    case True
    with out have *: "p = perms ! i" "m = mark" and "i < length perms" "allocated p" "ip_key p = key"
      unfolding handed_out_def by argo+
    with True assms(1) * show ?thesis by (metis list_update_id zero_neq_one)
  next
    case False
    with out have *: "i < length perms" "i < m" "mark \<le> m" "m \<le> length perms" "allocated p"
      "ip_key p = key" "s = 1" "\<not> allocated (perms ! i)"
      "key = IPC_PRIVATE \<or> (\<forall>j < length perms. allocated (perms ! j) \<longrightarrow> ip_key (perms ! j) \<noteq> key)"
      by (simp_all add: handed_out_def)
    then have "key_table (perms[i := p]) m"
      using key_table_insert [OF assms(1), of i m key p] by blast
    with * show ?thesis by auto
  qed
qed

lemma ipcget_seq:
  "ipcget cr key flag perms m = IGOk i s p m' \<Longrightarrow> ip_seq p = ip_seq (perms ! i)"
  by (auto simp: ipcget_def Let_def new_perm_def split: if_splits option.splits key_scan.splits)

lemma ipcget_no_wild:
  "key_table perms m \<Longrightarrow> ipcget cr key flag perms m \<noteq> IGWild"
  by (auto simp: ipcget_def Let_def key_table_def split: if_splits option.splits key_scan.splits)

lemma key_table_dealloc:
  "key_table ps m \<Longrightarrow> \<not> allocated p \<Longrightarrow> key_table (ps[x := p]) m"
  by (cases "x < length ps") (auto simp: key_table_def nth_list_update split: if_splits)

lemma key_table_same_key:
  "key_table ps m \<Longrightarrow> x < length ps \<Longrightarrow> allocated (ps ! x) \<Longrightarrow> ip_key p = ip_key (ps ! x) \<Longrightarrow>
     key_table (ps[x := p]) m"
  unfolding key_table_def by (auto simp: nth_list_update split: if_splits)

section \<open>Identifiers\<close>

text \<open>
  Each facility gives out identifiers, made of the index of an entry and its sequence number,
  and looks them up again. What both conversions promise: an identifier leads back to its
  entry, and no identifier leads to an entry that is not in use.
\<close>

locale ident_space =
  fixes conv :: "int \<Rightarrow> 's \<Rightarrow> nat option"
    and ident :: "'s \<Rightarrow> nat \<Rightarrow> int"
    and live :: "'s \<Rightarrow> nat \<Rightarrow> bool"
    and ok :: "'s \<Rightarrow> bool"
  assumes conv_ident: "ok s \<Longrightarrow> live s x \<Longrightarrow> conv (ident s x) s = Some x"
    and conv_live: "ok s \<Longrightarrow> conv i s = Some x \<Longrightarrow> live s x"
begin

lemma ident_inj: "ok s \<Longrightarrow> live s x \<Longrightarrow> live s y \<Longrightarrow> ident s x = ident s y \<Longrightarrow> x = y"
  using conv_ident by (metis option.inject)

lemma ident_stale:
  assumes "ok s" and "live s y" and "conv i s \<noteq> Some y"
  shows "i \<noteq> ident s y"
  using assms conv_ident by blast

lemma conv_unused: "ok s \<Longrightarrow> \<not> live s x \<Longrightarrow> conv i s \<noteq> Some x"
  using conv_live by blast

end

text \<open>Headers used by the witnesses: a free entry, and one in use under key 9.\<close>

definition ex_perm :: "32 word \<Rightarrow> int \<Rightarrow> ipc_perm" where
  "ex_perm mode key = \<lparr>ip_uid = 200, ip_gid = 1, ip_cuid = 200, ip_cgid = 1, ip_mode = mode,
     ip_seq = 0, ip_key = key\<rparr>"

text \<open>
  Whatever \<open>ipcget\<close> hands out, storing it keeps the table well formed: the high
  water mark covers every allocated entry and stays within the array, and no two live entries
  share a key. A status of 1 is given exactly for an entry that was free.
\<close>

lemma ipcget_keeps_table:
  assumes "key_table perms mark" and "ipcget cr key flag perms mark = IGOk i s p m"
  shows "key_table (perms[i := p]) m \<and> i < length perms \<and> allocated p \<and> ip_key p = key
    \<and> (s = 1 \<longleftrightarrow> \<not> allocated (perms ! i)) \<and> (s = 0 \<longleftrightarrow> p = perms ! i \<and> m = mark)"
  using assms by (rule ipcget_table)

lemma ipcget_keeps_table_witness:
  "\<exists>p. ipcget ex_cred 5 0x380 [ex_perm 0x8180 9, ex_perm 0 0] 1 = IGOk 1 1 p 2
     \<and> key_table [ex_perm 0x8180 9, p] 2"
proof -
  have tab: "key_table [ex_perm 0x8180 9, ex_perm 0 0] 1"
    by (auto simp: key_table_def ex_perm_def allocated_def less_Suc_eq nth_Cons')
  have "ipcget ex_cred 5 0x380 [ex_perm 0x8180 9, ex_perm 0 0] 1
      = IGOk 1 1 (new_perm ex_cred 5 0x380 (ex_perm 0 0)) 2"
    by (simp add: ipcget_def ex_perm_def allocated_def)
  with ipcget_keeps_table [OF tab this] show ?thesis by auto
qed

text \<open>
  The second process asking for a key gets the entry the first one created: after
  \<open>ipcget\<close> has made an entry, any later call with its key that is not exclusive and asks
  for no permission bit the creator withheld returns that very entry, with status 0.
\<close>

lemma ipcget_finds_created:
  assumes tab: "key_table perms mark" and key: "key \<noteq> IPC_PRIVATE"
    and made: "ipcget cr key flag perms mark = IGOk i 1 p m"
    and ask: "flag' AND (IPC_CREAT OR IPC_EXCL) \<noteq> (IPC_CREAT OR IPC_EXCL)"
      "(flag' AND ACC_BITS) AND NOT (ip_mode p) = 0"
  shows "ipcget cr' key flag' (perms[i := p]) m = IGOk i 0 p m"
proof -
  note out = ipcget_handed_out [OF tab made]
  let ?ps = "perms[i := p]"
  from out have i: "i < length perms" "i < m" "m \<le> length perms" "allocated p" "ip_key p = key"
    and fresh: "j < length perms \<Longrightarrow> allocated (perms ! j) \<Longrightarrow> ip_key (perms ! j) \<noteq> key" for j
    using key by (auto simp: handed_out_def)
  have "key_search key flag' (take m ?ps) 0 None = key_hit flag' (take m ?ps ! i) (0 + i)"
  proof (rule key_search_unique)
    fix k assume k: "k < length (take m ?ps)" "allocated (take m ?ps ! k)" "ip_key (take m ?ps ! k) = key"
    show "k = i"
    proof (rule ccontr)
      assume "k \<noteq> i"
      with k fresh [of k] show False by simp
    qed
  qed (use i in simp_all)
  also have "\<dots> = KHit i" using i ask by (simp add: key_hit_def)
  finally show ?thesis using key i by (simp add: ipcget_def)
qed

lemma ipcget_finds_created_witness:
  "ipcget ex_cred 5 0x80 [ex_perm 0x8180 9, new_perm ex_cred 5 0x380 (ex_perm 0 0)] 2
     = IGOk 1 0 (new_perm ex_cred 5 0x380 (ex_perm 0 0)) 2"
proof -
  have tab: "key_table [ex_perm 0x8180 9, ex_perm 0 0] 1"
    by (auto simp: key_table_def ex_perm_def allocated_def less_Suc_eq nth_Cons')
  have made: "ipcget ex_cred 5 0x380 [ex_perm 0x8180 9, ex_perm 0 0] 1
      = IGOk 1 1 (new_perm ex_cred 5 0x380 (ex_perm 0 0)) 2"
    by (simp add: ipcget_def ex_perm_def allocated_def)
  from ipcget_finds_created [OF tab _ made, of "0x80" ex_cred] show ?thesis
    by (simp add: new_perm_def)
qed

lemma room_cases:
  assumes tab: "key_table perms mark"
  shows "(case free_search (take mark perms) 0 of
            Some i \<Rightarrow> True | None \<Rightarrow> mark < length perms)
         \<longleftrightarrow> (\<exists>i < length perms. \<not> allocated (perms ! i))"
proof (cases "free_search (take mark perms) 0")
  case None
  with tab have "mark = length perms \<or> mark < length perms" by (auto simp: key_table_def)
  with mark_free [OF tab] all_taken [OF tab None] show ?thesis by (auto simp: None)
next
  case (Some i)
  from free_entry [OF tab Some] tab have "i < length perms \<and> \<not> allocated (perms ! i)"
    by (simp add: key_table_def)
  with Some show ?thesis by auto
qed

text \<open>
  Creation fails only for lack of room: a private request, or one with
  \<open>IPC_CREAT\<close> for a key nobody holds, is refused with \<open>ENOSPC\<close> when every entry
  of the array is in use and otherwise yields a new entry.
\<close>

lemma ipcget_creates_iff_room:
  assumes tab: "key_table perms mark"
    and new: "key = IPC_PRIVATE \<or> flag AND IPC_CREAT \<noteq> 0
                \<and> (\<forall>j < length perms. allocated (perms ! j) \<longrightarrow> ip_key (perms ! j) \<noteq> key)"
  shows "if \<exists>i < length perms. \<not> allocated (perms ! i)
         then \<exists>i p m. ipcget cr key flag perms mark = IGOk i 1 p m
         else ipcget cr key flag perms mark = IGErr ENOSPC"
proof -
  have mark: "mark \<le> length perms" using tab by (simp add: key_table_def)
  let ?r = "case free_search (take mark perms) 0 of
      Some i \<Rightarrow> IGOk i 1 (new_perm cr key flag (perms ! i)) mark
    | None \<Rightarrow> if mark < length perms
              then IGOk mark 1 (new_perm cr key flag (perms ! mark)) (mark + 1) else IGErr ENOSPC"
  have res: "ipcget cr key flag perms mark = ?r"
  proof (cases "key = IPC_PRIVATE")
    case True
    with mark show ?thesis by (auto simp: ipcget_def split: option.splits)
  next
    case False
    with new have "\<forall>q \<in> set (take mark perms). allocated q \<longrightarrow> ip_key q \<noteq> key"
      by (metis False in_set_takeD in_set_conv_nth)
    from key_search_fresh [OF this]
    have "key_search key flag (take mark perms) 0 None = KMiss (free_search (take mark perms) 0)"
      by simp
    with False new mark show ?thesis by (auto simp: ipcget_def split: option.splits)
  qed
  show ?thesis using room_cases [OF tab] by (auto simp: res split: option.splits)
qed

lemma ipcget_creates_iff_room_witness:
  "ipcget ex_cred 5 0x380 [ex_perm 0x8180 9] 1 = IGErr ENOSPC \<and>
   (\<exists>i p m. ipcget ex_cred 0 0x180 [ex_perm 0x8180 9, ex_perm 0 0] 1 = IGOk i 1 p m)"
proof
  have "key_table [ex_perm 0x8180 9] 1"
    by (simp add: key_table_def)
  from ipcget_creates_iff_room [OF this, of 5 "0x380" ex_cred]
  show "ipcget ex_cred 5 0x380 [ex_perm 0x8180 9] 1 = IGErr ENOSPC"
    by (simp add: ex_perm_def allocated_def)
  have tab: "key_table [ex_perm 0x8180 9, ex_perm 0 0] 1"
    by (auto simp: key_table_def ex_perm_def allocated_def less_Suc_eq nth_Cons')
  have "\<exists>i < length [ex_perm 0x8180 9, ex_perm 0 0]. \<not> allocated ([ex_perm 0x8180 9, ex_perm 0 0] ! i)"
    by (rule exI [of _ 1]) (simp add: ex_perm_def allocated_def)
  with ipcget_creates_iff_room [OF tab, of 0 "0x180" ex_cred]
  show "\<exists>i p m. ipcget ex_cred 0 0x180 [ex_perm 0x8180 9, ex_perm 0 0] 1 = IGOk i 1 p m"
    by simp
qed

section \<open>The multiprocessor version\<close>

lemma cas_search_None: "\<forall>p \<in> set ps. allocated p \<Longrightarrow> cas_search ps i = None"
  by (induction ps arbitrary: i) auto

lemma cas_search_first:
  "\<forall>k < n. allocated (ps ! k) \<Longrightarrow> n < length ps \<Longrightarrow> ip_mode (ps ! n) = 0 \<Longrightarrow>
     cas_search ps i = Some (i + n)"
proof (induction ps arbitrary: i n)
  case (Cons p ps)
  then show ?case
  proof (cases n)
    case 0
    with Cons.prems show ?thesis by (simp add: allocated_def)
  next
    case (Suc n')
    from Cons.prems(1) Suc have "allocated p" by auto
    moreover have "cas_search ps (Suc i) = Some (Suc i + n')"
      using Cons.prems Suc by (intro Cons.IH) auto
    ultimately show ?thesis by (simp add: Suc)
  qed
qed simp

text \<open>
  The multiprocessor kernel's keyed creation stops one entry short of the array: with
  every entry but the last in use it fails with \<open>ENOSPC\<close>, where the uniprocessor kernel
  hands out the last one. The second loop continues the counter of the first, which has
  already been incremented past the mark.
\<close>

lemma ipcget_mp_misses_last:
  assumes tab: "key_table perms mark" and last: "mark + 1 = length perms"
    and full: "\<forall>i < mark. allocated (perms ! i) \<and> ip_key (perms ! i) \<noteq> key"
    and key: "key \<noteq> IPC_PRIVATE" "flag AND IPC_CREAT \<noteq> 0"
  shows "ipcget_mp cr key flag perms mark = IGErr ENOSPC
    \<and> ipcget cr key flag perms mark = IGOk mark 1 (new_perm cr key flag (perms ! mark)) (mark + 1)"
proof -
  have all: "\<forall>q \<in> set (take mark perms). allocated q \<and> ip_key q \<noteq> key"
    using full last by (fastforce simp: in_set_conv_nth)
  have "free_search (take mark perms) 0 = None" using all by (simp add: free_search_None)
  moreover have "key_search key flag (take mark perms) 0 None = KMiss (free_search (take mark perms) 0)"
    using all by (subst key_search_fresh) auto
  ultimately show ?thesis using key last by (simp add: ipcget_mp_def ipcget_def)
qed

lemma ipcget_mp_misses_last_witness:
  "ipcget_mp ex_cred 5 0x380 [ex_perm 0x8180 9, ex_perm 0 0] 1 = IGErr ENOSPC"
proof -
  have tab: "key_table [ex_perm 0x8180 9, ex_perm 0 0] 1"
    by (auto simp: key_table_def ex_perm_def allocated_def less_Suc_eq nth_Cons')
  from ipcget_mp_misses_last [OF tab, of 5 "0x380" ex_cred] show ?thesis
    by (simp add: ex_perm_def allocated_def)
qed

text \<open>
  On the multiprocessor kernel the high water mark can pass the end of the array:
  when every entry has been used and the last one is free again, a private creation takes it
  and still increments the mark, so the next search by a key that is not in the table reads
  an entry beyond the array.
\<close>

lemma ipcget_mp_mark_overshoots:
  assumes "perms \<noteq> []" and "\<forall>i < length perms - 1. allocated (perms ! i)"
    and "ip_mode (last perms) = 0" and "key \<noteq> IPC_PRIVATE"
    and "\<forall>q \<in> set perms. ip_key q \<noteq> key"
  shows "\<exists>p. ipcget_mp cr IPC_PRIVATE flag perms (length perms) =
               IGOk (length perms - 1) 1 p (length perms + 1)
           \<and> (\<forall>k. k \<noteq> key \<longrightarrow> 
              ipcget_mp cr' key flag' (perms[length perms - 1 := p\<lparr>ip_key := k\<rparr>]) (length perms + 1) = IGWild)"
proof -
  let ?n = "length perms - 1"
  let ?p = "new_perm_mp cr flag (perms ! ?n)"
  have n: "?n < length perms" "last perms = perms ! ?n" using assms(1) by (simp_all add: last_conv_nth)
  have "cas_search perms 0 = Some ?n"
    using cas_search_first [of ?n perms 0] assms n by auto
  then have first: "ipcget_mp cr IPC_PRIVATE flag perms (length perms) =
      IGOk ?n 1 ?p (length perms + 1)"
    using assms(1) by (simp add: ipcget_mp_def Let_def Suc_diff_1)
  have "ipcget_mp cr' key flag' (perms[?n := ?p\<lparr>ip_key := k\<rparr>]) (length perms + 1) = IGWild"
    if k: "k \<noteq> key" for k
  proof -
    let ?ps = "perms[?n := ?p\<lparr>ip_key := k\<rparr>]"
    have none: "\<forall>q \<in> set ?ps. ip_key q \<noteq> key"
      using set_update_subset_insert [of perms ?n "?p\<lparr>ip_key := k\<rparr>"] assms(5) k by auto
    then have "key_search key flag' ?ps 0 None = KMiss (free_search ?ps 0)"
      by (subst key_search_fresh) auto
    then show ?thesis using assms(4) by (simp add: ipcget_mp_def)
  qed
  with first show ?thesis by blast
qed

lemma ipcget_mp_mark_overshoots_witness:
  "\<exists>p. ipcget_mp ex_cred IPC_PRIVATE 0x180 [ex_perm 0x8180 9, ex_perm 0 0] 2 = IGOk 1 1 p 3
     \<and> ipcget_mp ex_cred 5 0 [ex_perm 0x8180 9, p\<lparr>ip_key := 0\<rparr>] 3 = IGWild"
proof -
  let ?ps = "[ex_perm 0x8180 9, ex_perm 0 0]"
  have "?ps \<noteq> []" "\<forall>i < length ?ps - 1. allocated (?ps ! i)" "ip_mode (last ?ps) = 0"
    "(5 :: int) \<noteq> IPC_PRIVATE" "\<forall>q \<in> set ?ps. ip_key q \<noteq> 5"
    by (simp_all add: ex_perm_def allocated_def)
  from ipcget_mp_mark_overshoots [OF this, of ex_cred "0x180" ex_cred 0]
  obtain p where "ipcget_mp ex_cred IPC_PRIVATE 0x180 ?ps 2 = IGOk 1 1 p 3"
    "\<forall>k. k \<noteq> 5 \<longrightarrow> ipcget_mp ex_cred 5 0 [ex_perm 0x8180 9, p\<lparr>ip_key := k\<rparr>] 3 = IGWild"
    by (auto simp: numeral_3_eq_3 numeral_2_eq_2)
  then show ?thesis by auto
qed

end
