(* ===== verification/SemUndo.thy ===== *)
theory SemUndo
  imports Ipc
begin

text \<open>
  The adjust-on-exit entries of the semaphore facility, \<open>src/bos/kernel/ipc/sem.c\<close>: the
  array \<open>un_ent\<close> of a process's \<open>struct sem_undo\<close> as a list (\<open>un_cnt\<close> is its length),
  the part of \<open>semaoe\<close> that searches and edits it, and the part of \<open>semunrm\<close> that
  removes the entries of a range of semaphores. The lists, and the linking of the structures
  by \<open>semunp\<close>, are put together in theory \<open>Sem\<close>. An interface for keyed adjustments
  is stated as a locale and interpreted on the model of \<open>semaoe\<close>.
\<close>

unbundle bit_operations_syntax

section \<open>Limits and entries\<close>

text \<open>\<open>struct seminfo\<close>, as initialised from \<open>ipcspace.h\<close>.\<close>

record seminfo =
  semmni :: int
  semmsl :: int
  semopm :: int
  semume :: int
  semvmx :: int
  semaem :: int

definition seminfo_init :: seminfo where
  "seminfo_init = \<lparr>semmni = 4096, semmsl = 65535, semopm = 1024, semume = 1024,
     semvmx = 32767, semaem = 16384\<rparr>"

text \<open>What the code relies on of the limits: values fit their fields.\<close>

definition seminfo_ok :: "seminfo \<Rightarrow> bool" where
  "seminfo_ok si \<longleftrightarrow> 0 < semmni si \<and> semmni si \<le> 4096 \<and> 0 < semmsl si \<and> semmsl si \<le> 65535
     \<and> 0 < semume si \<and> semume si \<le> 32767
     \<and> 0 < semvmx si \<and> semvmx si \<le> 32767 \<and> 0 < semaem si \<and> semaem si \<le> 16384"

record undo =
  un_aoe :: int     \<comment> \<open>\<open>short\<close>\<close>
  un_num :: int     \<comment> \<open>\<open>ushort\<close>\<close>
  un_id :: int

section \<open>Editing the entries of a process\<close>

text \<open>The entries the search of \<open>semaoe\<close> passes over.\<close>

definition aoe_before :: "int \<Rightarrow> int \<Rightarrow> undo \<Rightarrow> bool" where
  "aoe_before i n e \<longleftrightarrow> un_id e < i \<or> (un_id e = i \<and> un_num e < n)"

datatype aoe_res =
    AoeErr errno "undo list"
  | AoeOk "undo list"

definition aoe_found :: "seminfo \<Rightarrow> int \<Rightarrow> undo list \<Rightarrow> undo \<Rightarrow> undo list \<Rightarrow> aoe_res" where
  "aoe_found si val pre e post =
     (let a = sshort (un_aoe e - val) in
      if a > semaem si \<or> a < - semaem si then
        AoeErr ERANGE (pre @ e\<lparr>un_aoe := sshort (a + val)\<rparr> # post)
      else if a = 0 then AoeOk (pre @ post)
      else AoeOk (pre @ e\<lparr>un_aoe := a\<rparr> # post))"

definition aoe_edit :: "seminfo \<Rightarrow> int \<Rightarrow> int \<Rightarrow> int \<Rightarrow> undo list \<Rightarrow> aoe_res" where
  "aoe_edit si val i n es =
     (let pre = takeWhile (aoe_before i n) es; post = dropWhile (aoe_before i n) es;
          miss = (if int (length es) \<ge> semume si then AoeErr EINVAL es
                  else AoeOk (pre @ \<lparr>un_aoe = - val, un_num = ushort n, un_id = i\<rparr> # post))
      in case post of
           [] \<Rightarrow> miss
         | e # rest \<Rightarrow> if un_id e = i \<and> un_num e = n then aoe_found si val pre e rest else miss)"

text \<open>The inner loop of \<open>semunrm\<close>.\<close>

fun unrm_entries :: "int \<Rightarrow> int \<Rightarrow> int \<Rightarrow> undo list \<Rightarrow> undo list" where
  "unrm_entries i low high [] = []"
| "unrm_entries i low high (e # es) =
     (if i < un_id e then e # es
      else if i > un_id e \<or> low > un_num e then e # unrm_entries i low high es
      else if high < un_num e then e # es
      else unrm_entries i low high es)"

section \<open>Keyed adjustments as an interface\<close>

text \<open>
  What a failed semaphore operation needs of the adjustments: an adjustment that succeeded
  can be taken back exactly. The batch lemma is the one the undoing of a whole prefix of
  operations rests on.
\<close>

locale adjustments =
  fixes adj :: "int \<Rightarrow> 'k \<Rightarrow> 's \<Rightarrow> 's option"
    and look :: "'s \<Rightarrow> 'k \<Rightarrow> int"
    and inv :: "'s \<Rightarrow> bool"
    and ok :: "'k \<Rightarrow> bool"
  assumes adj_inv: "inv s \<Longrightarrow> ok k \<Longrightarrow> adj v k s = Some t \<Longrightarrow> inv t"
    and look_adj: "inv s \<Longrightarrow> ok k \<Longrightarrow> adj v k s = Some t \<Longrightarrow> look t = (look s)(k := look s k - v)"
    and adj_back: "inv s \<Longrightarrow> ok k \<Longrightarrow> adj v k s = Some t \<Longrightarrow> adj (- v) k t = Some s"
begin

fun adj_all :: "(int \<times> 'k) list \<Rightarrow> 's \<Rightarrow> 's option" where
  "adj_all [] s = Some s"
| "adj_all ((v, k) # xs) s = (case adj v k s of None \<Rightarrow> None | Some t \<Rightarrow> adj_all xs t)"

lemma adj_all_append:
  "adj_all (xs @ ys) s = (case adj_all xs s of None \<Rightarrow> None | Some t \<Rightarrow> adj_all ys t)"
  by (induction xs arbitrary: s) (auto split: option.splits)

lemma adj_all_inv:
  "inv s \<Longrightarrow> \<forall>(v, k) \<in> set xs. ok k \<Longrightarrow> adj_all xs s = Some t \<Longrightarrow> inv t"
proof (induction xs arbitrary: s)
  case (Cons x xs)
  obtain v l where x: "x = (v, l)" by (cases x)
  with Cons.prems obtain s' where s': "adj v l s = Some s'" "adj_all xs s' = Some t"
    by (auto split: option.splits)
  moreover have "inv s'" using adj_inv [OF Cons.prems(1) _ s'(1)] Cons.prems(2) x by simp
  ultimately show ?case using Cons.IH Cons.prems(2) by simp
qed simp

lemma adj_all_look:
  "inv s \<Longrightarrow> \<forall>(v, k) \<in> set xs. ok k \<Longrightarrow> adj_all xs s = Some t \<Longrightarrow>
     look t k = look s k - sum_list (map fst (filter (\<lambda>x. snd x = k) xs))"
proof (induction xs arbitrary: s)
  case (Cons x xs)
  obtain v l where x: "x = (v, l)" by (cases x)
  with Cons.prems obtain s' where s': "adj v l s = Some s'" "adj_all xs s' = Some t"
    by (auto split: option.splits)
  have "ok l" "\<forall>(v, k) \<in> set xs. ok k" using Cons.prems(2) x by auto
  with s' Cons.prems(1) have "inv s'" "look s' = (look s)(l := look s l - v)"
    by (auto dest: adj_inv look_adj)
  with Cons.IH [OF this(1) \<open>\<forall>(v, k) \<in> set xs. ok k\<close> s'(2)] show ?case by (simp add: x)
qed simp

lemma adj_all_back:
  "inv s \<Longrightarrow> \<forall>(v, k) \<in> set xs. ok k \<Longrightarrow> adj_all xs s = Some t \<Longrightarrow>
     adj_all (rev (map (\<lambda>(v, k). (- v, k)) xs)) t = Some s"
proof (induction xs arbitrary: s)
  case (Cons x xs)
  obtain v l where x: "x = (v, l)" by (cases x)
  with Cons.prems obtain s' where s': "adj v l s = Some s'" "adj_all xs s' = Some t"
    by (auto split: option.splits)
  have ok: "ok l" "\<forall>(v, k) \<in> set xs. ok k" using Cons.prems(2) x by auto
  with s' Cons.prems(1) have "inv s'" "adj (- v) l s' = Some s" by (auto dest: adj_inv adj_back)
  with Cons.IH [OF this(1) ok(2) s'(2)] show ?case by (simp add: x adj_all_append)
qed simp

end

section \<open>The entries as a map\<close>

definition undo_key :: "undo \<Rightarrow> int \<times> int" where
  "undo_key e = (un_id e, un_num e)"

definition key_less :: "undo \<Rightarrow> undo \<Rightarrow> bool" where
  "key_less e f \<longleftrightarrow> aoe_before (un_id f) (un_num f) e"

text \<open>The adjustment on exit of semaphore \<open>n\<close> of the set with identifier \<open>i\<close>.\<close>

definition adj_of :: "undo list \<Rightarrow> int \<times> int \<Rightarrow> int" where
  "adj_of es k = (case find (\<lambda>e. undo_key e = k) es of None \<Rightarrow> 0 | Some e \<Rightarrow> un_aoe e)"

definition undo_inv :: "seminfo \<Rightarrow> undo list \<Rightarrow> bool" where
  "undo_inv si es \<longleftrightarrow> sorted_wrt key_less es \<and> int (length es) \<le> semume si
     \<and> (\<forall>e \<in> set es. un_aoe e \<noteq> 0 \<and> \<bar>un_aoe e\<bar> \<le> semaem si \<and> 0 \<le> un_num e \<and> un_num e < 32768)"

definition undo_adj :: "seminfo \<Rightarrow> int \<Rightarrow> int \<times> int \<Rightarrow> undo list \<Rightarrow> undo list option" where
  "undo_adj si v k es =
     (if v = 0 then Some es
      else if v > semaem si \<or> v < - semaem si then None
      else case aoe_edit si v (fst k) (snd k) es of AoeErr e es' \<Rightarrow> None | AoeOk es' \<Rightarrow> Some es')"

definition small_num :: "int \<times> int \<Rightarrow> bool" where
  "small_num k \<longleftrightarrow> 0 \<le> snd k \<and> snd k < 32768"

lemma find_append:
  "find P (xs @ ys) = (case find P xs of None \<Rightarrow> find P ys | Some x \<Rightarrow> Some x)"
  by (induction xs) auto

lemma aoe_split:
  assumes "\<forall>e \<in> set pre. aoe_before i n e" "post = [] \<or> \<not> aoe_before i n (hd post)"
  shows "takeWhile (aoe_before i n) (pre @ post) = pre" "dropWhile (aoe_before i n) (pre @ post) = post"
  using assms by (induction pre) (auto simp: takeWhile_eq_Nil_iff dropWhile_eq_self_iff)

text \<open>A sorted list splits at a key: entries before it, the entry if present, entries after.\<close>

definition aoe_at :: "int \<Rightarrow> int \<Rightarrow> undo list \<Rightarrow> undo list \<Rightarrow> undo list \<Rightarrow> bool" where
  "aoe_at i n pre mid post \<longleftrightarrow>
     (\<forall>e \<in> set pre. aoe_before i n e) \<and> (\<forall>e \<in> set mid. undo_key e = (i, n))
     \<and> (\<forall>e \<in> set post. un_id e > i \<or> (un_id e = i \<and> un_num e > n)) \<and> length mid \<le> 1"

lemma aoe_at_ex:
  assumes "sorted_wrt key_less es"
  shows "\<exists>pre mid post. es = pre @ mid @ post \<and> aoe_at i n pre mid post"
  using assms
proof (induction es)
  case Nil
  then show ?case by (simp add: aoe_at_def)
next
  case (Cons e es)
  then obtain pre mid post where es: "es = pre @ mid @ post" and at: "aoe_at i n pre mid post" by auto
  have less: "\<forall>f \<in> set es. key_less e f" using Cons.prems by simp
  consider "aoe_before i n e" | "undo_key e = (i, n)" | "un_id e > i \<or> (un_id e = i \<and> un_num e > n)"
    unfolding aoe_before_def undo_key_def by (metis linorder_less_linear prod.inject)
  then show ?case
  proof cases
    case 1
    with es at have "e # es = (e # pre) @ mid @ post \<and> aoe_at i n (e # pre) mid post"
      by (auto simp: aoe_at_def)
    then show ?thesis by blast
  next
    case 2
    have after: "un_id f > i \<or> (un_id f = i \<and> un_num f > n)" if "f \<in> set es" for f
      using less 2 that by (fastforce simp: key_less_def aoe_before_def undo_key_def)
    have "f \<notin> set pre" for f
      using after [of f] at es by (auto simp: aoe_at_def aoe_before_def)
    moreover have "f \<notin> set mid" for f
      using after [of f] at es by (auto simp: aoe_at_def undo_key_def)
    ultimately have "pre = []" "mid = []" by (meson last_in_set)+
    with 2 es at have "e # es = [] @ [e] @ post \<and> aoe_at i n [] [e] post"
      by (auto simp: aoe_at_def)
    then show ?thesis by blast
  next
    case 3
    have "\<forall>f \<in> set es. un_id f > i \<or> (un_id f = i \<and> un_num f > n)"
      using less 3 by (fastforce simp: key_less_def aoe_before_def)
    with 3 have "e # es = [] @ [] @ (e # es) \<and> aoe_at i n [] [] (e # es)"
      by (auto simp: aoe_at_def)
    then show ?thesis by blast
  qed
qed

lemma aoe_edit_at:
  assumes "aoe_at i n pre mid post"
  shows "aoe_edit si v i n (pre @ mid @ post) =
    (case mid of [] \<Rightarrow> if int (length (pre @ post)) \<ge> semume si then AoeErr EINVAL (pre @ post)
                       else AoeOk (pre @ \<lparr>un_aoe = - v, un_num = ushort n, un_id = i\<rparr> # post)
     | e # _ \<Rightarrow> aoe_found si v pre e post)"
proof (cases mid)
  case Nil
  have "post = [] \<or> \<not> aoe_before i n (hd post)"
    using assms by (cases post) (auto simp: aoe_at_def aoe_before_def)
  moreover have "\<forall>e \<in> set pre. aoe_before i n e" using assms by (simp add: aoe_at_def)
  ultimately have split: "takeWhile (aoe_before i n) (pre @ post) = pre"
      "dropWhile (aoe_before i n) (pre @ post) = post"
    using aoe_split by blast+
  have "\<not> (\<exists>e rest. post = e # rest \<and> un_id e = i \<and> un_num e = n)"
    using assms by (auto simp: aoe_at_def)
  then show ?thesis unfolding aoe_edit_def Let_def Nil append_Nil split
    by (cases post) auto
next
  case (Cons e r)
  then have mid: "mid = [e]" "undo_key e = (i, n)" using assms by (auto simp: aoe_at_def)
  then have "\<not> aoe_before i n e" by (auto simp: aoe_before_def undo_key_def)
  moreover have "\<forall>e \<in> set pre. aoe_before i n e" using assms by (simp add: aoe_at_def)
  ultimately show ?thesis
    using aoe_split [of pre i n "e # post"] mid by (simp add: aoe_edit_def Let_def undo_key_def)
qed

lemma aoe_at_miss_before: "aoe_before i n e \<Longrightarrow> undo_key e \<noteq> (i, n)"
  by (auto simp: aoe_before_def undo_key_def)

lemma adj_of_at:
  assumes "aoe_at i n pre mid post"
  shows "adj_of (pre @ mid @ post) k =
    (if k = (i, n) then (case mid of [] \<Rightarrow> 0 | e # _ \<Rightarrow> un_aoe e) else adj_of (pre @ post) k)"
proof -
  have pre: "find (\<lambda>e. undo_key e = (i, n)) pre = None"
    and post: "find (\<lambda>e. undo_key e = (i, n)) post = None"
    using assms by (auto simp: find_None_iff aoe_at_def aoe_before_def undo_key_def)
  have mid: "length mid \<le> 1" "\<forall>e \<in> set mid. undo_key e = (i, n)" using assms by (auto simp: aoe_at_def)
  show ?thesis
  proof (cases mid)
    case Nil
    with pre post show ?thesis by (simp add: adj_of_def find_append)
  next
    case (Cons e r)
    with mid have "mid = [e]" "undo_key e = (i, n)" by auto
    with pre post show ?thesis by (auto simp: adj_of_def find_append split: option.splits)
  qed
qed

lemma undo_inv_at:
  assumes "aoe_at i n pre mid post"
  shows "undo_inv si (pre @ mid @ post) \<longleftrightarrow> undo_inv si (pre @ post)
     \<and> int (length (pre @ mid @ post)) \<le> semume si
     \<and> (\<forall>e \<in> set mid. un_aoe e \<noteq> 0 \<and> \<bar>un_aoe e\<bar> \<le> semaem si \<and> 0 \<le> un_num e \<and> un_num e < 32768)"
proof (cases mid)
  case Nil
  then show ?thesis by (auto simp: undo_inv_def)
next
  case (Cons e r)
  then have mid: "mid = [e]" and key: "un_id e = i" "un_num e = n"
    using assms by (auto simp: aoe_at_def undo_key_def)
  have "\<forall>f \<in> set pre. key_less f e" "\<forall>f \<in> set post. key_less e f"
    using assms key by (auto simp: aoe_at_def key_less_def aoe_before_def)
  then show ?thesis by (auto simp: mid undo_inv_def sorted_wrt_append)
qed

section \<open>The laws of semaoe's edit\<close>

lemma undo_inv_sub:
  "aoe_at i n pre mid post \<Longrightarrow> undo_inv si (pre @ mid @ post) \<Longrightarrow> undo_inv si (pre @ post)"
  using undo_inv_at by blast

lemma sshort_small:
  assumes "\<bar>a\<bar> \<le> m" "\<bar>v\<bar> \<le> m" "m \<le> 16384" "\<bar>sshort (a - v)\<bar> \<le> m"
  shows "sshort (a - v) = a - v"
proof -
  have "a - v \<noteq> 32768" using assms(3,4) by (auto simp: sshort_def)
  then have "a - v < 32768" using assms(1-3) by linarith
  then show ?thesis using assms(1-3) by (intro sshort_id) auto
qed

definition entry_change :: "seminfo \<Rightarrow> int \<Rightarrow> int \<Rightarrow> int \<Rightarrow> undo list \<Rightarrow> undo list \<Rightarrow> bool" where
  "entry_change si v i n mid mid' \<longleftrightarrow>
     mid = [] \<and> mid' = [\<lparr>un_aoe = - v, un_num = n, un_id = i\<rparr>]
     \<or> (\<exists>e. mid = [e] \<and> un_aoe e = v \<and> mid' = [])
     \<or> (\<exists>e. mid = [e] \<and> \<bar>un_aoe e - v\<bar> \<le> semaem si \<and> un_aoe e \<noteq> v
            \<and> mid' = [e\<lparr>un_aoe := un_aoe e - v\<rparr>])"

lemma undo_adj_cases:
  assumes ok: "seminfo_ok si" and inv: "undo_inv si es" and num: "0 \<le> n" "n < 32768"
    and res: "undo_adj si v (i, n) es = Some es'"
  obtains (same) "v = 0" "es' = es"
  | (change) pre mid mid' post where
      "v \<noteq> 0" "\<bar>v\<bar> \<le> semaem si" "es = pre @ mid @ post" "es' = pre @ mid' @ post"
      "aoe_at i n pre mid post" "aoe_at i n pre mid' post" "undo_inv si es'"
      "entry_change si v i n mid mid'"
proof (cases "v = 0")
  case True
  with res show ?thesis by (intro same) (simp_all add: undo_adj_def)
next
  case False
  with res have v: "\<bar>v\<bar> \<le> semaem si" and edit: "aoe_edit si v i n es = AoeOk es'"
    by (auto simp: undo_adj_def split: if_splits aoe_res.splits)
  from inv have "sorted_wrt key_less es" by (simp add: undo_inv_def)
  from aoe_at_ex [OF this, of i n] obtain pre mid post
    where es: "es = pre @ mid @ post" and at: "aoe_at i n pre mid post" by blast
  show ?thesis
  proof (cases mid)
    case Nil
    let ?new = "\<lparr>un_aoe = - v, un_num = n, un_id = i\<rparr>"
    have n: "ushort n = n" using num by (simp add: kwrap)
    from edit have ed: "(if int (length (pre @ post)) \<ge> semume si then AoeErr EINVAL (pre @ post)
        else AoeOk (pre @ ?new # post)) = AoeOk es'"
      unfolding es aoe_edit_at [OF at] by (simp add: n Nil split: if_splits)
    then have len: "int (length (pre @ post)) < semume si" and es': "es' = pre @ [?new] @ post"
      by (simp_all split: if_splits)
    have at': "aoe_at i n pre [?new] post" using at by (simp add: aoe_at_def undo_key_def)
    have "undo_inv si es'"
      unfolding es' undo_inv_at [OF at', of si]
      using inv len False v num unfolding es Nil by simp
    moreover have "entry_change si v i n mid [?new]" using Nil by (simp add: entry_change_def)
    ultimately show ?thesis by (rule change [OF False v es es' at at'])
  next
    case (Cons e r)
    then have mid: "mid = [e]" and key: "undo_key e = (i, n)" using at by (auto simp: aoe_at_def)
    from inv have e: "\<bar>un_aoe e\<bar> \<le> semaem si" "0 \<le> un_num e" "un_num e < 32768"
      by (simp_all add: undo_inv_def es mid)
    from edit have found: "aoe_found si v pre e post = AoeOk es'"
      unfolding es aoe_edit_at [OF at] by (simp add: mid)
    have nowrap: "sshort (un_aoe e - v) = un_aoe e - v" if "\<bar>sshort (un_aoe e - v)\<bar> \<le> semaem si"
      using sshort_small [OF e(1) v _ that] ok by (simp add: seminfo_ok_def)
    from found have a: "\<bar>sshort (un_aoe e - v)\<bar> \<le> semaem si"
      by (simp add: aoe_found_def Let_def split: if_splits)
    from found
    have res': "es' = (if sshort (un_aoe e - v) = 0 then pre @ post
                  else pre @ [e\<lparr>un_aoe := sshort (un_aoe e - v)\<rparr>] @ post)"
      by (simp add: aoe_found_def Let_def split: if_splits)
    note aoe = nowrap [OF a]
    show ?thesis
    proof (cases "un_aoe e = v")
      case True
      with res' aoe have es': "es' = pre @ [] @ post" by simp
      have at': "aoe_at i n pre [] post" using at by (simp add: aoe_at_def)
      have "undo_inv si es'" unfolding es' append_Nil by (rule undo_inv_sub [OF at inv [unfolded es]])
      moreover have "entry_change si v i n mid []" using mid True by (simp add: entry_change_def)
      ultimately show ?thesis by (rule change [OF False v es es' at at'])
    next
      case neq: False
      let ?e = "e\<lparr>un_aoe := un_aoe e - v\<rparr>"
      from neq res' aoe have es': "es' = pre @ [?e] @ post" by simp
      have at': "aoe_at i n pre [?e] post" using at key by (simp add: aoe_at_def undo_key_def)
      have "undo_inv si es'"
        unfolding es' undo_inv_at [OF at', of si]
        using inv neq a e unfolding es undo_inv_at [OF at, of si] by (simp add: mid aoe)
      moreover have "entry_change si v i n mid [?e]" using mid neq a aoe by (simp add: entry_change_def)
      ultimately show ?thesis by (rule change [OF False v es es' at at'])
    qed
  qed
qed

lemma undo_adj_inv:
  assumes "seminfo_ok si" "undo_inv si es" "small_num k" "undo_adj si v k es = Some es'"
  shows "undo_inv si es'"
proof -
  obtain i n where k: "k = (i, n)" "0 \<le> n" "n < 32768"
    using assms(3) by (cases k) (auto simp: small_num_def)
  show ?thesis
    by (rule undo_adj_cases [OF assms(1,2) k(2,3) assms(4) [unfolded k(1)]]) (use assms(2) in auto)
qed

lemma undo_adj_look:
  assumes "seminfo_ok si" "undo_inv si es" "small_num k" "undo_adj si v k es = Some es'"
  shows "adj_of es' = (adj_of es)(k := adj_of es k - v)"
proof -
  obtain i n where k: "k = (i, n)" "0 \<le> n" "n < 32768"
    using assms(3) by (cases k) (auto simp: small_num_def)
  show ?thesis
  proof (rule undo_adj_cases [OF assms(1,2) k(2,3) assms(4) [unfolded k(1)]])
    fix pre mid mid' post
    assume "es = pre @ mid @ post" "es' = pre @ mid' @ post"
      "aoe_at i n pre mid post" "aoe_at i n pre mid' post"
      "entry_change si v i n mid mid'"
    then show ?thesis
      by (intro ext) (auto simp: adj_of_at k entry_change_def)
  qed (simp add: fun_upd_idem)
qed

lemma undo_adj_back:
  assumes "seminfo_ok si" "undo_inv si es" "small_num k" "undo_adj si v k es = Some es'"
  shows "undo_adj si (- v) k es' = Some es"
proof -
  obtain i n where k: "k = (i, n)" "0 \<le> n" "n < 32768"
    using assms(3) by (cases k) (auto simp: small_num_def)
  show ?thesis
  proof (rule undo_adj_cases [OF assms(1,2) k(2,3) assms(4) [unfolded k(1)]])
    assume "v = 0" "es' = es"
    then show ?thesis by (simp add: undo_adj_def)
  next
    fix pre mid mid' post
    assume v: "v \<noteq> 0" "\<bar>v\<bar> \<le> semaem si" and es: "es = pre @ mid @ post" "es' = pre @ mid' @ post"
      and at: "aoe_at i n pre mid post" "aoe_at i n pre mid' post"
      and mid: "entry_change si v i n mid mid'"
    have inv: "undo_inv si (pre @ mid @ post)" using assms(2) es(1) by simp
    have aem: "semaem si \<le> 16384" using assms(1) by (simp add: seminfo_ok_def)
    have edit: "undo_adj si (- v) k es' =
        (case aoe_edit si (- v) i n es' of AoeErr e es' \<Rightarrow> None | AoeOk es' \<Rightarrow> Some es')"
      using v by (auto simp: undo_adj_def k)
    from mid show ?thesis unfolding entry_change_def
    proof (elim disjE exE conjE)
      assume "mid = []" "mid' = [\<lparr>un_aoe = - v, un_num = n, un_id = i\<rparr>]"
      then have "aoe_edit si (- v) i n es' = AoeOk es"
        using es aoe_edit_at [OF at(2), of si "- v"] assms(1)
        by (simp add: aoe_found_def seminfo_ok_def kwrap)
      then show ?thesis by (simp add: edit)
    next
      fix e assume e: "mid = [e]" "un_aoe e = v" "mid' = []"
      have "undo_key e = (i, n)" using at(1) e by (simp add: aoe_at_def)
      then have "e = \<lparr>un_aoe = v, un_num = n, un_id = i\<rparr>" using e by (simp add: undo_key_def)
      moreover have "int (length (pre @ post)) < semume si"
        using inv e by (simp add: undo_inv_def)
      ultimately have "aoe_edit si (- v) i n es' = AoeOk es"
        using es e aoe_edit_at [OF at(2), of si "- v"] k by (simp add: kwrap)
      then show ?thesis by (simp add: edit)
    next
      fix e assume e: "mid = [e]" "\<bar>un_aoe e - v\<bar> \<le> semaem si" "un_aoe e \<noteq> v"
        "mid' = [e\<lparr>un_aoe := un_aoe e - v\<rparr>]"
      have "un_aoe e \<noteq> 0" "\<bar>un_aoe e\<bar> \<le> semaem si" using inv e by (auto simp: undo_inv_def)
      then have "sshort (un_aoe e) = un_aoe e" using aem by (intro sshort_id) auto
      then have "aoe_found si (- v) pre (e\<lparr>un_aoe := un_aoe e - v\<rparr>) post = AoeOk (pre @ e # post)"
        using \<open>un_aoe e \<noteq> 0\<close> \<open>\<bar>un_aoe e\<bar> \<le> semaem si\<close> by (cases e) (auto simp: aoe_found_def)
      then have "aoe_edit si (- v) i n es' = AoeOk es"
        using es e aoe_edit_at [OF at(2), of si "- v"] by simp
      then show ?thesis by (simp add: edit)
    qed
  qed
qed

interpretation semadj: adjustments "undo_adj si" adj_of "\<lambda>es. seminfo_ok si \<and> undo_inv si es" small_num
  for si
  by unfold_locales (auto intro: undo_adj_inv undo_adj_back simp: undo_adj_look)

section \<open>The removal of a range\<close>

lemma unrm_keep_all:
  "\<forall>e \<in> set es. un_id e > i \<or> (un_id e = i \<and> un_num e > high) \<Longrightarrow>
     filter (\<lambda>e. \<not> (un_id e = i \<and> low \<le> un_num e \<and> un_num e \<le> high)) es = es"
  by (intro filter_True) auto

lemma unrm_entries_filter:
  "sorted_wrt key_less es \<Longrightarrow>
     unrm_entries i low high es = filter (\<lambda>e. \<not> (un_id e = i \<and> low \<le> un_num e \<and> un_num e \<le> high)) es"
proof (induction es)
  case (Cons e es)
  have less: "f \<in> set es \<Longrightarrow> key_less e f" for f using Cons.prems by simp
  consider "i < un_id e \<or> (un_id e = i \<and> high < un_num e)" | "i > un_id e \<or> (un_id e = i \<and> low > un_num e)"
    | "un_id e = i" "low \<le> un_num e" "un_num e \<le> high" by linarith
  then show ?case
  proof cases
    case 1
    have "\<forall>f \<in> set (e # es). un_id f > i \<or> (un_id f = i \<and> un_num f > high)"
      using less 1 by (fastforce simp: key_less_def aoe_before_def)
    from unrm_keep_all [OF this] have "filter (\<lambda>e. \<not> (un_id e = i \<and> low \<le> un_num e \<and> un_num e \<le> high)) (e # es) = e # es" .
    with 1 Cons show ?thesis
      by (cases "low > un_num e \<and> \<not> i < un_id e") auto
  qed (use Cons in auto)
qed simp

lemma filter_undo_inv: "undo_inv si es \<Longrightarrow> undo_inv si (filter P es)"
  using order_trans [OF of_nat_mono [OF length_filter_le [of P es]]]
  by (auto simp: undo_inv_def intro: sorted_wrt_filter)

lemma unrm_entries_inv: "undo_inv si es \<Longrightarrow> undo_inv si (unrm_entries i low high es)"
  by (simp add: unrm_entries_filter filter_undo_inv undo_inv_def [THEN iffD1, THEN conjunct1])

end
