(* ===== verification/Sem.thy ===== *)
theory Sem
  imports SemUndo
begin

text \<open>
  The semaphore facility of \<open>src/bos/kernel/ipc/sem.c\<close>, compiled for the uniprocessor
  kernel: one lock, \<open>sem_lock\<close>, is held by every operation from its first look at the
  shared state to its end or to the sleep. The state is the array \<open>sema\<close> with its high
  water mark, the undo structures of the processes with their list \<open>semunp\<close>, and the
  \<open>u.u_error\<close> of the running thread. An event word (\<open>semnwait\<close>, \<open>semzwait\<close>) is
  the list of the threads asleep on it, and \<open>e_wakeup\<close> empties it. A result of \<open>None\<close>
  is an access outside an array.
\<close>

unbundle bit_operations_syntax

section \<open>State\<close>

record sem =
  semval :: int        \<comment> \<open>\<open>unsigned short\<close>\<close>
  sempid :: int
  semncnt :: int       \<comment> \<open>\<open>unsigned short\<close>\<close>
  semzcnt :: int       \<comment> \<open>\<open>unsigned short\<close>\<close>
  semnwait :: "nat list"
  semzwait :: "nat list"

record semid_ds =
  sem_perm :: ipc_perm
  sem_base :: "sem list"
  sem_nsems :: int     \<comment> \<open>\<open>unsigned short\<close>\<close>
  sem_otime :: int
  sem_ctime :: int

record sembuf =
  sem_num :: int       \<comment> \<open>\<open>unsigned short\<close>\<close>
  sem_op :: int        \<comment> \<open>\<open>short\<close>\<close>
  sem_flg :: "16 word"

record semsys =
  sema :: "semid_ds list"
  sem_mark :: nat
  U_semundo :: "nat \<Rightarrow> undo list option"
  semunp :: "nat list"
  sem_err :: uerror

text \<open>
  The running thread: its process, the process's pid, whether \<open>xmalloc\<close> finds memory and
  whether \<open>copyout\<close> to the user's address succeeds.
\<close>

record caller =
  c_proc :: nat
  c_pid :: int
  mem_ok :: bool
  out_ok :: bool

abbreviation SEM_UNDO :: "16 word" where "SEM_UNDO \<equiv> 0x1000"     \<comment> \<open>010000\<close>
abbreviation SEM_ORDER :: "16 word" where "SEM_ORDER \<equiv> 0x2000"   \<comment> \<open>020000\<close>
abbreviation SEM_ERR :: "16 word" where "SEM_ERR \<equiv> 0x4000"       \<comment> \<open>040000\<close>
abbreviation SEM_NOWAIT :: "16 word" where "SEM_NOWAIT \<equiv> 0x800"  \<comment> \<open>\<open>IPC_NOWAIT\<close>\<close>

definition sem_at :: "semsys \<Rightarrow> nat \<Rightarrow> nat \<Rightarrow> sem" where
  "sem_at k x n = sem_base (sema k ! x) ! n"

definition ds_mod :: "nat \<Rightarrow> (semid_ds \<Rightarrow> semid_ds) \<Rightarrow> semsys \<Rightarrow> semsys" where
  "ds_mod x f k = k\<lparr>sema := upd (sema k) x f\<rparr>"

definition sem_mod :: "nat \<Rightarrow> nat \<Rightarrow> (sem \<Rightarrow> sem) \<Rightarrow> semsys \<Rightarrow> semsys" where
  "sem_mod x n f = ds_mod x (\<lambda>sp. sp\<lparr>sem_base := upd (sem_base sp) n f\<rparr>)"

definition undo_of :: "semsys \<Rightarrow> nat \<Rightarrow> undo list" where
  "undo_of k p = (case U_semundo k p of None \<Rightarrow> [] | Some es \<Rightarrow> es)"

definition set_err :: "errno \<Rightarrow> semsys \<Rightarrow> semsys" where
  "set_err e k = k\<lparr>sem_err := Some e\<rparr>"

definition n_wakeup :: "sem \<Rightarrow> sem" where
  "n_wakeup s = (if semncnt s \<noteq> 0 then s\<lparr>semncnt := 0, semnwait := []\<rparr> else s)"

definition z_wakeup :: "sem \<Rightarrow> sem" where
  "z_wakeup s = (if semzcnt s \<noteq> 0 then s\<lparr>semzcnt := 0, semzwait := []\<rparr> else s)"

section \<open>semaoe\<close>

definition semaoe ::
    "seminfo \<Rightarrow> caller \<Rightarrow> int \<Rightarrow> int \<Rightarrow> int \<Rightarrow> semsys \<Rightarrow> semsys \<times> int" where
  "semaoe si c val0 i num0 k =
     (let val = sshort val0; num = sshort num0; me = c_proc c in
      if val = 0 then (k, 0)
      else if val > semaem si \<or> val < - semaem si then (set_err ERANGE k, -1)
      else if U_semundo k me = None \<and> \<not> mem_ok c then (set_err ENOMEM k, -1)
      else
        let es = undo_of k me in
        case aoe_edit si val i num es of
          AoeErr e es' \<Rightarrow> (set_err e (k\<lparr>U_semundo := (U_semundo k)(me := Some es')\<rparr>), 1)
        | AoeOk es' \<Rightarrow>
            (k\<lparr>U_semundo := (U_semundo k)(me := Some es'),
               semunp := (if es = [] then me # semunp k
                          else if es' = [] then remove1 me (semunp k)
                          else semunp k)\<rparr>, 0))"

section \<open>semconv\<close>

definition semconv :: "seminfo \<Rightarrow> int \<Rightarrow> semsys \<Rightarrow> nat option" where
  "semconv si s k =
     (let s = s mod 2 ^ 32; sq = s div semmni si; index = nat (s mod semmni si) in
      if index \<ge> sem_mark k then None
      else
        let sp = sema k ! index in
        if sq \<noteq> ip_seq (sem_perm sp) \<or> \<not> allocated (sem_perm sp) then None
        else Some index)"

section \<open>semunrm\<close>

definition semunrm :: "int \<Rightarrow> int \<Rightarrow> int \<Rightarrow> semsys \<Rightarrow> semsys" where
  "semunrm i low high k =
     (let f = (\<lambda>p. unrm_entries i (ushort low) (ushort high) (undo_of k p)) in
      k\<lparr>U_semundo := (\<lambda>p. if p \<in> set (semunp k) then Some (f p) else U_semundo k p),
        semunp := filter (\<lambda>p. f p \<noteq> []) (semunp k)\<rparr>)"

section \<open>semctl\<close>

datatype semctl_out = NoOut | OutDs semid_ds | OutArr "int list"

definition sem_rval :: "semsys \<Rightarrow> int \<Rightarrow> semctl_out \<Rightarrow> (semsys \<times> int \<times> semctl_out) option" where
  "sem_rval k rval out = Some (k, if sem_err k \<noteq> None then -1 else rval, out)"

definition sem_fail :: "errno \<Rightarrow> semsys \<Rightarrow> (semsys \<times> int \<times> semctl_out) option" where
  "sem_fail e k = sem_rval (set_err e k) 0 NoOut"

definition sem_clear :: "sem \<Rightarrow> sem" where
  "sem_clear s = z_wakeup (n_wakeup (s\<lparr>semval := 0, sempid := 0\<rparr>))"

definition semctl_rmid where
  "semctl_rmid v cr semid x k =
     (let sp = sema k ! x in
      if \<not> owner_or BYPASS_DAC_WRITE v cr (sem_perm sp) then sem_fail EPERM k
      else
        let k = semunrm semid 0 (sem_nsems sp) k;
            k = ds_mod x (\<lambda>sp. sp\<lparr>sem_base := map sem_clear (sem_base sp)\<rparr>) k;
            k = ds_mod x (\<lambda>sp. sp\<lparr>sem_base := [],
                  sem_perm := (sem_perm sp)\<lparr>ip_seq := ushort (ip_seq (sem_perm sp) + 1), ip_mode := 0\<rparr>\<rparr>) k
        in sem_rval k 0 NoOut)"

definition semctl_set where
  "semctl_set v cr now inds x k =
     (let sp = sema k ! x in
      if \<not> owner_or SET_OBJ_DAC v cr (sem_perm sp) then sem_fail EPERM k
      else case inds of
             None \<Rightarrow> sem_fail EFAULT k
           | Some p \<Rightarrow>
               sem_rval (ds_mod x (\<lambda>sp. sp\<lparr>sem_perm := (sem_perm sp)\<lparr>ip_uid := ip_uid p, ip_gid := ip_gid p,
                            ip_mode := (ip_mode p AND ACC_BITS) OR IPC_ALLOC\<rparr>, sem_ctime := now\<rparr>) k)
                 0 NoOut)"

definition semctl_stat where
  "semctl_stat v cr c x k =
     (case ipcaccess v cr (sem_perm (sema k ! x)) IPC_R of
        Some e \<Rightarrow> sem_fail e k
      | None \<Rightarrow> if \<not> out_ok c then sem_fail EFAULT k else sem_rval k 0 (OutDs (sema k ! x)))"

text \<open>
  The four commands that read one semaphore compare \<open>semnum\<close>, an \<open>int\<close>, with
  \<open>sem_nsems\<close>, which promotes to \<open>int\<close>.
\<close>

definition semctl_get where
  "semctl_get field v cr semnum x k =
     (case ipcaccess v cr (sem_perm (sema k ! x)) IPC_R of
        Some e \<Rightarrow> sem_fail e k
      | None \<Rightarrow>
          if semnum \<ge> sem_nsems (sema k ! x) then sem_fail EINVAL k
          else if semnum < 0 then None
          else sem_rval k (field (sem_at k x (nat semnum))) NoOut)"

definition semctl_getncnt where "semctl_getncnt = semctl_get semncnt"
definition semctl_getpid where "semctl_getpid = semctl_get sempid"
definition semctl_getval where "semctl_getval = semctl_get semval"
definition semctl_getzcnt where "semctl_getzcnt = semctl_get semzcnt"

definition semctl_getall where
  "semctl_getall v cr c x k =
     (case ipcaccess v cr (sem_perm (sema k ! x)) IPC_R of
        Some e \<Rightarrow> sem_fail e k
      | None \<Rightarrow>
          if \<not> mem_ok c then sem_fail ENOMEM k
          else if \<not> out_ok c then sem_fail EFAULT k
          else sem_rval k 0 (OutArr (map (\<lambda>s. sshort (semval s)) (sem_base (sema k ! x)))))"

definition sem_store :: "int \<Rightarrow> sem \<Rightarrow> sem" where
  "sem_store a s =
     (let s = s\<lparr>semval := ushort a\<rparr> in if semval s \<noteq> 0 then n_wakeup s else z_wakeup s)"

definition semctl_setval where
  "semctl_setval si v cr c semid semnum arg x k =
     (case ipcaccess v cr (sem_perm (sema k ! x)) IPC_W of
        Some e \<Rightarrow> sem_fail e k
      | None \<Rightarrow>
          if semnum \<ge> sem_nsems (sema k ! x) then sem_fail EINVAL k
          else if arg mod 2 ^ 32 > semvmx si then sem_fail ERANGE k
          else if semnum < 0 then None
          else
            let k = sem_mod x (nat semnum) (\<lambda>s. (sem_store arg s)\<lparr>sempid := c_pid c\<rparr>) k
            in sem_rval (semunrm semid semnum semnum k) 0 NoOut)"

definition semctl_setall where
  "semctl_setall si v cr c semid inarr x k =
     (case ipcaccess v cr (sem_perm (sema k ! x)) IPC_W of
        Some e \<Rightarrow> sem_fail e k
      | None \<Rightarrow>
          if \<not> mem_ok c then sem_fail ENOMEM k
          else if int (length inarr) < sem_nsems (sema k ! x) then sem_fail EFAULT k
          else
            let arr = take (nat (sem_nsems (sema k ! x))) inarr in
            if list_ex (\<lambda>a. a mod 2 ^ 32 > semvmx si) arr then sem_fail ERANGE k
            else
              let k = semunrm semid 0 (sem_nsems (sema k ! x)) k;
                  k = ds_mod x (\<lambda>sp. sp\<lparr>sem_base :=
                        map2 (\<lambda>a s. (sem_store a s)\<lparr>sempid := c_pid c\<rparr>) arr (sem_base sp)\<rparr>) k
              in sem_rval k 0 NoOut)"

text \<open>
  The argument of the call is an integer for \<open>SETVAL\<close>; for \<open>IPC_SET\<close> it stands for
  the result of the \<open>copyin\<close> of a descriptor, and for \<open>SETALL\<close> for the shorts that can
  be read at the address, of which the code copies in \<open>sem_nsems\<close>.
\<close>

datatype semarg = ArgInt int | ArgDs "ipc_perm option" | ArgArr "int list"

definition semctl ::
    "seminfo \<Rightarrow> sysvars \<Rightarrow> ucred \<Rightarrow> caller \<Rightarrow> int \<Rightarrow> int \<Rightarrow> int \<Rightarrow> int \<Rightarrow> semarg \<Rightarrow> semsys
       \<Rightarrow> (semsys \<times> int \<times> semctl_out) option" where
  "semctl si v cr c now semid semnum cmd arg k =
     (case semconv si semid k of
        None \<Rightarrow> sem_fail EINVAL k
      | Some x \<Rightarrow>
          if cmd = 0 then semctl_rmid v cr semid x k
          else if cmd = 1 then semctl_set v cr now (case arg of ArgDs d \<Rightarrow> d | _ \<Rightarrow> None) x k
          else if cmd = 2 then semctl_stat v cr c x k
          else if cmd = 3 then semctl_getncnt v cr semnum x k
          else if cmd = 4 then semctl_getpid v cr semnum x k
          else if cmd = 5 then semctl_getval v cr semnum x k
          else if cmd = 6 then semctl_getall v cr c x k
          else if cmd = 7 then semctl_getzcnt v cr semnum x k
          else if cmd = 8 then
            semctl_setval si v cr c semid semnum (case arg of ArgInt a \<Rightarrow> a | _ \<Rightarrow> 0) x k
          else if cmd = 9 then semctl_setall si v cr c semid (case arg of ArgArr a \<Rightarrow> a | _ \<Rightarrow> []) x k
          else sem_fail EINVAL k)"

section \<open>semexit\<close>

definition semexit_entry :: "seminfo \<Rightarrow> undo \<Rightarrow> semsys \<Rightarrow> semsys option" where
  "semexit_entry si e k =
     (case semconv si (un_id e) k of
        None \<Rightarrow> Some (set_err EINVAL k)
      | Some x \<Rightarrow>
          let n = nat (un_num e) in
          if n \<ge> length (sem_base (sema k ! x)) then None
          else
            let val = semval (sem_at k x n) + un_aoe e in
            if val < 0 \<or> val > semvmx si then Some k
            else Some (sem_mod x n (\<lambda>s.
                   let s = s\<lparr>semval := ushort val\<rparr>;
                       s = (if val = 0 then z_wakeup s else s)
                   in if un_aoe e > 0 then n_wakeup s else s) k))"

fun semexit_loop :: "seminfo \<Rightarrow> undo list \<Rightarrow> semsys \<Rightarrow> semsys option" where
  "semexit_loop si [] k = Some k"
| "semexit_loop si (e # es) k =
     (case semexit_entry si e k of None \<Rightarrow> None | Some k' \<Rightarrow> semexit_loop si es k')"

definition semexit :: "seminfo \<Rightarrow> nat \<Rightarrow> semsys \<Rightarrow> semsys option" where
  "semexit si me k =
     (case U_semundo k me of
        None \<Rightarrow> Some k
      | Some es \<Rightarrow>
          let k = (if es = [] then k else k\<lparr>semunp := remove1 me (semunp k)\<rparr>) in
          (case semexit_loop si (rev es) k of
             None \<Rightarrow> None
           | Some k \<Rightarrow> Some (k\<lparr>U_semundo := (U_semundo k)(me := None)\<rparr>)))"

section \<open>semget\<close>

definition sem_zero :: sem where
  "sem_zero = \<lparr>semval = 0, sempid = 0, semncnt = 0, semzcnt = 0, semnwait = [], semzwait = []\<rparr>"

definition sem_ret :: "semsys \<Rightarrow> int \<Rightarrow> (semsys \<times> int) option" where
  "sem_ret k rval = Some (k, if sem_err k \<noteq> None then -1 else rval)"

definition semget ::
    "seminfo \<Rightarrow> ucred \<Rightarrow> caller \<Rightarrow> int \<Rightarrow> int \<Rightarrow> int \<Rightarrow> 32 word \<Rightarrow> semsys \<Rightarrow> (semsys \<times> int) option" where
  "semget si cr c now key nsems semflg k =
     (case ipcget cr key semflg (map sem_perm (sema k)) (sem_mark k) of
        IGWild \<Rightarrow> None
      | IGErr e \<Rightarrow> sem_ret (set_err e k) 0
      | IGOk x s p m \<Rightarrow>
          let k = (ds_mod x (\<lambda>sp. sp\<lparr>sem_perm := p\<rparr>) k)\<lparr>sem_mark := m\<rparr>;
              rval = ip_seq p * semmni si + int x;
              drop_set = ds_mod x (\<lambda>sp. sp\<lparr>sem_perm := (sem_perm sp)\<lparr>ip_mode := 0\<rparr>\<rparr>)
          in
          if s \<noteq> 0 then
            (if nsems \<le> 0 \<or> nsems > semmsl si then sem_ret (set_err EINVAL (drop_set k)) 0
             else if \<not> mem_ok c then sem_ret (set_err ENOMEM (drop_set k)) 0
             else sem_ret (ds_mod x (\<lambda>sp. sp\<lparr>sem_base := replicate (nat nsems) sem_zero,
                    sem_nsems := ushort nsems, sem_ctime := now, sem_otime := 0\<rparr>) k) rval)
          else if nsems \<noteq> 0 \<and> sem_nsems (sema k ! x) < nsems then sem_ret (set_err EINVAL k) 0
          else sem_ret k rval)"

section \<open>semundo\<close>

fun semundo_loop where
  "semundo_loop si c i x [] k = k"
| "semundo_loop si c i x (op # ops) k =
     (if sem_op op = 0 then semundo_loop si c i x ops k
      else
        let k = sem_mod x (nat (sem_num op)) (\<lambda>s. s\<lparr>semval := ushort (semval s - sem_op op)\<rparr>) k;
            k = (if sem_flg op AND SEM_UNDO \<noteq> 0
                 then fst (semaoe si c (- sem_op op) i (sem_num op) k) else k)
        in semundo_loop si c i x ops k)"

definition semundo :: "seminfo \<Rightarrow> caller \<Rightarrow> int \<Rightarrow> nat \<Rightarrow> sembuf list \<Rightarrow> nat \<Rightarrow> semsys \<Rightarrow> semsys" where
  "semundo si c i x ops n k = semundo_loop si c i x (rev (take n ops)) k"

section \<open>semop: all operations at once\<close>

datatype wait_on = NWait | ZWait

text \<open>
  One pass over the operations. \<open>PSleep k n m w\<close>: operation \<open>n\<close> cannot be done,
  everything done before it is undone and the thread is about to sleep on the list \<open>w\<close> of
  semaphore \<open>m\<close>.
\<close>

datatype pass = PDone semsys | PErr semsys | PSleep semsys nat nat wait_on

definition atomic_fail where
  "atomic_fail si c i x ops n k =
     (let k = (if sem_err k = None then set_err ERANGE k else k)
      in PErr (if n \<noteq> 0 then semundo si c i x ops n k else k))"

definition atomic_wait where
  "atomic_wait si c i x ops n op w k =
     (let k = (if n \<noteq> 0 then semundo si c i x ops n k else k) in
      if sem_flg op AND SEM_NOWAIT \<noteq> 0 then PErr (set_err EAGAIN k)
      else PSleep k n (nat (sem_num op)) w)"

definition op_undo where
  "op_undo si c i op k =
     (if sem_flg op AND SEM_UNDO \<noteq> 0 then semaoe si c (sem_op op) i (sem_num op) k else (k, 0))"

definition sem_raise :: "int \<Rightarrow> sem \<Rightarrow> sem" where
  "sem_raise a s = n_wakeup (s\<lparr>semval := ushort (semval s + a)\<rparr>)"

definition sem_lower :: "int \<Rightarrow> sem \<Rightarrow> sem" where
  "sem_lower a s =
     (let s = s\<lparr>semval := ushort (semval s + a)\<rparr> in if semval s = 0 then z_wakeup s else s)"

fun atomic_from where
  "atomic_from si c i x ops [] n k =
     PDone (fold (\<lambda>op. sem_mod x (nat (sem_num op)) (\<lambda>s. s\<lparr>sempid := c_pid c\<rparr>)) ops k)"
| "atomic_from si c i x ops (op # rest) n k =
     (let s = sem_at k x (nat (sem_num op)) in
      if sem_op op > 0 then
        (if sem_op op + semval s > semvmx si then atomic_fail si c i x ops n k
         else case op_undo si c i op k of (k, r) \<Rightarrow>
           if r \<noteq> 0 then atomic_fail si c i x ops n k
           else atomic_from si c i x ops rest (n + 1)
                  (sem_mod x (nat (sem_num op)) (sem_raise (sem_op op)) k))
      else if sem_op op < 0 then
        (if semval s \<ge> - sem_op op then
           (if - sem_op op > semvmx si then atomic_fail si c i x ops n k
            else case op_undo si c i op k of (k, r) \<Rightarrow>
              if r \<noteq> 0 then atomic_fail si c i x ops n k
              else atomic_from si c i x ops rest (n + 1)
                     (sem_mod x (nat (sem_num op)) (sem_lower (sem_op op)) k))
         else atomic_wait si c i x ops n op NWait k)
      else if semval s \<noteq> 0 then atomic_wait si c i x ops n op ZWait k
      else atomic_from si c i x ops rest (n + 1) k)"

definition atomic where
  "atomic si c i x ops k = atomic_from si c i x ops ops 0 k"

section \<open>semop: the operations in order\<close>

text \<open>
  \<open>OErr k n\<close>: operation \<open>n\<close> failed, and its flags gain \<open>SEM_ERR\<close>. After the sleep of
  operation \<open>n\<close> the code tests its semaphore again and continues with the rest, which is to
  start again at operation \<open>n\<close>: the tests passed before the sleep pass again.
\<close>

datatype opass = ODone semsys | OErr semsys nat | OSleep semsys nat nat wait_on

fun order_from where
  "order_from si c i x [] n k = ODone k"
| "order_from si c i x (op # rest) n k =
     (let m = nat (sem_num op); s = sem_at k x m;
          pid = (\<lambda>s. s\<lparr>sempid := c_pid c\<rparr>) in
      if sem_op op = 0 then
        (if semval s \<noteq> 0 then
           (if sem_flg op AND SEM_NOWAIT \<noteq> 0 then OErr (set_err EAGAIN k) n
            else OSleep k n m ZWait)
         else order_from si c i x rest (n + 1) (sem_mod x m pid k))
      else if sem_op op > 0 then
        (if sem_op op + semval s > semvmx si then OErr (set_err ERANGE k) n
         else case op_undo si c i op k of (k, r) \<Rightarrow>
           if r \<noteq> 0 then OErr k n
           else order_from si c i x rest (n + 1)
                  (sem_mod x m (\<lambda>s. pid (sem_raise (sem_op op) s)) k))
      else if - sem_op op > semvmx si then OErr (set_err ERANGE k) n
      else if semval s < - sem_op op then
        (if sem_flg op AND SEM_NOWAIT \<noteq> 0 then OErr (set_err EAGAIN k) n
         else OSleep k n m NWait)
      else case op_undo si c i op k of (k, r) \<Rightarrow>
        if r \<noteq> 0 then OErr k n
        else order_from si c i x rest (n + 1)
               (sem_mod x m (\<lambda>s. pid (sem_lower (sem_op op) s)) k))"

section \<open>semsleep\<close>

text \<open>Up to the sleep, and from its end: \<open>sig\<close> is a return of \<open>EVENT_SIG\<close>.\<close>

definition semsleep_in :: "wait_on \<Rightarrow> nat \<Rightarrow> nat \<Rightarrow> nat \<Rightarrow> semsys \<Rightarrow> semsys" where
  "semsleep_in w x n t =
     sem_mod x n (\<lambda>s. case w of
        NWait \<Rightarrow> s\<lparr>semncnt := ushort (semncnt s + 1), semnwait := semnwait s @ [t]\<rparr>
      | ZWait \<Rightarrow> s\<lparr>semzcnt := ushort (semzcnt s + 1), semzwait := semzwait s @ [t]\<rparr>)"

definition sig_count :: "wait_on \<Rightarrow> sem \<Rightarrow> sem" where
  "sig_count w s =
     (case w of
        NWait \<Rightarrow> if semncnt s \<le> 1 then s\<lparr>semncnt := 0, semnwait := []\<rparr>
                 else s\<lparr>semncnt := ushort (semncnt s - 1)\<rparr>
      | ZWait \<Rightarrow> if semzcnt s \<le> 1 then s\<lparr>semzcnt := 0, semzwait := []\<rparr>
                 else s\<lparr>semzcnt := ushort (semzcnt s - 1)\<rparr>)"

definition semsleep_out ::
    "bool \<Rightarrow> wait_on \<Rightarrow> nat \<Rightarrow> nat \<Rightarrow> int \<Rightarrow> semsys \<Rightarrow> semsys \<times> uerror" where
  "semsleep_out sig w x n sq k =
     (let p = sem_perm (sema k ! x) in
      if sig then
        (if allocated p \<and> ip_seq p = sq then sem_mod x n (sig_count w) k else k, Some EINTR)
      else if \<not> allocated p \<or> ip_seq p \<noteq> sq then (k, Some EIDRM)
      else (k, None))"

section \<open>semop\<close>

text \<open>
  What a sleeping thread remembers on its kernel stack; \<open>sl_i\<close> is the operation it waits
  for, from which \<open>order\<close> continues, while \<open>atomic\<close> starts over.
\<close>

record sleeper =
  sl_c :: caller
  sl_semid :: int
  sl_x :: nat
  sl_ops :: "sembuf list"
  sl_i :: nat
  sl_num :: nat
  sl_on :: wait_on
  sl_seq :: int

text \<open>
  \<open>SRet k r f\<close>: the call returns \<open>r\<close>, and \<open>f\<close> is the flag word copied out by
  \<open>order\<close> and the operation it belongs to.
\<close>

datatype semop_res = SRet semsys int "(nat \<times> 16 word) option" | SSleep semsys sleeper

definition semop_end where
  "semop_end now x out k =
     (let k = (if sem_err k = None then ds_mod x (\<lambda>sp. sp\<lparr>sem_otime := now\<rparr>) k else k)
      in SRet k (if sem_err k \<noteq> None then -1 else 0) out)"

definition out_order where
  "out_order c now x ops n k =
     (let f = (sem_flg (ops ! n) AND NOT SEM_ERR) OR SEM_ERR in
      if out_ok c then semop_end now x (Some (n, f)) k
      else semop_end now x None (set_err EFAULT k))"

definition semop_sleep where
  "semop_sleep t c semid x ops i n w k =
     SSleep (semsleep_in w x n t k)
       \<lparr>sl_c = c, sl_semid = semid, sl_x = x, sl_ops = ops, sl_i = i, sl_num = n, sl_on = w,
        sl_seq = ip_seq (sem_perm (sema k ! x))\<rparr>"

definition is_order :: "sembuf list \<Rightarrow> bool" where
  "is_order ops \<longleftrightarrow> sem_flg (ops ! 0) AND SEM_ORDER \<noteq> 0"

definition semop_go where
  "semop_go si t c now semid x ops i k =
     (if is_order ops then
        (case order_from si c semid x (drop i ops) i k of
           ODone k \<Rightarrow> semop_end now x None k
         | OErr k n \<Rightarrow> out_order c now x ops n k
         | OSleep k n m w \<Rightarrow> semop_sleep t c semid x ops n m w k)
      else
        (case atomic si c semid x ops k of
           PDone k \<Rightarrow> semop_end now x None k
         | PErr k \<Rightarrow> semop_end now x None k
         | PSleep k n m w \<Rightarrow> semop_sleep t c semid x ops n m w k))"

text \<open>\<open>inops\<close> are the operations that can be read at the user's address.\<close>

definition semop where
  "semop si v cr t c now semid inops nsops k =
     (let fail = (\<lambda>e. SRet (set_err e k) (-1) None) in
      if nsops = 0 then SRet k 0 None
      else if nsops > semopm si then fail E2BIG
      else if nsops > 32 \<and> \<not> mem_ok c then fail ENOMEM
      else if int (length inops) < nsops then fail EFAULT
      else
        let ops = take (nat nsops) inops in
        (case semconv si semid k of
           None \<Rightarrow> fail EINVAL
         | Some x \<Rightarrow>
             if list_ex (\<lambda>op. sem_num op \<ge> sem_nsems (sema k ! x)) ops then fail EFBIG
             else case ipcaccess v cr (sem_perm (sema k ! x))
                         (if list_ex (\<lambda>op. sem_op op \<noteq> 0) ops then IPC_W else IPC_R) of
                    Some e \<Rightarrow> fail e
                  | None \<Rightarrow> semop_go si t c now semid x ops 0 k))"

text \<open>The rest of the call from the end of the sleep.\<close>

definition semop_wake where
  "semop_wake si t sig mem now sl k =
     (let c = (sl_c sl)\<lparr>mem_ok := mem\<rparr> in
      case semsleep_out sig (sl_on sl) (sl_x sl) (sl_num sl) (sl_seq sl) k of
        (k, Some e) \<Rightarrow>
          if is_order (sl_ops sl) then out_order c now (sl_x sl) (sl_ops sl) (sl_i sl) (set_err e k)
          else semop_end now (sl_x sl) None (set_err e k)
      | (k, None) \<Rightarrow> semop_go si t c now (sl_semid sl) (sl_x sl) (sl_ops sl) (sl_i sl) (k\<lparr>sem_err := None\<rparr>))"

end
