(* ===== verification/SemInv.thy ===== *)
theory SemInv
  imports Sem
begin

text \<open>
  The invariant of the semaphore facility and what the operations of theory \<open>Sem\<close> do to
  it: semaphore values stay in range, the sets are a well formed key table, every undo list
  is sorted and every adjustment belongs to a semaphore that exists. The central lemmas say
  that \<open>semundo\<close> takes back what a pass over the operations has done.
\<close>

unbundle bit_operations_syntax

section \<open>Reading and writing the state\<close>

lemma ds_mod_simps [simp]:
  "sema (ds_mod x f k) = upd (sema k) x f" "sem_mark (ds_mod x f k) = sem_mark k"
  "U_semundo (ds_mod x f k) = U_semundo k" "semunp (ds_mod x f k) = semunp k"
  "sem_err (ds_mod x f k) = sem_err k" "undo_of (ds_mod x f k) = undo_of k"
  by (simp_all add: ds_mod_def undo_of_def fun_eq_iff)

lemma sem_mod_simps [simp]:
  "sem_mark (sem_mod x n f k) = sem_mark k" "U_semundo (sem_mod x n f k) = U_semundo k"
  "semunp (sem_mod x n f k) = semunp k" "sem_err (sem_mod x n f k) = sem_err k"
  "undo_of (sem_mod x n f k) = undo_of k" "length (sema (sem_mod x n f k)) = length (sema k)"
  by (simp_all add: sem_mod_def)

lemma set_err_simps [simp]:
  "sema (set_err e k) = sema k" "sem_mark (set_err e k) = sem_mark k"
  "U_semundo (set_err e k) = U_semundo k" "semunp (set_err e k) = semunp k"
  "undo_of (set_err e k) = undo_of k" "sem_err (set_err e k) = Some e"
  "sem_at (set_err e k) = sem_at k"
  by (simp_all add: set_err_def undo_of_def sem_at_def fun_eq_iff)

text \<open>\<open>in_set k x n\<close>: semaphore \<open>n\<close> of set \<open>x\<close> exists.\<close>

definition in_set :: "semsys \<Rightarrow> nat \<Rightarrow> nat \<Rightarrow> bool" where
  "in_set k x n \<longleftrightarrow> x < length (sema k) \<and> n < length (sem_base (sema k ! x))"

lemma sem_at_mod:
  "in_set k x n \<Longrightarrow> sem_at (sem_mod y m f k) x n = (if x = y \<and> n = m then f (sem_at k x n) else sem_at k x n)"
  by (auto simp: sem_at_def sem_mod_def in_set_def nth_upd)

lemma in_set_mod [simp]: "in_set (sem_mod y m f k) x n = in_set k x n"
  by (auto simp: sem_mod_def in_set_def nth_upd split: if_splits)

section \<open>The shape of the state\<close>

text \<open>What the operations on semaphores never change: headers, sizes, the mark.\<close>

definition shape :: "semsys \<Rightarrow> (ipc_perm \<times> int \<times> nat) list \<times> nat" where
  "shape k = (map (\<lambda>sp. (sem_perm sp, sem_nsems sp, length (sem_base sp))) (sema k), sem_mark k)"

lemma shape_sem_mod [simp]: "shape (sem_mod x n f k) = shape k"
  by (auto simp: shape_def sem_mod_def ds_mod_def upd_def list_eq_iff_nth_eq nth_list_update)

lemma shape_set_err [simp]: "shape (set_err e k) = shape k"
  by (simp add: shape_def)

lemma shapeD:
  assumes "shape k = shape k'"
  shows "length (sema k) = length (sema k')" "sem_mark k = sem_mark k'"
    "x < length (sema k) \<Longrightarrow> sem_perm (sema k ! x) = sem_perm (sema k' ! x)"
    "x < length (sema k) \<Longrightarrow> sem_nsems (sema k ! x) = sem_nsems (sema k' ! x)"
    "x < length (sema k) \<Longrightarrow> length (sem_base (sema k ! x)) = length (sem_base (sema k' ! x))"
    "map sem_perm (sema k) = map sem_perm (sema k')"
    "in_set k x n = in_set k' x n"
proof -
  have m: "map (\<lambda>sp. (sem_perm sp, sem_nsems sp, length (sem_base sp))) (sema k) =
      map (\<lambda>sp. (sem_perm sp, sem_nsems sp, length (sem_base sp))) (sema k')"
    and "sem_mark k = sem_mark k'"
    using assms by (simp_all add: shape_def)
  show l: "length (sema k) = length (sema k')" by (rule map_eq_imp_length_eq [OF m])
  show "sem_mark k = sem_mark k'" by fact
  have at: "x < length (sema k) \<Longrightarrow> sem_perm (sema k ! x) = sem_perm (sema k' ! x) \<and>
      sem_nsems (sema k ! x) = sem_nsems (sema k' ! x) \<and>
      length (sem_base (sema k ! x)) = length (sem_base (sema k' ! x))" for x
    using arg_cong [OF m, of "\<lambda>xs. xs ! x"] l by simp
  then show "x < length (sema k) \<Longrightarrow> sem_perm (sema k ! x) = sem_perm (sema k' ! x)"
    "x < length (sema k) \<Longrightarrow> sem_nsems (sema k ! x) = sem_nsems (sema k' ! x)"
    "x < length (sema k) \<Longrightarrow> length (sem_base (sema k ! x)) = length (sem_base (sema k' ! x))"
    "in_set k x n = in_set k' x n"
    using l by (auto simp: in_set_def)
  show "map sem_perm (sema k) = map sem_perm (sema k')"
    using at l by (simp add: list_eq_iff_nth_eq)
qed

section \<open>The invariant\<close>

definition sem_id :: "seminfo \<Rightarrow> semsys \<Rightarrow> nat \<Rightarrow> int" where
  "sem_id si k x = ip_seq (sem_perm (sema k ! x)) * semmni si + int x"

definition live_set :: "semsys \<Rightarrow> nat \<Rightarrow> bool" where
  "live_set k x \<longleftrightarrow> x < length (sema k) \<and> allocated (sem_perm (sema k ! x))"

definition val_ok :: "seminfo \<Rightarrow> sem \<Rightarrow> bool" where
  "val_ok si s \<longleftrightarrow> 0 \<le> semval s \<and> semval s \<le> semvmx si"

definition sets_ok :: "seminfo \<Rightarrow> semsys \<Rightarrow> bool" where
  "sets_ok si k \<longleftrightarrow> int (length (sema k)) = semmni si
     \<and> key_table (map sem_perm (sema k)) (sem_mark k)
     \<and> (\<forall>x < length (sema k). 0 \<le> ip_seq (sem_perm (sema k ! x)) \<and> ip_seq (sem_perm (sema k ! x)) < 65536)
     \<and> (\<forall>x. live_set k x \<longrightarrow> int (length (sem_base (sema k ! x))) = sem_nsems (sema k ! x)
          \<and> 0 < sem_nsems (sema k ! x) \<and> sem_nsems (sema k ! x) \<le> semmsl si)"

definition vals_ok :: "seminfo \<Rightarrow> semsys \<Rightarrow> bool" where
  "vals_ok si k \<longleftrightarrow> (\<forall>x n. live_set k x \<longrightarrow> in_set k x n \<longrightarrow> val_ok si (sem_at k x n))"

text \<open>Every adjustment is for a semaphore that exists.\<close>

definition undo_live :: "seminfo \<Rightarrow> semsys \<Rightarrow> undo \<Rightarrow> bool" where
  "undo_live si k e \<longleftrightarrow> (\<exists>x. live_set k x \<and> un_id e = sem_id si k x \<and> un_num e < sem_nsems (sema k ! x))"

definition undos_ok :: "seminfo \<Rightarrow> semsys \<Rightarrow> bool" where
  "undos_ok si k \<longleftrightarrow> (\<forall>p. undo_inv si (undo_of k p) \<and> (\<forall>e \<in> set (undo_of k p). undo_live si k e))"

definition links_ok :: "semsys \<Rightarrow> bool" where
  "links_ok k \<longleftrightarrow> distinct (semunp k) \<and> (\<forall>p. p \<in> set (semunp k) \<longleftrightarrow> undo_of k p \<noteq> [])"

definition sem_inv :: "seminfo \<Rightarrow> semsys \<Rightarrow> bool" where
  "sem_inv si k \<longleftrightarrow> seminfo_ok si \<and> sets_ok si k \<and> vals_ok si k \<and> undos_ok si k \<and> links_ok k"

lemma live_set_shape: "shape k = shape k' \<Longrightarrow> live_set k x = live_set k' x"
  using shapeD by (metis live_set_def)

lemma sets_ok_shape: "shape k = shape k' \<Longrightarrow> sets_ok si k = sets_ok si k'"
  unfolding sets_ok_def using live_set_shape [of k k'] shapeD [of k k']
  by (metis live_set_def)

lemma undo_live_shape: "shape k = shape k' \<Longrightarrow> undo_live si k e = undo_live si k' e"
  unfolding undo_live_def sem_id_def using live_set_shape [of k k'] shapeD [of k k']
  by (metis live_set_def)

lemma undos_ok_shape: "shape k = shape k' \<Longrightarrow> undo_of k = undo_of k' \<Longrightarrow> undos_ok si k = undos_ok si k'"
  by (simp add: undos_ok_def undo_live_shape [of k k'])

lemma vals_okI:
  "(\<And>x n. live_set k x \<Longrightarrow> in_set k x n \<Longrightarrow> val_ok si (sem_at k x n)) \<Longrightarrow> vals_ok si k"
  by (simp add: vals_ok_def)

lemma vals_ok_mod:
  assumes "vals_ok si k" "in_set k x n \<Longrightarrow> live_set k x \<Longrightarrow> val_ok si (f (sem_at k x n))"
  shows "vals_ok si (sem_mod x n f k)"
  using assms live_set_shape [of "sem_mod x n f k" k]
  by (auto simp: vals_ok_def sem_at_mod)

text \<open>A state that differs in wait lists, counts and pids only.\<close>

definition same_obs :: "semsys \<Rightarrow> semsys \<Rightarrow> bool" where
  "same_obs k k' \<longleftrightarrow> shape k = shape k' \<and> undo_of k = undo_of k'
     \<and> (\<forall>x n. in_set k x n \<longrightarrow> semval (sem_at k x n) = semval (sem_at k' x n))"

lemma same_obs_refl [simp]: "same_obs k k"
  by (simp add: same_obs_def)

lemma same_obs_sym: "same_obs k k' \<Longrightarrow> same_obs k' k"
  using shapeD(7) [of k k'] by (simp add: same_obs_def)

lemma same_obs_trans: "same_obs k k' \<Longrightarrow> same_obs k' k'' \<Longrightarrow> same_obs k k''"
  using shapeD(7) [of k k'] by (simp add: same_obs_def)

lemma sem_inv_obs:
  assumes "same_obs k k'" "sem_inv si k" "links_ok k'"
  shows "sem_inv si k'"
proof -
  have "vals_ok si k'"
    using assms(1,2) live_set_shape [of k k'] shapeD(7) [of k k']
    by (auto simp: same_obs_def sem_inv_def vals_ok_def val_ok_def)
  then show ?thesis
    using assms undos_ok_shape [of k k' si] sets_ok_shape [of k k' si]
    by (simp add: sem_inv_def same_obs_def)
qed

section \<open>semconv\<close>

lemma semconv_Some:
  assumes inv: "sets_ok si k" and ok: "seminfo_ok si" and int: "- (2 ^ 31) \<le> s" "s < 2 ^ 31"
    and conv: "semconv si s k = Some x"
  shows "live_set k x \<and> s = sem_id si k x"
proof -
  let ?s = "s mod 2 ^ 32" and ?m = "semmni si"
  have m: "0 < ?m" "?m \<le> 4096" using ok by (simp_all add: seminfo_ok_def)
  from conv have x: "x = nat (?s mod ?m)" "x < sem_mark k"
    "?s div ?m = ip_seq (sem_perm (sema k ! x))" "allocated (sem_perm (sema k ! x))"
    by (auto simp: semconv_def Let_def split: if_splits)
  then have lx: "x < length (sema k)" using inv by (simp add: sets_ok_def key_table_def)
  have "int x = ?s mod ?m" using x(1) m by simp
  then have eq: "?s = sem_id si k x" unfolding sem_id_def x(3) [symmetric] by simp
  have "ip_seq (sem_perm (sema k ! x)) < 65536" using inv lx by (simp add: sets_ok_def)
  then have "ip_seq (sem_perm (sema k ! x)) \<le> 65535" by simp
  then have "ip_seq (sem_perm (sema k ! x)) * ?m \<le> 65535 * 4096"
    using m inv lx by (intro mult_mono) (simp_all add: sets_ok_def)
  moreover have "int x < 4096" using x(1) m pos_mod_bound [of ?m ?s] pos_mod_sign [of ?m ?s] by linarith
  ultimately have "?s < 2 ^ 31" using eq by (simp add: sem_id_def)
  then have small: "?s < 2147483648" by simp
  have "s = ?s"
  proof (cases "s < 0")
    case True
    have "?s = (s + 2 ^ 32) mod 2 ^ 32" by simp
    also have "\<dots> = s + 2 ^ 32" using True int by (intro mod_pos_pos_trivial) auto
    finally show ?thesis using small int by simp
  next
    case False
    then show ?thesis using int by (intro mod_pos_pos_trivial [symmetric]) auto
  qed
  with eq lx x show ?thesis by (simp add: live_set_def)
qed

lemma semconv_id:
  assumes inv: "sets_ok si k" and ok: "seminfo_ok si" and live: "live_set k x"
  shows "semconv si (sem_id si k x) k = Some x"
proof -
  let ?m = "semmni si" and ?q = "ip_seq (sem_perm (sema k ! x))"
  have m: "0 < ?m" "?m \<le> 4096" using ok by (simp_all add: seminfo_ok_def)
  have x: "int x < ?m" using inv live by (auto simp: sets_ok_def live_set_def)
  have q: "0 \<le> ?q" "?q \<le> 65535" using inv live by (auto simp: sets_ok_def live_set_def)
  have "?q * ?m \<le> 65535 * 4096" using m q by (intro mult_mono) auto
  then have "sem_id si k x mod 2 ^ 32 = sem_id si k x"
    using q m x by (intro mod_pos_pos_trivial) (auto simp: sem_id_def)
  moreover have "sem_id si k x div ?m = ?q" "sem_id si k x mod ?m = int x"
    using x m by (simp_all add: sem_id_def)
  moreover have "x < sem_mark k" using inv live by (auto simp: sets_ok_def live_set_def key_table_def)
  ultimately show ?thesis using live by (simp add: semconv_def live_set_def)
qed

lemma semconv_live: "sets_ok si k \<Longrightarrow> semconv si s k = Some x \<Longrightarrow> live_set k x"
  by (auto simp: semconv_def Let_def live_set_def sets_ok_def key_table_def split: if_splits)

interpretation semids: ident_space "semconv si" "sem_id si" live_set "\<lambda>k. sets_ok si k \<and> seminfo_ok si" for si
  by unfold_locales (auto simp: semconv_id dest: semconv_live)

section \<open>semaoe\<close>

definition op_ok :: "sembuf \<Rightarrow> bool" where
  "op_ok op \<longleftrightarrow> 0 \<le> sem_num op \<and> sem_num op < 65536 \<and> - 32768 \<le> sem_op op \<and> sem_op op < 32768
     \<and> (sem_flg op AND SEM_UNDO \<noteq> 0 \<longrightarrow> sem_num op < 32768)"

lemma sshort_back: "- 32768 \<le> a \<Longrightarrow> a < 32768 \<Longrightarrow> sshort (sshort (a - v) + v) = a"
  by (simp add: sshort_add_wrap kwrap)

lemma aoe_edit_err:
  assumes "undo_inv si es" "semaem si \<le> 16384" "aoe_edit si v i n es = AoeErr e es'"
  shows "es' = es"
proof -
  from assms(1) have "sorted_wrt key_less es" by (simp add: undo_inv_def)
  from aoe_at_ex [OF this, of i n] obtain pre mid post
    where es: "es = pre @ mid @ post" and at: "aoe_at i n pre mid post" by blast
  show ?thesis
  proof (cases mid)
    case Nil
    have "(if int (length (pre @ post)) \<ge> semume si then AoeErr EINVAL (pre @ post)
        else AoeOk (pre @ \<lparr>un_aoe = - v, un_num = ushort n, un_id = i\<rparr> # post)) = AoeErr e es'"
      using assms(3) unfolding es aoe_edit_at [OF at] by (simp add: Nil)
    then show ?thesis by (simp add: es Nil split: if_splits)
  next
    case (Cons f r)
    then have mid: "mid = [f]" using at by (simp add: aoe_at_def)
    have found: "aoe_found si v pre f post = AoeErr e es'"
      using assms(3) unfolding es aoe_edit_at [OF at] by (simp add: mid)
    have "\<bar>un_aoe f\<bar> \<le> 16384" using assms(1,2) unfolding es mid by (auto simp: undo_inv_def)
    then have "sshort (sshort (un_aoe f - v) + v) = un_aoe f" by (intro sshort_back) auto
    then have "es' = pre @ f\<lparr>un_aoe := un_aoe f\<rparr> # post"
      using found by (simp add: aoe_found_def Let_def split: if_splits)
    then show ?thesis by (simp add: es mid)
  qed
qed

text \<open>An operation's adjustment is one \<open>undo_adj\<close> on the entries of the process.\<close>

lemma semaoe_cases:
  assumes inv: "seminfo_ok si" "\<forall>p. undo_inv si (undo_of k p)" "links_ok k"
    and arg: "- 32768 \<le> v" "v \<le> 32768" "0 \<le> n" "n < 32768"
    and res: "semaoe si c v i n k = (k', r)"
  shows "sema k' = sema k \<and> sem_mark k' = sem_mark k \<and> links_ok k' \<and>
    (if r = 0 then sem_err k' = sem_err k
        \<and> (\<exists>es. undo_adj si v (i, n) (undo_of k (c_proc c)) = Some es
              \<and> undo_of k' = (undo_of k)(c_proc c := es))
        \<and> (v \<noteq> 0 \<or> U_semundo k (c_proc c) \<noteq> None \<longrightarrow> U_semundo k' (c_proc c) \<noteq> None)
     else sem_err k' \<noteq> None \<and> undo_of k' = undo_of k
        \<and> (U_semundo k (c_proc c) \<noteq> None \<longrightarrow> U_semundo k' (c_proc c) \<noteq> None))"
proof -
  let ?me = "c_proc c" and ?es = "undo_of k (c_proc c)"
  have aem: "semaem si \<le> 16384" and ume: "0 < semume si" using inv(1) by (simp_all add: seminfo_ok_def)
  have n: "sshort n = n" using arg by (simp add: kwrap)
  have un: "undo_of (k\<lparr>U_semundo := (U_semundo k)(?me := Some es)\<rparr>) = (undo_of k)(?me := es)" for es
    by (simp add: undo_of_def fun_eq_iff)
  show ?thesis
  proof (cases "v = 32768")
    case True
    with res aem have "k' = set_err ERANGE k" "r = -1"
      by (auto simp: semaoe_def Let_def sshort_def)
    with inv(3) show ?thesis by (simp add: links_ok_def)
  next
    case False
    with arg have v: "sshort v = v" by (simp add: kwrap)
    consider (zero) "v = 0" | (range) "v \<noteq> 0" "v > semaem si \<or> v < - semaem si"
      | (mem) "v \<noteq> 0" "\<not> (v > semaem si \<or> v < - semaem si)" "U_semundo k ?me = None \<and> \<not> mem_ok c"
      | (edit) "v \<noteq> 0" "\<not> (v > semaem si \<or> v < - semaem si)" "\<not> (U_semundo k ?me = None \<and> \<not> mem_ok c)"
      by blast
    then show ?thesis
    proof cases
      case zero
      with res inv(3) show ?thesis by (auto simp: semaoe_def v undo_adj_def fun_upd_idem)
    next
      case range
      with res inv(3) show ?thesis by (auto simp: semaoe_def v links_ok_def)
    next
      case mem
      with res inv(3) show ?thesis by (auto simp: semaoe_def v links_ok_def)
    next
      case edit
      show ?thesis
      proof (cases "aoe_edit si v i n ?es")
        case (AoeErr e es')
        have "es' = ?es" using aoe_edit_err inv(2) aem AoeErr by blast
        with AoeErr res edit have k': "k' = set_err e (k\<lparr>U_semundo := (U_semundo k)(?me := Some ?es)\<rparr>)" "r = 1"
          by (auto simp: semaoe_def v n Let_def)
        have "undo_of k' = undo_of k" by (simp add: k' un)
        with inv(3) show ?thesis by (simp add: k' links_ok_def)
      next
        case (AoeOk es')
        let ?k = "k\<lparr>U_semundo := (U_semundo k)(?me := Some es'),
               semunp := (if ?es = [] then ?me # semunp k
                          else if es' = [] then remove1 ?me (semunp k)
                          else semunp k)\<rparr>"
        from AoeOk res edit have k': "k' = ?k" "r = 0"
          by (auto simp: semaoe_def v n Let_def)
        have undo: "undo_of k' = (undo_of k)(?me := es')" by (simp add: k' undo_of_def fun_eq_iff)
        have "?es = [] \<Longrightarrow> es' \<noteq> []"
          using AoeOk ume by (auto simp: aoe_edit_def)
        with inv(3) have "links_ok k'" unfolding links_ok_def undo by (auto simp: k')
        moreover have "undo_adj si v (i, n) ?es = Some es'" using edit AoeOk by (simp add: undo_adj_def)
        ultimately show ?thesis using k' undo by simp
      qed
    qed
  qed
qed

lemma semaoe_ok_if:
  assumes "seminfo_ok si" "- 32768 \<le> v" "v \<le> 32768" "0 \<le> n" "n < 32768"
    and "undo_adj si v (i, n) (undo_of k (c_proc c)) = Some es" "U_semundo k (c_proc c) \<noteq> None"
    and "semaoe si c v i n k = (k', r)"
  shows "r = 0"
proof (cases "v = 0")
  case True
  with assms(8) show ?thesis by (simp add: semaoe_def sshort_def)
next
  case False
  with assms(1,6) have v: "\<bar>v\<bar> \<le> semaem si" "v < 32768"
    by (auto simp: undo_adj_def seminfo_ok_def split: if_splits)
  then have "sshort v = v" "sshort n = n" using assms(2,4,5) by (simp_all add: kwrap)
  with assms(6-8) v False show ?thesis
    by (auto simp: semaoe_def undo_adj_def Let_def split: aoe_res.splits if_splits)
qed

section \<open>What semundo takes back\<close>

text \<open>The adjustments and the value changes a list of operations makes.\<close>

definition op_adjs :: "int \<Rightarrow> sembuf list \<Rightarrow> (int \<times> int \<times> int) list" where
  "op_adjs i ops = map (\<lambda>op. (sem_op op, (i, sem_num op)))
     (filter (\<lambda>op. sem_op op \<noteq> 0 \<and> sem_flg op AND SEM_UNDO \<noteq> 0) ops)"

definition op_sum :: "sembuf list \<Rightarrow> nat \<Rightarrow> int" where
  "op_sum ops n = sum_list (map sem_op (filter (\<lambda>op. nat (sem_num op) = n) ops))"

lemma op_adjs_simps:
  "op_adjs i [] = []"
  "op_adjs i (op # ops) =
     (if sem_op op \<noteq> 0 \<and> sem_flg op AND SEM_UNDO \<noteq> 0 then [(sem_op op, (i, sem_num op))] else []) @ op_adjs i ops"
  "op_adjs i (xs @ ys) = op_adjs i xs @ op_adjs i ys"
  by (simp_all add: op_adjs_def)

lemma op_sum_simps:
  "op_sum [] n = 0"
  "op_sum (op # ops) n = (if nat (sem_num op) = n then sem_op op else 0) + op_sum ops n"
  "op_sum (xs @ ys) n = op_sum xs n + op_sum ys n"
  "op_sum (rev xs) n = op_sum xs n"
  by (simp_all add: op_sum_def rev_filter [symmetric] rev_map [symmetric] sum_list_rev)

abbreviation neg_adjs :: "(int \<times> 'k) list \<Rightarrow> (int \<times> 'k) list" where
  "neg_adjs \<equiv> map (\<lambda>(v, k). (- v, k))"

lemma ushort_sub: "ushort (ushort a - b) = ushort (a - b)"
  by (simp add: ushort_def mod_diff_left_eq)

lemma semundo_loop_effect:
  assumes inv: "seminfo_ok si" "\<forall>p. undo_inv si (undo_of k p)" "links_ok k"
    and ops: "list_all op_ok ops"
    and undone: "semadj.adj_all si (neg_adjs (op_adjs i ops)) (undo_of k (c_proc c)) = Some es"
    and had: "op_adjs i ops \<noteq> [] \<longrightarrow> U_semundo k (c_proc c) \<noteq> None"
    and len: "\<forall>n. in_set k x n \<longrightarrow> 0 \<le> semval (sem_at k x n) \<and> semval (sem_at k x n) < 65536"
  shows "shape (semundo_loop si c i x ops k) = shape k
    \<and> links_ok (semundo_loop si c i x ops k)
    \<and> sem_err (semundo_loop si c i x ops k) = sem_err k
    \<and> undo_of (semundo_loop si c i x ops k) = (undo_of k)(c_proc c := es)
    \<and> (\<forall>n. in_set k x n \<longrightarrow> sem_at (semundo_loop si c i x ops k) x n
            = (sem_at k x n)\<lparr>semval := ushort (semval (sem_at k x n) - op_sum ops n)\<rparr>)
    \<and> (\<forall>y n. y \<noteq> x \<longrightarrow> in_set k y n \<longrightarrow> sem_at (semundo_loop si c i x ops k) y n = sem_at k y n)"
  using inv(2,3) ops undone had len
proof (induction ops arbitrary: k)
  case Nil
  then show ?case by (auto simp: op_adjs_simps op_sum_simps kwrap fun_upd_idem)
next
  case (Cons op ops)
  have op: "op_ok op" and ops: "list_all op_ok ops" using Cons.prems(3) by simp_all
  show ?case
  proof (cases "sem_op op = 0")
    case True
    with Cons.prems Cons.IH [of k] show ?thesis by (simp add: op_adjs_simps op_sum_simps)
  next
    case False
    let ?m = "nat (sem_num op)"
    let ?k1 = "sem_mod x ?m (\<lambda>s. s\<lparr>semval := ushort (semval s - sem_op op)\<rparr>) k"
    let ?k2 = "if sem_flg op AND SEM_UNDO \<noteq> 0 then fst (semaoe si c (- sem_op op) i (sem_num op) ?k1) else ?k1"
    have links1: "links_ok ?k1" using Cons.prems(2) by (simp add: links_ok_def)
    have inv1: "\<forall>p. undo_inv si (undo_of ?k1 p)" using Cons.prems(1) by simp
    have k2: "sema ?k2 = sema ?k1 \<and> sem_mark ?k2 = sem_mark ?k1 \<and> links_ok ?k2 \<and> sem_err ?k2 = sem_err ?k1 \<and>
       (\<exists>es2. undo_of ?k2 = (undo_of k)(c_proc c := es2) \<and> undo_inv si es2 \<and>
          (op_adjs i ops \<noteq> [] \<longrightarrow> U_semundo ?k2 (c_proc c) \<noteq> None) \<and>
          semadj.adj_all si (neg_adjs (op_adjs i ops)) es2 = Some es)"
    proof (cases "sem_flg op AND SEM_UNDO = 0")
      case True
      with Cons.prems(1,4,5) links1 show ?thesis
        by (auto simp: op_adjs_simps fun_upd_idem intro!: exI [of _ "undo_of k (c_proc c)"])
    next
      case undo: False
      obtain k2 r where k2: "semaoe si c (- sem_op op) i (sem_num op) ?k1 = (k2, r)" by fastforce
      have arg: "- 32768 \<le> - sem_op op" "- sem_op op \<le> 32768" "0 \<le> sem_num op" "sem_num op < 32768"
        using op undo by (auto simp: op_ok_def)
      from Cons.prems(4) undo False obtain es2 where es2:
          "undo_adj si (- sem_op op) (i, sem_num op) (undo_of k (c_proc c)) = Some es2"
          "semadj.adj_all si (neg_adjs (op_adjs i ops)) es2 = Some es"
        by (auto simp: op_adjs_simps split: option.splits)
      have inv2: "undo_inv si es2"
        using undo_adj_inv [OF inv(1) _ _ es2(1)] Cons.prems(1) arg by (simp add: small_num_def)
      have noerr: "r = 0"
        using semaoe_ok_if [OF inv(1) arg, of i ?k1 c es2 k2 r] es2(1) k2 Cons.prems(5) undo False
        by (simp add: op_adjs_simps)
      from semaoe_cases [OF inv(1) inv1 links1 arg k2] noerr es2 inv2 undo k2 False
      show ?thesis by simp blast
    qed
    obtain es2 where es2: "undo_of ?k2 = (undo_of k)(c_proc c := es2)" "undo_inv si es2"
      "semadj.adj_all si (neg_adjs (op_adjs i ops)) es2 = Some es" using k2 by blast
    have at2: "sem_at ?k2 = sem_at ?k1" "in_set ?k2 = in_set ?k1" "shape ?k2 = shape ?k1"
      using k2 by (auto simp: sem_at_def in_set_def shape_def fun_eq_iff)
    have "shape (semundo_loop si c i x ops ?k2) = shape ?k2
    \<and> links_ok (semundo_loop si c i x ops ?k2)
    \<and> sem_err (semundo_loop si c i x ops ?k2) = sem_err ?k2
    \<and> undo_of (semundo_loop si c i x ops ?k2) = (undo_of ?k2)(c_proc c := es)
    \<and> (\<forall>n. in_set ?k2 x n \<longrightarrow> sem_at (semundo_loop si c i x ops ?k2) x n
            = (sem_at ?k2 x n)\<lparr>semval := ushort (semval (sem_at ?k2 x n) - op_sum ops n)\<rparr>)
    \<and> (\<forall>y n. y \<noteq> x \<longrightarrow> in_set ?k2 y n \<longrightarrow> sem_at (semundo_loop si c i x ops ?k2) y n = sem_at ?k2 y n)"
    proof (rule Cons.IH)
      show "\<forall>p. undo_inv si (undo_of ?k2 p)" using Cons.prems(1) es2 by simp
      show "\<forall>n. in_set ?k2 x n \<longrightarrow> 0 \<le> semval (sem_at ?k2 x n) \<and> semval (sem_at ?k2 x n) < 65536"
        using Cons.prems(6) at2 by (auto simp: sem_at_mod ushort_range)
    qed (use k2 ops es2 in auto)
    moreover have "semundo_loop si c i x (op # ops) k = semundo_loop si c i x ops ?k2"
      using False by (simp add: Let_def)
    ultimately show ?thesis using at2 k2 es2(1)
      by (auto simp: sem_at_mod op_sum_simps ushort_sub algebra_simps)
  qed
qed

section \<open>Semaphores that are changed without losing a waiter\<close>

text \<open>
  Between \<open>s0\<close> and \<open>s\<close> the list of those waiting for an increase was emptied with its
  count, or is as it was and the value has not grown; the list of those waiting for zero was
  emptied with its count, or is as it was and the value has not become zero. (A count of 0 goes
  with an empty list.)
\<close>

definition quiet :: "sem \<Rightarrow> sem \<Rightarrow> bool" where
  "quiet s0 s \<longleftrightarrow>
     (semnwait s = [] \<and> semncnt s = 0
      \<or> semnwait s = semnwait s0 \<and> semncnt s = semncnt s0 \<and> (semncnt s0 \<noteq> 0 \<longrightarrow> semval s \<le> semval s0))
   \<and> (semzwait s = [] \<and> semzcnt s = 0
      \<or> semzwait s = semzwait s0 \<and> semzcnt s = semzcnt s0
        \<and> (semzcnt s0 \<noteq> 0 \<longrightarrow> semval s0 \<noteq> 0 \<longrightarrow> semval s \<noteq> 0))"

lemma quiet_refl [simp]: "quiet s s"
  by (simp add: quiet_def)

lemma quiet_pid [simp]: "quiet s0 (s\<lparr>sempid := a\<rparr>) = quiet s0 s"
  by (simp add: quiet_def)

lemma quiet_raise:
  "quiet s0 s \<Longrightarrow> 0 \<le> semval s \<Longrightarrow> 0 < a \<Longrightarrow> semval s + a < 65536 \<Longrightarrow> quiet s0 (sem_raise a s)"
  by (auto simp: quiet_def sem_raise_def n_wakeup_def kwrap)

lemma quiet_lower:
  "quiet s0 s \<Longrightarrow> a < 0 \<Longrightarrow> 0 \<le> semval s + a \<Longrightarrow> semval s < 65536 \<Longrightarrow> quiet s0 (sem_lower a s)"
  by (auto simp: quiet_def sem_lower_def z_wakeup_def Let_def kwrap)

lemma quiet_restore: "quiet s0 s \<Longrightarrow> quiet s0 (s\<lparr>semval := semval s0\<rparr>)"
  by (auto simp: quiet_def)

lemma semval_raise [simp]: "0 \<le> semval s + a \<Longrightarrow> semval s + a < 65536 \<Longrightarrow> semval (sem_raise a s) = semval s + a"
  by (simp add: sem_raise_def n_wakeup_def kwrap)

lemma semval_lower [simp]: "0 \<le> semval s + a \<Longrightarrow> semval s + a < 65536 \<Longrightarrow> semval (sem_lower a s) = semval s + a"
  by (simp add: sem_lower_def z_wakeup_def Let_def kwrap)

section \<open>How far a call has got\<close>

text \<open>
  The operations \<open>done\<close> of process \<open>p\<close> on set \<open>x\<close> have led from \<open>k0\<close> to \<open>k\<close>: values and
  adjustments have changed by their sums, everything else only by wake-ups.
\<close>

definition progress :: "seminfo \<Rightarrow> nat \<Rightarrow> int \<Rightarrow> nat \<Rightarrow> semsys \<Rightarrow> sembuf list \<Rightarrow> semsys \<Rightarrow> bool" where
  "progress si p i x k0 ops k \<longleftrightarrow>
     shape k = shape k0 \<and> links_ok k
     \<and> semadj.adj_all si (op_adjs i ops) (undo_of k0 p) = Some (undo_of k p)
     \<and> undo_of k = (undo_of k0)(p := undo_of k p)
     \<and> (op_adjs i ops \<noteq> [] \<longrightarrow> U_semundo k p \<noteq> None)
     \<and> (\<forall>n. in_set k0 x n \<longrightarrow> semval (sem_at k x n) = semval (sem_at k0 x n) + op_sum ops n
            \<and> val_ok si (sem_at k x n) \<and> quiet (sem_at k0 x n) (sem_at k x n))
     \<and> (\<forall>y n. y \<noteq> x \<longrightarrow> in_set k0 y n \<longrightarrow> sem_at k y n = sem_at k0 y n)"

lemma progress_refl:
  assumes "sem_inv si k" "live_set k x"
  shows "progress si p i x k [] k"
  using assms by (auto simp: progress_def op_adjs_simps op_sum_simps sem_inv_def vals_ok_def)

lemma progress_err [simp]: "progress si p i x k0 ops (set_err e k) = progress si p i x k0 ops k"
  by (simp add: progress_def links_ok_def)

lemma progress_pid:
  "progress si p i x k0 ops k \<Longrightarrow> progress si p i x k0 ops (sem_mod x n (\<lambda>s. s\<lparr>sempid := a\<rparr>) k)"
  using shapeD(7) [of k k0]
  by (auto simp: progress_def links_ok_def sem_at_mod val_ok_def)

lemma progress_skip:
  "progress si p i x k0 ops k \<Longrightarrow> sem_op op = 0 \<Longrightarrow> progress si p i x k0 (ops @ [op]) k"
  by (simp add: progress_def op_adjs_simps op_sum_simps)

text \<open>What every lemma on a call assumes of the set and the operations.\<close>

definition call_ok :: "seminfo \<Rightarrow> semsys \<Rightarrow> int \<Rightarrow> nat \<Rightarrow> sembuf list \<Rightarrow> bool" where
  "call_ok si k0 i x ops \<longleftrightarrow> sem_inv si k0 \<and> live_set k0 x \<and> i = sem_id si k0 x
     \<and> (\<forall>op \<in> set ops. op_ok op \<and> sem_num op < sem_nsems (sema k0 ! x))"

lemma call_ok_in_set:
  "call_ok si k0 i x ops \<Longrightarrow> op \<in> set ops \<Longrightarrow> in_set k0 x (nat (sem_num op))"
  by (fastforce simp: call_ok_def in_set_def sem_inv_def sets_ok_def live_set_def op_ok_def)

lemma progress_undo_inv:
  assumes "call_ok si k0 i x ops" "progress si p i x k0 pre k" "set pre \<subseteq> set ops"
  shows "\<forall>q. undo_inv si (undo_of k q)"
proof -
  have ok: "seminfo_ok si \<and> undo_inv si (undo_of k0 p)"
    using assms(1) by (auto simp: call_ok_def sem_inv_def undos_ok_def)
  have "\<forall>(v, k) \<in> set (op_adjs i pre). small_num k"
    using assms(1,3) by (auto simp: op_adjs_def small_num_def call_ok_def op_ok_def)
  from semadj.adj_all_inv [OF ok this] have "undo_inv si (undo_of k p)"
    using assms(2) by (simp add: progress_def)
  then show ?thesis
    using assms by (metis call_ok_def fun_upd_apply progress_def sem_inv_def undos_ok_def)
qed

text \<open>One more adjustment and one more change of a value.\<close>

lemma op_undo_effect:
  assumes call: "call_ok si k0 i x ops" and pre: "progress si (c_proc c) i x k0 pre k" "set pre \<subseteq> set ops"
    and op: "op \<in> set ops" and res: "op_undo si c i op k = (k', r)"
  shows "sema k' = sema k \<and> shape k' = shape k \<and> links_ok k' \<and>
    (if r = 0 then sem_err k' = sem_err k
        \<and> semadj.adj_all si (op_adjs i [op]) (undo_of k (c_proc c)) = Some (undo_of k' (c_proc c))
        \<and> undo_of k' = (undo_of k)(c_proc c := undo_of k' (c_proc c))
        \<and> (op_adjs i [op] \<noteq> [] \<or> U_semundo k (c_proc c) \<noteq> None \<longrightarrow> U_semundo k' (c_proc c) \<noteq> None)
     else sem_err k' \<noteq> None \<and> progress si (c_proc c) i x k0 pre k')"
proof (cases "sem_flg op AND SEM_UNDO = 0")
  case True
  with res pre show ?thesis by (auto simp: op_undo_def op_adjs_simps progress_def)
next
  case False
  have inv: "seminfo_ok si" "\<forall>q. undo_inv si (undo_of k q)" "links_ok k"
    using call pre progress_undo_inv [OF call pre] by (simp_all add: call_ok_def sem_inv_def progress_def)
  have "op_ok op" using call op by (simp add: call_ok_def)
  with False res have arg: "- 32768 \<le> sem_op op" "sem_op op \<le> 32768" "0 \<le> sem_num op" "sem_num op < 32768"
    and r: "semaoe si c (sem_op op) i (sem_num op) k = (k', r)"
    by (auto simp: op_ok_def op_undo_def)
  note eff = semaoe_cases [OF inv arg r]
  then have sema: "sema k' = sema k" and shape: "shape k' = shape k" and links: "links_ok k'"
    by (simp_all add: shape_def)
  show ?thesis
  proof (cases "r = 0")
    case True
    with eff False sema shape links show ?thesis
      by (auto simp: op_adjs_simps undo_adj_def split: option.splits if_splits)
  next
    case neq: False
    have "sem_at k' = sem_at k" using sema by (simp add: sem_at_def fun_eq_iff)
    with eff neq sema shape links pre show ?thesis by (auto simp: progress_def)
  qed
qed

lemma progress_step:
  assumes call: "call_ok si k0 i x ops" and pre: "progress si (c_proc c) i x k0 pre k" "set pre \<subseteq> set ops"
    and op: "op \<in> set ops" and res: "op_undo si c i op k = (k', 0)"
    and f: "semval (f (sem_at k x (nat (sem_num op)))) = semval (sem_at k x (nat (sem_num op))) + sem_op op"
      "val_ok si (f (sem_at k x (nat (sem_num op))))"
      "quiet (sem_at k0 x (nat (sem_num op))) (f (sem_at k x (nat (sem_num op))))"
  shows "progress si (c_proc c) i x k0 (pre @ [op]) (sem_mod x (nat (sem_num op)) f k')"
proof -
  let ?p = "c_proc c" and ?m = "nat (sem_num op)"
  have eff: "sema k' = sema k" "shape k' = shape k" "links_ok k'"
    "semadj.adj_all si (op_adjs i [op]) (undo_of k ?p) = Some (undo_of k' ?p)"
    "undo_of k' = (undo_of k)(?p := undo_of k' ?p)"
    "op_adjs i [op] \<noteq> [] \<or> U_semundo k ?p \<noteq> None \<longrightarrow> U_semundo k' ?p \<noteq> None"
    using op_undo_effect [OF call pre op res] by simp_all
  have m: "in_set k0 x ?m" using call_ok_in_set [OF call op] .
  have at: "sem_at k' = sem_at k" using eff(1) by (simp add: sem_at_def fun_eq_iff)
  have shape: "shape k = shape k0" using pre by (simp add: progress_def)
  have in_set: "in_set k' y n = in_set k0 y n" for y n
    using shapeD(7) [of k' k0] eff(2) shape by simp
  have adj: "semadj.adj_all si (op_adjs i (pre @ [op])) (undo_of k0 ?p) = Some (undo_of k' ?p)"
    using pre(1) eff(4) by (simp add: progress_def op_adjs_simps(3) semadj.adj_all_append)
  have other: "undo_of k' = (undo_of k0)(?p := undo_of k' ?p)"
    using pre(1) eff(5) unfolding progress_def by (metis fun_upd_upd)
  have had: "op_adjs i (pre @ [op]) \<noteq> [] \<longrightarrow> U_semundo k' ?p \<noteq> None"
    using pre(1) eff(6) by (auto simp: progress_def op_adjs_simps(3))
  have sums: "op_sum (pre @ [op]) n = op_sum pre n + (if n = ?m then sem_op op else 0)" for n
    by (simp add: op_sum_simps)
  have "in_set k0 x n \<Longrightarrow> semval (sem_at (sem_mod x ?m f k') x n)
        = semval (sem_at k0 x n) + op_sum (pre @ [op]) n
      \<and> val_ok si (sem_at (sem_mod x ?m f k') x n)
      \<and> quiet (sem_at k0 x n) (sem_at (sem_mod x ?m f k') x n)" for n
    using pre(1) f by (auto simp: sem_at_mod in_set at sums progress_def)
  moreover have "y \<noteq> x \<Longrightarrow> in_set k0 y n \<Longrightarrow> sem_at (sem_mod x ?m f k') y n = sem_at k0 y n" for y n
    using pre(1) by (simp add: sem_at_mod in_set at progress_def)
  ultimately show ?thesis
    using eff(2,3) shape adj other had by (simp add: progress_def links_ok_def)
qed

section \<open>Undoing a prefix\<close>

definition undone :: "nat \<Rightarrow> semsys \<Rightarrow> semsys \<Rightarrow> bool" where
  "undone x k0 k \<longleftrightarrow> same_obs k0 k \<and> links_ok k
     \<and> (\<forall>n. in_set k0 x n \<longrightarrow> quiet (sem_at k0 x n) (sem_at k x n))
     \<and> (\<forall>y n. y \<noteq> x \<longrightarrow> in_set k0 y n \<longrightarrow> sem_at k y n = sem_at k0 y n)"

lemma undone_err [simp]: "undone x k0 (set_err e k) = undone x k0 k"
  by (simp add: undone_def same_obs_def links_ok_def)

lemma progress_undo:
  assumes call: "call_ok si k0 i x ops" and pre: "progress si (c_proc c) i x k0 (take n ops) k"
  shows "undone x k0 (semundo si c i x ops n k) \<and> sem_err (semundo si c i x ops n k) = sem_err k"
proof -
  let ?pre = "take n ops" and ?p = "c_proc c" and ?k = "semundo si c i x ops n k"
  have sub: "set ?pre \<subseteq> set ops" by (rule set_take_subset)
  have ok: "seminfo_ok si" "vals_ok si k0" using call by (simp_all add: call_ok_def sem_inv_def)
  have und: "\<forall>q. undo_inv si (undo_of k q)" by (rule progress_undo_inv [OF call pre sub])
  have opsok: "list_all op_ok (rev ?pre)" using call sub by (auto simp: call_ok_def list_all_iff)
  have small: "\<forall>(v, k) \<in> set (op_adjs i ?pre). small_num k"
    using call sub by (auto simp: op_adjs_def small_num_def call_ok_def op_ok_def)
  have inv0: "seminfo_ok si \<and> undo_inv si (undo_of k0 ?p)"
    using call by (simp add: call_ok_def sem_inv_def undos_ok_def)
  have "op_adjs i (rev ?pre) = rev (op_adjs i ?pre)"
    by (simp add: op_adjs_def rev_filter rev_map)
  then have adjs: "semadj.adj_all si (neg_adjs (op_adjs i (rev ?pre))) (undo_of k ?p) = Some (undo_of k0 ?p)"
    using semadj.adj_all_back [OF inv0 small, of "undo_of k ?p"] pre by (simp add: progress_def rev_map)
  have had: "op_adjs i (rev ?pre) \<noteq> [] \<longrightarrow> U_semundo k ?p \<noteq> None"
    using pre \<open>op_adjs i (rev ?pre) = rev (op_adjs i ?pre)\<close> by (simp add: progress_def)
  have vmx: "semvmx si \<le> 32767" using ok by (simp add: seminfo_ok_def)
  have shape: "shape k = shape k0" using pre by (simp add: progress_def)
  have in_set: "in_set k y m = in_set k0 y m" for y m using shapeD(7) [OF shape] .
  have len: "\<forall>m. in_set k x m \<longrightarrow> 0 \<le> semval (sem_at k x m) \<and> semval (sem_at k x m) < 65536"
    using pre vmx by (fastforce simp: progress_def val_ok_def in_set)
  have links: "links_ok k" using pre by (simp add: progress_def)
  note eff = semundo_loop_effect [OF ok(1) und links opsok adjs had len, folded semundo_def]
  have live: "live_set k0 x" using call by (simp add: call_ok_def)
  have vals: "sem_at ?k x m = (sem_at k x m)\<lparr>semval := semval (sem_at k0 x m)\<rparr>" if "in_set k0 x m" for m
  proof -
    have "val_ok si (sem_at k0 x m)" using ok(2) live that by (simp add: vals_ok_def)
    moreover have "semval (sem_at k x m) - op_sum (rev ?pre) m = semval (sem_at k0 x m)"
      using pre that by (simp add: progress_def op_sum_simps)
    ultimately show ?thesis using eff that in_set vmx by (simp add: val_ok_def kwrap)
  qed
  have rest: "y \<noteq> x \<Longrightarrow> in_set k0 y m \<Longrightarrow> sem_at ?k y m = sem_at k0 y m" for y m
    using eff pre in_set by (simp add: progress_def)
  have "undo_of ?k = undo_of k0"
  proof -
    have "undo_of ?k = (undo_of k)(?p := undo_of k0 ?p)" using eff by blast
    also have "\<dots> = undo_of k0" using pre unfolding progress_def by (metis fun_upd_triv fun_upd_upd)
    finally show ?thesis .
  qed
  moreover have "semval (sem_at k0 y m) = semval (sem_at ?k y m)" if "in_set k0 y m" for y m
    using vals rest that by (cases "y = x") auto
  ultimately have "same_obs k0 ?k" using eff shape by (simp add: same_obs_def)
  moreover have "quiet (sem_at k0 x m) (sem_at ?k x m)" if "in_set k0 x m" for m
    using vals [OF that] pre that by (auto simp: progress_def intro: quiet_restore)
  ultimately show ?thesis using eff rest by (simp add: undone_def)
qed

section \<open>A pass of atomic\<close>

text \<open>Why operation \<open>n\<close> waits, seen from the state before the pass.\<close>

definition blocked :: "semsys \<Rightarrow> nat \<Rightarrow> int \<Rightarrow> sembuf \<Rightarrow> wait_on \<Rightarrow> bool" where
  "blocked k x off op w \<longleftrightarrow> in_set k x (nat (sem_num op)) \<and>
     (let v = semval (sem_at k x (nat (sem_num op))) + off in
      case w of NWait \<Rightarrow> sem_op op < 0 \<and> v < - sem_op op | ZWait \<Rightarrow> sem_op op = 0 \<and> v \<noteq> 0)"

definition atomic_res_ok :: "seminfo \<Rightarrow> caller \<Rightarrow> int \<Rightarrow> nat \<Rightarrow> sembuf list \<Rightarrow> semsys \<Rightarrow> pass \<Rightarrow> bool" where
  "atomic_res_ok si c i x ops k0 res \<longleftrightarrow>
     (case res of
        PDone k \<Rightarrow> progress si (c_proc c) i x k0 ops k \<and> sem_err k = sem_err k0
      | PErr k \<Rightarrow> undone x k0 k \<and> sem_err k \<noteq> None
      | PSleep k n m w \<Rightarrow> undone x k0 k \<and> n < length ops \<and> m = nat (sem_num (ops ! n))
          \<and> blocked k0 x (op_sum (take n ops) m) (ops ! n) w)"

lemma progress_fold_pid:
  "progress si p i x k0 done k \<Longrightarrow>
     progress si p i x k0 done (fold (\<lambda>op. sem_mod x (nat (sem_num op)) (\<lambda>s. s\<lparr>sempid := a\<rparr>)) ops k)"
  by (induction ops arbitrary: k) (simp_all add: progress_pid)

lemma fold_pid_err [simp]:
  "sem_err (fold (\<lambda>op. sem_mod x (nat (sem_num op)) (\<lambda>s. s\<lparr>sempid := a\<rparr>)) ops k) = sem_err k"
  by (induction ops arbitrary: k) simp_all

lemma semundo_zero: "semundo si c i x ops 0 k = k"
  by (simp add: semundo_def)

lemma atomic_fail_ok:
  assumes "call_ok si k0 i x ops" "progress si (c_proc c) i x k0 (take n ops) k"
  shows "atomic_res_ok si c i x ops k0 (atomic_fail si c i x ops n k)"
proof -
  let ?k = "if sem_err k = None then set_err ERANGE k else k"
  have "progress si (c_proc c) i x k0 (take n ops) ?k" using assms(2) by simp
  from progress_undo [OF assms(1) this] show ?thesis
    by (auto simp: atomic_res_ok_def atomic_fail_def Let_def semundo_zero)
qed

lemma atomic_wait_ok:
  assumes "call_ok si k0 i x ops" "progress si (c_proc c) i x k0 (take n ops) k"
    and "n < length ops" "op = ops ! n"
    and "blocked k0 x (op_sum (take n ops) (nat (sem_num op))) op w"
  shows "atomic_res_ok si c i x ops k0 (atomic_wait si c i x ops n op w k)"
  using progress_undo [OF assms(1,2)] assms(3-5)
  by (auto simp: atomic_res_ok_def atomic_wait_def Let_def semundo_zero)

lemma semval_at_progress:
  "progress si p i x k0 pre k \<Longrightarrow> in_set k0 x m \<Longrightarrow>
     semval (sem_at k x m) = semval (sem_at k0 x m) + op_sum pre m \<and> val_ok si (sem_at k x m)
     \<and> quiet (sem_at k0 x m) (sem_at k x m)"
  by (simp add: progress_def)

lemma raise_ok:
  assumes "seminfo_ok si" "val_ok si s" "quiet s0 s" "0 < a" "semval s + a \<le> semvmx si"
  shows "semval (sem_raise a s) = semval s + a" "val_ok si (sem_raise a s)" "quiet s0 (sem_raise a s)"
  using assms by (auto simp: val_ok_def seminfo_ok_def intro: quiet_raise)

lemma lower_ok:
  assumes "seminfo_ok si" "val_ok si s" "quiet s0 s" "a < 0" "0 \<le> semval s + a"
  shows "semval (sem_lower a s) = semval s + a" "val_ok si (sem_lower a s)" "quiet s0 (sem_lower a s)"
  using assms by (auto simp: val_ok_def seminfo_ok_def intro: quiet_lower)

lemma atomic_from_ok:
  assumes "call_ok si k0 i x ops" "progress si (c_proc c) i x k0 pre k" "sem_err k = sem_err k0"
    and "ops = pre @ rest" "n = length pre"
  shows "atomic_res_ok si c i x ops k0 (atomic_from si c i x ops rest n k)"
  using assms(2-5)
proof (induction rest arbitrary: pre n k)
  case Nil
  then show ?case by (simp add: atomic_res_ok_def progress_fold_pid)
next
  case (Cons op rest)
  have ok: "seminfo_ok si" using assms(1) by (simp add: call_ok_def sem_inv_def)
  have op: "op \<in> set ops" and pre: "take n ops = pre" "set pre \<subseteq> set ops" "ops ! n = op" "n < length ops"
    using Cons.prems by auto
  have more: "ops = (pre @ [op]) @ rest" "n + 1 = length (pre @ [op])" using Cons.prems by auto
  let ?m = "nat (sem_num op)" and ?s = "sem_at k x (nat (sem_num op))"
  have m: "in_set k0 x ?m" by (rule call_ok_in_set [OF assms(1) op])
  note at = semval_at_progress [OF Cons.prems(1) m]
  have prog: "progress si (c_proc c) i x k0 (take n ops) k" using Cons.prems(1) pre(1) by simp
  have fail: "atomic_res_ok si c i x ops k0 (atomic_fail si c i x ops n k)"
    by (rule atomic_fail_ok [OF assms(1) prog])
  obtain k1 r where undo: "op_undo si c i op k = (k1, r)" by fastforce
  note eff = op_undo_effect [OF assms(1) Cons.prems(1) pre(2) op undo]
  have fail1: "r \<noteq> 0 \<Longrightarrow> atomic_res_ok si c i x ops k0 (atomic_fail si c i x ops n k1)"
    using eff pre(1) by (intro atomic_fail_ok [OF assms(1)]) simp
  have step: "atomic_res_ok si c i x ops k0 (atomic_from si c i x ops rest (n + 1) (sem_mod x ?m f k1))"
    if "r = 0" "semval (f ?s) = semval ?s + sem_op op" "val_ok si (f ?s)" "quiet (sem_at k0 x ?m) (f ?s)" for f
    using progress_step [where f = f, OF assms(1) Cons.prems(1) pre(2) op undo [unfolded that(1)] that(2-4)]
      eff that(1) Cons.prems(2) by (intro Cons.IH [OF _ _ more]) simp_all
  have wait: "atomic_res_ok si c i x ops k0 (atomic_wait si c i x ops n op w k)"
    if "blocked k0 x (op_sum pre ?m) op w" for w
    by (rule atomic_wait_ok [OF assms(1) prog pre(4)]) (use that pre in simp_all)
  consider (pos) "sem_op op > 0" | (neg) "sem_op op < 0" | (zero) "sem_op op = 0" by linarith
  then show ?case
  proof cases
    case pos
    show ?thesis
    proof (cases "sem_op op + semval ?s > semvmx si")
      case True
      with pos fail show ?thesis by simp
    next
      case False
      with pos step [of "sem_raise (sem_op op)"] raise_ok [OF ok _ _ pos, of ?s "sem_at k0 x ?m"] at fail1 show ?thesis
        by (auto simp: undo add.commute)
    qed
  next
    case neg
    show ?thesis
    proof (cases "semval ?s \<ge> - sem_op op")
      case True
      have low: "0 \<le> semval ?s + sem_op op" using True by simp
      show ?thesis
        using neg True step [of "sem_lower (sem_op op)"] lower_ok [OF ok _ _ neg low, of "sem_at k0 x ?m"] at fail1 fail
        by (auto simp: undo)
    next
      case False
      then have "blocked k0 x (op_sum pre ?m) op NWait" using at m neg by (simp add: blocked_def)
      from wait [OF this] neg False show ?thesis by simp
    qed
  next
    case zero
    show ?thesis
    proof (cases "semval ?s = 0")
      case True
      have "progress si (c_proc c) i x k0 (pre @ [op]) k" by (rule progress_skip [OF Cons.prems(1) zero])
      from Cons.IH [OF this Cons.prems(2) more] zero True show ?thesis by simp
    next
      case False
      then have "blocked k0 x (op_sum pre ?m) op ZWait" using at m zero by (simp add: blocked_def)
      from wait [OF this] zero False show ?thesis by simp
    qed
  qed
qed

lemma atomic_ok:
  assumes "call_ok si k0 i x ops"
  shows "atomic_res_ok si c i x ops k0 (atomic si c i x ops k0)"
proof -
  have "progress si (c_proc c) i x k0 [] k0"
    using assms by (intro progress_refl) (simp_all add: call_ok_def)
  from atomic_from_ok [OF assms this] show ?thesis by (simp add: atomic_def)
qed

section \<open>The operations in order\<close>

definition order_res_ok :: "seminfo \<Rightarrow> caller \<Rightarrow> int \<Rightarrow> nat \<Rightarrow> nat \<Rightarrow> sembuf list \<Rightarrow> semsys \<Rightarrow> opass \<Rightarrow> bool" where
  "order_res_ok si c i x n0 ops k0 res \<longleftrightarrow>
     (case res of
        ODone k \<Rightarrow> progress si (c_proc c) i x k0 ops k \<and> sem_err k = sem_err k0
      | OErr k n \<Rightarrow> n0 \<le> n \<and> n < n0 + length ops \<and> sem_err k \<noteq> None
          \<and> progress si (c_proc c) i x k0 (take (n - n0) ops) k
      | OSleep k n m w \<Rightarrow> n0 \<le> n \<and> n < n0 + length ops \<and> m = nat (sem_num (ops ! (n - n0)))
          \<and> sem_err k = sem_err k0 \<and> progress si (c_proc c) i x k0 (take (n - n0) ops) k
          \<and> blocked k x 0 (ops ! (n - n0)) w)"

lemma order_from_ok:
  assumes "call_ok si k0 i x ops" "progress si (c_proc c) i x k0 pre k" "sem_err k = sem_err k0"
    and "ops = pre @ rest" "n = n0 + length pre"
  shows "order_res_ok si c i x n0 ops k0 (order_from si c i x rest n k)"
  using assms(2-5)
proof (induction rest arbitrary: pre n k)
  case Nil
  then show ?case by (simp add: order_res_ok_def)
next
  case (Cons op rest)
  have ok: "seminfo_ok si" using assms(1) by (simp add: call_ok_def sem_inv_def)
  have op: "op \<in> set ops" and pre: "take (n - n0) ops = pre" "set pre \<subseteq> set ops" "ops ! (n - n0) = op"
    "n0 \<le> n" "n < n0 + length ops"
    using Cons.prems by auto
  have more: "ops = (pre @ [op]) @ rest" "n + 1 = n0 + length (pre @ [op])" using Cons.prems by auto
  let ?m = "nat (sem_num op)" and ?s = "sem_at k x (nat (sem_num op))"
  have m: "in_set k0 x ?m" by (rule call_ok_in_set [OF assms(1) op])
  then have mk: "in_set k x ?m" using Cons.prems(1) shapeD(7) [of k k0] by (simp add: progress_def)
  note at = semval_at_progress [OF Cons.prems(1) m]
  have err: "order_res_ok si c i x n0 ops k0 (OErr (set_err e k) n)" for e
    using pre Cons.prems(1) by (simp add: order_res_ok_def)
  have sleep: "order_res_ok si c i x n0 ops k0 (OSleep k n ?m w)" if "blocked k x 0 op w" for w
    using pre Cons.prems(1,2) that by (simp add: order_res_ok_def)
  obtain k1 r where undo: "op_undo si c i op k = (k1, r)" by fastforce
  note eff = op_undo_effect [OF assms(1) Cons.prems(1) pre(2) op undo]
  have err1: "r \<noteq> 0 \<Longrightarrow> order_res_ok si c i x n0 ops k0 (OErr k1 n)"
    using pre eff by (simp add: order_res_ok_def)
  have step: "order_res_ok si c i x n0 ops k0 (order_from si c i x rest (n + 1)
        (sem_mod x ?m (\<lambda>s. (f s)\<lparr>sempid := a\<rparr>) k1))"
    if "r = 0" "semval (f ?s) = semval ?s + sem_op op" "val_ok si (f ?s)" "quiet (sem_at k0 x ?m) (f ?s)" for f a
    using progress_step [where f = "\<lambda>s. (f s)\<lparr>sempid := a\<rparr>",
        OF assms(1) Cons.prems(1) pre(2) op undo [unfolded that(1)]]
      eff that Cons.prems(2) by (intro Cons.IH [OF _ _ more]) (simp_all add: val_ok_def)
  consider (pos) "sem_op op > 0" | (neg) "sem_op op < 0" | (zero) "sem_op op = 0" by linarith
  then show ?case
  proof cases
    case pos
    show ?thesis
    proof (cases "sem_op op + semval ?s > semvmx si")
      case True
      with pos err show ?thesis by (simp add: Let_def)
    next
      case False
      with pos step [of "sem_raise (sem_op op)"] raise_ok [OF ok _ _ pos, of ?s "sem_at k0 x ?m"] at err1 show ?thesis
        by (auto simp: undo add.commute Let_def)
    qed
  next
    case neg
    show ?thesis
    proof (cases "- sem_op op > semvmx si")
      case True
      with neg err show ?thesis by (simp add: Let_def)
    next
      case fits: False
      show ?thesis
      proof (cases "semval ?s < - sem_op op")
        case True
        then have "blocked k x 0 op NWait" using mk neg by (simp add: blocked_def)
        from sleep [OF this] err neg fits True show ?thesis by (simp add: Let_def)
      next
        case False
        then have low: "0 \<le> semval ?s + sem_op op" by simp
        show ?thesis
          using neg fits False step [of "sem_lower (sem_op op)"] lower_ok [OF ok _ _ neg low, of "sem_at k0 x ?m"] at err1
          by (auto simp: undo Let_def)
      qed
    qed
  next
    case zero
    show ?thesis
    proof (cases "semval ?s = 0")
      case True
      have "progress si (c_proc c) i x k0 (pre @ [op]) (sem_mod x ?m (\<lambda>s. s\<lparr>sempid := c_pid c\<rparr>) k)"
        by (rule progress_pid [OF progress_skip [OF Cons.prems(1) zero]])
      from Cons.IH [OF this _ more] Cons.prems(2) zero True show ?thesis by (simp add: Let_def)
    next
      case False
      then have "blocked k x 0 op ZWait" using mk zero by (simp add: blocked_def)
      from sleep [OF this] err zero False show ?thesis by (simp add: Let_def)
    qed
  qed
qed

lemma order_ok:
  assumes "call_ok si k0 i x ops"
  shows "order_res_ok si c i x n0 ops k0 (order_from si c i x ops n0 k0)"
proof -
  have "progress si (c_proc c) i x k0 [] k0"
    using assms by (intro progress_refl) (simp_all add: call_ok_def)
  from order_from_ok [OF assms this] show ?thesis by simp
qed

section \<open>Back to the invariant\<close>

lemma undo_live_adj:
  assumes inv: "seminfo_ok si" "undo_inv si es" and k: "small_num k"
    and res: "undo_adj si v k es = Some es'"
    and P: "\<forall>e \<in> set es. P (un_id e) (un_num e)" "P (fst k) (snd k)"
  shows "\<forall>e \<in> set es'. P (un_id e) (un_num e)"
proof -
  obtain i n where kk: "k = (i, n)" "0 \<le> n" "n < 32768"
    using k by (cases k) (auto simp: small_num_def)
  show ?thesis
  proof (rule undo_adj_cases [OF inv kk(2,3) res [unfolded kk(1)]])
    fix pre mid mid' post
    assume "es = pre @ mid @ post" "es' = pre @ mid' @ post" "entry_change si v i n mid mid'"
    with P kk show ?thesis by (auto simp: entry_change_def)
  qed (use P in simp)
qed

lemma undo_live_adjs:
  assumes "seminfo_ok si" "undo_inv si es" "\<forall>(v, k) \<in> set xs. small_num k \<and> P (fst k) (snd k)"
    and "semadj.adj_all si xs es = Some es'" "\<forall>e \<in> set es. P (un_id e) (un_num e)"
  shows "\<forall>e \<in> set es'. P (un_id e) (un_num e)"
  using assms(2-5)
proof (induction xs arbitrary: es)
  case (Cons x xs)
  obtain v k where x: "x = (v, k)" by (cases x)
  with Cons.prems obtain es1 where es1: "undo_adj si v k es = Some es1" "semadj.adj_all si xs es1 = Some es'"
    by (auto split: option.splits)
  have k: "small_num k" "P (fst k) (snd k)" using Cons.prems(2) x by auto
  from Cons.IH [OF undo_adj_inv [OF assms(1) Cons.prems(1) k(1) es1(1)] _ es1(2)
      undo_live_adj [OF assms(1) Cons.prems(1) k(1) es1(1) Cons.prems(4) k(2)]]
  show ?case using Cons.prems(2) by auto
qed simp

lemma progress_inv:
  assumes call: "call_ok si k0 i x ops" and pre: "progress si p i x k0 pre k" "set pre \<subseteq> set ops"
  shows "sem_inv si k"
proof -
  have inv: "sem_inv si k0" and ok: "seminfo_ok si" and live: "live_set k0 x"
    using call by (simp_all add: call_ok_def sem_inv_def)
  have shape: "shape k = shape k0" and links: "links_ok k" using pre by (simp_all add: progress_def)
  have "vals_ok si k"
  proof (rule vals_okI)
    fix y n assume "live_set k y" "in_set k y n"
    then have "live_set k0 y" "in_set k0 y n" using live_set_shape [OF shape] shapeD(7) [OF shape] by simp_all
    then show "val_ok si (sem_at k y n)"
      using pre inv by (cases "y = x") (auto simp: progress_def sem_inv_def vals_ok_def)
  qed
  moreover have "undos_ok si k"
  proof -
    have und: "undo_inv si (undo_of k q)" for q using progress_undo_inv [OF call pre] by blast
    let ?P = "\<lambda>j n. \<exists>y. live_set k0 y \<and> j = sem_id si k0 y \<and> n < sem_nsems (sema k0 ! y)"
    have adj: "semadj.adj_all si (op_adjs i pre) (undo_of k0 p) = Some (undo_of k p)"
      using pre by (simp add: progress_def)
    have keys: "\<forall>(v, k) \<in> set (op_adjs i pre). small_num k \<and> ?P (fst k) (snd k)"
      using call pre(2) live by (force simp: op_adjs_def small_num_def call_ok_def op_ok_def)
    have old: "\<forall>e \<in> set (undo_of k0 q). ?P (un_id e) (un_num e)" for q
      using inv by (fastforce simp: sem_inv_def undos_ok_def undo_live_def)
    have uinv: "undo_inv si (undo_of k0 p)" using inv by (simp add: sem_inv_def undos_ok_def)
    have "\<forall>e \<in> set (undo_of k p). ?P (un_id e) (un_num e)"
      by (rule undo_live_adjs [OF ok uinv keys adj old])
    moreover have "q \<noteq> p \<Longrightarrow> undo_of k q = undo_of k0 q" for q
      using pre unfolding progress_def by (metis fun_upd_other)
    ultimately have "\<forall>e \<in> set (undo_of k q). undo_live si k0 e" for q
      using old by (cases "q = p") (auto simp: undo_live_def)
    then show ?thesis using und by (simp add: undos_ok_def undo_live_shape [OF shape])
  qed
  ultimately show ?thesis using ok links inv sets_ok_shape [OF shape] by (simp add: sem_inv_def)
qed

lemma undone_inv: "sem_inv si k0 \<Longrightarrow> undone x k0 k \<Longrightarrow> sem_inv si k"
  using sem_inv_obs by (auto simp: undone_def)

section \<open>Removing adjustments\<close>

lemma semunrm_effect:
  assumes inv: "\<forall>p. undo_inv si (undo_of k p)" "links_ok k"
    and range: "0 \<le> low" "low < 65536" "0 \<le> high" "high < 65536"
  shows "undo_of (semunrm i low high k) p =
      filter (\<lambda>e. \<not> (un_id e = i \<and> low \<le> un_num e \<and> un_num e \<le> high)) (undo_of k p)"
    and "links_ok (semunrm i low high k)"
proof -
  have f: "unrm_entries i (ushort low) (ushort high) (undo_of k q) =
      filter (\<lambda>e. \<not> (un_id e = i \<and> low \<le> un_num e \<and> un_num e \<le> high)) (undo_of k q)" for q
    using inv(1) range by (simp add: kwrap unrm_entries_filter undo_inv_def)
  have empty: "q \<notin> set (semunp k) \<Longrightarrow> undo_of k q = []" for q
    using inv(2) by (simp add: links_ok_def)
  show un: "undo_of (semunrm i low high k) p =
      filter (\<lambda>e. \<not> (un_id e = i \<and> low \<le> un_num e \<and> un_num e \<le> high)) (undo_of k p)" for p
  proof -
    have "undo_of (semunrm i low high k) p = (if p \<in> set (semunp k)
        then unrm_entries i (ushort low) (ushort high) (undo_of k p) else undo_of k p)"
      by (simp add: semunrm_def undo_of_def Let_def)
    then show ?thesis unfolding f using empty [of p] by (cases "p \<in> set (semunp k)") simp_all
  qed
  have "semunp (semunrm i low high k) =
      filter (\<lambda>q. unrm_entries i (ushort low) (ushort high) (undo_of k q) \<noteq> []) (semunp k)"
    by (simp add: semunrm_def Let_def)
  then have "semunp (semunrm i low high k) = filter (\<lambda>q. undo_of (semunrm i low high k) q \<noteq> []) (semunp k)"
    unfolding f un .
  then have sp: "semunp (semunrm i low high k) =
      filter (\<lambda>q. undo_of (semunrm i low high k) q \<noteq> []) (semunp k)" .
  have "undo_of (semunrm i low high k) q \<noteq> [] \<Longrightarrow> q \<in> set (semunp k)" for q
    using empty [of q] unfolding un by (cases "q \<in> set (semunp k)") simp_all
  then show "links_ok (semunrm i low high k)"
    using inv(2) unfolding links_ok_def sp by auto
qed

lemma semunrm_simps [simp]:
  "sema (semunrm i low high k) = sema k" "sem_mark (semunrm i low high k) = sem_mark k"
  "sem_err (semunrm i low high k) = sem_err k" "sem_at (semunrm i low high k) = sem_at k"
  "shape (semunrm i low high k) = shape k" "in_set (semunrm i low high k) = in_set k"
  by (simp_all add: semunrm_def Let_def sem_at_def shape_def in_set_def fun_eq_iff)

lemma semunrm_inv:
  assumes "sem_inv si k" "0 \<le> low" "low < 65536" "0 \<le> high" "high < 65536"
  shows "sem_inv si (semunrm i low high k)"
proof -
  let ?k = "semunrm i low high k"
  have u: "\<forall>p. undo_inv si (undo_of k p)" "links_ok k" and o: "undos_ok si k"
    using assms(1) by (simp_all add: sem_inv_def undos_ok_def)
  note eff = semunrm_effect [OF u assms(2-5)]
  have sh: "shape ?k = shape k" by simp
  have "undos_ok si ?k"
    using o by (auto simp: undos_ok_def eff(1) filter_undo_inv undo_live_shape [OF sh])
  moreover have "vals_ok si ?k"
    using assms(1) by (simp add: sem_inv_def vals_ok_def live_set_shape [OF sh])
  ultimately show ?thesis
    using assms(1) eff(2) sets_ok_shape [OF sh] by (simp add: sem_inv_def)
qed

section \<open>Replacing a descriptor\<close>

lemma sem_inv_err [simp]: "sem_inv si (k\<lparr>sem_err := e\<rparr>) = sem_inv si k"
  by (simp add: sem_inv_def sets_ok_def live_set_def vals_ok_def in_set_def sem_at_def undos_ok_def
      undo_of_def undo_live_def sem_id_def links_ok_def)

lemma sem_inv_set_err [simp]: "sem_inv si (set_err e k) = sem_inv si k"
  by (simp add: set_err_def)

lemma sem_inv_replace:
  assumes inv: "sem_inv si k" and x: "x < length (sema k)"
    and k': "sema k' = (sema k)[x := sp]" "undo_of k' = undo_of k" "semunp k' = semunp k"
    and tab: "key_table (map sem_perm (sema k')) (sem_mark k')"
    and sq: "0 \<le> ip_seq (sem_perm sp)" "ip_seq (sem_perm sp) < 65536"
    and sp: "allocated (sem_perm sp) \<Longrightarrow> int (length (sem_base sp)) = sem_nsems sp \<and> 0 < sem_nsems sp
        \<and> sem_nsems sp \<le> semmsl si \<and> (\<forall>s \<in> set (sem_base sp). val_ok si s)"
    and keep: "(\<forall>p. \<forall>e \<in> set (undo_of k p). un_id e \<noteq> sem_id si k x)
      \<or> allocated (sem_perm sp) \<and> ip_seq (sem_perm sp) = ip_seq (sem_perm (sema k ! x))
        \<and> sem_nsems sp = sem_nsems (sema k ! x)"
  shows "sem_inv si k'"
proof -
  have live: "live_set k' y \<longleftrightarrow> (if y = x then allocated (sem_perm sp) else live_set k y)" for y
    using x by (simp add: live_set_def k' nth_list_update)
  have at: "y \<noteq> x \<Longrightarrow> sema k' ! y = sema k ! y" "sema k' ! x = sp" for y
    using x by (simp_all add: k')
  have "sets_ok si k'"
    using inv tab sq sp live at k'(1) unfolding sem_inv_def sets_ok_def by (metis length_list_update)
  moreover have "vals_ok si k'"
  proof (rule vals_okI)
    fix y n assume l: "live_set k' y" "in_set k' y n"
    show "val_ok si (sem_at k' y n)"
    proof (cases "y = x")
      case True
      with l live sp have "\<forall>s \<in> set (sem_base sp). val_ok si s" by simp
      with l True show ?thesis by (simp add: sem_at_def at in_set_def)
    next
      case False
      with l live have "live_set k y" by simp
      moreover have "in_set k y n" using l False by (simp add: in_set_def at k'(1))
      ultimately have "val_ok si (sem_at k y n)" using inv by (simp add: sem_inv_def vals_ok_def)
      then show ?thesis using False by (simp add: sem_at_def at)
    qed
  qed
  moreover have "undos_ok si k'"
  proof -
    have "undo_live si k' e" if e: "e \<in> set (undo_of k p)" for p e
    proof -
      obtain y where y: "live_set k y" "un_id e = sem_id si k y" "un_num e < sem_nsems (sema k ! y)"
        using inv e by (auto simp: sem_inv_def undos_ok_def undo_live_def)
      show ?thesis
      proof (cases "y = x")
        case True
        with keep e y have "allocated (sem_perm sp) \<and> ip_seq (sem_perm sp) = ip_seq (sem_perm (sema k ! x))
          \<and> sem_nsems sp = sem_nsems (sema k ! x)" by blast
        with y True live at show ?thesis by (auto simp: undo_live_def sem_id_def intro!: exI [of _ x])
      next
        case False
        with y live at show ?thesis by (auto simp: undo_live_def sem_id_def intro!: exI [of _ y])
      qed
    qed
    then show ?thesis using inv by (simp add: sem_inv_def undos_ok_def k'(2))
  qed
  moreover have "links_ok k'" using inv by (simp add: sem_inv_def links_ok_def k')
  ultimately show ?thesis using inv by (simp add: sem_inv_def)
qed

section \<open>semctl\<close>

text \<open>What the world sees of a step: values, waiters and identity of each live set.\<close>

definition calm :: "semsys \<Rightarrow> semsys \<Rightarrow> bool" where
  "calm k k' \<longleftrightarrow> (\<forall>y. live_set k' y \<longrightarrow>
      live_set k y \<and> ip_seq (sem_perm (sema k' ! y)) = ip_seq (sem_perm (sema k ! y))
        \<and> (\<forall>n. in_set k' y n \<longrightarrow> in_set k y n \<and> quiet (sem_at k y n) (sem_at k' y n))
      \<or> (\<forall>n. in_set k' y n \<longrightarrow> semnwait (sem_at k' y n) = [] \<and> semncnt (sem_at k' y n) = 0
            \<and> semzwait (sem_at k' y n) = [] \<and> semzcnt (sem_at k' y n) = 0))"

lemma calm_shapeI:
  assumes "shape k' = shape k" "\<And>y n. live_set k y \<Longrightarrow> in_set k y n \<Longrightarrow> quiet (sem_at k y n) (sem_at k' y n)"
  shows "calm k k'"
proof -
  have "ip_seq (sem_perm (sema k' ! y)) = ip_seq (sem_perm (sema k ! y))" if "live_set k y" for y
    using shapeD(3) [OF assms(1) [symmetric]] that by (simp add: live_set_def)
  then show ?thesis
    using assms(2) live_set_shape [OF assms(1)] shapeD(7) [OF assms(1)] by (simp add: calm_def)
qed

lemma calm_refl [simp]: "calm k k"
  by (simp add: calm_def)

lemma calm_err [simp]: "calm k (set_err e k') = calm k k'"
  by (simp add: calm_def live_set_def in_set_def)

lemma progress_calm:
  "progress si p i x k0 pre k \<Longrightarrow> calm k0 k"
proof (rule calm_shapeI)
  assume p: "progress si p i x k0 pre k"
  then show "shape k = shape k0" by (simp add: progress_def)
  show "quiet (sem_at k0 y n) (sem_at k y n)" if "in_set k0 y n" for y n
    using p that by (cases "y = x") (simp_all add: progress_def)
qed

lemma undone_calm: "undone x k0 k \<Longrightarrow> calm k0 k"
proof (rule calm_shapeI)
  assume p: "undone x k0 k"
  then show "shape k = shape k0" by (simp add: undone_def same_obs_def)
  show "quiet (sem_at k0 y n) (sem_at k y n)" if "in_set k0 y n" for y n
    using p that by (cases "y = x") (simp_all add: undone_def)
qed

lemma quiet_store:
  assumes "0 \<le> a" "a < 65536" "0 \<le> semval s"
  shows "quiet s (sem_store a s)" "semval (sem_store a s) = a"
  using assms by (auto simp: sem_store_def Let_def kwrap n_wakeup_def z_wakeup_def quiet_def)


lemma map_perm_update:
  "map sem_perm ((sema k)[x := sp]) = (map sem_perm (sema k))[x := sem_perm sp]"
  by (simp add: map_update)

lemma sem_id_inj:
  assumes "sets_ok si k" "seminfo_ok si" "live_set k x" "live_set k y" "sem_id si k x = sem_id si k y"
  shows "x = y"
  using semids.ident_inj [where si = si and s = k] assms by blast

definition ctl_ok :: "seminfo \<Rightarrow> semsys \<Rightarrow> (semsys \<times> int \<times> semctl_out) option \<Rightarrow> bool" where
  "ctl_ok si k res \<longleftrightarrow> (\<exists>k' r out. res = Some (k', r, out) \<and> sem_inv si k' \<and> calm k k')"

lemma ctl_okI: "sem_inv si k' \<Longrightarrow> calm k k' \<Longrightarrow> ctl_ok si k (sem_rval k' r out)"
  by (simp add: ctl_ok_def sem_rval_def)

lemma ctl_fail [simp]: "sem_inv si k \<Longrightarrow> ctl_ok si k (sem_fail e k)"
  unfolding sem_fail_def by (rule ctl_okI) simp_all

lemma live_nsems:
  assumes "sem_inv si k" "live_set k x"
  shows "0 < sem_nsems (sema k ! x)" "sem_nsems (sema k ! x) < 65536"
    "int (length (sem_base (sema k ! x))) = sem_nsems (sema k ! x)"
  using assms by (auto simp: sem_inv_def sets_ok_def seminfo_ok_def)

lemma live_val:
  assumes "sem_inv si k" "live_set k x" "in_set k x n"
  shows "0 \<le> semval (sem_at k x n)" "semval (sem_at k x n) \<le> semvmx si"
  using assms by (auto simp: sem_inv_def vals_ok_def val_ok_def)

lemma undo_inv_num: "undo_inv si es \<Longrightarrow> e \<in> set es \<Longrightarrow> 0 \<le> un_num e"
  by (simp add: undo_inv_def)

lemma undos_liveE:
  assumes "sem_inv si k" "e \<in> set (undo_of k p)"
  obtains y where "live_set k y" "un_id e = sem_id si k y" "un_num e < sem_nsems (sema k ! y)"
  using assms unfolding sem_inv_def undos_ok_def undo_live_def by blast

lemma semctl_rmid_effect:
  assumes inv: "sem_inv si k" and live: "live_set k x" and i: "semid = sem_id si k x"
    and res: "semctl_rmid v cr semid x k = Some (k', r, out)" and perm: "owner_or BYPASS_DAC_WRITE v cr (sem_perm (sema k ! x))"
  shows "sem_inv si k' \<and> calm k k' \<and> \<not> live_set k' x
    \<and> (\<forall>p. \<forall>e \<in> set (undo_of k' p). un_id e \<noteq> semid)
    \<and> sem_err k' = sem_err k \<and> (\<forall>y. y \<noteq> x \<longrightarrow> sema k' ! y = sema k ! y)
    \<and> ip_seq (sem_perm (sema k' ! x)) = (ip_seq (sem_perm (sema k ! x)) + 1) mod 65536"
proof -
  let ?sp = "sema k ! x"
  let ?k1 = "semunrm semid 0 (sem_nsems ?sp) k"
  let ?p = "(sem_perm ?sp)\<lparr>ip_seq := ushort (ip_seq (sem_perm ?sp) + 1), ip_mode := 0\<rparr>"
  let ?sp' = "?sp\<lparr>sem_base := [], sem_perm := ?p\<rparr>"
  have x: "x < length (sema k)" using live by (simp add: live_set_def)
  have nsems: "0 < sem_nsems ?sp" "sem_nsems ?sp < 65536"
    using live_nsems [OF inv live] by simp_all
  define k2 where "k2 = ds_mod x (\<lambda>sp. sp\<lparr>sem_base := [],
      sem_perm := (sem_perm sp)\<lparr>ip_seq := ushort (ip_seq (sem_perm sp) + 1), ip_mode := 0\<rparr>\<rparr>)
      (ds_mod x (\<lambda>sp. sp\<lparr>sem_base := map sem_clear (sem_base sp)\<rparr>) ?k1)"
  have k2: "k' = k2"
    using res perm by (simp add: semctl_rmid_def Let_def sem_rval_def k2_def)
  have k': "sema k' = (sema k)[x := ?sp']" "undo_of k' = undo_of ?k1" "semunp k' = semunp ?k1"
    "sem_mark k' = sem_mark k" "sem_err k' = sem_err k"
    using x by (simp_all add: k2 k2_def upd_def)
  have inv1: "sem_inv si ?k1" using inv nsems by (intro semunrm_inv) auto
  have u: "\<forall>p. undo_inv si (undo_of k p)" "links_ok k" using inv by (simp_all add: sem_inv_def undos_ok_def)
  have dead: "\<not> allocated ?p" by (simp add: allocated_def)
  have gone: "un_id e \<noteq> semid" if e: "e \<in> set (undo_of ?k1 p)" for p e
  proof
    assume id: "un_id e = semid"
    from e have e: "e \<in> set (undo_of k p)" "\<not> (0 \<le> un_num e \<and> un_num e \<le> sem_nsems ?sp)"
      using semunrm_effect(1) [OF u, of 0 "sem_nsems ?sp" semid] nsems id by simp_all
    obtain y where y: "live_set k y" "un_id e = sem_id si k y" "un_num e < sem_nsems (sema k ! y)"
      by (rule undos_liveE [OF inv e(1)])
    have "sets_ok si k" "seminfo_ok si" using inv by (simp_all add: sem_inv_def)
    moreover have "sem_id si k y = sem_id si k x" using y(2) id i by argo
    ultimately have "y = x" by (rule sem_id_inj [OF _ _ y(1) live])
    moreover have "0 \<le> un_num e" using undo_inv_num u(1) e(1) by blast
    ultimately show False using e(2) y(3) by simp
  qed
  have inv': "sem_inv si k'"
  proof (rule sem_inv_replace [OF inv1])
    show "x < length (sema ?k1)" "sema k' = (sema ?k1)[x := ?sp']" "undo_of k' = undo_of ?k1"
      "semunp k' = semunp ?k1" using x k' by simp_all
    show "key_table (map sem_perm (sema k')) (sem_mark k')"
      using inv dead by (simp add: k' map_perm_update key_table_dealloc sem_inv_def sets_ok_def)
    show "0 \<le> ip_seq (sem_perm ?sp')" "ip_seq (sem_perm ?sp') < 65536" by (simp_all add: ushort_range)
    have "sem_id si ?k1 x = semid" using i by (simp add: sem_id_def)
    then show "(\<forall>p. \<forall>e \<in> set (undo_of ?k1 p). un_id e \<noteq> sem_id si ?k1 x) \<or>
        allocated (sem_perm ?sp') \<and> ip_seq (sem_perm ?sp') = ip_seq (sem_perm (sema ?k1 ! x))
        \<and> sem_nsems ?sp' = sem_nsems (sema ?k1 ! x)"
      using gone by (intro disjI1 allI ballI) simp
  qed (use dead in simp)
  have live': "live_set k' y \<longleftrightarrow> y \<noteq> x \<and> live_set k y" for y
    using x dead by (cases "y = x") (simp_all add: live_set_def k')
  have at: "y \<noteq> x \<Longrightarrow> sema k' ! y = sema k ! y" for y by (simp add: k')
  have "in_set k' y n = in_set k y n" "sem_at k' y n = sem_at k y n" if "y \<noteq> x" for y n
    using at [OF that] k'(1) by (simp_all add: in_set_def sem_at_def)
  then have "calm k k'"
    unfolding calm_def using live' at by (metis quiet_refl)
  moreover have "\<forall>p. \<forall>e \<in> set (undo_of k' p). un_id e \<noteq> semid" using gone by (simp add: k'(2))
  moreover have "ip_seq (sem_perm (sema k' ! x)) = (ip_seq (sem_perm (sema k ! x)) + 1) mod 65536"
    using x by (simp add: k'(1) ushort_def)
  ultimately show ?thesis using inv' live' at k'(5) by blast
qed

lemma semctl_rmid_ok:
  assumes inv: "sem_inv si k" and live: "live_set k x" and i: "semid = sem_id si k x"
  shows "ctl_ok si k (semctl_rmid v cr semid x k)"
proof (cases "owner_or BYPASS_DAC_WRITE v cr (sem_perm (sema k ! x))")
  case True
  then obtain k' r out where res: "semctl_rmid v cr semid x k = Some (k', r, out)"
    by (simp add: semctl_rmid_def Let_def sem_rval_def)
  with semctl_rmid_effect [OF assms res True] show ?thesis by (auto simp: ctl_ok_def)
next
  case False
  with inv show ?thesis by (simp add: semctl_rmid_def)
qed

lemma calm_same_base:
  assumes "live_set k x" "sema k' = (sema k)[x := sp]" "sem_base sp = sem_base (sema k ! x)"
    "ip_seq (sem_perm sp) = ip_seq (sem_perm (sema k ! x))"
  shows "calm k k'"
proof -
  have x: "x < length (sema k)" using assms(1) by (simp add: live_set_def)
  have "live_set k' y \<Longrightarrow> live_set k y" for y
    using x assms(1,2) by (cases "y = x") (simp_all add: live_set_def)
  moreover have "ip_seq (sem_perm (sema k' ! y)) = ip_seq (sem_perm (sema k ! y))"
    "sem_base (sema k' ! y) = sem_base (sema k ! y)" for y
    using x assms by (cases "y = x"; simp)+
  ultimately show ?thesis using assms(2) by (simp add: calm_def in_set_def sem_at_def)
qed

lemma semctl_set_ok:
  assumes inv: "sem_inv si k" and live: "live_set k x"
  shows "ctl_ok si k (semctl_set v cr now inds x k)"
proof (cases "owner_or SET_OBJ_DAC v cr (sem_perm (sema k ! x)) \<and> inds \<noteq> None")
  case False
  with inv show ?thesis by (auto simp: semctl_set_def)
next
  case True
  then obtain p where p: "inds = Some p" by blast
  let ?sp = "sema k ! x"
  let ?p = "(sem_perm ?sp)\<lparr>ip_uid := ip_uid p, ip_gid := ip_gid p, ip_mode := (ip_mode p AND ACC_BITS) OR IPC_ALLOC\<rparr>"
  let ?sp' = "?sp\<lparr>sem_perm := ?p, sem_ctime := now\<rparr>"
  let ?k = "ds_mod x (\<lambda>sp. sp\<lparr>sem_perm := (sem_perm sp)\<lparr>ip_uid := ip_uid p, ip_gid := ip_gid p,
                 ip_mode := (ip_mode p AND ACC_BITS) OR IPC_ALLOC\<rparr>, sem_ctime := now\<rparr>) k"
  have x: "x < length (sema k)" using live by (simp add: live_set_def)
  have sets: "sets_ok si k" using inv by (simp add: sem_inv_def)
  have k: "sema ?k = (sema k)[x := ?sp']" using x by (simp add: upd_def)
  have al: "allocated ?p" by (simp add: allocated_iff bit_simps)
  have "sem_inv si ?k"
  proof (rule sem_inv_replace [OF inv x k])
    show "key_table (map sem_perm (sema ?k)) (sem_mark ?k)"
      unfolding k map_perm_update using sets x live
      by (simp add: key_table_same_key sets_ok_def live_set_def)
    show "0 \<le> ip_seq (sem_perm ?sp')" "ip_seq (sem_perm ?sp') < 65536"
      using sets x by (simp_all add: sets_ok_def)
    show "int (length (sem_base ?sp')) = sem_nsems ?sp' \<and> 0 < sem_nsems ?sp' \<and> sem_nsems ?sp' \<le> semmsl si
        \<and> (\<forall>s \<in> set (sem_base ?sp'). val_ok si s)"
      using inv live by (auto simp: sem_inv_def sets_ok_def vals_ok_def in_set_def sem_at_def in_set_conv_nth live_set_def)
  qed (use al in simp_all)
  moreover have "calm k ?k"
    by (rule calm_same_base [OF live k]) simp_all
  ultimately show ?thesis using True p by (simp add: semctl_set_def ctl_okI)
qed

lemma semctl_stat_ok: "sem_inv si k \<Longrightarrow> ctl_ok si k (semctl_stat v cr c x k)"
  by (simp add: semctl_stat_def ctl_okI split: option.splits)

lemma semctl_get_ok: "sem_inv si k \<Longrightarrow> 0 \<le> semnum \<Longrightarrow> ctl_ok si k (semctl_get field v cr semnum x k)"
  by (simp add: semctl_get_def ctl_okI split: option.splits)

lemma semctl_getall_ok: "sem_inv si k \<Longrightarrow> ctl_ok si k (semctl_getall v cr c x k)"
  by (simp add: semctl_getall_def ctl_okI split: option.splits)


text \<open>
  A successful \<open>SETVAL\<close> stores the value and clears every process's adjustment of that
  semaphore.
\<close>

lemma semctl_setval_effect:
  assumes inv: "sem_inv si k" and live: "live_set k x" and i: "semid = sem_id si k x"
    and num: "0 \<le> semnum" "semnum < sem_nsems (sema k ! x)" and arg: "0 \<le> arg" "arg \<le> semvmx si"
    and perm: "ipcaccess v cr (sem_perm (sema k ! x)) IPC_W = None"
    and res: "semctl_setval si v cr c semid semnum arg x k = Some (k', r, out)"
  shows "sem_inv si k' \<and> calm k k' \<and> shape k' = shape k \<and> sem_err k' = sem_err k
    \<and> semval (sem_at k' x (nat semnum)) = arg \<and> sempid (sem_at k' x (nat semnum)) = c_pid c
    \<and> (\<forall>y n. in_set k y n \<longrightarrow> (y, n) \<noteq> (x, nat semnum) \<longrightarrow> sem_at k' y n = sem_at k y n)
    \<and> (\<forall>p. undo_of k' p = filter (\<lambda>e. undo_key e \<noteq> (semid, semnum)) (undo_of k p))"
proof -
  let ?n = "nat semnum" and ?f = "\<lambda>s. (sem_store arg s)\<lparr>sempid := c_pid c\<rparr>"
  let ?k1 = "sem_mod x ?n ?f k"
  have ok: "semvmx si \<le> 32767" using inv by (simp add: sem_inv_def seminfo_ok_def)
  have range: "arg < 65536" "semnum < 65536" using arg ok num live_nsems [OF inv live] by simp_all
  have m: "in_set k x ?n" using num live live_nsems [OF inv live] by (simp add: in_set_def live_set_def)
  have k': "k' = semunrm semid semnum semnum ?k1"
    using res num arg perm ok by (auto simp: semctl_setval_def sem_rval_def Let_def)
  note st = quiet_store [OF arg(1) range(1) live_val(1) [OF inv live m]]
  have at: "sem_at ?k1 y n = (if (y, n) = (x, ?n) then ?f (sem_at k x ?n) else sem_at k y n)" if "in_set k y n" for y n
    using that by (auto simp: sem_at_mod)
  have "sem_inv si ?k1"
  proof -
    have "vals_ok si ?k1"
      using inv st(2) arg by (intro vals_ok_mod) (simp_all add: sem_inv_def val_ok_def)
    moreover have sh: "shape ?k1 = shape k" by simp
    ultimately show ?thesis
      using inv sets_ok_shape [OF sh] undos_ok_shape [OF sh] by (simp add: sem_inv_def links_ok_def)
  qed
  then have inv1: "sem_inv si k'" unfolding k' using num range by (intro semunrm_inv) auto
  have "quiet (sem_at k y n) (sem_at k' y n)" if "in_set k y n" for y n
    using at [OF that] st(1) by (simp add: k')
  then have "calm k k'" by (intro calm_shapeI) (simp_all add: k')
  moreover have "undo_of k' p = filter (\<lambda>e. undo_key e \<noteq> (semid, semnum)) (undo_of k p)" for p
  proof -
    have u: "\<forall>p. undo_inv si (undo_of ?k1 p)" "links_ok ?k1"
      using \<open>sem_inv si ?k1\<close> by (simp_all add: sem_inv_def undos_ok_def)
    have "(\<lambda>e. \<not> (un_id e = semid \<and> semnum \<le> un_num e \<and> un_num e \<le> semnum)) =
        (\<lambda>e. undo_key e \<noteq> (semid, semnum))"
      by (auto simp: undo_key_def)
    then show ?thesis
      using semunrm_effect(1) [OF u num(1) range(2) num(1) range(2), of semid] by (simp add: k')
  qed
  ultimately show ?thesis using inv1 at m st(2) by (simp add: k')
qed

lemma semctl_setval_ok:
  assumes inv: "sem_inv si k" and live: "live_set k x" and i: "semid = sem_id si k x" and num: "0 \<le> semnum"
    and arg: "- (2 ^ 31) \<le> arg" "arg < 2 ^ 31"
  shows "ctl_ok si k (semctl_setval si v cr c semid semnum arg x k)"
proof (cases "ipcaccess v cr (sem_perm (sema k ! x)) IPC_W = None \<and> semnum < sem_nsems (sema k ! x)
    \<and> arg mod 2 ^ 32 \<le> semvmx si")
  case False
  with inv show ?thesis by (auto simp: semctl_setval_def split: option.splits)
next
  case True
  have vmx: "semvmx si \<le> 32767" using inv by (simp add: sem_inv_def seminfo_ok_def)
  have "0 \<le> arg"
  proof (rule ccontr)
    assume "\<not> 0 \<le> arg"
    then have "(arg + 2 ^ 32) mod 2 ^ 32 = arg + 2 ^ 32" using arg by (intro mod_pos_pos_trivial) auto
    then have "arg mod 2 ^ 32 = arg + 2 ^ 32" by simp
    with True vmx arg show False by simp
  qed
  moreover from this have "arg mod 2 ^ 32 = arg" using arg by (intro mod_pos_pos_trivial) auto
  ultimately have a: "0 \<le> arg" "arg \<le> semvmx si" using True by simp_all
  obtain k' r out where res: "semctl_setval si v cr c semid semnum arg x k = Some (k', r, out)"
    using True num by (simp add: semctl_setval_def sem_rval_def Let_def)
  from semctl_setval_effect [OF inv live i num _ a _ res] True res show ?thesis by (auto simp: ctl_ok_def)
qed

lemma semctl_setall_ok:
  assumes inv: "sem_inv si k" and live: "live_set k x" and i: "semid = sem_id si k x"
    and arr: "\<forall>a \<in> set inarr. - 32768 \<le> a \<and> a < 32768"
  shows "ctl_ok si k (semctl_setall si v cr c semid inarr x k)"
proof -
  let ?sp = "sema k ! x" and ?arr = "take (nat (sem_nsems (sema k ! x))) inarr"
  have x: "x < length (sema k)" using live by (simp add: live_set_def)
  show ?thesis
  proof (cases "ipcaccess v cr (sem_perm ?sp) IPC_W = None \<and> mem_ok c
      \<and> sem_nsems ?sp \<le> int (length inarr) \<and> \<not> list_ex (\<lambda>a. a mod 2 ^ 32 > semvmx si) ?arr")
    case False
    with inv show ?thesis by (auto simp: semctl_setall_def Let_def split: option.splits)
  next
    case True
    have vmx: "semvmx si \<le> 32767" using inv by (simp add: sem_inv_def seminfo_ok_def)
    have val: "0 \<le> a \<and> a \<le> semvmx si" if a: "a \<in> set ?arr" for a
    proof -
      have s: "- 32768 \<le> a" "a < 32768" "a mod 2 ^ 32 \<le> semvmx si"
        using a arr True set_take_subset [of _ inarr] by (auto simp: list_ex_iff not_less)
      have "0 \<le> a"
      proof (rule ccontr)
        assume "\<not> 0 \<le> a"
        then have "(a + 2 ^ 32) mod 2 ^ 32 = a + 2 ^ 32" using s by (intro mod_pos_pos_trivial) auto
        then have "a mod 2 ^ 32 = a + 2 ^ 32" by simp
        with s vmx show False by simp
      qed
      moreover from this have "a mod 2 ^ 32 = a" using s by (intro mod_pos_pos_trivial) auto
      ultimately show ?thesis using s by simp
    qed
    let ?k1 = "semunrm semid 0 (sem_nsems ?sp) k"
    let ?base = "map2 (\<lambda>a s. (sem_store a s)\<lparr>sempid := c_pid c\<rparr>) ?arr (sem_base ?sp)"
    let ?sp' = "?sp\<lparr>sem_base := ?base\<rparr>"
    define k' where "k' = ds_mod x (\<lambda>sp. sp\<lparr>sem_base :=
        map2 (\<lambda>a s. (sem_store a s)\<lparr>sempid := c_pid c\<rparr>) ?arr (sem_base sp)\<rparr>) ?k1"
    have k': "sema k' = (sema ?k1)[x := ?sp']" "undo_of k' = undo_of ?k1" "semunp k' = semunp ?k1"
      "sem_mark k' = sem_mark k"
      using x by (simp_all add: k'_def upd_def)
    have res: "semctl_setall si v cr c semid inarr x k = sem_rval k' 0 NoOut"
      using True by (simp add: semctl_setall_def Let_def k'_def)
    note ns = live_nsems [OF inv live]
    have len: "length ?base = length (sem_base ?sp)" using True ns(3) by auto
    have alen: "length ?arr = length (sem_base ?sp)" using True ns(3) by auto
    have nth: "?base ! n = (sem_store (?arr ! n) (sem_base ?sp ! n))\<lparr>sempid := c_pid c\<rparr>"
      if "n < length (sem_base ?sp)" for n
      using that alen by (simp del: nth_take length_take)
    have arr_n: "?arr ! n \<in> set ?arr" if "n < length (sem_base ?sp)" for n
      using that alen by (intro nth_mem) simp
    have st: "quiet (sem_base ?sp ! n) (?base ! n) \<and> val_ok si (?base ! n)" if n: "n < length (sem_base ?sp)" for n
    proof -
      have "0 \<le> semval (sem_base ?sp ! n)"
        using live_val(1) [OF inv live, of n] n x by (simp add: in_set_def sem_at_def)
      with quiet_store [of "?arr ! n" "sem_base ?sp ! n"] val [OF arr_n [OF n]] vmx
      show ?thesis by (simp add: nth [OF n] val_ok_def)
    qed
    have inv1: "sem_inv si ?k1" using inv ns by (intro semunrm_inv) auto
    have "sem_inv si k'"
    proof (rule sem_inv_replace [OF inv1 _ k'(1-3)])
      show "x < length (sema ?k1)" using x by simp
      have "map sem_perm (sema k') = map sem_perm (sema k)"
        using x by (simp add: k' list_eq_iff_nth_eq nth_list_update)
      then show "key_table (map sem_perm (sema k')) (sem_mark k')"
        using inv by (simp add: k'(4) sem_inv_def sets_ok_def)
      show "0 \<le> ip_seq (sem_perm ?sp')" "ip_seq (sem_perm ?sp') < 65536"
        using inv x by (simp_all add: sem_inv_def sets_ok_def)
      show "int (length (sem_base ?sp')) = sem_nsems ?sp' \<and> 0 < sem_nsems ?sp' \<and> sem_nsems ?sp' \<le> semmsl si
          \<and> (\<forall>s \<in> set (sem_base ?sp'). val_ok si s)"
      proof (intro conjI ballI)
        fix s assume "s \<in> set (sem_base ?sp')"
        then have "s \<in> set ?base" by simp
        then obtain n where n: "n < length ?base" "s = ?base ! n" unfolding in_set_conv_nth by blast
        with st [of n] len show "val_ok si s" by simp
      qed (use inv live len in \<open>simp_all add: sem_inv_def sets_ok_def\<close>)
    qed (use live in \<open>simp_all add: live_set_def\<close>)
    moreover have "calm k k'"
    proof (rule calm_shapeI)
      show "shape k' = shape k"
        using x len by (simp add: shape_def k' list_eq_iff_nth_eq nth_list_update)
      fix y n assume "in_set k y n"
      then show "quiet (sem_at k y n) (sem_at k' y n)"
        using st [of n] x by (cases "y = x") (simp_all add: sem_at_def k' in_set_def)
    qed
    ultimately show ?thesis unfolding res by (rule ctl_okI)
  qed
qed

end
