(* ===== verification/SemCalls.thy ===== *)
theory SemCalls
  imports SemInv
begin

text \<open>
  The remaining calls of the semaphore facility keep the invariant of theory \<open>SemInv\<close>
  and disturb no waiter: \<open>semctl\<close> with all its commands, \<open>semexit\<close> with the values it
  leaves behind, and \<open>semget\<close>.
\<close>

unbundle bit_operations_syntax

section \<open>The dispatch of semctl\<close>

lemma semctl_ok:
  assumes inv: "sem_inv si k" and id: "- (2 ^ 31) \<le> semid" "semid < 2 ^ 31" and num: "0 \<le> semnum"
    and arg: "case arg of ArgInt a \<Rightarrow> - (2 ^ 31) \<le> a \<and> a < 2 ^ 31 | ArgDs d \<Rightarrow> True
      | ArgArr as \<Rightarrow> \<forall>a \<in> set as. - 32768 \<le> a \<and> a < 32768"
  shows "ctl_ok si k (semctl si v cr c now semid semnum cmd arg k)"
proof (cases "semconv si semid k")
  case None
  with inv show ?thesis by (simp add: semctl_def)
next
  case (Some x)
  have "sets_ok si k" "seminfo_ok si" using inv by (simp_all add: sem_inv_def)
  from semconv_Some [OF this id Some] have live: "live_set k x" and i: "semid = sem_id si k x" by simp_all
  have "ctl_ok si k (semctl_setval si v cr c semid semnum (case arg of ArgInt a \<Rightarrow> a | _ \<Rightarrow> 0) x k)"
    using arg by (intro semctl_setval_ok [OF inv live i num]) (auto split: semarg.splits)
  moreover have "ctl_ok si k (semctl_setall si v cr c semid (case arg of ArgArr a \<Rightarrow> a | _ \<Rightarrow> []) x k)"
    using arg by (intro semctl_setall_ok [OF inv live i]) (auto split: semarg.splits)
  ultimately show ?thesis
    using inv
    by (simp add: semctl_def Some semctl_getncnt_def semctl_getpid_def semctl_getval_def semctl_getzcnt_def
        semctl_rmid_ok [OF inv live i] semctl_set_ok [OF inv live] semctl_stat_ok [OF inv]
        semctl_get_ok [OF inv num] semctl_getall_ok [OF inv])
qed

section \<open>semexit\<close>

text \<open>The value a semaphore gets when adjustment \<open>a\<close> is applied to it.\<close>

definition adjusted :: "seminfo \<Rightarrow> int \<Rightarrow> int \<Rightarrow> int" where
  "adjusted si val a = (if 0 \<le> val + a \<and> val + a \<le> semvmx si then val + a else val)"

lemma semexit_entry_effect:
  assumes inv: "seminfo_ok si" "sets_ok si k" "vals_ok si k"
    and live: "live_set k x" "un_id e = sem_id si k x" "0 \<le> un_num e" "un_num e < sem_nsems (sema k ! x)"
  shows "\<exists>k'. semexit_entry si e k = Some k' \<and> shape k' = shape k \<and> undo_of k' = undo_of k
    \<and> semunp k' = semunp k \<and> U_semundo k' = U_semundo k \<and> sem_err k' = sem_err k
    \<and> (\<forall>y n. in_set k y n \<longrightarrow>
         val_ok si (sem_at k y n) \<longrightarrow> val_ok si (sem_at k' y n) \<and> quiet (sem_at k y n) (sem_at k' y n)
           \<and> semval (sem_at k' y n) = (if (y, n) = (x, nat (un_num e))
               then adjusted si (semval (sem_at k y n)) (un_aoe e) else semval (sem_at k y n)))"
proof -
  let ?n = "nat (un_num e)" and ?s = "sem_at k x (nat (un_num e))"
  have conv: "semconv si (un_id e) k = Some x" using semconv_id [OF inv(2,1) live(1)] live(2) by simp
  have len: "?n < length (sem_base (sema k ! x))" using inv(2) live by (auto simp: sets_ok_def)
  then have m: "in_set k x ?n" using live(1) by (simp add: in_set_def live_set_def)
  have v: "0 \<le> semval ?s" "semval ?s \<le> semvmx si" "semvmx si \<le> 32767"
    using inv live(1) m by (auto simp: vals_ok_def val_ok_def seminfo_ok_def)
  let ?v = "semval ?s + un_aoe e"
  let ?f = "\<lambda>s. let s = s\<lparr>semval := ushort ?v\<rparr>; s = (if ?v = 0 then z_wakeup s else s)
       in if un_aoe e > 0 then n_wakeup s else s"
  show ?thesis
  proof (cases "?v < 0 \<or> ?v > semvmx si")
    case True
    then show ?thesis using conv len by (auto simp: semexit_entry_def Let_def adjusted_def)
  next
    case False
    then have a: "adjusted si (semval ?s) (un_aoe e) = ?v" "ushort ?v = ?v"
      using v by (simp_all add: adjusted_def kwrap)
    have f: "semval (?f ?s) = ?v" "val_ok si (?f ?s)" "quiet ?s (?f ?s)"
      using False a(2) v by (auto simp: Let_def z_wakeup_def n_wakeup_def val_ok_def quiet_def)
    have "semexit_entry si e k = Some (sem_mod x ?n ?f k)"
      using False conv len by (simp add: semexit_entry_def Let_def)
    moreover have "in_set k y n \<longrightarrow> val_ok si (sem_at k y n) \<longrightarrow>
        val_ok si (sem_at (sem_mod x ?n ?f k) y n) \<and> quiet (sem_at k y n) (sem_at (sem_mod x ?n ?f k) y n)
        \<and> semval (sem_at (sem_mod x ?n ?f k) y n) = (if (y, n) = (x, ?n)
            then adjusted si (semval (sem_at k y n)) (un_aoe e) else semval (sem_at k y n))" for y n
      using f a(1) by (cases "y = x \<and> n = ?n") (auto simp only: sem_at_mod quiet_refl prod.inject if_True if_False simp_thms)
    ultimately show ?thesis by (intro exI [of _ "sem_mod x ?n ?f k"]) simp
  qed
qed

lemma quiet_trans:
  assumes "quiet s0 s1" "quiet s1 s2"
  shows "quiet s0 s2"
  using assms unfolding quiet_def by (elim conjE disjE) auto

lemma adj_of_Cons: "adj_of (e # es) k = (if undo_key e = k then un_aoe e else adj_of es k)"
  by (simp add: adj_of_def)

lemma adj_of_notin: "k \<notin> undo_key ` set es \<Longrightarrow> adj_of es k = 0"
  by (induction es) (auto simp: adj_of_Cons adj_of_def)

lemma adj_of_rev:
  assumes "distinct (map undo_key es)"
  shows "adj_of (rev es) k = adj_of es k"
proof -
  have "adj_of xs k = (\<Sum>e\<leftarrow>xs. if undo_key e = k then un_aoe e else 0)" if "distinct (map undo_key xs)" for xs
    using that
  proof (induction xs)
    case (Cons e xs)
    then have "undo_key e = k \<Longrightarrow> (\<Sum>e\<leftarrow>xs. if undo_key e = k then un_aoe e else 0) = 0"
      using adj_of_notin [of k xs] by auto
    with Cons show ?case by (simp add: adj_of_Cons)
  qed (simp add: adj_of_def)
  from this [of es] this [of "rev es"] assms show ?thesis
    by (simp add: rev_map [symmetric] sum_list_rev)
qed

lemma undo_inv_distinct: "undo_inv si es \<Longrightarrow> distinct (map undo_key es)"
proof -
  assume "undo_inv si es"
  then have "sorted_wrt key_less es" by (simp add: undo_inv_def)
  then show ?thesis
    by (induction es) (auto simp: key_less_def aoe_before_def undo_key_def)
qed

lemma adjusted_zero [simp]: "adjusted si w 0 = w"
  by (simp add: adjusted_def)

definition entry_ok :: "seminfo \<Rightarrow> semsys \<Rightarrow> undo \<Rightarrow> bool" where
  "entry_ok si k e \<longleftrightarrow> 0 \<le> un_num e \<and> undo_live si k e"

lemma semexit_loop_effect:
  assumes ok: "seminfo_ok si" and inv: "sets_ok si k" "vals_ok si k"
    and es: "\<forall>e \<in> set es. entry_ok si k e" "distinct (map undo_key es)"
  shows "\<exists>k'. semexit_loop si es k = Some k' \<and> shape k' = shape k \<and> undo_of k' = undo_of k
    \<and> semunp k' = semunp k \<and> U_semundo k' = U_semundo k \<and> sem_err k' = sem_err k \<and> vals_ok si k'
    \<and> (\<forall>y n. live_set k y \<longrightarrow> in_set k y n \<longrightarrow> quiet (sem_at k y n) (sem_at k' y n)
         \<and> semval (sem_at k' y n) = adjusted si (semval (sem_at k y n)) (adj_of es (sem_id si k y, int n)))"
  using inv es
proof (induction es arbitrary: k)
  case Nil
  then show ?case by (simp add: adj_of_def)
next
  case (Cons e es)
  obtain x where x: "live_set k x" "un_id e = sem_id si k x" "0 \<le> un_num e" "un_num e < sem_nsems (sema k ! x)"
    using Cons.prems(3) unfolding entry_ok_def undo_live_def by (metis list.set_intros(1))
  from semexit_entry_effect [OF ok Cons.prems(1,2) x] obtain k1 where k1:
    "semexit_entry si e k = Some k1" "shape k1 = shape k" "undo_of k1 = undo_of k"
    "semunp k1 = semunp k" "U_semundo k1 = U_semundo k" "sem_err k1 = sem_err k"
    and at1: "\<And>y n. in_set k y n \<Longrightarrow> val_ok si (sem_at k y n) \<Longrightarrow>
        val_ok si (sem_at k1 y n) \<and> quiet (sem_at k y n) (sem_at k1 y n)
           \<and> semval (sem_at k1 y n) = (if (y, n) = (x, nat (un_num e))
               then adjusted si (semval (sem_at k y n)) (un_aoe e) else semval (sem_at k y n))"
    by blast
  have live: "live_set k1 y = live_set k y" and ins: "in_set k1 y n = in_set k y n" for y n
    using live_set_shape [OF k1(2)] shapeD(7) [OF k1(2)] by simp_all
  have sid: "live_set k y \<Longrightarrow> sem_id si k1 y = sem_id si k y" for y
    using shapeD(3) [OF k1(2) [symmetric]] by (simp add: sem_id_def live_set_def)
  have vals1: "vals_ok si k1"
  proof (rule vals_okI)
    fix y n assume "live_set k1 y" "in_set k1 y n"
    then have l: "live_set k y" "in_set k y n" by (simp_all add: live ins)
    then have "val_ok si (sem_at k y n)" using Cons.prems(2) by (simp add: vals_ok_def)
    with at1 l show "val_ok si (sem_at k1 y n)" by blast
  qed
  have sets1: "sets_ok si k1" using Cons.prems(1) sets_ok_shape [OF k1(2)] by simp
  have es1: "\<forall>e \<in> set es. entry_ok si k1 e" "distinct (map undo_key es)"
    using Cons.prems(3,4) by (simp_all add: entry_ok_def undo_live_shape [OF k1(2)])
  from Cons.IH [OF sets1 vals1 es1] obtain k2 where k2:
    "semexit_loop si es k1 = Some k2" "shape k2 = shape k1" "undo_of k2 = undo_of k1"
    "semunp k2 = semunp k1" "U_semundo k2 = U_semundo k1" "sem_err k2 = sem_err k1" "vals_ok si k2"
    and at2: "\<And>y n. live_set k1 y \<Longrightarrow> in_set k1 y n \<Longrightarrow> quiet (sem_at k1 y n) (sem_at k2 y n)
         \<and> semval (sem_at k2 y n) = adjusted si (semval (sem_at k1 y n)) (adj_of es (sem_id si k1 y, int n))"
    by blast
  have "quiet (sem_at k y n) (sem_at k2 y n)
      \<and> semval (sem_at k2 y n) = adjusted si (semval (sem_at k y n)) (adj_of (e # es) (sem_id si k y, int n))"
    if l: "live_set k y" "in_set k y n" for y n
  proof -
    have v: "val_ok si (sem_at k y n)" using Cons.prems(2) l by (simp add: vals_ok_def)
    note a1 = at1 [OF l(2) v]
    note a2 = at2 [OF iffD2 [OF live l(1)] iffD2 [OF ins l(2)]]
    have q: "quiet (sem_at k y n) (sem_at k2 y n)" using quiet_trans a1 a2 by blast
    have keys: "undo_key e = (sem_id si k y, int n) \<longleftrightarrow> (y, n) = (x, nat (un_num e))"
    proof
      assume "undo_key e = (sem_id si k y, int n)"
      then have "sem_id si k y = sem_id si k x" "un_num e = int n" using x(2) by (simp_all add: undo_key_def)
      then show "(y, n) = (x, nat (un_num e))"
        using sem_id_inj [OF Cons.prems(1) ok l(1) x(1)] by (simp only: nat_int)
    next
      assume "(y, n) = (x, nat (un_num e))"
      then show "undo_key e = (sem_id si k y, int n)" using x(2,3) by (simp add: undo_key_def)
    qed
    show ?thesis
    proof (cases "(y, n) = (x, nat (un_num e))")
      case True
      then have "undo_key e = (sem_id si k y, int n)" using keys by simp
      then have "(sem_id si k y, int n) \<notin> undo_key ` set es" using Cons.prems(4) by auto
      then have "adj_of es (sem_id si k1 y, int n) = 0" using adj_of_notin sid [OF l(1)] by simp
      then have "semval (sem_at k2 y n) = adjusted si (semval (sem_at k y n)) (un_aoe e)"
        using a1 a2 True by (simp only: adjusted_zero if_True refl)
      then show ?thesis using q True keys by (simp only: adj_of_Cons if_True refl simp_thms)
    next
      case False
      then have "semval (sem_at k2 y n) = adjusted si (semval (sem_at k y n)) (adj_of es (sem_id si k y, int n))"
        using a1 a2 sid [OF l(1)] by (simp only: if_False)
      then show ?thesis using q False keys by (simp only: adj_of_Cons if_False simp_thms)
    qed
  qed
  moreover have "semexit_loop si (e # es) k = Some k2" "shape k2 = shape k" "undo_of k2 = undo_of k"
    "semunp k2 = semunp k" "U_semundo k2 = U_semundo k" "sem_err k2 = sem_err k"
    using k1 k2(1-6) by simp_all
  ultimately show ?case using k2(7) by blast
qed

text \<open>
  On exit every adjustment is applied once, those that would take a value out of range are
  dropped, and the process owns no adjustment any more.
\<close>

lemma semexit_effect:
  assumes inv: "sem_inv si k"
  shows "\<exists>k'. semexit si me k = Some k' \<and> sem_inv si k' \<and> calm k k' \<and> shape k' = shape k
    \<and> undo_of k' = (undo_of k)(me := [])
    \<and> (\<forall>y n. live_set k y \<longrightarrow> in_set k y n \<longrightarrow>
         semval (sem_at k' y n) = adjusted si (semval (sem_at k y n)) (adj_of (undo_of k me) (sem_id si k y, int n)))"
proof (cases "U_semundo k me")
  case None
  then have u: "undo_of k me = []" by (simp add: undo_of_def)
  have "adjusted si w 0 = w" for w by (simp add: adjusted_def)
  then show ?thesis using None inv by (auto simp: semexit_def u adj_of_def)
next
  case (Some es)
  then have u: "undo_of k me = es" by (simp add: undo_of_def)
  let ?k1 = "if es = [] then k else k\<lparr>semunp := remove1 me (semunp k)\<rparr>"
  have ok: "seminfo_ok si" "sets_ok si k" "vals_ok si k" "links_ok k" "undos_ok si k"
    using inv by (simp_all add: sem_inv_def)
  have k1: "sema ?k1 = sema k" "sem_mark ?k1 = sem_mark k" "U_semundo ?k1 = U_semundo k" by simp_all
  then have f1: "shape ?k1 = shape k" "sem_at ?k1 = sem_at k" "undo_of ?k1 = undo_of k" "in_set ?k1 = in_set k"
    by (simp_all add: shape_def sem_at_def undo_of_def in_set_def fun_eq_iff)
  have live1: "live_set ?k1 y = live_set k y" "sem_id si ?k1 y = sem_id si k y" for y
    by (simp_all add: live_set_def sem_id_def)
  have sets1: "sets_ok si ?k1" using ok(2) sets_ok_shape [OF f1(1)] by simp
  have vals1: "vals_ok si ?k1" using ok(3) by (simp add: vals_ok_def live1 f1)
  have uinv: "undo_inv si es" "\<forall>e \<in> set es. undo_live si k e" using ok(5) u by (auto simp: undos_ok_def)
  have es: "\<forall>e \<in> set (rev es). entry_ok si ?k1 e" "distinct (map undo_key (rev es))"
    using uinv undo_inv_num [OF uinv(1)] undo_inv_distinct [OF uinv(1)]
    by (simp_all add: entry_ok_def undo_live_shape [OF f1(1)] rev_map [symmetric])
  from semexit_loop_effect [OF ok(1) sets1 vals1 es] obtain k2 where k2:
    "semexit_loop si (rev es) ?k1 = Some k2" "shape k2 = shape ?k1" "undo_of k2 = undo_of ?k1"
    "semunp k2 = semunp ?k1" "vals_ok si k2"
    and at2: "\<And>y n. live_set k y \<Longrightarrow> in_set k y n \<Longrightarrow> quiet (sem_at k y n) (sem_at k2 y n)
         \<and> semval (sem_at k2 y n) = adjusted si (semval (sem_at k y n)) (adj_of (rev es) (sem_id si k y, int n))"
    unfolding live1 f1 by blast
  let ?k3 = "k2\<lparr>U_semundo := (U_semundo k2)(me := None)\<rparr>"
  have res: "semexit si me k = Some ?k3" using Some k2(1) by (simp add: semexit_def Let_def)
  have shape3: "shape ?k3 = shape k" using k2(2) f1(1) by (simp add: shape_def)
  have undo3: "undo_of ?k3 = (undo_of k)(me := [])"
    using k2(3) f1(3) by (auto simp: undo_of_def fun_eq_iff split: option.splits)
  have at3: "sem_at ?k3 = sem_at k2" "in_set ?k3 = in_set k2" "live_set ?k3 = live_set k2"
    by (simp_all add: sem_at_def in_set_def live_set_def fun_eq_iff)
  have "links_ok ?k3"
    using ok(4) k2(4) unfolding links_ok_def undo3 by (auto simp: u)
  moreover have "undos_ok si ?k3"
    using ok(5) ok(1) by (simp add: undos_ok_def undo3 undo_live_shape [OF shape3] undo_inv_def seminfo_ok_def)
  moreover have "vals_ok si ?k3" using k2(5) by (simp add: vals_ok_def at3)
  ultimately have "sem_inv si ?k3" using ok sets_ok_shape [OF shape3] by (simp add: sem_inv_def)
  moreover have "calm k ?k3" using at2 by (intro calm_shapeI [OF shape3]) (simp add: at3)
  ultimately show ?thesis
    using res shape3 undo3 at2 at3 adj_of_rev [OF undo_inv_distinct [OF uinv(1)]] u by simp
qed

section \<open>semget\<close>

definition get_ok :: "seminfo \<Rightarrow> semsys \<Rightarrow> (semsys \<times> int) option \<Rightarrow> bool" where
  "get_ok si k res \<longleftrightarrow> (\<exists>k' r. res = Some (k', r) \<and> sem_inv si k' \<and> calm k k')"

lemma get_okI: "sem_inv si k' \<Longrightarrow> calm k k' \<Longrightarrow> get_ok si k (sem_ret k' r)"
  by (simp add: get_ok_def sem_ret_def)

lemma not_live_id:
  assumes inv: "sem_inv si k" and x: "x < length (sema k)" "\<not> live_set k x"
    and sq: "0 \<le> ip_seq (sem_perm (sema k ! x))"
  shows "\<forall>p. \<forall>e \<in> set (undo_of k p). un_id e \<noteq> sem_id si k x"
proof (intro allI ballI notI)
  fix p e assume e: "e \<in> set (undo_of k p)" "un_id e = sem_id si k x"
  obtain y where y: "live_set k y" "un_id e = sem_id si k y" by (rule undos_liveE [OF inv e(1)])
  have b: "int x < semmni si" "int y < semmni si" "0 < semmni si"
    using inv x y(1) by (auto simp: sem_inv_def sets_ok_def live_set_def)
  have "sem_id si k x mod semmni si = int x" "sem_id si k y mod semmni si = int y"
    using b by (simp_all add: sem_id_def)
  with e(2) y(2) have "x = y" by simp
  with x y show False by simp
qed

lemma semget_ok:
  assumes inv: "sem_inv si k"
  shows "get_ok si k (semget si cr c now key nsems semflg k)"
proof -
  let ?perms = "map sem_perm (sema k)"
  have tab: "key_table ?perms (sem_mark k)" and ok: "seminfo_ok si" using inv by (simp_all add: sem_inv_def sets_ok_def)
  show ?thesis
  proof (cases "ipcget cr key semflg ?perms (sem_mark k)")
    case (IGErr e)
    with inv show ?thesis by (simp add: semget_def get_okI)
  next
    case IGWild
    with ipcget_no_wild [OF tab] show ?thesis by blast
  next
    case (IGOk x s p m)
    note out = ipcget_handed_out [OF tab IGOk]
    have x: "x < length (sema k)" using out by (simp add: handed_out_def)
    have sq: "ip_seq p = ip_seq (sem_perm (sema k ! x))" using ipcget_seq [OF IGOk] x by simp
    have sqr: "0 \<le> ip_seq p" "ip_seq p < 65536" using inv x sq by (simp_all add: sem_inv_def sets_ok_def)
    show ?thesis
    proof (cases "s = 0")
      case True
      with out x have p: "p = sem_perm (sema k ! x)" "m = sem_mark k" unfolding handed_out_def by auto
      have "(ds_mod x (\<lambda>sp. sp\<lparr>sem_perm := p\<rparr>) k)\<lparr>sem_mark := m\<rparr> = k"
        using x p by (simp add: ds_mod_def upd_def list_update_same_conv)
      with inv True show ?thesis
        by (simp add: semget_def IGOk Let_def get_okI)
    next
      case False
      from out False x have new: "\<not> live_set k x" "allocated p" "s = 1"
        by (auto simp: handed_out_def live_set_def split: if_splits)
      have tab': "key_table (?perms[x := p]) m" using ipcget_table [OF tab IGOk] by simp
      have gone: "\<forall>q. \<forall>e \<in> set (undo_of k q). un_id e \<noteq> sem_id si k x"
        using not_live_id [OF inv x new(1)] sqr sq by simp
      have fin: "sem_inv si k' \<and> calm k k'"
        if k': "sema k' = (sema k)[x := sp]" "undo_of k' = undo_of k" "semunp k' = semunp k" "sem_mark k' = m"
          and seqs: "ip_seq (sem_perm sp) = ip_seq p"
          and sp: "\<not> allocated (sem_perm sp) \<or> sem_perm sp = p \<and> int (length (sem_base sp)) = sem_nsems sp
             \<and> 0 < sem_nsems sp \<and> sem_nsems sp \<le> semmsl si \<and> (\<forall>s \<in> set (sem_base sp). s = sem_zero)" for k' sp
      proof
        have zero: "val_ok si sem_zero" using ok by (simp add: val_ok_def sem_zero_def seminfo_ok_def)
        have tab2: "key_table (map sem_perm (sema k')) (sem_mark k')"
        proof (cases "allocated (sem_perm sp)")
          case True
          with sp tab' show ?thesis by (simp add: k'(1,4) map_perm_update)
        next
          case False
          with key_table_dealloc [OF tab', of "sem_perm sp" x] show ?thesis by (simp add: k'(1,4) map_perm_update)
        qed
        show "sem_inv si k'"
          by (rule sem_inv_replace [OF inv x k'(1-3) tab2])
            (use sqr seqs sp gone zero in auto)
        show "calm k k'"
        proof -
          have same: "y \<noteq> x \<Longrightarrow> sema k' ! y = sema k ! y" for y by (simp add: k'(1))
          then have "y \<noteq> x \<Longrightarrow> live_set k' y = live_set k y \<and> in_set k' y n = in_set k y n
              \<and> sem_at k' y n = sem_at k y n" for y n
            using k'(1) by (simp add: live_set_def in_set_def sem_at_def)
          moreover have "live_set k' x \<Longrightarrow> in_set k' x n \<Longrightarrow> sem_at k' x n = sem_zero" for n
            using sp x by (auto simp: live_set_def in_set_def sem_at_def k'(1))
          ultimately show ?thesis unfolding calm_def
            using same by (metis quiet_refl sem.select_convs(3,4,5,6) sem_zero_def)
        qed
      qed
      let ?k = "(ds_mod x (\<lambda>sp. sp\<lparr>sem_perm := p\<rparr>) k)\<lparr>sem_mark := m\<rparr>"
      let ?drop = "ds_mod x (\<lambda>sp. sp\<lparr>sem_perm := (sem_perm sp)\<lparr>ip_mode := 0\<rparr>\<rparr>) ?k"
      let ?new = "ds_mod x (\<lambda>sp. sp\<lparr>sem_base := replicate (nat nsems) sem_zero,
                    sem_nsems := ushort nsems, sem_ctime := now, sem_otime := 0\<rparr>) ?k"
      have un: "undo_of ?k = undo_of k" by (simp add: undo_of_def fun_eq_iff)
      have drop: "sem_inv si ?drop \<and> calm k ?drop"
        by (rule fin [of _ "(sema k ! x)\<lparr>sem_perm := p\<lparr>ip_mode := 0\<rparr>\<rparr>"])
          (use x in \<open>simp_all add: upd_def un allocated_def\<close>)
      show ?thesis
      proof (cases "nsems \<le> 0 \<or> nsems > semmsl si \<or> \<not> mem_ok c")
        case True
        then have "semget si cr c now key nsems semflg k = sem_ret (set_err EINVAL ?drop) 0 \<or>
            semget si cr c now key nsems semflg k = sem_ret (set_err ENOMEM ?drop) 0"
          using new(3) by (cases "nsems \<le> 0 \<or> nsems > semmsl si") (simp_all add: semget_def IGOk Let_def)
        then show ?thesis using drop by (elim disjE) (simp_all add: get_okI)
      next
        case False
        then have n: "0 < nsems" "nsems \<le> semmsl si" "semmsl si \<le> 65535" using ok by (auto simp: seminfo_ok_def)
        have "sem_inv si ?new \<and> calm k ?new"
          by (rule fin [of _ "(sema k ! x)\<lparr>sem_perm := p, sem_base := replicate (nat nsems) sem_zero,
                    sem_nsems := ushort nsems, sem_ctime := now, sem_otime := 0\<rparr>"])
            (use x n in \<open>simp_all add: upd_def un kwrap\<close>)
        moreover have "semget si cr c now key nsems semflg k = sem_ret ?new (ip_seq p * semmni si + int x)"
          using new(3) False by (simp add: semget_def IGOk Let_def)
        ultimately show ?thesis by (simp add: get_okI)
      qed
    qed
  qed
qed

end
