(* ===== verification/SemSys.thy ===== *)
theory SemSys
  imports SemCalls
begin

text \<open>
  Many threads calling the semaphore facility: an interleaving of whole calls, sleeps,
  wake-ups, signals and exits. The thread that runs holds \<open>sem_lock\<close>, so a step is the part
  of a call between two points at which the lock is released. The invariant says that a
  thread which is still on a wait list cannot proceed (but for waits for zero after operations of
  the same call on the same semaphore), and that the
  counts \<open>semncnt\<close> and \<open>semzcnt\<close>, which the code tests before it wakes anybody, are not
  zero while somebody waits.
\<close>

unbundle bit_operations_syntax

section \<open>The system\<close>

record semworld =
  w_k :: semsys
  w_thr :: "nat \<Rightarrow> (sleeper \<times> bool) option"

text \<open>The list a thread sleeps on.\<close>

definition wait_list :: "wait_on \<Rightarrow> sem \<Rightarrow> nat list" where
  "wait_list w s = (case w of NWait \<Rightarrow> semnwait s | ZWait \<Rightarrow> semzwait s)"

definition wait_count :: "wait_on \<Rightarrow> sem \<Rightarrow> int" where
  "wait_count w s = (case w of NWait \<Rightarrow> semncnt s | ZWait \<Rightarrow> semzcnt s)"

definition asleep :: "semsys \<Rightarrow> nat \<Rightarrow> sleeper \<Rightarrow> bool" where
  "asleep k t sl \<longleftrightarrow> sl_x sl < length (sema k) \<and> sl_num sl < length (sem_base (sema k ! sl_x sl))
     \<and> t \<in> set (wait_list (sl_on sl) (sem_at k (sl_x sl) (sl_num sl)))"

text \<open>\<open>e_sleepl\<close> ends by a signal: the thread leaves the list and will return \<open>EVENT_SIG\<close>.\<close>

definition leave_list :: "nat \<Rightarrow> sleeper \<Rightarrow> semsys \<Rightarrow> semsys" where
  "leave_list t sl = sem_mod (sl_x sl) (sl_num sl) (\<lambda>s.
     case sl_on sl of
       NWait \<Rightarrow> s\<lparr>semnwait := removeAll t (semnwait s)\<rparr>
     | ZWait \<Rightarrow> s\<lparr>semzwait := removeAll t (semzwait s)\<rparr>)"

datatype sem_event =
    EvGet ucred caller int int int "32 word"
  | EvCtl sysvars ucred caller int int int int semarg
  | EvOp nat sysvars ucred caller int int "sembuf list" int
  | EvExit nat
  | EvSig nat
  | EvWake nat bool int

text \<open>
  What the model relies on of the rest of the kernel: fewer than 65535 threads exist, and a
  thread that was woken runs before its set's slot has been removed another 65535 times.
\<close>

definition max_thr :: nat where "max_thr = 65535"

definition sched_ok :: "seminfo \<Rightarrow> sem_event \<Rightarrow> semworld \<Rightarrow> bool" where
  "sched_ok si e w \<longleftrightarrow>
     (case e of
        EvOp t v cr c now semid inops nsops \<Rightarrow> t < max_thr \<and> w_thr w t = None
      | EvCtl v cr c now semid semnum cmd arg \<Rightarrow>
          cmd = 0 \<longrightarrow>
            (case semconv si semid (w_k w) of
               None \<Rightarrow> True
             | Some x \<Rightarrow> \<forall>t < max_thr.
                 (case w_thr w t of
                    None \<Rightarrow> True
                  | Some (sl, b) \<Rightarrow> sl_x sl = x \<longrightarrow>
                      sl_seq sl \<noteq> (ip_seq (sem_perm (sema (w_k w) ! x)) + 1) mod 65536))
      | _ \<Rightarrow> True)"

definition ret_to :: "nat \<Rightarrow> semworld \<Rightarrow> semop_res \<Rightarrow> semworld" where
  "ret_to t w res =
     (case res of
        SRet k r f \<Rightarrow> w\<lparr>w_k := k, w_thr := (w_thr w)(t := None)\<rparr>
      | SSleep k sl \<Rightarrow> w\<lparr>w_k := k, w_thr := (w_thr w)(t := Some (sl, False))\<rparr>)"

definition sem_event_step :: "seminfo \<Rightarrow> sem_event \<Rightarrow> semworld \<Rightarrow> semworld option" where
  "sem_event_step si e w =
     (let k = (w_k w)\<lparr>sem_err := None\<rparr> in
      case e of
        EvGet cr c now key nsems flg \<Rightarrow>
          map_option (\<lambda>(k, r). w\<lparr>w_k := k\<rparr>) (semget si cr c now key nsems flg k)
      | EvCtl v cr c now semid semnum cmd arg \<Rightarrow>
          map_option (\<lambda>(k, r, out). w\<lparr>w_k := k\<rparr>) (semctl si v cr c now semid semnum cmd arg k)
      | EvOp t v cr c now semid inops nsops \<Rightarrow>
          Some (ret_to t w (semop si v cr t c now semid inops nsops k))
      | EvExit p \<Rightarrow> map_option (\<lambda>k. w\<lparr>w_k := k\<rparr>) (semexit si p k)
      | EvSig t \<Rightarrow>
          (case w_thr w t of
             Some (sl, False) \<Rightarrow>
               if asleep k t sl
               then Some (w\<lparr>w_k := leave_list t sl k, w_thr := (w_thr w)(t := Some (sl, True))\<rparr>)
               else Some w
           | _ \<Rightarrow> Some w)
      | EvWake t mem now \<Rightarrow>
          (case w_thr w t of
             Some (sl, sig) \<Rightarrow>
               if asleep k t sl then Some w
               else Some (ret_to t w (semop_wake si t sig mem now sl k))
           | None \<Rightarrow> Some w))"

definition sem_next :: "seminfo \<Rightarrow> sem_event \<Rightarrow> semworld \<Rightarrow> semworld option" where
  "sem_next si e w = (if sched_ok si e w then sem_event_step si e w else Some w)"

text \<open>The arguments fit their types, and no \<open>semctl\<close> call names a negative semaphore, and no operation with \<open>SEM_UNDO\<close> a semaphore of 32768 or more (\<open>op_ok\<close>).\<close>

definition legal_ev :: "sem_event \<Rightarrow> bool" where
  "legal_ev e \<longleftrightarrow>
     (case e of
        EvCtl v cr c now semid semnum cmd arg \<Rightarrow>
          - (2 ^ 31) \<le> semid \<and> semid < 2 ^ 31 \<and> 0 \<le> semnum
          \<and> (case arg of ArgInt a \<Rightarrow> - (2 ^ 31) \<le> a \<and> a < 2 ^ 31 | ArgDs d \<Rightarrow> True
               | ArgArr as \<Rightarrow> \<forall>a \<in> set as. - 32768 \<le> a \<and> a < 32768)
      | EvOp t v cr c now semid inops nsops \<Rightarrow>
          - (2 ^ 31) \<le> semid \<and> semid < 2 ^ 31 \<and> 0 \<le> nsops \<and> (\<forall>op \<in> set inops. op_ok op)
      | _ \<Rightarrow> True)"

section \<open>The invariant of the system\<close>

text \<open>What the operations before the awaited one would add to its semaphore.\<close>

definition sl_off :: "sleeper \<Rightarrow> int" where
  "sl_off sl = (if is_order (sl_ops sl) then 0 else op_sum (take (sl_i sl) (sl_ops sl)) (sl_num sl))"

text \<open>The awaited operation cannot be done at value \<open>v\<close>.\<close>

definition still_blocked :: "sleeper \<Rightarrow> int \<Rightarrow> bool" where
  "still_blocked sl v \<longleftrightarrow>
     (case sl_on sl of
        NWait \<Rightarrow> v + sl_off sl < - sem_op (sl_ops sl ! sl_i sl)
      | ZWait \<Rightarrow> sl_off sl = 0 \<longrightarrow> v \<noteq> 0)"

definition waits_at :: "semworld \<Rightarrow> nat \<Rightarrow> nat \<Rightarrow> wait_on \<Rightarrow> nat \<Rightarrow> sleeper \<Rightarrow> bool" where
  "waits_at w y n on t sl \<longleftrightarrow> sl_x sl = y \<and> sl_num sl = n \<and> sl_on sl = on
     \<and> sl_seq sl = ip_seq (sem_perm (sema (w_k w) ! y))"

definition pending :: "semworld \<Rightarrow> nat \<Rightarrow> nat \<Rightarrow> wait_on \<Rightarrow> nat set" where
  "pending w y n on = {t. t < max_thr \<and> (\<exists>sl. w_thr w t = Some (sl, True) \<and> waits_at w y n on t sl)}"

definition channel_ok :: "semworld \<Rightarrow> nat \<Rightarrow> nat \<Rightarrow> wait_on \<Rightarrow> bool" where
  "channel_ok w y n on \<longleftrightarrow>
     (let s = sem_at (w_k w) y n; ts = wait_list on s in
      distinct ts
      \<and> (\<forall>t \<in> set ts. t < max_thr \<and> (\<exists>sl. w_thr w t = Some (sl, False) \<and> waits_at w y n on t sl
            \<and> still_blocked sl (semval s)))
      \<and> (ts \<noteq> [] \<longrightarrow> wait_count on s \<noteq> 0)
      \<and> 0 \<le> wait_count on s \<and> wait_count on s \<le> int (card (set ts \<union> pending w y n on)))"

definition thread_ok :: "seminfo \<Rightarrow> semsys \<Rightarrow> sleeper \<Rightarrow> bool" where
  "thread_ok si k sl \<longleftrightarrow> sl_x sl < length (sema k) \<and> sl_i sl < length (sl_ops sl)
     \<and> sl_num sl = nat (sem_num (sl_ops sl ! sl_i sl))
     \<and> (\<forall>op \<in> set (sl_ops sl). op_ok op)
     \<and> (sl_seq sl = ip_seq (sem_perm (sema k ! sl_x sl)) \<longrightarrow>
          live_set k (sl_x sl) \<and> sl_semid sl = sem_id si k (sl_x sl)
          \<and> (\<forall>op \<in> set (sl_ops sl). sem_num op < sem_nsems (sema k ! sl_x sl)))"

definition world_inv :: "seminfo \<Rightarrow> semworld \<Rightarrow> bool" where
  "world_inv si w \<longleftrightarrow> sem_inv si (w_k w)
     \<and> (\<forall>y n on. live_set (w_k w) y \<longrightarrow> in_set (w_k w) y n \<longrightarrow> channel_ok w y n on)
     \<and> (\<forall>t sl b. w_thr w t = Some (sl, b) \<longrightarrow> t < max_thr \<and> thread_ok si (w_k w) sl)"

section \<open>Steps that neither add nor remove a sleeper\<close>

definition stable :: "semsys \<Rightarrow> semsys \<Rightarrow> bool" where
  "stable k k' \<longleftrightarrow> length (sema k') = length (sema k) \<and>
     (\<forall>x < length (sema k). ip_seq (sem_perm (sema k' ! x)) = ip_seq (sem_perm (sema k ! x))
        \<and> (live_set k x \<longrightarrow> live_set k' x \<and> sem_nsems (sema k' ! x) = sem_nsems (sema k ! x)))"

definition removed :: "nat \<Rightarrow> semsys \<Rightarrow> semsys \<Rightarrow> bool" where
  "removed x k k' \<longleftrightarrow> x < length (sema k) \<and> length (sema k') = length (sema k)
     \<and> (\<forall>y. y \<noteq> x \<longrightarrow> sema k' ! y = sema k ! y)
     \<and> ip_seq (sem_perm (sema k' ! x)) = (ip_seq (sem_perm (sema k ! x)) + 1) mod 65536"

lemma stable_shape: "shape k' = shape k \<Longrightarrow> stable k k'"
  using shapeD [of k' k] live_set_shape [of k' k] by (simp add: stable_def)

lemma stable_refl [simp]: "stable k k"
  by (simp add: stable_def)

lemma thread_ok_stable:
  assumes "stable k k'" "thread_ok si k sl"
  shows "thread_ok si k' sl"
  using assms by (auto simp: thread_ok_def stable_def sem_id_def)

lemma thread_ok_removed:
  assumes "removed x k k'" "thread_ok si k sl"
    "sl_x sl = x \<longrightarrow> sl_seq sl \<noteq> (ip_seq (sem_perm (sema k ! x)) + 1) mod 65536"
  shows "thread_ok si k' sl"
  using assms by (cases "sl_x sl = x") (auto simp: thread_ok_def removed_def sem_id_def live_set_def)

lemma still_blocked_less: "sl_on sl = NWait \<Longrightarrow> still_blocked sl v \<Longrightarrow> v' \<le> v \<Longrightarrow> still_blocked sl v'"
  by (simp add: still_blocked_def)

lemma still_blocked_nonzero: "sl_on sl = ZWait \<Longrightarrow> still_blocked sl v \<Longrightarrow> (v \<noteq> 0 \<longrightarrow> v' \<noteq> 0) \<Longrightarrow> still_blocked sl v'"
  by (auto simp: still_blocked_def)

lemma quiet_on:
  assumes "quiet s0 s"
  shows "wait_list on s = [] \<and> wait_count on s = 0 \<or>
    wait_list on s = wait_list on s0 \<and> wait_count on s = wait_count on s0 \<and>
    (wait_count on s0 \<noteq> 0 \<longrightarrow> sl_on sl = on \<longrightarrow> still_blocked sl (semval s0) \<longrightarrow> still_blocked sl (semval s))"
proof (cases on)
  case NWait
  with assms show ?thesis
    by (auto simp: quiet_def wait_list_def wait_count_def intro: still_blocked_less)
next
  case ZWait
  with assms show ?thesis
    by (auto simp: quiet_def wait_list_def wait_count_def intro: still_blocked_nonzero)
qed

lemma channel_ok_empty:
  "wait_list on (sem_at (w_k w) y n) = [] \<Longrightarrow> wait_count on (sem_at (w_k w) y n) = 0 \<Longrightarrow> channel_ok w y n on"
  by (simp add: channel_ok_def Let_def)

lemma channel_okD:
  assumes "channel_ok w y n on"
  shows "distinct (wait_list on (sem_at (w_k w) y n))"
    and "wait_list on (sem_at (w_k w) y n) \<noteq> [] \<longrightarrow> wait_count on (sem_at (w_k w) y n) \<noteq> 0"
    and "0 \<le> wait_count on (sem_at (w_k w) y n)"
    and "wait_count on (sem_at (w_k w) y n)
           \<le> int (card (set (wait_list on (sem_at (w_k w) y n)) \<union> pending w y n on))"
    and "\<forall>t \<in> set (wait_list on (sem_at (w_k w) y n)). t < max_thr
           \<and> (\<exists>sl. w_thr w t = Some (sl, False) \<and> waits_at w y n on t sl
                \<and> still_blocked sl (semval (sem_at (w_k w) y n)))"
  using assms unfolding channel_ok_def Let_def by argo+

lemma channel_okI:
  assumes "distinct (wait_list on (sem_at (w_k w) y n))"
    and "wait_list on (sem_at (w_k w) y n) \<noteq> [] \<longrightarrow> wait_count on (sem_at (w_k w) y n) \<noteq> 0"
    and "0 \<le> wait_count on (sem_at (w_k w) y n)"
    and "wait_count on (sem_at (w_k w) y n)
           \<le> int (card (set (wait_list on (sem_at (w_k w) y n)) \<union> pending w y n on))"
    and "\<And>t. t \<in> set (wait_list on (sem_at (w_k w) y n)) \<Longrightarrow> t < max_thr
           \<and> (\<exists>sl. w_thr w t = Some (sl, False) \<and> waits_at w y n on t sl
                \<and> still_blocked sl (semval (sem_at (w_k w) y n)))"
  shows "channel_ok w y n on"
  unfolding channel_ok_def Let_def using assms by blast

lemma channel_ok_quiet:
  assumes ch: "channel_ok w y n on" and q: "quiet (sem_at (w_k w) y n) (sem_at k' y n)"
    and sq: "ip_seq (sem_perm (sema k' ! y)) = ip_seq (sem_perm (sema (w_k w) ! y))"
  shows "channel_ok (w\<lparr>w_k := k'\<rparr>) y n on"
proof (cases "wait_list on (sem_at k' y n) = [] \<and> wait_count on (sem_at k' y n) = 0")
  case True
  then show ?thesis by (intro channel_ok_empty) simp_all
next
  case False
  let ?old = "sem_at (w_k w) y n" and ?s = "sem_at k' y n"
  have same: "wait_list on ?s = wait_list on ?old" "wait_count on ?s = wait_count on ?old"
    using quiet_on [OF q, of on] False by blast+
  have at: "waits_at (w\<lparr>w_k := k'\<rparr>) y n on t sl = waits_at w y n on t sl" for t sl
    by (simp add: waits_at_def sq)
  then have pend: "pending (w\<lparr>w_k := k'\<rparr>) y n on = pending w y n on" by (simp add: pending_def)
  have blk: "still_blocked sl (semval ?s)"
    if "waits_at w y n on t sl" "still_blocked sl (semval ?old)" "wait_count on ?old \<noteq> 0" for t sl
    using quiet_on [OF q, of on sl] False that by (auto simp: waits_at_def)
  let ?w = "w\<lparr>w_k := k'\<rparr>"
  note ch' = channel_okD(1-4) [OF ch] and thr = channel_okD(5) [OF ch]
  have "t < max_thr \<and> (\<exists>sl. w_thr ?w t = Some (sl, False) \<and> waits_at ?w y n on t sl
      \<and> still_blocked sl (semval ?s))" if t: "t \<in> set (wait_list on ?old)" for t
  proof -
    from bspec [OF thr t] obtain sl where sl: "t < max_thr" "w_thr w t = Some (sl, False)" "waits_at w y n on t sl"
      "still_blocked sl (semval ?old)" by blast
    moreover have "wait_count on ?old \<noteq> 0" using t ch'(2) by (metis empty_iff empty_set)
    ultimately have "still_blocked sl (semval ?s)" "waits_at ?w y n on t sl" "w_thr ?w t = Some (sl, False)"
      using blk at by simp_all
    with sl(1) show ?thesis by blast
  qed
  then show ?thesis using ch' by (intro channel_okI) (simp_all add: same pend)
qed

lemma world_frame:
  assumes w: "world_inv si w" and k': "sem_inv si k'" "calm (w_k w) k'"
    and thr: "\<And>t sl b. w_thr w t = Some (sl, b) \<Longrightarrow> thread_ok si (w_k w) sl \<Longrightarrow> thread_ok si k' sl"
  shows "world_inv si (w\<lparr>w_k := k'\<rparr>)"
proof -
  have "channel_ok (w\<lparr>w_k := k'\<rparr>) y n on" if l: "live_set k' y" "in_set k' y n" for y n on
  proof -
    from k'(2) l consider
      (old) "live_set (w_k w) y" "ip_seq (sem_perm (sema k' ! y)) = ip_seq (sem_perm (sema (w_k w) ! y))"
        "in_set (w_k w) y n" "quiet (sem_at (w_k w) y n) (sem_at k' y n)"
      | (new) "semnwait (sem_at k' y n) = []" "semncnt (sem_at k' y n) = 0"
        "semzwait (sem_at k' y n) = []" "semzcnt (sem_at k' y n) = 0"
      unfolding calm_def by blast
    then show ?thesis
    proof cases
      case old
      with w show ?thesis by (intro channel_ok_quiet) (simp_all add: world_inv_def)
    next
      case new
      then show ?thesis by (intro channel_ok_empty) (simp_all add: wait_list_def wait_count_def split: wait_on.splits)
    qed
  qed
  moreover have "t < max_thr \<and> thread_ok si k' sl" if "w_thr w t = Some (sl, b)" for t sl b
    using w thr [OF that] that unfolding world_inv_def by blast
  ultimately show ?thesis using k'(1) by (simp add: world_inv_def)
qed

section \<open>The calls that do not sleep\<close>

lemma stable_at:
  assumes "length (sema k') = length (sema k)" "\<And>y. y \<noteq> x \<Longrightarrow> sema k' ! y = sema k ! y"
    and "x < length (sema k) \<Longrightarrow> ip_seq (sem_perm (sema k' ! x)) = ip_seq (sem_perm (sema k ! x))
      \<and> (live_set k x \<longrightarrow> live_set k' x \<and> sem_nsems (sema k' ! x) = sem_nsems (sema k ! x))"
  shows "stable k k'"
proof -
  have "y < length (sema k) \<Longrightarrow> ip_seq (sem_perm (sema k' ! y)) = ip_seq (sem_perm (sema k ! y))
      \<and> (live_set k y \<longrightarrow> live_set k' y \<and> sem_nsems (sema k' ! y) = sem_nsems (sema k ! y))" for y
    using assms by (cases "y = x") (simp_all add: live_set_def)
  with assms(1) show ?thesis by (simp add: stable_def)
qed

lemma stable_sema: "sema k' = sema k \<Longrightarrow> stable k k'"
  by (simp add: stable_def live_set_def)

lemma semget_stable:
  assumes inv: "sem_inv si k" and res: "semget si cr c now key nsems flg k = Some (k', r)"
  shows "stable k k'"
proof (cases "ipcget cr key flg (map sem_perm (sema k)) (sem_mark k)")
  case (IGErr e)
  with res show ?thesis by (auto simp: semget_def sem_ret_def intro: stable_sema)
next
  case IGWild
  with res show ?thesis by (simp add: semget_def)
next
  case (IGOk x s p m)
  have tab: "key_table (map sem_perm (sema k)) (sem_mark k)" using inv by (simp add: sem_inv_def sets_ok_def)
  note out = ipcget_handed_out [OF tab IGOk]
  have x: "x < length (sema k)" using out by (simp add: handed_out_def)
  have sq: "ip_seq p = ip_seq (sem_perm (sema k ! x))" using ipcget_seq [OF IGOk] x by simp
  have "length (sema k') = length (sema k)" "\<And>y. y \<noteq> x \<Longrightarrow> sema k' ! y = sema k ! y"
    "ip_seq (sem_perm (sema k' ! x)) = ip_seq p"
    using res IGOk x by (auto simp: semget_def sem_ret_def Let_def split: if_splits)
  moreover have "live_set k x \<longrightarrow> live_set k' x \<and> sem_nsems (sema k' ! x) = sem_nsems (sema k ! x)"
  proof
    assume l: "live_set k x"
    with out x have "s = 0" "p = sem_perm (sema k ! x)"
      by (auto simp: handed_out_def live_set_def split: if_splits)
    with res IGOk x l show "live_set k' x \<and> sem_nsems (sema k' ! x) = sem_nsems (sema k ! x)"
      by (auto simp: semget_def sem_ret_def Let_def live_set_def split: if_splits)
  qed
  ultimately show ?thesis using sq by (intro stable_at [where x = x]) simp_all
qed

lemma sem_fail_stable: "sem_fail e k = Some (k', r, out) \<Longrightarrow> stable k k'"
  by (auto simp: sem_fail_def sem_rval_def intro: stable_sema)

lemma sem_rval_stable: "sem_rval k1 rv out1 = Some (k', r, out) \<Longrightarrow> stable k k1 \<Longrightarrow> stable k k'"
  by (simp add: sem_rval_def)

lemma stable_mod: "stable k (sem_mod x n f k)"
  by (intro stable_shape) simp

lemma stable_unrm: "stable k k1 \<Longrightarrow> stable k (semunrm i low high k1)"
  by (simp add: stable_def live_set_def)

lemma stable_ds_mod:
  assumes "\<And>sp. ip_seq (sem_perm (f sp)) = ip_seq (sem_perm sp)" "\<And>sp. sem_nsems (f sp) = sem_nsems sp"
    and "\<And>sp. allocated (sem_perm sp) \<Longrightarrow> allocated (sem_perm (f sp))"
  shows "stable k (ds_mod x f k)"
  using assms by (auto simp: stable_def live_set_def nth_upd)

lemma semctl_get_stable: "semctl_get field v cr semnum x k = Some (k', r, out) \<Longrightarrow> stable k k'"
  by (auto simp: semctl_get_def split: option.splits if_splits
      dest: sem_fail_stable sem_rval_stable [where k = k])

lemma semctl_stable:
  assumes res: "semctl si v cr c now semid semnum cmd arg k = Some (k', r, out)" and cmd: "cmd \<noteq> 0"
  shows "stable k k'"
proof (cases "semconv si semid k")
  case None
  with res show ?thesis by (auto simp: semctl_def dest: sem_fail_stable)
next
  case (Some x)
  have set_ok: "semctl_set v cr now inds x k = Some (k', r, out) \<Longrightarrow> stable k k'" for inds
    by (auto simp: semctl_set_def Let_def allocated_iff bit_simps split: if_splits option.splits
        dest!: sem_fail_stable elim!: sem_rval_stable intro!: stable_ds_mod)
  have stat_ok: "semctl_stat v cr c x k = Some (k', r, out) \<Longrightarrow> stable k k'"
    by (auto simp: semctl_stat_def split: if_splits option.splits dest!: sem_fail_stable elim!: sem_rval_stable)
  have all_ok: "semctl_getall v cr c x k = Some (k', r, out) \<Longrightarrow> stable k k'"
    by (auto simp: semctl_getall_def split: if_splits option.splits dest!: sem_fail_stable elim!: sem_rval_stable)
  have setval_ok: "semctl_setval si v cr c semid semnum a x k = Some (k', r, out) \<Longrightarrow> stable k k'" for a
    by (auto simp: semctl_setval_def Let_def split: if_splits option.splits dest!: sem_fail_stable
        elim!: sem_rval_stable intro!: stable_unrm stable_mod)
  have setall_ok: "semctl_setall si v cr c semid as x k = Some (k', r, out) \<Longrightarrow> stable k k'" for as
  proof -
    assume r: "semctl_setall si v cr c semid as x k = Some (k', r, out)"
    have "stable k (ds_mod x f (semunrm semid 0 n k))"
      if "\<And>sp. sem_perm (f sp) = sem_perm sp" "\<And>sp. sem_nsems (f sp) = sem_nsems sp" for f n
      using that by (auto simp: stable_def live_set_def nth_upd)
    then show ?thesis using r
      by (auto simp: semctl_setall_def Let_def split: if_splits option.splits dest!: sem_fail_stable
          elim!: sem_rval_stable)
  qed
  show ?thesis
    using res cmd set_ok stat_ok all_ok setval_ok setall_ok
    by (auto simp: semctl_def Some semctl_getncnt_def semctl_getpid_def semctl_getval_def semctl_getzcnt_def
        split: if_splits dest: sem_fail_stable semctl_get_stable)
qed

lemma semctl_rmid_removed:
  assumes inv: "sem_inv si k" and id: "- (2 ^ 31) \<le> semid" "semid < 2 ^ 31"
    and res: "semctl si v cr c now semid semnum 0 arg k = Some (k', r, out)"
  shows "stable k k' \<or> (\<exists>x. semconv si semid k = Some x \<and> removed x k k')"
proof (cases "semconv si semid k")
  case None
  with res show ?thesis by (auto simp: semctl_def dest: sem_fail_stable)
next
  case (Some x)
  have "sets_ok si k" "seminfo_ok si" using inv by (simp_all add: sem_inv_def)
  from semconv_Some [OF this id Some] have live: "live_set k x" and i: "semid = sem_id si k x" by simp_all
  have rm: "semctl_rmid v cr semid x k = Some (k', r, out)" using res Some by (simp add: semctl_def)
  show ?thesis
  proof (cases "owner_or BYPASS_DAC_WRITE v cr (sem_perm (sema k ! x))")
    case True
    have "length (sema k') = length (sema k)"
      using rm True by (auto simp: semctl_rmid_def Let_def sem_rval_def)
    with semctl_rmid_effect [OF inv live i rm True] live have "removed x k k'"
      by (simp add: removed_def live_set_def)
    with Some show ?thesis by blast
  next
    case False
    with rm show ?thesis by (auto simp: semctl_rmid_def dest: sem_fail_stable)
  qed
qed

lemma world_stable:
  assumes "world_inv si w" "sem_inv si k'" "calm (w_k w) k'" "stable (w_k w) k'"
  shows "world_inv si (w\<lparr>w_k := k'\<rparr>)"
  by (rule world_frame [OF assms(1-3)]) (rule thread_ok_stable [OF assms(4)])

text \<open>The error word is the running thread's own: forgetting it changes nothing.\<close>

lemma fresh_err:
  "sem_inv si (k\<lparr>sem_err := e\<rparr>) = sem_inv si k" "calm (k\<lparr>sem_err := e\<rparr>) k' = calm k k'"
  "stable (k\<lparr>sem_err := e\<rparr>) k' = stable k k'" "removed x (k\<lparr>sem_err := e\<rparr>) k' = removed x k k'"
  "semconv si i (k\<lparr>sem_err := e\<rparr>) = semconv si i k"
  by (simp_all add: calm_def live_set_def in_set_def sem_at_def stable_def removed_def semconv_def Let_def)

lemma EvGet_ok:
  assumes "world_inv si w"
  shows "\<exists>w'. sem_event_step si (EvGet cr c now key nsems flg) w = Some w' \<and> world_inv si w'"
proof -
  let ?k = "(w_k w)\<lparr>sem_err := None\<rparr>"
  have inv: "sem_inv si ?k" using assms by (simp add: world_inv_def)
  from semget_ok [OF inv] obtain k' r where k': "semget si cr c now key nsems flg ?k = Some (k', r)"
    "sem_inv si k'" "calm ?k k'"
    unfolding get_ok_def by blast
  have "stable ?k k'" by (rule semget_stable [OF inv k'(1)])
  with k' assms have "world_inv si (w\<lparr>w_k := k'\<rparr>)" by (intro world_stable) (simp_all add: fresh_err)
  with k'(1) show ?thesis by (simp add: sem_event_step_def)
qed

lemma EvExit_ok:
  assumes "world_inv si w"
  shows "\<exists>w'. sem_event_step si (EvExit p) w = Some w' \<and> world_inv si w'"
proof -
  let ?k = "(w_k w)\<lparr>sem_err := None\<rparr>"
  have inv: "sem_inv si ?k" using assms by (simp add: world_inv_def)
  from semexit_effect [OF inv] obtain k' where k': "semexit si p ?k = Some k'" "sem_inv si k'" "calm ?k k'"
    "shape k' = shape ?k" by blast
  have "stable ?k k'" by (rule stable_shape [OF k'(4)])
  with k' assms have "world_inv si (w\<lparr>w_k := k'\<rparr>)" by (intro world_stable) (simp_all add: fresh_err)
  with k'(1) show ?thesis by (simp add: sem_event_step_def)
qed

lemma sched_rmid:
  "sched_ok si (EvCtl v cr c now semid semnum 0 arg) w \<Longrightarrow> semconv si semid (w_k w) = Some x \<Longrightarrow>
     t < max_thr \<Longrightarrow> w_thr w t = Some (sl, b) \<Longrightarrow>
     sl_x sl = x \<longrightarrow> sl_seq sl \<noteq> (ip_seq (sem_perm (sema (w_k w) ! x)) + 1) mod 65536"
  unfolding sched_ok_def by fastforce

lemma EvCtl_ok:
  assumes w: "world_inv si w" and legal: "legal_ev (EvCtl v cr c now semid semnum cmd arg)"
    and sched: "sched_ok si (EvCtl v cr c now semid semnum cmd arg) w"
  shows "\<exists>w'. sem_event_step si (EvCtl v cr c now semid semnum cmd arg) w = Some w' \<and> world_inv si w'"
proof -
  let ?k = "(w_k w)\<lparr>sem_err := None\<rparr>"
  have inv: "sem_inv si ?k" using w by (simp add: world_inv_def)
  have id: "- (2 ^ 31) \<le> semid" "semid < 2 ^ 31" "0 \<le> semnum"
    and arg: "case arg of ArgInt a \<Rightarrow> - (2 ^ 31) \<le> a \<and> a < 2 ^ 31 | ArgDs d \<Rightarrow> True
      | ArgArr as \<Rightarrow> \<forall>a \<in> set as. - 32768 \<le> a \<and> a < 32768"
    using legal unfolding legal_ev_def sem_event.case by blast+
  from semctl_ok [OF inv id arg] obtain k' r out where
    k': "semctl si v cr c now semid semnum cmd arg ?k = Some (k', r, out)" "sem_inv si k'" "calm ?k k'"
    unfolding ctl_ok_def by blast
  have calm: "calm (w_k w) k'" using k'(3) by (simp add: fresh_err)
  have "stable ?k k' \<or> cmd = 0 \<and> (\<exists>x. semconv si semid ?k = Some x \<and> removed x ?k k')"
  proof (cases "cmd = 0")
    case True
    then show ?thesis using semctl_rmid_removed [OF inv id(1,2) k'(1) [unfolded True]] by blast
  next
    case False
    then show ?thesis using semctl_stable [OF k'(1)] by blast
  qed
  then have "world_inv si (w\<lparr>w_k := k'\<rparr>)"
  proof (elim disjE conjE exE)
    assume "stable ?k k'"
    with w k'(2) calm show ?thesis by (intro world_stable) (simp_all add: fresh_err)
  next
    fix x assume rm: "cmd = 0" "semconv si semid ?k = Some x" "removed x ?k k'"
    have "thread_ok si k' sl" if t: "w_thr w t = Some (sl, b)" "thread_ok si (w_k w) sl" for t sl b
    proof -
      have "t < max_thr" using w t(1) unfolding world_inv_def by blast
      moreover have "semconv si semid (w_k w) = Some x" using rm(2) unfolding fresh_err .
      ultimately have c: "sl_x sl = x \<longrightarrow> sl_seq sl \<noteq> (ip_seq (sem_perm (sema (w_k w) ! x)) + 1) mod 65536"
        using sched_rmid [OF sched [unfolded rm(1)]] t(1) by blast
      have "removed x (w_k w) k'" using rm(3) unfolding fresh_err .
      from thread_ok_removed [OF this t(2) c] show ?thesis .
    qed
    then show ?thesis by (rule world_frame [OF w k'(2) calm])
  qed
  with k'(1) show ?thesis by (simp add: sem_event_step_def)
qed

section \<open>Adding and removing a sleeper\<close>

lemma pending_finite [simp]: "finite (pending w y n on)"
  by (rule finite_subset [of _ "{..<max_thr}"]) (auto simp: pending_def)

text \<open>A channel that is not touched, in a world that has changed elsewhere.\<close>

lemma channel_transfer:
  assumes ch: "channel_ok w y n on"
    and same: "wait_list on (sem_at (w_k w') y n) = wait_list on (sem_at (w_k w) y n)"
      "wait_count on (sem_at (w_k w') y n) = wait_count on (sem_at (w_k w) y n)"
      "semval (sem_at (w_k w') y n) = semval (sem_at (w_k w) y n)"
      "ip_seq (sem_perm (sema (w_k w') ! y)) = ip_seq (sem_perm (sema (w_k w) ! y))"
    and thr: "\<And>t. t \<in> set (wait_list on (sem_at (w_k w) y n)) \<Longrightarrow> w_thr w' t = w_thr w t"
    and pend: "pending w y n on \<subseteq> pending w' y n on"
  shows "channel_ok w' y n on"
proof (rule channel_okI)
  let ?ts = "wait_list on (sem_at (w_k w) y n)"
  have at: "waits_at w' y n on t sl = waits_at w y n on t sl" for t sl
    by (simp add: waits_at_def same)
  have "int (card (set ?ts \<union> pending w y n on)) \<le> int (card (set ?ts \<union> pending w' y n on))"
    using pend by (intro of_nat_mono card_mono) auto
  with channel_okD(4) [OF ch]
  show "wait_count on (sem_at (w_k w') y n)
      \<le> int (card (set (wait_list on (sem_at (w_k w') y n)) \<union> pending w' y n on))"
    unfolding same by linarith
  fix t assume "t \<in> set (wait_list on (sem_at (w_k w') y n))"
  then have t: "t \<in> set ?ts" by (simp add: same)
  from bspec [OF channel_okD(5) [OF ch] t] thr [OF t]
  show "t < max_thr \<and> (\<exists>sl. w_thr w' t = Some (sl, False) \<and> waits_at w' y n on t sl
      \<and> still_blocked sl (semval (sem_at (w_k w') y n)))"
    by (simp add: at same)
qed (use channel_okD(1-3) [OF ch] in \<open>simp_all add: same\<close>)

lemma in_list_thr:
  assumes "world_inv si w" "live_set (w_k w) y" "in_set (w_k w) y n"
    and "t \<in> set (wait_list on (sem_at (w_k w) y n))"
  obtains sl where "w_thr w t = Some (sl, False)" "waits_at w y n on t sl" "t < max_thr"
    "still_blocked sl (semval (sem_at (w_k w) y n))"
proof -
  from assms(1-3) have "channel_ok w y n on" by (simp add: world_inv_def)
  from bspec [OF channel_okD(5) [OF this] assms(4)] that show ?thesis by blast
qed

text \<open>Changes of a semaphore that leave its value alone.\<close>

definition keeps_val :: "(sem \<Rightarrow> sem) \<Rightarrow> bool" where
  "keeps_val f \<longleftrightarrow> (\<forall>s. semval (f s) = semval s)"

lemma keeps_val_obs:
  assumes "keeps_val f" "links_ok k"
  shows "same_obs k (sem_mod x n f k)" "links_ok (sem_mod x n f k)"
  using assms by (auto simp: same_obs_def keeps_val_def sem_at_mod links_ok_def)

lemma keeps_val_inv: "keeps_val f \<Longrightarrow> sem_inv si k \<Longrightarrow> sem_inv si (sem_mod x n f k)"
  using keeps_val_obs [of f k x n] sem_inv_obs by (metis sem_inv_def)

lemma mod_facts:
  "x < length (sema k) \<Longrightarrow> sem_perm (sema (sem_mod y n f k) ! x) = sem_perm (sema k ! x)"
  "live_set (sem_mod y n f k) x = live_set k x"
  using shapeD(3) [of "sem_mod y n f k" k] live_set_shape [of "sem_mod y n f k" k] by simp_all

lemma threads_mod:
  assumes "\<forall>t sl b. w_thr w t = Some (sl, b) \<longrightarrow> t < max_thr \<and> thread_ok si (w_k w) sl"
  shows "w_thr w t = Some (sl, b) \<Longrightarrow> t < max_thr \<and> thread_ok si (sem_mod x n f (w_k w)) sl"
  using assms thread_ok_stable [OF stable_mod] by blast

text \<open>
  The general step: the semaphore of one channel changes without its value, and one thread
  changes its state; all other channels are as they were.
\<close>

lemma world_channel:
  assumes w: "world_inv si w" and f: "keeps_val f"
    and other: "\<And>on' s. on' \<noteq> on \<Longrightarrow> wait_list on' (f s) = wait_list on' s"
      "\<And>on' s. on' \<noteq> on \<Longrightarrow> wait_count on' (f s) = wait_count on' s"
    and w': "w' = w\<lparr>w_k := sem_mod x n f (w_k w), w_thr := (w_thr w)(t := st)\<rparr>"
    and chan: "live_set (w_k w) x \<Longrightarrow> in_set (w_k w) x n \<Longrightarrow> channel_ok w' x n on"
    and free: "\<And>y m on'. (y, m, on') \<noteq> (x, n, on) \<Longrightarrow> live_set (w_k w) y \<Longrightarrow> in_set (w_k w) y m \<Longrightarrow>
        t \<notin> set (wait_list on' (sem_at (w_k w) y m)) \<and> t \<notin> pending w y m on'"
    and st: "case st of None \<Rightarrow> True | Some (sl, b) \<Rightarrow> t < max_thr \<and> thread_ok si (w_k w) sl"
  shows "world_inv si w'"
proof -
  let ?k = "w_k w"
  have inv: "sem_inv si ?k" and thr: "\<forall>t sl b. w_thr w t = Some (sl, b) \<longrightarrow> t < max_thr \<and> thread_ok si ?k sl"
    using w by (simp_all add: world_inv_def)
  have "channel_ok w' y m on'" if l: "live_set (w_k w') y" "in_set (w_k w') y m" for y m on'
  proof (cases "(y, m, on') = (x, n, on)")
    case True
    with l chan show ?thesis by (simp add: w' mod_facts)
  next
    case False
    have l': "live_set ?k y" "in_set ?k y m" using l by (simp_all add: w' mod_facts)
    have y: "y < length (sema ?k)" using l'(1) by (simp add: live_set_def)
    have ch: "channel_ok w y m on'" using w l' by (simp add: world_inv_def)
    note fr = free [OF False l']
    have seq: "ip_seq (sem_perm (sema (w_k w') ! y)) = ip_seq (sem_perm (sema ?k ! y))"
      using y by (simp add: w' mod_facts)
    have "pending w y m on' \<subseteq> pending w' y m on'"
    proof
      fix u assume u: "u \<in> pending w y m on'"
      with fr have "u \<noteq> t" by blast
      with u show "u \<in> pending w' y m on'" using seq by (auto simp: pending_def waits_at_def w')
    qed
    moreover have "wait_list on' (sem_at (w_k w') y m) = wait_list on' (sem_at ?k y m)"
      "wait_count on' (sem_at (w_k w') y m) = wait_count on' (sem_at ?k y m)"
      "semval (sem_at (w_k w') y m) = semval (sem_at ?k y m)"
      using False other f l' by (auto simp: w' sem_at_mod keeps_val_def)
    moreover have "\<And>u. u \<in> set (wait_list on' (sem_at ?k y m)) \<Longrightarrow> w_thr w' u = w_thr w u"
      using fr by (auto simp: w')
    ultimately show ?thesis using seq by (intro channel_transfer [OF ch])
  qed
  moreover have "sem_inv si (w_k w')" using keeps_val_inv [OF f inv] by (simp add: w')
  moreover have "u < max_thr \<and> thread_ok si (w_k w') sl" if "w_thr w' u = Some (sl, b)" for u sl b
  proof (cases "u = t")
    case True
    with that st have "u < max_thr" "thread_ok si ?k sl" by (auto simp: w')
    then show ?thesis using thread_ok_stable [OF stable_mod] by (simp add: w')
  next
    case False
    with that threads_mod [OF thr] show ?thesis by (simp add: w')
  qed
  ultimately show ?thesis by (simp add: world_inv_def)
qed

lemma not_pending: "w_thr w t = None \<or> (\<exists>sl. w_thr w t = Some (sl, False)) \<Longrightarrow> t \<notin> pending w y n on"
  by (auto simp: pending_def)

lemma sleeper_unique:
  assumes "world_inv si w" "w_thr w t = Some (sl, b)" "live_set (w_k w) y" "in_set (w_k w) y m"
    and "t \<in> set (wait_list on (sem_at (w_k w) y m)) \<or> t \<in> pending w y m on"
  shows "(y, m, on) = (sl_x sl, sl_num sl, sl_on sl) \<and> sl_seq sl = ip_seq (sem_perm (sema (w_k w) ! y))"
  using assms(5)
proof
  assume "t \<in> set (wait_list on (sem_at (w_k w) y m))"
  from in_list_thr [OF assms(1,3,4) this] assms(2) show ?thesis by (metis option.inject prod.inject waits_at_def)
next
  assume "t \<in> pending w y m on"
  with assms(2) show ?thesis by (auto simp: pending_def waits_at_def)
qed

lemma card_threads: "finite S \<Longrightarrow> S \<subseteq> {..<max_thr} - {t} \<Longrightarrow> t < max_thr \<Longrightarrow> int (card S) \<le> 65534"
  using card_mono [of "{..<max_thr} - {t}" S] by (simp add: max_thr_def)

lemma world_sleep:
  assumes w: "world_inv si w" and t: "w_thr w t = None" "t < max_thr"
    and sl: "thread_ok si (w_k w) sl" "sl_x sl = x" "sl_num sl = n" "sl_on sl = on"
      "sl_seq sl = ip_seq (sem_perm (sema (w_k w) ! x))"
    and blk: "still_blocked sl (semval (sem_at (w_k w) x n))"
  shows "world_inv si (w\<lparr>w_k := semsleep_in on x n t (w_k w), w_thr := (w_thr w)(t := Some (sl, False))\<rparr>)"
proof -
  let ?k = "w_k w"
  let ?f = "\<lambda>s. case on of
        NWait \<Rightarrow> s\<lparr>semncnt := ushort (semncnt s + 1), semnwait := semnwait s @ [t]\<rparr>
      | ZWait \<Rightarrow> s\<lparr>semzcnt := ushort (semzcnt s + 1), semzwait := semzwait s @ [t]\<rparr>"
  let ?w = "w\<lparr>w_k := sem_mod x n ?f ?k, w_thr := (w_thr w)(t := Some (sl, False))\<rparr>"
  have notin: "t \<notin> set (wait_list on' (sem_at ?k y m))" if l: "live_set ?k y" "in_set ?k y m" for y m on'
  proof
    assume "t \<in> set (wait_list on' (sem_at ?k y m))"
    from in_list_thr [OF w l this] t(1) show False by auto
  qed
  have upd: "wait_list on (?f s) = wait_list on s @ [t]" "wait_count on (?f s) = ushort (wait_count on s + 1)"
    "semval (?f s) = semval s" for s
    by (cases on; simp add: wait_list_def wait_count_def)+
  have chan: "channel_ok ?w x n on" if l: "live_set ?k x" "in_set ?k x n"
  proof -
    let ?s = "sem_at ?k x n"
    have ch: "channel_ok w x n on" using w l by (simp add: world_inv_def)
    note ch = channel_okD [OF ch]
    have at: "sem_at (w_k ?w) x n = ?f ?s" using l(2) by (simp add: sem_at_mod)
    have x: "x < length (sema ?k)" using l(1) by (simp add: live_set_def)
    have wat: "waits_at ?w x n on u s' = waits_at w x n on u s'" for u s'
      using x by (simp add: waits_at_def mod_facts)
    have pend: "pending ?w x n on = pending w x n on"
      using t(1) wat by (auto simp: pending_def)
    let ?S = "set (wait_list on ?s) \<union> pending w x n on"
    have S: "finite ?S" "?S \<subseteq> {..<max_thr} - {t}"
      using ch(5) notin [OF l, of on] t(1) by (auto simp: pending_def)
    then have bound: "int (card ?S) \<le> 65534" using card_threads t(2) by blast
    have cnt: "wait_count on (?f ?s) = wait_count on ?s + 1"
      using ch(3,4) bound by (simp add: upd kwrap)
    have "t \<notin> ?S" using S by blast
    then have card: "int (card (insert t ?S)) = int (card ?S) + 1" using S(1) by simp
    show ?thesis
    proof (rule channel_okI, unfold at)
      show "distinct (wait_list on (?f ?s))" using ch(1) notin [OF l] by (simp add: upd)
      show "wait_list on (?f ?s) \<noteq> [] \<longrightarrow> wait_count on (?f ?s) \<noteq> 0" "0 \<le> wait_count on (?f ?s)"
        using ch(3) cnt by simp_all
      have "set (wait_list on (?f ?s)) \<union> pending ?w x n on = insert t ?S" unfolding pend upd by auto
      then show "wait_count on (?f ?s) \<le> int (card (set (wait_list on (?f ?s)) \<union> pending ?w x n on))"
        using ch(4) cnt card by (simp only:)
      fix u assume u: "u \<in> set (wait_list on (?f ?s))"
      show "u < max_thr \<and> (\<exists>sl. w_thr ?w u = Some (sl, False) \<and> waits_at ?w x n on u sl \<and>
              still_blocked sl (semval (?f ?s)))"
      proof (cases "u = t")
        case True
        have "waits_at w x n on t sl" using sl by (simp add: waits_at_def)
        then show ?thesis using True t(2) blk wat upd(3) by simp
      next
        case False
        with u have "u \<in> set (wait_list on ?s)" by (simp add: upd)
        from bspec [OF ch(5) this] False wat upd(3) show ?thesis by simp
      qed
    qed
  qed
  have "world_inv si ?w"
  proof (rule world_channel [OF w, where f = ?f and on = on and x = x and n = n and t = t and st = "Some (sl, False)"])
    show "keeps_val ?f" using upd(3) by (simp add: keeps_val_def)
    show "wait_list on' (?f s) = wait_list on' s" "wait_count on' (?f s) = wait_count on' s" if "on' \<noteq> on" for on' s
      using that by (cases on; cases on'; simp add: wait_list_def wait_count_def)+
    show "t \<notin> set (wait_list on' (sem_at ?k y m)) \<and> t \<notin> pending w y m on'"
      if "live_set ?k y" "in_set ?k y m" for y m on'
      using notin [OF that] not_pending t(1) by blast
  qed (use chan sl(1) t(2) in simp_all)
  then show ?thesis by (simp add: semsleep_in_def)
qed

lemma wait_list_upd:
  "wait_list on (case on of NWait \<Rightarrow> s\<lparr>semnwait := f (semnwait s)\<rparr> | ZWait \<Rightarrow> s\<lparr>semzwait := f (semzwait s)\<rparr>)
     = f (wait_list on s)"
  "wait_count on' (case on of NWait \<Rightarrow> s\<lparr>semnwait := f (semnwait s)\<rparr> | ZWait \<Rightarrow> s\<lparr>semzwait := f (semzwait s)\<rparr>)
     = wait_count on' s"
  "semval (case on of NWait \<Rightarrow> s\<lparr>semnwait := f (semnwait s)\<rparr> | ZWait \<Rightarrow> s\<lparr>semzwait := f (semzwait s)\<rparr>) = semval s"
  "on' \<noteq> on \<Longrightarrow> wait_list on' (case on of NWait \<Rightarrow> s\<lparr>semnwait := f (semnwait s)\<rparr>
     | ZWait \<Rightarrow> s\<lparr>semzwait := f (semzwait s)\<rparr>) = wait_list on' s"
  by (cases on; cases on'; simp add: wait_list_def wait_count_def)+

lemma world_signal:
  assumes w: "world_inv si w" and t: "w_thr w t = Some (sl, False)" and sleeping: "asleep (w_k w) t sl"
  shows "world_inv si (w\<lparr>w_k := leave_list t sl (w_k w), w_thr := (w_thr w)(t := Some (sl, True))\<rparr>)"
proof -
  let ?k = "w_k w" and ?x = "sl_x sl" and ?n = "sl_num sl" and ?on = "sl_on sl"
  let ?f = "\<lambda>s. case ?on of
       NWait \<Rightarrow> s\<lparr>semnwait := removeAll t (semnwait s)\<rparr>
     | ZWait \<Rightarrow> s\<lparr>semzwait := removeAll t (semzwait s)\<rparr>"
  let ?w = "w\<lparr>w_k := sem_mod ?x ?n ?f ?k, w_thr := (w_thr w)(t := Some (sl, True))\<rparr>"
  note upd = wait_list_upd [where f = "removeAll t"]
  have tok: "t < max_thr" "thread_ok si ?k sl" using w t unfolding world_inv_def by blast+
  have chan: "channel_ok ?w ?x ?n ?on" if l: "live_set ?k ?x" "in_set ?k ?x ?n"
  proof -
    let ?s = "sem_at ?k ?x ?n"
    have ch: "channel_ok w ?x ?n ?on" using w l by (simp add: world_inv_def)
    note ch = channel_okD [OF ch]
    have at: "sem_at (w_k ?w) ?x ?n = ?f ?s" using l(2) by (simp add: sem_at_mod)
    have x: "?x < length (sema ?k)" using l(1) by (simp add: live_set_def)
    have mem: "t \<in> set (wait_list ?on ?s)" using sleeping by (simp add: asleep_def)
    have wat: "waits_at ?w ?x ?n ?on u s' = waits_at w ?x ?n ?on u s'" for u s'
      using x by (simp add: waits_at_def mod_facts)
    have mine: "waits_at w ?x ?n ?on t sl" using bspec [OF ch(5) mem] t by auto
    have pend: "pending ?w ?x ?n ?on = insert t (pending w ?x ?n ?on)"
      using t mine wat tok(1) by (auto simp: pending_def)
    have sets: "set (wait_list ?on (?f ?s)) \<union> pending ?w ?x ?n ?on = set (wait_list ?on ?s) \<union> pending w ?x ?n ?on"
      unfolding pend upd using mem by auto
    show ?thesis
    proof (rule channel_okI, unfold at)
      show "distinct (wait_list ?on (?f ?s))" using ch(1) by (simp add: upd distinct_removeAll)
      show "wait_list ?on (?f ?s) \<noteq> [] \<longrightarrow> wait_count ?on (?f ?s) \<noteq> 0" "0 \<le> wait_count ?on (?f ?s)"
        using ch(2,3) mem unfolding upd by auto
      show "wait_count ?on (?f ?s) \<le> int (card (set (wait_list ?on (?f ?s)) \<union> pending ?w ?x ?n ?on))"
        unfolding sets using ch(4) by (simp only: upd)
      fix u assume "u \<in> set (wait_list ?on (?f ?s))"
      then have u: "u \<in> set (wait_list ?on ?s)" "u \<noteq> t" by (simp_all add: upd)
      from bspec [OF ch(5) u(1)] u(2)
      show "u < max_thr \<and> (\<exists>sl'. w_thr ?w u = Some (sl', False) \<and> waits_at ?w ?x ?n ?on u sl' \<and>
              still_blocked sl' (semval (?f ?s)))"
        by (simp add: wat upd(3))
    qed
  qed
  have "world_inv si ?w"
  proof (rule world_channel [OF w, where f = ?f and on = ?on and x = ?x and n = ?n and t = t and st = "Some (sl, True)"])
    show "keeps_val ?f" using upd(3) by (simp add: keeps_val_def)
    show "wait_list on' (?f s) = wait_list on' s" "wait_count on' (?f s) = wait_count on' s" if "on' \<noteq> ?on" for on' s
      by (rule upd(4) [OF that]) (rule upd(2))
    show "t \<notin> set (wait_list on' (sem_at ?k y m)) \<and> t \<notin> pending w y m on'"
      if "(y, m, on') \<noteq> (?x, ?n, ?on)" "live_set ?k y" "in_set ?k y m" for y m on'
      using sleeper_unique [OF w t that(2,3), of on'] that(1) by blast
  qed (use chan tok in simp_all)
  then show ?thesis by (simp add: leave_list_def)
qed

lemma EvSig_ok:
  assumes w: "world_inv si w"
  shows "\<exists>w'. sem_event_step si (EvSig t) w = Some w' \<and> world_inv si w'"
proof (cases "\<exists>sl. w_thr w t = Some (sl, False) \<and> asleep (w_k w) t sl")
  case True
  then obtain sl where sl: "w_thr w t = Some (sl, False)" "asleep (w_k w) t sl" by blast
  let ?k = "(w_k w)\<lparr>sem_err := None\<rparr>" and ?w0 = "w\<lparr>w_k := (w_k w)\<lparr>sem_err := None\<rparr>\<rparr>"
  have "calm (w_k w) ?k" "stable (w_k w) ?k"
    by (simp_all add: calm_def stable_def live_set_def in_set_def sem_at_def)
  then have "world_inv si ?w0" using w by (intro world_stable) (simp_all add: world_inv_def)
  moreover have as: "asleep ?k t sl" using sl(2) by (simp add: asleep_def sem_at_def)
  ultimately have "world_inv si (?w0\<lparr>w_k := leave_list t sl (w_k ?w0), w_thr := (w_thr ?w0)(t := Some (sl, True))\<rparr>)"
    using sl(1) by (intro world_signal) simp_all
  with sl(1) as show ?thesis by (simp add: sem_event_step_def Let_def)
next
  case False
  have "asleep ((w_k w)\<lparr>sem_err := None\<rparr>) t sl = asleep (w_k w) t sl" for sl
    by (simp add: asleep_def sem_at_def)
  with False w show ?thesis
    by (auto simp: sem_event_step_def Let_def split: option.splits bool.splits)
qed

section \<open>A woken thread\<close>

lemma sig_count_upd:
  "semval (sig_count on s) = semval s"
  "wait_count on (sig_count on s) = (if wait_count on s \<le> 1 then 0 else ushort (wait_count on s - 1))"
  "wait_list on (sig_count on s) = (if wait_count on s \<le> 1 then [] else wait_list on s)"
  "on' \<noteq> on \<Longrightarrow> wait_count on' (sig_count on s) = wait_count on' s"
  "on' \<noteq> on \<Longrightarrow> wait_list on' (sig_count on s) = wait_list on' s"
  by (cases on; cases on'; simp add: sig_count_def wait_count_def wait_list_def)+

text \<open>A thread that is on no list and in no pending set can be forgotten.\<close>

lemma world_forget:
  assumes w: "world_inv si w"
    and free: "\<And>y m on. live_set (w_k w) y \<Longrightarrow> in_set (w_k w) y m \<Longrightarrow>
        t \<notin> set (wait_list on (sem_at (w_k w) y m)) \<and> t \<notin> pending w y m on"
  shows "world_inv si (w\<lparr>w_thr := (w_thr w)(t := None)\<rparr>)"
proof -
  let ?w = "w\<lparr>w_thr := (w_thr w)(t := None)\<rparr>"
  have "channel_ok ?w y m on" if l: "live_set (w_k w) y" "in_set (w_k w) y m" for y m on
  proof (rule channel_transfer)
    show "channel_ok w y m on" using w l by (simp add: world_inv_def)
    show "w_thr ?w u = w_thr w u" if "u \<in> set (wait_list on (sem_at (w_k w) y m))" for u
      using free [OF l] that by auto
    show "pending w y m on \<subseteq> pending ?w y m on"
      using free [OF l, of on] by (auto simp: pending_def waits_at_def)
  qed simp_all
  then show ?thesis using w by (simp add: world_inv_def)
qed

lemma world_unsleep:
  assumes w: "world_inv si w" and t: "w_thr w t = Some (sl, sig)" and awake: "\<not> asleep (w_k w) t sl"
    and out: "semsleep_out sig (sl_on sl) (sl_x sl) (sl_num sl) (sl_seq sl) (w_k w) = (k', e)"
  shows "world_inv si (w\<lparr>w_k := k', w_thr := (w_thr w)(t := None)\<rparr>)"
proof -
  let ?k = "w_k w" and ?x = "sl_x sl" and ?n = "sl_num sl" and ?on = "sl_on sl"
  have tok: "t < max_thr" "thread_ok si ?k sl" using w t unfolding world_inv_def by blast+
  have notin: "t \<notin> set (wait_list on (sem_at ?k y m))" if l: "live_set ?k y" "in_set ?k y m" for y m on
  proof
    assume m: "t \<in> set (wait_list on (sem_at ?k y m))"
    with sleeper_unique [OF w t l, of on] have "y = ?x" "m = ?n" "on = ?on" by auto
    with m l awake show False by (simp add: asleep_def live_set_def in_set_def)
  qed
  let ?hit = "sig \<and> allocated (sem_perm (sema ?k ! ?x)) \<and> ip_seq (sem_perm (sema ?k ! ?x)) = sl_seq sl"
  show ?thesis
  proof (cases ?hit)
    case False
    then have k': "k' = ?k" using out by (auto simp: semsleep_out_def Let_def split: if_splits)
    have "t \<notin> pending w y m on" if l: "live_set ?k y" "in_set ?k y m" for y m on
    proof
      assume p: "t \<in> pending w y m on"
      then have sig: "sig" using t by (auto simp: pending_def)
      from p sleeper_unique [OF w t l, of on] have "y = ?x" "sl_seq sl = ip_seq (sem_perm (sema ?k ! y))" by auto
      with l(1) sig False show False by (simp add: live_set_def)
    qed
    with world_forget [OF w] notin have "world_inv si (w\<lparr>w_thr := (w_thr w)(t := None)\<rparr>)" by blast
    then show ?thesis by (simp add: k')
  next
    case hit: True
    have k': "k' = sem_mod ?x ?n (sig_count ?on) ?k" using out hit by (auto simp: semsleep_out_def Let_def)
    let ?w = "w\<lparr>w_k := sem_mod ?x ?n (sig_count ?on) ?k, w_thr := (w_thr w)(t := None)\<rparr>"
    have chan: "channel_ok ?w ?x ?n ?on" if l: "live_set ?k ?x" "in_set ?k ?x ?n"
    proof -
      let ?s = "sem_at ?k ?x ?n" and ?c = "wait_count ?on (sem_at ?k ?x ?n)"
      have ch: "channel_ok w ?x ?n ?on" using w l by (simp add: world_inv_def)
      note ch = channel_okD [OF ch]
      have at: "sem_at (w_k ?w) ?x ?n = sig_count ?on ?s" using l(2) by (simp add: sem_at_mod)
      have x: "?x < length (sema ?k)" using l(1) by (simp add: live_set_def)
      have wat: "waits_at ?w ?x ?n ?on u s' = waits_at w ?x ?n ?on u s'" for u s'
        using x by (simp add: waits_at_def mod_facts)
      show ?thesis
      proof (cases "?c \<le> 1")
        case True
        then show ?thesis by (intro channel_ok_empty) (simp_all add: sem_at_mod l(2) sig_count_upd)
      next
        case False
        let ?S = "set (wait_list ?on ?s) \<union> pending w ?x ?n ?on"
        have pend: "pending ?w ?x ?n ?on = pending w ?x ?n ?on - {t}"
          using wat by (auto simp: pending_def)
        have S: "finite ?S" "?S \<subseteq> {..<max_thr}" using ch(5) by (auto simp: pending_def)
        then have "card ?S \<le> max_thr" using card_mono [of "{..<max_thr}" ?S] by simp
        then have bound: "?c \<le> 65535" using ch(4) by (simp add: max_thr_def)
        have cnt: "wait_count ?on (sig_count ?on ?s) = ?c - 1"
          and lst: "wait_list ?on (sig_count ?on ?s) = wait_list ?on ?s"
          using False bound by (simp_all add: sig_count_upd kwrap)
        have "?S - {t} \<subseteq> set (wait_list ?on ?s) \<union> pending ?w ?x ?n ?on" unfolding pend by auto
        then have "card (?S - {t}) \<le> card (set (wait_list ?on ?s) \<union> pending ?w ?x ?n ?on)"
          by (intro card_mono) simp_all
        then have less: "int (card ?S) - 1 \<le> int (card (set (wait_list ?on ?s) \<union> pending ?w ?x ?n ?on))"
          using card_Diff1_le [of ?S t] card_Diff_singleton_if [of ?S t] by (auto split: if_splits)
        show ?thesis
        proof (rule channel_okI, unfold at)
          show "distinct (wait_list ?on (sig_count ?on ?s))" using ch(1) by (simp add: lst)
          show "wait_list ?on (sig_count ?on ?s) \<noteq> [] \<longrightarrow> wait_count ?on (sig_count ?on ?s) \<noteq> 0"
            "0 \<le> wait_count ?on (sig_count ?on ?s)"
            using False by (simp_all add: cnt)
          show "wait_count ?on (sig_count ?on ?s)
              \<le> int (card (set (wait_list ?on (sig_count ?on ?s)) \<union> pending ?w ?x ?n ?on))"
            unfolding cnt lst using less ch(4) by linarith
          fix u assume "u \<in> set (wait_list ?on (sig_count ?on ?s))"
          then have u: "u \<in> set (wait_list ?on ?s)" by (simp add: lst)
          moreover have "u \<noteq> t" using u notin [OF l, of ?on] by blast
          ultimately show "u < max_thr \<and> (\<exists>sl'. w_thr ?w u = Some (sl', False) \<and> waits_at ?w ?x ?n ?on u sl' \<and>
              still_blocked sl' (semval (sig_count ?on ?s)))"
            using bspec [OF ch(5) u] by (simp add: wat sig_count_upd(1))
        qed
      qed
    qed
    have "world_inv si ?w"
    proof (rule world_channel [OF w, where f = "sig_count ?on" and on = ?on and x = ?x and n = ?n and t = t and st = None])
      show "keeps_val (sig_count ?on)" by (simp add: keeps_val_def sig_count_upd)
      show "wait_list on' (sig_count ?on s) = wait_list on' s" "wait_count on' (sig_count ?on s) = wait_count on' s"
        if "on' \<noteq> ?on" for on' s
        using that by (simp_all add: sig_count_upd)
      show "t \<notin> set (wait_list on' (sem_at ?k y m)) \<and> t \<notin> pending w y m on'"
        if "(y, m, on') \<noteq> (?x, ?n, ?on)" "live_set ?k y" "in_set ?k y m" for y m on'
        using sleeper_unique [OF w t that(2,3), of on'] that(1) by blast
    qed (use chan in simp_all)
    then show ?thesis by (simp add: k')
  qed
qed

section \<open>A call to semop\<close>

lemma otime_same:
  "sem_inv si (ds_mod x (\<lambda>sp. sp\<lparr>sem_otime := now\<rparr>) k) = sem_inv si k"
  "calm k0 (ds_mod x (\<lambda>sp. sp\<lparr>sem_otime := now\<rparr>) k) = calm k0 k"
  "stable k0 (ds_mod x (\<lambda>sp. sp\<lparr>sem_otime := now\<rparr>) k) = stable k0 k"
proof -
  let ?k = "ds_mod x (\<lambda>sp. sp\<lparr>sem_otime := now\<rparr>) k"
  have len: "length (sema ?k) = length (sema k)" by simp
  have at: "sem_perm (sema ?k ! y) = sem_perm (sema k ! y)" "sem_nsems (sema ?k ! y) = sem_nsems (sema k ! y)"
    "sem_base (sema ?k ! y) = sem_base (sema k ! y)" if "y < length (sema k)" for y
    using that by (simp_all add: nth_upd)
  have live: "live_set ?k y = live_set k y" for y using at(1) by (auto simp: live_set_def)
  have ins: "in_set ?k y n = in_set k y n" for y n using at(3) by (auto simp: in_set_def)
  have sat: "in_set k y n \<Longrightarrow> sem_at ?k y n = sem_at k y n" for y n
    using at(3) by (simp add: sem_at_def in_set_def)
  have shape: "shape ?k = shape k"
    by (simp add: shape_def list_eq_iff_nth_eq nth_upd)
  show "sem_inv si ?k = sem_inv si k"
    using sets_ok_shape [OF shape] undos_ok_shape [OF shape] live ins sat
    by (simp add: sem_inv_def vals_ok_def links_ok_def)
  show "calm k0 ?k = calm k0 k"
    unfolding calm_def live ins using at(1) live_set_def [of k] by (simp add: sat cong: imp_cong conj_cong)
  show "stable k0 ?k = stable k0 k"
    unfolding stable_def live len using at(1,2) by metis
qed

definition quiet_step :: "seminfo \<Rightarrow> semsys \<Rightarrow> semsys \<Rightarrow> bool" where
  "quiet_step si k k' \<longleftrightarrow> sem_inv si k' \<and> calm k k' \<and> stable k k'"

lemma stable_err [simp]: "stable k (set_err e k') = stable k k'"
  by (simp add: stable_def live_set_def)

lemma quiet_step_err [simp]: "quiet_step si k (set_err e k') = quiet_step si k k'"
  by (simp add: quiet_step_def stable_def live_set_def)

lemma semop_end_quiet:
  assumes "quiet_step si k k1"
  shows "\<exists>k' r. semop_end now x out k1 = SRet k' r out \<and> quiet_step si k k'"
  using assms by (auto simp: semop_end_def Let_def quiet_step_def otime_same)

lemma out_order_quiet:
  assumes "quiet_step si k k1"
  shows "\<exists>k' r f. out_order c now x ops n k1 = SRet k' r f \<and> quiet_step si k k'"
  using semop_end_quiet [OF assms] semop_end_quiet [of si k "set_err EFAULT k1" now x None] assms
  by (simp add: out_order_def Let_def) blast

lemma ret_quiet:
  assumes "world_inv si w" "w_thr w t = None" "quiet_step si (w_k w) k'"
  shows "world_inv si (ret_to t w (SRet k' r f))"
proof -
  have "world_inv si (w\<lparr>w_k := k'\<rparr>)"
    using assms(1,3) by (intro world_stable) (simp_all add: quiet_step_def)
  moreover have "(w_thr w)(t := None) = w_thr w" using assms(2) by auto
  ultimately show ?thesis by (simp add: ret_to_def)
qed

lemma progress_quiet:
  assumes "call_ok si k0 i x ops" "progress si p i x k0 pre k" "set pre \<subseteq> set ops"
  shows "quiet_step si k0 k"
proof -
  have "shape k = shape k0" using assms(2) by (simp add: progress_def)
  with progress_inv [OF assms] progress_calm [OF assms(2)] show ?thesis
    by (simp add: quiet_step_def stable_shape)
qed

lemma undone_quiet:
  assumes "sem_inv si k0" "undone x k0 k"
  shows "quiet_step si k0 k"
proof -
  have "shape k = shape k0" using assms(2) by (simp add: undone_def same_obs_def)
  with undone_inv [OF assms] undone_calm [OF assms(2)] show ?thesis
    by (simp add: quiet_step_def stable_shape)
qed

lemma stable_seq:
  "stable k k' \<Longrightarrow> live_set k x \<Longrightarrow> live_set k' x \<and> sem_id si k' x = sem_id si k x
     \<and> ip_seq (sem_perm (sema k' ! x)) = ip_seq (sem_perm (sema k ! x))
     \<and> sem_nsems (sema k' ! x) = sem_nsems (sema k ! x)"
  by (simp add: stable_def live_set_def sem_id_def)

lemma sleep_quiet:
  assumes w: "world_inv si w" "w_thr w t = None" "t < max_thr" and q: "quiet_step si (w_k w) k"
    and call: "call_ok si (w_k w) i x ops" "n < length ops" "m = nat (sem_num (ops ! n))"
    and blk: "blocked k x (if is_order ops then 0 else op_sum (take n ops) m) (ops ! n) on"
  shows "world_inv si (ret_to t w (semop_sleep t c i x ops n m on k))"
proof -
  let ?w = "w\<lparr>w_k := k\<rparr>"
  let ?sl = "\<lparr>sl_c = c, sl_semid = i, sl_x = x, sl_ops = ops, sl_i = n, sl_num = m, sl_on = on,
        sl_seq = ip_seq (sem_perm (sema k ! x))\<rparr>"
  have w1: "world_inv si ?w" using w(1) q by (intro world_stable) (simp_all add: quiet_step_def)
  have live: "live_set (w_k w) x" and i: "i = sem_id si (w_k w) x" using call(1) by (simp_all add: call_ok_def)
  have st: "stable (w_k w) k" using q by (simp add: quiet_step_def)
  note lv = stable_seq [OF st live, of si]
  have tok: "thread_ok si k ?sl"
    using call lv i by (auto simp: thread_ok_def call_ok_def live_set_def)
  have sb: "still_blocked ?sl (semval (sem_at k x m))"
    using blk call(3) by (auto simp: still_blocked_def blocked_def sl_off_def Let_def split: wait_on.splits)
  have "world_inv si (?w\<lparr>w_k := semsleep_in on x m t (w_k ?w), w_thr := (w_thr ?w)(t := Some (?sl, False))\<rparr>)"
    by (rule world_sleep [OF w1]) (use w tok sb in simp_all)
  then show ?thesis by (simp add: ret_to_def semop_sleep_def)
qed

lemma semop_go_ok:
  assumes w: "world_inv si w" "w_thr w t = None" "t < max_thr"
    and call: "call_ok si (w_k w) i x ops"
  shows "world_inv si (ret_to t w (semop_go si t c now i x ops n (w_k w)))"
proof (cases "is_order ops")
  case False
  let ?k = "w_k w"
  have inv: "sem_inv si ?k" using call by (simp add: call_ok_def)
  note res = atomic_ok [OF call, of c]
  show ?thesis
  proof (cases "atomic si c i x ops ?k")
    case (PDone k)
    with res have "quiet_step si ?k k" by (auto simp: atomic_res_ok_def intro: progress_quiet [OF call])
    from semop_end_quiet [OF this, of now x None] ret_quiet [OF w(1,2)] PDone False show ?thesis
      by (auto simp: semop_go_def)
  next
    case (PErr k)
    with res have "quiet_step si ?k k" by (auto simp: atomic_res_ok_def intro: undone_quiet [OF inv])
    from semop_end_quiet [OF this, of now x None] ret_quiet [OF w(1,2)] PErr False show ?thesis
      by (auto simp: semop_go_def)
  next
    case (PSleep k n m on)
    with res have u: "undone x ?k k" "n < length ops" "m = nat (sem_num (ops ! n))"
      "blocked ?k x (op_sum (take n ops) m) (ops ! n) on"
      by (auto simp: atomic_res_ok_def)
    have "blocked k x (op_sum (take n ops) m) (ops ! n) on"
      using u(1,4) shapeD(7) [of ?k k] by (auto simp: blocked_def undone_def same_obs_def)
    with sleep_quiet [OF w undone_quiet [OF inv u(1)] call u(2,3)] False PSleep show ?thesis
      by (simp add: semop_go_def)
  qed
next
  case True
  let ?k = "w_k w" and ?ops = "drop n ops"
  have call': "call_ok si ?k i x ?ops" using call set_drop_subset [of n ops] by (auto simp: call_ok_def)
  note res = order_ok [OF call', of c n]
  have pre: "progress si (c_proc c) i x ?k (take j ?ops) k \<Longrightarrow> quiet_step si ?k k" for j k
    using progress_quiet [OF call'] set_take_subset [of j ?ops] by blast
  show ?thesis
  proof (cases "order_from si c i x ?ops n ?k")
    case (ODone k)
    with res have "quiet_step si ?k k" by (auto simp: order_res_ok_def intro: progress_quiet [OF call'])
    from semop_end_quiet [OF this, of now x None] ret_quiet [OF w(1,2)] ODone True show ?thesis
      by (auto simp: semop_go_def)
  next
    case (OErr k m)
    with res have "quiet_step si ?k k" by (auto simp: order_res_ok_def intro: pre)
    from out_order_quiet [OF this, of c now x ops m] ret_quiet [OF w(1,2)] OErr True show ?thesis
      by (auto simp: semop_go_def)
  next
    case (OSleep k j m on)
    with res have o: "n \<le> j" "j < n + length ?ops" "m = nat (sem_num (?ops ! (j - n)))"
      "progress si (c_proc c) i x ?k (take (j - n) ?ops) k" "blocked k x 0 (?ops ! (j - n)) on"
      by (auto simp: order_res_ok_def)
    then have j: "j < length ops" "?ops ! (j - n) = ops ! j" by auto
    from sleep_quiet [OF w pre [OF o(4)] call j(1)] o(3,5) j(2) OSleep True show ?thesis
      by (simp add: semop_go_def)
  qed
qed

lemma fresh_world:
  "world_inv si (w\<lparr>w_k := (w_k w)\<lparr>sem_err := e\<rparr>\<rparr>) = world_inv si w"
proof -
  have to: "world_inv si (v\<lparr>w_k := (w_k v)\<lparr>sem_err := a\<rparr>\<rparr>)" if "world_inv si v" for v :: semworld and a
  proof -
    have "calm (w_k v) ((w_k v)\<lparr>sem_err := a\<rparr>)" "stable (w_k v) ((w_k v)\<lparr>sem_err := a\<rparr>)"
      by (simp_all add: calm_def stable_def live_set_def in_set_def sem_at_def)
    with that show ?thesis by (intro world_stable) (simp_all add: world_inv_def)
  qed
  from to [of w e] to [of "w\<lparr>w_k := (w_k w)\<lparr>sem_err := e\<rparr>\<rparr>" "sem_err (w_k w)"] show ?thesis by auto
qed

lemma EvOp_ok:
  assumes w: "world_inv si w" and legal: "legal_ev (EvOp t v cr c now semid inops nsops)"
    and sched: "sched_ok si (EvOp t v cr c now semid inops nsops) w"
  shows "\<exists>w'. sem_event_step si (EvOp t v cr c now semid inops nsops) w = Some w' \<and> world_inv si w'"
proof -
  let ?k = "(w_k w)\<lparr>sem_err := None\<rparr>" and ?w = "w\<lparr>w_k := (w_k w)\<lparr>sem_err := None\<rparr>\<rparr>"
  have t: "w_thr ?w t = None" "t < max_thr" using sched by (simp_all add: sched_ok_def)
  have id: "- (2 ^ 31) \<le> semid" "semid < 2 ^ 31" and ops: "\<forall>op \<in> set inops. op_ok op"
    using legal unfolding legal_ev_def sem_event.case by blast+
  have w1: "world_inv si ?w" using w by (simp add: fresh_world)
  then have inv: "sem_inv si ?k" by (simp add: world_inv_def)
  have fail: "world_inv si (ret_to t ?w (SRet (set_err e ?k) r None))" for e r
    by (rule ret_quiet [OF w1 t(1)]) (use inv in \<open>simp add: quiet_step_def\<close>)
  have zero: "world_inv si (ret_to t ?w (SRet ?k 0 None))"
    by (rule ret_quiet [OF w1 t(1)]) (use inv in \<open>simp add: quiet_step_def\<close>)
  have go: "world_inv si (ret_to t ?w (semop_go si t c now semid x (take (nat nsops) inops) 0 ?k))"
    if conv: "semconv si semid ?k = Some x"
      and num: "\<not> list_ex (\<lambda>op. sem_num op \<ge> sem_nsems (sema ?k ! x)) (take (nat nsops) inops)" for x
  proof -
    have "sets_ok si ?k" "seminfo_ok si" using inv by (simp_all add: sem_inv_def)
    from semconv_Some [OF this id conv] have "live_set ?k x" "semid = sem_id si ?k x" by simp_all
    with inv ops num have "call_ok si ?k semid x (take (nat nsops) inops)"
      using set_take_subset [of "nat nsops" inops] by (auto simp: call_ok_def list_ex_iff not_le)
    with semop_go_ok [OF w1 t] show ?thesis by simp
  qed
  have "world_inv si (ret_to t ?w (semop si v cr t c now semid inops nsops ?k))"
    using fail zero go by (auto simp: semop_def Let_def split: option.splits)
  then show ?thesis by (simp add: sem_event_step_def Let_def ret_to_def split: semop_res.splits)
qed

lemma EvWake_ok:
  assumes w: "world_inv si w"
  shows "\<exists>w'. sem_event_step si (EvWake t mem now) w = Some w' \<and> world_inv si w'"
proof (cases "w_thr w t")
  case None
  with w show ?thesis by (simp add: sem_event_step_def Let_def)
next
  case (Some p)
  obtain sl sig where sl: "w_thr w t = Some (sl, sig)" using Some by (cases p) simp
  let ?k = "(w_k w)\<lparr>sem_err := None\<rparr>" and ?w = "w\<lparr>w_k := (w_k w)\<lparr>sem_err := None\<rparr>\<rparr>"
  have w1: "world_inv si ?w" using w by (simp add: fresh_world)
  show ?thesis
  proof (cases "asleep ?k t sl")
    case True
    with sl w show ?thesis by (simp add: sem_event_step_def Let_def)
  next
    case False
    obtain k1 e where out: "semsleep_out sig (sl_on sl) (sl_x sl) (sl_num sl) (sl_seq sl) ?k = (k1, e)" by fastforce
    let ?w1 = "?w\<lparr>w_k := k1, w_thr := (w_thr ?w)(t := None)\<rparr>"
    let ?c = "(sl_c sl)\<lparr>mem_ok := mem\<rparr>"
    have w2: "world_inv si ?w1" by (rule world_unsleep [OF w1, of t sl sig]) (use sl False out in simp_all)
    then have inv1: "sem_inv si k1" by (simp add: world_inv_def)
    have t: "w_thr ?w1 t = None" "t < max_thr" and tok: "thread_ok si ?k sl"
      using w1 sl unfolding world_inv_def by (simp_all, blast+)
    have "world_inv si (ret_to t ?w1 (semop_wake si t sig mem now sl ?k))"
    proof (cases e)
      case None
      have k1: "k1 = ?k" and hit: "ip_seq (sem_perm (sema ?k ! sl_x sl)) = sl_seq sl"
        using out None by (auto simp: semsleep_out_def Let_def split: if_splits)
      have "call_ok si ?k (sl_semid sl) (sl_x sl) (sl_ops sl)"
        using tok hit inv1 by (auto simp: call_ok_def thread_ok_def k1)
      with w2 t have "world_inv si (ret_to t ?w1 (semop_go si t ?c now (sl_semid sl) (sl_x sl) (sl_ops sl) (sl_i sl) (w_k ?w1)))"
        by (intro semop_go_ok) (simp_all add: k1)
      then show ?thesis using out by (simp add: semop_wake_def Let_def None k1)
    next
      case (Some err)
      have q: "quiet_step si k1 (set_err err k1)" using inv1 by (simp add: quiet_step_def)
      show ?thesis
      proof (cases "is_order (sl_ops sl)")
        case True
        from out_order_quiet [OF q, of ?c now "sl_x sl" "sl_ops sl" "sl_i sl"] ret_quiet [OF w2 t(1)] out Some True
        show ?thesis by (auto simp: semop_wake_def Let_def)
      next
        case False
        from semop_end_quiet [OF q, of now "sl_x sl" None] ret_quiet [OF w2 t(1)] out Some False
        show ?thesis by (auto simp: semop_wake_def Let_def)
      qed
    qed
    moreover have "ret_to t ?w1 res = ret_to t w res" for res
      by (cases res) (simp_all add: ret_to_def)
    ultimately show ?thesis using sl False by (simp add: sem_event_step_def Let_def)
  qed
qed

section \<open>Runs\<close>

lemma sem_next_ok:
  assumes "legal_ev e" "world_inv si w"
  shows "\<exists>w'. sem_next si e w = Some w' \<and> world_inv si w'"
proof (cases "sched_ok si e w")
  case False
  with assms show ?thesis by (simp add: sem_next_def)
next
  case True
  with assms show ?thesis
    using EvGet_ok EvCtl_ok EvOp_ok EvExit_ok EvSig_ok EvWake_ok
    by (cases e) (simp_all add: sem_next_def)
qed

interpretation sem_machine: guarded_machine legal_ev "sem_next si" "world_inv si" for si
  by unfold_locales (rule sem_next_ok)

definition free_ds :: semid_ds where
  "free_ds = \<lparr>sem_perm = ex_perm 0 0, sem_base = [], sem_nsems = 0, sem_otime = 0, sem_ctime = 0\<rparr>"

definition boot :: "seminfo \<Rightarrow> semworld" where
  "boot si = \<lparr>w_k = \<lparr>sema = replicate (nat (semmni si)) free_ds, sem_mark = 0,
     U_semundo = (\<lambda>p. None), semunp = [], sem_err = None\<rparr>, w_thr = (\<lambda>t. None)\<rparr>"

lemma boot_inv:
  assumes "seminfo_ok si"
  shows "world_inv si (boot si)"
proof -
  have "\<not> allocated (ex_perm 0 0)" by (simp add: allocated_def ex_perm_def)
  then have dead: "\<not> live_set (w_k (boot si)) y" for y
    by (simp add: live_set_def boot_def free_ds_def)
  have "sem_inv si (w_k (boot si))"
    using assms dead \<open>\<not> allocated (ex_perm 0 0)\<close>
    by (simp add: sem_inv_def sets_ok_def vals_ok_def undos_ok_def links_ok_def undo_of_def undo_inv_def
        boot_def seminfo_ok_def key_table_def free_ds_def ex_perm_def)
  with dead show ?thesis by (simp add: world_inv_def) (simp add: boot_def)
qed

end
