(* ===== verification/SemProps.thy ===== *)
theory SemProps
  imports SemSys
begin

text \<open>
  What the semaphore facility guarantees, one theorem per promise, with concrete states for
  the witnesses. The theories below prove the steps; here they are put together.
\<close>

unbundle bit_operations_syntax

section \<open>States for the witnesses\<close>

definition ex_si :: seminfo where
  "ex_si = \<lparr>semmni = 2, semmsl = 4, semopm = 4, semume = 4, semvmx = 10, semaem = 8\<rparr>"

definition ex_sem :: "int \<Rightarrow> sem" where
  "ex_sem val = sem_zero\<lparr>semval := val\<rparr>"

text \<open>Set 0 is live with two semaphores of value 2; process 1 is owed 3 on semaphore 1.\<close>

definition ex_k :: semsys where
  "ex_k = \<lparr>sema = [\<lparr>sem_perm = ex_perm 0x8180 9, sem_base = [ex_sem 2, ex_sem 2], sem_nsems = 2,
                    sem_otime = 0, sem_ctime = 0\<rparr>, free_ds],
     sem_mark = 1, U_semundo = (\<lambda>p. if p = 1 then Some [\<lparr>un_aoe = 3, un_num = 1, un_id = 0\<rparr>] else None),
     semunp = [1], sem_err = None\<rparr>"

definition ex_c :: caller where
  "ex_c = \<lparr>c_proc = 1, c_pid = 101, mem_ok = True, out_ok = True\<rparr>"

definition ex_op :: "int \<Rightarrow> int \<Rightarrow> 16 word \<Rightarrow> sembuf" where
  "ex_op n a f = \<lparr>sem_num = n, sem_op = a, sem_flg = f\<rparr>"

lemmas ex_sem_defs = ex_si_def ex_sem_def ex_k_def ex_c_def ex_op_def sem_zero_def ex_perm_def free_ds_def

lemma ex_si_ok: "seminfo_ok ex_si"
  by (simp add: seminfo_ok_def ex_si_def)

lemma ex_alloc: "allocated (ex_perm 0x8180 9)" "\<not> allocated (ex_perm 0 0)"
  by (simp_all add: allocated_def ex_perm_def)

lemma ex_live: "live_set ex_k x \<longleftrightarrow> x = 0"
  using ex_alloc by (auto simp: live_set_def ex_k_def free_ds_def less_Suc_eq nth_Cons')

lemma ex_undo: "undo_of ex_k p = (if p = 1 then [\<lparr>un_aoe = 3, un_num = 1, un_id = 0\<rparr>] else [])"
  by (simp add: undo_of_def ex_k_def)

lemma ex_inv: "sem_inv ex_si ex_k"
proof -
  have "key_table (map sem_perm (sema ex_k)) (sem_mark ex_k)"
    using ex_alloc by (auto simp: key_table_def ex_k_def free_ds_def less_Suc_eq nth_Cons')
  then have "sets_ok ex_si ex_k"
    by (auto simp: sets_ok_def ex_live) (auto simp: ex_k_def ex_si_def ex_perm_def free_ds_def less_Suc_eq)
  moreover have "vals_ok ex_si ex_k"
    by (auto simp: vals_ok_def ex_live in_set_def sem_at_def val_ok_def)
      (auto simp: ex_k_def ex_si_def ex_sem_def less_Suc_eq)
  moreover have "undos_ok ex_si ex_k"
    by (auto simp: undos_ok_def ex_undo undo_inv_def undo_live_def ex_live)
      (simp_all add: ex_si_def sem_id_def ex_k_def ex_perm_def)
  moreover have "links_ok ex_k" by (simp add: links_ok_def ex_undo) (simp add: ex_k_def)
  ultimately show ?thesis using ex_si_ok by (simp add: sem_inv_def)
qed

lemma ex_id: "sem_id ex_si ex_k 0 = 0"
  by (simp add: sem_id_def ex_k_def ex_perm_def)

section \<open>Adjustments\<close>

text \<open>
  C12. For semaphore numbers below 32768, and operations between -32768 and 32768, \<open>semaoe\<close> implements one map from pairs of a set and a
  semaphore number to adjustments (for higher numbers, which a set may have, it does not: \<open>high_numbers_pile_up\<close>): when it returns 0 the entry of its semaphore has changed by minus the
  operation and no other entry of any process has; when it fails, \<open>u.u_error\<close> is set and
  every adjustment is as before.
\<close>

theorem semaoe_refines_map:
  assumes "seminfo_ok si" and "\<forall>p. undo_inv si (undo_of k p)" and "links_ok k"
    and "- 32768 \<le> v" and "v \<le> 32768" and "0 \<le> n" and "n < 32768"
    and "semaoe si c v i n k = (k', r)"
  shows "if r = 0
    then (\<lambda>p. adj_of (undo_of k' p)) = (\<lambda>p. adj_of (undo_of k p))
           (c_proc c := (adj_of (undo_of k (c_proc c)))((i, n) := adj_of (undo_of k (c_proc c)) (i, n) - v))
         \<and> (\<forall>p. undo_inv si (undo_of k' p))
    else sem_err k' \<noteq> None \<and> undo_of k' = undo_of k"
proof -
  have sm: "small_num (i, n)" using assms(6,7) by (simp add: small_num_def)
  note eff = semaoe_cases [OF assms(1-8)]
  show ?thesis
  proof (cases "r = 0")
    case True
    with eff obtain es where es: "undo_adj si v (i, n) (undo_of k (c_proc c)) = Some es"
      "undo_of k' = (undo_of k)(c_proc c := es)" by auto
    have inv: "undo_inv si (undo_of k (c_proc c))" using assms(2) by blast
    from undo_adj_look [OF assms(1) inv sm es(1)] undo_adj_inv [OF assms(1) inv sm es(1)] True assms(2)
    show ?thesis by (auto simp: es(2) fun_eq_iff)
  next
    case False
    with eff show ?thesis by simp
  qed
qed

theorem semaoe_refines_map_witness:
  "adj_of (undo_of (fst (semaoe ex_si ex_c 3 0 1 ex_k)) 1) (0, 1) = 0"
proof -
  have "case semaoe ex_si ex_c 3 0 1 ex_k of (k, r) \<Rightarrow> r = 0" by code_simp
  then obtain k' where r: "semaoe ex_si ex_c 3 0 1 ex_k = (k', 0)" by auto
  have inv: "\<forall>p. undo_inv ex_si (undo_of ex_k p)" "links_ok ex_k"
    using ex_inv by (simp_all add: sem_inv_def undos_ok_def)
  have "(\<lambda>p. adj_of (undo_of k' p)) = (\<lambda>p. adj_of (undo_of ex_k p))
           (c_proc ex_c := (adj_of (undo_of ex_k (c_proc ex_c)))((0, 1) := adj_of (undo_of ex_k (c_proc ex_c)) (0, 1) - 3))"
    using semaoe_refines_map [OF ex_si_ok inv _ _ _ _ r] by simp
  then have "adj_of (undo_of k' 1) (0, 1) = adj_of (undo_of ex_k 1) (0, 1) - 3"
    by (simp add: ex_c_def fun_eq_iff)
  then show ?thesis by (simp add: r ex_undo adj_of_def undo_key_def)
qed

text \<open>
  With semaphore numbers of 32768 and more, which the limit on the size of a set
  allows, \<open>semaoe\<close> never finds the entry it made: its parameter is a \<open>short\<close> and the
  field an \<open>unsigned short\<close>. An operation and the operation that takes it back leave two
  entries, where they should leave none.
\<close>

lemma high_numbers_pile_up:
  assumes "seminfo_ok si" and "32768 \<le> n" and "n < 65536" and "0 < v" and "v \<le> semaem si"
    and "2 \<le> semume si" and "mem_ok c" and "undo_of k (c_proc c) = []"
    and "semaoe si c v i n k = (k1, r1)" and "semaoe si c (- v) i n k1 = (k2, r2)"
  shows "r1 = 0 \<and> r2 = 0 \<and> undo_of k2 (c_proc c) =
    [\<lparr>un_aoe = v, un_num = n, un_id = i\<rparr>, \<lparr>un_aoe = - v, un_num = n, un_id = i\<rparr>]"
proof -
  have "(n + 32768) mod 65536 = (n - 32768 + 65536) mod 65536" by (simp add: algebra_simps)
  also have "\<dots> = n - 32768" using assms(2,3) by (simp only: mod_add_self2 mod_pos_pos_trivial)
  finally have n1: "sshort n = n - 65536" by (simp add: sshort_def)
  have "(n - 65536) mod 65536 = (n - 65536 + 65536) mod 65536" by (simp only: mod_add_self2)
  also have "\<dots> = n" using assms(2,3) by simp
  finally have n2: "ushort (n - 65536) = n" by (simp add: ushort_def)
  note n = n1 n2
  have v: "sshort v = v" "sshort (- v) = - v"
    using assms(1,4,5) by (simp_all add: seminfo_ok_def kwrap)
  have e1: "aoe_edit si v i (n - 65536) [] = AoeOk [\<lparr>un_aoe = - v, un_num = n, un_id = i\<rparr>]"
    using assms(6) n by (simp add: aoe_edit_def)
  have k1: "r1 = 0" "undo_of k1 (c_proc c) = [\<lparr>un_aoe = - v, un_num = n, un_id = i\<rparr>]"
    using assms(4,5,7-9) e1 by (auto simp: semaoe_def v n undo_of_def Let_def)
  have e2: "aoe_edit si (- v) i (n - 65536) [\<lparr>un_aoe = - v, un_num = n, un_id = i\<rparr>]
      = AoeOk [\<lparr>un_aoe = v, un_num = n, un_id = i\<rparr>, \<lparr>un_aoe = - v, un_num = n, un_id = i\<rparr>]"
    using assms(2,3,6) n by (simp add: aoe_edit_def aoe_before_def)
  then show ?thesis
    using assms(4,5,7,10) k1 by (auto simp: semaoe_def v n undo_of_def Let_def)
qed

lemma high_numbers_pile_up_witness:
  "case semaoe seminfo_init ex_c 1 7 40000 (ex_k\<lparr>U_semundo := \<lambda>p. None\<rparr>) of (k1, r1) \<Rightarrow>
   case semaoe seminfo_init ex_c (- 1) 7 40000 k1 of (k2, r2) \<Rightarrow> length (undo_of k2 1) = 2"
proof -
  let ?k = "ex_k\<lparr>U_semundo := \<lambda>p. None\<rparr>"
  obtain k1 r1 where r1: "semaoe seminfo_init ex_c 1 7 40000 ?k = (k1, r1)" by fastforce
  obtain k2 r2 where r2: "semaoe seminfo_init ex_c (- 1) 7 40000 k1 = (k2, r2)" by fastforce
  have "seminfo_ok seminfo_init" by (simp add: seminfo_ok_def seminfo_init_def)
  from high_numbers_pile_up [OF this _ _ _ _ _ _ _ r1 r2] have "length (undo_of k2 1) = 2"
    by (simp add: seminfo_init_def ex_c_def undo_of_def)
  then show ?thesis by (simp add: r1 r2)
qed

section \<open>One call\<close>

text \<open>
  C13. A pass of \<open>atomic\<close> over operations on semaphores of the set, of which none with \<open>SEM_UNDO\<close> has a number of 32768 or more (for those see
  \<open>high_numbers_pile_up\<close>), does all of its operations or none: when it comes to the end
  every value has changed by the sum of the operations on it, and the process's adjustments by
  the negated sums of those with \<open>SEM_UNDO\<close>; when it fails or goes to sleep, every value and
  every adjustment is what it was, and the error is set if it failed.
\<close>

theorem atomic_all_or_nothing:
  assumes "sem_inv si k" and "live_set k x" and "i = sem_id si k x"
    and "\<forall>op \<in> set ops. op_ok op \<and> sem_num op < sem_nsems (sema k ! x)"
  shows "case atomic si c i x ops k of
     PDone k' \<Rightarrow> (\<forall>n. in_set k x n \<longrightarrow>
          semval (sem_at k' x n) = semval (sem_at k x n) + op_sum ops n
          \<and> 0 \<le> semval (sem_at k' x n) \<and> semval (sem_at k' x n) \<le> semvmx si)
        \<and> (\<forall>m. adj_of (undo_of k' (c_proc c)) m = adj_of (undo_of k (c_proc c)) m
             - sum_list (map fst (filter (\<lambda>a. snd a = m) (op_adjs i ops))))
   | PErr k' \<Rightarrow> same_obs k k' \<and> sem_err k' \<noteq> None
   | PSleep k' n m w \<Rightarrow> same_obs k k' \<and> n < length ops \<and> m = nat (sem_num (ops ! n))"
proof -
  have call: "call_ok si k i x ops" using assms by (simp add: call_ok_def)
  note res = atomic_ok [OF call, of c]
  show ?thesis
  proof (cases "atomic si c i x ops k")
    case (PDone k')
    with res have p: "progress si (c_proc c) i x k ops k'" by (simp add: atomic_res_ok_def)
    have ok: "seminfo_ok si \<and> undo_inv si (undo_of k (c_proc c))"
      using assms(1) by (simp add: sem_inv_def undos_ok_def)
    have small: "\<forall>(v, m) \<in> set (op_adjs i ops). small_num m"
      using assms(4) by (auto simp: op_adjs_def small_num_def op_ok_def)
    have "semadj.adj_all si (op_adjs i ops) (undo_of k (c_proc c)) = Some (undo_of k' (c_proc c))"
      using p by (simp add: progress_def)
    from semadj.adj_all_look [OF ok small this]
    have adj: "adj_of (undo_of k' (c_proc c)) m = adj_of (undo_of k (c_proc c)) m
             - sum_list (map fst (filter (\<lambda>a. snd a = m) (op_adjs i ops)))" for m .
    have "in_set k x n \<Longrightarrow> semval (sem_at k' x n) = semval (sem_at k x n) + op_sum ops n
          \<and> 0 \<le> semval (sem_at k' x n) \<and> semval (sem_at k' x n) \<le> semvmx si" for n
      using semval_at_progress [OF p] unfolding val_ok_def by blast
    with adj show ?thesis unfolding PDone pass.case by blast
  next
    case (PErr k')
    with res show ?thesis by (simp add: atomic_res_ok_def undone_def)
  next
    case (PSleep k' n m w)
    with res show ?thesis by (simp add: atomic_res_ok_def undone_def)
  qed
qed

theorem atomic_all_or_nothing_witness:
  "(case atomic ex_si ex_c 0 0 [ex_op 0 5 SEM_UNDO, ex_op 1 (- 3) 0] ex_k of
      PSleep k' n m w \<Rightarrow> same_obs ex_k k' \<and> n = 1 | _ \<Rightarrow> False) \<and>
   (case atomic ex_si ex_c 0 0 [ex_op 0 5 SEM_UNDO, ex_op 1 (- 2) 0] ex_k of
      PDone k' \<Rightarrow> semval (sem_at k' 0 0) = 7 | _ \<Rightarrow> False)"
proof
  have live: "live_set ex_k 0" by (simp add: ex_live)
  have n: "sem_nsems (sema ex_k ! 0) = 2" by (simp add: ex_k_def)
  let ?a = "[ex_op 0 5 SEM_UNDO, ex_op 1 (- 3) 0]" and ?b = "[ex_op 0 5 SEM_UNDO, ex_op 1 (- 2) 0]"
  have "case atomic ex_si ex_c 0 0 ?a ex_k of PSleep k' n m w \<Rightarrow> n = 1 | _ \<Rightarrow> False" by code_simp
  moreover have "\<forall>op \<in> set ?a. op_ok op \<and> sem_num op < sem_nsems (sema ex_k ! 0)"
    by (simp add: n op_ok_def ex_op_def)
  note atomic_all_or_nothing [OF ex_inv live ex_id [symmetric] this, of ex_c]
  ultimately show "case atomic ex_si ex_c 0 0 ?a ex_k of
      PSleep k' n m w \<Rightarrow> same_obs ex_k k' \<and> n = 1 | _ \<Rightarrow> False"
    by (auto split: pass.splits)
  have "case atomic ex_si ex_c 0 0 ?b ex_k of PDone k' \<Rightarrow> True | _ \<Rightarrow> False" by code_simp
  then obtain k' where k': "atomic ex_si ex_c 0 0 ?b ex_k = PDone k'" by (auto split: pass.splits)
  have "\<forall>op \<in> set ?b. op_ok op \<and> sem_num op < sem_nsems (sema ex_k ! 0)"
    by (simp add: n op_ok_def ex_op_def)
  from atomic_all_or_nothing [OF ex_inv live ex_id [symmetric] this, of ex_c]
  have "in_set ex_k 0 0 \<longrightarrow> semval (sem_at k' 0 0) = semval (sem_at ex_k 0 0) + op_sum ?b 0"
    by (simp add: k')
  then have "semval (sem_at k' 0 0) = 7"
    by (simp add: in_set_def sem_at_def ex_k_def op_sum_def ex_op_def ex_sem_def)
  then show "case atomic ex_si ex_c 0 0 ?b ex_k of PDone k' \<Rightarrow> semval (sem_at k' 0 0) = 7 | _ \<Rightarrow> False"
    by (simp add: k')
qed


text \<open>
  \<open>order\<close> does its operations one after the other and keeps what it has done: when it
  stops, at an error or a sleep, exactly the operations before the one it stops at have taken
  effect, and a sleep is one the awaited semaphore justifies.
\<close>

lemma order_keeps_prefix:
  assumes "sem_inv si k" and "live_set k x" and "i = sem_id si k x"
    and "\<forall>op \<in> set ops. op_ok op \<and> sem_num op < sem_nsems (sema k ! x)"
  shows "case order_from si c i x ops 0 k of
     ODone k' \<Rightarrow> \<forall>m. in_set k x m \<longrightarrow> semval (sem_at k' x m) = semval (sem_at k x m) + op_sum ops m
   | OErr k' n \<Rightarrow> n < length ops \<and> sem_err k' \<noteq> None \<and> (\<forall>m. in_set k x m \<longrightarrow>
        semval (sem_at k' x m) = semval (sem_at k x m) + op_sum (take n ops) m)
   | OSleep k' n m w \<Rightarrow> n < length ops \<and> blocked k' x 0 (ops ! n) w \<and> (\<forall>m. in_set k x m \<longrightarrow>
        semval (sem_at k' x m) = semval (sem_at k x m) + op_sum (take n ops) m)"
proof -
  have call: "call_ok si k i x ops" using assms by (simp add: call_ok_def)
  note res = order_ok [OF call, of c 0]
  have val: "progress si (c_proc c) i x k pre k' \<Longrightarrow> \<forall>m. in_set k x m \<longrightarrow>
      semval (sem_at k' x m) = semval (sem_at k x m) + op_sum pre m" for pre k'
    using semval_at_progress by blast
  show ?thesis
    using res val by (cases "order_from si c i x ops 0 k") (auto simp: order_res_ok_def)
qed

lemma order_keeps_prefix_witness:
  "case order_from ex_si ex_c 0 0 [ex_op 0 5 0, ex_op 1 (- 3) SEM_NOWAIT] 0 ex_k of
     OErr k' n \<Rightarrow> n = 1 \<and> semval (sem_at k' 0 0) = 7 | _ \<Rightarrow> False"
proof -
  let ?ops = "[ex_op 0 5 0, ex_op 1 (- 3) SEM_NOWAIT]"
  have live: "live_set ex_k 0" by (simp add: ex_live)
  have ops: "\<forall>op \<in> set ?ops. op_ok op \<and> sem_num op < sem_nsems (sema ex_k ! 0)"
    by (simp add: op_ok_def ex_op_def ex_k_def)
  have "case order_from ex_si ex_c 0 0 ?ops 0 ex_k of OErr k' n \<Rightarrow> n = 1 | _ \<Rightarrow> False" by code_simp
  then obtain k' where k': "order_from ex_si ex_c 0 0 ?ops 0 ex_k = OErr k' 1" by (auto split: opass.splits)
  from order_keeps_prefix [OF ex_inv live ex_id [symmetric] ops, of ex_c]
  have "in_set ex_k 0 0 \<longrightarrow> semval (sem_at k' 0 0) = semval (sem_at ex_k 0 0) + op_sum (take 1 ?ops) 0"
    unfolding k' opass.case by blast
  then have "semval (sem_at k' 0 0) = 7"
    by (simp add: in_set_def sem_at_def ex_k_def op_sum_def ex_op_def ex_sem_def)
  then show ?thesis unfolding k' opass.case by simp
qed

text \<open>
  The smallest operation, -32768, can never be done, since a value is at most
  \<open>semvmx\<close>. \<open>order\<close> refuses it with \<open>ERANGE\<close>. In \<open>atomic\<close> the test against
  \<open>semvmx\<close> comes after the test of the value and is never reached: without \<open>IPC_NOWAIT\<close>
  the call sleeps for good.
\<close>

lemma smallest_operation:
  assumes "sem_inv si k" and "live_set k x" and "in_set k x (nat (sem_num op))"
    and "sem_op op = - 32768"
  shows "atomic si c i x [op] k =
       (if sem_flg op AND SEM_NOWAIT \<noteq> 0 then PErr (set_err EAGAIN k)
        else PSleep k 0 (nat (sem_num op)) NWait)
     \<and> order_from si c i x [op] 0 k = OErr (set_err ERANGE k) 0"
proof -
  have "semvmx si \<le> 32767" using assms(1) by (simp add: sem_inv_def seminfo_ok_def)
  moreover have "semval (sem_at k x (nat (sem_num op))) \<le> semvmx si" by (rule live_val [OF assms(1-3)])
  ultimately show ?thesis
    using assms(4) by (simp add: atomic_def Let_def atomic_wait_def)
qed

lemma smallest_operation_witness:
  "atomic ex_si ex_c 0 0 [ex_op 1 (- 32768) 0] ex_k = PSleep ex_k 0 1 NWait"
  using smallest_operation [OF ex_inv, of 0 "ex_op 1 (- 32768) 0" ex_c 0]
  by (simp add: ex_live in_set_def ex_op_def) (simp add: ex_k_def)

text \<open>
  A successful \<open>SETVAL\<close> gives the semaphore exactly the argument, which is in range,
  clears every process's adjustment of that semaphore and no other, and touches no other
  semaphore.
\<close>

lemma setval_clears_adjustments:
  assumes "sem_inv si k" and "live_set k x" and "semid = sem_id si k x"
    and "0 \<le> semnum" and "semnum < sem_nsems (sema k ! x)" and "0 \<le> arg" and "arg \<le> semvmx si"
    and "ipcaccess v cr (sem_perm (sema k ! x)) IPC_W = None" and "sem_err k = None"
  shows "\<exists>k'. semctl si v cr c now semid semnum 8 (ArgInt arg) k = Some (k', 0, NoOut)
    \<and> sem_inv si k' \<and> semval (sem_at k' x (nat semnum)) = arg
    \<and> (\<forall>p. adj_of (undo_of k' p) = (adj_of (undo_of k p))((semid, semnum) := 0))
    \<and> (\<forall>y n. in_set k y n \<longrightarrow> (y, n) \<noteq> (x, nat semnum) \<longrightarrow> sem_at k' y n = sem_at k y n)"
proof -
  have ok: "seminfo_ok si" "sets_ok si k" and vmx: "semvmx si \<le> 32767"
    using assms(1) by (simp_all add: sem_inv_def seminfo_ok_def)
  have conv: "semconv si semid k = Some x" using semconv_id [OF ok(2,1) assms(2)] assms(3) by simp
  have "arg mod 2 ^ 32 = arg" using assms(6,7) vmx by simp
  then have "\<exists>k'. semctl_setval si v cr c semid semnum arg x k = Some (k', 0, NoOut)"
    using assms by (simp add: semctl_setval_def sem_rval_def Let_def)
  then obtain k' where res: "semctl_setval si v cr c semid semnum arg x k = Some (k', 0, NoOut)" by blast
  note eff = semctl_setval_effect [OF assms(1-8) res]
  have "adj_of (filter (\<lambda>e. undo_key e \<noteq> m) es) = (adj_of es)(m := 0)" for m es
  proof (induction es)
    case (Cons e es)
    then show ?case by (auto simp: adj_of_Cons fun_eq_iff)
  qed (simp add: adj_of_def fun_eq_iff)
  then have "\<forall>p. adj_of (undo_of k' p) = (adj_of (undo_of k p))((semid, semnum) := 0)"
    using eff by simp
  moreover have "semctl si v cr c now semid semnum 8 (ArgInt arg) k = Some (k', 0, NoOut)"
    using res by (simp add: semctl_def conv)
  ultimately show ?thesis using eff by blast
qed

lemma setval_clears_adjustments_witness:
  "\<exists>k'. semctl ex_si ex_vars ex_cred ex_c 5 0 1 8 (ArgInt 7) ex_k = Some (k', 0, NoOut)
    \<and> adj_of (undo_of k' 1) (0, 1) = 0"
proof -
  have "ipcaccess ex_vars ex_cred (sem_perm (sema ex_k ! 0)) IPC_W = None"
    by (simp add: ipcaccess_def ex_k_def ex_perm_def ex_cred_defs)
  moreover have "sem_nsems (sema ex_k ! 0) = 2" "sem_err ex_k = None" "semvmx ex_si = 10"
    by (simp_all add: ex_k_def ex_si_def)
  ultimately obtain k' where
    "semctl ex_si ex_vars ex_cred ex_c 5 0 1 8 (ArgInt 7) ex_k = Some (k', 0, NoOut)"
    "\<forall>p. adj_of (undo_of k' p) = (adj_of (undo_of ex_k p))((0, 1) := 0)"
    using setval_clears_adjustments [OF ex_inv, of 0 0 1 7 ex_vars ex_cred ex_c 5] by (auto simp: ex_live ex_id)
  then show ?thesis by (intro exI conjI) (assumption, simp)
qed

text \<open>
  C14. When a process exits, each of its adjustments is added once to its semaphore unless
  the value would leave its range, no other value changes, the process has no adjustments left
  and those of the others are untouched. The call always comes back.
\<close>

theorem semexit_applies_adjustments:
  assumes "sem_inv si k"
  shows "\<exists>k'. semexit si me k = Some k' \<and> sem_inv si k' \<and> undo_of k' = (undo_of k)(me := [])
    \<and> (\<forall>y n. live_set k y \<longrightarrow> in_set k y n \<longrightarrow>
         semval (sem_at k' y n) =
           (let a = semval (sem_at k y n) + adj_of (undo_of k me) (sem_id si k y, int n)
            in if 0 \<le> a \<and> a \<le> semvmx si then a else semval (sem_at k y n)))"
  using semexit_effect [OF assms, of me] unfolding adjusted_def Let_def by blast

theorem semexit_applies_adjustments_witness:
  "\<exists>k'. semexit ex_si 1 ex_k = Some k' \<and> semval (sem_at k' 0 1) = 5 \<and> semval (sem_at k' 0 0) = 2"
proof -
  from semexit_applies_adjustments [OF ex_inv, of 1] obtain k' where k': "semexit ex_si 1 ex_k = Some k'"
    and at: "live_set ex_k y \<longrightarrow> in_set ex_k y n \<longrightarrow> semval (sem_at k' y n) =
           (let a = semval (sem_at ex_k y n) + adj_of (undo_of ex_k 1) (sem_id ex_si ex_k y, int n)
            in if 0 \<le> a \<and> a \<le> semvmx ex_si then a else semval (sem_at ex_k y n))" for y n
    by blast
  have ins: "in_set ex_k 0 0" "in_set ex_k 0 1" by (simp_all add: in_set_def ex_k_def)
  have vals: "semval (sem_at ex_k 0 0) = 2" "semval (sem_at ex_k 0 1) = 2" "semvmx ex_si = 10"
    by (simp_all add: sem_at_def ex_k_def ex_sem_def ex_si_def)
  have "semval (sem_at k' 0 1) = 5" "semval (sem_at k' 0 0) = 2"
    using at [of 0 1] at [of 0 0] ins
    by (simp_all add: Let_def ex_live vals vals(2) [unfolded One_nat_def] ex_id ex_undo adj_of_def undo_key_def)
  with k' show ?thesis by blast
qed

text \<open>
  After \<open>IPC_RMID\<close> the identifier is refused with \<open>EINVAL\<close> by every call, no process
  owes or is owed an adjustment under it, and the other sets are untouched.
\<close>

lemma rmid_kills_identifier:
  assumes "sem_inv si k" and "live_set k x" and "semid = sem_id si k x"
    and "owner_or BYPASS_DAC_WRITE v cr (sem_perm (sema k ! x))"
  shows "\<exists>k'. semctl si v cr c now semid semnum 0 arg k = Some (k', if sem_err k = None then 0 else -1, NoOut)
    \<and> sem_inv si k' \<and> semconv si semid k' = None
    \<and> (\<forall>p. \<forall>e \<in> set (undo_of k' p). un_id e \<noteq> semid)
    \<and> (\<forall>y. y \<noteq> x \<longrightarrow> sema k' ! y = sema k ! y)"
proof -
  have ok: "seminfo_ok si" "sets_ok si k" using assms(1) by (simp_all add: sem_inv_def)
  have conv: "semconv si semid k = Some x" using semconv_id [OF ok(2,1) assms(2)] assms(3) by simp
  from assms(4) obtain k' where res: "semctl_rmid v cr semid x k = Some (k', if sem_err k = None then 0 else -1, NoOut)"
    by (simp add: semctl_rmid_def Let_def sem_rval_def)
  note eff = semctl_rmid_effect [OF assms(1-3) res assms(4)]
  have x: "x < length (sema k)" using assms(2) by (simp add: live_set_def)
  have len: "length (sema k') = length (sema k)"
    using res assms(4) by (auto simp: semctl_rmid_def Let_def sem_rval_def)
  have "\<not> allocated (sem_perm (sema k' ! x))" using eff x len by (simp add: live_set_def)
  moreover have "nat (semid mod 2 ^ 32 mod semmni si) = x"
    using conv by (simp add: semconv_def Let_def split: if_splits)
  ultimately have "semconv si semid k' = None" by (simp add: semconv_def Let_def)
  moreover have "semctl si v cr c now semid semnum 0 arg k = Some (k', if sem_err k = None then 0 else -1, NoOut)"
    using res by (simp add: semctl_def conv)
  ultimately show ?thesis using eff by blast
qed

lemma rmid_kills_identifier_witness:
  "\<exists>k'. semctl ex_si ex_vars ex_cred ex_c 5 0 0 0 (ArgInt 0) ex_k = Some (k', 0, NoOut)
     \<and> semconv ex_si 0 k' = None"
proof -
  have "owner_or BYPASS_DAC_WRITE ex_vars ex_cred (sem_perm (sema ex_k ! 0))"
    by (simp add: owner_or_def ex_k_def ex_perm_def ex_cred_def)
  from rmid_kills_identifier [OF ex_inv _ ex_id [symmetric] this, of ex_c 5 0 "ArgInt 0"]
  moreover have "live_set ex_k 0" "sem_err ex_k = None" by (simp add: ex_live, simp add: ex_k_def)
  ultimately show ?thesis by simp blast
qed

text \<open>
  The identifier \<open>semget\<close> returns names the set it found or made: \<open>semconv\<close> accepts it,
  and the set carries the key that was asked for.
\<close>

lemma semget_id_accepted:
  assumes "sem_inv si k" and "sem_err k = None"
    and "semget si cr c now key nsems flg k = Some (k', r)" and "r \<noteq> - 1"
  shows "\<exists>x. semconv si r k' = Some x \<and> ip_key (sem_perm (sema k' ! x)) = key
    \<and> nsems \<le> sem_nsems (sema k' ! x) \<and> 0 \<le> r"
proof (cases "ipcget cr key flg (map sem_perm (sema k)) (sem_mark k)")
  case (IGErr e)
  with assms show ?thesis by (simp add: semget_def sem_ret_def)
next
  case IGWild
  with assms show ?thesis by (simp add: semget_def)
next
  case (IGOk x s p m)
  have tab: "key_table (map sem_perm (sema k)) (sem_mark k)" and ok: "seminfo_ok si"
    using assms(1) by (simp_all add: sem_inv_def sets_ok_def)
  note out = ipcget_handed_out [OF tab IGOk]
  have x: "x < length (sema k)" using out by (simp add: handed_out_def)
  have inv': "sem_inv si k'" using semget_ok [OF assms(1), of cr c now key nsems flg] assms(3)
    by (auto simp: get_ok_def)
  have fit: "ushort nsems = nsems" if "0 < nsems" "nsems \<le> semmsl si"
    using that ok by (auto simp: seminfo_ok_def kwrap)
  have same: "s = 0 \<Longrightarrow> 0 < sem_nsems (sema k ! x)"
    using out live_nsems(1) [OF assms(1), of x] x by (auto simp: handed_out_def live_set_def)
  have eff: "length (sema k') = length (sema k)" "sem_perm (sema k' ! x) = p" "r = ip_seq p * semmni si + int x"
    "nsems \<le> sem_nsems (sema k' ! x)"
    using assms(2-4) IGOk x fit same
    by (auto simp: semget_def sem_ret_def Let_def split: if_splits)
  have "allocated p" "ip_key p = key" using out by (simp_all add: handed_out_def)
  with eff x have live: "live_set k' x" by (simp add: live_set_def)
  have r: "r = sem_id si k' x" using eff by (simp add: sem_id_def)
  have sets: "sets_ok si k'" using inv' by (simp add: sem_inv_def)
  have "0 \<le> ip_seq p" using sets x eff(1,2) unfolding sets_ok_def by metis
  then have "0 \<le> r" using ok eff(3) by (simp add: seminfo_ok_def)
  with semconv_id [OF sets ok live] r eff \<open>ip_key p = key\<close> show ?thesis by auto
qed

lemma semget_id_accepted_witness:
  "\<exists>k' r x. semget ex_si ex_cred ex_c 5 77 3 0x380 ex_k = Some (k', r) \<and> semconv ex_si r k' = Some x
     \<and> ip_key (sem_perm (sema k' ! x)) = 77"
proof -
  have "case semget ex_si ex_cred ex_c 5 77 3 0x380 ex_k of Some (k', r) \<Rightarrow> r \<noteq> - 1 | None \<Rightarrow> False" by code_simp
  then obtain k' r where r: "semget ex_si ex_cred ex_c 5 77 3 0x380 ex_k = Some (k', r)" "r \<noteq> - 1"
    by (auto split: option.splits)
  have "sem_err ex_k = None" by (simp add: ex_k_def)
  from semget_id_accepted [OF ex_inv this r] r(1) show ?thesis by blast
qed

text \<open>
  The four commands of \<open>semctl\<close> that read one semaphore, and \<open>SETVAL\<close>, compare the
  semaphore number with the size of the set as signed integers: a negative number passes the
  test and memory in front of the array is read, or written.
\<close>

lemma negative_semnum_is_wild:
  assumes "semconv si semid k = Some x" and "semnum < 0" and "0 \<le> sem_nsems (sema k ! x)"
    and "cmd \<in> {3, 4, 5, 7} \<and> ipcaccess v cr (sem_perm (sema k ! x)) IPC_R = None
      \<or> cmd = 8 \<and> ipcaccess v cr (sem_perm (sema k ! x)) IPC_W = None \<and> arg = ArgInt a \<and> 0 \<le> a \<and> a \<le> semvmx si
        \<and> semvmx si \<le> 32767"
  shows "semctl si v cr c now semid semnum cmd arg k = None"
  using assms(4)
proof
  assume "cmd \<in> {3, 4, 5, 7} \<and> ipcaccess v cr (sem_perm (sema k ! x)) IPC_R = None"
  with assms(1-3) show ?thesis
    by (auto simp: semctl_def semctl_getncnt_def semctl_getpid_def semctl_getval_def semctl_getzcnt_def
        semctl_get_def)
next
  assume w: "cmd = 8 \<and> ipcaccess v cr (sem_perm (sema k ! x)) IPC_W = None \<and> arg = ArgInt a \<and> 0 \<le> a
      \<and> a \<le> semvmx si \<and> semvmx si \<le> 32767"
  then have "a mod 2 ^ 32 = a" by simp
  with w assms(1-3) show ?thesis by (auto simp: semctl_def semctl_setval_def)
qed

lemma negative_semnum_is_wild_witness:
  "semctl ex_si ex_vars ex_cred ex_c 5 0 (- 1) 5 (ArgInt 0) ex_k = None"
proof (rule negative_semnum_is_wild)
  show "semconv ex_si 0 ex_k = Some 0" by code_simp
  show "5 \<in> {3, 4, 5, 7} \<and> ipcaccess ex_vars ex_cred (sem_perm (sema ex_k ! 0)) IPC_R = None
      \<or> 5 = 8 \<and> ipcaccess ex_vars ex_cred (sem_perm (sema ex_k ! 0)) IPC_W = None \<and> ArgInt 0 = ArgInt 0
        \<and> 0 \<le> (0 :: int) \<and> 0 \<le> semvmx ex_si \<and> semvmx ex_si \<le> 32767"
    by (simp add: ipcaccess_def ex_k_def ex_perm_def ex_cred_defs)
qed (simp_all add: ex_k_def)

section \<open>Many threads\<close>


text \<open>An equation for evaluation: 65535 is not counted out as a natural number.\<close>

lemma sched_ok_int [code]:
  "sched_ok si e w \<longleftrightarrow>
     (case e of
        EvOp t v cr c now semid inops nsops \<Rightarrow> int t < 65535 \<and> w_thr w t = None
      | EvCtl v cr c now semid semnum cmd arg \<Rightarrow>
          cmd = 0 \<longrightarrow>
            (case semconv si semid (w_k w) of
               None \<Rightarrow> True
             | Some x \<Rightarrow> \<forall>t < max_thr.
                 (case w_thr w t of
                    None \<Rightarrow> True
                  | Some (sl, b) \<Rightarrow> sl_x sl = x \<longrightarrow>
                      sl_seq sl \<noteq> (ip_seq (sem_perm (sema (w_k w) ! x)) + 1) mod 65536))
      | _ \<Rightarrow> True)"
  by (cases e) (simp_all add: sched_ok_def max_thr_def)






definition lost_ops :: "sembuf list" where
  "lost_ops = [ex_op 0 (- 1) 0, ex_op 0 0 0]"

text \<open>
  What \<open>no_lost_wakeup\<close> leaves out does happen. A thread that, in one call, takes one from a
  semaphore and then waits for it to be zero sleeps while the value is 2; when another thread
  takes one, the value is 1 and the call could be completed, but the decrement did not make
  the value zero and nobody is woken.
\<close>

lemma zero_wait_is_lost:
  "case run (sem_next ex_si)
      [EvGet ex_cred ex_c 1 77 2 0x380, EvOp 5 ex_vars ex_cred ex_c 2 0 [ex_op 0 2 0] 1,
       EvOp 4 ex_vars ex_cred ex_c 3 0 lost_ops 2, EvOp 5 ex_vars ex_cred ex_c 4 0 [ex_op 0 (- 1) 0] 1,
       EvWake 4 True 5] (boot ex_si) of
     None \<Rightarrow> False
   | Some w \<Rightarrow> 4 \<in> set (wait_list ZWait (sem_at (w_k w) 0 0))
       \<and> (case atomic ex_si ex_c 0 0 lost_ops (w_k w) of PDone k \<Rightarrow> semval (sem_at k 0 0) = 0 | _ \<Rightarrow> False)"
  by code_simp

end
