(* ===== verification/Msg.thy ===== *)
theory Msg
  imports Ipc
begin

text \<open>
  The message queues of \<open>src/bos/kernel/ipc/msg.c\<close>, compiled for the uniprocessor kernel:
  \<open>mes_lock\<close> is held by every call from its first look at the shared state to its end or to
  the sleep. The messages linked from \<open>msg_first\<close> to \<open>msg_last\<close> are a list, a pointer to a
  message together with the one to its predecessor is an index into it, and an event word
  (\<open>msg_rwait\<close>, \<open>msg_wwait\<close>) is the list of the threads asleep on it. The calls of
  \<open>selnotify\<close> are recorded in \<open>msg_notes\<close>.
\<close>

unbundle bit_operations_syntax

section \<open>State\<close>

record msg_hdr =
  mtime :: int
  muid :: uid_t
  mgid :: uid_t
  mpid :: int
  mtype :: int           \<comment> \<open>\<open>long\<close>\<close>

record msg =
  msg_attr :: msg_hdr
  msg_ts :: int          \<comment> \<open>\<open>unsigned short\<close>\<close>
  msg_spot :: "8 word list"

record msqid_ds =
  msg_perm :: ipc_perm
  msg_q :: "msg list"
  msg_cbytes :: int      \<comment> \<open>\<open>unsigned short\<close>\<close>
  msg_qnum :: int        \<comment> \<open>\<open>unsigned short\<close>\<close>
  msg_qbytes :: int      \<comment> \<open>\<open>unsigned short\<close>\<close>
  msg_lspid :: int
  msg_lrpid :: int
  msg_stime :: int
  msg_rtime :: int
  msg_ctime :: int
  msg_rwait :: "nat list"
  msg_wwait :: "nat list"
  msg_reqevents :: "16 word"

record msginfo =
  msgmax :: int
  msgmnb :: int
  msgmni :: int
  msgmnm :: int

definition msginfo_init :: msginfo where
  "msginfo_init = \<lparr>msgmax = 65535, msgmnb = 65535, msgmni = 4096, msgmnm = 8192\<rparr>"

type_synonym msg_note = "int \<times> 16 word"

record msgsys =
  msgque :: "msqid_ds list"
  msg_mark :: nat
  msg_notes :: "msg_note list"
  msg_err :: uerror

abbreviation MSG_RWAIT :: "32 word" where "MSG_RWAIT \<equiv> 0x200"      \<comment> \<open>01000\<close>
abbreviation MSG_WWAIT :: "32 word" where "MSG_WWAIT \<equiv> 0x400"      \<comment> \<open>02000\<close>
abbreviation MSG_NOERROR :: "32 word" where "MSG_NOERROR \<equiv> 0x1000" \<comment> \<open>010000\<close>
abbreviation POLLIN :: "16 word" where "POLLIN \<equiv> 1"
abbreviation POLLOUT :: "16 word" where "POLLOUT \<equiv> 2"
abbreviation POLLPRI :: "16 word" where "POLLPRI \<equiv> 4"
abbreviation POLLSYNC :: "16 word" where "POLLSYNC \<equiv> 0x8000"

definition m_err :: "errno \<Rightarrow> msgsys \<Rightarrow> msgsys" where
  "m_err e k = k\<lparr>msg_err := Some e\<rparr>"

text \<open>Storing a queue, with the notifications made while it was changed.\<close>

definition q_put :: "nat \<Rightarrow> msqid_ds \<times> msg_note list \<Rightarrow> msgsys \<Rightarrow> msgsys" where
  "q_put x r k = k\<lparr>msgque := (msgque k)[x := fst r], msg_notes := msg_notes k @ snd r\<rparr>"

definition perm_mode :: "(32 word \<Rightarrow> 32 word) \<Rightarrow> msqid_ds \<Rightarrow> msqid_ds" where
  "perm_mode f q = q\<lparr>msg_perm := (msg_perm q)\<lparr>ip_mode := f (ip_mode (msg_perm q))\<rparr>\<rparr>"

section \<open>msgconv\<close>

definition msgconv :: "msginfo \<Rightarrow> int \<Rightarrow> msgsys \<Rightarrow> nat option" where
  "msgconv mi i k =
     (let i = i mod 2 ^ 32; sq = ushort (i div msgmni mi); index = nat (i mod msgmni mi) in
      if index \<ge> msg_mark k then None
      else
        let p = msg_perm (msgque k ! index) in
        if sq \<noteq> ip_seq p \<or> \<not> allocated p then None else Some index)"

section \<open>msgfree\<close>

text \<open>The message at index \<open>i\<close> is unlinked; writers and pollers for output are told.\<close>

definition msgfree :: "int \<Rightarrow> nat \<Rightarrow> msqid_ds \<Rightarrow> msqid_ds \<times> msg_note list" where
  "msgfree msgid i q =
     (let q = q\<lparr>msg_q := take i (msg_q q) @ drop (Suc i) (msg_q q), msg_qnum := ushort (msg_qnum q - 1)\<rparr>;
          q = (if ip_mode (msg_perm q) AND MSG_WWAIT \<noteq> 0
               then perm_mode (\<lambda>m. m AND NOT MSG_WWAIT) (q\<lparr>msg_wwait := []\<rparr>) else q)
      in if msg_reqevents q AND POLLOUT \<noteq> 0
         then (q\<lparr>msg_reqevents := msg_reqevents q AND NOT POLLOUT\<rparr>, [(msgid, POLLOUT)])
         else (q, []))"

lemma msgfree_q [simp]: "msg_q (fst (msgfree msgid i q)) = take i (msg_q q) @ drop (Suc i) (msg_q q)"
  by (simp add: msgfree_def perm_mode_def Let_def)

section \<open>msgctl\<close>

text \<open>The loop of \<open>IPC_RMID\<close> over the messages.\<close>

function free_all :: "int \<Rightarrow> msqid_ds \<times> msg_note list \<Rightarrow> msqid_ds \<times> msg_note list" where
  "free_all msgid (q, ns) =
     (if msg_q q = [] then (q, ns)
      else let r = msgfree msgid 0 q in free_all msgid (fst r, ns @ snd r))"
  by pat_completeness auto
termination
  by (relation "measure (\<lambda>(i, q, ns). length (msg_q q))") auto

declare free_all.simps [simp del]

definition msg_rmid :: "int \<Rightarrow> msqid_ds \<Rightarrow> msqid_ds \<times> msg_note list" where
  "msg_rmid msgid q0 =
     (let (q, ns) = free_all msgid (q0, []);
          q = q\<lparr>msg_cbytes := 0, msg_perm := (msg_perm q)\<lparr>ip_seq := ushort (ip_seq (msg_perm q) + 1)\<rparr>\<rparr>;
          q = (if ip_mode (msg_perm q) AND MSG_RWAIT \<noteq> 0 then q\<lparr>msg_rwait := []\<rparr> else q);
          q = (if ip_mode (msg_perm q) AND MSG_WWAIT \<noteq> 0 then q\<lparr>msg_wwait := []\<rparr> else q);
          (q, ns) = (if msg_reqevents q \<noteq> 0 then (q\<lparr>msg_reqevents := 0\<rparr>, ns @ [(msgid, msg_reqevents q)])
                     else (q, ns))
      in (perm_mode (\<lambda>m. 0) q, ns))"

text \<open>What \<open>IPC_SET\<close> reads of the caller's structure.\<close>

record msg_set =
  set_uid :: uid_t
  set_gid :: uid_t
  set_mode :: "32 word"
  set_qbytes :: int      \<comment> \<open>\<open>unsigned short\<close>\<close>

definition msg_setperm :: "int \<Rightarrow> msg_set \<Rightarrow> msqid_ds \<Rightarrow> msqid_ds" where
  "msg_setperm now d q =
     q\<lparr>msg_perm := (msg_perm q)\<lparr>ip_uid := set_uid d, ip_gid := set_gid d,
          ip_mode := (ip_mode (msg_perm q) AND NOT ACC_BITS) OR (set_mode d AND ACC_BITS)\<rparr>,
        msg_qbytes := set_qbytes d, msg_ctime := now\<rparr>"

text \<open>
  The result of \<open>rmsgctl\<close> is the state, with \<open>u.u_error\<close> in it, and the descriptor that
  \<open>IPC_STAT\<close> stores.
\<close>

definition rmsgctl ::
    "msginfo \<Rightarrow> sysvars \<Rightarrow> ucred \<Rightarrow> int \<Rightarrow> int \<Rightarrow> int \<Rightarrow> msg_set \<Rightarrow> msgsys \<Rightarrow> msgsys \<times> msqid_ds option" where
  "rmsgctl mi v cr now msgid cmd d k =
     (case msgconv mi msgid k of
        None \<Rightarrow> (m_err EINVAL k, None)
      | Some x \<Rightarrow>
          let q = msgque k ! x in
          if cmd = 0 then
            (if \<not> owner_or BYPASS_DAC_WRITE v cr (msg_perm q) then (m_err EPERM k, None)
             else (q_put x (msg_rmid msgid q) k, None))
          else if cmd = 1 then
            (if \<not> owner_or SET_OBJ_DAC v cr (msg_perm q) then (m_err EPERM k, None)
             else if set_qbytes d > msg_qbytes q \<and> \<not> priv_req v SET_OBJ_STAT cr then (m_err EPERM k, None)
             else (q_put x (msg_setperm now d q, []) k, None))
          else if cmd = 2 then
            (case ipcaccess v cr (msg_perm q) IPC_R of
               Some e \<Rightarrow> (m_err e k, None)
             | None \<Rightarrow> (k, Some q))
          else (m_err EINVAL k, None))"

text \<open>
  The argument \<open>buf\<close> of the system call: for \<open>IPC_SET\<close> the result of \<open>copyin\<close>, and
  \<open>out\<close> says whether \<open>copyout\<close> succeeds. For other commands the code hands over a
  structure it does not look at.
\<close>

definition msg_set_none :: msg_set where
  "msg_set_none = \<lparr>set_uid = 0, set_gid = 0, set_mode = 0, set_qbytes = 0\<rparr>"

definition msgctl where
  "msgctl mi v cr now msgid cmd buf out k =
     (let ret = (\<lambda>k ds. (k, if msg_err k \<noteq> None then -1 else (0 :: int), ds)) in
      if cmd = 1 then
        (case buf of
           None \<Rightarrow> ret (m_err EFAULT k) None
         | Some d \<Rightarrow> ret (fst (rmsgctl mi v cr now msgid cmd d k)) None)
      else if cmd = 2 then
        (case rmsgctl mi v cr now msgid cmd msg_set_none k of (k, ds) \<Rightarrow>
           if msg_err k \<noteq> None then ret k None
           else if \<not> out then ret (m_err EFAULT k) None
           else ret k ds)
      else ret (fst (rmsgctl mi v cr now msgid cmd msg_set_none k)) None)"

text \<open>The kernel's own callers: \<open>u.u_error\<close> is saved and the error is the result.\<close>

definition kmsgctl where
  "kmsgctl mi v cr now msgid cmd d k =
     (let (k', ds) = rmsgctl mi v cr now msgid cmd d (k\<lparr>msg_err := None\<rparr>)
      in (k'\<lparr>msg_err := msg_err k\<rparr>, msg_err k', ds))"

section \<open>msgget\<close>

definition msq_new :: "msginfo \<Rightarrow> int \<Rightarrow> ipc_perm \<Rightarrow> msqid_ds" where
  "msq_new mi now p =
     \<lparr>msg_perm = p, msg_q = [], msg_cbytes = 0, msg_qnum = 0, msg_qbytes = ushort (msgmnb mi),
      msg_lspid = 0, msg_lrpid = 0, msg_stime = 0, msg_rtime = 0, msg_ctime = now,
      msg_rwait = [], msg_wwait = [], msg_reqevents = 0\<rparr>"

definition rmsgget :: "msginfo \<Rightarrow> ucred \<Rightarrow> int \<Rightarrow> int \<Rightarrow> 32 word \<Rightarrow> msgsys \<Rightarrow> (msgsys \<times> int) option" where
  "rmsgget mi cr now key flg k =
     (case ipcget cr key flg (map msg_perm (msgque k)) (msg_mark k) of
        IGWild \<Rightarrow> None
      | IGErr e \<Rightarrow> Some (m_err e k, -1)
      | IGOk x s p m \<Rightarrow>
          let q = (if s \<noteq> 0 then msq_new mi now p else (msgque k ! x)\<lparr>msg_perm := p\<rparr>);
              k = k\<lparr>msgque := (msgque k)[x := q], msg_mark := m\<rparr>
          in Some (k, if msg_err k \<noteq> None then -1 else ip_seq p * msgmni mi + int x))"

definition msgget where "msgget = rmsgget"

definition kmsgget where
  "kmsgget mi cr now key flg k =
     (case rmsgget mi cr now key flg (k\<lparr>msg_err := None\<rparr>) of
        None \<Rightarrow> None
      | Some (k', r) \<Rightarrow> Some (k'\<lparr>msg_err := msg_err k\<rparr>, msg_err k', r))"

section \<open>Receiving\<close>

text \<open>
  The arguments of a receive: \<open>r_room\<close> is the number of bytes that can be stored at the
  user's address, \<open>r_x\<close> the flag \<open>XMSG\<close> and \<open>r_sys\<close> the flag \<open>MSG_SYSSPACE\<close>, with
  which the message is stored unchecked.
\<close>

record rcv_call =
  r_size :: int
  r_type :: int
  r_flg :: "32 word"
  r_x :: bool
  r_sys :: bool
  r_room :: int

text \<open>\<open>-msgtyp\<close> of a \<open>long\<close>.\<close>

definition neg_long :: "int \<Rightarrow> int" where
  "neg_long t = (- t + 2 ^ 31) mod 2 ^ 32 - 2 ^ 31"

text \<open>The search from \<open>findmsg\<close>, with \<open>smp\<close> and the index of the message it points to.\<close>

fun find_best :: "int \<Rightarrow> msg list \<Rightarrow> nat \<Rightarrow> (nat \<times> msg) option \<Rightarrow> (nat \<times> msg) option" where
  "find_best t [] i s = s"
| "find_best t (m # ms) i s =
     (let ty = mtype (msg_attr m) in
      if t > 0 then (if t \<noteq> ty then find_best t ms (Suc i) s else Some (i, m))
      else if ty \<le> neg_long t then
        (case s of
           Some (j, sm) \<Rightarrow>
             if mtype (msg_attr sm) \<le> ty then find_best t ms (Suc i) s else find_best t ms (Suc i) (Some (i, m))
         | None \<Rightarrow> find_best t ms (Suc i) (Some (i, m)))
      else find_best t ms (Suc i) s)"

definition findmsg :: "int \<Rightarrow> msg list \<Rightarrow> (nat \<times> msg) option" where
  "findmsg t ms =
     (if t = 0 then (case ms of [] \<Rightarrow> None | m # _ \<Rightarrow> Some (0, m)) else find_best t ms 0 None)"

text \<open>What arrives at the user's address: a header, whole or its type only, and text.\<close>

datatype rcv_hdr = XHdr msg_hdr | THdr int

type_synonym rcv_out = "rcv_hdr option \<times> 8 word list"

datatype rcv_res = RErr errno rcv_out | RDone "msqid_ds \<times> msg_note list" int rcv_out | RSleep msqid_ds

definition hdr_size :: "bool \<Rightarrow> int" where
  "hdr_size x = (if x then 20 else 4)"

definition rcv_go :: "int \<Rightarrow> int \<Rightarrow> int \<Rightarrow> nat \<Rightarrow> rcv_call \<Rightarrow> msqid_ds \<Rightarrow> rcv_res" where
  "rcv_go msgid pid now t c q =
     (case findmsg (r_type c) (msg_q q) of
        Some (i, m) \<Rightarrow>
          if r_size c < msg_ts m \<and> r_flg c AND MSG_NOERROR = 0 then RErr E2BIG (None, [])
          else
            let sz = (if r_size c < msg_ts m then r_size c else msg_ts m);
                hsz = hdr_size (r_x c);
                hdr = (if r_x c then XHdr (msg_attr m) else THdr (mtype (msg_attr m)))
            in
            if \<not> r_sys c \<and> r_room c < hsz then RErr EFAULT (None, [])
            else if \<not> r_sys c \<and> r_room c < hsz + sz then RErr EFAULT (Some hdr, [])
            else
              let q = q\<lparr>msg_cbytes := ushort (msg_cbytes q - msg_ts m), msg_lrpid := pid, msg_rtime := now\<rparr>
              in RDone (msgfree msgid i q) sz (Some hdr, take (nat sz) (msg_spot m))
      | None \<Rightarrow>
          if r_flg c AND IPC_NOWAIT \<noteq> 0 then RErr ENOMSG (None, [])
          else RSleep (perm_mode (\<lambda>m. m OR MSG_RWAIT) (q\<lparr>msg_rwait := msg_rwait q @ [t]\<rparr>)))"

section \<open>Sending\<close>

text \<open>
  The arguments of a send: \<open>s_type\<close> is the type word, if it can be read, and \<open>s_text\<close> the
  bytes that can be read after it. A caller with \<open>MSG_SYSSPACE\<close> passes a buffer that can be
  read.
\<close>

record snd_call =
  s_cnt :: int
  s_flg :: "32 word"
  s_type :: "int option"
  s_text :: "8 word list"

definition q_full :: "msginfo \<Rightarrow> int \<Rightarrow> msqid_ds \<Rightarrow> bool" where
  "q_full mi cnt q \<longleftrightarrow> msg_qnum q \<ge> msgmnm mi \<or> cnt + msg_cbytes q > msg_qbytes q"

definition q_add :: "int \<Rightarrow> int \<Rightarrow> int \<Rightarrow> msg \<Rightarrow> msqid_ds \<Rightarrow> msqid_ds \<times> msg_note list" where
  "q_add msgid pid now m q =
     (let q = q\<lparr>msg_qnum := ushort (msg_qnum q + 1), msg_cbytes := ushort (msg_cbytes q + msg_ts m),
            msg_stime := now, msg_lspid := pid, msg_q := msg_q q @ [m]\<rparr>;
          (q, ns) = (if msg_reqevents q AND POLLIN \<noteq> 0
                     then (q\<lparr>msg_reqevents := msg_reqevents q AND NOT POLLIN\<rparr>, [(msgid, POLLIN)])
                     else (q, []))
      in (if ip_mode (msg_perm q) AND MSG_RWAIT \<noteq> 0
          then perm_mode (\<lambda>m. m AND NOT MSG_RWAIT) (q\<lparr>msg_rwait := []\<rparr>) else q, ns))"

datatype snd_res = SErr errno | SDone "msqid_ds \<times> msg_note list" | SSleep msqid_ds

definition snd_go ::
    "msginfo \<Rightarrow> ucred \<Rightarrow> bool \<Rightarrow> int \<Rightarrow> int \<Rightarrow> int \<Rightarrow> nat \<Rightarrow> snd_call \<Rightarrow> msqid_ds \<Rightarrow> snd_res" where
  "snd_go mi cr mem msgid pid now t c q =
     (if q_full mi (s_cnt c) q then
        (if msg_qbytes q < s_cnt c then SErr EINVAL
         else if s_flg c AND IPC_NOWAIT \<noteq> 0 then SErr EAGAIN
         else SSleep (perm_mode (\<lambda>m. m OR MSG_WWAIT) (q\<lparr>msg_wwait := msg_wwait q @ [t]\<rparr>)))
      else if \<not> mem then SErr ENOMEM
      else case s_type c of
        None \<Rightarrow> SErr EFAULT
      | Some ty \<Rightarrow>
          if ty < 1 then SErr EINVAL
          else if int (length (s_text c)) < s_cnt c then SErr EFAULT
          else
            let h = \<lparr>mtime = now, muid = cr_uid cr, mgid = cr_gid cr, mpid = pid, mtype = ty\<rparr>
            in SDone (q_add msgid pid now
                 \<lparr>msg_attr = h, msg_ts = ushort (s_cnt c), msg_spot = take (nat (s_cnt c)) (s_text c)\<rparr> q))"

section \<open>The calls\<close>

datatype mcall = Rcv rcv_call | Snd snd_call

record mcaller =
  mc_cr :: ucred
  mc_pid :: int
  mc_thr :: nat

text \<open>What a sleeping thread remembers on its kernel stack.\<close>

record msleeper =
  ms_who :: mcaller
  ms_id :: int
  ms_call :: mcall
  ms_x :: nat
  ms_seq :: int

datatype mres = MRet msgsys int rcv_out | MSleep msgsys msleeper

definition m_fail :: "errno \<Rightarrow> rcv_out \<Rightarrow> msgsys \<Rightarrow> mres" where
  "m_fail e out k = MRet (m_err e k) (-1) out"

definition msg_go :: "msginfo \<Rightarrow> mcaller \<Rightarrow> bool \<Rightarrow> int \<Rightarrow> int \<Rightarrow> mcall \<Rightarrow> nat \<Rightarrow> msgsys \<Rightarrow> mres" where
  "msg_go mi w mem now msgid call x k =
     (let q = msgque k ! x;
          sl = \<lparr>ms_who = w, ms_id = msgid, ms_call = call, ms_x = x, ms_seq = ip_seq (msg_perm q)\<rparr> in
      case call of
        Rcv c \<Rightarrow>
          (case rcv_go msgid (mc_pid w) now (mc_thr w) c q of
             RErr e out \<Rightarrow> m_fail e out k
           | RDone r sz out \<Rightarrow> MRet (q_put x r k) sz out
           | RSleep q \<Rightarrow> MSleep (q_put x (q, []) k) sl)
      | Snd c \<Rightarrow>
          (case snd_go mi (mc_cr w) mem msgid (mc_pid w) now (mc_thr w) c q of
             SErr e \<Rightarrow> m_fail e (None, []) k
           | SDone r \<Rightarrow> MRet (q_put x r k) 0 (None, [])
           | SSleep q \<Rightarrow> MSleep (q_put x (q, []) k) sl))"

definition rmsgrcv where
  "rmsgrcv mi v w now msgid c k =
     (case msgconv mi msgid k of
        None \<Rightarrow> m_fail EINVAL (None, []) k
      | Some x \<Rightarrow>
          case ipcaccess v (mc_cr w) (msg_perm (msgque k ! x)) IPC_R of
            Some e \<Rightarrow> m_fail e (None, []) k
          | None \<Rightarrow>
              if r_size c < 0 then m_fail EINVAL (None, []) k
              else msg_go mi w True now msgid (Rcv c) x k)"

definition rmsgsnd where
  "rmsgsnd mi v w mem now msgid c k =
     (case msgconv mi msgid k of
        None \<Rightarrow> m_fail EINVAL (None, []) k
      | Some x \<Rightarrow>
          case ipcaccess v (mc_cr w) (msg_perm (msgque k ! x)) IPC_W of
            Some e \<Rightarrow> m_fail e (None, []) k
          | None \<Rightarrow>
              if s_cnt c < 0 \<or> s_cnt c > msgmax mi then m_fail EINVAL (None, []) k
              else msg_go mi w mem now msgid (Snd c) x k)"

text \<open>From the end of the sleep in \<open>msgsleep\<close>; \<open>sig\<close> is a return of \<open>EVENT_SIG\<close>.\<close>

definition msgsleep_out :: "bool \<Rightarrow> nat \<Rightarrow> int \<Rightarrow> msgsys \<Rightarrow> uerror" where
  "msgsleep_out sig x sq k =
     (let p = msg_perm (msgque k ! x) in
      if sig then Some EINTR
      else if \<not> allocated p \<or> sq \<noteq> ip_seq p then Some EIDRM
      else None)"

definition msg_wake :: "msginfo \<Rightarrow> bool \<Rightarrow> bool \<Rightarrow> int \<Rightarrow> msleeper \<Rightarrow> msgsys \<Rightarrow> mres" where
  "msg_wake mi sig mem now sl k =
     (case msgsleep_out sig (ms_x sl) (ms_seq sl) k of
        Some e \<Rightarrow> m_fail e (None, []) k
      | None \<Rightarrow> msg_go mi (ms_who sl) mem now (ms_id sl) (ms_call sl) (ms_x sl) k)"

text \<open>
  The system calls. \<open>msgsz\<close> is a \<open>size_t\<close> in \<open>msgrcv\<close> and \<open>msgsnd\<close>, and becomes an \<open>int\<close>.
\<close>

definition to_int :: "int \<Rightarrow> int" where
  "to_int n = (n + 2 ^ 31) mod 2 ^ 32 - 2 ^ 31"

definition msgrcv where
  "msgrcv mi v w now msgid sz typ flg room k =
     rmsgrcv mi v w now msgid
       \<lparr>r_size = to_int sz, r_type = typ, r_flg = flg, r_x = False, r_sys = False, r_room = room\<rparr> k"

definition msgxrcv where
  "msgxrcv mi v w now msgid sz typ flg room k =
     rmsgrcv mi v w now msgid
       \<lparr>r_size = sz, r_type = typ, r_flg = flg, r_x = True, r_sys = False, r_room = room\<rparr> k"

definition msgsnd where
  "msgsnd mi v w mem now msgid ty text sz flg k =
     rmsgsnd mi v w mem now msgid \<lparr>s_cnt = to_int sz, s_flg = flg, s_type = ty, s_text = text\<rparr> k"

text \<open>
  The kernel interfaces keep \<open>u.u_error\<close> and return the error: the result of
  \<open>kmsgsnd\<close> and \<open>kmsgrcv\<close>, which may come after a sleep.
\<close>

datatype kres = KRet msgsys uerror int rcv_out | KSleep msgsys msleeper uerror

definition k_result :: "uerror \<Rightarrow> mres \<Rightarrow> kres" where
  "k_result saved res =
     (case res of
        MRet k r out \<Rightarrow> KRet (k\<lparr>msg_err := saved\<rparr>) (msg_err k) r out
      | MSleep k sl \<Rightarrow> KSleep k sl saved)"

definition kmsgrcv where
  "kmsgrcv mi v w now msgid sz typ flg x k =
     k_result (msg_err k) (rmsgrcv mi v w now msgid
       \<lparr>r_size = sz, r_type = typ, r_flg = flg, r_x = x, r_sys = True, r_room = 0\<rparr> (k\<lparr>msg_err := None\<rparr>))"

definition kmsgsnd where
  "kmsgsnd mi v w mem now msgid ty text sz flg k =
     k_result (msg_err k) (rmsgsnd mi v w mem now msgid
       \<lparr>s_cnt = sz, s_flg = flg, s_type = Some ty, s_text = text\<rparr> (k\<lparr>msg_err := None\<rparr>))"

section \<open>msgselect\<close>

text \<open>\<open>selrc\<close> is what \<open>selreg\<close> would return; the events are those reported by others so far.\<close>

definition msgselect ::
    "msginfo \<Rightarrow> int \<Rightarrow> 16 word \<Rightarrow> 16 word \<Rightarrow> uerror \<Rightarrow> msgsys \<Rightarrow> msgsys \<times> 16 word \<times> uerror" where
  "msgselect mi msgid req rtn selrc k =
     (case msgconv mi msgid k of
        None \<Rightarrow> (m_err EINVAL k, rtn OR req, Some EINVAL)
      | Some x \<Rightarrow>
          let q = msgque k ! x;
              rtn = (if req AND POLLIN \<noteq> 0 \<and> msg_qnum q \<noteq> 0 then rtn OR POLLIN else rtn);
              rtn = (if req AND POLLOUT \<noteq> 0 \<and> msg_cbytes q < msg_qbytes q then rtn OR POLLOUT else rtn);
              req = (if req AND (POLLIN OR POLLOUT OR POLLPRI) = 0 then req OR POLLSYNC else req)
          in if req AND POLLSYNC = 0 \<and> rtn = 0 then
               (if selrc = None then
                  (q_put x (q\<lparr>msg_reqevents := msg_reqevents q OR (req AND NOT POLLSYNC)\<rparr>, []) k, rtn, None)
                else (k, rtn, selrc))
             else (k, rtn, None))"

end
