(* ===== verification/MsgInv.thy ===== *)
theory MsgInv
  imports Msg
begin

text \<open>
  What the operations of the message facility keep: the counters \<open>msg_qnum\<close> and
  \<open>msg_cbytes\<close> agree with the messages on the queue, a waiting thread has its flag set, and
  a slot that is not in use has nobody waiting. Then the search of a receive against its
  specification, and the effect of each operation on one queue.
\<close>

unbundle bit_operations_syntax

section \<open>The invariant\<close>

definition msginfo_ok :: "msginfo \<Rightarrow> bool" where
  "msginfo_ok mi \<longleftrightarrow> 0 < msgmni mi \<and> msgmni mi \<le> 4096 \<and> 0 \<le> msgmax mi \<and> msgmax mi \<le> 65535
     \<and> 0 \<le> msgmnb mi \<and> msgmnb mi \<le> 65535 \<and> 0 < msgmnm mi \<and> msgmnm mi \<le> 65535"

definition msg_ok :: "msg \<Rightarrow> bool" where
  "msg_ok m \<longleftrightarrow> int (length (msg_spot m)) = msg_ts m \<and> msg_ts m \<le> 65535 \<and> 1 \<le> mtype (msg_attr m)"

definition text_sum :: "msqid_ds \<Rightarrow> int" where
  "text_sum q = sum_list (map msg_ts (msg_q q))"

definition queue_ok :: "msginfo \<Rightarrow> msqid_ds \<Rightarrow> bool" where
  "queue_ok mi q \<longleftrightarrow> msginfo_ok mi \<and> msg_qnum q = int (length (msg_q q)) \<and> msg_qnum q \<le> msgmnm mi
     \<and> msg_cbytes q = text_sum q \<and> text_sum q \<le> 65535 \<and> 0 \<le> msg_qbytes q \<and> msg_qbytes q \<le> 65535
     \<and> (\<forall>m \<in> set (msg_q q). msg_ok m)"

definition waits_ok :: "msqid_ds \<Rightarrow> bool" where
  "waits_ok q \<longleftrightarrow> (msg_rwait q \<noteq> [] \<longrightarrow> ip_mode (msg_perm q) AND MSG_RWAIT \<noteq> 0)
     \<and> (msg_wwait q \<noteq> [] \<longrightarrow> ip_mode (msg_perm q) AND MSG_WWAIT \<noteq> 0)
     \<and> (\<not> allocated (msg_perm q) \<longrightarrow> msg_rwait q = [] \<and> msg_wwait q = [])"

definition q_inv :: "msginfo \<Rightarrow> msqid_ds \<Rightarrow> bool" where
  "q_inv mi q \<longleftrightarrow> queue_ok mi q \<and> waits_ok q \<and> 0 \<le> ip_seq (msg_perm q) \<and> ip_seq (msg_perm q) < 65536"

definition msg_inv :: "msginfo \<Rightarrow> msgsys \<Rightarrow> bool" where
  "msg_inv mi k \<longleftrightarrow> msginfo_ok mi \<and> key_table (map msg_perm (msgque k)) (msg_mark k)
     \<and> int (length (msgque k)) = msgmni mi \<and> (\<forall>q \<in> set (msgque k). q_inv mi q)"

lemma msg_inv_err [simp]:
  "msg_inv mi (k\<lparr>msg_err := e\<rparr>) = msg_inv mi k" "msg_inv mi (m_err e' k) = msg_inv mi k"
  by (simp_all add: msg_inv_def m_err_def)

lemma m_err_que [simp]: "msgque (m_err e k) = msgque k"
  by (simp add: m_err_def)

lemma q_put_que [simp]: "msgque (q_put x r k) = (msgque k)[x := fst r]"
  by (simp add: q_put_def)

section \<open>Identifiers\<close>

definition live_q :: "msgsys \<Rightarrow> nat \<Rightarrow> bool" where
  "live_q k x \<longleftrightarrow> x < length (msgque k) \<and> allocated (msg_perm (msgque k ! x))"

definition msg_ident :: "msginfo \<Rightarrow> msgsys \<Rightarrow> nat \<Rightarrow> int" where
  "msg_ident mi k x = ip_seq (msg_perm (msgque k ! x)) * msgmni mi + int x"

lemma msgconv_live: "msg_inv mi k \<Longrightarrow> msgconv mi i k = Some x \<Longrightarrow> live_q k x"
  by (auto simp: msgconv_def Let_def live_q_def msg_inv_def key_table_def split: if_splits)

lemma msgconv_ident:
  assumes inv: "msg_inv mi k" and live: "live_q k x"
  shows "msgconv mi (msg_ident mi k x) k = Some x"
proof -
  let ?m = "msgmni mi" and ?q = "ip_seq (msg_perm (msgque k ! x))"
  have m: "0 < ?m" "?m \<le> 4096" using inv by (simp_all add: msg_inv_def msginfo_ok_def)
  have x: "int x < ?m" using inv live by (auto simp: msg_inv_def live_q_def)
  have "q_inv mi (msgque k ! x)" using inv live by (simp add: msg_inv_def live_q_def)
  then have q: "0 \<le> ?q" "?q \<le> 65535" by (simp_all add: q_inv_def)
  have "?q * ?m \<le> 65535 * 4096" using m q by (intro mult_mono) auto
  then have "msg_ident mi k x mod 2 ^ 32 = msg_ident mi k x"
    using q m x by (intro mod_pos_pos_trivial) (auto simp: msg_ident_def)
  moreover have "msg_ident mi k x div ?m = ?q" "msg_ident mi k x mod ?m = int x"
    using x m by (simp_all add: msg_ident_def)
  moreover have "x < msg_mark k" using inv live by (auto simp: msg_inv_def live_q_def key_table_def)
  ultimately show ?thesis using live q by (simp add: msgconv_def live_q_def kwrap)
qed

interpretation msgids: ident_space "msgconv mi" "msg_ident mi" live_q "msg_inv mi" for mi
  by unfold_locales (auto simp: msgconv_ident dest: msgconv_live)

section \<open>The search of a receive\<close>

text \<open>Which types a receive takes, and in which order it prefers them.\<close>

definition eligible :: "int \<Rightarrow> int \<Rightarrow> bool" where
  "eligible t ty \<longleftrightarrow> t = 0 \<or> 0 < t \<and> ty = t \<or> t < 0 \<and> ty \<le> - t"

definition best_msg :: "int \<Rightarrow> msg list \<Rightarrow> nat \<Rightarrow> bool" where
  "best_msg t ms i \<longleftrightarrow> i < length ms \<and> eligible t (mtype (msg_attr (ms ! i)))
     \<and> (\<forall>j < length ms. eligible t (mtype (msg_attr (ms ! j))) \<longrightarrow>
          (if t < 0 \<and> mtype (msg_attr (ms ! j)) \<noteq> mtype (msg_attr (ms ! i))
           then mtype (msg_attr (ms ! i)) < mtype (msg_attr (ms ! j)) else i \<le> j))"

lemma neg_long_id: "- (2 ^ 31) < t \<Longrightarrow> t < 0 \<Longrightarrow> neg_long t = - t"
  by (simp add: neg_long_def)

lemma find_best_pos:
  "0 < t \<Longrightarrow> find_best t ms i s =
     (case dropWhile (\<lambda>m. mtype (msg_attr m) \<noteq> t) ms of [] \<Rightarrow> s
      | m # _ \<Rightarrow> Some (i + length (takeWhile (\<lambda>m. mtype (msg_attr m) \<noteq> t) ms), m))"
proof (induction ms arbitrary: i)
  case (Cons m ms)
  then show ?case
    by (cases "mtype (msg_attr m) = t"; cases "dropWhile (\<lambda>m. mtype (msg_attr m) \<noteq> t) ms")
      (simp_all add: Let_def dropWhile_eq_Nil_conv [THEN iffD2])
qed simp

text \<open>For a negative type: the candidate so far, against everything seen.\<close>

definition low_best :: "int \<Rightarrow> msg list \<Rightarrow> (nat \<times> msg) option \<Rightarrow> bool" where
  "low_best b ms s \<longleftrightarrow>
     (case s of
        None \<Rightarrow> \<forall>m \<in> set ms. b < mtype (msg_attr m)
      | Some (i, m) \<Rightarrow> i < length ms \<and> m = ms ! i \<and> mtype (msg_attr m) \<le> b
          \<and> (\<forall>j < length ms. mtype (msg_attr (ms ! j)) \<le> b \<longrightarrow>
               mtype (msg_attr m) < mtype (msg_attr (ms ! j))
               \<or> mtype (msg_attr m) = mtype (msg_attr (ms ! j)) \<and> i \<le> j))"

lemma low_best_snoc:
  assumes "low_best b ms s"
  shows "low_best b (ms @ [m])
    (if mtype (msg_attr m) \<le> b
     then (case s of Some (j, sm) \<Rightarrow> if mtype (msg_attr sm) \<le> mtype (msg_attr m) then s else Some (length ms, m)
           | None \<Rightarrow> Some (length ms, m)) else s)"
proof (cases s)
  case None
  with assms have "\<forall>m \<in> set ms. b < mtype (msg_attr m)" by (simp add: low_best_def)
  then have "j < length ms \<Longrightarrow> \<not> mtype (msg_attr (ms ! j)) \<le> b" for j by (simp add: not_le)
  then show ?thesis using assms None
    by (auto simp: low_best_def nth_append less_Suc_eq)
next
  case (Some p)
  obtain j sm where p: "p = (j, sm)" by (cases p)
  with assms Some have s: "j < length ms" "sm = ms ! j" "mtype (msg_attr sm) \<le> b"
    and all: "\<And>i. i < length ms \<Longrightarrow> mtype (msg_attr (ms ! i)) \<le> b \<Longrightarrow>
       mtype (msg_attr sm) < mtype (msg_attr (ms ! i)) \<or> mtype (msg_attr sm) = mtype (msg_attr (ms ! i)) \<and> j \<le> i"
    unfolding low_best_def by auto
  show ?thesis
  proof (cases "mtype (msg_attr m) \<le> b \<and> mtype (msg_attr m) < mtype (msg_attr sm)")
    case True
    then have "low_best b (ms @ [m]) (Some (length ms, m))"
      using all by (fastforce simp: low_best_def nth_append less_Suc_eq)
    with True show ?thesis by (simp add: Some p)
  next
    case False
    then have "low_best b (ms @ [m]) (Some (j, sm))"
      using s all by (auto simp: low_best_def nth_append less_Suc_eq)
    with False show ?thesis by (auto simp: Some p)
  qed
qed

lemma find_best_neg:
  assumes "t < 0" and "low_best (neg_long t) pre s"
  shows "low_best (neg_long t) (pre @ ms) (find_best t ms (length pre) s)"
  using assms(2)
proof (induction ms arbitrary: pre s)
  case (Cons m ms)
  let ?s = "if mtype (msg_attr m) \<le> neg_long t
     then (case s of Some (j, sm) \<Rightarrow> if mtype (msg_attr sm) \<le> mtype (msg_attr m) then s else Some (length pre, m)
           | None \<Rightarrow> Some (length pre, m)) else s"
  have "low_best (neg_long t) (pre @ [m]) ?s" by (rule low_best_snoc [OF Cons.prems])
  from Cons.IH [OF this] have "low_best (neg_long t) (pre @ m # ms) (find_best t ms (Suc (length pre)) ?s)" by simp
  moreover have "find_best t (m # ms) (length pre) s = find_best t ms (Suc (length pre)) ?s"
    using assms(1) by (auto simp: Let_def split: option.splits)
  ultimately show ?case by (simp only:)
qed simp

lemma findmsg_ok:
  assumes t: "- (2 ^ 31) < t"
  shows "case findmsg t ms of
      None \<Rightarrow> \<forall>m \<in> set ms. \<not> eligible t (mtype (msg_attr m))
    | Some (i, m) \<Rightarrow> best_msg t ms i \<and> m = ms ! i"
proof -
  consider "t = 0" | "0 < t" | "t < 0" by linarith
  then show ?thesis
  proof cases
    case 1
    then show ?thesis by (auto simp: findmsg_def best_msg_def eligible_def split: list.splits)
  next
    case 2
    let ?P = "\<lambda>m. mtype (msg_attr m) \<noteq> t"
    show ?thesis
    proof (cases "dropWhile ?P ms")
      case Nil
      then have "\<forall>m \<in> set ms. ?P m" by (simp add: dropWhile_eq_Nil_conv)
      then show ?thesis using 2 by (simp add: findmsg_def find_best_pos eligible_def Nil)
    next
      case (Cons m rest)
      let ?n = "length (takeWhile ?P ms)"
      have split: "ms = takeWhile ?P ms @ m # rest" using Cons takeWhile_dropWhile_id by metis
      have m: "mtype (msg_attr m) = t" using Cons by (auto simp: dropWhile_eq_Cons_conv)
      have n: "?n < length ms" "ms ! ?n = m"
        by (subst (2) split, simp) (subst split, simp add: nth_append)
      have "?n \<le> j" if "j < length ms" "mtype (msg_attr (ms ! j)) = t" for j
        using that by (metis (mono_tags, lifting) linorder_not_le nth_mem set_takeWhileD takeWhile_nth)
      then have "best_msg t ms ?n" using 2 m n by (auto simp: best_msg_def eligible_def)
      moreover have "findmsg t ms = Some (?n, m)" using 2 Cons by (simp add: findmsg_def find_best_pos)
      ultimately show ?thesis using n by simp
    qed
  next
    case 3
    have "low_best (neg_long t) [] None" by (simp add: low_best_def)
    from find_best_neg [OF 3 this, of ms] have "low_best (- t) ms (findmsg t ms)"
      using 3 neg_long_id [OF t 3] by (simp add: findmsg_def)
    then show ?thesis using 3
      by (fastforce simp: low_best_def best_msg_def eligible_def split: option.splits if_splits)
  qed
qed

lemma findmsg_nth: "findmsg t ms = Some (i, m) \<Longrightarrow> i < length ms \<and> ms ! i = m"
proof -
  assume f: "findmsg t ms = Some (i, m)"
  consider "t = 0" | "0 < t" | "t < 0" by linarith
  then show "i < length ms \<and> ms ! i = m"
  proof cases
    case 1
    with f show ?thesis by (simp add: findmsg_def split: list.splits)
  next
    case 2
    then have "- (2 ^ 31) < t" by simp
    from findmsg_ok [OF this, of ms] f show ?thesis by (simp add: best_msg_def)
  next
    case 3
    have "low_best (neg_long t) [] None" by (simp add: low_best_def)
    from find_best_neg [OF 3 this, of ms] f 3 show ?thesis by (simp add: findmsg_def low_best_def)
  qed
qed

text \<open>A receive that found nothing still finds nothing when messages have gone.\<close>

definition none_for :: "int \<Rightarrow> msg list \<Rightarrow> bool" where
  "none_for t ms \<longleftrightarrow> findmsg t ms = None"

lemma none_for_iff:
  "none_for t ms \<longleftrightarrow> (\<forall>m \<in> set ms. t \<noteq> 0 \<and> (if 0 < t then mtype (msg_attr m) \<noteq> t else neg_long t < mtype (msg_attr m)))"
proof -
  consider "t = 0" | "0 < t" | "t < 0" by linarith
  then show ?thesis
  proof cases
    case 1
    then show ?thesis by (cases ms) (auto simp: none_for_def findmsg_def)
  next
    case 2
    then show ?thesis
      by (cases "dropWhile (\<lambda>m. mtype (msg_attr m) \<noteq> t) ms")
        (use dropWhile_eq_Nil_conv [of "\<lambda>m. mtype (msg_attr m) \<noteq> t" ms] in
          \<open>simp_all add: none_for_def findmsg_def find_best_pos dropWhile_eq_Nil_conv [THEN iffD2]\<close>)
  next
    case 3
    have "low_best (neg_long t) [] None" by (simp add: low_best_def)
    from find_best_neg [OF 3 this, of ms] have b: "low_best (neg_long t) ms (findmsg t ms)"
      using 3 by (simp add: findmsg_def)
    show ?thesis
    proof (cases "findmsg t ms")
      case None
      with b 3 show ?thesis by (simp add: none_for_def low_best_def)
    next
      case (Some p)
      with b 3 show ?thesis by (cases p) (auto simp: none_for_def low_best_def not_less intro: nth_mem)
    qed
  qed
qed

lemma none_for_mono: "none_for t ms \<Longrightarrow> set ms' \<subseteq> set ms \<Longrightarrow> none_for t ms'"
  by (auto simp: none_for_iff)

section \<open>One queue changes\<close>

lemma flag_bits:
  "m AND MSG_RWAIT \<noteq> 0 \<longleftrightarrow> bit m 9" "m AND MSG_WWAIT \<noteq> 0 \<longleftrightarrow> bit m 10" for m :: "32 word"
  using and_exp_eq_0_iff_not_bit [of m 9] and_exp_eq_0_iff_not_bit [of m 10] by simp_all

lemma perm_mode_simps [simp]:
  "msg_q (perm_mode f q) = msg_q q" "msg_cbytes (perm_mode f q) = msg_cbytes q"
  "msg_qnum (perm_mode f q) = msg_qnum q" "msg_qbytes (perm_mode f q) = msg_qbytes q"
  "msg_rwait (perm_mode f q) = msg_rwait q" "msg_wwait (perm_mode f q) = msg_wwait q"
  "msg_reqevents (perm_mode f q) = msg_reqevents q"
  "ip_mode (msg_perm (perm_mode f q)) = f (ip_mode (msg_perm q))"
  "ip_seq (msg_perm (perm_mode f q)) = ip_seq (msg_perm q)"
  "ip_key (msg_perm (perm_mode f q)) = ip_key (msg_perm q)"
  by (simp_all add: perm_mode_def)

lemma waits_bits:
  "waits_ok q \<longleftrightarrow> (msg_rwait q \<noteq> [] \<longrightarrow> bit (ip_mode (msg_perm q)) 9)
     \<and> (msg_wwait q \<noteq> [] \<longrightarrow> bit (ip_mode (msg_perm q)) 10)
     \<and> (\<not> bit (ip_mode (msg_perm q)) 15 \<longrightarrow> msg_rwait q = [] \<and> msg_wwait q = [])"
  by (simp only: waits_ok_def flag_bits allocated_iff)

text \<open>
  \<open>kept\<close>: the header stays usable for the key table. \<open>gentle\<close>: whoever still waits has no
  more reason to go on than before; with \<open>st\<close> this is asked for the writers, too.
\<close>

definition kept :: "msqid_ds \<Rightarrow> msqid_ds \<Rightarrow> bool" where
  "kept q q' \<longleftrightarrow> ip_key (msg_perm q') = ip_key (msg_perm q)
     \<and> (allocated (msg_perm q') \<longrightarrow> allocated (msg_perm q))"

definition gentle :: "bool \<Rightarrow> msqid_ds \<Rightarrow> msqid_ds \<Rightarrow> bool" where
  "gentle st q q' \<longleftrightarrow>
     (ip_seq (msg_perm q') = ip_seq (msg_perm q) \<or> msg_rwait q' = [] \<and> msg_wwait q' = [])
     \<and> (msg_rwait q' = [] \<or> set (msg_rwait q') \<subseteq> set (msg_rwait q) \<and> set (msg_q q') \<subseteq> set (msg_q q))
     \<and> (msg_wwait q' = [] \<or> set (msg_wwait q') \<subseteq> set (msg_wwait q)
          \<and> (st \<longrightarrow> msg_qnum q \<le> msg_qnum q' \<and> msg_cbytes q \<le> msg_cbytes q' \<and> msg_qbytes q' \<le> msg_qbytes q))"

lemma msg_ok_ts: "msg_ok m \<Longrightarrow> 0 \<le> msg_ts m"
  by (auto simp: msg_ok_def)

lemma queue_len: "queue_ok mi q \<Longrightarrow> msg_qnum q = int (length (msg_q q)) \<and> int (length (msg_q q)) \<le> 65535"
  by (simp add: queue_ok_def msginfo_ok_def)

lemma text_sum_split:
  assumes "i < length (msg_q q)"
  shows "sum_list (map msg_ts (take i (msg_q q) @ drop (Suc i) (msg_q q))) = text_sum q - msg_ts (msg_q q ! i)"
proof -
  have "text_sum q = sum_list (map msg_ts (take i (msg_q q) @ msg_q q ! i # drop (Suc i) (msg_q q)))"
    by (simp only: text_sum_def id_take_nth_drop [OF assms, symmetric])
  then show ?thesis by simp
qed

lemma sum_list_member_le:
  "\<forall>y \<in> set ys. (0 :: int) \<le> f y \<Longrightarrow> y \<in> set ys \<Longrightarrow> f y \<le> sum_list (map f ys)"
proof (induction ys)
  case (Cons z zs)
  then have "0 \<le> sum_list (map f zs)" by (intro sum_list_nonneg) auto
  with Cons show ?case by fastforce
qed simp

lemma text_sum_ge: "queue_ok mi q \<Longrightarrow> m \<in> set (msg_q q) \<Longrightarrow> 0 \<le> msg_ts m \<and> msg_ts m \<le> text_sum q"
  unfolding text_sum_def by (auto intro!: sum_list_member_le simp: queue_ok_def msg_ok_ts)

lemma removed_subset: "set (take i xs @ drop (Suc i) xs) \<subseteq> set xs"
  by (simp add: set_take_subset set_drop_subset)

text \<open>A message leaves the queue, its size having been taken off \<open>msg_cbytes\<close>.\<close>

definition unlinked :: "nat \<Rightarrow> int \<Rightarrow> int \<Rightarrow> msqid_ds \<Rightarrow> msqid_ds" where
  "unlinked i pid now q =
     q\<lparr>msg_cbytes := ushort (msg_cbytes q - msg_ts (msg_q q ! i)), msg_lrpid := pid, msg_rtime := now\<rparr>"

lemma msgfree_simps [simp]:
  "msg_qnum (fst (msgfree j i q)) = ushort (msg_qnum q - 1)"
  "msg_cbytes (fst (msgfree j i q)) = msg_cbytes q" "msg_qbytes (fst (msgfree j i q)) = msg_qbytes q"
  "msg_rwait (fst (msgfree j i q)) = msg_rwait q"
  "msg_wwait (fst (msgfree j i q)) = (if bit (ip_mode (msg_perm q)) 10 then [] else msg_wwait q)"
  "ip_seq (msg_perm (fst (msgfree j i q))) = ip_seq (msg_perm q)"
  "ip_key (msg_perm (fst (msgfree j i q))) = ip_key (msg_perm q)"
  "bit (ip_mode (msg_perm (fst (msgfree j i q)))) 9 = bit (ip_mode (msg_perm q)) 9"
  "bit (ip_mode (msg_perm (fst (msgfree j i q)))) 15 = bit (ip_mode (msg_perm q)) 15"
  by (simp_all add: msgfree_def Let_def flag_bits bit_simps)

lemma receive_ok:
  assumes inv: "q_inv mi q" and i: "i < length (msg_q q)"
  shows "q_inv mi (fst (msgfree j i (unlinked i pid now q)))
    \<and> gentle st q (fst (msgfree j i (unlinked i pid now q)))
    \<and> kept q (fst (msgfree j i (unlinked i pid now q)))"
proof -
  let ?q = "fst (msgfree j i (unlinked i pid now q))"
  have ok: "queue_ok mi q" and w: "waits_ok q" using inv by (simp_all add: q_inv_def)
  have ts: "0 \<le> msg_ts (msg_q q ! i)" "msg_ts (msg_q q ! i) \<le> text_sum q" "text_sum q \<le> 65535"
    using text_sum_ge [OF ok, of "msg_q q ! i"] i ok by (auto simp: queue_ok_def)
  have sum: "text_sum ?q = text_sum q - msg_ts (msg_q q ! i)"
    using text_sum_split [OF i] by (simp add: text_sum_def unlinked_def)
  have "msg_qnum q \<le> 65535" using ok by (simp add: queue_ok_def msginfo_ok_def)
  then have "ushort (msg_qnum q - 1) = msg_qnum q - 1"
    using ok i by (intro ushort_id) (auto simp: queue_ok_def)
  then have "queue_ok mi ?q"
    using ok i ts removed_subset [of i "msg_q q"] unfolding queue_ok_def sum
    by (auto simp: unlinked_def kwrap dest: in_set_takeD in_set_dropD)
  moreover have "waits_ok ?q" using w by (auto simp: waits_bits unlinked_def)
  moreover have "gentle st q ?q"
    using w removed_subset [of i "msg_q q"] by (auto simp: gentle_def waits_bits unlinked_def)
  moreover have "kept q ?q" by (simp add: kept_def allocated_iff unlinked_def)
  ultimately show ?thesis using inv by (simp add: q_inv_def unlinked_def)
qed

lemma free_all_simps:
  "msg_q (fst (free_all j (q, ns))) = []
   \<and> msg_qbytes (fst (free_all j (q, ns))) = msg_qbytes q
   \<and> msg_rwait (fst (free_all j (q, ns))) = msg_rwait q
   \<and> (waits_ok q \<longrightarrow> waits_ok (fst (free_all j (q, ns))))
   \<and> ip_seq (msg_perm (fst (free_all j (q, ns)))) = ip_seq (msg_perm q)
   \<and> ip_key (msg_perm (fst (free_all j (q, ns)))) = ip_key (msg_perm q)
   \<and> (msg_qnum q = int (length (msg_q q)) \<and> msg_qnum q \<le> 65535 \<longrightarrow> msg_qnum (fst (free_all j (q, ns))) = 0)"
proof (induction j "(q, ns)" arbitrary: q ns rule: free_all.induct)
  case (1 j q ns)
  show ?case
  proof (cases "msg_q q")
    case Nil
    then show ?thesis by (simp add: free_all.simps)
  next
    case (Cons m ms)
    let ?r = "msgfree j 0 q"
    have eq: "free_all j (q, ns) = free_all j (fst ?r, ns @ snd ?r)"
      by (subst free_all.simps) (simp add: Cons Let_def)
    have w: "waits_ok q \<longrightarrow> waits_ok (fst ?r)" by (auto simp: waits_bits)
    have n: "msg_qnum q = int (length (msg_q q)) \<and> msg_qnum q \<le> 65535 \<Longrightarrow> ushort (msg_qnum q - 1) = int (length ms)"
      by (subst ushort_id) (auto simp: Cons)
    show ?thesis
      using 1 [OF _ refl] Cons w n unfolding eq by (auto simp: Cons)
  qed
qed

lemma rmid_ok:
  assumes inv: "q_inv mi q"
  shows "q_inv mi (fst (msg_rmid j q)) \<and> gentle st q (fst (msg_rmid j q)) \<and> kept q (fst (msg_rmid j q))
    \<and> msg_q (fst (msg_rmid j q)) = [] \<and> \<not> allocated (msg_perm (fst (msg_rmid j q)))
    \<and> msg_rwait (fst (msg_rmid j q)) = [] \<and> msg_wwait (fst (msg_rmid j q)) = []
    \<and> ip_seq (msg_perm (fst (msg_rmid j q))) = (ip_seq (msg_perm q) + 1) mod 65536"
proof -
  obtain q1 ns where f: "free_all j (q, []) = (q1, ns)" by fastforce
  have ok: "queue_ok mi q" "waits_ok q" using inv by (simp_all add: q_inv_def)
  have q1: "msg_q q1 = []" "msg_qbytes q1 = msg_qbytes q" "waits_ok q1" "ip_seq (msg_perm q1) = ip_seq (msg_perm q)"
    "ip_key (msg_perm q1) = ip_key (msg_perm q)" "msg_qnum q1 = 0"
    using free_all_simps [of j q "[]"] ok queue_len [OF ok(1)] by (simp_all add: f)
  let ?q = "fst (msg_rmid j q)"
  have eff: "msg_q ?q = []" "msg_cbytes ?q = 0" "msg_qnum ?q = 0" "msg_qbytes ?q = msg_qbytes q"
    "msg_rwait ?q = []" "msg_wwait ?q = []" "ip_mode (msg_perm ?q) = 0"
    "ip_seq (msg_perm ?q) = (ip_seq (msg_perm q) + 1) mod 65536" "ip_key (msg_perm ?q) = ip_key (msg_perm q)"
    using q1 by (auto simp: msg_rmid_def f Let_def waits_ok_def ushort_def)
  then show ?thesis using ok
    by (simp add: q_inv_def queue_ok_def waits_ok_def gentle_def kept_def allocated_def text_sum_def msginfo_ok_def)
qed

lemma send_ok:
  assumes inv: "q_inv mi q" and live: "allocated (msg_perm q)" and room: "\<not> q_full mi (msg_ts m) q" and m: "msg_ok m"
  shows "q_inv mi (fst (q_add j pid now m q)) \<and> gentle st q (fst (q_add j pid now m q))
    \<and> kept q (fst (q_add j pid now m q)) \<and> msg_q (fst (q_add j pid now m q)) = msg_q q @ [m]"
proof -
  let ?q = "fst (q_add j pid now m q)"
  have ok: "queue_ok mi q" and w: "waits_ok q" using inv by (simp_all add: q_inv_def)
  have n: "ushort (msg_qnum q + 1) = msg_qnum q + 1"
    using ok room by (intro ushort_id) (auto simp: queue_ok_def q_full_def msginfo_ok_def)
  have c: "ushort (msg_cbytes q + msg_ts m) = msg_cbytes q + msg_ts m"
    using ok room msg_ok_ts [OF m] by (intro ushort_id) (auto simp: queue_ok_def q_full_def text_sum_def intro!: add_nonneg_nonneg sum_list_nonneg msg_ok_ts)
  have eff: "msg_q ?q = msg_q q @ [m]" "msg_cbytes ?q = msg_cbytes q + msg_ts m" "msg_qnum ?q = msg_qnum q + 1"
    "msg_qbytes ?q = msg_qbytes q" "msg_rwait ?q = []" "msg_wwait ?q = msg_wwait q"
    "ip_seq (msg_perm ?q) = ip_seq (msg_perm q)" "ip_key (msg_perm ?q) = ip_key (msg_perm q)"
    "bit (ip_mode (msg_perm ?q)) 10 = bit (ip_mode (msg_perm q)) 10"
    "bit (ip_mode (msg_perm ?q)) 15 = bit (ip_mode (msg_perm q)) 15"
    using w unfolding waits_ok_def
    by (auto simp: q_add_def Let_def n c bit_simps)
  have "queue_ok mi ?q" using ok room m by (auto simp: queue_ok_def eff text_sum_def q_full_def)
  moreover have "waits_ok ?q" using w by (simp add: waits_bits eff)
  ultimately show ?thesis using inv eff msg_ok_ts [OF m]
    by (simp add: q_inv_def gentle_def kept_def allocated_iff)
qed

lemma setperm_ok:
  assumes inv: "q_inv mi q" and d: "0 \<le> set_qbytes d" "set_qbytes d \<le> 65535"
  shows "q_inv mi (msg_setperm now d q) \<and> gentle False q (msg_setperm now d q) \<and> kept q (msg_setperm now d q)"
proof -
  let ?q = "msg_setperm now d q"
  have "bit (ip_mode (msg_perm ?q)) n = bit (ip_mode (msg_perm q)) n" if "n \<in> {9, 10, 15}" for n
    using that by (auto simp: msg_setperm_def bit_simps)
  then have b: "bit (ip_mode (msg_perm ?q)) 9 = bit (ip_mode (msg_perm q)) 9"
    "bit (ip_mode (msg_perm ?q)) 10 = bit (ip_mode (msg_perm q)) 10"
    "bit (ip_mode (msg_perm ?q)) 15 = bit (ip_mode (msg_perm q)) 15" by blast+
  have eff: "msg_q ?q = msg_q q" "msg_cbytes ?q = msg_cbytes q" "msg_qnum ?q = msg_qnum q"
    "msg_qbytes ?q = set_qbytes d" "msg_rwait ?q = msg_rwait q" "msg_wwait ?q = msg_wwait q"
    "ip_seq (msg_perm ?q) = ip_seq (msg_perm q)" "ip_key (msg_perm ?q) = ip_key (msg_perm q)"
    by (simp_all add: msg_setperm_def)
  show ?thesis
    using inv d by (simp add: q_inv_def queue_ok_def text_sum_def waits_bits gentle_def kept_def allocated_iff eff b)
qed

end
