(* ===== verification/MsgSys.thy ===== *)
theory MsgSys
  imports MsgInv
begin

text \<open>
  Many threads calling the message facility: an interleaving of whole calls, sleeps, wake-ups
  and signals. The thread that runs holds \<open>mes_lock\<close>, so a step is the part of a call
  between two points at which the lock is released.
\<close>

unbundle bit_operations_syntax

section \<open>The system\<close>

record msgworld =
  mw_k :: msgsys
  mw_thr :: "nat \<Rightarrow> (msleeper \<times> bool) option"

datatype msg_event =
    MEvGet ucred int int "32 word"
  | MEvCtl sysvars ucred int int int "msg_set option" bool
  | MEvRcv sysvars mcaller int int rcv_call
  | MEvSnd sysvars mcaller bool int int snd_call
  | MEvSelect int "16 word" "16 word" uerror
  | MEvSig nat
  | MEvWake nat bool int

definition wait_of :: "mcall \<Rightarrow> msqid_ds \<Rightarrow> nat list" where
  "wait_of call q = (case call of Rcv c \<Rightarrow> msg_rwait q | Snd c \<Rightarrow> msg_wwait q)"

definition asleep_in :: "msgsys \<Rightarrow> nat \<Rightarrow> msleeper \<Rightarrow> bool" where
  "asleep_in k t sl \<longleftrightarrow> t \<in> set (wait_of (ms_call sl) (msgque k ! ms_x sl))"

definition leave :: "nat \<Rightarrow> mcall \<Rightarrow> msqid_ds \<Rightarrow> msqid_ds" where
  "leave t call q =
     (case call of
        Rcv c \<Rightarrow> q\<lparr>msg_rwait := removeAll t (msg_rwait q)\<rparr>
      | Snd c \<Rightarrow> q\<lparr>msg_wwait := removeAll t (msg_wwait q)\<rparr>)"

definition give :: "nat \<Rightarrow> msgworld \<Rightarrow> mres \<Rightarrow> msgworld" where
  "give t w res =
     (case res of
        MRet k r out \<Rightarrow> w\<lparr>mw_k := k, mw_thr := (mw_thr w)(t := None)\<rparr>
      | MSleep k sl \<Rightarrow> w\<lparr>mw_k := k, mw_thr := (mw_thr w)(t := Some (sl, False))\<rparr>)"

definition msg_next :: "msginfo \<Rightarrow> msg_event \<Rightarrow> msgworld \<Rightarrow> msgworld option" where
  "msg_next mi e w =
     (let k = (mw_k w)\<lparr>msg_err := None\<rparr> in
      case e of
        MEvGet cr now key flg \<Rightarrow> map_option (\<lambda>(k, r). w\<lparr>mw_k := k\<rparr>) (msgget mi cr now key flg k)
      | MEvCtl v cr now msgid cmd buf out \<Rightarrow>
          (case msgctl mi v cr now msgid cmd buf out k of (k, r, ds) \<Rightarrow> Some (w\<lparr>mw_k := k\<rparr>))
      | MEvRcv v who now msgid c \<Rightarrow>
          if mw_thr w (mc_thr who) = None
          then Some (give (mc_thr who) w (rmsgrcv mi v who now msgid c k)) else Some w
      | MEvSnd v who mem now msgid c \<Rightarrow>
          if mw_thr w (mc_thr who) = None
          then Some (give (mc_thr who) w (rmsgsnd mi v who mem now msgid c k)) else Some w
      | MEvSelect msgid req rtn selrc \<Rightarrow>
          (case msgselect mi msgid req rtn selrc k of (k, ev, rc) \<Rightarrow> Some (w\<lparr>mw_k := k\<rparr>))
      | MEvSig t \<Rightarrow>
          (case mw_thr w t of
             Some (sl, False) \<Rightarrow>
               if asleep_in k t sl
               then Some (w\<lparr>mw_k := q_put (ms_x sl) (leave t (ms_call sl) (msgque k ! ms_x sl), []) k,
                      mw_thr := (mw_thr w)(t := Some (sl, True))\<rparr>)
               else Some w
           | _ \<Rightarrow> Some w)
      | MEvWake t mem now \<Rightarrow>
          (case mw_thr w t of
             Some (sl, sig) \<Rightarrow>
               if asleep_in k t sl then Some w
               else Some (give t w (msg_wake mi sig mem now sl k))
           | None \<Rightarrow> Some w))"

definition msg_free_slot :: msqid_ds where
  "msg_free_slot =
     \<lparr>msg_perm = \<lparr>ip_uid = 0, ip_gid = 0, ip_cuid = 0, ip_cgid = 0, ip_mode = 0, ip_seq = 0, ip_key = 0\<rparr>,
      msg_q = [], msg_cbytes = 0, msg_qnum = 0, msg_qbytes = 0, msg_lspid = 0, msg_lrpid = 0,
      msg_stime = 0, msg_rtime = 0, msg_ctime = 0, msg_rwait = [], msg_wwait = [], msg_reqevents = 0\<rparr>"

definition msg_boot :: "msginfo \<Rightarrow> msgworld" where
  "msg_boot mi = \<lparr>mw_k = \<lparr>msgque = replicate (nat (msgmni mi)) msg_free_slot, msg_mark = 0,
     msg_notes = [], msg_err = None\<rparr>, mw_thr = (\<lambda>t. None)\<rparr>"

text \<open>
  The arguments fit their types; with \<open>st\<close>, nobody changes the limits of a queue.
\<close>

definition msg_legal :: "bool \<Rightarrow> msg_event \<Rightarrow> bool" where
  "msg_legal st e \<longleftrightarrow>
     (case e of
        MEvCtl v cr now msgid cmd buf out \<Rightarrow>
          (case buf of None \<Rightarrow> True | Some d \<Rightarrow> 0 \<le> set_qbytes d \<and> set_qbytes d \<le> 65535)
          \<and> (st \<longrightarrow> cmd \<noteq> 1)
      | _ \<Rightarrow> True)"

section \<open>Who waits, and for what\<close>

definition waiter_ok :: "bool \<Rightarrow> msginfo \<Rightarrow> msleeper \<Rightarrow> msqid_ds \<Rightarrow> bool" where
  "waiter_ok st mi sl q \<longleftrightarrow>
     (case ms_call sl of
        Rcv c \<Rightarrow> none_for (r_type c) (msg_q q)
      | Snd c \<Rightarrow> st \<longrightarrow> q_full mi (s_cnt c) q)"

definition is_rcv :: "mcall \<Rightarrow> bool" where
  "is_rcv call = (case call of Rcv c \<Rightarrow> True | Snd c \<Rightarrow> False)"

definition waits_as :: "(nat \<Rightarrow> (msleeper \<times> bool) option) \<Rightarrow> bool \<Rightarrow> msginfo \<Rightarrow> nat \<Rightarrow> msqid_ds \<Rightarrow> bool \<Rightarrow> nat \<Rightarrow> bool" where
  "waits_as thr st mi x q rc t \<longleftrightarrow>
     (\<exists>sl. thr t = Some (sl, False) \<and> ms_x sl = x \<and> is_rcv (ms_call sl) = rc
        \<and> ms_seq sl = ip_seq (msg_perm q) \<and> waiter_ok st mi sl q)"

definition chan_ok :: "(nat \<Rightarrow> (msleeper \<times> bool) option) \<Rightarrow> bool \<Rightarrow> msginfo \<Rightarrow> nat \<Rightarrow> msqid_ds \<Rightarrow> bool" where
  "chan_ok thr st mi x q \<longleftrightarrow> (\<forall>t \<in> set (msg_rwait q). waits_as thr st mi x q True t)
     \<and> (\<forall>t \<in> set (msg_wwait q). waits_as thr st mi x q False t)"

definition msg_world :: "bool \<Rightarrow> msginfo \<Rightarrow> msgworld \<Rightarrow> bool" where
  "msg_world st mi w \<longleftrightarrow> msg_inv mi (mw_k w)
     \<and> (\<forall>x < length (msgque (mw_k w)). chan_ok (mw_thr w) st mi x (msgque (mw_k w) ! x))
     \<and> (\<forall>t sl b. mw_thr w t = Some (sl, b) \<longrightarrow> ms_x sl < length (msgque (mw_k w))
          \<and> mc_thr (ms_who sl) = t
          \<and> (\<forall>c. ms_call sl = Snd c \<longrightarrow> 0 \<le> s_cnt c \<and> s_cnt c \<le> msgmax mi))"

lemma waiter_ok_gentle:
  assumes "waiter_ok st mi sl q"
    and "is_rcv (ms_call sl) \<Longrightarrow> set (msg_q q') \<subseteq> set (msg_q q)"
    and "\<not> is_rcv (ms_call sl) \<Longrightarrow> st \<Longrightarrow>
      msg_qnum q \<le> msg_qnum q' \<and> msg_cbytes q \<le> msg_cbytes q' \<and> msg_qbytes q' \<le> msg_qbytes q"
  shows "waiter_ok st mi sl q'"
proof (cases "ms_call sl")
  case (Rcv c)
  with assms(1,2) show ?thesis by (auto simp: waiter_ok_def is_rcv_def intro: none_for_mono)
next
  case (Snd c)
  with assms(1,3) show ?thesis by (auto simp: waiter_ok_def is_rcv_def q_full_def)
qed

lemma chan_ok_gentle:
  assumes chan: "chan_ok thr st mi x q" and g: "gentle st q q'"
  shows "chan_ok thr st mi x q'"
  unfolding chan_ok_def
proof (intro conjI ballI)
  fix t assume t: "t \<in> set (msg_rwait q')"
  then have "msg_rwait q' \<noteq> []" by auto
  with g t have s: "t \<in> set (msg_rwait q)" "set (msg_q q') \<subseteq> set (msg_q q)" "ip_seq (msg_perm q') = ip_seq (msg_perm q)"
    by (auto simp: gentle_def)
  then obtain sl where "thr t = Some (sl, False)" "ms_x sl = x" "is_rcv (ms_call sl)"
    "ms_seq sl = ip_seq (msg_perm q)" "waiter_ok st mi sl q"
    using chan by (auto simp: chan_ok_def waits_as_def)
  then show "waits_as thr st mi x q' True t"
    using s waiter_ok_gentle [of st mi sl q q'] by (simp add: waits_as_def)
next
  fix t assume t: "t \<in> set (msg_wwait q')"
  then have "msg_wwait q' \<noteq> []" by auto
  with g t have s: "t \<in> set (msg_wwait q)" "ip_seq (msg_perm q') = ip_seq (msg_perm q)"
    "st \<longrightarrow> msg_qnum q \<le> msg_qnum q' \<and> msg_cbytes q \<le> msg_cbytes q' \<and> msg_qbytes q' \<le> msg_qbytes q"
    by (auto simp: gentle_def)
  then obtain sl where "thr t = Some (sl, False)" "ms_x sl = x" "\<not> is_rcv (ms_call sl)"
    "ms_seq sl = ip_seq (msg_perm q)" "waiter_ok st mi sl q"
    using chan by (auto simp: chan_ok_def waits_as_def)
  then show "waits_as thr st mi x q' False t"
    using s waiter_ok_gentle [of st mi sl q q'] by (simp add: waits_as_def)
qed

lemma chan_ok_thr:
  assumes "chan_ok thr st mi x q" and "t \<notin> set (msg_rwait q)" and "t \<notin> set (msg_wwait q)"
  shows "chan_ok (thr(t := v)) st mi x q"
  using assms by (fastforce simp: chan_ok_def waits_as_def)

text \<open>A thread that is not on the list of its own sleep is on no list.\<close>

lemma not_waiting:
  assumes w: "msg_world st mi w" and x: "x < length (msgque (mw_k w))"
    and t: "mw_thr w t = None \<or> (\<exists>sl. mw_thr w t = Some (sl, True))
      \<or> (\<exists>sl. mw_thr w t = Some (sl, False) \<and> \<not> asleep_in (mw_k w) t sl)"
  shows "t \<notin> set (msg_rwait (msgque (mw_k w) ! x)) \<and> t \<notin> set (msg_wwait (msgque (mw_k w) ! x))"
proof -
  have c: "chan_ok (mw_thr w) st mi x (msgque (mw_k w) ! x)" using w x by (simp add: msg_world_def)
  show ?thesis
  proof (intro conjI notI)
    assume r: "t \<in> set (msg_rwait (msgque (mw_k w) ! x))"
    with c obtain sl where s: "mw_thr w t = Some (sl, False)" "ms_x sl = x" "is_rcv (ms_call sl)"
      by (auto simp: chan_ok_def waits_as_def)
    with r have "asleep_in (mw_k w) t sl" by (auto simp: asleep_in_def wait_of_def is_rcv_def split: mcall.splits)
    with t s show False by auto
  next
    assume r: "t \<in> set (msg_wwait (msgque (mw_k w) ! x))"
    with c obtain sl where s: "mw_thr w t = Some (sl, False)" "ms_x sl = x" "\<not> is_rcv (ms_call sl)"
      by (auto simp: chan_ok_def waits_as_def)
    with r have "asleep_in (mw_k w) t sl" by (auto simp: asleep_in_def wait_of_def is_rcv_def split: mcall.splits)
    with t s show False by auto
  qed
qed

section \<open>Storing a queue\<close>

lemma key_table_kept:
  assumes tab: "key_table (map msg_perm qs) m" and x: "x < length qs" and "kept (qs ! x) q"
  shows "key_table (map msg_perm (qs[x := q])) m"
proof (cases "allocated (msg_perm q)")
  case True
  with assms show ?thesis by (simp add: map_update kept_def key_table_same_key)
next
  case False
  with assms show ?thesis by (simp add: map_update key_table_dealloc)
qed

lemma inv_put:
  assumes inv: "msg_inv mi k" and x: "x < length (msgque k)" and "q_inv mi (fst r)" and "kept (msgque k ! x) (fst r)"
  shows "msg_inv mi (q_put x r k)"
proof -
  have "key_table (map msg_perm ((msgque k)[x := fst r])) (msg_mark k)"
    using inv x assms(4) by (intro key_table_kept) (simp_all add: msg_inv_def)
  moreover have "\<forall>q \<in> set ((msgque k)[x := fst r]). q_inv mi q"
    using inv assms(3) set_update_subset_insert [of "msgque k" x "fst r"] by (auto simp: msg_inv_def)
  ultimately show ?thesis using inv by (simp add: msg_inv_def q_put_def)
qed

lemma world_put:
  assumes w: "msg_world st mi w" and k: "msgque k = msgque (mw_k w)" "msg_mark k = msg_mark (mw_k w)"
    and x: "x < length (msgque k)"
    and q: "q_inv mi (fst r)" "gentle st (msgque k ! x) (fst r)" "kept (msgque k ! x) (fst r)"
  shows "msg_world st mi (w\<lparr>mw_k := q_put x r k\<rparr>)"
proof -
  have "msg_inv mi k" using w k by (simp add: msg_world_def msg_inv_def)
  then have "msg_inv mi (q_put x r k)" by (rule inv_put [OF _ x q(1,3)])
  moreover have "chan_ok (mw_thr w) st mi y ((msgque k)[x := fst r] ! y)" if "y < length (msgque k)" for y
  proof (cases "y = x")
    case True
    have "chan_ok (mw_thr w) st mi x (msgque k ! x)" using w x k by (simp add: msg_world_def)
    with True x q(2) show ?thesis by (simp add: chan_ok_gentle)
  next
    case False
    with that w k show ?thesis by (simp add: msg_world_def)
  qed
  ultimately show ?thesis using w k by (simp add: msg_world_def)
qed

lemma world_thr:
  assumes w: "msg_world st mi w"
    and t: "\<And>x. x < length (msgque (mw_k w)) \<Longrightarrow>
      t \<notin> set (msg_rwait (msgque (mw_k w) ! x)) \<and> t \<notin> set (msg_wwait (msgque (mw_k w) ! x))"
    and v: "\<And>sl b. v = Some (sl, b) \<Longrightarrow> ms_x sl < length (msgque (mw_k w)) \<and> mc_thr (ms_who sl) = t
      \<and> (\<forall>c. ms_call sl = Snd c \<longrightarrow> 0 \<le> s_cnt c \<and> s_cnt c \<le> msgmax mi)"
  shows "msg_world st mi (w\<lparr>mw_thr := (mw_thr w)(t := v)\<rparr>)"
  using w t v by (auto simp: msg_world_def intro: chan_ok_thr)

lemma world_err [simp]: "msg_world st mi (w\<lparr>mw_k := (mw_k w)\<lparr>msg_err := e\<rparr>\<rparr>) = msg_world st mi w"
  by (simp add: msg_world_def)

lemma world_m_err [simp]: "msg_world st mi (w\<lparr>mw_k := m_err e k\<rparr>) = msg_world st mi (w\<lparr>mw_k := k\<rparr>)"
  by (simp add: msg_world_def)

section \<open>One part of a call\<close>

lemma rcv_go_done:
  assumes "q_inv mi q" and "rcv_go j pid now t c q = RDone r sz out"
  shows "\<exists>i m. findmsg (r_type c) (msg_q q) = Some (i, m) \<and> i < length (msg_q q) \<and> m = msg_q q ! i
    \<and> r = msgfree j i (unlinked i pid now q)"
proof -
  from assms(2) obtain i m where f: "findmsg (r_type c) (msg_q q) = Some (i, m)"
    and r: "r = msgfree j i (q\<lparr>msg_cbytes := ushort (msg_cbytes q - msg_ts m), msg_lrpid := pid, msg_rtime := now\<rparr>)"
    by (auto simp: rcv_go_def Let_def split: option.splits if_splits)
  from findmsg_nth [OF f] r f show ?thesis by (auto simp: unlinked_def)
qed

lemma rcv_go_sleep:
  "rcv_go j pid now t c q = RSleep q' \<Longrightarrow>
     none_for (r_type c) (msg_q q) \<and> q' = perm_mode (\<lambda>m. m OR MSG_RWAIT) (q\<lparr>msg_rwait := msg_rwait q @ [t]\<rparr>)"
  by (auto simp: rcv_go_def none_for_def Let_def split: option.splits if_splits)

lemma snd_go_done:
  assumes "snd_go mi cr mem j pid now t c q = SDone r" and "0 \<le> s_cnt c" and "s_cnt c \<le> 65535"
  shows "\<exists>m. r = q_add j pid now m q \<and> msg_ok m \<and> \<not> q_full mi (msg_ts m) q \<and> s_type c = Some (mtype (msg_attr m))
    \<and> msg_spot m = take (nat (s_cnt c)) (s_text c) \<and> msg_ts m = s_cnt c"
  using assms
  by (auto simp: snd_go_def Let_def msg_ok_def kwrap split: option.splits if_splits)

lemma snd_go_sleep:
  "snd_go mi cr mem j pid now t c q = SSleep q' \<Longrightarrow>
     q_full mi (s_cnt c) q \<and> q' = perm_mode (\<lambda>m. m OR MSG_WWAIT) (q\<lparr>msg_wwait := msg_wwait q @ [t]\<rparr>)"
  by (auto simp: snd_go_def Let_def split: option.splits if_splits)

text \<open>A thread joins the list of a queue.\<close>

lemma mworld_sleep:
  assumes w: "msg_world st mi w" and k: "msgque k = msgque (mw_k w)" "msg_mark k = msg_mark (mw_k w)"
    and x: "x < length (msgque k)" and live: "allocated (msg_perm (msgque k ! x))"
    and t: "\<And>y. y < length (msgque (mw_k w)) \<Longrightarrow>
      t \<notin> set (msg_rwait (msgque (mw_k w) ! y)) \<and> t \<notin> set (msg_wwait (msgque (mw_k w) ! y))"
    and q': "q' = (if is_rcv (ms_call sl)
        then perm_mode (\<lambda>m. m OR MSG_RWAIT) ((msgque k ! x)\<lparr>msg_rwait := msg_rwait (msgque k ! x) @ [t]\<rparr>)
        else perm_mode (\<lambda>m. m OR MSG_WWAIT) ((msgque k ! x)\<lparr>msg_wwait := msg_wwait (msgque k ! x) @ [t]\<rparr>))"
    and sl: "ms_x sl = x" "ms_seq sl = ip_seq (msg_perm (msgque k ! x))" "mc_thr (ms_who sl) = t"
      "waiter_ok st mi sl (msgque k ! x)" "\<And>c. ms_call sl = Snd c \<Longrightarrow> 0 \<le> s_cnt c \<and> s_cnt c \<le> msgmax mi"
  shows "msg_world st mi (w\<lparr>mw_k := q_put x (q', []) k, mw_thr := (mw_thr w)(t := Some (sl, False))\<rparr>)"
proof -
  let ?q = "msgque k ! x"
  have inv: "msg_inv mi k" using w k by (simp add: msg_world_def msg_inv_def)
  then have q: "q_inv mi ?q" using x by (simp add: msg_inv_def)
  have same: "msg_q q' = msg_q ?q" "ip_seq (msg_perm q') = ip_seq (msg_perm ?q)" "ip_key (msg_perm q') = ip_key (msg_perm ?q)"
    "msg_qnum q' = msg_qnum ?q" "msg_cbytes q' = msg_cbytes ?q" "msg_qbytes q' = msg_qbytes ?q"
    "bit (ip_mode (msg_perm q')) 15" "set (msg_rwait q') \<subseteq> insert t (set (msg_rwait ?q))"
    "set (msg_wwait q') \<subseteq> insert t (set (msg_wwait ?q))"
    using live by (auto simp: q' allocated_iff bit_simps)
  have lists: "is_rcv (ms_call sl) \<Longrightarrow> msg_wwait q' = msg_wwait ?q" "\<not> is_rcv (ms_call sl) \<Longrightarrow> msg_rwait q' = msg_rwait ?q"
    by (simp_all add: q')
  have "waits_ok q'" using q live
    by (auto simp: q_inv_def waits_bits q' bit_simps allocated_iff)
  then have q'_inv: "q_inv mi q'" using q same by (simp add: q_inv_def queue_ok_def text_sum_def)
  have "kept ?q q'" using same live by (simp add: kept_def)
  then have "msg_inv mi (q_put x (q', []) k)" using inv_put [OF inv x, of "(q', [])"] q'_inv by simp
  moreover have "chan_ok ((mw_thr w)(t := Some (sl, False))) st mi y ((msgque k)[x := q'] ! y)"
    if y: "y < length (msgque k)" for y
  proof (cases "y = x")
    case False
    then show ?thesis using y w k t [of y] by (simp add: msg_world_def chan_ok_thr)
  next
    case True
    have old: "chan_ok ((mw_thr w)(t := Some (sl, False))) st mi x ?q"
      using w k x t [of x] by (simp add: msg_world_def chan_ok_thr)
    have wq: "waits_as thr st mi x q' rc u = waits_as thr st mi x ?q rc u" for thr rc u
      by (simp add: waits_as_def waiter_ok_def q_full_def same split: mcall.splits cong: mcall.case_cong)
    have me: "waits_as ((mw_thr w)(t := Some (sl, False))) st mi x ?q (is_rcv (ms_call sl)) t"
      using sl by (simp add: waits_as_def)
    have "chan_ok ((mw_thr w)(t := Some (sl, False))) st mi x q'"
      unfolding chan_ok_def wq
    proof (intro conjI ballI)
      fix u assume u: "u \<in> set (msg_rwait q')"
      show "waits_as ((mw_thr w)(t := Some (sl, False))) st mi x ?q True u"
      proof (cases "u = t")
        case True
        with u lists(2) t [of x] x k have "is_rcv (ms_call sl)" by metis
        with True me show ?thesis by simp
      next
        case False
        with u same(8) old show ?thesis by (auto simp: chan_ok_def)
      qed
    next
      fix u assume u: "u \<in> set (msg_wwait q')"
      show "waits_as ((mw_thr w)(t := Some (sl, False))) st mi x ?q False u"
      proof (cases "u = t")
        case True
        with u lists(1) t [of x] x k have "\<not> is_rcv (ms_call sl)" by metis
        with True me show ?thesis by simp
      next
        case False
        with u same(9) old show ?thesis by (auto simp: chan_ok_def)
      qed
    qed
    with True x show ?thesis by simp
  qed
  ultimately show ?thesis using w k x sl by (simp add: msg_world_def)
qed

lemma msg_go_world:
  assumes w: "msg_world st mi w" and k: "msgque k = msgque (mw_k w)" "msg_mark k = msg_mark (mw_k w)"
    and x: "x < length (msgque k)" and live: "allocated (msg_perm (msgque k ! x))"
    and t: "\<And>y. y < length (msgque (mw_k w)) \<Longrightarrow>
      t \<notin> set (msg_rwait (msgque (mw_k w) ! y)) \<and> t \<notin> set (msg_wwait (msgque (mw_k w) ! y))"
    and who: "mc_thr who = t" and call: "\<And>c. call = Snd c \<Longrightarrow> 0 \<le> s_cnt c \<and> s_cnt c \<le> msgmax mi"
  shows "msg_world st mi (give t w (msg_go mi who mem now j call x k))"
proof -
  let ?q = "msgque k ! x"
  have "msg_inv mi k" using w k by (simp add: msg_world_def msg_inv_def)
  then have q: "q_inv mi ?q" and mx: "msgmax mi \<le> 65535" using x by (simp_all add: msg_inv_def msginfo_ok_def)
  have none: "msg_world st mi (w'\<lparr>mw_thr := (mw_thr w')(t := None)\<rparr>)"
    if "msg_world st mi w'" "\<And>y. y < length (msgque (mw_k w')) \<Longrightarrow>
      t \<notin> set (msg_rwait (msgque (mw_k w') ! y)) \<and> t \<notin> set (msg_wwait (msgque (mw_k w') ! y))" for w'
    by (rule world_thr [OF that]) simp_all
  have fail: "msg_world st mi (give t w (m_fail e out k))" for e out
  proof -
    have "msg_world st mi (w\<lparr>mw_k := k\<rparr>)" using w k by (simp add: msg_world_def msg_inv_def)
    from none [OF this] t k show ?thesis by (simp add: give_def m_fail_def msg_world_def)
  qed
  have fin: "msg_world st mi (give t w (MRet (q_put x r k) z out))"
    if r: "q_inv mi (fst r)" "gentle st ?q (fst r)" "kept ?q (fst r)"
      "t \<notin> set (msg_rwait (fst r))" "t \<notin> set (msg_wwait (fst r))" for r z out
  proof -
    have "msg_world st mi (w\<lparr>mw_k := q_put x r k\<rparr>)" by (rule world_put [OF w k x r(1-3)])
    moreover have "t \<notin> set (msg_rwait ((msgque k)[x := fst r] ! y)) \<and> t \<notin> set (msg_wwait ((msgque k)[x := fst r] ! y))"
      if "y < length (msgque k)" for y
      using that r(4,5) t [of y] k by (cases "y = x") simp_all
    ultimately show ?thesis using none [of "w\<lparr>mw_k := q_put x r k\<rparr>"] by (simp add: give_def)
  qed
  let ?sl = "\<lparr>ms_who = who, ms_id = j, ms_call = call, ms_x = x, ms_seq = ip_seq (msg_perm ?q)\<rparr>"
  note sleep = mworld_sleep [OF w k x live t _, where sl = ?sl]
  have tx: "t \<notin> set (msg_rwait ?q)" "t \<notin> set (msg_wwait ?q)" using t [of x] x k by simp_all
  show ?thesis
  proof (cases call)
    case (Rcv c)
    show ?thesis
    proof (cases "rcv_go j (mc_pid who) now (mc_thr who) c ?q")
      case (RErr e out)
      with Rcv fail show ?thesis by (simp add: msg_go_def)
    next
      case (RDone r sz out)
      from rcv_go_done [OF q RDone] obtain i where i: "i < length (msg_q ?q)" "r = msgfree j i (unlinked i (mc_pid who) now ?q)"
        by blast
      from receive_ok [OF q i(1), of j "mc_pid who" now st] i(2) tx
      have "msg_world st mi (give t w (MRet (q_put x r k) sz out))"
        by (intro fin) (simp_all add: unlinked_def)
      with Rcv RDone show ?thesis by (simp add: msg_go_def)
    next
      case (RSleep q')
      from rcv_go_sleep [OF RSleep] Rcv who
      have "msg_world st mi (w\<lparr>mw_k := q_put x (q', []) k, mw_thr := (mw_thr w)(t := Some (?sl, False))\<rparr>)"
        by (intro sleep) (simp_all add: is_rcv_def waiter_ok_def)
      with Rcv RSleep show ?thesis by (simp add: msg_go_def give_def Let_def)
    qed
  next
    case (Snd c)
    have cnt: "0 \<le> s_cnt c" "s_cnt c \<le> 65535" using call [OF Snd] mx by simp_all
    show ?thesis
    proof (cases "snd_go mi (mc_cr who) mem j (mc_pid who) now (mc_thr who) c ?q")
      case (SErr e)
      with Snd fail show ?thesis by (simp add: msg_go_def)
    next
      case (SDone r)
      from snd_go_done [OF SDone cnt] obtain m where m: "r = q_add j (mc_pid who) now m ?q" "msg_ok m" "\<not> q_full mi (msg_ts m) ?q"
        by blast
      note ok = send_ok [OF q live m(3,2), of j "mc_pid who" now st, folded m(1)]
      have "set (msg_rwait (fst r)) \<subseteq> set (msg_rwait ?q)" "msg_wwait (fst r) = msg_wwait ?q"
        by (auto simp: m(1) q_add_def Let_def)
      with ok tx have "msg_world st mi (give t w (MRet (q_put x r k) 0 (None, [])))"
        by (intro fin) auto
      with Snd SDone show ?thesis by (simp add: msg_go_def)
    next
      case (SSleep q')
      from snd_go_sleep [OF SSleep] Snd who call
      have "msg_world st mi (w\<lparr>mw_k := q_put x (q', []) k, mw_thr := (mw_thr w)(t := Some (?sl, False))\<rparr>)"
        by (intro sleep) (simp_all add: is_rcv_def waiter_ok_def)
      with Snd SSleep show ?thesis by (simp add: msg_go_def give_def Let_def)
    qed
  qed
qed

section \<open>Whole calls\<close>

lemma gentle_refl: "gentle st q q"
  by (simp add: gentle_def)

lemma kept_refl: "kept q q"
  by (simp add: kept_def)

lemma fail_world:
  assumes w: "msg_world st mi w" and k: "msgque k = msgque (mw_k w)" "msg_mark k = msg_mark (mw_k w)"
    and t: "mw_thr w t = None"
  shows "msg_world st mi (give t w (m_fail e out k))"
proof -
  have "(mw_thr w)(t := None) = mw_thr w" using t by auto
  then have "give t w (m_fail e out k) = w\<lparr>mw_k := m_err e k\<rparr>" by (simp add: give_def m_fail_def)
  with w k show ?thesis by (simp add: msg_world_def msg_inv_def m_err_def)
qed

lemma rmsgrcv_world:
  assumes w: "msg_world st mi w" and k: "msgque k = msgque (mw_k w)" "msg_mark k = msg_mark (mw_k w)"
    and t: "mw_thr w (mc_thr who) = None"
  shows "msg_world st mi (give (mc_thr who) w (rmsgrcv mi v who now j c k))"
proof -
  note fail = fail_world [OF w k t]
  have inv: "msg_inv mi k" using w k by (simp add: msg_world_def msg_inv_def)
  show ?thesis
  proof (cases "msgconv mi j k")
    case None
    with fail show ?thesis by (simp add: rmsgrcv_def)
  next
    case (Some x)
    have live: "x < length (msgque k)" "allocated (msg_perm (msgque k ! x))"
      using msgconv_live [OF inv Some] by (simp_all add: live_q_def)
    have "msg_world st mi (give (mc_thr who) w (msg_go mi who True now j (Rcv c) x k))"
      by (rule msg_go_world [OF w k live]) (use not_waiting [OF w] t in auto)
    with fail Some show ?thesis by (simp add: rmsgrcv_def split: option.splits)
  qed
qed

lemma rmsgsnd_world:
  assumes w: "msg_world st mi w" and k: "msgque k = msgque (mw_k w)" "msg_mark k = msg_mark (mw_k w)"
    and t: "mw_thr w (mc_thr who) = None"
  shows "msg_world st mi (give (mc_thr who) w (rmsgsnd mi v who mem now j c k))"
proof -
  note fail = fail_world [OF w k t]
  have inv: "msg_inv mi k" using w k by (simp add: msg_world_def msg_inv_def)
  show ?thesis
  proof (cases "msgconv mi j k")
    case None
    with fail show ?thesis by (simp add: rmsgsnd_def)
  next
    case (Some x)
    have live: "x < length (msgque k)" "allocated (msg_perm (msgque k ! x))"
      using msgconv_live [OF inv Some] by (simp_all add: live_q_def)
    have "\<not> (s_cnt c < 0 \<or> s_cnt c > msgmax mi) \<Longrightarrow>
        msg_world st mi (give (mc_thr who) w (msg_go mi who mem now j (Snd c) x k))"
      by (rule msg_go_world [OF w k live]) (use not_waiting [OF w] t in auto)
    with fail Some show ?thesis by (simp add: rmsgsnd_def split: option.splits)
  qed
qed

lemma wake_world:
  assumes w: "msg_world st mi w" and k: "msgque k = msgque (mw_k w)" "msg_mark k = msg_mark (mw_k w)"
    and t: "mw_thr w t = Some (sl, sig)" "\<not> asleep_in k t sl"
  shows "msg_world st mi (give t w (msg_wake mi sig mem now sl k))"
proof -
  have sl: "ms_x sl < length (msgque k)" "mc_thr (ms_who sl) = t"
    "\<And>c. ms_call sl = Snd c \<Longrightarrow> 0 \<le> s_cnt c \<and> s_cnt c \<le> msgmax mi"
    using w t(1) k by (auto simp: msg_world_def)
  have out: "y < length (msgque (mw_k w)) \<Longrightarrow>
      t \<notin> set (msg_rwait (msgque (mw_k w) ! y)) \<and> t \<notin> set (msg_wwait (msgque (mw_k w) ! y))" for y
    by (rule not_waiting [OF w]) (use t k in \<open>cases sig; simp add: asleep_in_def\<close>)+
  show ?thesis
  proof (cases "msgsleep_out sig (ms_x sl) (ms_seq sl) k")
    case None
    then have "allocated (msg_perm (msgque k ! ms_x sl))"
      by (simp add: msgsleep_out_def Let_def split: if_splits)
    with msg_go_world [OF w k sl(1) _ out sl(2,3)] None show ?thesis by (simp add: msg_wake_def)
  next
    case (Some e)
    have "msg_world st mi (w\<lparr>mw_k := k\<rparr>)" using w k by (simp add: msg_world_def msg_inv_def)
    from world_thr [OF this, of t None] out k
    have "msg_world st mi (w\<lparr>mw_k := k, mw_thr := (mw_thr w)(t := None)\<rparr>)" by simp
    with Some show ?thesis by (simp add: msg_wake_def m_fail_def give_def msg_world_def)
  qed
qed

lemma rmsgctl_world:
  assumes w: "msg_world st mi w" and k: "msgque k = msgque (mw_k w)" "msg_mark k = msg_mark (mw_k w)"
    and d: "0 \<le> set_qbytes d" "set_qbytes d \<le> 65535" and strict: "st \<Longrightarrow> cmd \<noteq> 1"
  shows "msg_world st mi (w\<lparr>mw_k := fst (rmsgctl mi v cr now j cmd d k)\<rparr>)"
proof -
  have inv: "msg_inv mi k" and wk: "msg_world st mi (w\<lparr>mw_k := k\<rparr>)"
    using w k by (simp_all add: msg_world_def msg_inv_def)
  show ?thesis
  proof (cases "msgconv mi j k")
    case None
    with wk show ?thesis by (simp add: rmsgctl_def)
  next
    case (Some x)
    have x: "x < length (msgque k)" using msgconv_live [OF inv Some] by (simp add: live_q_def)
    then have q: "q_inv mi (msgque k ! x)" using inv by (simp add: msg_inv_def)
    from rmid_ok [OF q, of j st] have "msg_world st mi (w\<lparr>mw_k := q_put x (msg_rmid j (msgque k ! x)) k\<rparr>)"
      by (intro world_put [OF w k x]) simp_all
    moreover have "msg_world st mi (w\<lparr>mw_k := q_put x (msg_setperm now d (msgque k ! x), []) k\<rparr>)" if "cmd = 1"
    proof -
      have st: "st = False" using strict that by auto
      show ?thesis by (rule world_put [OF w k x]) (use setperm_ok [OF q d, of now] in \<open>simp_all add: st\<close>)
    qed
    ultimately show ?thesis using Some wk by (auto simp: rmsgctl_def Let_def split: option.splits)
  qed
qed

lemma msgctl_world:
  assumes w: "msg_world st mi w" and k: "msgque k = msgque (mw_k w)" "msg_mark k = msg_mark (mw_k w)"
    and d: "\<And>d. buf = Some d \<Longrightarrow> 0 \<le> set_qbytes d \<and> set_qbytes d \<le> 65535" and strict: "st \<Longrightarrow> cmd \<noteq> 1"
  shows "msg_world st mi (w\<lparr>mw_k := fst (msgctl mi v cr now j cmd buf out k)\<rparr>)"
proof -
  have wk: "msg_world st mi (w\<lparr>mw_k := k\<rparr>)" using w k by (simp add: msg_world_def msg_inv_def)
  have "msg_world st mi (w\<lparr>mw_k := fst (rmsgctl mi v cr now j cmd msg_set_none k)\<rparr>)"
    by (rule rmsgctl_world [OF w k _ _ strict]) (simp_all add: msg_set_none_def)
  moreover have "msg_world st mi (w\<lparr>mw_k := fst (rmsgctl mi v cr now j cmd d k)\<rparr>)" if "buf = Some d" for d
    by (rule rmsgctl_world [OF w k _ _ strict]) (use d [OF that] in simp_all)
  ultimately show ?thesis using wk
    by (auto simp: msgctl_def Let_def split: option.splits prod.splits)
qed

lemma msgget_world:
  assumes w: "msg_world st mi w" and k: "msgque k = msgque (mw_k w)" "msg_mark k = msg_mark (mw_k w)"
  shows "\<exists>k' r. msgget mi cr now key flg k = Some (k', r) \<and> msg_world st mi (w\<lparr>mw_k := k'\<rparr>)"
proof -
  have inv: "msg_inv mi k" and wk: "msg_world st mi (w\<lparr>mw_k := k\<rparr>)"
    using w k by (simp_all add: msg_world_def msg_inv_def)
  have tab: "key_table (map msg_perm (msgque k)) (msg_mark k)" using inv by (simp add: msg_inv_def)
  show ?thesis
  proof (cases "ipcget cr key flg (map msg_perm (msgque k)) (msg_mark k)")
    case (IGErr e)
    with wk show ?thesis by (simp add: msgget_def rmsgget_def)
  next
    case IGWild
    with ipcget_no_wild [OF tab] show ?thesis by blast
  next
    case (IGOk x s p m)
    note out = ipcget_table [OF tab IGOk] and hand = ipcget_handed_out [OF tab IGOk]
    have x: "x < length (msgque k)" using out by simp
    have q: "q_inv mi (msgque k ! x)" and mi: "msginfo_ok mi" using inv x by (simp_all add: msg_inv_def)
    have sq: "ip_seq p = ip_seq (msg_perm (msgque k ! x))" using ipcget_seq [OF IGOk] x by simp
    let ?q = "if s \<noteq> 0 then msq_new mi now p else (msgque k ! x)\<lparr>msg_perm := p\<rparr>"
    have perm: "msg_perm ?q = p" by (simp add: msq_new_def)
    have q': "q_inv mi ?q \<and> gentle st (msgque k ! x) ?q"
    proof (cases "s = 0")
      case True
      with out x have "?q = msgque k ! x" by simp
      with q show ?thesis by (simp add: gentle_refl)
    next
      case False
      have "queue_ok mi (msq_new mi now p)"
        using mi by (simp add: queue_ok_def msq_new_def text_sum_def msginfo_ok_def kwrap)
      with False q sq show ?thesis
        by (simp add: q_inv_def waits_ok_def gentle_def) (simp add: msq_new_def)
    qed
    let ?k = "k\<lparr>msgque := (msgque k)[x := ?q], msg_mark := m\<rparr>"
    have "\<forall>q \<in> set ((msgque k)[x := ?q]). q_inv mi q"
      using inv q' set_update_subset_insert [of "msgque k" x ?q] by (auto simp: msg_inv_def)
    then have "msg_inv mi ?k"
      using inv out perm by (simp add: msg_inv_def map_update)
    moreover have "chan_ok (mw_thr w) st mi y ((msgque k)[x := ?q] ! y)" if "y < length (msgque k)" for y
    proof (cases "y = x")
      case True
      have "chan_ok (mw_thr w) st mi x (msgque k ! x)" using w x k by (simp add: msg_world_def)
      with q' True x show ?thesis using chan_ok_gentle by (metis nth_list_update_eq)
    next
      case False
      with that w k show ?thesis by (simp add: msg_world_def)
    qed
    ultimately have "msg_world st mi (w\<lparr>mw_k := ?k\<rparr>)" using w k by (simp add: msg_world_def)
    then show ?thesis by (simp add: msgget_def rmsgget_def IGOk Let_def)
  qed
qed

lemma msgselect_world:
  assumes w: "msg_world st mi w" and k: "msgque k = msgque (mw_k w)" "msg_mark k = msg_mark (mw_k w)"
  shows "msg_world st mi (w\<lparr>mw_k := fst (msgselect mi j req rtn selrc k)\<rparr>)"
proof -
  have inv: "msg_inv mi k" and wk: "msg_world st mi (w\<lparr>mw_k := k\<rparr>)"
    using w k by (simp_all add: msg_world_def msg_inv_def)
  have put: "msg_world st mi (w\<lparr>mw_k := q_put x ((msgque k ! x)\<lparr>msg_reqevents := ev\<rparr>, []) k\<rparr>)"
    if "msgconv mi j k = Some x" for x ev
  proof -
    have x: "x < length (msgque k)" using msgconv_live [OF inv that] by (simp add: live_q_def)
    then have "q_inv mi (msgque k ! x)" using inv by (simp add: msg_inv_def)
    then show ?thesis
      by (intro world_put [OF w k x])
        (simp_all add: q_inv_def queue_ok_def text_sum_def waits_ok_def gentle_def kept_def)
  qed
  show ?thesis using wk put by (auto simp: msgselect_def Let_def split: option.splits)
qed

lemma signal_world:
  assumes w: "msg_world st mi w" and k: "msgque k = msgque (mw_k w)" "msg_mark k = msg_mark (mw_k w)"
    and t: "mw_thr w t = Some (sl, False)"
  shows "msg_world st mi (w\<lparr>mw_k := q_put (ms_x sl) (leave t (ms_call sl) (msgque k ! ms_x sl), []) k,
           mw_thr := (mw_thr w)(t := Some (sl, True))\<rparr>)"
proof -
  let ?q = "msgque k ! ms_x sl" and ?l = "leave t (ms_call sl) (msgque k ! ms_x sl)"
  have "\<forall>t sl b. mw_thr w t = Some (sl, b) \<longrightarrow> ms_x sl < length (msgque (mw_k w))"
    using w unfolding msg_world_def by blast
  with t k have x: "ms_x sl < length (msgque k)" by metis
  have inv: "msg_inv mi k" using w k by (simp add: msg_world_def msg_inv_def)
  then have q: "q_inv mi ?q" using x by (simp add: msg_inv_def)
  have l: "q_inv mi ?l" "gentle st ?q ?l" "kept ?q ?l"
    using q by (auto simp: leave_def q_inv_def queue_ok_def text_sum_def waits_ok_def gentle_def kept_def
        split: mcall.splits)
  have w1: "msg_world st mi (w\<lparr>mw_k := q_put (ms_x sl) (?l, []) k\<rparr>)"
    by (rule world_put [OF w k x]) (use l in simp_all)
  have "t \<notin> set (msg_rwait ((msgque k)[ms_x sl := ?l] ! y)) \<and> t \<notin> set (msg_wwait ((msgque k)[ms_x sl := ?l] ! y))"
    if y: "y < length (msgque k)" for y
  proof -
    have c: "chan_ok (mw_thr w) st mi y ((msgque k)[ms_x sl := ?l] ! y)" using w1 y by (simp add: msg_world_def)
    then have "t \<in> set (msg_rwait ((msgque k)[ms_x sl := ?l] ! y)) \<Longrightarrow> y = ms_x sl \<and> is_rcv (ms_call sl)"
      "t \<in> set (msg_wwait ((msgque k)[ms_x sl := ?l] ! y)) \<Longrightarrow> y = ms_x sl \<and> \<not> is_rcv (ms_call sl)"
      using t by (auto simp: chan_ok_def waits_as_def)
    then show ?thesis using x by (auto simp: leave_def is_rcv_def split: mcall.splits)
  qed
  moreover have "ms_x sl < length (msgque (mw_k w)) \<and> mc_thr (ms_who sl) = t
      \<and> (\<forall>c. ms_call sl = Snd c \<longrightarrow> 0 \<le> s_cnt c \<and> s_cnt c \<le> msgmax mi)"
    using w t unfolding msg_world_def by blast
  ultimately show ?thesis using world_thr [OF w1, of t "Some (sl, True)"] k by simp
qed

section \<open>The machine\<close>

lemma msg_next_ok:
  assumes legal: "msg_legal st e" and w: "msg_world st mi w"
  shows "\<exists>w'. msg_next mi e w = Some w' \<and> msg_world st mi w'"
proof -
  let ?k = "(mw_k w)\<lparr>msg_err := None\<rparr>"
  have k: "msgque ?k = msgque (mw_k w)" "msg_mark ?k = msg_mark (mw_k w)" by simp_all
  show ?thesis
  proof (cases e)
    case (MEvGet cr now key flg)
    from msgget_world [OF w k, of cr now key flg] show ?thesis by (auto simp: MEvGet msg_next_def)
  next
    case (MEvCtl v cr now j cmd buf out)
    have "msg_world st mi (w\<lparr>mw_k := fst (msgctl mi v cr now j cmd buf out ?k)\<rparr>)"
      by (rule msgctl_world [OF w k]) (use legal in \<open>auto simp: MEvCtl msg_legal_def\<close>)
    then show ?thesis by (auto simp: MEvCtl msg_next_def split: prod.splits)
  next
    case (MEvRcv v who now j c)
    with rmsgrcv_world [OF w k] w show ?thesis by (simp add: msg_next_def)
  next
    case (MEvSnd v who mem now j c)
    with rmsgsnd_world [OF w k] w show ?thesis by (simp add: msg_next_def)
  next
    case (MEvSelect j req rtn selrc)
    with msgselect_world [OF w k, of j req rtn selrc] show ?thesis by (auto simp: msg_next_def split: prod.splits)
  next
    case (MEvSig t)
    show ?thesis
    proof (cases "\<exists>sl. mw_thr w t = Some (sl, False) \<and> asleep_in ?k t sl")
      case True
      then obtain sl where sl: "mw_thr w t = Some (sl, False)" "asleep_in ?k t sl" by blast
      from signal_world [OF w k sl(1)] sl show ?thesis by (simp add: MEvSig msg_next_def)
    next
      case False
      with w show ?thesis by (auto simp: MEvSig msg_next_def Let_def split: option.splits bool.splits)
    qed
  next
    case (MEvWake t mem now)
    show ?thesis
    proof (cases "mw_thr w t")
      case None
      with w show ?thesis by (simp add: MEvWake msg_next_def)
    next
      case (Some p)
      obtain sl sig where p: "p = (sl, sig)" by (cases p)
      from wake_world [OF w k, of t sl sig mem now] w Some show ?thesis by (simp add: MEvWake msg_next_def p Let_def)
    qed
  qed
qed

interpretation msg_machine: guarded_machine "msg_legal st" "msg_next mi" "msg_world st mi" for st mi
  by unfold_locales (rule msg_next_ok)

lemma msg_boot_world:
  assumes "msginfo_ok mi"
  shows "msg_world st mi (msg_boot mi)"
proof -
  have slot: "q_inv mi msg_free_slot"
    using assms by (simp add: q_inv_def queue_ok_def waits_ok_def msg_free_slot_def text_sum_def msginfo_ok_def)
  have "\<not> allocated (msg_perm msg_free_slot)" by (simp add: allocated_def msg_free_slot_def)
  then have "key_table (map msg_perm (replicate (nat (msgmni mi)) msg_free_slot)) 0"
    by (simp add: key_table_def)
  with slot have "msg_inv mi (mw_k (msg_boot mi))"
    using assms by (simp add: msg_inv_def msg_boot_def msginfo_ok_def)
  then show ?thesis
    by (simp add: msg_world_def msg_boot_def chan_ok_def) (simp add: msg_free_slot_def)
qed

end
