(* ===== verification/MsgProps.thy ===== *)
theory MsgProps
  imports MsgSys
begin

text \<open>
  What the message facility guarantees, one theorem per promise, with concrete states for the
  witnesses.
\<close>

unbundle bit_operations_syntax

section \<open>States for the witnesses\<close>

definition ex_mi :: msginfo where
  "ex_mi = \<lparr>msgmax = 100, msgmnb = 10, msgmni = 2, msgmnm = 4\<rparr>"

definition ex_msg :: "int \<Rightarrow> 8 word list \<Rightarrow> msg" where
  "ex_msg ty bs = \<lparr>msg_attr = \<lparr>mtime = 1, muid = 200, mgid = 1, mpid = 7, mtype = ty\<rparr>,
     msg_ts = int (length bs), msg_spot = bs\<rparr>"

text \<open>Queue 0 has three messages, of the types 5, 2 and 5.\<close>

definition ex_q :: msqid_ds where
  "ex_q = (msq_new ex_mi 1 (ex_perm 0x8180 9))
     \<lparr>msg_q := [ex_msg 5 [1, 2], ex_msg 2 [3], ex_msg 5 [4, 5, 6]], msg_cbytes := 6, msg_qnum := 3\<rparr>"

definition ex_mk :: msgsys where
  "ex_mk = \<lparr>msgque = [ex_q, msg_free_slot], msg_mark = 1, msg_notes = [], msg_err = None\<rparr>"

definition ex_who :: "nat \<Rightarrow> mcaller" where
  "ex_who t = \<lparr>mc_cr = ex_cred, mc_pid = 7, mc_thr = t\<rparr>"

definition ex_rcv :: "int \<Rightarrow> int \<Rightarrow> 32 word \<Rightarrow> rcv_call" where
  "ex_rcv sz ty flg = \<lparr>r_size = sz, r_type = ty, r_flg = flg, r_x = False, r_sys = False, r_room = 100\<rparr>"

definition ex_snd :: "int \<Rightarrow> 8 word list \<Rightarrow> 32 word \<Rightarrow> snd_call" where
  "ex_snd ty bs flg = \<lparr>s_cnt = int (length bs), s_flg = flg, s_type = Some ty, s_text = bs\<rparr>"

lemmas ex_msg_defs = ex_mi_def ex_msg_def ex_q_def ex_mk_def ex_who_def ex_rcv_def ex_snd_def
  msq_new_def msg_free_slot_def ex_perm_def

lemma ex_mi_ok: "msginfo_ok ex_mi"
  by (simp add: msginfo_ok_def ex_mi_def)

lemma ex_q_inv: "q_inv ex_mi ex_q"
  by (simp add: q_inv_def queue_ok_def ex_mi_ok text_sum_def msg_ok_def waits_ok_def)
    (simp add: ex_msg_defs kwrap)

lemma ex_mk_inv: "msg_inv ex_mi ex_mk"
proof -
  have "q_inv ex_mi msg_free_slot"
    using ex_mi_ok by (simp add: q_inv_def queue_ok_def waits_ok_def msg_free_slot_def text_sum_def msginfo_ok_def)
  moreover have "key_table (map msg_perm (msgque ex_mk)) (msg_mark ex_mk)"
    by (auto simp: key_table_def allocated_def less_Suc_eq nth_Cons' ex_msg_defs)
  ultimately show ?thesis using ex_q_inv by (simp add: msg_inv_def ex_mi_ok) (simp add: ex_mk_def ex_mi_def)
qed

lemma ex_conv: "msgconv ex_mi 0 ex_mk = Some 0"
  by (simp add: msgconv_def allocated_def) (simp add: ex_msg_defs)

lemma ex_read: "ipcaccess ex_vars ex_cred (msg_perm ex_q) IPC_R = None"
  by (simp add: ipcaccess_def ex_msg_defs ex_cred_defs)

lemma ex_write: "ipcaccess ex_vars ex_cred (msg_perm ex_q) IPC_W = None"
  by (simp add: ipcaccess_def ex_msg_defs ex_cred_defs)

section \<open>Which message a receive takes\<close>

text \<open>
  C17. The search of a receive takes the first message for type 0, the first of the type for a
  positive one, and for a negative one the first of the lowest type that is at most its
  absolute value; it finds nothing exactly when no message is eligible. The type -2^31 is
  the one exception: its absolute value is no \<open>long\<close>, and it finds nothing at all.
\<close>

theorem findmsg_picks_best:
  assumes "- (2 ^ 31) \<le> t" and "\<forall>m \<in> set ms. 1 \<le> mtype (msg_attr m)"
  shows "if t = - (2 ^ 31) then findmsg t ms = None
    else (\<forall>i m. findmsg t ms = Some (i, m) \<longleftrightarrow> best_msg t ms i \<and> m = ms ! i)
      \<and> (findmsg t ms = None \<longleftrightarrow> (\<forall>m \<in> set ms. \<not> eligible t (mtype (msg_attr m))))"
proof (cases "t = - (2 ^ 31)")
  case True
  have "none_for t ms" using assms(2) by (fastforce simp: none_for_iff True neg_long_def)
  with True show ?thesis by (simp add: none_for_def)
next
  case False
  with assms(1) have t: "- (2 ^ 31) < t" by simp
  have uniq: "i = j" if "best_msg t ms i" "best_msg t ms j" for i j
  proof -
    have "if t < 0 \<and> mtype (msg_attr (ms ! j)) \<noteq> mtype (msg_attr (ms ! i))
           then mtype (msg_attr (ms ! i)) < mtype (msg_attr (ms ! j)) else i \<le> j"
      "if t < 0 \<and> mtype (msg_attr (ms ! i)) \<noteq> mtype (msg_attr (ms ! j))
           then mtype (msg_attr (ms ! j)) < mtype (msg_attr (ms ! i)) else j \<le> i"
      using that unfolding best_msg_def by blast+
    then show ?thesis by (auto split: if_splits)
  qed
  have none: "best_msg t ms i \<Longrightarrow> \<exists>m \<in> set ms. eligible t (mtype (msg_attr m))" for i
    unfolding best_msg_def using nth_mem by blast
  show ?thesis
  proof (cases "findmsg t ms")
    case None
    with findmsg_ok [OF t, of ms] have n: "\<forall>m \<in> set ms. \<not> eligible t (mtype (msg_attr m))" by simp
    then have "\<not> best_msg t ms i" for i using none by blast
    with n None False show ?thesis by simp
  next
    case (Some p)
    obtain i m where p: "p = (i, m)" by (cases p)
    with findmsg_ok [OF t, of ms] Some have b: "best_msg t ms i" "m = ms ! i" by simp_all
    have "findmsg t ms = Some (j, m') \<longleftrightarrow> best_msg t ms j \<and> m' = ms ! j" for j m'
      using uniq [OF b(1), of j] b Some p by auto
    with none [OF b(1)] False Some show ?thesis by simp
  qed
qed

theorem findmsg_picks_best_witness:
  "findmsg (- 4) (msg_q ex_q) = Some (1, ex_msg 2 [3])"
proof -
  have "\<forall>m \<in> set (msg_q ex_q). 1 \<le> mtype (msg_attr m)" by (simp add: ex_msg_defs)
  moreover have "best_msg (- 4) (msg_q ex_q) 1 \<and> ex_msg 2 [3] = msg_q ex_q ! 1"
    by (auto simp: best_msg_def eligible_def ex_msg_defs less_Suc_eq nth_Cons')
  ultimately show ?thesis using findmsg_picks_best [of "- 4" "msg_q ex_q"] by simp
qed

text \<open>
  C18. The outcome of a receive: with a result of -1 an error is set and no queue has changed;
  otherwise exactly the chosen message has left its queue, and the caller has got its header
  and as much of its text as it asked for; a sleep means that no message was eligible, and
  all messages are still there.
\<close>

theorem receive_outcome:
  assumes "msg_inv mi k" and "msg_err k = None"
  shows "case rmsgrcv mi v who now j c k of
      MRet k' r out \<Rightarrow>
        if r = - 1 then msgque k' = msgque k \<and> msg_err k' \<noteq> None
        else \<exists>x i m. msgconv mi j k = Some x \<and> findmsg (r_type c) (msg_q (msgque k ! x)) = Some (i, m)
          \<and> r = min (r_size c) (msg_ts m)
          \<and> out = (Some (if r_x c then XHdr (msg_attr m) else THdr (mtype (msg_attr m))), take (nat r) (msg_spot m))
          \<and> msg_q (msgque k' ! x) = take i (msg_q (msgque k ! x)) @ drop (Suc i) (msg_q (msgque k ! x))
          \<and> (\<forall>y. y \<noteq> x \<longrightarrow> msgque k' ! y = msgque k ! y) \<and> msg_err k' = None
    | MSleep k' sl \<Rightarrow> findmsg (r_type c) (msg_q (msgque k ! ms_x sl)) = None
        \<and> map msg_q (msgque k') = map msg_q (msgque k)"
proof -
  have fail: "\<exists>k'. m_fail e out k = MRet k' (- 1) out \<and> msgque k' = msgque k \<and> msg_err k' \<noteq> None" for e out
    by (simp add: m_fail_def m_err_def)
  show ?thesis
  proof (cases "msgconv mi j k")
    case None
    with fail [of EINVAL "(None, [])"] show ?thesis by (auto simp: rmsgrcv_def)
  next
    case (Some x)
    let ?q = "msgque k ! x"
    have x: "x < length (msgque k)" using msgconv_live [OF assms(1) Some] by (simp add: live_q_def)
    then have q: "q_inv mi ?q" using assms(1) by (simp add: msg_inv_def)
    show ?thesis
    proof (cases "ipcaccess v (mc_cr who) (msg_perm ?q) IPC_R = None \<and> 0 \<le> r_size c")
      case False
      then have "\<exists>e. rmsgrcv mi v who now j c k = m_fail e (None, []) k"
        using Some by (auto simp: rmsgrcv_def split: option.splits)
      then obtain e where "rmsgrcv mi v who now j c k = m_fail e (None, []) k" by blast
      with fail [of e "(None, [])"] show ?thesis by auto
    next
      case True
      then have go: "rmsgrcv mi v who now j c k = msg_go mi who True now j (Rcv c) x k"
        using Some by (simp add: rmsgrcv_def)
      show ?thesis
      proof (cases "rcv_go j (mc_pid who) now (mc_thr who) c ?q")
        case (RErr e out)
        with go fail [of e out] show ?thesis by (auto simp: msg_go_def)
      next
        case (RDone r sz out)
        from rcv_go_done [OF q RDone] obtain i m where f: "findmsg (r_type c) (msg_q ?q) = Some (i, m)"
          "i < length (msg_q ?q)" "m = msg_q ?q ! i" "r = msgfree j i (unlinked i (mc_pid who) now ?q)" by blast
        have "0 \<le> msg_ts m" using q f(2,3) by (simp add: q_inv_def queue_ok_def msg_ok_ts)
        with True have sz: "sz \<noteq> - 1" "sz = min (r_size c) (msg_ts m)"
          "out = (Some (if r_x c then XHdr (msg_attr m) else THdr (mtype (msg_attr m))), take (nat sz) (msg_spot m))"
          using RDone f(1) by (auto simp: rcv_go_def Let_def split: if_splits)
        have "msg_q (fst r) = take i (msg_q ?q) @ drop (Suc i) (msg_q ?q)" by (simp add: f(4) unlinked_def)
        then show ?thesis using Some sz f(1) x assms(2) go RDone
          by (simp add: msg_go_def) (simp add: q_put_def)
      next
        case (RSleep q')
        from rcv_go_sleep [OF RSleep] have "none_for (r_type c) (msg_q ?q)" "msg_q q' = msg_q ?q" by simp_all
        then show ?thesis using go RSleep x
          by (simp add: msg_go_def Let_def none_for_def map_update) (metis list_update_id map_update)
      qed
    qed
  qed
qed

theorem receive_outcome_witness:
  "\<exists>k'. rmsgrcv ex_mi ex_vars (ex_who 3) 5 0 (ex_rcv 2 5 MSG_NOERROR) ex_mk = MRet k' 2 (Some (THdr 5), [1, 2])
     \<and> msg_q (msgque k' ! 0) = [ex_msg 2 [3], ex_msg 5 [4, 5, 6]]"
proof -
  have "case rmsgrcv ex_mi ex_vars (ex_who 3) 5 0 (ex_rcv 2 5 MSG_NOERROR) ex_mk of MRet k' r out \<Rightarrow> r \<noteq> - 1 | _ \<Rightarrow> False"
    by code_simp
  then obtain k' r out where r: "rmsgrcv ex_mi ex_vars (ex_who 3) 5 0 (ex_rcv 2 5 MSG_NOERROR) ex_mk = MRet k' r out" "r \<noteq> - 1"
    by (auto split: mres.splits)
  have f: "findmsg 5 (msg_q ex_q) = Some (0, ex_msg 5 [1, 2])" by (simp add: findmsg_def ex_msg_defs)
  have "msg_err ex_mk = None" "msgque ex_mk ! 0 = ex_q" by (simp_all add: ex_mk_def)
  with receive_outcome [OF ex_mk_inv, where v = ex_vars and who = "ex_who 3" and now = 5 and j = 0
      and c = "ex_rcv 2 5 MSG_NOERROR"] r f ex_conv
  have "r = 2 \<and> out = (Some (THdr 5), [1, 2]) \<and> msg_q (msgque k' ! 0) = take 0 (msg_q ex_q) @ drop (Suc 0) (msg_q ex_q)"
    by (simp add: ex_rcv_def) (simp add: ex_msg_def)
  with r(1) show ?thesis by (simp add: ex_q_def)
qed

section \<open>Sending and receiving\<close>

lemma findmsg_snoc:
  assumes "none_for t ms" and "- (2 ^ 31) < t" and "eligible t (mtype (msg_attr m))"
  shows "findmsg t (ms @ [m]) = Some (length ms, m)"
proof -
  have none: "\<forall>m \<in> set ms. \<not> eligible t (mtype (msg_attr m))"
    using findmsg_ok [OF assms(2), of ms] assms(1) by (simp add: none_for_def)
  from findmsg_ok [OF assms(2), of "ms @ [m]"] assms(3)
  obtain i where i: "findmsg t (ms @ [m]) = Some (i, (ms @ [m]) ! i)" "best_msg t (ms @ [m]) i"
    by (cases "findmsg t (ms @ [m])") auto
  have "\<not> i < length ms" using i(2) none nth_mem [of i ms] by (auto simp: best_msg_def nth_append)
  then have "i = length ms" using i(2) by (simp add: best_msg_def)
  with i(1) show ?thesis by simp
qed

lemma rcv_go_found:
  assumes "findmsg (r_type c) (msg_q q) = Some (i, m)" and "0 \<le> msg_ts m" and "msg_ts m \<le> r_size c"
    and "r_sys c \<or> hdr_size (r_x c) + msg_ts m \<le> r_room c"
  shows "\<exists>r. rcv_go j pid now t c q =
      RDone r (msg_ts m) (Some (if r_x c then XHdr (msg_attr m) else THdr (mtype (msg_attr m))),
        take (nat (msg_ts m)) (msg_spot m))
    \<and> msg_q (fst r) = take i (msg_q q) @ drop (Suc i) (msg_q q)"
proof -
  have "\<not> r_size c < msg_ts m" "\<not> (\<not> r_sys c \<and> r_room c < hdr_size (r_x c))"
    "\<not> (\<not> r_sys c \<and> r_room c < hdr_size (r_x c) + msg_ts m)" using assms(2-4) by auto
  with assms(1) show ?thesis
    by (intro exI [of _ "msgfree j i (q\<lparr>msg_cbytes := ushort (msg_cbytes q - msg_ts m), msg_lrpid := pid,
          msg_rtime := now\<rparr>)"]) (simp add: rcv_go_def Let_def)
qed

lemma msgconv_put:
  assumes "x < length (msgque k)" and "msgconv mi j k = Some y"
    and "ip_seq (msg_perm (fst r)) = ip_seq (msg_perm (msgque k ! x))"
    and "allocated (msg_perm (fst r)) = allocated (msg_perm (msgque k ! x))"
  shows "msgconv mi j (q_put x r k) = Some y"
proof -
  have "msg_mark (q_put x r k) = msg_mark k" by (simp add: q_put_def)
  with assms show ?thesis
    by (cases "nat (j mod 2 ^ 32 mod msgmni mi) = x") (simp_all add: msgconv_def Let_def split: if_splits)
qed

lemma q_add_perm:
  "ip_seq (msg_perm (fst (q_add j pid now m q))) = ip_seq (msg_perm q)
   \<and> allocated (msg_perm (fst (q_add j pid now m q))) = allocated (msg_perm q)"
  by (auto simp: q_add_def Let_def allocated_iff bit_simps)

text \<open>
  C19. What is sent is what is received: after a successful send to a queue that held nothing
  for type \<open>t\<close>, a receive of type \<open>t\<close> that has room gets exactly the bytes that were
  sent, with the sender in the header, and the queue holds the messages it held before.
\<close>

theorem send_receive_roundtrip:
  assumes "msg_inv mi k" and "msg_err k = None" and "msgconv mi j k = Some x"
    and "rmsgsnd mi v who mem now j s k = MRet k1 0 out"
    and "none_for (r_type c) (msg_q (msgque k ! x))" and "- (2 ^ 31) < r_type c"
    and "s_type s = Some ty" and "eligible (r_type c) ty" and "s_cnt s \<le> r_size c"
    and "r_sys c \<or> hdr_size (r_x c) + s_cnt s \<le> r_room c"
    and "ipcaccess v' (mc_cr who') (msg_perm (msgque k1 ! x)) IPC_R = None"
  shows "\<exists>k2 h. rmsgrcv mi v' who' now' j c k1 =
      MRet k2 (s_cnt s) (Some (if r_x c then XHdr h else THdr ty), take (nat (s_cnt s)) (s_text s))
    \<and> h = \<lparr>mtime = now, muid = cr_uid (mc_cr who), mgid = cr_gid (mc_cr who), mpid = mc_pid who, mtype = ty\<rparr>
    \<and> msg_q (msgque k2 ! x) = msg_q (msgque k ! x)"
proof -
  let ?q = "msgque k ! x"
  let ?h = "\<lparr>mtime = now, muid = cr_uid (mc_cr who), mgid = cr_gid (mc_cr who), mpid = mc_pid who, mtype = ty\<rparr>"
  let ?m = "\<lparr>msg_attr = ?h, msg_ts = s_cnt s, msg_spot = take (nat (s_cnt s)) (s_text s)\<rparr>"
  have x: "x < length (msgque k)" using msgconv_live [OF assms(1,3)] by (simp add: live_q_def)
  have mx: "msgmax mi \<le> 65535" using assms(1) by (simp add: msg_inv_def msginfo_ok_def)
  have cnt: "0 \<le> s_cnt s" "s_cnt s \<le> msgmax mi"
    and go: "msg_go mi who mem now j (Snd s) x k = MRet k1 0 out"
    using assms(3,4) by (auto simp: rmsgsnd_def m_fail_def split: option.splits if_splits)
  from go obtain r where r: "snd_go mi (mc_cr who) mem j (mc_pid who) now (mc_thr who) s ?q = SDone r" "k1 = q_put x r k"
    by (auto simp: msg_go_def m_fail_def Let_def split: snd_res.splits)
  have ra: "r = q_add j (mc_pid who) now ?m ?q"
    using r(1) assms(7) cnt mx by (auto simp: snd_go_def Let_def kwrap split: if_splits)
  have q1: "msgque k1 ! x = fst r" "msg_q (fst r) = msg_q ?q @ [?m]"
    using x by (simp_all add: r(2) ra) (simp add: q_add_def Let_def)
  have conv: "msgconv mi j k1 = Some x"
    unfolding r(2) by (rule msgconv_put [OF x assms(3)]) (simp_all add: ra q_add_perm)
  have f: "findmsg (r_type c) (msg_q (msgque k1 ! x)) = Some (length (msg_q ?q), ?m)"
    unfolding q1 by (rule findmsg_snoc [OF assms(5,6)]) (simp add: assms(8))
  obtain r2 where r2: "rcv_go j (mc_pid who') now' (mc_thr who') c (msgque k1 ! x)
      = RDone r2 (s_cnt s) (Some (if r_x c then XHdr ?h else THdr ty), take (nat (s_cnt s)) (s_text s))"
    "msg_q (fst r2) = msg_q ?q"
    using rcv_go_found [OF f, of j "mc_pid who'" now' "mc_thr who'"] assms(9,10) cnt by (auto simp: q1)
  have "rmsgrcv mi v' who' now' j c k1 = msg_go mi who' True now' j (Rcv c) x k1"
    using conv assms(9,11) cnt by (simp add: rmsgrcv_def)
  also have "\<dots> = MRet (q_put x r2 k1) (s_cnt s)
      (Some (if r_x c then XHdr ?h else THdr ty), take (nat (s_cnt s)) (s_text s))"
    by (simp add: msg_go_def r2 Let_def)
  finally show ?thesis using x r2(2) by (intro exI conjI) (assumption, rule refl, simp add: r(2))
qed

theorem send_receive_roundtrip_witness:
  "\<exists>k1 k2. rmsgsnd ex_mi ex_vars (ex_who 3) True 5 0 (ex_snd 9 [7, 8] 0) ex_mk = MRet k1 0 (None, [])
     \<and> rmsgrcv ex_mi ex_vars (ex_who 4) 6 0 (ex_rcv 10 9 0) k1 = MRet k2 2 (Some (THdr 9), [7, 8])
     \<and> msg_q (msgque k2 ! 0) = msg_q ex_q"
proof -
  have "case rmsgsnd ex_mi ex_vars (ex_who 3) True 5 0 (ex_snd 9 [7, 8] 0) ex_mk of
     MRet k1 r out \<Rightarrow> r = 0 \<and> out = (None, []) \<and> ipcaccess ex_vars ex_cred (msg_perm (msgque k1 ! 0)) IPC_R = None
   | _ \<Rightarrow> False" by code_simp
  then obtain k1 where k1: "rmsgsnd ex_mi ex_vars (ex_who 3) True 5 0 (ex_snd 9 [7, 8] 0) ex_mk = MRet k1 0 (None, [])"
    "ipcaccess ex_vars ex_cred (msg_perm (msgque k1 ! 0)) IPC_R = None"
    by (auto split: mres.splits)
  have q: "msgque ex_mk ! 0 = ex_q" "msg_err ex_mk = None" by (simp_all add: ex_mk_def)
  have n: "none_for 9 (msg_q ex_q)" by (simp add: none_for_iff ex_msg_defs)
  have c: "r_type (ex_rcv 10 9 0) = 9" "r_size (ex_rcv 10 9 0) = 10" "r_room (ex_rcv 10 9 0) = 100" "\<not> r_x (ex_rcv 10 9 0)"
    "s_type (ex_snd 9 [7, 8] 0) = Some 9" "s_cnt (ex_snd 9 [7, 8] 0) = 2" "s_text (ex_snd 9 [7, 8] 0) = [7, 8]"
    "mc_cr (ex_who 4) = ex_cred"
    by (simp_all add: ex_rcv_def ex_snd_def ex_who_def)
  from send_receive_roundtrip [OF ex_mk_inv q(2) ex_conv k1(1), of "ex_rcv 10 9 0" 9 ex_vars "ex_who 4" 6]
  show ?thesis using k1 by (auto simp: q n c eligible_def hdr_size_def)
qed

section \<open>First in, first out\<close>

text \<open>
  The abstract contract of a queue with typed items: a put may add an item at the end, a take
  may remove one, the first of its type, and whatever else is done leaves the items alone.
  \<open>history\<close> feeds operations and collects what went in and what came out.
\<close>

datatype ('p, 't, 'o) fifo_op = FPut 'p | FTake 't | FOther 'o

fun history :: "('p \<Rightarrow> 's \<Rightarrow> 'a option \<times> 's) \<Rightarrow> ('t \<Rightarrow> 's \<Rightarrow> 'a option \<times> 's) \<Rightarrow> ('o \<Rightarrow> 's \<Rightarrow> 's)
    \<Rightarrow> ('p, 't, 'o) fifo_op list \<Rightarrow> 's \<Rightarrow> 'a list \<times> 'a list \<times> 's" where
  "history put tk other [] s = ([], [], s)"
| "history put tk other (FPut p # ops) s =
     (case put p s of (a, s) \<Rightarrow>
        case history put tk other ops s of (ins, outs, s) \<Rightarrow> (case a of None \<Rightarrow> ins | Some a \<Rightarrow> a # ins, outs, s))"
| "history put tk other (FTake p # ops) s =
     (case tk p s of (a, s) \<Rightarrow>
        case history put tk other ops s of (ins, outs, s) \<Rightarrow> (ins, case a of None \<Rightarrow> outs | Some a \<Rightarrow> a # outs, s))"
| "history put tk other (FOther p # ops) s = history put tk other ops (other p s)"

locale typed_fifo =
  fixes items :: "'s \<Rightarrow> 'a list" and type_of :: "'a \<Rightarrow> 'c"
    and put :: "'p \<Rightarrow> 's \<Rightarrow> 'a option \<times> 's" and tk :: "'t \<Rightarrow> 's \<Rightarrow> 'a option \<times> 's" and other :: "'o \<Rightarrow> 's \<Rightarrow> 's"
    and ok :: "'s \<Rightarrow> bool"
  assumes put_ok: "ok s \<Longrightarrow> put p s = (a, s') \<Longrightarrow>
      ok s' \<and> items s' = items s @ (case a of None \<Rightarrow> [] | Some a \<Rightarrow> [a])"
    and take_none: "ok s \<Longrightarrow> tk t s = (None, s') \<Longrightarrow> ok s' \<and> items s' = items s"
    and take_some: "ok s \<Longrightarrow> tk t s = (Some b, s') \<Longrightarrow>
      ok s' \<and> (\<exists>xs ys. items s = xs @ b # ys \<and> items s' = xs @ ys \<and> (\<forall>x \<in> set xs. type_of x \<noteq> type_of b))"
    and other_ok: "ok s \<Longrightarrow> ok (other q s) \<and> items (other q s) = items s"
begin

lemma history_fifo:
  "ok s \<Longrightarrow> history put tk other ops s = (ins, outs, s') \<Longrightarrow>
     ok s' \<and> filter (\<lambda>x. type_of x = ty) (items s @ ins) = filter (\<lambda>x. type_of x = ty) (outs @ items s')"
proof (induction ops arbitrary: s ins outs s')
  case (Cons op ops)
  show ?case
  proof (cases op)
    case (FPut p)
    obtain a s1 where p: "put p s = (a, s1)" by fastforce
    obtain ins1 outs1 s2 where h: "history put tk other ops s1 = (ins1, outs1, s2)" by (metis prod_cases3)
    have ins: "ins = (case a of None \<Rightarrow> ins1 | Some a \<Rightarrow> a # ins1)" "outs = outs1" "s' = s2"
      using Cons.prems(2) by (simp_all add: FPut p h)
    from put_ok [OF Cons.prems(1) p] Cons.IH [OF _ h] show ?thesis
      by (cases a) (simp_all add: ins)
  next
    case (FTake t)
    obtain a s1 where t: "tk t s = (a, s1)" by fastforce
    obtain ins1 outs1 s2 where h: "history put tk other ops s1 = (ins1, outs1, s2)" by (metis prod_cases3)
    show ?thesis
    proof (cases a)
      case None
      with take_none [OF Cons.prems(1)] t Cons.IH [OF _ h] Cons.prems(2) show ?thesis by (simp add: FTake h)
    next
      case (Some b)
      with take_some [OF Cons.prems(1)] t obtain xs ys where ok: "ok s1" "items s = xs @ b # ys" "items s1 = xs @ ys"
        and first: "\<forall>x \<in> set xs. type_of x \<noteq> type_of b" by blast
      have "type_of b = ty \<Longrightarrow> filter (\<lambda>x. type_of x = ty) xs = []" using first by (auto simp: filter_empty_conv)
      moreover have "ins = ins1" "outs = b # outs1" "s' = s2" using Cons.prems(2) by (simp_all add: FTake t h Some)
      ultimately show ?thesis using Cons.IH [OF ok(1) h] ok by auto
    qed
  next
    case (FOther q)
    with other_ok [OF Cons.prems(1), of q] Cons.IH [of "other q s" ins outs] Cons.prems(2) show ?thesis by simp
  qed
qed simp

end

text \<open>One queue of the model: sends, receives, and changes of its limits or pending events.\<close>

definition msg_put :: "msginfo \<Rightarrow> mcaller \<times> bool \<times> int \<times> int \<times> snd_call \<Rightarrow> msqid_ds \<Rightarrow> msg option \<times> msqid_ds" where
  "msg_put mi = (\<lambda>(w, mem, j, now, c) q.
     if s_cnt c < 0 \<or> s_cnt c > msgmax mi then (None, q)
     else case snd_go mi (mc_cr w) mem j (mc_pid w) now (mc_thr w) c q of
        SErr e \<Rightarrow> (None, q)
      | SDone r \<Rightarrow> (Some (last (msg_q (fst r))), fst r)
      | SSleep q' \<Rightarrow> (None, q'))"

definition msg_take :: "mcaller \<times> int \<times> int \<times> rcv_call \<Rightarrow> msqid_ds \<Rightarrow> msg option \<times> msqid_ds" where
  "msg_take = (\<lambda>(w, j, now, c) q.
     case rcv_go j (mc_pid w) now (mc_thr w) c q of
        RErr e out \<Rightarrow> (None, q)
      | RDone r sz out \<Rightarrow> (map_option snd (findmsg (r_type c) (msg_q q)), fst r)
      | RSleep q' \<Rightarrow> (None, q'))"

datatype q_other = OSet int msg_set | OEvents "16 word"

definition msg_other :: "q_other \<Rightarrow> msqid_ds \<Rightarrow> msqid_ds" where
  "msg_other e q =
     (case e of
        OSet now d \<Rightarrow> msg_setperm now (d\<lparr>set_qbytes := ushort (set_qbytes d)\<rparr>) q
      | OEvents ev \<Rightarrow> q\<lparr>msg_reqevents := ev\<rparr>)"

definition q_live :: "msginfo \<Rightarrow> msqid_ds \<Rightarrow> bool" where
  "q_live mi q \<longleftrightarrow> q_inv mi q \<and> allocated (msg_perm q)"

lemma q_live_wait:
  assumes "q_live mi q"
  shows "q_live mi (perm_mode (\<lambda>m. m OR MSG_RWAIT) (q\<lparr>msg_rwait := ts\<rparr>))"
    and "q_live mi (perm_mode (\<lambda>m. m OR MSG_WWAIT) (q\<lparr>msg_wwait := ts\<rparr>))"
  using assms
  by (auto simp: q_live_def q_inv_def queue_ok_def text_sum_def waits_bits allocated_iff bit_simps)

lemma first_of_type:
  assumes "findmsg t ms = Some (i, m)" and "j < i"
  shows "mtype (msg_attr (ms ! j)) \<noteq> mtype (msg_attr m)"
proof
  assume eq: "mtype (msg_attr (ms ! j)) = mtype (msg_attr m)"
  have i: "i < length ms" "ms ! i = m" using findmsg_nth [OF assms(1)] by simp_all
  consider "t = 0" | "0 < t" | "t < 0" by linarith
  then show False
  proof cases
    case 3
    have "low_best (neg_long t) [] None" by (simp add: low_best_def)
    from find_best_neg [OF 3 this, of ms] assms(1) 3
    have "low_best (neg_long t) ms (Some (i, m))" by (simp add: findmsg_def)
    then have "mtype (msg_attr m) \<le> neg_long t" and "\<forall>j < length ms. mtype (msg_attr (ms ! j)) \<le> neg_long t \<longrightarrow>
        mtype (msg_attr m) < mtype (msg_attr (ms ! j)) \<or> mtype (msg_attr m) = mtype (msg_attr (ms ! j)) \<and> i \<le> j"
      unfolding low_best_def option.case prod.case by blast+
    moreover have "j < length ms" using i assms(2) by simp
    ultimately have "i \<le> j" using eq by fastforce
    with assms(2) show False by simp
  next
    case 1
    with assms show False by (simp add: findmsg_def split: list.splits)
  next
    case 2
    then have t: "- (2 ^ 31) < t" by simp
    from findmsg_ok [OF t, of ms] assms(1) have "best_msg t ms i" by simp
    with eq i assms(2) 2 show False unfolding best_msg_def eligible_def
      by (metis less_asym linorder_not_le order_less_trans)
  qed
qed

interpretation msgq: typed_fifo msg_q "\<lambda>m. mtype (msg_attr m)" "msg_put mi" msg_take msg_other "q_live mi" for mi
proof
  fix s p a s' assume ok: "q_live mi s" and p: "msg_put mi p s = (a, s')"
  obtain w mem j now c where pp: "p = (w, mem, j, now, c)" by (metis prod_cases5)
  have q: "q_inv mi s" and live: "allocated (msg_perm s)" using ok by (simp_all add: q_live_def)
  have mx: "msgmax mi \<le> 65535" using q by (simp add: q_inv_def queue_ok_def msginfo_ok_def)
  show "q_live mi s' \<and> msg_q s' = msg_q s @ (case a of None \<Rightarrow> [] | Some a \<Rightarrow> [a])"
  proof (cases "s_cnt c < 0 \<or> s_cnt c > msgmax mi")
    case True
    with p ok show ?thesis by (simp add: pp msg_put_def)
  next
    case False
    show ?thesis
    proof (cases "snd_go mi (mc_cr w) mem j (mc_pid w) now (mc_thr w) c s")
      case (SErr e)
      with False p ok show ?thesis by (auto simp: pp msg_put_def)
    next
      case (SDone r)
      from False mx snd_go_done [OF SDone] obtain m where m: "r = q_add j (mc_pid w) now m s" "msg_ok m"
        "\<not> q_full mi (msg_ts m) s" by auto
      from send_ok [OF q live m(3,2), of j "mc_pid w" now] q_add_perm [of j "mc_pid w" now m s] live False p SDone
      show ?thesis by (auto simp: pp msg_put_def m(1) q_live_def)
    next
      case (SSleep q')
      with False p q_live_wait(2) [OF ok] snd_go_sleep [OF SSleep] show ?thesis by (auto simp: pp msg_put_def)
    qed
  qed
next
  fix s t s' assume ok: "q_live mi s" and t: "msg_take t s = (None, s')"
  obtain w j now c where tt: "t = (w, j, now, c)" by (metis prod_cases4)
  have q: "q_inv mi s" using ok by (simp add: q_live_def)
  show "q_live mi s' \<and> msg_q s' = msg_q s"
  proof (cases "rcv_go j (mc_pid w) now (mc_thr w) c s")
    case (RErr e out)
    with t ok show ?thesis by (simp add: tt msg_take_def)
  next
    case (RDone r sz out)
    from rcv_go_done [OF q RDone] t RDone show ?thesis by (auto simp: tt msg_take_def)
  next
    case (RSleep q')
    with t q_live_wait(1) [OF ok] rcv_go_sleep [OF RSleep] show ?thesis by (auto simp: tt msg_take_def)
  qed
next
  fix s t b s' assume ok: "q_live mi s" and t: "msg_take t s = (Some b, s')"
  obtain w j now c where tt: "t = (w, j, now, c)" by (metis prod_cases4)
  have q: "q_inv mi s" using ok by (simp add: q_live_def)
  obtain r sz out where r: "rcv_go j (mc_pid w) now (mc_thr w) c s = RDone r sz out"
    using t by (auto simp: tt msg_take_def split: rcv_res.splits)
  from rcv_go_done [OF q r] obtain i where i: "findmsg (r_type c) (msg_q s) = Some (i, msg_q s ! i)"
    "i < length (msg_q s)" "r = msgfree j i (unlinked i (mc_pid w) now s)" by blast
  have b: "b = msg_q s ! i" "s' = fst r" using t by (simp_all add: tt msg_take_def r i(1))
  have "q_live mi s'"
    using receive_ok [OF q i(2), of j "mc_pid w" now] ok by (simp add: b i(3) q_live_def allocated_iff unlinked_def)
  moreover have "msg_q s = take i (msg_q s) @ b # drop (Suc i) (msg_q s)"
    unfolding b(1) by (rule id_take_nth_drop [OF i(2)])
  moreover have "msg_q s' = take i (msg_q s) @ drop (Suc i) (msg_q s)" by (simp add: b i(3) unlinked_def)
  moreover have "\<forall>x \<in> set (take i (msg_q s)). mtype (msg_attr x) \<noteq> mtype (msg_attr b)"
    using first_of_type [OF i(1)] i(2) by (auto simp: b(1) in_set_conv_nth)
  ultimately show "q_live mi s' \<and> (\<exists>xs ys. msg_q s = xs @ b # ys \<and> msg_q s' = xs @ ys
      \<and> (\<forall>x \<in> set xs. mtype (msg_attr x) \<noteq> mtype (msg_attr b)))" by blast
next
  fix s e assume ok: "q_live mi s"
  show "q_live mi (msg_other e s) \<and> msg_q (msg_other e s) = msg_q s"
  proof (cases e)
    case (OSet now d)
    have q: "q_inv mi s" using ok by (simp add: q_live_def)
    have "0 \<le> ushort n" "ushort n \<le> 65535" for n using ushort_range [of n] by simp_all
    then have "q_inv mi (msg_other e s)" using setperm_ok [OF q, of "d\<lparr>set_qbytes := ushort (set_qbytes d)\<rparr>" now]
      by (simp add: msg_other_def OSet)
    moreover have "allocated (msg_perm (msg_other e s))"
      using ok by (simp add: msg_other_def OSet msg_setperm_def q_live_def allocated_iff bit_simps)
    ultimately show ?thesis by (simp add: q_live_def) (simp add: msg_other_def OSet msg_setperm_def)
  next
    case (OEvents ev)
    with ok show ?thesis by (simp add: msg_other_def q_live_def q_inv_def queue_ok_def text_sum_def waits_ok_def)
  qed
qed

text \<open>
  C20. First in, first out by type: over any sequence of sends, receives and changes of a
  queue's limits, the messages of one type that were on the queue or were sent are, in order,
  those that were received followed by those that are still there. Nothing is lost, doubled
  or overtaken by a message of its own type.
\<close>

theorem messages_fifo_by_type:
  assumes "q_inv mi q" and "allocated (msg_perm q)"
    and "history (msg_put mi) msg_take msg_other ops q = (sent, received, q')"
  shows "filter (\<lambda>m. mtype (msg_attr m) = ty) (msg_q q @ sent) =
    filter (\<lambda>m. mtype (msg_attr m) = ty) (received @ msg_q q')"
  using msgq.history_fifo [of mi q ops sent received q' ty] assms by (simp add: q_live_def)

theorem messages_fifo_by_type_witness:
  "case history (msg_put ex_mi) msg_take msg_other
      [FTake (ex_who 3, 0, 5, ex_rcv 10 (- 4) 0), FPut (ex_who 4, True, 0, 6, ex_snd 2 [9] 0),
       FTake (ex_who 3, 0, 7, ex_rcv 10 2 0)] ex_q of
     (sent, received, q') \<Rightarrow> map msg_spot (filter (\<lambda>m. mtype (msg_attr m) = 2) (received @ msg_q q')) = [[3], [9]]"
proof -
  let ?ops = "[FTake (ex_who 3, 0, 5, ex_rcv 10 (- 4) 0), FPut (ex_who 4, True, 0, 6, ex_snd 2 [9] 0),
       FTake (ex_who 3, 0, 7, ex_rcv 10 2 0)]"
  obtain sent received q' where h: "history (msg_put ex_mi) msg_take msg_other ?ops ex_q = (sent, received, q')"
    by (metis prod_cases3)
  have "case history (msg_put ex_mi) msg_take msg_other ?ops ex_q of (sent, received, q') \<Rightarrow>
      map msg_spot (filter (\<lambda>m. mtype (msg_attr m) = 2) sent) = [[9]]" by code_simp
  then have s: "map msg_spot (filter (\<lambda>m. mtype (msg_attr m) = 2) sent) = [[9]]" unfolding h prod.case .
  have "allocated (msg_perm ex_q)" by (simp add: allocated_def ex_q_def msq_new_def ex_perm_def)
  from messages_fifo_by_type [OF ex_q_inv this h, of 2]
  have "filter (\<lambda>m. mtype (msg_attr m) = 2) (received @ msg_q q') =
      ex_msg 2 [3] # filter (\<lambda>m. mtype (msg_attr m) = 2) sent"
    by (simp add: ex_msg_defs)
  then show ?thesis using s unfolding h prod.case by (simp add: ex_msg_def)
qed

section \<open>Many threads\<close>

text \<open>
  C21. From boot, in whatever interleaving, every call comes back or sleeps, and the invariant
  holds: on every queue \<open>msg_qnum\<close> is the number of its messages and \<open>msg_cbytes\<close> the sum
  of their sizes, the number is within \<open>msgmnm\<close> and the sum within an
  \<open>unsigned short\<close>.
\<close>

theorem msg_runs_safe:
  assumes "msginfo_ok mi" and "list_all (msg_legal False) es"
  shows "\<exists>w. run (msg_next mi) es (msg_boot mi) = Some w \<and> (\<forall>q \<in> set (msgque (mw_k w)).
    msg_qnum q = int (length (msg_q q)) \<and> msg_qnum q \<le> msgmnm mi
    \<and> msg_cbytes q = sum_list (map msg_ts (msg_q q)) \<and> msg_cbytes q \<le> 65535
    \<and> (\<forall>m \<in> set (msg_q q). int (length (msg_spot m)) = msg_ts m))"
proof -
  from msg_machine.run_legal [OF assms(2) msg_boot_world [OF assms(1)]]
  obtain w where w: "run (msg_next mi) es (msg_boot mi) = Some w" "msg_world False mi w" by blast
  have "q \<in> set (msgque (mw_k w)) \<Longrightarrow> queue_ok mi q" for q
    using w(2) by (simp add: msg_world_def msg_inv_def q_inv_def)
  then have "msg_qnum q = int (length (msg_q q)) \<and> msg_qnum q \<le> msgmnm mi
    \<and> msg_cbytes q = sum_list (map msg_ts (msg_q q)) \<and> msg_cbytes q \<le> 65535
    \<and> (\<forall>m \<in> set (msg_q q). int (length (msg_spot m)) = msg_ts m)" if "q \<in> set (msgque (mw_k w))" for q
    using that unfolding queue_ok_def text_sum_def msg_ok_def by metis
  with w(1) show ?thesis by blast
qed

text \<open>A run for the witnesses: a queue is made, a reader of type 3 waits, and a message of type 4 comes.\<close>

definition ex_mrun :: "msg_event list" where
  "ex_mrun = [MEvGet ex_cred 1 77 0x380,
     MEvRcv ex_vars (ex_who 4) 2 0 (ex_rcv 10 3 0),
     MEvSnd ex_vars (ex_who 5) True 3 0 (ex_snd 4 [1, 2, 3, 4, 5, 6] 0), MEvWake 4 True 4]"

lemma ex_mrun_legal: "list_all (msg_legal st) ex_mrun"
  by (simp add: ex_mrun_def msg_legal_def)

theorem msg_runs_safe_witness:
  "\<exists>w. run (msg_next ex_mi) ex_mrun (msg_boot ex_mi) = Some w
     \<and> (\<forall>q \<in> set (msgque (mw_k w)). msg_qnum q = int (length (msg_q q)))"
  using msg_runs_safe [OF ex_mi_ok ex_mrun_legal] by blast

text \<open>
  C22. No wake-up is lost, for writers as long as nobody uses \<open>IPC_SET\<close>: in every state reached from boot, a thread still on the list of
  readers of a queue waits for a type of which the queue has no message; and if nobody has used
  \<open>IPC_SET\<close>, a thread still on the list of writers waits with a message for which the queue
  has no room. After \<open>IPC_SET\<close> has raised the limit of a queue, writers that now could go on are not woken: \<open>raised_limit_wakes_nobody\<close>.
\<close>

theorem msg_no_lost_wakeup:
  assumes "msginfo_ok mi" and "list_all (msg_legal st) es" and "run (msg_next mi) es (msg_boot mi) = Some w"
    and "x < length (msgque (mw_k w))" and "q = msgque (mw_k w) ! x" and "t \<in> set (msg_rwait q) \<union> set (msg_wwait q)"
  shows "\<exists>sl. mw_thr w t = Some (sl, False) \<and> ms_x sl = x
    \<and> (case ms_call sl of
         Rcv c \<Rightarrow> t \<in> set (msg_rwait q) \<and> findmsg (r_type c) (msg_q q) = None
       | Snd c \<Rightarrow> t \<in> set (msg_wwait q) \<and> (st \<longrightarrow> q_full mi (s_cnt c) q))"
proof -
  from msg_machine.run_legal [OF assms(2) msg_boot_world [OF assms(1)]] assms(3)
  have "msg_world st mi w" by auto
  then have "chan_ok (mw_thr w) st mi x q" using assms(4,5) by (simp add: msg_world_def)
  with assms(6) obtain sl rc where sl: "mw_thr w t = Some (sl, False)" "ms_x sl = x" "is_rcv (ms_call sl) = rc"
    "waiter_ok st mi sl q" "rc \<and> t \<in> set (msg_rwait q) \<or> \<not> rc \<and> t \<in> set (msg_wwait q)"
    by (auto simp: chan_ok_def waits_as_def)
  then show ?thesis
    by (intro exI [of _ sl]) (auto simp: waiter_ok_def none_for_def is_rcv_def split: mcall.splits)
qed

theorem msg_no_lost_wakeup_witness:
  "\<exists>w sl c. run (msg_next ex_mi) ex_mrun (msg_boot ex_mi) = Some w \<and> mw_thr w 4 = Some (sl, False)
     \<and> ms_call sl = Rcv c \<and> findmsg (r_type c) (msg_q (msgque (mw_k w) ! 0)) = None
     \<and> length (msg_q (msgque (mw_k w) ! 0)) = 1"
proof -
  have "case run (msg_next ex_mi) ex_mrun (msg_boot ex_mi) of None \<Rightarrow> False
      | Some w \<Rightarrow> 4 \<in> set (msg_rwait (msgque (mw_k w) ! 0)) \<and> length (msgque (mw_k w)) = 2
          \<and> msg_wwait (msgque (mw_k w) ! 0) = [] \<and> length (msg_q (msgque (mw_k w) ! 0)) = 1"
    by code_simp
  then obtain w where w: "run (msg_next ex_mi) ex_mrun (msg_boot ex_mi) = Some w"
    "4 \<in> set (msg_rwait (msgque (mw_k w) ! 0))" "length (msgque (mw_k w)) = 2"
    "msg_wwait (msgque (mw_k w) ! 0) = []" "length (msg_q (msgque (mw_k w) ! 0)) = 1"
    by (auto split: option.splits)
  from msg_no_lost_wakeup [OF ex_mi_ok ex_mrun_legal [of True] w(1) _ refl, of 0 4] w(2,3)
  obtain sl where sl: "mw_thr w 4 = Some (sl, False) \<and> ms_x sl = 0
    \<and> (case ms_call sl of
         Rcv c \<Rightarrow> 4 \<in> set (msg_rwait (msgque (mw_k w) ! 0)) \<and> findmsg (r_type c) (msg_q (msgque (mw_k w) ! 0)) = None
       | Snd c \<Rightarrow> 4 \<in> set (msg_wwait (msgque (mw_k w) ! 0))
           \<and> (True \<longrightarrow> q_full ex_mi (s_cnt c) (msgque (mw_k w) ! 0)))"
    by auto
  then obtain c where "ms_call sl = Rcv c" "findmsg (r_type c) (msg_q (msgque (mw_k w) ! 0)) = None"
    using w(4) by (cases "ms_call sl") simp_all
  with w sl show ?thesis by blast
qed

section \<open>Where the code falls short\<close>

text \<open>
  \<open>msgconv\<close> keeps only 16 bits of the sequence number it computes: adding 65536 times
  the number of queues to an identifier gives another one that is accepted for the same
  queue.
\<close>

lemma msg_ids_alias:
  assumes "0 \<le> i" and "0 < msgmni mi" and "i + 65536 * msgmni mi < 2 ^ 32"
  shows "msgconv mi (i + 65536 * msgmni mi) k = msgconv mi i k"
proof -
  have "i < 2 ^ 32" using assms by linarith
  then have m: "i mod 2 ^ 32 = i" "(i + 65536 * msgmni mi) mod 2 ^ 32 = i + 65536 * msgmni mi"
    using assms by simp_all
  have "(i + 65536 * msgmni mi) div msgmni mi = i div msgmni mi + 65536"
    "(i + 65536 * msgmni mi) mod msgmni mi = i mod msgmni mi"
    using assms(2) by simp_all
  then have "ushort ((i + 65536 * msgmni mi) div msgmni mi) = ushort (i div msgmni mi)"
    "(i + 65536 * msgmni mi) mod msgmni mi = i mod msgmni mi"
    by (simp_all only: ushort_def mod_add_self2)
  then show ?thesis by (simp only: msgconv_def m Let_def)
qed

lemma msg_ids_alias_witness: "msgconv ex_mi (0 + 65536 * 2) ex_mk = Some 0"
  using msg_ids_alias [of 0 ex_mi ex_mk] ex_conv by (simp add: ex_mi_def)

text \<open>
  What C30 leaves out does happen: \<open>IPC_SET\<close> raises the limit of a queue and wakes
  nobody. A writer that sleeps because the queue is full stays asleep although its message now
  fits, and an attempt to send the same message with \<open>IPC_NOWAIT\<close> succeeds.
\<close>

lemma raised_limit_wakes_nobody:
  "case run (msg_next ex_mi)
      [MEvGet ex_cred 1 77 0x380, MEvSnd ex_vars (ex_who 5) True 2 0 (ex_snd 4 [1, 2, 3, 4, 5, 6] 0),
       MEvSnd ex_vars (ex_who 6) True 3 0 (ex_snd 4 [1, 2, 3, 4, 5, 6] 0),
       MEvCtl ex_vars (ex_cred\<lparr>cr_uid := 0\<rparr>) 4 0 1
         (Some \<lparr>set_uid = 200, set_gid = 1, set_mode = 0x180, set_qbytes = 20\<rparr>) True,
       MEvWake 6 True 5] (msg_boot ex_mi) of
     None \<Rightarrow> False
   | Some w \<Rightarrow> 6 \<in> set (msg_wwait (msgque (mw_k w) ! 0))
       \<and> (case rmsgsnd ex_mi ex_vars (ex_who 7) True 6 0 (ex_snd 4 [1, 2, 3, 4, 5, 6] IPC_NOWAIT) (mw_k w) of
            MRet k r out \<Rightarrow> r = 0 \<and> msg_err k = None | _ \<Rightarrow> False)"
  by code_simp

text \<open>
  \<open>msgselect\<close> looks at the bytes on the queue only: it reports that output is possible
  on a queue that holds the greatest number of messages, on which every send waits or, with
  \<open>IPC_NOWAIT\<close>, fails.
\<close>

lemma select_ignores_message_limit:
  assumes "msgconv mi j k = Some x" and "msgmnm mi \<le> msg_qnum (msgque k ! x)"
    and "msg_cbytes (msgque k ! x) < msg_qbytes (msgque k ! x)" and "req AND POLLOUT \<noteq> 0"
    and "s_cnt c \<le> msg_qbytes (msgque k ! x)" and "s_flg c AND IPC_NOWAIT \<noteq> 0"
  shows "\<exists>k' ev. msgselect mi j req 0 rc k = (k', ev, None) \<and> ev AND POLLOUT \<noteq> 0
    \<and> snd_go mi cr mem j pid now t c (msgque k ! x) = SErr EAGAIN"
proof -
  have nz: "(r OR POLLOUT) AND POLLOUT \<noteq> 0" for r :: "16 word"
  proof -
    have "(r OR POLLOUT) AND POLLOUT = POLLOUT" by (rule bit_eqI) (auto simp: bit_simps)
    then show ?thesis by simp
  qed
  then have "r OR POLLOUT \<noteq> 0" for r :: "16 word" by (metis and_zero_eq bit.conj_zero_left)
  note nz = nz this
  have "\<exists>k' ev. msgselect mi j req 0 rc k = (k', ev, None) \<and> ev AND POLLOUT \<noteq> 0"
    using assms(1,3,4) nz by (simp add: msgselect_def Let_def)
  moreover have "q_full mi (s_cnt c) (msgque k ! x)" using assms(2) by (simp add: q_full_def)
  ultimately show ?thesis using assms(5,6) by (simp add: snd_go_def)
qed

lemma select_ignores_message_limit_witness:
  "\<exists>k' ev. msgselect (ex_mi\<lparr>msgmnm := 3\<rparr>) 0 POLLOUT 0 None ex_mk = (k', ev, None) \<and> ev AND POLLOUT \<noteq> 0
     \<and> snd_go (ex_mi\<lparr>msgmnm := 3\<rparr>) ex_cred True 0 7 5 3 (ex_snd 9 [7] IPC_NOWAIT) ex_q = SErr EAGAIN"
proof -
  have q: "msgque ex_mk ! 0 = ex_q" by (simp add: ex_mk_def)
  have "msgconv (ex_mi\<lparr>msgmnm := 3\<rparr>) 0 ex_mk = Some 0"
    by (simp add: msgconv_def allocated_def) (simp add: ex_msg_defs)
  moreover have "msg_qnum ex_q = 3" "msg_cbytes ex_q = 6" "msg_qbytes ex_q = 10"
    by (simp_all add: ex_msg_defs kwrap)
  moreover have "s_cnt (ex_snd 9 [7] IPC_NOWAIT) = 1" "s_flg (ex_snd 9 [7] IPC_NOWAIT) = IPC_NOWAIT"
    by (simp_all add: ex_snd_def)
  ultimately show ?thesis
    using select_ignores_message_limit [of "ex_mi\<lparr>msgmnm := 3\<rparr>" 0 ex_mk 0 POLLOUT "ex_snd 9 [7] IPC_NOWAIT" None
        ex_cred True 7 5 3] by (simp add: q)
qed

end
