(* ===== verification/Reclock.thy ===== *)
theory Reclock
  imports Prelude
begin

text \<open>
  File and record locking, \<open>src/bos/kernel/lfs/lockctl.c\<close>. The locks of a file hang off its
  gnode in a list ordered by start, the locks threads wait for in the list \<open>sleeplcks\<close>, and
  the entries not in use in the list \<open>frlock\<close>; all are slots of one array, \<open>flox\<close>. A list
  linked by \<open>next\<close> and \<open>prev\<close> is a list here, an entry carries its index in the array as
  \<open>fl_id\<close>, and a pointer to an entry is that index, \<open>None\<close> for \<open>NULL\<close>. \<open>l_end\<close> is a
  macro for \<open>l_len\<close>: the field is a length outside and the last byte inside. The global lock
  \<open>filock_lock\<close> is held from the look at the lists to the end of a call or its sleep.
\<close>

unbundle bit_operations_syntax

section \<open>Locks and lists\<close>

record eflock =
  l_type :: int
  l_whence :: int
  l_sysid :: int
  l_pid :: int
  l_vfs :: int
  l_start :: int      \<comment> \<open>\<open>long long\<close>\<close>
  l_len :: int        \<comment> \<open>\<open>long long\<close>\<close>

abbreviation l_end :: "eflock \<Rightarrow> int" where "l_end \<equiv> l_len"

abbreviation (input) F_RDLCK :: int where "F_RDLCK \<equiv> 1"
abbreviation (input) F_WRLCK :: int where "F_WRLCK \<equiv> 2"
abbreviation (input) F_UNLCK :: int where "F_UNLCK \<equiv> 3"
abbreviation (input) MNT_NFS :: int where "MNT_NFS \<equiv> 2"
abbreviation (input) MAXEND :: int where "MAXEND \<equiv> 2147483647"   \<comment> \<open>017777777777\<close>

abbreviation LCK_BLOCKER :: "16 word" where "LCK_BLOCKER \<equiv> 1"
abbreviation LCK_BLOCKED :: "16 word" where "LCK_BLOCKED \<equiv> 2"
abbreviation LCK_WASBLOCK :: "16 word" where "LCK_WASBLOCK \<equiv> 4"

abbreviation INOFLCK :: "32 word" where "INOFLCK \<equiv> 1"
abbreviation SETFLCK :: "32 word" where "SETFLCK \<equiv> 2"
abbreviation SLPFLCK :: "32 word" where "SLPFLCK \<equiv> 4"

text \<open>
  A slot. \<open>b_pid\<close>, \<open>b_sysid\<close> and \<open>b_vfs\<close> are the fields \<open>pid\<close>, \<open>sysid\<close> and \<open>vfs\<close>, the
  owner of the blocking lock; \<open>retry_fcn\<close> is 0 or stands for a function; \<open>fevent\<close> lists the
  threads asleep on the event word.
\<close>

record filock =
  fl_id :: nat
  fset :: eflock
  fstate :: "16 word"
  b_vfs :: int
  b_sysid :: int
  b_pid :: int
  filockp :: "nat option"
  retry_fcn :: int
  fevent :: "nat list"

text \<open>
  \<open>k_calls\<close> records the calls of retry functions, with the lock that was released or, at the
  end of an adjustment, \<open>None\<close>. \<open>k_bad\<close> is set by the panic of \<open>delflck\<close>, and when an entry
  is unlinked from a list it is not on.
\<close>

record locksys =
  gn_filocks :: "filock list list"
  sleeplcks :: "filock list"
  frlock :: "filock list"
  v_lock :: nat
  recs :: int
  reccnt :: int
  rectot :: int
  recovf :: int
  k_calls :: "(int \<times> nat option) list"
  k_bad :: bool

datatype lck_list = GnLocks nat | SleepLocks

fun get_list :: "lck_list \<Rightarrow> locksys \<Rightarrow> filock list" where
  "get_list (GnLocks gp) k = gn_filocks k ! gp"
| "get_list SleepLocks k = sleeplcks k"

fun set_list :: "lck_list \<Rightarrow> filock list \<Rightarrow> locksys \<Rightarrow> locksys" where
  "set_list (GnLocks gp) xs k = k\<lparr>gn_filocks := (gn_filocks k)[gp := xs]\<rparr>"
| "set_list SleepLocks xs k = k\<lparr>sleeplcks := xs\<rparr>"

definition upd_entry :: "lck_list \<Rightarrow> nat \<Rightarrow> (filock \<Rightarrow> filock) \<Rightarrow> locksys \<Rightarrow> locksys" where
  "upd_entry l i g k = set_list l (map (\<lambda>f. if fl_id f = i then g f else f) (get_list l k)) k"

definition own :: "eflock \<Rightarrow> eflock \<Rightarrow> bool" where
  "own a b \<longleftrightarrow> l_pid a = l_pid b \<and> l_sysid a = l_sysid b \<and> l_vfs a = l_vfs b"

section \<open>The table\<close>

definition eflock_zero :: eflock where
  "eflock_zero = \<lparr>l_type = 0, l_whence = 0, l_sysid = 0, l_pid = 0, l_vfs = 0, l_start = 0, l_len = 0\<rparr>"

definition slot_zero :: "nat \<Rightarrow> filock" where
  "slot_zero i = \<lparr>fl_id = i, fset = eflock_zero, fstate = 0, b_vfs = 0, b_sysid = 0, b_pid = 0,
     filockp = None, retry_fcn = 0, fevent = []\<rparr>"

text \<open>\<open>nmin\<close> is \<open>nflox_min\<close>, and the system has \<open>ngn\<close> gnodes.\<close>

definition flckinit :: "nat \<Rightarrow> nat \<Rightarrow> locksys" where
  "flckinit ngn nmin =
     \<lparr>gn_filocks = replicate ngn [], sleeplcks = [], frlock = map slot_zero (rev [0..<nmin]),
      v_lock = nmin, recs = int nmin, reccnt = 0, rectot = 0, recovf = 0, k_calls = [], k_bad = False\<rparr>"

text \<open>\<open>nmax\<close> is \<open>nflox_max\<close>, and \<open>per\<close> the number of slots in a page.\<close>

definition flock_grow :: "nat \<Rightarrow> nat \<Rightarrow> locksys \<Rightarrow> locksys" where
  "flock_grow nmax per k =
     (let i = min nmax (v_lock k + per)
      in k\<lparr>frlock := map slot_zero (rev [v_lock k..<i]) @ frlock k, v_lock := i\<rparr>)"

section \<open>insflck and delflck\<close>

fun ins_after :: "nat option \<Rightarrow> filock \<Rightarrow> filock list \<Rightarrow> filock list" where
  "ins_after None new fs = new # fs"
| "ins_after (Some i) new [] = [new]"
| "ins_after (Some i) new (f # fs) =
     (if fl_id f = i then f # new # fs else f # ins_after (Some i) new fs)"

text \<open>The two limits of the table.\<close>

record flox_conf =
  nflox_max :: nat
  per_page :: nat

definition same_request :: "eflock \<Rightarrow> filock \<Rightarrow> bool" where
  "same_request ld sf \<longleftrightarrow> l_start (fset sf) = l_start ld \<and> l_len (fset sf) = l_len ld
     \<and> l_pid (fset sf) = l_pid ld \<and> l_sysid (fset sf) = l_sysid ld \<and> l_vfs (fset sf) = l_vfs ld"

definition insflck :: "flox_conf \<Rightarrow> lck_list \<Rightarrow> eflock \<Rightarrow> nat option \<Rightarrow> locksys \<Rightarrow> locksys \<times> nat option" where
  "insflck cf l ld fl k =
     (case (if l_vfs ld = MNT_NFS \<and> l = SleepLocks then find (same_request ld) (sleeplcks k) else None) of
        Some sf \<Rightarrow> (k, Some (fl_id sf))
      | None \<Rightarrow>
          let k = (if frlock k = [] then flock_grow (nflox_max cf) (per_page cf) k else k) in
          case frlock k of
            [] \<Rightarrow> (k\<lparr>recovf := recovf k + 1\<rparr>, None)
          | s # ss \<Rightarrow>
              let k = k\<lparr>frlock := ss, reccnt := reccnt k + 1, rectot := rectot k + 1\<rparr>;
                  new = s\<lparr>fset := ld, fstate := 0, fevent := []\<rparr>
              in (set_list l (ins_after fl new (get_list l k)) k, Some (fl_id s)))"

definition delflck :: "lck_list \<Rightarrow> nat \<Rightarrow> locksys \<Rightarrow> locksys" where
  "delflck l i k =
     (if i \<ge> v_lock k then k\<lparr>k_bad := True\<rparr>
      else case find (\<lambda>f. fl_id f = i) (get_list l k) of
             None \<Rightarrow> k\<lparr>k_bad := True\<rparr>
           | Some f \<Rightarrow>
               (set_list l (filter (\<lambda>f. fl_id f \<noteq> i) (get_list l k)) k)
                 \<lparr>reccnt := reccnt k - 1, frlock := f # frlock k\<rparr>)"

section \<open>regflck\<close>

datatype sreg = SBefore | SStart | SMiddle | SEnd | SAfter
datatype ereg = EBefore | EStart | EMiddle | EEnd | EAfter

definition regflck :: "eflock \<Rightarrow> eflock \<Rightarrow> sreg \<times> ereg" where
  "regflck ld fl =
     (if l_start ld > l_start fl \<and> l_start ld - 1 = l_end fl then (SEnd, EAfter)
      else if l_start ld > l_start fl \<and> l_start ld > l_end fl then (SAfter, EAfter)
      else
        (if l_start ld > l_start fl then SMiddle else if l_start ld = l_start fl then SStart else SBefore,
         if l_end ld < l_end fl then
           (if l_end ld = l_start fl - 1 then EStart
            else if l_end ld < l_start fl then EBefore
            else EMiddle)
         else if l_end ld = l_end fl then EEnd
         else EAfter))"

section \<open>lock_wakeup\<close>

text \<open>\<open>rf\<close> is the retry function handed back, 0 for none.\<close>

fun wake_loop :: "nat \<Rightarrow> nat \<Rightarrow> filock list \<Rightarrow> locksys \<Rightarrow> int \<Rightarrow> locksys \<times> int" where
  "wake_loop gp lp [] k rf = (k, rf)"
| "wake_loop gp lp (s # ss) k rf =
     (if filockp s \<noteq> Some lp then wake_loop gp lp ss k rf
      else
        let k = upd_entry SleepLocks (fl_id s) (\<lambda>f. f\<lparr>fstate := fstate f AND NOT LCK_BLOCKED\<rparr>) k;
            k = upd_entry (GnLocks gp) lp
                  (\<lambda>f. f\<lparr>fstate := (fstate f AND NOT LCK_BLOCKER) OR LCK_WASBLOCK\<rparr>) k
        in if retry_fcn s \<noteq> 0 then
             let k = k\<lparr>k_calls := k_calls k @ [(retry_fcn s, Some lp)]\<rparr>;
                 k = upd_entry SleepLocks (fl_id s) (\<lambda>f. f\<lparr>b_pid := 0, b_sysid := 0, b_vfs := 0, retry_fcn := 0\<rparr>) k
             in wake_loop gp lp ss (delflck SleepLocks (fl_id s) k) (retry_fcn s)
           else wake_loop gp lp ss k rf)"

definition lock_wakeup :: "nat \<Rightarrow> filock \<Rightarrow> locksys \<Rightarrow> int \<Rightarrow> locksys \<times> int" where
  "lock_wakeup gp lp k rf =
     (if fstate lp AND LCK_BLOCKER \<noteq> 0 then
        (case wake_loop gp (fl_id lp) (sleeplcks k) k rf of (k, rf) \<Rightarrow>
           (upd_entry (GnLocks gp) (fl_id lp) (\<lambda>f. f\<lparr>fevent := []\<rparr>) k, rf))
      else (k, rf))"

section \<open>flckadj\<close>

definition prev_id :: "nat \<Rightarrow> filock list \<Rightarrow> nat option" where
  "prev_id i fs =
     (case takeWhile (\<lambda>f. fl_id f \<noteq> i) fs of [] \<Rightarrow> None | xs \<Rightarrow> Some (fl_id (last xs)))"

text \<open>From entry \<open>i\<close> on, the last entry of those that start before \<open>st\<close>; at least \<open>i\<close>.\<close>

definition walk :: "nat \<Rightarrow> int \<Rightarrow> filock list \<Rightarrow> nat" where
  "walk i st fs =
     (case takeWhile (\<lambda>f. l_start (fset f) < st) (dropWhile (\<lambda>f. fl_id f \<noteq> i) fs) of
        [] \<Rightarrow> i | xs \<Rightarrow> fl_id (last xs))"

record adj =
  a_ld :: eflock
  a_ins :: "nat option"
  a_rf :: int
  a_k :: locksys

text \<open>How the switch ends: with the next entry, with \<open>nflp\<close> set to \<open>NULL\<close>, or a return.\<close>

datatype adj_out = ANext | AStop | ARet uerror

definition a_wakeup :: "nat \<Rightarrow> filock \<Rightarrow> adj \<Rightarrow> adj" where
  "a_wakeup gp fl a = (case lock_wakeup gp fl (a_k a) (a_rf a) of (k, rf) \<Rightarrow> a\<lparr>a_k := k, a_rf := rf\<rparr>)"

definition a_delete :: "nat \<Rightarrow> filock \<Rightarrow> adj \<Rightarrow> adj" where
  "a_delete gp fl a = a\<lparr>a_k := delflck (GnLocks gp) (fl_id fl) (a_k a)\<rparr>"

definition a_cut :: "nat \<Rightarrow> filock \<Rightarrow> adj \<Rightarrow> adj" where
  "a_cut gp fl a =
     a\<lparr>a_k := upd_entry (GnLocks gp) (fl_id fl) (\<lambda>f. f\<lparr>fset := (fset f)\<lparr>l_len := l_start (a_ld a) - 1\<rparr>\<rparr>) (a_k a)\<rparr>"

definition a_prev :: "nat \<Rightarrow> filock \<Rightarrow> adj \<Rightarrow> adj" where
  "a_prev gp fl a = a\<lparr>a_ins := prev_id (fl_id fl) (get_list (GnLocks gp) (a_k a))\<rparr>"

definition a_here :: "filock \<Rightarrow> adj \<Rightarrow> adj" where
  "a_here fl a = a\<lparr>a_ins := Some (fl_id fl)\<rparr>"

definition adj_step :: "flox_conf \<Rightarrow> nat \<Rightarrow> filock \<Rightarrow> adj \<Rightarrow> adj_out \<times> adj" where
  "adj_step cf gp fl a =
     (let ld = a_ld a; same = (l_type ld = l_type (fset fl)); reg = regflck ld (fset fl) in
      if reg = (SBefore, EBefore) then (AStop, a)
      else if reg = (SBefore, EStart) then
        (AStop, if same then a_delete gp fl (a_wakeup gp fl (a\<lparr>a_ld := ld\<lparr>l_len := l_end (fset fl)\<rparr>\<rparr>)) else a)
      else if reg = (SStart, EEnd) \<or> reg = (SStart, EAfter) then
        (if same \<and> reg = (SStart, EEnd) then (ARet None, a)
         else (ANext, a_delete gp fl (a_wakeup gp fl (a_prev gp fl a))))
      else if reg = (SBefore, EEnd) \<or> reg = (SBefore, EAfter) then
        (if same \<and> reg = (SBefore, EEnd) then AStop else ANext, a_delete gp fl (a_wakeup gp fl a))
      else if reg = (SStart, EMiddle) \<or> reg = (SMiddle, EMiddle) \<or> reg = (SBefore, EMiddle) then
        (let a = (if reg = (SStart, EMiddle) then a_prev gp fl a else a) in
         if same \<and> reg \<noteq> (SBefore, EMiddle) then (ARet None, a)
         else
           let piece = (if same then (a\<lparr>a_ld := ld\<lparr>l_len := l_end (fset fl)\<rparr>\<rparr>, True)
                        else
                          let td = (fset fl)\<lparr>l_start := l_end ld + 1\<rparr>;
                              tdi = walk (fl_id fl) (l_start td) (get_list (GnLocks gp) (a_k a))
                          in case insflck cf (GnLocks gp) td (Some tdi) (a_k a) of (k, r) \<Rightarrow>
                               (a\<lparr>a_k := k\<rparr>, r \<noteq> None))
           in case piece of (a, ok) \<Rightarrow>
             if \<not> ok then (ARet (Some ENOLCK), a)
             else
               let a = a_wakeup gp fl a in
               (AStop, if reg = (SMiddle, EMiddle) then a_here fl (a_cut gp fl a) else a_delete gp fl a))
      else if reg = (SMiddle, EEnd) then
        (if same then (ARet None, a)
         else (ANext, a_here fl (a_wakeup gp fl (a_cut gp fl a))))
      else if reg = (SMiddle, EAfter) then
        (let a = a_wakeup gp fl a in
         (ANext, if same then a_delete gp fl (a_prev gp fl (a\<lparr>a_ld := ld\<lparr>l_start := l_start (fset fl)\<rparr>\<rparr>))
                 else a_here fl (a_cut gp fl a)))
      else if reg = (SEnd, EAfter) then
        (ANext, if same then
           a_delete gp fl (a_wakeup gp fl (a_prev gp fl (a\<lparr>a_ld := ld\<lparr>l_start := l_start (fset fl)\<rparr>\<rparr>)))
           else a)
      else if reg = (SAfter, EAfter) then (ANext, a_here fl a)
      else (ANext, a))"

fun adj_loop :: "flox_conf \<Rightarrow> nat \<Rightarrow> filock list \<Rightarrow> adj \<Rightarrow> adj_out \<times> adj" where
  "adj_loop cf gp [] a = (AStop, a)"
| "adj_loop cf gp (fl # fls) a =
     (if own (fset fl) (a_ld a) then
        (case adj_step cf gp fl a of
           (ANext, a) \<Rightarrow> adj_loop cf gp fls a
         | r \<Rightarrow> r)
      else adj_loop cf gp fls a)"

text \<open>
  \<open>rrc\<close> gives what a retry function returns at the end of an adjustment; \<open>rid\<close> is the word at
  \<open>retry_id\<close>.
\<close>

definition flckadj ::
    "flox_conf \<Rightarrow> (int \<Rightarrow> int) \<Rightarrow> nat \<Rightarrow> nat option \<Rightarrow> eflock \<Rightarrow> int \<Rightarrow> locksys
       \<Rightarrow> locksys \<times> eflock \<times> int \<times> uerror" where
  "flckadj cf rrc gp ins ld rid k =
     (let fs = gn_filocks k ! gp;
          fls = (case ins of None \<Rightarrow> fs | Some i \<Rightarrow> dropWhile (\<lambda>f. fl_id f \<noteq> i) fs) in
      case adj_loop cf gp fls \<lparr>a_ld = ld, a_ins = ins, a_rf = 0, a_k = k\<rparr> of
        (ARet e, a) \<Rightarrow> (a_k a, a_ld a, rid, e)
      | (_, a) \<Rightarrow>
          let ld = a_ld a; k = a_k a;
              (k, ret) =
                (if l_type ld \<noteq> F_UNLCK then
                   let pos = map_option (\<lambda>i. walk i (l_start ld) (gn_filocks k ! gp)) (a_ins a) in
                   case insflck cf (GnLocks gp) ld pos k of (k, r) \<Rightarrow>
                     (k, if r = None then Some ENOLCK else None)
                 else (k, None))
          in if a_rf a \<noteq> 0 then
               (k\<lparr>k_calls := k_calls k @ [(a_rf a, None)]\<rparr>, ld,
                if rrc (a_rf a) \<noteq> 0 then rrc (a_rf a) else rid, ret)
             else (k, ld, rid, ret))"

section \<open>blocked\<close>

definition conflicts :: "eflock \<Rightarrow> eflock \<Rightarrow> bool" where
  "conflicts f ld \<longleftrightarrow> l_type f = F_WRLCK \<or> l_type f = F_RDLCK \<and> l_type ld = F_WRLCK"

text \<open>The first loop gives a blocking lock, or the rest of the list, and the insertion point.\<close>

fun blocked1 :: "filock list \<Rightarrow> eflock \<Rightarrow> nat option \<Rightarrow> filock option \<times> filock list \<times> nat option" where
  "blocked1 [] ld ins = (None, [], ins)"
| "blocked1 (f # fs) ld ins =
     (if l_start (fset f) < l_start ld then
        (if own (fset f) ld then
           (if l_start ld - 1 \<le> l_end (fset f) then (None, f # fs, Some (fl_id f))
            else blocked1 fs ld (Some (fl_id f)))
         else if l_start ld \<le> l_end (fset f) \<and> conflicts (fset f) ld then (Some f, f # fs, Some (fl_id f))
         else blocked1 fs ld (Some (fl_id f)))
      else (None, f # fs, ins))"

fun blocked2 :: "filock list \<Rightarrow> eflock \<Rightarrow> filock option" where
  "blocked2 [] ld = None"
| "blocked2 (f # fs) ld =
     (if l_end ld < l_start (fset f) then None
      else if l_start ld \<le> l_end (fset f) \<and> \<not> own (fset f) ld \<and> conflicts (fset f) ld then Some f
      else blocked2 fs ld)"

definition blocked :: "filock list \<Rightarrow> eflock \<Rightarrow> filock option \<times> nat option" where
  "blocked fs ld =
     (case blocked1 fs ld None of
        (Some f, rest, ins) \<Rightarrow> (Some f, ins)
      | (None, rest, ins) \<Rightarrow> (blocked2 rest ld, ins))"

section \<open>deadflck\<close>

type_synonym owner = "int \<times> int \<times> int"

text \<open>The owner of a lock, and the owner a sleeping entry waits for (\<open>vfs\<close> is a \<open>short\<close>).\<close>

definition owner_of :: "eflock \<Rightarrow> owner" where
  "owner_of e = (l_pid e, l_sysid e, l_vfs e)"

definition blocker_of :: "filock \<Rightarrow> owner" where
  "blocker_of sf = (b_pid sf, b_sysid sf, ushort (b_vfs sf))"

text \<open>The loop may not end: \<open>None\<close>.\<close>

partial_function (option) dead_loop :: "filock list \<Rightarrow> owner \<Rightarrow> owner \<Rightarrow> bool option" where
  "dead_loop sl me b =
     (if b = me then Some True
      else case find (\<lambda>sf. owner_of (fset sf) = b \<and> fstate sf AND LCK_BLOCKED \<noteq> 0) sl of
             None \<Rightarrow> Some False
           | Some sf \<Rightarrow> dead_loop sl me (blocker_of sf))"

declare dead_loop.simps [code]

definition deadflck :: "filock \<Rightarrow> eflock \<Rightarrow> locksys \<Rightarrow> bool option" where
  "deadflck fl ld k =
     dead_loop (sleeplcks k) (owner_of ld)
       (l_pid (fset fl), l_sysid (fset fl), ushort (l_vfs (fset fl)))"

section \<open>convoff\<close>

text \<open>\<open>SEEK_SET\<close>, \<open>SEEK_CUR\<close> and \<open>SEEK_END\<close> are 0, 1 and 2.\<close>

definition convoff :: "int \<Rightarrow> int \<Rightarrow> eflock \<Rightarrow> int \<Rightarrow> uerror \<times> eflock" where
  "convoff sz off ld whence =
     (if l_whence ld \<notin> {0, 1, 2} then (Some EINVAL, ld)
      else
        let ld = (if l_whence ld = 1 then ld\<lparr>l_start := wrap64 (l_start ld + off)\<rparr>
                  else if l_whence ld = 2 then ld\<lparr>l_start := wrap64 (l_start ld + sz)\<rparr> else ld)
        in if l_start ld < 0 then (Some EINVAL, ld)
           else if whence \<notin> {0, 1, 2} then (Some EINVAL, ld)
           else
             (None, (if whence = 1 then ld\<lparr>l_start := wrap64 (l_start ld - off)\<rparr>
                     else if whence = 2 then ld\<lparr>l_start := wrap64 (l_start ld - sz)\<rparr> else ld)
                    \<lparr>l_whence := whence\<rparr>))"

section \<open>common_reclock\<close>

text \<open>The arguments that do not change, and what a sleeping thread keeps on its stack.\<close>

record lock_req =
  q_gp :: nat
  q_size :: int
  q_off :: int
  q_cmd :: "32 word"
  q_fcn :: int        \<comment> \<open>\<open>retry_fcn\<close>, 0 for \<open>NULL\<close>\<close>
  q_thr :: nat

record lock_sleep =
  z_req :: lock_req
  z_ld :: eflock
  z_whence :: int
  z_rid :: int
  z_sf :: nat

text \<open>
  \<open>LHang\<close>: the call does not come back. In \<open>LRet\<close> stand the caller's structure and the word
  at \<open>retry_id\<close>.
\<close>

datatype lock_res = LRet locksys eflock int uerror | LSleep locksys lock_sleep | LHang

text \<open>From \<open>endloop\<close>: \<open>l_len\<close> and \<open>l_whence\<close> are restored.\<close>

definition reclock_end :: "lock_req \<Rightarrow> int \<Rightarrow> eflock \<Rightarrow> int \<Rightarrow> uerror \<Rightarrow> locksys \<Rightarrow> lock_res" where
  "reclock_end r whence ld rid ret k =
     (let ld = (if l_end ld = MAXEND then ld\<lparr>l_len := 0\<rparr> else ld\<lparr>l_len := wrap64 (l_len ld - (l_start ld - 1))\<rparr>);
          whence = (if q_cmd r AND SETFLCK = 0 then 0 else whence)
      in LRet k (snd (convoff (q_size r) (q_off r) ld whence)) rid ret)"

text \<open>An entry is put on the list of sleeping locks, blocked by \<open>fl\<close>.\<close>

definition mark_blocked :: "nat \<Rightarrow> filock \<Rightarrow> nat \<Rightarrow> int \<Rightarrow> locksys \<Rightarrow> locksys" where
  "mark_blocked gp fl sf fcn k =
     (let k = upd_entry (GnLocks gp) (fl_id fl) (\<lambda>f. f\<lparr>fstate := fstate f OR LCK_BLOCKER\<rparr>) k
      in upd_entry SleepLocks sf (\<lambda>f. f\<lparr>fstate := fstate f OR LCK_BLOCKED, b_pid := l_pid (fset fl),
            b_sysid := l_sysid (fset fl), b_vfs := sshort (l_vfs (fset fl)), filockp := Some (fl_id fl),
            retry_fcn := fcn\<rparr>) k)"

text \<open>\<open>F_UNLCK\<close> by the NFS lock daemon: requests are taken off the list of sleeping locks.\<close>

fun nfs_drop :: "eflock \<Rightarrow> filock list \<Rightarrow> locksys \<Rightarrow> locksys" where
  "nfs_drop ld [] k = k"
| "nfs_drop ld (sf # sfs) k =
     (if l_vfs (fset sf) \<noteq> MNT_NFS then nfs_drop ld sfs k
      else if l_sysid ld = 4294967295 then nfs_drop ld sfs (delflck SleepLocks (fl_id sf) k)
      else if l_sysid (fset sf) = l_sysid ld \<and> l_pid (fset sf) = l_pid ld
          \<and> l_len (fset sf) = l_len ld \<and> l_start (fset sf) = l_start ld
      then delflck SleepLocks (fl_id sf) k
      else nfs_drop ld sfs k)"

text \<open>The address of a slot, as a number that is not 0.\<close>

definition slot_addr :: "nat \<Rightarrow> int" where
  "slot_addr i = int i + 1"

definition reclock_body ::
    "flox_conf \<Rightarrow> (int \<Rightarrow> int) \<Rightarrow> lock_req \<Rightarrow> int \<Rightarrow> eflock \<Rightarrow> int \<Rightarrow> locksys \<Rightarrow> lock_res" where
  "reclock_body cf rrc r whence ld rid k =
     (let gp = q_gp r; fin = (\<lambda>k ld rid ret. reclock_end r whence ld rid ret k) in
      if l_type ld = F_RDLCK \<or> l_type ld = F_WRLCK then
        (case blocked (gn_filocks k ! gp) ld of
           (None, ins) \<Rightarrow>
             if q_cmd r AND SETFLCK \<noteq> 0 then
               (case flckadj cf rrc gp ins ld rid k of (k, ld, rid, ret) \<Rightarrow> fin k ld rid ret)
             else fin k (ld\<lparr>l_type := F_UNLCK\<rparr>) rid None
         | (Some fl, ins) \<Rightarrow>
             if q_fcn r \<noteq> 0 \<or> q_cmd r AND SLPFLCK \<noteq> 0 then
               (case deadflck fl ld k of
                  None \<Rightarrow> LHang
                | Some True \<Rightarrow> fin k ld rid (Some EDEADLK)
                | Some False \<Rightarrow>
                    (case insflck cf SleepLocks ld None k of
                       (k, None) \<Rightarrow> fin k ld rid (Some ENOLCK)
                     | (k, Some sf) \<Rightarrow>
                         let k = mark_blocked gp fl sf (q_fcn r) k in
                         if q_fcn r \<noteq> 0 then fin k ld (slot_addr (fl_id fl)) (Some EAGAIN)
                         else
                           LSleep (upd_entry (GnLocks gp) (fl_id fl) (\<lambda>f. f\<lparr>fevent := fevent f @ [q_thr r]\<rparr>) k)
                             \<lparr>z_req = r, z_ld = ld, z_whence = whence, z_rid = rid, z_sf = sf\<rparr>))
             else if q_cmd r AND SETFLCK \<noteq> 0 then fin k ld rid (Some EAGAIN)
             else fin k (fset fl) rid None)
      else if l_type ld = F_UNLCK then
        (if q_cmd r AND SETFLCK \<noteq> 0 then
           (if l_vfs ld = MNT_NFS \<and> rid \<noteq> 0 then fin (nfs_drop ld (sleeplcks k) k) ld rid None
            else
              (case flckadj cf rrc gp (case gn_filocks k ! gp of [] \<Rightarrow> None | f # _ \<Rightarrow> Some (fl_id f)) ld rid k of
                 (k, ld, rid, ret) \<Rightarrow> fin k ld rid ret))
         else fin k ld rid None)
      else fin k ld rid (Some EINVAL))"

definition common_reclock ::
    "flox_conf \<Rightarrow> (int \<Rightarrow> int) \<Rightarrow> lock_req \<Rightarrow> eflock \<Rightarrow> int \<Rightarrow> locksys \<Rightarrow> lock_res" where
  "common_reclock cf rrc r ld rid k =
     (let whence = l_whence ld in
      case convoff (q_size r) (q_off r) ld 0 of
        (Some e, ld) \<Rightarrow> LRet k ld rid (Some e)
      | (None, ld) \<Rightarrow>
          if l_len ld < 0 then LRet k ld rid (Some EINVAL)
          else
            let ld = (if l_len ld = 0 then ld\<lparr>l_len := MAXEND\<rparr>
                      else ld\<lparr>l_len := wrap64 (l_len ld + (l_start ld - 1))\<rparr>)
            in if l_start ld > l_end ld then LRet k ld rid (Some EINVAL)
               else reclock_body cf rrc r whence ld rid k)"

text \<open>From the end of the sleep; \<open>sig\<close> is \<open>THREAD_INTERRUPTED\<close>.\<close>

definition reclock_wake :: "flox_conf \<Rightarrow> (int \<Rightarrow> int) \<Rightarrow> bool \<Rightarrow> lock_sleep \<Rightarrow> locksys \<Rightarrow> lock_res" where
  "reclock_wake cf rrc sig z k =
     (let k = upd_entry SleepLocks (z_sf z)
            (\<lambda>f. f\<lparr>b_pid := 0, b_sysid := 0, b_vfs := 0, filockp := None\<rparr>) k;
          k = delflck SleepLocks (z_sf z) k
      in if sig then reclock_end (z_req z) (z_whence z) (z_ld z) (z_rid z) (Some EINTR) k
         else reclock_body cf rrc (z_req z) (z_whence z) (z_ld z) (z_rid z) k)"

end
