(* ===== verification/ReclockInv.thy ===== *)
theory ReclockInv
  imports Reclock
begin

text \<open>
  The lists of locks seen from outside: for each gnode the list of slot numbers and locks
  (\<open>views\<close>), and the promise that every slot of the array, of at most \<open>n\<close>, is on one list
  at most (\<open>slots_ok\<close>). Each primitive that handles entries is described by what it does to these two.
\<close>

unbundle bit_operations_syntax

section \<open>Views and slots\<close>

type_synonym vlist = "(nat \<times> eflock) list"

definition view :: "filock list \<Rightarrow> vlist" where
  "view fs = map (\<lambda>f. (fl_id f, fset f)) fs"

definition views :: "locksys \<Rightarrow> vlist list" where
  "views k = map view (gn_filocks k)"

definition on_list :: "nat \<Rightarrow> filock list \<Rightarrow> nat" where
  "on_list i fs = length (filter (\<lambda>f. fl_id f = i) fs)"

definition occ :: "locksys \<Rightarrow> nat \<Rightarrow> nat" where
  "occ k i = on_list i (frlock k) + on_list i (sleeplcks k) + sum_list (map (on_list i) (gn_filocks k))"

definition slots_ok :: "nat \<Rightarrow> locksys \<Rightarrow> bool" where
  "slots_ok n k \<longleftrightarrow> v_lock k \<le> n \<and> (\<forall>i. occ k i \<le> (if i < v_lock k then 1 else 0))"

lemma view_simps [simp]: "view [] = []" "view (f # fs) = (fl_id f, fset f) # view fs"
  "view (fs @ gs) = view fs @ view gs"
  by (simp_all add: view_def)

lemma view_nil [simp]: "view fs = [] \<longleftrightarrow> fs = []"
  by (simp add: view_def)

lemma on_list_simps [simp]:
  "on_list i [] = 0" "on_list i (f # fs) = (if fl_id f = i then Suc (on_list i fs) else on_list i fs)"
  "on_list i (fs @ gs) = on_list i fs + on_list i gs"
  by (simp_all add: on_list_def)

lemma on_list_zero: "on_list i fs = 0 \<longleftrightarrow> (\<forall>f \<in> set fs. fl_id f \<noteq> i)"
  by (induction fs) auto

lemma on_list_distinct: "(\<forall>i. on_list i fs \<le> 1) \<longleftrightarrow> distinct (map fl_id fs)"
proof (induction fs)
  case (Cons f fs)
  show ?case
  proof
    assume l: "\<forall>i. on_list i (f # fs) \<le> 1"
    have "on_list i fs \<le> 1" for i using l [rule_format, of i] by (simp split: if_splits)
    moreover have "on_list (fl_id f) fs = 0" using l [rule_format, of "fl_id f"] by simp
    ultimately show "distinct (map fl_id (f # fs))" using Cons.IH by (auto simp: on_list_zero)
  next
    assume r: "distinct (map fl_id (f # fs))"
    then have "on_list (fl_id f) fs = 0" by (simp add: on_list_zero) (metis image_eqI)
    with r Cons.IH show "\<forall>i. on_list i (f # fs) \<le> 1" by auto
  qed
qed simp

lemma sum_list_replace:
  "gp < length xs \<Longrightarrow> sum_list (map h (xs[gp := y])) + h (xs ! gp) = sum_list (map h xs) + (h y :: nat)"
  by (induction xs arbitrary: gp) (auto split: nat.splits)

lemma sum_list_le: "gp < length xs \<Longrightarrow> h (xs ! gp) \<le> sum_list (map h xs :: nat list)"
  using elem_le_sum_list [of gp "map h xs"] by simp

text \<open>A list as good as a gnode's or the list of sleeping locks.\<close>

definition is_list :: "lck_list \<Rightarrow> locksys \<Rightarrow> bool" where
  "is_list l k \<longleftrightarrow> (case l of GnLocks gp \<Rightarrow> gp < length (gn_filocks k) | SleepLocks \<Rightarrow> True)"

lemma occ_set_list:
  assumes "is_list l k"
  shows "occ (set_list l xs k) i + on_list i (get_list l k) = occ k i + on_list i xs"
proof (cases l)
  case (GnLocks gp)
  with assms show ?thesis
    using sum_list_replace [of gp "gn_filocks k" "on_list i" xs] by (simp add: occ_def is_list_def)
qed (simp add: occ_def)

lemma set_list_simps [simp]:
  "frlock (set_list l xs k) = frlock k" "v_lock (set_list l xs k) = v_lock k" "reccnt (set_list l xs k) = reccnt k"
  by (cases l; simp)+

lemma get_list_occ: "is_list l k \<Longrightarrow> on_list i (get_list l k) \<le> occ k i"
  using sum_list_le [of _ "gn_filocks k" "on_list i"] by (cases l) (force simp: occ_def is_list_def)+

lemma slots_distinct:
  assumes "slots_ok n k" and "is_list l k"
  shows "distinct (map fl_id (get_list l k))"
proof -
  have "on_list i (get_list l k) \<le> 1" for i
    using get_list_occ [OF assms(2), of i] assms(1) [unfolded slots_ok_def, THEN conjunct2, rule_format, of i]
    by (auto split: if_splits)
  then show ?thesis using on_list_distinct by blast
qed

lemma slots_bound:
  assumes "slots_ok n k" and "is_list l k" and "f \<in> set (get_list l k)"
  shows "fl_id f < v_lock k"
proof -
  have "on_list (fl_id f) (get_list l k) \<noteq> 0" using assms(3) by (auto simp: on_list_zero)
  with get_list_occ [OF assms(2), of "fl_id f"] assms(1) [unfolded slots_ok_def, THEN conjunct2, rule_format, of "fl_id f"]
  show ?thesis by (auto split: if_splits)
qed

section \<open>Changes that leave the locks alone\<close>

definition same_locks :: "nat \<Rightarrow> locksys \<Rightarrow> locksys \<Rightarrow> bool" where
  "same_locks n k k' \<longleftrightarrow> views k' = views k \<and> (slots_ok n k \<longrightarrow> slots_ok n k')"

lemma same_locks_refl [simp]: "same_locks n k k"
  by (simp add: same_locks_def)

lemma same_locks_trans: "same_locks n k k1 \<Longrightarrow> same_locks n k1 k2 \<Longrightarrow> same_locks n k k2"
  by (simp add: same_locks_def)

lemma length_views: "length (views k) = length (gn_filocks k)"
  by (simp add: views_def)

lemma slots_ok_cong: "\<forall>i. occ k' i = occ k i \<Longrightarrow> v_lock k' = v_lock k \<Longrightarrow> slots_ok n k' = slots_ok n k"
  by (simp add: slots_ok_def)

lemma on_list_map: "(\<And>f. fl_id (g f) = fl_id f) \<Longrightarrow> on_list i (map g fs) = on_list i fs"
  by (induction fs) auto

lemma gn_set_sleep [simp]: "gn_filocks (set_list SleepLocks xs k) = gn_filocks k"
  by simp

lemma upd_entry_same:
  assumes "\<And>f. fl_id (g f) = fl_id f" and "l = SleepLocks \<or> (\<forall>f. fset (g f) = fset f)" and l: "is_list l k"
  shows "same_locks n k (upd_entry l i g k)"
proof -
  let ?h = "\<lambda>f. if fl_id f = i then g f else f"
  have "on_list j (map ?h (get_list l k)) = on_list j (get_list l k)" for j
    by (rule on_list_map) (simp add: assms(1))
  then have "occ (upd_entry l i g k) j = occ k j" for j
    using occ_set_list [OF l, of "map ?h (get_list l k)" j] by (simp add: upd_entry_def)
  moreover have "v_lock (upd_entry l i g k) = v_lock k" by (simp add: upd_entry_def)
  ultimately have "slots_ok n (upd_entry l i g k) = slots_ok n k" by (simp add: slots_ok_cong)
  moreover have "views (upd_entry l i g k) = views k"
  proof (cases l)
    case (GnLocks gp)
    then have "view (map ?h (gn_filocks k ! gp)) = view (gn_filocks k ! gp)"
      using assms(1,2) by (simp add: view_def)
    with GnLocks l show ?thesis
      by (simp add: views_def upd_entry_def is_list_def map_update list_update_same_conv)
  qed (simp add: views_def upd_entry_def)
  ultimately show ?thesis by (simp add: same_locks_def)
qed

lemma is_list_upd [simp]: "is_list l (upd_entry l' i g k) = is_list l k"
  by (cases l'; cases l) (simp_all add: is_list_def upd_entry_def)

lemma delflck_occ:
  assumes "slots_ok n k" and l: "is_list l k"
  shows "slots_ok n (delflck l i k)"
proof (cases "find (\<lambda>f. fl_id f = i) (get_list l k)")
  case None
  with assms(1) show ?thesis by (simp add: delflck_def slots_ok_def occ_def)
next
  case (Some f)
  then have f: "f \<in> set (get_list l k)" "fl_id f = i" by (auto simp: find_Some_iff)
  let ?fs = "filter (\<lambda>f. fl_id f \<noteq> i) (get_list l k)"
  have d: "distinct (map fl_id (get_list l k))" by (rule slots_distinct [OF assms])
  then have "on_list i (get_list l k) \<le> 1" using on_list_distinct by blast
  moreover have "on_list i (get_list l k) \<noteq> 0" using f by (auto simp: on_list_zero)
  ultimately have one: "on_list i (get_list l k) = 1" by simp
  have fil: "on_list j ?fs = (if j = i then 0 else on_list j (get_list l k))" for j
    by (induction "get_list l k") (auto simp: on_list_def intro!: arg_cong [where f = length] filter_cong)
  have "occ (delflck l i k) j = occ k j" if "i < v_lock k" for j
    using occ_set_list [OF l, of ?fs j] fil [of j] one f(2) Some that
    by (auto simp: delflck_def occ_def split: if_splits)
  then show ?thesis using assms(1) Some
    by (cases "i < v_lock k") (simp_all add: slots_ok_def delflck_def occ_def)
qed

lemma is_list_del [simp]: "is_list l (delflck l' i k) = is_list l k"
  by (cases l'; cases l) (auto simp: is_list_def delflck_def split: option.splits)

lemma delflck_sleep_same: "same_locks n k (delflck SleepLocks i k)"
proof -
  have "views (delflck SleepLocks i k) = views k"
    by (auto simp: views_def delflck_def split: option.splits)
  then show ?thesis using delflck_occ [of n k SleepLocks i] by (simp add: same_locks_def is_list_def)
qed

lemma calls_same: "same_locks n k (k\<lparr>k_calls := c\<rparr>)"
  by (simp add: same_locks_def views_def slots_ok_def occ_def)

lemma is_list_same: "same_locks n k k' \<Longrightarrow> is_list l k' = is_list l k"
  using length_views [of k] length_views [of k'] by (cases l) (simp_all add: is_list_def same_locks_def)

lemma wake_loop_same:
  "gp < length (gn_filocks k) \<Longrightarrow> same_locks n k (fst (wake_loop gp lp ss k rf))"
proof (induction ss arbitrary: k rf)
  case (Cons s ss)
  let ?k1 = "upd_entry SleepLocks (fl_id s) (\<lambda>f. f\<lparr>fstate := fstate f AND NOT LCK_BLOCKED\<rparr>) k"
  let ?k2 = "upd_entry (GnLocks gp) lp (\<lambda>f. f\<lparr>fstate := (fstate f AND NOT LCK_BLOCKER) OR LCK_WASBLOCK\<rparr>) ?k1"
  let ?k3 = "?k2\<lparr>k_calls := k_calls ?k2 @ [(retry_fcn s, Some lp)]\<rparr>"
  let ?k4 = "upd_entry SleepLocks (fl_id s) (\<lambda>f. f\<lparr>b_pid := 0, b_sysid := 0, b_vfs := 0, retry_fcn := 0\<rparr>) ?k3"
  have g: "is_list (GnLocks gp) k" using Cons.prems by (simp add: is_list_def)
  have s: "is_list SleepLocks k'" for k' by (simp add: is_list_def)
  have 1: "same_locks n k ?k1" by (rule upd_entry_same) (simp_all add: s)
  have 2: "same_locks n k ?k2"
    by (rule same_locks_trans [OF 1], rule upd_entry_same) (simp_all add: g)
  have 4: "same_locks n k ?k4"
    by (rule same_locks_trans [OF 2], rule same_locks_trans [OF calls_same], rule upd_entry_same) (simp_all add: s)
  have 5: "same_locks n k (delflck SleepLocks (fl_id s) ?k4)" by (rule same_locks_trans [OF 4 delflck_sleep_same])
  have len: "same_locks n k k' \<Longrightarrow> gp < length (gn_filocks k')" for k'
    using Cons.prems length_views [of k] length_views [of k'] by (simp add: same_locks_def)
  show ?case
    using Cons.IH [OF Cons.prems] same_locks_trans [OF 2 Cons.IH [OF len [OF 2]]]
      same_locks_trans [OF 5 Cons.IH [OF len [OF 5]]]
    by (simp add: Let_def)
qed simp

lemma lock_wakeup_same:
  assumes "gp < length (gn_filocks k)"
  shows "same_locks n k (fst (lock_wakeup gp lp k rf))"
proof -
  obtain k1 rf1 where w: "wake_loop gp (fl_id lp) (sleeplcks k) k rf = (k1, rf1)" by fastforce
  have 1: "same_locks n k k1" using wake_loop_same [OF assms, where lp = "fl_id lp" and ss = "sleeplcks k" and rf = rf and n = n] by (simp add: w)
  have "is_list (GnLocks gp) k1" using is_list_same [OF 1, of "GnLocks gp"] assms by (simp add: is_list_def)
  then have "same_locks n k1 (upd_entry (GnLocks gp) (fl_id lp) (\<lambda>f. f\<lparr>fevent := []\<rparr>) k1)"
    by (rule upd_entry_same [rotated 2]) simp_all
  with 1 show ?thesis by (auto simp: lock_wakeup_def w intro: same_locks_trans)
qed

section \<open>Changes of one list\<close>

definition one_list :: "nat \<Rightarrow> nat \<Rightarrow> vlist \<Rightarrow> locksys \<Rightarrow> locksys \<Rightarrow> bool" where
  "one_list n gp v k k' \<longleftrightarrow> views k' = (views k)[gp := v] \<and> slots_ok n k'"

lemma one_list_id: "slots_ok n k \<Longrightarrow> one_list n gp (views k ! gp) k k"
  by (simp add: one_list_def)

lemma one_list_same: "one_list n gp v k k1 \<Longrightarrow> same_locks n k1 k2 \<Longrightarrow> one_list n gp v k k2"
  by (simp add: one_list_def same_locks_def)

lemma one_list_trans: "one_list n gp v k k1 \<Longrightarrow> one_list n gp v' k1 k2 \<Longrightarrow> one_list n gp v' k k2"
  by (simp add: one_list_def)

lemma one_list_len: "one_list n gp v k k' \<Longrightarrow> length (gn_filocks k') = length (gn_filocks k)"
  using length_views [of k] length_views [of k'] by (simp add: one_list_def)

lemma one_list_nth: "one_list n gp v k k' \<Longrightarrow> gp < length (gn_filocks k) \<Longrightarrow> views k' ! gp = v"
  by (simp add: one_list_def length_views)

lemma views_nth: "gp < length (gn_filocks k) \<Longrightarrow> views k ! gp = view (gn_filocks k ! gp)"
  by (simp add: views_def)

lemma view_filter: "view (filter (\<lambda>f. fl_id f \<noteq> i) fs) = filter (\<lambda>p. fst p \<noteq> i) (view fs)"
  by (induction fs) auto

lemma delflck_one:
  assumes "slots_ok n k" and gp: "gp < length (gn_filocks k)" and "i \<in> fst ` set (views k ! gp)"
  shows "one_list n gp (filter (\<lambda>p. fst p \<noteq> i) (views k ! gp)) k (delflck (GnLocks gp) i k)"
proof -
  have l: "is_list (GnLocks gp) k" using gp by (simp add: is_list_def)
  obtain f where f: "f \<in> set (gn_filocks k ! gp)" "fl_id f = i"
    using assms(3) by (auto simp: views_nth [OF gp] view_def)
  then have "i < v_lock k" using slots_bound [OF assms(1) l, of f] by simp
  moreover obtain g where "find (\<lambda>f. fl_id f = i) (gn_filocks k ! gp) = Some g"
    using f by (cases "find (\<lambda>f. fl_id f = i) (gn_filocks k ! gp)") (auto simp: find_None_iff)
  ultimately have "views (delflck (GnLocks gp) i k) = (views k)[gp := filter (\<lambda>p. fst p \<noteq> i) (views k ! gp)]"
    by (simp add: delflck_def views_def map_update view_filter gp)
  then show ?thesis using delflck_occ [OF assms(1) l] by (simp add: one_list_def)
qed

definition vcut :: "nat \<Rightarrow> int \<Rightarrow> vlist \<Rightarrow> vlist" where
  "vcut i e v = map (\<lambda>p. if fst p = i then (i, (snd p)\<lparr>l_len := e\<rparr>) else p) v"

lemma cut_one:
  assumes "slots_ok n k" and gp: "gp < length (gn_filocks k)"
  shows "one_list n gp (vcut i e (views k ! gp)) k
    (upd_entry (GnLocks gp) i (\<lambda>f. f\<lparr>fset := (fset f)\<lparr>l_len := e\<rparr>\<rparr>) k)"
proof -
  let ?g = "\<lambda>f. f\<lparr>fset := (fset f)\<lparr>l_len := e\<rparr>\<rparr>"
  let ?h = "\<lambda>f. if fl_id f = i then ?g f else f"
  let ?k = "upd_entry (GnLocks gp) i ?g k"
  have l: "is_list (GnLocks gp) k" using gp by (simp add: is_list_def)
  have "on_list j (map ?h (gn_filocks k ! gp)) = on_list j (gn_filocks k ! gp)" for j
    by (rule on_list_map) simp
  then have "occ ?k j = occ k j" for j
    using occ_set_list [OF l, of "map ?h (gn_filocks k ! gp)" j] by (simp add: upd_entry_def)
  then have "slots_ok n ?k" using assms(1) by (simp add: slots_ok_def upd_entry_def)
  moreover have "view (map ?h fs) = vcut i e (view fs)" for fs by (induction fs) (auto simp: vcut_def)
  ultimately show ?thesis by (simp add: one_list_def views_def upd_entry_def map_update gp)
qed

fun vins :: "nat option \<Rightarrow> nat \<times> eflock \<Rightarrow> vlist \<Rightarrow> vlist" where
  "vins None p v = p # v"
| "vins (Some i) p [] = [p]"
| "vins (Some i) p (q # v) = (if fst q = i then q # p # v else q # vins (Some i) p v)"

lemma view_ins: "view (ins_after pos new fs) = vins pos (fl_id new, fset new) (view fs)"
  by (induction pos new fs rule: ins_after.induct) auto

lemma on_list_ins: "on_list i (ins_after pos new fs) = on_list i (new # fs)"
  by (induction pos new fs rule: ins_after.induct) auto

lemma on_list_zeros: "on_list i (map slot_zero xs) = length (filter (\<lambda>j. j = i) xs)"
  by (induction xs) (auto simp: slot_zero_def)

lemma on_list_range: "on_list i (map slot_zero (rev [a..<b])) = (if a \<le> i \<and> i < b then 1 else 0)"
proof -
  have "length (filter (\<lambda>j. j = i) (rev [a..<b])) = length (filter (\<lambda>j. j = i) [a..<b])"
    by (simp flip: rev_filter)
  also have "\<dots> = (if a \<le> i \<and> i < b then 1 else 0)" by (induction b) auto
  finally show ?thesis by (simp add: on_list_zeros)
qed

lemma grow_same: "same_locks n k (flock_grow n per k)"
  by (auto simp: same_locks_def views_def flock_grow_def slots_ok_def occ_def on_list_range Let_def
      split: if_splits)

text \<open>\<open>insflck\<close> either finds no slot, or links a fresh one (or, for NFS, finds a sleeper).\<close>

lemma insflck_none:
  assumes "insflck cf l ld pos k = (k', None)" and "slots_ok (nflox_max cf) k"
  shows "same_locks (nflox_max cf) k k'"
proof -
  let ?k = "if frlock k = [] then flock_grow (nflox_max cf) (per_page cf) k else k"
  have "k' = ?k\<lparr>recovf := recovf ?k + 1\<rparr>"
    using assms(1) by (auto simp: insflck_def Let_def split: option.splits list.splits)
  moreover have "same_locks (nflox_max cf) k ?k" using grow_same by simp
  ultimately show ?thesis by (auto simp: same_locks_def views_def slots_ok_def occ_def)
qed

lemma insflck_some:
  assumes ins: "insflck cf l ld pos k = (k', Some i)" and ok: "slots_ok (nflox_max cf) k" and l: "is_list l k"
    and not_nfs: "l \<noteq> SleepLocks \<or> l_vfs ld \<noteq> MNT_NFS"
  shows "slots_ok (nflox_max cf) k' \<and> on_list i (get_list l k) = 0
    \<and> (\<exists>new. fl_id new = i \<and> fset new = ld \<and> (\<exists>k1. same_locks (nflox_max cf) k k1 \<and>
         get_list l k1 = get_list l k \<and> views k' = views (set_list l (ins_after pos new (get_list l k)) k1)))"
proof -
  let ?k = "if frlock k = [] then flock_grow (nflox_max cf) (per_page cf) k else k"
  have same: "same_locks (nflox_max cf) k ?k" using grow_same by simp
  have get: "get_list l ?k = get_list l k" by (cases l) (simp_all add: flock_grow_def Let_def)
  have l2: "is_list l ?k" using l is_list_same [OF same] by simp
  obtain s ss where s: "frlock ?k = s # ss" "i = fl_id s"
    and k': "k' = set_list l (ins_after pos (s\<lparr>fset := ld, fstate := 0, fevent := []\<rparr>) (get_list l k))
        (?k\<lparr>frlock := ss, reccnt := reccnt ?k + 1, rectot := rectot ?k + 1\<rparr>)"
    using ins not_nfs get by (auto simp: insflck_def Let_def split: list.splits if_splits; cases l; auto)
  let ?new = "s\<lparr>fset := ld, fstate := 0, fevent := []\<rparr>" and ?k2 = "?k\<lparr>frlock := ss, reccnt := reccnt ?k + 1, rectot := rectot ?k + 1\<rparr>"
  have ok1: "slots_ok (nflox_max cf) ?k" using same ok by (simp add: same_locks_def)
  have l3: "is_list l ?k2" using l2 by (cases l) (simp_all add: is_list_def)
  have get2: "get_list l ?k2 = get_list l k" using get by (cases l) simp_all
  have "occ k' j = occ ?k j" for j
    using occ_set_list [OF l3, of "ins_after pos ?new (get_list l k)" j] s(1)
    unfolding k' get2 on_list_ins by (simp add: occ_def split: if_splits)
  moreover have "v_lock k' = v_lock ?k" by (simp add: k')
  ultimately have "slots_ok (nflox_max cf) k'" using ok1 by (simp add: slots_ok_def)
  moreover have "on_list i (get_list l k) = 0"
  proof -
    have "on_list i (frlock ?k) \<noteq> 0" using s by simp
    moreover have "on_list i (frlock ?k) + on_list i (get_list l ?k) \<le> occ ?k i"
      using l2 sum_list_le [of _ "gn_filocks ?k" "on_list i"] by (cases l) (force simp: occ_def is_list_def)+
    moreover have "occ ?k i \<le> 1" using ok1 by (auto simp: slots_ok_def split: if_splits dest: spec [of _ i])
    ultimately show ?thesis using get by simp
  qed
  moreover have "same_locks (nflox_max cf) k ?k \<and> get_list l ?k = get_list l k \<and>
      views k' = views (set_list l (ins_after pos ?new (get_list l k)) ?k)"
    using same get by (cases l) (simp_all add: k' views_def)
  ultimately show ?thesis using s(2) by (intro conjI exI [of _ ?new]) auto
qed

lemma insflck_one:
  assumes ins: "insflck cf (GnLocks gp) ld pos k = (k', Some i)" and ok: "slots_ok (nflox_max cf) k"
    and gp: "gp < length (gn_filocks k)"
  shows "one_list (nflox_max cf) gp (vins pos (i, ld) (views k ! gp)) k k' \<and> i \<notin> fst ` set (views k ! gp)"
proof -
  from insflck_some [OF ins ok] gp obtain new k1 where n: "slots_ok (nflox_max cf) k'" "on_list i (gn_filocks k ! gp) = 0"
    "fl_id new = i" "fset new = ld" "same_locks (nflox_max cf) k k1" "gn_filocks k1 ! gp = gn_filocks k ! gp"
    "views k' = views (set_list (GnLocks gp) (ins_after pos new (gn_filocks k ! gp)) k1)"
    by (auto simp: is_list_def)
  then have "views k' = (views k)[gp := vins pos (i, ld) (views k ! gp)]"
    using gp by (simp add: views_def map_update view_ins same_locks_def)
  with n show ?thesis by (auto simp: one_list_def views_nth [OF gp] view_def on_list_zero)
qed

lemma insflck_sleep:
  assumes "insflck cf SleepLocks ld pos k = (k', r)" and ok: "slots_ok (nflox_max cf) k"
  shows "same_locks (nflox_max cf) k k'"
proof (cases r)
  case None
  with insflck_none assms show ?thesis by blast
next
  case (Some i)
  show ?thesis
  proof (cases "l_vfs ld = MNT_NFS \<and> find (same_request ld) (sleeplcks k) \<noteq> None")
    case True
    with assms show ?thesis by (auto simp: insflck_def)
  next
    case False
    let ?k = "if frlock k = [] then flock_grow (nflox_max cf) (per_page cf) k else k"
    have same: "same_locks (nflox_max cf) k ?k" using grow_same by simp
    obtain s ss where s: "frlock ?k = s # ss"
      and k': "k' = (?k\<lparr>frlock := ss, reccnt := reccnt ?k + 1, rectot := rectot ?k + 1\<rparr>)
        \<lparr>sleeplcks := ins_after pos (s\<lparr>fset := ld, fstate := 0, fevent := []\<rparr>) (sleeplcks ?k)\<rparr>"
      using assms(1) False Some
      by (auto simp: insflck_def Let_def split: list.splits if_splits option.splits)
    have "occ k' j = occ ?k j" for j
      using s by (simp add: k' occ_def on_list_ins)
    then have "slots_ok (nflox_max cf) k' = slots_ok (nflox_max cf) ?k" by (simp add: slots_ok_def k')
    moreover have "views k' = views ?k" by (simp add: k' views_def)
    ultimately show ?thesis using same by (simp add: same_locks_def)
  qed
qed

end
