(* ===== verification/ReclockAdj.thy ===== *)
theory ReclockAdj
  imports ReclockInv
begin

text \<open>
  The adjustment of a file's locks. A list of locks stands for a map that says which owner
  holds which byte in which mode (\<open>holds\<close>); it is kept ordered, without overlaps between the
  locks of one owner or conflicts between owners, and with adjoining locks of one owner and mode
  joined (\<open>vok\<close>). \<open>flckadj\<close> overrides the map on the bytes of the request.
\<close>

unbundle bit_operations_syntax

section \<open>Well-formed lists of locks\<close>

definition holds :: "vlist \<Rightarrow> owner \<Rightarrow> int \<Rightarrow> int \<Rightarrow> bool" where
  "holds v w b t \<longleftrightarrow> (\<exists>p \<in> set v. owner_of (snd p) = w \<and> l_type (snd p) = t
     \<and> l_start (snd p) \<le> b \<and> b \<le> l_end (snd p))"

definition entry_ok :: "eflock \<Rightarrow> bool" where
  "entry_ok e \<longleftrightarrow> 0 \<le> l_start e \<and> l_start e \<le> l_end e \<and> (l_type e = F_RDLCK \<or> l_type e = F_WRLCK)"

text \<open>\<open>apart\<close>: disjoint, and not adjoining when the mode is the same.\<close>

definition apart :: "eflock \<Rightarrow> eflock \<Rightarrow> bool" where
  "apart a b \<longleftrightarrow> (l_end a < l_start b \<or> l_end b < l_start a)
     \<and> (l_type a = l_type b \<longrightarrow> l_end a + 1 < l_start b \<or> l_end b + 1 < l_start a)"

definition compat :: "eflock \<Rightarrow> eflock \<Rightarrow> bool" where
  "compat a b \<longleftrightarrow>
     (if own a b then apart a b
      else l_end a < l_start b \<or> l_end b < l_start a \<or> l_type a = F_RDLCK \<and> l_type b = F_RDLCK)"

definition before :: "nat \<times> eflock \<Rightarrow> nat \<times> eflock \<Rightarrow> bool" where
  "before p q \<longleftrightarrow> l_start (snd p) \<le> l_start (snd q) \<and> compat (snd p) (snd q)"

definition vok :: "vlist \<Rightarrow> bool" where
  "vok v \<longleftrightarrow> sorted_wrt before v \<and> (\<forall>p \<in> set v. entry_ok (snd p)) \<and> distinct (map fst v)"

lemma own_iff: "own a b \<longleftrightarrow> owner_of a = owner_of b"
  by (auto simp: own_def owner_of_def)

lemma own_sym: "own a b = own b a"
  by (auto simp: own_def)

lemma apart_sym: "apart a b = apart b a"
  by (auto simp: apart_def)

lemma compat_sym: "compat a b = compat b a"
  using own_sym [of a b] apart_sym [of a b] by (auto simp: compat_def)

lemma holds_simps [simp]:
  "\<not> holds [] w b t"
  "holds (p # v) w b t \<longleftrightarrow> owner_of (snd p) = w \<and> l_type (snd p) = t
     \<and> l_start (snd p) \<le> b \<and> b \<le> l_end (snd p) \<or> holds v w b t"
  "holds (v @ v') w b t \<longleftrightarrow> holds v w b t \<or> holds v' w b t"
  by (auto simp: holds_def)

lemma vok_pair: "vok (P @ p # R) \<Longrightarrow> q \<in> set P \<Longrightarrow> before q p"
  "vok (P @ p # R) \<Longrightarrow> q \<in> set R \<Longrightarrow> before p q"
  "vok (P @ p # R) \<Longrightarrow> q \<in> set P \<Longrightarrow> r \<in> set R \<Longrightarrow> before q r"
  by (auto simp: vok_def sorted_wrt_append)

lemma vok_delete: "vok (P @ p # R) \<Longrightarrow> vok (P @ R)"
  by (auto simp: vok_def sorted_wrt_append)

lemma vok_compat: "vok v \<Longrightarrow> p \<in> set v \<Longrightarrow> q \<in> set v \<Longrightarrow> p = q \<or> compat (snd p) (snd q)"
proof (induction v)
  case (Cons r v)
  then have "vok v" and r: "\<And>x. x \<in> set v \<Longrightarrow> before r x" by (auto simp: vok_def)
  with Cons show ?case using compat_sym by (fastforce simp: before_def)
qed simp

text \<open>An owner holds a byte in one mode at most.\<close>

lemma holds_unique:
  assumes "vok v" and "holds v w b t" and "holds v w b t'"
  shows "t = t'"
proof -
  from assms(2,3) obtain p q where p: "p \<in> set v" "owner_of (snd p) = w" "l_type (snd p) = t"
      "l_start (snd p) \<le> b" "b \<le> l_end (snd p)"
    and q: "q \<in> set v" "owner_of (snd q) = w" "l_type (snd q) = t'" "l_start (snd q) \<le> b" "b \<le> l_end (snd q)"
    by (auto simp: holds_def)
  from vok_compat [OF assms(1) p(1) q(1)] p q show ?thesis
    by (auto simp: compat_def own_iff apart_def)
qed

lemma holds_type: "vok v \<Longrightarrow> holds v w b t \<Longrightarrow> t = F_RDLCK \<or> t = F_WRLCK"
  by (auto simp: vok_def holds_def entry_ok_def)

lemma vok_shrink:
  assumes v: "vok (P @ (i, e) # R)" and "l_start e \<le> n" and "n \<le> l_end e"
  shows "vok (P @ (i, e\<lparr>l_len := n\<rparr>) # R)"
proof -
  let ?e = "e\<lparr>l_len := n\<rparr>"
  have own: "own a ?e = own a e" "own ?e a = own e a" for a by (simp_all add: own_def)
  have "before p (i, ?e)" if "p \<in> set P" for p
    using vok_pair(1) [OF v that] assms(2,3) by (auto simp: before_def compat_def own apart_def)
  moreover have "before (i, ?e) p" if "p \<in> set R" for p
    using vok_pair(2) [OF v that] assms(2,3) by (auto simp: before_def compat_def own apart_def)
  ultimately show ?thesis using v assms(2,3) by (auto simp: vok_def sorted_wrt_append entry_ok_def)
qed

lemma vok_insert:
  assumes "vok (A @ B)" and "entry_ok e" and "i \<notin> fst ` set (A @ B)"
    and "\<And>p. p \<in> set A \<Longrightarrow> l_start (snd p) \<le> l_start e" and "\<And>p. p \<in> set B \<Longrightarrow> l_start e \<le> l_start (snd p)"
    and "\<And>p. p \<in> set (A @ B) \<Longrightarrow> compat (snd p) e"
  shows "vok (A @ (i, e) # B)"
  using assms compat_sym by (auto simp: vok_def sorted_wrt_append before_def)

section \<open>Where an entry is put\<close>

definition vwalk :: "nat \<Rightarrow> int \<Rightarrow> vlist \<Rightarrow> nat" where
  "vwalk i st v =
     (case takeWhile (\<lambda>p. l_start (snd p) < st) (dropWhile (\<lambda>p. fst p \<noteq> i) v) of
        [] \<Rightarrow> i | xs \<Rightarrow> fst (last xs))"

definition vprev :: "nat \<Rightarrow> vlist \<Rightarrow> nat option" where
  "vprev i v = (case takeWhile (\<lambda>p. fst p \<noteq> i) v of [] \<Rightarrow> None | xs \<Rightarrow> Some (fst (last xs)))"

lemma view_drop: "view (dropWhile (\<lambda>f. fl_id f \<noteq> i) fs) = dropWhile (\<lambda>p. fst p \<noteq> i) (view fs)"
  by (induction fs) auto

lemma view_take: "view (takeWhile (\<lambda>f. P (fl_id f) (fset f)) fs) = takeWhile (\<lambda>p. P (fst p) (snd p)) (view fs)"
  by (induction fs) auto

lemma view_last: "fs \<noteq> [] \<Longrightarrow> fst (last (view fs)) = fl_id (last fs)"
  by (simp add: view_def last_map)

lemma walk_view: "walk i st fs = vwalk i st (view fs)"
proof -
  let ?d = "dropWhile (\<lambda>f. fl_id f \<noteq> i) fs"
  have "view (takeWhile (\<lambda>f. l_start (fset f) < st) ?d) = takeWhile (\<lambda>p. l_start (snd p) < st) (view ?d)"
    using view_take [of "\<lambda>_ e. l_start e < st" ?d] .
  then have t: "takeWhile (\<lambda>p. l_start (snd p) < st) (dropWhile (\<lambda>p. fst p \<noteq> i) (view fs))
      = view (takeWhile (\<lambda>f. l_start (fset f) < st) ?d)" by (simp add: view_drop)
  show ?thesis unfolding walk_def vwalk_def t
    by (cases "takeWhile (\<lambda>f. l_start (fset f) < st) ?d") (use view_last in \<open>auto split: list.splits\<close>)
qed

lemma prev_view: "prev_id i fs = vprev i (view fs)"
proof -
  have t: "takeWhile (\<lambda>p. fst p \<noteq> i) (view fs) = view (takeWhile (\<lambda>f. fl_id f \<noteq> i) fs)"
    using view_take [of "\<lambda>j _. j \<noteq> i" fs] by simp
  show ?thesis unfolding prev_id_def vprev_def t
    by (cases "takeWhile (\<lambda>f. fl_id f \<noteq> i) fs") (use view_last in \<open>auto split: list.splits\<close>)
qed

lemma vprev_at:
  assumes "distinct (map fst (P @ (i, e) # R))"
  shows "vprev i (P @ (i, e) # R) = (if P = [] then None else Some (fst (last P)))"
proof -
  have "takeWhile (\<lambda>p. fst p \<noteq> i) (P @ (i, e) # R) = P"
    using assms by (subst takeWhile_append2) (auto intro: rev_image_eqI)
  then show ?thesis by (auto simp: vprev_def split: list.splits)
qed

lemma vins_split:
  "distinct (map fst (A @ q # B)) \<Longrightarrow> vins (Some (fst q)) p (A @ q # B) = A @ q # p # B"
  by (induction A) (auto simp: rev_image_eqI)

text \<open>Inserting after the walk keeps the order.\<close>

lemma vins_walk:
  assumes v: "vok v" and q: "q \<in> set v" "l_start (snd q) \<le> st"
  shows "\<exists>A B. v = A @ B \<and> vins (Some (vwalk (fst q) st v)) p v = A @ p # B
    \<and> (\<forall>x \<in> set A. l_start (snd x) \<le> st) \<and> (\<forall>x \<in> set B. st \<le> l_start (snd x))"
proof -
  from q(1) obtain A0 B0 where s: "v = A0 @ q # B0" by (auto simp: in_set_conv_decomp)
  have d: "distinct (map fst v)" using v by (simp add: vok_def)
  have drop: "dropWhile (\<lambda>p. fst p \<noteq> fst q) v = q # B0"
    using d unfolding s by (subst dropWhile_append2) (auto intro: rev_image_eqI)
  let ?T = "takeWhile (\<lambda>p. l_start (snd p) < st) (q # B0)" and ?D = "dropWhile (\<lambda>p. l_start (snd p) < st) (q # B0)"
  have pre: "\<forall>x \<in> set A0. l_start (snd x) \<le> l_start (snd q)"
    using vok_pair(1) [of A0 q B0] v by (auto simp: s before_def)
  have suf: "sorted_wrt before (q # B0)" using v by (simp add: s vok_def sorted_wrt_append)
  have late: "\<forall>x \<in> set (dropWhile (\<lambda>p. l_start (snd p) < st) xs). st \<le> l_start (snd x)" if "sorted_wrt before xs" for xs
    using that
  proof (induction xs)
    case (Cons y ys)
    then have "\<forall>x \<in> set ys. l_start (snd y) \<le> l_start (snd x)" by (simp add: before_def)
    with Cons show ?case by (cases "l_start (snd y) < st") auto
  qed simp
  show ?thesis
  proof (cases "l_start (snd q) < st")
    case True
    then obtain T where T: "?T = q # T" by simp
    have w: "vwalk (fst q) st v = fst (last ?T)" unfolding vwalk_def drop T by simp
    have sp: "v = (A0 @ butlast ?T) @ last ?T # ?D"
      unfolding s using T by (metis append.assoc append_Cons append_Nil append_butlast_last_id list.distinct(1) takeWhile_dropWhile_id)
    have "vins (Some (vwalk (fst q) st v)) p v = (A0 @ butlast ?T) @ last ?T # p # ?D"
      unfolding w by (subst sp, subst vins_split) (use d sp in \<open>simp_all\<close>)
    moreover have "(A0 @ butlast ?T) @ [last ?T] = A0 @ ?T" using T by simp
    ultimately have "vins (Some (vwalk (fst q) st v)) p v = (A0 @ ?T) @ p # ?D" by (metis append.assoc append_Cons append_Nil)
    moreover have "v = (A0 @ ?T) @ ?D" by (simp only: s append.assoc takeWhile_dropWhile_id)
    moreover have "\<forall>x \<in> set (A0 @ ?T). l_start (snd x) \<le> st"
      using pre True by (auto dest: set_takeWhileD)
    ultimately show ?thesis using late [OF suf] by blast
  next
    case False
    then have T: "?T = []" and eq: "l_start (snd q) = st" using q(2) by auto
    have "vwalk (fst q) st v = fst q" unfolding vwalk_def drop T by simp
    moreover have "vins (Some (fst q)) p v = A0 @ q # p # B0" unfolding s by (rule vins_split) (use d s in simp)
    moreover have "\<forall>x \<in> set B0. st \<le> l_start (snd x)" using suf eq by (auto simp: before_def)
    ultimately show ?thesis using pre eq
      by (intro exI [of _ "A0 @ [q]"] exI [of _ B0]) (auto simp: s)
  qed
qed

section \<open>The state of an adjustment\<close>

definition covers :: "eflock \<Rightarrow> int \<Rightarrow> bool" where
  "covers ld b \<longleftrightarrow> l_start ld \<le> b \<and> b \<le> l_end ld"

text \<open>The request may have grown over locks of the same owner and mode.\<close>

definition grown :: "eflock \<Rightarrow> eflock \<Rightarrow> bool" where
  "grown ld0 ld \<longleftrightarrow> owner_of ld = owner_of ld0 \<and> l_type ld = l_type ld0 \<and> 0 \<le> l_start ld
     \<and> l_start ld \<le> l_start ld0 \<and> l_start ld0 \<le> l_end ld0 \<and> l_end ld0 \<le> l_end ld"

definition left_clear :: "vlist \<Rightarrow> eflock \<Rightarrow> bool" where
  "left_clear v ld \<longleftrightarrow> (\<forall>p \<in> set v. own (snd p) ld \<longrightarrow>
     l_end (snd p) < l_start ld \<and> (l_type (snd p) = l_type ld \<longrightarrow> l_end (snd p) + 1 < l_start ld))"

definition own_clear :: "vlist \<Rightarrow> eflock \<Rightarrow> bool" where
  "own_clear v ld \<longleftrightarrow> (\<forall>p \<in> set v. own (snd p) ld \<longrightarrow> apart (snd p) ld)"

definition others_ok :: "vlist \<Rightarrow> eflock \<Rightarrow> bool" where
  "others_ok v ld \<longleftrightarrow> l_type ld \<noteq> F_UNLCK \<longrightarrow> (\<forall>p \<in> set v. \<not> own (snd p) ld \<longrightarrow> compat (snd p) ld)"

definition ins_ok :: "vlist \<Rightarrow> eflock \<Rightarrow> nat option \<Rightarrow> bool" where
  "ins_ok v ld ins \<longleftrightarrow> l_type ld \<noteq> F_UNLCK \<longrightarrow>
     (case ins of None \<Rightarrow> \<forall>p \<in> set v. l_start ld \<le> l_start (snd p)
      | Some i \<Rightarrow> \<exists>p \<in> set v. fst p = i \<and> l_start (snd p) \<le> l_start ld)"

text \<open>Outside the request the map is as at first; where the request has grown, it was held so.\<close>

definition faithful :: "vlist \<Rightarrow> eflock \<Rightarrow> vlist \<Rightarrow> eflock \<Rightarrow> bool" where
  "faithful v0 ld0 v ld \<longleftrightarrow> (\<forall>w b t.
     if w = owner_of ld \<and> covers ld b then covers ld0 b \<or> holds v0 w b (l_type ld)
     else holds v w b t = holds v0 w b t)"

definition adj_inv :: "vlist \<Rightarrow> eflock \<Rightarrow> vlist \<Rightarrow> vlist \<Rightarrow> eflock \<Rightarrow> nat option \<Rightarrow> bool" where
  "adj_inv v0 ld0 P R ld ins \<longleftrightarrow> vok (P @ R) \<and> grown ld0 ld \<and> left_clear P ld \<and> others_ok (P @ R) ld
     \<and> ins_ok (P @ R) ld ins \<and> faithful v0 ld0 (P @ R) ld"

definition adj_post :: "vlist \<Rightarrow> eflock \<Rightarrow> vlist \<Rightarrow> eflock \<Rightarrow> nat option \<Rightarrow> bool" where
  "adj_post v0 ld0 v ld ins \<longleftrightarrow> vok v \<and> grown ld0 ld \<and> own_clear v ld \<and> others_ok v ld
     \<and> ins_ok v ld ins \<and> faithful v0 ld0 v ld"

text \<open>What an adjustment is for.\<close>

definition overridden :: "vlist \<Rightarrow> eflock \<Rightarrow> vlist \<Rightarrow> bool" where
  "overridden v0 ld v \<longleftrightarrow> (\<forall>w b t. holds v w b t \<longleftrightarrow>
     (if w = owner_of ld \<and> covers ld b then t = l_type ld \<and> t \<noteq> F_UNLCK else holds v0 w b t))"

lemma faithfulD:
  assumes "faithful v0 ld0 v ld"
  shows "if w = owner_of ld \<and> covers ld b then covers ld0 b \<or> holds v0 w b (l_type ld)
    else holds v w b t = holds v0 w b t"
  using assms [unfolded faithful_def, THEN spec, THEN spec, THEN spec, of w b t] .

lemma adj_inv_faithful: "adj_inv v0 ld0 P R ld ins \<Longrightarrow> faithful v0 ld0 (P @ R) ld"
  by (simp only: adj_inv_def)

lemma adj_post_faithful: "adj_post v0 ld0 v ld ins \<Longrightarrow> faithful v0 ld0 v ld"
  by (simp only: adj_post_def)

lemma grown_len: "grown ld0 ld \<Longrightarrow> l_start ld \<le> l_end ld"
  by (simp add: grown_def)

lemma entry_in: "vok v \<Longrightarrow> p \<in> set v \<Longrightarrow> entry_ok (snd p)"
  by (simp add: vok_def)

lemma own_left:
  assumes v: "vok (P @ (i, e) # R)" and p: "p \<in> set P" "own (snd p) e"
  shows "l_end (snd p) < l_start e \<and> (l_type (snd p) = l_type e \<longrightarrow> l_end (snd p) + 1 < l_start e)"
  using vok_pair(1) [OF v p(1)] p(2) entry_in [OF v, of p] entry_in [OF v, of "(i, e)"] p(1)
  by (auto simp: before_def compat_def apart_def entry_ok_def)

lemma own_right:
  assumes v: "vok (P @ (i, e) # R)" and p: "p \<in> set R" "own (snd p) e"
  shows "l_end e < l_start (snd p) \<and> (l_type (snd p) = l_type e \<longrightarrow> l_end e + 1 < l_start (snd p))"
  using vok_pair(2) [OF v p(1)] p(2) entry_in [OF v, of p] entry_in [OF v, of "(i, e)"] p(1)
  by (auto simp: before_def compat_def apart_def entry_ok_def own_sym)

lemma own_trans: "own a c \<Longrightarrow> own b c \<Longrightarrow> own a b"
  by (simp add: own_iff)

lemma ins_ok_prev:
  assumes v: "vok (P @ (i, e) # R)" and "l_start e = l_start ld"
  shows "ins_ok (P @ R) ld (vprev i (P @ (i, e) # R))"
proof -
  have d: "distinct (map fst (P @ (i, e) # R))" using v by (simp only: vok_def)
  have r: "\<forall>p \<in> set R. l_start e \<le> l_start (snd p)" using vok_pair(2) [OF v] by (auto simp: before_def)
  show ?thesis
  proof (cases "P = []")
    case True
    with r assms(2) vprev_at [OF d] show ?thesis by (simp add: ins_ok_def)
  next
    case False
    then have "before (last P) (i, e)" using vok_pair(1) [OF v] by simp
    with False assms(2) vprev_at [OF d] show ?thesis by (auto simp: ins_ok_def before_def intro!: bexI [of _ "last P"])
  qed
qed

lemma ins_ok_delete:
  assumes "ins_ok (P @ (i, e) # R) ld ins" and "l_start ld < l_start e"
  shows "ins_ok (P @ R) ld ins"
  using assms by (auto simp: ins_ok_def split: option.splits)

lemma ins_ok_len: "ins_ok v (ld\<lparr>l_len := n\<rparr>) ins = ins_ok v ld ins"
  by (simp add: ins_ok_def split: option.splits)

lemma others_delete: "others_ok (P @ p # R) ld \<Longrightarrow> others_ok (P @ R) ld"
  by (simp add: others_ok_def)

section \<open>The cases of the switch\<close>

text \<open>A lock inside the request goes.\<close>

lemma case_inside:
  assumes inv: "adj_inv v0 ld0 P ((i, e) # R) ld ins" and own: "own e ld"
    and e: "l_start ld \<le> l_start e" "l_end e \<le> l_end ld"
    and ins': "ins' = (if l_start e = l_start ld then vprev i (P @ (i, e) # R) else ins)"
  shows "adj_inv v0 ld0 P R ld ins'"
proof -
  have v: "vok (P @ (i, e) # R)" using inv by (simp add: adj_inv_def)
  have "ins_ok (P @ R) ld ins'"
    using ins_ok_prev [OF v] ins_ok_delete inv e by (auto simp: ins' adj_inv_def)
  moreover have "faithful v0 ld0 (P @ R) ld"
    unfolding faithful_def
  proof (intro allI)
    fix w b t
    note f = faithfulD [OF adj_inv_faithful [OF inv], of w b]
    show "if w = owner_of ld \<and> covers ld b then covers ld0 b \<or> holds v0 w b (l_type ld)
        else holds (P @ R) w b t = holds v0 w b t"
      using f [of t] own e by (auto simp: covers_def own_iff split: if_splits)
  qed
  ultimately show ?thesis using inv vok_delete [OF v] others_delete by (auto simp: adj_inv_def)
qed

lemma inv_stop:
  assumes inv: "adj_inv v0 ld0 P R ld ins"
    and R: "\<And>p. p \<in> set R \<Longrightarrow> own (snd p) ld \<Longrightarrow> l_end ld < l_start (snd p)
      \<and> (l_type (snd p) = l_type ld \<longrightarrow> l_end ld + 1 < l_start (snd p))"
  shows "adj_post v0 ld0 (P @ R) ld ins"
proof -
  have "own_clear (P @ R) ld"
    using inv R by (auto simp: own_clear_def apart_def adj_inv_def left_clear_def)
  with inv show ?thesis by (simp add: adj_inv_def adj_post_def)
qed

text \<open>A lock of the same mode to the right, adjoining or overlapping the end, is joined.\<close>

lemma compat_join_right:
  assumes "compat p ld" and "compat p e" and "own e ld" and "\<not> own p ld" and "l_type e = l_type ld"
    and "l_start ld \<le> l_start e" and "l_start e \<le> l_end ld + 1" and "l_end ld \<le> l_end e"
    and "l_start p \<le> l_end p"
  shows "compat p (ld\<lparr>l_len := l_end e\<rparr>)"
proof -
  have n: "\<not> own p e" "\<not> own p (ld\<lparr>l_len := l_end e\<rparr>)" using assms(3,4) by (auto simp: own_def)
  with assms show ?thesis by (auto simp: compat_def)
qed

lemma compat_join_left:
  assumes "compat p ld" and "compat p e" and "own e ld" and "\<not> own p ld" and "l_type e = l_type ld"
    and "l_start e \<le> l_start ld" and "l_start ld \<le> l_end e + 1" and "l_end e \<le> l_end ld"
    and "l_start p \<le> l_end p"
  shows "compat p (ld\<lparr>l_start := l_start e\<rparr>)"
proof -
  have n: "\<not> own p e" "\<not> own p (ld\<lparr>l_start := l_start e\<rparr>)" using assms(3,4) by (auto simp: own_def)
  with assms show ?thesis by (auto simp: compat_def)
qed

lemma case_join_right:
  assumes inv: "adj_inv v0 ld0 P ((i, e) # R) ld ins" and own: "own e ld"
    and e: "l_type e = l_type ld" "l_start ld < l_start e" "l_start e \<le> l_end ld + 1" "l_end ld \<le> l_end e"
  shows "adj_post v0 ld0 (P @ R) (ld\<lparr>l_len := l_end e\<rparr>) ins"
proof -
  let ?ld = "ld\<lparr>l_len := l_end e\<rparr>"
  have v: "vok (P @ (i, e) # R)" using inv by (simp add: adj_inv_def)
  have o: "own a ?ld = own a ld" "owner_of ?ld = owner_of ld" for a by (simp_all add: own_def owner_of_def)
  have g: "l_start ld \<le> l_end ld" using inv by (simp add: adj_inv_def grown_def)
  have "grown ld0 ?ld" using inv e by (simp add: adj_inv_def grown_def owner_of_def)
  moreover have "own_clear (P @ R) ?ld"
  proof -
    have "apart (snd p) ?ld" if p: "p \<in> set (P @ R)" "own (snd p) ld" for p
    proof (cases "p \<in> set P")
      case True
      with inv p e show ?thesis by (auto simp: adj_inv_def left_clear_def apart_def)
    next
      case False
      with p own_right [OF v _ own_trans [OF p(2) own]] e show ?thesis by (auto simp: apart_def)
    qed
    then show ?thesis by (auto simp: own_clear_def o)
  qed
  moreover have "compat (snd p) ?ld" if p: "p \<in> set (P @ R)" "\<not> own (snd p) ld" "l_type ld \<noteq> F_UNLCK" for p
  proof (rule compat_join_right [OF _ _ own p(2) e(1)])
    show "compat (snd p) ld" using inv p by (auto simp: adj_inv_def others_ok_def)
    show "compat (snd p) e" using vok_pair(1,2) [OF v, of p] p compat_sym by (auto simp: before_def)
    show "l_start (snd p) \<le> l_end (snd p)" using entry_in [OF v, of p] p(1) by (auto simp: entry_ok_def)
  qed (use e in simp_all)
  then have "others_ok (P @ R) ?ld" by (simp add: others_ok_def o)
  moreover have "ins_ok (P @ R) ?ld ins"
    using ins_ok_delete [of P i e R ld ins] inv e(2) by (simp add: adj_inv_def ins_ok_len)
  moreover have "faithful v0 ld0 (P @ R) ?ld"
    unfolding faithful_def
  proof (intro allI)
    fix w b t
    note f = faithfulD [OF adj_inv_faithful [OF inv], of w b]
    have c: "covers ?ld b \<longleftrightarrow> covers ld b \<or> covers e b \<and> \<not> covers ld b"
      using e g by (auto simp: covers_def)
    have h: "holds (P @ (i, e) # R) w b t' \<longleftrightarrow> holds (P @ R) w b t' \<or> owner_of ld = w \<and> l_type ld = t' \<and> covers e b" for t'
      using own e(1) by (auto simp: own_iff covers_def)
    show "if w = owner_of ?ld \<and> covers ?ld b then covers ld0 b \<or> holds v0 w b (l_type ?ld)
        else holds (P @ R) w b t = holds v0 w b t"
    proof (cases "w = owner_of ld")
      case True
      with f [of "l_type ld"] f [of t] c show ?thesis unfolding h o by (simp split: if_splits) blast
    next
      case False
      with f [of t] show ?thesis unfolding h o by simp
    qed
  qed
  ultimately show ?thesis using vok_delete [OF v] by (simp add: adj_post_def)
qed

lemma case_join_left:
  assumes inv: "adj_inv v0 ld0 P ((i, e) # R) ld ins" and own: "own e ld"
    and e: "l_type e = l_type ld" "l_start e < l_start ld" "l_start ld \<le> l_end e + 1" "l_end e \<le> l_end ld"
  shows "adj_inv v0 ld0 P R (ld\<lparr>l_start := l_start e\<rparr>) (vprev i (P @ (i, e) # R))"
proof -
  let ?ld = "ld\<lparr>l_start := l_start e\<rparr>"
  have v: "vok (P @ (i, e) # R)" using inv by (simp add: adj_inv_def)
  have o: "own a ?ld = own a ld" "owner_of ?ld = owner_of ld" for a by (simp_all add: own_def owner_of_def)
  have g: "l_start ld \<le> l_end ld" using inv by (simp add: adj_inv_def grown_def)
  have "0 \<le> l_start e" using entry_in [OF v, of "(i, e)"] by (simp add: entry_ok_def)
  then have "grown ld0 ?ld" using inv e by (simp add: adj_inv_def grown_def owner_of_def)
  moreover have "left_clear P ?ld"
    using own_left [OF v _ own_trans [OF _ own]] e(1) by (auto simp: left_clear_def o)
  moreover have "compat (snd p) ?ld" if p: "p \<in> set (P @ R)" "\<not> own (snd p) ld" "l_type ld \<noteq> F_UNLCK" for p
  proof (rule compat_join_left [OF _ _ own p(2) e(1)])
    show "compat (snd p) ld" using inv p by (auto simp: adj_inv_def others_ok_def)
    show "compat (snd p) e" using vok_pair(1,2) [OF v, of p] p compat_sym by (auto simp: before_def)
    show "l_start (snd p) \<le> l_end (snd p)" using entry_in [OF v, of p] p(1) by (auto simp: entry_ok_def)
  qed (use e in simp_all)
  then have "others_ok (P @ R) ?ld" by (simp add: others_ok_def o)
  moreover have "ins_ok (P @ R) ?ld (vprev i (P @ (i, e) # R))" by (rule ins_ok_prev [OF v]) simp
  moreover have "faithful v0 ld0 (P @ R) ?ld"
    unfolding faithful_def
  proof (intro allI)
    fix w b t
    note f = faithfulD [OF adj_inv_faithful [OF inv], of w b]
    have c: "covers ?ld b \<longleftrightarrow> covers ld b \<or> covers e b \<and> \<not> covers ld b"
      using e g by (auto simp: covers_def)
    have h: "holds (P @ (i, e) # R) w b t' \<longleftrightarrow> holds (P @ R) w b t' \<or> owner_of ld = w \<and> l_type ld = t' \<and> covers e b" for t'
      using own e(1) by (auto simp: own_iff covers_def)
    show "if w = owner_of ?ld \<and> covers ?ld b then covers ld0 b \<or> holds v0 w b (l_type ?ld)
        else holds (P @ R) w b t = holds v0 w b t"
    proof (cases "w = owner_of ld")
      case True
      with f [of "l_type ld"] f [of t] c show ?thesis unfolding h o by (simp split: if_splits) blast
    next
      case False
      with f [of t] show ?thesis unfolding h o by simp
    qed
  qed
  ultimately show ?thesis using vok_delete [OF v] by (simp add: adj_inv_def)
qed


text \<open>A lock of another mode that begins before the request is cut.\<close>

lemma own_cut [simp]: "own (e\<lparr>l_len := n\<rparr>) ld = own e ld" "own a (e\<lparr>l_len := n\<rparr>) = own a e"
  "own (e\<lparr>l_start := n\<rparr>) ld = own e ld" "own a (e\<lparr>l_start := n\<rparr>) = own a e"
  "owner_of (e\<lparr>l_len := n\<rparr>) = owner_of e" "owner_of (e\<lparr>l_start := n\<rparr>) = owner_of e"
  by (simp_all add: own_def owner_of_def)

lemma case_cut:
  assumes inv: "adj_inv v0 ld0 P ((i, e) # R) ld ins" and own: "own e ld"
    and e: "l_type e \<noteq> l_type ld" "l_start e < l_start ld" "l_start ld \<le> l_end e" "l_end e \<le> l_end ld"
  shows "adj_inv v0 ld0 (P @ [(i, e\<lparr>l_len := l_start ld - 1\<rparr>)]) R ld (Some i)"
proof -
  let ?e = "e\<lparr>l_len := l_start ld - 1\<rparr>"
  have v: "vok (P @ (i, e) # R)" using inv by (simp add: adj_inv_def)
  have "vok (P @ (i, ?e) # R)" by (rule vok_shrink [OF v]) (use e in simp_all)
  moreover have "left_clear (P @ [(i, ?e)]) ld" using inv e by (auto simp: adj_inv_def left_clear_def)
  moreover have "others_ok (P @ (i, ?e) # R) ld" using inv own by (auto simp: adj_inv_def others_ok_def)
  moreover have "ins_ok (P @ (i, ?e) # R) ld (Some i)" using e by (auto simp: ins_ok_def)
  moreover have "faithful v0 ld0 (P @ (i, ?e) # R) ld"
    unfolding faithful_def
  proof (intro allI)
    fix w b t
    note f = faithfulD [OF adj_inv_faithful [OF inv], of w b]
    show "if w = owner_of ld \<and> covers ld b then covers ld0 b \<or> holds v0 w b (l_type ld)
        else holds (P @ (i, ?e) # R) w b t = holds v0 w b t"
      using f [of t] own e by (auto simp: covers_def own_iff split: if_splits)
  qed
  ultimately show ?thesis using inv by (simp add: adj_inv_def)
qed

text \<open>One that goes past the end of the request leaves a piece behind it.\<close>

lemma ins_ok_piece:
  assumes "ins_ok (A @ B) ld ins" and "l_start ld \<le> l_start td"
  shows "ins_ok (A @ (j, td) # B) ld ins"
  using assms by (auto simp: ins_ok_def split: option.splits)

lemma case_piece:
  assumes inv: "adj_inv v0 ld0 P ((i, e) # R) ld ins" and own: "own e ld"
    and e: "l_type e \<noteq> l_type ld" "l_start e \<le> l_end ld" "l_end ld < l_end e"
    and M: "M = (if l_start e < l_start ld then [(i, e\<lparr>l_len := l_start ld - 1\<rparr>)] else [])"
    and AB: "A @ B = P @ M @ R" and j: "j \<notin> fst ` set (P @ (i, e) # R)"
    and A: "\<forall>p \<in> set A. l_start (snd p) \<le> l_end ld + 1" and B: "\<forall>p \<in> set B. l_end ld + 1 \<le> l_start (snd p)"
    and ins': "ins' = (if l_start e = l_start ld then vprev i (P @ (i, e) # R)
      else if l_start e < l_start ld then Some i else ins)"
  shows "adj_post v0 ld0 (A @ (j, e\<lparr>l_start := l_end ld + 1\<rparr>) # B) ld ins'"
proof -
  let ?e = "e\<lparr>l_len := l_start ld - 1\<rparr>" and ?td = "e\<lparr>l_start := l_end ld + 1\<rparr>"
  have v: "vok (P @ (i, e) # R)" using inv by (simp add: adj_inv_def)
  have g: "grown ld0 ld" "l_start ld \<le> l_end ld" "0 \<le> l_start ld" using inv by (auto simp: adj_inv_def grown_def)
  have vAB: "vok (A @ B)"
  proof (cases "l_start e < l_start ld")
    case True
    then show ?thesis unfolding AB M using vok_shrink [OF v, of "l_start ld - 1"] e g(2) by simp
  qed (use vok_delete [OF v] in \<open>simp add: AB M\<close>)
  have m: "p \<in> set M \<Longrightarrow> p = (i, ?e) \<and> l_start e < l_start ld" for p by (auto simp: M split: if_splits)
  have elem: "p \<in> set P \<or> p \<in> set R \<or> p \<in> set M" if "p \<in> set (A @ B)" for p
    using that unfolding AB by auto
  have outer: "compat (snd p) e" if "p \<in> set P \<or> p \<in> set R" for p
    using vok_pair(1,2) [OF v, of p] that compat_sym by (auto simp: before_def)
  have len: "p \<in> set P \<or> p \<in> set R \<Longrightarrow> l_start (snd p) \<le> l_end (snd p)" for p
    using entry_in [OF v, of p] by (auto simp: entry_ok_def)
  have "compat (snd p) ?td" if p: "p \<in> set (A @ B)" for p
  proof (cases "p \<in> set M")
    case True
    with m [OF this] g e show ?thesis by (simp add: compat_def apart_def own_def)
  next
    case False
    with outer [of p] len [of p] elem [OF p] e own_left [OF v, of p] own_right [OF v, of p] show ?thesis
      by (auto simp: compat_def apart_def)
  qed
  moreover have "entry_ok ?td" using entry_in [OF v, of "(i, e)"] e g by (simp add: entry_ok_def)
  moreover have "j \<notin> fst ` set (A @ B)" using j unfolding AB M by auto
  ultimately have "vok (A @ (j, ?td) # B)" using vok_insert [OF vAB, of ?td j] A B by simp
  moreover have "own_clear (A @ (j, ?td) # B) ld"
  proof -
    have "apart (snd p) ld" if p: "p \<in> set (A @ B)" "own (snd p) ld" for p
    proof (cases "p \<in> set M")
      case True
      with m [OF this] e show ?thesis by (simp add: apart_def)
    next
      case False
      with elem [OF p(1)] p(2) inv own_right [OF v, of p] own_trans [OF p(2) own] e show ?thesis
        by (auto simp: adj_inv_def left_clear_def apart_def)
    qed
    moreover have "apart ?td ld" using e by (simp add: apart_def)
    ultimately show ?thesis by (auto simp: own_clear_def)
  qed
  moreover have "others_ok (A @ (j, ?td) # B) ld"
  proof -
    have "compat (snd p) ld" if p: "p \<in> set (A @ B)" "\<not> own (snd p) ld" "l_type ld \<noteq> F_UNLCK" for p
      using elem [OF p(1)] p inv own m [of p] by (auto simp: adj_inv_def others_ok_def)
    then show ?thesis using own by (auto simp: others_ok_def)
  qed
  moreover have "ins_ok (A @ B) ld ins'"
  proof -
    consider "l_start e = l_start ld" | "l_start e < l_start ld" | "l_start ld < l_start e" by linarith
    then show ?thesis
    proof cases
      case 1
      with ins_ok_prev [OF v] show ?thesis by (simp add: AB M ins')
    next
      case 2
      then show ?thesis by (auto simp: AB M ins' ins_ok_def)
    next
      case 3
      with ins_ok_delete [of P i e R ld ins] inv show ?thesis by (simp add: AB M ins' adj_inv_def)
    qed
  qed
  then have "ins_ok (A @ (j, ?td) # B) ld ins'" by (rule ins_ok_piece) (use g in simp)
  moreover have "faithful v0 ld0 (A @ (j, ?td) # B) ld"
    unfolding faithful_def
  proof (intro allI)
    fix w b t
    note f = faithfulD [OF adj_inv_faithful [OF inv], of w b]
    have h: "holds (A @ (j, ?td) # B) w b t \<longleftrightarrow> holds P w b t \<or> holds R w b t
      \<or> owner_of e = w \<and> l_type e = t \<and> l_start e \<le> b \<and> b < l_start ld
      \<or> owner_of e = w \<and> l_type e = t \<and> l_end ld < b \<and> b \<le> l_end e"
    proof -
      have "holds (A @ (j, ?td) # B) w b t \<longleftrightarrow> holds (A @ B) w b t
          \<or> owner_of e = w \<and> l_type e = t \<and> l_end ld < b \<and> b \<le> l_end e" by auto
      then show ?thesis unfolding AB M by auto
    qed
    show "if w = owner_of ld \<and> covers ld b then covers ld0 b \<or> holds v0 w b (l_type ld)
        else holds (A @ (j, ?td) # B) w b t = holds v0 w b t"
      using f [of t] own e g(2) unfolding h by (auto simp: covers_def own_iff split: if_splits)
  qed
  ultimately show ?thesis using g(1) by (simp add: adj_post_def)
qed

text \<open>A lock of the request's mode over the whole of it: there is nothing to do.\<close>

lemma case_held:
  assumes inv: "adj_inv v0 ld0 P ((i, e) # R) ld ins" and v0: "vok v0" and own: "own e ld"
    and e: "l_type e = l_type ld" "l_start e \<le> l_start ld" "l_end ld \<le> l_end e"
  shows "overridden v0 ld0 (P @ (i, e) # R)"
  unfolding overridden_def
proof (intro allI)
  fix w b t
  let ?v = "P @ (i, e) # R"
  have v: "vok ?v" and g: "grown ld0 ld" using inv by (simp_all add: adj_inv_def)
  note f = faithfulD [OF adj_inv_faithful [OF inv], of w b t]
  have t: "l_type ld \<noteq> F_UNLCK" using entry_in [OF v, of "(i, e)"] e by (auto simp: entry_ok_def)
  have l: "owner_of ld0 = owner_of ld" "l_type ld0 = l_type ld" "covers ld0 b \<Longrightarrow> covers ld b"
    using g by (auto simp: grown_def covers_def)
  show "holds ?v w b t \<longleftrightarrow> (if w = owner_of ld0 \<and> covers ld0 b then t = l_type ld0 \<and> t \<noteq> F_UNLCK else holds v0 w b t)"
  proof (cases "w = owner_of ld \<and> covers ld b")
    case True
    then have "holds ?v w b (l_type ld)" using own e by (auto simp: covers_def own_iff)
    then have "holds ?v w b t \<longleftrightarrow> t = l_type ld" using holds_unique [OF v] by blast
    moreover have "holds v0 w b (l_type ld) \<Longrightarrow> holds v0 w b t \<longleftrightarrow> t = l_type ld" using holds_unique [OF v0] by blast
    ultimately show ?thesis using True f t l by auto
  next
    case False
    with f l show ?thesis by auto
  qed
qed

text \<open>The end: the request itself is put in.\<close>

lemma post_unlock:
  assumes post: "adj_post v0 ld0 v ld ins" and v0: "vok v0" and u: "l_type ld = F_UNLCK"
  shows "overridden v0 ld0 v"
  unfolding overridden_def
proof (intro allI)
  fix w b t
  have g: "grown ld0 ld" and c: "own_clear v ld" using post by (simp_all add: adj_post_def)
  note f = faithfulD [OF adj_post_faithful [OF post], of w b t]
  have l: "owner_of ld0 = owner_of ld" "l_type ld0 = l_type ld" "covers ld0 b \<Longrightarrow> covers ld b"
    using g by (auto simp: grown_def covers_def)
  have "\<not> holds v0 w b F_UNLCK" using holds_type [OF v0, of w b F_UNLCK] by auto
  moreover have "\<not> holds v w b t" if "w = owner_of ld \<and> covers ld b"
    using that c by (auto simp: own_clear_def holds_def covers_def own_iff apart_def)
  ultimately show "holds v w b t \<longleftrightarrow> (if w = owner_of ld0 \<and> covers ld0 b then t = l_type ld0 \<and> t \<noteq> F_UNLCK else holds v0 w b t)"
    using f l u by (auto split: if_splits)
qed

definition vput :: "nat \<times> eflock \<Rightarrow> nat option \<Rightarrow> vlist \<Rightarrow> vlist" where
  "vput p ins v = vins (map_option (\<lambda>i. vwalk i (l_start (snd p)) v) ins) p v"

lemma vput_split:
  assumes v: "vok v" and "ins_ok v ld ins" and "l_type ld \<noteq> F_UNLCK"
  shows "\<exists>A B. v = A @ B \<and> vput (j, ld) ins v = A @ (j, ld) # B
    \<and> (\<forall>x \<in> set A. l_start (snd x) \<le> l_start ld) \<and> (\<forall>x \<in> set B. l_start ld \<le> l_start (snd x))"
proof (cases ins)
  case None
  with assms(2,3) show ?thesis by (intro exI [of _ "[]"] exI [of _ v]) (simp add: vput_def ins_ok_def)
next
  case (Some i)
  with assms(2,3) obtain q where q: "q \<in> set v" "fst q = i" "l_start (snd q) \<le> l_start ld" by (auto simp: ins_ok_def)
  from vins_walk [OF v q(1,3), of "(j, ld)"] show ?thesis using q(2) Some by (simp add: vput_def)
qed

lemma post_put:
  assumes post: "adj_post v0 ld0 v ld ins" and v0: "vok v0" and m: "l_type ld = F_RDLCK \<or> l_type ld = F_WRLCK"
    and j: "j \<notin> fst ` set v"
  shows "vok (vput (j, ld) ins v) \<and> overridden v0 ld0 (vput (j, ld) ins v)"
proof -
  have v: "vok v" and g: "grown ld0 ld" and c: "own_clear v ld" and o: "others_ok v ld" and i: "ins_ok v ld ins"
    using post by (simp_all add: adj_post_def)
  have t: "l_type ld \<noteq> F_UNLCK" using m by auto
  obtain A B where AB: "v = A @ B" "vput (j, ld) ins v = A @ (j, ld) # B"
    and s: "\<forall>x \<in> set A. l_start (snd x) \<le> l_start ld" "\<forall>x \<in> set B. l_start ld \<le> l_start (snd x)"
    using vput_split [OF v i t] by blast
  have "compat (snd p) ld" if "p \<in> set v" for p
    using that c o t by (cases "own (snd p) ld") (auto simp: own_clear_def others_ok_def compat_def)
  moreover have "entry_ok ld" using g m by (auto simp: entry_ok_def grown_def)
  ultimately have vok: "vok (vput (j, ld) ins v)"
    unfolding AB(2) using v j s by (intro vok_insert) (auto simp: AB(1))
  have "overridden v0 ld0 (vput (j, ld) ins v)"
    unfolding overridden_def
  proof (intro allI)
    fix w b t
    note f = faithfulD [OF adj_post_faithful [OF post], of w b t]
    have l: "owner_of ld0 = owner_of ld" "l_type ld0 = l_type ld" "covers ld0 b \<Longrightarrow> covers ld b"
      using g by (auto simp: grown_def covers_def)
    have h: "holds (vput (j, ld) ins v) w b t \<longleftrightarrow> holds v w b t
        \<or> owner_of ld = w \<and> l_type ld = t \<and> covers ld b"
      unfolding AB(2) by (auto simp: AB(1) covers_def)
    have n: "\<not> holds v w b t" if "w = owner_of ld \<and> covers ld b"
      using that c by (auto simp: own_clear_def holds_def covers_def own_iff apart_def)
    have u: "holds v0 w b (l_type ld) \<Longrightarrow> holds v0 w b t \<longleftrightarrow> t = l_type ld" using holds_unique [OF v0] by blast
    show "holds (vput (j, ld) ins v) w b t
        \<longleftrightarrow> (if w = owner_of ld0 \<and> covers ld0 b then t = l_type ld0 \<and> t \<noteq> F_UNLCK else holds v0 w b t)"
      unfolding h using f l n u m by (auto split: if_splits)
  qed
  with vok show ?thesis by simp
qed

end
