(* ===== verification/ReclockStep.thy ===== *)
theory ReclockStep
  imports ReclockAdj
begin

text \<open>
  \<open>flckadj\<close> over the lists themselves: each step of the loop keeps the invariant of the
  adjustment, and the call overrides the map of the file, or fails with \<open>ENOLCK\<close>.
\<close>

unbundle bit_operations_syntax

section \<open>One step\<close>

text \<open>The adjustment has made the gnode's list \<open>v\<close>, and touched no other.\<close>

definition adj_at :: "nat \<Rightarrow> nat \<Rightarrow> locksys \<Rightarrow> vlist \<Rightarrow> adj \<Rightarrow> bool" where
  "adj_at n gp k0 v a \<longleftrightarrow> gp < length (gn_filocks k0) \<and> one_list n gp v k0 (a_k a)"

lemma adj_at_ld [simp]: "adj_at n gp k0 v (a\<lparr>a_ld := e\<rparr>) = adj_at n gp k0 v a"
  "adj_at n gp k0 v (a\<lparr>a_ins := j\<rparr>) = adj_at n gp k0 v a"
  by (simp_all add: adj_at_def)

lemma adj_at_gp: "adj_at n gp k0 v a \<Longrightarrow> gp < length (gn_filocks (a_k a))"
  using one_list_len by (fastforce simp: adj_at_def)

lemma adj_at_view: "adj_at n gp k0 v a \<Longrightarrow> views (a_k a) ! gp = v"
  using one_list_nth by (fastforce simp: adj_at_def)

lemma adj_at_list: "adj_at n gp k0 v a \<Longrightarrow> view (gn_filocks (a_k a) ! gp) = v"
  using views_nth [OF adj_at_gp] adj_at_view by metis

lemma adj_at_slots: "adj_at n gp k0 v a \<Longrightarrow> slots_ok n (a_k a)"
  by (simp add: adj_at_def one_list_def)

lemma wakeup_at [simp]:
  "a_ld (a_wakeup gp fl a) = a_ld a" "a_ins (a_wakeup gp fl a) = a_ins a"
  by (simp_all add: a_wakeup_def split: prod.splits)

lemma a_wakeup_at: "adj_at n gp k0 v a \<Longrightarrow> adj_at n gp k0 v (a_wakeup gp fl a)"
  using lock_wakeup_same [OF adj_at_gp, of n gp k0 v a n fl "a_rf a"]
  by (auto simp: adj_at_def a_wakeup_def split: prod.splits intro: one_list_same)

lemma delete_at [simp]:
  "a_ld (a_delete gp fl a) = a_ld a" "a_ins (a_delete gp fl a) = a_ins a"
  "a_ld (a_cut gp fl a) = a_ld a" "a_ins (a_cut gp fl a) = a_ins a"
  "a_ld (a_prev gp fl a) = a_ld a" "a_ld (a_here fl a) = a_ld a" "a_ins (a_here fl a) = Some (fl_id fl)"
  by (simp_all add: a_delete_def a_cut_def a_prev_def a_here_def)

lemma a_delete_at:
  assumes "adj_at n gp k0 v a" and "fl_id fl \<in> fst ` set v"
  shows "adj_at n gp k0 (filter (\<lambda>p. fst p \<noteq> fl_id fl) v) (a_delete gp fl a)"
  using delflck_one [OF adj_at_slots [OF assms(1)] adj_at_gp [OF assms(1)], of "fl_id fl"] assms
  by (auto simp: adj_at_view [OF assms(1)] adj_at_def a_delete_def intro: one_list_trans)

lemma a_cut_at:
  assumes "adj_at n gp k0 v a"
  shows "adj_at n gp k0 (vcut (fl_id fl) (l_start (a_ld a) - 1) v) (a_cut gp fl a)"
  using cut_one [OF adj_at_slots [OF assms(1)] adj_at_gp [OF assms(1)], of "fl_id fl" "l_start (a_ld a) - 1"] assms
  by (auto simp: adj_at_view [OF assms(1)] adj_at_def a_cut_def intro: one_list_trans)

lemma a_prev_at: "adj_at n gp k0 v a \<Longrightarrow> adj_at n gp k0 v (a_prev gp fl a)"
  by (simp add: a_prev_def)

lemma a_here_at: "adj_at n gp k0 v a \<Longrightarrow> adj_at n gp k0 v (a_here fl a)"
  by (simp add: a_here_def)

lemma a_prev_ins: "adj_at n gp k0 v a \<Longrightarrow> a_ins (a_prev gp fl a) = vprev (fl_id fl) v"
  by (simp add: a_prev_def prev_view adj_at_list)

lemma filter_at:
  assumes "distinct (map fst (P @ (i, e) # R))"
  shows "filter (\<lambda>p. fst p \<noteq> i) (P @ (i, e) # R) = P @ R"
proof -
  have "filter (\<lambda>p. fst p \<noteq> i) P = P" "filter (\<lambda>p. fst p \<noteq> i) R = R"
    using assms by (auto simp: filter_id_conv rev_image_eqI)
  then show ?thesis by simp
qed

lemma vcut_id: "i \<notin> fst ` set P \<Longrightarrow> vcut i n P = P"
  by (induction P) (auto simp: vcut_def)

lemma vcut_at:
  assumes "distinct (map fst (P @ (i, e) # R))"
  shows "vcut i n (P @ (i, e) # R) = P @ (i, e\<lparr>l_len := n\<rparr>) # R"
proof -
  have "vcut i n P = P" "vcut i n R = R" using assms by (auto intro!: vcut_id)
  then show ?thesis by (simp add: vcut_def)
qed

text \<open>What a step may come to.\<close>

definition step_post ::
    "nat \<Rightarrow> nat \<Rightarrow> locksys \<Rightarrow> vlist \<Rightarrow> eflock \<Rightarrow> vlist \<Rightarrow> adj_out \<Rightarrow> adj \<Rightarrow> bool" where
  "step_post n gp k0 v0 ld0 R out a \<longleftrightarrow>
     (case out of
        ANext \<Rightarrow> \<exists>P. adj_at n gp k0 (P @ R) a \<and> adj_inv v0 ld0 P R (a_ld a) (a_ins a)
      | AStop \<Rightarrow> \<exists>v. adj_at n gp k0 v a \<and> adj_post v0 ld0 v (a_ld a) (a_ins a)
      | ARet None \<Rightarrow> \<exists>v. adj_at n gp k0 v a \<and> vok v \<and> overridden v0 ld0 v
      | ARet (Some e) \<Rightarrow> e = ENOLCK \<and> (\<exists>v. adj_at n gp k0 v a \<and> vok v \<and> grown ld0 (a_ld a) \<and> faithful v0 ld0 v (a_ld a)))"

lemma step_next: "adj_at n gp k0 (P @ R) a \<Longrightarrow> adj_inv v0 ld0 P R (a_ld a) (a_ins a) \<Longrightarrow> step_post n gp k0 v0 ld0 R ANext a"
  by (auto simp: step_post_def)

lemma step_stop: "adj_at n gp k0 v a \<Longrightarrow> adj_post v0 ld0 v (a_ld a) (a_ins a) \<Longrightarrow> step_post n gp k0 v0 ld0 R AStop a"
  by (auto simp: step_post_def)

lemma adj_inv_skip:
  assumes inv: "adj_inv v0 ld0 P ((i, e) # R) ld ins"
    and "own e ld \<Longrightarrow> l_end e < l_start ld \<and> (l_type e = l_type ld \<longrightarrow> l_end e + 1 < l_start ld)"
  shows "adj_inv v0 ld0 (P @ [(i, e)]) R ld ins"
  using assms by (auto simp: adj_inv_def left_clear_def)

lemma adj_inv_here:
  assumes "adj_inv v0 ld0 P R ld ins" and "\<exists>p \<in> set (P @ R). fst p = i \<and> l_start (snd p) \<le> l_start ld"
  shows "adj_inv v0 ld0 P R ld (Some i)"
  using assms by (auto simp: adj_inv_def ins_ok_def)


lemma delete_step:
  assumes at: "adj_at n gp k0 (P @ (fl_id fl, e) # R) a" and v: "vok (P @ (fl_id fl, e) # R)"
  shows "adj_at n gp k0 (P @ R) (a_delete gp fl a)"
proof -
  have "distinct (map fst (P @ (fl_id fl, e) # R))" using v by (simp only: vok_def)
  from filter_at [OF this] a_delete_at [OF at, of fl] show ?thesis by (simp only:) simp
qed

lemma cut_step:
  assumes at: "adj_at n gp k0 (P @ (fl_id fl, e) # R) a" and v: "vok (P @ (fl_id fl, e) # R)"
  shows "adj_at n gp k0 (P @ (fl_id fl, e\<lparr>l_len := l_start (a_ld a) - 1\<rparr>) # R) (a_cut gp fl a)"
proof -
  have "distinct (map fst (P @ (fl_id fl, e) # R))" using v by (simp only: vok_def)
  from vcut_at [OF this] a_cut_at [OF at, of fl] show ?thesis by simp
qed

lemma inv_vok: "adj_inv v0 ld0 P R ld ins \<Longrightarrow> vok (P @ R)"
  by (simp add: adj_inv_def)

lemma inv_len: "adj_inv v0 ld0 P R ld ins \<Longrightarrow> l_start ld \<le> l_end ld"
  by (simp add: adj_inv_def grown_def)

text \<open>The lock is inside the request.\<close>

lemma step_inside:
  assumes at: "adj_at n gp k0 (P @ (fl_id fl, fset fl) # R) a"
    and inv: "adj_inv v0 ld0 P ((fl_id fl, fset fl) # R) (a_ld a) (a_ins a)"
    and v0: "vok v0" and own: "own (fset fl) (a_ld a)"
    and e: "l_start (a_ld a) \<le> l_start (fset fl)" "l_end (fset fl) \<le> l_end (a_ld a)"
    and st: "adj_step cf gp fl a = (out, a')"
  shows "step_post n gp k0 v0 ld0 R out a'"
proof -
  let ?e = "fset fl" and ?ld = "a_ld a"
  have v: "vok (P @ (fl_id fl, ?e) # R)" by (rule inv_vok [OF inv])
  have ee: "l_start ?e \<le> l_end ?e" using entry_in [OF v, of "(fl_id fl, ?e)"] by (simp add: entry_ok_def)
  let ?S = "if l_start ?ld = l_start ?e then SStart else SBefore" and ?E = "if l_end ?ld = l_end ?e then EEnd else EAfter"
  have reg: "regflck ?ld ?e = (?S, ?E)" using e ee by (simp add: regflck_def)
  let ?a = "a_wakeup gp fl (if ?S = SStart then a_prev gp fl a else a)"
  have at': "adj_at n gp k0 (P @ R) (a_delete gp fl ?a)"
    by (rule delete_step [OF _ v]) (auto intro: a_wakeup_at a_prev_at at)
  have inv': "adj_inv v0 ld0 P R ?ld (a_ins ?a)"
    by (rule case_inside [OF inv own e]) (simp add: a_prev_ins [OF at])
  have next_ok: "step_post n gp k0 v0 ld0 R ANext (a_delete gp fl ?a)"
    by (rule step_next [OF at']) (use inv' in \<open>auto split: if_splits\<close>)
  have res: "(out, a') = (if l_type ?ld = l_type ?e \<and> l_end ?ld = l_end ?e
      then (if l_start ?ld = l_start ?e then (ARet None, a) else (AStop, a_delete gp fl ?a))
      else (ANext, a_delete gp fl ?a))"
    unfolding st [symmetric] adj_step_def Let_def reg
    by (cases "l_start ?ld = l_start ?e"; cases "l_end ?ld = l_end ?e"; simp)
  consider "l_type ?ld = l_type ?e" "l_end ?ld = l_end ?e" "l_start ?ld = l_start ?e"
    | "l_type ?ld = l_type ?e" "l_end ?ld = l_end ?e" "l_start ?ld \<noteq> l_start ?e"
    | "\<not> (l_type ?ld = l_type ?e \<and> l_end ?ld = l_end ?e)" by blast
  then show ?thesis
  proof cases
    case 1
    then have "out = ARet None" "a' = a" using res by simp_all
    moreover have "overridden v0 ld0 (P @ (fl_id fl, ?e) # R)"
      by (rule case_held [OF inv v0 own]) (use 1 in simp_all)
    ultimately show ?thesis using at v by (auto simp: step_post_def)
  next
    case 2
    then have o: "out = AStop" "a' = a_delete gp fl ?a" using res by simp_all
    have "adj_post v0 ld0 (P @ R) ?ld (a_ins ?a)"
      by (rule inv_stop [OF inv']) (use own_right [OF v _ own_trans [OF _ own]] 2 in auto)
    then show ?thesis unfolding o by (intro step_stop [OF at']) (use 2 in simp)
  next
    case 3
    then have "out = ANext" "a' = a_delete gp fl ?a" using res by auto
    with next_ok show ?thesis by simp
  qed
qed

text \<open>The lock ends before the request, or begins after it.\<close>

lemma step_left:
  assumes at: "adj_at n gp k0 (P @ (fl_id fl, fset fl) # R) a"
    and inv: "adj_inv v0 ld0 P ((fl_id fl, fset fl) # R) (a_ld a) (a_ins a)"
    and own: "own (fset fl) (a_ld a)"
    and e: "l_start (fset fl) < l_start (a_ld a)" "l_end (fset fl) < l_start (a_ld a)"
    and st: "adj_step cf gp fl a = (out, a')"
  shows "step_post n gp k0 v0 ld0 R out a'"
proof -
  let ?e = "fset fl" and ?ld = "a_ld a"
  have v: "vok (P @ (fl_id fl, ?e) # R)" by (rule inv_vok [OF inv])
  show ?thesis
  proof (cases "l_end ?e + 1 = l_start ?ld")
    case True
    then have reg: "regflck ?ld ?e = (SEnd, EAfter)" using e by (simp add: regflck_def)
    show ?thesis
    proof (cases "l_type ?ld = l_type ?e")
      case same: True
      let ?a1 = "a\<lparr>a_ld := ?ld\<lparr>l_start := l_start ?e\<rparr>\<rparr>"
      let ?a = "a_wakeup gp fl (a_prev gp fl ?a1)"
      have at1: "adj_at n gp k0 (P @ (fl_id fl, ?e) # R) ?a1" using at by simp
      have o: "out = ANext" "a' = a_delete gp fl ?a" using st same unfolding adj_step_def Let_def reg by auto
      have "adj_inv v0 ld0 P R (?ld\<lparr>l_start := l_start ?e\<rparr>) (vprev (fl_id fl) (P @ (fl_id fl, ?e) # R))"
        by (rule case_join_left [OF inv own]) (use same True e inv_len [OF inv] in simp_all)
      moreover have "adj_at n gp k0 (P @ R) (a_delete gp fl ?a)"
        by (rule delete_step [OF _ v]) (intro a_wakeup_at a_prev_at at1)
      ultimately show ?thesis unfolding o by (intro step_next) (simp_all add: a_prev_ins [OF at1])
    next
      case False
      then have o: "out = ANext" "a' = a" using st unfolding adj_step_def Let_def reg by auto
      have "adj_inv v0 ld0 (P @ [(fl_id fl, ?e)]) R ?ld (a_ins a)"
        by (rule adj_inv_skip [OF inv]) (use False e in auto)
      with at show ?thesis unfolding o by (intro step_next [of _ _ _ "P @ [(fl_id fl, ?e)]"]) simp_all
    qed
  next
    case False
    then have reg: "regflck ?ld ?e = (SAfter, EAfter)" using e by (auto simp: regflck_def)
    have o: "out = ANext" "a' = a_here fl a" using st unfolding adj_step_def Let_def reg by auto
    have "adj_inv v0 ld0 (P @ [(fl_id fl, ?e)]) R ?ld (a_ins a)"
      by (rule adj_inv_skip [OF inv]) (use False e in auto)
    then have "adj_inv v0 ld0 (P @ [(fl_id fl, ?e)]) R ?ld (Some (fl_id fl))"
      by (rule adj_inv_here) (use e in simp)
    with a_here_at [OF at] show ?thesis unfolding o by (intro step_next [of _ _ _ "P @ [(fl_id fl, ?e)]"]) simp_all
  qed
qed

lemma step_right:
  assumes at: "adj_at n gp k0 (P @ (fl_id fl, fset fl) # R) a"
    and inv: "adj_inv v0 ld0 P ((fl_id fl, fset fl) # R) (a_ld a) (a_ins a)"
    and own: "own (fset fl) (a_ld a)" and e: "l_end (a_ld a) < l_start (fset fl)"
    and st: "adj_step cf gp fl a = (out, a')"
  shows "step_post n gp k0 v0 ld0 R out a'"
proof -
  let ?e = "fset fl" and ?ld = "a_ld a"
  have v: "vok (P @ (fl_id fl, ?e) # R)" by (rule inv_vok [OF inv])
  have ee: "l_start ?e \<le> l_end ?e" using entry_in [OF v, of "(fl_id fl, ?e)"] by (simp add: entry_ok_def)
  have ll: "l_start ?ld \<le> l_end ?ld" by (rule inv_len [OF inv])
  let ?E = "if l_end ?ld = l_start ?e - 1 then EStart else EBefore"
  have reg: "regflck ?ld ?e = (SBefore, ?E)" using e ee ll by (simp add: regflck_def)
  show ?thesis
  proof (cases "l_type ?ld = l_type ?e \<and> ?E = EStart")
    case True
    let ?a = "a_wakeup gp fl (a\<lparr>a_ld := ?ld\<lparr>l_len := l_end ?e\<rparr>\<rparr>)"
    have o: "out = AStop" "a' = a_delete gp fl ?a" using st True unfolding adj_step_def Let_def reg by auto
    have "adj_post v0 ld0 (P @ R) (?ld\<lparr>l_len := l_end ?e\<rparr>) (a_ins a)"
      by (rule case_join_right [OF inv own]) (use True e ee ll in \<open>auto split: if_splits\<close>)
    moreover have "adj_at n gp k0 (P @ R) (a_delete gp fl ?a)"
      by (rule delete_step [OF _ v], rule a_wakeup_at) (use at in simp)
    ultimately show ?thesis unfolding o by (intro step_stop) simp_all
  next
    case False
    then have o: "out = AStop" "a' = a" using st unfolding adj_step_def Let_def reg by (auto split: if_splits)
    have "adj_post v0 ld0 (P @ (fl_id fl, ?e) # R) ?ld (a_ins a)"
      by (rule inv_stop [OF inv])
        (use own_right [OF v _ own_trans [OF _ own]] e ee False in \<open>force split: if_splits\<close>)
    with at show ?thesis unfolding o by (rule step_stop)
  qed
qed

text \<open>The lock begins before the request and ends in it.\<close>

lemma step_over:
  assumes at: "adj_at n gp k0 (P @ (fl_id fl, fset fl) # R) a"
    and inv: "adj_inv v0 ld0 P ((fl_id fl, fset fl) # R) (a_ld a) (a_ins a)"
    and v0: "vok v0" and own: "own (fset fl) (a_ld a)"
    and e: "l_start (fset fl) < l_start (a_ld a)" "l_start (a_ld a) \<le> l_end (fset fl)" "l_end (fset fl) \<le> l_end (a_ld a)"
    and st: "adj_step cf gp fl a = (out, a')"
  shows "step_post n gp k0 v0 ld0 R out a'"
proof -
  let ?e = "fset fl" and ?ld = "a_ld a"
  let ?e' = "?e\<lparr>l_len := l_start ?ld - 1\<rparr>"
  have v: "vok (P @ (fl_id fl, ?e) # R)" by (rule inv_vok [OF inv])
  let ?E = "if l_end ?ld = l_end ?e then EEnd else EAfter"
  have reg: "regflck ?ld ?e = (SMiddle, ?E)" using e by (simp add: regflck_def)
  consider (held) "l_type ?ld = l_type ?e" "l_end ?ld = l_end ?e"
    | (join) "l_type ?ld = l_type ?e" "l_end ?ld \<noteq> l_end ?e" | (cut) "l_type ?ld \<noteq> l_type ?e" by blast
  then show ?thesis
  proof cases
    case held
    then have o: "out = ARet None" "a' = a" using st unfolding adj_step_def Let_def reg by simp_all
    have "overridden v0 ld0 (P @ (fl_id fl, ?e) # R)"
      by (rule case_held [OF inv v0 own]) (use held e in simp_all)
    then show ?thesis using at v o by (auto simp: step_post_def)
  next
    case join
    let ?a1 = "(a_wakeup gp fl a)\<lparr>a_ld := ?ld\<lparr>l_start := l_start ?e\<rparr>\<rparr>"
    have at1: "adj_at n gp k0 (P @ (fl_id fl, ?e) # R) ?a1" using a_wakeup_at [OF at] by simp
    have o: "out = ANext" "a' = a_delete gp fl (a_prev gp fl ?a1)"
      using st join unfolding adj_step_def Let_def reg by simp_all
    have "adj_inv v0 ld0 P R (?ld\<lparr>l_start := l_start ?e\<rparr>) (vprev (fl_id fl) (P @ (fl_id fl, ?e) # R))"
      by (rule case_join_left [OF inv own]) (use join e in simp_all)
    moreover have "adj_at n gp k0 (P @ R) (a_delete gp fl (a_prev gp fl ?a1))"
      by (rule delete_step [OF _ v]) (rule a_prev_at [OF at1])
    ultimately show ?thesis unfolding o by (intro step_next) (simp_all add: a_prev_ins [OF at1])
  next
    case cut
    let ?a1 = "if l_end ?ld = l_end ?e then a_wakeup gp fl (a_cut gp fl a) else a_cut gp fl (a_wakeup gp fl a)"
    have o: "out = ANext" "a' = a_here fl ?a1" using st cut unfolding adj_step_def Let_def reg by (auto split: if_splits)
    have "adj_at n gp k0 (P @ (fl_id fl, ?e') # R) ?a1"
      using a_wakeup_at [OF cut_step [OF at v]] cut_step [OF a_wakeup_at [OF at] v] by simp
    then have "adj_at n gp k0 ((P @ [(fl_id fl, ?e')]) @ R) (a_here fl ?a1)" using a_here_at by simp
    moreover have "adj_inv v0 ld0 (P @ [(fl_id fl, ?e')]) R ?ld (Some (fl_id fl))"
      by (rule case_cut [OF inv own]) (use cut e in simp_all)
    ultimately show ?thesis unfolding o by (intro step_next [of _ _ _ "P @ [(fl_id fl, ?e')]"]) simp_all
  qed
qed

text \<open>The lock goes past the end of the request.\<close>

lemma vcut_app: "vcut i m (A @ B) = vcut i m A @ vcut i m B"
  by (simp add: vcut_def)

lemma piece_at:
  assumes at: "adj_at (nflox_max cf) gp k0 (P @ (fl_id fl, e) # R) a" and v: "vok (P @ (fl_id fl, e) # R)"
    and td: "l_start e \<le> l_start td"
    and ins: "insflck cf (GnLocks gp) td (Some (walk (fl_id fl) (l_start td) (gn_filocks (a_k a) ! gp))) (a_k a) = (k, Some j)"
  shows "\<exists>A B. adj_at (nflox_max cf) gp k0 (A @ (j, td) # B) (a\<lparr>a_k := k\<rparr>) \<and> A @ B = P @ (fl_id fl, e) # R
    \<and> j \<notin> fst ` set (P @ (fl_id fl, e) # R)
    \<and> (\<forall>p \<in> set A. l_start (snd p) \<le> l_start td) \<and> (\<forall>p \<in> set B. l_start td \<le> l_start (snd p))"
proof -
  let ?v = "P @ (fl_id fl, e) # R"
  note vw = adj_at_view [OF at] adj_at_list [OF at]
  have w: "walk (fl_id fl) (l_start td) (gn_filocks (a_k a) ! gp) = vwalk (fl_id fl) (l_start td) ?v"
    by (simp add: walk_view vw)
  have one: "one_list (nflox_max cf) gp (vins (Some (vwalk (fl_id fl) (l_start td) ?v)) (j, td) ?v) (a_k a) k"
    and j: "j \<notin> fst ` set ?v"
    using insflck_one [OF ins adj_at_slots [OF at] adj_at_gp [OF at]] unfolding w vw(1) by simp_all
  obtain A B where AB: "?v = A @ B" "vins (Some (vwalk (fl_id fl) (l_start td) ?v)) (j, td) ?v = A @ (j, td) # B"
    "\<forall>x \<in> set A. l_start (snd x) \<le> l_start td" "\<forall>x \<in> set B. l_start td \<le> l_start (snd x)"
    using vins_walk [OF v, of "(fl_id fl, e)" "l_start td" "(j, td)"] td by auto
  have "adj_at (nflox_max cf) gp k0 (A @ (j, td) # B) (a\<lparr>a_k := k\<rparr>)"
    using at one unfolding AB(2) by (auto simp: adj_at_def intro: one_list_trans)
  with AB(1,3,4) j show ?thesis by (intro exI [of _ A] exI [of _ B]) simp
qed

lemma step_past:
  assumes at: "adj_at n gp k0 (P @ (fl_id fl, fset fl) # R) a" and n: "n = nflox_max cf"
    and inv: "adj_inv v0 ld0 P ((fl_id fl, fset fl) # R) (a_ld a) (a_ins a)"
    and v0: "vok v0" and own: "own (fset fl) (a_ld a)"
    and e: "l_start (fset fl) \<le> l_end (a_ld a)" "l_end (a_ld a) < l_end (fset fl)"
    and st: "adj_step cf gp fl a = (out, a')"
  shows "step_post n gp k0 v0 ld0 R out a'"
proof -
  let ?e = "fset fl" and ?ld = "a_ld a" and ?i = "fl_id fl"
  let ?v = "P @ (?i, ?e) # R"
  have v: "vok ?v" by (rule inv_vok [OF inv])
  have d: "distinct (map fst ?v)" using v by (simp only: vok_def)
  have ll: "l_start ?ld \<le> l_end ?ld" by (rule inv_len [OF inv])
  let ?S = "if l_start ?ld > l_start ?e then SMiddle else if l_start ?ld = l_start ?e then SStart else SBefore"
  have reg: "regflck ?ld ?e = (?S, EMiddle)" using e ll by (simp add: regflck_def)
  let ?a = "if l_start ?ld = l_start ?e then a_prev gp fl a else a"
  have at1: "adj_at n gp k0 ?v ?a" using at a_prev_at by simp
  have ld1 [simp]: "a_ld ?a = ?ld" by simp
  consider (held) "l_type ?ld = l_type ?e" "l_start ?e \<le> l_start ?ld"
    | (join) "l_type ?ld = l_type ?e" "l_start ?ld < l_start ?e" | (piece) "l_type ?ld \<noteq> l_type ?e" by linarith
  then show ?thesis
  proof cases
    case held
    have "adj_step cf gp fl a = (ARet None, ?a)"
      unfolding adj_step_def Let_def reg
      by (cases "l_start ?ld = l_start ?e") (use held in auto)
    then have o: "out = ARet None" "a' = ?a" using st by simp_all
    have "overridden v0 ld0 ?v" by (rule case_held [OF inv v0 own]) (use held e in simp_all)
    then show ?thesis using at1 v o by (auto simp: step_post_def)
  next
    case join
    let ?a1 = "a_wakeup gp fl (a\<lparr>a_ld := ?ld\<lparr>l_len := l_end ?e\<rparr>\<rparr>)"
    have o: "out = AStop" "a' = a_delete gp fl ?a1"
      using st join unfolding adj_step_def Let_def reg by auto
    have "adj_post v0 ld0 (P @ R) (?ld\<lparr>l_len := l_end ?e\<rparr>) (a_ins a)"
      by (rule case_join_right [OF inv own]) (use join e in simp_all)
    moreover have "adj_at n gp k0 (P @ R) (a_delete gp fl ?a1)"
      by (rule delete_step [OF _ v], rule a_wakeup_at) (use at in simp)
    ultimately show ?thesis unfolding o by (intro step_stop) simp_all
  next
    case piece
    let ?td = "?e\<lparr>l_start := l_end ?ld + 1\<rparr>"
    obtain k r where ins: "insflck cf (GnLocks gp) ?td (Some (walk ?i (l_start ?td) (gn_filocks (a_k ?a) ! gp))) (a_k ?a) = (k, r)"
      by fastforce
    let ?a1 = "a_wakeup gp fl (?a\<lparr>a_k := k\<rparr>)"
    have res: "adj_step cf gp fl a = (if r = None then (ARet (Some ENOLCK), ?a\<lparr>a_k := k\<rparr>)
        else (AStop, if l_start ?e < l_start ?ld then a_here fl (a_cut gp fl ?a1) else a_delete gp fl ?a1))"
      unfolding adj_step_def Let_def reg using piece ins
      by (cases "l_start ?ld = l_start ?e"; cases "l_start ?e < l_start ?ld"; simp)
    show ?thesis
    proof (cases r)
      case None
      then have o: "out = ARet (Some ENOLCK)" "a' = ?a\<lparr>a_k := k\<rparr>" using res st by simp_all
      have "adj_at n gp k0 ?v (?a\<lparr>a_k := k\<rparr>)"
        using insflck_none [OF ins [unfolded None]] adj_at_slots [OF at1] at1
        by (auto simp: adj_at_def n intro: one_list_same)
      moreover have "grown ld0 ?ld" "faithful v0 ld0 ?v ?ld" using inv by (simp_all only: adj_inv_def)
      ultimately show ?thesis using v o by (auto simp: step_post_def)
    next
      case (Some j)
      obtain A B where AB: "adj_at n gp k0 (A @ (j, ?td) # B) (?a\<lparr>a_k := k\<rparr>)" "A @ B = ?v" "j \<notin> fst ` set ?v"
        "\<forall>p \<in> set A. l_start (snd p) \<le> l_end ?ld + 1" "\<forall>p \<in> set B. l_end ?ld + 1 \<le> l_start (snd p)"
        using piece_at [OF at1 [unfolded n] v _ ins [unfolded Some]] e n by auto
      have at2: "adj_at n gp k0 (A @ (j, ?td) # B) ?a1" by (rule a_wakeup_at [OF AB(1)])
      have ji: "j \<noteq> ?i" using AB(3) by auto
      have ins': "a_ins ?a = (if l_start ?e = l_start ?ld then vprev ?i ?v else a_ins a)" by (simp add: a_prev_ins [OF at])
      show ?thesis
      proof (cases "l_start ?e < l_start ?ld")
        case True
        let ?m = "l_start ?ld - 1"
        have o: "out = AStop" "a' = a_here fl (a_cut gp fl ?a1)" using res st Some True by simp_all
        have "vcut ?i ?m (A @ (j, ?td) # B) = vcut ?i ?m A @ (j, ?td) # vcut ?i ?m B"
          using ji by (simp add: vcut_app) (simp add: vcut_def)
        then have "adj_at n gp k0 (vcut ?i ?m A @ (j, ?td) # vcut ?i ?m B) (a_here fl (a_cut gp fl ?a1))"
          using a_here_at [OF a_cut_at [OF at2, of fl]] by simp
        moreover have "adj_post v0 ld0 (vcut ?i ?m A @ (j, ?td) # vcut ?i ?m B) ?ld (Some ?i)"
        proof (rule case_piece [OF inv own _ e refl _ AB(3)])
          show "vcut ?i ?m A @ vcut ?i ?m B = P @ (if l_start ?e < l_start ?ld then [(?i, ?e\<lparr>l_len := ?m\<rparr>)] else []) @ R"
            using vcut_at [OF d, of ?m] True by (simp flip: vcut_app AB(2))
        qed (use piece True AB(4,5) in \<open>auto simp: vcut_def\<close>)
        ultimately show ?thesis unfolding o by (intro step_stop) simp_all
      next
        case False
        let ?f = "filter (\<lambda>p. fst p \<noteq> ?i)"
        have o: "out = AStop" "a' = a_delete gp fl ?a1" using res st Some False by simp_all
        have "(?i, ?e) \<in> set (A @ B)" unfolding AB(2) by simp
        then have "?i \<in> fst ` set (A @ (j, ?td) # B)" by force
        then have "adj_at n gp k0 (?f A @ (j, ?td) # ?f B) (a_delete gp fl ?a1)"
          using a_delete_at [OF at2, of fl] ji by simp
        moreover have "adj_post v0 ld0 (?f A @ (j, ?td) # ?f B) ?ld (a_ins ?a)"
        proof (rule case_piece [OF inv own _ e refl _ AB(3)])
          show "?f A @ ?f B = P @ (if l_start ?e < l_start ?ld then [(?i, ?e\<lparr>l_len := l_start ?ld - 1\<rparr>)] else []) @ R"
            using filter_at [OF d] False by (simp flip: filter_append AB(2))
        qed (use piece False AB(4,5) ins' in auto)
        ultimately show ?thesis unfolding o by (intro step_stop) simp_all
      qed
    qed
  qed
qed

section \<open>The loop and the call\<close>

lemma step_post_ok:
  assumes at: "adj_at n gp k0 (P @ (fl_id fl, fset fl) # R) a" and n: "n = nflox_max cf"
    and inv: "adj_inv v0 ld0 P ((fl_id fl, fset fl) # R) (a_ld a) (a_ins a)"
    and v0: "vok v0" and own: "own (fset fl) (a_ld a)"
    and st: "adj_step cf gp fl a = (out, a')"
  shows "step_post n gp k0 v0 ld0 R out a'"
proof -
  let ?e = "fset fl" and ?ld = "a_ld a"
  have "l_start ?e \<le> l_end ?e"
    using entry_in [OF inv_vok [OF inv], of "(fl_id fl, ?e)"] by (simp add: entry_ok_def)
  then consider "l_start ?ld \<le> l_start ?e" "l_end ?e \<le> l_end ?ld" | "l_start ?e < l_start ?ld" "l_end ?e < l_start ?ld"
    | "l_end ?ld < l_start ?e" | "l_start ?e < l_start ?ld" "l_start ?ld \<le> l_end ?e" "l_end ?e \<le> l_end ?ld"
    | "l_start ?e \<le> l_end ?ld" "l_end ?ld < l_end ?e" by linarith
  then show ?thesis
  proof cases
    case 1 then show ?thesis by (rule step_inside [OF at inv v0 own _ _ st])
  next
    case 2 then show ?thesis by (rule step_left [OF at inv own _ _ st])
  next
    case 3 then show ?thesis by (rule step_right [OF at inv own _ st])
  next
    case 4 then show ?thesis by (rule step_over [OF at inv v0 own _ _ _ st])
  next
    case 5 then show ?thesis by (rule step_past [OF at n inv v0 own _ _ st])
  qed
qed

lemma step_post_R: "out \<noteq> ANext \<Longrightarrow> step_post n gp k0 v0 ld0 R out a = step_post n gp k0 v0 ld0 R' out a"
  by (cases out) (simp_all add: step_post_def)

lemma adj_loop_post:
  assumes v0: "vok v0" and n: "n = nflox_max cf"
  shows "adj_at n gp k0 (P @ view fls) a \<Longrightarrow> adj_inv v0 ld0 P (view fls) (a_ld a) (a_ins a)
    \<Longrightarrow> adj_loop cf gp fls a = (out, a') \<Longrightarrow> out \<noteq> ANext \<and> step_post n gp k0 v0 ld0 [] out a'"
proof (induction fls arbitrary: P a)
  case Nil
  then show ?case using inv_stop [of v0 ld0 P "[]"] by (auto intro: step_stop)
next
  case (Cons fl fls)
  show ?case
  proof (cases "own (fset fl) (a_ld a)")
    case True
    obtain o1 a1 where st: "adj_step cf gp fl a = (o1, a1)" by fastforce
    have p: "step_post n gp k0 v0 ld0 (view fls) o1 a1"
      by (rule step_post_ok [OF _ n _ v0 True st, where P = P]) (use Cons.prems(1,2) in simp_all)
    show ?thesis
    proof (cases "o1 = ANext")
      case True
      with p obtain Q where "adj_at n gp k0 (Q @ view fls) a1" "adj_inv v0 ld0 Q (view fls) (a_ld a1) (a_ins a1)"
        by (auto simp: step_post_def)
      from Cons.IH [OF this] Cons.prems(3) \<open>own (fset fl) (a_ld a)\<close> st True show ?thesis by simp
    next
      case False
      then have "out = o1" "a' = a1" using Cons.prems(3) \<open>own (fset fl) (a_ld a)\<close> st by (cases o1; simp)+
      with p False step_post_R show ?thesis by blast
    qed
  next
    case False
    have "adj_inv v0 ld0 (P @ [(fl_id fl, fset fl)]) (view fls) (a_ld a) (a_ins a)"
      by (rule adj_inv_skip) (use Cons.prems(2) False in simp_all)
    then show ?thesis using Cons.IH [of "P @ [(fl_id fl, fset fl)]" a] Cons.prems(1,3) False by simp
  qed
qed

text \<open>Where the loop begins: after the locks in front of \<open>ins\<close>, which must be clear of the request.\<close>

definition front :: "nat option \<Rightarrow> vlist \<Rightarrow> vlist" where
  "front ins v = (case ins of None \<Rightarrow> [] | Some i \<Rightarrow> takeWhile (\<lambda>p. fst p \<noteq> i) v)"

definition request_ok :: "vlist \<Rightarrow> eflock \<Rightarrow> nat option \<Rightarrow> bool" where
  "request_ok v ld ins \<longleftrightarrow> 0 \<le> l_start ld \<and> l_start ld \<le> l_end ld
     \<and> (l_type ld = F_RDLCK \<or> l_type ld = F_WRLCK \<or> l_type ld = F_UNLCK)
     \<and> left_clear (front ins v) ld \<and> others_ok v ld \<and> ins_ok v ld ins"

lemma request_inv:
  assumes "vok v" and "request_ok v ld ins" and "front ins v @ R = v"
  shows "adj_inv v ld (front ins v) R ld ins"
  using assms by (auto simp: request_ok_def adj_inv_def grown_def faithful_def)

lemma calls_views: "views (k\<lparr>k_calls := c\<rparr>) = views k" "slots_ok n (k\<lparr>k_calls := c\<rparr>) = slots_ok n k"
  by (simp_all add: views_def slots_ok_def occ_def)

lemma flckadj_ok:
  assumes adj: "flckadj cf rrc gp ins ld rid k = (k', ld', rid', ret)"
    and gp: "gp < length (gn_filocks k)" and ok: "slots_ok (nflox_max cf) k"
    and v: "vok (views k ! gp)" and req: "request_ok (views k ! gp) ld ins"
  shows "\<exists>v. one_list (nflox_max cf) gp v k k' \<and> vok v \<and>
    (if ret = None then overridden (views k ! gp) ld v
     else ret = Some ENOLCK \<and> (\<forall>w b t. w \<noteq> owner_of ld \<longrightarrow> holds v w b t = holds (views k ! gp) w b t))"
proof -
  let ?v0 = "views k ! gp" and ?n = "nflox_max cf"
  let ?fls = "case ins of None \<Rightarrow> gn_filocks k ! gp | Some i \<Rightarrow> dropWhile (\<lambda>f. fl_id f \<noteq> i) (gn_filocks k ! gp)"
  let ?a0 = "\<lparr>a_ld = ld, a_ins = ins, a_rf = 0, a_k = k\<rparr>"
  have sp: "front ins ?v0 @ view ?fls = ?v0"
    by (cases ins) (simp_all add: front_def view_drop views_nth [OF gp])
  obtain out a where loop: "adj_loop cf gp ?fls ?a0 = (out, a)" by fastforce
  have "adj_at ?n gp k (front ins ?v0 @ view ?fls) ?a0"
    unfolding sp by (simp add: adj_at_def gp one_list_id [OF ok])
  moreover have "adj_inv ?v0 ld (front ins ?v0) (view ?fls) (a_ld ?a0) (a_ins ?a0)"
    using request_inv [OF v req sp] by simp
  ultimately have post: "out \<noteq> ANext" "step_post ?n gp k ?v0 ld [] out a"
    using adj_loop_post [OF v refl _ _ loop] by auto
  show ?thesis
  proof (cases out)
    case ANext
    with post show ?thesis by simp
  next
    case (ARet e)
    then have r: "k' = a_k a" "ret = e" using adj loop by (simp_all add: flckadj_def)
    show ?thesis
    proof (cases e)
      case None
      with ARet post r show ?thesis by (auto simp: step_post_def adj_at_def)
    next
      case (Some x)
      then obtain v1 where v1: "x = ENOLCK" "adj_at ?n gp k v1 a" "vok v1" "grown ld (a_ld a)" "faithful ?v0 ld v1 (a_ld a)"
        using post ARet by (auto simp: step_post_def)
      have "w \<noteq> owner_of ld \<longrightarrow> holds v1 w b t = holds ?v0 w b t" for w b t
        using faithfulD [OF v1(5), of w b t] v1(4) by (simp add: grown_def)
      with v1 r Some show ?thesis by (auto simp: adj_at_def)
    qed
  next
    case AStop
    then obtain v1 where at: "adj_at ?n gp k v1 a" and p: "adj_post ?v0 ld v1 (a_ld a) (a_ins a)"
      using post by (auto simp: step_post_def)
    have g: "grown ld (a_ld a)" "vok v1" using p by (simp_all add: adj_post_def)
    have t: "l_type (a_ld a) = l_type ld" using g by (simp add: grown_def)
    show ?thesis
    proof (cases "l_type ld = F_UNLCK")
      case True
      then have "views k' = views (a_k a)" "slots_ok ?n k' = slots_ok ?n (a_k a)" "ret = None"
        using adj loop AStop t
        by (auto simp: flckadj_def calls_views Let_def split: if_splits)
      then show ?thesis using at g(2) post_unlock [OF p v] True t
        by (auto simp: adj_at_def one_list_def)
    next
      case False
      then have m: "l_type (a_ld a) = F_RDLCK \<or> l_type (a_ld a) = F_WRLCK" using req t by (auto simp: request_ok_def)
      let ?pos = "map_option (\<lambda>i. walk i (l_start (a_ld a)) (gn_filocks (a_k a) ! gp)) (a_ins a)"
      obtain k1 r where ins: "insflck cf (GnLocks gp) (a_ld a) ?pos (a_k a) = (k1, r)" by fastforce
      have r: "views k' = views k1" "slots_ok ?n k' = slots_ok ?n k1" "ret = (if r = None then Some ENOLCK else None)"
        using adj loop AStop t False ins
        by (auto simp: flckadj_def calls_views Let_def split: if_splits)
      show ?thesis
      proof (cases r)
        case None
        have "one_list ?n gp v1 k k1"
          using insflck_none [OF ins [unfolded None] adj_at_slots [OF at]] at by (auto simp: adj_at_def intro: one_list_same)
        then have "one_list ?n gp v1 k k'" using r by (simp add: one_list_def)
        moreover have "w \<noteq> owner_of ld \<longrightarrow> holds v1 w b t = holds ?v0 w b t" for w b t
          using faithfulD [OF adj_post_faithful [OF p], of w b t] g(1) by (simp add: grown_def)
        ultimately show ?thesis using g(2) r None by auto
      next
        case (Some j)
        have vins: "one_list ?n gp (vput (j, a_ld a) (a_ins a) v1) (a_k a) k1" "j \<notin> fst ` set v1"
          using insflck_one [OF ins [unfolded Some] adj_at_slots [OF at] adj_at_gp [OF at]]
          by (simp_all add: adj_at_view [OF at] vput_def walk_view adj_at_list [OF at])
        then have "one_list ?n gp (vput (j, a_ld a) (a_ins a) v1) k k'"
          using at r by (auto simp: adj_at_def one_list_def)
        then show ?thesis using post_put [OF p v m vins(2)] r Some by auto
      qed
    qed
  qed
qed

end
