(* ===== verification/ReclockCalls.thy ===== *)
theory ReclockCalls
  imports ReclockStep
begin

text \<open>
  The calls: \<open>blocked\<close> finds a conflicting lock exactly when there is one, so that what
  \<open>common_reclock\<close> hands to \<open>flckadj\<close> is fit to be adjusted, and the lists of all files stay
  well formed over any run of calls and wakeups.
\<close>

unbundle bit_operations_syntax

section \<open>blocked\<close>

text \<open>A lock of another owner that overlaps the request, one of the two for writing.\<close>

definition blocks :: "eflock \<Rightarrow> eflock \<Rightarrow> bool" where
  "blocks e ld \<longleftrightarrow> \<not> own e ld \<and> l_start e \<le> l_end ld \<and> l_start ld \<le> l_end e \<and> conflicts e ld"

abbreviation by_start :: "vlist \<Rightarrow> bool" where
  "by_start v \<equiv> sorted_wrt (\<lambda>p q. l_start (snd p) \<le> l_start (snd q)) v"

lemma vok_by_start: "vok v \<Longrightarrow> by_start v"
  unfolding vok_def by (auto simp: before_def intro: sorted_wrt_mono_rel [of _ before])

text \<open>The locks the first loop passes are no obstacle, and end well before the request if they are the caller's.\<close>

definition passed :: "eflock \<Rightarrow> vlist \<Rightarrow> bool" where
  "passed ld Q \<longleftrightarrow> (\<forall>p \<in> set Q. l_start (snd p) < l_start ld \<and> (own (snd p) ld \<longrightarrow> l_end (snd p) + 1 < l_start ld)
     \<and> (\<not> own (snd p) ld \<longrightarrow> \<not> (l_start ld \<le> l_end (snd p) \<and> conflicts (snd p) ld)))"

lemma blocked1_spec:
  "blocked1 fs ld ins = (r, rest, ins') \<Longrightarrow> \<exists>Q. fs = Q @ rest \<and> passed ld (view Q) \<and>
    (case r of
       Some f \<Rightarrow> f \<in> set fs \<and> l_start (fset f) < l_start ld \<and> l_start ld \<le> l_end (fset f) \<and> \<not> own (fset f) ld \<and> conflicts (fset f) ld
     | None \<Rightarrow>
         (case rest of [] \<Rightarrow> True | f # _ \<Rightarrow> l_start ld \<le> l_start (fset f)) \<and> ins' = (if Q = [] then ins else Some (fl_id (last Q)))
         \<or> (\<exists>f rs. rest = f # rs \<and> own (fset f) ld \<and> l_start (fset f) < l_start ld \<and> ins' = Some (fl_id f)))"
proof (induction fs arbitrary: ins)
  case Nil
  then show ?case by (auto simp: passed_def)
next
  case (Cons f fs)
  have stop: ?case if "blocked1 (f # fs) ld ins = (None, f # fs, ins)" "l_start ld \<le> l_start (fset f)"
    using that Cons.prems by (intro exI [of _ "[]"]) (auto simp: passed_def)
  have go: ?case if st: "blocked1 (f # fs) ld ins = blocked1 fs ld (Some (fl_id f))" and p: "passed ld [(fl_id f, fset f)]"
  proof -
    from Cons.IH [of "Some (fl_id f)"] Cons.prems st obtain Q where Q: "fs = Q @ rest" "passed ld (view Q)"
      "case r of
         Some f \<Rightarrow> f \<in> set fs \<and> l_start (fset f) < l_start ld \<and> l_start ld \<le> l_end (fset f) \<and> \<not> own (fset f) ld \<and> conflicts (fset f) ld
       | None \<Rightarrow>
           (case rest of [] \<Rightarrow> True | f # _ \<Rightarrow> l_start ld \<le> l_start (fset f)) \<and> ins' = (if Q = [] then Some (fl_id f) else Some (fl_id (last Q)))
           \<or> (\<exists>f rs. rest = f # rs \<and> own (fset f) ld \<and> l_start (fset f) < l_start ld \<and> ins' = Some (fl_id f))"
      by auto
    then show ?thesis using p
      by (intro exI [of _ "f # Q"]) (auto simp: passed_def split: option.splits)
  qed
  show ?case
  proof (cases "l_start (fset f) < l_start ld")
    case False
    then show ?thesis by (intro stop) simp_all
  next
    case lt: True
    show ?thesis
    proof (cases "own (fset f) ld")
      case True
      show ?thesis
      proof (cases "l_start ld - 1 \<le> l_end (fset f)")
        case True
        with lt \<open>own (fset f) ld\<close> Cons.prems show ?thesis by (intro exI [of _ "[]"]) (auto simp: passed_def)
      next
        case False
        with lt \<open>own (fset f) ld\<close> show ?thesis by (intro go) (simp_all add: passed_def)
      qed
    next
      case False
      show ?thesis
      proof (cases "l_start ld \<le> l_end (fset f) \<and> conflicts (fset f) ld")
        case True
        with lt False Cons.prems show ?thesis by (intro exI [of _ "[]"]) (auto simp: passed_def)
      next
        case F: False
        with lt False show ?thesis by (intro go) (auto simp: passed_def)
      qed
    qed
  qed
qed

lemma blocked2_spec:
  "by_start (view fs) \<Longrightarrow> (case blocked2 fs ld of
     None \<Rightarrow> \<forall>f \<in> set fs. \<not> blocks (fset f) ld | Some f \<Rightarrow> f \<in> set fs \<and> blocks (fset f) ld)"
proof (induction fs)
  case (Cons f fs)
  show ?case
  proof (cases "l_end ld < l_start (fset f)")
    case True
    then have "\<forall>g \<in> set (f # fs). l_end ld < l_start (fset g)"
      using Cons.prems by (auto simp: view_def)
    then show ?thesis using True by (auto simp: blocks_def)
  next
    case False
    with Cons show ?thesis by (auto simp: blocks_def split: option.splits)
  qed
qed simp

lemma passed_blocks: "passed ld Q \<Longrightarrow> p \<in> set Q \<Longrightarrow> \<not> blocks (snd p) ld"
  by (auto simp: passed_def blocks_def)

lemma blocked_iff:
  assumes v: "vok (view fs)" and l: "l_start ld \<le> l_end ld"
  shows "case fst (blocked fs ld) of
      None \<Rightarrow> \<forall>f \<in> set fs. \<not> blocks (fset f) ld | Some f \<Rightarrow> f \<in> set fs \<and> blocks (fset f) ld"
proof -
  obtain r rest ins where b1: "blocked1 fs ld None = (r, rest, ins)" using prod_cases3 by blast
  note b = blocked1_spec [OF b1]
  show ?thesis
  proof (cases r)
    case (Some f)
    with b l show ?thesis by (auto simp: blocked_def b1 blocks_def)
  next
    case None
    with b obtain Q where Q: "fs = Q @ rest" "passed ld (view Q)" by auto
    have s: "by_start (view rest)" using vok_by_start [OF v] unfolding Q(1) by (simp add: sorted_wrt_append)
    show ?thesis
    proof (cases "blocked2 rest ld")
      case N: None
      from blocked2_spec [OF s, of ld] N have "\<forall>f \<in> set rest. \<not> blocks (fset f) ld" by simp
      moreover have "\<forall>f \<in> set Q. \<not> blocks (fset f) ld"
        using passed_blocks [OF Q(2)] by (fastforce simp: view_def)
      ultimately have "\<forall>f \<in> set fs. \<not> blocks (fset f) ld" unfolding Q(1) by auto
      then show ?thesis using None N by (simp add: blocked_def b1)
    next
      case (Some f)
      with blocked2_spec [OF s, of ld] have "f \<in> set fs \<and> blocks (fset f) ld" unfolding Q(1) by auto
      then show ?thesis using None Some by (simp add: blocked_def b1)
    qed
  qed
qed

text \<open>With no obstacle the insertion point is right, and all in front of it is out of the way.\<close>

lemma not_blocks_compat:
  "entry_ok e \<Longrightarrow> l_type ld = F_RDLCK \<or> l_type ld = F_WRLCK \<Longrightarrow> \<not> own e ld \<Longrightarrow> \<not> blocks e ld \<Longrightarrow> compat e ld"
  by (auto simp: blocks_def compat_def conflicts_def entry_ok_def)

lemma passed_clear: "passed ld Q \<Longrightarrow> left_clear Q ld"
  by (auto simp: passed_def left_clear_def)

lemma passed_sub: "passed ld Q \<Longrightarrow> set Q' \<subseteq> set Q \<Longrightarrow> passed ld Q'"
  by (auto simp: passed_def)

lemma front_at:
  assumes "distinct (map fst (A @ q # B))"
  shows "front (Some (fst q)) (A @ q # B) = A"
  using assms by (simp add: front_def) (subst takeWhile_append2, auto intro: rev_image_eqI)

lemma blocked_request:
  assumes b: "blocked fs ld = (None, ins)" and v: "vok (view fs)"
    and ld: "0 \<le> l_start ld" "l_start ld \<le> l_end ld" "l_type ld = F_RDLCK \<or> l_type ld = F_WRLCK"
  shows "request_ok (view fs) ld ins"
proof -
  have "\<forall>f \<in> set fs. \<not> blocks (fset f) ld" using blocked_iff [OF v ld(2)] b by simp
  then have o: "others_ok (view fs) ld"
    using not_blocks_compat [OF _ ld(3)] entry_in [OF v] by (fastforce simp: others_ok_def view_def)
  have d: "distinct (map fst (view fs))" using v by (simp only: vok_def)
  obtain r rest ins1 where b1: "blocked1 fs ld None = (r, rest, ins1)" using prod_cases3 by blast
  have r: "r = None" "ins1 = ins" using b b1 by (auto simp: blocked_def split: option.splits)
  with blocked1_spec [OF b1] obtain Q where Q: "fs = Q @ rest" "passed ld (view Q)"
    and e: "(case rest of [] \<Rightarrow> True | f # _ \<Rightarrow> l_start ld \<le> l_start (fset f)) \<and> ins = (if Q = [] then None else Some (fl_id (last Q)))
      \<or> (\<exists>f rs. rest = f # rs \<and> own (fset f) ld \<and> l_start (fset f) < l_start ld \<and> ins = Some (fl_id f))" by auto
  have "left_clear (front ins (view fs)) ld \<and> ins_ok (view fs) ld ins"
    using e
  proof (elim disjE exE conjE)
    fix f rs assume f: "rest = f # rs" "own (fset f) ld" "l_start (fset f) < l_start ld" "ins = Some (fl_id f)"
    have "front ins (view fs) = view Q"
      using front_at [of "view Q" "(fl_id f, fset f)" "view rs"] d f Q(1) by simp
    then show ?thesis using passed_clear [OF Q(2)] f Q(1) by (auto simp: ins_ok_def)
  next
    assume rest: "case rest of [] \<Rightarrow> True | f # _ \<Rightarrow> l_start ld \<le> l_start (fset f)"
      and ins: "ins = (if Q = [] then None else Some (fl_id (last Q)))"
    show ?thesis
    proof (cases "Q = []")
      case True
      have "\<forall>p \<in> set (view fs). l_start ld \<le> l_start (snd p)"
        using rest vok_by_start [OF v] unfolding True Q(1) by (cases rest) auto
      then show ?thesis using True ins by (simp add: front_def left_clear_def ins_ok_def)
    next
      case False
      let ?q = "last Q"
      have sp: "view fs = view (butlast Q) @ (fl_id ?q, fset ?q) # view rest"
        using False Q(1) by (metis append.assoc append_Cons append_Nil append_butlast_last_id view_simps)
      have "front ins (view fs) = view (butlast Q)"
        using front_at [of "view (butlast Q)" "(fl_id ?q, fset ?q)" "view rest"] d False ins unfolding sp by simp
      moreover have "set (view (butlast Q)) \<subseteq> set (view Q)" by (auto simp: view_def dest: in_set_butlastD)
      ultimately have "left_clear (front ins (view fs)) ld" using passed_clear passed_sub [OF Q(2)] by simp
      moreover have "(fl_id ?q, fset ?q) \<in> set (view Q)" using False by (simp add: view_def)
      then have "l_start (fset ?q) < l_start ld" using Q(2) by (auto simp: passed_def)
      then have "ins_ok (view fs) ld ins" using False ins unfolding sp by (auto simp: ins_ok_def)
      ultimately show ?thesis by simp
    qed
  qed
  with o ld show ?thesis by (auto simp: request_ok_def)
qed

text \<open>Unlocking begins with the first lock of the file.\<close>

lemma unlock_request:
  assumes ld: "0 \<le> l_start ld" "l_start ld \<le> l_end ld" "l_type ld = F_UNLCK"
  shows "request_ok (view fs) ld (case fs of [] \<Rightarrow> None | f # _ \<Rightarrow> Some (fl_id f))"
  using ld by (cases fs) (auto simp: request_ok_def front_def left_clear_def others_ok_def ins_ok_def)

section \<open>The calls\<close>

definition reclock_ok :: "nat \<Rightarrow> nat \<Rightarrow> locksys \<Rightarrow> bool" where
  "reclock_ok n ngn k \<longleftrightarrow> slots_ok n k \<and> length (gn_filocks k) = ngn \<and> (\<forall>v \<in> set (views k). vok v)"

definition span_ok :: "eflock \<Rightarrow> bool" where
  "span_ok ld \<longleftrightarrow> 0 \<le> l_start ld \<and> l_start ld \<le> l_end ld"

definition sleep_ok :: "nat \<Rightarrow> lock_sleep \<Rightarrow> bool" where
  "sleep_ok ngn z \<longleftrightarrow> q_gp (z_req z) < ngn \<and> span_ok (z_ld z)"

definition res_ok :: "nat \<Rightarrow> nat \<Rightarrow> lock_res \<Rightarrow> bool" where
  "res_ok n ngn res \<longleftrightarrow>
     (case res of LRet k _ _ _ \<Rightarrow> reclock_ok n ngn k | LSleep k z \<Rightarrow> reclock_ok n ngn k \<and> sleep_ok ngn z | LHang \<Rightarrow> True)"

lemma reclock_ok_same: "same_locks n k k' \<Longrightarrow> reclock_ok n ngn k \<Longrightarrow> reclock_ok n ngn k'"
  using length_views [of k] length_views [of k'] by (simp add: reclock_ok_def same_locks_def)

lemma reclock_ok_one: "one_list n gp v k k' \<Longrightarrow> vok v \<Longrightarrow> reclock_ok n ngn k \<Longrightarrow> reclock_ok n ngn k'"
  using one_list_len [of n gp v k k'] set_update_subset_insert [of "views k" gp v] by (auto simp: reclock_ok_def one_list_def)

lemma reclock_ok_vok: "reclock_ok n ngn k \<Longrightarrow> gp < ngn \<Longrightarrow> vok (views k ! gp)"
  by (simp add: reclock_ok_def length_views)

lemma reclock_end_k: "\<exists>ld'. reclock_end r whence ld rid ret k = LRet k ld' rid ret"
  unfolding reclock_end_def Let_def by blast

lemma res_end [simp]: "res_ok n ngn (reclock_end r whence ld rid ret k) = reclock_ok n ngn k"
  unfolding reclock_end_def Let_def res_ok_def lock_res.case by (rule refl)

lemma res_sleep: "res_ok n ngn (LSleep k z) = (reclock_ok n ngn k \<and> sleep_ok ngn z)" "res_ok n ngn LHang"
    "res_ok n ngn (LRet k ld' rid ret) = reclock_ok n ngn k"
  by (simp_all add: res_ok_def)

lemma mark_blocked_same:
  assumes "gp < length (gn_filocks k)"
  shows "same_locks n k (mark_blocked gp fl sf fcn k)"
proof -
  let ?k = "upd_entry (GnLocks gp) (fl_id fl) (\<lambda>f. f\<lparr>fstate := fstate f OR LCK_BLOCKER\<rparr>) k"
  have 1: "same_locks n k ?k" by (rule upd_entry_same) (use assms in \<open>simp_all add: is_list_def\<close>)
  show ?thesis unfolding mark_blocked_def Let_def
    by (rule same_locks_trans [OF 1], rule upd_entry_same) (simp_all add: is_list_def)
qed

text \<open>Going to sleep on the lock \<open>fl\<close> changes no lock of any file.\<close>

lemma blocked_sleep_same:
  assumes k: "reclock_ok (nflox_max cf) ngn k" and gp: "gp < ngn" and ins: "insflck cf SleepLocks ld None k = (k1, sf)"
  shows "same_locks (nflox_max cf) k k1"
    and "same_locks (nflox_max cf) k (mark_blocked gp fl i fcn k1)"
    and "same_locks (nflox_max cf) k
      (upd_entry (GnLocks gp) (fl_id fl) (\<lambda>f. f\<lparr>fevent := fevent f @ [t]\<rparr>) (mark_blocked gp fl i fcn k1))"
proof -
  show 1: "same_locks (nflox_max cf) k k1" using insflck_sleep [OF ins] k by (simp add: reclock_ok_def)
  have g1: "gp < length (gn_filocks k1)" using reclock_ok_same [OF 1 k] gp by (simp add: reclock_ok_def)
  show 2: "same_locks (nflox_max cf) k (mark_blocked gp fl i fcn k1)"
    by (rule same_locks_trans [OF 1 mark_blocked_same [OF g1]])
  show "same_locks (nflox_max cf) k
      (upd_entry (GnLocks gp) (fl_id fl) (\<lambda>f. f\<lparr>fevent := fevent f @ [t]\<rparr>) (mark_blocked gp fl i fcn k1))"
    by (rule same_locks_trans [OF 2], rule upd_entry_same)
      (use reclock_ok_same [OF 2 k] gp in \<open>simp_all add: is_list_def reclock_ok_def\<close>)
qed

lemma nfs_drop_same: "same_locks n k (nfs_drop ld sfs k)"
proof (induction ld sfs k rule: nfs_drop.induct)
  case (2 ld sf sfs k)
  then show ?case using delflck_sleep_same [of n k "fl_id sf"] by (auto intro: same_locks_trans)
qed simp

text \<open>A request that is put through: \<open>flckadj\<close> on the file, or only a look at it.\<close>

lemma adjust_ok:
  assumes k: "reclock_ok (nflox_max cf) ngn k" and gp: "gp < ngn"
    and req: "request_ok (view (gn_filocks k ! gp)) ld ins"
    and adj: "flckadj cf rrc gp ins ld rid k = (k', ld', rid', ret)"
  shows "reclock_ok (nflox_max cf) ngn k'"
proof -
  have g: "gp < length (gn_filocks k)" using k gp by (simp add: reclock_ok_def)
  from flckadj_ok [OF adj g] k reclock_ok_vok [OF k gp] req obtain v
    where "one_list (nflox_max cf) gp v k k'" "vok v" by (auto simp: reclock_ok_def views_nth [OF g])
  then show ?thesis using reclock_ok_one k by blast
qed

lemma reclock_body_ok:
  assumes k: "reclock_ok (nflox_max cf) ngn k" and gp: "q_gp r < ngn" and ld: "span_ok ld"
  shows "res_ok (nflox_max cf) ngn (reclock_body cf rrc r whence ld rid k)"
proof -
  let ?gp = "q_gp r" and ?n = "nflox_max cf"
  have g: "?gp < length (gn_filocks k)" using k gp by (simp add: reclock_ok_def)
  have v: "vok (view (gn_filocks k ! ?gp))" using reclock_ok_vok [OF k gp] by (simp add: views_nth [OF g])
  consider (lock) "l_type ld = F_RDLCK \<or> l_type ld = F_WRLCK" | (unlock) "l_type ld = F_UNLCK"
    | (bad) "\<not> (l_type ld = F_RDLCK \<or> l_type ld = F_WRLCK)" "l_type ld \<noteq> F_UNLCK" by blast
  then show ?thesis
  proof cases
    case bad
    then show ?thesis using k by (simp add: reclock_body_def Let_def)
  next
    case unlock
    obtain k' ld' rid' ret where adj: "flckadj cf rrc ?gp (case gn_filocks k ! ?gp of [] \<Rightarrow> None | f # _ \<Rightarrow> Some (fl_id f)) ld rid k
        = (k', ld', rid', ret)" using prod_cases4 by blast
    have "reclock_ok ?n ngn k'"
      by (rule adjust_ok [OF k gp unlock_request adj]) (use unlock ld in \<open>simp_all add: span_ok_def\<close>)
    moreover have "reclock_ok ?n ngn (nfs_drop ld (sleeplcks k) k)" by (rule reclock_ok_same [OF nfs_drop_same k])
    ultimately show ?thesis using k unlock adj by (simp add: reclock_body_def Let_def)
  next
    case lock
    obtain bl ins where b: "blocked (gn_filocks k ! ?gp) ld = (bl, ins)" by fastforce
    show ?thesis
    proof (cases bl)
      case None
      obtain k' ld' rid' ret where adj: "flckadj cf rrc ?gp ins ld rid k = (k', ld', rid', ret)" using prod_cases4 by blast
      have "reclock_ok ?n ngn k'"
        by (rule adjust_ok [OF k gp blocked_request [OF b [unfolded None] v] adj])
          (use lock ld in \<open>simp_all add: span_ok_def\<close>)
      then show ?thesis using k lock adj b None by (simp add: reclock_body_def Let_def)
    next
      case (Some fl)
      obtain k1 sf where ins: "insflck cf SleepLocks ld None k = (k1, sf)" by fastforce
      note same = blocked_sleep_same [OF k gp ins]
      show ?thesis
        using k lock b Some ins reclock_ok_same [OF same(1) k] reclock_ok_same [OF same(2) k] reclock_ok_same [OF same(3) k] gp ld
        by (auto simp: reclock_body_def Let_def res_sleep sleep_ok_def split: option.splits bool.splits)
    qed
  qed
qed

lemma convoff_start: "convoff sz off ld 0 = (None, ld') \<Longrightarrow> 0 \<le> l_start ld' \<and> l_len ld' = l_len ld \<and> l_whence ld' = 0
    \<and> l_type ld' = l_type ld \<and> owner_of ld' = owner_of ld"
  by (auto simp: convoff_def Let_def owner_of_def split: if_splits)

lemma common_reclock_ok:
  assumes k: "reclock_ok (nflox_max cf) ngn k" and gp: "q_gp r < ngn"
  shows "res_ok (nflox_max cf) ngn (common_reclock cf rrc r ld rid k)"
proof -
  obtain e ld1 where c: "convoff (q_size r) (q_off r) ld 0 = (e, ld1)" by fastforce
  show ?thesis
  proof (cases e)
    case None
    with convoff_start c have "0 \<le> l_start ld1" by blast
    then have "res_ok (nflox_max cf) ngn (reclock_body cf rrc r w (ld1\<lparr>l_len := n\<rparr>) rid k)"
      if "l_start ld1 \<le> n" for n w
      by (intro reclock_body_ok [OF k gp]) (use that in \<open>simp add: span_ok_def\<close>)
    then show ?thesis using None c k by (auto simp: common_reclock_def Let_def res_ok_def)
  qed (use c k in \<open>simp add: common_reclock_def res_ok_def\<close>)
qed

lemma reclock_wake_ok:
  assumes k: "reclock_ok (nflox_max cf) ngn k" and z: "sleep_ok ngn z"
  shows "res_ok (nflox_max cf) ngn (reclock_wake cf rrc sig z k)"
proof -
  let ?k1 = "upd_entry SleepLocks (z_sf z) (\<lambda>f. f\<lparr>b_pid := 0, b_sysid := 0, b_vfs := 0, filockp := None\<rparr>) k"
  have "same_locks (nflox_max cf) k ?k1" by (rule upd_entry_same) (simp_all add: is_list_def)
  from reclock_ok_same [OF same_locks_trans [OF this delflck_sleep_same] k]
  have 2: "reclock_ok (nflox_max cf) ngn (delflck SleepLocks (z_sf z) ?k1)" .
  then show ?thesis using reclock_body_ok [OF 2] z by (simp add: reclock_wake_def Let_def sleep_ok_def)
qed

end
