(* ===== verification/ReclockSlots.thy ===== *)
theory ReclockSlots
  imports ReclockCalls
begin

text \<open>
  Every entry that is unlinked is on the list it is unlinked from, so that \<open>delflck\<close> neither panics nor frees a slot twice: the flag
  \<open>k_bad\<close> stays off. The entries of sleeping threads are the delicate ones, as the thread unlinks its entry itself when it wakes; \<open>safe k i\<close> says
  that no one else will.
\<close>

unbundle bit_operations_syntax

section \<open>Entries that stay\<close>

definition safe :: "locksys \<Rightarrow> nat \<Rightarrow> bool" where
  "safe k i \<longleftrightarrow> (\<exists>f \<in> set (sleeplcks k). fl_id f = i \<and> retry_fcn f = 0 \<and> l_vfs (fset f) \<noteq> MNT_NFS)"

definition on_gn :: "nat \<Rightarrow> locksys \<Rightarrow> nat set" where
  "on_gn gp k = fl_id ` set (gn_filocks k ! gp)"

text \<open>From \<open>k\<close> to \<open>k'\<close> nothing went wrong, no safe entry was touched, and of the locks of \<open>gp\<close> only those in \<open>S\<close> may be gone.\<close>

definition tidy :: "nat \<Rightarrow> nat \<Rightarrow> nat set \<Rightarrow> locksys \<Rightarrow> locksys \<Rightarrow> bool" where
  "tidy n gp S k k' \<longleftrightarrow> slots_ok n k' \<and> length (gn_filocks k') = length (gn_filocks k) \<and> k_bad k' = k_bad k
     \<and> (\<forall>i. safe k i \<longrightarrow> safe k' i) \<and> on_gn gp k - S \<subseteq> on_gn gp k'"

lemma tidy_up: "tidy n gp {} k k' \<Longrightarrow> tidy n gp S k k'"
  by (auto simp: tidy_def)

lemma tidy_refl: "slots_ok n k \<Longrightarrow> tidy n gp S k k"
  by (auto simp: tidy_def)

lemma tidy_trans: "tidy n gp S k k1 \<Longrightarrow> tidy n gp S' k1 k2 \<Longrightarrow> tidy n gp (S \<union> S') k k2"
  by (auto simp: tidy_def)

lemma tidy_then: "tidy n gp S k k1 \<Longrightarrow> tidy n gp {} k1 k2 \<Longrightarrow> tidy n gp S k k2"
  using tidy_trans [of n gp S k k1 "{}" k2] by simp

lemma tidy_weak: "tidy n gp S k k' \<Longrightarrow> S \<subseteq> S' \<Longrightarrow> tidy n gp S' k k'"
  unfolding tidy_def by blast

lemma calmD:
  "tidy n gp S k k' \<Longrightarrow> slots_ok n k'" "tidy n gp S k k' \<Longrightarrow> length (gn_filocks k') = length (gn_filocks k)"
  "tidy n gp S k k' \<Longrightarrow> k_bad k' = k_bad k" "tidy n gp S k k' \<Longrightarrow> safe k i \<Longrightarrow> safe k' i"
  "tidy n gp S k k' \<Longrightarrow> i \<in> on_gn gp k \<Longrightarrow> i \<notin> S \<Longrightarrow> i \<in> on_gn gp k'"
  unfolding tidy_def by blast+

text \<open>Changes of fields that do not matter.\<close>

lemma tidy_gn_entry:
  assumes "slots_ok n k" and "gp < length (gn_filocks k)" and "\<And>f. fl_id (g f) = fl_id f"
  shows "tidy n gp {} k (upd_entry (GnLocks gp) i g k)"
proof -
  let ?h = "\<lambda>f. if fl_id f = i then g f else f"
  have l: "is_list (GnLocks gp) k" using assms(2) by (simp add: is_list_def)
  have "on_list j (map ?h (gn_filocks k ! gp)) = on_list j (gn_filocks k ! gp)" for j by (rule on_list_map) (simp add: assms(3))
  then have "occ (upd_entry (GnLocks gp) i g k) j = occ k j" for j
    using occ_set_list [OF l, of "map ?h (gn_filocks k ! gp)" j] by (simp add: upd_entry_def)
  then have "slots_ok n (upd_entry (GnLocks gp) i g k)" using assms(1) by (simp add: slots_ok_def upd_entry_def)
  moreover have "fl_id ` ?h ` A = fl_id ` A" for A using assms(3) by (simp only: image_image) (rule image_cong, simp_all)
  then have "on_gn gp (upd_entry (GnLocks gp) i g k) = on_gn gp k" using assms(2) by (simp only: on_gn_def upd_entry_def) simp
  ultimately show ?thesis by (simp add: tidy_def) (simp add: safe_def upd_entry_def)
qed

lemma sleep_entry_slots: "slots_ok n k \<Longrightarrow> (\<And>f. fl_id (g f) = fl_id f) \<Longrightarrow> slots_ok n (upd_entry SleepLocks i g k)"
  using upd_entry_same [of g SleepLocks k n i] by (simp add: same_locks_def is_list_def)

lemma sleep_entry_set: "set (sleeplcks (upd_entry SleepLocks i g k)) = (\<lambda>f. if fl_id f = i then g f else f) ` set (sleeplcks k)"
  by (simp add: upd_entry_def)

lemma tidy_sleep_entry:
  assumes "slots_ok n k" and g: "\<And>f. fl_id (g f) = fl_id f" "\<And>f. fset (g f) = fset f"
    and r: "(\<forall>f. retry_fcn (g f) = retry_fcn f) \<or> \<not> safe k i"
  shows "tidy n gp {} k (upd_entry SleepLocks i g k)"
proof -
  have "safe (upd_entry SleepLocks i g k) j" if "safe k j" for j
  proof -
    from that obtain f where f: "f \<in> set (sleeplcks k)" "fl_id f = j" "retry_fcn f = 0" "l_vfs (fset f) \<noteq> MNT_NFS" by (auto simp: safe_def)
    have "retry_fcn (if fl_id f = i then g f else f) = 0"
      using r f that by auto
    with f g show ?thesis unfolding safe_def sleep_entry_set by (intro bexI [of _ "if fl_id f = i then g f else f"]) auto
  qed
  then show ?thesis using sleep_entry_slots [OF assms(1) g(1)] by (simp add: tidy_def on_gn_def) (simp add: upd_entry_def)
qed

lemma tidy_calls [simp]: "tidy n gp S k (k'\<lparr>k_calls := c\<rparr>) = tidy n gp S k k'" "tidy n gp S k (k'\<lparr>recovf := x\<rparr>) = tidy n gp S k k'"
  by (simp_all add: tidy_def safe_def on_gn_def slots_ok_def occ_def)

section \<open>Unlinking\<close>

lemma delflck_on:
  assumes ok: "slots_ok n k" and l: "is_list l k" and f: "f \<in> set (get_list l k)" "fl_id f = i"
  shows "\<exists>g. delflck l i k = (set_list l (filter (\<lambda>f. fl_id f \<noteq> i) (get_list l k)) k)\<lparr>reccnt := reccnt k - 1, frlock := g # frlock k\<rparr>"
proof -
  have "i < v_lock k" using slots_bound [OF ok l f(1)] f(2) by simp
  moreover obtain g where "find (\<lambda>f. fl_id f = i) (get_list l k) = Some g"
    using f by (cases "find (\<lambda>f. fl_id f = i) (get_list l k)") (auto simp: find_None_iff)
  ultimately show ?thesis by (auto simp: delflck_def)
qed

lemma tidy_del_gn:
  assumes ok: "slots_ok n k" and gp: "gp < length (gn_filocks k)" and i: "i \<in> on_gn gp k"
  shows "tidy n gp {i} k (delflck (GnLocks gp) i k)"
proof -
  have l: "is_list (GnLocks gp) k" using gp by (simp add: is_list_def)
  from i obtain f where "f \<in> set (get_list (GnLocks gp) k)" "fl_id f = i" by (auto simp: on_gn_def)
  from delflck_on [OF ok l this] obtain g where "delflck (GnLocks gp) i k
      = (set_list (GnLocks gp) (filter (\<lambda>f. fl_id f \<noteq> i) (get_list (GnLocks gp) k)) k)\<lparr>reccnt := reccnt k - 1, frlock := g # frlock k\<rparr>" by blast
  then show ?thesis using delflck_occ [OF ok l, of i] gp by (auto simp: tidy_def safe_def on_gn_def)
qed

lemma del_sleep:
  assumes ok: "slots_ok n k" and f: "f \<in> set (sleeplcks k)" "fl_id f = i"
  shows "slots_ok n (delflck SleepLocks i k)" and "k_bad (delflck SleepLocks i k) = k_bad k"
    and "sleeplcks (delflck SleepLocks i k) = filter (\<lambda>f. fl_id f \<noteq> i) (sleeplcks k)"
    and "gn_filocks (delflck SleepLocks i k) = gn_filocks k"
proof -
  have l: "is_list SleepLocks k" by (simp add: is_list_def)
  from delflck_on [OF ok l, of f i] f obtain g where "delflck SleepLocks i k
      = (set_list SleepLocks (filter (\<lambda>f. fl_id f \<noteq> i) (get_list SleepLocks k)) k)\<lparr>reccnt := reccnt k - 1, frlock := g # frlock k\<rparr>" by auto
  then show "k_bad (delflck SleepLocks i k) = k_bad k" "sleeplcks (delflck SleepLocks i k) = filter (\<lambda>f. fl_id f \<noteq> i) (sleeplcks k)"
    "gn_filocks (delflck SleepLocks i k) = gn_filocks k" by simp_all
  show "slots_ok n (delflck SleepLocks i k)" by (rule delflck_occ [OF ok l])
qed

lemma tidy_del_sleep:
  assumes ok: "slots_ok n k" and f: "f \<in> set (sleeplcks k)" "fl_id f = i" and s: "\<not> safe k i"
  shows "tidy n gp {} k (delflck SleepLocks i k)"
  using del_sleep [OF ok f] s unfolding tidy_def on_gn_def by (auto simp: safe_def)

text \<open>The entries of the list of sleeping locks with one number are one.\<close>

lemma sleep_one: "slots_ok n k \<Longrightarrow> f \<in> set (sleeplcks k) \<Longrightarrow> g \<in> set (sleeplcks k) \<Longrightarrow> fl_id f = fl_id g \<Longrightarrow> f = g"
  using slots_distinct [of n k SleepLocks] by (auto simp: is_list_def distinct_map dest: inj_onD)

lemma not_safe: "slots_ok n k \<Longrightarrow> f \<in> set (sleeplcks k) \<Longrightarrow> retry_fcn f \<noteq> 0 \<or> l_vfs (fset f) = MNT_NFS \<Longrightarrow> \<not> safe k (fl_id f)"
  using sleep_one by (auto simp: safe_def)

section \<open>lock_wakeup\<close>

definition still_there :: "filock list \<Rightarrow> locksys \<Rightarrow> bool" where
  "still_there ss k \<longleftrightarrow> (\<forall>s \<in> set ss. \<exists>f \<in> set (sleeplcks k). fl_id f = fl_id s \<and> retry_fcn f = retry_fcn s \<and> fset f = fset s)"

lemma still_there_entry:
  assumes "still_there ss k" and g: "\<And>f. fl_id (g f) = fl_id f" "\<And>f. fset (g f) = fset f"
    and r: "(\<forall>f. retry_fcn (g f) = retry_fcn f) \<or> i \<notin> fl_id ` set ss"
  shows "still_there ss (upd_entry SleepLocks i g k)"
  unfolding still_there_def sleep_entry_set bex_simps
proof
  fix s
  assume s: "s \<in> set ss"
  with assms(1) obtain f where f: "f \<in> set (sleeplcks k)" "fl_id f = fl_id s" "retry_fcn f = retry_fcn s" "fset f = fset s" by (auto simp: still_there_def)
  have "retry_fcn (if fl_id f = i then g f else f) = retry_fcn s" using r f(2,3) s by auto
  then show "\<exists>x \<in> set (sleeplcks k). fl_id (if fl_id x = i then g x else x) = fl_id s \<and> retry_fcn (if fl_id x = i then g x else x) = retry_fcn s
      \<and> fset (if fl_id x = i then g x else x) = fset s" using f g by (intro bexI [of _ f]) simp_all
qed

lemma still_there_del: "still_there ss k \<Longrightarrow> i \<notin> fl_id ` set ss \<Longrightarrow> sleeplcks k' = filter (\<lambda>f. fl_id f \<noteq> i) (sleeplcks k) \<Longrightarrow> still_there ss k'"
  unfolding still_there_def by (fastforce simp: image_iff)

lemma still_there_same: "sleeplcks k' = sleeplcks k \<Longrightarrow> still_there ss k' = still_there ss k"
  by (simp add: still_there_def)

lemma tidy_wake_loop:
  assumes "slots_ok n k" and "gp < length (gn_filocks k)" and "still_there ss k" and "distinct (map fl_id ss)"
  shows "tidy n gp {} k (fst (wake_loop gp lp ss k rf))"
  using assms
proof (induction ss arbitrary: k rf)
  case Nil
  then show ?case by (simp add: tidy_refl)
next
  case (Cons s ss)
  let ?i = "fl_id s"
  define k1 where "k1 = upd_entry SleepLocks ?i (\<lambda>f. f\<lparr>fstate := fstate f AND NOT LCK_BLOCKED\<rparr>) k"
  define k2 where "k2 = upd_entry (GnLocks gp) lp (\<lambda>f. f\<lparr>fstate := (fstate f AND NOT LCK_BLOCKER) OR LCK_WASBLOCK\<rparr>) k1"
  define k3 where "k3 = k2\<lparr>k_calls := k_calls k2 @ [(retry_fcn s, Some lp)]\<rparr>"
  define k4 where "k4 = upd_entry SleepLocks ?i (\<lambda>f. f\<lparr>b_pid := 0, b_sysid := 0, b_vfs := 0, retry_fcn := 0\<rparr>) k3"
  have wl: "wake_loop gp lp (s # ss) k rf = (if filockp s \<noteq> Some lp then wake_loop gp lp ss k rf
      else if retry_fcn s \<noteq> 0 then wake_loop gp lp ss (delflck SleepLocks ?i k4) (retry_fcn s) else wake_loop gp lp ss k2 rf)"
    by (simp only: wake_loop.simps Let_def k1_def k2_def k3_def k4_def)
  have d: "distinct (map fl_id ss)" "?i \<notin> fl_id ` set ss" and th: "still_there ss k" using Cons.prems(3,4) by (auto simp: still_there_def)
  have 1: "tidy n gp {} k k1" unfolding k1_def by (rule tidy_sleep_entry [OF Cons.prems(1)]) simp_all
  have t1: "still_there (s # ss) k1" unfolding k1_def by (rule still_there_entry [OF Cons.prems(3)]) simp_all
  have "tidy n gp {} k1 k2" unfolding k2_def by (rule tidy_gn_entry) (use calmD(1,2) [OF 1] Cons.prems(2) in simp_all)
  with 1 have 2: "tidy n gp {} k k2" by (rule tidy_then)
  have t2: "still_there (s # ss) k2" using t1 still_there_same [of k2 k1] by (simp add: k2_def upd_entry_def)
  show ?case
  proof (cases "filockp s = Some lp")
    case False
    with Cons.IH [OF Cons.prems(1,2) th d(1)] show ?thesis by simp
  next
    case lp: True
    show ?thesis
    proof (cases "retry_fcn s = 0")
      case True
      from t2 have "still_there ss k2" by (simp add: still_there_def)
      from Cons.IH [OF calmD(1) [OF 2] _ this d(1), of rf] calmD(2) [OF 2] Cons.prems(2) 2 lp True show ?thesis
        unfolding wl by (auto intro: tidy_then)
    next
      case False
      have s3: "sleeplcks k3 = sleeplcks k2" by (simp add: k3_def)
      have 3: "tidy n gp {} k k3" using 2 by (simp add: k3_def)
      note ok3 = calmD(1) [OF 3]
      from t2 s3 obtain f where f: "f \<in> set (sleeplcks k3)" "fl_id f = ?i" "retry_fcn f = retry_fcn s" by (auto simp: still_there_def)
      have ns: "\<not> safe k3 ?i" using not_safe [OF ok3 f(1)] f(2,3) False by simp
      have 34: "tidy n gp {} k3 k4" unfolding k4_def by (rule tidy_sleep_entry [OF ok3]) (use ns in simp_all)
      have t4: "still_there ss k4" unfolding k4_def
        by (rule still_there_entry) (use t2 s3 d(2) in \<open>simp_all add: still_there_def\<close>)
      have "\<exists>f4 \<in> set (sleeplcks k4). fl_id f4 = ?i" unfolding k4_def sleep_entry_set bex_simps using f(1,2) by (intro bexI [of _ f]) simp_all
      then obtain f4 where f4: "f4 \<in> set (sleeplcks k4)" "fl_id f4 = ?i" by blast
      let ?k5 = "delflck SleepLocks ?i k4"
      note ok4 = calmD(1) [OF 34] and del = del_sleep [OF calmD(1) [OF 34] f4]
      have "safe k3 j \<Longrightarrow> safe ?k5 j" for j
      proof -
        assume j: "safe k3 j"
        then have "safe k4 j" "j \<noteq> ?i" using calmD(4) [OF 34] ns by auto
        then show "safe ?k5 j" unfolding safe_def del(3) by auto
      qed
      then have 35: "tidy n gp {} k3 ?k5" using 34 del by (simp add: tidy_def on_gn_def)
      have t5: "still_there ss ?k5" by (rule still_there_del [OF t4 d(2) del(3)])
      have 5: "tidy n gp {} k ?k5" using 3 35 by (rule tidy_then)
      from Cons.IH [OF calmD(1) [OF 5] _ t5 d(1), of "retry_fcn s"] calmD(2) [OF 5] Cons.prems(2) 5 lp False show ?thesis
        unfolding wl by (auto intro: tidy_then)
    qed
  qed
qed

lemma tidy_lock_wakeup:
  assumes "slots_ok n k" and "gp < length (gn_filocks k)"
  shows "tidy n gp {} k (fst (lock_wakeup gp lp k rf))"
proof -
  obtain k1 rf1 where w: "wake_loop gp (fl_id lp) (sleeplcks k) k rf = (k1, rf1)" by fastforce
  have "distinct (map fl_id (sleeplcks k))" using slots_distinct [OF assms(1), of SleepLocks] by (simp add: is_list_def)
  from tidy_wake_loop [OF assms _ this, of "fl_id lp" rf] have 1: "tidy n gp {} k k1" by (auto simp: w still_there_def)
  have "tidy n gp {} k1 (upd_entry (GnLocks gp) (fl_id lp) (\<lambda>f. f\<lparr>fevent := []\<rparr>) k1)"
    by (rule tidy_gn_entry) (use calmD(1,2) [OF 1] assms(2) in simp_all)
  with 1 assms(1) show ?thesis by (auto simp: lock_wakeup_def w intro: tidy_then tidy_refl)
qed

section \<open>flckadj\<close>

lemma insflck_form:
  assumes "insflck cf l ld pos k = (k', r)"
  shows "\<exists>k1. (k1 = k \<or> k1 = flock_grow (nflox_max cf) (per_page cf) k)
    \<and> (k' = k \<or> (\<exists>x. k' = k1\<lparr>recovf := x\<rparr>)
       \<or> (\<exists>new ss x y. k' = set_list l (ins_after pos new (get_list l k)) (k1\<lparr>frlock := ss, reccnt := x, rectot := y\<rparr>)))"
proof (cases "if l_vfs ld = MNT_NFS \<and> l = SleepLocks then find (same_request ld) (sleeplcks k) else None")
  case None
  define k1 where "k1 = (if frlock k = [] then flock_grow (nflox_max cf) (per_page cf) k else k)"
  have k1: "k1 = k \<or> k1 = flock_grow (nflox_max cf) (per_page cf) k" by (simp add: k1_def)
  have g: "get_list l (k1\<lparr>frlock := ss, reccnt := x, rectot := y\<rparr>) = get_list l k" for ss x y
    using k1 by (cases l) (auto simp: flock_grow_def Let_def)
  have ins: "(case frlock k1 of [] \<Rightarrow> (k1\<lparr>recovf := recovf k1 + 1\<rparr>, None)
     | s # ss \<Rightarrow> (set_list l (ins_after pos (s\<lparr>fset := ld, fstate := 0, fevent := []\<rparr>) (get_list l k))
         (k1\<lparr>frlock := ss, reccnt := reccnt k1 + 1, rectot := rectot k1 + 1\<rparr>), Some (fl_id s))) = (k', r)"
    using assms None g unfolding insflck_def k1_def [symmetric] by (simp add: Let_def cong: list.case_cong)
  show ?thesis
  proof (cases "frlock k1")
    case Nil
    with ins have "k' = k1\<lparr>recovf := recovf k1 + 1\<rparr>" by simp
    with k1 show ?thesis by blast
  next
    case (Cons s ss)
    with ins have "k' = set_list l (ins_after pos (s\<lparr>fset := ld, fstate := 0, fevent := []\<rparr>) (get_list l k))
         (k1\<lparr>frlock := ss, reccnt := reccnt k1 + 1, rectot := rectot k1 + 1\<rparr>)" by simp
    with k1 show ?thesis by blast
  qed
qed (use assms in \<open>auto simp: insflck_def\<close>)

lemma insflck_sleepers:
  assumes "insflck cf l ld pos k = (k', r)"
  shows "l = GnLocks gp \<Longrightarrow> sleeplcks k' = sleeplcks k" and "k_bad k' = k_bad k"
    and "l = SleepLocks \<Longrightarrow> gn_filocks k' = gn_filocks k \<and> set (sleeplcks k) \<subseteq> set (sleeplcks k')"
    and "l = GnLocks gp \<Longrightarrow> length (gn_filocks k') = length (gn_filocks k)"
    and "l = GnLocks gp \<Longrightarrow> gp < length (gn_filocks k) \<Longrightarrow> on_gn gp k \<subseteq> on_gn gp k'"
proof -
  have sub: "set fs \<subseteq> set (ins_after p new fs)" for p new fs by (induction p new fs rule: ins_after.induct) auto
  have g: "gn_filocks (flock_grow a b k) = gn_filocks k" "sleeplcks (flock_grow a b k) = sleeplcks k" "k_bad (flock_grow a b k) = k_bad k" for a b
    by (simp_all add: flock_grow_def Let_def)
  have b: "k_bad (set_list l xs k2) = k_bad k2" for xs k2 by (cases l) simp_all
  note f = insflck_form [OF assms]
  show "k_bad k' = k_bad k" using f b g by auto
  show "l = GnLocks gp \<Longrightarrow> sleeplcks k' = sleeplcks k" "l = GnLocks gp \<Longrightarrow> length (gn_filocks k') = length (gn_filocks k)"
    using f g by auto
  show "l = SleepLocks \<Longrightarrow> gn_filocks k' = gn_filocks k \<and> set (sleeplcks k) \<subseteq> set (sleeplcks k')"
    using f g sub by fastforce
  show "l = GnLocks gp \<Longrightarrow> gp < length (gn_filocks k) \<Longrightarrow> on_gn gp k \<subseteq> on_gn gp k'"
    using f g sub unfolding on_gn_def by (fastforce intro!: image_mono)
qed

lemma tidy_ins_gn:
  assumes ins: "insflck cf (GnLocks gp) ld pos k = (k', r)" and ok: "slots_ok (nflox_max cf) k" and gp: "gp < length (gn_filocks k)"
  shows "tidy (nflox_max cf) gp {} k k'"
proof -
  have "slots_ok (nflox_max cf) k'"
  proof (cases r)
    case None
    with insflck_none ins ok show ?thesis by (auto simp: same_locks_def)
  next
    case (Some i)
    with insflck_one ins ok gp show ?thesis by (auto simp: one_list_def)
  qed
  then show ?thesis using insflck_sleepers [OF ins] gp by (simp add: tidy_def safe_def)
qed

text \<open>The steps of an adjustment; \<open>k0\<close> is the table it began with.\<close>

lemma tidy_wakeup: "tidy n gp S k0 (a_k a) \<Longrightarrow> gp < length (gn_filocks k0) \<Longrightarrow> tidy n gp S k0 (a_k (a_wakeup gp fl a))"
  using tidy_lock_wakeup [of n "a_k a" gp fl "a_rf a"] calmD(1,2) [of n gp S k0 "a_k a"] tidy_then [of n gp S k0 "a_k a"]
  by (auto simp: a_wakeup_def split: prod.split)

lemma tidy_cut: "tidy n gp S k0 (a_k a) \<Longrightarrow> gp < length (gn_filocks k0) \<Longrightarrow> tidy n gp S k0 (a_k (a_cut gp fl a))"
  using calmD(1,2) [of n gp S k0 "a_k a"] by (auto simp: a_cut_def intro!: tidy_then [of n gp S k0 "a_k a"] tidy_gn_entry)

lemma tidy_delete:
  assumes "tidy n gp {} k0 (a_k a)" and "gp < length (gn_filocks k0)" and "fl_id fl \<in> on_gn gp k0"
  shows "tidy n gp {fl_id fl} k0 (a_k (a_delete gp fl a))"
  using tidy_trans [OF assms(1) tidy_del_gn [OF calmD(1) [OF assms(1)] _ calmD(5) [OF assms(1,3)]]] calmD(2) [OF assms(1)] assms(2)
  by (simp add: a_delete_def)

lemma a_k_moves [simp]: "a_k (a_prev gp fl a) = a_k a" "a_k (a_here fl a) = a_k a"
  by (simp_all add: a_prev_def a_here_def)

lemmas adj_calm = tidy_wakeup tidy_cut tidy_delete

lemma tidy_adj_step:
  assumes ok: "slots_ok (nflox_max cf) (a_k a)" and gp: "gp < length (gn_filocks (a_k a))" and fl: "fl_id fl \<in> on_gn gp (a_k a)"
    and st: "adj_step cf gp fl a = (out, a')"
  shows "tidy (nflox_max cf) gp {fl_id fl} (a_k a) (a_k a')"
proof -
  let ?k = "a_k a"
  have base: "tidy (nflox_max cf) gp {} ?k ?k" by (rule tidy_refl [OF ok])
  have ins: "tidy (nflox_max cf) gp {} ?k k" if "insflck cf (GnLocks gp) td p ?k = (k, r)" for td p k r
    by (rule tidy_ins_gn [OF that ok gp])
    show ?thesis
    using st base ins gp fl unfolding adj_step_def Let_def
    by (auto split: if_splits prod.splits intro!: adj_calm intro: tidy_up dest!: ins) (rule tidy_up, assumption)
qed

lemma tidy_adj_loop:
  assumes "slots_ok (nflox_max cf) (a_k a)" and "gp < length (gn_filocks (a_k a))" and "fl_id ` set fls \<subseteq> on_gn gp (a_k a)"
    and "distinct (map fl_id fls)" and "adj_loop cf gp fls a = (out, a')"
  shows "tidy (nflox_max cf) gp (fl_id ` set fls) (a_k a) (a_k a')"
  using assms
proof (induction fls arbitrary: a)
  case Nil
  then show ?case by (simp add: tidy_refl)
next
  case (Cons fl fls)
  have up: "tidy (nflox_max cf) gp S (a_k a) k \<Longrightarrow> S \<subseteq> fl_id ` set (fl # fls) \<Longrightarrow> tidy (nflox_max cf) gp (fl_id ` set (fl # fls)) (a_k a) k" for S k
    by (rule tidy_weak)
  show ?case
  proof (cases "own (fset fl) (a_ld a)")
    case False
    with Cons.IH [OF Cons.prems(1,2)] Cons.prems(3-5) show ?thesis by (intro up [of "fl_id ` set fls"]) auto
  next
    case True
    obtain o1 a1 where s: "adj_step cf gp fl a = (o1, a1)" by fastforce
    have 1: "tidy (nflox_max cf) gp {fl_id fl} (a_k a) (a_k a1)"
      by (rule tidy_adj_step [OF Cons.prems(1,2) _ s]) (use Cons.prems(3) in auto)
    show ?thesis
    proof (cases "o1 = ANext")
      case next_: True
      have sub: "fl_id ` set fls \<subseteq> on_gn gp (a_k a1)"
      proof
        fix i
        assume "i \<in> fl_id ` set fls"
        moreover from this have "i \<noteq> fl_id fl" using Cons.prems(4) by (metis distinct.simps(2) list.simps(9) set_map)
        ultimately have "i \<in> on_gn gp (a_k a)" "i \<noteq> fl_id fl" using Cons.prems(3) by auto
        then show "i \<in> on_gn gp (a_k a1)" using calmD(5) [OF 1] by simp
      qed
      have "adj_loop cf gp fls a1 = (out, a')" using Cons.prems(5) True s next_ by simp
      from Cons.IH [OF calmD(1) [OF 1] _ sub _ this] calmD(2) [OF 1] Cons.prems(2,4)
      have "tidy (nflox_max cf) gp (fl_id ` set fls) (a_k a1) (a_k a')" by simp
      from tidy_trans [OF 1 this] show ?thesis by simp
    next
      case False
      with Cons.prems(5) True s have "a' = a1" by (cases o1) auto
      with 1 show ?thesis by (intro up [of "{fl_id fl}"]) auto
    qed
  qed
qed

lemma tidy_flckadj:
  assumes ok: "slots_ok (nflox_max cf) k" and gp: "gp < length (gn_filocks k)" and adj: "flckadj cf rrc gp ins ld rid k = (k', ld', rid', ret)"
  shows "tidy (nflox_max cf) gp UNIV k k'"
proof -
  let ?n = "nflox_max cf"
  let ?fs = "gn_filocks k ! gp"
  let ?fls = "case ins of None \<Rightarrow> ?fs | Some i \<Rightarrow> dropWhile (\<lambda>f. fl_id f \<noteq> i) ?fs" and ?a = "\<lparr>a_ld = ld, a_ins = ins, a_rf = 0, a_k = k\<rparr>"
  obtain out a where loop: "adj_loop cf gp ?fls ?a = (out, a)" by fastforce
  have d: "distinct (map fl_id ?fs)" using slots_distinct [OF ok, of "GnLocks gp"] gp by (simp add: is_list_def)
  have dd: "distinct (map fl_id (dropWhile P ?fs))" for P
  proof -
    have "map fl_id ?fs = map fl_id (takeWhile P ?fs) @ map fl_id (dropWhile P ?fs)" by (simp flip: map_append)
    with d show ?thesis by (metis distinct_append)
  qed
  have "tidy ?n gp (fl_id ` set ?fls) (a_k ?a) (a_k a)"
    by (rule tidy_adj_loop [OF _ _ _ _ loop]) (use ok gp d dd in \<open>auto simp: on_gn_def split: option.split dest: set_dropWhileD\<close>)
  then have 1: "tidy ?n gp UNIV k (a_k a)" by (auto intro: tidy_weak)
  have ins: "tidy ?n gp UNIV k k1" if "insflck cf (GnLocks gp) td p (a_k a) = (k1, r)" for td p k1 r
    by (rule tidy_then [OF 1 tidy_ins_gn [OF that calmD(1) [OF 1]]]) (use calmD(2) [OF 1] gp in simp)
  show ?thesis
    using adj loop 1 unfolding flckadj_def Let_def
    by (auto split: if_splits prod.splits adj_out.splits dest: ins)
qed

section \<open>common_reclock\<close>

text \<open>A thread goes to sleep on an entry that was not there, unless it is the daemon of NFS, which may come upon an old one.\<close>

lemma insflck_sleep_new:
  assumes ins: "insflck cf SleepLocks ld None k = (k', Some i)" and ok: "slots_ok (nflox_max cf) k"
  shows "\<exists>f \<in> set (sleeplcks k'). fl_id f = i \<and> l_vfs (fset f) = l_vfs ld" and "\<not> safe k i"
    and "l_vfs ld \<noteq> MNT_NFS \<Longrightarrow> i \<notin> fl_id ` set (sleeplcks k)"
proof -
  have fresh: "i \<notin> fl_id ` set (sleeplcks k) \<and> (\<exists>f \<in> set (sleeplcks k'). fl_id f = i \<and> l_vfs (fset f) = l_vfs ld)"
    if h: "\<not> (l_vfs ld = MNT_NFS \<and> find (same_request ld) (sleeplcks k) \<noteq> None)"
  proof -
    let ?k = "if frlock k = [] then flock_grow (nflox_max cf) (per_page cf) k else k"
    have same: "same_locks (nflox_max cf) k ?k" using grow_same by simp
    obtain s ss where s: "frlock ?k = s # ss" "i = fl_id s" and k': "sleeplcks k' = s\<lparr>fset := ld, fstate := 0, fevent := []\<rparr> # sleeplcks ?k"
      using ins h by (auto simp: insflck_def Let_def split: list.splits if_splits option.splits)
    have sl: "sleeplcks ?k = sleeplcks k" by (simp add: flock_grow_def Let_def)
    have "occ ?k i \<le> 1" using same ok by (auto simp: same_locks_def slots_ok_def split: if_splits dest: spec [of _ i])
    then have "on_list i (sleeplcks ?k) = 0" using s by (simp add: occ_def)
    then show ?thesis using s(2) k' sl by (auto simp: on_list_zero)
  qed
  have shared: "\<exists>f \<in> set (sleeplcks k). fl_id f = i \<and> l_vfs (fset f) = MNT_NFS \<and> k' = k"
    if h: "l_vfs ld = MNT_NFS \<and> find (same_request ld) (sleeplcks k) \<noteq> None"
  proof -
    from h obtain sf where sf: "find (same_request ld) (sleeplcks k) = Some sf" by blast
    with h ins have "k' = k" "i = fl_id sf" by (simp_all add: insflck_def)
    moreover have "sf \<in> set (sleeplcks k)" "same_request ld sf" using sf by (auto simp: find_Some_iff)
    ultimately show ?thesis using h by (auto simp: same_request_def)
  qed
  show "\<exists>f \<in> set (sleeplcks k'). fl_id f = i \<and> l_vfs (fset f) = l_vfs ld"
  proof (cases "l_vfs ld = MNT_NFS \<and> find (same_request ld) (sleeplcks k) \<noteq> None")
    case True
    from shared [OF this] True show ?thesis by auto
  qed (use fresh in blast)
  show "\<not> safe k i"
  proof (cases "l_vfs ld = MNT_NFS \<and> find (same_request ld) (sleeplcks k) \<noteq> None")
    case True
    from shared [OF this] show ?thesis using not_safe [OF ok] by auto
  next
    case False
    then have "i \<notin> fl_id ` set (sleeplcks k)" using fresh by blast
    then show ?thesis unfolding safe_def by blast
  qed
  show "l_vfs ld \<noteq> MNT_NFS \<Longrightarrow> i \<notin> fl_id ` set (sleeplcks k)" using fresh by blast
qed

lemma tidy_ins_sleep:
  assumes ins: "insflck cf SleepLocks ld None k = (k', r)" and ok: "slots_ok (nflox_max cf) k"
  shows "tidy (nflox_max cf) gp UNIV k k'"
  using insflck_sleep [OF ins ok] ok insflck_sleepers(2,3) [OF ins] unfolding tidy_def same_locks_def safe_def by fastforce

lemma mark_blocked_safe:
  shows "safe k j \<Longrightarrow> j \<noteq> sf \<Longrightarrow> safe (mark_blocked gp fl sf fcn k) j" and "k_bad (mark_blocked gp fl sf fcn k) = k_bad k"
  by (auto simp: safe_def mark_blocked_def upd_entry_def Let_def)

lemma tidy_nfs_drop:
  assumes "slots_ok n k" and "still_there sfs k" and "distinct (map fl_id sfs)"
  shows "tidy n gp UNIV k (nfs_drop ld sfs k)"
  using assms
proof (induction sfs arbitrary: k)
  case Nil
  then show ?case by (simp add: tidy_refl)
next
  case (Cons sf sfs)
  have th: "still_there sfs k" "distinct (map fl_id sfs)" "fl_id sf \<notin> fl_id ` set sfs" using Cons.prems(2,3) by (auto simp: still_there_def)
  show ?case
  proof (cases "l_vfs (fset sf) = MNT_NFS")
    case False
    with Cons.IH [OF Cons.prems(1) th(1,2)] show ?thesis by simp
  next
    case True
    from Cons.prems(2) obtain f where f: "f \<in> set (sleeplcks k)" "fl_id f = fl_id sf" "fset f = fset sf" by (auto simp: still_there_def)
    have ns: "\<not> safe k (fl_id sf)" using not_safe [OF Cons.prems(1) f(1)] f True by simp
    note del = del_sleep [OF Cons.prems(1) f(1,2)]
    have 1: "tidy n gp UNIV k (delflck SleepLocks (fl_id sf) k)"
      by (rule tidy_weak [OF tidy_del_sleep [OF Cons.prems(1) f(1,2) ns]]) simp
    have "still_there sfs (delflck SleepLocks (fl_id sf) k)" by (rule still_there_del [OF th(1,3) del(3)])
    from tidy_trans [OF 1 Cons.IH [OF del(1) this th(2)]] 1 Cons.IH [OF Cons.prems(1) th(1,2)] True show ?thesis by auto
  qed
qed

text \<open>What a call does to the entries: it keeps the safe ones, and where it sleeps, its own is new and safe.\<close>

definition quiet_res :: "locksys \<Rightarrow> lock_res \<Rightarrow> bool" where
  "quiet_res k res \<longleftrightarrow>
     (case res of
        LRet k' ld rid ret \<Rightarrow> k_bad k' = k_bad k \<and> (\<forall>i. safe k i \<longrightarrow> safe k' i)
      | LSleep k' z \<Rightarrow> k_bad k' = k_bad k \<and> (\<forall>i. safe k i \<longrightarrow> safe k' i) \<and> safe k' (z_sf z) \<and> \<not> safe k (z_sf z)
          \<and> l_vfs (z_ld z) \<noteq> MNT_NFS
      | LHang \<Rightarrow> True)"

definition may_sleep :: "lock_req \<Rightarrow> bool" where
  "may_sleep r \<longleftrightarrow> q_fcn r = 0 \<and> q_cmd r AND SLPFLCK \<noteq> 0"

lemma quiet_end [simp]: "quiet_res k (reclock_end r whence ld rid ret k') = (k_bad k' = k_bad k \<and> (\<forall>i. safe k i \<longrightarrow> safe k' i))"
  by (simp add: reclock_end_def quiet_res_def Let_def)

lemma quiet_calm: "tidy n gp S k k' \<Longrightarrow> quiet_res k (reclock_end r whence ld rid ret k')"
  by (simp add: tidy_def)

lemma quiet_sleep:
  assumes ok: "slots_ok (nflox_max cf) k" and gp: "gp < length (gn_filocks k)" and ins: "insflck cf SleepLocks ld None k = (k1, Some i)"
    and v: "l_vfs ld \<noteq> MNT_NFS"
  shows "quiet_res k (LSleep (upd_entry (GnLocks gp) (fl_id fl) (\<lambda>f. f\<lparr>fevent := fevent f @ [t]\<rparr>) (mark_blocked gp fl i 0 k1))
    \<lparr>z_req = r, z_ld = ld, z_whence = whence, z_rid = rid, z_sf = i\<rparr>)"
proof -
  let ?k = "upd_entry (GnLocks gp) (fl_id fl) (\<lambda>f. f\<lparr>fevent := fevent f @ [t]\<rparr>) (mark_blocked gp fl i 0 k1)"
  note new = insflck_sleep_new [OF ins ok]
  note g1 = insflck_sleepers(3) [OF ins refl]
  have sl: "set (sleeplcks ?k) = (\<lambda>f. if fl_id f = i then f\<lparr>fstate := fstate f OR LCK_BLOCKED, b_pid := l_pid (fset fl),
            b_sysid := l_sysid (fset fl), b_vfs := sshort (l_vfs (fset fl)), filockp := Some (fl_id fl), retry_fcn := 0\<rparr> else f) ` set (sleeplcks k1)"
    by (simp add: upd_entry_def mark_blocked_def Let_def)
  have "safe ?k j" if "safe k j" for j
  proof -
    from that obtain f where f: "f \<in> set (sleeplcks k)" "fl_id f = j" "retry_fcn f = 0" "l_vfs (fset f) \<noteq> MNT_NFS" by (auto simp: safe_def)
    with new(3) [OF v] have "j \<noteq> i" by auto
    with f g1 show ?thesis unfolding safe_def sl by (intro bexI [of _ f]) (auto intro!: image_eqI [of _ _ f])
  qed
  moreover from new(1) obtain f where f: "f \<in> set (sleeplcks k1)" "fl_id f = i" "l_vfs (fset f) = l_vfs ld" by blast
  have "safe ?k i" unfolding safe_def sl bex_simps by (rule bexI [OF _ f(1)]) (use f v in simp)
  moreover have "k_bad ?k = k_bad k" using insflck_sleepers(2) [OF ins] by (simp add: upd_entry_def mark_blocked_def Let_def)
  ultimately show ?thesis using new(2) v by (simp add: quiet_res_def)
qed

lemma quiet_body:
  assumes ok: "slots_ok (nflox_max cf) k" and gp: "q_gp r < length (gn_filocks k)" and v: "may_sleep r \<longrightarrow> l_vfs ld \<noteq> MNT_NFS"
  shows "quiet_res k (reclock_body cf rrc r whence ld rid k)"
proof -
  let ?gp = "q_gp r" and ?n = "nflox_max cf"
  have id: "quiet_res k (reclock_end r whence ld' rid' ret k)" for ld' rid' ret by simp
  have hang: "quiet_res k LHang" by (simp add: quiet_res_def)
  have adj: "quiet_res k (reclock_end r whence ld' rid' ret k')" if "flckadj cf rrc ?gp ins ld rid k = (k', ld', rid', ret)" for ins k' ld' rid' ret
    by (rule quiet_calm [OF tidy_flckadj [OF ok gp that]])
  have drop: "quiet_res k (reclock_end r whence ld rid None (nfs_drop ld (sleeplcks k) k))"
    by (rule quiet_calm [OF tidy_nfs_drop [OF ok]]) (use slots_distinct [OF ok, of SleepLocks] in \<open>auto simp: still_there_def is_list_def\<close>)
  have sleep: "quiet_res k (if q_fcn r \<noteq> 0 then reclock_end r whence ld (slot_addr (fl_id fl)) (Some EAGAIN) (mark_blocked ?gp fl i (q_fcn r) k1)
      else LSleep (upd_entry (GnLocks ?gp) (fl_id fl) (\<lambda>f. f\<lparr>fevent := fevent f @ [q_thr r]\<rparr>) (mark_blocked ?gp fl i (q_fcn r) k1))
             \<lparr>z_req = r, z_ld = ld, z_whence = whence, z_rid = rid, z_sf = i\<rparr>)"
    if ins: "insflck cf SleepLocks ld None k = (k1, Some i)" and c: "q_fcn r \<noteq> 0 \<or> q_cmd r AND SLPFLCK \<noteq> 0" for fl k1 i
  proof (cases "q_fcn r = 0")
    case True
    then show ?thesis using quiet_sleep [OF ok gp ins] v c by (simp add: may_sleep_def)
  next
    case False
    note 1 = tidy_ins_sleep [OF ins ok, of ?gp]
    have "safe (mark_blocked ?gp fl i (q_fcn r) k1) j" if "safe k j" for j
    proof (rule mark_blocked_safe(1) [OF calmD(4) [OF 1 that]])
      show "j \<noteq> i" using insflck_sleep_new(2) [OF ins ok] that by blast
    qed
    with False show ?thesis using mark_blocked_safe(2) calmD(3) [OF 1] by simp
  qed
  have ins: "quiet_res k (reclock_end r whence ld rid ret k1)" if "insflck cf SleepLocks ld None k = (k1, s)" for k1 s ret
    by (rule quiet_calm [OF tidy_ins_sleep [OF that ok]])
  show ?thesis
  proof (cases "l_type ld = F_RDLCK \<or> l_type ld = F_WRLCK")
    case lock: True
    obtain bl pos where b: "blocked (gn_filocks k ! ?gp) ld = (bl, pos)" by fastforce
    show ?thesis
    proof (cases bl)
      case None
      obtain k' ld' rid' ret where f: "flckadj cf rrc ?gp pos ld rid k = (k', ld', rid', ret)" using prod_cases4 by blast
      show ?thesis using lock b None id adj [OF f] f unfolding reclock_body_def Let_def by simp
    next
      case (Some fl)
      obtain k1 sf where i: "insflck cf SleepLocks ld None k = (k1, sf)" by fastforce
      show ?thesis
      proof (cases "q_fcn r \<noteq> 0 \<or> q_cmd r AND SLPFLCK \<noteq> 0")
        case c: True
        note body = reclock_body_def [of cf rrc r whence ld rid k, unfolded Let_def, unfolded if_P [OF lock] b prod.case option.case Some if_P [OF c] i]
        show ?thesis unfolding body
          using id hang ins [OF i] sleep [OF _ c, of k1] i by (cases "deadflck fl ld k"; cases "the (deadflck fl ld k)"; cases sf) simp_all
      next
        case c: False
        note body = reclock_body_def [of cf rrc r whence ld rid k, unfolded Let_def, unfolded if_P [OF lock] b prod.case option.case Some if_not_P [OF c]]
        show ?thesis unfolding body using id by simp
      qed
    qed
  next
    case False
    let ?pos = "case gn_filocks k ! ?gp of [] \<Rightarrow> None | f # _ \<Rightarrow> Some (fl_id f)"
    obtain k' ld' rid' ret where f: "flckadj cf rrc ?gp ?pos ld rid k = (k', ld', rid', ret)" using prod_cases4 by blast
    show ?thesis unfolding reclock_body_def [of cf rrc r whence ld rid k, unfolded Let_def, unfolded if_not_P [OF False] f prod.case]
      using id adj [OF f] drop by simp
  qed
qed

lemma quiet_call:
  assumes "slots_ok (nflox_max cf) k" and "q_gp r < length (gn_filocks k)" and "may_sleep r \<longrightarrow> l_vfs ld \<noteq> MNT_NFS"
  shows "quiet_res k (common_reclock cf rrc r ld rid k)"
proof -
  have same: "quiet_res k (LRet k ld' rid ret)" for ld' ret by (simp add: quiet_res_def)
  obtain e ld' where c: "convoff (q_size r) (q_off r) ld 0 = (e, ld')" by fastforce
  have v: "l_vfs ld' = l_vfs ld" using c by (auto simp: convoff_def Let_def split: if_splits)
  show ?thesis using same quiet_body [OF assms(1,2)] assms(3) v by (cases e) (simp_all add: common_reclock_def c Let_def)
qed

text \<open>The thread that wakes finds its entry.\<close>

lemma quiet_wake:
  assumes ok: "slots_ok (nflox_max cf) k" and gp: "q_gp (z_req z) < length (gn_filocks k)"
    and s: "safe k (z_sf z)" "l_vfs (z_ld z) \<noteq> MNT_NFS"
  shows "case reclock_wake cf rrc sig z k of
      LRet k' ld rid ret \<Rightarrow> k_bad k' = k_bad k \<and> (\<forall>i. i \<noteq> z_sf z \<longrightarrow> safe k i \<longrightarrow> safe k' i)
    | LSleep k' z' \<Rightarrow> k_bad k' = k_bad k \<and> (\<forall>i. i \<noteq> z_sf z \<longrightarrow> safe k i \<longrightarrow> safe k' i \<and> i \<noteq> z_sf z') \<and> safe k' (z_sf z') \<and> l_vfs (z_ld z') \<noteq> MNT_NFS
    | LHang \<Rightarrow> True"
proof -
  let ?g = "\<lambda>f. f\<lparr>b_pid := 0, b_sysid := 0, b_vfs := 0, filockp := None\<rparr>"
  define k1 where "k1 = upd_entry SleepLocks (z_sf z) ?g k"
  define k2 where "k2 = delflck SleepLocks (z_sf z) k1"
  have 1: "tidy (nflox_max cf) (q_gp (z_req z)) {} k k1" unfolding k1_def by (rule tidy_sleep_entry [OF ok]) simp_all
  from calmD(4) [OF 1 s(1)] obtain f where f: "f \<in> set (sleeplcks k1)" "fl_id f = z_sf z" by (auto simp: safe_def)
  note del = del_sleep [OF calmD(1) [OF 1] f, folded k2_def]
  have keep: "safe k2 i" if "i \<noteq> z_sf z" "safe k i" for i
    using calmD(4) [OF 1 that(2)] that(1) unfolding safe_def del(3) by auto
  have bad: "k_bad k2 = k_bad k" using del(2) calmD(3) [OF 1] by simp
  have gp2: "q_gp (z_req z) < length (gn_filocks k2)" using del(4) calmD(2) [OF 1] gp by simp
  have "quiet_res k2 (reclock_wake cf rrc sig z k)"
    using quiet_body [OF del(1) gp2, of "z_ld z" rrc "z_whence z" "z_rid z"] s(2)
    unfolding reclock_wake_def Let_def k1_def [symmetric] k2_def [symmetric] by (cases sig) simp_all
  then show ?thesis using keep bad by (auto simp: quiet_res_def split: lock_res.splits)
qed

end
