(* ===== verification/ReclockProps.thy ===== *)
theory ReclockProps
  imports ReclockSlots
begin

text \<open>
  The properties of record locking: over any run of calls and wakeups no byte is locked for
  writing by one owner and held by another; a call that sets a lock or releases one overrides
  the map of its file; \<open>blocked\<close> decides; the caller's structure is restored; and what the deadlock
  detection can and cannot see.
\<close>

unbundle bit_operations_syntax

section \<open>Runs\<close>

text \<open>
  The state is the lists and the threads asleep in \<open>common_reclock\<close>. A run stops at a call that does
  not come back.
\<close>

datatype reclock_ev = RlCall lock_req eflock int | RlWake bool lock_sleep

definition reclock_next ::
    "flox_conf \<Rightarrow> (int \<Rightarrow> int) \<Rightarrow> reclock_ev \<Rightarrow> locksys \<times> lock_sleep list \<Rightarrow> (locksys \<times> lock_sleep list) option" where
  "reclock_next cf rrc e s =
     (case s of (k, zs) \<Rightarrow>
      case e of
        RlCall r ld rid \<Rightarrow>
          if q_gp r < length (gn_filocks k) then
            (case common_reclock cf rrc r ld rid k of
               LRet k _ _ _ \<Rightarrow> Some (k, zs) | LSleep k z \<Rightarrow> Some (k, z # zs) | LHang \<Rightarrow> None)
          else None
      | RlWake sig z \<Rightarrow>
          if z \<in> set zs then
            (case reclock_wake cf rrc sig z k of
               LRet k _ _ _ \<Rightarrow> Some (k, remove1 z zs) | LSleep k z' \<Rightarrow> Some (k, z' # remove1 z zs) | LHang \<Rightarrow> None)
          else None)"

definition reclock_inv :: "nat \<Rightarrow> nat \<Rightarrow> locksys \<times> lock_sleep list \<Rightarrow> bool" where
  "reclock_inv n ngn s \<longleftrightarrow> reclock_ok n ngn (fst s) \<and> (\<forall>z \<in> set (snd s). sleep_ok ngn z)"

lemma reclock_next_inv:
  assumes inv: "reclock_inv (nflox_max cf) ngn s" and st: "reclock_next cf rrc e s = Some s'"
  shows "reclock_inv (nflox_max cf) ngn s'"
proof -
  obtain k zs where s: "s = (k, zs)" by fastforce
  have k: "reclock_ok (nflox_max cf) ngn k" and zs: "\<forall>z \<in> set zs. sleep_ok ngn z"
    using inv by (simp_all add: reclock_inv_def s)
  show ?thesis
  proof (cases e)
    case (RlCall r ld rid)
    then have "q_gp r < ngn" using st k by (auto simp: reclock_next_def s reclock_ok_def split: if_splits)
    from common_reclock_ok [OF k this, of rrc ld rid] show ?thesis
      using st RlCall zs by (auto simp: reclock_next_def s reclock_inv_def res_sleep split: if_splits lock_res.splits)
  next
    case (RlWake sig z)
    then have "sleep_ok ngn z" using st zs by (auto simp: reclock_next_def s split: if_splits)
    from reclock_wake_ok [OF k this, of rrc sig] show ?thesis
      using st RlWake zs notin_set_remove1
      by (auto simp: reclock_next_def s reclock_inv_def res_sleep split: if_splits lock_res.splits)
  qed
qed

interpretation reclock_machine: machine "reclock_next cf rrc" "reclock_inv (nflox_max cf) ngn" for cf rrc ngn
  by unfold_locales (rule reclock_next_inv)

lemma flckinit_inv:
  assumes "nmin \<le> n"
  shows "reclock_inv n ngn (flckinit ngn nmin, [])"
proof -
  have "on_list i (map slot_zero (rev [0..<nmin])) = (if i < nmin then 1 else 0)" for i
    using on_list_range [of i 0 nmin] by simp
  then have "slots_ok n (flckinit ngn nmin)"
    using assms by (simp add: slots_ok_def occ_def flckinit_def sum_list_replicate)
  then show ?thesis
    by (simp add: reclock_inv_def reclock_ok_def flckinit_def views_def vok_def)
qed

text \<open>A byte under a write lock has one holder.\<close>

lemma vok_exclusive:
  assumes v: "vok v" and w: "holds v w b F_WRLCK" and o: "holds v w' b t"
  shows "w' = w \<and> t = F_WRLCK"
proof -
  from w o obtain p q where p: "p \<in> set v" "owner_of (snd p) = w" "l_type (snd p) = F_WRLCK"
      "l_start (snd p) \<le> b" "b \<le> l_end (snd p)"
    and q: "q \<in> set v" "owner_of (snd q) = w'" "l_type (snd q) = t" "l_start (snd q) \<le> b" "b \<le> l_end (snd q)"
    by (auto simp: holds_def)
  from vok_compat [OF v p(1) q(1)] p q show ?thesis
    by (auto simp: compat_def own_iff apart_def split: if_splits)
qed

section \<open>One call\<close>

text \<open>The request in absolute terms: first and last byte.\<close>

definition lock_span :: "lock_req \<Rightarrow> eflock \<Rightarrow> eflock" where
  "lock_span r ld =
     (let ld = snd (convoff (q_size r) (q_off r) ld 0)
      in ld\<lparr>l_len := (if l_len ld = 0 then MAXEND else wrap64 (l_len ld + (l_start ld - 1)))\<rparr>)"

lemma common_reclock_body:
  assumes "fst (convoff (q_size r) (q_off r) ld 0) = None" and "0 \<le> l_len ld"
    and "l_start (lock_span r ld) \<le> l_end (lock_span r ld)"
  shows "common_reclock cf rrc r ld rid k = reclock_body cf rrc r (l_whence ld) (lock_span r ld) rid k
    \<and> span_ok (lock_span r ld) \<and> l_type (lock_span r ld) = l_type ld \<and> owner_of (lock_span r ld) = owner_of ld"
proof -
  obtain ld1 where c: "convoff (q_size r) (q_off r) ld 0 = (None, ld1)" using assms(1) by (metis prod.collapse)
  have f: "0 \<le> l_start ld1" "l_len ld1 = l_len ld" "l_type ld1 = l_type ld" "owner_of ld1 = owner_of ld"
    using convoff_start [OF c] by simp_all
  have s: "lock_span r ld = ld1\<lparr>l_len := (if l_len ld1 = 0 then MAXEND else wrap64 (l_len ld1 + (l_start ld1 - 1)))\<rparr>"
    by (simp add: lock_span_def c)
  have "common_reclock cf rrc r ld rid k = reclock_body cf rrc r (l_whence ld) (lock_span r ld) rid k"
    unfolding common_reclock_def Let_def c prod.case option.case using assms(2,3) f(2) unfolding s by auto
  then show ?thesis using f assms(3) unfolding s by (simp add: span_ok_def)
qed

lemma blocks_view: "f \<in> set fs \<Longrightarrow> blocks (fset f) e \<Longrightarrow> \<exists>p \<in> set (view fs). blocks (snd p) e"
  by (auto simp: view_def)

lemma same_views: "same_locks n k k' \<Longrightarrow> views k' = views k"
  by (simp add: same_locks_def)

text \<open>What a call that may change the file comes to.\<close>

definition setlk_post :: "nat \<Rightarrow> eflock \<Rightarrow> locksys \<Rightarrow> lock_res \<Rightarrow> bool" where
  "setlk_post gp e k res \<longleftrightarrow>
     (let v0 = views k ! gp; clash = (l_type e \<noteq> F_UNLCK \<and> (\<exists>p \<in> set v0. blocks (snd p) e)) in
      case res of
        LRet k' _ _ ret \<Rightarrow>
          if clash then views k' = views k \<and> ret \<in> {Some EAGAIN, Some EDEADLK, Some ENOLCK}
          else \<exists>v. views k' = (views k)[gp := v] \<and> vok v \<and>
            (if ret = None then overridden v0 e v
             else ret = Some ENOLCK \<and> (\<forall>w b t. w \<noteq> owner_of e \<longrightarrow> holds v w b t = holds v0 w b t))
      | LSleep k' z \<Rightarrow> clash \<and> views k' = views k \<and> z_ld z = e
      | LHang \<Rightarrow> clash)"

lemma setlk_end: "setlk_post gp e k (reclock_end r whence ld rid ret k') = setlk_post gp e k (LRet k' ld rid ret)"
  unfolding reclock_end_def Let_def setlk_post_def lock_res.case by (rule refl)

lemma adjust_post:
  assumes k: "reclock_ok (nflox_max cf) ngn k" and gp: "gp < ngn"
    and req: "request_ok (view (gn_filocks k ! gp)) e ins"
    and adj: "flckadj cf rrc gp ins e rid k = (k', ld', rid', ret)"
    and clear: "l_type e \<noteq> F_UNLCK \<Longrightarrow> \<forall>p \<in> set (views k ! gp). \<not> blocks (snd p) e"
  shows "setlk_post gp e k (LRet k' ld2 rid2 ret)"
proof -
  have g: "gp < length (gn_filocks k)" using k gp by (simp add: reclock_ok_def)
  from flckadj_ok [OF adj g] k reclock_ok_vok [OF k gp] req obtain v
    where v: "one_list (nflox_max cf) gp v k k'" "vok v" "if ret = None then overridden (views k ! gp) e v
     else ret = Some ENOLCK \<and> (\<forall>w b t. w \<noteq> owner_of e \<longrightarrow> holds v w b t = holds (views k ! gp) w b t)"
    by (auto simp: reclock_ok_def views_nth [OF g])
  have n: "\<not> (l_type e \<noteq> F_UNLCK \<and> (\<exists>p \<in> set (views k ! gp). blocks (snd p) e))" using clear by blast
  show ?thesis unfolding setlk_post_def Let_def lock_res.case if_not_P [OF n]
    by (rule exI [of _ v]) (use v in \<open>simp add: one_list_def\<close>)
qed

lemma setlk_body:
  assumes k: "reclock_ok (nflox_max cf) ngn k" and gp: "q_gp r < ngn" and e: "span_ok e"
    and t: "l_type e = F_RDLCK \<or> l_type e = F_WRLCK \<or> l_type e = F_UNLCK"
    and set: "q_cmd r AND SETFLCK \<noteq> 0" and nfs: "\<not> (l_type e = F_UNLCK \<and> l_vfs e = MNT_NFS \<and> rid \<noteq> 0)"
  shows "setlk_post (q_gp r) e k (reclock_body cf rrc r whence e rid k)"
proof -
  let ?gp = "q_gp r" and ?n = "nflox_max cf"
  have g: "?gp < length (gn_filocks k)" using k gp by (simp add: reclock_ok_def)
  have v: "vok (view (gn_filocks k ! ?gp))" using reclock_ok_vok [OF k gp] by (simp add: views_nth [OF g])
  have sp: "0 \<le> l_start e" "l_start e \<le> l_end e" using e by (simp_all add: span_ok_def)
  show ?thesis
  proof (cases "l_type e = F_UNLCK")
    case unlock: True
    obtain k' ld' rid' ret where adj: "flckadj cf rrc ?gp (case gn_filocks k ! ?gp of [] \<Rightarrow> None | f # _ \<Rightarrow> Some (fl_id f)) e rid k
        = (k', ld', rid', ret)" using prod_cases4 by blast
    have "setlk_post ?gp e k (LRet k' ld' rid' ret)"
      by (rule adjust_post [OF k gp unlock_request adj]) (use unlock sp in simp_all)
    moreover have "reclock_body cf rrc r whence e rid k = reclock_end r whence ld' rid' ret k'"
      using unlock adj set nfs unfolding reclock_body_def Let_def by auto
    ultimately show ?thesis by (simp add: setlk_end)
  next
    case False
    then have lock: "l_type e = F_RDLCK \<or> l_type e = F_WRLCK" using t by blast
    obtain bl ins where b: "blocked (gn_filocks k ! ?gp) e = (bl, ins)" by fastforce
    show ?thesis
    proof (cases bl)
      case None
      obtain k' ld' rid' ret where adj: "flckadj cf rrc ?gp ins e rid k = (k', ld', rid', ret)" using prod_cases4 by blast
      have "\<forall>f \<in> set (gn_filocks k ! ?gp). \<not> blocks (fset f) e" using blocked_iff [OF v sp(2)] b None by simp
      then have "\<forall>p \<in> set (views k ! ?gp). \<not> blocks (snd p) e" by (auto simp: views_nth [OF g] view_def)
      then have "setlk_post ?gp e k (LRet k' ld' rid' ret)"
        by (intro adjust_post [OF k gp blocked_request [OF b [unfolded None] v sp lock] adj]) simp
      moreover have "reclock_body cf rrc r whence e rid k = reclock_end r whence ld' rid' ret k'"
        using lock adj set b None unfolding reclock_body_def Let_def by auto
      ultimately show ?thesis by (simp add: setlk_end)
    next
      case (Some fl)
      have "fl \<in> set (gn_filocks k ! ?gp) \<and> blocks (fset fl) e" using blocked_iff [OF v sp(2)] b Some by simp
      then have clash: "l_type e \<noteq> F_UNLCK \<and> (\<exists>p \<in> set (views k ! ?gp). blocks (snd p) e)"
        using blocks_view False by (auto simp: views_nth [OF g])
      have ret: "setlk_post ?gp e k (LRet k' ld' rid' (Some x))" if "views k' = views k" "x \<in> {EAGAIN, EDEADLK, ENOLCK}"
        for k' ld' rid' x using that clash by (auto simp: setlk_post_def Let_def)
      obtain k1 sf where ins: "insflck cf SleepLocks e None k = (k1, sf)" by fastforce
      note same = blocked_sleep_same [OF k gp ins]
      have sleep: "setlk_post ?gp e k (LSleep k' z)" if "views k' = views k" "z_ld z = e" for k' z
        using that clash by (auto simp: setlk_post_def Let_def)
      have hang: "setlk_post ?gp e k LHang" using clash by (auto simp: setlk_post_def Let_def)
      have body: "reclock_body cf rrc r whence e rid k =
        (if q_fcn r \<noteq> 0 \<or> q_cmd r AND SLPFLCK \<noteq> 0 then
           (case deadflck fl e k of
              None \<Rightarrow> LHang
            | Some True \<Rightarrow> reclock_end r whence e rid (Some EDEADLK) k
            | Some False \<Rightarrow>
                (case sf of
                   None \<Rightarrow> reclock_end r whence e rid (Some ENOLCK) k1
                 | Some i \<Rightarrow>
                     if q_fcn r \<noteq> 0
                     then reclock_end r whence e (slot_addr (fl_id fl)) (Some EAGAIN) (mark_blocked ?gp fl i (q_fcn r) k1)
                     else LSleep (upd_entry (GnLocks ?gp) (fl_id fl) (\<lambda>f. f\<lparr>fevent := fevent f @ [q_thr r]\<rparr>)
                              (mark_blocked ?gp fl i (q_fcn r) k1))
                            \<lparr>z_req = r, z_ld = e, z_whence = whence, z_rid = rid, z_sf = i\<rparr>))
         else reclock_end r whence e rid (Some EAGAIN) k)"
        using lock b Some ins set unfolding reclock_body_def Let_def by (auto split: option.splits bool.splits)
      show ?thesis unfolding body
        using hang same_views [OF same(1)] same_views [OF same(2)] same_views [OF same(3)]
        by (auto simp: setlk_end intro: ret sleep split: option.splits bool.splits)
    qed
  qed
qed

section \<open>The caller's structure\<close>

definition in_int64 :: "int \<Rightarrow> bool" where
  "in_int64 x \<longleftrightarrow> - (2 ^ 63) \<le> x \<and> x < 2 ^ 63"

lemma wrap64_back: "in_int64 x \<Longrightarrow> wrap64 (wrap64 (x + y) - y) = x"
proof -
  assume x: "in_int64 x"
  have "((x + y + 2 ^ 63) mod 2 ^ 64 - 2 ^ 63 - y + 2 ^ 63) mod 2 ^ 64 = ((x + y + 2 ^ 63) mod 2 ^ 64 - y) mod 2 ^ 64"
    by (simp add: algebra_simps)
  also have "\<dots> = (x + 2 ^ 63) mod 2 ^ 64"
    by (subst mod_diff_left_eq) (simp add: algebra_simps)
  also have "\<dots> = x + 2 ^ 63" using x by (simp add: in_int64_def)
  finally show ?thesis by (simp add: wrap64_def)
qed

lemma convoff_back:
  assumes "convoff sz off ld 0 = (None, ld1)" and "in_int64 (l_start ld)"
  shows "snd (convoff sz off (ld1\<lparr>l_len := m, l_type := t\<rparr>) (l_whence ld)) = ld\<lparr>l_len := m, l_type := t\<rparr>"
proof -
  have w: "l_whence ld = 0 \<or> l_whence ld = 1 \<or> l_whence ld = 2" using assms(1) by (auto simp: convoff_def split: if_splits)
  let ?s = "if l_whence ld = 1 then wrap64 (l_start ld + off) else if l_whence ld = 2 then wrap64 (l_start ld + sz) else l_start ld"
  have ld1: "ld1 = ld\<lparr>l_start := ?s, l_whence := 0\<rparr>" and pos: "0 \<le> ?s"
    using assms(1) w by (elim disjE; simp add: convoff_def Let_def split: if_splits)+
  have "snd (convoff sz off (ld1\<lparr>l_len := m, l_type := t\<rparr>) (l_whence ld)) =
      ld1\<lparr>l_len := m, l_type := t, l_whence := l_whence ld, l_start :=
        (if l_whence ld = 1 then wrap64 (?s - off) else if l_whence ld = 2 then wrap64 (?s - sz) else ?s)\<rparr>"
    using w pos unfolding ld1 by (elim disjE; simp add: convoff_def Let_def)
  also have "\<dots> = ld\<lparr>l_len := m, l_type := t\<rparr>"
    using w wrap64_back [OF assms(2)] unfolding ld1 by (elim disjE; simp)
  finally show ?thesis .
qed

lemma convoff_stay:
  assumes "convoff sz off ld 0 = (None, ld1)"
  shows "snd (convoff sz off (ld1\<lparr>l_len := m, l_type := t\<rparr>) 0) = ld1\<lparr>l_len := m, l_type := t\<rparr>"
  using convoff_start [OF assms] by (simp add: convoff_def Let_def)

text \<open>What \<open>endloop\<close> gives back of a request that was not adjusted.\<close>

lemma end_restores:
  assumes c: "fst (convoff (q_size r) (q_off r) ld 0) = None" and s: "in_int64 (l_start ld)" and l: "in_int64 (l_len ld)"
    and m: "l_end (lock_span r ld) = MAXEND \<Longrightarrow> l_len ld = 0"
  shows "reclock_end r (l_whence ld) ((lock_span r ld)\<lparr>l_type := t\<rparr>) rid ret k =
    LRet k (if q_cmd r AND SETFLCK \<noteq> 0 then ld\<lparr>l_type := t\<rparr>
            else (lock_span r ld)\<lparr>l_len := l_len ld, l_type := t\<rparr>) rid ret"
proof -
  obtain ld1 where c1: "convoff (q_size r) (q_off r) ld 0 = (None, ld1)" using c by (metis prod.collapse)
  let ?n = "if l_len ld1 = 0 then MAXEND else wrap64 (l_len ld1 + (l_start ld1 - 1))"
  have sp: "lock_span r ld = ld1\<lparr>l_len := ?n\<rparr>" by (simp add: lock_span_def c1 Let_def)
  have len: "l_len ld1 = l_len ld" using convoff_start [OF c1] by simp
  have "wrap64 (?n - (l_start ld1 - 1)) = l_len ld" if "?n \<noteq> MAXEND"
    using wrap64_back [OF l, of "l_start ld1 - 1"] that len by (auto split: if_splits)
  then have e: "(if l_end (lock_span r ld) = MAXEND then ((lock_span r ld)\<lparr>l_type := t\<rparr>)\<lparr>l_len := 0\<rparr>
      else ((lock_span r ld)\<lparr>l_type := t\<rparr>)\<lparr>l_len := wrap64 (l_len ((lock_span r ld)\<lparr>l_type := t\<rparr>)
        - (l_start ((lock_span r ld)\<lparr>l_type := t\<rparr>) - 1))\<rparr>) = ld1\<lparr>l_len := l_len ld, l_type := t\<rparr>"
    using m unfolding sp by (auto intro!: eflock.equality)
  have "l_end ((lock_span r ld)\<lparr>l_type := t\<rparr>) = l_end (lock_span r ld)" by simp
  then show ?thesis
    unfolding reclock_end_def Let_def e using convoff_back [OF c1 s] convoff_stay [OF c1]
    by (simp add: e) (simp add: sp)
qed


lemma convoff_keeps: "l_type (snd (convoff sz off ld w)) = l_type ld" "owner_of (snd (convoff sz off ld w)) = owner_of ld"
  by (simp_all add: convoff_def Let_def owner_of_def)

lemma end_keeps: "\<exists>ld'. reclock_end r whence ld rid ret k = LRet k ld' rid ret \<and> l_type ld' = l_type ld \<and> owner_of ld' = owner_of ld"
  unfolding reclock_end_def Let_def lock_res.inject using convoff_keeps by (auto simp: owner_of_def)

lemma probe_body:
  assumes k: "reclock_ok n ngn k" and gp: "q_gp r < ngn" and e: "span_ok e"
    and lock: "l_type e = F_RDLCK \<or> l_type e = F_WRLCK" and fcn: "q_fcn r = 0" and slp: "q_cmd r AND SLPFLCK = 0"
  shows "if \<exists>p \<in> set (views k ! q_gp r). blocks (snd p) e then
      (if q_cmd r AND SETFLCK \<noteq> 0 then reclock_body cf rrc r whence e rid k = reclock_end r whence e rid (Some EAGAIN) k
       else \<exists>p \<in> set (views k ! q_gp r). blocks (snd p) e
         \<and> reclock_body cf rrc r whence e rid k = reclock_end r whence (snd p) rid None k)
    else q_cmd r AND SETFLCK = 0 \<longrightarrow> reclock_body cf rrc r whence e rid k = reclock_end r whence (e\<lparr>l_type := F_UNLCK\<rparr>) rid None k"
proof -
  let ?gp = "q_gp r"
  have g: "?gp < length (gn_filocks k)" using k gp by (simp add: reclock_ok_def)
  have v: "vok (view (gn_filocks k ! ?gp))" using reclock_ok_vok [OF k gp] by (simp add: views_nth [OF g])
  obtain bl ins where b: "blocked (gn_filocks k ! ?gp) e = (bl, ins)" by fastforce
  note d = blocked_iff [OF v, of e]
  show ?thesis
  proof (cases bl)
    case None
    then have "\<not> (\<exists>p \<in> set (views k ! ?gp). blocks (snd p) e)"
      using d e b by (auto simp: views_nth [OF g] view_def span_ok_def)
    moreover have "q_cmd r AND SETFLCK = 0 \<Longrightarrow> reclock_body cf rrc r whence e rid k = reclock_end r whence (e\<lparr>l_type := F_UNLCK\<rparr>) rid None k"
      using lock b None unfolding reclock_body_def Let_def by simp
    ultimately show ?thesis by auto
  next
    case (Some fl)
    then have fl: "fl \<in> set (gn_filocks k ! ?gp)" "blocks (fset fl) e" using d e b by (auto simp: span_ok_def)
    then have p: "(fl_id fl, fset fl) \<in> set (views k ! ?gp)" by (auto simp: views_nth [OF g] view_def)
    have "q_cmd r AND SETFLCK \<noteq> 0 \<Longrightarrow> reclock_body cf rrc r whence e rid k = reclock_end r whence e rid (Some EAGAIN) k"
      "q_cmd r AND SETFLCK = 0 \<Longrightarrow> reclock_body cf rrc r whence e rid k = reclock_end r whence (fset fl) rid None k"
      using lock b Some fcn slp unfolding reclock_body_def Let_def by simp_all
    then show ?thesis using p fl(2) by force
  qed
qed

section \<open>Deadlock\<close>

text \<open>Who waits for whom, as the entries on the list of sleeping locks say.\<close>

definition waits :: "filock list \<Rightarrow> (owner \<times> owner) set" where
  "waits sl = {(owner_of (fset sf), blocker_of sf) | sf. sf \<in> set sl \<and> fstate sf AND LCK_BLOCKED \<noteq> 0}"

definition waits_next :: "filock list \<Rightarrow> owner \<Rightarrow> owner option" where
  "waits_next sl b = map_option blocker_of (find (\<lambda>sf. owner_of (fset sf) = b \<and> fstate sf AND LCK_BLOCKED \<noteq> 0) sl)"

lemma dead_loop_next:
  "dead_loop sl me b = (if b = me then Some True
     else case waits_next sl b of None \<Rightarrow> Some False | Some b' \<Rightarrow> dead_loop sl me b')"
  by (subst dead_loop.simps) (simp add: waits_next_def split: option.splits)

lemma waits_next_Some: "waits_next sl b = Some b' \<Longrightarrow> (b, b') \<in> waits sl"
  by (auto simp: waits_next_def waits_def find_Some_iff)

lemma waits_next_None: "waits_next sl b = None \<Longrightarrow> (b, b') \<notin> waits sl"
  by (auto simp: waits_next_def waits_def find_None_iff)

lemma finite_waits: "finite (waits sl)"
proof -
  have "waits sl \<subseteq> (\<lambda>sf. (owner_of (fset sf), blocker_of sf)) ` set sl" by (auto simp: waits_def)
  then show ?thesis by (rule finite_subset) simp
qed

text \<open>Where every owner sleeps once at most and the waiting has no cycle away from \<open>me\<close>, the loop ends and is right.\<close>

lemma dead_loop_right:
  assumes sv: "single_valued (waits sl)" and ac: "acyclic (waits sl \<inter> {(a, b). a \<noteq> me})"
  shows "dead_loop sl me b = Some ((b, me) \<in> (waits sl)\<^sup>*)"
proof -
  let ?R = "waits sl \<inter> {(a, b). a \<noteq> me}"
  have "wf (?R\<inverse>)" by (rule finite_acyclic_wf_converse) (simp_all add: finite_waits ac)
  then show ?thesis
  proof (induction b rule: wf_induct_rule)
    case (less b)
    show ?case
    proof (cases "b = me")
      case True
      then show ?thesis by (subst dead_loop_next) simp
    next
      case False
      show ?thesis
      proof (cases "waits_next sl b")
        case None
        then have "(b, me) \<notin> (waits sl)\<^sup>*" using waits_next_None False by (metis converse_rtranclE)
        with None False show ?thesis by (subst dead_loop_next) simp
      next
        case (Some c)
        have c: "(b, c) \<in> waits sl" by (rule waits_next_Some [OF Some])
        then have "dead_loop sl me c = Some ((c, me) \<in> (waits sl)\<^sup>*)" using less False by simp
        moreover have "(c, me) \<in> (waits sl)\<^sup>* \<longleftrightarrow> (b, me) \<in> (waits sl)\<^sup>*"
          using c False sv by (metis converse_rtranclE converse_rtrancl_into_rtrancl single_valuedD)
        ultimately show ?thesis using Some False by (subst dead_loop_next) simp
      qed
    qed
  qed
qed

text \<open>On a cycle away from \<open>me\<close> the loop does not end.\<close>

lemma dead_loop_cycle:
  assumes "\<And>b. b \<in> C \<Longrightarrow> b \<noteq> me \<and> (\<exists>b' \<in> C. waits_next sl b = Some b')" and "b \<in> C"
  shows "dead_loop sl me b = None"
proof -
  let ?P = "\<lambda>sl' me' b (y :: bool). sl' = sl \<and> me' = me \<longrightarrow> b \<notin> C"
  have step: "sl' = sl \<and> me' = me \<longrightarrow> b \<notin> C"
    if ih: "\<And>sl' me' b y. f sl' me' b = Some y \<Longrightarrow> sl' = sl \<and> me' = me \<longrightarrow> b \<notin> C"
      and body: "(if b = me' then Some True
        else case find (\<lambda>sf. owner_of (fset sf) = b \<and> fstate sf AND LCK_BLOCKED \<noteq> 0) sl' of
               None \<Rightarrow> Some False | Some sf \<Rightarrow> f sl' me' (blocker_of sf)) = Some y" for f sl' me' b y
  proof (intro impI notI)
    assume eq: "sl' = sl \<and> me' = me" and b: "b \<in> C"
    from assms(1) [OF b] obtain b' where b': "b' \<in> C" "b \<noteq> me" "waits_next sl b = Some b'" by auto
    then obtain sf where "find (\<lambda>sf. owner_of (fset sf) = b \<and> fstate sf AND LCK_BLOCKED \<noteq> 0) sl = Some sf" "blocker_of sf = b'"
      by (auto simp: waits_next_def)
    then have "f sl me b' = Some y" using body eq b'(2) by simp
    with ih [OF this] b'(1) show False by simp
  qed
  have "?P sl me b y" if "dead_loop sl me b = Some y" for y
    by (rule dead_loop.raw_induct [where P = ?P, OF _ that]) (rule step)
  then show ?thesis using assms(2) by (cases "dead_loop sl me b") auto
qed

section \<open>Properties\<close>

text \<open>A small table and its requests: \<open>F_SETLKW\<close> is \<open>SETFLCK\<close> with \<open>SLPFLCK\<close>, 6; \<open>F_SETLK\<close> is 2.\<close>

definition ex_lk :: "int \<Rightarrow> int \<Rightarrow> int \<Rightarrow> int \<Rightarrow> eflock" where
  "ex_lk t pid st len = \<lparr>l_type = t, l_whence = 0, l_sysid = 0, l_pid = pid, l_vfs = 0, l_start = st, l_len = len\<rparr>"

definition ex_rq :: "nat \<Rightarrow> 32 word \<Rightarrow> lock_req" where
  "ex_rq t cmd = \<lparr>q_gp = 0, q_size = 0, q_off = 0, q_cmd = cmd, q_fcn = 0, q_thr = t\<rparr>"

definition ex_cf :: flox_conf where
  "ex_cf = \<lparr>nflox_max = 20, per_page = 10\<rparr>"

definition ex_rrc :: "int \<Rightarrow> int" where
  "ex_rrc f = 0"

text \<open>Process 1 locks bytes 0 to 9 for writing, process 2 bytes 20 to 29 for reading.\<close>

definition ex_lrun :: "reclock_ev list" where
  "ex_lrun = [RlCall (ex_rq 1 2) (ex_lk F_WRLCK 1 0 10) 0, RlCall (ex_rq 2 2) (ex_lk F_RDLCK 2 20 10) 0]"

lemma ex_lrun_views: "\<exists>k. run (reclock_next ex_cf ex_rrc) ex_lrun (flckinit 1 10, []) = Some (k, [])
    \<and> views k = [[(9, (ex_lk F_WRLCK 1 0 9)), (8, (ex_lk F_RDLCK 2 20 29))]]"
proof -
  have "case run (reclock_next ex_cf ex_rrc) ex_lrun (flckinit 1 10, []) of None \<Rightarrow> False
    | Some (k, zs) \<Rightarrow> zs = [] \<and> views k = [[(9, (ex_lk F_WRLCK 1 0 9)), (8, (ex_lk F_RDLCK 2 20 29))]]"
    by code_simp
  then show ?thesis by (auto split: option.splits)
qed

lemma lock_span_fields:
  assumes "fst (convoff (q_size r) (q_off r) ld 0) = None"
  shows "(lock_span r ld)\<lparr>l_len := m, l_type := t\<rparr> =
    ld\<lparr>l_type := t, l_whence := 0, l_start := l_start (lock_span r ld), l_len := m\<rparr>"
proof -
  obtain ld1 where c: "convoff (q_size r) (q_off r) ld 0 = (None, ld1)" using assms by (metis prod.collapse)
  from convoff_start [OF c] have "l_whence ld1 = 0" "owner_of ld1 = owner_of ld" by simp_all
  then show ?thesis by (auto simp: lock_span_def c Let_def owner_of_def intro!: eflock.equality)
qed

text \<open>
  A request of the owner kind of the NFS lock daemon that sleeps itself, without a retry function, may share its entry with another: \<open>insflck\<close> gives
  the entry of an equal request. The daemon uses retry functions; runs without such requests are legal.
\<close>

definition lock_legal :: "reclock_ev \<Rightarrow> bool" where
  "lock_legal e = (case e of RlCall r ld rid \<Rightarrow> q_fcn r \<noteq> 0 \<or> q_cmd r AND SLPFLCK = 0 \<or> l_vfs ld \<noteq> MNT_NFS | RlWake sig z \<Rightarrow> True)"

definition sleepers_ok :: "locksys \<times> lock_sleep list \<Rightarrow> bool" where
  "sleepers_ok s \<longleftrightarrow> (case s of (k, zs) \<Rightarrow>
     \<not> k_bad k \<and> distinct (map z_sf zs) \<and> (\<forall>z \<in> set zs. safe k (z_sf z) \<and> l_vfs (z_ld z) \<noteq> MNT_NFS))"

lemma sleepers_next:
  assumes inv: "reclock_inv (nflox_max cf) ngn s" and s: "sleepers_ok s" and lg: "lock_legal e" and st: "reclock_next cf rrc e s = Some s'"
  shows "sleepers_ok s'"
proof -
  obtain k zs where k: "s = (k, zs)" by fastforce
  have ok: "slots_ok (nflox_max cf) k" "length (gn_filocks k) = ngn" using inv by (simp_all add: reclock_inv_def reclock_ok_def k)
  have i: "\<not> k_bad k" "distinct (map z_sf zs)" "\<And>z. z \<in> set zs \<Longrightarrow> safe k (z_sf z) \<and> l_vfs (z_ld z) \<noteq> MNT_NFS"
    using s by (auto simp: sleepers_ok_def k)
  show ?thesis
  proof (cases e)
    case (RlCall r ld rid)
    have gp: "q_gp r < length (gn_filocks k)" using st RlCall by (auto simp: reclock_next_def k split: if_splits)
    have "quiet_res k (common_reclock cf rrc r ld rid k)"
      by (rule quiet_call [OF ok(1) gp]) (use lg RlCall in \<open>auto simp: lock_legal_def may_sleep_def\<close>)
    then show ?thesis using st RlCall gp i
      by (auto simp: reclock_next_def k sleepers_ok_def quiet_res_def split: lock_res.splits)
  next
    case (RlWake sig z)
    then have z: "z \<in> set zs" using st by (auto simp: reclock_next_def k split: if_splits)
    then have "q_gp (z_req z) < length (gn_filocks k)" using inv ok(2) by (auto simp: reclock_inv_def sleep_ok_def k)
    note q = quiet_wake [where cf = cf and rrc = rrc and sig = sig, OF ok(1) this] 
    have d: "distinct zs" using i(2) by (simp add: distinct_map)
    have rem: "set (remove1 z zs) = set zs - {z}" using d by (rule set_remove1_eq)
    have other: "z_sf y \<noteq> z_sf z" if "y \<in> set zs - {z}" for y using i(2) z that by (auto simp: distinct_map dest: inj_onD)
    have dm: "distinct (map z_sf (remove1 z zs))" using i(2) d by (simp add: distinct_map rem inj_on_diff)
    note q = q [OF i(3) [OF z, THEN conjunct1] i(3) [OF z, THEN conjunct2]]
    have y: "safe k (z_sf y) \<and> l_vfs (z_ld y) \<noteq> MNT_NFS \<and> z_sf y \<noteq> z_sf z" if "y \<in> set (remove1 z zs)" for y
      using that i(3) other unfolding rem by blast
    show ?thesis
    proof (cases "reclock_wake cf rrc sig z k")
      case (LRet k' ld rid ret)
      then have "s' = (k', remove1 z zs)" using st RlWake z by (simp add: reclock_next_def k)
      then show ?thesis using q i(1) dm y by (simp add: LRet sleepers_ok_def)
    next
      case (LSleep k' z')
      then have s': "s' = (k', z' # remove1 z zs)" using st RlWake z by (simp add: reclock_next_def k)
      note q' = q [unfolded LSleep lock_res.case]
      note f = q' [THEN conjunct1] q' [THEN conjunct2, THEN conjunct1, rule_format] q' [THEN conjunct2, THEN conjunct2, THEN conjunct1]
        q' [THEN conjunct2, THEN conjunct2, THEN conjunct2]
      have "z_sf z' \<noteq> z_sf x" if "x \<in> set (remove1 z zs)" for x using f(2) [of "z_sf x"] y [OF that] by auto
      then have "z_sf z' \<notin> z_sf ` set (remove1 z zs)" by auto
      then have "distinct (map z_sf (z' # remove1 z zs))" using dm by (simp only: list.map distinct.simps set_map simp_thms)
      moreover have "safe k' (z_sf x) \<and> l_vfs (z_ld x) \<noteq> MNT_NFS" if "x \<in> set (z' # remove1 z zs)" for x
        using that f(2) [of "z_sf x"] f(3,4) y [of x] by (cases "x = z'") auto
      ultimately show ?thesis using f(1) i(1) unfolding s' sleepers_ok_def prod.case by blast
    next
      case LHang
      then show ?thesis using st RlWake z by (simp add: reclock_next_def k)
    qed
  qed
qed

lemma sleepers_run:
  "reclock_inv (nflox_max cf) ngn s \<Longrightarrow> sleepers_ok s \<Longrightarrow> list_all lock_legal es \<Longrightarrow> run (reclock_next cf rrc) es s = Some s' \<Longrightarrow> sleepers_ok s'"
proof (induction es arbitrary: s)
  case (Cons e es)
  then obtain s1 where s1: "reclock_next cf rrc e s = Some s1" "run (reclock_next cf rrc) es s1 = Some s'" by (auto split: option.splits)
  from sleepers_next [OF Cons.prems(1,2) _ s1(1)] reclock_next_inv [OF Cons.prems(1) s1(1)] Cons.IH [OF _ _ _ s1(2)] Cons.prems(3) show ?case by simp
qed simp

text \<open>
  C1. In every state that calls of \<open>common_reclock\<close> and wakeups reach from an empty table, in
  any order and on any number of files, no entry has been unlinked that was not on its list: \<open>delflck\<close> has not panicked and has freed no slot
  twice. Each slot is on one list at most, the locks of every
  file are ordered by start, those of one owner do not overlap or adjoin in one mode, and a byte
  locked for writing has no other holder. The calls are legal: none with \<open>l_vfs = MNT_NFS\<close> sleeps in the call itself. Two that do may share one entry,
  which is then freed twice: \<open>nfs_sleepers_share\<close>.
\<close>

theorem write_lock_exclusive:
  assumes "nmin \<le> nflox_max cf" and "run (reclock_next cf rrc) es (flckinit ngn nmin, []) = Some (k, zs)" and "list_all lock_legal es" and "gp < ngn"
  shows "\<not> k_bad k \<and> slots_ok (nflox_max cf) k \<and> vok (views k ! gp)
    \<and> (\<forall>w w' b t. holds (views k ! gp) w b F_WRLCK \<longrightarrow> holds (views k ! gp) w' b t \<longrightarrow> w' = w \<and> t = F_WRLCK)"
proof -
  from reclock_machine.run_inv [OF flckinit_inv [OF assms(1)] assms(2)]
  have k: "reclock_ok (nflox_max cf) ngn k" by (simp add: reclock_inv_def)
  have "sleepers_ok (flckinit ngn nmin, [])" by (simp add: sleepers_ok_def flckinit_def)
  from sleepers_run [OF flckinit_inv [OF assms(1)] this assms(3,2)] have "\<not> k_bad k" by (simp add: sleepers_ok_def)
  then show ?thesis using k reclock_ok_vok [OF k assms(4)] vok_exclusive by (simp add: reclock_ok_def)
qed

text \<open>Two threads of one owner that wait for the same bytes with \<open>l_vfs = MNT_NFS\<close> share an entry; each frees it when it wakes.\<close>

definition ex_nfs :: "reclock_ev list" where
  "ex_nfs = [RlCall (ex_rq 1 2) (ex_lk F_WRLCK 1 0 10) 0,
     RlCall (ex_rq 2 6) ((ex_lk F_WRLCK 2 0 10)\<lparr>l_vfs := MNT_NFS\<rparr>) 0, RlCall (ex_rq 3 6) ((ex_lk F_WRLCK 2 0 10)\<lparr>l_vfs := MNT_NFS\<rparr>) 0]"

lemma nfs_sleepers_share:
  "\<exists>k zs k'. run (reclock_next ex_cf ex_rrc) ex_nfs (flckinit 1 10, []) = Some (k, zs) \<and> map z_sf zs = [8, 8] \<and> \<not> k_bad k
     \<and> run (reclock_next ex_cf ex_rrc) [RlWake True (zs ! 0), RlWake True (zs ! 1)] (k, zs) = Some (k', []) \<and> k_bad k'"
proof -
  have "case run (reclock_next ex_cf ex_rrc) ex_nfs (flckinit 1 10, []) of None \<Rightarrow> False
    | Some (k, zs) \<Rightarrow> map z_sf zs = [8, 8] \<and> \<not> k_bad k
        \<and> (case run (reclock_next ex_cf ex_rrc) [RlWake True (zs ! 0), RlWake True (zs ! 1)] (k, zs) of None \<Rightarrow> False
           | Some (k', zs') \<Rightarrow> zs' = [] \<and> k_bad k')" by code_simp
  then show ?thesis by (auto split: option.splits prod.splits simp del: run.simps)
qed

theorem write_lock_exclusive_witness:
  "\<exists>k. run (reclock_next ex_cf ex_rrc) ex_lrun (flckinit 1 10, []) = Some (k, [])
     \<and> holds (views k ! 0) (1, 0, 0) 4 F_WRLCK \<and> \<not> holds (views k ! 0) (2, 0, 0) 4 F_RDLCK"
proof -
  obtain k where k: "run (reclock_next ex_cf ex_rrc) ex_lrun (flckinit 1 10, []) = Some (k, [])"
    "views k = [[(9, (ex_lk F_WRLCK 1 0 9)), (8, (ex_lk F_RDLCK 2 20 29))]]"
    using ex_lrun_views by blast
  have h: "holds (views k ! 0) (1, 0, 0) 4 F_WRLCK" by (simp add: k(2) ex_lk_def owner_of_def)
  have m: "10 \<le> nflox_max ex_cf" "0 < (1 :: nat)" by (simp_all add: ex_cf_def)
  have lg: "list_all lock_legal ex_lrun" by code_simp
  note x = write_lock_exclusive [OF m(1) k(1) lg m(2), THEN conjunct2, THEN conjunct2, THEN conjunct2, rule_format, OF h]
  have "\<not> holds (views k ! 0) (2, 0, 0) 4 F_RDLCK" using x [of "(2, 0, 0)" F_RDLCK] by auto
  with k(1) h show ?thesis by blast
qed

text \<open>
  C2. A call that may change a file, in any state the system reaches: if another owner's lock
  conflicts, no lock changes, and the call fails or sleeps; otherwise the bytes of the request
  come to be held as it asks, or by nobody, and nothing else changes, or the call fails with
  \<open>ENOLCK\<close> and no other owner's locks change. The requests of the NFS lock daemon to take back a
  waiting request are left out. Where an illegal run, in the sense of \<open>lock_legal\<close>, has freed an entry twice, the lists here are no longer those of the code.
\<close>

theorem setlk_refines:
  assumes "nmin \<le> nflox_max cf" and "run (reclock_next cf rrc) es (flckinit ngn nmin, []) = Some (k, zs)"
    and "q_gp r < ngn" and "q_cmd r AND SETFLCK \<noteq> 0"
    and "l_type ld = F_RDLCK \<or> l_type ld = F_WRLCK \<or> l_type ld = F_UNLCK"
    and "\<not> (l_type ld = F_UNLCK \<and> l_vfs ld = MNT_NFS \<and> rid \<noteq> 0)"
    and "fst (convoff (q_size r) (q_off r) ld 0) = None" and "0 \<le> l_len ld"
    and "l_start (lock_span r ld) \<le> l_end (lock_span r ld)"
  shows "setlk_post (q_gp r) (lock_span r ld) k (common_reclock cf rrc r ld rid k)"
proof -
  from reclock_machine.run_inv [OF flckinit_inv [OF assms(1)] assms(2)]
  have k: "reclock_ok (nflox_max cf) ngn k" by (simp add: reclock_inv_def)
  note b = common_reclock_body [OF assms(7-9), of cf rrc rid k]
  then have "l_vfs (lock_span r ld) = l_vfs ld" by (simp add: owner_of_def)
  with b setlk_body [OF k assms(3) _ _ assms(4)] assms(5,6) show ?thesis by simp
qed

theorem setlk_refines_witness:
  "\<exists>k k' v. run (reclock_next ex_cf ex_rrc) ex_lrun (flckinit 1 10, []) = Some (k, [])
     \<and> common_reclock ex_cf ex_rrc (ex_rq 1 2) (ex_lk F_UNLCK 1 3 3) 0 k = LRet k' (ex_lk F_UNLCK 1 3 3) 0 None
     \<and> views k' = [v] \<and> overridden (views k ! 0) (ex_lk F_UNLCK 1 3 5) v"
proof -
  let ?r = "ex_rq 1 2" and ?ld = "ex_lk F_UNLCK 1 3 3"
  obtain k where k: "run (reclock_next ex_cf ex_rrc) ex_lrun (flckinit 1 10, []) = Some (k, [])"
    "views k = [[(9, (ex_lk F_WRLCK 1 0 9)), (8, (ex_lk F_RDLCK 2 20 29))]]"
    using ex_lrun_views by blast
  have "case run (reclock_next ex_cf ex_rrc) ex_lrun (flckinit 1 10, []) of None \<Rightarrow> False
    | Some (k, zs) \<Rightarrow> (case common_reclock ex_cf ex_rrc ?r ?ld 0 k of
        LRet k' ld' rid' ret \<Rightarrow> ld' = ?ld \<and> rid' = 0 \<and> ret = None | _ \<Rightarrow> False)" by code_simp
  then obtain k' where r: "common_reclock ex_cf ex_rrc ?r ?ld 0 k = LRet k' ?ld 0 None"
    using k(1) by (auto split: lock_res.splits)
  have s: "lock_span ?r ?ld = ex_lk F_UNLCK 1 3 5" by code_simp
  have "setlk_post (q_gp ?r) (lock_span ?r ?ld) k (common_reclock ex_cf ex_rrc ?r ?ld 0 k)"
  proof (rule setlk_refines [OF _ k(1)])
    show "fst (convoff (q_size ?r) (q_off ?r) ?ld 0) = None" by code_simp
    show "l_start (lock_span ?r ?ld) \<le> l_end (lock_span ?r ?ld)" unfolding s by code_simp
  qed (simp_all add: ex_rq_def ex_lk_def ex_cf_def)
  then obtain v where "views k' = (views k)[0 := v]" "overridden (views k ! 0) (ex_lk F_UNLCK 1 3 5) v"
    unfolding r s by (auto simp: setlk_post_def Let_def ex_rq_def ex_lk_def)
  with k r show ?thesis by auto
qed

text \<open>
  C23. \<open>blocked\<close> gives a lock of the list that conflicts with the request when there is one, and
  otherwise an insertion point that is right for \<open>flckadj\<close>: what stands before it starts before the
  request, and no lock of the caller in front of it touches the request.
\<close>

theorem blocked_decides:
  assumes "vok (view fs)" and "0 \<le> l_start ld" and "l_start ld \<le> l_end ld"
    and "l_type ld = F_RDLCK \<or> l_type ld = F_WRLCK"
  shows "case blocked fs ld of
      (None, ins) \<Rightarrow> (\<forall>f \<in> set fs. \<not> blocks (fset f) ld) \<and> request_ok (view fs) ld ins
    | (Some f, _) \<Rightarrow> f \<in> set fs \<and> blocks (fset f) ld"
  using blocked_iff [OF assms(1,3)] blocked_request [OF _ assms]
  by (auto split: prod.splits option.splits)

definition ex_slot :: "nat \<Rightarrow> eflock \<Rightarrow> filock" where
  "ex_slot i e = (slot_zero i)\<lparr>fset := e\<rparr>"

theorem blocked_decides_witness:
  "case blocked [ex_slot 1 (ex_lk F_WRLCK 1 0 9), ex_slot 2 (ex_lk F_RDLCK 2 20 29)] (ex_lk F_WRLCK 1 5 25) of
     (None, _) \<Rightarrow> False | (Some f, _) \<Rightarrow> fl_id f = 2 \<and> blocks (fset f) (ex_lk F_WRLCK 1 5 25)"
proof -
  let ?fs = "[ex_slot 1 (ex_lk F_WRLCK 1 0 9), ex_slot 2 (ex_lk F_RDLCK 2 20 29)]" and ?ld = "ex_lk F_WRLCK 1 5 25"
  have "vok (view ?fs)"
    by (simp add: vok_def before_def compat_def own_def entry_ok_def ex_slot_def slot_zero_def ex_lk_def)
  from blocked_decides [OF this, of ?ld] have "case blocked ?fs ?ld of
      (None, ins) \<Rightarrow> (\<forall>f \<in> set ?fs. \<not> blocks (fset f) ?ld) | (Some f, _) \<Rightarrow> f \<in> set ?fs \<and> blocks (fset f) ?ld"
    by (simp add: ex_lk_def split: prod.splits option.splits)
  moreover have "map_option fl_id (fst (blocked ?fs ?ld)) = Some 2" by code_simp
  ultimately show ?thesis by (auto split: prod.splits option.splits)
qed

text \<open>
  A call that only asks, or that may not sleep and meets a conflict, changes nothing, and
  gives back the caller's structure: with \<open>EAGAIN\<close> exactly as it came; with \<open>F_UNLCK\<close> in it, and
  the start counted from the beginning of the file, where the request could be granted; and
  else with the owner and mode of a lock that conflicts.
\<close>

lemma call_restores:
  assumes "nmin \<le> nflox_max cf" and "run (reclock_next cf rrc) es (flckinit ngn nmin, []) = Some (k, zs)"
    and "q_gp r < ngn" and "q_fcn r = 0" and "q_cmd r AND SLPFLCK = 0"
    and "l_type ld = F_RDLCK \<or> l_type ld = F_WRLCK"
    and "fst (convoff (q_size r) (q_off r) ld 0) = None" and "0 \<le> l_len ld"
    and "l_start (lock_span r ld) \<le> l_end (lock_span r ld)"
    and "in_int64 (l_start ld)" and "in_int64 (l_len ld)" and "l_end (lock_span r ld) = MAXEND \<Longrightarrow> l_len ld = 0"
  shows "if \<exists>p \<in> set (views k ! q_gp r). blocks (snd p) (lock_span r ld) then
      (if q_cmd r AND SETFLCK \<noteq> 0 then common_reclock cf rrc r ld rid k = LRet k ld rid (Some EAGAIN)
       else \<exists>p ld'. p \<in> set (views k ! q_gp r) \<and> blocks (snd p) (lock_span r ld)
         \<and> common_reclock cf rrc r ld rid k = LRet k ld' rid None
         \<and> l_type ld' = l_type (snd p) \<and> owner_of ld' = owner_of (snd p))
    else q_cmd r AND SETFLCK = 0 \<longrightarrow> common_reclock cf rrc r ld rid k =
      LRet k (ld\<lparr>l_type := F_UNLCK, l_whence := 0, l_start := l_start (lock_span r ld)\<rparr>) rid None"
proof -
  from reclock_machine.run_inv [OF flckinit_inv [OF assms(1)] assms(2)]
  have k: "reclock_ok (nflox_max cf) ngn k" by (simp add: reclock_inv_def)
  note b = common_reclock_body [OF assms(7-9), of cf rrc rid k]
  note res = end_restores [OF assms(7,10,11,12)]
  have t: "(lock_span r ld)\<lparr>l_type := l_type ld\<rparr> = lock_span r ld" "ld\<lparr>l_type := l_type ld\<rparr> = ld"
    using b by simp_all
  have same: "q_cmd r AND SETFLCK \<noteq> 0 \<Longrightarrow>
      reclock_end r (l_whence ld) (lock_span r ld) rid (Some EAGAIN) k = LRet k ld rid (Some EAGAIN)"
    using res [of "l_type ld"] unfolding t by simp
  have free: "q_cmd r AND SETFLCK = 0 \<Longrightarrow>
      reclock_end r (l_whence ld) ((lock_span r ld)\<lparr>l_type := F_UNLCK\<rparr>) rid None k =
      LRet k (ld\<lparr>l_type := F_UNLCK, l_whence := 0, l_start := l_start (lock_span r ld)\<rparr>) rid None"
    using res [of F_UNLCK] lock_span_fields [OF assms(7)] by simp
  have lock: "l_type (lock_span r ld) = F_RDLCK \<or> l_type (lock_span r ld) = F_WRLCK" using b assms(6) by simp
  from probe_body [OF k assms(3) _ lock assms(4,5), of cf rrc "l_whence ld" rid] b
  show ?thesis using same free end_keeps by (auto split: if_splits) metis+
qed


lemma call_restores_witness:
  "\<exists>k. run (reclock_next ex_cf ex_rrc) ex_lrun (flckinit 1 10, []) = Some (k, [])
     \<and> common_reclock ex_cf ex_rrc (ex_rq 3 2) (ex_lk F_RDLCK 3 5 2) 0 k = LRet k (ex_lk F_RDLCK 3 5 2) 0 (Some EAGAIN)"
proof -
  let ?r = "ex_rq 3 2" and ?ld = "ex_lk F_RDLCK 3 5 2"
  obtain k where k: "run (reclock_next ex_cf ex_rrc) ex_lrun (flckinit 1 10, []) = Some (k, [])"
    "views k = [[(9, (ex_lk F_WRLCK 1 0 9)), (8, (ex_lk F_RDLCK 2 20 29))]]"
    using ex_lrun_views by blast
  have s: "lock_span ?r ?ld = ex_lk F_RDLCK 3 5 6" by code_simp
  have "if \<exists>p \<in> set (views k ! q_gp ?r). blocks (snd p) (lock_span ?r ?ld) then
      (if q_cmd ?r AND SETFLCK \<noteq> 0 then common_reclock ex_cf ex_rrc ?r ?ld 0 k = LRet k ?ld 0 (Some EAGAIN)
       else \<exists>p ld'. p \<in> set (views k ! q_gp ?r) \<and> blocks (snd p) (lock_span ?r ?ld)
         \<and> common_reclock ex_cf ex_rrc ?r ?ld 0 k = LRet k ld' 0 None
         \<and> l_type ld' = l_type (snd p) \<and> owner_of ld' = owner_of (snd p))
    else q_cmd ?r AND SETFLCK = 0 \<longrightarrow> common_reclock ex_cf ex_rrc ?r ?ld 0 k =
      LRet k (?ld\<lparr>l_type := F_UNLCK, l_whence := 0, l_start := l_start (lock_span ?r ?ld)\<rparr>) 0 None"
  proof (rule call_restores [OF _ k(1)])
    show "fst (convoff (q_size ?r) (q_off ?r) ?ld 0) = None" by code_simp
    show "l_start (lock_span ?r ?ld) \<le> l_end (lock_span ?r ?ld)" unfolding s by code_simp
    show "l_end (lock_span ?r ?ld) = MAXEND \<Longrightarrow> l_len ?ld = 0" unfolding s by (simp add: ex_lk_def)
  qed (simp_all add: ex_rq_def ex_lk_def ex_cf_def in_int64_def)
  moreover have "\<exists>p \<in> set (views k ! q_gp ?r). blocks (snd p) (lock_span ?r ?ld)"
    unfolding s by (simp add: k(2) ex_rq_def ex_lk_def blocks_def own_def conflicts_def)
  moreover have "q_cmd ?r AND SETFLCK \<noteq> 0" by (simp add: ex_rq_def)
  ultimately show ?thesis using k(1) by auto
qed

text \<open>
  C24. The deadlock check comes back with the right answer, whether the caller can be reached
  from the owner of the lock that blocks it by going from sleeper to blocker, where no owner
  sleeps on two locks at once and the waiting away from the caller has no cycle.
\<close>

theorem deadlock_check_exact:
  assumes "single_valued (waits (sleeplcks k))" and "acyclic (waits (sleeplcks k) \<inter> {(a, b). a \<noteq> owner_of ld})"
    and "0 \<le> l_vfs (fset fl)" and "l_vfs (fset fl) < 65536"
  shows "deadflck fl ld k = Some ((owner_of (fset fl), owner_of ld) \<in> (waits (sleeplcks k))\<^sup>*)"
proof -
  have "(l_pid (fset fl), l_sysid (fset fl), ushort (l_vfs (fset fl))) = owner_of (fset fl)"
    using assms(3,4) by (simp add: owner_of_def ushort_id)
  then show ?thesis using dead_loop_right [OF assms(1,2)] by (simp add: deadflck_def)
qed

text \<open>Process 1 sleeps on a lock of process 2.\<close>

definition ex_sleeper :: filock where
  "ex_sleeper = (ex_slot 5 (ex_lk F_WRLCK 1 10 10))\<lparr>fstate := LCK_BLOCKED, b_pid := 2\<rparr>"

theorem deadlock_check_exact_witness:
  "deadflck (ex_slot 9 (ex_lk F_WRLCK 1 0 9)) (ex_lk F_WRLCK 2 0 0) ((flckinit 1 10)\<lparr>sleeplcks := [ex_sleeper]\<rparr>) = Some True"
proof -
  let ?k = "(flckinit 1 10)\<lparr>sleeplcks := [ex_sleeper]\<rparr>"
  have w: "waits (sleeplcks ?k) = {((1, 0, 0), (2, 0, 0))}"
    by (auto simp: waits_def ex_sleeper_def ex_slot_def slot_zero_def ex_lk_def owner_of_def blocker_of_def ushort_def)
  have o: "owner_of (ex_lk F_WRLCK 2 0 0) = (2, 0, 0)" "owner_of (fset (ex_slot 9 (ex_lk F_WRLCK 1 0 9))) = (1, 0, 0)"
    by (simp_all add: ex_lk_def owner_of_def ex_slot_def)
  have "acyclic {((1, 0, 0), (2, 0, 0)) :: owner \<times> owner}" by (simp only: acyclic_insert) (simp add: acyclic_def)
  then have "acyclic ({((1, 0, 0), (2, 0, 0))} \<inter> {(a, b). a \<noteq> ((2, 0, 0) :: owner)})"
    by (rule acyclic_subset) blast
  then have ac: "acyclic (waits (sleeplcks ?k) \<inter> {(a, b). a \<noteq> owner_of (ex_lk F_WRLCK 2 0 0)})" by (simp only: w o)
  have sv: "single_valued (waits (sleeplcks ?k))" by (simp only: w) (simp add: single_valued_def)
  have "deadflck (ex_slot 9 (ex_lk F_WRLCK 1 0 9)) (ex_lk F_WRLCK 2 0 0) ?k =
      Some ((owner_of (fset (ex_slot 9 (ex_lk F_WRLCK 1 0 9))), owner_of (ex_lk F_WRLCK 2 0 0)) \<in> (waits (sleeplcks ?k))\<^sup>*)"
    by (rule deadlock_check_exact [OF sv ac]) (simp_all add: ex_slot_def ex_lk_def)
  also have "\<dots> = Some True" unfolding w o by (simp add: r_into_rtrancl)
  finally show ?thesis .
qed

definition ex_hang :: "reclock_ev list" where
  "ex_hang =
     [RlCall (ex_rq 1 6) (ex_lk F_WRLCK 1 0 1) 0, RlCall (ex_rq 2 6) (ex_lk F_WRLCK 2 10 1) 0,
      RlCall (ex_rq 3 6) (ex_lk F_WRLCK 3 20 1) 0, RlCall (ex_rq 4 6) (ex_lk F_WRLCK 1 10 1) 0,
      RlCall (ex_rq 5 6) (ex_lk F_WRLCK 1 20 1) 0, RlCall (ex_rq 6 6) (ex_lk F_WRLCK 2 0 1) 0,
      RlCall (ex_rq 3 6) (ex_lk F_UNLCK 3 20 1) 0]"

text \<open>
  A process with two threads can make the check go round for ever, with \<open>filock_lock\<close> held.
  Process 1 waits for process 2 and, later, for process 3; process 2 waits for process 1, which the
  check lets pass, as it looks at the latest sleep only; process 3 unlocks. A request by process 4
  for what process 1 holds does not come back.
\<close>

lemma deadlock_check_hangs:
  "\<exists>k zs. run (reclock_next ex_cf ex_rrc) ex_hang (flckinit 1 10, []) = Some (k, zs)
     \<and> common_reclock ex_cf ex_rrc (ex_rq 7 6) (ex_lk F_WRLCK 4 0 1) 0 k = LHang"
proof -
  let ?r = "ex_rq 7 6" and ?ld = "ex_lk F_WRLCK 4 0 1" and ?e = "ex_lk F_WRLCK 4 0 0"
  have "case run (reclock_next ex_cf ex_rrc) ex_hang (flckinit 1 10, []) of None \<Rightarrow> False
    | Some (k, zs) \<Rightarrow>
        map_option fset (fst (blocked (gn_filocks k ! 0) ?e)) = Some (ex_lk F_WRLCK 1 0 0)
        \<and> waits_next (sleeplcks k) (1, 0, 0) = Some (2, 0, 0) \<and> waits_next (sleeplcks k) (2, 0, 0) = Some (1, 0, 0)"
    by code_simp
  then obtain k zs fl ins where k: "run (reclock_next ex_cf ex_rrc) ex_hang (flckinit 1 10, []) = Some (k, zs)"
    and b: "blocked (gn_filocks k ! 0) ?e = (Some fl, ins)" "fset fl = ex_lk F_WRLCK 1 0 0"
    and w: "waits_next (sleeplcks k) (1, 0, 0) = Some (2, 0, 0)" "waits_next (sleeplcks k) (2, 0, 0) = Some (1, 0, 0)"
    by (auto split: option.splits) (metis prod.collapse)
  have s: "lock_span ?r ?ld = ?e" by code_simp
  have "dead_loop (sleeplcks k) (4, 0, 0) (1, 0, 0) = None"
    by (rule dead_loop_cycle [where C = "{(1, 0, 0), (2, 0, 0)}"]) (use w in auto)
  then have "deadflck fl ?e k = None" by (simp add: deadflck_def b(2) ex_lk_def owner_of_def ushort_def)
  then have "reclock_body ex_cf ex_rrc ?r 0 ?e 0 k = LHang"
    using b(1) unfolding reclock_body_def Let_def by (simp add: ex_rq_def ex_lk_def)
  moreover have "common_reclock ex_cf ex_rrc ?r ?ld 0 k = reclock_body ex_cf ex_rrc ?r (l_whence ?ld) (lock_span ?r ?ld) 0 k"
  proof (rule common_reclock_body [THEN conjunct1])
    show "fst (convoff (q_size ?r) (q_off ?r) ?ld 0) = None" by code_simp
    show "l_start (lock_span ?r ?ld) \<le> l_end (lock_span ?r ?ld)" unfolding s by (simp add: ex_lk_def)
  qed (simp add: ex_lk_def)
  ultimately have "common_reclock ex_cf ex_rrc ?r ?ld 0 k = LHang" unfolding s by (simp add: ex_lk_def)
  with k show ?thesis by blast
qed

text \<open>
  A call that fails with \<open>ENOLCK\<close> may have given up locks of the caller: with one slot in the
  table, process 1 locks bytes 0 to 9 for writing and then asks for bytes 5 to 14 for reading; the
  call fails, and the process holds bytes 0 to 4 only.
\<close>

lemma enolck_loses_locks:
  "\<exists>k k' ld'. run (reclock_next \<lparr>nflox_max = 1, per_page = 10\<rparr> ex_rrc) [RlCall (ex_rq 1 2) (ex_lk F_WRLCK 1 0 10) 0]
       (flckinit 1 1, []) = Some (k, [])
     \<and> common_reclock \<lparr>nflox_max = 1, per_page = 10\<rparr> ex_rrc (ex_rq 1 2) (ex_lk F_RDLCK 1 5 10) 0 k = LRet k' ld' 0 (Some ENOLCK)
     \<and> holds (views k ! 0) (1, 0, 0) 7 F_WRLCK \<and> \<not> holds (views k' ! 0) (1, 0, 0) 7 t"
proof -
  have "case run (reclock_next \<lparr>nflox_max = 1, per_page = 10\<rparr> ex_rrc) [RlCall (ex_rq 1 2) (ex_lk F_WRLCK 1 0 10) 0]
      (flckinit 1 1, []) of None \<Rightarrow> False
    | Some (k, zs) \<Rightarrow> zs = [] \<and> views k = [[(0, ex_lk F_WRLCK 1 0 9)]]
        \<and> (case common_reclock \<lparr>nflox_max = 1, per_page = 10\<rparr> ex_rrc (ex_rq 1 2) (ex_lk F_RDLCK 1 5 10) 0 k of
             LRet k' ld' rid ret \<Rightarrow> rid = 0 \<and> ret = Some ENOLCK \<and> views k' = [[(0, ex_lk F_WRLCK 1 0 4)]]
           | _ \<Rightarrow> False)" by code_simp
  then show ?thesis by (auto split: option.splits lock_res.splits) (auto simp: ex_lk_def owner_of_def)
qed

end
