(* ===== verification/Clist.thy ===== *)
theory Clist
  imports Prelude "HOL-Library.Word" "HOL-Library.Monad_Syntax"
begin

text \<open>
  Character I/O: \<open>src/bos/kernel/ios/clist.c\<close> with \<open>cio.h\<close>, \<open>cinit.c\<close> and \<open>sys/cblock.h\<close>.
  Character lists are chains of cblocks of 64 bytes that come from one array, of which the part below the
  high-water mark is in use; a free cblock is on the pinned list, which interrupt handlers may
  use, or on one of the two unpinned lists.
  A pointer to a cblock is an index into the array, \<open>None\<close> is NULL. An operation gives
  \<open>None\<close> where the code fails an assertion, follows a NULL pointer or copies a negative length.
\<close>

section \<open>Data\<close>

datatype c_state = c_unpinned | c_pinned | c_busy

definition CLSIZE :: nat where "CLSIZE = 64"

text \<open>\<open>c_first\<close> and \<open>c_last\<close> are \<open>char\<close>s; they stay between 0 and 64.\<close>

record cblock =
  c_next :: "nat option"
  c_first :: nat
  c_last :: nat
  c_data :: "8 word list"
  c_flags :: c_state

record clist =
  c_cc :: int
  c_cf :: "nat option"
  c_cl :: "nat option"

text \<open>
  \<open>c_maint\<close> with the two list heads it contains, the array, the lists of the drivers, and for every cblock
  the number of times it is pinned, which the virtual memory manager keeps. \<open>cstart\<close> is index 0.
\<close>

record cio =
  cfree_next :: "nat option"      \<comment> \<open>\<open>cfreelist.c_next\<close>: front of the unpinned list\<close>
  cfree_size :: int               \<comment> \<open>\<open>cfreelist.c_size\<close>: both unpinned lists\<close>
  endcfree :: "nat option"
  pincfree_next :: "nat option"
  pincfree_size :: int
  endpincfree :: "nat option"
  cblkhiwater :: nat
  pincreq :: int
  cblkavail :: int
  cmax :: int
  waiters :: "nat list"           \<comment> \<open>threads on the event list\<close>
  cblocks :: "cblock list"
  clists :: "clist list"
  pins :: "nat list"

text \<open>\<open>DELTA\<close> is \<open>PAGESIZE / sizeof(struct cblock) / 2\<close> for a page of 4096 and a struct of 72 bytes.\<close>

definition DELTA :: int where "DELTA = 28"
definition LEFT_OVER :: int where "LEFT_OVER = 30"

abbreviation cb :: "cio \<Rightarrow> nat \<Rightarrow> cblock" where "cb s b \<equiv> cblocks s ! b"
abbreviation cl :: "cio \<Rightarrow> nat \<Rightarrow> clist" where "cl s p \<equiv> clists s ! p"

definition set_cb :: "nat \<Rightarrow> (cblock \<Rightarrow> cblock) \<Rightarrow> cio \<Rightarrow> cio" where
  "set_cb b f s = s\<lparr>cblocks := upd (cblocks s) b f\<rparr>"

definition set_cl :: "nat \<Rightarrow> (clist \<Rightarrow> clist) \<Rightarrow> cio \<Rightarrow> cio" where
  "set_cl p f s = s\<lparr>clists := upd (clists s) p f\<rparr>"

section \<open>The free lists\<close>

definition put_pinned_front :: "nat \<Rightarrow> cio \<Rightarrow> cio option" where
  "put_pinned_front bp s =
     (if c_flags (cb s bp) \<noteq> c_busy then None
      else let s = set_cb bp (\<lambda>r. r\<lparr>c_flags := c_pinned\<rparr>) s;
               s = s\<lparr>pincfree_size := pincfree_size s + 1\<rparr>;
               s = (if pincfree_next s = None then s\<lparr>endpincfree := Some bp\<rparr> else s);
               s = set_cb bp (\<lambda>r. r\<lparr>c_next := pincfree_next s\<rparr>) s
           in Some (s\<lparr>pincfree_next := Some bp\<rparr>))"

definition put_pinned_back :: "nat \<Rightarrow> cio \<Rightarrow> cio option" where
  "put_pinned_back bp s =
     (if c_flags (cb s bp) \<noteq> c_busy then None
      else let s = set_cb bp (\<lambda>r. r\<lparr>c_flags := c_pinned\<rparr>) s;
               s = s\<lparr>pincfree_size := pincfree_size s + 1\<rparr>
           in do {
             s \<leftarrow> (if pincfree_next s = None then Some (s\<lparr>pincfree_next := Some bp\<rparr>)
                  else case endpincfree s of
                         None \<Rightarrow> None
                       | Some e \<Rightarrow> Some (set_cb e (\<lambda>r. r\<lparr>c_next := Some bp\<rparr>) s));
             let s = s\<lparr>endpincfree := Some bp\<rparr> in
             Some (set_cb bp (\<lambda>r. r\<lparr>c_next := None\<rparr>) s)
           })"

text \<open>\<open>unpin\<close> takes one pin back and fails where there is none.\<close>

definition unpin :: "nat \<Rightarrow> cio \<Rightarrow> cio option" where
  "unpin bp s = (if pins s ! bp = 0 then None else Some (s\<lparr>pins := upd (pins s) bp (\<lambda>n. n - 1)\<rparr>))"

definition pin_block :: "nat \<Rightarrow> cio \<Rightarrow> cio" where
  "pin_block bp s = s\<lparr>pins := upd (pins s) bp Suc\<rparr>"

definition put_unpinned :: "nat \<Rightarrow> cio \<Rightarrow> cio option" where
  "put_unpinned bp s =
     (if c_flags (cb s bp) \<noteq> c_busy then None
      else let s = set_cb bp (\<lambda>r. r\<lparr>c_flags := c_unpinned\<rparr>) s;
               s = (if bp < cblkhiwater s div 2
                    then (set_cb bp (\<lambda>r. r\<lparr>c_next := cfree_next s\<rparr>) s)\<lparr>cfree_next := Some bp\<rparr>
                    else (set_cb bp (\<lambda>r. r\<lparr>c_next := endcfree s\<rparr>) s)\<lparr>endcfree := Some bp\<rparr>);
               s = s\<lparr>cfree_size := cfree_size s + 1\<rparr>
           in unpin bp s)"

definition get_pinned :: "cio \<Rightarrow> (cio \<times> nat option) option" where
  "get_pinned s =
     (case pincfree_next s of
        None \<Rightarrow> Some (s, None)
      | Some bp \<Rightarrow>
          let s = s\<lparr>pincfree_next := c_next (cb s bp)\<rparr>;
              s = s\<lparr>pincfree_size := pincfree_size s - 1\<rparr>
          in if c_flags (cb s bp) \<noteq> c_pinned then None
             else Some (set_cb bp (\<lambda>r. r\<lparr>c_flags := c_busy\<rparr>) s, Some bp))"

text \<open>
  \<open>get_unpinned\<close> works in pieces, between which its lock \<open>C_MAINT_LOCK\<close> keeps out itself but
  nothing else. The first piece chooses the list (\<open>True\<close> is the front one) and reads its head.
\<close>

definition gu_look :: "cio \<Rightarrow> bool \<times> nat option" where
  "gu_look s = (if cfree_next s \<noteq> None then (True, cfree_next s) else (False, endcfree s))"

definition anchor :: "bool \<Rightarrow> cio \<Rightarrow> nat option" where
  "anchor anch s = (if anch then cfree_next s else endcfree s)"

fun gu_walk :: "nat \<Rightarrow> cio \<Rightarrow> nat \<Rightarrow> nat option \<Rightarrow> nat option" where
  "gu_walk 0 s bp fp = None"
| "gu_walk (Suc n) s bp fp =
     (case fp of None \<Rightarrow> None
      | Some f \<Rightarrow> if c_next (cb s f) \<noteq> Some bp then gu_walk n s bp (c_next (cb s f)) else Some f)"

text \<open>
  The second piece unlinks the cblock, now pinned, from wherever it is by then: other cblocks
  may have come in front of it. A walk has at most as many steps as there are cblocks.
\<close>

definition gu_unlink :: "bool \<Rightarrow> nat \<Rightarrow> cio \<Rightarrow> cio option" where
  "gu_unlink anch bp s =
     (if anchor anch s = Some bp
      then Some (if anch then s\<lparr>cfree_next := c_next (cb s bp)\<rparr> else s\<lparr>endcfree := c_next (cb s bp)\<rparr>)
      else map_option (\<lambda>fp. set_cb fp (\<lambda>r. r\<lparr>c_next := c_next (cb s bp)\<rparr>) s)
             (gu_walk (length (cblocks s)) s bp (anchor anch s)))"

definition gu_take :: "bool \<Rightarrow> nat \<Rightarrow> cio \<Rightarrow> cio option" where
  "gu_take anch bp s = do {
     s \<leftarrow> gu_unlink anch bp (s\<lparr>cfree_size := cfree_size s - 1\<rparr>);
     if c_flags (cb s bp) \<noteq> c_unpinned then None
     else Some (set_cb bp (\<lambda>r. r\<lparr>c_flags := c_busy\<rparr>) s)
   }"

definition gu_raise :: "bool \<Rightarrow> cio \<Rightarrow> cio \<times> nat option" where
  "gu_raise pin_ok s =
     (if cblkavail s < cmax s \<and> pin_ok
      then let bp = cblkhiwater s;
               s = pin_block bp s;
               s = s\<lparr>cblkhiwater := cblkhiwater s + 1\<rparr>;
               s = s\<lparr>cblkavail := cblkavail s + 1\<rparr>
           in (set_cb bp (\<lambda>r. r\<lparr>c_flags := c_busy\<rparr>) s, Some bp)
      else (s, None))"

text \<open>What follows the look, where \<open>pin_ok\<close> is whether the pin succeeds.\<close>

definition gu_rest :: "bool \<Rightarrow> bool \<Rightarrow> nat option \<Rightarrow> cio \<Rightarrow> (cio \<times> nat option) option" where
  "gu_rest pin_ok anch bp s =
     (case bp of
        Some bp \<Rightarrow> if \<not> pin_ok then Some (s, None)
                   else map_option (\<lambda>s. (s, Some bp)) (gu_take anch bp (pin_block bp s))
      | None \<Rightarrow> Some (gu_raise pin_ok s))"

definition putcf :: "nat \<Rightarrow> cio \<Rightarrow> cio option" where
  "putcf bp s = do {
     s \<leftarrow> (if pincfree_size s \<le> pincreq s then put_pinned_front bp s
          else if int bp \<le> pincreq s then put_pinned_back bp s
          else put_unpinned bp s);
     Some (s\<lparr>waiters := []\<rparr>)
   }"

definition getcf_init :: "nat \<Rightarrow> cio \<Rightarrow> cio" where
  "getcf_init bp = set_cb bp (\<lambda>r. r\<lparr>c_next := None, c_first := 0, c_last := CLSIZE\<rparr>)"

section \<open>Characters\<close>

fun cx_walk :: "nat \<Rightarrow> cio \<Rightarrow> nat option \<Rightarrow> nat option \<Rightarrow> nat option \<Rightarrow> (nat option \<times> nat option) option" where
  "cx_walk 0 s q bp obp = None"
| "cx_walk (Suc n) s q bp obp =
     (if bp = q then Some (bp, obp)
      else case bp of None \<Rightarrow> None | Some b \<Rightarrow> cx_walk n s q (c_next (cb s b)) bp)"

definition getcx :: "nat \<Rightarrow> cio \<Rightarrow> (cio \<times> int) option" where
  "getcx p s =
     (if c_cc (cl s p) > 0
      then let s = set_cl p (\<lambda>q. q\<lparr>c_cc := c_cc q - 1\<rparr>) s
           in case c_cl (cl s p) of
                None \<Rightarrow> None
              | Some bp \<Rightarrow>
                  let s = set_cb bp (\<lambda>r. r\<lparr>c_last := c_last r - 1\<rparr>) s;
                      c = uint (c_data (cb s bp) ! c_last (cb s bp))
                  in if c_last (cb s bp) = c_first (cb s bp)
                     then do {
                       (bp, obp) \<leftarrow> cx_walk (Suc (length (cblocks s))) s (c_cl (cl s p)) (c_cf (cl s p)) None;
                       let s = (case obp of Some o' \<Rightarrow> set_cb o' (\<lambda>r. r\<lparr>c_next := None\<rparr>) s | None \<Rightarrow> s) in
                       let s = set_cl p (\<lambda>q. q\<lparr>c_cl := obp\<rparr>) s in
                       let s = (if bp = c_cf (cl s p) then set_cl p (\<lambda>q. q\<lparr>c_cf := None, c_cc := 0\<rparr>) s else s) in
                       case bp of None \<Rightarrow> None | Some bp \<Rightarrow> map_option (\<lambda>s. (s, c)) (putcf bp s)
                     }
                     else Some (s, c)
      else Some (s, -1))"

text \<open>\<open>putcx\<close> in three pieces: whether it needs a cblock, linking one it got, and the store.\<close>

definition need_front :: "nat \<Rightarrow> cio \<Rightarrow> bool" where
  "need_front p s = (case c_cf (cl s p) of None \<Rightarrow> True | Some bp \<Rightarrow> c_first (cb s bp) = 0)"

definition link_front :: "nat \<Rightarrow> nat \<Rightarrow> cio \<Rightarrow> cio" where
  "link_front p bp s =
     (let s = set_cb bp (\<lambda>r. r\<lparr>c_next := c_cf (cl s p), c_first := 1, c_last := 1\<rparr>) s;
          s = (if c_cl (cl s p) = None then set_cl p (\<lambda>q. q\<lparr>c_cl := Some bp\<rparr>) s else s)
      in set_cl p (\<lambda>q. q\<lparr>c_cf := Some bp\<rparr>) s)"

definition store_front :: "8 word \<Rightarrow> nat \<Rightarrow> nat \<Rightarrow> cio \<Rightarrow> cio" where
  "store_front c p bp s =
     (let s = set_cb bp (\<lambda>r. r\<lparr>c_first := c_first r - 1, c_data := (c_data r)[c_first r - 1 := c]\<rparr>) s
      in set_cl p (\<lambda>q. q\<lparr>c_cc := c_cc q + 1\<rparr>) s)"

definition getc :: "nat \<Rightarrow> cio \<Rightarrow> (cio \<times> int) option" where
  "getc p s =
     (if c_cc (cl s p) > 0
      then let s = set_cl p (\<lambda>q. q\<lparr>c_cc := c_cc q - 1\<rparr>) s
           in case c_cf (cl s p) of
                None \<Rightarrow> None
              | Some bp \<Rightarrow>
                  let c = uint (c_data (cb s bp) ! c_first (cb s bp));
                      s = set_cb bp (\<lambda>r. r\<lparr>c_first := c_first r + 1\<rparr>) s
                  in if c_first (cb s bp) = c_last (cb s bp)
                     then let s = set_cl p (\<lambda>q. q\<lparr>c_cf := c_next (cb s bp)\<rparr>) s;
                              s = (if c_cf (cl s p) = None then set_cl p (\<lambda>q. q\<lparr>c_cl := None, c_cc := 0\<rparr>) s else s)
                          in map_option (\<lambda>s. (s, c)) (putcf bp s)
                     else Some (s, c)
      else Some (s, -1))"

definition need_back :: "nat \<Rightarrow> cio \<Rightarrow> bool" where
  "need_back p s = (case c_cl (cl s p) of None \<Rightarrow> True | Some bp \<Rightarrow> c_last (cb s bp) = CLSIZE)"

definition link_back :: "nat \<Rightarrow> nat \<Rightarrow> cio \<Rightarrow> cio" where
  "link_back p bp s =
     (let s = set_cb bp (\<lambda>r. r\<lparr>c_next := None, c_first := 0, c_last := 0\<rparr>) s;
          s = (case c_cl (cl s p) of
                 None \<Rightarrow> set_cl p (\<lambda>q. q\<lparr>c_cf := Some bp\<rparr>) s
               | Some l \<Rightarrow> set_cb l (\<lambda>r. r\<lparr>c_next := Some bp\<rparr>) s)
      in set_cl p (\<lambda>q. q\<lparr>c_cl := Some bp\<rparr>) s)"

definition store_back :: "8 word \<Rightarrow> nat \<Rightarrow> nat \<Rightarrow> cio \<Rightarrow> cio" where
  "store_back c p bp s =
     (let s = set_cb bp (\<lambda>r. r\<lparr>c_data := (c_data r)[c_last r := c], c_last := c_last r + 1\<rparr>) s
      in set_cl p (\<lambda>q. q\<lparr>c_cc := c_cc q + 1\<rparr>) s)"

text \<open>The store into the cblock the list has, when it needs no new one.\<close>

definition put_front :: "8 word \<Rightarrow> nat \<Rightarrow> cio \<Rightarrow> cio option" where
  "put_front c p s = map_option (\<lambda>bp. store_front c p bp s) (c_cf (cl s p))"

definition put_back :: "8 word \<Rightarrow> nat \<Rightarrow> cio \<Rightarrow> cio option" where
  "put_back c p s = map_option (\<lambda>bp. store_back c p bp s) (c_cl (cl s p))"

text \<open>The calls from an interrupt handler or with interrupts disabled, which use the pinned list.\<close>

definition with_pinned :: "(nat \<Rightarrow> cio \<Rightarrow> cio) \<Rightarrow> cio \<Rightarrow> (cio \<times> int) option" where
  "with_pinned f s = do {
     (s, bp) \<leftarrow> get_pinned s;
     case bp of None \<Rightarrow> Some (s, -1) | Some bp \<Rightarrow> Some (f bp s, 0)
   }"

definition putcx :: "8 word \<Rightarrow> nat \<Rightarrow> cio \<Rightarrow> (cio \<times> int) option" where
  "putcx c p s =
     (if need_front p s then with_pinned (\<lambda>bp s. store_front c p bp (link_front p bp s)) s
      else map_option (\<lambda>s. (s, 0)) (put_front c p s))"

definition putc :: "8 word \<Rightarrow> nat \<Rightarrow> cio \<Rightarrow> (cio \<times> int) option" where
  "putc c p s =
     (if need_back p s then with_pinned (\<lambda>bp s. store_back c p bp (link_back p bp s)) s
      else map_option (\<lambda>s. (s, 0)) (put_back c p s))"

definition getcf :: "cio \<Rightarrow> (cio \<times> nat option) option" where
  "getcf s = map_option (\<lambda>(s, bp). (case bp of None \<Rightarrow> s | Some b \<Rightarrow> getcf_init b s, bp)) (get_pinned s)"

section \<open>Blocks\<close>

fun cfl_loop :: "nat \<Rightarrow> nat \<Rightarrow> cio \<Rightarrow> cio option" where
  "cfl_loop 0 tmpcb1 s = None"
| "cfl_loop (Suc n) tmpcb1 s =
     (let tmpcb2 = c_next (cb s tmpcb1) in do {
        s \<leftarrow> putcf tmpcb1 s;
        case tmpcb2 of None \<Rightarrow> Some s | Some b \<Rightarrow> cfl_loop n b s
      })"

definition putcfl :: "nat \<Rightarrow> cio \<Rightarrow> cio option" where
  "putcfl p s =
     (case c_cl (cl s p) of
        None \<Rightarrow> Some s
      | Some lst \<Rightarrow>
          let s = set_cb lst (\<lambda>r. r\<lparr>c_next := None\<rparr>) s
          in case c_cf (cl s p) of
               None \<Rightarrow> None
             | Some tmpcb1 \<Rightarrow> do {
                 s \<leftarrow> cfl_loop (length (cblocks s)) tmpcb1 s;
                 Some (set_cl p (\<lambda>q. q\<lparr>c_cf := None, c_cl := None, c_cc := 0\<rparr>) s)
               })"

definition getcb :: "nat \<Rightarrow> cio \<Rightarrow> cio \<times> nat option" where
  "getcb p s =
     (case c_cf (cl s p) of
        None \<Rightarrow> (s, None)
      | Some bp \<Rightarrow>
          let s = set_cl p (\<lambda>q. q\<lparr>c_cc := c_cc q - (int (c_last (cb s bp)) - int (c_first (cb s bp)))\<rparr>) s;
              s = set_cl p (\<lambda>q. q\<lparr>c_cf := c_next (cb s bp)\<rparr>) s;
              s = (if c_cf (cl s p) = None then set_cl p (\<lambda>q. q\<lparr>c_cl := None\<rparr>) s else s)
          in (set_cb bp (\<lambda>r. r\<lparr>c_next := None\<rparr>) s, Some bp))"

definition putcb :: "nat \<Rightarrow> nat \<Rightarrow> cio \<Rightarrow> cio" where
  "putcb bp p s =
     (let s = (case c_cl (cl s p) of
                 None \<Rightarrow> set_cl p (\<lambda>q. q\<lparr>c_cf := Some bp\<rparr>) s
               | Some l \<Rightarrow> set_cb l (\<lambda>r. r\<lparr>c_next := Some bp\<rparr>) s);
          s = set_cl p (\<lambda>q. q\<lparr>c_cl := Some bp\<rparr>) s;
          s = set_cb bp (\<lambda>r. r\<lparr>c_next := None\<rparr>) s
      in set_cl p (\<lambda>q. q\<lparr>c_cc := c_cc q + (int (c_last (cb s bp)) - int (c_first (cb s bp)))\<rparr>) s)"

section \<open>Strings\<close>

text \<open>
  \<open>getcbp\<close> gives the bytes it stored at \<open>cp\<close>; their number is its result. Each round frees a cblock
  or is the last.
\<close>

definition bytes :: "cblock \<Rightarrow> 8 word list" where
  "bytes r = drop (c_first r) (take (c_last r) (c_data r))"

fun cbp_loop :: "nat \<Rightarrow> nat \<Rightarrow> int \<Rightarrow> 8 word list \<Rightarrow> cio \<Rightarrow> (cio \<times> 8 word list) option" where
  "cbp_loop 0 p n cp s = None"
| "cbp_loop (Suc f) p n cp s =
     (if n = 0 then Some (s, cp)
      else case c_cf (cl s p) of
        None \<Rightarrow> Some (s, cp)
      | Some bp \<Rightarrow>
          let on = int (c_last (cb s bp)) - int (c_first (cb s bp)) in
          if n \<ge> on
          then if on < 0 then None
               else let cp = cp @ bytes (cb s bp);
                        s = set_cl p (\<lambda>q. q\<lparr>c_cc := c_cc q - on\<rparr>) s;
                        s = set_cl p (\<lambda>q. q\<lparr>c_cf := c_next (cb s bp)\<rparr>) s;
                        s = (if c_cf (cl s p) = None then set_cl p (\<lambda>q. q\<lparr>c_cl := None\<rparr>) s else s)
                    in do { s \<leftarrow> putcf bp s; cbp_loop f p (n - on) cp s }
          else if n < 0 then None
          else let cp = cp @ take (nat n) (bytes (cb s bp));
                   s = set_cb bp (\<lambda>r. r\<lparr>c_first := c_first r + nat n\<rparr>) s;
                   s = set_cl p (\<lambda>q. q\<lparr>c_cc := c_cc q - n\<rparr>) s
               in Some (s, cp))"

definition getcbp :: "nat \<Rightarrow> int \<Rightarrow> cio \<Rightarrow> (cio \<times> 8 word list) option" where
  "getcbp p n s = cbp_loop (Suc (length (cblocks s))) p n [] s"

text \<open>
  One round of \<open>putcbp\<close> into the cblock \<open>bp\<close>, where \<open>cp\<close> is what is left to write. The round that
  writes everything ends the loop.
\<close>

definition put_bytes :: "8 word list \<Rightarrow> cblock \<Rightarrow> cblock" where
  "put_bytes xs r = r\<lparr>c_data := take (c_last r) (c_data r) @ xs @ drop (c_last r + length xs) (c_data r),
     c_last := c_last r + length xs\<rparr>"

definition fill :: "nat \<Rightarrow> nat \<Rightarrow> 8 word list \<Rightarrow> cio \<Rightarrow> cio \<times> 8 word list" where
  "fill p bp cp s =
     (let on = CLSIZE - c_last (cb s bp); k = (if length cp \<ge> on then on else length cp);
          s = set_cb bp (put_bytes (take k cp)) s;
          s = set_cl p (\<lambda>q. q\<lparr>c_cc := c_cc q + int k\<rparr>) s
      in (s, drop k cp))"

fun pcbp_loop :: "nat \<Rightarrow> nat \<Rightarrow> 8 word list \<Rightarrow> cio \<Rightarrow> (cio \<times> 8 word list) option" where
  "pcbp_loop 0 p cp s = None"
| "pcbp_loop (Suc f) p cp s =
     (if cp = [] then Some (s, cp)
      else if need_back p s
      then do {
        (s, bp) \<leftarrow> get_pinned s;
        case bp of
          None \<Rightarrow> Some (s, cp)
        | Some bp \<Rightarrow> let (s, cp) = fill p bp cp (link_back p bp s) in pcbp_loop f p cp s
      }
      else case c_cl (cl s p) of
        None \<Rightarrow> None
      | Some bp \<Rightarrow> let (s, cp) = fill p bp cp s in pcbp_loop f p cp s)"

text \<open>The result is the number of characters written. A negative length, which is never 0, is a copy of a negative length.\<close>

definition putcbp :: "nat \<Rightarrow> 8 word list \<Rightarrow> int \<Rightarrow> cio \<Rightarrow> (cio \<times> int) option" where
  "putcbp p cp n s =
     (if n < 0 \<or> n > int (length cp) then None
      else map_option (\<lambda>(s, rest). (s, n - int (length rest))) (pcbp_loop (Suc (nat n)) p (take (nat n) cp) s))"

end
