(* ===== verification/ClistRel.thy ===== *)
theory ClistRel
  imports Clist
begin

text \<open>
  Where every cblock is. The pinned and the two unpinned free lists and every character list are chains
  through \<open>c_next\<close>; the cblocks that are on none of them are out, held by a driver or by a
  thread in the middle of a call. Below the high-water mark each cblock is in exactly one
  of these places.
\<close>

section \<open>Places\<close>

datatype place = PPin | PFront | PEnd | PQ nat

definition linked :: "(nat \<Rightarrow> nat option) \<Rightarrow> (place \<Rightarrow> nat option) \<Rightarrow> (place \<Rightarrow> nat list) \<Rightarrow> nat set \<Rightarrow> bool" where
  "linked nx hs ls out \<longleftrightarrow>
     (\<forall>pl. distinct (ls pl) \<and> path nx (hs pl) (ls pl) \<and> set (ls pl) \<inter> out = {})
     \<and> (\<forall>pl pl'. pl \<noteq> pl' \<longrightarrow> set (ls pl) \<inter> set (ls pl') = {})"

lemma linkedI:
  assumes "\<And>pl. distinct (ls pl)" and "\<And>pl. path nx (hs pl) (ls pl)" and "\<And>pl b. b \<in> set (ls pl) \<Longrightarrow> b \<notin> out"
    and "\<And>pl pl' b. b \<in> set (ls pl) \<Longrightarrow> b \<in> set (ls pl') \<Longrightarrow> pl = pl'"
  shows "linked nx hs ls out"
  using assms unfolding linked_def by blast

lemma linkedD:
  assumes "linked nx hs ls out"
  shows "distinct (ls pl)" and "path nx (hs pl) (ls pl)" and "b \<in> set (ls pl) \<Longrightarrow> b \<notin> out"
    and "b \<in> set (ls pl) \<Longrightarrow> b \<in> set (ls pl') \<Longrightarrow> pl = pl'"
  using assms unfolding linked_def by blast+

lemma linked_pop:
  assumes "linked nx hs ls out" and "ls X = b # r"
  shows "linked nx (hs(X := nx b)) (ls(X := r)) (insert b out)"
proof -
  note l = linkedD [OF assms(1)]
  have b: "b \<notin> set (ls pl)" if "pl \<noteq> X" for pl using l(4) [of b X pl] that assms(2) by auto
  show ?thesis
  proof (rule linkedI)
    show "distinct ((ls(X := r)) pl)" for pl using l(1) [of pl] assms(2) by auto
    show "path nx ((hs(X := nx b)) pl) ((ls(X := r)) pl)" for pl using l(2) [of pl] assms(2) by auto
    show "c \<notin> insert b out" if "c \<in> set ((ls(X := r)) pl)" for pl c
      using that l(1) [of X] l(3) [of c pl] b [of pl] assms(2) by (auto split: if_splits)
    have "set ((ls(X := r)) pl) \<subseteq> set (ls pl)" for pl using assms(2) by auto
    then show "pl = pl'" if "c \<in> set ((ls(X := r)) pl)" "c \<in> set ((ls(X := r)) pl')" for pl pl' c
      using that by (meson l(4) subsetD)
  qed
qed

text \<open>A cblock that was out joins a list; the links of the list are those of the new chain.\<close>

lemma linked_join:
  assumes "linked nx hs ls out" and b: "b \<in> out"
    and "set xs = insert b (set (ls X))" and "distinct xs" and "path ny h xs"
    and same: "\<And>c. c \<notin> set xs \<Longrightarrow> ny c = nx c"
  shows "linked ny (hs(X := h)) (ls(X := xs)) (out - {b})"
proof -
  note l = linkedD [OF assms(1)]
  have b: "b \<notin> set (ls pl)" for pl using l(3) [of b pl] b by auto
  have new: "c \<notin> set (ls pl)" if "c \<in> set xs" "pl \<noteq> X" for c pl
    using that b [of pl] l(4) [of c pl X] assms(3) by auto
  show ?thesis
  proof (rule linkedI)
    show "distinct ((ls(X := xs)) pl)" for pl using l(1) [of pl] assms(4) by auto
    show "path ny ((hs(X := h)) pl) ((ls(X := xs)) pl)" for pl
    proof (cases "pl = X")
      case False
      with new have "path nx (hs pl) (ls pl) = path ny (hs pl) (ls pl)" by (intro path_cong same [symmetric]) blast
      with False l(2) [of pl] show ?thesis by simp
    qed (use assms(5) in simp)
    show "c \<notin> out - {b}" if "c \<in> set ((ls(X := xs)) pl)" for pl c
      using that l(3) [of c pl] l(3) [of c X] assms(3) by (auto split: if_splits)
    show "pl = pl'" if "c \<in> set ((ls(X := xs)) pl)" "c \<in> set ((ls(X := xs)) pl')" for pl pl' c
      using that l(4) [of c pl pl'] new [of c pl] new [of c pl'] by (auto split: if_splits)
  qed
qed

lemma linked_push:
  assumes "linked nx hs ls out" and "b \<in> out"
  shows "linked (nx(b := hs X)) (hs(X := Some b)) (ls(X := b # ls X)) (out - {b})"
proof (rule linked_join [OF assms])
  have "b \<notin> set (ls X)" using linkedD(3) [OF assms(1)] assms(2) by blast
  then show "distinct (b # ls X)" "path (nx(b := hs X)) (Some b) (b # ls X)"
    using linkedD(1,2) [OF assms(1), of X] by auto
qed auto

lemma linked_append:
  assumes "linked nx hs ls out" and "b \<in> out" and "ls X \<noteq> []"
  shows "linked (nx(last (ls X) := Some b, b := None)) hs (ls(X := ls X @ [b])) (out - {b})"
proof -
  have b: "b \<notin> set (ls X)" using linkedD(3) [OF assms(1)] assms(2) by blast
  have "linked (nx(last (ls X) := Some b, b := None)) (hs(X := hs X)) (ls(X := ls X @ [b])) (out - {b})"
    by (rule linked_join [OF assms(1,2)])
      (use b linkedD(1,2) [OF assms(1), of X] path_append_new [of nx "hs X" "ls X" b] assms(3) in \<open>auto\<close>)
  then show ?thesis by simp
qed

lemma linked_first:
  assumes "linked nx hs ls out" and "b \<in> out" and "ls X = []"
  shows "linked (nx(b := None)) (hs(X := Some b)) (ls(X := [b])) (out - {b})"
  by (rule linked_join [OF assms(1,2)]) (use assms(3) in auto)

text \<open>A cblock in the middle leaves its list.\<close>

lemma linked_skip:
  assumes "linked nx hs ls out" and X: "ls X = a @ p # b # c"
  shows "linked (nx(p := nx b)) hs (ls(X := a @ p # c)) (insert b out)"
proof -
  note l = linkedD [OF assms(1)]
  have other: "b \<notin> set (ls pl)" "p \<notin> set (ls pl)" if "pl \<noteq> X" for pl
    using l(4) [of _ X pl] that X by auto
  show ?thesis
  proof (rule linkedI)
    show "distinct ((ls(X := a @ p # c)) pl)" for pl using l(1) [of pl] l(1) [of X] X by auto
    show "path (nx(p := nx b)) (hs pl) ((ls(X := a @ p # c)) pl)" for pl
      using l(2) [of pl] other(2) [of pl] path_skip [of nx "hs X" a p b c] l(1,2) [of X] X by (cases "pl = X") auto
    show "e \<notin> insert b out" if "e \<in> set ((ls(X := a @ p # c)) pl)" for pl e
      using that l(3) [of e pl] l(1) [of X] l(3) [of e X] other(1) [of pl] X by (auto split: if_splits)
    have "set ((ls(X := a @ p # c)) pl) \<subseteq> set (ls pl)" for pl using X by auto
    then show "pl = pl'" if "e \<in> set ((ls(X := a @ p # c)) pl)" "e \<in> set ((ls(X := a @ p # c)) pl')" for pl pl' e
      using that by (meson l(4) subsetD)
  qed
qed

lemma linked_own: "linked nx hs ls out \<Longrightarrow> b \<in> out \<Longrightarrow> linked (nx(b := y)) hs ls out"
  unfolding linked_def by (metis path_other disjoint_iff)

lemma linked_new:
  assumes "linked nx hs ls out" and "\<And>pl. b \<notin> set (ls pl)"
  shows "linked nx hs ls (insert b out)"
  using assms unfolding linked_def by simp

section \<open>The invariant\<close>

fun head :: "cio \<Rightarrow> place \<Rightarrow> nat option" where
  "head s PPin = pincfree_next s"
| "head s PFront = cfree_next s"
| "head s PEnd = endcfree s"
| "head s (PQ p) = (if p < length (clists s) then c_cf (cl s p) else None)"

fun flag_of :: "place \<Rightarrow> c_state" where
  "flag_of PPin = c_pinned"
| "flag_of PFront = c_unpinned"
| "flag_of PEnd = c_unpinned"
| "flag_of (PQ p) = c_busy"

definition last_opt :: "'a list \<Rightarrow> 'a option" where
  "last_opt xs = (if xs = [] then None else Some (last xs))"

definition content :: "cio \<Rightarrow> nat list \<Rightarrow> 8 word list" where
  "content s bs = concat (map (\<lambda>b. bytes (cb s b)) bs)"

definition room_ok :: "cblock \<Rightarrow> bool" where
  "room_ok r \<longleftrightarrow> c_first r < c_last r \<and> c_last r \<le> CLSIZE"

definition array_ok :: "(place \<Rightarrow> nat list) \<Rightarrow> nat set \<Rightarrow> cio \<Rightarrow> bool" where
  "array_ok ls out s \<longleftrightarrow> (\<Union>pl. set (ls pl)) \<union> out = {..<cblkhiwater s}
     \<and> cblkavail s = int (cblkhiwater s) \<and> cmax s = int (length (cblocks s))
     \<and> cblkhiwater s \<le> length (cblocks s) \<and> length (pins s) = length (cblocks s)"

definition blocks_ok :: "(place \<Rightarrow> nat list) \<Rightarrow> nat set \<Rightarrow> cio \<Rightarrow> bool" where
  "blocks_ok ls out s \<longleftrightarrow> (\<forall>pl. \<forall>b \<in> set (ls pl). c_flags (cb s b) = flag_of pl) \<and> (\<forall>b \<in> out. c_flags (cb s b) = c_busy)
     \<and> (\<forall>b < length (cblocks s). pins s ! b = (if b < cblkhiwater s \<and> c_flags (cb s b) \<noteq> c_unpinned then 1 else 0))
     \<and> (\<forall>b < length (cblocks s). length (c_data (cb s b)) = CLSIZE)"

definition free_ok :: "(place \<Rightarrow> nat list) \<Rightarrow> cio \<Rightarrow> bool" where
  "free_ok ls s \<longleftrightarrow> pincfree_size s = int (length (ls PPin)) \<and> (ls PPin \<noteq> [] \<longrightarrow> endpincfree s = Some (last (ls PPin)))
     \<and> cfree_size s = int (length (ls PFront)) + int (length (ls PEnd))"

definition list_ok :: "cio \<Rightarrow> nat list \<Rightarrow> clist \<Rightarrow> bool" where
  "list_ok s bs q \<longleftrightarrow> c_cl q = last_opt bs \<and> c_cc q = int (length (content s bs)) \<and> (\<forall>b \<in> set bs. room_ok (cb s b))"

definition cio_ok :: "(place \<Rightarrow> nat list) \<Rightarrow> nat set \<Rightarrow> cio \<Rightarrow> bool" where
  "cio_ok ls out s \<longleftrightarrow> linked (\<lambda>b. c_next (cb s b)) (head s) ls out \<and> array_ok ls out s \<and> blocks_ok ls out s
     \<and> free_ok ls s \<and> (\<forall>p < length (clists s). list_ok s (ls (PQ p)) (cl s p))"

lemma cio_okD:
  assumes "cio_ok ls out s"
  shows "linked (\<lambda>b. c_next (cb s b)) (head s) ls out" and "array_ok ls out s" and "blocks_ok ls out s" and "free_ok ls s"
    and "p < length (clists s) \<Longrightarrow> list_ok s (ls (PQ p)) (cl s p)"
  using assms unfolding cio_ok_def by blast+

lemma in_array:
  assumes "array_ok ls out s"
  shows "b \<in> set (ls pl) \<Longrightarrow> b < cblkhiwater s" and "b \<in> out \<Longrightarrow> b < cblkhiwater s"
    and "b \<in> set (ls pl) \<Longrightarrow> b < length (cblocks s)" and "b \<in> out \<Longrightarrow> b < length (cblocks s)"
proof -
  have u: "(\<Union>pl. set (ls pl)) \<union> out = {..<cblkhiwater s}" and le: "cblkhiwater s \<le> length (cblocks s)"
    using assms unfolding array_ok_def by (rule conjunct1, rule conjunct2 [THEN conjunct2, THEN conjunct2, THEN conjunct1])
  have hi: "b \<in> (\<Union>pl. set (ls pl)) \<union> out \<Longrightarrow> b < cblkhiwater s" unfolding u by simp
  show 1: "b \<in> set (ls pl) \<Longrightarrow> b < cblkhiwater s" by (rule hi) auto
  show 2: "b \<in> out \<Longrightarrow> b < cblkhiwater s" by (rule hi) simp
  show "b \<in> set (ls pl) \<Longrightarrow> b < length (cblocks s)" "b \<in> out \<Longrightarrow> b < length (cblocks s)"
    using 1 2 le by (meson less_le_trans)+
qed

text \<open>What the operations on the free lists leave alone.\<close>

definition frame :: "cio \<Rightarrow> cio \<Rightarrow> bool" where
  "frame s s' \<longleftrightarrow> map (\<lambda>r. (c_first r, c_last r, c_data r)) (cblocks s') = map (\<lambda>r. (c_first r, c_last r, c_data r)) (cblocks s)
     \<and> clists s' = clists s \<and> pincreq s' = pincreq s \<and> cmax s' = cmax s"

lemma frame_refl [simp]: "frame s s"
  by (simp add: frame_def)

lemma frame_trans: "frame s t \<Longrightarrow> frame t u \<Longrightarrow> frame s u"
  by (simp add: frame_def)

lemma frameD:
  assumes "frame s s'"
  shows "length (cblocks s') = length (cblocks s)" and "clists s' = clists s" and "pincreq s' = pincreq s" and "cmax s' = cmax s"
    and "b < length (cblocks s) \<Longrightarrow> c_first (cb s' b) = c_first (cb s b)"
    and "b < length (cblocks s) \<Longrightarrow> c_last (cb s' b) = c_last (cb s b)"
    and "b < length (cblocks s) \<Longrightarrow> c_data (cb s' b) = c_data (cb s b)"
proof -
  have m: "map (\<lambda>r. (c_first r, c_last r, c_data r)) (cblocks s') = map (\<lambda>r. (c_first r, c_last r, c_data r)) (cblocks s)"
    using assms by (simp add: frame_def)
  from arg_cong [OF m, of length] show len: "length (cblocks s') = length (cblocks s)" by simp
  show "clists s' = clists s" "pincreq s' = pincreq s" "cmax s' = cmax s" using assms by (simp_all add: frame_def)
  assume b: "b < length (cblocks s)"
  from arg_cong [OF m, of "\<lambda>xs. xs ! b"] b len
  show "c_first (cb s' b) = c_first (cb s b)" "c_last (cb s' b) = c_last (cb s b)" "c_data (cb s' b) = c_data (cb s b)" by auto
qed

lemma frame_bytes: "frame s s' \<Longrightarrow> b < length (cblocks s) \<Longrightarrow> bytes (cb s' b) = bytes (cb s b)"
  by (simp add: bytes_def frameD)

lemma frame_content: "frame s s' \<Longrightarrow> \<forall>b \<in> set bs. b < length (cblocks s) \<Longrightarrow> content s' bs = content s bs"
  unfolding content_def by (intro arg_cong [of _ _ concat] map_cong refl) (simp add: frame_bytes)

lemma frame_room: "frame s s' \<Longrightarrow> b < length (cblocks s) \<Longrightarrow> room_ok (cb s' b) = room_ok (cb s b)"
  by (simp add: room_ok_def frameD)

lemma frame_list:
  assumes "frame s s'" and "\<forall>b \<in> set bs. b < length (cblocks s)"
  shows "list_ok s' bs q = list_ok s bs q"
  using assms frame_content [OF assms] frame_room [OF assms(1)] by (auto simp: list_ok_def)

lemma frameI:
  assumes "length (cblocks s') = length (cblocks s)"
    and "\<And>b. b < length (cblocks s) \<Longrightarrow> c_first (cb s' b) = c_first (cb s b) \<and> c_last (cb s' b) = c_last (cb s b) \<and> c_data (cb s' b) = c_data (cb s b)"
    and "clists s' = clists s" "pincreq s' = pincreq s" "cmax s' = cmax s"
  shows "frame s s'"
  using assms by (auto simp: frame_def intro!: nth_equalityI)

lemma set_cb_simps [simp]:
  "cfree_next (set_cb b f s) = cfree_next s" "cfree_size (set_cb b f s) = cfree_size s" "endcfree (set_cb b f s) = endcfree s"
  "pincfree_next (set_cb b f s) = pincfree_next s" "pincfree_size (set_cb b f s) = pincfree_size s"
  "endpincfree (set_cb b f s) = endpincfree s" "cblkhiwater (set_cb b f s) = cblkhiwater s" "pincreq (set_cb b f s) = pincreq s"
  "cblkavail (set_cb b f s) = cblkavail s" "cmax (set_cb b f s) = cmax s" "waiters (set_cb b f s) = waiters s"
  "clists (set_cb b f s) = clists s" "pins (set_cb b f s) = pins s" "length (cblocks (set_cb b f s)) = length (cblocks s)"
  by (simp_all add: set_cb_def)

lemma set_cl_simps [simp]:
  "cfree_next (set_cl p g s) = cfree_next s" "cfree_size (set_cl p g s) = cfree_size s" "endcfree (set_cl p g s) = endcfree s"
  "pincfree_next (set_cl p g s) = pincfree_next s" "pincfree_size (set_cl p g s) = pincfree_size s"
  "endpincfree (set_cl p g s) = endpincfree s" "cblkhiwater (set_cl p g s) = cblkhiwater s" "pincreq (set_cl p g s) = pincreq s"
  "cblkavail (set_cl p g s) = cblkavail s" "cmax (set_cl p g s) = cmax s" "waiters (set_cl p g s) = waiters s"
  "cblocks (set_cl p g s) = cblocks s" "pins (set_cl p g s) = pins s" "length (clists (set_cl p g s)) = length (clists s)"
  by (simp_all add: set_cl_def)

lemma cb_set_cb: "b < length (cblocks s) \<Longrightarrow> cb (set_cb b f s) i = (if i = b then f (cb s b) else cb s i)"
  by (simp add: set_cb_def)

lemma cl_set_cl: "p < length (clists s) \<Longrightarrow> cl (set_cl p g s) i = (if i = p then g (cl s p) else cl s i)"
  by (simp add: set_cl_def)

end
