(* ===== verification/ClistFree.thy ===== *)
theory ClistFree
  imports ClistRel
begin

text \<open>
  The free lists keep the invariant: a cblock that is out is put on one of them, or the first
  of one goes out. None of these operations touches the characters of a cblock, a character
  list, or the link of another cblock that is out.
\<close>

section \<open>Cblocks that come and go\<close>

lemma Union_split: "(\<Union>pl. set (ls pl)) = set (ls X) \<union> (\<Union>pl \<in> - {X}. set (ls pl))"
  by blast

lemma Union_upd: "(\<Union>pl. set ((ls(X := xs)) pl)) = set xs \<union> (\<Union>pl \<in> - {X}. set (ls pl))"
  using Union_split [of "ls(X := xs)" X] by simp

lemma put_free:
  assumes ok: "cio_ok ls out s" and b: "b \<in> out" and X: "\<And>p. X \<noteq> PQ p" and fr: "frame s s'"
    and lk: "linked (\<lambda>i. c_next (cb s' i)) (head s') (ls(X := xs)) (out - {b})"
    and xs: "set xs = insert b (set (ls X))"
    and fl: "\<And>i. c_flags (cb s' i) = (if i = b then flag_of X else c_flags (cb s i))"
    and pin: "pins s' = (if flag_of X = c_unpinned then upd (pins s) b (\<lambda>n. n - 1) else pins s)"
    and hi: "cblkhiwater s' = cblkhiwater s" "cblkavail s' = cblkavail s"
    and fo: "free_ok (ls(X := xs)) s'"
  shows "cio_ok (ls(X := xs)) (out - {b}) s'"
proof -
  note d = cio_okD [OF ok] and f = frameD [OF fr]
  note ar = in_array [OF d(2)]
  have out: "c_flags (cb s i) = c_busy" if "i \<in> out" for i using d(3) that by (simp add: blocks_ok_def)
  have un: "(\<Union>pl. set ((ls(X := xs)) pl)) \<union> (out - {b}) = (\<Union>pl. set (ls pl)) \<union> out"
    unfolding Union_upd Union_split [of ls X] using xs b by auto
  have arr: "array_ok (ls(X := xs)) (out - {b}) s'"
    using d(2) un f pin hi unfolding array_ok_def by simp
  have notb: "b \<notin> set (ls pl)" for pl using linkedD(3) [OF d(1)] b by blast
  have "c_flags (cb s' i) = flag_of pl" if "i \<in> set ((ls(X := xs)) pl)" for i pl
    using that d(3) xs notb [of pl] by (auto simp: fl blocks_ok_def split: if_splits)
  moreover have "c_flags (cb s' i) = c_busy" if "i \<in> out - {b}" for i using that out by (simp add: fl)
  moreover have "pins s' ! i = (if i < cblkhiwater s' \<and> c_flags (cb s' i) \<noteq> c_unpinned then 1 else 0)" if i: "i < length (cblocks s')" for i
  proof -
    have "length (pins s) = length (cblocks s)" using d(2) by (simp add: array_ok_def)
    then have "i < length (pins s)" using i f(1) by simp
    moreover have "pins s ! i = (if i < cblkhiwater s \<and> c_flags (cb s i) \<noteq> c_unpinned then 1 else 0)"
      using d(3) i f(1) by (simp add: blocks_ok_def)
    ultimately show ?thesis using out [OF b] ar(2) [OF b] X by (cases X) (auto simp: pin fl hi nth_upd)
  qed
  moreover have "length (c_data (cb s' i)) = CLSIZE" if "i < length (cblocks s')" for i
    using that d(3) f(1) f(7) [of i] by (simp add: blocks_ok_def)
  ultimately have blk: "blocks_ok (ls(X := xs)) (out - {b}) s'" unfolding blocks_ok_def by blast
  have "list_ok s' ((ls(X := xs)) (PQ p)) (cl s' p)" if "p < length (clists s')" for p
    using d(5) [of p] that f(2) X [of p] ar(3) [of _ "PQ p"] by (simp add: frame_list [OF fr])
  with lk arr blk fo show ?thesis unfolding cio_ok_def by blast
qed

lemma take_free:
  assumes ok: "cio_ok ls out s" and b: "set (ls X) = insert b (set xs)" and X: "\<And>p. X \<noteq> PQ p" and fr: "frame s s'"
    and lk: "linked (\<lambda>i. c_next (cb s' i)) (head s') (ls(X := xs)) (insert b out)"
    and fl: "\<And>i. c_flags (cb s' i) = (if i = b then c_busy else c_flags (cb s i))"
    and pin: "pins s' = (if flag_of X = c_unpinned then upd (pins s) b Suc else pins s)"
    and hi: "cblkhiwater s' = cblkhiwater s" "cblkavail s' = cblkavail s"
    and fo: "free_ok (ls(X := xs)) s'"
  shows "cio_ok (ls(X := xs)) (insert b out) s'"
proof -
  note d = cio_okD [OF ok] and f = frameD [OF fr]
  note ar = in_array [OF d(2)]
  have bX: "b \<in> set (ls X)" using b by simp
  have un: "(\<Union>pl. set ((ls(X := xs)) pl)) \<union> insert b out = (\<Union>pl. set (ls pl)) \<union> out"
    unfolding Union_upd Union_split [of ls X] using b by auto
  have arr: "array_ok (ls(X := xs)) (insert b out) s'"
    using d(2) un f pin hi unfolding array_ok_def by simp
  have flb: "c_flags (cb s b) = flag_of X" using d(3) bX by (simp add: blocks_ok_def)
  have sub: "set ((ls(X := xs)) pl) \<subseteq> set (ls pl)" for pl using b by auto
  have "b \<notin> set ((ls(X := xs)) pl)" for pl using linkedD(3) [OF lk] by blast
  then have "c_flags (cb s' i) = flag_of pl" if "i \<in> set ((ls(X := xs)) pl)" for i pl
    using that d(3) sub [of pl] by (auto simp: fl blocks_ok_def)
  moreover have "c_flags (cb s' i) = c_busy" if "i \<in> insert b out" for i
    using that d(3) by (auto simp: fl blocks_ok_def)
  moreover have "pins s' ! i = (if i < cblkhiwater s' \<and> c_flags (cb s' i) \<noteq> c_unpinned then 1 else 0)" if i: "i < length (cblocks s')" for i
  proof -
    have "length (pins s) = length (cblocks s)" using d(2) by (simp add: array_ok_def)
    then have "i < length (pins s)" using i f(1) by simp
    moreover have "pins s ! i = (if i < cblkhiwater s \<and> c_flags (cb s i) \<noteq> c_unpinned then 1 else 0)"
      using d(3) i f(1) by (simp add: blocks_ok_def)
    ultimately show ?thesis using flb ar(1) [OF bX] X by (cases X) (auto simp: pin fl hi nth_upd)
  qed
  moreover have "length (c_data (cb s' i)) = CLSIZE" if "i < length (cblocks s')" for i
    using that d(3) f(1) f(7) [of i] by (simp add: blocks_ok_def)
  ultimately have blk: "blocks_ok (ls(X := xs)) (insert b out) s'" unfolding blocks_ok_def by blast
  have "list_ok s' ((ls(X := xs)) (PQ p)) (cl s' p)" if "p < length (clists s')" for p
    using d(5) [of p] that f(2) X [of p] ar(3) [of _ "PQ p"] by (simp add: frame_list [OF fr])
  with lk arr blk fo show ?thesis unfolding cio_ok_def by blast
qed

section \<open>Putting\<close>

text \<open>What a caller of \<open>get_unpinned\<close> has seen on an unpinned list stays there.\<close>

definition grows :: "(place \<Rightarrow> nat list) \<Rightarrow> (place \<Rightarrow> nat list) \<Rightarrow> bool" where
  "grows ls ls' \<longleftrightarrow> set (ls PFront) \<subseteq> set (ls' PFront) \<and> set (ls PEnd) \<subseteq> set (ls' PEnd)"

lemma grows_refl [simp]: "grows ls ls" by (simp add: grows_def)
lemma grows_trans: "grows a b \<Longrightarrow> grows b c \<Longrightarrow> grows a c" unfolding grows_def by blast

definition put_to :: "(place \<Rightarrow> nat list) \<Rightarrow> nat set \<Rightarrow> nat \<Rightarrow> cio \<Rightarrow> (place \<Rightarrow> nat list) \<Rightarrow> cio \<Rightarrow> bool" where
  "put_to ls out b s ls' s' \<longleftrightarrow> cio_ok ls' (out - {b}) s' \<and> (\<forall>p. ls' (PQ p) = ls (PQ p)) \<and> frame s s'
     \<and> (\<forall>i \<in> out - {b}. c_next (cb s' i) = c_next (cb s i)) \<and> grows ls ls'"

lemma head_put:
  assumes "X \<noteq> PPin \<longrightarrow> pincfree_next s' = pincfree_next s" "X \<noteq> PFront \<longrightarrow> cfree_next s' = cfree_next s"
    and "X \<noteq> PEnd \<longrightarrow> endcfree s' = endcfree s" and "clists s' = clists s" and "head s' X = h" and "\<And>p. X \<noteq> PQ p"
  shows "head s' = (head s)(X := h)"
proof
  fix pl show "head s' pl = ((head s)(X := h)) pl" using assms by (cases pl) auto
qed

lemma out_busy: "cio_ok ls out s \<Longrightarrow> b \<in> out \<Longrightarrow> c_flags (cb s b) = c_busy"
  using cio_okD(3) by (auto simp: blocks_ok_def)

lemma out_length: "cio_ok ls out s \<Longrightarrow> b \<in> out \<Longrightarrow> b < length (cblocks s)"
  using in_array(4) cio_okD(2) by blast

lemma put_pinned_front_ok:
  assumes ok: "cio_ok ls out s" and b: "b \<in> out"
  shows "\<exists>ls' s'. put_pinned_front b s = Some s' \<and> put_to ls out b s ls' s' \<and> waiters s' = waiters s"
proof -
  note d = cio_okD [OF ok] and len = out_length [OF ok b]
  define t where "t = set_cb b (\<lambda>r. r\<lparr>c_flags := c_pinned\<rparr>) s"
  define s' where "s' = (set_cb b (\<lambda>r. r\<lparr>c_next := pincfree_next s\<rparr>)
    (t\<lparr>pincfree_size := pincfree_size s + 1, endpincfree := if pincfree_next s = None then Some b else endpincfree s\<rparr>))
    \<lparr>pincfree_next := Some b\<rparr>"
  have st: "put_pinned_front b s = Some s'"
    by (simp add: put_pinned_front_def out_busy [OF ok b] Let_def s'_def t_def set_cb_def)
  have cb: "cb s' i = (if i = b then (cb s b)\<lparr>c_flags := c_pinned, c_next := pincfree_next s\<rparr> else cb s i)" for i
    using len by (simp add: s'_def t_def cb_set_cb)
  have hs: "head s' = (head s)(PPin := Some b)" by (rule head_put) (simp_all add: s'_def t_def)
  have nx: "(\<lambda>i. c_next (cb s' i)) = (\<lambda>i. c_next (cb s i))(b := head s PPin)" by (simp add: cb fun_eq_iff)
  have emp: "pincfree_next s = None \<longleftrightarrow> ls PPin = []" using linkedD(2) [OF d(1), of PPin] by (cases "ls PPin") auto
  have fr: "frame s s'" using len by (intro frameI) (simp_all add: cb, simp_all add: s'_def t_def)
  have "cio_ok (ls(PPin := b # ls PPin)) (out - {b}) s'"
  proof (rule put_free [OF ok b _ fr])
    show "linked (\<lambda>i. c_next (cb s' i)) (head s') (ls(PPin := b # ls PPin)) (out - {b})"
      unfolding nx hs by (rule linked_push [OF d(1) b])
    show "free_ok (ls(PPin := b # ls PPin)) s'"
      using d(4) emp by (auto simp: free_ok_def s'_def t_def)
  qed (simp_all add: cb, simp_all add: s'_def t_def)
  then show ?thesis unfolding st put_to_def using fr
    by (intro exI [of _ "ls(PPin := b # ls PPin)"] exI [of _ s']) (simp add: cb grows_def, simp add: s'_def t_def)
qed

lemma put_pinned_back_ok:
  assumes ok: "cio_ok ls out s" and b: "b \<in> out"
  shows "\<exists>ls' s'. put_pinned_back b s = Some s' \<and> put_to ls out b s ls' s' \<and> waiters s' = waiters s"
proof -
  note d = cio_okD [OF ok] and len = out_length [OF ok b]
  define t where "t = (set_cb b (\<lambda>r. r\<lparr>c_flags := c_pinned\<rparr>) s)\<lparr>pincfree_size := pincfree_size s + 1\<rparr>"
  define t' where "t' = (if ls PPin = [] then t\<lparr>pincfree_next := Some b\<rparr> else set_cb (last (ls PPin)) (\<lambda>r. r\<lparr>c_next := Some b\<rparr>) t)"
  define s' where "s' = set_cb b (\<lambda>r. r\<lparr>c_next := None\<rparr>) (t'\<lparr>endpincfree := Some b\<rparr>)"
  have emp: "pincfree_next s = None \<longleftrightarrow> ls PPin = []" using linkedD(2) [OF d(1), of PPin] by (cases "ls PPin") auto
  have e: "endpincfree s = Some (last (ls PPin))" if "ls PPin \<noteq> []" using d(4) that by (simp add: free_ok_def)
  have st: "put_pinned_back b s = Some s'"
    using emp e by (auto simp: put_pinned_back_def out_busy [OF ok b] Let_def s'_def t'_def t_def split: option.splits)
  have lst: "last (ls PPin) < length (cblocks s)" "last (ls PPin) \<noteq> b" if "ls PPin \<noteq> []"
    using in_array(3) [OF d(2), of _ PPin] linkedD(3) [OF d(1), of _ PPin] b last_in_set [OF that] by auto
  have cb: "cb s' i = (if i = b then (cb s b)\<lparr>c_flags := c_pinned, c_next := None\<rparr>
      else if ls PPin \<noteq> [] \<and> i = last (ls PPin) then (cb s i)\<lparr>c_next := Some b\<rparr> else cb s i)" for i
    using len lst by (auto simp: s'_def t'_def t_def cb_set_cb)
  have fr: "frame s s'" using len lst by (intro frameI) (simp_all add: cb, simp_all add: s'_def t'_def t_def)
  have hs: "head s' = (if ls PPin = [] then (head s)(PPin := Some b) else head s)"
  proof (cases "ls PPin = []")
    case True
    have "head s' = (head s)(PPin := Some b)" by (rule head_put) (simp_all add: True s'_def t'_def t_def)
    with True show ?thesis by simp
  next
    case False
    have "head s' = (head s)(PPin := head s PPin)" by (rule head_put) (simp_all add: False s'_def t'_def t_def)
    with False show ?thesis unfolding fun_upd_triv by simp
  qed
  have "linked (\<lambda>i. c_next (cb s' i)) (head s') (ls(PPin := ls PPin @ [b])) (out - {b})"
  proof (cases "ls PPin = []")
    case True
    then have "(\<lambda>i. c_next (cb s' i)) = (\<lambda>i. c_next (cb s i))(b := None)" by (simp add: cb fun_eq_iff)
    with linked_first [OF d(1) b True] True hs show ?thesis by simp
  next
    case False
    then have "(\<lambda>i. c_next (cb s' i)) = (\<lambda>i. c_next (cb s i))(last (ls PPin) := Some b, b := None)" by (simp add: cb fun_eq_iff)
    with linked_append [OF d(1) b False] False hs show ?thesis by simp
  qed
  note lk = this
  have "cio_ok (ls(PPin := ls PPin @ [b])) (out - {b}) s'"
  proof (rule put_free [OF ok b _ fr lk])
    show "free_ok (ls(PPin := ls PPin @ [b])) s'" using d(4) by (auto simp: free_ok_def s'_def t'_def t_def)
  qed (simp_all add: cb, simp_all add: s'_def t'_def t_def)
  moreover have "c_next (cb s' i) = c_next (cb s i)" if "i \<in> out - {b}" for i
    using that lst linkedD(3) [OF d(1), of i PPin] last_in_set [of "ls PPin"] by (auto simp: cb)
  ultimately show ?thesis unfolding st put_to_def using fr
    by (intro exI [of _ "ls(PPin := ls PPin @ [b])"] exI [of _ s']) (simp add: grows_def, simp add: s'_def t'_def t_def)
qed

lemma put_unpinned_ok:
  assumes ok: "cio_ok ls out s" and b: "b \<in> out"
  shows "\<exists>ls' s'. put_unpinned b s = Some s' \<and> put_to ls out b s ls' s' \<and> waiters s' = waiters s"
proof -
  note d = cio_okD [OF ok] and len = out_length [OF ok b]
  define X where "X = (if b < cblkhiwater s div 2 then PFront else PEnd)"
  define t where "t = set_cb b (\<lambda>r. r\<lparr>c_next := head s X\<rparr>) (set_cb b (\<lambda>r. r\<lparr>c_flags := c_unpinned\<rparr>) s)"
  define s' where "s' = t\<lparr>cfree_next := if X = PFront then Some b else cfree_next s,
    endcfree := if X = PFront then endcfree s else Some b, cfree_size := cfree_size s + 1, pins := upd (pins s) b (\<lambda>n. n - 1)\<rparr>"
  have X: "X = PFront \<or> X = PEnd" by (simp add: X_def)
  have "pins s ! b \<noteq> 0"
    using d(3) len in_array(2) [OF d(2) b] out_busy [OF ok b] by (simp add: blocks_ok_def)
  then have st: "put_unpinned b s = Some s'"
    by (simp add: put_unpinned_def out_busy [OF ok b] Let_def unpin_def s'_def t_def X_def set_cb_def)
  have cb: "cb s' i = (if i = b then (cb s b)\<lparr>c_flags := c_unpinned, c_next := head s X\<rparr> else cb s i)" for i
    using len by (simp add: s'_def t_def cb_set_cb)
  have hs: "head s' = (head s)(X := Some b)" by (rule head_put) (use X in \<open>auto simp: s'_def t_def\<close>)
  have nx: "(\<lambda>i. c_next (cb s' i)) = (\<lambda>i. c_next (cb s i))(b := head s X)" by (simp add: cb fun_eq_iff)
  have fr: "frame s s'" using len by (intro frameI) (simp_all add: cb, simp_all add: s'_def t_def)
  have flg: "flag_of X = c_unpinned" using X by auto
  have "cio_ok (ls(X := b # ls X)) (out - {b}) s'"
  proof (rule put_free [OF ok b _ fr])
    show "linked (\<lambda>i. c_next (cb s' i)) (head s') (ls(X := b # ls X)) (out - {b})"
      unfolding nx hs by (rule linked_push [OF d(1) b])
    show "free_ok (ls(X := b # ls X)) s'" using d(4) X by (auto simp: free_ok_def s'_def t_def)
  qed (use X flg in \<open>simp_all add: cb\<close>, use X in \<open>auto simp: s'_def t_def\<close>)
  then show ?thesis unfolding st put_to_def using fr X
    by (intro exI [of _ "ls(X := b # ls X)"] exI [of _ s']) (auto simp: cb grows_def, simp_all add: s'_def t_def)
qed

lemma cio_ok_waiters: "cio_ok ls out (s\<lparr>waiters := w\<rparr>) = cio_ok ls out s"
proof -
  have "head (s\<lparr>waiters := w\<rparr>) = head s" by (rule ext, rename_tac pl, case_tac pl) auto
  moreover have "content (s\<lparr>waiters := w\<rparr>) bs = content s bs" for bs by (simp add: content_def)
  ultimately show ?thesis by (simp add: cio_ok_def array_ok_def blocks_ok_def free_ok_def list_ok_def)
qed

lemma put_to_waiters: "put_to ls out b s ls' s' \<Longrightarrow> put_to ls out b s ls' (s'\<lparr>waiters := w\<rparr>)"
  by (simp add: put_to_def cio_ok_waiters, simp add: frame_def)

text \<open>\<open>putcf\<close> never fails on a cblock that is out, and wakes every waiter.\<close>

lemma putcf_ok:
  assumes ok: "cio_ok ls out s" and b: "b \<in> out"
  shows "\<exists>ls' s'. putcf b s = Some s' \<and> put_to ls out b s ls' s' \<and> waiters s' = []"
proof -
  consider (front) "pincfree_size s \<le> pincreq s" | (tail) "\<not> pincfree_size s \<le> pincreq s" "int b \<le> pincreq s"
    | (un) "\<not> pincfree_size s \<le> pincreq s" "\<not> int b \<le> pincreq s" by blast
  then obtain ls' t where "putcf b s = Some (t\<lparr>waiters := []\<rparr>)" "put_to ls out b s ls' t"
  proof cases
    case front
    with put_pinned_front_ok [OF ok b] that show ?thesis by (auto simp: putcf_def)
  next
    case tail
    with put_pinned_back_ok [OF ok b] that show ?thesis by (auto simp: putcf_def)
  next
    case un
    with put_unpinned_ok [OF ok b] that show ?thesis by (auto simp: putcf_def)
  qed
  with put_to_waiters [OF this(2), of "[]"]
  show ?thesis by (intro exI [of _ ls'] exI [of _ "t\<lparr>waiters := []\<rparr>"]) simp
qed

section \<open>Getting\<close>

definition got :: "(place \<Rightarrow> nat list) \<Rightarrow> nat set \<Rightarrow> nat \<Rightarrow> cio \<Rightarrow> (place \<Rightarrow> nat list) \<Rightarrow> cio \<Rightarrow> bool" where
  "got ls out b s ls' s' \<longleftrightarrow> cio_ok ls' (insert b out) s' \<and> b \<notin> out \<and> (\<forall>p. ls' (PQ p) = ls (PQ p)) \<and> frame s s'
     \<and> (\<forall>i \<in> out. c_next (cb s' i) = c_next (cb s i)) \<and> waiters s' = waiters s"

lemma get_pinned_ok:
  assumes ok: "cio_ok ls out s"
  shows "if ls PPin = [] then get_pinned s = Some (s, None)
    else \<exists>b ls' s'. get_pinned s = Some (s', Some b) \<and> got ls out b s ls' s' \<and> grows ls ls'"
proof (cases "ls PPin")
  case Nil
  then have "pincfree_next s = None" using linkedD(2) [OF cio_okD(1) [OF ok], of PPin] by simp
  with Nil show ?thesis by (simp add: get_pinned_def)
next
  case (Cons b r)
  note d = cio_okD [OF ok]
  have hd: "pincfree_next s = Some b" using linkedD(2) [OF d(1), of PPin] Cons by simp
  have len: "b < length (cblocks s)" using in_array(3) [OF d(2), of b PPin] Cons by simp
  have flg: "c_flags (cb s b) = c_pinned" using d(3) Cons by (auto simp: blocks_ok_def dest!: spec [of _ PPin])
  define s' where "s' = set_cb b (\<lambda>r. r\<lparr>c_flags := c_busy\<rparr>) (s\<lparr>pincfree_next := c_next (cb s b), pincfree_size := pincfree_size s - 1\<rparr>)"
  have st: "get_pinned s = Some (s', Some b)" by (simp add: get_pinned_def hd Let_def flg s'_def)
  have cb: "cb s' i = (if i = b then (cb s b)\<lparr>c_flags := c_busy\<rparr> else cb s i)" for i
    using len by (simp add: s'_def cb_set_cb)
  have hs: "head s' = (head s)(PPin := c_next (cb s b))" by (rule head_put) (simp_all add: s'_def)
  have nx: "(\<lambda>i. c_next (cb s' i)) = (\<lambda>i. c_next (cb s i))" by (simp add: cb fun_eq_iff)
  have fr: "frame s s'" using len by (intro frameI) (simp_all add: cb, simp_all add: s'_def)
  have "cio_ok (ls(PPin := r)) (insert b out) s'"
  proof (rule take_free [OF ok _ _ fr])
    show "linked (\<lambda>i. c_next (cb s' i)) (head s') (ls(PPin := r)) (insert b out)"
      unfolding nx hs by (rule linked_pop [OF d(1) Cons])
    show "free_ok (ls(PPin := r)) s'" using d(4) Cons by (auto simp: free_ok_def s'_def)
  qed (use Cons in \<open>simp_all add: cb\<close>, simp_all add: s'_def)
  moreover have "b \<notin> out" using linkedD(3) [OF d(1), of b PPin] Cons by simp
  ultimately have "got ls out b s (ls(PPin := r)) s'" using fr unfolding got_def by (simp add: cb, simp add: s'_def)
  with st Cons show ?thesis by (auto simp: grows_def)
qed

lemma gu_walk_path:
  "path (\<lambda>i. c_next (cb s i)) h (a @ p # b # c) \<Longrightarrow> distinct (a @ p # b # c) \<Longrightarrow> length a < n \<Longrightarrow> gu_walk n s b h = Some p"
proof (induction a arbitrary: n h)
  case Nil
  then show ?case by (cases n) auto
next
  case (Cons x a)
  then obtain m where n: "n = Suc m" "length a < m" by (cases n) auto
  have "c_next (cb s x) \<noteq> Some b" using Cons.prems(1,2) by (cases a) auto
  then show ?case using Cons.IH [of "c_next (cb s x)" m] Cons.prems n by simp
qed

lemma place_length:
  assumes "cio_ok ls out s"
  shows "length (ls pl) \<le> length (cblocks s)"
proof -
  have "card (set (ls pl)) \<le> card {..<length (cblocks s)}"
    by (rule card_mono) (use in_array(3) [OF cio_okD(2) [OF assms], of _ pl] in auto)
  then show ?thesis using distinct_card [OF linkedD(1) [OF cio_okD(1) [OF assms], of pl]] by simp
qed

definition unpinned_at :: "bool \<Rightarrow> place" where
  "unpinned_at anch = (if anch then PFront else PEnd)"

lemma head_unpinned: "head s (unpinned_at anch) = anchor anch s"
  by (simp add: unpinned_at_def anchor_def)

text \<open>The unlinking, at the head of the list or in the middle.\<close>

definition unlinked :: "(place \<Rightarrow> nat list) \<Rightarrow> nat set \<Rightarrow> place \<Rightarrow> nat \<Rightarrow> cio \<Rightarrow> nat list \<Rightarrow> cio \<Rightarrow> bool" where
  "unlinked ls out X b s xs t \<longleftrightarrow> linked (\<lambda>i. c_next (cb t i)) (head t) (ls(X := xs)) (insert b out)
     \<and> set (ls X) = insert b (set xs) \<and> length (ls X) = Suc (length xs) \<and> frame s t
     \<and> (\<forall>i. c_flags (cb t i) = c_flags (cb s i)) \<and> (\<forall>i \<in> insert b out. c_next (cb t i) = c_next (cb s i))
     \<and> t = s\<lparr>cfree_next := cfree_next t, endcfree := endcfree t, cblocks := cblocks t\<rparr>"

lemma gu_unlink_head:
  assumes lk: "linked (\<lambda>i. c_next (cb s i)) (head s) ls out" and r: "ls (unpinned_at anch) = b # r"
  shows "\<exists>t. gu_unlink anch b s = Some t \<and> unlinked ls out (unpinned_at anch) b s r t"
proof -
  let ?X = "unpinned_at anch" and ?nx = "\<lambda>i. c_next (cb s i)"
  let ?t = "if anch then s\<lparr>cfree_next := ?nx b\<rparr> else s\<lparr>endcfree := ?nx b\<rparr>"
  have "anchor anch s = Some b" using linkedD(2) [OF lk, of ?X, unfolded head_unpinned] r by simp
  then have st: "gu_unlink anch b s = Some ?t" by (simp add: gu_unlink_def)
  have hs: "head ?t = (head s)(?X := ?nx b)" by (rule head_put) (auto simp: unpinned_at_def)
  have nx: "(\<lambda>i. c_next (cb ?t i)) = ?nx" by simp
  have "linked (\<lambda>i. c_next (cb ?t i)) (head ?t) (ls(?X := r)) (insert b out)"
    unfolding nx hs by (rule linked_pop [OF lk r])
  moreover have "frame s ?t" by (rule frameI) simp_all
  ultimately have "unlinked ls out ?X b s r ?t" unfolding unlinked_def using r by auto
  with st show ?thesis by blast
qed

lemma gu_unlink_middle:
  assumes lk: "linked (\<lambda>i. c_next (cb s i)) (head s) ls out" and r: "ls (unpinned_at anch) = a @ p # b # c"
    and len: "length a < length (cblocks s)" "p < length (cblocks s)"
  shows "\<exists>t. gu_unlink anch b s = Some t \<and> unlinked ls out (unpinned_at anch) b s (a @ p # c) t"
proof -
  let ?X = "unpinned_at anch" and ?nx = "\<lambda>i. c_next (cb s i)"
  let ?t = "set_cb p (\<lambda>r. r\<lparr>c_next := ?nx b\<rparr>) s"
  note dist = linkedD(1) [OF lk, of ?X, unfolded r] and pth = linkedD(2) [OF lk, of ?X, unfolded head_unpinned r]
  have "anchor anch s \<noteq> Some b" using pth dist by (cases a) auto
  with gu_walk_path [OF pth dist len(1)] have st: "gu_unlink anch b s = Some ?t" by (simp add: gu_unlink_def)
  have cb: "cb ?t i = (if i = p then (cb s p)\<lparr>c_next := ?nx b\<rparr> else cb s i)" for i using len(2) by (rule cb_set_cb)
  have hs: "head ?t = head s" by (rule ext, rename_tac pl, case_tac pl) auto
  have nx: "(\<lambda>i. c_next (cb ?t i)) = ?nx(p := ?nx b)" by (simp add: cb fun_eq_iff)
  have "linked (\<lambda>i. c_next (cb ?t i)) (head ?t) (ls(?X := a @ p # c)) (insert b out)"
    unfolding nx hs by (rule linked_skip [OF lk r])
  moreover have "frame s ?t" by (rule frameI) (simp_all add: cb)
  moreover have "p \<notin> insert b out" using linkedD(3) [OF lk, of p ?X] dist r by auto
  moreover have "?t = s\<lparr>cfree_next := cfree_next ?t, endcfree := endcfree ?t, cblocks := cblocks ?t\<rparr>"
    by (simp add: set_cb_def)
  ultimately have "unlinked ls out ?X b s (a @ p # c) ?t" unfolding unlinked_def using r by (auto simp: cb)
  with st show ?thesis by blast
qed

lemma gu_unlink_ok:
  assumes ok: "cio_ok ls out s" and b: "b \<in> set (ls (unpinned_at anch))"
    and s0: "s0 = s\<lparr>cfree_size := k, pins := ps\<rparr>"
  shows "\<exists>xs t. gu_unlink anch b s0 = Some t \<and> unlinked ls out (unpinned_at anch) b s0 xs t"
proof -
  let ?X = "unpinned_at anch"
  have hs: "head s0 = head s" by (rule ext, rename_tac pl, case_tac pl) (auto simp: s0)
  have lk: "linked (\<lambda>i. c_next (cb s0 i)) (head s0) ls out" unfolding hs using cio_okD(1) [OF ok] by (simp add: s0)
  obtain a' c where r: "ls ?X = a' @ b # c" using b by (meson split_list)
  show ?thesis
  proof (cases a' rule: rev_cases)
    case Nil
    with r gu_unlink_head [OF lk, of anch b c] show ?thesis by auto
  next
    case (snoc a p)
    then have r: "ls ?X = a @ p # b # c" using r by simp
    have "p < length (cblocks s)" using in_array(3) [OF cio_okD(2) [OF ok], of p ?X] r by simp
    moreover have "length a < length (cblocks s)" using place_length [OF ok, of ?X] r by simp
    ultimately show ?thesis using gu_unlink_middle [OF lk r] by (auto simp: s0)
  qed
qed

lemma gu_take_ok:
  assumes ok: "cio_ok ls out s" and b: "b \<in> set (ls (unpinned_at anch))"
  shows "\<exists>ls' s'. gu_take anch b (pin_block b s) = Some s' \<and> got ls out b s ls' s'"
proof -
  note d = cio_okD [OF ok]
  let ?X = "unpinned_at anch"
  have X: "?X = PFront \<or> ?X = PEnd" by (simp add: unpinned_at_def)
  have flg: "c_flags (cb s b) = c_unpinned" "flag_of ?X = c_unpinned" using d(3) b X by (auto simp: blocks_ok_def)
  have len: "b < length (cblocks s)" using in_array(3) [OF d(2) b] .
  define s0 where "s0 = s\<lparr>cfree_size := cfree_size s - 1, pins := upd (pins s) b Suc\<rparr>"
  from gu_unlink_ok [OF ok b s0_def] obtain xs t where go: "gu_unlink anch b s0 = Some t"
    and un: "unlinked ls out ?X b s0 xs t" by blast
  have t: "linked (\<lambda>i. c_next (cb t i)) (head t) (ls(?X := xs)) (insert b out)" "set (ls ?X) = insert b (set xs)"
    "length (ls ?X) = Suc (length xs)" "frame s0 t" "\<And>i. c_flags (cb t i) = c_flags (cb s i)"
    "\<And>i. i \<in> insert b out \<Longrightarrow> c_next (cb t i) = c_next (cb s i)"
    using un unfolding unlinked_def by (auto simp: s0_def)
  have rest: "t = s0\<lparr>cfree_next := cfree_next t, endcfree := endcfree t, cblocks := cblocks t\<rparr>"
    using un unfolding unlinked_def by blast
  have oth: "cfree_size t = cfree_size s - 1" "pins t = upd (pins s) b Suc" "cblkhiwater t = cblkhiwater s" "cblkavail t = cblkavail s"
    "pincfree_size t = pincfree_size s" "endpincfree t = endpincfree s" "waiters t = waiters s"
    by (subst rest, simp add: s0_def)+
  have fr: "frame s t" using t(4) by (simp add: frame_def s0_def)
  let ?s' = "set_cb b (\<lambda>r. r\<lparr>c_flags := c_busy\<rparr>) t"
  have "pin_block b s\<lparr>cfree_size := cfree_size (pin_block b s) - 1\<rparr> = s0" by (simp add: pin_block_def s0_def)
  then have st: "gu_take anch b (pin_block b s) = Some ?s'" by (simp add: gu_take_def go t(5) flg)
  have cb: "cb ?s' i = (if i = b then (cb t b)\<lparr>c_flags := c_busy\<rparr> else cb t i)" for i
    using len frameD(1) [OF fr] by (simp add: cb_set_cb)
  have hs: "head ?s' = head t" by (rule ext, rename_tac pl, case_tac pl) auto
  have nx: "(\<lambda>i. c_next (cb ?s' i)) = (\<lambda>i. c_next (cb t i))" by (simp add: cb fun_eq_iff)
  have fr': "frame s ?s'" by (rule frame_trans [OF fr], rule frameI) (simp_all add: cb)
  have "cio_ok (ls(?X := xs)) (insert b out) ?s'"
  proof (rule take_free [OF ok t(2) _ fr'])
    show "linked (\<lambda>i. c_next (cb ?s' i)) (head ?s') (ls(?X := xs)) (insert b out)" unfolding nx hs by (rule t(1))
    show "free_ok (ls(?X := xs)) ?s'" using d(4) X t(3) by (auto simp: free_ok_def oth)
  qed (use X flg in \<open>auto simp: cb t oth\<close>)
  moreover have "b \<notin> out" using linkedD(3) [OF d(1) b] .
  ultimately have "got ls out b s (ls(?X := xs)) ?s'" using fr' X unfolding got_def by (auto simp: cb t oth)
  with st show ?thesis by blast
qed

lemma gu_raise_ok:
  assumes ok: "cio_ok ls out s"
  shows "gu_raise pin_ok s = (s, None) \<and> (pin_ok \<longrightarrow> cblkavail s = cmax s)
    \<or> (\<exists>b s'. gu_raise pin_ok s = (s', Some b) \<and> got ls out b s ls s')"
proof (cases "cblkavail s < cmax s \<and> pin_ok")
  case False
  moreover have "cblkavail s \<le> cmax s" using cio_okD(2) [OF ok] by (simp add: array_ok_def)
  ultimately show ?thesis by (auto simp: gu_raise_def)
next
  case True
  note d = cio_okD [OF ok]
  let ?b = "cblkhiwater s"
  define s' where "s' = set_cb ?b (\<lambda>r. r\<lparr>c_flags := c_busy\<rparr>)
    (s\<lparr>pins := upd (pins s) ?b Suc, cblkhiwater := ?b + 1, cblkavail := cblkavail s + 1\<rparr>)"
  have st: "gu_raise pin_ok s = (s', Some ?b)" using True by (simp add: gu_raise_def Let_def pin_block_def s'_def)
  have len: "?b < length (cblocks s)" "length (pins s) = length (cblocks s)" using True d(2) by (auto simp: array_ok_def)
  have new: "?b \<notin> set (ls pl)" "?b \<notin> out" for pl using in_array(1,2) [OF d(2)] by blast+
  have cb: "cb s' i = (if i = ?b then (cb s ?b)\<lparr>c_flags := c_busy\<rparr> else cb s i)" for i
    using len by (simp add: s'_def cb_set_cb)
  have hs: "head s' = head s" by (rule ext, rename_tac pl, case_tac pl) (auto simp: s'_def)
  have nx: "(\<lambda>i. c_next (cb s' i)) = (\<lambda>i. c_next (cb s i))" by (simp add: cb fun_eq_iff)
  have fr: "frame s s'" by (rule frameI) (simp_all add: cb, simp_all add: s'_def)
  have lk: "linked (\<lambda>i. c_next (cb s' i)) (head s') ls (insert ?b out)"
    unfolding nx hs by (rule linked_new [OF d(1) new(1)])
  moreover have "array_ok ls (insert ?b out) s'"
  proof -
    have "(\<Union>pl. set (ls pl)) \<union> insert ?b out = {..<Suc ?b}" using d(2) unfolding array_ok_def lessThan_Suc by blast
    with d(2) len show ?thesis unfolding array_ok_def by (simp add: s'_def)
  qed
  moreover have "pins s' ! i = (if i < cblkhiwater s' \<and> c_flags (cb s' i) \<noteq> c_unpinned then 1 else 0)" if i: "i < length (cblocks s')" for i
  proof -
    have "i < length (pins s)" "pins s ! i = (if i < ?b \<and> c_flags (cb s i) \<noteq> c_unpinned then 1 else 0)"
      using d(3) i len by (simp_all add: blocks_ok_def s'_def)
    then show ?thesis unfolding cb by (auto simp: s'_def nth_upd)
  qed
  then have "blocks_ok ls (insert ?b out) s'" unfolding blocks_ok_def
    using d(3) new by (simp add: blocks_ok_def cb, simp add: s'_def)
  moreover have "free_ok ls s'" using d(4) by (simp add: free_ok_def s'_def)
  moreover have "list_ok s' (ls (PQ p)) (cl s' p)" if "p < length (clists s')" for p
    using d(5) [of p] that frameD(2) [OF fr] in_array(3) [OF d(2), of _ "PQ p"] by (simp add: frame_list [OF fr])
  ultimately have "cio_ok ls (insert ?b out) s'" using lk unfolding cio_ok_def by blast
  then have "got ls out ?b s ls s'" using fr new unfolding got_def by (simp add: cb, simp add: s'_def)
  with st show ?thesis by blast
qed

lemma gu_look_ok:
  assumes ok: "cio_ok ls out s" and look: "gu_look s = (anch, Some b)"
  shows "b \<in> set (ls (unpinned_at anch))"
proof -
  have "anchor anch s = Some b" using look by (auto simp: gu_look_def anchor_def split: if_splits)
  then show ?thesis using linkedD(2) [OF cio_okD(1) [OF ok], of "unpinned_at anch", unfolded head_unpinned] by (auto simp: path_Some)
qed

lemma gu_rest_ok:
  assumes ok: "cio_ok ls out s" and bp: "\<And>b. bp = Some b \<Longrightarrow> b \<in> set (ls (unpinned_at anch))"
  shows "gu_rest pin_ok anch bp s = Some (s, None) \<and> (pin_ok \<longrightarrow> bp = None \<and> cblkavail s = cmax s)
    \<or> (\<exists>b ls' s'. gu_rest pin_ok anch bp s = Some (s', Some b) \<and> got ls out b s ls' s')"
proof (cases bp)
  case None
  with gu_raise_ok [OF ok, of pin_ok] show ?thesis by (auto simp: gu_rest_def)
next
  case (Some b)
  with gu_take_ok [OF ok bp [OF Some]] show ?thesis by (cases pin_ok) (auto simp: gu_rest_def)
qed

end
