(* ===== verification/ClistEffect.thy ===== *)
theory ClistEffect
  imports ClistFree
begin

text \<open>
  The operations on a character list, against the bytes it holds: each is the operation of a
  double-ended queue of bytes, keeps the invariant and leaves the other lists alone.
\<close>

section \<open>The bytes of a cblock\<close>

definition sane :: "cblock \<Rightarrow> bool" where
  "sane r \<longleftrightarrow> c_first r \<le> c_last r \<and> c_last r \<le> CLSIZE \<and> length (c_data r) = CLSIZE"

lemma length_bytes: "sane r \<Longrightarrow> length (bytes r) = c_last r - c_first r"
  by (simp add: sane_def bytes_def)

lemma bytes_first:
  assumes "sane r" and "c_first r < c_last r"
  shows "bytes r = c_data r ! c_first r # bytes (r\<lparr>c_first := Suc (c_first r)\<rparr>)"
  using assms by (simp add: sane_def bytes_def Cons_nth_drop_Suc [symmetric])

lemma bytes_last:
  assumes "sane r" and "c_first r < c_last r"
  shows "bytes r = bytes (r\<lparr>c_last := c_last r - 1\<rparr>) @ [c_data r ! (c_last r - 1)]"
proof -
  obtain n where n: "c_last r = Suc n" using assms(2) by (cases "c_last r") auto
  have "take (Suc n) (c_data r) = take n (c_data r) @ [c_data r ! n]"
    by (rule take_Suc_conv_app_nth) (use assms n in \<open>simp add: sane_def\<close>)
  with n assms show ?thesis by (simp add: sane_def bytes_def)
qed

lemma bytes_take:
  assumes "sane r" and "k \<le> c_last r - c_first r"
  shows "bytes r = take k (bytes r) @ bytes (r\<lparr>c_first := c_first r + k\<rparr>)"
proof -
  have "bytes (r\<lparr>c_first := c_first r + k\<rparr>) = drop k (bytes r)" using assms by (simp add: sane_def bytes_def add.commute)
  then show ?thesis by simp
qed

lemma bytes_store_front:
  assumes "sane r" and "0 < c_first r"
  shows "bytes (r\<lparr>c_first := c_first r - 1, c_data := (c_data r)[c_first r - 1 := c]\<rparr>) = c # bytes r"
proof -
  obtain n where n: "c_first r = Suc n" using assms(2) by (cases "c_first r") auto
  have "n < length (take (c_last r) ((c_data r)[n := c]))" using assms n by (simp add: sane_def)
  from Cons_nth_drop_Suc [OF this, symmetric] n assms show ?thesis by (simp add: sane_def bytes_def take_update_swap drop_update_cancel)
qed

lemma bytes_put_bytes:
  assumes "sane r" and "c_last r + length xs \<le> CLSIZE"
  shows "bytes (put_bytes xs r) = bytes r @ xs"
  using assms by (simp add: sane_def bytes_def put_bytes_def)

lemma store_back_put_bytes:
  assumes "sane r" and "c_last r < CLSIZE"
  shows "r\<lparr>c_data := (c_data r)[c_last r := c], c_last := c_last r + 1\<rparr> = put_bytes [c] r"
  using assms by (simp add: sane_def put_bytes_def upd_conv_take_nth_drop)

lemma bytes_empty [simp]: "c_first r = c_last r \<Longrightarrow> bytes r = []"
  by (simp add: bytes_def)

lemma content_simps [simp]:
  "content s [] = []" "content s (b # bs) = bytes (cb s b) @ content s bs"
  "content s (bs @ cs) = content s bs @ content s cs"
  by (simp_all add: content_def)

lemma content_cong: "(\<And>b. b \<in> set bs \<Longrightarrow> bytes (cb s' b) = bytes (cb s b)) \<Longrightarrow> content s' bs = content s bs"
  unfolding content_def by (intro arg_cong [of _ _ concat] map_cong refl)

section \<open>One list changes\<close>

text \<open>
  \<open>effect\<close>: list \<open>p\<close> holds the bytes \<open>q\<close> afterwards, the others hold what they held, and a cblock
  that was and stays out is not touched.
\<close>

definition effect :: "(place \<Rightarrow> nat list) \<Rightarrow> nat set \<Rightarrow> cio \<Rightarrow> nat \<Rightarrow> 8 word list \<Rightarrow> (place \<Rightarrow> nat list) \<Rightarrow> nat set \<Rightarrow> cio \<Rightarrow> bool" where
  "effect ls out s p q ls' out' s' \<longleftrightarrow> cio_ok ls' out' s' \<and> content s' (ls' (PQ p)) = q
     \<and> (\<forall>p'. p' \<noteq> p \<longrightarrow> content s' (ls' (PQ p')) = content s (ls (PQ p')))
     \<and> length (clists s') = length (clists s) \<and> pincreq s' = pincreq s \<and> cmax s' = cmax s
     \<and> (\<forall>i \<in> out \<inter> out'. cb s' i = cb s i) \<and> grows ls ls' \<and> (waiters s' = waiters s \<or> waiters s' = [])"

lemma clist_change:
  assumes ok: "cio_ok ls out s" and p: "p < length (clists s)"
    and rest: "s' = s\<lparr>cblocks := cblocks s', clists := clists s'\<rparr>"
    and len: "length (cblocks s') = length (cblocks s)" "length (clists s') = length (clists s)"
    and lk: "linked (\<lambda>i. c_next (cb s' i)) ((head s)(PQ p := c_cf (cl s' p))) (ls(PQ p := xs)) out'"
    and all: "set xs \<union> out' = set (ls (PQ p)) \<union> out"
    and fl: "\<And>i. c_flags (cb s' i) = c_flags (cb s i)"
    and dl: "\<And>i. length (c_data (cb s' i)) = length (c_data (cb s i))"
    and oth: "\<And>i. i \<notin> set (ls (PQ p)) \<union> out \<Longrightarrow> bytes (cb s' i) = bytes (cb s i) \<and> room_ok (cb s' i) = room_ok (cb s i)"
    and cls: "\<And>i. i \<noteq> p \<Longrightarrow> cl s' i = cl s i"
    and new: "list_ok s' xs (cl s' p)"
    and keep: "\<And>i. i \<in> out \<inter> out' \<Longrightarrow> cb s' i = cb s i"
  shows "effect ls out s p (content s' xs) (ls(PQ p := xs)) out' s'"
proof -
  note d = cio_okD [OF ok]
  have f: "cfree_next s' = cfree_next s" "cfree_size s' = cfree_size s" "endcfree s' = endcfree s" "pincfree_next s' = pincfree_next s"
    "pincfree_size s' = pincfree_size s" "endpincfree s' = endpincfree s" "cblkhiwater s' = cblkhiwater s" "pincreq s' = pincreq s"
    "cblkavail s' = cblkavail s" "cmax s' = cmax s" "waiters s' = waiters s" "pins s' = pins s"
    by (subst rest, simp)+
  have hs: "head s' = (head s)(PQ p := c_cf (cl s' p))"
  proof
    fix pl show "head s' pl = ((head s)(PQ p := c_cf (cl s' p))) pl" by (cases pl) (use p len cls f in auto)
  qed
  have arr: "array_ok (ls(PQ p := xs)) out' s'"
  proof -
    have "(\<Union>pl. set ((ls(PQ p := xs)) pl)) \<union> out' = (\<Union>pl. set (ls pl)) \<union> out"
      unfolding Union_upd Union_split [of ls "PQ p"] using all by blast
    with d(2) len f show ?thesis unfolding array_ok_def by simp
  qed
  have busy: "c_flags (cb s i) = c_busy" if "i \<in> set xs \<union> out'" for i
    using that d(3) unfolding all blocks_ok_def by force
  have blk: "blocks_ok (ls(PQ p := xs)) out' s'"
    using d(3) busy unfolding blocks_ok_def by (simp add: fl dl f len)
  have other: "list_ok s' (ls (PQ p')) (cl s' p') \<and> content s' (ls (PQ p')) = content s (ls (PQ p'))"
    if p': "p' < length (clists s)" "p' \<noteq> p" for p'
  proof -
    have *: "bytes (cb s' i) = bytes (cb s i) \<and> room_ok (cb s' i) = room_ok (cb s i)" if "i \<in> set (ls (PQ p'))" for i
      using that linkedD(3,4) [OF d(1), of i "PQ p'"] p'(2) by (intro oth) blast
    then have "content s' (ls (PQ p')) = content s (ls (PQ p'))" by (intro content_cong) blast
    with d(5) [OF p'(1)] * cls [OF p'(2)] show ?thesis by (auto simp: list_ok_def)
  qed
  have "ls (PQ p') = []" if "\<not> p' < length (clists s)" for p'
    using linkedD(2) [OF d(1), of "PQ p'"] that by (simp add: path_None)
  then have cont: "content s' (ls (PQ p')) = content s (ls (PQ p'))" if "p' \<noteq> p" for p'
    using other [of p'] that by (cases "p' < length (clists s)") auto
  have "free_ok (ls(PQ p := xs)) s'" using d(4) by (simp add: free_ok_def f)
  then have "cio_ok (ls(PQ p := xs)) out' s'" unfolding cio_ok_def hs using lk arr blk other new len by simp
  then show ?thesis unfolding effect_def using cont keep f len by (simp add: grows_def)
qed

lemma edit_block:
  assumes ok: "cio_ok ls out s" and p: "p < length (clists s)" and b: "b \<in> set (ls (PQ p))"
    and rest: "s' = s\<lparr>cblocks := cblocks s', clists := clists s'\<rparr>"
    and len: "length (cblocks s') = length (cblocks s)" "length (clists s') = length (clists s)"
    and cb: "\<And>i. cb s' i = (if i = b then r else cb s i)"
    and r: "c_next r = c_next (cb s b)" "c_flags r = c_flags (cb s b)" "length (c_data r) = length (c_data (cb s b))" "room_ok r"
    and cl: "\<And>i. cl s' i = (if i = p then (cl s p)\<lparr>c_cc := int (length (content s' (ls (PQ p))))\<rparr> else cl s i)"
  shows "effect ls out s p (content s' (ls (PQ p))) ls out s'"
proof -
  note d = cio_okD [OF ok]
  have "effect ls out s p (content s' (ls (PQ p))) (ls(PQ p := ls (PQ p))) out s'"
  proof (rule clist_change [OF ok p rest len])
    have "c_cf (cl s' p) = head s (PQ p)" using p by (simp add: cl)
    then have "(head s)(PQ p := c_cf (cl s' p)) = head s" by (simp only: fun_upd_triv)
    moreover have "(\<lambda>i. c_next (cb s' i)) = (\<lambda>i. c_next (cb s i))" using r by (simp add: cb fun_eq_iff)
    ultimately show "linked (\<lambda>i. c_next (cb s' i)) ((head s)(PQ p := c_cf (cl s' p))) (ls(PQ p := ls (PQ p))) out"
      using d(1) by simp
    show "list_ok s' (ls (PQ p)) (cl s' p)" using d(5) [OF p] r(4) by (auto simp: list_ok_def cl cb)
    show "cb s' i = cb s i" if "i \<in> out \<inter> out" for i using that b linkedD(3) [OF d(1) b] by (auto simp: cb)
  qed (use b r in \<open>auto simp: cb cl\<close>)
  then show ?thesis by simp
qed

lemma drop_front:
  assumes ok: "cio_ok ls out s" and p: "p < length (clists s)" and b: "ls (PQ p) = b # bs"
    and rest: "s' = s\<lparr>cblocks := cblocks s', clists := clists s'\<rparr>"
    and len: "length (cblocks s') = length (cblocks s)" "length (clists s') = length (clists s)"
    and cb: "\<And>i. cb s' i = (if i = b then r else cb s i)"
    and r: "c_flags r = c_flags (cb s b)" "length (c_data r) = length (c_data (cb s b))"
    and cl: "\<And>i. cl s' i = (if i = p then \<lparr>c_cc = int (length (content s bs)), c_cf = c_next (cb s b), c_cl = last_opt bs\<rparr> else cl s i)"
  shows "effect ls out s p (content s bs) (ls(PQ p := bs)) (insert b out) s'"
proof -
  note d = cio_okD [OF ok]
  have nb: "b \<notin> set bs" "b \<notin> out" using linkedD(1) [OF d(1), of "PQ p"] linkedD(3) [OF d(1), of b "PQ p"] b by auto
  then have cont: "content s' bs = content s bs" by (intro content_cong) (auto simp: cb)
  have "effect ls out s p (content s' bs) (ls(PQ p := bs)) (insert b out) s'"
  proof (rule clist_change [OF ok p rest len])
    have "linked (\<lambda>i. c_next (cb s i)) ((head s)(PQ p := c_next (cb s b))) (ls(PQ p := bs)) (insert b out)"
      by (rule linked_pop [OF d(1) b])
    from linked_own [OF this, of b "c_next r"]
    have "linked ((\<lambda>i. c_next (cb s i))(b := c_next r)) ((head s)(PQ p := c_next (cb s b))) (ls(PQ p := bs)) (insert b out)" by simp
    moreover have "(\<lambda>i. c_next (cb s' i)) = (\<lambda>i. c_next (cb s i))(b := c_next r)" by (simp add: cb fun_eq_iff)
    ultimately show "linked (\<lambda>i. c_next (cb s' i)) ((head s)(PQ p := c_cf (cl s' p))) (ls(PQ p := bs)) (insert b out)"
      by (simp add: cl)
    show "list_ok s' bs (cl s' p)" using d(5) [OF p] nb cont by (auto simp: list_ok_def cl cb b)
  qed (use b r nb in \<open>auto simp: cb cl\<close>)
  then show ?thesis unfolding cont .
qed

lemma drop_last:
  assumes ok: "cio_ok ls out s" and p: "p < length (clists s)" and b: "ls (PQ p) = bs @ [b]"
    and rest: "s' = s\<lparr>cblocks := cblocks s', clists := clists s'\<rparr>"
    and len: "length (cblocks s') = length (cblocks s)" "length (clists s') = length (clists s)"
    and cb: "\<And>i. cb s' i = (if i = b then r else if bs \<noteq> [] \<and> i = last bs then (cb s i)\<lparr>c_next := None\<rparr> else cb s i)"
    and r: "c_flags r = c_flags (cb s b)" "length (c_data r) = length (c_data (cb s b))" "c_next r = c_next (cb s b)"
    and cl: "\<And>i. cl s' i = (if i = p then \<lparr>c_cc = int (length (content s bs)),
        c_cf = (if bs = [] then None else c_cf (cl s p)), c_cl = last_opt bs\<rparr> else cl s i)"
  shows "effect ls out s p (content s bs) (ls(PQ p := bs)) (insert b out) s'"
proof -
  note d = cio_okD [OF ok]
  let ?nx = "\<lambda>i. c_next (cb s i)"
  have nb: "b \<notin> set bs" "b \<notin> out" using linkedD(1) [OF d(1), of "PQ p"] linkedD(3) [OF d(1), of b "PQ p"] b by auto
  have cont: "content s' bs = content s bs" by (rule content_cong) (use nb in \<open>auto simp: cb bytes_def\<close>)
  have nb': "bs \<noteq> [] \<Longrightarrow> last bs \<noteq> b" using nb last_in_set [of bs] by auto
  have lo: "last bs \<notin> out" if "bs \<noteq> []" using linkedD(3) [OF d(1), of "last bs" "PQ p"] b last_in_set [OF that] by simp
  have nxb: "?nx b = None" using path_last [OF linkedD(2) [OF d(1), of "PQ p"]] b by simp
  have "effect ls out s p (content s' bs) (ls(PQ p := bs)) (insert b out) s'"
  proof (rule clist_change [OF ok p rest len])
    show "linked (\<lambda>i. c_next (cb s' i)) ((head s)(PQ p := c_cf (cl s' p))) (ls(PQ p := bs)) (insert b out)"
    proof (cases bs rule: rev_cases)
      case Nil
      have "linked ?nx ((head s)(PQ p := ?nx b)) (ls(PQ p := [])) (insert b out)" by (rule linked_pop [OF d(1)]) (simp add: b Nil)
      moreover have "(\<lambda>i. c_next (cb s' i)) = ?nx" using r by (simp add: cb Nil fun_eq_iff)
      ultimately show ?thesis using nxb by (simp add: cl Nil)
    next
      case (snoc as l)
      have "linked (?nx(l := ?nx b)) (head s) (ls(PQ p := as @ [l])) (insert b out)" by (rule linked_skip [OF d(1)]) (simp add: b snoc)
      moreover have "(\<lambda>i. c_next (cb s' i)) = ?nx(l := ?nx b)" using r nxb nb' by (simp add: cb snoc fun_eq_iff)
      moreover have "c_cf (cl s' p) = head s (PQ p)" using p by (simp add: cl snoc)
      then have "(head s)(PQ p := c_cf (cl s' p)) = head s" by (simp only: fun_upd_triv)
      ultimately show ?thesis by (simp add: snoc)
    qed
    show "list_ok s' bs (cl s' p)" using d(5) [OF p] nb cont by (auto simp: list_ok_def cl cb b room_ok_def)
  qed (use b r nb lo in \<open>auto simp: cb cl bytes_def room_ok_def\<close>)
  then show ?thesis unfolding cont .
qed

lemma add_back:
  assumes ok: "cio_ok ls out s" and p: "p < length (clists s)" and b: "b \<in> out"
    and rest: "s' = s\<lparr>cblocks := cblocks s', clists := clists s'\<rparr>"
    and len: "length (cblocks s') = length (cblocks s)" "length (clists s') = length (clists s)"
    and cb: "\<And>i. cb s' i = (if i = b then r
        else if ls (PQ p) \<noteq> [] \<and> i = last (ls (PQ p)) then (cb s i)\<lparr>c_next := Some b\<rparr> else cb s i)"
    and r: "c_flags r = c_flags (cb s b)" "length (c_data r) = length (c_data (cb s b))" "c_next r = None" "room_ok r"
    and cl: "\<And>i. cl s' i = (if i = p then \<lparr>c_cc = int (length (content s (ls (PQ p)) @ bytes r)),
        c_cf = (if ls (PQ p) = [] then Some b else c_cf (cl s p)), c_cl = Some b\<rparr> else cl s i)"
  shows "effect ls out s p (content s (ls (PQ p)) @ bytes r) (ls(PQ p := ls (PQ p) @ [b])) (out - {b}) s'"
proof -
  note d = cio_okD [OF ok]
  let ?nx = "\<lambda>i. c_next (cb s i)" and ?bs = "ls (PQ p)"
  have nb: "b \<notin> set ?bs" using linkedD(3) [OF d(1), of b "PQ p"] b by auto
  have lo: "last ?bs \<in> set ?bs" "last ?bs \<notin> out" if "?bs \<noteq> []"
    using linkedD(3) [OF d(1), of "last ?bs" "PQ p"] last_in_set [OF that] by auto
  have "content s' ?bs = content s ?bs" by (rule content_cong) (use nb in \<open>auto simp: cb bytes_def\<close>)
  then have cont: "content s' (?bs @ [b]) = content s ?bs @ bytes r" by (simp add: cb)
  have "effect ls out s p (content s' (?bs @ [b])) (ls(PQ p := ?bs @ [b])) (out - {b}) s'"
  proof (rule clist_change [OF ok p rest len])
    show "linked (\<lambda>i. c_next (cb s' i)) ((head s)(PQ p := c_cf (cl s' p))) (ls(PQ p := ?bs @ [b])) (out - {b})"
    proof (cases "?bs = []")
      case True
      have "(\<lambda>i. c_next (cb s' i)) = ?nx(b := None)" using r True by (simp add: cb fun_eq_iff)
      with linked_first [OF d(1) b True] True show ?thesis by (simp add: cl)
    next
      case False
      have "(\<lambda>i. c_next (cb s' i)) = ?nx(last ?bs := Some b, b := None)" using r False by (simp add: cb fun_eq_iff)
      moreover have "c_cf (cl s' p) = head s (PQ p)" using p False by (simp add: cl)
      then have "(head s)(PQ p := c_cf (cl s' p)) = head s" by (simp only: fun_upd_triv)
      ultimately show ?thesis using linked_append [OF d(1) b False] by simp
    qed
    show "list_ok s' (?bs @ [b]) (cl s' p)" using d(5) [OF p] r cont by (auto simp: list_ok_def cl cb last_opt_def room_ok_def)
    show "cb s' i = cb s i" if "i \<in> out \<inter> (out - {b})" for i using that lo by (auto simp: cb)
  qed (use b r lo in \<open>auto simp: cb cl bytes_def room_ok_def\<close>)
  then show ?thesis unfolding cont .
qed

lemma add_front:
  assumes ok: "cio_ok ls out s" and p: "p < length (clists s)" and b: "b \<in> out"
    and rest: "s' = s\<lparr>cblocks := cblocks s', clists := clists s'\<rparr>"
    and len: "length (cblocks s') = length (cblocks s)" "length (clists s') = length (clists s)"
    and cb: "\<And>i. cb s' i = (if i = b then r else cb s i)"
    and r: "c_flags r = c_flags (cb s b)" "length (c_data r) = length (c_data (cb s b))" "c_next r = c_cf (cl s p)" "room_ok r"
    and cl: "\<And>i. cl s' i = (if i = p then \<lparr>c_cc = int (length (bytes r @ content s (ls (PQ p)))),
        c_cf = Some b, c_cl = (if ls (PQ p) = [] then Some b else c_cl (cl s p))\<rparr> else cl s i)"
  shows "effect ls out s p (bytes r @ content s (ls (PQ p))) (ls(PQ p := b # ls (PQ p))) (out - {b}) s'"
proof -
  note d = cio_okD [OF ok]
  let ?bs = "ls (PQ p)"
  have nb: "b \<notin> set ?bs" using linkedD(3) [OF d(1), of b "PQ p"] b by auto
  have "content s' ?bs = content s ?bs" by (rule content_cong) (use nb in \<open>auto simp: cb\<close>)
  then have cont: "content s' (b # ?bs) = bytes r @ content s ?bs" by (simp add: cb)
  have "effect ls out s p (content s' (b # ?bs)) (ls(PQ p := b # ?bs)) (out - {b}) s'"
  proof (rule clist_change [OF ok p rest len])
    have "(\<lambda>i. c_next (cb s' i)) = (\<lambda>i. c_next (cb s i))(b := head s (PQ p))" using r p by (simp add: cb fun_eq_iff)
    with linked_push [OF d(1) b, of "PQ p"]
    show "linked (\<lambda>i. c_next (cb s' i)) ((head s)(PQ p := c_cf (cl s' p))) (ls(PQ p := b # ?bs)) (out - {b})" by (simp add: cl)
    show "list_ok s' (b # ?bs) (cl s' p)" using d(5) [OF p] r cont nb by (auto simp: list_ok_def cl cb last_opt_def)
  qed (use b r in \<open>auto simp: cb cl\<close>)
  then show ?thesis unfolding cont .
qed

section \<open>Free lists and character lists together\<close>

lemma effect_put:
  assumes e: "effect ls out s p q ls1 (insert b out1) s1" and b: "b \<notin> out1"
  shows "\<exists>ls2 s2. putcf b s1 = Some s2 \<and> effect ls out s p q ls2 out1 s2 \<and> (\<forall>i \<in> out1. cb s2 i = cb s1 i)
    \<and> (\<forall>p. ls2 (PQ p) = ls1 (PQ p))"
proof -
  have ok: "cio_ok ls1 (insert b out1) s1" using e by (simp add: effect_def)
  from putcf_ok [OF ok, of b] obtain ls2 s2 where st: "putcf b s1 = Some s2" and put: "put_to ls1 (insert b out1) b s1 ls2 s2"
    and w: "waiters s2 = []" by auto
  have eq: "insert b out1 - {b} = out1" using b by simp
  have p2: "cio_ok ls2 out1 s2" "\<And>p. ls2 (PQ p) = ls1 (PQ p)" "frame s1 s2" "\<And>i. i \<in> out1 \<Longrightarrow> c_next (cb s2 i) = c_next (cb s1 i)" "grows ls1 ls2"
    using put unfolding put_to_def eq by blast+
  note ar = in_array [OF cio_okD(2) [OF ok]]
  have cont: "content s2 (ls2 (PQ p')) = content s1 (ls1 (PQ p'))" for p'
    unfolding p2(2) by (rule frame_content [OF p2(3)]) (use ar(3) [of _ "PQ p'"] in blast)
  have same: "cb s2 i = cb s1 i" if "i \<in> out1" for i
  proof (rule cblock.equality)
    show "c_flags (cb s2 i) = c_flags (cb s1 i)" using out_busy [OF p2(1) that] out_busy [OF ok, of i] that by simp
  qed (use frameD [OF p2(3)] ar(4) [of i] p2(4) that in simp_all)
  have "effect ls out s p q ls2 out1 s2"
    using e p2(1) cont same w frameD [OF p2(3)] grows_trans [OF _ p2(5)] unfolding effect_def by auto
  with st same p2(2) show ?thesis by blast
qed

lemma got_effect:
  assumes g: "got ls out b s ls1 s1" and gr: "grows ls ls1"
    and e: "effect ls1 (insert b out) s1 p (f (content s1 (ls1 (PQ p)))) ls2 out s2" and ok: "cio_ok ls out s"
  shows "effect ls out s p (f (content s (ls (PQ p)))) ls2 out s2"
proof -
  have g: "b \<notin> out" "\<And>p. ls1 (PQ p) = ls (PQ p)" "frame s s1" "\<And>i. i \<in> out \<Longrightarrow> c_next (cb s1 i) = c_next (cb s i)"
    "waiters s1 = waiters s" "cio_ok ls1 (insert b out) s1"
    using g unfolding got_def by blast+
  note ar = in_array [OF cio_okD(2) [OF ok]]
  have cont: "content s1 (ls1 (PQ p')) = content s (ls (PQ p'))" for p'
    unfolding g(2) by (rule frame_content [OF g(3)]) (use ar(3) [of _ "PQ p'"] in blast)
  have same: "cb s1 i = cb s i" if "i \<in> out" for i
  proof (rule cblock.equality)
    show "c_flags (cb s1 i) = c_flags (cb s i)" using out_busy [OF ok that] out_busy [OF g(6), of i] that by simp
  qed (use frameD [OF g(3)] ar(4) [of i] g(4) that in simp_all)
  show ?thesis using e cont same g(5) frameD [OF g(3)] grows_trans [OF gr] unfolding effect_def by auto
qed

lemma effect_refl: "cio_ok ls out s \<Longrightarrow> effect ls out s p (content s (ls (PQ p))) ls out s"
  by (simp add: effect_def)

lemma effect_trans: "effect ls out s p q ls1 out s1 \<Longrightarrow> effect ls1 out s1 p q' ls2 out s2 \<Longrightarrow> effect ls out s p q' ls2 out s2"
  unfolding effect_def using grows_trans by auto

end
