(* ===== verification/ClistOps.thy ===== *)
theory ClistOps
  imports ClistEffect
begin

text \<open>
  Each operation of \<open>clist.c\<close> on a list, as an operation on the bytes the list holds. They are
  the calls of an interrupt handler; the calls of a process are made of the same pieces.
\<close>

section \<open>What a list head says\<close>

lemma list_head:
  assumes ok: "cio_ok ls out s" and p: "p < length (clists s)"
  shows "c_cf (cl s p) = (case ls (PQ p) of [] \<Rightarrow> None | b # _ \<Rightarrow> Some b)" and "c_cl (cl s p) = last_opt (ls (PQ p))"
    and "c_cc (cl s p) = int (length (content s (ls (PQ p))))"
proof -
  have "path (\<lambda>i. c_next (cb s i)) (c_cf (cl s p)) (ls (PQ p))" using linkedD(2) [OF cio_okD(1) [OF ok], of "PQ p"] p by simp
  then show "c_cf (cl s p) = (case ls (PQ p) of [] \<Rightarrow> None | b # _ \<Rightarrow> Some b)" by (cases "ls (PQ p)") auto
  show "c_cl (cl s p) = last_opt (ls (PQ p))" "c_cc (cl s p) = int (length (content s (ls (PQ p))))"
    using cio_okD(5) [OF ok p] by (simp_all add: list_ok_def)
qed

lemma on_list:
  assumes ok: "cio_ok ls out s" and b: "b \<in> set (ls (PQ p))" and p: "p < length (clists s)"
  shows "sane (cb s b)" "c_first (cb s b) < c_last (cb s b)" "room_ok (cb s b)" "bytes (cb s b) \<noteq> []" "b < length (cblocks s)" "b \<notin> out"
proof -
  show r: "room_ok (cb s b)" using cio_okD(5) [OF ok p] b by (simp add: list_ok_def)
  show len: "b < length (cblocks s)" using in_array(3) [OF cio_okD(2) [OF ok] b] .
  then have "length (c_data (cb s b)) = CLSIZE" using cio_okD(3) [OF ok] by (simp add: blocks_ok_def)
  with r show sn: "sane (cb s b)" and "c_first (cb s b) < c_last (cb s b)" by (auto simp: sane_def room_ok_def)
  then show "bytes (cb s b) \<noteq> []" using length_bytes [OF sn] by auto
  show "b \<notin> out" using linkedD(3) [OF cio_okD(1) [OF ok] b] .
qed

lemma content_empty:
  assumes ok: "cio_ok ls out s" and p: "p < length (clists s)"
  shows "content s (ls (PQ p)) = [] \<longleftrightarrow> ls (PQ p) = []"
  using on_list(4) [OF ok _ p] by (cases "ls (PQ p)") auto

lemma next_on_list:
  assumes ok: "cio_ok ls out s" and p: "p < length (clists s)" and b: "ls (PQ p) = b # bs"
  shows "c_next (cb s b) = (case bs of [] \<Rightarrow> None | x # _ \<Rightarrow> Some x)"
  using linkedD(2) [OF cio_okD(1) [OF ok], of "PQ p"] b by (cases bs) auto

text \<open>Taking bytes from the first cblock, which stays.\<close>

lemma keep_front:
  assumes ok: "cio_ok ls out s" and p: "p < length (clists s)" and b: "ls (PQ p) = b # bs" and k: "c_first (cb s b) + k < c_last (cb s b)"
    and t: "t = set_cb b (\<lambda>r. r\<lparr>c_first := c_first r + k\<rparr>) (set_cl p (\<lambda>q. q\<lparr>c_cc := c_cc q - int k\<rparr>) s)"
  shows "effect ls out s p (drop k (content s (ls (PQ p)))) ls out t"
proof -
  note o = on_list [OF ok _ p, of b, unfolded b, simplified]
  let ?r = "(cb s b)\<lparr>c_first := c_first (cb s b) + k\<rparr>"
  have cbt: "cb t i = (if i = b then ?r else cb s i)" for i using o(5) by (simp add: t cb_set_cb)
  have clt: "cl t i = (if i = p then (cl s p)\<lparr>c_cc := c_cc (cl s p) - int k\<rparr> else cl s i)" for i
    using p by (simp add: t cl_set_cl)
  have "length (take k (bytes (cb s b))) = k" using k length_bytes [OF o(1)] by simp
  moreover have "bytes (cb s b) = take k (bytes (cb s b)) @ bytes ?r" by (rule bytes_take [OF o(1)]) (use k in simp)
  ultimately obtain ys where ys: "bytes (cb s b) = ys @ bytes ?r" "length ys = k" by blast
  have "content t bs = content s bs"
    by (rule content_cong) (use linkedD(1) [OF cio_okD(1) [OF ok], of "PQ p"] b in \<open>auto simp: cbt\<close>)
  then have cont: "content t (ls (PQ p)) = drop k (content s (ls (PQ p)))" using ys by (simp add: b cbt)
  have "effect ls out s p (content t (ls (PQ p))) ls out t"
  proof (rule edit_block [OF ok p _ _ _ _ cbt])
    show "cl t i = (if i = p then (cl s p)\<lparr>c_cc := int (length (content t (ls (PQ p))))\<rparr> else cl s i)" for i
      unfolding cont clt using list_head(3) [OF ok p] ys by (simp add: b)
  qed (use o k p in \<open>auto simp: b room_ok_def t set_cb_def set_cl_def\<close>)
  then show ?thesis unfolding cont .
qed

text \<open>The first cblock leaves the list and is freed.\<close>

lemma free_front:
  assumes ok: "cio_ok ls out s" and p: "p < length (clists s)" and b: "ls (PQ p) = b # bs"
    and rest: "t = s\<lparr>cblocks := cblocks t, clists := clists t\<rparr>" and len: "length (clists t) = length (clists s)"
    and r: "cblocks t = upd (cblocks s) b f" "\<And>r. c_flags (f r) = c_flags r" "\<And>r. c_data (f r) = c_data r"
    and cl: "\<And>i. cl t i = (if i = p then \<lparr>c_cc = int (length (content s bs)), c_cf = c_next (cb s b), c_cl = last_opt bs\<rparr> else cl s i)"
  shows "\<exists>ls' s'. putcf b t = Some s' \<and> effect ls out s p (content s bs) ls' out s' \<and> ls' (PQ p) = bs"
proof -
  note o = on_list [OF ok _ p, of b, unfolded b, simplified]
  have "effect ls out s p (content s bs) (ls(PQ p := bs)) (insert b out) t"
  proof (rule drop_front [OF ok p b rest _ len _ _ _ cl, where r = "f (cb s b)"])
    show "cb t i = (if i = b then f (cb s b) else cb s i)" for i using o(5) by (simp add: r(1))
  qed (simp_all add: r)
  from effect_put [OF this o(6)] obtain ls2 s2 where "putcf b t = Some s2" "effect ls out s p (content s bs) ls2 out s2"
    "ls2 (PQ p) = bs" by auto
  then show ?thesis by blast
qed

section \<open>Single characters\<close>

lemma getc_ok:
  assumes ok: "cio_ok ls out s" and p: "p < length (clists s)"
  defines "q \<equiv> content s (ls (PQ p))"
  shows "\<exists>ls' s'. getc p s = Some (s', if q = [] then -1 else uint (hd q)) \<and> effect ls out s p (tl q) ls' out s'"
proof (cases "ls (PQ p)")
  case Nil
  then have "q = []" "getc p s = Some (s, -1)" using list_head(3) [OF ok p] by (simp_all add: q_def getc_def)
  with effect_refl [OF ok, of p] show ?thesis by (auto simp: q_def)
next
  case (Cons b bs)
  note h = list_head [OF ok p] and o = on_list [OF ok _ p, of b, unfolded Cons, simplified]
  let ?c = "c_data (cb s b) ! c_first (cb s b)" and ?r = "(cb s b)\<lparr>c_first := Suc (c_first (cb s b))\<rparr>"
  have fst: "bytes (cb s b) = ?c # bytes ?r" by (rule bytes_first [OF o(1,2)])
  have q: "q = ?c # bytes ?r @ content s bs" by (simp add: q_def Cons fst)
  have cc: "c_cc (cl s p) > 0" using h(3) fst by (simp add: Cons)
  define t where "t = set_cb b (\<lambda>r. r\<lparr>c_first := c_first r + 1\<rparr>) (set_cl p (\<lambda>q. q\<lparr>c_cc := c_cc q - int 1\<rparr>) s)"
  show ?thesis
  proof (cases "Suc (c_first (cb s b)) = c_last (cb s b)")
    case False
    then have "getc p s = Some (t, uint ?c)"
      using cc h(1) o(5) p by (simp add: getc_def Let_def Cons cl_set_cl t_def cb_set_cb)
    moreover have "effect ls out s p (drop 1 q) ls out t"
      unfolding q_def by (rule keep_front [OF ok p Cons _ t_def]) (use o(2) False in simp)
    ultimately show ?thesis using q by auto
  next
    case True
    define t' where "t' = (if c_next (cb s b) = None then set_cl p (\<lambda>q. q\<lparr>c_cl := None, c_cc := 0\<rparr>) (set_cl p (\<lambda>q. q\<lparr>c_cf := None\<rparr>) t)
      else set_cl p (\<lambda>q. q\<lparr>c_cf := c_next (cb s b)\<rparr>) t)"
    have st: "getc p s = map_option (\<lambda>s. (s, uint ?c)) (putcf b t')"
      using cc h(1) o(5) p True by (auto simp: getc_def Let_def Cons cl_set_cl t_def t'_def cb_set_cb)
    have "bytes ?r = []" using True by simp
    then have tl: "tl q = content s bs" "q \<noteq> []" "hd q = ?c" using q by simp_all
    have "\<exists>ls' s'. putcf b t' = Some s' \<and> effect ls out s p (content s bs) ls' out s' \<and> ls' (PQ p) = bs"
    proof (rule free_front [OF ok p Cons])
      show "cblocks t' = upd (cblocks s) b (\<lambda>r. r\<lparr>c_first := c_first r + 1\<rparr>)"
        by (simp add: t'_def t_def) (simp add: set_cb_def)
      show "cl t' i = (if i = p then \<lparr>c_cc = int (length (content s bs)), c_cf = c_next (cb s b), c_cl = last_opt bs\<rparr> else cl s i)" for i
        using p h fst \<open>bytes ?r = []\<close> next_on_list [OF ok p Cons]
        by (cases bs) (auto simp: t'_def t_def cl_set_cl Cons last_opt_def)
    qed (auto simp: t'_def t_def set_cl_def set_cb_def)
    with st tl show ?thesis by auto
  qed
qed

lemma cx_walk_path:
  "path (\<lambda>i. c_next (cb s i)) h (bs @ [b]) \<Longrightarrow> distinct (bs @ [b]) \<Longrightarrow> length bs < n
    \<Longrightarrow> cx_walk n s (Some b) h obp = Some (Some b, if bs = [] then obp else Some (last bs))"
proof (induction bs arbitrary: n h obp)
  case Nil
  then show ?case by (cases n) auto
next
  case (Cons x bs)
  then obtain m where n: "n = Suc m" "length bs < m" by (cases n) auto
  with Cons show ?case by auto
qed

text \<open>The last cblock leaves the list and is freed.\<close>

definition cut_last :: "nat \<Rightarrow> nat list \<Rightarrow> cio \<Rightarrow> cio" where
  "cut_last p bs s =
     (let s = (case last_opt bs of Some l \<Rightarrow> set_cb l (\<lambda>r. r\<lparr>c_next := None\<rparr>) s | None \<Rightarrow> s);
          s = set_cl p (\<lambda>q. q\<lparr>c_cl := last_opt bs\<rparr>) s
      in if bs = [] then set_cl p (\<lambda>q. q\<lparr>c_cf := None, c_cc := 0\<rparr>) s else s)"

lemma free_last:
  assumes ok: "cio_ok ls out s" and p: "p < length (clists s)" and b: "ls (PQ p) = bs @ [b]"
    and t: "t = set_cb b (\<lambda>r. r\<lparr>c_last := c_last r - 1\<rparr>) (set_cl p (\<lambda>q. q\<lparr>c_cc := c_cc q - 1\<rparr>) s)"
    and one: "length (bytes (cb s b)) = 1"
  shows "\<exists>ls' s'. putcf b (cut_last p bs t) = Some s' \<and> effect ls out s p (content s bs) ls' out s'"
proof -
  note o = on_list [OF ok _ p, of b, unfolded b, simplified]
  let ?t = "cut_last p bs t" and ?r = "(cb s b)\<lparr>c_last := c_last (cb s b) - 1\<rparr>"
  have dist: "bs \<noteq> [] \<Longrightarrow> last bs \<noteq> b" using linkedD(1) [OF cio_okD(1) [OF ok], of "PQ p"] b last_in_set [of bs] by auto
  have lb: "bs \<noteq> [] \<Longrightarrow> last bs < length (cblocks s)"
    using on_list(5) [OF ok _ p, of "last bs"] b by simp
  have "effect ls out s p (content s bs) (ls(PQ p := bs)) (insert b out) ?t"
  proof (rule drop_last [OF ok p b])
    show "cb ?t i = (if i = b then ?r else if bs \<noteq> [] \<and> i = last bs then (cb s i)\<lparr>c_next := None\<rparr> else cb s i)" for i
      using o(5) lb dist by (simp add: cut_last_def Let_def t last_opt_def cb_set_cb)
    show "cl ?t i = (if i = p then \<lparr>c_cc = int (length (content s bs)),
        c_cf = (if bs = [] then None else c_cf (cl s p)), c_cl = last_opt bs\<rparr> else cl s i)" for i
      using p list_head(3) [OF ok p] one by (simp add: cut_last_def Let_def t last_opt_def cl_set_cl b)
  qed (simp_all add: cut_last_def Let_def t last_opt_def set_cb_def set_cl_def)
  from effect_put [OF this o(6)] show ?thesis by blast
qed

lemma getcx_ok:
  assumes ok: "cio_ok ls out s" and p: "p < length (clists s)"
  defines "q \<equiv> content s (ls (PQ p))"
  shows "\<exists>ls' s'. getcx p s = Some (s', if q = [] then -1 else uint (last q)) \<and> effect ls out s p (butlast q) ls' out s'"
proof (cases "ls (PQ p)" rule: rev_cases)
  case Nil
  then have "q = []" "getcx p s = Some (s, -1)" using list_head(3) [OF ok p] by (simp_all add: q_def getcx_def)
  with effect_refl [OF ok, of p] show ?thesis by (auto simp: q_def)
next
  case (snoc bs b)
  note h = list_head [OF ok p] and o = on_list [OF ok _ p, of b, unfolded snoc, simplified]
  note dist = linkedD(1) [OF cio_okD(1) [OF ok], of "PQ p", unfolded snoc]
  let ?c = "c_data (cb s b) ! (c_last (cb s b) - 1)" and ?r = "(cb s b)\<lparr>c_last := c_last (cb s b) - 1\<rparr>"
  have lst: "bytes (cb s b) = bytes ?r @ [?c]" by (rule bytes_last [OF o(1,2)])
  have q: "q = (content s bs @ bytes ?r) @ [?c]" by (simp add: q_def snoc lst)
  then have q': "q \<noteq> []" "last q = ?c" "butlast q = content s bs @ bytes ?r" by (simp, simp, simp add: butlast_append)
  have cc: "c_cc (cl s p) > 0" "c_cl (cl s p) = Some b" using h lst by (simp_all add: snoc last_opt_def)
  define t where "t = set_cb b (\<lambda>r. r\<lparr>c_last := c_last r - 1\<rparr>) (set_cl p (\<lambda>q. q\<lparr>c_cc := c_cc q - 1\<rparr>) s)"
  have cbt: "cb t i = (if i = b then ?r else cb s i)" for i using o(5) by (simp add: t_def cb_set_cb)
  have clt: "cl t i = (if i = p then (cl s p)\<lparr>c_cc := c_cc (cl s p) - 1\<rparr> else cl s i)" for i
    using p by (simp add: t_def cl_set_cl)
  have cont: "content t bs = content s bs" by (rule content_cong) (use dist in \<open>auto simp: cbt\<close>)
  show ?thesis
  proof (cases "c_last (cb s b) - 1 = c_first (cb s b)")
    case False
    then have st: "getcx p s = Some (t, uint ?c)" using cc o(5) p by (simp add: getcx_def Let_def cl_set_cl t_def cb_set_cb)
    have ct: "content t (ls (PQ p)) = butlast q" unfolding q' by (simp add: snoc cont cbt)
    have "effect ls out s p (content t (ls (PQ p))) ls out t"
    proof (rule edit_block [OF ok p _ _ _ _ cbt])
      show "cl t i = (if i = p then (cl s p)\<lparr>c_cc := int (length (content t (ls (PQ p))))\<rparr> else cl s i)" for i
        unfolding ct clt using h(3) q by (simp add: q_def)
    qed (use o(2,3) False in \<open>auto simp: snoc room_ok_def t_def set_cb_def set_cl_def\<close>)
    with st q' show ?thesis unfolding ct by auto
  next
    case True
    then have one: "bytes ?r = []" by simp
    have cf: "Some b = c_cf (cl s p) \<longleftrightarrow> bs = []" using h(1) dist by (cases bs) (auto simp: snoc)
    have "path (\<lambda>i. c_next (cb t i)) (c_cf (cl s p)) (bs @ [b])"
      using linkedD(2) [OF cio_okD(1) [OF ok], of "PQ p"] p by (subst path_cong) (auto simp: cbt snoc)
    from cx_walk_path [OF this dist, of "Suc (length (cblocks s))" None] place_length [OF ok, of "PQ p"]
    have walk: "cx_walk (Suc (length (cblocks s))) t (Some b) (c_cf (cl s p)) None = Some (Some b, last_opt bs)"
      by (simp add: snoc last_opt_def)
    have "getcx p s = map_option (\<lambda>s. (s, uint ?c)) (putcf b (cut_last p bs t))"
      using cc True walk cf p unfolding getcx_def
      by (auto simp: Let_def cl_set_cl t_def cb_set_cb cut_last_def o(5) last_opt_def)
    with free_last [OF ok p snoc t_def] lst one q' show ?thesis by auto
  qed
qed

section \<open>Adding bytes\<close>

definition append_to :: "8 word list \<Rightarrow> nat \<Rightarrow> nat \<Rightarrow> cio \<Rightarrow> cio" where
  "append_to xs p b s = set_cl p (\<lambda>q. q\<lparr>c_cc := c_cc q + int (length xs)\<rparr>) (set_cb b (put_bytes xs) s)"

lemma put_bytes_simps [simp]:
  "c_next (put_bytes xs r) = c_next r" "c_flags (put_bytes xs r) = c_flags r" "c_first (put_bytes xs r) = c_first r"
  "c_last (put_bytes xs r) = c_last r + length xs"
  by (simp_all add: put_bytes_def)

lemma length_put_bytes: "sane r \<Longrightarrow> c_last r + length xs \<le> CLSIZE \<Longrightarrow> length (c_data (put_bytes xs r)) = length (c_data r)"
  by (simp add: sane_def put_bytes_def)

lemma out_data: "cio_ok ls out s \<Longrightarrow> b \<in> out \<Longrightarrow> length (c_data (cb s b)) = CLSIZE"
  using out_length [of ls out s b] cio_okD(3) [of ls out s] by (simp add: blocks_ok_def)

lemma append_old:
  assumes ok: "cio_ok ls out s" and p: "p < length (clists s)" and b: "ls (PQ p) = bs @ [b]"
    and xs: "c_last (cb s b) + length xs \<le> CLSIZE"
  shows "effect ls out s p (content s (ls (PQ p)) @ xs) ls out (append_to xs p b s)"
proof -
  note o = on_list [OF ok _ p, of b, unfolded b, simplified]
  let ?t = "append_to xs p b s"
  have cbt: "cb ?t i = (if i = b then put_bytes xs (cb s b) else cb s i)" for i using o(5) by (simp add: append_to_def cb_set_cb)
  have "content ?t bs = content s bs"
    by (rule content_cong) (use linkedD(1) [OF cio_okD(1) [OF ok], of "PQ p"] b in \<open>auto simp: cbt\<close>)
  then have cont: "content ?t (ls (PQ p)) = content s (ls (PQ p)) @ xs" using bytes_put_bytes [OF o(1) xs] by (simp add: b cbt)
  have "effect ls out s p (content ?t (ls (PQ p))) ls out ?t"
  proof (rule edit_block [OF ok p _ _ _ _ cbt])
    show "cl ?t i = (if i = p then (cl s p)\<lparr>c_cc := int (length (content ?t (ls (PQ p))))\<rparr> else cl s i)" for i
      unfolding cont using list_head(3) [OF ok p] p by (simp add: append_to_def cl_set_cl)
    show "length (c_data (put_bytes xs (cb s b))) = length (c_data (cb s b))" by (rule length_put_bytes [OF o(1) xs])
  qed (use o(3) xs in \<open>auto simp: b room_ok_def append_to_def set_cb_def set_cl_def\<close>)
  then show ?thesis unfolding cont .
qed

lemma append_new:
  assumes ok: "cio_ok ls out s" and p: "p < length (clists s)" and b: "b \<in> out" and xs: "xs \<noteq> []" "length xs \<le> CLSIZE"
  shows "effect ls out s p (content s (ls (PQ p)) @ xs) (ls(PQ p := ls (PQ p) @ [b])) (out - {b}) (append_to xs p b (link_back p b s))"
proof -
  let ?r = "(cb s b)\<lparr>c_next := None, c_first := 0, c_last := 0\<rparr>" and ?t = "append_to xs p b (link_back p b s)"
  note h = list_head [OF ok p] and len = out_length [OF ok b]
  have sn: "sane ?r" using out_data [OF ok b] by (simp add: sane_def)
  have lst: "last (ls (PQ p)) < length (cblocks s)" "last (ls (PQ p)) \<noteq> b" if "ls (PQ p) \<noteq> []"
    using on_list(5,6) [OF ok last_in_set [OF that] p] b by auto
  have byt: "bytes (put_bytes xs ?r) = xs" using bytes_put_bytes [OF sn, of xs] xs by simp
  have "effect ls out s p (content s (ls (PQ p)) @ bytes (put_bytes xs ?r)) (ls(PQ p := ls (PQ p) @ [b])) (out - {b}) ?t"
  proof (rule add_back [OF ok p b])
    show "cb ?t i = (if i = b then put_bytes xs ?r
        else if ls (PQ p) \<noteq> [] \<and> i = last (ls (PQ p)) then (cb s i)\<lparr>c_next := Some b\<rparr> else cb s i)" for i
      using len lst h(2) by (auto simp: append_to_def link_back_def Let_def cb_set_cb last_opt_def split: option.splits if_splits)
    show "cl ?t i = (if i = p then \<lparr>c_cc = int (length (content s (ls (PQ p)) @ bytes (put_bytes xs ?r))),
        c_cf = (if ls (PQ p) = [] then Some b else c_cf (cl s p)), c_cl = Some b\<rparr> else cl s i)" for i
      unfolding byt using h p by (auto simp: append_to_def link_back_def Let_def cl_set_cl last_opt_def split: option.splits if_splits)
    show "length (c_data (put_bytes xs ?r)) = length (c_data (cb s b))" using length_put_bytes [OF sn, of xs] xs by simp
  qed (use xs h(2) in \<open>auto simp: room_ok_def append_to_def link_back_def Let_def set_cb_def set_cl_def split: option.splits\<close>)
  then show ?thesis unfolding byt .
qed

lemma need_back_list:
  assumes ok: "cio_ok ls out s" and p: "p < length (clists s)" and need: "\<not> need_back p s"
  shows "\<exists>bs b. ls (PQ p) = bs @ [b] \<and> c_cl (cl s p) = Some b \<and> c_last (cb s b) < CLSIZE"
proof -
  note h = list_head [OF ok p]
  obtain bs b where b: "ls (PQ p) = bs @ [b]" "c_cl (cl s p) = Some b"
    using need h(2) by (cases "ls (PQ p)" rule: rev_cases) (auto simp: need_back_def last_opt_def)
  moreover have "c_last (cb s b) < CLSIZE"
    using need b(2) on_list(3) [OF ok _ p, of b] b(1) by (simp add: need_back_def room_ok_def)
  ultimately show ?thesis by blast
qed

lemma set_cb_same: "f (cb s b) = g (cb s b) \<Longrightarrow> set_cb b f s = set_cb b g s"
  by (simp add: set_cb_def upd_def)

lemma store_back_append: "sane (cb s b) \<Longrightarrow> c_last (cb s b) < CLSIZE \<Longrightarrow> store_back c p b s = append_to [c] p b s"
  using store_back_put_bytes [of "cb s b" c]
  by (simp add: store_back_def append_to_def Let_def cong: set_cb_same)

lemma link_back_block:
  assumes ok: "cio_ok ls out s" and p: "p < length (clists s)" and b: "b \<in> out"
  shows "sane (cb (link_back p b s) b)" and "c_last (cb (link_back p b s) b) = 0"
proof -
  have "last (ls (PQ p)) \<noteq> b" if "ls (PQ p) \<noteq> []" using on_list(6) [OF ok last_in_set [OF that] p] b by auto
  then have "cb (link_back p b s) b = (cb s b)\<lparr>c_next := None, c_first := 0, c_last := 0\<rparr>"
    using out_length [OF ok b] list_head(2) [OF ok p] on_list(5) [OF ok _ p, of "last (ls (PQ p))"]
    by (auto simp: link_back_def Let_def cb_set_cb last_opt_def split: option.splits if_splits)
  then show "sane (cb (link_back p b s) b)" "c_last (cb (link_back p b s) b) = 0"
    using out_data [OF ok b] by (simp_all add: sane_def)
qed

lemma gotD:
  assumes "got ls out b s ls1 s1"
  shows "cio_ok ls1 (insert b out) s1" and "b \<notin> out" and "length (clists s1) = length (clists s)" and "insert b out - {b} = out"
  using assms frameD(2) [of s s1] unfolding got_def by auto

lemma new_back:
  assumes g: "got ls out b s ls1 s1" "grows ls ls1" and ok: "cio_ok ls out s" and p: "p < length (clists s)"
    and xs: "xs \<noteq> []" "length xs \<le> CLSIZE"
  shows "\<exists>ls'. effect ls out s p (content s (ls (PQ p)) @ xs) ls' out (append_to xs p b (link_back p b s1))"
proof -
  note d = gotD [OF g(1)]
  have "effect ls1 (insert b out) s1 p (content s1 (ls1 (PQ p)) @ xs) (ls1(PQ p := ls1 (PQ p) @ [b])) (insert b out - {b})
      (append_to xs p b (link_back p b s1))"
    by (rule append_new [OF d(1) _ _ xs]) (use p d(3) in simp_all)
  from got_effect [where f = "\<lambda>q. q @ xs", OF g this [unfolded d(4)] ok] show ?thesis by blast
qed

lemma putc_ok:
  assumes ok: "cio_ok ls out s" and p: "p < length (clists s)"
  shows "(need_back p s \<and> ls PPin = [] \<and> putc c p s = Some (s, -1))
    \<or> (\<exists>ls' s'. putc c p s = Some (s', 0) \<and> effect ls out s p (content s (ls (PQ p)) @ [c]) ls' out s')"
proof (cases "need_back p s")
  case True
  show ?thesis
  proof (cases "ls PPin = []")
    case False
    with get_pinned_ok [OF ok] obtain b ls1 s1 where st: "get_pinned s = Some (s1, Some b)"
      and g: "got ls out b s ls1 s1" "grows ls ls1" by auto
    note d = gotD [OF g(1)]
    have "p < length (clists s1)" "b \<in> insert b out" using p d(3) by simp_all
    note l = link_back_block [OF d(1) this]
    have "store_back c p b (link_back p b s1) = append_to [c] p b (link_back p b s1)"
      by (rule store_back_append [OF l(1)]) (simp add: l(2) CLSIZE_def)
    with new_back [OF g ok p, of "[c]"] st True show ?thesis by (auto simp: putc_def with_pinned_def CLSIZE_def)
  qed (use True get_pinned_ok [OF ok] in \<open>simp add: putc_def with_pinned_def\<close>)
next
  case False
  from need_back_list [OF ok p False] obtain bs b where b: "ls (PQ p) = bs @ [b]" "c_cl (cl s p) = Some b" "c_last (cb s b) < CLSIZE" by blast
  have "store_back c p b s = append_to [c] p b s" by (rule store_back_append) (use on_list(1) [OF ok _ p, of b] b in simp_all)
  then have "putc c p s = Some (append_to [c] p b s, 0)" using False b(2) by (simp add: putc_def put_back_def)
  moreover have "effect ls out s p (content s (ls (PQ p)) @ [c]) ls out (append_to [c] p b s)"
    by (rule append_old [OF ok p b(1)]) (use b(3) in simp)
  ultimately show ?thesis by blast
qed

lemma store_front_old:
  assumes ok: "cio_ok ls out s" and p: "p < length (clists s)" and b: "ls (PQ p) = b # bs" and pos: "0 < c_first (cb s b)"
  shows "effect ls out s p (c # content s (ls (PQ p))) ls out (store_front c p b s)"
proof -
  note o = on_list [OF ok _ p, of b, unfolded b, simplified]
  let ?t = "store_front c p b s"
  let ?r = "(cb s b)\<lparr>c_first := c_first (cb s b) - 1, c_data := (c_data (cb s b))[c_first (cb s b) - 1 := c]\<rparr>"
  have cbt: "cb ?t i = (if i = b then ?r else cb s i)" for i using o(5) by (simp add: store_front_def Let_def cb_set_cb)
  have "content ?t bs = content s bs"
    by (rule content_cong) (use linkedD(1) [OF cio_okD(1) [OF ok], of "PQ p"] b in \<open>auto simp: cbt\<close>)
  then have cont: "content ?t (ls (PQ p)) = c # content s (ls (PQ p))" using bytes_store_front [OF o(1) pos, of c] by (simp add: b cbt)
  have "effect ls out s p (content ?t (ls (PQ p))) ls out ?t"
  proof (rule edit_block [OF ok p _ _ _ _ cbt])
    show "cl ?t i = (if i = p then (cl s p)\<lparr>c_cc := int (length (content ?t (ls (PQ p))))\<rparr> else cl s i)" for i
      unfolding cont using list_head(3) [OF ok p] p by (simp add: store_front_def Let_def cl_set_cl)
  qed (use o(3) in \<open>auto simp: b room_ok_def store_front_def Let_def set_cb_def set_cl_def\<close>)
  then show ?thesis unfolding cont .
qed

lemma store_front_new:
  assumes ok: "cio_ok ls out s" and p: "p < length (clists s)" and b: "b \<in> out"
  shows "effect ls out s p (c # content s (ls (PQ p))) (ls(PQ p := b # ls (PQ p))) (out - {b}) (store_front c p b (link_front p b s))"
proof -
  let ?r = "(cb s b)\<lparr>c_next := c_cf (cl s p), c_first := 0, c_last := 1, c_data := (c_data (cb s b))[0 := c]\<rparr>"
    and ?t = "store_front c p b (link_front p b s)"
  note h = list_head [OF ok p] and len = out_length [OF ok b] and dat = out_data [OF ok b]
  have byt: "bytes ?r = [c]" using dat by (cases "c_data (cb s b)") (auto simp: bytes_def CLSIZE_def)
  have "effect ls out s p (bytes ?r @ content s (ls (PQ p))) (ls(PQ p := b # ls (PQ p))) (out - {b}) ?t"
  proof (rule add_front [OF ok p b])
    show "cb ?t i = (if i = b then ?r else cb s i)" for i
      using len by (auto simp: store_front_def link_front_def Let_def cb_set_cb)
    show "cl ?t i = (if i = p then \<lparr>c_cc = int (length (bytes ?r @ content s (ls (PQ p)))),
        c_cf = Some b, c_cl = (if ls (PQ p) = [] then Some b else c_cl (cl s p))\<rparr> else cl s i)" for i
      unfolding byt using h p by (auto simp: store_front_def link_front_def Let_def cl_set_cl last_opt_def)
  qed (auto simp: room_ok_def CLSIZE_def store_front_def link_front_def Let_def set_cb_def set_cl_def)
  then show ?thesis unfolding byt by simp
qed

lemma new_front:
  assumes g: "got ls out b s ls1 s1" "grows ls ls1" and ok: "cio_ok ls out s" and p: "p < length (clists s)"
  shows "\<exists>ls'. effect ls out s p (c # content s (ls (PQ p))) ls' out (store_front c p b (link_front p b s1))"
proof -
  note d = gotD [OF g(1)]
  have "effect ls1 (insert b out) s1 p (c # content s1 (ls1 (PQ p))) (ls1(PQ p := b # ls1 (PQ p))) (insert b out - {b})
      (store_front c p b (link_front p b s1))"
    by (rule store_front_new [OF d(1)]) (use p d(3) in simp_all)
  from got_effect [where f = "\<lambda>q. c # q", OF g this [unfolded d(4)] ok] show ?thesis by blast
qed

lemma putcx_ok:
  assumes ok: "cio_ok ls out s" and p: "p < length (clists s)"
  shows "(need_front p s \<and> ls PPin = [] \<and> putcx c p s = Some (s, -1))
    \<or> (\<exists>ls' s'. putcx c p s = Some (s', 0) \<and> effect ls out s p (c # content s (ls (PQ p))) ls' out s')"
proof (cases "need_front p s")
  case True
  show ?thesis
  proof (cases "ls PPin = []")
    case False
    with get_pinned_ok [OF ok] obtain b ls1 s1 where "get_pinned s = Some (s1, Some b)"
      and g: "got ls out b s ls1 s1" "grows ls ls1" by auto
    with new_front [OF g ok p, of c] True show ?thesis by (auto simp: putcx_def with_pinned_def)
  qed (use True get_pinned_ok [OF ok] in \<open>simp add: putcx_def with_pinned_def\<close>)
next
  case False
  then obtain b bs where b: "ls (PQ p) = b # bs" "c_cf (cl s p) = Some b" "0 < c_first (cb s b)"
    using list_head(1) [OF ok p] by (cases "ls (PQ p)") (auto simp: need_front_def)
  have "putcx c p s = Some (store_front c p b s, 0)" using False b(2) by (simp add: putcx_def put_front_def)
  with store_front_old [OF ok p b(1,3)] show ?thesis by blast
qed

section \<open>Whole cblocks\<close>

lemma getcb_ok:
  assumes ok: "cio_ok ls out s" and p: "p < length (clists s)"
  defines "q \<equiv> content s (ls (PQ p))"
  shows "(q = [] \<and> getcb p s = (s, None))
    \<or> (\<exists>b ls' s'. getcb p s = (s', Some b) \<and> b \<notin> out \<and> room_ok (cb s' b) \<and> q \<noteq> []
        \<and> q = bytes (cb s' b) @ drop (length (bytes (cb s' b))) q
        \<and> effect ls out s p (drop (length (bytes (cb s' b))) q) ls' (insert b out) s')"
proof (cases "ls (PQ p)")
  case Nil
  then show ?thesis using list_head(1) [OF ok p] by (simp add: q_def getcb_def)
next
  case (Cons b bs)
  note h = list_head [OF ok p] and o = on_list [OF ok _ p, of b, unfolded Cons, simplified]
  let ?on = "int (c_last (cb s b)) - int (c_first (cb s b))"
  define t where "t = set_cb b (\<lambda>r. r\<lparr>c_next := None\<rparr>) (if c_next (cb s b) = None
    then set_cl p (\<lambda>q. q\<lparr>c_cl := None\<rparr>) (set_cl p (\<lambda>q. q\<lparr>c_cf := None\<rparr>) (set_cl p (\<lambda>q. q\<lparr>c_cc := c_cc q - ?on\<rparr>) s))
    else set_cl p (\<lambda>q. q\<lparr>c_cf := c_next (cb s b)\<rparr>) (set_cl p (\<lambda>q. q\<lparr>c_cc := c_cc q - ?on\<rparr>) s))"
  have st: "getcb p s = (t, Some b)" using h(1) p by (auto simp: getcb_def Let_def Cons t_def cl_set_cl)
  have cbt: "cb t i = (if i = b then (cb s b)\<lparr>c_next := None\<rparr> else cb s i)" for i using o(5) by (simp add: t_def cb_set_cb)
  have byt: "bytes (cb t b) = bytes (cb s b)" by (simp add: cbt bytes_def)
  have "effect ls out s p (content s bs) (ls(PQ p := bs)) (insert b out) t"
  proof (rule drop_front [OF ok p Cons _ _ _ cbt])
    show "cl t i = (if i = p then \<lparr>c_cc = int (length (content s bs)), c_cf = c_next (cb s b), c_cl = last_opt bs\<rparr> else cl s i)" for i
      using p h next_on_list [OF ok p Cons] length_bytes [OF o(1)] o(2)
      by (cases bs) (auto simp: t_def cl_set_cl Cons last_opt_def)
  qed (auto simp: t_def set_cl_def set_cb_def)
  with st o(3,4,6) byt show ?thesis by (auto simp: q_def Cons cbt room_ok_def)
qed

lemma putcb_ok:
  assumes ok: "cio_ok ls out s" and p: "p < length (clists s)" and b: "b \<in> out" and r: "room_ok (cb s b)"
  shows "\<exists>ls'. effect ls out s p (content s (ls (PQ p)) @ bytes (cb s b)) ls' (out - {b}) (putcb b p s)"
proof -
  let ?r = "(cb s b)\<lparr>c_next := None\<rparr>" and ?t = "putcb b p s"
  note h = list_head [OF ok p] and len = out_length [OF ok b]
  have sn: "sane (cb s b)" using r out_data [OF ok b] by (simp add: sane_def room_ok_def)
  have byt: "bytes ?r = bytes (cb s b)" by (simp add: bytes_def)
  have lst: "last (ls (PQ p)) < length (cblocks s)" "last (ls (PQ p)) \<noteq> b" if "ls (PQ p) \<noteq> []"
    using on_list(5,6) [OF ok last_in_set [OF that] p] b by auto
  have "effect ls out s p (content s (ls (PQ p)) @ bytes ?r) (ls(PQ p := ls (PQ p) @ [b])) (out - {b}) ?t"
  proof (rule add_back [OF ok p b])
    show "cb ?t i = (if i = b then ?r
        else if ls (PQ p) \<noteq> [] \<and> i = last (ls (PQ p)) then (cb s i)\<lparr>c_next := Some b\<rparr> else cb s i)" for i
      using len lst h(2) by (auto simp: putcb_def Let_def cb_set_cb last_opt_def split: option.splits if_splits)
    show "cl ?t i = (if i = p then \<lparr>c_cc = int (length (content s (ls (PQ p)) @ bytes ?r)),
        c_cf = (if ls (PQ p) = [] then Some b else c_cf (cl s p)), c_cl = Some b\<rparr> else cl s i)" for i
      unfolding byt using h p length_bytes [OF sn] r len lst
      by (auto simp: putcb_def Let_def cl_set_cl cb_set_cb last_opt_def room_ok_def split: option.splits if_splits)
  qed (use r h(2) in \<open>auto simp: room_ok_def putcb_def Let_def set_cb_def set_cl_def split: option.splits\<close>)
  then show ?thesis unfolding byt by blast
qed

end
