(* ===== verification/ClistLoops.thy ===== *)
theory ClistLoops
  imports ClistOps
begin

text \<open>
  The operations that loop: freeing a whole list, and moving strings of any length into and out of a list.
  Each loop ends, within the rounds the model gives it.
\<close>

section \<open>putcfl\<close>

lemma putcf_set_cl: "putcf b (set_cl p g s) = map_option (set_cl p g) (putcf b s)"
proof -
  have put: "put_pinned_front b (set_cl p g s) = map_option (set_cl p g) (put_pinned_front b s)"
    "put_pinned_back b (set_cl p g s) = map_option (set_cl p g) (put_pinned_back b s)"
    "put_unpinned b (set_cl p g s) = map_option (set_cl p g) (put_unpinned b s)"
    by (simp_all add: put_pinned_front_def put_pinned_back_def put_unpinned_def unpin_def Let_def set_cl_def set_cb_def split: option.splits)
  show ?thesis
    by (simp add: putcf_def put)
      (auto simp: set_cl_def split: option.splits bind_splits)
qed

lemma cfl_loop_set_cl: "cfl_loop n b (set_cl p g s) = map_option (set_cl p g) (cfl_loop n b s)"
proof (induction n arbitrary: b s)
  case (Suc n)
  then show ?case by (cases "putcf b s") (auto simp: Let_def putcf_set_cl split: option.splits)
qed simp

lemma linked_pop_all:
  assumes "linked nx hs ls out"
  shows "linked nx (hs(X := None)) (ls(X := [])) (set (ls X) \<union> out)"
proof -
  note l = linkedD [OF assms]
  show ?thesis
  proof (rule linkedI)
    show "distinct ((ls(X := [])) pl)" "path nx ((hs(X := None)) pl) ((ls(X := [])) pl)" for pl using l(1,2) [of pl] by auto
    show "b \<notin> set (ls X) \<union> out" if "b \<in> set ((ls(X := [])) pl)" for pl b using that l(3) [of b pl] l(4) [of b pl X] by (auto split: if_splits)
    show "pl = pl'" if "b \<in> set ((ls(X := [])) pl)" "b \<in> set ((ls(X := [])) pl')" for pl pl' b
      using that l(4) [of b pl pl'] by (auto split: if_splits)
  qed
qed

text \<open>The whole list goes out at once; then its cblocks are freed one by one.\<close>

lemma drop_all:
  assumes ok: "cio_ok ls out s" and p: "p < length (clists s)"
  shows "effect ls out s p [] (ls(PQ p := [])) (set (ls (PQ p)) \<union> out) (set_cl p (\<lambda>q. q\<lparr>c_cf := None, c_cl := None, c_cc := 0\<rparr>) s)"
proof -
  let ?t = "set_cl p (\<lambda>q. q\<lparr>c_cf := None, c_cl := None, c_cc := 0\<rparr>) s"
  have "effect ls out s p (content ?t []) (ls(PQ p := [])) (set (ls (PQ p)) \<union> out) ?t"
  proof (rule clist_change [OF ok p])
    show "linked (\<lambda>i. c_next (cb ?t i)) ((head s)(PQ p := c_cf (cl ?t p))) (ls(PQ p := [])) (set (ls (PQ p)) \<union> out)"
      using linked_pop_all [OF cio_okD(1) [OF ok], of "PQ p"] p by (simp add: cl_set_cl)
    show "?t = s\<lparr>cblocks := cblocks ?t, clists := clists ?t\<rparr>" by (simp add: set_cl_def)
  qed (use p in \<open>auto simp: cl_set_cl list_ok_def last_opt_def\<close>)
  then show ?thesis by simp
qed

lemma cfl_loop_frees:
  assumes "effect ls out s p q ls1 (set (b # bs) \<union> out) s1" and "path (\<lambda>i. c_next (cb s1 i)) (Some b) (b # bs)"
    and "distinct (b # bs)" and "set (b # bs) \<inter> out = {}" and "length bs < n"
  shows "\<exists>ls2 s2. cfl_loop n b s1 = Some s2 \<and> effect ls out s p q ls2 out s2"
  using assms
proof (induction bs arbitrary: b n ls1 s1)
  case Nil
  then obtain m where n: "n = Suc m" by (cases n) auto
  from Nil effect_put [of ls out s p q ls1 b out s1] show ?case by (auto simp: n Let_def)
next
  case (Cons x bs)
  then obtain m where n: "n = Suc m" "length bs < m" by (cases n) auto
  have "effect ls out s p q ls1 (insert b (set (x # bs) \<union> out)) s1" using Cons.prems(1) by simp
  from effect_put [OF this] Cons.prems(3,4) obtain ls2 s2 where st: "putcf b s1 = Some s2"
    and e: "effect ls out s p q ls2 (set (x # bs) \<union> out) s2" and same: "\<forall>i \<in> set (x # bs) \<union> out. cb s2 i = cb s1 i" by auto
  have "path (\<lambda>i. c_next (cb s2 i)) (Some x) (x # bs) = path (\<lambda>i. c_next (cb s1 i)) (Some x) (x # bs)"
    by (rule path_cong) (use same in auto)
  with Cons.prems(2) have "path (\<lambda>i. c_next (cb s2 i)) (Some x) (x # bs)" by simp
  from Cons.IH [OF e this _ _ n(2)] Cons.prems obtain ls3 s3 where "cfl_loop m x s2 = Some s3" "effect ls out s p q ls3 out s3" by auto
  moreover have "c_next (cb s1 b) = Some x" using Cons.prems(2) by simp
  ultimately show ?case using st by (auto simp: n Let_def)
qed

lemma putcfl_ok:
  assumes ok: "cio_ok ls out s" and p: "p < length (clists s)"
  shows "\<exists>ls' s'. putcfl p s = Some s' \<and> effect ls out s p [] ls' out s'"
proof (cases "ls (PQ p)")
  case Nil
  then show ?thesis using list_head(2) [OF ok p] effect_refl [OF ok, of p] by (auto simp: putcfl_def last_opt_def)
next
  case (Cons b bs)
  note h = list_head [OF ok p] and d = cio_okD [OF ok]
  let ?g = "\<lambda>q. q\<lparr>c_cf := None, c_cl := None, c_cc := 0\<rparr>" and ?l = "last (b # bs)"
  have pth: "path (\<lambda>i. c_next (cb s i)) (Some b) (b # bs)" using linkedD(2) [OF d(1), of "PQ p"] h(1) p by (simp add: Cons)
  have "c_next (cb s ?l) = None" using path_last [OF pth] by simp
  then have "set_cb ?l (\<lambda>r. r\<lparr>c_next := None\<rparr>) s = set_cb ?l (\<lambda>r. r) s" by (intro set_cb_same) simp
  also have "\<dots> = s" by (simp add: set_cb_def upd_id)
  finally have nop: "set_cb ?l (\<lambda>r. r\<lparr>c_next := None\<rparr>) s = s" .
  have "\<exists>ls2 s2. cfl_loop (length (cblocks s)) b (set_cl p ?g s) = Some s2 \<and> effect ls out s p [] ls2 out s2"
  proof (rule cfl_loop_frees)
    show "effect ls out s p [] (ls(PQ p := [])) (set (b # bs) \<union> out) (set_cl p ?g s)"
      using drop_all [OF ok p] by (simp add: Cons)
    show "set (b # bs) \<inter> out = {}" using linkedD(3) [OF d(1), of _ "PQ p"] by (auto simp: Cons)
  qed (use pth linkedD(1) [OF d(1), of "PQ p"] place_length [OF ok, of "PQ p"] in \<open>auto simp: Cons\<close>)
  then show ?thesis using h nop by (auto simp: putcfl_def Let_def Cons last_opt_def cfl_loop_set_cl simp del: last.simps)
qed

section \<open>getcbp\<close>

lemma cbp_round:
  assumes ok: "cio_ok ls out s" and p: "p < length (clists s)" and b: "ls (PQ p) = b # bs"
  defines "on \<equiv> int (c_last (cb s b)) - int (c_first (cb s b))"
  defines "t \<equiv> set_cl p (\<lambda>q. q\<lparr>c_cf := c_next (cb s b)\<rparr>) (set_cl p (\<lambda>q. q\<lparr>c_cc := c_cc q - on\<rparr>) s)"
  shows "\<exists>ls' s'. putcf b (if c_cf (cl t p) = None then set_cl p (\<lambda>q. q\<lparr>c_cl := None\<rparr>) t else t) = Some s'
    \<and> effect ls out s p (content s bs) ls' out s' \<and> ls' (PQ p) = bs"
proof (rule free_front [OF ok p b, where f = "\<lambda>r. r"])
  let ?t = "if c_cf (cl t p) = None then set_cl p (\<lambda>q. q\<lparr>c_cl := None\<rparr>) t else t"
  note o = on_list [OF ok _ p, of b, unfolded b, simplified]
  show "cl ?t i = (if i = p then \<lparr>c_cc = int (length (content s bs)), c_cf = c_next (cb s b), c_cl = last_opt bs\<rparr> else cl s i)" for i
    using p list_head [OF ok p] next_on_list [OF ok p b] length_bytes [OF o(1)] o(2)
    by (cases bs) (auto simp: t_def on_def cl_set_cl b last_opt_def)
qed (auto simp: t_def set_cl_def upd_id)

lemma cbp_loop_ok:
  assumes "cio_ok ls out s" and "p < length (clists s)" and "0 \<le> n" and "length (ls (PQ p)) < f"
  shows "\<exists>ls' s'. cbp_loop f p n cp s = Some (s', cp @ take (nat n) (content s (ls (PQ p))))
    \<and> effect ls out s p (drop (nat n) (content s (ls (PQ p)))) ls' out s'"
  using assms
proof (induction f arbitrary: n cp s ls)
  case (Suc f)
  note ok = Suc.prems(1) and p = Suc.prems(2)
  show ?case
  proof (cases "n = 0 \<or> ls (PQ p) = []")
    case True
    then have "cbp_loop (Suc f) p n cp s = Some (s, cp)" using list_head(1) [OF ok p] by auto
    with True effect_refl [OF ok, of p] show ?thesis by auto
  next
    case False
    then obtain b bs where b: "ls (PQ p) = b # bs" by (cases "ls (PQ p)") auto
    note o = on_list [OF ok _ p, of b, unfolded b, simplified] and h = list_head [OF ok p]
    let ?on = "int (c_last (cb s b)) - int (c_first (cb s b))"
    have on: "?on = int (length (bytes (cb s b)))" using length_bytes [OF o(1)] o(2) by simp
    show ?thesis
    proof (cases "n \<ge> ?on")
      case True
      from cbp_round [OF ok p b] obtain ls1 s1 where
        st: "putcf b (let t = set_cl p (\<lambda>q. q\<lparr>c_cf := c_next (cb s b)\<rparr>) (set_cl p (\<lambda>q. q\<lparr>c_cc := c_cc q - ?on\<rparr>) s)
          in if c_cf (cl t p) = None then set_cl p (\<lambda>q. q\<lparr>c_cl := None\<rparr>) t else t) = Some s1"
        and e: "effect ls out s p (content s bs) ls1 out s1" and len: "ls1 (PQ p) = bs" by (auto simp: Let_def)
      have step: "cbp_loop (Suc f) p n cp s = cbp_loop f p (n - ?on) (cp @ bytes (cb s b)) s1"
        using False True st h(1) on by (auto simp: b Let_def split: if_splits)
      have c1: "content s1 bs = content s bs" using e len by (simp add: effect_def)
      have "cio_ok ls1 out s1" "p < length (clists s1)" using e p by (simp_all add: effect_def)
      from Suc.IH [OF this _ _, of "n - ?on" "cp @ bytes (cb s b)"] True Suc.prems(4) len b obtain ls2 s2 where
        "cbp_loop f p (n - ?on) (cp @ bytes (cb s b)) s1 = Some (s2, (cp @ bytes (cb s b)) @ take (nat (n - ?on)) (content s bs))"
        "effect ls1 out s1 p (drop (nat (n - ?on)) (content s bs)) ls2 out s2" using c1 by auto
      moreover have "nat (n - ?on) = nat n - length (bytes (cb s b))" "length (bytes (cb s b)) \<le> nat n" using on True by auto
      ultimately show ?thesis using step effect_trans [OF e] by (auto simp: b)
    next
      case le: False
      define t where "t = set_cb b (\<lambda>r. r\<lparr>c_first := c_first r + nat n\<rparr>) (set_cl p (\<lambda>q. q\<lparr>c_cc := c_cc q - int (nat n)\<rparr>) s)"
      have "cbp_loop (Suc f) p n cp s = Some (t, cp @ take (nat n) (bytes (cb s b)))"
        using False le Suc.prems(3) h(1) by (simp add: b Let_def t_def) (simp add: set_cl_def set_cb_def)
      moreover have "effect ls out s p (drop (nat n) (content s (ls (PQ p)))) ls out t"
        by (rule keep_front [OF ok p b _ t_def]) (use le Suc.prems(3) in linarith)
      moreover have "nat n \<le> length (bytes (cb s b))" using on le by simp
      ultimately show ?thesis by (auto simp: b)
    qed
  qed
qed simp

lemma getcbp_ok:
  assumes ok: "cio_ok ls out s" and p: "p < length (clists s)" and n: "0 \<le> n"
  shows "\<exists>ls' s'. getcbp p n s = Some (s', take (nat n) (content s (ls (PQ p))))
    \<and> effect ls out s p (drop (nat n) (content s (ls (PQ p)))) ls' out s'"
  using cbp_loop_ok [OF ok p n, of "Suc (length (cblocks s))" "[]"] place_length [OF ok, of "PQ p"]
  by (auto simp: getcbp_def)

section \<open>putcbp\<close>

lemma fill_append:
  assumes "c_last (cb s b) < CLSIZE" and "cp \<noteq> []"
  shows "\<exists>xs rest. fill p b cp s = (append_to xs p b s, rest) \<and> cp = xs @ rest \<and> xs \<noteq> [] \<and> c_last (cb s b) + length xs \<le> CLSIZE"
proof -
  let ?k = "if length cp \<ge> CLSIZE - c_last (cb s b) then CLSIZE - c_last (cb s b) else length cp"
  have k: "?k \<le> length cp" "0 < ?k" using assms by auto
  then have "fill p b cp s = (append_to (take ?k cp) p b s, drop ?k cp)" by (simp add: fill_def append_to_def Let_def)
  moreover have "cp = take ?k cp @ drop ?k cp" "take ?k cp \<noteq> []" "c_last (cb s b) + length (take ?k cp) \<le> CLSIZE" using k assms by auto
  ultimately show ?thesis by blast
qed

lemma fill_old:
  assumes ok: "cio_ok ls out s" and p: "p < length (clists s)" and need: "\<not> need_back p s" and cp: "cp \<noteq> []"
  shows "\<exists>b xs rest s1. c_cl (cl s p) = Some b \<and> fill p b cp s = (s1, rest) \<and> cp = xs @ rest \<and> xs \<noteq> []
    \<and> effect ls out s p (content s (ls (PQ p)) @ xs) ls out s1"
proof -
  from need_back_list [OF ok p need] obtain bs b where b: "ls (PQ p) = bs @ [b]" "c_cl (cl s p) = Some b" "c_last (cb s b) < CLSIZE" by blast
  from fill_append [OF b(3) cp, of p] obtain xs rest where f: "fill p b cp s = (append_to xs p b s, rest)" "cp = xs @ rest" "xs \<noteq> []"
    "c_last (cb s b) + length xs \<le> CLSIZE" by blast
  from append_old [OF ok p b(1) f(4)] b(2) f(1,2,3) show ?thesis by blast
qed

lemma fill_new:
  assumes ok: "cio_ok ls out s" and p: "p < length (clists s)" and g: "got ls out b s ls1 s1" "grows ls ls1" and cp: "cp \<noteq> []"
  shows "\<exists>xs rest ls' s2. fill p b cp (link_back p b s1) = (s2, rest) \<and> cp = xs @ rest \<and> xs \<noteq> []
    \<and> effect ls out s p (content s (ls (PQ p)) @ xs) ls' out s2"
proof -
  note d = gotD [OF g(1)]
  have p1: "p < length (clists s1)" "b \<in> insert b out" using p d(3) by simp_all
  have l: "c_last (cb (link_back p b s1) b) < CLSIZE" using link_back_block(2) [OF d(1) p1] by (simp add: CLSIZE_def)
  from fill_append [OF l cp, of p] obtain xs rest where f: "fill p b cp (link_back p b s1) = (append_to xs p b (link_back p b s1), rest)"
    "cp = xs @ rest" "xs \<noteq> []" "length xs \<le> CLSIZE" by auto
  from new_back [OF g ok p f(3,4)] f show ?thesis by blast
qed

lemma pcbp_loop_ok:
  assumes "cio_ok ls out s" and "p < length (clists s)" and "length cp < f"
  shows "\<exists>ls' s' done' rest. pcbp_loop f p cp s = Some (s', rest) \<and> cp = done' @ rest
    \<and> effect ls out s p (content s (ls (PQ p)) @ done') ls' out s' \<and> (rest \<noteq> [] \<longrightarrow> ls' PPin = [] \<and> need_back p s')"
  using assms
proof (induction f arbitrary: cp s ls)
  case (Suc f)
  note ok = Suc.prems(1) and p = Suc.prems(2)
  have round: ?case if go: "pcbp_loop (Suc f) p cp s = pcbp_loop f p rest s1" and xs: "cp = xs @ rest" "xs \<noteq> []"
    and e: "effect ls out s p (content s (ls (PQ p)) @ xs) ls1 out s1" for rest s1 xs ls1
  proof -
    have "cio_ok ls1 out s1" "p < length (clists s1)" "content s1 (ls1 (PQ p)) = content s (ls (PQ p)) @ xs" "length rest < f"
      using e p xs Suc.prems(3) by (auto simp: effect_def neq_Nil_conv)
    with Suc.IH [of ls1 s1 rest] obtain ls2 s2 d r where "pcbp_loop f p rest s1 = Some (s2, r)" "rest = d @ r"
      "effect ls1 out s1 p (content s (ls (PQ p)) @ xs @ d) ls2 out s2" "r \<noteq> [] \<longrightarrow> ls2 PPin = [] \<and> need_back p s2" by auto
    with go xs effect_trans [OF e] show ?thesis by (intro exI [of _ ls2] exI [of _ s2] exI [of _ "xs @ d"] exI [of _ r]) auto
  qed
  consider "cp = []" | (new) "cp \<noteq> []" "need_back p s" | (old) "cp \<noteq> []" "\<not> need_back p s" by blast
  then show ?case
  proof cases
    case 1
    with effect_refl [OF ok, of p] show ?thesis by auto
  next
    case new
    show ?thesis
    proof (cases "ls PPin = []")
      case True
      then have "pcbp_loop (Suc f) p cp s = Some (s, cp)" using get_pinned_ok [OF ok] new by simp
      with effect_refl [OF ok, of p] True new show ?thesis by (intro exI [of _ ls] exI [of _ s] exI [of _ "[]"] exI [of _ cp]) simp
    next
      case False
      with get_pinned_ok [OF ok] obtain b ls1 s1 where st: "get_pinned s = Some (s1, Some b)" and g: "got ls out b s ls1 s1" "grows ls ls1" by auto
      from fill_new [OF ok p g new(1)] obtain xs rest ls2 s2 where "fill p b cp (link_back p b s1) = (s2, rest)" "cp = xs @ rest" "xs \<noteq> []"
        "effect ls out s p (content s (ls (PQ p)) @ xs) ls2 out s2" by blast
      with st new show ?thesis by (intro round [of rest s2 xs ls2]) simp_all
    qed
  next
    case old
    from fill_old [OF ok p old(2,1)] obtain b xs rest s1 where "c_cl (cl s p) = Some b" "fill p b cp s = (s1, rest)" "cp = xs @ rest" "xs \<noteq> []"
      "effect ls out s p (content s (ls (PQ p)) @ xs) ls out s1" by blast
    with old show ?thesis by (intro round [of rest s1 xs ls]) simp_all
  qed
qed simp

lemma putcbp_ok:
  assumes ok: "cio_ok ls out s" and p: "p < length (clists s)" and n: "0 \<le> n" "n \<le> int (length cp)"
  shows "\<exists>ls' s' k. putcbp p cp n s = Some (s', k) \<and> 0 \<le> k \<and> k \<le> n
    \<and> effect ls out s p (content s (ls (PQ p)) @ take (nat k) cp) ls' out s' \<and> (k < n \<longrightarrow> ls' PPin = [] \<and> need_back p s')"
proof -
  let ?cp = "take (nat n) cp"
  have len: "length ?cp = nat n" using n by simp
  have "length ?cp < Suc (nat n)" using len by simp
  from pcbp_loop_ok [OF ok p this] obtain ls' s' d rest where
    st: "pcbp_loop (Suc (nat n)) p ?cp s = Some (s', rest)" and cp: "?cp = d @ rest"
    and e: "effect ls out s p (content s (ls (PQ p)) @ d) ls' out s'" and r: "rest \<noteq> [] \<longrightarrow> ls' PPin = [] \<and> need_back p s'" by blast
  have l: "length d + length rest = nat n" using arg_cong [OF cp, of length] len by simp
  have "take (length d) cp = take (length d) ?cp" using l by (simp add: min_def)
  then have "take (length d) cp = d" by (simp add: cp)
  moreover have "nat (n - int (length rest)) = length d" using l by linarith
  ultimately show ?thesis using st e r l n
    by (intro exI [of _ ls'] exI [of _ s'] exI [of _ "n - int (length rest)"]) (auto simp: putcbp_def simp del: pcbp_loop.simps)
qed

end
