(* ===== verification/ClistSys.thy ===== *)
theory ClistSys
  imports ClistLoops
begin

text \<open>
  The calls of character I/O by many threads and by interrupt handlers. An interrupt handler, or
  a process with interrupts disabled, runs a call to its end and takes cblocks from the pinned
  list. A process with interrupts enabled takes them with \<open>get_unpinned\<close>, which gives up
  \<open>CLIST_LOCK\<close>, waits for \<open>C_MAINT_LOCK\<close> and may page fault in \<open>pin\<close>, so other calls happen
  in the middle of its own.
\<close>

section \<open>State\<close>

datatype ccall = Getcf | Putcf nat | Getcx nat | Putcx "8 word" nat | Getc nat | Putc "8 word" nat | Putcfl nat | Getcb nat
  | Putcb nat nat | Getcbp nat int | Putcbp nat "8 word list" int | Waitcfree | Pincf int
  | Fill nat nat nat "8 word list"  \<comment> \<open>a driver writes a cblock it holds\<close>

datatype cret = RVoid | RInt int | RBlock "nat option" | RBytes "8 word list"

text \<open>What a thread goes on with when \<open>get_unpinned\<close> returns to it.\<close>

datatype cont = KGetcf | KPutcx "8 word" nat | KPutc "8 word" nat | KPutcbp nat "8 word list" int | KPincf int int | KWait

text \<open>
  A thread is idle, waits for \<open>C_MAINT_PINCF_LOCK\<close> with the argument of \<open>pincf\<close>, waits for \<open>C_MAINT_LOCK\<close>,
  is in \<open>pin\<close> with that lock held, has a cblock and waits for \<open>CLIST_LOCK\<close>, is in the two loops of
  \<open>pincf\<close> with a negative argument, with \<open>requested\<close>, \<open>delta\<close> and \<open>root_bp\<close>, or sleeps in \<open>waitcfree\<close>.
\<close>

datatype cthread = TIdle | TLockP int | TWant cont | TPin cont bool "nat option" | TGot cont nat
  | TDown int int "nat option" | TGive int "nat option" | TSleep

text \<open>\<open>drv\<close> are the cblocks the drivers hold; \<open>res\<close> is the result of the call the last event ended, if it ended one.\<close>

record csys =
  io :: cio
  drv :: "nat list"
  thr :: "cthread list"
  maint :: "nat option"
  plock :: "nat option"
  res :: "cret option"

definition EVENT_SUCC :: int where "EVENT_SUCC = 1"
definition EVENT_SIG :: int where "EVENT_SIG = 0"

definition int32 :: "int \<Rightarrow> int" where
  "int32 x = (x + 2 ^ 31) mod 2 ^ 32 - 2 ^ 31"

section \<open>Calls that run to their end\<close>

definition ret :: "cret \<Rightarrow> cio \<Rightarrow> csys \<Rightarrow> csys" where
  "ret r k s = s\<lparr>io := k, res := Some r\<rparr>"

text \<open>
  With interrupts disabled \<open>waitcfree\<close> does nothing: its \<open>else\<close> belongs to the test of the sleep
  inside the first loop, not to the test of the priority, so the branch that was to wait for
  pinned cblocks is in the loop that is skipped.
\<close>

definition waitcfree_disabled :: "cio \<Rightarrow> int" where
  "waitcfree_disabled k = EVENT_SUCC"

definition intr_call :: "ccall \<Rightarrow> csys \<Rightarrow> csys option" where
  "intr_call c s =
     (let k = io s in
      case c of
        Getcf \<Rightarrow> map_option (\<lambda>(k, bp). ret (RBlock bp) k (case bp of None \<Rightarrow> s | Some b \<Rightarrow> s\<lparr>drv := b # drv s\<rparr>)) (getcf k)
      | Putcf b \<Rightarrow> map_option (\<lambda>k. ret RVoid k (s\<lparr>drv := remove1 b (drv s)\<rparr>)) (putcf b k)
      | Getcx p \<Rightarrow> map_option (\<lambda>(k, r). ret (RInt r) k s) (getcx p k)
      | Putcx ch p \<Rightarrow> map_option (\<lambda>(k, r). ret (RInt r) k s) (putcx ch p k)
      | Getc p \<Rightarrow> map_option (\<lambda>(k, r). ret (RInt r) k s) (getc p k)
      | Putc ch p \<Rightarrow> map_option (\<lambda>(k, r). ret (RInt r) k s) (putc ch p k)
      | Putcfl p \<Rightarrow> map_option (\<lambda>k. ret RVoid k s) (putcfl p k)
      | Getcb p \<Rightarrow> let (k, bp) = getcb p k in Some (ret (RBlock bp) k (case bp of None \<Rightarrow> s | Some b \<Rightarrow> s\<lparr>drv := b # drv s\<rparr>))
      | Putcb b p \<Rightarrow> Some (ret RVoid (putcb b p k) (s\<lparr>drv := remove1 b (drv s)\<rparr>))
      | Getcbp p n \<Rightarrow> map_option (\<lambda>(k, bs). ret (RBytes bs) k s) (getcbp p n k)
      | Putcbp p cp n \<Rightarrow> map_option (\<lambda>(k, r). ret (RInt r) k s) (putcbp p cp n k)
      | Waitcfree \<Rightarrow> Some (ret (RInt (waitcfree_disabled k)) k s)
      | Pincf d \<Rightarrow> None
      | Fill b f l xs \<Rightarrow> Some (ret RVoid (set_cb b (\<lambda>r. r\<lparr>c_first := f, c_last := l, c_data := xs\<rparr>) k) s))"

section \<open>Calls of a process\<close>

definition set_thr :: "nat \<Rightarrow> cthread \<Rightarrow> csys \<Rightarrow> csys" where
  "set_thr t x s = s\<lparr>thr := (thr s)[t := x]\<rparr>"

definition end_call :: "nat \<Rightarrow> cret \<Rightarrow> csys \<Rightarrow> csys" where
  "end_call t r s = (set_thr t TIdle s)\<lparr>res := Some r\<rparr>"

text \<open>The rounds of \<open>putcbp\<close> up to the end or the next cblock it needs.\<close>

fun fill_base :: "nat \<Rightarrow> nat \<Rightarrow> 8 word list \<Rightarrow> cio \<Rightarrow> (cio \<times> 8 word list) option" where
  "fill_base 0 p cp s = None"
| "fill_base (Suc f) p cp s =
     (if cp = [] \<or> need_back p s then Some (s, cp)
      else case c_cl (cl s p) of
        None \<Rightarrow> None
      | Some bp \<Rightarrow> let (s, cp) = fill p bp cp s in fill_base f p cp s)"

definition putcbp_base :: "nat \<Rightarrow> nat \<Rightarrow> 8 word list \<Rightarrow> int \<Rightarrow> csys \<Rightarrow> csys option" where
  "putcbp_base t p cp n s =
     map_option (\<lambda>(k, rest). if rest = [] then end_call t (RInt n) (s\<lparr>io := k\<rparr>)
                             else set_thr t (TWant (KPutcbp p rest n)) (s\<lparr>io := k\<rparr>))
       (fill_base (Suc (length cp)) p cp (io s))"

text \<open>
  \<open>waitcfree\<close>: the head of its outer loop and of its inner one, and going to sleep. After either
  sleep it continues at the head of the inner loop.
\<close>

definition sleep :: "nat \<Rightarrow> csys \<Rightarrow> csys" where
  "sleep t s = set_thr t TSleep (s\<lparr>io := (io s)\<lparr>waiters := t # waiters (io s)\<rparr>\<rparr>)"

definition w_outer :: "nat \<Rightarrow> csys \<Rightarrow> csys" where
  "w_outer t s = (if cfree_next (io s) = None \<and> endcfree (io s) = None then sleep t s else end_call t (RInt EVENT_SUCC) s)"

definition w_inner :: "nat \<Rightarrow> csys \<Rightarrow> csys" where
  "w_inner t s = (if pincfree_size (io s) < DELTA then set_thr t (TWant KWait) s else w_outer t s)"

text \<open>\<open>pincf\<close>: with the lock held, the loop of a positive argument and its end.\<close>

definition pincf_end :: "nat \<Rightarrow> int \<Rightarrow> int \<Rightarrow> csys \<Rightarrow> csys" where
  "pincf_end t requested delta s =
     end_call t (RInt (requested - delta)) (s\<lparr>io := (io s)\<lparr>pincreq := pincreq (io s) - delta\<rparr>, plock := None\<rparr>)"

definition pincf_up :: "nat \<Rightarrow> int \<Rightarrow> int \<Rightarrow> csys \<Rightarrow> csys" where
  "pincf_up t requested delta s =
     (if delta \<noteq> 0 then set_thr t (TWant (KPincf requested delta)) s else pincf_end t requested delta s)"

definition pincf_locked :: "nat \<Rightarrow> int \<Rightarrow> csys \<Rightarrow> csys option" where
  "pincf_locked t delta s =
     (let k = io s in
      if delta > 0
      then let delta = (if int32 (pincreq k + delta) > cmax k - LEFT_OVER then cmax k - LEFT_OVER - pincreq k else delta)
           in Some (pincf_up t delta delta (s\<lparr>io := k\<lparr>pincreq := int32 (pincreq k + delta)\<rparr>\<rparr>))
      else if pincreq k < - delta then None
      else Some (set_thr t (TDown delta delta None) (s\<lparr>io := k\<lparr>pincreq := pincreq k + delta\<rparr>\<rparr>)))"

definition pincf_down :: "nat \<Rightarrow> int \<Rightarrow> int \<Rightarrow> nat option \<Rightarrow> csys \<Rightarrow> csys option" where
  "pincf_down t requested delta root_bp s =
     (if delta = 0 then Some (set_thr t (TGive requested root_bp) s)
      else do {
        (k, bp) \<leftarrow> get_pinned (io s);
        case bp of
          None \<Rightarrow> Some (set_thr t (TGive requested root_bp) (s\<lparr>io := k\<rparr>))
        | Some b \<Rightarrow> Some (set_thr t (TDown requested (delta + 1) (Some b))
                      (s\<lparr>io := set_cb b (\<lambda>r. r\<lparr>c_next := root_bp\<rparr>) k\<rparr>))
      })"

definition pincf_give :: "nat \<Rightarrow> int \<Rightarrow> nat option \<Rightarrow> csys \<Rightarrow> csys option" where
  "pincf_give t requested root_bp s =
     (case root_bp of
        None \<Rightarrow> Some (end_call t (RInt requested) (s\<lparr>plock := None\<rparr>))
      | Some b \<Rightarrow> map_option (\<lambda>k. set_thr t (TGive requested (c_next (cb (io s) b))) (s\<lparr>io := k\<rparr>)) (putcf b (io s)))"

text \<open>
  Where \<open>get_unpinned\<close> returns NULL, and where it returns \<open>b\<close>. The \<open>put_pinned_front\<close> of \<open>waitcfree\<close> is one step here; \<open>clist_fine\<close>
  below has it in two, as no lock is held in it.
\<close>

definition cont_fail :: "nat \<Rightarrow> cont \<Rightarrow> csys \<Rightarrow> csys" where
  "cont_fail t c s =
     (case c of
        KGetcf \<Rightarrow> end_call t (RBlock None) s
      | KPutcx ch p \<Rightarrow> end_call t (RInt (-1)) s
      | KPutc ch p \<Rightarrow> end_call t (RInt (-1)) s
      | KPutcbp p rest n \<Rightarrow> end_call t (RInt (n - int (length rest))) s
      | KPincf requested delta \<Rightarrow> pincf_end t requested delta s
      | KWait \<Rightarrow> if pincfree_size (io s) \<ge> DELTA then w_outer t s else sleep t s)"

definition cont_got :: "nat \<Rightarrow> cont \<Rightarrow> nat \<Rightarrow> csys \<Rightarrow> csys option" where
  "cont_got t c b s =
     (let k = io s in
      case c of
        KGetcf \<Rightarrow> Some (end_call t (RBlock (Some b)) (s\<lparr>io := getcf_init b k, drv := b # drv s\<rparr>))
      | KPutcx ch p \<Rightarrow> Some (end_call t (RInt 0) (s\<lparr>io := store_front ch p b (link_front p b k)\<rparr>))
      | KPutc ch p \<Rightarrow> Some (end_call t (RInt 0) (s\<lparr>io := store_back ch p b (link_back p b k)\<rparr>))
      | KPutcbp p rest n \<Rightarrow> let (k, rest) = fill p b rest (link_back p b k) in putcbp_base t p rest n (s\<lparr>io := k\<rparr>)
      | KPincf requested delta \<Rightarrow> map_option (\<lambda>k. pincf_up t requested (delta - 1) (s\<lparr>io := k\<rparr>)) (putcf b k)
      | KWait \<Rightarrow> map_option (\<lambda>k. w_inner t (s\<lparr>io := k\<rparr>)) (put_pinned_front b k))"

section \<open>Steps\<close>

text \<open>The call of an idle thread; those not listed run to their end.\<close>

definition base_call :: "nat \<Rightarrow> ccall \<Rightarrow> csys \<Rightarrow> csys option" where
  "base_call t c s =
     (case c of
        Getcf \<Rightarrow> Some (set_thr t (TWant KGetcf) s)
      | Putcx ch p \<Rightarrow> if need_front p (io s) then Some (set_thr t (TWant (KPutcx ch p)) s) else intr_call c s
      | Putc ch p \<Rightarrow> if need_back p (io s) then Some (set_thr t (TWant (KPutc ch p)) s) else intr_call c s
      | Putcbp p cp n \<Rightarrow> if n < 0 \<or> n > int (length cp) then None else putcbp_base t p (take (nat n) cp) n s
      | Waitcfree \<Rightarrow> Some (w_outer t s)
      | Pincf d \<Rightarrow> Some (set_thr t (TLockP d) s)
      | _ \<Rightarrow> intr_call c s)"

definition go :: "nat \<Rightarrow> bool \<Rightarrow> csys \<Rightarrow> csys option" where
  "go t pin_ok s =
     (case thr s ! t of
        TIdle \<Rightarrow> Some s
      | TLockP d \<Rightarrow> if plock s = None then pincf_locked t d (s\<lparr>plock := Some t\<rparr>) else Some s
      | TWant c \<Rightarrow> if maint s = None
                   then let (anch, bp) = gu_look (io s) in Some (set_thr t (TPin c anch bp) (s\<lparr>maint := Some t\<rparr>))
                   else Some s
      | TPin c anch bp \<Rightarrow> do {
          (k, r) \<leftarrow> gu_rest pin_ok anch bp (io s);
          let s = s\<lparr>io := k, maint := None\<rparr> in
          case r of None \<Rightarrow> Some (cont_fail t c s) | Some b \<Rightarrow> Some (set_thr t (TGot c b) s)
        }
      | TGot c b \<Rightarrow> cont_got t c b s
      | TDown requested delta root_bp \<Rightarrow> pincf_down t requested delta root_bp s
      | TGive requested root_bp \<Rightarrow> pincf_give t requested root_bp s
      | TSleep \<Rightarrow> if t \<in> set (waiters (io s)) then Some s else Some (w_inner t s))"

text \<open>
  A call with arguments a driver cannot have does not happen. In particular drivers give back with \<open>pincf\<close> no
  more than they were granted: of \<open>pincreq\<close>, what calls still in progress will take is set apart.
\<close>

fun reserved :: "cthread \<Rightarrow> int" where
  "reserved (TLockP d) = (if d < 0 then - d else 0)"
| "reserved (TWant (KPincf requested delta)) = delta"
| "reserved (TPin (KPincf requested delta) anch bp) = delta"
| "reserved (TGot (KPincf requested delta) b) = delta"
| "reserved _ = 0"

definition allowed :: "ccall \<Rightarrow> csys \<Rightarrow> bool" where
  "allowed c s =
     (let n = length (clists (io s)) in
      case c of
        Getcf \<Rightarrow> True | Putcf b \<Rightarrow> b \<in> set (drv s) | Getcx p \<Rightarrow> p < n | Putcx ch p \<Rightarrow> p < n | Getc p \<Rightarrow> p < n
      | Putc ch p \<Rightarrow> p < n | Putcfl p \<Rightarrow> p < n | Getcb p \<Rightarrow> p < n | Putcb b p \<Rightarrow> b \<in> set (drv s) \<and> p < n | Getcbp p m \<Rightarrow> p < n
      | Putcbp p cp m \<Rightarrow> p < n | Waitcfree \<Rightarrow> True | Pincf d \<Rightarrow> d \<ge> 0 \<or> - d \<le> pincreq (io s) - sum_list (map reserved (thr s))
      | Fill b f l xs \<Rightarrow> b \<in> set (drv s))"

datatype cev = Intr ccall | Base nat ccall | Go nat bool | Signal nat

definition clist_next :: "cev \<Rightarrow> csys \<Rightarrow> csys option" where
  "clist_next e s =
     (let s = s\<lparr>res := None\<rparr> in
      case e of
        Intr c \<Rightarrow> if allowed c s then intr_call c s else Some s
      | Base t c \<Rightarrow> if t < length (thr s) \<and> thr s ! t = TIdle \<and> allowed c s then base_call t c s else Some s
      | Go t pin_ok \<Rightarrow> if t < length (thr s) then go t pin_ok s else Some s
      | Signal t \<Rightarrow> if t < length (thr s) \<and> thr s ! t = TSleep \<and> t \<in> set (waiters (io s))
                    then Some (end_call t (RInt EVENT_SIG) (s\<lparr>io := (io s)\<lparr>waiters := filter (\<lambda>x. x \<noteq> t) (waiters (io s))\<rparr>\<rparr>))
                    else Some s)"

text \<open>\<open>cinit\<close>: everything empty; the call of \<open>pincf\<close> at its end is an event of the machine.\<close>

definition cinit :: "nat \<Rightarrow> nat \<Rightarrow> nat \<Rightarrow> csys" where
  "cinit v_clist nlists threads =
     \<lparr>io = \<lparr>cfree_next = None, cfree_size = 0, endcfree = None, pincfree_next = None, pincfree_size = 0, endpincfree = None,
        cblkhiwater = 0, pincreq = 0, cblkavail = 0, cmax = int v_clist, waiters = [],
        cblocks = replicate v_clist \<lparr>c_next = None, c_first = 0, c_last = 0, c_data = replicate CLSIZE 0, c_flags = c_unpinned\<rparr>,
        clists = replicate nlists \<lparr>c_cc = 0, c_cf = None, c_cl = None\<rparr>, pins = replicate v_clist 0\<rparr>,
      drv = [], thr = replicate threads TIdle, maint = None, plock = None, res = None\<rparr>"

section \<open>put_pinned_front without its lock\<close>

text \<open>
  \<open>waitcfree\<close> calls \<open>put_pinned_front\<close> with interrupts enabled and without \<open>CIO_MUTEX_LOCK\<close>; in \<open>cont_got\<close> the call is one
  step. Here the function is in two halves, up to and after the moment when it has linked the cblock to the head of the list,
  and in \<open>clist_fine\<close> anything may happen in between: \<open>pend\<close> are the threads that are between the halves.
\<close>

definition ppf_begin :: "nat \<Rightarrow> cio \<Rightarrow> cio option" where
  "ppf_begin bp s =
     (if c_flags (cb s bp) \<noteq> c_busy then None
      else let s = set_cb bp (\<lambda>r. r\<lparr>c_flags := c_pinned\<rparr>) s;
               s = s\<lparr>pincfree_size := pincfree_size s + 1\<rparr>;
               s = (if pincfree_next s = None then s\<lparr>endpincfree := Some bp\<rparr> else s)
           in Some (set_cb bp (\<lambda>r. r\<lparr>c_next := pincfree_next s\<rparr>) s))"

definition ppf_end :: "nat \<Rightarrow> cio \<Rightarrow> cio" where
  "ppf_end bp s = s\<lparr>pincfree_next := Some bp\<rparr>"

text \<open>The cblock with which a thread is at the call of \<open>put_pinned_front\<close> in \<open>waitcfree\<close>.\<close>

fun wait_block :: "cthread \<Rightarrow> nat option" where
  "wait_block (TGot KWait b) = Some b"
| "wait_block _ = None"

definition at_ppf :: "cev \<Rightarrow> csys \<Rightarrow> (nat \<times> nat) option" where
  "at_ppf e s =
     (case e of
        Go t pin_ok \<Rightarrow> if t < length (thr s) then map_option (\<lambda>b. (t, b)) (wait_block (thr s ! t)) else None
      | _ \<Rightarrow> None)"

fun clist_fine :: "cev \<Rightarrow> csys \<times> nat list \<Rightarrow> (csys \<times> nat list) option" where
  "clist_fine e (s, pend) =
     (case at_ppf e s of
        None \<Rightarrow> map_option (\<lambda>s. (s, pend)) (clist_next e s)
      | Some (t, b) \<Rightarrow>
          if t \<in> set pend then Some (w_inner t (s\<lparr>res := None, io := ppf_end b (io s)\<rparr>), filter (\<lambda>x. x \<noteq> t) pend)
          else map_option (\<lambda>k. (s\<lparr>res := None, io := k\<rparr>, t # pend)) (ppf_begin b (io s)))"

text \<open>A run in which nothing happens between the two halves.\<close>

fun goes_on :: "nat list \<Rightarrow> cev \<Rightarrow> bool" where
  "goes_on [] e = True"
| "goes_on (t # ts) (Go t' pin_ok) = (t' = t)"
| "goes_on (t # ts) e = False"

fun undisturbed :: "cev list \<Rightarrow> csys \<times> nat list \<Rightarrow> bool" where
  "undisturbed [] x = True"
| "undisturbed (e # es) x = (goes_on (snd x) e \<and> (case clist_fine e x of None \<Rightarrow> True | Some y \<Rightarrow> undisturbed es y))"

end
