(* ===== verification/ClistHold.thy ===== *)
theory ClistHold
  imports ClistSys
begin

text \<open>
  The invariant of the machine: the free lists and the character lists are well formed, each cblock that is on
  none of them is held by a driver or by one thread, and each thread is in a state its locks and cblocks agree with.
\<close>

section \<open>Who holds what\<close>

datatype holder = HDrv | HThr nat

definition holds :: "nat list \<Rightarrow> (nat \<Rightarrow> nat list) \<Rightarrow> holder \<Rightarrow> nat list" where
  "holds dr pv h = (case h of HDrv \<Rightarrow> dr | HThr t \<Rightarrow> pv t)"

definition parts :: "(holder \<Rightarrow> nat list) \<Rightarrow> nat set \<Rightarrow> bool" where
  "parts hold out \<longleftrightarrow> (\<forall>h. distinct (hold h)) \<and> (\<forall>h h'. h \<noteq> h' \<longrightarrow> set (hold h) \<inter> set (hold h') = {}) \<and> (\<Union>h. set (hold h)) = out"

lemma holds_drv: "holds dr' pv = (holds dr pv)(HDrv := dr')"
  by (rule ext, rename_tac h, case_tac h) (simp_all add: holds_def)

lemma holds_thr: "holds dr (pv(t := xs)) = (holds dr pv)(HThr t := xs)"
  by (rule ext, rename_tac h, case_tac h) (simp_all add: holds_def)

lemma held_by_simps [simp]: "holds dr pv HDrv = dr" "holds dr pv (HThr t) = pv t"
  by (simp_all add: holds_def)

lemma parts_in: "parts hold out \<Longrightarrow> b \<in> set (hold h) \<Longrightarrow> b \<in> out"
  unfolding parts_def by blast

lemma parts_one: "parts hold out \<Longrightarrow> b \<in> set (hold h) \<Longrightarrow> b \<in> set (hold h') \<Longrightarrow> h = h'"
  unfolding parts_def by blast

lemma parts_add:
  assumes "parts hold out" and "b \<notin> out"
  shows "parts (hold(h := b # hold h)) (insert b out)"
proof -
  have "b \<notin> set (hold h')" for h' using parts_in [OF assms(1)] assms(2) by blast
  moreover have "(\<Union>h'. set ((hold(h := b # hold h)) h')) = insert b out"
    unfolding Union_upd using assms(1) Union_split [of hold h] by (auto simp: parts_def)
  ultimately show ?thesis using assms(1) unfolding parts_def by auto
qed

lemma parts_del:
  assumes "parts hold out" and "b \<in> set (hold h)"
  shows "parts (hold(h := remove1 b (hold h))) (out - {b})"
proof -
  have d: "distinct (hold h)" using assms(1) by (simp add: parts_def)
  have nb: "b \<notin> set (hold h')" if "h' \<noteq> h" for h' using parts_one [OF assms] that by blast
  have "(\<Union>h'. set ((hold(h := remove1 b (hold h))) h')) = out - {b}"
  proof -
    have "(\<Union>h' \<in> - {h}. set (hold h')) - {b} = (\<Union>h' \<in> - {h}. set (hold h'))" using nb by blast
    moreover have "out = set (hold h) \<union> (\<Union>h' \<in> - {h}. set (hold h'))" using assms(1) Union_split [of hold h] by (simp add: parts_def)
    ultimately show ?thesis unfolding Union_upd using d by auto
  qed
  moreover have "set ((hold(h := remove1 b (hold h))) h') \<subseteq> set (hold h')" for h' using d by auto
  then have "set ((hold(h := remove1 b (hold h))) h1) \<inter> set ((hold(h := remove1 b (hold h))) h2) = {}" if "h1 \<noteq> h2" for h1 h2
    using assms(1) that unfolding parts_def by blast
  ultimately show ?thesis using assms(1) d unfolding parts_def by auto
qed

lemma parts_move:
  assumes "parts hold out" and "b \<in> set (hold h)" and "h \<noteq> h'"
  shows "parts (hold(h := remove1 b (hold h), h' := b # hold h')) out"
proof -
  have "insert b (out - {b}) = out" using parts_in [OF assms(1,2)] by blast
  with parts_add [OF parts_del [OF assms(1,2)], of b h'] assms(3) show ?thesis by simp
qed

section \<open>Threads\<close>

fun cont_ok :: "nat \<Rightarrow> cont \<Rightarrow> bool" where
  "cont_ok n (KPutcx ch p) = (p < n)"
| "cont_ok n (KPutc ch p) = (p < n)"
| "cont_ok n (KPutcbp p rest m) = (p < n \<and> rest \<noteq> [])"
| "cont_ok n (KPincf requested delta) = (0 < delta)"
| "cont_ok n _ = True"

fun is_pincf :: "cont \<Rightarrow> bool" where
  "is_pincf (KPincf requested delta) = True"
| "is_pincf _ = False"

text \<open>
  \<open>thr_ok ls k m l t vs x\<close>: thread \<open>t\<close> may be in the state \<open>x\<close> and hold \<open>vs\<close>, where \<open>m\<close> and \<open>l\<close> are the owners of the two locks.
\<close>

fun thr_ok :: "(place \<Rightarrow> nat list) \<Rightarrow> cio \<Rightarrow> nat option \<Rightarrow> nat option \<Rightarrow> nat \<Rightarrow> nat list \<Rightarrow> cthread \<Rightarrow> bool" where
  "thr_ok ls k m l t vs TIdle = (vs = [] \<and> m \<noteq> Some t \<and> l \<noteq> Some t)"
| "thr_ok ls k m l t vs (TLockP d) = (vs = [] \<and> m \<noteq> Some t \<and> l \<noteq> Some t \<and> d < 2 ^ 30)"
| "thr_ok ls k m l t vs (TWant c) = (vs = [] \<and> m \<noteq> Some t \<and> cont_ok (length (clists k)) c \<and> (l = Some t) = is_pincf c)"
| "thr_ok ls k m l t vs (TPin c anch bp) = (vs = [] \<and> m = Some t \<and> cont_ok (length (clists k)) c \<and> (l = Some t) = is_pincf c
     \<and> (\<forall>b. bp = Some b \<longrightarrow> b \<in> set (ls (unpinned_at anch))))"
| "thr_ok ls k m l t vs (TGot c b) = (vs = [b] \<and> m \<noteq> Some t \<and> cont_ok (length (clists k)) c \<and> (l = Some t) = is_pincf c)"
| "thr_ok ls k m l t vs (TDown r d root) = (path (\<lambda>i. c_next (cb k i)) root vs \<and> m \<noteq> Some t \<and> l = Some t \<and> d \<le> 0)"
| "thr_ok ls k m l t vs (TGive r root) = (path (\<lambda>i. c_next (cb k i)) root vs \<and> m \<noteq> Some t \<and> l = Some t)"
| "thr_ok ls k m l t vs TSleep = (vs = [] \<and> m \<noteq> Some t \<and> l \<noteq> Some t)"

lemma reserved_pos: "thr_ok ls k m l t vs x \<Longrightarrow> 0 \<le> reserved x"
  by (induction x rule: reserved.induct) auto

definition sys_ok :: "(place \<Rightarrow> nat list) \<Rightarrow> nat set \<Rightarrow> (nat \<Rightarrow> nat list) \<Rightarrow> csys \<Rightarrow> bool" where
  "sys_ok ls out pv s \<longleftrightarrow> cio_ok ls out (io s) \<and> parts (holds (drv s) pv) out \<and> (\<forall>t. length (thr s) \<le> t \<longrightarrow> pv t = [])
     \<and> (\<forall>b \<in> set (drv s). room_ok (cb (io s) b))
     \<and> (\<forall>t < length (thr s). thr_ok ls (io s) (maint s) (plock s) t (pv t) (thr s ! t))
     \<and> sum_list (map reserved (thr s)) \<le> pincreq (io s) \<and> pincreq (io s) \<le> cmax (io s) - LEFT_OVER \<and> cmax (io s) \<le> 2 ^ 30"

lemma sys_okD:
  assumes "sys_ok ls out pv s"
  shows "cio_ok ls out (io s)" and "parts (holds (drv s) pv) out" and "length (thr s) \<le> t \<Longrightarrow> pv t = []"
    and "b \<in> set (drv s) \<Longrightarrow> room_ok (cb (io s) b)"
    and "t < length (thr s) \<Longrightarrow> thr_ok ls (io s) (maint s) (plock s) t (pv t) (thr s ! t)"
    and "sum_list (map reserved (thr s)) \<le> pincreq (io s)" and "pincreq (io s) \<le> cmax (io s) - LEFT_OVER" and "cmax (io s) \<le> 2 ^ 30"
  using assms unfolding sys_ok_def by blast+

section \<open>Steps of one thread\<close>

text \<open>What a thread that does nothing needs of the step of another.\<close>

definition io_step :: "nat set \<Rightarrow> cio \<Rightarrow> (place \<Rightarrow> nat list) \<Rightarrow> nat set \<Rightarrow> cio \<Rightarrow> bool" where
  "io_step out k ls' out' k' \<longleftrightarrow> cio_ok ls' out' k' \<and> length (clists k') = length (clists k) \<and> cmax k' = cmax k
     \<and> (\<forall>i \<in> out \<inter> out'. c_next (cb k' i) = c_next (cb k i) \<and> room_ok (cb k' i) = room_ok (cb k i))"

lemma thr_ok_mono:
  assumes "thr_ok ls k m l t vs x" and "length (clists k') = length (clists k)"
    and "\<And>i. i \<in> set vs \<Longrightarrow> c_next (cb k' i) = c_next (cb k i)"
    and "grows ls ls' \<or> m \<noteq> Some t" and "(m' = Some t) = (m = Some t)" and "(l' = Some t) = (l = Some t)"
  shows "thr_ok ls' k' m' l' t vs x"
proof (cases x)
  case (TPin c anch bp)
  then have "grows ls ls'" using assms(1,4) by simp
  then have "set (ls (unpinned_at anch)) \<subseteq> set (ls' (unpinned_at anch))" by (simp add: grows_def unpinned_at_def)
  with assms TPin show ?thesis by auto
next
  case (TDown r d root)
  have "path (\<lambda>i. c_next (cb k' i)) root vs = path (\<lambda>i. c_next (cb k i)) root vs" by (rule path_cong) (rule assms(3))
  with assms TDown show ?thesis by simp
next
  case (TGive r root)
  have "path (\<lambda>i. c_next (cb k' i)) root vs = path (\<lambda>i. c_next (cb k i)) root vs" by (rule path_cong) (rule assms(3))
  with assms TGive show ?thesis by simp
qed (use assms in simp_all)

lemma sum_reserved: "t < length xs \<Longrightarrow> sum_list (map reserved (xs[t := x])) = sum_list (map reserved xs) + (reserved x - reserved (xs ! t))"
proof (induction xs arbitrary: t)
  case (Cons y ys)
  then show ?case by (cases t) auto
qed simp

lemma sys_update:
  assumes inv: "sys_ok ls out pv s" and st: "io_step out (io s) ls' out' k"
    and pt: "parts (holds dr pv') out'" and rm: "\<And>b. b \<in> set dr \<Longrightarrow> room_ok (cb k b)"
    and th: "length th = length (thr s)"
    and gr: "grows ls ls' \<or> (\<forall>t. t \<notin> T \<longrightarrow> maint s \<noteq> Some t)"
    and same: "\<And>t. t \<notin> T \<Longrightarrow> th ! t = thr s ! t \<and> pv' t = pv t \<and> (m = Some t) = (maint s = Some t) \<and> (l = Some t) = (plock s = Some t)"
    and new: "\<And>t. t \<in> T \<Longrightarrow> t < length (thr s) \<and> thr_ok ls' k m l t (pv' t) (th ! t)"
    and pr: "sum_list (map reserved th) \<le> pincreq k" "pincreq k \<le> cmax k - LEFT_OVER"
  shows "sys_ok ls' out' pv' \<lparr>io = k, drv = dr, thr = th, maint = m, plock = l, res = r\<rparr>"
proof -
  note d = sys_okD [OF inv]
  have io: "cio_ok ls' out' k" "length (clists k) = length (clists (io s))" "cmax k = cmax (io s)"
    "\<And>i. i \<in> out \<Longrightarrow> i \<in> out' \<Longrightarrow> c_next (cb k i) = c_next (cb (io s) i)"
    using st unfolding io_step_def by blast+
  have "thr_ok ls' k m l t (pv' t) (th ! t)" if t: "t < length th" for t
  proof (cases "t \<in> T")
    case False
    note s = same [OF False]
    have "thr_ok ls' k m l t (pv t) (thr s ! t)"
    proof (rule thr_ok_mono [OF d(5)])
      show "c_next (cb k i) = c_next (cb (io s) i)" if "i \<in> set (pv t)" for i
        using parts_in [OF d(2), of i "HThr t"] parts_in [OF pt, of i "HThr t"] s that by (intro io(4)) simp_all
    qed (use s t th io gr False in auto)
    with s show ?thesis by simp
  qed (use new in blast)
  moreover have "pv' t = []" if "length th \<le> t" for t
    using that th new [of t] same [of t] d(3) [of t] by (cases "t \<in> T") auto
  ultimately show ?thesis using io pt rm pr d(8) unfolding sys_ok_def by simp
qed

lemma thread_step:
  assumes inv: "sys_ok ls out pv s" and t: "t < length (thr s)" and st: "io_step out (io s) ls' out' k"
    and pt: "parts (holds dr (pv(t := vs))) out'" and rm: "\<And>b. b \<in> set dr \<Longrightarrow> room_ok (cb k b)"
    and gr: "grows ls ls' \<or> maint s = Some t"
    and m: "\<And>t'. t' \<noteq> t \<Longrightarrow> (m = Some t') = (maint s = Some t')" and l: "\<And>t'. t' \<noteq> t \<Longrightarrow> (l = Some t') = (plock s = Some t')"
    and new: "thr_ok ls' k m l t vs x"
    and pr: "sum_list (map reserved (thr s)) + (reserved x - reserved (thr s ! t)) \<le> pincreq k" "pincreq k \<le> cmax k - LEFT_OVER"
  shows "sys_ok ls' out' (pv(t := vs)) \<lparr>io = k, drv = dr, thr = (thr s)[t := x], maint = m, plock = l, res = r\<rparr>"
proof (rule sys_update [OF inv st pt rm, where T = "{t}"])
  show "sum_list (map reserved ((thr s)[t := x])) \<le> pincreq k"
    using sum_reserved [OF t, of x] pr(1) by simp
qed (use t gr m l new pr in auto)

lemma effect_step:
  assumes "effect ls out k p q ls' out' k'"
  shows "io_step out k ls' out' k'" and "grows ls ls'" and "pincreq k' = pincreq k"
  using assms unfolding effect_def io_step_def by auto

lemma put_step:
  assumes put: "put_to ls out b k ls' k'" and ok: "cio_ok ls out k"
  shows "io_step out k ls' (out - {b}) k'" and "grows ls ls'" and "pincreq k' = pincreq k"
proof -
  have p: "cio_ok ls' (out - {b}) k'" "frame k k'" "\<forall>i \<in> out - {b}. c_next (cb k' i) = c_next (cb k i)" "grows ls ls'"
    using put unfolding put_to_def by blast+
  show "grows ls ls'" "pincreq k' = pincreq k" using p frameD(3) by blast+
  show "io_step out k ls' (out - {b}) k'" unfolding io_step_def
    using p frameD(2,4) [OF p(2)] frame_room [OF p(2)] in_array(4) [OF cio_okD(2) [OF ok]] by auto
qed

lemma got_step:
  assumes got: "got ls out b k ls' k'" and ok: "cio_ok ls out k"
  shows "io_step out k ls' (insert b out) k'" and "pincreq k' = pincreq k" and "b \<notin> out"
proof -
  have p: "cio_ok ls' (insert b out) k'" "frame k k'" "\<forall>i \<in> out. c_next (cb k' i) = c_next (cb k i)" "b \<notin> out"
    using got unfolding got_def by blast+
  show "pincreq k' = pincreq k" "b \<notin> out" using p frameD(3) by blast+
  show "io_step out k ls' (insert b out) k'" unfolding io_step_def
    using p frameD(2,4) [OF p(2)] frame_room [OF p(2)] in_array(4) [OF cio_okD(2) [OF ok]] by auto
qed

section \<open>Calls that run to their end\<close>

lemma drv_step:
  assumes inv: "sys_ok ls out pv s" and st: "io_step out (io s) ls' out' k" and gr: "grows ls ls'"
    and pt: "parts (holds dr pv) out'" and rm: "\<And>b. b \<in> set dr \<Longrightarrow> room_ok (cb k b)" and pq: "pincreq k = pincreq (io s)"
  shows "sys_ok ls' out' pv (ret r k (s\<lparr>drv := dr\<rparr>))"
proof -
  have "cmax k = cmax (io s)" using st by (simp add: io_step_def)
  then have "sys_ok ls' out' pv \<lparr>io = k, drv = dr, thr = thr s, maint = maint s, plock = plock s, res = Some r\<rparr>"
    using sys_okD(6,7) [OF inv] pq gr by (intro sys_update [OF inv st pt rm, where T = "{}"]) simp_all
  also have "\<lparr>io = k, drv = dr, thr = thr s, maint = maint s, plock = plock s, res = Some r\<rparr> = ret r k (s\<lparr>drv := dr\<rparr>)"
    by (simp add: ret_def)
  finally show ?thesis .
qed

lemma drv_out: "sys_ok ls out pv s \<Longrightarrow> b \<in> set (drv s) \<Longrightarrow> b \<in> out"
  using parts_in [OF sys_okD(2), of ls out pv s b HDrv] by simp

lemma drv_keep:
  assumes "sys_ok ls out pv s" and "io_step out (io s) ls' out' k" and "b \<in> set (drv s)" and "b \<in> out'"
  shows "room_ok (cb k b)"
  using assms drv_out [OF assms(1,3)] sys_okD(4) [OF assms(1,3)] unfolding io_step_def by blast

lemma intr_effect:
  assumes inv: "sys_ok ls out pv s" and e: "effect ls out (io s) p q ls' out k"
  shows "sys_ok ls' out pv (ret r k s)"
proof -
  note st = effect_step [OF e]
  have "sys_ok ls' out pv (ret r k (s\<lparr>drv := drv s\<rparr>))"
    by (rule drv_step [OF inv st(1,2) sys_okD(2) [OF inv] _ st(3)]) (rule drv_keep [OF inv st(1)], simp, rule drv_out [OF inv])
  then show ?thesis by simp
qed

lemma intr_gives:
  assumes inv: "sys_ok ls out pv s" and st: "io_step out (io s) ls' (insert b out) k" "grows ls ls'" "pincreq k = pincreq (io s)"
    and b: "b \<notin> out" "room_ok (cb k b)"
  shows "sys_ok ls' (insert b out) pv (ret r k (s\<lparr>drv := b # drv s\<rparr>))"
proof (rule drv_step [OF inv st(1,2) _ _ st(3)])
  show "parts (holds (b # drv s) pv) (insert b out)"
    using parts_add [OF sys_okD(2) [OF inv] b(1), of HDrv] holds_drv [of "b # drv s" pv "drv s"] by simp
  show "room_ok (cb k i)" if "i \<in> set (b # drv s)" for i
    using that b(2) drv_keep [OF inv st(1), of i] drv_out [OF inv, of i] by auto
qed

lemma intr_takes:
  assumes inv: "sys_ok ls out pv s" and st: "io_step out (io s) ls' (out - {b}) k" "grows ls ls'" "pincreq k = pincreq (io s)"
    and b: "b \<in> set (drv s)"
  shows "sys_ok ls' (out - {b}) pv (ret r k (s\<lparr>drv := remove1 b (drv s)\<rparr>))"
proof (rule drv_step [OF inv st(1,2) _ _ st(3)])
  note pt = sys_okD(2) [OF inv]
  show "parts (holds (remove1 b (drv s)) pv) (out - {b})"
    using parts_del [OF pt, of b HDrv] b holds_drv [of "remove1 b (drv s)" pv "drv s"] by simp
  have "distinct (drv s)" using pt by (auto simp: parts_def dest: spec [of _ HDrv])
  then show "room_ok (cb k i)" if "i \<in> set (remove1 b (drv s))" for i
    using that drv_keep [OF inv st(1), of i] drv_out [OF inv, of i] by auto
qed

text \<open>Writing a cblock that is out changes nothing the invariant says of lists.\<close>

lemma own_write:
  assumes ok: "cio_ok ls out k" and b: "b \<in> out"
    and f: "\<And>r. c_flags (f r) = c_flags r" "length (c_data (f (cb k b))) = CLSIZE"
  shows "cio_ok ls out (set_cb b f k)" and "\<forall>i. i \<noteq> b \<longrightarrow> cb (set_cb b f k) i = cb k i" and "cb (set_cb b f k) b = f (cb k b)"
proof -
  let ?k = "set_cb b f k"
  note d = cio_okD [OF ok] and len = out_length [OF ok b]
  show cb: "\<forall>i. i \<noteq> b \<longrightarrow> cb ?k i = cb k i" "cb ?k b = f (cb k b)" using len by (simp_all add: cb_set_cb)
  have nb: "b \<notin> set (ls pl)" for pl using linkedD(3) [OF d(1)] b by blast
  have "head ?k = head k" by (rule ext, rename_tac pl, case_tac pl) auto
  moreover have "(\<lambda>i. c_next (cb ?k i)) = (\<lambda>i. c_next (cb k i))(b := c_next (f (cb k b)))" using cb by (auto simp: fun_eq_iff)
  ultimately have "linked (\<lambda>i. c_next (cb ?k i)) (head ?k) ls out" using linked_own [OF d(1) b] by simp
  moreover have "array_ok ls out ?k" using d(2) by (simp add: array_ok_def)
  moreover have "c_flags (cb ?k i) = c_flags (cb k i)" for i using f(1) by (simp add: cb_set_cb len)
  then have "blocks_ok ls out ?k" using d(3) f(2) unfolding blocks_ok_def by (simp add: cb_set_cb len)
  moreover have "free_ok ls ?k" using d(4) by (simp add: free_ok_def)
  moreover have "list_ok ?k (ls (PQ p)) (cl ?k p)" if "p < length (clists ?k)" for p
  proof -
    have "\<forall>i \<in> set (ls (PQ p)). cb ?k i = cb k i" using cb(1) nb [of "PQ p"] by metis
    moreover from this have "content ?k (ls (PQ p)) = content k (ls (PQ p))" by (intro content_cong) simp
    ultimately show ?thesis using d(5) [of p] that by (simp add: list_ok_def)
  qed
  ultimately show "cio_ok ls out ?k" unfolding cio_ok_def by blast
qed

lemma getcf_init_ok:
  assumes ok: "cio_ok ls out k" and b: "b \<in> out"
  shows "cio_ok ls out (getcf_init b k)" and "\<And>i. i \<noteq> b \<Longrightarrow> cb (getcf_init b k) i = cb k i" and "room_ok (cb (getcf_init b k) b)"
    and "pincreq (getcf_init b k) = pincreq k" "cmax (getcf_init b k) = cmax k" "clists (getcf_init b k) = clists k"
    "waiters (getcf_init b k) = waiters k"
  using own_write [OF ok b, of "\<lambda>r. r\<lparr>c_next := None, c_first := 0, c_last := CLSIZE\<rparr>"] out_data [OF ok b]
  by (simp_all add: getcf_init_def room_ok_def CLSIZE_def)

definition call_legal :: "ccall \<Rightarrow> bool" where
  "call_legal c =
     (case c of Getcbp p n \<Rightarrow> 0 \<le> n | Putcbp p cp n \<Rightarrow> 0 \<le> n \<and> n \<le> int (length cp)
      | Fill b f l xs \<Rightarrow> f < l \<and> l \<le> CLSIZE \<and> length xs = CLSIZE | Pincf d \<Rightarrow> d < 2 ^ 30 | _ \<Rightarrow> True)"

lemma getcf_got:
  assumes g: "got ls out b k ls' k'" and ok: "cio_ok ls out k"
  shows "io_step out k ls' (insert b out) (getcf_init b k')" "pincreq (getcf_init b k') = pincreq k" "room_ok (cb (getcf_init b k') b)"
proof -
  note st = got_step [OF g ok] and d = gotD [OF g]
  note i = getcf_init_ok [OF d(1) insertI1]
  show "room_ok (cb (getcf_init b k') b)" "pincreq (getcf_init b k') = pincreq k" using i st by simp_all
  have "cb (getcf_init b k') j = cb k' j" if "j \<in> out" for j using that st(3) by (intro i(2)) blast
  with st i show "io_step out k ls' (insert b out) (getcf_init b k')" unfolding io_step_def by auto
qed

lemma intr_Getcf:
  assumes inv: "sys_ok ls out pv s"
  shows "\<exists>ls' out' s'. intr_call Getcf s = Some s' \<and> sys_ok ls' out' pv s'"
proof (cases "ls PPin = []")
  case True
  then have "intr_call Getcf s = Some (ret (RBlock None) (io s) s)"
    using get_pinned_ok [OF sys_okD(1) [OF inv]] by (simp add: intr_call_def getcf_def Let_def)
  moreover have "sys_ok ls out pv (ret (RBlock None) (io s) s)" by (rule intr_effect [OF inv effect_refl [OF sys_okD(1) [OF inv]]])
  ultimately show ?thesis by blast
next
  case False
  note ok = sys_okD(1) [OF inv]
  from False get_pinned_ok [OF ok] obtain b ls' k where st: "get_pinned (io s) = Some (k, Some b)"
    and g: "got ls out b (io s) ls' k" "grows ls ls'" by auto
  note f = getcf_got [OF g(1) ok] and n = gotD(2) [OF g(1)]
  from intr_gives [OF inv f(1) g(2) f(2) n f(3)] st show ?thesis by (auto simp: intr_call_def getcf_def Let_def)
qed

lemma intr_Getcb:
  assumes inv: "sys_ok ls out pv s" and p: "p < length (clists (io s))"
  shows "\<exists>ls' out' s'. intr_call (Getcb p) s = Some s' \<and> sys_ok ls' out' pv s'"
proof (cases "content (io s) (ls (PQ p)) = []")
  case True
  with getcb_ok [OF sys_okD(1) [OF inv] p] have "intr_call (Getcb p) s = Some (ret (RBlock None) (io s) s)" by (simp add: intr_call_def Let_def)
  moreover have "sys_ok ls out pv (ret (RBlock None) (io s) s)" by (rule intr_effect [OF inv effect_refl [OF sys_okD(1) [OF inv]]])
  ultimately show ?thesis by blast
next
  case False
  with getcb_ok [OF sys_okD(1) [OF inv] p] obtain b ls' k q where st: "getcb p (io s) = (k, Some b)" "b \<notin> out" "room_ok (cb k b)"
    and e: "effect ls out (io s) p q ls' (insert b out) k" by blast
  from intr_gives [OF inv effect_step [OF e] st(2,3)] st(1) show ?thesis by (auto simp: intr_call_def Let_def)
qed

lemma intr_Putcf:
  assumes inv: "sys_ok ls out pv s" and b: "b \<in> set (drv s)"
  shows "\<exists>ls' out' s'. intr_call (Putcf b) s = Some s' \<and> sys_ok ls' out' pv s'"
proof -
  note ok = sys_okD(1) [OF inv]
  from putcf_ok [OF ok drv_out [OF inv b]] obtain ls' k where st: "putcf b (io s) = Some k" and put: "put_to ls out b (io s) ls' k" by blast
  from intr_takes [OF inv put_step [OF put ok] b] st show ?thesis by (auto simp: intr_call_def Let_def)
qed

lemma intr_Putcb:
  assumes inv: "sys_ok ls out pv s" and b: "b \<in> set (drv s)" and p: "p < length (clists (io s))"
  shows "\<exists>ls' out' s'. intr_call (Putcb b p) s = Some s' \<and> sys_ok ls' out' pv s'"
proof -
  from putcb_ok [OF sys_okD(1) [OF inv] p drv_out [OF inv b] sys_okD(4) [OF inv b]] obtain ls' where
    "effect ls out (io s) p (content (io s) (ls (PQ p)) @ bytes (cb (io s) b)) ls' (out - {b}) (putcb b p (io s))" by blast
  from intr_takes [OF inv effect_step [OF this] b] show ?thesis by (auto simp: intr_call_def Let_def)
qed

lemma intr_Fill:
  assumes inv: "sys_ok ls out pv s" and b: "b \<in> set (drv s)" and l: "f < l" "l \<le> CLSIZE" "length xs = CLSIZE"
  shows "\<exists>ls' out' s'. intr_call (Fill b f l xs) s = Some s' \<and> sys_ok ls' out' pv s'"
proof -
  let ?f = "\<lambda>r. r\<lparr>c_first := f, c_last := l, c_data := xs\<rparr>" and ?k = "set_cb b (\<lambda>r. r\<lparr>c_first := f, c_last := l, c_data := xs\<rparr>) (io s)"
  note w = own_write [OF sys_okD(1) [OF inv] drv_out [OF inv b], of ?f, simplified, OF l(3)]
  have r: "room_ok (cb ?k b)" unfolding w(3) using l by (simp add: room_ok_def)
  have k: "c_next (cb ?k i) = c_next (cb (io s) i) \<and> room_ok (cb ?k i) = room_ok (cb (io s) i)" for i
    using w(2,3) r sys_okD(4) [OF inv b] by (cases "i = b") simp_all
  then have "io_step out (io s) ls out ?k" using w(1) by (simp add: io_step_def)
  from drv_step [OF inv this grows_refl sys_okD(2) [OF inv] drv_keep [OF inv this _ drv_out [OF inv]]]
  have "sys_ok ls out pv (ret RVoid ?k (s\<lparr>drv := drv s\<rparr>))" by simp
  then show ?thesis by (auto simp: intr_call_def Let_def)
qed

lemma intr_call_ok:
  assumes inv: "sys_ok ls out pv s" and al: "allowed c s" and lg: "call_legal c" and np: "\<And>d. c \<noteq> Pincf d"
  shows "\<exists>ls' out' s'. intr_call c s = Some s' \<and> sys_ok ls' out' pv s'"
proof -
  note ok = sys_okD(1) [OF inv]
  have eff: "\<exists>ls' out'. sys_ok ls' out' pv (ret r k s)" if "effect ls out (io s) p q ls' out k" for r k p q ls'
    using intr_effect [OF inv that] by blast
  show ?thesis
  proof (cases c)
    case Getcf
    then show ?thesis using intr_Getcf [OF inv] by simp
  next
    case (Putcf b)
    then show ?thesis using intr_Putcf [OF inv, of b] al by (simp add: allowed_def)
  next
    case (Getcx p)
    with getcx_ok [OF ok, of p] al show ?thesis by (auto simp: allowed_def intr_call_def intro: eff)
  next
    case (Putcx ch p)
    with putcx_ok [OF ok, of p ch] al effect_refl [OF ok, of p] show ?thesis by (auto simp: allowed_def intr_call_def intro: eff)
  next
    case (Getc p)
    with getc_ok [OF ok, of p] al show ?thesis by (auto simp: allowed_def intr_call_def intro: eff)
  next
    case (Putc ch p)
    with putc_ok [OF ok, of p ch] al effect_refl [OF ok, of p] show ?thesis by (auto simp: allowed_def intr_call_def intro: eff)
  next
    case (Putcfl p)
    with putcfl_ok [OF ok, of p] al show ?thesis by (auto simp: allowed_def intr_call_def intro: eff)
  next
    case (Getcb p)
    then show ?thesis using intr_Getcb [OF inv, of p] al by (simp add: allowed_def)
  next
    case (Putcb b p)
    then show ?thesis using intr_Putcb [OF inv, of b p] al by (simp add: allowed_def)
  next
    case (Getcbp p n)
    with getcbp_ok [OF ok, of p n] al lg show ?thesis by (auto simp: allowed_def call_legal_def intr_call_def intro: eff)
  next
    case (Putcbp p cp n)
    with putcbp_ok [OF ok, of p n cp] al lg show ?thesis by (auto simp: allowed_def call_legal_def intr_call_def intro: eff)
  next
    case Waitcfree
    then show ?thesis using eff [OF effect_refl [OF ok]] by (auto simp: intr_call_def Let_def)
  next
    case (Pincf d)
    with np show ?thesis by blast
  next
    case (Fill b f l xs)
    then show ?thesis using intr_Fill [OF inv, of b f l xs] al lg by (simp add: allowed_def call_legal_def)
  qed
qed

end
