(* ===== verification/ClistRun.thy ===== *)
theory ClistRun
  imports ClistHold
begin

text \<open>
  Every step of a thread succeeds and keeps the invariant: no assertion of the code fails, whatever the
  order in which threads and interrupt handlers run.
\<close>

section \<open>A thread between two states\<close>

lemma cio_ok_pincreq: "cio_ok ls out (k\<lparr>pincreq := x\<rparr>) = cio_ok ls out k"
proof -
  have "head (k\<lparr>pincreq := x\<rparr>) = head k" by (rule ext, rename_tac pl, case_tac pl) auto
  moreover have "content (k\<lparr>pincreq := x\<rparr>) bs = content k bs" for bs by (simp add: content_def)
  ultimately show ?thesis by (simp add: cio_ok_def array_ok_def blocks_ok_def free_ok_def list_ok_def)
qed

lemma thr_ok_same:
  "cblocks k' = cblocks k \<Longrightarrow> length (clists k') = length (clists k) \<Longrightarrow> thr_ok ls k' m l t vs x = thr_ok ls k m l t vs x"
  by (cases x) simp_all

lemma sys_ok_waiters: "sys_ok ls out pv (s\<lparr>io := (io s)\<lparr>waiters := w\<rparr>\<rparr>) = sys_ok ls out pv s"
  using thr_ok_same [of "(io s)\<lparr>waiters := w\<rparr>" "io s"] by (simp add: sys_ok_def cio_ok_waiters)

lemma sys_ok_res: "sys_ok ls out pv (s\<lparr>res := r\<rparr>) = sys_ok ls out pv s"
  by (simp add: sys_ok_def)

text \<open>
  Between two states a thread counts as idle. From there it may take any state that holds no cblock, with or without
  the lock of \<open>pincf\<close>.
\<close>

abbreviation idle :: "nat \<Rightarrow> csys \<Rightarrow> csys" where
  "idle t s \<equiv> set_thr t TIdle s"

lemma thr_simps [simp]:
  "io (set_thr t x s) = io s" "drv (set_thr t x s) = drv s" "maint (set_thr t x s) = maint s" "plock (set_thr t x s) = plock s"
  "thr (set_thr t x s) = (thr s)[t := x]" "res (set_thr t x s) = res s"
  by (simp_all add: set_thr_def)

lemma idleD:
  assumes "sys_ok ls out pv (idle t s)" and "t < length (thr s)"
  shows "pv t = []" and "maint s \<noteq> Some t" and "plock s \<noteq> Some t"
  using sys_okD(5) [OF assms(1), of t] assms(2) by simp_all

lemma from_idle:
  assumes inv: "sys_ok ls out pv (idle t s)" and t: "t < length (thr s)"
    and new: "thr_ok ls (io s) m l t [] x"
    and m: "\<And>t'. t' \<noteq> t \<Longrightarrow> (m = Some t') = (maint s = Some t')" and l: "\<And>t'. t' \<noteq> t \<Longrightarrow> (l = Some t') = (plock s = Some t')"
    and pr: "sum_list (map reserved (thr (idle t s))) + reserved x \<le> pincreq (io s)"
  shows "sys_ok ls out pv (s\<lparr>thr := (thr s)[t := x], maint := m, plock := l, res := r\<rparr>)"
proof -
  note d = sys_okD [OF inv, simplified]
  have st: "io_step out (io (idle t s)) ls out (io s)" using d(1) by (simp add: io_step_def)
  have pvt: "pv(t := []) = pv" using idleD(1) [OF inv t] by (simp add: fun_upd_idem)
  have *: "sys_ok ls out (pv(t := [])) \<lparr>io = io s, drv = drv s, thr = (thr (idle t s))[t := x], maint = m, plock = l, res = r\<rparr>"
  proof (rule thread_step [OF inv _ st])
    show "parts (holds (drv s) (pv(t := []))) out" unfolding pvt by (rule d(2))
  qed (use t d new m l pr in auto)
  have eq: "s\<lparr>thr := (thr s)[t := x], maint := m, plock := l, res := r\<rparr>
      = \<lparr>io = io s, drv = drv s, thr = (thr s)[t := x], maint = m, plock = l, res = r\<rparr>"
    by (rule csys.equality) simp_all
  show ?thesis unfolding eq using * by (simp add: pvt)
qed

lemma idle_state:
  assumes inv: "sys_ok ls out pv (idle t s)" and t: "t < length (thr s)"
    and x: "thr_ok ls (io s) (maint s) (plock s) t [] x" "reserved x = 0"
  shows "sys_ok ls out pv (set_thr t x s)"
proof -
  have "sys_ok ls out pv (s\<lparr>thr := (thr s)[t := x], maint := maint s, plock := plock s, res := res s\<rparr>)"
    by (rule from_idle [OF inv t x(1)]) (use sys_okD(6) [OF inv] x(2) in simp_all)
  then show ?thesis by (simp add: set_thr_def)
qed

lemma idle_end: "sys_ok ls out pv (idle t s) \<Longrightarrow> sys_ok ls out pv (end_call t r s)"
  by (simp add: end_call_def sys_ok_res)

lemma idle_want:
  assumes "sys_ok ls out pv (idle t s)" and "t < length (thr s)" and "cont_ok (length (clists (io s))) c" and "\<not> is_pincf c"
  shows "sys_ok ls out pv (set_thr t (TWant c) s)"
  by (rule idle_state [OF assms(1,2)]) (use assms idleD [OF assms(1,2)] in \<open>cases c; simp\<close>)+

lemma idle_sleep:
  assumes inv: "sys_ok ls out pv (idle t s)" and t: "t < length (thr s)"
  shows "sys_ok ls out pv (sleep t s)"
proof -
  let ?s = "s\<lparr>io := (io s)\<lparr>waiters := t # waiters (io s)\<rparr>\<rparr>"
  have "sys_ok ls out pv (set_thr t TSleep s)" by (rule idle_state [OF inv t]) (use idleD [OF inv t] in simp_all)
  then have "sys_ok ls out pv ((set_thr t TSleep s)\<lparr>io := (io (set_thr t TSleep s))\<lparr>waiters := t # waiters (io s)\<rparr>\<rparr>)"
    unfolding sys_ok_waiters .
  also have "(set_thr t TSleep s)\<lparr>io := (io (set_thr t TSleep s))\<lparr>waiters := t # waiters (io s)\<rparr>\<rparr> = sleep t s"
    by (simp add: sleep_def set_thr_def)
  finally show ?thesis .
qed

lemma idle_w_outer: "sys_ok ls out pv (idle t s) \<Longrightarrow> t < length (thr s) \<Longrightarrow> sys_ok ls out pv (w_outer t s)"
  by (simp add: w_outer_def idle_sleep idle_end)

lemma idle_w_inner: "sys_ok ls out pv (idle t s) \<Longrightarrow> t < length (thr s) \<Longrightarrow> sys_ok ls out pv (w_inner t s)"
  by (simp add: w_inner_def idle_w_outer idle_want)

lemma idle_fail:
  assumes inv: "sys_ok ls out pv (idle t s)" and t: "t < length (thr s)" and c: "\<not> is_pincf c"
  shows "sys_ok ls out pv (cont_fail t c s)"
  using idle_end [OF inv] idle_w_outer [OF inv t] idle_sleep [OF inv t] c by (cases c) (simp_all add: cont_fail_def)

section \<open>putcbp\<close>

lemma fill_base_ok:
  assumes "cio_ok ls out s" and "p < length (clists s)" and "length cp < f"
  shows "\<exists>s' done' rest. fill_base f p cp s = Some (s', rest) \<and> cp = done' @ rest
    \<and> effect ls out s p (content s (ls (PQ p)) @ done') ls out s' \<and> (rest \<noteq> [] \<longrightarrow> need_back p s')"
  using assms
proof (induction f arbitrary: cp s)
  case (Suc f)
  note ok = Suc.prems(1) and p = Suc.prems(2)
  show ?case
  proof (cases "cp = [] \<or> need_back p s")
    case True
    with effect_refl [OF ok, of p] show ?thesis by auto
  next
    case False
    from fill_old [OF ok p, of cp] False obtain b xs rest s1 where st: "c_cl (cl s p) = Some b" "fill p b cp s = (s1, rest)"
      and xs: "cp = xs @ rest" "xs \<noteq> []" and e: "effect ls out s p (content s (ls (PQ p)) @ xs) ls out s1" by blast
    have "cio_ok ls out s1" "p < length (clists s1)" "content s1 (ls (PQ p)) = content s (ls (PQ p)) @ xs" "length rest < f"
      using e p xs Suc.prems(3) by (auto simp: effect_def neq_Nil_conv)
    with Suc.IH [of s1 rest] obtain s2 d r where "fill_base f p rest s1 = Some (s2, r)" "rest = d @ r"
      "effect ls out s1 p (content s (ls (PQ p)) @ xs @ d) ls out s2" "r \<noteq> [] \<longrightarrow> need_back p s2" by auto
    with st xs False effect_trans [OF e] show ?thesis by (intro exI [of _ s2] exI [of _ "xs @ d"] exI [of _ r]) auto
  qed
qed simp

text \<open>A step on a list by a thread that counts as idle.\<close>

lemma idle_io:
  assumes inv: "sys_ok ls out pv (idle t s)" and t: "t < length (thr s)" and e: "effect ls out (io s) p q ls' out k"
  shows "sys_ok ls' out pv (idle t (s\<lparr>io := k\<rparr>))"
proof -
  have "sys_ok ls' out pv (ret RVoid k (idle t s))" by (rule intr_effect [OF inv]) (use e in simp)
  then have "sys_ok ls' out pv ((ret RVoid k (idle t s))\<lparr>res := res s\<rparr>)" unfolding sys_ok_res .
  moreover have "(ret RVoid k (idle t s))\<lparr>res := res s\<rparr> = idle t (s\<lparr>io := k\<rparr>)"
    by (rule csys.equality) (simp_all add: ret_def)
  ultimately show ?thesis by simp
qed

lemma idle_putcbp:
  assumes inv: "sys_ok ls out pv (idle t s)" and t: "t < length (thr s)" and p: "p < length (clists (io s))"
  shows "\<exists>s'. putcbp_base t p cp n s = Some s' \<and> sys_ok ls out pv s'"
proof -
  have ok: "cio_ok ls out (io s)" using sys_okD(1) [OF inv] by simp
  from fill_base_ok [OF ok p, of cp "Suc (length cp)"] obtain k d rest where
    st: "fill_base (Suc (length cp)) p cp (io s) = Some (k, rest)"
    and e: "effect ls out (io s) p (content (io s) (ls (PQ p)) @ d) ls out k" by auto
  note i = idle_io [OF inv t e]
  have "p < length (clists k)" using p e by (simp add: effect_def)
  then have "rest \<noteq> [] \<Longrightarrow> sys_ok ls out pv (set_thr t (TWant (KPutcbp p rest n)) (s\<lparr>io := k\<rparr>))"
    by (intro idle_want [OF i]) (use t in simp_all)
  with st idle_end [OF i] show ?thesis by (auto simp: putcbp_base_def simp del: fill_base.simps)
qed

section \<open>Steps\<close>

lemma step_ok:
  assumes inv: "sys_ok ls out pv s" and t: "t < length (thr s)" and st: "io_step out (io s) ls' out' k"
    and pt: "parts (holds dr (pv(t := vs))) out'" and rm: "\<And>b. b \<in> set dr \<Longrightarrow> room_ok (cb k b)"
    and gr: "grows ls ls' \<or> maint s = Some t"
    and s': "io s' = k" "drv s' = dr" "thr s' = (thr s)[t := x]"
    and m: "\<And>t'. t' \<noteq> t \<Longrightarrow> (maint s' = Some t') = (maint s = Some t')"
    and l: "\<And>t'. t' \<noteq> t \<Longrightarrow> (plock s' = Some t') = (plock s = Some t')"
    and new: "thr_ok ls' k (maint s') (plock s') t vs x"
    and pr: "sum_list (map reserved (thr s)) + (reserved x - reserved (thr s ! t)) \<le> pincreq k" "pincreq k \<le> cmax k - LEFT_OVER"
  shows "sys_ok ls' out' (pv(t := vs)) s'"
proof -
  have "s' = \<lparr>io = k, drv = dr, thr = (thr s)[t := x], maint = maint s', plock = plock s', res = res s'\<rparr>"
    by (rule csys.equality) (simp_all add: s')
  with thread_step [OF inv t st pt rm gr m l new pr, of "res s'"] show ?thesis by simp
qed

lemma io_step_refl: "sys_ok ls out pv s \<Longrightarrow> io_step out (io s) ls out (io s)"
  using sys_okD(1) by (simp add: io_step_def)

lemma io_step_pincreq: "io_step out k0 ls' out' (k\<lparr>pincreq := x\<rparr>) = io_step out k0 ls' out' k"
  by (simp add: io_step_def cio_ok_pincreq)

lemma keeps_room:
  assumes inv: "sys_ok ls out pv s" and st: "io_step out (io s) ls' out' k" and "set (drv s) \<subseteq> out'"
  shows "b \<in> set (drv s) \<Longrightarrow> room_ok (cb k b)"
  using drv_keep [OF inv st] assms(3) by blast

lemma reserved_cont [simp]: "reserved (TPin c anch bp) = reserved (TWant c)" "reserved (TGot c b) = reserved (TWant c)"
  by (cases c; simp)+

lemma reserved_plain: "\<not> is_pincf c \<Longrightarrow> reserved (TWant c) = 0"
  by (cases c) simp_all

lemma look_ok:
  assumes inv: "sys_ok ls out pv s" and t: "t < length (thr s)" and th: "thr s ! t = TWant c" and m: "maint s = None"
    and look: "gu_look (io s) = (anch, bp)"
  shows "sys_ok ls out (pv(t := [])) (set_thr t (TPin c anch bp) (s\<lparr>maint := Some t\<rparr>))"
proof -
  note d = sys_okD [OF inv]
  have x: "thr_ok ls (io s) (maint s) (plock s) t (pv t) (TWant c)" using d(5) [OF t] th by simp
  then have pv: "pv(t := []) = pv" by (simp add: fun_upd_idem)
  have b: "b \<in> set (ls (unpinned_at anch))" if "bp = Some b" for b using gu_look_ok [OF d(1)] look that by blast
  show ?thesis
    by (rule step_ok [OF inv t io_step_refl [OF inv], where x = "TPin c anch bp"]) (use d b x m th pv in auto)
qed

text \<open>A thread gives back what it holds and counts as idle.\<close>

lemma to_idle:
  assumes inv: "sys_ok ls out pv s" and t: "t < length (thr s)" and st: "io_step out (io s) ls' out' k"
    and pt: "parts (holds dr (pv(t := []))) out'" and rm: "\<And>b. b \<in> set dr \<Longrightarrow> room_ok (cb k b)"
    and gr: "grows ls ls' \<or> maint s = Some t" and pl: "plock s \<noteq> Some t" and pq: "pincreq k = pincreq (io s)"
    and s': "io s' = k" "drv s' = dr" "thr s' = thr s" "maint s' = (if maint s = Some t then None else maint s)" "plock s' = plock s"
  shows "sys_ok ls' out' (pv(t := [])) (idle t s')"
proof -
  note d = sys_okD [OF inv]
  have "cmax k = cmax (io s)" using st by (simp add: io_step_def)
  moreover have "0 \<le> reserved (thr s ! t)" by (rule reserved_pos [OF d(5) [OF t]])
  ultimately show ?thesis
    by (intro step_ok [OF inv t st pt rm gr, where x = TIdle]) (use s' pl pq d(6,7) in auto)
qed

lemma holds_give: "holds dr (pv(t := [])) = (holds dr pv)(HThr t := [])"
  by (rule holds_thr)

lemma got_idle:
  assumes inv: "sys_ok ls out pv s" and t: "t < length (thr s)" and th: "thr s ! t = TGot c b" and c: "\<not> is_pincf c"
    and st: "io_step out (io s) ls' (out - {b}) k" "grows ls ls'" "pincreq k = pincreq (io s)"
  shows "sys_ok ls' (out - {b}) (pv(t := [])) (idle t (s\<lparr>io := k\<rparr>))"
proof -
  note d = sys_okD [OF inv]
  have x: "pv t = [b]" "maint s \<noteq> Some t" "plock s \<noteq> Some t" using d(5) [OF t] th c by auto
  have pt: "parts (holds (drv s) (pv(t := []))) (out - {b})"
    using parts_del [OF d(2), of b "HThr t"] x(1) by (simp add: holds_thr)
  have "set (drv s) \<subseteq> out - {b}" using parts_in [OF pt, of _ HDrv] by auto
  from keeps_room [OF inv st(1) this] show ?thesis by (intro to_idle [OF inv t st(1) pt]) (use st x in simp_all)
qed

lemma got_out: "sys_ok ls out pv s \<Longrightarrow> t < length (thr s) \<Longrightarrow> thr s ! t = TGot c b \<Longrightarrow> b \<in> out"
  using sys_okD(5) [of ls out pv s t] parts_in [OF sys_okD(2), of ls out pv s b "HThr t"] by simp

section \<open>A thread that got its cblock\<close>

lemma got_Getcf:
  assumes inv: "sys_ok ls out pv s" and t: "t < length (thr s)" and th: "thr s ! t = TGot KGetcf b"
  shows "\<exists>ls' out' pv' s'. cont_got t KGetcf b s = Some s' \<and> sys_ok ls' out' pv' s'"
proof -
  note d = sys_okD [OF inv]
  have x: "pv t = [b]" "maint s \<noteq> Some t" "plock s \<noteq> Some t" using d(5) [OF t] th by auto
  have b: "b \<in> out" by (rule got_out [OF inv t th])
  note g = getcf_init_ok [OF d(1) b]
  have nd: "b \<notin> set (drv s)" using parts_one [OF d(2), of b "HThr t" HDrv] x(1) by auto
  have st: "io_step (out - {b}) (io s) ls out (getcf_init b (io s))" unfolding io_step_def using g by auto
  have "holds (b # drv s) (pv(t := [])) = (holds (drv s) pv)(HThr t := remove1 b (pv t), HDrv := b # drv s)"
    using x(1) holds_drv [of "b # drv s" "pv(t := [])" "drv s"] holds_thr [of "drv s" pv t "[]"] by simp
  then have pt: "parts (holds (b # drv s) (pv(t := []))) out"
    using parts_move [OF d(2), of b "HThr t" HDrv] x(1) by simp
  have rm: "room_ok (cb (getcf_init b (io s)) i)" if "i \<in> set (b # drv s)" for i
    using that g(2,3) d(4) [of i] by (cases "i = b") auto
  let ?s' = "end_call t (RBlock (Some b)) (s\<lparr>io := getcf_init b (io s), drv := b # drv s\<rparr>)"
  have "sys_ok ls out (pv(t := [])) ?s'"
  proof -
    have *: "thr_ok ls (getcf_init b (io s)) (maint s) (plock s) t' (pv t') (thr s ! t')" if "t' < length (thr s)" "t' \<noteq> t" for t'
    proof (rule thr_ok_mono [OF d(5) [OF that(1)]])
      have "b \<notin> set (pv t')" using parts_one [OF d(2), of b "HThr t" "HThr t'"] x(1) that(2) by auto
      then show "c_next (cb (getcf_init b (io s)) i) = c_next (cb (io s) i)" if "i \<in> set (pv t')" for i using that by (subst g(2)) auto
    qed (use g in simp_all)
    have "sum_list (map reserved ((thr s)[t := TIdle])) = sum_list (map reserved (thr s))" using sum_reserved [OF t] th by simp
    then show ?thesis unfolding sys_ok_def end_call_def using * g pt rm d x t by (auto simp: nth_list_update)
  qed
  then show ?thesis by (auto simp: cont_got_def Let_def)
qed

lemma got_list:
  assumes inv: "sys_ok ls out pv s" and t: "t < length (thr s)" and th: "thr s ! t = TGot c b" and c: "\<not> is_pincf c"
    and e: "effect ls out (io s) p q ls' (out - {b}) k"
  shows "sys_ok ls' (out - {b}) (pv(t := [])) (idle t (s\<lparr>io := k\<rparr>))"
  by (rule got_idle [OF inv t th c effect_step [OF e]])

lemma got_Putcbp:
  assumes inv: "sys_ok ls out pv s" and t: "t < length (thr s)" and th: "thr s ! t = TGot (KPutcbp p rest n) b"
  shows "\<exists>ls' out' pv' s'. cont_got t (KPutcbp p rest n) b s = Some s' \<and> sys_ok ls' out' pv' s'"
proof -
  note d = sys_okD [OF inv] and b = got_out [OF inv t th]
  have p: "p < length (clists (io s))" "rest \<noteq> []" using d(5) [OF t] th by simp_all
  have "c_last (cb (link_back p b (io s)) b) < CLSIZE" using link_back_block(2) [OF d(1) p(1) b] by (simp add: CLSIZE_def)
  from fill_append [OF this p(2), of p] obtain xs r where f: "fill p b rest (link_back p b (io s)) = (append_to xs p b (link_back p b (io s)), r)"
    "xs \<noteq> []" "length xs \<le> CLSIZE" by auto
  let ?k = "append_to xs p b (link_back p b (io s))"
  note e = append_new [OF d(1) p(1) b f(2,3)]
  have i: "sys_ok (ls(PQ p := ls (PQ p) @ [b])) (out - {b}) (pv(t := [])) (idle t (s\<lparr>io := ?k\<rparr>))" by (rule got_list [OF inv t th _ e]) simp
  have "p < length (clists ?k)" using p(1) e by (simp add: effect_def)
  with idle_putcbp [OF i, of p r n] t f(1) show ?thesis by (auto simp: cont_got_def Let_def)
qed

lemma cont_got_ok:
  assumes inv: "sys_ok ls out pv s" and t: "t < length (thr s)" and th: "thr s ! t = TGot c b" and c: "\<not> is_pincf c"
  shows "\<exists>ls' out' pv' s'. cont_got t c b s = Some s' \<and> sys_ok ls' out' pv' s'"
proof -
  note d = sys_okD [OF inv] and b = got_out [OF inv t th]
  show ?thesis
  proof (cases c)
    case KGetcf
    with got_Getcf [OF inv t] th show ?thesis by simp
  next
    case (KPutcx ch p)
    then have p: "p < length (clists (io s))" using d(5) [OF t] th by simp
    from idle_end [OF got_list [OF inv t th c store_front_new [OF d(1) p b]]]
    show ?thesis unfolding KPutcx cont_got_def Let_def cont.case by blast
  next
    case (KPutc ch p)
    then have p: "p < length (clists (io s))" using d(5) [OF t] th by simp
    note l = link_back_block [OF d(1) p b]
    have "store_back ch p b (link_back p b (io s)) = append_to [ch] p b (link_back p b (io s))"
      by (rule store_back_append [OF l(1)]) (simp add: l(2) CLSIZE_def)
    then have "cont_got t c b s = Some (end_call t (RInt 0) (s\<lparr>io := append_to [ch] p b (link_back p b (io s))\<rparr>))"
      by (simp add: KPutc cont_got_def)
    moreover have "effect ls out (io s) p (content (io s) (ls (PQ p)) @ [ch]) (ls(PQ p := ls (PQ p) @ [b])) (out - {b})
        (append_to [ch] p b (link_back p b (io s)))" by (rule append_new [OF d(1) p b]) (simp_all add: CLSIZE_def)
    from idle_end [OF got_list [OF inv t th c this]] have
      "sys_ok (ls(PQ p := ls (PQ p) @ [b])) (out - {b}) (pv(t := [])) (end_call t (RInt 0) (s\<lparr>io := append_to [ch] p b (link_back p b (io s))\<rparr>))" .
    ultimately show ?thesis by blast
  next
    case (KPutcbp p rest n)
    with got_Putcbp [OF inv t] th show ?thesis by simp
  next
    case (KPincf r n)
    with c show ?thesis by simp
  next
    case KWait
    from put_pinned_front_ok [OF d(1) b] obtain ls' k where st: "put_pinned_front b (io s) = Some k" and put: "put_to ls out b (io s) ls' k" by blast
    from idle_w_inner [OF got_idle [OF inv t th c put_step [OF put d(1)]]] t st KWait
    show ?thesis by (auto simp: cont_got_def)
  qed
qed

section \<open>pincf\<close>

lemma pincf_end_ok:
  assumes inv: "sys_ok ls out pv s" and t: "t < length (thr s)" and st: "io_step out (io s) ls' out' k"
    and pt: "parts (holds (drv s) (pv(t := []))) out'" and rm: "\<And>b. b \<in> set (drv s) \<Longrightarrow> room_ok (cb k b)"
    and gr: "grows ls ls' \<or> maint s = Some t"
    and s': "io s' = k" "drv s' = drv s" "thr s' = thr s" "plock s' = Some t"
    and m: "maint s' \<noteq> Some t" "\<And>t'. t' \<noteq> t \<Longrightarrow> (maint s' = Some t') = (maint s = Some t')"
    and l: "plock s = Some t \<or> plock s = None"
    and pr: "sum_list (map reserved (thr s)) - reserved (thr s ! t) \<le> pincreq k - delta" "pincreq k - delta \<le> cmax k - LEFT_OVER"
  shows "sys_ok ls' out' (pv(t := [])) (pincf_end t requested delta s')"
proof -
  let ?k = "k\<lparr>pincreq := pincreq k - delta\<rparr>"
  have "sys_ok ls' out' (pv(t := [])) (pincf_end t requested delta s')"
  proof (rule step_ok [OF inv t, where k = ?k and dr = "drv s" and x = TIdle])
    show "io_step out (io s) ls' out' ?k" using st by (simp add: io_step_pincreq)
  qed (use pt rm gr s' m l pr in \<open>auto simp: pincf_end_def end_call_def\<close>)
  then show ?thesis .
qed

lemma pincf_up_ok:
  assumes inv: "sys_ok ls out pv s" and t: "t < length (thr s)" and st: "io_step out (io s) ls' out' k"
    and pt: "parts (holds (drv s) (pv(t := []))) out'" and rm: "\<And>b. b \<in> set (drv s) \<Longrightarrow> room_ok (cb k b)"
    and gr: "grows ls ls' \<or> maint s = Some t"
    and s': "io s' = k" "drv s' = drv s" "thr s' = thr s" "plock s' = Some t"
    and m: "maint s' \<noteq> Some t" "\<And>t'. t' \<noteq> t \<Longrightarrow> (maint s' = Some t') = (maint s = Some t')"
    and l: "plock s = Some t \<or> plock s = None" and pos: "0 \<le> delta"
    and pr: "sum_list (map reserved (thr s)) + (delta - reserved (thr s ! t)) \<le> pincreq k" "pincreq k \<le> cmax k - LEFT_OVER"
  shows "sys_ok ls' out' (pv(t := [])) (pincf_up t requested delta s')"
proof (cases "delta = 0")
  case True
  have "sys_ok ls' out' (pv(t := [])) (pincf_end t requested 0 s')"
    by (rule pincf_end_ok [OF inv t st pt rm gr s' m l]) (use pr True in simp_all)
  with True show ?thesis by (simp add: pincf_up_def)
next
  case False
  have "sys_ok ls' out' (pv(t := [])) (set_thr t (TWant (KPincf requested delta)) s')"
    by (rule step_ok [OF inv t st pt rm gr, where x = "TWant (KPincf requested delta)"]) (use s' m l pr pos False in auto)
  with False show ?thesis by (simp add: pincf_up_def)
qed

lemma int32_id: "- (2 ^ 31) \<le> x \<Longrightarrow> x < 2 ^ 31 \<Longrightarrow> int32 x = x"
  by (simp add: int32_def)

lemma reserved_all:
  assumes inv: "sys_ok ls out pv s"
  shows "0 \<le> sum_list (map reserved (thr s))" and "t < length (thr s) \<Longrightarrow> reserved (thr s ! t) \<le> sum_list (map reserved (thr s))"
proof -
  have pos: "0 \<le> reserved x" if "x \<in> set (thr s)" for x
    using that reserved_pos [OF sys_okD(5) [OF inv]] by (auto simp: in_set_conv_nth)
  then show "0 \<le> sum_list (map reserved (thr s))" by (intro sum_list_nonneg) auto
  assume t: "t < length (thr s)"
  have "sum_list (map reserved ((thr s)[t := TIdle])) \<ge> 0"
    using pos set_update_subset_insert [of "thr s" t TIdle] by (intro sum_list_nonneg) auto
  then show "reserved (thr s ! t) \<le> sum_list (map reserved (thr s))" using sum_reserved [OF t, of TIdle] by simp
qed

lemma pincf_locked_ok:
  assumes inv: "sys_ok ls out pv s" and t: "t < length (thr s)" and th: "thr s ! t = TLockP d" and pl: "plock s = None"
  shows "\<exists>s'. pincf_locked t d (s\<lparr>plock := Some t\<rparr>) = Some s' \<and> sys_ok ls out (pv(t := [])) s'"
proof -
  note i = sys_okD [OF inv]
  let ?k = "io s" and ?s = "s\<lparr>plock := Some t\<rparr>"
  have x: "pv t = []" "maint s \<noteq> Some t" "d < 2 ^ 30" using i(5) [OF t] th by simp_all
  then have pv: "pv(t := []) = pv" by (simp add: fun_upd_idem)
  have st: "io_step out ?k ls out (?k\<lparr>pincreq := y\<rparr>)" for y using io_step_refl [OF inv] by (simp add: io_step_pincreq)
  have pt: "parts (holds (drv s) (pv(t := []))) out" using i(2) pv by simp
  note res = reserved_all [OF inv]
  show ?thesis
  proof (cases "d > 0")
    case True
    define \<delta> where "\<delta> = (if pincreq ?k + d > cmax ?k - LEFT_OVER then cmax ?k - LEFT_OVER - pincreq ?k else d)"
    have \<delta>: "0 \<le> \<delta>" "\<delta> \<le> d" "pincreq ?k + \<delta> \<le> cmax ?k - LEFT_OVER" using True i(7) by (auto simp: \<delta>_def)
    have "0 \<le> pincreq ?k" "pincreq ?k \<le> 2 ^ 30" using res(1) i(6,7,8) by (auto simp: LEFT_OVER_def)
    with x(3) \<delta> True have "int32 (pincreq ?k + d) = pincreq ?k + d" "int32 (pincreq ?k + \<delta>) = pincreq ?k + \<delta>"
      by (auto intro!: int32_id)
    then have go: "pincf_locked t d ?s = Some (pincf_up t \<delta> \<delta> (?s\<lparr>io := ?k\<lparr>pincreq := pincreq ?k + \<delta>\<rparr>\<rparr>))"
      using True by (auto simp: pincf_locked_def Let_def \<delta>_def)
    have "sys_ok ls out (pv(t := [])) (pincf_up t \<delta> \<delta> (?s\<lparr>io := ?k\<lparr>pincreq := pincreq ?k + \<delta>\<rparr>\<rparr>))"
      by (rule pincf_up_ok [OF inv t st pt]) (use i(4,6) x pl th True \<delta> in auto)
    with go show ?thesis by simp
  next
    case False
    have "- d \<le> pincreq ?k" using res(2) [OF t] i(6) th False by (auto split: if_splits)
    then have go: "pincf_locked t d ?s = Some (set_thr t (TDown d d None) (?s\<lparr>io := ?k\<lparr>pincreq := pincreq ?k + d\<rparr>\<rparr>))"
      using False by (simp add: pincf_locked_def Let_def)
    have "sys_ok ls out (pv(t := [])) (set_thr t (TDown d d None) (?s\<lparr>io := ?k\<lparr>pincreq := pincreq ?k + d\<rparr>\<rparr>))"
      by (rule step_ok [OF inv t st [of "pincreq ?k + d"] pt, where x = "TDown d d None"]) (use i(4,6,7) x pl th False in auto)
    with go show ?thesis by simp
  qed
qed

lemma pincf_got_ok:
  assumes inv: "sys_ok ls out pv s" and t: "t < length (thr s)" and th: "thr s ! t = TGot (KPincf r n) b"
  shows "\<exists>ls' out' pv' s'. cont_got t (KPincf r n) b s = Some s' \<and> sys_ok ls' out' pv' s'"
proof -
  note i = sys_okD [OF inv] and b = got_out [OF inv t th]
  have x: "pv t = [b]" "maint s \<noteq> Some t" "plock s = Some t" "0 < n" using i(5) [OF t] th by auto
  from putcf_ok [OF i(1) b] obtain ls' k where st: "putcf b (io s) = Some k" and put: "put_to ls out b (io s) ls' k" by blast
  note p = put_step [OF put i(1)]
  have pt: "parts (holds (drv s) (pv(t := []))) (out - {b})" using parts_del [OF i(2), of b "HThr t"] x(1) by (simp add: holds_thr)
  have sub: "set (drv s) \<subseteq> out - {b}" using parts_in [OF pt, of _ HDrv] by auto
  have "cmax k = cmax (io s)" using p(1) by (simp add: io_step_def)
  then have "sys_ok ls' (out - {b}) (pv(t := [])) (pincf_up t r (n - 1) (s\<lparr>io := k\<rparr>))"
    by (intro pincf_up_ok [OF inv t p(1) pt keeps_room [OF inv p(1) sub]]) (use i(6,7) p x th in auto)
  with st show ?thesis by (auto simp: cont_got_def Let_def)
qed

lemma pincf_down_ok:
  assumes inv: "sys_ok ls out pv s" and t: "t < length (thr s)" and th: "thr s ! t = TDown r n root"
  shows "\<exists>ls' out' pv' s'. pincf_down t r n root s = Some s' \<and> sys_ok ls' out' pv' s' \<and> pincreq (io s') = pincreq (io s)
    \<and> maint s' = maint s \<and> plock s' = plock s \<and> length (thr s') = length (thr s)
    \<and> (thr s' ! t = TGive r root \<and> pv' t = pv t \<or> (\<exists>b. n < 0 \<and> thr s' ! t = TDown r (n + 1) (Some b) \<and> pv' t = b # pv t))"
proof -
  note i = sys_okD [OF inv]
  have x: "path (\<lambda>j. c_next (cb (io s) j)) root (pv t)" "maint s \<noteq> Some t" "plock s = Some t" "n \<le> 0" using i(5) [OF t] th by auto
  have pv: "pv(t := pv t) = pv" by simp
  have give: "sys_ok ls out pv (set_thr t (TGive r root) s)"
    using step_ok [OF inv t io_step_refl [OF inv], where vs = "pv t" and x = "TGive r root" and s' = "set_thr t (TGive r root) s"] i x th by simp
  show ?thesis
  proof (cases "n = 0 \<or> ls PPin = []")
    case True
    with get_pinned_ok [OF i(1)] have "pincf_down t r n root s = Some (set_thr t (TGive r root) s)"
      by (auto simp: pincf_down_def)
    with give t show ?thesis by (intro exI [of _ ls] exI [of _ out] exI [of _ pv]) (simp add: set_thr_def)
  next
    case False
    with get_pinned_ok [OF i(1)] obtain b ls' k where st: "get_pinned (io s) = Some (k, Some b)" and g: "got ls out b (io s) ls' k" "grows ls ls'" by auto
    note gs = got_step [OF g(1) i(1)] and gd = gotD(1) [OF g(1)]
    let ?k = "set_cb b (\<lambda>r. r\<lparr>c_next := root\<rparr>) k"
    note w = own_write [OF gd insertI1, of "\<lambda>r. r\<lparr>c_next := root\<rparr>", simplified, OF out_data [OF gd insertI1]]
    have keep: "cb ?k j = cb k j" if "j \<in> out" for j using w(2) that gs(3) by metis
    have kst: "io_step out (io s) ls' (insert b out) ?k" using gs w keep unfolding io_step_def by auto
    have pt: "parts (holds (drv s) (pv(t := b # pv t))) (insert b out)"
      using parts_add [OF i(2) gs(3), of "HThr t"] by (simp add: holds_thr)
    have "path (\<lambda>j. c_next (cb ?k j)) root (pv t) = path (\<lambda>j. c_next (cb (io s) j)) root (pv t)"
    proof (rule path_cong)
      fix j assume "j \<in> set (pv t)"
      then have "j \<in> out" using parts_in [OF i(2), of j "HThr t"] by simp
      with keep gs(1) show "c_next (cb ?k j) = c_next (cb (io s) j)" by (simp add: io_step_def)
    qed
    then have new: "path (\<lambda>j. c_next (cb ?k j)) (Some b) (b # pv t)" using x(1) w(3) by simp
    have sub: "set (drv s) \<subseteq> insert b out" using parts_in [OF i(2), of _ HDrv] by auto
    let ?s' = "set_thr t (TDown r (n + 1) (Some b)) (s\<lparr>io := ?k\<rparr>)"
    have "cmax k = cmax (io s)" using gs(1) by (simp add: io_step_def)
    then have "sys_ok ls' (insert b out) (pv(t := b # pv t)) ?s'"
      by (intro step_ok [OF inv t kst pt keeps_room [OF inv kst sub], where x = "TDown r (n + 1) (Some b)"])
        (use g(2) new x th False gs(2) i(6,7) in auto)
    moreover have "pincf_down t r n root s = Some ?s'" using False st by (simp add: pincf_down_def)
    moreover have "n < 0" using False x(4) by simp
    ultimately show ?thesis using t gs(2)
      by (intro exI [of _ ls'] exI [of _ "insert b out"] exI [of _ "pv(t := b # pv t)"]) (simp add: set_thr_def)
  qed
qed

lemma pincf_give_ok:
  assumes inv: "sys_ok ls out pv s" and t: "t < length (thr s)" and th: "thr s ! t = TGive r root"
  shows "\<exists>ls' out' pv' s'. pincf_give t r root s = Some s' \<and> sys_ok ls' out' pv' s' \<and> pincreq (io s') = pincreq (io s)
    \<and> maint s' = maint s \<and> length (thr s') = length (thr s)
    \<and> (thr s' ! t = TIdle \<and> plock s' = None
       \<or> (\<exists>root'. thr s' ! t = TGive r root' \<and> plock s' = plock s \<and> length (pv t) = Suc (length (pv' t))))"
proof -
  note i = sys_okD [OF inv]
  have x: "path (\<lambda>j. c_next (cb (io s) j)) root (pv t)" "maint s \<noteq> Some t" "plock s = Some t" using i(5) [OF t] th by auto
  show ?thesis
  proof (cases root)
    case None
    with x(1) have "pv t = []" by (simp add: path_None)
    then have pv: "pv(t := []) = pv" by (simp add: fun_upd_idem)
    have "sys_ok ls out (pv(t := [])) (end_call t (RInt r) (s\<lparr>plock := None\<rparr>))"
      by (rule step_ok [OF inv t io_step_refl [OF inv], where x = TIdle]) (use i x th pv in \<open>auto simp: end_call_def\<close>)
    then show ?thesis using t
      by (intro exI [of _ ls] exI [of _ out] exI [of _ "pv(t := [])"]) (simp add: pincf_give_def None end_call_def set_thr_def)
  next
    case (Some b)
    with x(1) obtain vs where vs: "pv t = b # vs" "path (\<lambda>j. c_next (cb (io s) j)) (c_next (cb (io s) b)) vs" by (auto simp: path_Some)
    have b: "b \<in> out" using parts_in [OF i(2), of b "HThr t"] vs(1) by simp
    from putcf_ok [OF i(1) b] obtain ls' k where st: "putcf b (io s) = Some k" and put: "put_to ls out b (io s) ls' k" by blast
    note p = put_step [OF put i(1)]
    have pt: "parts (holds (drv s) (pv(t := vs))) (out - {b})" using parts_del [OF i(2), of b "HThr t"] vs(1) by (simp add: holds_thr)
    have "path (\<lambda>j. c_next (cb k j)) (c_next (cb (io s) b)) vs = path (\<lambda>j. c_next (cb (io s) j)) (c_next (cb (io s) b)) vs"
    proof (rule path_cong)
      fix j assume "j \<in> set vs"
      then have "j \<in> out" "j \<in> out - {b}" using parts_in [OF i(2), of j "HThr t"] parts_in [OF pt, of j "HThr t"] vs(1) by simp_all
      with p(1) show "c_next (cb k j) = c_next (cb (io s) j)" by (simp add: io_step_def)
    qed
    with vs(2) have new: "path (\<lambda>j. c_next (cb k j)) (c_next (cb (io s) b)) vs" by simp
    have sub: "set (drv s) \<subseteq> out - {b}" using parts_in [OF pt, of _ HDrv] by auto
    have "cmax k = cmax (io s)" using p(1) by (simp add: io_step_def)
    then have "sys_ok ls' (out - {b}) (pv(t := vs)) (set_thr t (TGive r (c_next (cb (io s) b))) (s\<lparr>io := k\<rparr>))"
      by (intro step_ok [OF inv t p(1) pt keeps_room [OF inv p(1) sub], where x = "TGive r (c_next (cb (io s) b))"])
        (use p new x th i(6,7) in auto)
    with st vs(1) t p(3) show ?thesis
      by (intro exI [of _ ls'] exI [of _ "out - {b}"] exI [of _ "pv(t := vs)"]) (simp add: pincf_give_def Some set_thr_def)
  qed
qed

section \<open>Pinning\<close>

lemma pin_fail_ok:
  assumes inv: "sys_ok ls out pv s" and t: "t < length (thr s)" and th: "thr s ! t = TPin c anch bp"
  shows "\<exists>pv'. sys_ok ls out pv' (cont_fail t c (s\<lparr>io := io s, maint := None\<rparr>))"
proof -
  note i = sys_okD [OF inv]
  have x: "pv t = []" "maint s = Some t" "(plock s = Some t) = is_pincf c" "cont_ok (length (clists (io s))) c" using i(5) [OF t] th by auto
  then have pv: "pv(t := []) = pv" by (simp add: fun_upd_idem)
  have pt: "parts (holds (drv s) (pv(t := []))) out" using i(2) pv by simp
  let ?s = "s\<lparr>io := io s, maint := None\<rparr>"
  show ?thesis
  proof (cases "is_pincf c")
    case False
    then have "sys_ok ls out (pv(t := [])) (idle t ?s)"
      by (intro to_idle [OF inv t io_step_refl [OF inv] pt]) (use x i(4) in auto)
    from idle_fail [OF this _ False] t show ?thesis by auto
  next
    case True
    then obtain r n where c: "c = KPincf r n" by (cases c) auto
    with x(4) have "0 < n" by simp
    then have "sys_ok ls out (pv(t := [])) (pincf_end t r n ?s)"
      by (intro pincf_end_ok [OF inv t io_step_refl [OF inv] pt]) (use x th c i(4,6,7) True in auto)
    with c show ?thesis by (auto simp: cont_fail_def)
  qed
qed

lemma pin_got_ok:
  assumes inv: "sys_ok ls out pv s" and t: "t < length (thr s)" and th: "thr s ! t = TPin c anch bp"
    and g: "got ls out b (io s) ls' k"
  shows "sys_ok ls' (insert b out) (pv(t := [b])) (set_thr t (TGot c b) (s\<lparr>io := k, maint := None\<rparr>))"
proof -
  note i = sys_okD [OF inv] and gs = got_step [OF g sys_okD(1) [OF inv]]
  have x: "pv t = []" "maint s = Some t" "(plock s = Some t) = is_pincf c" "cont_ok (length (clists (io s))) c" using i(5) [OF t] th by auto
  have pt: "parts (holds (drv s) (pv(t := [b]))) (insert b out)"
    using parts_add [OF i(2) gs(3), of "HThr t"] x(1) by (simp add: holds_thr)
  have sub: "set (drv s) \<subseteq> insert b out" using parts_in [OF i(2), of _ HDrv] by auto
  have "cmax k = cmax (io s)" "length (clists k) = length (clists (io s))" using gs(1) by (simp_all add: io_step_def)
  then show ?thesis
    by (intro step_ok [OF inv t gs(1) pt keeps_room [OF inv gs(1) sub], where x = "TGot c b"]) (use x th gs(2) i(6,7) in auto)
qed

section \<open>All events\<close>

definition sys_inv :: "csys \<Rightarrow> bool" where
  "sys_inv s \<longleftrightarrow> (\<exists>ls out pv. sys_ok ls out pv s)"

lemma go_ok:
  assumes inv: "sys_ok ls out pv s" and t: "t < length (thr s)"
  shows "\<exists>s'. go t pin_ok s = Some s' \<and> sys_inv s'"
proof (cases "thr s ! t")
  case TIdle
  with inv show ?thesis by (auto simp: go_def sys_inv_def)
next
  case (TLockP d)
  with pincf_locked_ok [OF inv t TLockP] inv show ?thesis by (cases "plock s") (auto simp: go_def sys_inv_def)
next
  case (TWant c)
  obtain anch bp where l: "gu_look (io s) = (anch, bp)" by fastforce
  show ?thesis
  proof (cases "maint s")
    case None
    with look_ok [OF inv t TWant None l] TWant l show ?thesis by (auto simp: go_def sys_inv_def)
  qed (use TWant inv in \<open>auto simp: go_def sys_inv_def\<close>)
next
  case (TPin c anch bp)
  have "b \<in> set (ls (unpinned_at anch))" if "bp = Some b" for b using sys_okD(5) [OF inv t] TPin that by simp
  from gu_rest_ok [OF sys_okD(1) [OF inv], of bp anch pin_ok, OF this]
  consider "gu_rest pin_ok anch bp (io s) = Some (io s, None)"
    | b ls' k where "gu_rest pin_ok anch bp (io s) = Some (k, Some b)" "got ls out b (io s) ls' k" by blast
  then show ?thesis
  proof cases
    case 1
    with pin_fail_ok [OF inv t TPin] TPin show ?thesis by (auto simp: go_def sys_inv_def Let_def)
  next
    case 2
    from pin_got_ok [OF inv t TPin 2(2)] 2(1) TPin show ?thesis by (simp add: go_def sys_inv_def) blast
  qed
next
  case (TGot c b)
  show ?thesis
  proof (cases "is_pincf c")
    case True
    then obtain r n where "c = KPincf r n" by (cases c) auto
    with pincf_got_ok [OF inv t] TGot show ?thesis by (simp add: go_def sys_inv_def) blast
  next
    case False
    with cont_got_ok [OF inv t TGot] TGot show ?thesis by (simp add: go_def sys_inv_def) blast
  qed
next
  case (TDown r n root)
  with pincf_down_ok [OF inv t TDown] show ?thesis by (simp add: go_def sys_inv_def) blast
next
  case (TGive r root)
  with pincf_give_ok [OF inv t TGive] show ?thesis by (simp add: go_def sys_inv_def) blast
next
  case TSleep
  note i = sys_okD [OF inv]
  have x: "pv t = []" "maint s \<noteq> Some t" "plock s \<noteq> Some t" using i(5) [OF t] TSleep by auto
  have "sys_ok ls out (pv(t := [])) (idle t s)"
    by (rule to_idle [OF inv t io_step_refl [OF inv]]) (use x i in \<open>auto simp: fun_upd_idem\<close>)
  from idle_w_inner [OF this t] inv TSleep show ?thesis by (auto simp: go_def sys_inv_def)
qed

lemma base_pincf:
  assumes inv: "sys_ok ls out pv s" and t: "t < length (thr s)" and th: "thr s ! t = TIdle" and al: "allowed (Pincf d) s" "d < 2 ^ 30"
  shows "sys_inv (set_thr t (TLockP d) s)"
proof -
  note i = sys_okD [OF inv]
  have x: "pv t = []" "maint s \<noteq> Some t" "plock s \<noteq> Some t" using i(5) [OF t] th by auto
  have "sys_ok ls out (pv(t := [])) (set_thr t (TLockP d) s)"
    by (rule step_ok [OF inv t io_step_refl [OF inv], where x = "TLockP d"])
      (use x i th al in \<open>auto simp: fun_upd_idem allowed_def\<close>)
  then show ?thesis by (auto simp: sys_inv_def)
qed

lemma base_call_ok:
  assumes inv: "sys_ok ls out pv s" and t: "t < length (thr s)" and th: "thr s ! t = TIdle"
    and al: "allowed c s" and lg: "call_legal c"
  shows "\<exists>s'. base_call t c s = Some s' \<and> sys_inv s'"
proof -
  have "idle t s = s" using th t by (simp add: set_thr_def list_update_same_conv)
  then have idl: "sys_ok ls out pv (idle t s)" using inv by simp
  have intr: "\<exists>s'. intr_call c s = Some s' \<and> sys_inv s'" if "\<And>d. c \<noteq> Pincf d"
    using intr_call_ok [OF inv al lg that] by (auto simp: sys_inv_def)
  have want: "sys_inv (set_thr t (TWant c') s)" if "cont_ok (length (clists (io s))) c'" "\<not> is_pincf c'" for c'
    using idle_want [OF idl t that] by (auto simp: sys_inv_def)
  show ?thesis
  proof (cases c)
    case Getcf
    then show ?thesis using want [of KGetcf] by (simp add: base_call_def)
  next
    case (Putcx ch p)
    then show ?thesis using want [of "KPutcx ch p"] intr al by (simp add: base_call_def allowed_def)
  next
    case (Putc ch p)
    then show ?thesis using want [of "KPutc ch p"] intr al by (simp add: base_call_def allowed_def)
  next
    case (Putcbp p cp n)
    then show ?thesis using idle_putcbp [OF idl t, of p "take (nat n) cp" n] al lg
      by (auto simp: base_call_def allowed_def call_legal_def sys_inv_def)
  next
    case Waitcfree
    then show ?thesis using idle_w_outer [OF idl t] by (auto simp: base_call_def sys_inv_def)
  next
    case (Pincf d)
    then show ?thesis using base_pincf [OF inv t th, of d] al lg by (simp add: base_call_def call_legal_def)
  qed (use intr in \<open>simp_all add: base_call_def\<close>)
qed

text \<open>
  What drivers and interrupt handlers must keep to: lengths that are not negative and not beyond the buffer, cblocks written with at
  least one character, no \<open>pincf\<close> from an interrupt handler and none for \<open>2^30\<close> cblocks.
\<close>

fun from_interrupt :: "ccall \<Rightarrow> bool" where
  "from_interrupt (Pincf d) = False"
| "from_interrupt _ = True"

lemma from_interruptD: "from_interrupt c \<Longrightarrow> c \<noteq> Pincf d"
  by auto

definition clist_legal :: "cev \<Rightarrow> bool" where
  "clist_legal e = (case e of Intr c \<Rightarrow> call_legal c \<and> from_interrupt c | Base t c \<Rightarrow> call_legal c | Go t pin_ok \<Rightarrow> True | Signal t \<Rightarrow> True)"

lemma clist_next_ok:
  assumes lg: "clist_legal e" and "sys_inv s"
  shows "\<exists>s'. clist_next e s = Some s' \<and> sys_inv s'"
proof -
  let ?s = "s\<lparr>res := None\<rparr>"
  obtain ls out pv where inv: "sys_ok ls out pv ?s" using assms(2) by (auto simp: sys_inv_def sys_ok_res)
  have keep: "sys_inv ?s" using inv by (auto simp: sys_inv_def)
  show ?thesis
  proof (cases e)
    case (Intr c)
    show ?thesis
    proof (cases "allowed c ?s")
      case True
      with intr_call_ok [OF inv True] from_interruptD Intr lg show ?thesis
        by (simp add: clist_next_def clist_legal_def sys_inv_def) blast
    qed (use Intr keep in \<open>simp add: clist_next_def\<close>)
  next
    case (Base t c)
    with base_call_ok [OF inv, of t c] lg keep show ?thesis by (auto simp: clist_next_def clist_legal_def Let_def)
  next
    case (Go t pin_ok)
    with go_ok [OF inv, of t pin_ok] keep show ?thesis by (auto simp: clist_next_def Let_def)
  next
    case (Signal t)
    show ?thesis
    proof (cases "t < length (thr s) \<and> thr s ! t = TSleep \<and> t \<in> set (waiters (io s))")
      case True
      note i = sys_okD [OF inv]
      have x: "pv t = []" "maint s \<noteq> Some t" "plock s \<noteq> Some t" using i(5) [of t] True by auto
      let ?w = "?s\<lparr>io := (io s)\<lparr>waiters := filter (\<lambda>x. x \<noteq> t) (waiters (io s))\<rparr>\<rparr>"
      have "sys_ok ls out pv ?w" using inv sys_ok_waiters [where s = ?s and w = "filter (\<lambda>x. x \<noteq> t) (waiters (io s))"] by simp
      from to_idle [OF this _ io_step_refl [OF this], where t = t and dr = "drv s" and s' = ?w] True x sys_okD [OF this]
      have "sys_ok ls out (pv(t := [])) (idle t ?w)" by (auto simp: fun_upd_idem)
      from idle_end [OF this] True Signal show ?thesis by (auto simp: clist_next_def sys_inv_def)
    qed (use Signal keep in \<open>auto simp: clist_next_def\<close>)
  qed
qed

interpretation clist_machine: guarded_machine clist_legal clist_next sys_inv
  by unfold_locales (rule clist_next_ok)

section \<open>The start\<close>

lemma cinit_ok:
  assumes v: "30 \<le> v_clist" "v_clist \<le> 2 ^ 30"
  shows "sys_inv (cinit v_clist nlists threads)"
proof -
  let ?s = "cinit v_clist nlists threads"
  have "head (io ?s) pl = None" for pl by (cases pl) (simp_all add: cinit_def)
  then have "cio_ok (\<lambda>pl. []) {} (io ?s)"
    by (auto simp: cio_ok_def linked_def array_ok_def blocks_ok_def free_ok_def list_ok_def last_opt_def cinit_def)
  moreover have "parts (holds [] (\<lambda>t. [])) {}" by (auto simp: parts_def holds_def split: holder.splits)
  ultimately have "sys_ok (\<lambda>pl. []) {} (\<lambda>t. []) ?s" unfolding sys_ok_def
    using v by (simp add: cinit_def LEFT_OVER_def sum_list_replicate)
  then show ?thesis by (auto simp: sys_inv_def)
qed

end
