(* ===== verification/ClistQueue.thy ===== *)
theory ClistQueue
  imports ClistRun
begin

text \<open>
  Character lists as queues of bytes, and what a call that runs to its end does to them.
\<close>

section \<open>The queue of bytes\<close>

text \<open>The characters of a list, read along its chain, and those of a cblock that a driver holds.\<close>

fun gather :: "nat \<Rightarrow> cio \<Rightarrow> nat option \<Rightarrow> 8 word list" where
  "gather 0 k bp = []"
| "gather (Suc n) k bp = (case bp of None \<Rightarrow> [] | Some b \<Rightarrow> bytes (cb k b) @ gather n k (c_next (cb k b)))"

definition chars :: "csys \<Rightarrow> nat \<Rightarrow> 8 word list" where
  "chars s p = (if p < length (clists (io s)) then gather (length (cblocks (io s))) (io s) (c_cf (cl (io s) p)) else [])"

definition held :: "csys \<Rightarrow> nat \<Rightarrow> 8 word list option" where
  "held s b = (if b \<in> set (drv s) then Some (bytes (cb (io s) b)) else None)"

lemma gather_path: "path (\<lambda>i. c_next (cb k i)) h bs \<Longrightarrow> length bs \<le> n \<Longrightarrow> gather n k h = content k bs"
proof (induction bs arbitrary: n h)
  case Nil
  then show ?case by (cases n) auto
next
  case (Cons b bs)
  then show ?case by (cases n) auto
qed

lemma chars_content:
  assumes ok: "cio_ok ls out (io s)"
  shows "chars s p = content (io s) (ls (PQ p))"
proof (cases "p < length (clists (io s))")
  case True
  with gather_path [OF linkedD(2) [OF cio_okD(1) [OF ok], of "PQ p"] place_length [OF ok, of "PQ p"]]
  show ?thesis by (simp add: chars_def)
next
  case False
  then have "ls (PQ p) = []" using linkedD(2) [OF cio_okD(1) [OF ok], of "PQ p"] by (simp add: path_None)
  with False show ?thesis by (simp add: chars_def)
qed

text \<open>Whether the pinned list has a cblock to give.\<close>

definition spare :: "csys \<Rightarrow> bool" where
  "spare s = (pincfree_next (io s) \<noteq> None)"

lemma spare_ls: "cio_ok ls out (io s) \<Longrightarrow> spare s \<longleftrightarrow> ls PPin \<noteq> []"
  using linkedD(2) [OF cio_okD(1), of ls out "io s" PPin] by (cases "ls PPin") (auto simp: spare_def)

text \<open>
  The abstract queues: for a call \<open>c\<close> with the result \<open>r\<close>, how the lists \<open>q\<close> and the cblocks \<open>h\<close> that the drivers hold
  change, where \<open>f\<close> and \<open>f'\<close> are whether there was and is a spare cblock. Only the lack of one lets a call put less than it was given.
\<close>

definition queue_step :: "ccall \<Rightarrow> cret \<Rightarrow> bool \<Rightarrow> bool \<Rightarrow> (nat \<Rightarrow> 8 word list) \<Rightarrow> (nat \<Rightarrow> 8 word list option)
    \<Rightarrow> (nat \<Rightarrow> 8 word list) \<Rightarrow> (nat \<Rightarrow> 8 word list option) \<Rightarrow> bool" where
  "queue_step c r f f' q h q' h' =
     (case c of
        Getcf \<Rightarrow> q' = q \<and> (if f then \<exists>b xs. r = RBlock (Some b) \<and> h b = None \<and> h' = h(b \<mapsto> xs) else r = RBlock None \<and> h' = h)
      | Putcf b \<Rightarrow> r = RVoid \<and> q' = q \<and> h' = h(b := None)
      | Getcx p \<Rightarrow> h' = h \<and> r = RInt (if q p = [] then -1 else uint (last (q p))) \<and> q' = q(p := butlast (q p))
      | Putcx ch p \<Rightarrow> h' = h \<and> (\<not> f \<and> r = RInt (-1) \<and> q' = q \<or> r = RInt 0 \<and> q' = q(p := ch # q p))
      | Getc p \<Rightarrow> h' = h \<and> r = RInt (if q p = [] then -1 else uint (hd (q p))) \<and> q' = q(p := tl (q p))
      | Putc ch p \<Rightarrow> h' = h \<and> (\<not> f \<and> r = RInt (-1) \<and> q' = q \<or> r = RInt 0 \<and> q' = q(p := q p @ [ch]))
      | Putcfl p \<Rightarrow> r = RVoid \<and> h' = h \<and> q' = q(p := [])
      | Getcb p \<Rightarrow> if q p = [] then r = RBlock None \<and> q' = q \<and> h' = h
                   else \<exists>b xs. r = RBlock (Some b) \<and> h b = None \<and> xs \<noteq> [] \<and> q p = xs @ q' p \<and> q' = q(p := q' p) \<and> h' = h(b \<mapsto> xs)
      | Putcb b p \<Rightarrow> r = RVoid \<and> (\<exists>xs. h b = Some xs \<and> h' = h(b := None) \<and> q' = q(p := q p @ xs))
      | Getcbp p n \<Rightarrow> h' = h \<and> r = RBytes (take (nat n) (q p)) \<and> q' = q(p := drop (nat n) (q p))
      | Putcbp p cp n \<Rightarrow> h' = h \<and> (\<exists>k. 0 \<le> k \<and> k \<le> n \<and> (f' \<longrightarrow> k = n) \<and> r = RInt k \<and> q' = q(p := q p @ take (nat k) cp))
      | Waitcfree \<Rightarrow> r = RInt EVENT_SUCC \<and> q' = q \<and> h' = h
      | Pincf d \<Rightarrow> q' = q \<and> h' = h
      | Fill b i l xs \<Rightarrow> r = RVoid \<and> q' = q \<and> h' = h(b \<mapsto> drop i (take l xs)))"

lemma effect_queue:
  assumes inv: "sys_ok ls out pv s" and e: "effect ls out (io s) p q ls' out' k"
  shows "chars (ret r k (s\<lparr>drv := d\<rparr>)) = (chars s)(p := q)" and "chars s p = content (io s) (ls (PQ p))"
proof -
  have "cio_ok ls' out' (io (ret r k (s\<lparr>drv := d\<rparr>)))" using e by (simp add: effect_def ret_def)
  note c = chars_content [OF this] chars_content [OF sys_okD(1) [OF inv]]
  show "chars (ret r k (s\<lparr>drv := d\<rparr>)) = (chars s)(p := q)"
    using e by (intro ext) (simp add: c, simp add: effect_def ret_def)
  show "chars s p = content (io s) (ls (PQ p))" by (rule c(2))
qed

lemma effect_held:
  assumes inv: "sys_ok ls out pv s" and e: "effect ls out (io s) p q ls' out' k" and "b \<in> set (drv s)" and "b \<in> out'"
  shows "bytes (cb k b) = bytes (cb (io s) b)"
  using assms(3,4) drv_out [OF inv assms(3)] e by (simp add: effect_def)

lemma effect_held_same:
  assumes inv: "sys_ok ls out pv s" and e: "effect ls out (io s) p q ls' out k"
  shows "held (ret r k s) = held s"
  using effect_held [OF inv e] drv_out [OF inv] by (auto simp: held_def ret_def)

lemma queue_list:
  assumes inv: "sys_ok ls out pv s" and e: "effect ls out (io s) p q ls' out k" and st: "intr_call c s = Some (ret r k s)"
    and step: "\<And>h. queue_step c r (spare s) (pincfree_next k \<noteq> None) (chars s) h ((chars s)(p := q)) h"
  shows "\<exists>r s'. intr_call c s = Some s' \<and> res s' = Some r \<and> queue_step c r (spare s) (spare s') (chars s) (held s) (chars s') (held s')"
proof -
  have "chars (ret r k s) = (chars s)(p := q)" using effect_queue(1) [OF inv e, of r "drv s"] by simp
  with st step effect_held_same [OF inv e, of r] show ?thesis by (auto simp: ret_def spare_def)
qed

text \<open>Operations on the free lists only.\<close>

lemma got_chars:
  assumes "cio_ok ls out k" and "got ls out b k ls' k'"
  shows "content k' (ls' (PQ p)) = content k (ls (PQ p))" and "\<And>i. i \<in> out \<Longrightarrow> bytes (cb k' i) = bytes (cb k i)"
proof -
  have g: "\<And>p. ls' (PQ p) = ls (PQ p)" "frame k k'" using assms(2) unfolding got_def by blast+
  note ar = in_array [OF cio_okD(2) [OF assms(1)]]
  show "content k' (ls' (PQ p)) = content k (ls (PQ p))" unfolding g(1) by (rule frame_content [OF g(2)]) (use ar(3) in blast)
  show "\<And>i. i \<in> out \<Longrightarrow> bytes (cb k' i) = bytes (cb k i)" using frame_bytes [OF g(2)] ar(4) by blast
qed

lemma put_chars:
  assumes "cio_ok ls out k" and "put_to ls out b k ls' k'"
  shows "content k' (ls' (PQ p)) = content k (ls (PQ p))" and "\<And>i. i \<in> out \<Longrightarrow> bytes (cb k' i) = bytes (cb k i)"
proof -
  have g: "\<And>p. ls' (PQ p) = ls (PQ p)" "frame k k'" using assms(2) unfolding put_to_def by blast+
  note ar = in_array [OF cio_okD(2) [OF assms(1)]]
  show "content k' (ls' (PQ p)) = content k (ls (PQ p))" unfolding g(1) by (rule frame_content [OF g(2)]) (use ar(3) in blast)
  show "\<And>i. i \<in> out \<Longrightarrow> bytes (cb k' i) = bytes (cb k i)" using frame_bytes [OF g(2)] ar(4) by blast
qed

lemma queue_Getcf:
  assumes inv: "sys_ok ls out pv s"
  shows "\<exists>r s'. intr_call Getcf s = Some s' \<and> res s' = Some r \<and> queue_step Getcf r (spare s) (spare s') (chars s) (held s) (chars s') (held s')"
proof (cases "ls PPin = []")
  case True
  then have "intr_call Getcf s = Some (ret (RBlock None) (io s) s)"
    using get_pinned_ok [OF sys_okD(1) [OF inv]] by (simp add: intr_call_def getcf_def Let_def)
  from queue_list [OF inv effect_refl [OF sys_okD(1) [OF inv], of 0] this] chars_content [OF sys_okD(1) [OF inv], of 0] spare_ls [OF sys_okD(1) [OF inv]] True
  show ?thesis by (simp add: queue_step_def fun_upd_idem)
next
  case False
  note ok = sys_okD(1) [OF inv]
  from False get_pinned_ok [OF ok] obtain b ls' k where st: "get_pinned (io s) = Some (k, Some b)"
    and g: "got ls out b (io s) ls' k" by auto
  note d = gotD [OF g] and i = getcf_init_ok [OF gotD(1) [OF g] insertI1]
  let ?k = "getcf_init b k" and ?s' = "ret (RBlock (Some b)) (getcf_init b k) (s\<lparr>drv := b # drv s\<rparr>)"
  have go: "intr_call Getcf s = Some ?s'" using st by (simp add: intr_call_def getcf_def Let_def)
  have nb: "b \<notin> set (ls' (PQ p))" for p using linkedD(3) [OF cio_okD(1) [OF d(1)], of b "PQ p"] by blast
  have "content ?k (ls' (PQ p)) = content k (ls' (PQ p))" for p
    by (rule content_cong, subst i(2)) (use nb [of p] in auto)
  then have ch: "chars ?s' = chars s"
    using chars_content [OF ok] chars_content [of ls' "insert b out" ?s'] i(1) got_chars(1) [OF ok g] by (auto simp: ret_def)
  have "bytes (cb ?k j) = bytes (cb (io s) j)" if "j \<in> set (drv s)" for j
    using drv_out [OF inv that] d(2) got_chars(2) [OF ok g, of j] by (subst i(2)) auto
  then have "held ?s' = (held s)(b \<mapsto> bytes (cb ?k b))" using drv_out [OF inv] d(2) by (auto simp: held_def ret_def)
  moreover have "held s b = None" using drv_out [OF inv] d(2) by (auto simp: held_def)
  ultimately show ?thesis using go ch False spare_ls [OF ok] by (auto simp: queue_step_def ret_def)
qed

lemma queue_Putcf:
  assumes inv: "sys_ok ls out pv s" and b: "b \<in> set (drv s)"
  shows "\<exists>r s'. intr_call (Putcf b) s = Some s' \<and> res s' = Some r \<and> queue_step (Putcf b) r (spare s) (spare s') (chars s) (held s) (chars s') (held s')"
proof -
  note ok = sys_okD(1) [OF inv]
  have dist: "distinct (drv s)" using sys_okD(2) [OF inv] by (auto simp: parts_def dest: spec [of _ HDrv])
  from putcf_ok [OF ok drv_out [OF inv b]] obtain ls' k where st: "putcf b (io s) = Some k" and put: "put_to ls out b (io s) ls' k" by blast
  note p = put_chars [OF ok put]
  let ?s' = "ret RVoid k (s\<lparr>drv := remove1 b (drv s)\<rparr>)"
  have "cio_ok ls' (out - {b}) (io ?s')" using put by (simp add: put_to_def ret_def)
  from chars_content [OF this] chars_content [OF ok] have "chars ?s' = chars s" by (intro ext) (simp add: p(1) ret_def)
  moreover have "held ?s' = (held s)(b := None)" using p(2) drv_out [OF inv] dist by (auto simp: held_def ret_def)
  ultimately show ?thesis using st by (auto simp: intr_call_def Let_def queue_step_def ret_def)
qed

lemma queue_Getcb:
  assumes inv: "sys_ok ls out pv s" and p: "p < length (clists (io s))"
  shows "\<exists>r s'. intr_call (Getcb p) s = Some s' \<and> res s' = Some r \<and> queue_step (Getcb p) r (spare s) (spare s') (chars s) (held s) (chars s') (held s')"
proof (cases "content (io s) (ls (PQ p)) = []")
  case True
  with getcb_ok [OF sys_okD(1) [OF inv] p] have "intr_call (Getcb p) s = Some (ret (RBlock None) (io s) s)" by (simp add: intr_call_def Let_def)
  from queue_list [OF inv effect_refl [OF sys_okD(1) [OF inv], of p] this] chars_content [OF sys_okD(1) [OF inv], of p] True
  show ?thesis by (simp add: queue_step_def fun_upd_idem)
next
  case False
  with getcb_ok [OF sys_okD(1) [OF inv] p] obtain b ls' k where st: "getcb p (io s) = (k, Some b)" "b \<notin> out" "room_ok (cb k b)"
    and q: "content (io s) (ls (PQ p)) = bytes (cb k b) @ drop (length (bytes (cb k b))) (content (io s) (ls (PQ p)))"
    and e: "effect ls out (io s) p (drop (length (bytes (cb k b))) (content (io s) (ls (PQ p)))) ls' (insert b out) k" by blast
  let ?s' = "ret (RBlock (Some b)) k (s\<lparr>drv := b # drv s\<rparr>)"
  have go: "intr_call (Getcb p) s = Some ?s'" using st(1) by (simp add: intr_call_def Let_def)
  have ch: "chars ?s' = (chars s)(p := drop (length (bytes (cb k b))) (chars s p))" and cp: "chars s p = content (io s) (ls (PQ p))"
    using effect_queue(1) [OF inv e, of "RBlock (Some b)" "b # drv s"] effect_queue(2) [OF inv e] by simp_all
  have "held ?s' = (held s)(b \<mapsto> bytes (cb k b))" "held s b = None"
    using effect_held [OF inv e] drv_out [OF inv] st(2) by (auto simp: held_def ret_def)
  moreover have "bytes (cb k b) \<noteq> []"
  proof -
    have "cio_ok ls' (insert b out) k" using e by (simp add: effect_def)
    then have "length (c_data (cb k b)) = CLSIZE" by (rule out_data) simp
    then show ?thesis using st(3) by (simp add: bytes_def room_ok_def)
  qed
  ultimately show ?thesis using go ch cp q False unfolding queue_step_def by (auto simp: ret_def)
qed

lemma queue_Putcb:
  assumes inv: "sys_ok ls out pv s" and b: "b \<in> set (drv s)" and p: "p < length (clists (io s))"
  shows "\<exists>r s'. intr_call (Putcb b p) s = Some s' \<and> res s' = Some r \<and> queue_step (Putcb b p) r (spare s) (spare s') (chars s) (held s) (chars s') (held s')"
proof -
  have dist: "distinct (drv s)" using sys_okD(2) [OF inv] by (auto simp: parts_def dest: spec [of _ HDrv])
  let ?s' = "ret RVoid (putcb b p (io s)) (s\<lparr>drv := remove1 b (drv s)\<rparr>)"
  from putcb_ok [OF sys_okD(1) [OF inv] p drv_out [OF inv b] sys_okD(4) [OF inv b]] obtain ls' where
    e: "effect ls out (io s) p (content (io s) (ls (PQ p)) @ bytes (cb (io s) b)) ls' (out - {b}) (putcb b p (io s))" by blast
  have "chars ?s' = (chars s)(p := chars s p @ bytes (cb (io s) b))"
    using effect_queue(1) [OF inv e, of RVoid "remove1 b (drv s)"] effect_queue(2) [OF inv e] by simp
  moreover have "held ?s' = (held s)(b := None)" "held s b = Some (bytes (cb (io s) b))"
    using effect_held [OF inv e] drv_out [OF inv] dist b by (auto simp: held_def ret_def)
  ultimately show ?thesis by (auto simp: intr_call_def Let_def queue_step_def ret_def)
qed

lemma queue_Fill:
  assumes inv: "sys_ok ls out pv s" and b: "b \<in> set (drv s)" and len: "length xs = CLSIZE"
  shows "\<exists>r s'. intr_call (Fill b f l xs) s = Some s' \<and> res s' = Some r \<and> queue_step (Fill b f l xs) r (spare s) (spare s') (chars s) (held s) (chars s') (held s')"
proof -
  let ?k = "set_cb b (\<lambda>r. r\<lparr>c_first := f, c_last := l, c_data := xs\<rparr>) (io s)"
  note ok = sys_okD(1) [OF inv]
  note w = own_write [OF ok drv_out [OF inv b], of "\<lambda>r. r\<lparr>c_first := f, c_last := l, c_data := xs\<rparr>", simplified, OF len]
  have nb: "b \<notin> set (ls (PQ p))" for p using linkedD(3) [OF cio_okD(1) [OF ok], of b "PQ p"] drv_out [OF inv b] by blast
  have "content ?k (ls (PQ p)) = content (io s) (ls (PQ p))" for p
    by (rule content_cong) (use w(2) nb [of p] in metis)
  then have "chars (ret RVoid ?k s) = chars s"
    using chars_content [OF ok] chars_content [of ls out "ret RVoid ?k s"] w(1) by (auto simp: ret_def)
  moreover have "held (ret RVoid ?k s) = (held s)(b \<mapsto> drop f (take l xs))"
    using w(2,3) b by (auto simp: held_def ret_def bytes_def)
  ultimately show ?thesis by (auto simp: intr_call_def Let_def queue_step_def ret_def)
qed

lemma intr_queue:
  assumes inv: "sys_ok ls out pv s" and al: "allowed c s" and lg: "call_legal c" and np: "\<And>d. c \<noteq> Pincf d"
  shows "\<exists>r s'. intr_call c s = Some s' \<and> res s' = Some r \<and> queue_step c r (spare s) (spare s') (chars s) (held s) (chars s') (held s')"
proof -
  note ok = sys_okD(1) [OF inv] and cont = chars_content [OF sys_okD(1) [OF inv]]
  have eff: ?thesis if "intr_call c s = Some (ret r k s)" "effect ls out (io s) p q ls' out k" "\<And>h. queue_step c r (spare s) (pincfree_next k \<noteq> None) (chars s) h ((chars s)(p := q)) h"
    for r k p q ls' using queue_list [OF inv that(2,1,3)] .
  have same: "effect ls out (io s) p (chars s p) ls out (io s)" for p using effect_refl [OF ok] by (simp add: cont)
  show ?thesis
  proof (cases c)
    case Getcf
    then show ?thesis using queue_Getcf [OF inv] by simp
  next
    case (Putcf b)
    then show ?thesis using queue_Putcf [OF inv, of b] al by (simp add: allowed_def)
  next
    case (Getcx p)
    with getcx_ok [OF ok, of p] al obtain ls' k where "getcx p (io s) = Some (k, if chars s p = [] then -1 else uint (last (chars s p)))"
      "effect ls out (io s) p (butlast (chars s p)) ls' out k" by (auto simp: allowed_def cont)
    then show ?thesis by (intro eff) (simp_all add: Getcx intr_call_def queue_step_def)
  next
    case (Putcx ch p)
    with putcx_ok [OF ok, of p ch] al consider "ls PPin = []" "putcx ch p (io s) = Some (io s, -1)"
      | ls' k where "putcx ch p (io s) = Some (k, 0)" "effect ls out (io s) p (ch # chars s p) ls' out k" by (auto simp: allowed_def cont)
    then show ?thesis
    proof cases
      case 1
      then show ?thesis by (intro eff [where r = "RInt (-1)", OF _ same [of p]]) (auto simp: Putcx intr_call_def queue_step_def spare_ls [OF ok])
    next
      case 2
      then show ?thesis by (intro eff [where r = "RInt 0", OF _ 2(2)]) (auto simp: Putcx intr_call_def queue_step_def)
    qed
  next
    case (Getc p)
    with getc_ok [OF ok, of p] al obtain ls' k where "getc p (io s) = Some (k, if chars s p = [] then -1 else uint (hd (chars s p)))"
      "effect ls out (io s) p (tl (chars s p)) ls' out k" by (auto simp: allowed_def cont)
    then show ?thesis by (intro eff) (simp_all add: Getc intr_call_def queue_step_def)
  next
    case (Putc ch p)
    with putc_ok [OF ok, of p ch] al consider "ls PPin = []" "putc ch p (io s) = Some (io s, -1)"
      | ls' k where "putc ch p (io s) = Some (k, 0)" "effect ls out (io s) p (chars s p @ [ch]) ls' out k" by (auto simp: allowed_def cont)
    then show ?thesis
    proof cases
      case 1
      then show ?thesis by (intro eff [where r = "RInt (-1)", OF _ same [of p]]) (auto simp: Putc intr_call_def queue_step_def spare_ls [OF ok])
    next
      case 2
      then show ?thesis by (intro eff [where r = "RInt 0", OF _ 2(2)]) (auto simp: Putc intr_call_def queue_step_def)
    qed
  next
    case (Putcfl p)
    with putcfl_ok [OF ok, of p] al obtain ls' k where "putcfl p (io s) = Some k" "effect ls out (io s) p [] ls' out k" by (auto simp: allowed_def)
    then show ?thesis by (intro eff) (simp_all add: Putcfl intr_call_def queue_step_def)
  next
    case (Getcb p)
    then show ?thesis using queue_Getcb [OF inv, of p] al by (simp add: allowed_def)
  next
    case (Putcb b p)
    then show ?thesis using queue_Putcb [OF inv, of b p] al by (simp add: allowed_def)
  next
    case (Getcbp p n)
    with getcbp_ok [OF ok, of p n] al lg obtain ls' k where "getcbp p n (io s) = Some (k, take (nat n) (chars s p))"
      "effect ls out (io s) p (drop (nat n) (chars s p)) ls' out k" by (auto simp: allowed_def call_legal_def cont)
    then show ?thesis by (intro eff) (simp_all add: Getcbp intr_call_def queue_step_def)
  next
    case (Putcbp p cp n)
    with putcbp_ok [OF ok, of p n cp] al lg obtain ls' k m where m: "putcbp p cp n (io s) = Some (k, m)" "0 \<le> m" "m \<le> n" "m < n \<longrightarrow> ls' PPin = []"
      and e: "effect ls out (io s) p (chars s p @ take (nat m) cp) ls' out k" by (auto simp: allowed_def call_legal_def cont)
    have "cio_ok ls' out (io (s\<lparr>io := k\<rparr>))" using e by (simp add: effect_def)
    from spare_ls [OF this] m have "pincfree_next k \<noteq> None \<Longrightarrow> m = n" by (auto simp: spare_def)
    with m show ?thesis by (intro eff [OF _ e]) (use m in \<open>auto simp: Putcbp intr_call_def queue_step_def\<close>)
  next
    case Waitcfree
    then show ?thesis by (intro eff [OF _ same [of 0]]) (simp_all add: intr_call_def Let_def queue_step_def waitcfree_disabled_def)
  next
    case (Pincf d)
    with np show ?thesis by blast
  next
    case (Fill b f l xs)
    then show ?thesis using queue_Fill [OF inv, of b xs f l] al lg by (simp add: allowed_def call_legal_def)
  qed
qed

end
