(* ===== verification/ClistGo.thy ===== *)
theory ClistGo
  imports ClistQueue
begin

text \<open>What the pieces of a process's call do to the character lists, whatever interrupts and other processes do between them.\<close>

section \<open>Steps that leave the lists alone\<close>

lemma gather_cong:
  assumes "cblocks k' = cblocks k"
  shows "gather n k' h = gather n k h"
proof (induction n arbitrary: h)
  case (Suc n)
  then show ?case by (cases h) (simp_all add: assms)
qed simp

lemma chars_cong:
  assumes "cblocks (io s') = cblocks (io s)" and "clists (io s') = clists (io s)"
  shows "chars s' = chars s"
  by (rule ext) (simp only: chars_def assms gather_cong [OF assms(1)])

definition still :: "csys \<Rightarrow> csys \<Rightarrow> bool" where
  "still s s' \<longleftrightarrow> cblocks (io s') = cblocks (io s) \<and> clists (io s') = clists (io s)"

lemma still_chars: "still s s' \<Longrightarrow> chars s' = chars s"
  by (rule chars_cong) (simp_all add: still_def)

lemma still_simps [simp]:
  "still s s" "still s (set_thr t x s') = still s s'" "still s (end_call t v s') = still s s'" "still s (sleep t s') = still s s'"
  "still s (w_outer t s') = still s s'" "still s (w_inner t s') = still s s'" "still s (pincf_end t r d s') = still s s'"
  "still s (pincf_up t r d s') = still s s'" "still s (cont_fail t c s') = still s s'"
  by (simp_all add: still_def set_thr_def end_call_def sleep_def w_outer_def w_inner_def pincf_end_def pincf_up_def cont_fail_def
      split: cont.splits)

lemma still_pincf_locked: "pincf_locked t d s = Some s' \<Longrightarrow> still s s'"
  by (auto simp: pincf_locked_def Let_def split: if_splits) (auto simp: still_def)

text \<open>\<open>put_pinned_front\<close>, \<open>putcf\<close> and \<open>get_unpinned\<close> do too.\<close>

lemma chars_frame:
  assumes "cio_ok ls out (io s)" and "cio_ok ls' out' k" and "\<And>p. content k (ls' (PQ p)) = content (io s) (ls (PQ p))"
    and "still (s\<lparr>io := k\<rparr>) s'"
  shows "chars s' = chars s"
proof -
  have "chars s' = chars (s\<lparr>io := k\<rparr>)" by (rule still_chars [OF assms(4)])
  also have "\<dots> = chars s" using chars_content [OF assms(1)] chars_content [of ls' out' "s\<lparr>io := k\<rparr>"] assms(2,3) by (intro ext) simp
  finally show ?thesis .
qed

lemma chars_put:
  assumes "cio_ok ls out (io s)" and "put_to ls out b (io s) ls' k" and "still (s\<lparr>io := k\<rparr>) s'"
  shows "chars s' = chars s"
  using chars_frame [OF assms(1) _ put_chars(1) [OF assms(1,2)] assms(3)] assms(2) unfolding put_to_def by blast

lemma chars_got:
  assumes "cio_ok ls out (io s)" and "got ls out b (io s) ls' k" and "still (s\<lparr>io := k\<rparr>) s'"
  shows "chars s' = chars s"
  using chars_frame [OF assms(1) _ got_chars(1) [OF assms(1,2)] assms(3)] assms(2) unfolding got_def by blast

lemma chars_effect:
  assumes "cio_ok ls out (io s)" and e: "effect ls out (io s) p q ls' out' k" and "still (s\<lparr>io := k\<rparr>) s'"
  shows "chars s' = (chars s)(p := q)"
proof -
  have "chars s' = chars (s\<lparr>io := k\<rparr>)" by (rule still_chars [OF assms(3)])
  also have "\<dots> = (chars s)(p := q)" 
    using chars_content [OF assms(1)] chars_content [of ls' out' "s\<lparr>io := k\<rparr>"] e by (intro ext) (simp add: effect_def)
  finally show ?thesis .
qed

lemma chars_own:
  assumes ok: "cio_ok ls out (io s)" and b: "b \<in> out" and k: "\<And>i. i \<noteq> b \<Longrightarrow> cb k i = cb (io s) i" "clists k = clists (io s)"
    and "cio_ok ls out k" and "still (s\<lparr>io := k\<rparr>) s'"
  shows "chars s' = chars s"
proof (rule chars_frame [OF ok assms(5) _ assms(6)])
  have "b \<notin> set (ls (PQ p))" for p using linkedD(3) [OF cio_okD(1) [OF ok], of b "PQ p"] b by blast
  then show "content k (ls (PQ p)) = content (io s) (ls (PQ p))" for p by (intro content_cong) (metis k(1))
qed


section \<open>A step of a process\<close>

text \<open>
  The lists change in one place only, where a thread that got a cblock puts what it was called for; \<open>putcbp\<close> fills the cblock
  and then the thread is done or wants the next one for the rest.
\<close>

definition go_chars :: "nat \<Rightarrow> cthread \<Rightarrow> csys \<Rightarrow> (nat \<Rightarrow> 8 word list) \<Rightarrow> (nat \<Rightarrow> 8 word list) \<Rightarrow> bool" where
  "go_chars t x s' q q' =
     (case x of
        TGot (KPutcx ch p) b \<Rightarrow> q' = q(p := ch # q p) \<and> thr s' ! t = TIdle \<and> res s' = Some (RInt 0)
      | TGot (KPutc ch p) b \<Rightarrow> q' = q(p := q p @ [ch]) \<and> thr s' ! t = TIdle \<and> res s' = Some (RInt 0)
      | TGot (KPutcbp p cp n) b \<Rightarrow> \<exists>xs rest. cp = xs @ rest \<and> xs \<noteq> [] \<and> q' = q(p := q p @ xs)
          \<and> (if rest = [] then thr s' ! t = TIdle \<and> res s' = Some (RInt n) else thr s' ! t = TWant (KPutcbp p rest n))
      | _ \<Rightarrow> q' = q)"

lemma chars_pin:
  assumes inv: "sys_ok ls out pv s" and t: "t < length (thr s)" and th: "thr s ! t = TPin c anch bp" and go: "go t pin_ok s = Some s'"
  shows "chars s' = chars s"
proof -
  note i = sys_okD [OF inv]
  have "bp = Some b \<Longrightarrow> b \<in> set (ls (unpinned_at anch))" for b using i(5) [OF t] th by simp
  from gu_rest_ok [OF i(1) this, where pin_ok = pin_ok]
  consider "gu_rest pin_ok anch bp (io s) = Some (io s, None)" | b ls' k where "gu_rest pin_ok anch bp (io s) = Some (k, Some b)" "got ls out b (io s) ls' k"
    by blast
  then show ?thesis
  proof cases
    case 1
    with go th have "still s s'" by (auto simp: go_def Let_def) (simp_all add: still_def)
    then show ?thesis by (rule still_chars)
  next
    case 2
    with go th have "still (s\<lparr>io := k\<rparr>) s'" by (auto simp: go_def Let_def) (simp_all add: still_def)
    then show ?thesis by (rule chars_got [OF i(1) 2(2)])
  qed
qed

lemma chars_down:
  assumes inv: "sys_ok ls out pv s" and go: "pincf_down t r n root s = Some s'"
  shows "chars s' = chars s"
proof (cases "n = 0 \<or> ls PPin = []")
  case True
  with get_pinned_ok [OF sys_okD(1) [OF inv]] go have "still s s'" by (auto simp: pincf_down_def split: if_splits)
  then show ?thesis by (rule still_chars)
next
  case False
  note ok = sys_okD(1) [OF inv]
  from False get_pinned_ok [OF ok] obtain b ls' k where st: "get_pinned (io s) = Some (k, Some b)" and g: "got ls out b (io s) ls' k" by auto
  note gd = gotD(1) [OF g]
  let ?k = "set_cb b (\<lambda>r. r\<lparr>c_next := root\<rparr>) k"
  note w = own_write [OF gd insertI1, of "\<lambda>r. r\<lparr>c_next := root\<rparr>", simplified, OF out_data [OF gd insertI1]]
  have "still (s\<lparr>io := ?k\<rparr>) s'" using go False st by (auto simp: pincf_down_def)
  then have "chars s' = chars (s\<lparr>io := k\<rparr>)"
    using w gd by (intro chars_own [where s = "s\<lparr>io := k\<rparr>", of ls' _ b ?k]) auto
  then show ?thesis using chars_got [OF ok g, of "s\<lparr>io := k\<rparr>"] by (simp add: still_def)
qed

lemma chars_give:
  assumes inv: "sys_ok ls out pv s" and t: "t < length (thr s)" and th: "thr s ! t = TGive r root" and go: "pincf_give t r root s = Some s'"
  shows "chars s' = chars s"
proof (cases root)
  case None
  with go have "still s s'" by (auto simp: pincf_give_def) (simp_all add: still_def)
  then show ?thesis by (rule still_chars)
next
  case (Some b)
  note i = sys_okD [OF inv]
  have "b \<in> set (pv t)" using i(5) [OF t] th Some by (auto simp: path_Some)
  then have "b \<in> out" using parts_in [OF i(2), of b "HThr t"] by simp
  from putcf_ok [OF i(1) this] obtain ls' k where st: "putcf b (io s) = Some k" and put: "put_to ls out b (io s) ls' k" by blast
  have "still (s\<lparr>io := k\<rparr>) s'" using go Some st by (auto simp: pincf_give_def)
  then show ?thesis by (rule chars_put [OF i(1) put])
qed

lemma got_chars_Putcbp:
  assumes inv: "sys_ok ls out pv s" and t: "t < length (thr s)" and th: "thr s ! t = TGot (KPutcbp p cp n) b"
    and go: "cont_got t (KPutcbp p cp n) b s = Some s'"
  shows "go_chars t (thr s ! t) s' (chars s) (chars s')"
proof -
  note d = sys_okD [OF inv] and b = got_out [OF inv t th]
  have p: "p < length (clists (io s))" "cp \<noteq> []" using d(5) [OF t] th by simp_all
  have "c_last (cb (link_back p b (io s)) b) < CLSIZE" using link_back_block(2) [OF d(1) p(1) b] by (simp add: CLSIZE_def)
  from fill_append [OF this p(2), of p] obtain xs r where f: "fill p b cp (link_back p b (io s)) = (append_to xs p b (link_back p b (io s)), r)"
    "cp = xs @ r" "xs \<noteq> []" "length xs \<le> CLSIZE" by auto
  let ?k = "append_to xs p b (link_back p b (io s))" and ?ls = "ls(PQ p := ls (PQ p) @ [b])"
  note e = append_new [OF d(1) p(1) b f(3,4)]
  have "p < length (clists ?k)" "cio_ok ?ls (out - {b}) ?k" using p(1) e by (simp_all add: effect_def)
  from fill_base_ok [OF this(2,1), of r "Suc (length r)"] obtain k2 d rest where
    st: "fill_base (Suc (length r)) p r ?k = Some (k2, rest)" and r: "r = d @ rest"
    and e2: "effect ?ls (out - {b}) ?k p (content ?k (?ls (PQ p)) @ d) ?ls (out - {b}) k2" by blast
  have c1: "chars (s\<lparr>io := ?k\<rparr>) = (chars s)(p := chars s p @ xs)"
    using chars_effect [OF d(1) e, of "s\<lparr>io := ?k\<rparr>"] chars_content [OF d(1)] by (simp add: still_def)
  have ok: "cio_ok ?ls (out - {b}) (io (s\<lparr>io := ?k\<rparr>))" using e by (simp add: effect_def)
  have c2: "chars (s\<lparr>io := k2\<rparr>) = (chars (s\<lparr>io := ?k\<rparr>))(p := chars (s\<lparr>io := ?k\<rparr>) p @ d)"
    using chars_effect [OF ok, of p "content ?k (?ls (PQ p)) @ d" ?ls "out - {b}" k2 "s\<lparr>io := k2\<rparr>"] e2 chars_content [OF ok]
    by (simp add: still_def)
  have s': "s' = (if rest = [] then end_call t (RInt n) (s\<lparr>io := k2\<rparr>) else set_thr t (TWant (KPutcbp p rest n)) (s\<lparr>io := k2\<rparr>))"
    using go f(1) st by (auto simp: cont_got_def putcbp_base_def Let_def simp del: fill_base.simps split: if_splits)
  then have "still (s\<lparr>io := k2\<rparr>) s'" by simp
  from still_chars [OF this] c1 c2 have "chars s' = (chars s)(p := chars s p @ xs @ d)" by simp
  moreover have "cp = (xs @ d) @ rest" "xs @ d \<noteq> []" using f(2,3) r by simp_all
  moreover have "if rest = [] then thr s' ! t = TIdle \<and> res s' = Some (RInt n) else thr s' ! t = TWant (KPutcbp p rest n)"
    using s' t by (simp add: end_call_def set_thr_def)
  ultimately show ?thesis unfolding go_chars_def th cthread.case cont.case by blast
qed


lemma cont_got_chars:
  assumes inv: "sys_ok ls out pv s" and t: "t < length (thr s)" and th: "thr s ! t = TGot c b" and go: "cont_got t c b s = Some s'"
  shows "go_chars t (thr s ! t) s' (chars s) (chars s')"
proof (cases c)
  note d = sys_okD [OF inv] and b = got_out [OF inv t th] and cont = chars_content [OF sys_okD(1) [OF inv]]
  case KGetcf
  let ?k = "getcf_init b (io s)"
  note g = getcf_init_ok [OF d(1) b]
  have "still (s\<lparr>io := ?k\<rparr>) s'" using go KGetcf by (auto simp: cont_got_def Let_def) (simp add: still_def)
  then have "chars s' = chars s" using chars_own [OF d(1) b g(2) g(6) g(1)] by blast
  with th KGetcf show ?thesis by (simp add: go_chars_def)
next
  note d = sys_okD [OF inv] and b = got_out [OF inv t th] and cont = chars_content [OF sys_okD(1) [OF inv]]
  case (KPutcx ch p)
  then have p: "p < length (clists (io s))" using d(5) [OF t] th by simp
  have s': "s' = end_call t (RInt 0) (s\<lparr>io := store_front ch p b (link_front p b (io s))\<rparr>)" using go KPutcx by (simp add: cont_got_def Let_def)
  from chars_effect [OF d(1) store_front_new [OF d(1) p b, of ch], of s'] s' cont
  have "chars s' = (chars s)(p := ch # chars s p)" by simp
  with s' th KPutcx t show ?thesis by (simp add: go_chars_def end_call_def set_thr_def)
next
  note d = sys_okD [OF inv] and b = got_out [OF inv t th] and cont = chars_content [OF sys_okD(1) [OF inv]]
  case (KPutc ch p)
  then have p: "p < length (clists (io s))" using d(5) [OF t] th by simp
  note l = link_back_block [OF d(1) p b]
  have "store_back ch p b (link_back p b (io s)) = append_to [ch] p b (link_back p b (io s))"
    by (rule store_back_append [OF l(1)]) (simp add: l(2) CLSIZE_def)
  then have s': "s' = end_call t (RInt 0) (s\<lparr>io := append_to [ch] p b (link_back p b (io s))\<rparr>)" using go KPutc by (simp add: cont_got_def Let_def)
  from chars_effect [OF d(1) append_new [OF d(1) p b, of "[ch]"], of s'] s' cont
  have "chars s' = (chars s)(p := chars s p @ [ch])" by (simp add: CLSIZE_def)
  with s' th KPutc t show ?thesis by (simp add: go_chars_def end_call_def set_thr_def)
next
  case (KPutcbp p cp n)
  with got_chars_Putcbp [OF inv t] th go show ?thesis by simp
next
  note d = sys_okD [OF inv] and b = got_out [OF inv t th]
  case (KPincf r n)
  from putcf_ok [OF d(1) b] obtain ls' k where st: "putcf b (io s) = Some k" and put: "put_to ls out b (io s) ls' k" by blast
  have "chars s' = chars s" by (rule chars_put [OF d(1) put]) (use go KPincf st in \<open>auto simp: cont_got_def\<close>)
  with th KPincf show ?thesis by (simp add: go_chars_def)
next
  note d = sys_okD [OF inv] and b = got_out [OF inv t th]
  case KWait
  from put_pinned_front_ok [OF d(1) b] obtain ls' k where st: "put_pinned_front b (io s) = Some k" and put: "put_to ls out b (io s) ls' k" by blast
  have "chars s' = chars s" by (rule chars_put [OF d(1) put]) (use go KWait st in \<open>auto simp: cont_got_def\<close>)
  with th KWait show ?thesis by (simp add: go_chars_def)
qed

lemma go_chars_ok:
  assumes inv: "sys_ok ls out pv s" and t: "t < length (thr s)" and go: "go t pin_ok s = Some s'"
  shows "go_chars t (thr s ! t) s' (chars s) (chars s')"
proof (cases "thr s ! t")
  case (TLockP d)
  have "still s (s\<lparr>plock := Some t\<rparr>)" by (simp add: still_def)
  with go TLockP have "still s s'" by (auto simp: go_def still_def dest!: still_pincf_locked split: if_splits)
  from still_chars [OF this] TLockP show ?thesis by (simp add: go_chars_def)
next
  case (TWant c)
  with go have "still s s'" by (auto simp: go_def still_def set_thr_def split: if_splits prod.splits)
  from still_chars [OF this] TWant show ?thesis by (simp add: go_chars_def)
next
  case (TPin c anch bp)
  with chars_pin [OF inv t TPin go] show ?thesis by (simp add: go_chars_def)
next
  case (TGot c b)
  with cont_got_chars [OF inv t TGot] go show ?thesis by (simp add: go_def)
next
  case (TDown r d root)
  with chars_down [OF inv] go show ?thesis by (simp add: go_chars_def go_def)
next
  case (TGive r root)
  with chars_give [OF inv t TGive] go show ?thesis by (simp add: go_chars_def go_def)
next
  case TSleep
  with go have "still s s'" by (auto simp: go_def split: if_splits)
  from still_chars [OF this] TSleep show ?thesis by (simp add: go_chars_def)
qed (use go in \<open>auto simp: go_def go_chars_def\<close>)

end
