(* ===== verification/ClistProps.thy ===== *)
theory ClistProps
  imports ClistGo "HOL-Library.Multiset"
begin

text \<open>What character I/O promises, over every run from \<open>cinit\<close>.\<close>

section \<open>Where the cblocks are\<close>

fun walk :: "nat \<Rightarrow> cio \<Rightarrow> nat option \<Rightarrow> nat list" where
  "walk 0 k bp = []"
| "walk (Suc n) k bp = (case bp of None \<Rightarrow> [] | Some b \<Rightarrow> b # walk n k (c_next (cb k b)))"

abbreviation chain :: "cio \<Rightarrow> nat option \<Rightarrow> nat list" where
  "chain k \<equiv> walk (length (cblocks k)) k"

text \<open>The cblocks a thread holds in the middle of a call.\<close>

fun owned :: "cio \<Rightarrow> cthread \<Rightarrow> nat list" where
  "owned k (TGot c b) = [b]"
| "owned k (TDown r d root) = chain k root"
| "owned k (TGive r root) = chain k root"
| "owned k _ = []"

definition everywhere :: "csys \<Rightarrow> nat list" where
  "everywhere s =
     (let k = io s in
      chain k (pincfree_next k) @ chain k (cfree_next k) @ chain k (endcfree k) @ drv s
      @ concat (map (\<lambda>p. chain k (c_cf (cl k p))) [0..<length (clists k)])
      @ concat (map (\<lambda>t. owned k (thr s ! t)) [0..<length (thr s)]))"

lemma walk_path: "path (\<lambda>i. c_next (cb k i)) h bs \<Longrightarrow> length bs \<le> n \<Longrightarrow> walk n k h = bs"
proof (induction bs arbitrary: n h)
  case Nil
  then show ?case by (cases n) auto
next
  case (Cons b bs)
  then show ?case by (cases n) auto
qed

lemma chain_ls: "cio_ok ls out k \<Longrightarrow> chain k (head k pl) = ls pl"
  by (rule walk_path [OF linkedD(2) [OF cio_okD(1)] place_length])

lemma distinct_concat_upt:
  assumes "\<And>i. i < n \<Longrightarrow> distinct (f i)" and "\<And>i j. i < n \<Longrightarrow> j < n \<Longrightarrow> i \<noteq> j \<Longrightarrow> set (f i) \<inter> set (f j) = {}"
  shows "distinct (concat (map f [0..<n]))"
  using assms
proof (induction n)
  case (Suc n)
  have "distinct (f n)" "distinct (concat (map f [0..<n]))" using Suc.IH Suc.prems by simp_all
  moreover have "set (f n) \<inter> set (f j) = {}" if "j < n" for j using Suc.prems(2) [of n j] that by simp
  then have "set (f n) \<inter> set (concat (map f [0..<n])) = {}" by fastforce
  ultimately show ?case by auto
qed simp

lemma owned_pv:
  assumes inv: "sys_ok ls out pv s" and t: "t < length (thr s)"
  shows "owned (io s) (thr s ! t) = pv t"
proof -
  note i = sys_okD [OF inv]
  have "set (pv t) \<subseteq> out" "distinct (pv t)" using parts_in [OF i(2), of _ "HThr t"] i(2) by (auto simp: parts_def dest: spec [of _ "HThr t"])
  moreover have "out \<subseteq> {..<length (cblocks (io s))}" using out_length [OF i(1)] by auto
  ultimately have "length (pv t) \<le> length (cblocks (io s))"
    by (metis card_lessThan card_mono distinct_card finite_lessThan order_trans)
  with i(5) [OF t] show ?thesis by (cases "thr s ! t") (simp_all add: walk_path)
qed

lemma everywhere_held:
  assumes inv: "sys_ok ls out pv s"
  defines "v \<equiv> concat (map pv [0..<length (thr s)])"
  shows "distinct v" and "distinct (drv s)" and "set (drv s) \<inter> set v = {}" and "set (drv s) \<union> set v = out"
proof -
  note i = sys_okD [OF inv]
  have "set (pv t) \<inter> set (pv t') = {}" if "t \<noteq> t'" for t t'
    using parts_one [OF i(2), of _ "HThr t" "HThr t'"] that by auto
  moreover have "distinct (pv t)" for t using i(2) by (auto simp: parts_def dest: spec [of _ "HThr t"])
  ultimately show "distinct v" unfolding v_def by (intro distinct_concat_upt)
  show "distinct (drv s)" using i(2) by (auto simp: parts_def dest: spec [of _ HDrv])
  have "set (drv s) \<inter> set (pv t) = {}" for t using parts_one [OF i(2), of _ "HThr t" HDrv] by auto
  then show "set (drv s) \<inter> set v = {}" unfolding v_def by fastforce
  have "(\<Union>h. set (holds (drv s) pv h)) = out" using i(2) by (simp add: parts_def)
  then have "set (drv s) \<union> (\<Union>t. set (pv t)) = out" by (auto simp: holds_def split: holder.splits)
  moreover have "(\<Union>t. set (pv t)) = set v" using i(3) unfolding v_def by (fastforce simp: not_less [symmetric])
  ultimately show "set (drv s) \<union> set v = out" by simp
qed

lemma everywhere_ok:
  assumes inv: "sys_ok ls out pv s"
  shows "mset (everywhere s) = mset [0..<cblkhiwater (io s)]"
proof -
  note i = sys_okD [OF inv] and l = linkedD [OF cio_okD(1) [OF sys_okD(1) [OF inv]]]
  define q where "q = concat (map (\<lambda>p. ls (PQ p)) [0..<length (clists (io s))])"
  define v where "v = concat (map pv [0..<length (thr s)])"
  have e: "everywhere s = ls PPin @ ls PFront @ ls PEnd @ drv s @ q @ v"
  proof -
    have "chain (io s) (c_cf (cl (io s) p)) = ls (PQ p)" if "p < length (clists (io s))" for p
      using chain_ls [OF i(1), of "PQ p"] that by simp
    then have m1: "map (\<lambda>p. chain (io s) (c_cf (cl (io s) p))) [0..<length (clists (io s))] = map (\<lambda>p. ls (PQ p)) [0..<length (clists (io s))]"
      by (intro map_cong) auto
    have m2: "map (\<lambda>t. owned (io s) (thr s ! t)) [0..<length (thr s)] = map pv [0..<length (thr s)]"
      using owned_pv [OF inv] by (intro map_cong) auto
    show ?thesis unfolding everywhere_def Let_def q_def v_def m1 m2
      using chain_ls [OF i(1), of PPin] chain_ls [OF i(1), of PFront] chain_ls [OF i(1), of PEnd] by simp
  qed
  note h = everywhere_held [OF inv, folded v_def]
  have "ls (PQ p) = []" if "\<not> p < length (clists (io s))" for p using l(2) [of "PQ p"] that by (simp add: path_None)
  then have sq: "set q = (\<Union>p. set (ls (PQ p)))" unfolding q_def by fastforce
  have dq: "distinct q" unfolding q_def by (rule distinct_concat_upt) (use l(1,4) in auto)
  have off: "set (ls pl) \<inter> out = {}" "set q \<inter> out = {}" for pl using l(3) sq by auto
  have ap: "set (ls PPin) \<inter> set (ls PFront) = {}" "set (ls PPin) \<inter> set (ls PEnd) = {}" "set (ls PFront) \<inter> set (ls PEnd) = {}"
    "set (ls PPin) \<inter> set q = {}" "set (ls PFront) \<inter> set q = {}" "set (ls PEnd) \<inter> set q = {}"
    unfolding sq using l(4) by blast+
  have "distinct (everywhere s)" unfolding e distinct_append using l(1) dq h off(1) [of PPin] off(1) [of PFront] off(1) [of PEnd] off(2) ap by auto
  moreover have "set (everywhere s) = {..<cblkhiwater (io s)}"
  proof -
    have "(\<Union>pl. set (ls pl)) = set (ls PPin) \<union> set (ls PFront) \<union> set (ls PEnd) \<union> set q"
      unfolding sq by (auto, metis place.exhaust)
    moreover have "(\<Union>pl. set (ls pl)) \<union> out = {..<cblkhiwater (io s)}" using cio_okD(2) [OF i(1)] by (simp add: array_ok_def)
    ultimately show ?thesis unfolding e using h(4) by auto
  qed
  ultimately show ?thesis using set_eq_iff_mset_eq_distinct [of "everywhere s" "[0..<cblkhiwater (io s)]"]
    by (simp add: atLeast0LessThan del: mset_upt)
qed


section \<open>pincf on its own\<close>

text \<open>
  What a call \<open>pincf d\<close> that found \<open>pincreq = p\<close> and at most \<open>m\<close> to give is to reach: it returns by how much it changed
  \<open>pincreq\<close>. It falls short of \<open>m\<close> only when a pin failed, which \<open>failed\<close> says, or no cblock was left.
\<close>

definition pincf_limit :: "int \<Rightarrow> cio \<Rightarrow> int" where
  "pincf_limit d k = min d (cmax k - LEFT_OVER - pincreq k)"

definition no_cblock :: "cio \<Rightarrow> bool" where
  "no_cblock k \<longleftrightarrow> cfree_next k = None \<and> endcfree k = None \<and> cblkavail k = cmax k"

definition settled :: "int \<Rightarrow> int \<Rightarrow> int \<Rightarrow> bool \<Rightarrow> csys \<Rightarrow> bool" where
  "settled d p m failed s \<longleftrightarrow> (\<exists>n. res s = Some (RInt n) \<and> pincreq (io s) = p + n
     \<and> (if d \<le> 0 then n = d else n = m \<or> 0 \<le> n \<and> n < m \<and> (failed \<or> no_cblock (io s))))"

text \<open>
  Thread \<open>t\<close> is in a call \<open>pincf d\<close>, no other thread has a lock, and at most \<open>N\<close> steps are left. With a
  positive \<open>d\<close> a round takes three steps; with a negative one a cblock takes a step to get and one to give back.
\<close>

fun pst_thr :: "int \<Rightarrow> int \<Rightarrow> int \<Rightarrow> nat \<Rightarrow> cio \<Rightarrow> nat \<Rightarrow> cthread \<Rightarrow> bool" where
  "pst_thr d p m N k l (TLockP d') = (d' = d \<and> pincreq k = p \<and> m = pincf_limit d k \<and> 3 * nat \<bar>d\<bar> + 3 \<le> N)"
| "pst_thr d p m N k l (TWant (KPincf r n)) = (0 < d \<and> n \<le> r \<and> r \<le> d \<and> r = m \<and> pincreq k = p + r \<and> 3 * nat n \<le> N)"
| "pst_thr d p m N k l (TPin (KPincf r n) anch bp)
     = (0 < d \<and> n \<le> r \<and> r \<le> d \<and> r = m \<and> pincreq k = p + r \<and> 3 * nat n \<le> N + 1 \<and> gu_look k = (anch, bp))"
| "pst_thr d p m N k l (TGot (KPincf r n) b) = (0 < d \<and> n \<le> r \<and> r \<le> d \<and> r = m \<and> pincreq k = p + r \<and> 3 * nat n \<le> N + 2)"
| "pst_thr d p m N k l (TDown r n root) = (d \<le> 0 \<and> r = d \<and> pincreq k = p + d \<and> 2 * nat (- n) + l + 2 \<le> N)"
| "pst_thr d p m N k l (TGive r root) = (d \<le> 0 \<and> r = d \<and> pincreq k = p + d \<and> l + 1 \<le> N)"
| "pst_thr d p m N k l _ = False"

fun free_lock :: "cthread \<Rightarrow> bool" where
  "free_lock (TLockP d) = True"
| "free_lock _ = False"

fun pinning :: "cthread \<Rightarrow> bool" where
  "pinning (TPin c anch bp) = True"
| "pinning _ = False"

definition pst :: "nat \<Rightarrow> int \<Rightarrow> int \<Rightarrow> int \<Rightarrow> nat \<Rightarrow> csys \<Rightarrow> bool" where
  "pst t d p m N s \<longleftrightarrow> t < length (thr s) \<and> (\<exists>ls out pv. sys_ok ls out pv s \<and> pst_thr d p m N (io s) (length (pv t)) (thr s ! t))
     \<and> (free_lock (thr s ! t) \<longrightarrow> plock s = None) \<and> (\<not> pinning (thr s ! t) \<longrightarrow> maint s = None)"

definition pincf_done :: "nat \<Rightarrow> int \<Rightarrow> int \<Rightarrow> int \<Rightarrow> bool \<Rightarrow> csys \<Rightarrow> bool" where
  "pincf_done t d p m failed s \<longleftrightarrow> thr s ! t = TIdle \<and> plock s = None \<and> settled d p m failed s"

lemma pst_0: "\<not> pst t d p m 0 s"
proof
  assume "pst t d p m 0 s"
  then obtain ls out pv where s: "sys_ok ls out pv s" "pst_thr d p m 0 (io s) (length (pv t)) (thr s ! t)" "t < length (thr s)"
    by (auto simp: pst_def)
  note i = sys_okD(5) [OF s(1,3)]
  show False
  proof (cases "thr s ! t")
    case (TWant c)
    with s(2) i show ?thesis by (cases c) auto
  next
    case (TPin c anch bp)
    with s(2) i show ?thesis by (cases c) auto
  next
    case (TGot c b)
    with s(2) i show ?thesis by (cases c) auto
  qed (use s(2) i in auto)
qed

text \<open>The state after a step, where all that matters of it is its invariant.\<close>

lemma pstI:
  assumes "sys_inv s" and "t < length (thr s)" and "\<And>l. pst_thr d p m N (io s) l (thr s ! t)"
    and "free_lock (thr s ! t) \<Longrightarrow> plock s = None" and "\<not> pinning (thr s ! t) \<Longrightarrow> maint s = None"
  shows "pst t d p m N s"
  using assms unfolding pst_def sys_inv_def by blast

lemma pst_up:
  assumes inv: "sys_inv (pincf_up t r n s)" and t: "t < length (thr s)" and m: "maint s = None"
    and n: "0 < d" "0 \<le> n" "n \<le> r" "r \<le> d" "r = m" "pincreq (io s) = p + r" "3 * nat n \<le> N"
  shows "pst t d p m N (pincf_up t r n s) \<or> pincf_done t d p m f (pincf_up t r n s)"
proof (cases "n = 0")
  case True
  then show ?thesis using t n by (simp add: pincf_done_def pincf_up_def pincf_end_def end_call_def set_thr_def settled_def)
next
  case False
  then have "pst t d p m N (pincf_up t r n s)"
    by (intro pstI [OF inv]) (use t m n in \<open>simp_all add: pincf_up_def set_thr_def\<close>)
  then show ?thesis ..
qed

lemma pst_locked:
  assumes inv: "sys_ok ls out pv s" and t: "t < length (thr s)" and th: "thr s ! t = TLockP d" and l: "plock s = None" "maint s = None"
    and go: "go t b s = Some s'" and N: "3 * nat \<bar>d\<bar> + 3 \<le> Suc N"
  shows "pst t d (pincreq (io s)) (pincf_limit d (io s)) N s' \<or> pincf_done t d (pincreq (io s)) (pincf_limit d (io s)) f s'"
proof -
  have st: "pincf_locked t d (s\<lparr>plock := Some t\<rparr>) = Some s'" using go th l by (simp add: go_def)
  show ?thesis
  proof (cases "d > 0")
    case True
    note i = sys_okD [OF inv]
    let ?k = "io s"
    define \<delta> where "\<delta> = (if pincreq ?k + d > cmax ?k - LEFT_OVER then cmax ?k - LEFT_OVER - pincreq ?k else d)"
    have \<delta>: "0 \<le> \<delta>" "\<delta> \<le> d" "\<delta> = pincf_limit d ?k" using True i(7) by (auto simp: \<delta>_def pincf_limit_def)
    have "d < 2 ^ 30" "0 \<le> pincreq ?k" "pincreq ?k \<le> 2 ^ 30" using i(5) [OF t] th reserved_all(1) [OF inv] i(6,7,8) by (auto simp: LEFT_OVER_def)
    with \<delta> True have "int32 (pincreq ?k + d) = pincreq ?k + d" "int32 (pincreq ?k + \<delta>) = pincreq ?k + \<delta>" by (auto intro!: int32_id)
    then have s': "s' = pincf_up t \<delta> \<delta> (s\<lparr>plock := Some t, io := ?k\<lparr>pincreq := pincreq ?k + \<delta>\<rparr>\<rparr>)"
      using True st by (auto simp: pincf_locked_def Let_def \<delta>_def)
    show ?thesis unfolding s'
      by (rule pst_up) (use go_ok [OF inv t, of b] go s' t l True \<delta> N in auto)
  next
    case False
    have s': "s' = set_thr t (TDown d d None) (s\<lparr>plock := Some t, io := (io s)\<lparr>pincreq := pincreq (io s) + d\<rparr>\<rparr>)"
      using False st by (auto simp: pincf_locked_def Let_def split: if_splits)
    obtain ls' out' pv' where ok: "sys_ok ls' out' pv' s'" using go_ok [OF inv t, of b] go by (auto simp: sys_inv_def)
    from sys_okD(5) [OF ok, of t] t have "pv' t = []" by (simp add: s' set_thr_def path_None)
    with ok show ?thesis unfolding pst_def using t l False N by (auto simp: s' set_thr_def intro!: exI [of _ ls'] exI [of _ out'] exI [of _ pv'])
  qed
qed

lemma pst_pin:
  assumes inv: "sys_ok ls out pv s" and t: "t < length (thr s)" and th: "thr s ! t = TPin (KPincf r n) anch bp"
    and st: "pst_thr d p m (Suc N) (io s) (length (pv t)) (thr s ! t)" and go: "go t b s = Some s'"
  shows "pst t d p m N s' \<or> pincf_done t d p m (\<not> b) s'"
proof -
  note i = sys_okD [OF inv]
  have x: "0 < n" and bp: "\<And>c. bp = Some c \<Longrightarrow> c \<in> set (ls (unpinned_at anch))" using i(5) [OF t] th by simp_all
  have ok: "sys_inv s'" using go_ok [OF inv t, of b] go by simp
  from gu_rest_ok [OF i(1) bp, where pin_ok = b]
  consider "gu_rest b anch bp (io s) = Some (io s, None)" "b \<longrightarrow> bp = None \<and> cblkavail (io s) = cmax (io s)"
    | c ls' k where "gu_rest b anch bp (io s) = Some (k, Some c)" "got ls out c (io s) ls' k" by blast
  then show ?thesis
  proof cases
    case 1
    then have s': "s' = pincf_end t r n (s\<lparr>io := io s, maint := None\<rparr>)" using go th by (simp add: go_def cont_fail_def)
    have "b \<Longrightarrow> no_cblock (io s)" using st th 1(2) by (auto simp: no_cblock_def gu_look_def split: if_splits)
    then show ?thesis using s' t st th x
      by (auto simp: pincf_done_def pincf_end_def end_call_def set_thr_def settled_def no_cblock_def)
  next
    case 2
    then have s': "s' = set_thr t (TGot (KPincf r n) c) (s\<lparr>io := k, maint := None\<rparr>)" using go th by (simp add: go_def)
    have "pincreq k = pincreq (io s)" by (rule got_step(2) [OF 2(2) i(1)])
    then have "pst t d p m N s'" by (intro pstI [OF ok]) (use s' t st th in \<open>simp_all add: set_thr_def\<close>)
    then show ?thesis ..
  qed
qed

lemma pst_step:
  assumes "pst t d p m (Suc N) s"
  shows "\<exists>s'. clist_next (Go t b) s = Some s' \<and> (pst t d p m N s' \<or> pincf_done t d p m (\<not> b) s')"
proof -
  obtain ls out pv where inv: "sys_ok ls out pv (s\<lparr>res := None\<rparr>)" and t: "t < length (thr s)"
    and st: "pst_thr d p m (Suc N) (io s) (length (pv t)) (thr s ! t)"
    and lk: "free_lock (thr s ! t) \<Longrightarrow> plock s = None" "\<not> pinning (thr s ! t) \<Longrightarrow> maint s = None"
    using assms by (auto simp: pst_def sys_ok_res)
  let ?s = "s\<lparr>res := None\<rparr>"
  from go_ok [OF inv, of t b] t obtain s' where go: "go t b ?s = Some s'" and ok: "sys_inv s'" by auto
  note i = sys_okD [OF inv]
  have "pst t d p m N s' \<or> pincf_done t d p m (\<not> b) s'"
  proof (cases "thr s ! t")
    case (TLockP d')
    with pst_locked [OF inv, of t d' b s' N] t st lk go show ?thesis by simp
  next
    case (TWant c)
    with st obtain r n where c: "c = KPincf r n" by (cases c) auto
    have "s' = set_thr t (TPin c (fst (gu_look (io s))) (snd (gu_look (io s)))) (?s\<lparr>maint := Some t\<rparr>)"
      using go TWant lk by (simp add: go_def split: prod.splits)
    then have "pst t d p m N s'" using ok t st TWant by (intro pstI) (simp_all add: set_thr_def c)
    then show ?thesis ..
  next
    case (TPin c anch bp)
    with st obtain r n where "c = KPincf r n" by (cases c) auto
    with pst_pin [OF inv, of t r n anch bp d p m N b s'] t st TPin go show ?thesis by simp
  next
    case (TGot c b')
    with st obtain r n where c: "c = KPincf r n" by (cases c) auto
    have x: "0 < n" using i(5) [of t] t TGot c by simp
    have b': "b' \<in> out" using got_out [OF inv, of t c b'] t TGot by simp
    from putcf_ok [OF i(1) b'] obtain ls' k where k: "putcf b' (io s) = Some k" and put: "put_to ls out b' (io s) ls' k" by auto
    have s': "s' = pincf_up t r (n - 1) (?s\<lparr>io := k\<rparr>)" using go TGot c k by (simp add: go_def cont_got_def)
    have "pincreq k = pincreq (io s)" using put_step(3) [OF put] i(1) by simp
    moreover have "3 * nat (n - 1) \<le> N" using st TGot c x by (auto simp: nat_diff_distrib)
    ultimately show ?thesis using ok t st TGot c x lk unfolding s' by (intro pst_up) simp_all
  next
    case (TDown r n root)
    from pincf_down_ok [OF inv, of t r n root] t TDown go obtain ls' out' pv' where
      "sys_ok ls' out' pv' s'" "pincreq (io s') = pincreq (io s)" "maint s' = maint s" "length (thr s') = length (thr s)"
      "thr s' ! t = TGive r root \<and> pv' t = pv t \<or> (\<exists>b. n < 0 \<and> thr s' ! t = TDown r (n + 1) (Some b) \<and> pv' t = b # pv t)"
      by (auto simp: go_def)
    with t st TDown lk show ?thesis unfolding pst_def by (auto intro!: exI [of _ ls'] exI [of _ out'] exI [of _ pv'])
  next
    case (TGive r root)
    show ?thesis
    proof (cases root)
      case None
      with go TGive have "s' = end_call t (RInt r) (?s\<lparr>plock := None\<rparr>)" by (simp add: go_def pincf_give_def)
      with t st TGive show ?thesis by (simp add: pincf_done_def settled_def end_call_def set_thr_def)
    next
      case (Some b0)
      with go TGive have "thr s' ! t \<noteq> TIdle" using t by (auto simp: go_def pincf_give_def set_thr_def)
      with pincf_give_ok [OF inv, of t r root] t TGive go obtain ls' out' pv' root' where
        "sys_ok ls' out' pv' s'" "pincreq (io s') = pincreq (io s)" "maint s' = maint s" "length (thr s') = length (thr s)"
        "thr s' ! t = TGive r root'" "length (pv t) = Suc (length (pv' t))"
        by (auto simp: go_def)
      with t st TGive lk show ?thesis unfolding pst_def by (auto intro!: exI [of _ ls'] exI [of _ out'] exI [of _ pv'])
    qed
  qed (use st in simp_all)
  with go t show ?thesis by (simp add: clist_next_def Let_def)
qed

lemma pst_run:
  "pst t d p m (length bs) s
    \<Longrightarrow> \<exists>i s'. i \<le> length bs \<and> run clist_next (map (Go t) (take i bs)) s = Some s' \<and> pincf_done t d p m (False \<in> set (take i bs)) s'"
proof (induction bs arbitrary: s)
  case (Cons b bs)
  then obtain s1 where s1: "clist_next (Go t b) s = Some s1" "pst t d p m (length bs) s1 \<or> pincf_done t d p m (\<not> b) s1"
    using pst_step [of t d p m "length bs" s b] by auto
  from s1(2) show ?case
  proof
    assume "pst t d p m (length bs) s1"
    from Cons.IH [OF this] obtain i s' where "i \<le> length bs" "run clist_next (map (Go t) (take i bs)) s1 = Some s'"
      "pincf_done t d p m (False \<in> set (take i bs)) s'" by blast
    with s1(1) show ?thesis by (intro exI [of _ "Suc i"] exI [of _ s']) (auto simp: pincf_done_def settled_def)
  next
    assume "pincf_done t d p m (\<not> b) s1"
    with s1(1) show ?thesis by (intro exI [of _ 1] exI [of _ s1]) (auto simp: pincf_done_def settled_def)
  qed
qed (simp add: pst_0)


section \<open>Runs with put_pinned_front in two halves\<close>

text \<open>
  The runs with the two halves in which nothing comes in between are, when no thread is between them, those of \<open>clist_next\<close>; and
  between the halves the state is that of \<open>clist_next\<close> but for what the first half wrote.
\<close>

lemma ppf_halves: "put_pinned_front bp k = map_option (ppf_end bp) (ppf_begin bp k)"
  by (simp add: put_pinned_front_def ppf_begin_def ppf_end_def Let_def)

lemma wait_blockD: "wait_block x = Some b \<Longrightarrow> x = TGot KWait b"
  by (induction x rule: wait_block.induct) auto

lemma at_ppfD: "at_ppf e s = Some (t, b) \<Longrightarrow> \<exists>pin_ok. e = Go t pin_ok \<and> t < length (thr s) \<and> thr s ! t = TGot KWait b"
  by (auto simp: at_ppf_def dest: wait_blockD split: cev.splits if_splits)

definition half_way :: "nat \<Rightarrow> nat \<Rightarrow> csys \<Rightarrow> csys \<Rightarrow> bool" where
  "half_way t b s0 s \<longleftrightarrow> sys_inv s0 \<and> t < length (thr s0) \<and> thr s0 ! t = TGot KWait b
     \<and> (\<exists>k. ppf_begin b (io s0) = Some k \<and> s = s0\<lparr>res := None, io := k\<rparr>)"

definition fine_inv :: "csys \<times> nat list \<Rightarrow> bool" where
  "fine_inv x \<longleftrightarrow> (case x of (s, pend) \<Rightarrow> (case pend of [] \<Rightarrow> sys_inv s | [t] \<Rightarrow> (\<exists>b s0. half_way t b s0 s) | _ \<Rightarrow> False))"

lemma next_ppf:
  assumes "thr s ! t = TGot KWait b" and "t < length (thr s)"
  shows "clist_next (Go t pin_ok) s = map_option (\<lambda>k. w_inner t (s\<lparr>res := None, io := ppf_end b k\<rparr>)) (ppf_begin b (io s))"
  using assms by (simp add: clist_next_def go_def cont_got_def ppf_halves option.map_comp comp_def)

lemma fine_step:
  assumes inv: "fine_inv x" and lg: "clist_legal e" and go: "goes_on (snd x) e"
  shows "\<exists>y. clist_fine e x = Some y \<and> fine_inv y"
proof (cases x)
  case (Pair s pend)
  show ?thesis
  proof (cases pend)
    case Nil
    have s: "sys_inv s" using inv Pair Nil by (simp add: fine_inv_def)
    from clist_next_ok [OF lg s] obtain s' where s': "clist_next e s = Some s'" "sys_inv s'" by blast
    show ?thesis
    proof (cases "at_ppf e s")
      case None
      with s' Pair Nil show ?thesis by (simp add: fine_inv_def)
    next
      case (Some tb)
      then obtain t b where tb: "at_ppf e s = Some (t, b)" by (cases tb) auto
      from at_ppfD [OF tb] obtain pin_ok where e: "e = Go t pin_ok" "t < length (thr s)" "thr s ! t = TGot KWait b" by blast
      with s'(1) next_ppf [OF e(3,2)] obtain k where "ppf_begin b (io s) = Some k" by auto
      with e s tb Pair Nil show ?thesis by (auto simp: fine_inv_def half_way_def)
    qed
  next
    case (Cons t ts)
    with inv Pair obtain b s0 where ts: "ts = []" and h: "half_way t b s0 s" by (cases ts) (auto simp: fine_inv_def)
    from h obtain k where k: "sys_inv s0" "t < length (thr s0)" "thr s0 ! t = TGot KWait b" "ppf_begin b (io s0) = Some k"
      "s = s0\<lparr>res := None, io := k\<rparr>" by (auto simp: half_way_def)
    from go Pair Cons obtain pin_ok where e: "e = Go t pin_ok" by (cases e) auto
    have "clist_next e s0 = Some (w_inner t (s0\<lparr>res := None, io := ppf_end b k\<rparr>))" using next_ppf [OF k(3,2)] k(4) e by simp
    with clist_next_ok [OF lg k(1)] have "sys_inv (w_inner t (s0\<lparr>res := None, io := ppf_end b k\<rparr>))" by simp
    then show ?thesis using Pair Cons ts e k by (simp add: at_ppf_def fine_inv_def)
  qed
qed

lemma fine_run:
  "fine_inv x \<Longrightarrow> list_all clist_legal es \<Longrightarrow> undisturbed es x \<Longrightarrow> \<exists>y. run clist_fine es x = Some y \<and> fine_inv y"
proof (induction es arbitrary: x)
  case (Cons e es)
  with fine_step [of x e] obtain y where "clist_fine e x = Some y" "fine_inv y" by auto
  with Cons show ?case by simp
qed simp

lemma fine_boot:
  assumes "30 \<le> v" and "v \<le> 2 ^ 30" and "list_all clist_legal es" and "undisturbed es (cinit v nlists threads, [])"
  shows "\<exists>s pend. run clist_fine es (cinit v nlists threads, []) = Some (s, pend) \<and> fine_inv (s, pend)"
  using fine_run [OF _ assms(3,4)] cinit_ok [OF assms(1,2)] by (simp add: fine_inv_def)

text \<open>Between the halves the cblock is its thread's, and every list is as it was; only the count of the pinned list is ahead by one.\<close>

lemma walk_other:
  assumes "\<And>i. i \<noteq> b \<Longrightarrow> cb k i = cb k0 i"
  shows "b \<notin> set (walk n k0 h) \<Longrightarrow> walk n k h = walk n k0 h"
  by (induction n arbitrary: h) (auto simp: assms split: option.splits)

lemma gather_walk: "gather n k h = concat (map (\<lambda>b. bytes (cb k b)) (walk n k h))"
  by (induction n arbitrary: h) (auto split: option.splits)

lemma begin_same:
  assumes "ppf_begin b k0 = Some k"
  shows "\<And>i. i \<noteq> b \<Longrightarrow> cb k i = cb k0 i" and "length (cblocks k) = length (cblocks k0)"
    and "clists k = clists k0" and "cfree_next k = cfree_next k0" and "endcfree k = endcfree k0" and "pincfree_next k = pincfree_next k0"
    and "cfree_size k = cfree_size k0" and "pincfree_size k = pincfree_size k0 + 1" and "cblkhiwater k = cblkhiwater k0"
    and "pincreq k = pincreq k0" and "cmax k = cmax k0" and "pins k = pins k0"
    and "c_flags (cb k b) \<noteq> c_unpinned \<longleftrightarrow> c_flags (cb k0 b) \<noteq> c_unpinned"
  using assms by (auto simp: ppf_begin_def Let_def set_cb_def upd_def nth_list_update split: if_splits)

lemma half_lists:
  assumes h: "half_way t b s0 s"
  shows "chain (io s) (pincfree_next (io s)) = chain (io s0) (pincfree_next (io s0))"
    and "chain (io s) (cfree_next (io s)) = chain (io s0) (cfree_next (io s0))"
    and "chain (io s) (endcfree (io s)) = chain (io s0) (endcfree (io s0))"
    and "p < length (clists (io s0)) \<Longrightarrow> chain (io s) (c_cf (cl (io s) p)) = chain (io s0) (c_cf (cl (io s0) p))"
    and "t' < length (thr s0) \<Longrightarrow> owned (io s) (thr s ! t') = owned (io s0) (thr s0 ! t')"
    and "p < length (clists (io s0)) \<Longrightarrow> chars s p = chars s0 p"
proof -
  from h obtain k where k: "sys_inv s0" "t < length (thr s0)" "thr s0 ! t = TGot KWait b" "ppf_begin b (io s0) = Some k"
    "s = s0\<lparr>res := None, io := k\<rparr>" by (auto simp: half_way_def)
  from k(1) obtain ls out pv where inv: "sys_ok ls out pv s0" by (auto simp: sys_inv_def)
  note i = sys_okD [OF inv] and e = begin_same [OF k(4)]
  have b: "b \<in> out" using got_out [OF inv k(2,3)] .
  have pvt: "pv t = [b]" using owned_pv [OF inv k(2)] k(3) by simp
  have other: "b \<notin> set (walk n (io s0) h) \<Longrightarrow> walk n k h = walk n (io s0) h" for n h by (rule walk_other) (rule e(1))
  have off: "b \<notin> set (chain (io s0) (head (io s0) pl))" for pl
    using chain_ls [OF i(1), of pl] linkedD(3) [OF cio_okD(1) [OF i(1)]] b by auto
  have ch: "chain k (head (io s0) pl) = chain (io s0) (head (io s0) pl)" for pl unfolding e(2) by (rule other [OF off])
  show "chain (io s) (pincfree_next (io s)) = chain (io s0) (pincfree_next (io s0))" using ch [of PPin] e k(5) by simp
  show "chain (io s) (cfree_next (io s)) = chain (io s0) (cfree_next (io s0))" using ch [of PFront] e k(5) by simp
  show "chain (io s) (endcfree (io s)) = chain (io s0) (endcfree (io s0))" using ch [of PEnd] e k(5) by simp
  show cf: "chain (io s) (c_cf (cl (io s) p)) = chain (io s0) (c_cf (cl (io s0) p))" if "p < length (clists (io s0))" for p
    using ch [of "PQ p"] e k(5) that by simp
  show "owned (io s) (thr s ! t') = owned (io s0) (thr s0 ! t')" if t': "t' < length (thr s0)" for t'
  proof (cases "t' = t")
    case True
    then show ?thesis using k by simp
  next
    case False
    then have "b \<notin> set (owned (io s0) (thr s0 ! t'))"
      using parts_one [OF i(2), of b "HThr t" "HThr t'"] pvt owned_pv [OF inv t'] by auto
    then show ?thesis using k(5) e(2) other by (cases "thr s0 ! t'") auto
  qed
  show "chars s p = chars s0 p" if p: "p < length (clists (io s0))"
  proof -
    have "\<forall>x \<in> set (chain (io s0) (c_cf (cl (io s0) p))). cb k x = cb (io s0) x"
    proof
      fix x
      assume "x \<in> set (chain (io s0) (c_cf (cl (io s0) p)))"
      then have "x \<noteq> b" using off [of "PQ p"] p by auto
      then show "cb k x = cb (io s0) x" by (rule e(1))
    qed
    then show ?thesis using cf [OF p] k(5) p e(2,3) by (simp add: chars_def gather_walk cong: map_cong)
  qed
qed

lemma half_everywhere:
  assumes h: "half_way t b s0 s"
  shows "everywhere s = everywhere s0"
proof -
  note l = half_lists [OF h]
  from h have e: "drv s = drv s0" "thr s = thr s0" "length (clists (io s)) = length (clists (io s0))"
    by (auto simp: half_way_def begin_same)
  have m1: "map (\<lambda>p. chain (io s) (c_cf (cl (io s) p))) [0..<length (clists (io s0))]
      = map (\<lambda>p. chain (io s0) (c_cf (cl (io s0) p))) [0..<length (clists (io s0))]" using l(4) by (intro map_cong) auto
  have m2: "map (\<lambda>t'. owned (io s) (thr s0 ! t')) [0..<length (thr s0)] = map (\<lambda>t'. owned (io s0) (thr s0 ! t')) [0..<length (thr s0)]"
    using l(5) e(2) by (intro map_cong) auto
  show ?thesis unfolding everywhere_def Let_def e l(1-3) m1 m2 ..
qed

text \<open>Counts, lists and pins agree, where \<open>n\<close> threads are between the halves.\<close>

definition counts_agree :: "int \<Rightarrow> csys \<Rightarrow> bool" where
  "counts_agree n s \<longleftrightarrow> 0 \<le> pincreq (io s) \<and> pincreq (io s) \<le> cmax (io s) - LEFT_OVER
    \<and> pincfree_size (io s) = int (length (chain (io s) (pincfree_next (io s)))) + n
    \<and> cfree_size (io s) = int (length (chain (io s) (cfree_next (io s)) @ chain (io s) (endcfree (io s))))
    \<and> (\<forall>p < length (clists (io s)). c_cc (cl (io s) p) = int (length (chars s p)))
    \<and> (\<forall>b < length (cblocks (io s)). pins (io s) ! b = (if b < cblkhiwater (io s) \<and> c_flags (cb (io s) b) \<noteq> c_unpinned then 1 else 0))"

lemma sys_counts:
  assumes "sys_inv s"
  shows "counts_agree 0 s"
proof -
  obtain ls out pv where s: "sys_ok ls out pv s" using assms by (auto simp: sys_inv_def)
  note i = sys_okD [OF s] and d = cio_okD [OF sys_okD(1) [OF s]]
  have "0 \<le> pincreq (io s)" using reserved_all(1) [OF s] i(6) by simp
  moreover have "pincfree_size (io s) = int (length (chain (io s) (pincfree_next (io s))))"
    using d(4) chain_ls [OF i(1), of PPin] by (simp add: free_ok_def)
  moreover have "cfree_size (io s) = int (length (chain (io s) (cfree_next (io s)) @ chain (io s) (endcfree (io s))))"
    using d(4) chain_ls [OF i(1), of PFront] chain_ls [OF i(1), of PEnd] by (simp add: free_ok_def)
  moreover have "\<forall>p < length (clists (io s)). c_cc (cl (io s) p) = int (length (chars s p))"
    using d(5) chars_content [OF i(1)] by (simp add: list_ok_def)
  ultimately show ?thesis using i(7) d(3) by (simp add: counts_agree_def blocks_ok_def)
qed

lemma half_counts:
  assumes h: "half_way t b s0 s"
  shows "counts_agree 1 s"
proof -
  from h obtain k where k: "sys_inv s0" "ppf_begin b (io s0) = Some k" "io s = k" by (auto simp: half_way_def)
  note l = half_lists [OF h] and e = begin_same [OF k(2)] and c = sys_counts [OF k(1), unfolded counts_agree_def]
  have "c_flags (cb k x) \<noteq> c_unpinned \<longleftrightarrow> c_flags (cb (io s0) x) \<noteq> c_unpinned" for x using e(1,13) by (cases "x = b") auto
  then show ?thesis using c l(1-3,6) e(2,3,7-12) k(3) unfolding counts_agree_def by simp
qed

lemma fine_counts: "fine_inv (s, pend) \<Longrightarrow> counts_agree (int (length pend)) s"
  by (auto simp: fine_inv_def sys_counts half_counts split: list.splits)

lemma fine_everywhere:
  assumes "fine_inv (s, pend)"
  shows "mset (everywhere s) = mset [0..<cblkhiwater (io s)]"
proof (cases pend)
  case Nil
  with assms everywhere_ok show ?thesis by (auto simp: fine_inv_def sys_inv_def)
next
  case (Cons t ts)
  with assms obtain b s0 where h: "half_way t b s0 s" by (auto simp: fine_inv_def split: list.splits)
  then have "sys_inv s0" "cblkhiwater (io s) = cblkhiwater (io s0)" by (auto simp: half_way_def begin_same)
  with half_everywhere [OF h] everywhere_ok show ?thesis by (auto simp: sys_inv_def)
qed

section \<open>Theorems\<close>

definition clist_run :: "nat \<Rightarrow> nat \<Rightarrow> nat \<Rightarrow> cev list \<Rightarrow> csys option" where
  "clist_run v nlists threads es = run clist_next es (cinit v nlists threads)"

lemma allowed_res [simp]: "allowed c (s\<lparr>res := r\<rparr>) = allowed c s"
  by (cases c) (simp_all add: allowed_def)

lemma clist_run_inv:
  assumes "30 \<le> v" and "v \<le> 2 ^ 30" and "list_all clist_legal es"
  shows "\<exists>s. clist_run v nlists threads es = Some s \<and> sys_inv s"
  using clist_machine.run_legal [OF assms(3) cinit_ok [OF assms(1,2)]] by (simp add: clist_run_def)

text \<open>
  A run for the witnesses: three cblocks are pinned, and a process is about to put a character on its list while interrupts used another.
\<close>

definition busy_start :: "cev list" where
  "busy_start = Base 0 (Pincf 3) # replicate 10 (Go 0 True) @ [Intr (Putc 65 0), Base 1 (Putc 66 1), Intr (Putc 67 0), Go 1 True, Go 1 True]"

text \<open>Cblock 0 is on the pinned list and cblock 1 is out.\<close>

definition two_blocks :: cio where
  "two_blocks =
     (let b = \<lparr>c_next = None, c_first = 0, c_last = 64, c_data = replicate 64 0, c_flags = c_pinned\<rparr> in
      \<lparr>cfree_next = None, cfree_size = 0, endcfree = None, pincfree_next = Some 0, pincfree_size = 1, endpincfree = Some 0,
       cblkhiwater = 2, pincreq = 1, cblkavail = 2, cmax = 40, waiters = [],
       cblocks = [b, b\<lparr>c_flags := c_busy\<rparr>] @ replicate 38 (b\<lparr>c_flags := c_unpinned\<rparr>), clists = [], pins = [1, 1] @ replicate 38 0\<rparr>)"

definition busy_state :: csys where
  "busy_state = the (clist_run 33 2 2 busy_start)"

lemma busy_legal: "list_all clist_legal busy_start"
  by code_simp

lemma busy_run: "clist_run 33 2 2 busy_start = Some busy_state"
  using clist_run_inv [OF _ _ busy_legal, of 33 2 2] by (auto simp: busy_state_def)

text \<open>
  C4. Over every interleaving of calls by processes and interrupt handlers in which nothing comes between the two halves of the
  \<open>put_pinned_front\<close> that \<open>waitcfree\<close> calls without a lock, no assertion of the code fails and no NULL pointer is
  followed; every count agrees with its list (that of the pinned list is one ahead between the halves), at least 30 cblocks are
  left to the unpinned lists, and a cblock is pinned once when it is below the high-water mark and not on an unpinned list, and
  otherwise not at all. The events are legal: no \<open>pincf\<close> from an interrupt handler or for \<open>2^30\<close> cblocks or more, \<open>putcbp\<close> for at least
  one and no more characters than there are, and drivers write only cblocks they hold. Where something comes between the halves, the
  assertion of \<open>get_pinned\<close> can fail: \<open>waitcfree_race\<close>.
\<close>

theorem clist_runs_safe:
  assumes "30 \<le> v" and "v \<le> 2 ^ 30" and "list_all clist_legal es" and "undisturbed es (cinit v nlists threads, [])"
  shows "\<exists>s pend. run clist_fine es (cinit v nlists threads, []) = Some (s, pend)
    \<and> 0 \<le> pincreq (io s) \<and> pincreq (io s) \<le> cmax (io s) - LEFT_OVER
    \<and> pincfree_size (io s) = int (length (chain (io s) (pincfree_next (io s)))) + int (length pend)
    \<and> cfree_size (io s) = int (length (chain (io s) (cfree_next (io s)) @ chain (io s) (endcfree (io s))))
    \<and> (\<forall>p < length (clists (io s)). c_cc (cl (io s) p) = int (length (chars s p)))
    \<and> (\<forall>b < length (cblocks (io s)). pins (io s) ! b = (if b < cblkhiwater (io s) \<and> c_flags (cb (io s) b) \<noteq> c_unpinned then 1 else 0))"
  using fine_boot [OF assms] fine_counts by (fastforce simp: counts_agree_def)

text \<open>
  A run for the witnesses: a process sleeps in \<open>waitcfree\<close> while another pins three cblocks, is woken, gets a cblock and
  puts it on the pinned list in two steps.
\<close>

definition wait_start :: "cev list" where
  "wait_start = Base 0 Waitcfree # Base 1 (Pincf 3) # replicate 10 (Go 1 True) @ replicate 4 (Go 0 True)"

lemma wait_legal: "list_all clist_legal wait_start"
  by code_simp

lemma wait_undisturbed: "undisturbed (wait_start @ [Go 0 True]) (cinit 33 2 2, [])" "undisturbed wait_start (cinit 33 2 2, [])"
  by code_simp+

definition wait_state :: "csys \<times> nat list" where
  "wait_state = the (run clist_fine wait_start (cinit 33 2 2, []))"

lemma wait_run: "run clist_fine wait_start (cinit 33 2 2, []) = Some (fst wait_state, snd wait_state)" and wait_half: "snd wait_state = [0]"
  by code_simp+

theorem clist_runs_safe_witness:
  "\<exists>s pend. run clist_fine wait_start (cinit 33 2 2, []) = Some (s, pend)
    \<and> 0 \<le> pincreq (io s) \<and> pincreq (io s) \<le> cmax (io s) - LEFT_OVER
    \<and> pincfree_size (io s) = int (length (chain (io s) (pincfree_next (io s)))) + int (length pend)
    \<and> cfree_size (io s) = int (length (chain (io s) (cfree_next (io s)) @ chain (io s) (endcfree (io s))))
    \<and> (\<forall>p < length (clists (io s)). c_cc (cl (io s) p) = int (length (chars s p)))
    \<and> (\<forall>b < length (cblocks (io s)). pins (io s) ! b = (if b < cblkhiwater (io s) \<and> c_flags (cb (io s) b) \<noteq> c_unpinned then 1 else 0))"
  by (rule clist_runs_safe [OF _ _ wait_legal wait_undisturbed(2)]) simp_all

text \<open>
  Where an interrupt handler takes a cblock between the halves, two more calls of \<open>getcf\<close> are enough for the assertion of
  \<open>get_pinned\<close> to fail.
\<close>

lemma waitcfree_race: "run clist_fine (wait_start @ [Intr Getcf, Go 0 True, Intr Getcf, Intr Getcf]) (cinit 33 2 2, []) = None"
  by code_simp

text \<open>
  C11. Between two steps every cblock below the high-water mark is in exactly one place: a free list, a character list, a
  driver, or a thread in the middle of a call. None is lost and none is on two lists, whatever page faults happen inside
  \<open>get_unpinned\<close>, over every run of legal events in which nothing comes between the two halves of the \<open>put_pinned_front\<close> of \<open>waitcfree\<close>.
\<close>

theorem clist_no_block_lost:
  assumes "30 \<le> v" and "v \<le> 2 ^ 30" and "list_all clist_legal es" and "undisturbed es (cinit v nlists threads, [])"
    and "run clist_fine es (cinit v nlists threads, []) = Some (s, pend)"
  shows "mset (everywhere s) = mset [0..<cblkhiwater (io s)]"
  using fine_boot [OF assms(1-4)] assms(5) fine_everywhere by auto

theorem clist_no_block_lost_witness: "mset (everywhere (fst wait_state)) = mset [0..<cblkhiwater (io (fst wait_state))]"
  by (rule clist_no_block_lost [OF _ _ wait_legal wait_undisturbed(2) wait_run]) simp_all



text \<open>
  Each step of a process's call, between which interrupts and other calls happen, leaves the bytes of all lists alone but
  for the step in which \<open>putc\<close>, \<open>putcx\<close> or \<open>putcbp\<close> has its cblock and puts the bytes the call was made for at the right end.
\<close>

lemma clist_go_lists:
  assumes "30 \<le> v" and "v \<le> 2 ^ 30" and "list_all clist_legal es" and "clist_run v nlists threads es = Some s" and "t < length (thr s)"
  shows "\<exists>s'. clist_next (Go t pin_ok) s = Some s' \<and> go_chars t (thr s ! t) s' (chars s) (chars s')"
proof -
  let ?s = "s\<lparr>res := None\<rparr>"
  obtain ls out pv where inv: "sys_ok ls out pv ?s"
    using clist_run_inv [OF assms(1-3), of nlists threads] assms(4) by (auto simp: sys_inv_def sys_ok_res)
  from go_ok [OF inv, of t pin_ok] assms(5) obtain s' where go: "go t pin_ok ?s = Some s'" by auto
  have "chars ?s = chars s" by (simp add: chars_def fun_eq_iff)
  with go_chars_ok [OF inv _ go] assms(5) go show ?thesis by (simp add: clist_next_def)
qed

lemma clist_go_lists_witness:
  "\<exists>s'. clist_next (Go 1 True) busy_state = Some s' \<and> go_chars 1 (thr busy_state ! 1) s' (chars busy_state) (chars s')"
proof (rule clist_go_lists [OF _ _ busy_legal busy_run])
  show "1 < length (thr busy_state)" by code_simp
qed simp_all

text \<open>
  C25. A call of \<open>pincf d\<close> with \<open>d < 2^30\<close> that no other process disturbs ends, whatever pins fail, in at most three steps for each
  cblock and three more, releases its lock and returns the number by which it changed \<open>pincreq\<close>. That is \<open>d\<close> where \<open>d\<close> is not
  positive, and otherwise \<open>d\<close> or what is left up to \<open>cmax - LEFT_OVER\<close>; only where a pin failed, or no cblock was left, it is less.
\<close>

theorem pincf_settles:
  assumes "30 \<le> v" and "v \<le> 2 ^ 30" and "list_all clist_legal es" and "clist_run v nlists threads es = Some s"
    and "t < length (thr s)" and "thr s ! t = TIdle" and "maint s = None" and "plock s = None"
    and "allowed (Pincf d) s" and "d < 2 ^ 30" and "length bs = 3 * nat \<bar>d\<bar> + 3"
  shows "\<exists>i n s'. i \<le> length bs \<and> run clist_next (Base t (Pincf d) # map (Go t) (take i bs)) s = Some s'
    \<and> thr s' ! t = TIdle \<and> plock s' = None \<and> res s' = Some (RInt n) \<and> pincreq (io s') = pincreq (io s) + n
    \<and> (if d \<le> 0 then n = d
       else n = pincf_limit d (io s) \<or> 0 \<le> n \<and> n < pincf_limit d (io s) \<and> (False \<in> set (take i bs) \<or> no_cblock (io s')))"
proof -
  let ?s = "s\<lparr>res := None\<rparr>" and ?w = "set_thr t (TLockP d) (s\<lparr>res := None\<rparr>)"
  obtain ls out pv where inv: "sys_ok ls out pv ?s"
    using clist_run_inv [OF assms(1-3), of nlists threads] assms(4) by (auto simp: sys_inv_def sys_ok_res)
  have al: "allowed (Pincf d) ?s" using assms(9) by simp
  have st: "clist_next (Base t (Pincf d)) s = Some ?w" using assms(5,6) al by (simp add: clist_next_def base_call_def Let_def)
  have "sys_inv ?w" using base_pincf [OF inv _ _ al assms(10)] assms(5,6) by simp
  then have "pst t d (pincreq (io s)) (pincf_limit d (io s)) (length bs) ?w"
    by (rule pstI) (use assms(5,7,8,11) in \<open>simp_all add: set_thr_def\<close>)
  from pst_run [OF this] obtain i s' where "i \<le> length bs" "run clist_next (map (Go t) (take i bs)) ?w = Some s'"
    "pincf_done t d (pincreq (io s)) (pincf_limit d (io s)) (False \<in> set (take i bs)) s'" by blast
  then show ?thesis using st unfolding pincf_done_def settled_def by (intro exI [of _ i]) auto
qed

theorem pincf_settles_witness:
  "\<exists>i n s'. i \<le> length (True # replicate 8 False)
    \<and> run clist_next (Base 0 (Pincf 2) # map (Go 0) (take i (True # replicate 8 False))) (cinit 33 2 2) = Some s'
    \<and> thr s' ! 0 = TIdle \<and> plock s' = None \<and> res s' = Some (RInt n) \<and> pincreq (io s') = pincreq (io (cinit 33 2 2)) + n
    \<and> (if (2::int) \<le> 0 then n = 2
       else n = pincf_limit 2 (io (cinit 33 2 2)) \<or> 0 \<le> n \<and> n < pincf_limit 2 (io (cinit 33 2 2))
         \<and> (False \<in> set (take i (True # replicate 8 False)) \<or> no_cblock (io s')))"
proof (rule pincf_settles [where v = 33 and es = "[]" and nlists = 2 and threads = 2])
  show "clist_run 33 2 2 [] = Some (cinit 33 2 2)" by (simp add: clist_run_def)
  show "0 < length (thr (cinit 33 2 2))" "thr (cinit 33 2 2) ! 0 = TIdle" "maint (cinit 33 2 2) = None" "plock (cinit 33 2 2) = None"
    "allowed (Pincf 2) (cinit 33 2 2)" by (simp_all add: cinit_def allowed_def)
qed simp_all

text \<open>
  A process that finds both unpinned lists empty sleeps in \<open>waitcfree\<close> even though cblocks above the high-water mark are
  free: another process gets one with \<open>getcf\<close>, and the first sleeps on.
\<close>

lemma waitcfree_sleeps_past_free:
  assumes "t < length (thr s)" and "t' < length (thr s)" and "t \<noteq> t'" and "thr s ! t = TIdle" and "thr s ! t' = TIdle" and "maint s = None"
    and "cfree_next (io s) = None" and "endcfree (io s) = None" and "cblkavail (io s) < cmax (io s)"
  shows "\<exists>s1 s2. clist_next (Base t Waitcfree) s = Some s1 \<and> run clist_next [Base t' Getcf, Go t' True, Go t' True, Go t' True] s1 = Some s2
    \<and> res s2 = Some (RBlock (Some (cblkhiwater (io s)))) \<and> thr s2 ! t = TSleep \<and> t \<in> set (waiters (io s2))"
  using assms by (simp add: clist_next_def allowed_def base_call_def w_outer_def sleep_def set_thr_def go_def gu_look_def gu_rest_def gu_raise_def
      pin_block_def Let_def cont_got_def end_call_def getcf_init_def)

lemma waitcfree_sleeps_past_free_witness:
  "\<exists>s1 s2. clist_next (Base 0 Waitcfree) (cinit 33 2 2) = Some s1 \<and> run clist_next [Base 1 Getcf, Go 1 True, Go 1 True, Go 1 True] s1 = Some s2
    \<and> res s2 = Some (RBlock (Some (cblkhiwater (io (cinit 33 2 2))))) \<and> thr s2 ! 0 = TSleep \<and> 0 \<in> set (waiters (io s2))"
  by (rule waitcfree_sleeps_past_free) (simp_all add: cinit_def)

text \<open>With interrupts disabled, \<open>waitcfree\<close> promises a cblock that the next \<open>getcf\<close> does not find.\<close>

lemma waitcfree_disabled_returns:
  assumes "pincfree_next (io s) = None"
  shows "\<exists>s1 s2. clist_next (Intr Waitcfree) s = Some s1 \<and> res s1 = Some (RInt EVENT_SUCC)
    \<and> clist_next (Intr Getcf) s1 = Some s2 \<and> res s2 = Some (RBlock None)"
  using assms by (simp add: clist_next_def allowed_def intr_call_def waitcfree_disabled_def ret_def getcf_def get_pinned_def)

text \<open>
  Where an interrupt handler takes a cblock between the two halves of \<open>put_pinned_front\<close> in \<open>waitcfree\<close>, which runs without
  the lock its header asks for, the cblock that was taken is on the list again, and the second \<open>get_pinned\<close> after that fails its assertion.
\<close>

lemma put_pinned_front_unlocked:
  assumes "bp < length (cblocks s)" and "c_flags (cb s bp) = c_busy" and "pincfree_next s = Some b" and "b < length (cblocks s)"
    and "c_flags (cb s b) = c_pinned"
  shows "put_pinned_front bp s = map_option (ppf_end bp) (ppf_begin bp s)
      \<and> (\<exists>s1 s2 s3. ppf_begin bp s = Some s1 \<and> get_pinned s1 = Some (s2, Some b) \<and> get_pinned (ppf_end bp s2) = Some (s3, Some bp)
          \<and> get_pinned s3 = None)"
proof
  show "put_pinned_front bp s = map_option (ppf_end bp) (ppf_begin bp s)"
    by (simp add: put_pinned_front_def ppf_begin_def ppf_end_def Let_def)
  have "bp \<noteq> b" using assms(2,5) by auto
  with assms show "\<exists>s1 s2 s3. ppf_begin bp s = Some s1 \<and> get_pinned s1 = Some (s2, Some b) \<and> get_pinned (ppf_end bp s2) = Some (s3, Some bp)
      \<and> get_pinned s3 = None"
    by (simp add: ppf_begin_def ppf_end_def get_pinned_def Let_def cb_set_cb)
qed

lemma put_pinned_front_unlocked_witness:
  "put_pinned_front 1 two_blocks = map_option (ppf_end 1) (ppf_begin 1 two_blocks)
    \<and> (\<exists>s1 s2 s3. ppf_begin 1 two_blocks = Some s1 \<and> get_pinned s1 = Some (s2, Some 0) \<and> get_pinned (ppf_end 1 s2) = Some (s3, Some 1)
        \<and> get_pinned s3 = None)"
  by (rule put_pinned_front_unlocked) (simp_all add: two_blocks_def Let_def)

end
