(* ===== verification/Fd.thy ===== *)
theory Fd
  imports Prelude "HOL-Library.Word" "HOL-Library.Monad_Syntax"
begin

text \<open>
  Open files: the table of descriptors of a process (\<open>src/bos/kernel/lfs/fd.c\<close>) and the system's table
  of open files (\<open>lfs/fio.c\<close>, \<open>lfs/closef.c\<close>), and what \<open>lfs/open.c\<close>, \<open>lfs/close.c\<close>, \<open>lfs/fcntl.c\<close>, \<open>lfs/lockrlse.c\<close> and \<open>lfs/fee.c\<close>
  (\<open>fork\<close>, \<open>exec\<close>, \<open>exit\<close>) do to both. An open file is an index into the table, \<open>None\<close> is NULL.
  An operation gives \<open>None\<close> where an assertion of the code fails.
\<close>

section \<open>Data\<close>

text \<open>
  \<open>f_up\<close> is the union of the vnode pointer of a file in use and the link of a free one;
  \<open>f_ops\<close> names the table of file operations.
\<close>

record open_file =
  f_flag :: "32 word"
  f_count :: int
  f_type :: int
  f_up :: "nat option"
  f_offset :: int
  f_dir_off :: int
  f_ops :: "nat option"
  f_cred :: "nat option"

record ufd =
  uf_fp :: "nat option"
  uf_flags :: "16 word"
  uf_count :: nat

text \<open>The part of the user structure, and whether the process exists. \<open>U_fdevent\<close> holds the threads that sleep on it.\<close>

record uproc =
  U_ufd :: "ufd list"
  U_maxofile :: nat
  U_lockflag :: bool
  U_fdevent :: "nat list"
  alive :: bool

text \<open>The first \<open>v_file\<close> entries of the array of files, and the head of the free list.\<close>

record ftab =
  files :: "open_file list"
  ffreelist :: "nat option"

text \<open>
  What the build fixes: the number of files (200000), where the array begins and the size of an entry, and the number of
  descriptors of a process (2000).
\<close>

record fcfg =
  nfile_max :: nat
  file_base :: nat
  file_size :: nat
  OPEN_MAX :: nat

definition PAGESIZE :: nat where "PAGESIZE = 4096"

definition FD_CLOEXEC :: "16 word" where "FD_CLOEXEC = 0x1"
definition UF_FDLOCK :: "16 word" where "UF_FDLOCK = 0x4"
definition UF_AUD_READ :: "16 word" where "UF_AUD_READ = 0x8"
definition UF_AUD_WRITE :: "16 word" where "UF_AUD_WRITE = 0x10"
definition UF_CLOSING :: "16 word" where "UF_CLOSING = 0x40"
definition UF_ALLOCATED :: "16 word" where "UF_ALLOCATED = 0x80"

definition FREAD :: "32 word" where "FREAD = 0x1"
definition FWRITE :: "32 word" where "FWRITE = 0x2"
definition FEXEC :: "32 word" where "FEXEC = 0x20"
definition FREVOKED :: "32 word" where "FREVOKED = 0x20000000"
definition O_ACCMODE :: "32 word" where "O_ACCMODE = 0x3"
definition FMASK :: "32 word" where "FMASK = 0x1f8ff"
definition FFCNTL :: "32 word" where "FFCNTL = 0x2801c"

definition DTYPE_VNODE :: int where "DTYPE_VNODE = 1"

abbreviation fl :: "ftab \<Rightarrow> nat \<Rightarrow> open_file" where "fl s f \<equiv> files s ! f"
abbreviation uf :: "uproc \<Rightarrow> nat \<Rightarrow> ufd" where "uf u j \<equiv> U_ufd u ! j"

definition set_fl :: "nat \<Rightarrow> (open_file \<Rightarrow> open_file) \<Rightarrow> ftab \<Rightarrow> ftab" where
  "set_fl f g s = s\<lparr>files := upd (files s) f g\<rparr>"

definition set_uf :: "nat \<Rightarrow> (ufd \<Rightarrow> ufd) \<Rightarrow> uproc \<Rightarrow> uproc" where
  "set_uf j g u = u\<lparr>U_ufd := upd (U_ufd u) j g\<rparr>"

definition has :: "16 word \<Rightarrow> ufd \<Rightarrow> bool" where
  "has w d \<longleftrightarrow> uf_flags d AND w \<noteq> 0"

section \<open>The table of files\<close>

definition blank_file :: open_file where
  "blank_file = \<lparr>f_flag = 0, f_count = 0, f_type = 0, f_up = None, f_offset = 0, f_dir_off = 0, f_ops = None, f_cred = None\<rparr>"

text \<open>
  \<open>fpgrow\<close> gives \<open>None\<close> where the code returns 0. It is called with an empty free list only. An entry is smaller than a page, so
  \<open>grow\<close> is 0 only where the code tests it.
\<close>

definition fpgrow :: "fcfg \<Rightarrow> ftab \<Rightarrow> ftab option" where
  "fpgrow cf s =
     (let n = length (files s); ve = file_base cf + n * file_size cf in
      if n \<ge> nfile_max cf then None
      else let fp = (ve + PAGESIZE) div PAGESIZE * PAGESIZE;
               grow = (fp - ve) div file_size cf;
               grow = (if grow \<le> 1 then grow + PAGESIZE div file_size cf else grow);
               grow = (if n + grow > nfile_max cf then nfile_max cf - n else grow)
           in if grow = 0 then None
              else Some (s\<lparr>files := files s @ map (\<lambda>i. blank_file\<lparr>f_up := if Suc i = grow then None else Some (n + Suc i)\<rparr>) [0..<grow],
                           ffreelist := Some n\<rparr>))"

text \<open>The body of \<open>fpalloc\<close> once the free list has an entry, and the whole, which grows the table at most once.\<close>

definition fp_take :: "nat option \<Rightarrow> 32 word \<Rightarrow> int \<Rightarrow> nat option \<Rightarrow> ftab \<Rightarrow> (ftab \<times> (errno + nat)) option" where
  "fp_take vp flag type ops s =
     (case ffreelist s of
        None \<Rightarrow> None
      | Some f \<Rightarrow>
          let s = s\<lparr>ffreelist := f_up (fl s f)\<rparr>
          in if f_count (fl s f) \<noteq> 0 then None
             else Some (set_fl f (\<lambda>r. r\<lparr>f_count := 1, f_up := vp, f_flag := flag, f_type := type, f_ops := ops,
                          f_offset := 0, f_dir_off := 0, f_cred := None\<rparr>) s, Inr f))"

definition fpalloc :: "fcfg \<Rightarrow> nat option \<Rightarrow> 32 word \<Rightarrow> int \<Rightarrow> nat option \<Rightarrow> ftab \<Rightarrow> (ftab \<times> (errno + nat)) option" where
  "fpalloc cf vp flag type ops s =
     (case ffreelist s of
        Some f \<Rightarrow> fp_take vp flag type ops s
      | None \<Rightarrow> (case fpgrow cf s of None \<Rightarrow> Some (s, Inl ENFILE) | Some s \<Rightarrow> fp_take vp flag type ops s))"

definition fpfree :: "nat \<Rightarrow> ftab \<Rightarrow> ftab option" where
  "fpfree f s = (if f_count (fl s f) \<noteq> 0 then None
                 else Some ((set_fl f (\<lambda>r. r\<lparr>f_up := ffreelist s\<rparr>) s)\<lparr>ffreelist := Some f\<rparr>))"

definition ffree :: "nat \<Rightarrow> ftab \<Rightarrow> ftab option" where
  "ffree f s = fpfree f (set_fl f (\<lambda>r. r\<lparr>f_count := 0\<rparr>) s)"

definition fp_hold :: "nat \<Rightarrow> ftab \<Rightarrow> ftab option" where
  "fp_hold f s = (if f_count (fl s f) \<le> 0 then None else Some (set_fl f (\<lambda>r. r\<lparr>f_count := f_count r + 1\<rparr>) s))"

text \<open>\<open>closef\<close> up to the call of the file operation: whether that was the last reference.\<close>

definition closef_drop :: "nat \<Rightarrow> ftab \<Rightarrow> (ftab \<times> bool) option" where
  "closef_drop f s =
     (if f_count (fl s f) \<le> 0 then None
      else let s = set_fl f (\<lambda>r. r\<lparr>f_count := f_count r - 1\<rparr>) s in Some (s, f_count (fl s f) \<le> 0))"

section \<open>The descriptors of a process\<close>

definition in_range :: "int \<Rightarrow> uproc \<Rightarrow> bool" where
  "in_range fd u \<longleftrightarrow> 0 \<le> fd \<and> fd < int (U_maxofile u)"

definition ufdgetf :: "int \<Rightarrow> ftab \<Rightarrow> uproc \<Rightarrow> (errno + nat) option" where
  "ufdgetf fd s u =
     (if in_range fd u
      then if uf_count (uf u (nat fd)) = 0 then None
           else case uf_fp (uf u (nat fd)) of
                  Some f \<Rightarrow> if f_flag (fl s f) AND FREVOKED = 0 then Some (Inr f) else Some (Inl EBADF)
                | None \<Rightarrow> Some (Inl EBADF)
      else Some (Inl EBADF))"

definition ufdsetf :: "int \<Rightarrow> nat \<Rightarrow> uproc \<Rightarrow> uproc option" where
  "ufdsetf fd f u =
     (if in_range fd u \<and> uf_count (uf u (nat fd)) = 0 \<and> uf_fp (uf u (nat fd)) = None \<and> has UF_ALLOCATED (uf u (nat fd))
      then Some (set_uf (nat fd) (\<lambda>d. d\<lparr>uf_fp := Some f, uf_flags := UF_ALLOCATED\<rparr>) u)
      else None)"

definition ufdhold :: "int \<Rightarrow> uproc \<Rightarrow> uproc \<times> errno option" where
  "ufdhold fd u =
     (if in_range fd u \<and> \<not> has UF_CLOSING (uf u (nat fd))
      then (set_uf (nat fd) (\<lambda>d. d\<lparr>uf_count := uf_count d + 1\<rparr>) u, None)
      else (u, Some EBADF))"

text \<open>\<open>e_wakeup\<close> takes all threads off the event list.\<close>

definition ufdrele :: "int \<Rightarrow> uproc \<Rightarrow> (uproc \<times> errno option) option" where
  "ufdrele fd u =
     (if in_range fd u
      then if uf_count (uf u (nat fd)) = 0 then None
           else let u = set_uf (nat fd) (\<lambda>d. d\<lparr>uf_count := uf_count d - 1\<rparr>) u;
                    u = (if uf_count (uf u (nat fd)) = 0 \<and> has UF_CLOSING (uf u (nat fd)) then u\<lparr>U_fdevent := []\<rparr> else u)
                in Some (u, None)
      else Some (u, Some EBADF))"

definition getufdflags :: "int \<Rightarrow> uproc \<Rightarrow> (errno + 16 word) option" where
  "getufdflags fd u =
     (if in_range fd u
      then if uf_count (uf u (nat fd)) = 0 then None
           else if uf_fp (uf u (nat fd)) \<noteq> None then Some (Inr (uf_flags (uf u (nat fd)))) else Some (Inl EBADF)
      else Some (Inl EBADF))"

definition put_cloexec :: "16 word \<Rightarrow> ufd \<Rightarrow> ufd" where
  "put_cloexec w d = d\<lparr>uf_flags := (uf_flags d AND NOT FD_CLOEXEC) OR (w AND FD_CLOEXEC)\<rparr>"

definition setufdflags :: "int \<Rightarrow> 16 word \<Rightarrow> uproc \<Rightarrow> (uproc \<times> errno option) option" where
  "setufdflags fd w u =
     (if in_range fd u
      then if uf_count (uf u (nat fd)) = 0 then None
           else if uf_fp (uf u (nat fd)) \<noteq> None then Some (set_uf (nat fd) (put_cloexec w) u, None) else Some (u, Some EBADF)
      else Some (u, Some EBADF))"

text \<open>The descriptor the loop of \<open>ufdalloc\<close> stops at, and what it stores.\<close>

definition unused :: "uproc \<Rightarrow> nat \<Rightarrow> bool" where
  "unused u i \<longleftrightarrow> i \<ge> U_maxofile u \<or> \<not> has UF_ALLOCATED (uf u i)"

definition ufd_new :: "nat \<Rightarrow> uproc \<Rightarrow> uproc" where
  "ufd_new i u =
     (let u = set_uf i (\<lambda>d. \<lparr>uf_fp = None, uf_flags = UF_ALLOCATED, uf_count = 0\<rparr>) u
      in if i \<ge> U_maxofile u
         then (fold (\<lambda>j. set_uf j (\<lambda>d. \<lparr>uf_fp = None, uf_flags = 0, uf_count = 0\<rparr>)) [U_maxofile u..<i] u)\<lparr>U_maxofile := i + 1\<rparr>
         else u)"

definition ufdalloc :: "fcfg \<Rightarrow> nat \<Rightarrow> uproc \<Rightarrow> uproc \<times> (errno + nat)" where
  "ufdalloc cf i u =
     (case List.find (unused u) [i..<OPEN_MAX cf] of
        None \<Rightarrow> (u, Inl EMFILE)
      | Some i \<Rightarrow> (ufd_new i u, Inr i))"

fun last_used :: "uproc \<Rightarrow> nat \<Rightarrow> nat" where
  "last_used u 0 = 0"
| "last_used u (Suc i) = (if has UF_ALLOCATED (uf u i) then Suc i else last_used u i)"

definition ufdfree :: "nat \<Rightarrow> uproc \<Rightarrow> uproc" where
  "ufdfree fd u =
     (let u = set_uf fd (\<lambda>d. d\<lparr>uf_fp := None, uf_flags := 0\<rparr>) u
      in if Suc fd = U_maxofile u then u\<lparr>U_maxofile := last_used u (U_maxofile u - 1)\<rparr> else u)"

text \<open>\<open>getf\<close> of a process with one active thread, which skips a test, and of one with more.\<close>

definition take_use :: "bool \<Rightarrow> nat \<Rightarrow> ftab \<Rightarrow> uproc \<Rightarrow> uproc \<times> (errno + nat)" where
  "take_use revokeflag fd s u =
     (case uf_fp (uf u fd) of
        Some f \<Rightarrow> if f_flag (fl s f) AND FREVOKED \<noteq> 0 \<and> revokeflag then (u, Inl EBADF)
                  else (set_uf fd (\<lambda>d. d\<lparr>uf_count := uf_count d + 1\<rparr>) u, Inr f)
      | None \<Rightarrow> (u, Inl EBADF))"

definition getf_1thread :: "bool \<Rightarrow> int \<Rightarrow> ftab \<Rightarrow> uproc \<Rightarrow> uproc \<times> (errno + nat)" where
  "getf_1thread revokeflag fd s u = (if in_range fd u then take_use revokeflag (nat fd) s u else (u, Inl EBADF))"

definition getf_many :: "bool \<Rightarrow> int \<Rightarrow> ftab \<Rightarrow> uproc \<Rightarrow> uproc \<times> (errno + nat)" where
  "getf_many revokeflag fd s u =
     (if in_range fd u
      then if \<not> has UF_CLOSING (uf u (nat fd)) then take_use revokeflag (nat fd) s u else (u, Inl EBADF)
      else (u, Inl EBADF))"

definition getf :: "nat \<Rightarrow> int \<Rightarrow> ftab \<Rightarrow> uproc \<Rightarrow> uproc \<times> (errno + nat)" where
  "getf p_active fd s u = (if p_active = 1 then getf_1thread True fd s u else getf_many True fd s u)"

definition getfx :: "nat \<Rightarrow> int \<Rightarrow> ftab \<Rightarrow> uproc \<Rightarrow> uproc \<times> (errno + nat)" where
  "getfx p_active fd s u = (if p_active = 1 then getf_1thread False fd s u else getf_many False fd s u)"

definition getft :: "nat \<Rightarrow> int \<Rightarrow> int \<Rightarrow> ftab \<Rightarrow> uproc \<Rightarrow> (uproc \<times> (errno + nat)) option" where
  "getft p_active fd want s u =
     (case getf p_active fd s u of
        (u, Inr f) \<Rightarrow> if f_type (fl s f) \<noteq> want then map_option (\<lambda>(u, rc). (u, Inl EINVAL)) (ufdrele fd u) else Some (u, Inr f)
      | (u, Inl e) \<Rightarrow> Some (u, Inl e))"

text \<open>\<open>lockrelease\<close>: the marks of record locks on the descriptors of the vnode go; the locks themselves are in theory \<open>Reclock\<close>.\<close>

definition lock_marked :: "ftab \<Rightarrow> ufd \<Rightarrow> bool" where
  "lock_marked s d \<longleftrightarrow> has UF_FDLOCK d \<and> (case uf_fp d of None \<Rightarrow> False | Some f \<Rightarrow> f_type (fl s f) = DTYPE_VNODE)"

definition same_vnode :: "ftab \<Rightarrow> nat \<Rightarrow> ufd \<Rightarrow> bool" where
  "same_vnode s f d \<longleftrightarrow> (case uf_fp d of None \<Rightarrow> False | Some g \<Rightarrow> f_up (fl s g) = f_up (fl s f))"

definition lockrelease :: "nat \<Rightarrow> ftab \<Rightarrow> uproc \<Rightarrow> uproc" where
  "lockrelease f s u =
     (if U_lockflag u
      then let js = filter (\<lambda>i. lock_marked s (uf u i)) [0..<U_maxofile u]
           in (fold (\<lambda>i. set_uf i (\<lambda>d. d\<lparr>uf_flags := uf_flags d AND NOT UF_FDLOCK\<rparr>)) (filter (\<lambda>i. same_vnode s f (uf u i)) js) u)
              \<lparr>U_lockflag := list_ex (\<lambda>i. \<not> same_vnode s f (uf u i)) js\<rparr>
      else u)"

text \<open>Two kernel services: \<open>ufdcreate\<close>, where \<open>ops\<close> is \<open>None\<close> if the table of operations is missing or incomplete, and \<open>fp_ufalloc\<close>.\<close>

definition ufdcreate :: "fcfg \<Rightarrow> 32 word \<Rightarrow> nat option \<Rightarrow> nat option \<Rightarrow> int \<Rightarrow> nat \<Rightarrow> ftab \<Rightarrow> uproc \<Rightarrow> (ftab \<times> uproc \<times> (errno + nat)) option" where
  "ufdcreate cf flags ops datap type crp s u =
     (if ops = None then Some (s, u, Inl EINVAL)
      else case ufdalloc cf 0 u of
        (u, Inl e) \<Rightarrow> Some (s, u, Inl e)
      | (u, Inr newfd) \<Rightarrow> do {
          (s, r) \<leftarrow> fpalloc cf datap flags type ops s;
          case r of
            Inl e \<Rightarrow> Some (s, ufdfree newfd u, Inl e)
          | Inr newfp \<Rightarrow> Some (set_fl newfp (\<lambda>r. r\<lparr>f_cred := Some crp\<rparr>) s, set_uf newfd (\<lambda>d. d\<lparr>uf_fp := Some newfp\<rparr>) u, Inr newfd)
        })"

text \<open>
  \<open>vnop_open\<close> is the result of \<open>VNOP_OPEN\<close>. Where a step fails the code frees the descriptor only \<open>if (newfd)\<close>. The flags pass
  through a \<open>short\<close>.
\<close>

definition fp_ufalloc :: "fcfg \<Rightarrow> nat \<Rightarrow> errno option \<Rightarrow> ftab \<Rightarrow> uproc \<Rightarrow> (ftab \<times> uproc \<times> (errno + nat)) option" where
  "fp_ufalloc cf fp vnop_open s u =
     (if f_count (fl s fp) \<le> 0 \<or> f_type (fl s fp) \<noteq> DTYPE_VNODE then None
      else case ufdalloc cf 0 u of
        (u, Inl e) \<Rightarrow> Some (s, u, Inl e)
      | (u, Inr newfd) \<Rightarrow>
          let flag = (ucast (f_flag (fl s fp)) :: 16 word);
              flag = (if flag AND ucast FEXEC \<noteq> 0 then (flag OR ucast FREAD) AND NOT (ucast FEXEC) else flag);
              u_err = (if newfd \<noteq> 0 then ufdfree newfd u else u)
          in do {
            (s, r) \<leftarrow> fpalloc cf (f_up (fl s fp)) (scast flag) (f_type (fl s fp)) (f_ops (fl s fp)) s;
            case r of
              Inl e \<Rightarrow> Some (s, u_err, Inl e)
            | Inr newfp \<Rightarrow>
                (case vnop_open of
                   None \<Rightarrow> Some (set_fl newfp (\<lambda>r. r\<lparr>f_cred := f_cred (fl s fp)\<rparr>) s, set_uf newfd (\<lambda>d. d\<lparr>uf_fp := Some newfp\<rparr>) u, Inr newfd)
                 | Some e \<Rightarrow> map_option (\<lambda>s. (s, u_err, Inl e)) (ffree newfp s))
          })"

end
