(* ===== verification/FdTab.thy ===== *)
theory FdTab
  imports Fd
begin

text \<open>
  The table of files on its own. \<open>hold\<close> says which file each reference is to: a descriptor, or an \<open>open\<close> that has not
  finished; \<open>dy\<close> which file each thread is closing for good. The other files are on the free list.
\<close>

section \<open>The invariant\<close>

datatype ref = RFd nat nat | RThr nat

definition holders :: "('a \<Rightarrow> nat option) \<Rightarrow> nat \<Rightarrow> 'a set" where
  "holders hold f = {r. hold r = Some f}"

definition ftab_at :: "nat list \<Rightarrow> (ref \<Rightarrow> nat option) \<Rightarrow> (nat \<Rightarrow> nat option) \<Rightarrow> ftab \<Rightarrow> bool" where
  "ftab_at fs hold dy k \<longleftrightarrow> finite (dom hold) \<and> path (\<lambda>f. f_up (fl k f)) (ffreelist k) fs \<and> distinct fs
     \<and> (\<forall>f. f \<in> set fs \<longleftrightarrow> f < length (files k) \<and> f \<notin> ran hold \<and> f \<notin> ran dy)
     \<and> (\<forall>f < length (files k). f_count (fl k f) = int (card (holders hold f)))
     \<and> (\<forall>r f. hold r = Some f \<longrightarrow> f < length (files k) \<and> f \<notin> ran dy)
     \<and> (\<forall>t t' f. dy t = Some f \<longrightarrow> f < length (files k) \<and> (dy t' = Some f \<longrightarrow> t' = t))
     \<and> (\<forall>t f r. hold (RThr t) = Some f \<longrightarrow> hold r = Some f \<longrightarrow> r = RThr t)"

lemma ftab_atI:
  assumes "finite (dom hold)" and "path (\<lambda>f. f_up (fl k f)) (ffreelist k) fs" and "distinct fs"
    and "\<And>f. f \<in> set fs \<longleftrightarrow> f < length (files k) \<and> f \<notin> ran hold \<and> f \<notin> ran dy"
    and "\<And>f. f < length (files k) \<Longrightarrow> f_count (fl k f) = int (card (holders hold f))"
    and "\<And>r f. hold r = Some f \<Longrightarrow> f < length (files k) \<and> f \<notin> ran dy"
    and "\<And>t t' f. dy t = Some f \<Longrightarrow> f < length (files k) \<and> (dy t' = Some f \<longrightarrow> t' = t)"
    and "\<And>t f r. hold (RThr t) = Some f \<Longrightarrow> hold r = Some f \<Longrightarrow> r = RThr t"
  shows "ftab_at fs hold dy k"
  using assms unfolding ftab_at_def by blast

lemma ftab_atD:
  assumes "ftab_at fs hold dy k"
  shows "finite (dom hold)" and "path (\<lambda>f. f_up (fl k f)) (ffreelist k) fs" and "distinct fs"
    and "f \<in> set fs \<longleftrightarrow> f < length (files k) \<and> f \<notin> ran hold \<and> f \<notin> ran dy"
    and "f < length (files k) \<Longrightarrow> f_count (fl k f) = int (card (holders hold f))"
    and "hold r = Some f \<Longrightarrow> f < length (files k)" and "hold r = Some f \<Longrightarrow> f \<notin> ran dy"
    and "dy t = Some f \<Longrightarrow> f < length (files k)" and "dy t = Some f \<Longrightarrow> dy t' = Some f \<Longrightarrow> t' = t"
    and "hold (RThr t) = Some f \<Longrightarrow> hold r = Some f \<Longrightarrow> r = RThr t"
  using assms unfolding ftab_at_def by blast+

lemma finite_holders: "finite (dom hold) \<Longrightarrow> finite (holders hold f)"
  unfolding holders_def by (rule finite_subset [of _ "dom hold"]) auto

lemma in_holders: "r \<in> holders hold f \<longleftrightarrow> hold r = Some f"
  by (simp add: holders_def)

lemma holders_new: "hold r = None \<Longrightarrow> holders (hold(r \<mapsto> f)) h = (if h = f then insert r (holders hold h) else holders hold h)"
  by (auto simp: holders_def)

lemma holders_drop: "hold r = Some f \<Longrightarrow> holders (hold(r := None)) h = (if h = f then holders hold h - {r} else holders hold h)"
  by (auto simp: holders_def)

lemma holders_none: "f \<notin> ran hold \<Longrightarrow> holders hold f = {}"
  by (auto simp: holders_def ran_def)

lemma in_ran_new: "hold r = None \<Longrightarrow> g \<in> ran (hold(r \<mapsto> f)) \<longleftrightarrow> g = f \<or> g \<in> ran hold"
  by (simp add: ran_map_upd)

lemma in_ran_drop: "hold r = Some f \<Longrightarrow> g \<in> ran (hold(r := None)) \<longleftrightarrow> g \<in> ran hold \<and> \<not> (g = f \<and> holders hold f = {r})"
proof (cases "g = f")
  case True
  then show "hold r = Some f \<Longrightarrow> ?thesis" by (auto simp: ran_def holders_def)
next
  case False
  then have "(hold(r := None)) x = Some g \<longleftrightarrow> hold x = Some g" if "hold r = Some f" for x using that by auto
  then show "hold r = Some f \<Longrightarrow> ?thesis" using False by (simp add: ran_def)
qed

lemma card_new: "finite (dom hold) \<Longrightarrow> hold r = None \<Longrightarrow> card (insert r (holders hold f)) = Suc (card (holders hold f))"
  using finite_holders [of hold f] by (subst card_insert_disjoint) (auto simp: in_holders)

lemma card_drop: "finite (dom hold) \<Longrightarrow> hold r = Some f \<Longrightarrow> card (holders hold f) = Suc (card (holders hold f - {r}))"
  using finite_holders [of hold f] card.remove [of "holders hold f" r] by (simp add: in_holders)

lemma held_count:
  assumes ok: "ftab_at fs hold dy k" and r: "hold r = Some f"
  shows "0 < f_count (fl k f)"
  using ftab_atD(5) [OF ok ftab_atD(6) [OF ok r]] card_drop [OF ftab_atD(1) [OF ok] r] by simp

lemma held_not_free: "ftab_at fs hold dy k \<Longrightarrow> hold r = Some f \<Longrightarrow> f \<notin> set fs"
  using ftab_atD(4) by (fastforce simp: ran_def)

section \<open>One file changes\<close>

lemma set_fl_simps [simp]:
  "length (files (set_fl f g k)) = length (files k)" "ffreelist (set_fl f g k) = ffreelist k"
  by (simp_all add: set_fl_def)

lemma fl_set_fl: "f < length (files k) \<Longrightarrow> fl (set_fl f g k) h = (if h = f then g (fl k f) else fl k h)"
  by (simp add: set_fl_def)

lemma path_set_fl: "f < length (files k) \<Longrightarrow> f \<notin> set fs \<Longrightarrow> path (\<lambda>h. f_up (fl (set_fl f g k) h)) x fs = path (\<lambda>h. f_up (fl k h)) x fs"
  by (rule path_cong) (auto simp: fl_set_fl)

text \<open>A change of a held file other than of its count.\<close>

lemma held_change:
  assumes ok: "ftab_at fs hold dy k" and r: "hold r = Some f" and g: "\<And>x. f_count (g x) = f_count x"
  shows "ftab_at fs hold dy (set_fl f g k)"
proof (rule ftab_atI)
  note d = ftab_atD [OF ok]
  have f: "f < length (files k)" by (rule d(6) [OF r])
  show "path (\<lambda>h. f_up (fl (set_fl f g k) h)) (ffreelist (set_fl f g k)) fs"
    using path_set_fl [OF f held_not_free [OF ok r]] d(2) by simp
  show "f_count (fl (set_fl f g k) h) = int (card (holders hold h))" if "h < length (files (set_fl f g k))" for h
    using that d(5) [of h] f g by (cases "h = f") (simp_all add: fl_set_fl)
qed (use ftab_atD [OF ok] in auto)

lemma fp_hold_ok:
  assumes ok: "ftab_at fs hold dy k" and p: "hold (RFd p j) = Some f" and r: "hold (RFd q i) = None"
  shows "\<exists>k'. fp_hold f k = Some k' \<and> ftab_at fs (hold(RFd q i \<mapsto> f)) dy k'"
proof -
  note d = ftab_atD [OF ok]
  have f: "f < length (files k)" by (rule d(6) [OF p])
  let ?k = "set_fl f (\<lambda>r. r\<lparr>f_count := f_count r + 1\<rparr>) k" and ?hold = "hold(RFd q i \<mapsto> f)"
  have "ftab_at fs ?hold dy ?k"
  proof (rule ftab_atI)
    show "finite (dom ?hold)" using d(1) by simp
    show "path (\<lambda>h. f_up (fl ?k h)) (ffreelist ?k) fs" using path_set_fl [OF f held_not_free [OF ok p]] d(2) by simp
    show "g \<in> set fs \<longleftrightarrow> g < length (files ?k) \<and> g \<notin> ran ?hold \<and> g \<notin> ran dy" for g
      using d(4) [of g] p r ranI [of hold "RFd p j" f] by (auto simp: in_ran_new)
    show "f_count (fl ?k h) = int (card (holders ?hold h))" if "h < length (files ?k)" for h
      using d(5) [of h] card_new [OF d(1) r, of h] that f r by (cases "h = f") (simp_all add: fl_set_fl holders_new)
    show "g < length (files ?k) \<and> g \<notin> ran dy" if "?hold x = Some g" for x g
      using that d(6,7) [of x g] d(6,7) [OF p] by (auto split: if_splits)
    show "x = RThr t" if "?hold (RThr t) = Some h" "?hold x = Some h" for t h x
      using that d(10) [of t h x] d(10) [of t h "RFd p j"] p by (auto split: if_splits)
  qed (use d in auto)
  then show ?thesis using held_count [OF ok p] f by (auto simp: fp_hold_def)
qed

text \<open>A reference goes, and with the last one the file is dying.\<close>

lemma closef_drop_at:
  assumes ok: "ftab_at fs hold dy k" and r: "hold r = Some f"
  defines "k' \<equiv> set_fl f (\<lambda>r. r\<lparr>f_count := f_count r - 1\<rparr>) k"
  shows "closef_drop f k = Some (k', holders hold f = {r})"
    and "path (\<lambda>h. f_up (fl k' h)) (ffreelist k') fs" and "h < length (files k') \<Longrightarrow> f_count (fl k' h) = int (card (holders (hold(r := None)) h))"
proof -
  note d = ftab_atD [OF ok]
  have f: "f < length (files k)" by (rule d(6) [OF r])
  show "path (\<lambda>h. f_up (fl k' h)) (ffreelist k') fs" using path_set_fl [OF f held_not_free [OF ok r]] d(2) by (simp add: k'_def)
  have cnt: "f_count (fl k' h) = int (card (holders (hold(r := None)) h))" if "h < length (files k')" for h
    using that d(5) [of h] card_drop [OF d(1) r] f r unfolding k'_def by (auto simp: fl_set_fl holders_drop)
  then show "h < length (files k') \<Longrightarrow> f_count (fl k' h) = int (card (holders (hold(r := None)) h))" .
  have "f_count (fl k' f) = int (card (holders hold f - {r}))" using cnt [of f] f r by (simp add: holders_drop k'_def)
  moreover have "card (holders hold f - {r}) = 0 \<longleftrightarrow> holders hold f - {r} = {}"
    using finite_holders [OF d(1), of f] by (simp only: card_0_eq finite_Diff)
  moreover have "holders hold f - {r} = {} \<longleftrightarrow> holders hold f = {r}" using r by (auto simp: in_holders)
  ultimately have "f_count (fl k' f) \<le> 0 \<longleftrightarrow> holders hold f = {r}" by simp
  then show "closef_drop f k = Some (k', holders hold f = {r})" using held_count [OF ok r] by (simp add: closef_drop_def k'_def)
qed

lemma closef_drop_ok:
  assumes ok: "ftab_at fs hold dy k" and r: "hold r = Some f" and t: "dy t = None"
  shows "\<exists>k'. closef_drop f k = Some (k', holders hold f = {r})
      \<and> ftab_at fs (hold(r := None)) (if holders hold f = {r} then dy(t \<mapsto> f) else dy) k'"
proof -
  note d = ftab_atD [OF ok] and c = closef_drop_at [OF ok r]
  let ?k = "set_fl f (\<lambda>r. r\<lparr>f_count := f_count r - 1\<rparr>) k" and ?hold = "hold(r := None)"
    and ?dy = "if holders hold f = {r} then dy(t \<mapsto> f) else dy"
  have f: "f < length (files k)" by (rule d(6) [OF r])
  have rd: "g \<in> ran ?dy \<longleftrightarrow> g \<in> ran dy \<or> g = f \<and> holders hold f = {r}" for g
    using t by (auto simp: ran_map_upd)
  have "ftab_at fs ?hold ?dy ?k"
  proof (rule ftab_atI [OF _ c(2) d(3) _ c(3)])
    show "finite (dom ?hold)" using d(1) by (rule rev_finite_subset) auto
    show "g \<in> set fs \<longleftrightarrow> g < length (files ?k) \<and> g \<notin> ran ?hold \<and> g \<notin> ran ?dy" for g
      using d(4) [of g] ranI [of hold r f] r unfolding in_ran_drop [of hold r f, OF r] rd by auto
    show "g < length (files ?k) \<and> g \<notin> ran ?dy" if "?hold x = Some g" for x g
    proof -
      have "hold x = Some g" "x \<noteq> r" using that by (auto split: if_splits)
      then show ?thesis using d(6,7) [of x g] unfolding rd by (auto simp: holders_def)
    qed
    show "g < length (files ?k) \<and> (?dy t'' = Some g \<longrightarrow> t'' = t')" if "?dy t' = Some g" for t' t'' g
      using that d(8) [of t' g] d(9) [of t' g t''] d(7) [OF r] f by (auto simp: ran_def split: if_splits)
    show "x = RThr t'" if "?hold (RThr t') = Some h" "?hold x = Some h" for t' h x
      using that d(10) [of t' h x] by (auto split: if_splits)
  qed auto
  with c(1) show ?thesis by blast
qed

lemma fpfree_ok:
  assumes ok: "ftab_at fs hold dy k" and t: "dy t = Some f"
  shows "\<exists>k'. fpfree f k = Some k' \<and> ftab_at (f # fs) hold (dy(t := None)) k'"
proof -
  note d = ftab_atD [OF ok]
  have f: "f < length (files k)" by (rule d(8) [OF t])
  let ?k = "(set_fl f (\<lambda>r. r\<lparr>f_up := ffreelist k\<rparr>) k)\<lparr>ffreelist := Some f\<rparr>"
  have nf: "f \<notin> ran hold" "f \<notin> set fs" using d(4) [of f] d(7) [of _ f] t by (auto simp: ran_def)
  have rd: "g \<in> ran (dy(t := None)) \<longleftrightarrow> g \<in> ran dy \<and> g \<noteq> f" for g
  proof -
    have "holders dy f = {t}" unfolding holders_def using t by (auto intro: d(9) [OF t])
    with in_ran_drop [of dy t f g] t show ?thesis by auto
  qed
  have z: "f_count (fl k f) = 0" using d(5) [OF f] holders_none [OF nf(1)] by simp
  have e: "fl ?k h = (if h = f then (fl k f)\<lparr>f_up := ffreelist k\<rparr> else fl k h)" for h using f by (simp add: set_fl_def)
  have "ftab_at (f # fs) hold (dy(t := None)) ?k"
  proof (rule ftab_atI [OF d(1)])
    have "path (\<lambda>h. f_up (fl ?k h)) (ffreelist k) fs = path (\<lambda>h. f_up (fl k h)) (ffreelist k) fs"
      by (rule path_cong) (use nf(2) e in auto)
    then show "path (\<lambda>h. f_up (fl ?k h)) (ffreelist ?k) (f # fs)" using d(2) e [of f] by simp
    show "distinct (f # fs)" using d(3) nf(2) by simp
    show "g \<in> set (f # fs) \<longleftrightarrow> g < length (files ?k) \<and> g \<notin> ran hold \<and> g \<notin> ran (dy(t := None))" for g
      using d(4) [of g] nf(1) f unfolding rd by auto
    show "f_count (fl ?k h) = int (card (holders hold h))" if "h < length (files ?k)" for h
      using that d(5) [of h] unfolding e by auto
    show "g < length (files ?k) \<and> g \<notin> ran (dy(t := None))" if "hold x = Some g" for x g
      using d(6,7) [OF that] unfolding rd by simp
    show "g < length (files ?k) \<and> ((dy(t := None)) t'' = Some g \<longrightarrow> t'' = t')" if "(dy(t := None)) t' = Some g" for t' t'' g
      using that d(8) [of t' g] d(9) [of t' g t''] by (auto split: if_splits)
  qed (rule d(10))
  with z show ?thesis by (simp add: fpfree_def)
qed


lemma ffree_ok:
  assumes ok: "ftab_at fs hold dy k" and r: "hold (RThr t) = Some f" and t: "dy t = None"
  shows "\<exists>k'. ffree f k = Some k' \<and> ftab_at (f # fs) (hold(RThr t := None)) dy k'"
proof -
  note d = ftab_atD [OF ok]
  have f: "f < length (files k)" by (rule d(6) [OF r])
  have h: "holders hold f = {RThr t}" unfolding holders_def using r by (auto intro: d(10) [OF r])
  then have "f_count (fl k f) = 1" using d(5) [OF f] by simp
  then have e: "set_fl f (\<lambda>r. r\<lparr>f_count := f_count r - 1\<rparr>) k = set_fl f (\<lambda>r. r\<lparr>f_count := 0\<rparr>) k" by (simp add: set_fl_def upd_def)
  from closef_drop_at(1) [OF ok r] closef_drop_ok [OF ok r t] h
  have "ftab_at fs (hold(RThr t := None)) (dy(t \<mapsto> f)) (set_fl f (\<lambda>r. r\<lparr>f_count := 0\<rparr>) k)" by (auto simp: e)
  from fpfree_ok [OF this, of t f] t show ?thesis by (simp add: ffree_def fun_upd_idem)
qed

lemma move_ok:
  assumes ok: "ftab_at fs hold dy k" and r: "hold (RThr t) = Some f" and q: "hold (RFd p j) = None"
  shows "ftab_at fs (hold(RThr t := None, RFd p j \<mapsto> f)) dy k"
proof (rule ftab_atI [OF _ ftab_atD(2,3) [OF ok]])
  note d = ftab_atD [OF ok]
  let ?hold = "hold(RThr t := None, RFd p j \<mapsto> f)"
  have h: "holders hold f = {RThr t}" unfolding holders_def using r by (auto intro: d(10) [OF r])
  have only: "x = RThr t" if "hold x = Some f" for x using d(10) [OF r that] .
  have g: "holders ?hold g = (if g = f then {RFd p j} else holders hold g)" for g
    unfolding holders_def using r q by (auto dest: only)
  have "g \<in> ran m \<longleftrightarrow> holders m g \<noteq> {}" for g and m :: "ref \<Rightarrow> nat option" by (auto simp: ran_def holders_def)
  then have rn: "g \<in> ran ?hold \<longleftrightarrow> g \<in> ran hold" for g using g [of g] h by (auto simp del: fun_upd_apply)
  show "finite (dom ?hold)" using d(1) by simp
  show "g \<in> set fs \<longleftrightarrow> g < length (files k) \<and> g \<notin> ran ?hold \<and> g \<notin> ran dy" for g unfolding rn by (rule d(4))
  show "f_count (fl k g) = int (card (holders ?hold g))" if "g < length (files k)" for g
    using d(5) [OF that] h unfolding g by auto
  show "g < length (files k) \<and> g \<notin> ran dy" if "?hold x = Some g" for x g
    using that d(6,7) [of x g] d(6,7) [OF r] by (auto split: if_splits)
  show "x = RThr t'" if "?hold (RThr t') = Some g" "?hold x = Some g" for t' g x
    using that d(10) [of t' g x] d(10) [of t' g "RThr t"] r by (auto split: if_splits)
  show "g < length (files k) \<and> (dy t'' = Some g \<longrightarrow> t'' = t')" if "dy t' = Some g" for t' t'' g
    using d(8) [OF that] d(9) [OF that] by simp
qed

section \<open>A new file\<close>

definition new_file :: "nat option \<Rightarrow> 32 word \<Rightarrow> int \<Rightarrow> nat option \<Rightarrow> open_file" where
  "new_file vp flag type ops = \<lparr>f_flag = flag, f_count = 1, f_type = type, f_up = vp, f_offset = 0, f_dir_off = 0, f_ops = ops, f_cred = None\<rparr>"

lemma fp_take_ok:
  assumes ok: "ftab_at (f # fs) hold dy k" and r: "hold r = None"
  shows "\<exists>k'. fp_take vp flag type ops k = Some (k', Inr f) \<and> ftab_at fs (hold(r \<mapsto> f)) dy k' \<and> files k' = (files k)[f := new_file vp flag type ops]"
proof -
  note d = ftab_atD [OF ok]
  have f: "f < length (files k)" "f \<notin> ran hold" "f \<notin> ran dy" "f \<notin> set fs" using d(3) d(4) [of f] by auto
  have hd: "ffreelist k = Some f" using d(2) by simp
  have z: "holders hold f = {}" by (rule holders_none [OF f(2)])
  let ?k = "k\<lparr>ffreelist := f_up (fl k f), files := (files k)[f := new_file vp flag type ops]\<rparr>" and ?hold = "hold(r \<mapsto> f)"
  have e: "fl ?k h = (if h = f then new_file vp flag type ops else fl k h)" for h using f(1) by simp
  have "ftab_at fs ?hold dy ?k"
  proof (rule ftab_atI)
    show "finite (dom ?hold)" using d(1) by simp
    have "path (\<lambda>h. f_up (fl ?k h)) (ffreelist ?k) fs = path (\<lambda>h. f_up (fl k h)) (ffreelist ?k) fs"
      by (rule path_cong) (use f(4) e in auto)
    then show "path (\<lambda>h. f_up (fl ?k h)) (ffreelist ?k) fs" using d(2) by simp
    show "distinct fs" using d(3) by simp
    show "g \<in> set fs \<longleftrightarrow> g < length (files ?k) \<and> g \<notin> ran ?hold \<and> g \<notin> ran dy" for g
      using d(4) [of g] f unfolding in_ran_new [of hold r, OF r] by auto
    show "f_count (fl ?k g) = int (card (holders ?hold g))" if "g < length (files ?k)" for g
      using that d(5) [of g] z unfolding e holders_new [of hold r, OF r] by (auto simp: new_file_def)
    show "g < length (files ?k) \<and> g \<notin> ran dy" if "?hold x = Some g" for x g
      using that d(6,7) [of x g] f by (auto split: if_splits)
    show "g < length (files ?k) \<and> (dy t' = Some g \<longrightarrow> t' = t)" if "dy t = Some g" for t t' g
      using d(8) [OF that] d(9) [OF that] by simp
    show "x = RThr t" if "?hold (RThr t) = Some g" "?hold x = Some g" for t g x
      using that d(10) [of t g x] f(2) by (auto simp: ran_def split: if_splits)
  qed
  moreover have "fp_take vp flag type ops k = Some (?k, Inr f)"
    using hd d(5) [OF f(1)] z f(1) by (simp add: fp_take_def set_fl_def upd_def new_file_def Let_def) (cases "fl k f", simp)
  ultimately show ?thesis by simp
qed

lemma fpgrow_ok:
  assumes ok: "ftab_at [] hold dy k" and g: "fpgrow cf k = Some k'"
  shows "\<exists>fs. fs \<noteq> [] \<and> ftab_at fs hold dy k' \<and> (\<forall>h < length (files k). fl k' h = fl k h) \<and> length (files k) < length (files k') \<and> length (files k') \<le> nfile_max cf"
proof -
  note d = ftab_atD [OF ok]
  define n where "n = length (files k)"
  define nx where "nx m i = (if Suc i = m then None else Some (n + Suc i))" for m i
  from g obtain m where m: "0 < m" "n + m \<le> nfile_max cf"
      and k': "k' = k\<lparr>files := files k @ map (\<lambda>i. blank_file\<lparr>f_up := nx m i\<rparr>) [0..<m], ffreelist := Some n\<rparr>"
  proof -
    define ve where "ve = file_base cf + length (files k) * file_size cf"
    define a where "a = ((ve + PAGESIZE) div PAGESIZE * PAGESIZE - ve) div file_size cf"
    define b where "b = (if a \<le> 1 then a + PAGESIZE div file_size cf else a)"
    define m where "m = (if n + b > nfile_max cf then nfile_max cf - n else b)"
    have "fpgrow cf k = (if nfile_max cf \<le> n then None else if m = 0 then None
        else Some (k\<lparr>files := files k @ map (\<lambda>i. blank_file\<lparr>f_up := nx m i\<rparr>) [0..<m], ffreelist := Some n\<rparr>))"
      unfolding fpgrow_def Let_def nx_def m_def b_def a_def ve_def n_def by (rule refl)
    then have "n < nfile_max cf" "m \<noteq> 0" "k' = k\<lparr>files := files k @ map (\<lambda>i. blank_file\<lparr>f_up := nx m i\<rparr>) [0..<m], ffreelist := Some n\<rparr>"
      using g by (simp_all split: if_splits)
    moreover have "n + m \<le> nfile_max cf" using \<open>n < nfile_max cf\<close> by (simp add: m_def)
    ultimately show ?thesis using that by blast
  qed
  have old: "fl k' h = fl k h" if "h < n" for h using that by (simp add: k' n_def nth_append)
  have new: "fl k' (n + i) = blank_file\<lparr>f_up := nx m i\<rparr>" if "i < m" for i using that by (simp add: k' n_def nth_append)
  have "path (\<lambda>h. f_up (fl k' h)) (if i < m then Some (n + i) else None) [n + i..<n + m]" if "i \<le> m" for i
    using that
  proof (induction rule: inc_induct)
    case (step i)
    then show ?case using new [of i] by (auto simp: upt_conv_Cons nx_def)
  qed simp
  from this [of 0] have "path (\<lambda>h. f_up (fl k' h)) (ffreelist k') [n..<n + m]" using m(1) by (simp add: k')
  moreover have "g \<in> set [n..<n + m] \<longleftrightarrow> g < length (files k') \<and> g \<notin> ran hold \<and> g \<notin> ran dy" for g
    using d(4) [of g] d(6) [of _ g] d(8) [of _ g] by (auto simp: k' n_def ran_def)
  moreover have "f_count (fl k' g) = int (card (holders hold g))" if "g < length (files k')" for g
  proof (cases "g < n")
    case True
    then show ?thesis using old d(5) by (simp add: n_def)
  next
    case False
    then have "holders hold g = {}" using d(6) [of _ g] by (auto simp: holders_def n_def)
    moreover have "f_count (fl k' g) = 0" using that False by (simp add: k' n_def blank_file_def nth_append)
    ultimately show ?thesis by simp
  qed
  moreover have "length (files k') = n + m" by (simp add: k' n_def)
  moreover have "hold r = Some f \<Longrightarrow> f < length (files k')" "dy t = Some f \<Longrightarrow> f < length (files k')" for r t f
    using d(6) [of r f] d(8) [of t f] by (simp_all add: k')
  ultimately have "ftab_at [n..<n + m] hold dy k'" using d(1,7,9,10) by (intro ftab_atI) auto
  then show ?thesis using old m \<open>length (files k') = n + m\<close> by (intro exI [of _ "[n..<n + m]"]) (auto simp: n_def)
qed

definition ftab_ok :: "(ref \<Rightarrow> nat option) \<Rightarrow> (nat \<Rightarrow> nat option) \<Rightarrow> ftab \<Rightarrow> bool" where
  "ftab_ok hold dy k \<longleftrightarrow> (\<exists>fs. ftab_at fs hold dy k)"

text \<open>A file is not found only when all are taken.\<close>

lemma fpalloc_ok:
  assumes ok: "ftab_ok hold dy k" and r: "hold r = None"
  shows "\<exists>k' x. fpalloc cf vp flag type ops k = Some (k', x)
     \<and> (case x of Inl e \<Rightarrow> e = ENFILE \<and> k' = k \<and> ffreelist k = None
        | Inr f \<Rightarrow> ftab_ok (hold(r \<mapsto> f)) dy k' \<and> f \<notin> ran hold \<and> f \<notin> ran dy \<and> f < length (files k') \<and> fl k' f = new_file vp flag type ops
            \<and> length (files k) \<le> length (files k') \<and> (\<forall>h < length (files k). h \<noteq> f \<longrightarrow> fl k' h = fl k h))"
proof -
  have take: ?thesis
    if "ftab_at (f # fs) hold dy k1" "fpalloc cf vp flag type ops k = fp_take vp flag type ops k1" "length (files k) \<le> length (files k1)"
      "\<And>h. h < length (files k) \<Longrightarrow> fl k1 h = fl k h" for f fs k1
  proof -
    have f: "f < length (files k1)" "f \<notin> ran hold" "f \<notin> ran dy" using ftab_atD(4) [OF that(1), of f] by auto
    from fp_take_ok [OF that(1) r] obtain k' where "fp_take vp flag type ops k1 = Some (k', Inr f)" "ftab_at fs (hold(r \<mapsto> f)) dy k'"
      "files k' = (files k1)[f := new_file vp flag type ops]" by blast
    then show ?thesis unfolding ftab_ok_def that(2) using f that(3,4) by (intro exI [of _ k'] exI [of _ "Inr f"]) auto
  qed
  from ok obtain fs where a: "ftab_at fs hold dy k" by (auto simp: ftab_ok_def)
  show ?thesis
  proof (cases fs)
    case (Cons f fs')
    with ftab_atD(2) [OF a] have "ffreelist k = Some f" by simp
    with take [of f fs' k] a Cons show ?thesis by (simp add: fpalloc_def)
  next
    case Nil
    with ftab_atD(2) [OF a] have n: "ffreelist k = None" by simp
    show ?thesis
    proof (cases "fpgrow cf k")
      case None
      with n show ?thesis by (auto simp: fpalloc_def)
    next
      case (Some k1)
      from fpgrow_ok [OF a [unfolded Nil] this] obtain gs where g: "gs \<noteq> []" "ftab_at gs hold dy k1"
        "\<forall>h < length (files k). fl k1 h = fl k h" "length (files k) < length (files k1)" by blast
      then obtain f fs' where "gs = f # fs'" by (cases gs) auto
      with take [of f fs' k1] g n Some show ?thesis by (simp add: fpalloc_def)
    qed
  qed
qed

end
