(* ===== verification/FdSys.thy ===== *)
theory FdSys
  imports FdTab
begin

text \<open>
  Many processes with many threads over one table of files. A step is the part of a system call between two points at
  which other threads can run: \<open>open\<close> looks up its path, a call that uses a descriptor sleeps or returns, \<open>close\<close>
  waits until nobody uses the descriptor, the file operation of a close sleeps, and the loops of \<open>F_CLOSEM\<close>,
  \<open>exec\<close> and \<open>exit\<close> go to their next round.
\<close>

section \<open>State\<close>

text \<open>Who called \<open>closefd\<close>, and what goes on after it.\<close>

datatype after = AClose | AClosem | AExec | AExit

text \<open>
  A thread does not exist, is in user mode, is in a call that holds a descriptor and its file, looks up the path of \<open>open\<close>
  with a descriptor, a file and the flags, waits to close a descriptor, is in the file operation of a last close, or
  is at the head of a loop.
\<close>

datatype fthread = FGone | FIdle | FUse nat nat | FOpening nat nat "32 word" | FWait nat after | FDying nat nat after | FLoop nat after

record fsys =
  ft :: ftab
  procs :: "uproc list"
  fthr :: "fthread list"
  owner :: "nat list"
  fres :: "(errno + int) option"

abbreviation own_proc :: "fsys \<Rightarrow> nat \<Rightarrow> uproc" where "own_proc s t \<equiv> procs s ! (owner s ! t)"

definition set_proc :: "nat \<Rightarrow> uproc \<Rightarrow> fsys \<Rightarrow> fsys" where
  "set_proc p u s = s\<lparr>procs := (procs s)[p := u]\<rparr>"

definition set_fthr :: "nat \<Rightarrow> fthread \<Rightarrow> fsys \<Rightarrow> fsys" where
  "set_fthr t x s = s\<lparr>fthr := (fthr s)[t := x]\<rparr>"

text \<open>A call of \<open>t\<close> that ends, with the user structure and the table it leaves.\<close>

definition done_call :: "nat \<Rightarrow> errno + int \<Rightarrow> ftab \<Rightarrow> uproc \<Rightarrow> fsys \<Rightarrow> fsys" where
  "done_call t r k u s = (set_fthr t FIdle (set_proc (owner s ! t) u s))\<lparr>ft := k, fres := Some r\<rparr>"

definition goes_on :: "nat \<Rightarrow> fthread \<Rightarrow> ftab \<Rightarrow> uproc \<Rightarrow> fsys \<Rightarrow> fsys" where
  "goes_on t x k u s = (set_fthr t x (set_proc (owner s ! t) u s))\<lparr>ft := k\<rparr>"

text \<open>\<open>p_threadcount\<close>.\<close>

definition threads_of :: "nat \<Rightarrow> fsys \<Rightarrow> nat list" where
  "threads_of p s = filter (\<lambda>t. owner s ! t = p \<and> fthr s ! t \<noteq> FGone) [0..<length (fthr s)]"

section \<open>close\<close>

text \<open>What follows the last use of the file in \<open>closefd\<close>: the descriptor is freed unless the process exits.\<close>

definition close_end :: "nat \<Rightarrow> nat \<Rightarrow> after \<Rightarrow> errno option \<Rightarrow> ftab \<Rightarrow> uproc \<Rightarrow> fsys \<Rightarrow> fsys" where
  "close_end t fd after rc k u s =
     (let u = (if after = AExit then u else ufdfree fd u) in
      if after = AClose then done_call t (case rc of None \<Rightarrow> Inr 0 | Some e \<Rightarrow> Inl e) k u s
      else goes_on t (FLoop (Suc fd) after) k u s)"

definition closefd :: "nat \<Rightarrow> nat \<Rightarrow> after \<Rightarrow> uproc \<Rightarrow> fsys \<Rightarrow> fsys option" where
  "closefd t fd after u s =
     (case uf_fp (uf u fd) of
        None \<Rightarrow> None
      | Some f \<Rightarrow>
          let u = lockrelease f (ft s) u in do {
            (k, last_ref) \<leftarrow> closef_drop f (ft s);
            if \<not> last_ref then Some (close_end t fd after None k u s)
            else if f_ops (fl k f) \<noteq> None then Some (goes_on t (FDying fd f after) k u s)
            else map_option (\<lambda>k. close_end t fd after None k u s) (fpfree f k)
          })"

text \<open>The wait of \<open>close\<close> and \<open>F_CLOSEM\<close>, which have set \<open>UF_CLOSING\<close>.\<close>

definition wait_unused :: "nat \<Rightarrow> nat \<Rightarrow> after \<Rightarrow> uproc \<Rightarrow> fsys \<Rightarrow> fsys option" where
  "wait_unused t fd after u s =
     (if uf_count (uf u fd) \<noteq> 0
      then if length (threads_of (owner s ! t) s) > 1
           then Some (goes_on t (FWait fd after) (ft s) (u\<lparr>U_fdevent := t # U_fdevent u\<rparr>) s)
           else None
      else closefd t fd after u s)"

definition set_closing :: "nat \<Rightarrow> uproc \<Rightarrow> uproc" where
  "set_closing fd = set_uf fd (\<lambda>d. d\<lparr>uf_flags := uf_flags d OR UF_CLOSING\<rparr>)"

definition can_close :: "uproc \<Rightarrow> nat \<Rightarrow> bool" where
  "can_close u fd \<longleftrightarrow> \<not> has UF_CLOSING (uf u fd) \<and> uf_fp (uf u fd) \<noteq> None"

definition fclose :: "nat \<Rightarrow> int \<Rightarrow> fsys \<Rightarrow> fsys option" where
  "fclose t fd s =
     (let u = own_proc s t in
      if \<not> in_range fd u \<or> \<not> can_close u (nat fd) then Some (done_call t (Inl EBADF) (ft s) u s)
      else wait_unused t (nat fd) AClose (set_closing (nat fd) u) s)"

section \<open>The loops over the descriptors\<close>

text \<open>\<open>F_CLOSEM\<close>, \<open>fs_exec\<close> and \<open>fs_exit\<close> from the descriptor \<open>i\<close> on, up to the next one they close.\<close>

definition closem_from :: "nat \<Rightarrow> nat \<Rightarrow> fsys \<Rightarrow> fsys option" where
  "closem_from t i s =
     (let u = own_proc s t in
      case List.find (can_close u) [i..<U_maxofile u] of
        None \<Rightarrow> Some (done_call t (Inr 0) (ft s) u s)
      | Some j \<Rightarrow> wait_unused t j AClosem (set_closing j u) s)"

definition clear_audit :: "nat list \<Rightarrow> uproc \<Rightarrow> uproc" where
  "clear_audit js u = fold (\<lambda>j. set_uf j (\<lambda>d. d\<lparr>uf_flags := uf_flags d AND NOT (UF_AUD_READ OR UF_AUD_WRITE)\<rparr>)) js u"

definition exec_from :: "nat \<Rightarrow> nat \<Rightarrow> fsys \<Rightarrow> fsys option" where
  "exec_from t i s =
     (let u = own_proc s t in
      case List.find (\<lambda>j. has FD_CLOEXEC (uf u j) \<and> uf_fp (uf u j) \<noteq> None) [i..<U_maxofile u] of
        None \<Rightarrow> Some (done_call t (Inr 0) (ft s) (clear_audit [i..<U_maxofile u] u) s)
      | Some j \<Rightarrow> closefd t j AExec (clear_audit [i..<Suc j] u) s)"

definition exit_from :: "nat \<Rightarrow> nat \<Rightarrow> fsys \<Rightarrow> fsys option" where
  "exit_from t i s =
     (let u = own_proc s t in
      case List.find (\<lambda>j. uf_fp (uf u j) \<noteq> None) [i..<U_maxofile u] of
        None \<Rightarrow> Some (goes_on t FGone (ft s) (u\<lparr>alive := False\<rparr>) s)
      | Some j \<Rightarrow> if uf_count (uf u j) \<noteq> 0 then None else closefd t j AExit u s)"

section \<open>open\<close>

definition open_flags :: "32 word \<Rightarrow> 32 word" where
  "open_flags oflags =
     (let flags = oflags AND NOT O_ACCMODE; m = oflags AND O_ACCMODE in
      if m = 0 then flags OR FREAD else if m = 1 then flags OR FWRITE else if m = 2 then flags OR (FREAD OR FWRITE) else flags)"

text \<open>\<open>openpnp\<close> up to the look at the path, which takes a file; then its end, where the path gives an error or a vnode.\<close>

definition openpnp :: "fcfg \<Rightarrow> nat \<Rightarrow> nat \<Rightarrow> 32 word \<Rightarrow> ftab \<Rightarrow> uproc \<Rightarrow> fsys \<Rightarrow> fsys option" where
  "openpnp cf t fd oflags k u s =
     (if open_flags oflags AND (FREAD OR FWRITE OR FEXEC) = 0 then Some (done_call t (Inl EINVAL) k (ufdfree fd u) s)
      else do {
        (k, r) \<leftarrow> fpalloc cf None (open_flags oflags AND FMASK) DTYPE_VNODE (Some 0) k;
        case r of
          Inl e \<Rightarrow> Some (done_call t (Inl e) k (ufdfree fd u) s)
        | Inr f \<Rightarrow> Some (goes_on t (FOpening fd f oflags) k u s)
      })"

definition copen :: "fcfg \<Rightarrow> nat \<Rightarrow> 32 word \<Rightarrow> fsys \<Rightarrow> fsys option" where
  "copen cf t oflags s =
     (case ufdalloc cf 0 (own_proc s t) of
        (u, Inl e) \<Rightarrow> Some (done_call t (Inl e) (ft s) u s)
      | (u, Inr fd) \<Rightarrow> openpnp cf t fd oflags (ft s) u s)"

definition open_done :: "fcfg \<Rightarrow> nat \<Rightarrow> nat \<Rightarrow> nat \<Rightarrow> 32 word \<Rightarrow> errno + (nat \<times> nat) \<Rightarrow> fsys \<Rightarrow> fsys option" where
  "open_done cf t fd f oflags r s =
     (case r of
        Inr (vp, crp) \<Rightarrow> Some (done_call t (Inr (int fd)) (set_fl f (\<lambda>r. r\<lparr>f_up := Some vp, f_cred := Some crp\<rparr>) (ft s))
                           (set_uf fd (\<lambda>d. d\<lparr>uf_fp := Some f\<rparr>) (own_proc s t)) s)
      | Inl e \<Rightarrow> do {
          k \<leftarrow> ffree f (ft s);
          if e = ERESTART then openpnp cf t fd oflags k (own_proc s t) s
          else Some (done_call t (Inl e) k (ufdfree fd (own_proc s t)) s)
        })"

text \<open>The kernel service \<open>ufdcreate\<close>, which makes a file that is not a vnode.\<close>

definition create :: "fcfg \<Rightarrow> nat \<Rightarrow> 32 word \<Rightarrow> nat option \<Rightarrow> nat option \<Rightarrow> int \<Rightarrow> nat \<Rightarrow> fsys \<Rightarrow> fsys option" where
  "create cf t flags ops datap type crp s =
     map_option (\<lambda>(k, u, r). done_call t (map_sum id int r) k u s) (ufdcreate cf flags ops datap type crp (ft s) (own_proc s t))"

section \<open>fcntl\<close>

datatype fcmd = F_DUPFD | F_GETFD | F_SETFD | F_GETFL | F_SETFL

text \<open>The commands that neither sleep nor close, between \<open>getf\<close> and \<open>ufdrele\<close>; \<open>fp\<close> is the file of \<open>fdes\<close>.\<close>

definition fcntl_do :: "fcfg \<Rightarrow> nat \<Rightarrow> fcmd \<Rightarrow> int \<Rightarrow> nat \<Rightarrow> ftab \<Rightarrow> uproc \<Rightarrow> (ftab \<times> uproc \<times> (errno + int)) option" where
  "fcntl_do cf fdes cmd arg fp s u =
     (case cmd of
        F_DUPFD \<Rightarrow>
          if arg < 0 \<or> arg \<ge> int (OPEN_MAX cf) then Some (s, u, Inl EINVAL)
          else (case ufdalloc cf (nat arg) u of
                  (u, Inl e) \<Rightarrow> Some (s, u, Inl e)
                | (u, Inr rval) \<Rightarrow> map_option (\<lambda>s. (s, set_uf rval (\<lambda>d. d\<lparr>uf_fp := Some fp\<rparr>) u, Inr (int rval))) (fp_hold fp s))
      | F_GETFD \<Rightarrow> Some (s, u, Inr (uint (uf_flags (uf u fdes) AND FD_CLOEXEC)))
      | F_SETFD \<Rightarrow> Some (s, set_uf fdes (put_cloexec (word_of_int arg)) u, Inr 0)
      | F_GETFL \<Rightarrow> Some (s, u, Inr (sint (f_flag (fl s fp) + (- 1))))
      | F_SETFL \<Rightarrow> Some (set_fl fp (\<lambda>r. r\<lparr>f_flag := (f_flag r AND NOT FFCNTL) OR (word_of_int (arg + 1) AND FFCNTL)\<rparr>) s, u, Inr 0))"

definition kfcntl :: "fcfg \<Rightarrow> nat \<Rightarrow> int \<Rightarrow> fcmd \<Rightarrow> int \<Rightarrow> fsys \<Rightarrow> fsys option" where
  "kfcntl cf t fdes cmd arg s =
     (case getf (length (threads_of (owner s ! t) s)) fdes (ft s) (own_proc s t) of
        (u, Inl e) \<Rightarrow> Some (done_call t (Inl e) (ft s) u s)
      | (u, Inr fp) \<Rightarrow> do {
          (k, u, r) \<leftarrow> fcntl_do cf (nat fdes) cmd arg fp (ft s) u;
          (u, rc) \<leftarrow> ufdrele fdes u;
          Some (done_call t r k u s)
        })"

definition closem :: "fcfg \<Rightarrow> nat \<Rightarrow> int \<Rightarrow> fsys \<Rightarrow> fsys option" where
  "closem cf t fdes s =
     (if fdes < 0 \<or> fdes \<ge> int (OPEN_MAX cf) then Some (done_call t (Inl EINVAL) (ft s) (own_proc s t) s)
      else closem_from t (nat fdes) s)"

section \<open>Calls that use a descriptor\<close>

definition use_begin :: "nat \<Rightarrow> int \<Rightarrow> fsys \<Rightarrow> fsys option" where
  "use_begin t fd s =
     (case getf (length (threads_of (owner s ! t) s)) fd (ft s) (own_proc s t) of
        (u, Inl e) \<Rightarrow> Some (done_call t (Inl e) (ft s) u s)
      | (u, Inr f) \<Rightarrow> Some (goes_on t (FUse (nat fd) f) (ft s) u s))"

definition use_end :: "nat \<Rightarrow> nat \<Rightarrow> fsys \<Rightarrow> fsys option" where
  "use_end t fd s = map_option (\<lambda>(u, rc). done_call t (Inr 0) (ft s) u s) (ufdrele (int fd) (own_proc s t))"

text \<open>\<open>F_SETLK\<close> when the lock has been set.\<close>

definition mark_lock :: "nat \<Rightarrow> uproc \<Rightarrow> uproc" where
  "mark_lock fd u = (set_uf fd (\<lambda>d. d\<lparr>uf_flags := uf_flags d OR UF_FDLOCK\<rparr>) u)\<lparr>U_lockflag := True\<rparr>"

section \<open>fork\<close>

definition fork_fd :: "nat \<Rightarrow> uproc \<Rightarrow> ftab \<times> uproc \<Rightarrow> (ftab \<times> uproc) option" where
  "fork_fd n u kc =
     (let (k, c) = kc in
      case uf_fp (uf u n) of
        Some f \<Rightarrow> if \<not> has UF_CLOSING (uf u n)
                  then map_option (\<lambda>k. (k, set_uf n (\<lambda>d. \<lparr>uf_fp = Some f, uf_flags = uf_flags (uf u n), uf_count = 0\<rparr>) c)) (fp_hold f k)
                  else Some (k, set_uf n (\<lambda>d. \<lparr>uf_fp = None, uf_flags = 0, uf_count = 0\<rparr>) c)
      | None \<Rightarrow> Some (k, set_uf n (\<lambda>d. \<lparr>uf_fp = None, uf_flags = 0, uf_count = 0\<rparr>) c))"

fun fork_fds :: "nat list \<Rightarrow> uproc \<Rightarrow> ftab \<times> uproc \<Rightarrow> (ftab \<times> uproc) option" where
  "fork_fds [] u kc = Some kc"
| "fork_fds (n # ns) u kc = do { kc \<leftarrow> fork_fd n u kc; fork_fds ns u kc }"

definition fs_fork :: "uproc \<Rightarrow> ftab \<Rightarrow> uproc \<Rightarrow> (ftab \<times> uproc) option" where
  "fs_fork u k c = fork_fds [0..<U_maxofile u] u (k, c\<lparr>U_fdevent := [], U_lockflag := False, U_maxofile := U_maxofile u\<rparr>)"

text \<open>\<open>fork\<close> by \<open>t\<close> makes the process \<open>q\<close> with the one thread \<open>t'\<close>.\<close>

definition fork_call :: "nat \<Rightarrow> nat \<Rightarrow> nat \<Rightarrow> fsys \<Rightarrow> fsys option" where
  "fork_call t q t' s =
     map_option (\<lambda>(k, c). s\<lparr>ft := k, procs := (procs s)[q := c\<lparr>alive := True\<rparr>], fthr := (fthr s)[t' := FIdle], owner := (owner s)[t' := q],
                   fres := Some (Inr (int q))\<rparr>)
       (fs_fork (own_proc s t) (ft s) (procs s ! q))"

section \<open>Steps\<close>

datatype fcall = Open "32 word" | Create "32 word" "nat option" "nat option" int nat | Fcntl int fcmd int | Closem int | Close int | Use int | Fork nat nat | Exec | Exit | Spawn nat | Quit

definition fcall_do :: "fcfg \<Rightarrow> nat \<Rightarrow> fcall \<Rightarrow> fsys \<Rightarrow> fsys option" where
  "fcall_do cf t c s =
     (case c of
        Open oflags \<Rightarrow> copen cf t oflags s
      | Create flags ops datap type crp \<Rightarrow> create cf t flags ops datap type crp s
      | Fcntl fdes cmd arg \<Rightarrow> kfcntl cf t fdes cmd arg s
      | Closem fdes \<Rightarrow> closem cf t fdes s
      | Close fd \<Rightarrow> fclose t fd s
      | Use fd \<Rightarrow> use_begin t fd s
      | Fork q t' \<Rightarrow> fork_call t q t' s
      | Exec \<Rightarrow> exec_from t 0 s
      | Exit \<Rightarrow> exit_from t 0 s
      | Spawn t' \<Rightarrow> Some (s\<lparr>fthr := (fthr s)[t' := FIdle], owner := (owner s)[t' := owner s ! t]\<rparr>)
      | Quit \<Rightarrow> Some (set_fthr t FGone s))"

text \<open>
  A call that cannot happen does not happen: \<open>fork\<close> and new threads take free slots; the other threads of a process
  are gone when \<open>exec\<close> and \<open>exit\<close> come to its files; the last thread leaves by \<open>exit\<close>.
\<close>

definition can_call :: "nat \<Rightarrow> fcall \<Rightarrow> fsys \<Rightarrow> bool" where
  "can_call t c s \<longleftrightarrow> t < length (fthr s) \<and> fthr s ! t = FIdle \<and>
     (case c of
        Fork q t' \<Rightarrow> q < length (procs s) \<and> \<not> alive (procs s ! q) \<and> t' < length (fthr s) \<and> fthr s ! t' = FGone
      | Exec \<Rightarrow> threads_of (owner s ! t) s = [t]
      | Exit \<Rightarrow> threads_of (owner s ! t) s = [t]
      | Spawn t' \<Rightarrow> t' < length (fthr s) \<and> fthr s ! t' = FGone
      | Quit \<Rightarrow> threads_of (owner s ! t) s \<noteq> [t]
      | _ \<Rightarrow> True)"

definition loop_from :: "after \<Rightarrow> nat \<Rightarrow> nat \<Rightarrow> fsys \<Rightarrow> fsys option" where
  "loop_from a t i s =
     (case a of AClose \<Rightarrow> None | AClosem \<Rightarrow> closem_from t i s | AExec \<Rightarrow> exec_from t i s | AExit \<Rightarrow> exit_from t i s)"

definition resume :: "nat \<Rightarrow> errno option \<Rightarrow> fsys \<Rightarrow> fsys option" where
  "resume t rc s =
     (case fthr s ! t of
        FWait fd a \<Rightarrow> if t \<in> set (U_fdevent (own_proc s t)) then Some s else wait_unused t fd a (own_proc s t) s
      | FDying fd f a \<Rightarrow> map_option (\<lambda>k. close_end t fd a rc k (own_proc s t) s) (fpfree f (ft s))
      | FLoop i a \<Rightarrow> loop_from a t i s
      | _ \<Rightarrow> Some s)"

text \<open>\<open>Revoke f\<close> is what \<open>revoke\<close> does to the flags of a file.\<close>

datatype fev = Call nat fcall | Opened nat "errno + (nat \<times> nat)" | Used nat | Locked nat | Resume nat "errno option" | Revoke nat

definition fd_next :: "fcfg \<Rightarrow> fev \<Rightarrow> fsys \<Rightarrow> fsys option" where
  "fd_next cf e s =
     (let s = s\<lparr>fres := None\<rparr> in
      case e of
        Call t c \<Rightarrow> if can_call t c s then fcall_do cf t c s else Some s
      | Opened t r \<Rightarrow> if t < length (fthr s) then (case fthr s ! t of FOpening fd f oflags \<Rightarrow> open_done cf t fd f oflags r s | _ \<Rightarrow> Some s) else Some s
      | Used t \<Rightarrow> if t < length (fthr s) then (case fthr s ! t of FUse fd f \<Rightarrow> use_end t fd s | _ \<Rightarrow> Some s) else Some s
      | Locked t \<Rightarrow> if t < length (fthr s)
                    then (case fthr s ! t of FUse fd f \<Rightarrow> Some (set_proc (owner s ! t) (mark_lock fd (own_proc s t)) s) | _ \<Rightarrow> Some s) else Some s
      | Resume t rc \<Rightarrow> if t < length (fthr s) then resume t rc s else Some s
      | Revoke f \<Rightarrow> Some (s\<lparr>ft := set_fl f (\<lambda>r. r\<lparr>f_flag := f_flag r OR FREVOKED\<rparr>) (ft s)\<rparr>))"

text \<open>\<open>finit\<close>, with the first process and its thread.\<close>

definition new_proc :: "fcfg \<Rightarrow> uproc" where
  "new_proc cf = \<lparr>U_ufd = replicate (OPEN_MAX cf) \<lparr>uf_fp = None, uf_flags = 0, uf_count = 0\<rparr>, U_maxofile = 0, U_lockflag = False, U_fdevent = [], alive = False\<rparr>"

definition finit :: "fcfg \<Rightarrow> nat \<Rightarrow> nat \<Rightarrow> fsys" where
  "finit cf np nt =
     (let k = \<lparr>files = [], ffreelist = None\<rparr> in
      \<lparr>ft = (case fpgrow cf k of None \<Rightarrow> k | Some k \<Rightarrow> k), procs = (replicate np (new_proc cf))[0 := (new_proc cf)\<lparr>alive := True\<rparr>],
       fthr = (replicate nt FGone)[0 := FIdle], owner = replicate nt 0, fres = None\<rparr>)"

end
