(* ===== verification/FdProc.thy ===== *)
theory FdProc
  imports FdSys
begin

text \<open>
  One process: its descriptors and its threads, which \<open>X\<close> gives (\<open>FGone\<close> for those of other processes). \<open>refs\<close> are the
  references that its descriptors have; a descriptor whose file has been given up but which is still filled in has none.
\<close>

section \<open>Flags\<close>

lemma has_bits: "has FD_CLOEXEC d = bit (uf_flags d) 0" "has UF_FDLOCK d = bit (uf_flags d) 2" "has UF_CLOSING d = bit (uf_flags d) 6" "has UF_ALLOCATED d = bit (uf_flags d) 7"
  using and_exp_eq_0_iff_not_bit [of "uf_flags d" 0] and_exp_eq_0_iff_not_bit [of "uf_flags d" 2] and_exp_eq_0_iff_not_bit [of "uf_flags d" 6]
    and_exp_eq_0_iff_not_bit [of "uf_flags d" 7]
  by (simp_all add: has_def FD_CLOEXEC_def UF_FDLOCK_def UF_CLOSING_def UF_ALLOCATED_def)

lemma bits_closing: "bit UF_CLOSING n \<longleftrightarrow> n = 6" and bits_allocated: "bit UF_ALLOCATED n \<longleftrightarrow> n = 7"
  and bits_cloexec: "bit FD_CLOEXEC n \<longleftrightarrow> n = 0" and bits_fdlock: "bit UF_FDLOCK n \<longleftrightarrow> n = 2"
  and bits_aud_read: "bit UF_AUD_READ n \<longleftrightarrow> n = 3" and bits_aud_write: "bit UF_AUD_WRITE n \<longleftrightarrow> n = 4"
proof -
  have e: "UF_CLOSING = 2 ^ 6" "UF_ALLOCATED = 2 ^ 7" "FD_CLOEXEC = 2 ^ 0" "UF_FDLOCK = 2 ^ 2" "UF_AUD_READ = 2 ^ 3" "UF_AUD_WRITE = 2 ^ 4"
    by (simp_all add: UF_CLOSING_def UF_ALLOCATED_def FD_CLOEXEC_def UF_FDLOCK_def UF_AUD_READ_def UF_AUD_WRITE_def)
  show "bit UF_CLOSING n \<longleftrightarrow> n = 6" "bit UF_ALLOCATED n \<longleftrightarrow> n = 7" "bit FD_CLOEXEC n \<longleftrightarrow> n = 0" "bit UF_FDLOCK n \<longleftrightarrow> n = 2"
    "bit UF_AUD_READ n \<longleftrightarrow> n = 3" "bit UF_AUD_WRITE n \<longleftrightarrow> n = 4"
    unfolding e bit_exp_iff by auto
qed

lemmas ufd_bits = has_bits bits_closing bits_allocated bits_cloexec bits_fdlock bits_aud_read bits_aud_write bit_or_iff bit_and_iff bit_not_iff

section \<open>Stores into descriptors\<close>

lemma set_uf_simps [simp]:
  "length (U_ufd (set_uf j g u)) = length (U_ufd u)" "U_maxofile (set_uf j g u) = U_maxofile u" "U_lockflag (set_uf j g u) = U_lockflag u"
  "U_fdevent (set_uf j g u) = U_fdevent u" "alive (set_uf j g u) = alive u"
  by (simp_all add: set_uf_def)

lemma uf_set_uf: "j < length (U_ufd u) \<Longrightarrow> uf (set_uf j g u) i = (if i = j then g (uf u j) else uf u i)"
  by (simp add: set_uf_def)

lemma uf_set_other [simp]: "i \<noteq> j \<Longrightarrow> uf (set_uf j g u) i = uf u i"
  by (simp add: set_uf_def)

text \<open>The descriptors are the same but for flags that do not matter here.\<close>

definition same_ufd :: "uproc \<Rightarrow> uproc \<Rightarrow> bool" where
  "same_ufd u u' \<longleftrightarrow> length (U_ufd u') = length (U_ufd u) \<and> U_maxofile u' = U_maxofile u \<and> U_fdevent u' = U_fdevent u \<and> alive u' = alive u
     \<and> (\<forall>i < length (U_ufd u). uf_fp (uf u' i) = uf_fp (uf u i) \<and> uf_count (uf u' i) = uf_count (uf u i)
           \<and> has UF_CLOSING (uf u' i) = has UF_CLOSING (uf u i) \<and> has UF_ALLOCATED (uf u' i) = has UF_ALLOCATED (uf u i))"

lemma same_ufd_triv: "same_ufd u u"
  by (simp add: same_ufd_def)

lemma same_ufd_trans: "same_ufd u v \<Longrightarrow> same_ufd v w \<Longrightarrow> same_ufd u w"
  by (auto simp: same_ufd_def)

lemma same_set_uf:
  assumes "\<And>d. uf_fp (g d) = uf_fp d" and "\<And>d. uf_count (g d) = uf_count d"
    and "\<And>d. has UF_CLOSING (g d) = has UF_CLOSING d" and "\<And>d. has UF_ALLOCATED (g d) = has UF_ALLOCATED d"
  shows "same_ufd u (set_uf j g u)"
  using assms unfolding same_ufd_def by (auto simp: set_uf_def nth_upd)

lemma same_fold:
  assumes "\<And>j v. same_ufd v (set_uf j g v)"
  shows "same_ufd u (fold (\<lambda>j. set_uf j g) js u)"
proof (induction js arbitrary: u)
  case (Cons j js)
  then show ?case using same_ufd_trans [OF assms [of u j] Cons.IH] by simp
qed (simp add: same_ufd_triv)

lemma same_cloexec: "same_ufd u (set_uf j (put_cloexec w) u)"
  by (rule same_set_uf) (simp_all add: put_cloexec_def ufd_bits)

lemma same_mark: "same_ufd u (mark_lock j u)"
proof -
  have "same_ufd u (set_uf j (\<lambda>d. d\<lparr>uf_flags := uf_flags d OR UF_FDLOCK\<rparr>) u)" by (rule same_set_uf) (simp_all add: ufd_bits)
  then show ?thesis by (simp add: same_ufd_def mark_lock_def)
qed

lemma same_audit: "same_ufd u (clear_audit js u)"
  unfolding clear_audit_def by (rule same_fold, rule same_set_uf) (auto simp: ufd_bits)

lemma same_lockrelease: "same_ufd u (lockrelease f k u)"
proof -
  have "same_ufd u (fold (\<lambda>i. set_uf i (\<lambda>d. d\<lparr>uf_flags := uf_flags d AND NOT UF_FDLOCK\<rparr>)) js u)" for js
    by (rule same_fold, rule same_set_uf) (auto simp: ufd_bits)
  then show ?thesis by (auto simp: lockrelease_def Let_def same_ufd_def)
qed

section \<open>The invariant\<close>

text \<open>Descriptors that an exiting thread has done with, the one a thread has to itself, threads that must be alone.\<close>

fun past :: "fthread \<Rightarrow> nat \<Rightarrow> bool" where
  "past (FDying i f a) j = (i = j \<or> a = AExit \<and> j < i)"
| "past (FLoop i a) j = (a = AExit \<and> j < i)"
| "past _ j = False"

fun excl :: "fthread \<Rightarrow> nat option" where
  "excl (FOpening j f w) = Some j"
| "excl (FWait j a) = Some j"
| "excl (FDying j f a) = Some j"
| "excl _ = None"

fun may_wait :: "after \<Rightarrow> bool" where
  "may_wait AClose = True"
| "may_wait AClosem = True"
| "may_wait _ = False"

fun alone :: "fthread \<Rightarrow> bool" where
  "alone (FDying j f a) = (\<not> may_wait a)"
| "alone (FLoop i a) = (\<not> may_wait a)"
| "alone _ = False"

fun closing :: "fthread \<Rightarrow> nat \<Rightarrow> bool" where
  "closing (FWait i a) j = (i = j)"
| "closing (FDying i f a) j = (i = j \<and> may_wait a)"
| "closing _ j = False"

fun thr_sane :: "uproc \<Rightarrow> fthread \<Rightarrow> bool" where
  "thr_sane u (FUse j f) = (j < U_maxofile u \<and> uf_fp (uf u j) = Some f)"
| "thr_sane u (FOpening j f w) = (j < U_maxofile u \<and> has UF_ALLOCATED (uf u j) \<and> uf_fp (uf u j) = None)"
| "thr_sane u (FWait j a) = (j < U_maxofile u \<and> may_wait a \<and> has UF_CLOSING (uf u j) \<and> uf_fp (uf u j) \<noteq> None)"
| "thr_sane u (FDying j f a) = (j < U_maxofile u \<and> uf_count (uf u j) = 0 \<and> uf_fp (uf u j) = Some f \<and> (may_wait a \<longrightarrow> has UF_CLOSING (uf u j)))"
| "thr_sane u (FLoop i a) = (a \<noteq> AClose)"
| "thr_sane u _ = True"

definition users :: "(nat \<Rightarrow> fthread) \<Rightarrow> nat \<Rightarrow> nat set" where
  "users X j = {t. \<exists>f. X t = FUse j f}"

definition refs :: "uproc \<Rightarrow> (nat \<Rightarrow> fthread) \<Rightarrow> nat \<Rightarrow> nat option" where
  "refs u X j = (if alive u \<and> j < U_maxofile u \<and> (\<forall>t. \<not> past (X t) j) then uf_fp (uf u j) else None)"

definition pinv :: "fcfg \<Rightarrow> uproc \<Rightarrow> (nat \<Rightarrow> fthread) \<Rightarrow> bool" where
  "pinv cf u X \<longleftrightarrow> length (U_ufd u) = OPEN_MAX cf \<and> U_maxofile u \<le> OPEN_MAX cf \<and> finite {t. X t \<noteq> FGone}
     \<and> (\<forall>j < U_maxofile u. (uf_fp (uf u j) \<noteq> None \<longrightarrow> has UF_ALLOCATED (uf u j)) \<and> uf_count (uf u j) = card (users X j)
          \<and> (has UF_CLOSING (uf u j) \<longrightarrow> (\<exists>t. closing (X t) j)))
     \<and> (\<forall>t. thr_sane u (X t) \<and> (X t \<noteq> FGone \<longrightarrow> alive u))
     \<and> (\<forall>t t' j. excl (X t) = Some j \<longrightarrow> excl (X t') = Some j \<longrightarrow> t' = t)
     \<and> (\<forall>t t'. alone (X t) \<longrightarrow> X t' \<noteq> FGone \<longrightarrow> t' = t)
     \<and> (\<forall>t \<in> set (U_fdevent u). \<exists>j a. X t = FWait j a \<and> uf_count (uf u j) \<noteq> 0)"

lemma pinvI:
  assumes "length (U_ufd u) = OPEN_MAX cf" and "U_maxofile u \<le> OPEN_MAX cf" and "finite {t. X t \<noteq> FGone}"
    and "\<And>j f. j < U_maxofile u \<Longrightarrow> uf_fp (uf u j) = Some f \<Longrightarrow> has UF_ALLOCATED (uf u j)"
    and "\<And>j. j < U_maxofile u \<Longrightarrow> uf_count (uf u j) = card (users X j)"
    and "\<And>j. j < U_maxofile u \<Longrightarrow> has UF_CLOSING (uf u j) \<Longrightarrow> \<exists>t. closing (X t) j"
    and "\<And>t. thr_sane u (X t)" and "\<And>t. X t \<noteq> FGone \<Longrightarrow> alive u"
    and "\<And>t t' j. excl (X t) = Some j \<Longrightarrow> excl (X t') = Some j \<Longrightarrow> t' = t"
    and "\<And>t t'. alone (X t) \<Longrightarrow> X t' \<noteq> FGone \<Longrightarrow> t' = t"
    and "\<And>t. t \<in> set (U_fdevent u) \<Longrightarrow> \<exists>j a. X t = FWait j a \<and> uf_count (uf u j) \<noteq> 0"
  shows "pinv cf u X"
  using assms unfolding pinv_def by blast

lemma pinvD:
  assumes "pinv cf u X"
  shows "length (U_ufd u) = OPEN_MAX cf" and "U_maxofile u \<le> OPEN_MAX cf" and "finite {t. X t \<noteq> FGone}"
    and "j < U_maxofile u \<Longrightarrow> uf_fp (uf u j) = Some f \<Longrightarrow> has UF_ALLOCATED (uf u j)"
    and "j < U_maxofile u \<Longrightarrow> uf_count (uf u j) = card (users X j)"
    and "j < U_maxofile u \<Longrightarrow> has UF_CLOSING (uf u j) \<Longrightarrow> \<exists>t. closing (X t) j"
    and "thr_sane u (X t)" and "X t \<noteq> FGone \<Longrightarrow> alive u"
    and "excl (X t) = Some j \<Longrightarrow> excl (X t') = Some j \<Longrightarrow> t' = t"
    and "alone (X t) \<Longrightarrow> X t' \<noteq> FGone \<Longrightarrow> t' = t"
    and "t \<in> set (U_fdevent u) \<Longrightarrow> \<exists>j a. X t = FWait j a \<and> uf_count (uf u j) \<noteq> 0"
  using assms unfolding pinv_def by blast+

lemma finite_users: "finite {t. X t \<noteq> FGone} \<Longrightarrow> finite (users X j)"
  by (rule rev_finite_subset) (auto simp: users_def)

lemma count_0:
  assumes "pinv cf u X" and "j < U_maxofile u"
  shows "uf_count (uf u j) = 0 \<longleftrightarrow> (\<forall>t f. X t \<noteq> FUse j f)"
  using pinvD(5) [OF assms] finite_users [OF pinvD(3) [OF assms(1)], of j] by (auto simp: users_def)

text \<open>Every thread but \<open>t\<close> is gone where \<open>t\<close> must be alone.\<close>

lemma not_alone: "pinv cf u X \<Longrightarrow> X t \<noteq> FGone \<Longrightarrow> \<not> alone (X t) \<Longrightarrow> \<not> alone (X t')"
  using pinvD(10) by metis

lemma past_excl: "pinv cf u X \<Longrightarrow> past (X t) j \<Longrightarrow> \<not> alone (X t) \<Longrightarrow> excl (X t) = Some j"
  by (cases "X t") (auto elim: may_wait.elims)

section \<open>Steps that leave the descriptors\<close>

lemma pinv_same:
  assumes inv: "pinv cf u X" and s: "same_ufd u u'"
  shows "pinv cf u' X" and "refs u' X = refs u X"
proof -
  note d = pinvD [OF inv]
  have e: "length (U_ufd u') = length (U_ufd u)" "U_maxofile u' = U_maxofile u" "U_fdevent u' = U_fdevent u" "alive u' = alive u"
    using s by (simp_all add: same_ufd_def)
  have x: "uf_fp (uf u' i) = uf_fp (uf u i)" "uf_count (uf u' i) = uf_count (uf u i)" "has UF_CLOSING (uf u' i) = has UF_CLOSING (uf u i)"
    "has UF_ALLOCATED (uf u' i) = has UF_ALLOCATED (uf u i)" if "i < U_maxofile u" for i
    using s d(1,2) that by (simp_all add: same_ufd_def)
  show "pinv cf u' X"
  proof (rule pinvI)
    show "thr_sane u' (X t)" for t using d(7) [of t] x by (cases "X t") (auto simp: e)
    show "\<exists>j a. X t = FWait j a \<and> uf_count (uf u' j) \<noteq> 0" if "t \<in> set (U_fdevent u')" for t
      using d(11) [of t] d(7) [of t] that x(2) by (auto simp: e)
  qed (use d x in \<open>auto simp: e\<close>)
  show "refs u' X = refs u X" by (rule ext) (auto simp: refs_def e x)
qed


text \<open>One thread changes its state and uses no descriptor before or after.\<close>

fun uses :: "fthread \<Rightarrow> nat \<Rightarrow> bool" where
  "uses (FUse j f) i = (i = j)"
| "uses _ i = False"

lemma users_uses: "users X j = {t. uses (X t) j}"
proof -
  have "uses x j \<longleftrightarrow> (\<exists>f. x = FUse j f)" for x by (cases x) auto
  then show ?thesis by (simp add: users_def)
qed

lemma users_upd: "users (X(t := y)) j = (if uses y j then insert t (users X j) else users X j - {t})"
  by (auto simp: users_uses)

lemma pinv_thread:
  assumes inv: "pinv cf u X" and n: "\<And>j. \<not> uses (X t) j" "\<And>j. \<not> uses y j" and y: "thr_sane u y" "y \<noteq> FGone \<Longrightarrow> alive u"
    and ex: "\<And>t' j. t' \<noteq> t \<Longrightarrow> excl y = Some j \<Longrightarrow> excl (X t') \<noteq> Some j"
    and al: "\<And>t'. t' \<noteq> t \<Longrightarrow> alone y \<Longrightarrow> X t' = FGone" "\<And>t'. t' \<noteq> t \<Longrightarrow> y \<noteq> FGone \<Longrightarrow> \<not> alone (X t')"
    and cl: "\<And>j. j < U_maxofile u \<Longrightarrow> has UF_CLOSING (uf u j) \<Longrightarrow> closing (X t) j \<Longrightarrow> closing y j"
    and ev: "t \<notin> set (U_fdevent u)"
  shows "pinv cf u (X(t := y))"
proof (rule pinvI)
  note d = pinvD [OF inv]
  show "finite {t'. (X(t := y)) t' \<noteq> FGone}" by (rule rev_finite_subset [of "insert t {t'. X t' \<noteq> FGone}"]) (use d(3) in auto)
  have "users (X(t := y)) j = users X j" for j using n by (auto simp: users_upd) (simp add: users_uses)
  then show "uf_count (uf u j) = card (users (X(t := y)) j)" if "j < U_maxofile u" for j using d(5) [OF that] by simp
  show "\<exists>t'. closing ((X(t := y)) t') j" if "j < U_maxofile u" "has UF_CLOSING (uf u j)" for j
    using d(6) [OF that] cl [OF that] by (metis fun_upd_apply)
  show "thr_sane u ((X(t := y)) t')" for t' using y(1) d(7) by simp
  show "alive u" if "(X(t := y)) t' \<noteq> FGone" for t' using that y(2) d(8) by (auto split: if_splits)
  show "t'' = t'" if "excl ((X(t := y)) t') = Some j" "excl ((X(t := y)) t'') = Some j" for t' t'' j
    using that ex d(9) [of t' j t''] by (auto split: if_splits)
  show "t'' = t'" if "alone ((X(t := y)) t')" "(X(t := y)) t'' \<noteq> FGone" for t' t''
    using that al d(10) [of t' t''] by (auto split: if_splits)
  show "\<exists>j a. (X(t := y)) t' = FWait j a \<and> uf_count (uf u j) \<noteq> 0" if "t' \<in> set (U_fdevent u)" for t'
    using d(11) [OF that] ev that by (auto simp: fun_upd_def)
qed (use pinvD [OF inv] in auto)

lemma event_wait: "pinv cf u X \<Longrightarrow> (\<And>j a. X t \<noteq> FWait j a) \<Longrightarrow> t \<notin> set (U_fdevent u)"
  using pinvD(11) by fast

lemma refs_thread: "(\<And>j. past y j = past (X t) j) \<Longrightarrow> refs u (X(t := y)) = refs u X"
  by (rule ext) (simp add: refs_def, metis)

section \<open>Use of a descriptor\<close>

lemma in_ufd: "pinv cf u X \<Longrightarrow> j < U_maxofile u \<Longrightarrow> j < length (U_ufd u)"
  using pinvD(1,2) by fastforce

lemma closing_excl: "closing x j \<Longrightarrow> excl x = Some j"
  by (cases x) auto

lemma pinv_use:
  assumes inv: "pinv cf u X" and t: "X t = FIdle" and j: "j < U_maxofile u" "uf_fp (uf u j) = Some f" "\<not> has UF_CLOSING (uf u j)"
  defines "u' \<equiv> set_uf j (\<lambda>d. d\<lparr>uf_count := uf_count d + 1\<rparr>) u"
  shows "pinv cf u' (X(t := FUse j f))" and "refs u' (X(t := FUse j f)) = refs u X"
proof -
  note d = pinvD [OF inv]
  have e: "uf u' i = (if i = j then (uf u j)\<lparr>uf_count := uf_count (uf u j) + 1\<rparr> else uf u i)" for i
    unfolding u'_def by (rule uf_set_uf [OF in_ufd [OF inv j(1)]])
  have m: "U_maxofile u' = U_maxofile u" "length (U_ufd u') = length (U_ufd u)" "alive u' = alive u" "U_fdevent u' = U_fdevent u" by (simp_all add: u'_def)
  have al: "alive u" "\<not> alone (X t')" for t' using d(8) [of t] not_alone [OF inv, of t t'] t by simp_all
  have nx: "excl (X t') \<noteq> Some j \<or> (\<exists>a. X t' = FWait j a)" for t' using d(7) [of t'] al(2) [of t'] j by (cases "X t'") (auto simp: has_bits)
  have nt: "t \<notin> users X i" for i using t by (simp add: users_def)
  show "pinv cf u' (X(t := FUse j f))"
  proof (rule pinvI)
    show "finite {t'. (X(t := FUse j f)) t' \<noteq> FGone}" by (rule rev_finite_subset [of "insert t {t'. X t' \<noteq> FGone}"]) (use d(3) in auto)
    show "uf_count (uf u' i) = card (users (X(t := FUse j f)) i)" if "i < U_maxofile u'" for i
      using that d(5) [of i] finite_users [OF d(3), of i] nt by (cases "i = j") (simp_all add: users_upd e m)
    show "\<exists>t'. closing ((X(t := FUse j f)) t') i" if c: "i < U_maxofile u'" "has UF_CLOSING (uf u' i)" for i
    proof -
      have "has UF_CLOSING (uf u i)" using c by (auto simp: e has_bits split: if_splits)
      then obtain t' where "closing (X t') i" using d(6) [of i] c by (auto simp: m)
      then show ?thesis using t by (intro exI [of _ t']) auto
    qed
    show "thr_sane u' ((X(t := FUse j f)) t')" for t'
      using d(7) [of t'] nx [of t'] j by (cases "t' = t"; cases "X t'") (auto simp: e m has_bits)
    show "t'' = t'" if "excl ((X(t := FUse j f)) t') = Some i" "excl ((X(t := FUse j f)) t'') = Some i" for t' t'' i
      using that d(9) [of t' i t''] by (auto split: if_splits)
    show "\<exists>i a. (X(t := FUse j f)) t' = FWait i a \<and> uf_count (uf u' i) \<noteq> 0" if "t' \<in> set (U_fdevent u')" for t'
      using d(11) [of t'] that t by (auto simp: e m)
  qed (use d al in \<open>auto simp: e m has_bits split: if_splits\<close>)
  have "refs u' (X(t := FUse j f)) = refs u' X" by (rule refs_thread) (simp add: t)
  then show "refs u' (X(t := FUse j f)) = refs u X" by (auto simp: refs_def e m)
qed

lemma pinv_unuse:
  assumes inv: "pinv cf u X" and t: "X t = FUse j f"
  shows "\<exists>u'. ufdrele (int j) u = Some (u', None) \<and> pinv cf u' (X(t := FIdle)) \<and> refs u' (X(t := FIdle)) = refs u X"
proof -
  note d = pinvD [OF inv]
  have j: "j < U_maxofile u" "uf_fp (uf u j) = Some f" using d(7) [of t] t by auto
  let ?v = "set_uf j (\<lambda>d. d\<lparr>uf_count := uf_count d - 1\<rparr>) u"
  define u' where "u' = (if uf_count (uf ?v j) = 0 \<and> has UF_CLOSING (uf ?v j) then ?v\<lparr>U_fdevent := []\<rparr> else ?v)"
  have e: "uf u' i = (if i = j then (uf u j)\<lparr>uf_count := uf_count (uf u j) - 1\<rparr> else uf u i)" for i
    using uf_set_uf [OF in_ufd [OF inv j(1)]] by (simp add: u'_def)
  have m: "U_maxofile u' = U_maxofile u" "length (U_ufd u') = length (U_ufd u)" "alive u' = alive u" by (simp_all add: u'_def)
  have tj: "t \<in> users X i \<longleftrightarrow> i = j" for i using t by (auto simp: users_def)
  have pos: "uf_count (uf u j) \<noteq> 0" using count_0 [OF inv j(1)] t by auto
  have "ufdrele (int j) u = Some (u', None)" using j pos by (simp add: ufdrele_def in_range_def u'_def)
  moreover have "pinv cf u' (X(t := FIdle))"
  proof (rule pinvI)
    show "finite {t'. (X(t := FIdle)) t' \<noteq> FGone}" by (rule rev_finite_subset [of "insert t {t'. X t' \<noteq> FGone}"]) (use d(3) in auto)
    show "uf_count (uf u' i) = card (users (X(t := FIdle)) i)" if "i < U_maxofile u'" for i
      using that d(5) [of i] finite_users [OF d(3), of i] tj [of i] by (cases "i = j") (simp_all add: users_upd e m)
    show "\<exists>t'. closing ((X(t := FIdle)) t') i" if c: "i < U_maxofile u'" "has UF_CLOSING (uf u' i)" for i
    proof -
      have "has UF_CLOSING (uf u i)" using c by (auto simp: e has_bits split: if_splits)
      then obtain t' where "closing (X t') i" using d(6) [of i] c by (auto simp: m)
      then show ?thesis using t by (intro exI [of _ t']) auto
    qed
    show "thr_sane u' ((X(t := FIdle)) t')" for t'
      using d(7) [of t'] pos by (cases "X t'") (auto simp: e m has_bits)
    show "alive u'" if "(X(t := FIdle)) t' \<noteq> FGone" for t' using d(8) [of t] t by (simp add: m)
    show "t'' = t'" if "excl ((X(t := FIdle)) t') = Some i" "excl ((X(t := FIdle)) t'') = Some i" for t' t'' i
      using that d(9) [of t' i t''] by (auto split: if_splits)
    show "t'' = t'" if "alone ((X(t := FIdle)) t')" "(X(t := FIdle)) t'' \<noteq> FGone" for t' t''
      using that(1) not_alone [OF inv, of t t'] t by (simp split: if_splits)
    show "\<exists>i a. (X(t := FIdle)) t' = FWait i a \<and> uf_count (uf u' i) \<noteq> 0" if ev: "t' \<in> set (U_fdevent u')" for t'
    proof -
      have "t' \<in> set (U_fdevent u)" using ev by (auto simp: u'_def split: if_splits)
      from d(11) [OF this] obtain i a where w: "X t' = FWait i a" "uf_count (uf u i) \<noteq> 0" by blast
      with d(7) [of t'] have "has UF_CLOSING (uf u i)" by simp
      moreover have "\<not> (uf_count (uf u' j) = 0 \<and> has UF_CLOSING (uf u' j))"
        using ev uf_set_uf [OF in_ufd [OF inv j(1)]] by (auto simp: u'_def split: if_splits)
      ultimately show ?thesis using w t by (auto simp: e has_bits split: if_splits)
    qed
  qed (use d in \<open>auto simp: e m has_bits split: if_splits\<close>)
  moreover have "refs u' (X(t := FIdle)) = refs u' X" by (rule refs_thread) (simp add: t)
  then have "refs u' (X(t := FIdle)) = refs u X" by (auto simp: refs_def e m)
  ultimately show ?thesis by blast
qed


section \<open>Descriptors come and go\<close>

text \<open>One descriptor \<open>j\<close> changes, others may be new or be cut off, and a thread \<open>t\<close> that may have \<open>j\<close> to itself goes on.\<close>

lemma pinv_one:
  assumes inv: "pinv cf u X"
    and fr: "length (U_ufd u') = OPEN_MAX cf" "U_maxofile u' \<le> OPEN_MAX cf" "alive u' = alive u" "U_fdevent u' = U_fdevent u"
    and old: "\<And>i. i \<noteq> j \<Longrightarrow> i < U_maxofile u' \<Longrightarrow> i < U_maxofile u \<Longrightarrow> uf u' i = uf u i"
    and new: "\<And>i. i \<noteq> j \<Longrightarrow> i < U_maxofile u' \<Longrightarrow> \<not> i < U_maxofile u \<Longrightarrow> uf u' i = \<lparr>uf_fp = None, uf_flags = 0, uf_count = 0\<rparr>"
    and cut: "\<And>i. i \<noteq> j \<Longrightarrow> i < U_maxofile u \<Longrightarrow> \<not> i < U_maxofile u' \<Longrightarrow> \<not> has UF_ALLOCATED (uf u i)"
    and us: "\<And>i. uses y i = uses (X t) i" "\<And>t' f. X t' = FUse j f \<Longrightarrow> j < U_maxofile u' \<and> uf_fp (uf u' j) = Some f"
    and ex: "\<And>t'. t' \<noteq> t \<Longrightarrow> excl (X t') \<noteq> Some j" "excl y = None \<or> excl y = Some j" "excl (X t) = None \<or> excl (X t) = Some j"
    and al: "X t \<noteq> FGone" "y \<noteq> FGone" "\<And>t'. t' \<noteq> t \<Longrightarrow> alone y \<Longrightarrow> X t' = FGone" "\<And>t'. t' \<noteq> t \<Longrightarrow> \<not> alone (X t')"
    and j: "j < U_maxofile u' \<Longrightarrow> uf_fp (uf u' j) \<noteq> None \<Longrightarrow> has UF_ALLOCATED (uf u' j)" "j < U_maxofile u' \<Longrightarrow> uf_count (uf u' j) = card (users X j)"
      "j < U_maxofile u' \<Longrightarrow> has UF_CLOSING (uf u' j) \<Longrightarrow> closing y j"
    and y: "thr_sane u' y \<or> y = X t \<and> excl y = None" and ev: "t \<notin> set (U_fdevent u)"
  shows "pinv cf u' (X(t := y))"
proof (rule pinvI [OF fr(1,2)])
  note d = pinvD [OF inv]
  let ?X = "X(t := y)"
  show "finite {t'. ?X t' \<noteq> FGone}" by (rule rev_finite_subset [of "insert t {t'. X t' \<noteq> FGone}"]) (use d(3) in auto)
  have keep: "i < U_maxofile u' \<and> uf u' i = uf u i" if "i < U_maxofile u" "has UF_ALLOCATED (uf u i)" "i \<noteq> j" for i
    using old [of i] cut [of i] that by blast
  have sn: "thr_sane u' (X t')" if "excl (X t') \<noteq> Some j" for t'
    using d(7) [of t'] that keep us(2) [of t'] d(4) by (cases "X t'") (fastforce+)
  have ur: "users ?X i = users X i" for i unfolding users_uses by (rule Collect_cong) (simp add: us(1))
  have out: "users X i = {}" if "\<not> i < U_maxofile u" for i
  proof -
    have "X t' \<noteq> FUse i f" for t' f using d(7) [of t'] that by auto
    then show ?thesis by (auto simp: users_def)
  qed
  show "has UF_ALLOCATED (uf u' i)" if "i < U_maxofile u'" "uf_fp (uf u' i) = Some f" for i f
    using that j(1) old [of i] new [of i] d(4) [of i] by (cases "i = j"; cases "i < U_maxofile u") auto
  show "uf_count (uf u' i) = card (users ?X i)" if "i < U_maxofile u'" for i
    using that j(2) old [of i] new [of i] d(5) [of i] out [of i] unfolding ur by (cases "i = j"; cases "i < U_maxofile u") auto
  show "\<exists>t'. closing (?X t') i" if c: "i < U_maxofile u'" "has UF_CLOSING (uf u' i)" for i
  proof (cases "i = j")
    case True
    with j(3) c show ?thesis by (intro exI [of _ t]) simp
  next
    case False
    have "i < U_maxofile u" using new [OF False c(1)] c(2) by (cases "i < U_maxofile u") (auto simp: has_bits)
    with d(6) [of i] old [OF False c(1)] c(2) obtain t' where t': "closing (X t') i" by auto
    then have "t' \<noteq> t" using ex(3) closing_excl [OF t'] False by auto
    with t' show ?thesis by (intro exI [of _ t']) simp
  qed
  show "thr_sane u' (?X t')" for t' using sn ex(1) y by (cases "t' = t") auto
  show "t'' = t'" if "excl (?X t') = Some i" "excl (?X t'') = Some i" for t' t'' i
  proof (cases "t' = t \<or> t'' = t")
    case True
    then show ?thesis using that ex(1,2) by (auto split: if_splits)
  next
    case False
    then show ?thesis using that d(9) [of t' i t''] by simp
  qed
  show "t'' = t'" if "alone (?X t')" "?X t'' \<noteq> FGone" for t' t''
    using that al(3) [of t''] al(4) [of t'] by (auto split: if_splits)
  show "\<exists>i a. ?X t' = FWait i a \<and> uf_count (uf u' i) \<noteq> 0" if e: "t' \<in> set (U_fdevent u')" for t'
  proof -
    from e ev fr(4) have e: "t' \<in> set (U_fdevent u)" "t' \<noteq> t" by auto
    with d(11) obtain i a where w: "X t' = FWait i a" "uf_count (uf u i) \<noteq> 0" by blast
    have "i < U_maxofile u" "uf_fp (uf u i) \<noteq> None" "i \<noteq> j" using d(7) [of t'] w(1) ex(1) [OF e(2)] by auto
    moreover have "has UF_ALLOCATED (uf u i)" using d(4) calculation by blast
    ultimately show ?thesis using keep [of i] w e(2) by auto
  qed
  show "alive u'" using d(8) [OF al(1)] fr(3) by simp
qed

text \<open>\<open>refs\<close> where the same holds for what it sees.\<close>

lemma refs_one:
  assumes "alive u' = alive u" and old: "\<And>i. i \<noteq> j \<Longrightarrow> i < U_maxofile u' \<Longrightarrow> i < U_maxofile u \<Longrightarrow> uf_fp (uf u' i) = uf_fp (uf u i)"
    and new: "\<And>i. i \<noteq> j \<Longrightarrow> i < U_maxofile u' \<Longrightarrow> \<not> i < U_maxofile u \<Longrightarrow> uf_fp (uf u' i) = None"
    and cut: "\<And>i. i \<noteq> j \<Longrightarrow> i < U_maxofile u \<Longrightarrow> \<not> i < U_maxofile u' \<Longrightarrow> uf_fp (uf u i) = None"
    and p: "\<And>i. i \<noteq> j \<Longrightarrow> past y i = past (X t) i"
  shows "refs u' (X(t := y)) = (refs u X)(j := refs u' (X(t := y)) j)"
proof
  fix i
  have "(\<forall>t'. \<not> past ((X(t := y)) t') i) = (\<forall>t'. \<not> past (X t') i)" if "i \<noteq> j" using p [OF that] by (metis fun_upd_apply)
  then show "refs u' (X(t := y)) i = ((refs u X)(j := refs u' (X(t := y)) j)) i"
    using assms(1) old [of i] new [of i] cut [of i] by (auto simp: refs_def)
qed

section \<open>ufdalloc and ufdfree\<close>

definition fresh :: "uproc \<Rightarrow> (nat \<Rightarrow> fthread) \<Rightarrow> nat \<Rightarrow> bool" where
  "fresh u X i \<longleftrightarrow> i < U_maxofile u \<and> uf_fp (uf u i) = None \<and> uf_count (uf u i) = 0 \<and> has UF_ALLOCATED (uf u i)
     \<and> \<not> has UF_CLOSING (uf u i) \<and> (\<forall>t. excl (X t) \<noteq> Some i)"

lemma find_upt:
  assumes "List.find P [a..<b] = Some i"
  shows "P i" and "a \<le> i" and "i < b" and "\<And>k. a \<le> k \<Longrightarrow> k < i \<Longrightarrow> \<not> P k"
proof -
  from assms obtain n where n: "n < b - a" "P ([a..<b] ! n)" "i = [a..<b] ! n" "\<forall>m < n. \<not> P ([a..<b] ! m)"
    unfolding find_Some_iff by auto
  then have e: "i = a + n" by simp
  show "P i" "a \<le> i" "i < b" using n e by auto
  show "\<not> P k" if "a \<le> k" "k < i" for k using n(4) [rule_format, of "k - a"] that n(1) e by auto
qed

lemma ufd_new_simps:
  assumes "i < length (U_ufd u)"
  shows "length (U_ufd (ufd_new i u)) = length (U_ufd u)" "alive (ufd_new i u) = alive u" "U_fdevent (ufd_new i u) = U_fdevent u"
    "U_lockflag (ufd_new i u) = U_lockflag u" "U_maxofile (ufd_new i u) = max (U_maxofile u) (i + 1)"
    "uf (ufd_new i u) k = (if k = i then \<lparr>uf_fp = None, uf_flags = UF_ALLOCATED, uf_count = 0\<rparr>
       else if U_maxofile u \<le> k \<and> k < i then \<lparr>uf_fp = None, uf_flags = 0, uf_count = 0\<rparr> else uf u k)"
proof -
  let ?f = "\<lambda>j. set_uf j (\<lambda>d. \<lparr>uf_fp = None, uf_flags = 0, uf_count = 0\<rparr>)"
  have f: "length (U_ufd (fold ?f js v)) = length (U_ufd v) \<and> alive (fold ?f js v) = alive v \<and> U_fdevent (fold ?f js v) = U_fdevent v
     \<and> U_lockflag (fold ?f js v) = U_lockflag v \<and> ((\<forall>j \<in> set js. j < length (U_ufd v)) \<longrightarrow>
         uf (fold ?f js v) k = (if k \<in> set js then \<lparr>uf_fp = None, uf_flags = 0, uf_count = 0\<rparr> else uf v k))" for js v
  proof (induction js arbitrary: v)
    case (Cons j js)
    have "j < length (U_ufd v) \<Longrightarrow> uf (?f j v) k = (if k = j then \<lparr>uf_fp = None, uf_flags = 0, uf_count = 0\<rparr> else uf v k)" by (rule uf_set_uf)
    with Cons.IH [of "?f j v"] show ?case by auto
  qed simp
  let ?v = "set_uf i (\<lambda>d. \<lparr>uf_fp = None, uf_flags = UF_ALLOCATED, uf_count = 0\<rparr>) u"
  note g = f [of "[U_maxofile u..<i]" ?v]
  show "length (U_ufd (ufd_new i u)) = length (U_ufd u)" "alive (ufd_new i u) = alive u" "U_fdevent (ufd_new i u) = U_fdevent u"
    "U_lockflag (ufd_new i u) = U_lockflag u" "U_maxofile (ufd_new i u) = max (U_maxofile u) (i + 1)"
    using g by (simp_all add: ufd_new_def Let_def)
  show "uf (ufd_new i u) k = (if k = i then \<lparr>uf_fp = None, uf_flags = UF_ALLOCATED, uf_count = 0\<rparr>
       else if U_maxofile u \<le> k \<and> k < i then \<lparr>uf_fp = None, uf_flags = 0, uf_count = 0\<rparr> else uf u k)"
    using g assms by (auto simp: ufd_new_def Let_def uf_set_uf)
qed

lemma other_not_alone: "pinv cf u X \<Longrightarrow> X t \<noteq> FGone \<Longrightarrow> t' \<noteq> t \<Longrightarrow> \<not> alone (X t')"
  using pinvD(10) by metis

lemma unused_free:
  assumes inv: "pinv cf u X" and un: "i < U_maxofile u \<Longrightarrow> \<not> has UF_ALLOCATED (uf u i)"
  shows "excl (X t) \<noteq> Some i" and "X t \<noteq> FUse i f" and "i < U_maxofile u \<Longrightarrow> uf_fp (uf u i) = None"
proof -
  note d = pinvD [OF inv]
  show n: "i < U_maxofile u \<Longrightarrow> uf_fp (uf u i) = None" using d(4) un by (cases "uf_fp (uf u i)") auto
  show "excl (X t) \<noteq> Some i" "X t \<noteq> FUse i f" using d(7) [of t] un n by (cases "X t"; auto)+
qed

lemma ufdalloc_Inr:
  assumes "ufdalloc cf i0 u = (u', Inr i)"
  shows "u' = ufd_new i u" and "i0 \<le> i" and "i < OPEN_MAX cf" and "i < U_maxofile u \<Longrightarrow> \<not> has UF_ALLOCATED (uf u i)"
    and "i0 \<le> k \<Longrightarrow> k < i \<Longrightarrow> k < U_maxofile u \<and> has UF_ALLOCATED (uf u k)"
proof -
  from assms have f: "List.find (unused u) [i0..<OPEN_MAX cf] = Some i" and "u' = ufd_new i u"
    by (auto simp: ufdalloc_def split: option.splits)
  then show "u' = ufd_new i u" by simp
  show "i0 \<le> i" "i < OPEN_MAX cf" by (rule find_upt [OF f])+
  show "i < U_maxofile u \<Longrightarrow> \<not> has UF_ALLOCATED (uf u i)" using find_upt(1) [OF f] by (simp add: unused_def)
  show "i0 \<le> k \<Longrightarrow> k < i \<Longrightarrow> k < U_maxofile u \<and> has UF_ALLOCATED (uf u k)" using find_upt(4) [OF f, of k] by (auto simp: unused_def)
qed

lemma ufdalloc_ok:
  assumes inv: "pinv cf u X" and t: "X t \<noteq> FGone" "excl (X t) = None" "\<not> alone (X t)" and a: "ufdalloc cf i0 u = (u', Inr i)"
  shows "pinv cf u' X" and "refs u' X = refs u X" and "fresh u' X i"
proof -
  note d = pinvD [OF inv] and n = ufdalloc_Inr [OF a] and f = unused_free [OF inv ufdalloc_Inr(4) [OF a]]
  have i: "i < length (U_ufd u)" using n(3) d(1) by simp
  note s = ufd_new_simps [OF i, folded n(1)]
  have w: "X t \<noteq> FWait j b" for j b using t(2) by auto
  have ur: "users X i = {}" using f(2) by (auto simp: users_def)
  have "pinv cf u' (X(t := X t))"
    by (rule pinv_one [OF inv, where j = i]) (use s d(1,2) n(3) f t ur event_wait [OF inv w] not_alone [OF inv t(1,3)] n(4) in \<open>auto simp: has_bits bits_allocated\<close>)
  then show "pinv cf u' X" by simp
  have "refs u' (X(t := X t)) = (refs u X)(i := refs u' (X(t := X t)) i)" by (rule refs_one) (use s f(3) in auto)
  moreover have "refs u' X i = None" "refs u X i = None" using s f(3) by (auto simp: refs_def)
  ultimately show "refs u' X = refs u X" by (simp add: fun_upd_idem)
  show "fresh u' X i" unfolding fresh_def using s f(1) by (auto simp: has_bits bits_allocated)
qed

text \<open>A fresh descriptor gets its file.\<close>

lemma fill_ok:
  assumes inv: "pinv cf u X" and t: "X t \<noteq> FGone" "excl (X t) = None" "\<not> alone (X t)" and fr: "fresh u X i"
  shows "pinv cf (set_uf i (\<lambda>d. d\<lparr>uf_fp := Some f\<rparr>) u) X" and "refs (set_uf i (\<lambda>d. d\<lparr>uf_fp := Some f\<rparr>) u) X = (refs u X)(i \<mapsto> f)" and "refs u X i = None"
proof -
  note d = pinvD [OF inv]
  define u' where "u' = set_uf i (\<lambda>d. d\<lparr>uf_fp := Some f\<rparr>) u"
  have i: "i < U_maxofile u" "\<And>t. excl (X t) \<noteq> Some i" "uf_fp (uf u i) = None" "uf_count (uf u i) = 0" "has UF_ALLOCATED (uf u i)" "\<not> has UF_CLOSING (uf u i)"
    using fr by (auto simp: fresh_def)
  have e: "uf u' k = (if k = i then (uf u i)\<lparr>uf_fp := Some f\<rparr> else uf u k)" for k
    using uf_set_uf [OF in_ufd [OF inv i(1)]] by (simp add: u'_def)
  have m: "U_maxofile u' = U_maxofile u" "length (U_ufd u') = length (U_ufd u)" "alive u' = alive u" "U_fdevent u' = U_fdevent u" by (simp_all add: u'_def)
  have w: "X t \<noteq> FWait j b" for j b using t(2) by auto
  have nu: "X t' \<noteq> FUse i g" for t' g using d(7) [of t'] i(3) by auto
  then have ur: "users X i = {}" by (auto simp: users_def)
  have "pinv cf u' (X(t := X t))"
    by (rule pinv_one [OF inv, where j = i])
      (use e m d(1,2) i nu t ur event_wait [OF inv w] not_alone [OF inv t(1,3)] in \<open>auto simp: has_bits\<close>)
  then show "pinv cf (set_uf i (\<lambda>d. d\<lparr>uf_fp := Some f\<rparr>) u) X" by (simp add: u'_def)
  have "refs u' (X(t := X t)) = (refs u X)(i := refs u' (X(t := X t)) i)" by (rule refs_one) (use e m in auto)
  moreover have "\<not> past (X t') i" for t' using past_excl [OF inv _ not_alone [OF inv t(1,3)]] i(2) by metis
  then have "refs u' X i = Some f" using e m i(1) d(8) [OF t(1)] by (simp add: refs_def)
  ultimately show "refs (set_uf i (\<lambda>d. d\<lparr>uf_fp := Some f\<rparr>) u) X = (refs u X)(i \<mapsto> f)" by (simp add: u'_def)
  show "refs u X i = None" using i(3) by (simp add: refs_def)
qed

lemma last_used_le: "last_used v n \<le> n"
  by (induction n) auto

lemma last_used_cut: "last_used v n \<le> k \<Longrightarrow> k < n \<Longrightarrow> \<not> has UF_ALLOCATED (uf v k)"
  by (induction n) (auto simp: less_Suc_eq split: if_splits)

lemma ufdfree_simps:
  assumes "i < length (U_ufd u)" and "i < U_maxofile u"
  shows "length (U_ufd (ufdfree i u)) = length (U_ufd u)" "alive (ufdfree i u) = alive u" "U_fdevent (ufdfree i u) = U_fdevent u"
    "U_lockflag (ufdfree i u) = U_lockflag u" "U_maxofile (ufdfree i u) \<le> U_maxofile u"
    "uf (ufdfree i u) k = (if k = i then (uf u i)\<lparr>uf_fp := None, uf_flags := 0\<rparr> else uf u k)"
    "k \<noteq> i \<Longrightarrow> k < U_maxofile u \<Longrightarrow> \<not> k < U_maxofile (ufdfree i u) \<Longrightarrow> \<not> has UF_ALLOCATED (uf u k)"
proof -
  let ?v = "set_uf i (\<lambda>d. d\<lparr>uf_fp := None, uf_flags := 0\<rparr>) u"
  have le: "last_used ?v (U_maxofile u - 1) \<le> U_maxofile u" using last_used_le [of ?v "U_maxofile u - 1"] by simp
  show "length (U_ufd (ufdfree i u)) = length (U_ufd u)" "alive (ufdfree i u) = alive u" "U_fdevent (ufdfree i u) = U_fdevent u"
    "U_lockflag (ufdfree i u) = U_lockflag u" "U_maxofile (ufdfree i u) \<le> U_maxofile u"
    using le by (simp_all add: ufdfree_def Let_def)
  show "uf (ufdfree i u) k = (if k = i then (uf u i)\<lparr>uf_fp := None, uf_flags := 0\<rparr> else uf u k)"
    using uf_set_uf [OF assms(1)] by (simp add: ufdfree_def Let_def)
  show "\<not> has UF_ALLOCATED (uf u k)" if "k \<noteq> i" "k < U_maxofile u" "\<not> k < U_maxofile (ufdfree i u)"
  proof -
    have "Suc i = U_maxofile u" "last_used ?v (U_maxofile u - 1) \<le> k" using that by (auto simp: ufdfree_def Let_def split: if_splits)
    with that have "\<not> has UF_ALLOCATED (uf ?v k)" by (intro last_used_cut [of _ "U_maxofile u - 1"]) auto
    with that(1) show ?thesis by simp
  qed
qed

lemma ufdfree_ok:
  assumes inv: "pinv cf u X" and x: "excl (X t) = Some i" "\<And>b. X t \<noteq> FWait i b" "uf_count (uf u i) = 0"
    and y: "excl y = None" "\<And>k. \<not> uses y k" "y \<noteq> FGone" "thr_sane (ufdfree i u) y" "alone y \<Longrightarrow> alone (X t)" "\<And>k. k \<noteq> i \<Longrightarrow> past y k = past (X t) k"
  shows "pinv cf (ufdfree i u) (X(t := y))" and "refs (ufdfree i u) (X(t := y)) = (refs u X)(i := None)"
proof -
  note d = pinvD [OF inv]
  have g: "X t \<noteq> FGone" using x(1) by auto
  have i: "i < U_maxofile u" using d(7) [of t] x(1) by (cases "X t") auto
  note s = ufdfree_simps [OF in_ufd [OF inv i] i]
  have nu: "X t' \<noteq> FUse i f" for t' f using count_0 [OF inv i] x(3) by simp
  then have ur: "users X i = {}" by (auto simp: users_def)
  have ux: "\<not> uses (X t) k" for k using x(1) by (cases "X t") auto
  have w: "X t \<noteq> FWait j c" for j c using x(1) x(2) [of c] by auto
  have cut: "uf_fp (uf u k) = None" if "k \<noteq> i" "k < U_maxofile u" "\<not> k < U_maxofile (ufdfree i u)" for k
    using s(7) [OF that] d(4) [of k] that(2) by (cases "uf_fp (uf u k)") auto
  show "pinv cf (ufdfree i u) (X(t := y))"
  proof (rule pinv_one [OF inv, where j = i])
    show "excl (X t') \<noteq> Some i" if "t' \<noteq> t" for t' using d(9) [OF x(1), of t'] that by auto
    show "X t' = FGone" if "t' \<noteq> t" "alone y" for t' using d(10) [OF y(5) [OF that(2)], of t'] that(1) by auto
  qed (use s x y ux w g d(2) d(1) nu ur other_not_alone [OF inv g] event_wait [OF inv w] in \<open>auto simp: has_bits\<close>)
  have "refs (ufdfree i u) (X(t := y)) = (refs u X)(i := refs (ufdfree i u) (X(t := y)) i)" by (rule refs_one) (use s cut y(6) in auto)
  moreover have "refs (ufdfree i u) (X(t := y)) i = None" using s(6) by (simp add: refs_def)
  ultimately show "refs (ufdfree i u) (X(t := y)) = (refs u X)(i := None)" by simp
qed

section \<open>close\<close>

text \<open>\<open>close\<close> takes a descriptor that can be closed.\<close>

lemma set_closing_ok:
  assumes inv: "pinv cf u X" and t: "X t \<noteq> FGone" "excl (X t) = None" "\<not> alone (X t)" "\<And>k. \<not> uses (X t) k" "\<And>k. \<not> past (X t) k"
    and i: "i < U_maxofile u" "can_close u i" and a: "may_wait a"
  shows "pinv cf (set_closing i u) (X(t := FWait i a))" and "refs (set_closing i u) (X(t := FWait i a)) = refs u X"
proof -
  note d = pinvD [OF inv]
  let ?u = "set_closing i u"
  have e: "uf ?u k = (if k = i then (uf u i)\<lparr>uf_flags := uf_flags (uf u i) OR UF_CLOSING\<rparr> else uf u k)" for k
    using uf_set_uf [OF in_ufd [OF inv i(1)]] by (simp add: set_closing_def)
  have m: "U_maxofile ?u = U_maxofile u" "length (U_ufd ?u) = length (U_ufd u)" "alive ?u = alive u" "U_fdevent ?u = U_fdevent u"
    by (simp_all add: set_closing_def)
  have na: "\<not> alone (X t')" for t' by (rule not_alone [OF inv t(1,3)])
  have w: "X t \<noteq> FWait j b" for j b using t(2) by auto
  have ex: "excl (X t') \<noteq> Some i" for t' using d(7) [of t'] na [of t'] i(2) by (cases "X t'") (auto simp: can_close_def)
  have us: "i < U_maxofile ?u \<and> uf_fp (uf ?u i) = Some f" if "X t' = FUse i f" for t' f using d(7) [of t'] that e m by simp
  show "pinv cf ?u (X(t := FWait i a))"
    by (rule pinv_one [OF inv, where j = i])
      (use e m d(1,2,4,5) i t a ex na us event_wait [OF inv w] in \<open>auto simp: can_close_def has_bits bits_closing bit_or_iff\<close>)
  have "refs ?u (X(t := FWait i a)) = refs ?u X" by (rule refs_thread) (simp add: t(5))
  then show "refs ?u (X(t := FWait i a)) = refs u X" by (auto simp: refs_def e m)
qed

lemma sleep_ok:
  assumes inv: "pinv cf u X" and t: "X t = FWait i a" and c: "uf_count (uf u i) \<noteq> 0"
  shows "pinv cf (u\<lparr>U_fdevent := t # U_fdevent u\<rparr>) X" and "refs (u\<lparr>U_fdevent := t # U_fdevent u\<rparr>) X = refs u X"
proof -
  note d = pinvD [OF inv]
  have "thr_sane (u\<lparr>U_fdevent := es\<rparr>) x = thr_sane u x" for es x by (cases x) auto
  with d t c show "pinv cf (u\<lparr>U_fdevent := t # U_fdevent u\<rparr>) X" by (intro pinvI) auto
  show "refs (u\<lparr>U_fdevent := t # U_fdevent u\<rparr>) X = refs u X" by (rule ext) (simp add: refs_def)
qed

text \<open>A thread that waits for a descriptor nobody uses gets it.\<close>

lemma waited_ok:
  assumes inv: "pinv cf u X" and t: "X t = FWait i a" and c: "uf_count (uf u i) = 0" and f: "uf_fp (uf u i) = Some f"
  shows "pinv cf u (X(t := FDying i f a))" and "refs u (X(t := FDying i f a)) = (refs u X)(i := None)" and "refs u X i = Some f"
proof -
  note d = pinvD [OF inv]
  have w: "i < U_maxofile u" "may_wait a" "has UF_CLOSING (uf u i)" using d(7) [of t] t by auto
  have g: "X t \<noteq> FGone" "\<not> alone (X t)" using t by simp_all
  have ex: "excl (X t') \<noteq> Some i" if "t' \<noteq> t" for t' using d(9) [of t i t'] t that by auto
  have ev: "t \<notin> set (U_fdevent u)" using d(11) [of t] t c by auto
  show "pinv cf u (X(t := FDying i f a))"
    by (rule pinv_thread [OF inv]) (use t w c f ex ev d(8) [OF g(1)] not_alone [OF inv g] in auto)
  have p: "\<not> past (X t') i" for t'
    using past_excl [OF inv _ not_alone [OF inv g], of t' i] ex [of t'] t by (cases "t' = t") auto
  have "refs u (X(t := FDying i f a)) = (refs u X)(i := refs u (X(t := FDying i f a)) i)" by (rule refs_one) (use t w in auto)
  moreover have "refs u (X(t := FDying i f a)) i = None" by (auto simp: refs_def)
  ultimately show "refs u (X(t := FDying i f a)) = (refs u X)(i := None)" by simp
  show "refs u X i = Some f" using p w f d(8) [OF g(1)] by (simp add: refs_def)
qed

text \<open>\<open>exec\<close> and \<open>exit\<close> have no one to wait for.\<close>

lemma sole_ok:
  assumes inv: "pinv cf u X" and t: "X t \<noteq> FGone" "excl (X t) = None" "\<And>k. \<not> uses (X t) k" and s: "\<And>t'. t' \<noteq> t \<Longrightarrow> X t' = FGone"
    and i: "i < U_maxofile u" "uf_fp (uf u i) = Some f" and a: "\<not> may_wait a" and p: "\<not> past (X t) i"
    and q: "\<And>k. k < U_maxofile u \<Longrightarrow> k \<noteq> i \<Longrightarrow> past (FDying i f a) k = past (X t) k \<or> uf_fp (uf u k) = None"
  shows "pinv cf u (X(t := FDying i f a))" and "refs u (X(t := FDying i f a)) = (refs u X)(i := None)" and "refs u X i = Some f"
proof -
  note d = pinvD [OF inv]
  have nu: "X t' \<noteq> FUse i g" for t' g using s [of t'] t(3) [of i] by (cases "t' = t") auto
  then have c: "uf_count (uf u i) = 0" using count_0 [OF inv i(1)] by simp
  have w: "X t \<noteq> FWait j b" for j b using t(2) by auto
  have cl: "\<not> closing (X t) j" for j using closing_excl [of "X t" j] t(2) by auto
  show "pinv cf u (X(t := FDying i f a))"
    by (rule pinv_thread [OF inv]) (use t s i c a cl d(8) [OF t(1)] event_wait [OF inv w] in auto)
  have "(\<forall>t'. \<not> past (X t') k) \<longleftrightarrow> \<not> past (X t) k" for k using s by (metis past.simps(3))
  moreover have "(\<forall>t'. \<not> past ((X(t := FDying i f a)) t') k) \<longleftrightarrow> \<not> past (FDying i f a) k" for k using s by (metis fun_upd_apply past.simps(3))
  ultimately have r: "refs u (X(t := FDying i f a)) k = (if k < U_maxofile u \<and> \<not> past (FDying i f a) k then uf_fp (uf u k) else None)"
      "refs u X k = (if k < U_maxofile u \<and> \<not> past (X t) k then uf_fp (uf u k) else None)" for k
    using d(8) [OF t(1)] by (simp_all add: refs_def del: fun_upd_apply)
  show "refs u X i = Some f" using r(2) p i by simp
  show "refs u (X(t := FDying i f a)) = (refs u X)(i := None)"
  proof
    fix k
    show "refs u (X(t := FDying i f a)) k = ((refs u X)(i := None)) k" using q [of k] unfolding r fun_upd_apply by (cases "k = i") auto
  qed
qed

text \<open>The thread goes on with a loop, or is through with it.\<close>

lemma loop_ok:
  assumes inv: "pinv cf u X" and t: "X t = FIdle \<or> X t = FLoop i a \<or> X t = FDying i f a \<and> a = AExit"
    and y: "y = FIdle \<or> y = FLoop i' a'" "thr_sane u y" "alone y \<Longrightarrow> alone (X t)"
  shows "pinv cf u (X(t := y))"
proof (rule pinv_thread [OF inv])
  have g: "X t \<noteq> FGone" and w: "X t \<noteq> FWait j b" for j b using t by auto
  show "X t' = FGone" if "t' \<noteq> t" "alone y" for t' using pinvD(10) [OF inv y(3) [OF that(2)], of t'] that(1) by auto
  show "\<not> alone (X t')" if "t' \<noteq> t" for t' by (rule other_not_alone [OF inv g that])
  show "alive u" by (rule pinvD(8) [OF inv g])
  show "t \<notin> set (U_fdevent u)" by (rule event_wait [OF inv w])
qed (use t y in auto)

lemma exit_ok:
  assumes inv: "pinv cf u X" and t: "X t = FIdle \<or> X t = FLoop i a" and s: "\<And>t'. t' \<noteq> t \<Longrightarrow> X t' = FGone"
    and p: "\<And>k. k < U_maxofile u \<Longrightarrow> past (X t) k \<or> uf_fp (uf u k) = None"
  shows "pinv cf (u\<lparr>alive := False\<rparr>) (X(t := FGone))" and "refs (u\<lparr>alive := False\<rparr>) (X(t := FGone)) = Map.empty" and "refs u X = Map.empty"
proof -
  have x: "X(t := FGone) = (\<lambda>_. FGone)" using s by auto
  have w: "X t \<noteq> FWait j b" for j b using t by auto
  have "X t' \<noteq> FGone" if "t' \<in> set (U_fdevent u)" for t' using pinvD(11) [OF inv that] by auto
  with s event_wait [OF inv w] have ev: "t' \<notin> set (U_fdevent u)" for t' by metis
  have "pinv cf u (X(t := FGone))"
    by (rule pinv_thread [OF inv]) (use t s event_wait [OF inv w] in auto)
  then show "pinv cf (u\<lparr>alive := False\<rparr>) (X(t := FGone))" unfolding x pinv_def by (simp add: users_def)
  show "refs (u\<lparr>alive := False\<rparr>) (X(t := FGone)) = Map.empty" by (rule ext) (simp add: refs_def)
  show "refs u X = Map.empty" using p by (fastforce simp: refs_def)
qed

section \<open>Threads and processes\<close>

lemma spawn_ok:
  assumes inv: "pinv cf u X" and t: "X t = FIdle" "X t' = FGone"
  shows "pinv cf u (X(t' := FIdle))"
proof (rule pinv_thread [OF inv])
  have g: "X t \<noteq> FGone" "\<not> alone (X t)" using t by simp_all
  show "alive u" by (rule pinvD(8) [OF inv g(1)])
  show "\<not> alone (X t'')" for t'' by (rule not_alone [OF inv g])
  show "t' \<notin> set (U_fdevent u)" by (rule event_wait [OF inv]) (simp add: t)
qed (use t in auto)

lemma quit_ok:
  assumes inv: "pinv cf u X" and t: "X t = FIdle"
  shows "pinv cf u (X(t := FGone))"
  by (rule pinv_thread [OF inv]) (use t event_wait [OF inv, of t] in auto)

text \<open>A process with one thread and nothing going on.\<close>

lemma new_ok:
  assumes "length (U_ufd u) = OPEN_MAX cf" and "U_maxofile u \<le> OPEN_MAX cf" and "alive u" and "U_fdevent u = []"
    and "\<And>j. j < U_maxofile u \<Longrightarrow> uf_fp (uf u j) \<noteq> None \<Longrightarrow> has UF_ALLOCATED (uf u j)"
    and "\<And>j. j < U_maxofile u \<Longrightarrow> uf_count (uf u j) = 0 \<and> \<not> has UF_CLOSING (uf u j)"
  shows "pinv cf u ((\<lambda>_. FGone)(t := FIdle))" and "j < U_maxofile u \<Longrightarrow> refs u ((\<lambda>_. FGone)(t := FIdle)) j = uf_fp (uf u j)"
proof -
  let ?X = "(\<lambda>_. FGone)(t := FIdle)"
  have "users ?X j = {}" for j by (simp add: users_upd) (simp add: users_def)
  with assms show "pinv cf u ?X" by (intro pinvI) (auto split: if_splits)
  show "j < U_maxofile u \<Longrightarrow> refs u ?X j = uf_fp (uf u j)" using assms(3) by (simp add: refs_def)
qed

end
