(* ===== verification/FdInv.thy ===== *)
theory FdInv
  imports FdProc
begin

text \<open>
  The whole system: every process is in order, and the table of files has the references that the descriptors and the
  threads in \<open>open\<close> have. Every step comes back (no assertion fails) and keeps this.
\<close>

section \<open>The invariant\<close>

definition thr_of :: "fsys \<Rightarrow> nat \<Rightarrow> fthread" where
  "thr_of s t = (if t < length (fthr s) then fthr s ! t else FGone)"

definition pview :: "fsys \<Rightarrow> nat \<Rightarrow> nat \<Rightarrow> fthread" where
  "pview s p t = (if t < length (fthr s) \<and> owner s ! t = p then fthr s ! t else FGone)"

fun opens :: "fthread \<Rightarrow> nat option" where
  "opens (FOpening j f w) = Some f"
| "opens _ = None"

fun dies :: "fthread \<Rightarrow> nat option" where
  "dies (FDying j f a) = Some f"
| "dies _ = None"

definition mk :: "(nat \<Rightarrow> nat \<Rightarrow> nat option) \<Rightarrow> (nat \<Rightarrow> nat option) \<Rightarrow> ref \<Rightarrow> nat option" where
  "mk P Q r = (case r of RFd p j \<Rightarrow> P p j | RThr t \<Rightarrow> Q t)"

definition prefs :: "fsys \<Rightarrow> nat \<Rightarrow> nat \<Rightarrow> nat option" where
  "prefs s p = (if p < length (procs s) then refs (procs s ! p) (pview s p) else Map.empty)"

abbreviation at_open :: "fsys \<Rightarrow> nat \<Rightarrow> nat option" where "at_open s \<equiv> \<lambda>t. opens (thr_of s t)"
abbreviation at_close :: "fsys \<Rightarrow> nat \<Rightarrow> nat option" where "at_close s \<equiv> \<lambda>t. dies (thr_of s t)"

definition fsys_ok :: "fcfg \<Rightarrow> fsys \<Rightarrow> bool" where
  "fsys_ok cf s \<longleftrightarrow> length (owner s) = length (fthr s) \<and> (\<forall>t < length (fthr s). owner s ! t < length (procs s))
     \<and> (\<forall>p < length (procs s). pinv cf (procs s ! p) (pview s p)) \<and> ftab_ok (mk (prefs s) (at_open s)) (at_close s) (ft s)"

lemma fsys_okD:
  assumes "fsys_ok cf s"
  shows "length (owner s) = length (fthr s)" and "t < length (fthr s) \<Longrightarrow> owner s ! t < length (procs s)"
    and "p < length (procs s) \<Longrightarrow> pinv cf (procs s ! p) (pview s p)" and "ftab_ok (mk (prefs s) (at_open s)) (at_close s) (ft s)"
  using assms by (simp_all add: fsys_ok_def)

lemma mk_simps [simp]: "mk P Q (RFd p j) = P p j" "mk P Q (RThr t) = Q t"
  by (simp_all add: mk_def)

lemma mk_fd: "mk (P(p := (P p)(j := x))) Q = (mk P Q)(RFd p j := x)"
  by (rule ext) (simp add: mk_def split: ref.split)

lemma mk_thr: "mk P (Q(t := x)) = (mk P Q)(RThr t := x)"
  by (rule ext) (simp add: mk_def split: ref.split)

lemma fsys_ok_res [simp]: "fsys_ok cf (s\<lparr>fres := r\<rparr>) = fsys_ok cf s"
proof -
  have v: "pview (s\<lparr>fres := r\<rparr>) = pview s" "thr_of (s\<lparr>fres := r\<rparr>) = thr_of s" by (auto simp: pview_def thr_of_def fun_eq_iff)
  then have "prefs (s\<lparr>fres := r\<rparr>) = prefs s" by (intro ext) (simp add: prefs_def)
  with v show ?thesis by (simp add: fsys_ok_def)
qed

section \<open>A step of one thread\<close>

lemma goes_on_simps [simp]:
  "fthr (goes_on t x k u s) = (fthr s)[t := x]" "owner (goes_on t x k u s) = owner s" "ft (goes_on t x k u s) = k"
  "procs (goes_on t x k u s) = (procs s)[owner s ! t := u]" "fres (goes_on t x k u s) = fres s"
  by (simp_all add: goes_on_def set_fthr_def set_proc_def)

lemma done_goes_on: "done_call t r k u s = (goes_on t FIdle k u s)\<lparr>fres := Some r\<rparr>"
  by (simp add: done_call_def goes_on_def)

lemma view_goes_on: "t < length (fthr s) \<Longrightarrow> pview (goes_on t x k u s) p = (if p = owner s ! t then (pview s p)(t := x) else pview s p)"
  by (rule ext) (auto simp: pview_def nth_list_update)

lemma thr_goes_on: "t < length (fthr s) \<Longrightarrow> thr_of (goes_on t x k u s) = (thr_of s)(t := x)"
  by (rule ext) (auto simp: thr_of_def nth_list_update)

lemma goes_on_ok:
  assumes ok: "fsys_ok cf s" and t: "t < length (fthr s)"
    and u: "pinv cf u ((pview s (owner s ! t))(t := x))"
    and k: "ftab_ok (mk ((prefs s)(owner s ! t := refs u ((pview s (owner s ! t))(t := x)))) ((at_open s)(t := opens x))) ((at_close s)(t := dies x)) k"
  shows "fsys_ok cf (goes_on t x k u s)"
proof -
  note i = fsys_okD [OF ok]
  let ?p = "owner s ! t" and ?s = "goes_on t x k u s"
  have p: "?p < length (procs s)" by (rule i(2) [OF t])
  have "prefs ?s = (prefs s)(?p := refs u ((pview s ?p)(t := x)))"
    by (rule ext) (auto simp: prefs_def view_goes_on [OF t] p nth_list_update)
  moreover have "at_open ?s = (at_open s)(t := opens x)" "at_close ?s = (at_close s)(t := dies x)" by (auto simp: thr_goes_on [OF t])
  moreover have "pinv cf (procs ?s ! q) (pview ?s q)" if "q < length (procs ?s)" for q
    using that i(3) [of q] u by (auto simp: view_goes_on [OF t] nth_list_update)
  ultimately show ?thesis using i(1,2) k by (simp add: fsys_ok_def)
qed

text \<open>The same for the end of a call, and where the references stay.\<close>

lemma done_ok:
  assumes "fsys_ok cf s" and "t < length (fthr s)" and "pinv cf u ((pview s (owner s ! t))(t := FIdle))"
    and "ftab_ok (mk ((prefs s)(owner s ! t := refs u ((pview s (owner s ! t))(t := FIdle)))) ((at_open s)(t := None))) ((at_close s)(t := None)) k"
  shows "fsys_ok cf (done_call t r k u s)"
  unfolding done_goes_on using goes_on_ok [OF assms(1-3)] assms(4) by simp

text \<open>What is known of a thread in the middle of a step: nothing of the table is its own.\<close>

definition plain :: "fthread \<Rightarrow> bool" where
  "plain x \<longleftrightarrow> opens x = None \<and> dies x = None"

lemma thr_of_view: "t < length (fthr s) \<Longrightarrow> pview s (owner s ! t) t = fthr s ! t \<and> thr_of s t = fthr s ! t"
  by (simp add: pview_def thr_of_def)

lemma plain_upd:
  assumes "t < length (fthr s)" and "plain (fthr s ! t)"
  shows "(at_open s)(t := None) = at_open s" and "(at_close s)(t := None) = at_close s"
  using assms by (auto simp: plain_def thr_of_def fun_upd_idem)

lemma prefs_own: "fsys_ok cf s \<Longrightarrow> t < length (fthr s) \<Longrightarrow> prefs s (owner s ! t) = refs (own_proc s t) (pview s (owner s ! t))"
  using fsys_okD(2) by (simp add: prefs_def)

lemma plain_goes_on:
  assumes ok: "fsys_ok cf s" and t: "t < length (fthr s)" and pl: "plain (fthr s ! t)" "plain x"
    and u: "pinv cf u ((pview s (owner s ! t))(t := x))" "refs u ((pview s (owner s ! t))(t := x)) = refs (own_proc s t) (pview s (owner s ! t))"
    and k: "ftab_ok (mk (prefs s) (at_open s)) (at_close s) k"
  shows "fsys_ok cf (goes_on t x k u s)"
proof (rule goes_on_ok [OF ok t u(1)])
  have "(prefs s)(owner s ! t := refs u ((pview s (owner s ! t))(t := x))) = prefs s"
    using u(2) prefs_own [OF ok t] by (simp add: fun_upd_idem)
  moreover have "(at_open s)(t := opens x) = at_open s" "(at_close s)(t := dies x) = at_close s"
    using plain_upd [OF t pl(1)] pl(2) by (simp_all add: plain_def)
  ultimately show "ftab_ok (mk ((prefs s)(owner s ! t := refs u ((pview s (owner s ! t))(t := x)))) ((at_open s)(t := opens x))) ((at_close s)(t := dies x)) k"
    using k by simp
qed

lemma plain_done:
  assumes "fsys_ok cf s" and "t < length (fthr s)" and "plain (fthr s ! t)"
    and "pinv cf u ((pview s (owner s ! t))(t := FIdle))" "refs u ((pview s (owner s ! t))(t := FIdle)) = refs (own_proc s t) (pview s (owner s ! t))"
    and "ftab_ok (mk (prefs s) (at_open s)) (at_close s) k"
  shows "fsys_ok cf (done_call t r k u s)"
  unfolding done_goes_on using plain_goes_on [OF assms(1-3) _ assms(4,5)] assms(6) by (simp add: plain_def)

section \<open>open\<close>

text \<open>A fresh descriptor becomes that of a thread in \<open>open\<close>, and back.\<close>

lemma to_opening:
  assumes inv: "pinv cf u X" and t: "X t = FIdle" and fr: "fresh u X i"
  shows "pinv cf u (X(t := FOpening i f w))" and "refs u (X(t := FOpening i f w)) = refs u X"
proof -
  have g: "X t \<noteq> FGone" "\<not> alone (X t)" using t by simp_all
  show "pinv cf u (X(t := FOpening i f w))"
    by (rule pinv_thread [OF inv]) (use t fr pinvD(8) [OF inv g(1)] not_alone [OF inv g] event_wait [OF inv, of t] in \<open>auto simp: fresh_def\<close>)
  show "refs u (X(t := FOpening i f w)) = refs u X" by (rule refs_thread) (simp add: t)
qed

lemma from_opening:
  assumes inv: "pinv cf u X" and t: "X t = FOpening i f w"
  shows "pinv cf u (X(t := FIdle))" and "refs u (X(t := FIdle)) = refs u X" and "fresh u (X(t := FIdle)) i"
proof -
  note d = pinvD [OF inv]
  have g: "X t \<noteq> FGone" "\<not> alone (X t)" using t by simp_all
  show "pinv cf u (X(t := FIdle))"
    by (rule pinv_thread [OF inv]) (use t pinvD(8) [OF inv g(1)] not_alone [OF inv g] event_wait [OF inv, of t] in auto)
  show "refs u (X(t := FIdle)) = refs u X" by (rule refs_thread) (simp add: t)
  have s: "i < U_maxofile u" "has UF_ALLOCATED (uf u i)" "uf_fp (uf u i) = None" using d(7) [of t] t by simp_all
  have ex: "excl (X t') \<noteq> Some i" if "t' \<noteq> t" for t' using d(9) [of t i t'] t that by auto
  have "X t' \<noteq> FUse i g" for t' g using d(7) [of t'] s(3) by auto
  then have "uf_count (uf u i) = 0" using count_0 [OF inv s(1)] by simp
  moreover have "\<not> closing (X t') i" for t' using ex [of t'] closing_excl [of "X t'" i] t by (cases "t' = t") auto
  then have "\<not> has UF_CLOSING (uf u i)" using d(6) [OF s(1)] by auto
  ultimately show "fresh u (X(t := FIdle)) i" using s ex by (auto simp: fresh_def)
qed

lemma opening_free:
  assumes inv: "pinv cf u X" and t: "X t = FOpening i f w"
  shows "pinv cf (ufdfree i u) (X(t := FIdle))" and "refs (ufdfree i u) (X(t := FIdle)) = refs u X"
proof -
  have s: "uf_fp (uf u i) = None" using pinvD(7) [OF inv, of t] t by simp
  have c: "uf_count (uf u i) = 0" using from_opening(3) [OF inv t] by (simp add: fresh_def)
  have "refs u X i = None" using s by (simp add: refs_def)
  then show "pinv cf (ufdfree i u) (X(t := FIdle))" "refs (ufdfree i u) (X(t := FIdle)) = refs u X"
    using ufdfree_ok [OF inv, of t i FIdle] t c by (auto simp: fun_upd_idem)
qed

lemma ftab_okD: "ftab_ok hold dy k \<Longrightarrow> (\<And>fs. ftab_at fs hold dy k \<Longrightarrow> R) \<Longrightarrow> R"
  by (auto simp: ftab_ok_def)

lemma openpnp_ok:
  assumes ok: "fsys_ok cf s" and t: "t < length (fthr s)"
    and u: "pinv cf u ((pview s (owner s ! t))(t := FOpening fd f0 w0))"
      "refs u ((pview s (owner s ! t))(t := FOpening fd f0 w0)) = refs (own_proc s t) (pview s (owner s ! t))"
    and k: "ftab_ok (mk (prefs s) ((at_open s)(t := None))) ((at_close s)(t := None)) k"
  shows "\<exists>s'. openpnp cf t fd oflags k u s = Some s' \<and> fsys_ok cf s'"
proof -
  let ?p = "owner s ! t" and ?X = "(pview s (owner s ! t))(t := FOpening fd f0 w0)"
  have P: "(prefs s)(?p := refs (own_proc s t) (pview s ?p)) = prefs s" using prefs_own [OF ok t] by (simp add: fun_upd_idem)
  have free: "fsys_ok cf (done_call t r k (ufdfree fd u) s)" for r
    by (rule done_ok [OF ok t]) (use opening_free [OF u(1), of t fd f0 w0] u(2) k P in simp_all)
  have go: "fsys_ok cf (goes_on t (FOpening fd f oflags) k' u s)"
    if "ftab_ok ((mk (prefs s) ((at_open s)(t := None)))(RThr t \<mapsto> f)) ((at_close s)(t := None)) k'" for f k'
  proof (rule goes_on_ok [OF ok t])
    have x: "(pview s ?p)(t := FOpening fd f oflags) = ?X(t := FIdle, t := FOpening fd f oflags)" by simp
    note o = from_opening [OF u(1), of t fd f0 w0]
    show "pinv cf u ((pview s ?p)(t := FOpening fd f oflags))" unfolding x by (rule to_opening(1) [OF o(1) _ o(3)]) simp_all
    have "refs u ((pview s ?p)(t := FOpening fd f oflags)) = refs u ?X" unfolding x using to_opening(2) [OF o(1) _ o(3), of t f oflags] o(2) by simp
    then show "ftab_ok (mk ((prefs s)(?p := refs u ((pview s ?p)(t := FOpening fd f oflags)))) ((at_open s)(t := opens (FOpening fd f oflags))))
        ((at_close s)(t := dies (FOpening fd f oflags))) k'"
      using that u(2) P by (simp add: mk_thr [symmetric])
  qed
  have "\<exists>k' x. fpalloc cf None (open_flags oflags AND FMASK) DTYPE_VNODE (Some 0) k = Some (k', x)
     \<and> (case x of Inl e \<Rightarrow> k' = k | Inr f \<Rightarrow> ftab_ok ((mk (prefs s) ((at_open s)(t := None)))(RThr t \<mapsto> f)) ((at_close s)(t := None)) k')"
    using fpalloc_ok [OF k, of "RThr t" cf None "open_flags oflags AND FMASK" DTYPE_VNODE "Some 0"] by (fastforce split: sum.splits)
  then show ?thesis using free go by (fastforce simp: openpnp_def split: sum.splits)
qed

lemma copen_ok:
  assumes ok: "fsys_ok cf s" and t: "t < length (fthr s)" "fthr s ! t = FIdle"
  shows "\<exists>s'. copen cf t oflags s = Some s' \<and> fsys_ok cf s'"
proof -
  note i = fsys_okD [OF ok]
  let ?p = "owner s ! t" and ?u = "own_proc s t"
  have X: "pview s ?p t = FIdle" using thr_of_view [OF t(1)] t(2) by simp
  have inv: "pinv cf ?u (pview s ?p)" by (rule i(3) [OF i(2) [OF t(1)]])
  have pl: "plain (fthr s ! t)" using t(2) by (simp add: plain_def)
  have same: "(pview s ?p)(t := FIdle) = pview s ?p" using X by auto
  show ?thesis
  proof (cases "ufdalloc cf 0 ?u")
    case (Pair u r)
    show ?thesis
    proof (cases r)
      case (Inl e)
      then have "u = ?u" using Pair by (auto simp: ufdalloc_def split: option.splits)
      moreover have "fsys_ok cf (done_call t (Inl e) (ft s) ?u s)" by (rule plain_done [OF ok t(1) pl]) (use inv same i(4) in simp_all)
      ultimately show ?thesis using Pair Inl by (simp add: copen_def)
    next
      case (Inr fd)
      with Pair have a: "ufdalloc cf 0 ?u = (u, Inr fd)" by simp
      note n = ufdalloc_ok [OF inv _ _ _ a, of t]
      have u: "pinv cf u (pview s ?p)" "refs u (pview s ?p) = refs ?u (pview s ?p)" "fresh u (pview s ?p) fd" using n X by simp_all
      note o = to_opening [OF u(1) X u(3), of 0 0]
      show ?thesis using openpnp_ok [OF ok t(1) o(1)] o(2) u(2) i(4) plain_upd [OF t(1) pl] a by (simp add: copen_def)
    qed
  qed
qed

lemma create_ok:
  assumes ok: "fsys_ok cf s" and t: "t < length (fthr s)" "fthr s ! t = FIdle"
  shows "\<exists>s'. create cf t flags ops datap type crp s = Some s' \<and> fsys_ok cf s'"
proof -
  note i = fsys_okD [OF ok]
  let ?p = "owner s ! t" and ?u = "own_proc s t" and ?X = "pview s (owner s ! t)"
  have X: "?X t = FIdle" using thr_of_view [OF t(1)] t(2) by simp
  have inv: "pinv cf ?u ?X" by (rule i(3) [OF i(2) [OF t(1)]])
  have pl: "plain (fthr s ! t)" using t(2) by (simp add: plain_def)
  have same: "?X(t := FIdle) = ?X" using X by auto
  have stay: "fsys_ok cf (done_call t r (ft s) ?u s)" for r by (rule plain_done [OF ok t(1) pl]) (use inv same i(4) in simp_all)
  show ?thesis
  proof (cases "ops = None")
    case True
    then show ?thesis using stay by (simp add: create_def ufdcreate_def)
  next
    case some: False
    then obtain op where op: "ops = Some op" by auto
    show ?thesis
    proof (cases "ufdalloc cf 0 ?u")
      case (Pair u r)
      show ?thesis
      proof (cases r)
        case (Inl e)
        then have "u = ?u" using Pair by (auto simp: ufdalloc_def split: option.splits)
        then show ?thesis using Pair Inl op stay by (simp add: create_def ufdcreate_def)
      next
        case (Inr fd)
        with Pair have a: "ufdalloc cf 0 ?u = (u, Inr fd)" by simp
        have n: "pinv cf u ?X" "refs u ?X = refs ?u ?X" "fresh u ?X fd" using ufdalloc_ok [OF inv _ _ _ a, of t] X by simp_all
        have fre: "refs u ?X fd = None" by (rule fill_ok(3) [OF n(1) _ _ _ n(3), of t]) (simp_all add: X)
        have h: "mk (prefs s) (at_open s) (RFd ?p fd) = None" using fre n(2) prefs_own [OF ok t(1)] by simp
        from fpalloc_ok [OF i(4) h, of cf datap flags type ops] obtain k x where k: "fpalloc cf datap flags type ops (ft s) = Some (k, x)"
          "case x of Inl e \<Rightarrow> k = ft s | Inr f \<Rightarrow> ftab_ok ((mk (prefs s) (at_open s))(RFd ?p fd \<mapsto> f)) (at_close s) k"
          by (fastforce split: sum.splits)
        show ?thesis
        proof (cases x)
          case (Inl e)
          note o = to_opening [OF n(1) X n(3), of 0 0]
          have "pinv cf (ufdfree fd u) ?X" "refs (ufdfree fd u) ?X = refs ?u ?X" using opening_free [OF o(1), of t fd 0 0] o(2) n(2) same by simp_all
          then have "fsys_ok cf (done_call t (Inl e) (ft s) (ufdfree fd u) s)" by (intro plain_done [OF ok t(1) pl]) (use same i(4) in simp_all)
          then show ?thesis using Pair Inr Inl op k by (simp add: create_def ufdcreate_def)
        next
          case f: (Inr f)
          let ?v = "set_uf fd (\<lambda>d. d\<lparr>uf_fp := Some f\<rparr>) u" and ?k = "set_fl f (\<lambda>r. r\<lparr>f_cred := Some crp\<rparr>) k"
          have v: "pinv cf ?v ?X" "refs ?v ?X = (refs ?u ?X)(fd \<mapsto> f)" using fill_ok(1,2) [OF n(1) _ _ _ n(3), of t f] n(2) X by simp_all
          from k(2) f obtain fs where "ftab_at fs ((mk (prefs s) (at_open s))(RFd ?p fd \<mapsto> f)) (at_close s) k" by (auto simp: ftab_ok_def)
          then have "ftab_at fs ((mk (prefs s) (at_open s))(RFd ?p fd \<mapsto> f)) (at_close s) ?k" by (rule held_change [where r = "RFd ?p fd"]) simp_all
          moreover have "(mk (prefs s) (at_open s))(RFd ?p fd \<mapsto> f) = mk ((prefs s)(?p := refs ?v ?X)) (at_open s)"
            unfolding v(2) prefs_own [OF ok t(1), symmetric] by (rule mk_fd [symmetric])
          ultimately have "ftab_ok (mk ((prefs s)(?p := refs ?v ?X)) (at_open s)) (at_close s) ?k" by (auto simp: ftab_ok_def)
          then have "fsys_ok cf (done_call t (Inr (int fd)) ?k ?v s)"
            by (intro done_ok [OF ok t(1)]) (use v(1) same plain_upd [OF t(1) pl] in simp_all)
          then show ?thesis using Pair Inr f op k(1) by (simp add: create_def ufdcreate_def)
        qed
      qed
    qed
  qed
qed

lemma open_done_ok:
  assumes ok: "fsys_ok cf s" and t: "t < length (fthr s)" "fthr s ! t = FOpening fd f w"
  shows "\<exists>s'. open_done cf t fd f oflags r s = Some s' \<and> fsys_ok cf s'"
proof -
  note i = fsys_okD [OF ok]
  let ?p = "owner s ! t" and ?u = "own_proc s t" and ?X = "pview s (owner s ! t)"
  have X: "?X t = FOpening fd f w" and h: "at_open s t = Some f" "at_close s t = None" using thr_of_view [OF t(1)] t(2) by simp_all
  have inv: "pinv cf ?u ?X" by (rule i(3) [OF i(2) [OF t(1)]])
  from i(4) obtain fs where fs: "ftab_at fs (mk (prefs s) (at_open s)) (at_close s) (ft s)" by (auto simp: ftab_ok_def)
  have dy: "(at_close s)(t := None) = at_close s" using h(2) by auto
  show ?thesis
  proof (cases r)
    case (Inr vc)
    obtain vp crp where vc: "vc = (vp, crp)" by force
    let ?g = "\<lambda>r. r\<lparr>f_up := Some vp, f_cred := Some crp\<rparr>" and ?v = "set_uf fd (\<lambda>d. d\<lparr>uf_fp := Some f\<rparr>) ?u"
    note o = from_opening [OF inv X]
    note n = fill_ok(1,2) [OF o(1) _ _ _ o(3), of t f] fill_ok(3) [OF o(1) _ _ _ o(3), of t]
    have v: "pinv cf ?v (?X(t := FIdle))" "refs ?v (?X(t := FIdle)) = (refs ?u ?X)(fd \<mapsto> f)" "refs ?u ?X fd = None" using n o(2) by simp_all
    have "ftab_at fs (mk (prefs s) (at_open s)) (at_close s) (set_fl f ?g (ft s))" by (rule held_change [OF fs, of "RThr t"]) (simp_all add: h)
    then have "ftab_at fs ((mk (prefs s) (at_open s))(RThr t := None, RFd ?p fd \<mapsto> f)) (at_close s) (set_fl f ?g (ft s))"
      by (rule move_ok) (use h v(3) prefs_own [OF ok t(1)] in simp_all)
    moreover have "mk ((prefs s)(?p := refs ?v (?X(t := FIdle)))) ((at_open s)(t := None)) = (mk (prefs s) (at_open s))(RThr t := None, RFd ?p fd \<mapsto> f)"
      unfolding v(2) prefs_own [OF ok t(1), symmetric] by (simp only: mk_fd mk_thr) (rule fun_upd_twist, simp)
    ultimately have "fsys_ok cf (done_call t (Inr (int fd)) (set_fl f ?g (ft s)) ?v s)"
      by (intro done_ok [OF ok t(1) v(1)]) (auto simp: ftab_ok_def dy)
    then show ?thesis by (simp add: open_done_def Inr vc)
  next
    case (Inl e)
    from ffree_ok [OF fs, of t f] h obtain k where k: "ffree f (ft s) = Some k" "ftab_at (f # fs) ((mk (prefs s) (at_open s))(RThr t := None)) (at_close s) k" by auto
    then have k': "ftab_ok (mk (prefs s) ((at_open s)(t := None))) ((at_close s)(t := None)) k" by (auto simp: ftab_ok_def mk_thr dy)
    have Xt: "?X(t := FOpening fd f w) = ?X" using X by auto
    have P: "(prefs s)(?p := refs ?u ?X) = prefs s" using prefs_own [OF ok t(1)] by (simp add: fun_upd_idem)
    have "\<exists>s'. openpnp cf t fd oflags k ?u s = Some s' \<and> fsys_ok cf s'"
      by (rule openpnp_ok [OF ok t(1), of _ fd f w]) (use inv k' Xt in simp_all)
    moreover have "fsys_ok cf (done_call t (Inl e) k (ufdfree fd ?u) s)"
      by (rule done_ok [OF ok t(1)]) (use opening_free [OF inv X] k' P in simp_all)
    ultimately show ?thesis using k(1) by (simp add: open_done_def Inl)
  qed
qed

section \<open>Calls that use a descriptor\<close>

lemma own_inv: "fsys_ok cf s \<Longrightarrow> t < length (fthr s) \<Longrightarrow> pinv cf (own_proc s t) (pview s (owner s ! t))"
  using fsys_okD(2,3) by blast

text \<open>A process of one active thread has no thread that waits to close.\<close>

lemma in_threads_of: "t \<in> set (threads_of p s) \<longleftrightarrow> pview s p t \<noteq> FGone"
  by (auto simp: threads_of_def pview_def)

lemma threads_of_1:
  assumes "length (threads_of p s) = 1" and "pview s p t \<noteq> FGone" and "t' \<noteq> t"
  shows "pview s p t' = FGone"
proof -
  from assms(1) obtain x where x: "threads_of p s = [x]" by (cases "threads_of p s") auto
  show ?thesis using in_threads_of [of t p s] in_threads_of [of t' p s] assms(2,3) unfolding x by auto
qed

lemma threads_of_2:
  assumes "pview s p t \<noteq> FGone" and "pview s p t' \<noteq> FGone" and "t' \<noteq> t"
  shows "1 < length (threads_of p s)"
proof (rule ccontr)
  assume "\<not> ?thesis"
  then consider "threads_of p s = []" | x where "threads_of p s = [x]" by (cases "threads_of p s") auto
  then show False using in_threads_of [of t p s] in_threads_of [of t' p s] assms by cases auto
qed

lemma getf_ok:
  assumes inv: "pinv cf u (pview s p)" and t: "pview s p t = FIdle" and g: "getf (length (threads_of p s)) fd k u = (u', Inr f)"
  shows "in_range fd u" and "uf_fp (uf u (nat fd)) = Some f" and "u' = set_uf (nat fd) (\<lambda>d. d\<lparr>uf_count := uf_count d + 1\<rparr>) u"
    and "\<not> has UF_CLOSING (uf u (nat fd))" and "f_flag (fl k f) AND FREVOKED = 0"
proof -
  have r: "in_range fd u" "take_use True (nat fd) k u = (u', Inr f)"
    and c: "length (threads_of p s) = 1 \<or> \<not> has UF_CLOSING (uf u (nat fd))"
    using g by (auto simp: getf_def getf_1thread_def getf_many_def split: if_splits)
  show "in_range fd u" by (rule r(1))
  show "uf_fp (uf u (nat fd)) = Some f" "u' = set_uf (nat fd) (\<lambda>d. d\<lparr>uf_count := uf_count d + 1\<rparr>) u" "f_flag (fl k f) AND FREVOKED = 0"
    using r(2) by (auto simp: take_use_def split: option.splits if_splits)
  show "\<not> has UF_CLOSING (uf u (nat fd))"
  proof
    assume x: "has UF_CLOSING (uf u (nat fd))"
    with c have one: "length (threads_of p s) = 1" by blast
    from r(1) have "nat fd < U_maxofile u" by (simp add: in_range_def nat_less_iff)
    from pinvD(6) [OF inv this x] obtain t' where "closing (pview s p t') (nat fd)" by blast
    moreover have "pview s p t' = FGone \<or> t' = t" using threads_of_1 [OF one, of t t'] t by auto
    ultimately show False using t by auto
  qed
qed

lemma getf_Inl: "getf n fd k u = (u', Inl e) \<Longrightarrow> u' = u"
  by (auto simp: getf_def getf_1thread_def getf_many_def take_use_def split: if_splits option.splits)

lemma use_begin_ok:
  assumes ok: "fsys_ok cf s" and t: "t < length (fthr s)" "fthr s ! t = FIdle"
  shows "\<exists>s'. use_begin t fd s = Some s' \<and> fsys_ok cf s'"
proof (cases "getf (length (threads_of (owner s ! t) s)) fd (ft s) (own_proc s t)")
  case (Pair u r)
  note i = fsys_okD [OF ok] own_inv [OF ok t(1)]
  have X: "pview s (owner s ! t) t = FIdle" using thr_of_view [OF t(1)] t(2) by simp
  have same: "(pview s (owner s ! t))(t := FIdle) = pview s (owner s ! t)" using X by auto
  have pl: "plain (fthr s ! t)" using t(2) by (simp add: plain_def)
  show ?thesis
  proof (cases r)
    case (Inl e)
    with Pair getf_Inl have "u = own_proc s t" by blast
    moreover have "fsys_ok cf (done_call t (Inl e) (ft s) (own_proc s t) s)" by (rule plain_done [OF ok t(1) pl]) (use i(4,5) same in simp_all)
    ultimately show ?thesis using Pair Inl by (simp add: use_begin_def)
  next
    case (Inr f)
    note g = getf_ok [OF i(5) X Pair [unfolded Inr]]
    have j: "nat fd < U_maxofile (own_proc s t)" using g(1) by (simp add: in_range_def nat_less_iff)
    have "fsys_ok cf (goes_on t (FUse (nat fd) f) (ft s) u s)"
      by (rule plain_goes_on [OF ok t(1) pl]) (use pinv_use [OF i(5) X j g(2,4)] g(3) i(4) in \<open>simp_all add: plain_def\<close>)
    then show ?thesis using Pair Inr by (simp add: use_begin_def)
  qed
qed

lemma use_end_ok:
  assumes ok: "fsys_ok cf s" and t: "t < length (fthr s)" "fthr s ! t = FUse j f"
  shows "\<exists>s'. use_end t j s = Some s' \<and> fsys_ok cf s'"
proof -
  note i = fsys_okD(4) [OF ok] own_inv [OF ok t(1)]
  have X: "pview s (owner s ! t) t = FUse j f" using thr_of_view [OF t(1)] t(2) by simp
  from pinv_unuse [OF i(2) X] obtain u where u: "ufdrele (int j) (own_proc s t) = Some (u, None)"
    "pinv cf u ((pview s (owner s ! t))(t := FIdle))" "refs u ((pview s (owner s ! t))(t := FIdle)) = refs (own_proc s t) (pview s (owner s ! t))" by blast
  have "fsys_ok cf (done_call t (Inr 0) (ft s) u s)" by (rule plain_done [OF ok t(1) _ u(2,3) i(1)]) (simp add: t(2) plain_def)
  with u(1) show ?thesis by (simp add: use_end_def)
qed

lemma set_proc_ok:
  assumes ok: "fsys_ok cf s" and t: "t < length (fthr s)" and u: "same_ufd (own_proc s t) u"
  shows "fsys_ok cf (set_proc (owner s ! t) u s)"
proof -
  let ?X = "pview s (owner s ! t)"
  have "set_proc (owner s ! t) u s = goes_on t (fthr s ! t) (ft s) u s" by (simp add: goes_on_def set_fthr_def set_proc_def)
  moreover have "?X(t := fthr s ! t) = ?X" "(at_open s)(t := opens (fthr s ! t)) = at_open s" "(at_close s)(t := dies (fthr s ! t)) = at_close s"
    using thr_of_view [OF t] by (auto simp: fun_eq_iff)
  moreover have "(prefs s)(owner s ! t := refs u ?X) = prefs s"
    using pinv_same(2) [OF own_inv [OF ok t] u] prefs_own [OF ok t] by (simp add: fun_upd_idem)
  ultimately show ?thesis using goes_on_ok [OF ok t, of u "fthr s ! t"] pinv_same(1) [OF own_inv [OF ok t] u] fsys_okD(4) [OF ok] by simp
qed

section \<open>fcntl\<close>

text \<open>Between \<open>getf\<close> and \<open>ufdrele\<close> the thread uses the descriptor; what a command leaves.\<close>

lemma fcntl_do_ok:
  assumes inv: "pinv cf u X" and t: "X t = FUse j f" and k: "ftab_ok (mk (P(p := refs u X)) Q) dy k"
  shows "\<exists>k' u' r. fcntl_do cf j cmd arg f k u = Some (k', u', r) \<and> pinv cf u' X \<and> ftab_ok (mk (P(p := refs u' X)) Q) dy k'"
proof -
  have j: "j < U_maxofile u" "uf_fp (uf u j) = Some f" using pinvD(7) [OF inv, of t] t by simp_all
  have g: "X t \<noteq> FGone" "excl (X t) = None" "\<not> alone (X t)" using t by simp_all
  have "\<not> past (X t') j" for t'
    using past_excl [OF inv _ not_alone [OF inv g(1,3)], of t' j] pinvD(7) [OF inv, of t'] count_0 [OF inv j(1)] t j(2) by (cases "X t'") auto
  then have h: "refs u X j = Some f" using j pinvD(8) [OF inv g(1)] by (simp add: refs_def)
  from k obtain fs where fs: "ftab_at fs (mk (P(p := refs u X)) Q) dy k" by (auto simp: ftab_ok_def)
  show ?thesis
  proof (cases cmd)
    case F_DUPFD
    show ?thesis
    proof (cases "arg < 0 \<or> arg \<ge> int (OPEN_MAX cf)")
      case True
      with F_DUPFD inv k show ?thesis by (simp add: fcntl_do_def)
    next
      case False
      show ?thesis
      proof (cases "ufdalloc cf (nat arg) u")
        case (Pair u1 r)
        show ?thesis
        proof (cases r)
          case (Inl e)
          then have "u1 = u" using Pair by (auto simp: ufdalloc_def split: option.splits)
          with False Pair Inl F_DUPFD inv k show ?thesis by (simp add: fcntl_do_def)
        next
          case (Inr i)
          with Pair have a: "ufdalloc cf (nat arg) u = (u1, Inr i)" by simp
          note n = ufdalloc_ok [OF inv g a]
          note l = fill_ok(1,2) [OF n(1) g n(3), of f] fill_ok(3) [OF n(1) g n(3)]
          from fp_hold_ok [OF fs, of p j f p i] h l(3) n(2) obtain k' where k': "fp_hold f k = Some k'"
            "ftab_at fs ((mk (P(p := refs u X)) Q)(RFd p i \<mapsto> f)) dy k'" by auto
          have "mk (P(p := (refs u X)(i \<mapsto> f))) Q = (mk (P(p := refs u X)) Q)(RFd p i \<mapsto> f)"
            using mk_fd [of "P(p := refs u X)" p i "Some f" Q] by simp
          with k'(2) have "ftab_ok (mk (P(p := (refs u X)(i \<mapsto> f))) Q) dy k'" by (auto simp: ftab_ok_def)
          with False a k'(1) F_DUPFD l(1,2) n(2) show ?thesis by (simp add: fcntl_do_def)
        qed
      qed
    qed
  next
    case F_SETFD
    then show ?thesis using pinv_same [OF inv same_cloexec, of j "word_of_int arg"] k by (simp add: fcntl_do_def)
  next
    case F_SETFL
    have "ftab_at fs (mk (P(p := refs u X)) Q) dy (set_fl f (\<lambda>r. r\<lparr>f_flag := (f_flag r AND NOT FFCNTL) OR (word_of_int (arg + 1) AND FFCNTL)\<rparr>) k)"
      by (rule held_change [OF fs, of "RFd p j"]) (simp_all add: h)
    then show ?thesis using F_SETFL inv by (auto simp: fcntl_do_def ftab_ok_def)
  qed (use inv k in \<open>simp_all add: fcntl_do_def\<close>)
qed

lemma kfcntl_ok:
  assumes ok: "fsys_ok cf s" and t: "t < length (fthr s)" "fthr s ! t = FIdle"
  shows "\<exists>s'. kfcntl cf t fdes cmd arg s = Some s' \<and> fsys_ok cf s'"
proof (cases "getf (length (threads_of (owner s ! t) s)) fdes (ft s) (own_proc s t)")
  case (Pair u r)
  note i = fsys_okD [OF ok] own_inv [OF ok t(1)]
  let ?X = "pview s (owner s ! t)"
  have X: "?X t = FIdle" using thr_of_view [OF t(1)] t(2) by simp
  have same: "?X(t := FIdle) = ?X" using X by auto
  have pl: "plain (fthr s ! t)" using t(2) by (simp add: plain_def)
  show ?thesis
  proof (cases r)
    case (Inl e)
    with Pair getf_Inl have "u = own_proc s t" by blast
    moreover have "fsys_ok cf (done_call t (Inl e) (ft s) (own_proc s t) s)" by (rule plain_done [OF ok t(1) pl]) (use i(4,5) same in simp_all)
    ultimately show ?thesis using Pair Inl by (simp add: kfcntl_def)
  next
    case (Inr f)
    let ?j = "nat fdes"
    note g = getf_ok [OF i(5) X Pair [unfolded Inr]]
    have j: "?j < U_maxofile (own_proc s t)" "int ?j = fdes" using g(1) by (auto simp: in_range_def nat_less_iff)
    note b = pinv_use [OF i(5) X j(1) g(2,4), folded g(3)]
    have P: "(prefs s)(owner s ! t := refs u (?X(t := FUse ?j f))) = prefs s" using b(2) prefs_own [OF ok t(1)] by (simp add: fun_upd_idem)
    from fcntl_do_ok [OF b(1), of t ?j f "prefs s" "owner s ! t" "at_open s" "at_close s" "ft s" cmd arg] i(4) P
    obtain k' u1 x where f: "fcntl_do cf ?j cmd arg f (ft s) u = Some (k', u1, x)" "pinv cf u1 (?X(t := FUse ?j f))"
      "ftab_ok (mk ((prefs s)(owner s ! t := refs u1 (?X(t := FUse ?j f)))) (at_open s)) (at_close s) k'" by auto
    from pinv_unuse [OF f(2), of t ?j f] obtain u2 where u2: "ufdrele fdes u1 = Some (u2, None)" "pinv cf u2 (?X(t := FIdle))"
      "refs u2 (?X(t := FIdle)) = refs u1 (?X(t := FUse ?j f))" using j(2) by auto
    have "fsys_ok cf (done_call t x k' u2 s)"
      by (rule done_ok [OF ok t(1) u2(2)]) (use f(3) u2(3) plain_upd [OF t(1) pl] in simp)
    then show ?thesis using Pair Inr f(1) u2(1) by (simp add: kfcntl_def)
  qed
qed

section \<open>close\<close>

lemma close_end_ok:
  assumes ok: "fsys_ok cf s" and t: "t < length (fthr s)" and u: "pinv cf u ((pview s (owner s ! t))(t := FDying fd f a))"
    and k: "ftab_ok (mk ((prefs s)(owner s ! t := refs u ((pview s (owner s ! t))(t := FDying fd f a)))) ((at_open s)(t := None))) ((at_close s)(t := None)) k"
  shows "fsys_ok cf (close_end t fd a rc k u s)"
proof -
  let ?X = "(pview s (owner s ! t))(t := FDying fd f a)" and ?u = "if a = AExit then u else ufdfree fd u"
  let ?y = "if a = AClose then FIdle else FLoop (Suc fd) a"
  have d: "uf_count (uf u fd) = 0" using pinvD(7) [OF u, of t] by simp
  have "pinv cf ?u (?X(t := ?y)) \<and> refs ?u (?X(t := ?y)) = refs u ?X"
  proof (cases "a = AExit")
    case True
    then have "pinv cf u (?X(t := ?y))" by (intro loop_ok [OF u, where i = fd and a = a]) auto
    moreover have "refs u (?X(t := ?y)) = refs u ?X" by (rule refs_thread) (auto simp: True)
    ultimately show ?thesis using True by simp
  next
    case False
    have "refs u ?X fd = None" by (auto simp: refs_def)
    then have "(refs u ?X)(fd := None) = refs u ?X" by (simp add: fun_upd_idem)
    moreover have y: "excl ?y = None" "\<And>k. \<not> uses ?y k" "?y \<noteq> FGone" "thr_sane (ufdfree fd u) ?y" "alone ?y \<Longrightarrow> alone (?X t)"
      "\<And>k. k \<noteq> fd \<Longrightarrow> past ?y k = past (?X t) k"
      using False by (cases a; auto)+
    ultimately show ?thesis using ufdfree_ok [OF u _ _ d, of t ?y] False by simp
  qed
  then have y: "pinv cf ?u ((pview s (owner s ! t))(t := ?y))" "refs ?u ((pview s (owner s ! t))(t := ?y)) = refs u ?X" by simp_all
  have "opens ?y = None" "dies ?y = None" by simp_all
  then have "fsys_ok cf (goes_on t ?y k ?u s)" by (intro goes_on_ok [OF ok t y(1)]) (simp only: k y(2))
  then show ?thesis by (auto simp: close_end_def done_goes_on Let_def)
qed

lemma closefd_ok:
  assumes ok: "fsys_ok cf s" and t: "t < length (fthr s)" "plain (fthr s ! t)"
    and u: "pinv cf u ((pview s (owner s ! t))(t := FDying fd f a))"
      "refs u ((pview s (owner s ! t))(t := FDying fd f a)) = (refs (own_proc s t) (pview s (owner s ! t)))(fd := None)"
    and f: "refs (own_proc s t) (pview s (owner s ! t)) fd = Some f"
  shows "\<exists>s'. closefd t fd a u s = Some s' \<and> fsys_ok cf s'"
proof -
  let ?p = "owner s ! t" and ?X = "(pview s (owner s ! t))(t := FDying fd f a)" and ?v = "lockrelease f (ft s) u"
  let ?hold = "mk (prefs s) (at_open s)"
  note P = prefs_own [OF ok t(1)] and v = pinv_same [OF u(1) same_lockrelease, of f "ft s"] and pl = plain_upd [OF t]
  have fp: "uf_fp (uf u fd) = Some f" using pinvD(7) [OF u(1), of t] by simp
  from fsys_okD(4) [OF ok] obtain fs where fs: "ftab_at fs ?hold (at_close s) (ft s)" by (auto simp: ftab_ok_def)
  have h: "?hold (RFd ?p fd) = Some f" using f P by simp
  have dt: "at_close s t = None" using t thr_of_view [OF t(1)] by (simp add: plain_def)
  have h': "?hold(RFd ?p fd := None) = mk ((prefs s)(?p := refs ?v ?X)) (at_open s)"
    unfolding v(2) u(2) P [symmetric] by (rule mk_fd [symmetric])
  from closef_drop_ok [OF fs h dt] obtain k last where k: "closef_drop f (ft s) = Some (k, last)"
    "ftab_at fs (mk ((prefs s)(?p := refs ?v ?X)) (at_open s)) (if last then (at_close s)(t \<mapsto> f) else at_close s) k" unfolding h' by blast
  have fin: "fsys_ok cf (close_end t fd a None k' ?v s)"
    if "ftab_at fs' (mk ((prefs s)(?p := refs ?v ?X)) (at_open s)) (at_close s) k'" for k' fs'
    by (rule close_end_ok [OF ok t(1) v(1)]) (use that pl in \<open>auto simp: ftab_ok_def\<close>)
  show ?thesis
  proof (cases last)
    case False
    then show ?thesis using k fin [of fs k] fp by (simp add: closefd_def)
  next
    case True
    have "fsys_ok cf (goes_on t (FDying fd f a) k ?v s)"
      by (rule goes_on_ok [OF ok t(1) v(1)]) (use k(2) True pl in \<open>auto simp: ftab_ok_def\<close>)
    moreover from fpfree_ok [of fs _ "(at_close s)(t \<mapsto> f)" k t f] k(2) True dt
    obtain k' where "fpfree f k = Some k'" "ftab_at (f # fs) (mk ((prefs s)(?p := refs ?v ?X)) (at_open s)) (at_close s) k'"
      by (auto simp: fun_upd_idem)
    ultimately show ?thesis using k(1) True fp fin [of "f # fs" k'] by (cases "f_ops (fl k f)") (simp_all add: closefd_def Let_def)
  qed
qed

lemma wait_unused_ok:
  assumes ok: "fsys_ok cf s" and t: "t < length (fthr s)" "plain (fthr s ! t)" and g: "fthr s ! t \<noteq> FGone"
    and u: "pinv cf u ((pview s (owner s ! t))(t := FWait fd a))"
      "refs u ((pview s (owner s ! t))(t := FWait fd a)) = refs (own_proc s t) (pview s (owner s ! t))"
  shows "\<exists>s'. wait_unused t fd a u s = Some s' \<and> fsys_ok cf s'"
proof -
  let ?X = "(pview s (owner s ! t))(t := FWait fd a)"
  have w: "fd < U_maxofile u" "uf_fp (uf u fd) \<noteq> None" using pinvD(7) [OF u(1), of t] by simp_all
  show ?thesis
  proof (cases "uf_count (uf u fd) = 0")
    case True
    from w(2) obtain f where f: "uf_fp (uf u fd) = Some f" by auto
    note d = waited_ok [OF u(1) _ True f, of t a]
    have x: "?X(t := FDying fd f a) = (pview s (owner s ! t))(t := FDying fd f a)" by simp
    have "\<exists>s'. closefd t fd a u s = Some s' \<and> fsys_ok cf s'"
      by (rule closefd_ok [OF ok t, of u fd f a]) (use d u(2) x in simp_all)
    then show ?thesis using True by (simp add: wait_unused_def)
  next
    case False
    from False count_0 [OF u(1) w(1)] obtain t' g where t': "?X t' = FUse fd g" by auto
    then have "t' \<noteq> t" "pview s (owner s ! t) t' \<noteq> FGone" by (auto split: if_splits)
    moreover have "pview s (owner s ! t) t \<noteq> FGone"
      using thr_of_view [OF t(1)] g by simp
    ultimately have "1 < length (threads_of (owner s ! t) s)" by (intro threads_of_2)
    moreover have "fsys_ok cf (goes_on t (FWait fd a) (ft s) (u\<lparr>U_fdevent := t # U_fdevent u\<rparr>) s)"
      by (rule plain_goes_on [OF ok t]) (use sleep_ok [OF u(1) _ False, of t a] u(2) fsys_okD(4) [OF ok] in \<open>simp_all add: plain_def\<close>)
    ultimately show ?thesis using False by (simp add: wait_unused_def)
  qed
qed

lemma fclose_ok:
  assumes ok: "fsys_ok cf s" and t: "t < length (fthr s)" "fthr s ! t = FIdle"
  shows "\<exists>s'. fclose t fd s = Some s' \<and> fsys_ok cf s'"
proof -
  let ?X = "pview s (owner s ! t)" and ?u = "own_proc s t"
  note inv = own_inv [OF ok t(1)]
  have X: "?X t = FIdle" using thr_of_view [OF t(1)] t(2) by simp
  have same: "?X(t := FIdle) = ?X" using X by auto
  have pl: "plain (fthr s ! t)" and g: "fthr s ! t \<noteq> FGone" using t(2) by (simp_all add: plain_def)
  show ?thesis
  proof (cases "in_range fd ?u \<and> can_close ?u (nat fd)")
    case True
    then have i: "nat fd < U_maxofile ?u" "can_close ?u (nat fd)" by (simp_all add: in_range_def nat_less_iff)
    show ?thesis using wait_unused_ok [OF ok t(1) pl g set_closing_ok [OF inv _ _ _ _ _ i, of t AClose]] True X by (simp add: fclose_def)
  next
    case False
    have "fsys_ok cf (done_call t (Inl EBADF) (ft s) ?u s)" by (rule plain_done [OF ok t(1) pl]) (use inv same fsys_okD(4) [OF ok] in simp_all)
    with False show ?thesis by (auto simp: fclose_def)
  qed
qed

section \<open>The loops\<close>

text \<open>A thread at the head of a loop, from idle or in the middle.\<close>

definition looping :: "fthread \<Rightarrow> nat \<Rightarrow> after \<Rightarrow> bool" where
  "looping x i a \<longleftrightarrow> x = FIdle \<and> i = 0 \<or> x = FIdle \<and> a = AClosem \<or> x = FLoop i a"

lemma closem_from_ok:
  assumes ok: "fsys_ok cf s" and t: "t < length (fthr s)" "looping (fthr s ! t) i AClosem"
  shows "\<exists>s'. closem_from t i s = Some s' \<and> fsys_ok cf s'"
proof -
  let ?X = "pview s (owner s ! t)" and ?u = "own_proc s t"
  note inv = own_inv [OF ok t(1)]
  have X: "?X t = FIdle \<or> ?X t = FLoop i AClosem" using thr_of_view [OF t(1)] t(2) by (auto simp: looping_def)
  have pl: "plain (fthr s ! t)" and g: "fthr s ! t \<noteq> FGone" using t(2) by (auto simp: plain_def looping_def)
  show ?thesis
  proof (cases "List.find (can_close ?u) [i..<U_maxofile ?u]")
    case None
    have "refs ?u (?X(t := FIdle)) = refs ?u ?X" by (rule refs_thread) (use X in auto)
    moreover have "pinv cf ?u (?X(t := FIdle))" by (rule loop_ok [OF inv]) (use X in auto)
    ultimately have "fsys_ok cf (done_call t (Inr 0) (ft s) ?u s)" by (intro plain_done [OF ok t(1) pl]) (use fsys_okD(4) [OF ok] in simp_all)
    with None show ?thesis by (simp add: closem_from_def)
  next
    case (Some j)
    note j = find_upt [OF Some]
    have x: "?X t \<noteq> FGone" "excl (?X t) = None" "\<not> alone (?X t)" "\<And>k. \<not> uses (?X t) k" "\<And>k. \<not> past (?X t) k" using X by auto
    show ?thesis using wait_unused_ok [OF ok t(1) pl g set_closing_ok [OF inv x j(3,1), of AClosem]] Some by (simp add: closem_from_def)
  qed
qed

lemma exec_from_ok:
  assumes ok: "fsys_ok cf s" and t: "t < length (fthr s)" "looping (fthr s ! t) i AExec" and s: "threads_of (owner s ! t) s = [t]"
  shows "\<exists>s'. exec_from t i s = Some s' \<and> fsys_ok cf s'"
proof -
  let ?X = "pview s (owner s ! t)" and ?u = "own_proc s t"
  note inv = own_inv [OF ok t(1)]
  have X: "?X t = FIdle \<or> ?X t = FLoop i AExec" using thr_of_view [OF t(1)] t(2) by (auto simp: looping_def)
  have pl: "plain (fthr s ! t)" using t(2) by (auto simp: plain_def looping_def)
  have one: "?X t' = FGone" if "t' \<noteq> t" for t' using in_threads_of [of t' "owner s ! t" s] s that by auto
  note same = pinv_same [OF inv same_audit]
  show ?thesis
  proof (cases "List.find (\<lambda>j. has FD_CLOEXEC (uf ?u j) \<and> uf_fp (uf ?u j) \<noteq> None) [i..<U_maxofile ?u]")
    case None
    let ?v = "clear_audit [i..<U_maxofile ?u] ?u"
    have "refs ?v (?X(t := FIdle)) = refs ?v ?X" by (rule refs_thread) (use X in auto)
    moreover have "pinv cf ?v (?X(t := FIdle))" by (rule loop_ok [OF same(1)]) (use X in auto)
    ultimately have "fsys_ok cf (done_call t (Inr 0) (ft s) ?v s)" by (intro plain_done [OF ok t(1) pl]) (use fsys_okD(4) [OF ok] same(2) in simp_all)
    with None show ?thesis by (simp add: exec_from_def Let_def)
  next
    case (Some j)
    note j = find_upt [OF Some]
    let ?v = "clear_audit [i..<Suc j] ?u"
    from j(1) obtain f where f: "uf_fp (uf ?u j) = Some f" by auto
    have e: "U_maxofile ?v = U_maxofile ?u" "uf_fp (uf ?v j) = uf_fp (uf ?u j)"
      using same_audit [of ?u "[i..<Suc j]"] in_ufd [OF inv j(3)] by (simp_all add: same_ufd_def)
    have g: "?X t \<noteq> FGone" "excl (?X t) = None" "\<And>k. \<not> uses (?X t) k" "\<And>k. \<not> past (?X t) k" using X by auto
    have "pinv cf ?v (?X(t := FDying j f AExec))" "refs ?v (?X(t := FDying j f AExec)) = (refs ?v ?X)(j := None)" "refs ?v ?X j = Some f"
      by (rule sole_ok [OF same(1) g(1,2,3), where a = AExec]; use one j(3) e f g(4) in auto)+
    with closefd_ok [OF ok t(1) pl, of ?v j f AExec] same(2) Some show ?thesis by (simp add: exec_from_def)
  qed
qed

lemma exit_from_ok:
  assumes ok: "fsys_ok cf s" and t: "t < length (fthr s)" "looping (fthr s ! t) i AExit" and s: "threads_of (owner s ! t) s = [t]"
  shows "\<exists>s'. exit_from t i s = Some s' \<and> fsys_ok cf s'"
proof -
  let ?X = "pview s (owner s ! t)" and ?u = "own_proc s t"
  note inv = own_inv [OF ok t(1)]
  have X: "?X t = FIdle \<and> i = 0 \<or> ?X t = FLoop i AExit" using thr_of_view [OF t(1)] t(2) by (auto simp: looping_def)
  have pl: "plain (fthr s ! t)" using t(2) by (auto simp: plain_def looping_def)
  have one: "?X t' = FGone" if "t' \<noteq> t" for t' using in_threads_of [of t' "owner s ! t" s] s that by auto
  have past: "past (?X t) k \<longleftrightarrow> k < i" for k using X by auto
  show ?thesis
  proof (cases "List.find (\<lambda>j. uf_fp (uf ?u j) \<noteq> None) [i..<U_maxofile ?u]")
    case None
    then have n: "past (?X t) k \<or> uf_fp (uf ?u k) = None" if "k < U_maxofile ?u" for k
      using that unfolding past find_None_iff by auto
    note e = exit_ok [OF inv _ one n, of i AExit]
    have "fsys_ok cf (goes_on t FGone (ft s) (?u\<lparr>alive := False\<rparr>) s)"
      by (rule plain_goes_on [OF ok t(1) pl]) (use e X fsys_okD(4) [OF ok] in \<open>auto simp: plain_def\<close>)
    with None show ?thesis by (simp add: exit_from_def)
  next
    case (Some j)
    note j = find_upt [OF Some]
    from j(1) obtain f where f: "uf_fp (uf ?u j) = Some f" by auto
    have q: "past (FDying j f AExit) k = past (?X t) k \<or> uf_fp (uf ?u k) = None" if "k < U_maxofile ?u" "k \<noteq> j" for k
      using that j(4) [of k] j(2) unfolding past by (cases "k < i"; cases "k < j") auto
    have g: "?X t \<noteq> FGone" "excl (?X t) = None" "\<And>k. \<not> uses (?X t) k" "\<not> past (?X t) j" using X j(2) past [of j] by auto
    have d: "pinv cf ?u (?X(t := FDying j f AExit))" "refs ?u (?X(t := FDying j f AExit)) = (refs ?u ?X)(j := None)" "refs ?u ?X j = Some f"
      by (rule sole_ok [OF inv g(1,2,3), where a = AExit]; use one j(3) f g(4) q in \<open>simp del: past.simps\<close>)+
    have "?X t' \<noteq> FUse j h" for t' h using one [of t'] g(3) [of j] by (cases "t' = t") auto
    then have "uf_count (uf ?u j) = 0" using count_0 [OF inv j(3)] by simp
    with closefd_ok [OF ok t(1) pl, of ?u j f AExit] d Some show ?thesis by (simp add: exit_from_def)
  qed
qed

end
