(* ===== verification/FdRun.thy ===== *)
theory FdRun
  imports FdInv
begin

text \<open>The steps that make and end threads and processes, and every run from \<open>finit\<close>.\<close>

section \<open>Going on\<close>

lemma threads_of_only:
  assumes "pview s p t \<noteq> FGone" and "\<And>t'. t' \<noteq> t \<Longrightarrow> pview s p t' = FGone"
  shows "threads_of p s = [t]"
proof -
  have "distinct (threads_of p s)" by (simp add: threads_of_def)
  moreover have "set (threads_of p s) = {t}" using assms in_threads_of [of _ p s] by blast
  ultimately show ?thesis by (cases "threads_of p s"; cases "tl (threads_of p s)") auto
qed

lemma resume_ok:
  assumes ok: "fsys_ok cf s" and t: "t < length (fthr s)"
  shows "\<exists>s'. resume t rc s = Some s' \<and> fsys_ok cf s'"
proof -
  let ?X = "pview s (owner s ! t)" and ?u = "own_proc s t"
  note inv = own_inv [OF ok t] and X = thr_of_view [OF t, THEN conjunct1]
  show ?thesis
  proof (cases "fthr s ! t")
    case (FWait fd a)
    then have x: "?X(t := FWait fd a) = ?X" using X by auto
    have "\<exists>s'. wait_unused t fd a ?u s = Some s' \<and> fsys_ok cf s'"
      by (rule wait_unused_ok [OF ok t]) (use inv x FWait in \<open>simp_all add: plain_def\<close>)
    with ok FWait show ?thesis by (simp add: resume_def)
  next
    case (FDying fd f a)
    then have x: "?X(t := FDying fd f a) = ?X" and d: "at_close s t = Some f" "at_open s t = None" using X thr_of_view [OF t] by auto
    from fsys_okD(4) [OF ok] obtain fs where "ftab_at fs (mk (prefs s) (at_open s)) (at_close s) (ft s)" by (auto simp: ftab_ok_def)
    from fpfree_ok [OF this d(1)] obtain k where k: "fpfree f (ft s) = Some k"
      "ftab_at (f # fs) (mk (prefs s) (at_open s)) ((at_close s)(t := None)) k" by blast
    have "(prefs s)(owner s ! t := refs ?u ?X) = prefs s" "(at_open s)(t := None) = at_open s"
      using prefs_own [OF ok t] d(2) by (auto simp: fun_upd_idem)
    then have "fsys_ok cf (close_end t fd a rc k ?u s)"
      by (intro close_end_ok [OF ok t, where f = f]) (use inv x k(2) in \<open>auto simp: ftab_ok_def\<close>)
    with k(1) FDying show ?thesis by (simp add: resume_def)
  next
    case (FLoop i a)
    then have x: "?X t = FLoop i a" using X by simp
    have l: "looping (fthr s ! t) i a" using FLoop by (simp add: looping_def)
    have only: "threads_of (owner s ! t) s = [t]" if "\<not> may_wait a"
    proof (rule threads_of_only)
      show "?X t' = FGone" if "t' \<noteq> t" for t' using pinvD(10) [OF inv, of t t'] x \<open>\<not> may_wait a\<close> that by auto
    qed (simp add: x)
    have "a \<noteq> AClose" using pinvD(7) [OF inv, of t] x by simp
    then show ?thesis using closem_from_ok [OF ok t] exec_from_ok [OF ok t _ only] exit_from_ok [OF ok t _ only] l
      by (cases a) (simp_all add: resume_def FLoop loop_from_def)
  qed (use ok in \<open>simp_all add: resume_def\<close>)
qed

section \<open>fork\<close>

definition inherit :: "uproc \<Rightarrow> nat \<Rightarrow> nat option" where
  "inherit u n = (if has UF_CLOSING (uf u n) then None else uf_fp (uf u n))"

definition inherited :: "uproc \<Rightarrow> nat \<Rightarrow> ufd" where
  "inherited u n = (case inherit u n of None \<Rightarrow> \<lparr>uf_fp = None, uf_flags = 0, uf_count = 0\<rparr> | Some f \<Rightarrow> (uf u n)\<lparr>uf_count := 0\<rparr>)"

definition same_frame :: "uproc \<Rightarrow> uproc \<Rightarrow> bool" where
  "same_frame c c' \<longleftrightarrow> length (U_ufd c') = length (U_ufd c) \<and> U_maxofile c' = U_maxofile c \<and> U_lockflag c' = U_lockflag c
     \<and> U_fdevent c' = U_fdevent c \<and> alive c' = alive c"

lemma fork_fd_ok:
  assumes k: "ftab_ok (mk P Q) dy k" and c: "n < length (U_ufd c)" and q: "P q n = None"
    and p: "\<And>f. inherit u n = Some f \<Longrightarrow> P p n = Some f"
  shows "\<exists>k'. fork_fd n u (k, c) = Some (k', set_uf n (\<lambda>d. inherited u n) c) \<and> ftab_ok (mk (P(q := (P q)(n := inherit u n))) Q) dy k'"
proof (cases "inherit u n")
  case None
  then have "fork_fd n u (k, c) = Some (k, set_uf n (\<lambda>d. inherited u n) c)"
    by (auto simp: fork_fd_def inherit_def inherited_def split: option.splits if_splits)
  moreover have "P(q := (P q)(n := inherit u n)) = P" using q None by (simp add: fun_upd_idem)
  ultimately show ?thesis using k by simp
next
  case (Some f)
  then have f: "uf_fp (uf u n) = Some f" "\<not> has UF_CLOSING (uf u n)" by (auto simp: inherit_def split: if_splits)
  from k obtain fs where fs: "ftab_at fs (mk P Q) dy k" by (auto simp: ftab_ok_def)
  from fp_hold_ok [OF fs, of p n f q n] p [OF Some] q obtain k' where k': "fp_hold f k = Some k'" "ftab_at fs ((mk P Q)(RFd q n \<mapsto> f)) dy k'" by auto
  have "\<lparr>uf_fp = Some f, uf_flags = uf_flags (uf u n), uf_count = 0\<rparr> = inherited u n" using f Some by (simp add: inherited_def)
  then have "fork_fd n u (k, c) = Some (k', set_uf n (\<lambda>d. inherited u n) c)" using f k'(1) by (simp add: fork_fd_def)
  moreover have "ftab_ok (mk (P(q := (P q)(n := inherit u n))) Q) dy k'" using k'(2) by (auto simp: mk_fd Some ftab_ok_def)
  ultimately show ?thesis by blast
qed

lemma fork_fds_ok:
  assumes "ftab_ok (mk P Q) dy k" and "\<And>n. n \<in> set ns \<Longrightarrow> n < length (U_ufd c) \<and> P q n = None"
    and "\<And>n f. n \<in> set ns \<Longrightarrow> inherit u n = Some f \<Longrightarrow> P p n = Some f" and "distinct ns" and "p \<noteq> q"
  shows "\<exists>k' c'. fork_fds ns u (k, c) = Some (k', c') \<and> same_frame c c' \<and> (\<forall>n. uf c' n = (if n \<in> set ns then inherited u n else uf c n))
      \<and> ftab_ok (mk (P(q := \<lambda>n. if n \<in> set ns then inherit u n else P q n)) Q) dy k'"
  using assms
proof (induction ns arbitrary: P k c)
  case Nil
  have "P(q := \<lambda>n. P q n) = P" by simp
  with Nil show ?case by (simp add: same_frame_def)
next
  case (Cons n ns)
  let ?P = "P(q := (P q)(n := inherit u n))" and ?c = "set_uf n (\<lambda>d. inherited u n) c"
  have n: "n < length (U_ufd c)" "P q n = None" "n \<notin> set ns" using Cons.prems(2) [of n] Cons.prems(4) by auto
  from fork_fd_ok [where p = p and q = q, OF Cons.prems(1) n(1,2) Cons.prems(3)] obtain k1 where k1: "fork_fd n u (k, c) = Some (k1, ?c)" "ftab_ok (mk ?P Q) dy k1" by auto
  have "\<exists>k' c'. fork_fds ns u (k1, ?c) = Some (k', c') \<and> same_frame ?c c' \<and> (\<forall>m. uf c' m = (if m \<in> set ns then inherited u m else uf ?c m))
      \<and> ftab_ok (mk (?P(q := \<lambda>m. if m \<in> set ns then inherit u m else ?P q m)) Q) dy k'"
  proof (rule Cons.IH [OF k1(2)])
    show "m < length (U_ufd ?c) \<and> ?P q m = None" if "m \<in> set ns" for m using Cons.prems(2) [of m] n(3) that by auto
    show "?P p m = Some f" if "m \<in> set ns" "inherit u m = Some f" for m f using Cons.prems(3) [of m f] Cons.prems(5) that by simp
  qed (use Cons.prems in auto)
  then obtain k' c' where r: "fork_fds ns u (k1, ?c) = Some (k', c')" "same_frame ?c c'" "\<And>m. uf c' m = (if m \<in> set ns then inherited u m else uf ?c m)"
    "ftab_ok (mk (?P(q := \<lambda>m. if m \<in> set ns then inherit u m else ?P q m)) Q) dy k'" by auto
  have "?P(q := \<lambda>m. if m \<in> set ns then inherit u m else ?P q m) = P(q := \<lambda>m. if m \<in> set (n # ns) then inherit u m else P q m)"
    using n(3) by (auto simp: fun_eq_iff)
  moreover have "uf c' m = (if m \<in> set (n # ns) then inherited u m else uf c m)" for m using r(3) [of m] uf_set_uf [OF n(1)] n(3) by auto
  moreover have "same_frame c c'" using r(2) by (simp add: same_frame_def)
  moreover have "fork_fds (n # ns) u (k, c) = Some (k', c')" using k1(1) r(1) by simp
  ultimately show ?case using r(4) by (intro exI [of _ k'] exI [of _ c'] conjI allI) (simp_all del: fun_upd_apply)
qed

lemma inherit_held:
  assumes inv: "pinv cf u X" and t: "X t \<noteq> FGone" "\<not> alone (X t)" and n: "n < U_maxofile u" "inherit u n = Some f"
  shows "refs u X n = Some f"
proof -
  have f: "uf_fp (uf u n) = Some f" "\<not> has UF_CLOSING (uf u n)" using n(2) by (auto simp: inherit_def split: if_splits)
  have "\<not> past (X t') n" for t'
    using past_excl [OF inv _ not_alone [OF inv t], of t' n] pinvD(7) [OF inv, of t'] not_alone [OF inv t, of t'] f by (cases "X t'") auto
  then show ?thesis using f n(1) pinvD(8) [OF inv t(1)] by (simp add: refs_def)
qed

lemma fs_fork_ok:
  assumes ok: "fsys_ok cf s" and t: "t < length (fthr s)" "fthr s ! t = FIdle" and q: "q < length (procs s)" "\<not> alive (procs s ! q)"
  defines "u \<equiv> own_proc s t"
  defines "c \<equiv> (procs s ! q)\<lparr>U_fdevent := [], U_lockflag := False, U_maxofile := U_maxofile u\<rparr>"
  shows "\<exists>k' c'. fs_fork u (ft s) (procs s ! q) = Some (k', c') \<and> same_frame c c' \<and> (\<forall>n. uf c' n = (if n < U_maxofile u then inherited u n else uf c n))
      \<and> ftab_ok (mk ((prefs s)(q := \<lambda>n. if n < U_maxofile u then inherit u n else None)) (at_open s)) (at_close s) k'"
    and "owner s ! t \<noteq> q" and "pview s q x = FGone"
proof -
  note i = fsys_okD [OF ok] and inv = own_inv [OF ok t(1), folded u_def]
  let ?p = "owner s ! t" and ?ns = "[0..<U_maxofile u]"
  have X: "pview s ?p t \<noteq> FGone" "\<not> alone (pview s ?p t)" using thr_of_view [OF t(1)] t(2) by simp_all
  have gone: "pview s q x = FGone" for x using pinvD(8) [OF i(3) [OF q(1)], of x] q(2) by auto
  then show "pview s q x = FGone" .
  show pq: "?p \<noteq> q" using X(1) gone by metis
  have Pq: "prefs s q = Map.empty" using q by (auto simp: prefs_def refs_def)
  have len: "U_maxofile u \<le> length (U_ufd c)" using pinvD(1) [OF i(3) [OF q(1)]] pinvD(2) [OF inv] by (simp add: c_def)
  have Pp: "prefs s ?p = refs u (pview s ?p)" unfolding u_def by (rule prefs_own [OF ok t(1)])
  have "\<exists>k' c'. fork_fds ?ns u (ft s, c) = Some (k', c') \<and> same_frame c c' \<and> (\<forall>n. uf c' n = (if n \<in> set ?ns then inherited u n else uf c n))
      \<and> ftab_ok (mk ((prefs s)(q := \<lambda>n. if n \<in> set ?ns then inherit u n else prefs s q n)) (at_open s)) (at_close s) k'"
    by (rule fork_fds_ok [where p = ?p, OF i(4)]) (use len Pq pq inherit_held [OF inv X] Pp in auto)
  moreover have "(\<lambda>n. if n \<in> set ?ns then inherit u n else prefs s q n) = (\<lambda>n. if n < U_maxofile u then inherit u n else None)"
    by (auto simp: Pq fun_eq_iff)
  moreover have "fs_fork u (ft s) (procs s ! q) = fork_fds ?ns u (ft s, c)" by (simp add: fs_fork_def c_def)
  ultimately show "\<exists>k' c'. fs_fork u (ft s) (procs s ! q) = Some (k', c') \<and> same_frame c c' \<and> (\<forall>n. uf c' n = (if n < U_maxofile u then inherited u n else uf c n))
      \<and> ftab_ok (mk ((prefs s)(q := \<lambda>n. if n < U_maxofile u then inherit u n else None)) (at_open s)) (at_close s) k'" by simp
qed

lemma fork_call_ok:
  assumes ok: "fsys_ok cf s" and t: "t < length (fthr s)" "fthr s ! t = FIdle"
    and q: "q < length (procs s)" "\<not> alive (procs s ! q)" and t': "t' < length (fthr s)" "fthr s ! t' = FGone"
  shows "\<exists>s'. fork_call t q t' s = Some s' \<and> fsys_ok cf s'"
proof -
  note i = fsys_okD [OF ok] and inv = own_inv [OF ok t(1)] and gone = fs_fork_ok(3) [OF ok t q]
  let ?u = "own_proc s t" and ?c = "(procs s ! q)\<lparr>U_fdevent := [], U_lockflag := False, U_maxofile := U_maxofile (own_proc s t)\<rparr>"
  from fs_fork_ok(1) [OF ok t q] obtain k' c' where r: "fs_fork ?u (ft s) (procs s ! q) = Some (k', c')" "same_frame ?c c'"
      "\<forall>n. uf c' n = (if n < U_maxofile ?u then inherited ?u n else uf ?c n)"
      "ftab_ok (mk ((prefs s)(q := \<lambda>n. if n < U_maxofile ?u then inherit ?u n else None)) (at_open s)) (at_close s) k'" by blast
  define v where "v = c'\<lparr>alive := True\<rparr>"
  have v: "length (U_ufd v) = OPEN_MAX cf" "U_maxofile v = U_maxofile ?u" "alive v" "U_fdevent v = []" "\<And>n. n < U_maxofile ?u \<Longrightarrow> uf v n = inherited ?u n"
    using r(2,3) pinvD(1) [OF i(3) [OF q(1)]] by (simp_all add: v_def same_frame_def)
  have h: "uf_fp (inherited ?u n) = inherit ?u n \<and> uf_count (inherited ?u n) = 0 \<and> \<not> has UF_CLOSING (inherited ?u n)
      \<and> (inherit ?u n \<noteq> None \<longrightarrow> n < U_maxofile ?u \<longrightarrow> has UF_ALLOCATED (inherited ?u n))" for n
    using pinvD(4) [OF inv, of n] by (auto simp: inherited_def inherit_def has_bits split: option.splits if_splits)
  note n = new_ok [of v cf t'] 
  have nv: "pinv cf v ((\<lambda>_. FGone)(t' := FIdle))" "refs v ((\<lambda>_. FGone)(t' := FIdle)) = (\<lambda>n. if n < U_maxofile ?u then inherit ?u n else None)"
  proof -
    show "pinv cf v ((\<lambda>_. FGone)(t' := FIdle))" by (rule n(1)) (use v h pinvD(2) [OF inv] in auto)
    show "refs v ((\<lambda>_. FGone)(t' := FIdle)) = (\<lambda>n. if n < U_maxofile ?u then inherit ?u n else None)"
      using v h by (auto simp: refs_def fun_eq_iff)
  qed
  define s' where "s' = s\<lparr>ft := k', procs := (procs s)[q := v], fthr := (fthr s)[t' := FIdle], owner := (owner s)[t' := q], fres := Some (Inr (int q))\<rparr>"
  have vw: "pview s' p = (if p = q then (\<lambda>_. FGone)(t' := FIdle) else pview s p)" for p
  proof
    fix x show "pview s' p x = (if p = q then (\<lambda>_. FGone)(t' := FIdle) else pview s p) x"
      using gone [of x] t' i(1) by (auto simp: pview_def s'_def nth_list_update split: if_splits)
  qed
  have th: "at_open s' = at_open s" "at_close s' = at_close s" using t' by (auto simp: thr_of_def s'_def nth_list_update fun_eq_iff)
  have pr: "prefs s' = (prefs s)(q := \<lambda>n. if n < U_maxofile ?u then inherit ?u n else None)"
  proof
    fix p show "prefs s' p = ((prefs s)(q := \<lambda>n. if n < U_maxofile ?u then inherit ?u n else None)) p"
      using nv(2) q(1) by (simp add: prefs_def vw) (simp add: s'_def)
  qed
  have "fsys_ok cf s'"
    unfolding fsys_ok_def th pr using r(4) i(1-3) q(1) nv(1) t'(1)
    by (auto simp: vw nth_list_update) (auto simp: s'_def nth_list_update)
  moreover have "fork_call t q t' s = Some s'" using r(1) by (simp add: fork_call_def s'_def v_def)
  ultimately show ?thesis by blast
qed

section \<open>Threads\<close>

lemma spawn_call_ok:
  assumes ok: "fsys_ok cf s" and t: "t < length (fthr s)" "fthr s ! t = FIdle" and t': "t' < length (fthr s)" "fthr s ! t' = FGone"
  shows "fsys_ok cf (s\<lparr>fthr := (fthr s)[t' := FIdle], owner := (owner s)[t' := owner s ! t]\<rparr>)"
proof -
  note i = fsys_okD [OF ok] and inv = own_inv [OF ok t(1)]
  let ?s = "s\<lparr>fthr := (fthr s)[t' := FIdle], owner := (owner s)[t' := owner s ! t]\<rparr>" and ?p = "owner s ! t"
  have g: "pview s p t' = FGone" for p using t' by (simp add: pview_def)
  have X: "pview s ?p t = FIdle" using thr_of_view [OF t(1)] t(2) by simp
  have vw: "pview ?s p = (if p = ?p then (pview s p)(t' := FIdle) else pview s p)" for p
    using g t' i(1) by (auto simp: pview_def nth_list_update fun_eq_iff)
  have th: "at_open ?s = at_open s" "at_close ?s = at_close s" using t' by (auto simp: thr_of_def nth_list_update fun_eq_iff)
  have "refs u ((pview s ?p)(t' := FIdle)) = refs u (pview s ?p)" for u by (rule refs_thread) (simp add: g)
  then have "prefs ?s = prefs s" by (intro ext) (simp add: prefs_def vw)
  then show ?thesis unfolding fsys_ok_def th using i spawn_ok [OF inv X g] t'(1) t(1) by (auto simp: vw nth_list_update)
qed

lemma quit_call_ok:
  assumes ok: "fsys_ok cf s" and t: "t < length (fthr s)" "fthr s ! t = FIdle"
  shows "fsys_ok cf (set_fthr t FGone s)"
proof -
  note inv = own_inv [OF ok t(1)]
  have X: "pview s (owner s ! t) t = FIdle" using thr_of_view [OF t(1)] t(2) by simp
  have "refs u ((pview s (owner s ! t))(t := FGone)) = refs u (pview s (owner s ! t))" for u by (rule refs_thread) (simp add: X)
  then have "fsys_ok cf (goes_on t FGone (ft s) (own_proc s t) s)"
    by (intro plain_goes_on [OF ok t(1)]) (use t(2) quit_ok [OF inv X] fsys_okD(4) [OF ok] in \<open>simp_all add: plain_def\<close>)
  then show ?thesis by (simp add: goes_on_def set_proc_def set_fthr_def)
qed

lemma any_change:
  assumes ok: "ftab_at fs hold dy k" and g: "\<And>x. f_count (g x) = f_count x" "\<And>x. f_up (g x) = f_up x"
  shows "ftab_at fs hold dy (set_fl f g k)"
proof -
  note d = ftab_atD [OF ok]
  have e: "f_count (fl (set_fl f g k) h) = f_count (fl k h)" "f_up (fl (set_fl f g k) h) = f_up (fl k h)" for h
    using g by (auto simp: set_fl_def upd_def nth_list_update)
  show ?thesis by (rule ftab_atI) (use d e in auto)
qed

lemma any_change_ok:
  assumes ok: "fsys_ok cf v" and g: "\<And>x. f_count (g x) = f_count x" "\<And>x. f_up (g x) = f_up x"
  shows "fsys_ok cf (v\<lparr>ft := set_fl f g (ft v)\<rparr>)"
proof -
  let ?k = "set_fl f g (ft v)"
  from fsys_okD(4) [OF ok] obtain fs where "ftab_at fs (mk (prefs v) (at_open v)) (at_close v) (ft v)" by (auto simp: ftab_ok_def)
  then have "ftab_at fs (mk (prefs v) (at_open v)) (at_close v) ?k" by (rule any_change) (simp_all add: g)
  then have "ftab_ok (mk (prefs v) (at_open v)) (at_close v) ?k" by (auto simp: ftab_ok_def)
  moreover have vw: "pview (v\<lparr>ft := ?k\<rparr>) = pview v" "thr_of (v\<lparr>ft := ?k\<rparr>) = thr_of v" by (auto simp: pview_def thr_of_def fun_eq_iff)
  moreover have "prefs (v\<lparr>ft := ?k\<rparr>) = prefs v" using vw by (intro ext) (simp add: prefs_def)
  ultimately show ?thesis using fsys_okD(1,2,3) [OF ok] by (simp add: fsys_ok_def)
qed

section \<open>Every step\<close>

lemma fcall_do_ok:
  assumes ok: "fsys_ok cf s" and c: "can_call t c s"
  shows "\<exists>s'. fcall_do cf t c s = Some s' \<and> fsys_ok cf s'"
proof -
  have t: "t < length (fthr s)" "fthr s ! t = FIdle" using c by (simp_all add: can_call_def)
  have l: "looping (fthr s ! t) 0 a" "looping (fthr s ! t) i AClosem" for a i using t(2) by (simp_all add: looping_def)
  show ?thesis
  proof (cases c)
    case (Closem fdes)
    have X: "pview s (owner s ! t) t = FIdle" using thr_of_view [OF t(1)] t(2) by simp
    then have same: "(pview s (owner s ! t))(t := FIdle) = pview s (owner s ! t)" by auto
    have "fsys_ok cf (done_call t (Inl EINVAL) (ft s) (own_proc s t) s)"
      by (rule plain_done [OF ok t(1)]) (use t(2) own_inv [OF ok t(1)] same fsys_okD(4) [OF ok] in \<open>simp_all add: plain_def\<close>)
    then show ?thesis using closem_from_ok [OF ok t(1) l(2)] by (simp add: fcall_do_def Closem closem_def)
  next
    case (Fork q t')
    then show ?thesis using fork_call_ok [OF ok t] c by (simp add: fcall_do_def can_call_def)
  next
    case Exec
    then show ?thesis using exec_from_ok [OF ok t(1) l(1)] c by (simp add: fcall_do_def can_call_def)
  next
    case Exit
    then show ?thesis using exit_from_ok [OF ok t(1) l(1)] c by (simp add: fcall_do_def can_call_def)
  next
    case (Spawn t')
    then show ?thesis using spawn_call_ok [OF ok t] c by (simp add: fcall_do_def can_call_def)
  qed (use copen_ok [OF ok t] create_ok [OF ok t] kfcntl_ok [OF ok t] fclose_ok [OF ok t] use_begin_ok [OF ok t] quit_call_ok [OF ok t] in \<open>simp_all add: fcall_do_def\<close>)
qed

lemma fd_next_ok:
  assumes "fsys_ok cf s"
  shows "\<exists>s'. fd_next cf e s = Some s' \<and> fsys_ok cf s'"
proof -
  define v where "v = s\<lparr>fres := None\<rparr>"
  have ok: "fsys_ok cf v" using assms by (simp add: v_def)
  show ?thesis
  proof (cases e)
    case (Call t c)
    then show ?thesis using fcall_do_ok [OF ok] ok by (auto simp: fd_next_def v_def [symmetric])
  next
    case (Opened t r)
    then show ?thesis using open_done_ok [OF ok] ok by (auto simp: fd_next_def v_def [symmetric] split: fthread.split)
  next
    case (Used t)
    then show ?thesis using use_end_ok [OF ok] ok by (auto simp: fd_next_def v_def [symmetric] split: fthread.split)
  next
    case (Locked t)
    then show ?thesis using set_proc_ok [OF ok _ same_mark] ok by (auto simp: fd_next_def v_def [symmetric] split: fthread.split)
  next
    case (Resume t rc)
    then show ?thesis using resume_ok [OF ok] ok by (auto simp: fd_next_def v_def [symmetric])
  next
    case (Revoke f)
    have "fsys_ok cf (v\<lparr>ft := set_fl f (\<lambda>r. r\<lparr>f_flag := f_flag r OR FREVOKED\<rparr>) (ft v)\<rparr>)" by (rule any_change_ok [OF ok]) simp_all
    then show ?thesis by (simp add: fd_next_def v_def [symmetric] Revoke)
  qed
qed

lemma finit_simps:
  "length (fthr (finit cf np nt)) = nt" "length (owner (finit cf np nt)) = nt" "length (procs (finit cf np nt)) = np"
  "t < nt \<Longrightarrow> fthr (finit cf np nt) ! t = (if t = 0 then FIdle else FGone)" "t < nt \<Longrightarrow> owner (finit cf np nt) ! t = 0"
  "p < np \<Longrightarrow> procs (finit cf np nt) ! p = (if p = 0 then (new_proc cf)\<lparr>alive := True\<rparr> else new_proc cf)"
  by (simp_all add: finit_def Let_def nth_list_update)

lemma finit_ok:
  assumes "0 < np" and "0 < nt"
  shows "fsys_ok cf (finit cf np nt)"
proof -
  let ?k = "\<lparr>files = [], ffreelist = None\<rparr>" and ?s = "finit cf np nt"
  have e: "ftab_at [] Map.empty Map.empty ?k" by (rule ftab_atI) auto
  have k: "ftab_ok Map.empty Map.empty (ft ?s)"
  proof (cases "fpgrow cf ?k")
    case None
    with e show ?thesis by (auto simp: finit_def Let_def ftab_ok_def)
  next
    case (Some k1)
    from fpgrow_ok [OF e Some] Some show ?thesis by (auto simp: finit_def Let_def ftab_ok_def)
  qed
  have z: "refs (procs ?s ! p) X = Map.empty" if "p < np" for p X
    using that by (auto simp: refs_def finit_simps new_proc_def fun_eq_iff)
  have "prefs ?s = (\<lambda>p. Map.empty)" by (rule ext) (simp add: prefs_def finit_simps(3) z)
  moreover have "at_open ?s = Map.empty" "at_close ?s = Map.empty" by (auto simp: thr_of_def finit_simps fun_eq_iff)
  moreover have "mk (\<lambda>p. Map.empty) Map.empty = Map.empty" by (rule ext) (simp add: mk_def split: ref.split)
  moreover have "pinv cf (procs ?s ! p) (pview ?s p)" if "p < np" for p
  proof (cases "p = 0")
    case True
    then have "pview ?s p = (\<lambda>_. FGone)(0 := FIdle)" using assms by (auto simp: pview_def finit_simps fun_eq_iff)
    then show ?thesis using True that new_ok(1) [of "(new_proc cf)\<lparr>alive := True\<rparr>" cf 0] by (simp add: finit_simps new_proc_def)
  next
    case False
    then have "pview ?s p = (\<lambda>_. FGone)" by (auto simp: pview_def finit_simps fun_eq_iff)
    then show ?thesis using False that by (simp add: finit_simps pinv_def new_proc_def)
  qed
  ultimately show ?thesis using assms k by (simp add: fsys_ok_def finit_simps)
qed

interpretation fd: total_machine "fd_next cf" "fsys_ok cf" for cf
proof unfold_locales
  show "fsys_ok cf s'" if "fsys_ok cf s" "fd_next cf e s = Some s'" for e s s' using fd_next_ok [OF that(1), of e] that(2) by auto
  show "\<exists>s'. fd_next cf e s = Some s'" if "fsys_ok cf s" for e s using fd_next_ok [OF that, of e] by auto
qed

end
