(* ===== verification/FdProps.thy ===== *)
theory FdProps
  imports FdRun
begin

text \<open>What the open files promise, over every run from \<open>finit\<close>.\<close>

section \<open>References\<close>

text \<open>
  The file that descriptor \<open>j\<close> of process \<open>p\<close> counts for, and all that count for a file. A process that has gone has no descriptors; that the
  counts of its files have fallen by then is part of the properties below and of that of \<open>exit\<close> in \<open>FdLoops\<close>.
\<close>

definition live_ref :: "fsys \<Rightarrow> nat \<Rightarrow> nat \<Rightarrow> nat option" where
  "live_ref s p j =
     (let u = procs s ! p in
      if alive u \<and> j < U_maxofile u \<and> list_all (\<lambda>t. owner s ! t = p \<longrightarrow> \<not> past (fthr s ! t) j) [0..<length (fthr s)] then uf_fp (uf u j) else None)"

definition references :: "fsys \<Rightarrow> nat \<Rightarrow> ref list" where
  "references s f =
     concat (map (\<lambda>p. map (RFd p) (filter (\<lambda>j. live_ref s p j = Some f) [0..<U_maxofile (procs s ! p)])) [0..<length (procs s)])
     @ map RThr (filter (\<lambda>t. opens (fthr s ! t) = Some f) [0..<length (fthr s)])"

lemma live_ref_prefs: "p < length (procs s) \<Longrightarrow> live_ref s p j = prefs s p j"
proof -
  have "list_all (\<lambda>t. owner s ! t = p \<longrightarrow> \<not> past (fthr s ! t) j) [0..<length (fthr s)] \<longleftrightarrow> (\<forall>t. \<not> past (pview s p t) j)"
    by (auto simp: list_all_iff pview_def)
  then show "p < length (procs s) \<Longrightarrow> ?thesis" by (simp add: live_ref_def prefs_def refs_def Let_def)
qed

lemma distinct_references: "distinct (references s f)"
proof -
  have d: "distinct (concat (map (\<lambda>p. map (RFd p) (filter (P p) (g p))) ps))" if "distinct ps" "\<And>p. distinct (g p)" for P :: "nat \<Rightarrow> nat \<Rightarrow> bool" and g ps
    using that by (induction ps) (auto simp: distinct_map inj_on_def)
  have "distinct (map RThr (filter P ts))" if "distinct ts" for P ts using that by (simp add: distinct_map inj_on_def)
  then show ?thesis unfolding references_def distinct_append using d by auto
qed

lemma set_references:
  assumes "fsys_ok cf s"
  shows "set (references s f) = holders (mk (prefs s) (at_open s)) f"
proof -
  have a: "RFd p j \<in> set (references s f) \<longleftrightarrow> prefs s p j = Some f" for p j
  proof -
    have "prefs s p j = Some f \<Longrightarrow> p < length (procs s) \<and> j < U_maxofile (procs s ! p)" by (auto simp: prefs_def refs_def split: if_splits)
    then show ?thesis by (auto simp: references_def live_ref_prefs image_iff)
  qed
  have b: "RThr t \<in> set (references s f) \<longleftrightarrow> at_open s t = Some f" for t by (auto simp: references_def thr_of_def)
  have "r \<in> set (references s f) \<longleftrightarrow> r \<in> holders (mk (prefs s) (at_open s)) f" for r
    using a b by (cases r) (simp_all add: in_holders)
  then show ?thesis by blast
qed

lemma count_references:
  assumes "fsys_ok cf s" and "f < length (files (ft s))"
  shows "f_count (fl (ft s) f) = int (length (references s f))"
proof -
  from fsys_okD(4) [OF assms(1)] obtain fs where "ftab_at fs (mk (prefs s) (at_open s)) (at_close s) (ft s)" by (auto simp: ftab_ok_def)
  from ftab_atD(5) [OF this assms(2)] show ?thesis using distinct_references [of s f] by (simp add: set_references [OF assms(1), symmetric] distinct_card)
qed

fun walk_free :: "nat \<Rightarrow> ftab \<Rightarrow> nat option \<Rightarrow> nat list" where
  "walk_free 0 k fp = []"
| "walk_free (Suc n) k fp = (case fp of None \<Rightarrow> [] | Some f \<Rightarrow> f # walk_free n k (f_up (fl k f)))"

abbreviation free_files :: "ftab \<Rightarrow> nat list" where
  "free_files k \<equiv> walk_free (length (files k)) k (ffreelist k)"

lemma walk_free_path: "path (\<lambda>f. f_up (fl k f)) h fs \<Longrightarrow> length fs \<le> n \<Longrightarrow> walk_free n k h = fs"
proof (induction fs arbitrary: n h)
  case Nil
  then show ?case by (cases n) auto
next
  case (Cons f fs)
  then show ?case by (cases n) auto
qed

lemma free_files_ok:
  assumes "fsys_ok cf s"
  shows "ftab_at (free_files (ft s)) (mk (prefs s) (at_open s)) (at_close s) (ft s)"
proof -
  from fsys_okD(4) [OF assms(1)] obtain fs where fs: "ftab_at fs (mk (prefs s) (at_open s)) (at_close s) (ft s)" by (auto simp: ftab_ok_def)
  have "set fs \<subseteq> {..<length (files (ft s))}" using ftab_atD(4) [OF fs] by auto
  then have "length fs \<le> length (files (ft s))" using distinct_card [OF ftab_atD(3) [OF fs]] card_mono [of "{..<length (files (ft s))}" "set fs"] by simp
  from walk_free_path [OF ftab_atD(2) [OF fs] this] fs show ?thesis by simp
qed

lemma run_ok: "0 < np \<Longrightarrow> 0 < nt \<Longrightarrow> run (fd_next cf) es (finit cf np nt) = Some s \<Longrightarrow> fsys_ok cf s"
  using fd.run_inv [OF finit_ok] by blast

section \<open>Properties\<close>

text \<open>A small machine for the witnesses: four files a page, four descriptors a process; two processes, three threads.\<close>

definition fd_cf :: fcfg where
  "fd_cf = \<lparr>nfile_max = 8, file_base = 0, file_size = 1024, OPEN_MAX = 4\<rparr>"

abbreviation fd_ex :: "fev list \<Rightarrow> fsys" where
  "fd_ex es \<equiv> the (run (fd_next fd_cf) es (finit fd_cf 2 3))"

lemma fd_ex_Some: "run (fd_next fd_cf) es (finit fd_cf 2 3) = Some (fd_ex es)"
  using fd.run_total [OF finit_ok, of 2 3 fd_cf es] by auto

text \<open>
  C6. Whatever the threads of all processes do, in any order, no assertion of the code fails, and the count of every open file is
  the number of descriptors that name it and of opens in progress that have taken it. Descriptors name files of the table.
\<close>

theorem fd_runs_safe:
  assumes "0 < np" and "0 < nt"
  shows "\<exists>s. run (fd_next cf) es (finit cf np nt) = Some s
     \<and> (\<forall>f < length (files (ft s)). f_count (fl (ft s) f) = int (length (references s f)))
     \<and> (\<forall>f. references s f \<noteq> [] \<longrightarrow> f < length (files (ft s)))"
proof -
  from fd.run_total [OF finit_ok [OF assms], of cf es] obtain s where s: "run (fd_next cf) es (finit cf np nt) = Some s" "fsys_ok cf s" by blast
  have "f < length (files (ft s))" if "references s f \<noteq> []" for f
  proof -
    from that obtain r where "r \<in> holders (mk (prefs s) (at_open s)) f" using set_references [OF s(2), of f] by fastforce
    then show ?thesis using ftab_atD(6) [OF free_files_ok [OF s(2)]] by (auto simp: in_holders)
  qed
  with s count_references [OF s(2)] show ?thesis by auto
qed

theorem fd_runs_safe_witness:
  "\<exists>s. run (fd_next fd_cf) [Call 0 (Open 0), Opened 0 (Inr (7, 1)), Call 0 (Spawn 1), Call 1 (Use 0), Call 0 (Close 0), Used 1, Resume 0 None] (finit fd_cf 2 3) = Some s
     \<and> (\<forall>f < length (files (ft s)). f_count (fl (ft s) f) = int (length (references s f)))
     \<and> (\<forall>f. references s f \<noteq> [] \<longrightarrow> f < length (files (ft s)))"
  by (rule fd_runs_safe) simp_all

text \<open>
  C26. No open file is lost and none is free while someone needs it: the free list has no cycle, and a file is on it exactly when no
  descriptor and no open in progress refers to it and no thread is in its last close. A file is in its last close once only.
\<close>

theorem fd_no_file_lost:
  assumes "0 < np" and "0 < nt" and "run (fd_next cf) es (finit cf np nt) = Some s"
  shows "distinct (free_files (ft s))
     \<and> (\<forall>f < length (files (ft s)). f \<in> set (free_files (ft s)) \<longleftrightarrow> references s f = [] \<and> (\<forall>t < length (fthr s). dies (fthr s ! t) \<noteq> Some f))
     \<and> (\<forall>t t' f. t < length (fthr s) \<and> t' < length (fthr s) \<and> dies (fthr s ! t) = Some f \<and> dies (fthr s ! t') = Some f \<longrightarrow> t = t')"
proof -
  note ok = run_ok [OF assms]
  note d = ftab_atD [OF free_files_ok [OF ok]]
  have r: "references s f = [] \<longleftrightarrow> f \<notin> ran (mk (prefs s) (at_open s))" for f
    using set_references [OF ok, of f] by (auto simp: ran_def holders_def)
  have y: "(\<forall>t < length (fthr s). dies (fthr s ! t) \<noteq> Some f) \<longleftrightarrow> f \<notin> ran (at_close s)" for f
    by (auto simp: ran_def thr_of_def)
  have "t = t'" if "t < length (fthr s)" "t' < length (fthr s)" "dies (fthr s ! t) = Some f" "dies (fthr s ! t') = Some f" for t t' f
    using d(9) [of t' f t] that by (simp add: thr_of_def)
  then show ?thesis using d(3,4) unfolding r y by blast
qed

definition ex_closing :: "fev list" where
  "ex_closing = [Call 0 (Open 0), Opened 0 (Inr (7, 1)), Call 0 (Spawn 1), Call 1 (Use 0), Call 0 (Close 0)]"

theorem fd_no_file_lost_witness:
  "\<exists>s. run (fd_next fd_cf) ex_closing (finit fd_cf 2 3) = Some s \<and> distinct (free_files (ft s))
     \<and> (\<forall>f < length (files (ft s)). f \<in> set (free_files (ft s)) \<longleftrightarrow> references s f = [] \<and> (\<forall>t < length (fthr s). dies (fthr s ! t) \<noteq> Some f))
     \<and> (\<forall>t t' f. t < length (fthr s) \<and> t' < length (fthr s) \<and> dies (fthr s ! t) = Some f \<and> dies (fthr s ! t') = Some f \<longrightarrow> t = t')"
  using fd_no_file_lost [OF _ _ fd_ex_Some, of ex_closing] fd_ex_Some [of ex_closing] by auto

lemma use_held:
  assumes ok: "fsys_ok cf s" and t: "t < length (fthr s)" "fthr s ! t = FUse j f"
  shows "uf_fp (uf (own_proc s t) j) = Some f" and "mk (prefs s) (at_open s) (RFd (owner s ! t) j) = Some f"
proof -
  note inv = own_inv [OF ok t(1)]
  let ?X = "pview s (owner s ! t)" and ?u = "own_proc s t"
  have X: "?X t = FUse j f" using thr_of_view [OF t(1)] t(2) by simp
  have j: "j < U_maxofile ?u" "uf_fp (uf ?u j) = Some f" using pinvD(7) [OF inv, of t] X by simp_all
  have g: "?X t \<noteq> FGone" "\<not> alone (?X t)" using X by simp_all
  have "\<not> past (?X t') j" for t'
    using past_excl [OF inv _ not_alone [OF inv g], of t' j] pinvD(7) [OF inv, of t'] count_0 [OF inv j(1)] X j(2) by (cases "?X t'") auto
  then have "refs ?u ?X j = Some f" using j pinvD(8) [OF inv g(1)] by (simp add: refs_def)
  then show "mk (prefs s) (at_open s) (RFd (owner s ! t) j) = Some f" using prefs_own [OF ok t(1)] by simp
  show "uf_fp (uf ?u j) = Some f" by (rule j(2))
qed

text \<open>
  C7. While a thread is in a call that took a descriptor, the descriptor still names the file the call has, and the file is neither free,
  nor in its last close, nor one that an open is about to give out: a close by another thread waits.
\<close>

theorem fd_use_safe:
  assumes "0 < np" and "0 < nt" and "run (fd_next cf) es (finit cf np nt) = Some s" and "t < length (fthr s)" and "fthr s ! t = FUse j f"
  shows "uf_fp (uf (own_proc s t) j) = Some f \<and> 0 < f_count (fl (ft s) f) \<and> f \<notin> set (free_files (ft s))
     \<and> (\<forall>t' < length (fthr s). dies (fthr s ! t') \<noteq> Some f \<and> opens (fthr s ! t') \<noteq> Some f)"
proof -
  note ok = run_ok [OF assms(1-3)]
  note at = free_files_ok [OF ok] and j = use_held(1) [OF ok assms(4,5)] and h = use_held(2) [OF ok assms(4,5)]
  have "dies (fthr s ! t') \<noteq> Some f \<and> opens (fthr s ! t') \<noteq> Some f" if "t' < length (fthr s)" for t'
  proof -
    have "at_close s t' \<noteq> Some f" using ftab_atD(7) [OF at h] by (auto simp: ran_def)
    moreover have "at_open s t' \<noteq> Some f" using ftab_atD(10) [OF at, of t' f "RFd (owner s ! t) j"] h by auto
    ultimately show ?thesis using thr_of_view [OF that] by simp
  qed
  then show ?thesis using j held_count [OF at h] held_not_free [OF at h] by blast
qed

theorem fd_use_safe_witness:
  "\<exists>s. run (fd_next fd_cf) ex_closing (finit fd_cf 2 3) = Some s \<and> fthr s ! 1 = FUse 0 0 \<and> fthr s ! 0 = FWait 0 AClose
     \<and> uf_fp (uf (own_proc s 1) 0) = Some 0 \<and> 0 < f_count (fl (ft s) 0) \<and> 0 \<notin> set (free_files (ft s))
     \<and> (\<forall>t' < length (fthr s). dies (fthr s ! t') \<noteq> Some 0 \<and> opens (fthr s ! t') \<noteq> Some 0)"
proof -
  have x: "1 < length (fthr (fd_ex ex_closing))" "fthr (fd_ex ex_closing) ! 1 = FUse 0 0" "fthr (fd_ex ex_closing) ! 0 = FWait 0 AClose" by code_simp+
  show ?thesis
    by (rule exI [of _ "fd_ex ex_closing"], rule conjI [OF fd_ex_Some], rule conjI [OF x(2)], rule conjI [OF x(3)])
      (rule fd_use_safe [OF _ _ fd_ex_Some x(1,2)], simp_all)
qed

text \<open>
  C27. A thread that waits to close a descriptor is not forgotten: if nobody uses the descriptor, the thread gets on when it runs next.
\<close>

theorem fd_closer_gets_on:
  assumes "0 < np" and "0 < nt" and "run (fd_next cf) es (finit cf np nt) = Some s" and "t < length (fthr s)" and "fthr s ! t = FWait j a"
    and "\<forall>t' < length (fthr s). owner s ! t' = owner s ! t \<longrightarrow> (\<forall>f. fthr s ! t' \<noteq> FUse j f)"
  shows "\<exists>s'. fd_next cf (Resume t rc) s = Some s' \<and> fthr s' ! t \<noteq> FWait j a"
proof -
  note ok = run_ok [OF assms(1-3)] and t = assms(4)
  note inv = own_inv [OF ok t]
  let ?X = "pview s (owner s ! t)" and ?u = "own_proc s t" and ?v = "s\<lparr>fres := None\<rparr>"
  have X: "?X t = FWait j a" using thr_of_view [OF t] assms(5) by simp
  have j: "j < U_maxofile ?u" "uf_fp (uf ?u j) \<noteq> None" using pinvD(7) [OF inv, of t] X by simp_all
  have "?X t' \<noteq> FUse j f" for t' f using assms(6) by (auto simp: pview_def)
  then have c: "uf_count (uf ?u j) = 0" using count_0 [OF inv j(1)] by simp
  have ev: "t \<notin> set (U_fdevent ?u)" using pinvD(11) [OF inv, of t] X c by auto
  from fd_next_ok [OF ok, of "Resume t rc"] obtain s' where s': "fd_next cf (Resume t rc) s = Some s'" by blast
  then have e: "closefd t j a ?u ?v = Some s'" using t assms(5) ev c by (simp add: fd_next_def resume_def wait_unused_def)
  have "fthr s' ! t \<noteq> FWait j a"
    using e t by (auto simp: closefd_def close_end_def done_call_def goes_on_def set_fthr_def set_proc_def Let_def bind_eq_Some_conv split: option.splits if_splits)
  with s' show ?thesis by blast
qed

theorem fd_closer_gets_on_witness:
  "\<exists>s'. fd_next fd_cf (Resume 0 None) (fd_ex (ex_closing @ [Used 1])) = Some s' \<and> fthr s' ! 0 \<noteq> FWait 0 AClose"
proof (rule fd_closer_gets_on [OF _ _ fd_ex_Some])
  show "0 < length (fthr (fd_ex (ex_closing @ [Used 1])))" "fthr (fd_ex (ex_closing @ [Used 1])) ! 0 = FWait 0 AClose" by code_simp+
  have "list_all (\<lambda>x. case x of FUse j f \<Rightarrow> False | _ \<Rightarrow> True) (fthr (fd_ex (ex_closing @ [Used 1])))" by code_simp
  then show "\<forall>t' < length (fthr (fd_ex (ex_closing @ [Used 1]))). owner (fd_ex (ex_closing @ [Used 1])) ! t' = owner (fd_ex (ex_closing @ [Used 1])) ! 0
      \<longrightarrow> (\<forall>f. fthr (fd_ex (ex_closing @ [Used 1])) ! t' \<noteq> FUse 0 f)" by (fastforce simp: list_all_length)
qed simp_all

section \<open>Descriptors and files are handed out\<close>

text \<open>
  C31. \<open>ufdalloc\<close> gives the lowest descriptor from \<open>i\<close> on that is not in use, empty and marked as allocated; it raises \<open>U_maxofile\<close>
  when it must, clearing the descriptors in between, and changes no other. It fails with EMFILE only when all are in use.
\<close>

theorem ufdalloc_lowest:
  assumes "length (U_ufd u) = OPEN_MAX cf" and "U_maxofile u \<le> OPEN_MAX cf"
  shows "case ufdalloc cf i u of
     (u', Inr k) \<Rightarrow> i \<le> k \<and> k < OPEN_MAX cf \<and> unused u k \<and> (\<forall>m. i \<le> m \<and> m < k \<longrightarrow> \<not> unused u m)
        \<and> uf u' k = \<lparr>uf_fp = None, uf_flags = UF_ALLOCATED, uf_count = 0\<rparr> \<and> U_maxofile u' = max (U_maxofile u) (k + 1)
        \<and> (\<forall>m < U_maxofile u'. m \<noteq> k \<longrightarrow> uf u' m = (if m < U_maxofile u then uf u m else \<lparr>uf_fp = None, uf_flags = 0, uf_count = 0\<rparr>))
   | (u', Inl e) \<Rightarrow> e = EMFILE \<and> u' = u \<and> (\<forall>m. i \<le> m \<and> m < OPEN_MAX cf \<longrightarrow> \<not> unused u m)"
proof (cases "ufdalloc cf i u")
  case (Pair u' r)
  show ?thesis
  proof (cases r)
    case (Inl e)
    with Pair have "List.find (unused u) [i..<OPEN_MAX cf] = None" "e = EMFILE" "u' = u" by (auto simp: ufdalloc_def split: option.splits)
    with Pair Inl show ?thesis by (simp add: find_None_iff)
  next
    case (Inr k)
    with Pair have f: "List.find (unused u) [i..<OPEN_MAX cf] = Some k" and u': "u' = ufd_new k u" by (auto simp: ufdalloc_def split: option.splits)
    note k = find_upt [OF f]
    have "k < length (U_ufd u)" using k(3) assms(1) by simp
    note s = ufd_new_simps [OF this]
    show ?thesis using Pair Inr u' k s by (auto simp: not_less)
  qed
qed

theorem ufdalloc_lowest_witness:
  "length (U_ufd (new_proc fd_cf)) = OPEN_MAX fd_cf \<and> (case ufdalloc fd_cf 2 (new_proc fd_cf) of
     (u', Inr k) \<Rightarrow> 2 \<le> k \<and> k < OPEN_MAX fd_cf \<and> unused (new_proc fd_cf) k \<and> (\<forall>m. 2 \<le> m \<and> m < k \<longrightarrow> \<not> unused (new_proc fd_cf) m)
        \<and> uf u' k = \<lparr>uf_fp = None, uf_flags = UF_ALLOCATED, uf_count = 0\<rparr> \<and> U_maxofile u' = max (U_maxofile (new_proc fd_cf)) (k + 1)
        \<and> (\<forall>m < U_maxofile u'. m \<noteq> k \<longrightarrow> uf u' m = (if m < U_maxofile (new_proc fd_cf) then uf (new_proc fd_cf) m else \<lparr>uf_fp = None, uf_flags = 0, uf_count = 0\<rparr>))
   | (u', Inl e) \<Rightarrow> e = EMFILE \<and> u' = new_proc fd_cf \<and> (\<forall>m. 2 \<le> m \<and> m < OPEN_MAX fd_cf \<longrightarrow> \<not> unused (new_proc fd_cf) m))"
  using ufdalloc_lowest [of "new_proc fd_cf" fd_cf 2] by (simp add: new_proc_def fd_cf_def)

lemma fpgrow_None:
  assumes g: "fpgrow cf k = None" and z: "0 < file_size cf" "file_size cf \<le> PAGESIZE"
  shows "nfile_max cf \<le> length (files k)"
proof (rule ccontr)
  assume n: "\<not> ?thesis"
  define ve where "ve = file_base cf + length (files k) * file_size cf"
  define a where "a = ((ve + PAGESIZE) div PAGESIZE * PAGESIZE - ve) div file_size cf"
  have "0 < PAGESIZE div file_size cf" using z by (simp add: div_greater_zero_iff)
  then have "0 < (if a \<le> 1 then a + PAGESIZE div file_size cf else a)" by auto
  then show False using g n unfolding fpgrow_def Let_def ve_def [symmetric] a_def [symmetric] by (auto split: if_splits)
qed

text \<open>
  \<open>fpalloc\<close> fails only with ENFILE, when no file is free and the table has as many as it can have; otherwise it gives a file whose
  count was 0 and touches no other.
\<close>

lemma fpalloc_exhausts:
  assumes "0 < file_size cf" and "file_size cf \<le> PAGESIZE" and "ftab_ok hold dy k" and "hold r = None"
  shows "case fpalloc cf vp flag type ops k of
     None \<Rightarrow> False
   | Some (k', Inl e) \<Rightarrow> e = ENFILE \<and> k' = k \<and> nfile_max cf \<le> length (files k) \<and> free_files k = []
   | Some (k', Inr f) \<Rightarrow> f \<notin> ran hold \<and> f \<notin> ran dy \<and> ftab_ok (hold(r \<mapsto> f)) dy k' \<and> fl k' f = new_file vp flag type ops
       \<and> (\<forall>h < length (files k). h \<noteq> f \<longrightarrow> fl k' h = fl k h)"
proof -
  from fpalloc_ok [OF assms(3,4), of cf vp flag type ops] obtain k' x where x: "fpalloc cf vp flag type ops k = Some (k', x)"
    "case x of Inl e \<Rightarrow> e = ENFILE \<and> k' = k \<and> ffreelist k = None
      | Inr f \<Rightarrow> ftab_ok (hold(r \<mapsto> f)) dy k' \<and> f \<notin> ran hold \<and> f \<notin> ran dy \<and> f < length (files k') \<and> fl k' f = new_file vp flag type ops
            \<and> length (files k) \<le> length (files k') \<and> (\<forall>h < length (files k). h \<noteq> f \<longrightarrow> fl k' h = fl k h)" by blast
  show ?thesis
  proof (cases x)
    case (Inl e)
    with x have e: "e = ENFILE" "k' = k" "ffreelist k = None" by simp_all
    have "fpgrow cf k = None"
      using x(1) Inl e(3) by (auto simp: fpalloc_def fp_take_def Let_def split: option.splits if_splits)
    from fpgrow_None [OF this assms(1,2)] have "nfile_max cf \<le> length (files k)" .
    moreover have "free_files k = []" by (rule walk_free_path) (simp_all add: e(3))
    ultimately show ?thesis using x(1) Inl e by simp
  next
    case (Inr f)
    with x show ?thesis by simp
  qed
qed

lemma fpalloc_exhausts_witness:
  "case fpalloc fd_cf None 1 1 (Some 0) (ft (finit fd_cf 1 1)) of
     None \<Rightarrow> False
   | Some (k', Inl e) \<Rightarrow> e = ENFILE \<and> k' = ft (finit fd_cf 1 1) \<and> nfile_max fd_cf \<le> length (files (ft (finit fd_cf 1 1))) \<and> free_files (ft (finit fd_cf 1 1)) = []
   | Some (k', Inr f) \<Rightarrow> f \<notin> ran (mk (prefs (finit fd_cf 1 1)) (at_open (finit fd_cf 1 1))) \<and> f \<notin> ran (at_close (finit fd_cf 1 1))
       \<and> ftab_ok ((mk (prefs (finit fd_cf 1 1)) (at_open (finit fd_cf 1 1)))(RThr 0 \<mapsto> f)) (at_close (finit fd_cf 1 1)) k' \<and> fl k' f = new_file None 1 1 (Some 0)
       \<and> (\<forall>h < length (files (ft (finit fd_cf 1 1))). h \<noteq> f \<longrightarrow> fl k' h = fl (ft (finit fd_cf 1 1)) h)"
proof (rule fpalloc_exhausts)
  show "ftab_ok (mk (prefs (finit fd_cf 1 1)) (at_open (finit fd_cf 1 1))) (at_close (finit fd_cf 1 1)) (ft (finit fd_cf 1 1))"
    by (rule fsys_okD(4) [OF finit_ok]) simp_all
  show "mk (prefs (finit fd_cf 1 1)) (at_open (finit fd_cf 1 1)) (RThr 0) = None" by (simp add: thr_of_def finit_simps)
qed (simp_all add: fd_cf_def PAGESIZE_def)

section \<open>fork\<close>

lemma fork_fds_files:
  assumes "fork_fds ns u (k, c) = Some (k', c')" and "\<And>n f. n \<in> set ns \<Longrightarrow> inherit u n = Some f \<Longrightarrow> f < length (files k)"
  shows "length (files k') = length (files k) \<and> (\<forall>f. f < length (files k) \<longrightarrow>
     fl k' f = (fl k f)\<lparr>f_count := f_count (fl k f) + int (length (filter (\<lambda>n. inherit u n = Some f) ns))\<rparr>)"
  using assms
proof (induction ns arbitrary: k c)
  case (Cons n ns)
  from Cons.prems(1) obtain k1 c1 where k1: "fork_fd n u (k, c) = Some (k1, c1)" "fork_fds ns u (k1, c1) = Some (k', c')" by (auto simp: bind_eq_Some_conv)
  have s: "length (files k1) = length (files k) \<and> (\<forall>f. f < length (files k) \<longrightarrow>
      fl k1 f = (fl k f)\<lparr>f_count := f_count (fl k f) + (if inherit u n = Some f then 1 else 0)\<rparr>)"
  proof (cases "inherit u n")
    case None
    then have "k1 = k" using k1(1) by (auto simp: fork_fd_def inherit_def split: option.splits if_splits)
    with None show ?thesis by simp
  next
    case (Some g)
    then have "uf_fp (uf u n) = Some g" "\<not> has UF_CLOSING (uf u n)" by (auto simp: inherit_def split: if_splits)
    with k1(1) have "k1 = set_fl g (\<lambda>r. r\<lparr>f_count := f_count r + 1\<rparr>) k" by (auto simp: fork_fd_def fp_hold_def split: if_splits)
    moreover have "g < length (files k)" using Cons.prems(2) [of n g] Some by simp
    ultimately show ?thesis using Some by (auto simp: fl_set_fl)
  qed
  have "length (files k') = length (files k1) \<and> (\<forall>f. f < length (files k1) \<longrightarrow>
     fl k' f = (fl k1 f)\<lparr>f_count := f_count (fl k1 f) + int (length (filter (\<lambda>n. inherit u n = Some f) ns))\<rparr>)"
    by (rule Cons.IH [OF k1(2)]) (use Cons.prems(2) s in auto)
  with s show ?case by auto
qed simp

text \<open>
  C30. After \<open>fork\<close> the new process has the descriptors of its parent with the same files, so the two share offsets, but for those that
  are being closed, and none is in use. The parent is as before, and the count of every file grows by the number of descriptors that
  the child has of it; nothing else of a file changes.
\<close>

theorem fork_shares_files:
  assumes "0 < np" and "0 < nt" and "run (fd_next cf) es (finit cf np nt) = Some s" and "can_call t (Fork q t') s"
  shows "\<exists>s'. fd_next cf (Call t (Fork q t')) s = Some s' \<and> U_maxofile (procs s' ! q) = U_maxofile (own_proc s t) \<and> own_proc s' t = own_proc s t
     \<and> (\<forall>n < U_maxofile (own_proc s t). uf (procs s' ! q) n = inherited (own_proc s t) n)
     \<and> (\<forall>f < length (files (ft s)). fl (ft s') f = (fl (ft s) f)\<lparr>f_count := f_count (fl (ft s) f)
            + int (length (filter (\<lambda>n. inherit (own_proc s t) n = Some f) [0..<U_maxofile (own_proc s t)]))\<rparr>)"
proof -
  note ok = run_ok [OF assms(1-3)]
  have t: "t < length (fthr s)" "fthr s ! t = FIdle" and q: "q < length (procs s)" "\<not> alive (procs s ! q)" and t': "t' < length (fthr s)" "fthr s ! t' = FGone"
    using assms(4) by (simp_all add: can_call_def)
  let ?u = "own_proc s t" and ?c = "(procs s ! q)\<lparr>U_fdevent := [], U_lockflag := False, U_maxofile := U_maxofile (own_proc s t)\<rparr>"
  from fs_fork_ok(1) [OF ok t q] obtain k' c' where r: "fs_fork ?u (ft s) (procs s ! q) = Some (k', c')" "same_frame ?c c'"
      "\<forall>n. uf c' n = (if n < U_maxofile ?u then inherited ?u n else uf ?c n)" by blast
  let ?s = "s\<lparr>ft := k', procs := (procs s)[q := c'\<lparr>alive := True\<rparr>], fthr := (fthr s)[t' := FIdle], owner := (owner s)[t' := q], fres := Some (Inr (int q))\<rparr>"
  have "t \<noteq> t'" using t(2) t'(2) by auto
  have held: "f < length (files (ft s))" if "n \<in> set [0..<U_maxofile ?u]" "inherit ?u n = Some f" for n f
  proof -
    have "refs ?u (pview s (owner s ! t)) n = Some f"
      by (rule inherit_held [OF own_inv [OF ok t(1)], of t]) (use that thr_of_view [OF t(1)] t(2) in auto)
    then have "mk (prefs s) (at_open s) (RFd (owner s ! t) n) = Some f" using prefs_own [OF ok t(1)] by simp
    then show ?thesis by (rule ftab_atD(6) [OF free_files_ok [OF ok]])
  qed
  have "fd_next cf (Call t (Fork q t')) s = Some ?s"
    using assms(4) r(1) by (simp add: fd_next_def fcall_do_def fork_call_def can_call_def threads_of_def)
  moreover have "own_proc ?s t = ?u" using fs_fork_ok(2) [OF ok t q] \<open>t \<noteq> t'\<close> by simp
  moreover have "U_maxofile (procs ?s ! q) = U_maxofile ?u" "\<forall>n < U_maxofile ?u. uf (procs ?s ! q) n = inherited ?u n"
    using r(2,3) q(1) by (simp_all add: same_frame_def)
  moreover have "\<forall>f < length (files (ft s)). fl (ft ?s) f = (fl (ft s) f)\<lparr>f_count := f_count (fl (ft s) f)
      + int (length (filter (\<lambda>n. inherit ?u n = Some f) [0..<U_maxofile ?u]))\<rparr>"
    using fork_fds_files [OF r(1) [unfolded fs_fork_def] held] by simp
  ultimately show ?thesis by blast
qed

definition ex_two :: "fev list" where
  "ex_two = [Call 0 (Open 0), Opened 0 (Inr (7, 1)), Call 0 (Fcntl 0 F_DUPFD 2)]"

theorem fork_shares_files_witness:
  "\<exists>s'. fd_next fd_cf (Call 0 (Fork 1 1)) (fd_ex ex_two) = Some s' \<and> U_maxofile (procs s' ! 1) = U_maxofile (own_proc (fd_ex ex_two) 0)
     \<and> own_proc s' 0 = own_proc (fd_ex ex_two) 0
     \<and> (\<forall>n < U_maxofile (own_proc (fd_ex ex_two) 0). uf (procs s' ! 1) n = inherited (own_proc (fd_ex ex_two) 0) n)
     \<and> (\<forall>f < length (files (ft (fd_ex ex_two))). fl (ft s') f = (fl (ft (fd_ex ex_two)) f)\<lparr>f_count := f_count (fl (ft (fd_ex ex_two)) f)
            + int (length (filter (\<lambda>n. inherit (own_proc (fd_ex ex_two) 0) n = Some f) [0..<U_maxofile (own_proc (fd_ex ex_two) 0)]))\<rparr>)"
proof (rule fork_shares_files [OF _ _ fd_ex_Some])
  show "can_call 0 (Fork 1 1) (fd_ex ex_two)" by code_simp
qed simp_all

end
