(* ===== verification/FdLoops.thy ===== *)
theory FdLoops
  imports FdProps
begin

text \<open>The loops of \<open>exec\<close> and \<open>exit\<close> over the descriptors come to an end, and what they leave.\<close>

section \<open>What a step of a loop does\<close>

text \<open>The steps a thread in a loop has to take yet.\<close>

fun steps_left :: "uproc \<Rightarrow> fthread \<Rightarrow> nat" where
  "steps_left u (FLoop i a) = 2 * (U_maxofile u - i) + 1"
| "steps_left u (FDying i f a) = 2 * (U_maxofile u - i)"
| "steps_left u _ = 0"

lemma done_own: "t < length (fthr s) \<Longrightarrow> owner s ! t < length (procs s) \<Longrightarrow> procs (done_call t r k u s) ! (owner s ! t) = u \<and> fthr (done_call t r k u s) ! t = FIdle
    \<and> owner (done_call t r k u s) = owner s \<and> length (fthr (done_call t r k u s)) = length (fthr s)"
  by (simp add: done_goes_on)

definition closed :: "after \<Rightarrow> nat \<Rightarrow> fthread" where
  "closed a fd = (if a = AClose then FIdle else FLoop (Suc fd) a)"

lemma close_end_result:
  assumes "t < length (fthr s)" and "owner s ! t < length (procs s)" and "s' = close_end t fd a rc k u s"
  shows "owner s' = owner s \<and> length (fthr s') = length (fthr s) \<and> fthr s' ! t = closed a fd \<and> own_proc s' t = (if a = AExit then u else ufdfree fd u)"
  using assms by (simp add: close_end_def done_goes_on closed_def Let_def)

lemma closefd_result:
  assumes c: "closefd t fd a u s = Some s'" and t: "t < length (fthr s)" "owner s ! t < length (procs s)"
  shows "\<exists>f. uf_fp (uf u fd) = Some f \<and> owner s' = owner s \<and> length (fthr s') = length (fthr s)
     \<and> (fthr s' ! t = FDying fd f a \<and> own_proc s' t = lockrelease f (ft s) u
        \<or> fthr s' ! t = closed a fd \<and> own_proc s' t = (if a = AExit then lockrelease f (ft s) u else ufdfree fd (lockrelease f (ft s) u)))"
proof -
  from c obtain f k last where f: "uf_fp (uf u fd) = Some f" and k: "closef_drop f (ft s) = Some (k, last)"
    and r: "(if \<not> last then Some (close_end t fd a None k (lockrelease f (ft s) u) s)
       else if f_ops (fl k f) \<noteq> None then Some (goes_on t (FDying fd f a) k (lockrelease f (ft s) u) s)
       else map_option (\<lambda>k. close_end t fd a None k (lockrelease f (ft s) u) s) (fpfree f k)) = Some s'"
    unfolding closefd_def Let_def by (auto simp: bind_eq_Some_conv split: option.splits)
  from r consider k' where "s' = close_end t fd a None k' (lockrelease f (ft s) u) s" | "s' = goes_on t (FDying fd f a) k (lockrelease f (ft s) u) s"
    by (auto split: if_splits)
  then show ?thesis
  proof cases
    case 1
    from close_end_result [OF t this] f show ?thesis by auto
  next
    case 2
    with t f show ?thesis by simp
  qed
qed

text \<open>A thread in the loop of \<open>exec\<close> or \<open>exit\<close>, and through with it.\<close>

definition in_loop :: "after \<Rightarrow> fthread \<Rightarrow> bool" where
  "in_loop a x \<longleftrightarrow> (\<exists>i. x = FLoop i a) \<or> (\<exists>i f. x = FDying i f a)"

definition through :: "after \<Rightarrow> nat \<Rightarrow> fsys \<Rightarrow> bool" where
  "through a t s \<longleftrightarrow> (if a = AExit then fthr s ! t = FGone \<and> \<not> alive (own_proc s t) else fthr s ! t = FIdle)"

definition closer :: "after \<Rightarrow> nat \<Rightarrow> nat \<Rightarrow> fsys \<Rightarrow> bool" where
  "closer a t n s \<longleftrightarrow> through a t s \<or> in_loop a (fthr s ! t) \<and> steps_left (own_proc s t) (fthr s ! t) \<le> n"

lemma ufdfree_le: "U_maxofile (ufdfree fd u) \<le> U_maxofile u"
  using last_used_le [of "set_uf fd (\<lambda>d. d\<lparr>uf_fp := None, uf_flags := 0\<rparr>) u" "U_maxofile u - 1"] by (auto simp: ufdfree_def Let_def)

lemma closefd_closer:
  assumes c: "closefd t fd a u s = Some s'" and t: "t < length (fthr s)" "owner s ! t < length (procs s)" and a: "\<not> may_wait a" and fd: "fd < U_maxofile u"
  shows "owner s' = owner s \<and> length (fthr s') = length (fthr s) \<and> closer a t (2 * (U_maxofile u - fd)) s'"
proof -
  from closefd_result [OF c t] obtain f where r: "owner s' = owner s" "length (fthr s') = length (fthr s)"
     "fthr s' ! t = FDying fd f a \<and> own_proc s' t = lockrelease f (ft s) u
        \<or> fthr s' ! t = closed a fd \<and> own_proc s' t = (if a = AExit then lockrelease f (ft s) u else ufdfree fd (lockrelease f (ft s) u))" by blast
  have m: "U_maxofile (lockrelease f (ft s) u) = U_maxofile u" using same_lockrelease [of u f "ft s"] by (simp add: same_ufd_def)
  have na: "a \<noteq> AClose" using a by auto
  from r(3) have "closer a t (2 * (U_maxofile u - fd)) s'"
  proof (elim disjE conjE)
    assume "fthr s' ! t = FDying fd f a" "own_proc s' t = lockrelease f (ft s) u"
    then show ?thesis by (simp add: closer_def in_loop_def m)
  next
    assume h: "fthr s' ! t = closed a fd" "own_proc s' t = (if a = AExit then lockrelease f (ft s) u else ufdfree fd (lockrelease f (ft s) u))"
    have "U_maxofile (own_proc s' t) \<le> U_maxofile u" unfolding h(2) using ufdfree_le [of fd "lockrelease f (ft s) u"] m by auto
    then have "steps_left (own_proc s' t) (FLoop (Suc fd) a) \<le> 2 * (U_maxofile u - fd)" using fd by simp
    then show ?thesis using h(1) na by (simp add: closer_def in_loop_def closed_def)
  qed
  with r show ?thesis by simp
qed

lemma find_range: "List.find P [i..<n] = Some j \<Longrightarrow> i \<le> j \<and> j < n"
  using find_upt(2,3) by blast

lemma loop_from_closer:
  assumes c: "loop_from a t i s = Some s'" and t: "t < length (fthr s)" "owner s ! t < length (procs s)" and a: "\<not> may_wait a"
  shows "owner s' = owner s \<and> length (fthr s') = length (fthr s) \<and> closer a t (2 * (U_maxofile (own_proc s t) - i)) s'"
proof (cases a)
  case AExec
  let ?u = "own_proc s t"
  show ?thesis
  proof (cases "List.find (\<lambda>j. has FD_CLOEXEC (uf ?u j) \<and> uf_fp (uf ?u j) \<noteq> None) [i..<U_maxofile ?u]")
    case None
    with c AExec have "s' = done_call t (Inr 0) (ft s) (clear_audit [i..<U_maxofile ?u] ?u) s" by (simp add: loop_from_def exec_from_def Let_def)
    then show ?thesis using done_own [OF t] AExec by (simp add: closer_def through_def)
  next
    case (Some j)
    let ?v = "clear_audit [i..<Suc j] ?u"
    have m: "U_maxofile ?v = U_maxofile ?u" using same_audit [of ?u "[i..<Suc j]"] by (simp add: same_ufd_def)
    from Some c AExec have "closefd t j AExec ?v s = Some s'" by (simp add: loop_from_def exec_from_def Let_def)
    from closefd_closer [OF this t] find_range [OF Some] m AExec have "owner s' = owner s" "length (fthr s') = length (fthr s)" "closer a t (2 * (U_maxofile ?u - j)) s'" by simp_all
    moreover have "2 * (U_maxofile ?u - j) \<le> 2 * (U_maxofile ?u - i)" using find_range [OF Some] by auto
    ultimately show ?thesis by (auto simp: closer_def)
  qed
next
  case AExit
  let ?u = "own_proc s t"
  show ?thesis
  proof (cases "List.find (\<lambda>j. uf_fp (uf ?u j) \<noteq> None) [i..<U_maxofile ?u]")
    case None
    with c AExit have "s' = goes_on t FGone (ft s) (?u\<lparr>alive := False\<rparr>) s" by (simp add: loop_from_def exit_from_def Let_def)
    then show ?thesis using t AExit by (simp add: closer_def through_def)
  next
    case (Some j)
    from Some c AExit have "closefd t j AExit ?u s = Some s'" by (simp add: loop_from_def exit_from_def Let_def split: if_splits)
    from closefd_closer [OF this t] find_range [OF Some] AExit have "owner s' = owner s" "length (fthr s') = length (fthr s)" "closer a t (2 * (U_maxofile ?u - j)) s'" by simp_all
    moreover have "2 * (U_maxofile ?u - j) \<le> 2 * (U_maxofile ?u - i)" using find_range [OF Some] by auto
    ultimately show ?thesis by (auto simp: closer_def)
  qed
qed (use a in simp_all)

lemma resume_closer:
  assumes ok: "fsys_ok cf s" and t: "t < length (fthr s)" and a: "\<not> may_wait a" and c: "closer a t n s" and e: "fd_next cf (Resume t rc) s = Some s'"
  shows "owner s' = owner s \<and> length (fthr s') = length (fthr s) \<and> closer a t (n - 1) s'"
proof -
  let ?v = "s\<lparr>fres := None\<rparr>" and ?u = "own_proc s t"
  have o: "owner s ! t < length (procs s)" by (rule fsys_okD(2) [OF ok t])
  have e: "resume t rc ?v = Some s'" using e t by (simp add: fd_next_def)
  consider "through a t s" | i where "fthr s ! t = FLoop i a" "steps_left ?u (fthr s ! t) \<le> n" | i f where "fthr s ! t = FDying i f a" "steps_left ?u (fthr s ! t) \<le> n"
    using c by (auto simp: closer_def in_loop_def)
  then show ?thesis
  proof cases
    case 1
    then have "s' = ?v" using e by (auto simp: resume_def through_def split: if_splits)
    with 1 show ?thesis by (simp add: closer_def through_def)
  next
    case (2 i)
    then have "loop_from a t i ?v = Some s'" using e by (simp add: resume_def)
    from loop_from_closer [OF this] t o a have r: "owner s' = owner s" "length (fthr s') = length (fthr s)" "closer a t (2 * (U_maxofile ?u - i)) s'" by simp_all
    have "2 * (U_maxofile ?u - i) \<le> n - 1" using 2 by simp
    with r show ?thesis by (auto simp: closer_def)
  next
    case (3 i f)
    then obtain k where k: "s' = close_end t i a rc k ?u ?v" using e by (auto simp: resume_def)
    from close_end_result [OF _ _ k] t o have r: "owner s' = owner s" "length (fthr s') = length (fthr s)" "fthr s' ! t = closed a i"
      "own_proc s' t = (if a = AExit then ?u else ufdfree i ?u)" by auto
    have i: "i < U_maxofile ?u" using pinvD(7) [OF own_inv [OF ok t], of t] thr_of_view [OF t] 3(1) by simp
    have "U_maxofile (own_proc s' t) \<le> U_maxofile ?u" unfolding r(4) using ufdfree_le by simp
    then have "steps_left (own_proc s' t) (FLoop (Suc i) a) \<le> n - 1" using 3 i by simp
    moreover have "a \<noteq> AClose" using a by auto
    ultimately show ?thesis using r(1-3) by (auto simp: closer_def in_loop_def closed_def)
  qed
qed

lemma closer_run:
  assumes "fsys_ok cf s" and "t < length (fthr s)" and "\<not> may_wait a" and "closer a t n s" and "n \<le> length rcs"
  shows "\<exists>s'. run (fd_next cf) (map (Resume t) rcs) s = Some s' \<and> fsys_ok cf s' \<and> owner s' = owner s \<and> through a t s'"
  using assms
proof (induction rcs arbitrary: s n)
  case Nil
  have "i < U_maxofile (own_proc s t)" if "fthr s ! t = FDying i f a" for i f
    using pinvD(7) [OF own_inv [OF Nil(1,2)], of t] thr_of_view [OF Nil(2)] that by simp
  with Nil have "through a t s" by (auto simp: closer_def in_loop_def)
  with Nil show ?case by simp
next
  case (Cons rc rcs)
  from fd_next_ok [OF Cons.prems(1), of "Resume t rc"] obtain s1 where s1: "fd_next cf (Resume t rc) s = Some s1" "fsys_ok cf s1" by blast
  from resume_closer [OF Cons.prems(1-4) s1(1)] have r: "owner s1 = owner s" "length (fthr s1) = length (fthr s)" "closer a t (n - 1) s1" by simp_all
  have "n - 1 \<le> length rcs" using Cons.prems(5) by simp
  from Cons.IH [OF s1(2) _ Cons.prems(3) r(3) this] r(1,2) Cons.prems(2) s1(1) show ?case by simp
qed

section \<open>What exec closes\<close>

text \<open>\<open>exec\<close> has come to descriptor \<open>i\<close>: it has closed those before it that are marked, and the others are as they were.\<close>

definition exec_rel :: "uproc \<Rightarrow> uproc \<Rightarrow> nat \<Rightarrow> bool" where
  "exec_rel u0 u i \<longleftrightarrow> U_maxofile u \<le> U_maxofile u0 \<and> U_maxofile u0 \<le> length (U_ufd u)
     \<and> (\<forall>j < U_maxofile u0. uf_fp (uf u j) = (if j < i \<and> has FD_CLOEXEC (uf u0 j) then None else uf_fp (uf u0 j))
          \<and> (i \<le> j \<longrightarrow> has FD_CLOEXEC (uf u j) = has FD_CLOEXEC (uf u0 j)) \<and> (U_maxofile u \<le> j \<longrightarrow> uf_fp (uf u j) = None))"

fun exec_at :: "uproc \<Rightarrow> uproc \<Rightarrow> fthread \<Rightarrow> bool" where
  "exec_at u0 u (FLoop i a) = exec_rel u0 u i"
| "exec_at u0 u (FDying i f a) = (exec_rel u0 u i \<and> i < U_maxofile u \<and> has FD_CLOEXEC (uf u0 i))"
| "exec_at u0 u _ = exec_rel u0 u (U_maxofile u0)"

definition same_cloexec :: "uproc \<Rightarrow> uproc \<Rightarrow> bool" where
  "same_cloexec u v \<longleftrightarrow> same_ufd u v \<and> (\<forall>j < length (U_ufd u). has FD_CLOEXEC (uf v j) = has FD_CLOEXEC (uf u j))"

lemma fold_cloexec:
  assumes "\<And>d. has FD_CLOEXEC (g d) = has FD_CLOEXEC d"
  shows "j < length (U_ufd u) \<Longrightarrow> has FD_CLOEXEC (uf (fold (\<lambda>j. set_uf j g) js u) j) = has FD_CLOEXEC (uf u j)"
proof (induction js arbitrary: u)
  case (Cons i js)
  have "has FD_CLOEXEC (uf (set_uf i g u) j) = has FD_CLOEXEC (uf u j)"
    using assms Cons.prems by (cases "i = j") (simp_all add: uf_set_uf)
  with Cons show ?case by simp
qed simp

lemma audit_cloexec: "same_cloexec u (clear_audit js u)"
proof -
  have "has FD_CLOEXEC (d\<lparr>uf_flags := uf_flags d AND NOT (UF_AUD_READ OR UF_AUD_WRITE)\<rparr>) = has FD_CLOEXEC d" for d
    by (auto simp: ufd_bits)
  from fold_cloexec [OF this] show ?thesis using same_audit [of u js] by (simp add: same_cloexec_def clear_audit_def)
qed

lemma lock_cloexec: "same_cloexec u (lockrelease f k u)"
proof -
  have "has FD_CLOEXEC (d\<lparr>uf_flags := uf_flags d AND NOT UF_FDLOCK\<rparr>) = has FD_CLOEXEC d" for d by (auto simp: ufd_bits)
  from fold_cloexec [OF this] have "has FD_CLOEXEC (uf (lockrelease f k u) j) = has FD_CLOEXEC (uf u j)" if "j < length (U_ufd u)" for j
    using that by (simp add: lockrelease_def Let_def)
  then show ?thesis by (simp add: same_cloexec_def same_lockrelease)
qed

lemma exec_same:
  assumes r: "exec_rel u0 u i" and s: "same_cloexec u v"
  shows "exec_rel u0 v i"
proof -
  have "uf_fp (uf v j) = uf_fp (uf u j) \<and> has FD_CLOEXEC (uf v j) = has FD_CLOEXEC (uf u j)" if "j < U_maxofile u0" for j
    using s r that by (auto simp: same_cloexec_def same_ufd_def exec_rel_def)
  then show ?thesis using r s by (auto simp: exec_rel_def same_cloexec_def same_ufd_def)
qed

lemma exec_skip:
  assumes r: "exec_rel u0 u i" and k: "\<And>k. i \<le> k \<Longrightarrow> k < j \<Longrightarrow> k < U_maxofile u \<Longrightarrow> \<not> (has FD_CLOEXEC (uf u k) \<and> uf_fp (uf u k) \<noteq> None)" and ij: "i \<le> j"
  shows "exec_rel u0 u j"
proof -
  have "uf_fp (uf u0 k) = None" if "i \<le> k" "k < j" "k < U_maxofile u0" "has FD_CLOEXEC (uf u0 k)" for k
    using k [of k] r that by (cases "k < U_maxofile u") (auto simp: exec_rel_def)
  then show ?thesis using r ij by (auto simp: exec_rel_def not_le not_less)
qed

lemma exec_free:
  assumes r: "exec_rel u0 u j" and j: "j < U_maxofile u" "has FD_CLOEXEC (uf u0 j)"
    and al: "\<And>k f. k < U_maxofile u \<Longrightarrow> uf_fp (uf u k) = Some f \<Longrightarrow> has UF_ALLOCATED (uf u k)"
  shows "exec_rel u0 (ufdfree j u) (Suc j)"
proof -
  have l: "j < length (U_ufd u)" using r j(1) by (auto simp: exec_rel_def)
  note s = ufdfree_simps [OF l j(1)]
  have "uf_fp (uf (ufdfree j u) k) = None" if "U_maxofile (ufdfree j u) \<le> k" "k < U_maxofile u0" for k
  proof (cases "k = j \<or> \<not> k < U_maxofile u")
    case True
    then show ?thesis using r that(2) s(6) by (auto simp: exec_rel_def)
  next
    case False
    then show ?thesis using s(6,7) [of k] that(1) al [of k] by (cases "uf_fp (uf u k)") auto
  qed
  then show ?thesis using r j s(1,5,6) by (auto simp: exec_rel_def less_Suc_eq)
qed

lemma alloc_same:
  assumes "pinv cf u X" and "same_ufd u v"
  shows "k < U_maxofile v \<Longrightarrow> uf_fp (uf v k) = Some f \<Longrightarrow> has UF_ALLOCATED (uf v k)"
  using pinvD(4) [OF pinv_same(1) [OF assms]] by blast

lemma closefd_exec:
  assumes c: "closefd t j AExec u s = Some s'" and t: "t < length (fthr s)" "owner s ! t < length (procs s)"
    and inv: "pinv cf w X" "same_ufd w u" and r: "exec_rel u0 u j" "j < U_maxofile u" "has FD_CLOEXEC (uf u0 j)"
  shows "exec_at u0 (own_proc s' t) (fthr s' ! t)"
proof -
  from closefd_result [OF c t] obtain f where h: "owner s' = owner s"
     "fthr s' ! t = FDying j f AExec \<and> own_proc s' t = lockrelease f (ft s) u
        \<or> fthr s' ! t = closed AExec j \<and> own_proc s' t = (if AExec = AExit then lockrelease f (ft s) u else ufdfree j (lockrelease f (ft s) u))" by blast
  let ?v = "lockrelease f (ft s) u"
  have m: "U_maxofile ?v = U_maxofile u" using same_lockrelease [of u f "ft s"] by (simp add: same_ufd_def)
  have e: "exec_rel u0 ?v j" by (rule exec_same [OF r(1) lock_cloexec])
  have "exec_rel u0 (ufdfree j ?v) (Suc j)"
    by (rule exec_free [OF e]) (use r(2,3) m alloc_same [OF inv(1) same_ufd_trans [OF inv(2) same_lockrelease]] in auto)
  then show ?thesis using h e r(2,3) m by (auto simp: closed_def)
qed

lemma exec_from_rel:
  assumes c: "exec_from t i s = Some s'" and t: "t < length (fthr s)" "owner s ! t < length (procs s)"
    and inv: "pinv cf (own_proc s t) X" and r: "exec_rel u0 (own_proc s t) i"
  shows "exec_at u0 (own_proc s' t) (fthr s' ! t)"
proof -
  let ?u = "own_proc s t"
  show ?thesis
  proof (cases "List.find (\<lambda>j. has FD_CLOEXEC (uf ?u j) \<and> uf_fp (uf ?u j) \<noteq> None) [i..<U_maxofile ?u]")
    case None
    then have s': "s' = done_call t (Inr 0) (ft s) (clear_audit [i..<U_maxofile ?u] ?u) s" using c by (simp add: exec_from_def Let_def)
    have "exec_rel u0 ?u (max i (U_maxofile u0))" by (rule exec_skip [OF r]) (use None in \<open>auto simp: find_None_iff\<close>)
    then have "exec_rel u0 ?u (U_maxofile u0)" by (auto simp: exec_rel_def)
    then have "exec_rel u0 (clear_audit [i..<U_maxofile ?u] ?u) (U_maxofile u0)" by (rule exec_same [OF _ audit_cloexec])
    then show ?thesis using done_own [OF t] s' by simp
  next
    case (Some j)
    note f = find_upt [OF Some]
    let ?v = "clear_audit [i..<Suc j] ?u"
    have c: "closefd t j AExec ?v s = Some s'" using Some c by (simp add: exec_from_def Let_def)
    have "exec_rel u0 ?u j" by (rule exec_skip [OF r _ f(2)]) (use f(4) in blast)
    then have e: "exec_rel u0 ?v j" by (rule exec_same [OF _ audit_cloexec])
    have m: "U_maxofile ?v = U_maxofile ?u" using same_audit [of ?u "[i..<Suc j]"] by (simp add: same_ufd_def)
    have "has FD_CLOEXEC (uf u0 j)" using f(1,3) \<open>exec_rel u0 ?u j\<close> by (auto simp: exec_rel_def)
    then show ?thesis by (intro closefd_exec [OF c t inv same_audit e]) (use f(3) m in auto)
  qed
qed

lemma exec_resume:
  assumes ok: "fsys_ok cf s" and t: "t < length (fthr s)" and c: "closer AExec t n s" and e: "fd_next cf (Resume t rc) s = Some s'"
    and r: "exec_at u0 (own_proc s t) (fthr s ! t)"
  shows "exec_at u0 (own_proc s' t) (fthr s' ! t)"
proof -
  let ?v = "s\<lparr>fres := None\<rparr>" and ?u = "own_proc s t"
  have o: "owner s ! t < length (procs s)" by (rule fsys_okD(2) [OF ok t])
  have e: "resume t rc ?v = Some s'" using e t by (simp add: fd_next_def)
  consider "fthr s ! t = FIdle" | i where "fthr s ! t = FLoop i AExec" | i f where "fthr s ! t = FDying i f AExec"
    using c by (auto simp: closer_def through_def in_loop_def)
  then show ?thesis
  proof cases
    case 1
    then have "s' = ?v" using e by (simp add: resume_def)
    with r show ?thesis by simp
  next
    case (2 i)
    then have "exec_from t i ?v = Some s'" using e by (simp add: resume_def loop_from_def)
    from exec_from_rel [OF this] t o own_inv [OF ok t] r 2 show ?thesis by simp
  next
    case (3 i f)
    then obtain k where k: "s' = close_end t i AExec rc k ?u ?v" using e by (auto simp: resume_def)
    from close_end_result [OF _ _ k] t o have h: "owner s' = owner s" "fthr s' ! t = closed AExec i" "own_proc s' t = ufdfree i ?u" by auto
    have "exec_rel u0 (ufdfree i ?u) (Suc i)" by (rule exec_free) (use r 3 pinvD(4) [OF own_inv [OF ok t]] in auto)
    with h show ?thesis by (simp add: closed_def)
  qed
qed

lemma exec_run:
  assumes "fsys_ok cf s" and "t < length (fthr s)" and "closer AExec t n s" and "run (fd_next cf) (map (Resume t) rcs) s = Some s'"
    and "exec_at u0 (own_proc s t) (fthr s ! t)"
  shows "exec_at u0 (own_proc s' t) (fthr s' ! t)"
  using assms
proof (induction rcs arbitrary: s n)
  case (Cons rc rcs)
  from fd_next_ok [OF Cons.prems(1), of "Resume t rc"] obtain s1 where s1: "fd_next cf (Resume t rc) s = Some s1" "fsys_ok cf s1" by blast
  have a: "\<not> may_wait AExec" by simp
  from resume_closer [OF Cons.prems(1,2) a Cons.prems(3) s1(1)] Cons.prems(2) have r: "t < length (fthr s1)" "closer AExec t (n - 1) s1" by simp_all
  have "run (fd_next cf) (map (Resume t) rcs) s1 = Some s'" using Cons.prems(4) s1(1) by simp
  from Cons.IH [OF s1(2) r this exec_resume [OF Cons.prems(1-3) s1(1) Cons.prems(5)]] show ?case .
qed simp

section \<open>What a loop leaves alone\<close>

definition elsewhere :: "nat \<Rightarrow> fsys \<Rightarrow> fsys \<Rightarrow> bool" where
  "elsewhere t s s' \<longleftrightarrow> owner s' = owner s \<and> length (procs s') = length (procs s) \<and> length (fthr s') = length (fthr s)
     \<and> length (files (ft s')) = length (files (ft s))
     \<and> (\<forall>p. p \<noteq> owner s ! t \<longrightarrow> procs s' ! p = procs s ! p) \<and> (\<forall>t'. t' \<noteq> t \<longrightarrow> fthr s' ! t' = fthr s ! t')"

lemma elsewhere_refl [simp]: "elsewhere t s s" and elsewhere_res [simp]: "elsewhere t (s\<lparr>fres := r\<rparr>) s' = elsewhere t s s'"
    "elsewhere t s (s'\<lparr>fres := r\<rparr>) = elsewhere t s s'"
  by (simp_all add: elsewhere_def)

lemma elsewhere_trans: "elsewhere t s s1 \<Longrightarrow> elsewhere t s1 s2 \<Longrightarrow> elsewhere t s s2"
  by (simp add: elsewhere_def)

lemma elsewhere_on [simp]:
  assumes "length (files k) = length (files (ft s))"
  shows "elsewhere t s (goes_on t x k u s)" and "elsewhere t s (done_call t r k u s)"
  using assms by (simp_all add: elsewhere_def goes_on_def done_call_def set_fthr_def set_proc_def)

lemma elsewhere_end: "length (files k) = length (files (ft s)) \<Longrightarrow> elsewhere t s (close_end t fd a rc k u s)"
  by (simp add: close_end_def Let_def)

lemma files_drop: "closef_drop f k = Some (k', b) \<Longrightarrow> length (files k') = length (files k)"
  and files_free: "fpfree f k = Some k' \<Longrightarrow> length (files k') = length (files k)"
  by (auto simp: closef_drop_def fpfree_def set_fl_def Let_def split: if_splits)

lemma elsewhere_closefd: "closefd t fd a u s = Some s' \<Longrightarrow> elsewhere t s s'"
  by (auto simp: closefd_def Let_def bind_eq_Some_conv elsewhere_end files_drop dest: files_drop files_free split: option.splits if_splits)

lemma elsewhere_resume:
  assumes "resume t rc s = Some s'"
  shows "elsewhere t s s'"
  using assms elsewhere_closefd
  by (auto simp: resume_def loop_from_def closem_from_def exec_from_def exit_from_def wait_unused_def Let_def elsewhere_end
      dest: files_free split: fthread.splits after.splits option.splits if_splits)

lemma elsewhere_run: "run (fd_next cf) (map (Resume t) rcs) s = Some s' \<Longrightarrow> elsewhere t s s'"
proof (induction rcs arbitrary: s)
  case (Cons rc rcs)
  then obtain s1 where s1: "fd_next cf (Resume t rc) s = Some s1" "run (fd_next cf) (map (Resume t) rcs) s1 = Some s'" by (auto split: option.splits)
  then have "elsewhere t s s1" using elsewhere_resume [of t rc "s\<lparr>fres := None\<rparr>" s1] by (auto simp: fd_next_def Let_def split: if_splits)
  with Cons.IH [OF s1(2)] show ?case by (blast intro: elsewhere_trans)
qed simp

text \<open>The descriptors of a process that name a file, and what becomes of the count of the file when the process with its only thread is gone.\<close>

definition named_by :: "uproc \<Rightarrow> nat \<Rightarrow> nat list" where
  "named_by u f = filter (\<lambda>j. uf_fp (uf u j) = Some f) [0..<U_maxofile u]"

lemma gone_counts:
  assumes ok: "fsys_ok cf s" "fsys_ok cf s'" and t: "t < length (fthr s)" "fthr s ! t = FIdle" "threads_of (owner s ! t) s = [t]"
    and e: "elsewhere t s s'" and g: "fthr s' ! t = FGone" "\<not> alive (procs s' ! (owner s ! t))" and f: "f < length (files (ft s))"
  shows "f_count (fl (ft s) f) = f_count (fl (ft s') f) + int (length (named_by (own_proc s t) f))"
proof -
  let ?p = "owner s ! t" and ?u = "own_proc s t"
  have p: "?p < length (procs s)" by (rule fsys_okD(2) [OF ok(1) t(1)])
  have "\<not> past (pview s ?p t') j" for t' j
  proof -
    have "t' \<in> set (threads_of ?p s) \<Longrightarrow> t' = t" by (simp add: t(3))
    then show ?thesis using t(2) by (cases "t' = t"; cases "fthr s ! t' = FGone") (auto simp: pview_def threads_of_def)
  qed
  moreover have "alive ?u"
    using pinvD(8) [OF own_inv [OF ok(1) t(1)], of t] thr_of_view [OF t(1)] t(2) by simp
  ultimately have p1: "prefs s ?p j = (if j < U_maxofile ?u then uf_fp (uf ?u j) else None)" for j
    using p by (simp add: prefs_def refs_def)
  have p2: "prefs s' ?p j = None" for j using g(2) by (simp add: prefs_def refs_def)
  have v: "pview s' q = pview s q" if "q \<noteq> ?p" for q using e that by (intro ext) (auto simp: pview_def elsewhere_def)
  have p3: "prefs s' q = prefs s q" if "q \<noteq> ?p" for q using e that v [OF that] by (simp add: prefs_def elsewhere_def)
  have o: "at_open s' t' = at_open s t'" for t'
    using e t(2) g(1) by (cases "t' = t") (auto simp: thr_of_def elsewhere_def)
  have "set (references s f) = set (references s' f) \<union> RFd ?p ` set (named_by ?u f)"
  proof (rule set_eqI)
    fix r
    show "r \<in> set (references s f) \<longleftrightarrow> r \<in> set (references s' f) \<union> RFd ?p ` set (named_by ?u f)"
      unfolding set_references [OF ok(1)] set_references [OF ok(2)]
    proof (cases r)
      case (RFd q j)
      then show "r \<in> holders (mk (prefs s) (at_open s)) f \<longleftrightarrow> r \<in> holders (mk (prefs s') (at_open s')) f \<union> RFd ?p ` set (named_by ?u f)"
        by (cases "q = ?p") (auto simp: in_holders p1 p2 p3 named_by_def)
    qed (auto simp: in_holders o)
  qed
  moreover have "set (references s' f) \<inter> RFd ?p ` set (named_by ?u f) = {}"
    unfolding set_references [OF ok(2)] by (auto simp: in_holders p2)
  moreover have "card (set (named_by ?u f)) = length (named_by ?u f)" by (rule distinct_card) (simp add: named_by_def)
  then have "card (RFd ?p ` set (named_by ?u f)) = length (named_by ?u f)" by (simp add: card_image inj_on_def)
  ultimately have "card (set (references s f)) = card (set (references s' f)) + length (named_by ?u f)"
    by (simp add: card_Un_disjoint)
  then have "length (references s f) = length (references s' f) + length (named_by ?u f)" by (simp add: distinct_card distinct_references)
  moreover have "f < length (files (ft s'))" using e f by (simp add: elsewhere_def)
  ultimately show ?thesis using count_references [OF ok(1) f] count_references [OF ok(2)] by simp
qed

section \<open>Properties\<close>

lemma call_starts:
  assumes ok: "fsys_ok cf s" and c: "can_call t e s" "e = (if a = AExec then Exec else Exit)" "\<not> may_wait a"
  shows "\<exists>s1. fd_next cf (Call t e) s = Some s1 \<and> fsys_ok cf s1 \<and> owner s1 = owner s \<and> length (fthr s1) = length (fthr s) \<and> loop_from a t 0 (s\<lparr>fres := None\<rparr>) = Some s1
     \<and> closer a t (2 * U_maxofile (own_proc s t)) s1"
proof -
  have t: "t < length (fthr s)" using c(1) by (simp add: can_call_def)
  from fd_next_ok [OF ok, of "Call t e"] obtain s1 where s1: "fd_next cf (Call t e) s = Some s1" "fsys_ok cf s1" by blast
  have "can_call t e (s\<lparr>fres := None\<rparr>)" using c(1) by (simp add: can_call_def threads_of_def cong: fcall.case_cong)
  with s1(1) have l: "loop_from a t 0 (s\<lparr>fres := None\<rparr>) = Some s1"
    using c(2,3) by (cases a) (simp_all add: fd_next_def fcall_do_def loop_from_def)
  from loop_from_closer [OF l] t fsys_okD(2) [OF ok t] c(3) have "owner s1 = owner s" "length (fthr s1) = length (fthr s)"
    "closer a t (2 * U_maxofile (own_proc s t)) s1" by simp_all
  with s1 l show ?thesis by blast
qed

text \<open>
  C28. \<open>exit\<close> comes to an end: after at most twice as many steps as the process has descriptors, whatever errors the file operations give,
  thread and process are gone, and the count of every open file is smaller than before by the number of descriptors of the process that named it.
  No assertion fails on the way.
\<close>

theorem exit_terminates:
  assumes "0 < np" and "0 < nt" and "run (fd_next cf) es (finit cf np nt) = Some s" and "can_call t Exit s"
    and "2 * U_maxofile (own_proc s t) \<le> length rcs"
  shows "\<exists>s'. run (fd_next cf) (Call t Exit # map (Resume t) rcs) s = Some s' \<and> fthr s' ! t = FGone \<and> \<not> alive (procs s' ! (owner s ! t))
     \<and> (\<forall>f < length (files (ft s)). f_count (fl (ft s') f)
          = f_count (fl (ft s) f) - int (length (filter (\<lambda>j. uf_fp (uf (own_proc s t) j) = Some f) [0..<U_maxofile (own_proc s t)])))"
proof -
  note ok = run_ok [OF assms(1-3)]
  have t: "t < length (fthr s)" "fthr s ! t = FIdle" "threads_of (owner s ! t) s = [t]" using assms(4) by (simp_all add: can_call_def)
  have a: "\<not> may_wait AExit" by simp
  from call_starts [OF ok assms(4) _ a] obtain s1 where s1: "fd_next cf (Call t Exit) s = Some s1" "fsys_ok cf s1" "owner s1 = owner s"
    "length (fthr s1) = length (fthr s)" "exit_from t 0 (s\<lparr>fres := None\<rparr>) = Some s1" "closer AExit t (2 * U_maxofile (own_proc s t)) s1"
    by (auto simp: loop_from_def)
  from closer_run [OF s1(2) _ a s1(6) assms(5)] t(1) s1(4) obtain s' where s': "run (fd_next cf) (map (Resume t) rcs) s1 = Some s'" "fsys_ok cf s'"
    "owner s' = owner s1" "through AExit t s'" by auto
  then have g: "fthr s' ! t = FGone" "\<not> alive (procs s' ! (owner s ! t))" using s1(3) by (simp_all add: through_def)
  have "elsewhere t s s1" using s1(5) elsewhere_closefd [of t _ AExit _ "s\<lparr>fres := None\<rparr>" s1]
    elsewhere_on(1) [of "ft s" "s\<lparr>fres := None\<rparr>" t] by (auto simp: exit_from_def Let_def split: option.splits if_splits)
  with elsewhere_run [OF s'(1)] have e: "elsewhere t s s'" by (blast intro: elsewhere_trans)
  from gone_counts [OF ok s'(2) t e g] s1(1) s'(1) g show ?thesis by (auto simp: named_by_def)
qed

theorem exit_terminates_witness:
  "\<exists>s'. run (fd_next fd_cf) (Call 0 Exit # map (Resume 0) (replicate 6 (Some EFAULT))) (fd_ex ex_two) = Some s' \<and> fthr s' ! 0 = FGone
     \<and> \<not> alive (procs s' ! (owner (fd_ex ex_two) ! 0))
     \<and> (\<forall>f < length (files (ft (fd_ex ex_two))). f_count (fl (ft s') f)
          = f_count (fl (ft (fd_ex ex_two)) f)
            - int (length (filter (\<lambda>j. uf_fp (uf (own_proc (fd_ex ex_two) 0) j) = Some f) [0..<U_maxofile (own_proc (fd_ex ex_two) 0)])))"
proof (rule exit_terminates [OF _ _ fd_ex_Some])
  show "can_call 0 Exit (fd_ex ex_two)" by code_simp
  have "U_maxofile (own_proc (fd_ex ex_two) 0) = 3" by code_simp
  then show "2 * U_maxofile (own_proc (fd_ex ex_two) 0) \<le> length (replicate 6 (Some EFAULT))" by simp
qed simp_all

text \<open>
  C29. \<open>exec\<close> closes the descriptors that are marked close-on-exec and no other, and comes to an end within twice as many steps as the process
  has descriptors.
\<close>

theorem exec_closes:
  assumes "0 < np" and "0 < nt" and "run (fd_next cf) es (finit cf np nt) = Some s" and "can_call t Exec s"
    and "2 * U_maxofile (own_proc s t) \<le> length rcs"
  shows "\<exists>s'. run (fd_next cf) (Call t Exec # map (Resume t) rcs) s = Some s' \<and> fthr s' ! t = FIdle
     \<and> (\<forall>j < U_maxofile (own_proc s t). uf_fp (uf (own_proc s' t) j) = (if has FD_CLOEXEC (uf (own_proc s t) j) then None else uf_fp (uf (own_proc s t) j)))"
proof -
  note ok = run_ok [OF assms(1-3)]
  let ?u = "own_proc s t" and ?v = "s\<lparr>fres := None\<rparr>"
  have t: "t < length (fthr s)" using assms(4) by (simp add: can_call_def)
  have a: "\<not> may_wait AExec" by simp
  note inv = own_inv [OF ok t]
  from call_starts [OF ok assms(4) _ a] obtain s1 where s1: "fd_next cf (Call t Exec) s = Some s1" "fsys_ok cf s1" "owner s1 = owner s"
    "length (fthr s1) = length (fthr s)" "exec_from t 0 ?v = Some s1" "closer AExec t (2 * U_maxofile ?u) s1" by (auto simp: loop_from_def)
  have "exec_rel ?u ?u 0" using pinvD(1,2) [OF inv] by (simp add: exec_rel_def)
  with exec_from_rel [OF s1(5)] t fsys_okD(2) [OF ok t] inv have e: "exec_at ?u (own_proc s1 t) (fthr s1 ! t)" by simp
  from closer_run [OF s1(2) _ a s1(6) assms(5)] t s1(4) obtain s' where s': "run (fd_next cf) (map (Resume t) rcs) s1 = Some s'" "fsys_ok cf s'"
    "owner s' = owner s1" "through AExec t s'" by auto
  from exec_run [OF s1(2) _ s1(6) s'(1) e] t s1(4) have "exec_at ?u (own_proc s' t) (fthr s' ! t)" by simp
  then show ?thesis using s1(1) s'(1,4) by (auto simp: through_def exec_rel_def)
qed

definition ex_marked :: "fev list" where
  "ex_marked = ex_two @ [Call 0 (Fcntl 0 F_SETFD 1)]"

theorem exec_closes_witness:
  "\<exists>s'. run (fd_next fd_cf) (Call 0 Exec # map (Resume 0) (replicate 6 None)) (fd_ex ex_marked) = Some s' \<and> fthr s' ! 0 = FIdle
     \<and> (\<forall>j < U_maxofile (own_proc (fd_ex ex_marked) 0). uf_fp (uf (own_proc s' 0) j)
          = (if has FD_CLOEXEC (uf (own_proc (fd_ex ex_marked) 0) j) then None else uf_fp (uf (own_proc (fd_ex ex_marked) 0) j)))"
proof (rule exec_closes [OF _ _ fd_ex_Some])
  show "can_call 0 Exec (fd_ex ex_marked)" by code_simp
  have "U_maxofile (own_proc (fd_ex ex_marked) 0) = 3" by code_simp
  then show "2 * U_maxofile (own_proc (fd_ex ex_marked) 0) \<le> length (replicate 6 None)" by simp
qed simp_all

end
