(* ===== verification/FdServices.thy ===== *)
theory FdServices
  imports FdLoops
begin

text \<open>Kernel services on descriptors, and where they do not do what they say.\<close>

text \<open>
  \<open>ufdhold\<close> takes a descriptor that is not open, though its header promises EBADF. If \<open>ufdalloc\<close> gives the descriptor out
  while it is held, the hold is forgotten, and the assertion of the \<open>ufdrele\<close> that ends it fails.
\<close>

lemma ufdhold_loses_hold:
  assumes "length (U_ufd u) = OPEN_MAX cf" and "in_range fd u" and "nat fd < OPEN_MAX cf" and "\<not> has UF_ALLOCATED (uf u (nat fd))"
    and "\<not> has UF_CLOSING (uf u (nat fd))" and "\<forall>m < nat fd. has UF_ALLOCATED (uf u m)"
  shows "\<exists>u1 u2. ufdhold fd u = (u1, None) \<and> ufdalloc cf 0 u1 = (u2, Inr (nat fd)) \<and> ufdrele fd u2 = None"
proof -
  let ?u1 = "set_uf (nat fd) (\<lambda>d. d\<lparr>uf_count := uf_count d + 1\<rparr>) u"
  have j: "nat fd < U_maxofile u" "nat fd < length (U_ufd u)" using assms by (auto simp: in_range_def nat_less_iff)
  have "ufdhold fd u = (?u1, None)" using assms(2,5) by (simp add: ufdhold_def)
  moreover have "List.find (unused ?u1) [0..<OPEN_MAX cf] = Some (nat fd)"
  proof -
    have a: "unused ?u1 m \<longleftrightarrow> m \<ge> U_maxofile u \<or> \<not> has UF_ALLOCATED (uf u m)" for m
      using uf_set_uf [OF j(2)] by (simp add: unused_def has_bits)
    have "\<not> unused ?u1 m" if "m < nat fd" for m using assms(6) j(1) that unfolding a by simp
    moreover have "unused ?u1 (nat fd)" using assms(4) unfolding a by simp
    ultimately show ?thesis using assms(3) unfolding find_Some_iff by (intro exI [of _ "nat fd"]) simp
  qed
  then have "ufdalloc cf 0 ?u1 = (ufd_new (nat fd) ?u1, Inr (nat fd))" by (simp add: ufdalloc_def)
  moreover have "ufdrele fd (ufd_new (nat fd) ?u1) = None"
    using ufd_new_simps(5,6) [of "nat fd" ?u1] assms(2) j by (simp add: ufdrele_def in_range_def)
  ultimately show ?thesis by blast
qed

definition ex_hole :: uproc where
  "ex_hole = own_proc (fd_ex (ex_two @ [Call 0 (Close 0)])) 0"

lemma ex_hole_is: "ex_hole = \<lparr>U_ufd = [\<lparr>uf_fp = None, uf_flags = 0, uf_count = 0\<rparr>, \<lparr>uf_fp = None, uf_flags = 0, uf_count = 0\<rparr>,
     \<lparr>uf_fp = Some 0, uf_flags = 128, uf_count = 0\<rparr>, \<lparr>uf_fp = None, uf_flags = 0, uf_count = 0\<rparr>],
     U_maxofile = 3, U_lockflag = False, U_fdevent = [], alive = True\<rparr>"
  by code_simp

lemma ufdhold_loses_hold_witness:
  "\<exists>u1 u2. ufdhold 0 ex_hole = (u1, None) \<and> ufdalloc fd_cf 0 u1 = (u2, Inr (nat 0)) \<and> ufdrele 0 u2 = None"
proof (rule ufdhold_loses_hold)
  show "length (U_ufd ex_hole) = OPEN_MAX fd_cf" "in_range 0 ex_hole" "nat 0 < OPEN_MAX fd_cf" "\<not> has UF_ALLOCATED (uf ex_hole (nat 0))"
    "\<not> has UF_CLOSING (uf ex_hole (nat 0))"
    by (simp_all add: ex_hole_is fd_cf_def in_range_def has_def)
qed simp

text \<open>
  When \<open>fp_ufalloc\<close> has got descriptor 0 and then fails, it does not give the descriptor back: it stays allocated without a file, no
  \<open>close\<close> can free it and no \<open>ufdalloc\<close> gives it out again.
\<close>

lemma ufdalloc_not: "i < U_maxofile u \<Longrightarrow> has UF_ALLOCATED (uf u i) \<Longrightarrow> ufdalloc cf k u \<noteq> (u', Inr i)"
  by (auto simp: ufdalloc_def find_Some_iff unused_def split: option.splits)

lemma fp_ufalloc_leaks_zero:
  assumes "fp_ufalloc cf fp vnop_open s u = Some (s', u', Inl e)" and "ufdalloc cf 0 u = (v, Inr 0)" and "length (U_ufd u) = OPEN_MAX cf"
  shows "uf u' 0 = \<lparr>uf_fp = None, uf_flags = UF_ALLOCATED, uf_count = 0\<rparr> \<and> 0 < U_maxofile u' \<and> \<not> can_close u' 0 \<and> (\<forall>k w. ufdalloc cf k u' \<noteq> (w, Inr 0))"
proof -
  from ufdalloc_Inr [OF assms(2)] have v: "v = ufd_new 0 u" "0 < OPEN_MAX cf" by simp_all
  have "u' = v"
    using assms(1,2) by (auto simp: fp_ufalloc_def Let_def bind_eq_Some_conv split: if_splits sum.split_asm option.split_asm)
      (metis option.exhaust sum.exhaust)+
  with ufd_new_simps(5,6) [of 0 u] v assms(3) have u: "uf u' 0 = \<lparr>uf_fp = None, uf_flags = UF_ALLOCATED, uf_count = 0\<rparr>" "0 < U_maxofile u'" by simp_all
  moreover have "ufdalloc cf k u' \<noteq> (w, Inr 0)" for k w by (rule ufdalloc_not) (use u in \<open>simp_all add: has_bits bits_allocated\<close>)
  ultimately show ?thesis by (simp add: can_close_def)
qed

definition ex_debugger :: fsys where
  "ex_debugger = fd_ex (ex_two @ [Call 0 (Close 0)])"

lemma fp_ufalloc_leaks_zero_witness:
  "\<exists>s' u'. fp_ufalloc fd_cf 0 (Some EACCES) (ft ex_debugger) ex_hole = Some (s', u', Inl EACCES)
     \<and> uf u' 0 = \<lparr>uf_fp = None, uf_flags = UF_ALLOCATED, uf_count = 0\<rparr> \<and> 0 < U_maxofile u' \<and> \<not> can_close u' 0 \<and> (\<forall>k w. ufdalloc fd_cf k u' \<noteq> (w, Inr 0))"
proof -
  have a: "map_option (\<lambda>(s, u, r). r) (fp_ufalloc fd_cf 0 (Some EACCES) (ft ex_debugger) ex_hole) = Some (Inl EACCES)" by code_simp
  then obtain s' u' where f: "fp_ufalloc fd_cf 0 (Some EACCES) (ft ex_debugger) ex_hole = Some (s', u', Inl EACCES)" by auto
  have "snd (ufdalloc fd_cf 0 ex_hole) = Inr 0" "length (U_ufd ex_hole) = OPEN_MAX fd_cf" by (simp_all add: ex_hole_is ufdalloc_def unused_def has_def fd_cf_def upt_rec)
  with fp_ufalloc_leaks_zero [OF f, of "fst (ufdalloc fd_cf 0 ex_hole)"] f show ?thesis by (metis prod.collapse)
qed

text \<open>
  What \<open>fcntl\<close> sets it gives back: after \<open>F_SETFD\<close>, \<open>F_GETFD\<close> gives the close-on-exec bit of the argument; after \<open>F_SETFL\<close>, the flags
  that \<open>F_GETFL\<close> gives agree with the argument in the bits of \<open>FFCNTL\<close> once one is added to both, and the other bits are as before.
\<close>

lemma fcntl_flags_roundtrip:
  assumes "fdes < length (U_ufd u)" and "fp < length (files k)"
  shows "\<exists>u1 k1. fcntl_do cf fdes F_SETFD arg fp k u = Some (k, u1, Inr 0)
     \<and> fcntl_do cf fdes F_GETFD x fp k u1 = Some (k, u1, Inr (arg mod 2))
     \<and> fcntl_do cf fdes F_SETFL arg fp k u = Some (k1, u, Inr 0)
     \<and> (\<exists>y. fcntl_do cf fdes F_GETFL x fp k1 u = Some (k1, u, Inr y)
           \<and> word_of_int (y + 1) AND FFCNTL = word_of_int (arg + 1) AND FFCNTL \<and> word_of_int (y + 1) AND NOT FFCNTL = f_flag (fl k fp) AND NOT FFCNTL)"
proof -
  let ?u = "set_uf fdes (put_cloexec (word_of_int arg)) u"
  let ?w = "(f_flag (fl k fp) AND NOT FFCNTL) OR (word_of_int (arg + 1) AND FFCNTL)"
  let ?k = "set_fl fp (\<lambda>r. r\<lparr>f_flag := (f_flag r AND NOT FFCNTL) OR (word_of_int (arg + 1) AND FFCNTL)\<rparr>) k"
  have "(uf_flags (uf u fdes) AND NOT FD_CLOEXEC OR word_of_int arg AND FD_CLOEXEC) AND FD_CLOEXEC = word_of_int arg AND FD_CLOEXEC"
    by (rule bit_word_eqI) (auto simp: bit_simps)
  then have g: "uint (uf_flags (uf ?u fdes) AND FD_CLOEXEC) = arg mod 2"
  proof -
    assume e: "(uf_flags (uf u fdes) AND NOT FD_CLOEXEC OR word_of_int arg AND FD_CLOEXEC) AND FD_CLOEXEC = word_of_int arg AND FD_CLOEXEC"
    have "uint ((word_of_int arg :: 16 word) AND FD_CLOEXEC) = arg mod 2"
      by (simp add: FD_CLOEXEC_def and_one_eq uint_mod uint_word_of_int mod_mod_cancel)
    with e show ?thesis using uf_set_uf [OF assms(1)] by (simp add: put_cloexec_def)
  qed
  have y: "word_of_int (sint (?w + - 1) + 1) = ?w" by simp
  have f: "fl ?k fp = (fl k fp)\<lparr>f_flag := ?w\<rparr>" using fl_set_fl [OF assms(2)] by simp
  have b: "?w AND FFCNTL = word_of_int (arg + 1) AND FFCNTL" "?w AND NOT FFCNTL = f_flag (fl k fp) AND NOT FFCNTL"
    by (rule bit_word_eqI, auto simp: bit_simps)+
  show ?thesis using g y f b by (simp add: fcntl_do_def)
qed

end
