(* ===== verification/Uio.thy ===== *)
theory Uio
  imports Prelude
begin

text \<open>
  Moving bytes between a buffer of the kernel and the areas of a caller (\<open>src/bos/kernel/ios/uio.c\<close>), with the copies it calls:
  \<open>uiocopyin\<close> and \<open>uiocopyout\<close> (\<open>ml/POWER/copyx_ppc.s\<close>, \<open>vmm/POWER/vmmove.c\<close>), \<open>xmemin\<close> and \<open>xmemout\<close> (\<open>vmm/POWER/xmem.c\<close>), \<open>fubyte\<close> and
  \<open>subyte\<close> (\<open>vmm/POWER/userio.c\<close>). A \<open>struct uio\<close> is shown to be a sequence of addresses, from which \<open>uiomove\<close> takes the first.
\<close>

section \<open>Data\<close>

type_synonym byte = "8 word"

text \<open>The memory of the kernel that holds the buffer, and the one the caller's areas are in.\<close>

record memory =
  kmem :: "int \<Rightarrow> byte"
  umem :: "int \<Rightarrow> byte"

text \<open>
  What the hardware and the address space decide: the exception that an access to an address of the caller raises, as an error number,
  and whether an address can be reached through a cross-memory descriptor.
\<close>

record access =
  fault :: "int \<Rightarrow> errno option"
  attached :: "nat \<Rightarrow> int \<Rightarrow> bool"

record iovec =
  iov_base :: int
  iov_len :: int

datatype uio_seg = UIO_USERSPACE | UIO_SYSSPACE | UIO_USERISPACE | UIO_XMEM

datatype uio_rw = UIO_READ | UIO_WRITE

text \<open>\<open>uio_vec\<close> is the array that \<open>uio_iov\<close> points into; both pointers are indices.\<close>

record uio =
  uio_vec :: "iovec list"
  uio_iov :: nat
  uio_xmem :: nat
  uio_iovcnt :: int
  uio_iovdcnt :: int
  uio_offset :: int
  uio_resid :: int
  uio_segflg :: uio_seg
  uio_fmode :: "32 word"

text \<open>A return code: 0, an error number, or -1, which is \<open>XMEM_FAIL\<close>.\<close>

datatype urc = Uok | Uerr errno | Ufail

definition SEGSIZE :: int where "SEGSIZE = 0x10000000"

section \<open>Copies\<close>

definition copy_bytes :: "(int \<Rightarrow> byte) \<Rightarrow> int \<Rightarrow> int \<Rightarrow> int \<Rightarrow> (int \<Rightarrow> byte) \<Rightarrow> int \<Rightarrow> byte" where
  "copy_bytes src s d n dst = (\<lambda>a. if d \<le> a \<and> a < d + n then src (s + (a - d)) else dst a)"

definition first_fault :: "(int \<Rightarrow> bool) \<Rightarrow> int \<Rightarrow> int \<Rightarrow> int option" where
  "first_fault bad a n = map_option int (List.find (\<lambda>i. bad (a + int i)) [0..<nat n])"

text \<open>
  How many bytes \<open>uiocopyin\<close> and \<open>uiocopyout\<close> copy and what they return: up to the address that faults. More than a segment is cut to
  a segment, and then the return code is \<open>EFAULT\<close>. A negative count is returned as it came. The
  buffer of the kernel is taken to lie in one segment: \<open>vmcopyin\<close> and \<open>vmcopyout\<close> attach the wrong segment where both sides cross into another.
\<close>

definition uiocopy_count :: "access \<Rightarrow> int \<Rightarrow> int \<Rightarrow> int \<times> urc" where
  "uiocopy_count acc u n =
     (if n < 0 then (n, Uerr EINVAL)
      else case first_fault (\<lambda>a. fault acc a \<noteq> None) u (min n SEGSIZE) of
             Some i \<Rightarrow> (i, Uerr (the (fault acc (u + i))))
           | None \<Rightarrow> if n > SEGSIZE then (SEGSIZE, Uerr EFAULT) else (n, Uok))"

definition uiocopyout :: "access \<Rightarrow> int \<Rightarrow> int \<Rightarrow> int \<Rightarrow> memory \<Rightarrow> memory \<times> int \<times> urc" where
  "uiocopyout acc src dest n m =
     (let (c, rc) = uiocopy_count acc dest n in (m\<lparr>umem := copy_bytes (kmem m) src dest c (umem m)\<rparr>, c, rc))"

definition uiocopyin :: "access \<Rightarrow> int \<Rightarrow> int \<Rightarrow> int \<Rightarrow> memory \<Rightarrow> memory \<times> int \<times> urc" where
  "uiocopyin acc src dest n m =
     (let (c, rc) = uiocopy_count acc src n in (m\<lparr>kmem := copy_bytes (umem m) src dest c (kmem m)\<rparr>, c, rc))"

definition xmem_count :: "access \<Rightarrow> int \<Rightarrow> int \<Rightarrow> nat \<Rightarrow> int \<times> urc" where
  "xmem_count acc u n dp =
     (if n < 0 \<or> n > SEGSIZE then (0, Ufail)
      else case first_fault (\<lambda>a. \<not> attached acc dp a) u n of Some i \<Rightarrow> (i, Ufail) | None \<Rightarrow> (n, Uok))"

definition xmemout :: "access \<Rightarrow> int \<Rightarrow> int \<Rightarrow> int \<Rightarrow> nat \<Rightarrow> memory \<Rightarrow> memory \<times> urc" where
  "xmemout acc kaddr uaddr n dp m =
     (let (c, rc) = xmem_count acc uaddr n dp in (m\<lparr>umem := copy_bytes (kmem m) kaddr uaddr c (umem m)\<rparr>, rc))"

definition xmemin :: "access \<Rightarrow> int \<Rightarrow> int \<Rightarrow> int \<Rightarrow> nat \<Rightarrow> memory \<Rightarrow> memory \<times> urc" where
  "xmemin acc uaddr kaddr n dp m =
     (let (c, rc) = xmem_count acc uaddr n dp in (m\<lparr>kmem := copy_bytes (umem m) uaddr kaddr c (kmem m)\<rparr>, rc))"

text \<open>\<open>fubyte\<close> gives -1 on error, and a character is not signed; \<open>subyte\<close> says whether it could store.\<close>

definition fubyte :: "access \<Rightarrow> int \<Rightarrow> memory \<Rightarrow> int" where
  "fubyte acc src m = (if fault acc src = None then uint (umem m src) else -1)"

definition subyte :: "access \<Rightarrow> int \<Rightarrow> byte \<Rightarrow> memory \<Rightarrow> memory \<times> bool" where
  "subyte acc dest val m = (if fault acc dest = None then (m\<lparr>umem := (umem m)(dest := val)\<rparr>, True) else (m, False))"

section \<open>uiomove\<close>

abbreviation iov_now :: "uio \<Rightarrow> iovec" where "iov_now x \<equiv> uio_vec x ! uio_iov x"

definition next_iov :: "uio \<Rightarrow> uio" where
  "next_iov x = x\<lparr>uio_iovcnt := uio_iovcnt x - 1, uio_iov := uio_iov x + 1, uio_iovdcnt := uio_iovdcnt x + 1, uio_xmem := uio_xmem x + 1\<rparr>"

text \<open>What the four assignments after a copy do.\<close>

definition advance :: "int \<Rightarrow> uio \<Rightarrow> uio" where
  "advance c x = x\<lparr>uio_vec := upd (uio_vec x) (uio_iov x) (\<lambda>v. v\<lparr>iov_base := iov_base v + c, iov_len := iov_len v - c\<rparr>),
     uio_resid := uio_resid x - c, uio_offset := wrap64 (uio_offset x + c)\<rparr>"

text \<open>The copy into or out of the current area. \<open>xmemin\<close> and \<open>xmemout\<close> do not give back a count.\<close>

definition move_area :: "access \<Rightarrow> int \<Rightarrow> int \<Rightarrow> uio_rw \<Rightarrow> uio \<Rightarrow> memory \<Rightarrow> memory \<times> int \<times> urc" where
  "move_area acc cp cnt rw x m =
     (if uio_segflg x = UIO_XMEM
      then (let (m, rc) = (case rw of UIO_READ \<Rightarrow> xmemout acc cp (iov_base (iov_now x)) cnt (uio_xmem x) m
                                    | UIO_WRITE \<Rightarrow> xmemin acc (iov_base (iov_now x)) cp cnt (uio_xmem x) m)
            in (m, cnt, rc))
      else (case rw of UIO_READ \<Rightarrow> uiocopyout acc cp (iov_base (iov_now x)) cnt m
                     | UIO_WRITE \<Rightarrow> uiocopyin acc (iov_base (iov_now x)) cp cnt m))"

lemma uiocopy_count_ok: "uiocopy_count acc u n = (c, Uok) \<Longrightarrow> c = n"
  by (auto simp: uiocopy_count_def split: if_splits option.splits)

lemma move_area_ok: "move_area acc cp cnt rw x m = (m', c, Uok) \<Longrightarrow> c = cnt"
  by (auto simp: move_area_def uiocopyout_def uiocopyin_def uiocopy_count_ok split: if_splits uio_rw.splits prod.splits)

function uiomove_loop :: "access \<Rightarrow> int \<Rightarrow> int \<Rightarrow> uio_rw \<Rightarrow> uio \<Rightarrow> memory \<Rightarrow> urc \<Rightarrow> memory \<times> uio \<times> urc" where
  "uiomove_loop acc cp n rw x m rc =
     (if n > 0 \<and> uio_resid x \<noteq> 0 \<and> rc = Uok
      then if uio_iovcnt x \<le> 0 then (m, x, Uerr ENOMEM)
           else if iov_len (iov_now x) \<le> 0 then uiomove_loop acc cp n rw (next_iov x) m rc
           else (case move_area acc cp (min (iov_len (iov_now x)) n) rw x m of
                   (m, c, rc) \<Rightarrow> uiomove_loop acc (cp + c) (n - c) rw (advance c x) m rc)
      else (m, x, rc))"
  by pat_completeness auto
termination
  by (relation "measure (\<lambda>(acc, cp, n, rw, x, m, rc). if rc = Uok then Suc (nat n + nat (uio_iovcnt x)) else 0)")
    (auto simp: next_iov_def advance_def dest!: move_area_ok [OF sym])

declare uiomove_loop.simps [simp del]

text \<open>With one area there is no loop.\<close>

definition uiomove :: "access \<Rightarrow> int \<Rightarrow> int \<Rightarrow> uio_rw \<Rightarrow> uio \<Rightarrow> memory \<Rightarrow> memory \<times> uio \<times> urc" where
  "uiomove acc cp n rw x m =
     (if uio_resid x \<le> 0 then (m, x, Uerr ENOMEM)
      else if uio_iovcnt x = 1
      then if iov_len (iov_now x) \<le> 0 then (m, next_iov x, Uok)
           else (case move_area acc cp (min (iov_len (iov_now x)) n) rw x m of (m, c, rc) \<Rightarrow> (m, advance c x, rc))
      else uiomove_loop acc cp n rw x m Uok)"

section \<open>One character\<close>

text \<open>The loop at the head of \<open>ureadc\<close> and \<open>uwritec\<close>: past empty areas, and whether there is one that is not.\<close>

function find_area :: "uio \<Rightarrow> uio \<times> bool" where
  "find_area x = (if uio_iovcnt x \<le> 0 then (x, False) else if iov_len (iov_now x) > 0 then (x, True) else find_area (next_iov x))"
  by pat_completeness auto
termination by (relation "measure (\<lambda>x. nat (uio_iovcnt x))") (auto simp: next_iov_def)

declare find_area.simps [simp del]

definition ureadc :: "access \<Rightarrow> byte \<Rightarrow> uio \<Rightarrow> memory \<Rightarrow> memory \<times> uio \<times> urc" where
  "ureadc acc c x m =
     (if uio_resid x \<le> 0 then (m, x, Uerr ENOMEM)
      else case find_area x of
        (x, False) \<Rightarrow> (m, x, Uerr ENOMEM)
      | (x, True) \<Rightarrow>
          let a = iov_base (iov_now x);
              (m', stored) = (case uio_segflg x of
                 UIO_SYSSPACE \<Rightarrow> (m\<lparr>umem := (umem m)(a := c)\<rparr>, True)
               | UIO_XMEM \<Rightarrow> if attached acc (uio_xmem x) a then (m\<lparr>umem := (umem m)(a := c)\<rparr>, True) else (m, False)
               | _ \<Rightarrow> subyte acc a c m)
          in if stored then (m', advance 1 x, Uok) else (m', x, Uerr EFAULT))"

definition uwritec :: "access \<Rightarrow> uio \<Rightarrow> memory \<Rightarrow> uio \<times> int" where
  "uwritec acc x m =
     (if uio_resid x \<le> 0 then (x, -1)
      else case find_area x of
        (x, False) \<Rightarrow> (x, -1)
      | (x, True) \<Rightarrow>
          let a = iov_base (iov_now x);
              c = (case uio_segflg x of
                 UIO_SYSSPACE \<Rightarrow> uint (umem m a)
               | UIO_XMEM \<Rightarrow> if attached acc (uio_xmem x) a then uint (umem m a) else -1
               | _ \<Rightarrow> fubyte acc a m)
          in if c = -1 then (x, -1) else (advance 1 x, c))"

end
