(* ===== verification/UioProps.thy ===== *)
theory UioProps
  imports Uio
begin

text \<open>
  What the moves of theory \<open>Uio\<close> do to the areas of a caller, seen as one sequence of addresses: how far one goes and what it leaves,
  the short cut for one area, the calls for one character, and that what is moved out and in again is unchanged.
\<close>

section \<open>A uio is a sequence of addresses\<close>

definition area :: "iovec \<Rightarrow> int list" where
  "area v = map (\<lambda>i. iov_base v + int i) [0..<nat (iov_len v)]"

definition areas :: "uio \<Rightarrow> iovec list" where
  "areas x = take (nat (uio_iovcnt x)) (drop (uio_iov x) (uio_vec x))"

definition addrs :: "uio \<Rightarrow> int list" where
  "addrs x = concat (map area (areas x))"

definition uio_ok :: "uio \<Rightarrow> bool" where
  "uio_ok x \<longleftrightarrow> 0 \<le> uio_iovcnt x \<and> uio_iov x + nat (uio_iovcnt x) \<le> length (uio_vec x) \<and> (\<forall>v \<in> set (areas x). 0 \<le> iov_len v)
     \<and> uio_resid x = int (length (addrs x)) \<and> wrap64 (uio_offset x) = uio_offset x"

lemma length_area [simp]: "length (area v) = nat (iov_len v)"
  by (simp add: area_def)

lemma areas_now:
  assumes "uio_ok x" and "0 < uio_iovcnt x"
  shows "areas x = iov_now x # areas (next_iov x)"
proof -
  have i: "uio_iov x < length (uio_vec x)" "nat (uio_iovcnt x) = Suc (nat (uio_iovcnt x - 1))" using assms by (auto simp: uio_ok_def)
  have "drop (uio_iov x) (uio_vec x) = iov_now x # drop (Suc (uio_iov x)) (uio_vec x)" by (rule Cons_nth_drop_Suc [OF i(1), symmetric])
  then show ?thesis using i(2) unfolding areas_def next_iov_def by simp
qed

lemma addrs_now:
  assumes "uio_ok x" and "0 < uio_iovcnt x"
  shows "addrs x = area (iov_now x) @ addrs (next_iov x)"
  unfolding addrs_def areas_now [OF assms] by simp

lemma now_len:
  assumes "uio_ok x" and "0 < uio_iovcnt x"
  shows "0 \<le> iov_len (iov_now x)"
proof -
  have "iov_now x \<in> set (areas x)" unfolding areas_now [OF assms] by simp
  then show ?thesis using assms(1) by (simp add: uio_ok_def)
qed

lemma next_iov_ok:
  assumes "uio_ok x" and "0 < uio_iovcnt x" and "iov_len (iov_now x) \<le> 0"
  shows "uio_ok (next_iov x)" and "addrs (next_iov x) = addrs x"
proof -
  show a: "addrs (next_iov x) = addrs x" using addrs_now [OF assms(1,2)] assms(3) by (simp add: area_def)
  show "uio_ok (next_iov x)"
    using assms a areas_now [OF assms(1,2)] unfolding uio_ok_def by (auto simp: next_iov_def nat_diff_distrib')
qed

lemma more_areas: "uio_ok x \<Longrightarrow> uio_resid x \<noteq> 0 \<Longrightarrow> 0 < uio_iovcnt x"
  by (cases "uio_iovcnt x = 0") (auto simp: uio_ok_def addrs_def areas_def)

lemma areas_advance:
  assumes "uio_ok x" and "0 < uio_iovcnt x"
  shows "areas (advance c x) = (iov_now x)\<lparr>iov_base := iov_base (iov_now x) + c, iov_len := iov_len (iov_now x) - c\<rparr> # areas (next_iov x)"
proof -
  let ?v = "(iov_now x)\<lparr>iov_base := iov_base (iov_now x) + c, iov_len := iov_len (iov_now x) - c\<rparr>"
  have i: "uio_iov x < length (uio_vec x)" "nat (uio_iovcnt x) = Suc (nat (uio_iovcnt x - 1))" using assms by (auto simp: uio_ok_def)
  have "drop (uio_iov x) ((uio_vec x)[uio_iov x := ?v]) = ?v # drop (Suc (uio_iov x)) (uio_vec x)"
    using i(1) by (simp add: Cons_nth_drop_Suc [symmetric])
  then show ?thesis using i unfolding areas_def advance_def next_iov_def by (simp add: upd_def)
qed

lemma area_drop: "0 \<le> c \<Longrightarrow> c \<le> iov_len v \<Longrightarrow> area (v\<lparr>iov_base := iov_base v + c, iov_len := iov_len v - c\<rparr>) = drop (nat c) (area v)"
  unfolding area_def by (rule nth_equalityI) (auto simp: nat_diff_distrib')

lemma advance_ok:
  assumes "uio_ok x" and "0 < uio_iovcnt x" and "0 \<le> c" and "c \<le> iov_len (iov_now x)"
  shows "uio_ok (advance c x)" and "addrs (advance c x) = drop (nat c) (addrs x)"
proof -
  show a: "addrs (advance c x) = drop (nat c) (addrs x)"
    using areas_advance [OF assms(1,2)] addrs_now [OF assms(1,2)] assms(3,4) by (simp add: addrs_def area_drop)
  have "length (addrs x) \<ge> nat c" using addrs_now [OF assms(1,2)] assms(3,4) by simp
  then show "uio_ok (advance c x)"
    using assms a areas_advance [OF assms(1,2), of c] areas_now [OF assms(1,2)] unfolding uio_ok_def
    by (auto simp: advance_def)
qed

section \<open>Transfers\<close>

fun scatter :: "(int \<Rightarrow> byte) \<Rightarrow> int \<Rightarrow> int list \<Rightarrow> (int \<Rightarrow> byte) \<Rightarrow> int \<Rightarrow> byte" where
  "scatter k p [] u = u"
| "scatter k p (a # as) u = scatter k (p + 1) as (u(a := k p))"

fun gather :: "(int \<Rightarrow> byte) \<Rightarrow> int \<Rightarrow> int list \<Rightarrow> (int \<Rightarrow> byte) \<Rightarrow> int \<Rightarrow> byte" where
  "gather u p [] k = k"
| "gather u p (a # as) k = gather u (p + 1) as (k(p := u a))"

definition transfer :: "uio_rw \<Rightarrow> int \<Rightarrow> int list \<Rightarrow> memory \<Rightarrow> memory" where
  "transfer rw p as m = (case rw of UIO_READ \<Rightarrow> m\<lparr>umem := scatter (kmem m) p as (umem m)\<rparr> | UIO_WRITE \<Rightarrow> m\<lparr>kmem := gather (umem m) p as (kmem m)\<rparr>)"

lemma scatter_append: "scatter k p (as @ bs) u = scatter k (p + int (length as)) bs (scatter k p as u)"
  by (induction as arbitrary: p u) (auto simp: ac_simps)

lemma gather_append: "gather u p (as @ bs) k = gather u (p + int (length as)) bs (gather u p as k)"
  by (induction as arbitrary: p k) (auto simp: ac_simps)

lemma transfer_append: "transfer rw p (as @ bs) m = transfer rw (p + int (length as)) bs (transfer rw p as m)"
  by (simp add: transfer_def scatter_append gather_append split: uio_rw.split)

lemma transfer_Nil [simp]: "transfer rw p [] m = m"
  by (simp add: transfer_def split: uio_rw.split)

lemma copy_bytes_Suc: "copy_bytes s a d (int (Suc n)) t = (copy_bytes s a d (int n) t)(d + int n := s (a + int n))"
  by (auto simp: copy_bytes_def fun_eq_iff)

lemma copy_bytes_0 [simp]: "n \<le> 0 \<Longrightarrow> copy_bytes s a d n t = t"
  by (auto simp: copy_bytes_def fun_eq_iff)

lemma copy_scatter: "copy_bytes k p a (int n) u = scatter k p (map (\<lambda>i. a + int i) [0..<n]) u"
  by (induction n) (simp_all add: copy_bytes_Suc scatter_append del: of_nat_Suc)

lemma copy_gather: "copy_bytes u a p (int n) k = gather u p (map (\<lambda>i. a + int i) [0..<n]) k"
  by (induction n) (simp_all add: copy_bytes_Suc gather_append del: of_nat_Suc)

lemma take_area: "0 \<le> c \<Longrightarrow> c \<le> iov_len v \<Longrightarrow> take (nat c) (area v) = map (\<lambda>i. iov_base v + int i) [0..<nat c]"
  by (simp add: area_def take_map take_upt)

lemma first_fault_Some: "first_fault bad a n = Some i \<Longrightarrow> 0 \<le> i \<and> i < n \<and> bad (a + i) \<and> (\<forall>j. 0 \<le> j \<and> j < i \<longrightarrow> \<not> bad (a + j))"
  by (auto simp: first_fault_def find_Some_iff) (metis nat_0_le nat_less_iff)

lemma uiocopy_counts:
  assumes "uiocopy_count acc u n = (c, rc)" and "0 \<le> n"
  shows "0 \<le> c \<and> c \<le> n \<and> (rc = Uok \<longleftrightarrow> c = n) \<and> (rc \<noteq> Uok \<longrightarrow> (\<exists>e. rc = Uerr e \<and> (fault acc (u + c) = Some e \<or> c = SEGSIZE \<and> e = EFAULT)))"
  using assms by (auto simp: uiocopy_count_def SEGSIZE_def dest!: first_fault_Some split: if_splits option.splits)

lemma move_area_transfer:
  assumes "move_area acc cp n rw x m = (m', c, rc)" and "uio_segflg x \<noteq> UIO_XMEM" and "0 \<le> n" and "n \<le> iov_len (iov_now x)"
  shows "0 \<le> c \<and> c \<le> n \<and> m' = transfer rw cp (take (nat c) (area (iov_now x))) m \<and> (rc = Uok \<longleftrightarrow> c = n)
     \<and> (rc \<noteq> Uok \<longrightarrow> (\<exists>e. rc = Uerr e \<and> (fault acc (iov_base (iov_now x) + c) = Some e \<or> c = SEGSIZE \<and> e = EFAULT)))"
proof -
  from assms(1,2) have u: "uiocopy_count acc (iov_base (iov_now x)) n = (c, rc)"
    and m: "m' = (case rw of UIO_READ \<Rightarrow> m\<lparr>umem := copy_bytes (kmem m) cp (iov_base (iov_now x)) c (umem m)\<rparr>
       | UIO_WRITE \<Rightarrow> m\<lparr>kmem := copy_bytes (umem m) (iov_base (iov_now x)) cp c (kmem m)\<rparr>)"
    by (auto simp: move_area_def uiocopyout_def uiocopyin_def split: uio_rw.splits prod.splits)
  from uiocopy_counts [OF u assms(3)] have c: "0 \<le> c" "c \<le> n" by simp_all
  then have t: "take (nat c) (area (iov_now x)) = map (\<lambda>i. iov_base (iov_now x) + int i) [0..<nat c]" using assms(4) by (simp add: take_area)
  have "m' = transfer rw cp (take (nat c) (area (iov_now x))) m"
    using c copy_scatter [of "kmem m" cp "iov_base (iov_now x)" "nat c"] copy_gather [of "umem m" "iov_base (iov_now x)" cp "nat c"]
    unfolding m t transfer_def by (simp split: uio_rw.split)
  with uiocopy_counts [OF u assms(3)] show ?thesis by blast
qed


section \<open>uiomove\<close>

text \<open>A move of up to \<open>k\<close> bytes: \<open>c\<close> of them have gone, and the return code says why no more.\<close>

definition moved :: "access \<Rightarrow> int \<Rightarrow> nat \<Rightarrow> uio_rw \<Rightarrow> uio \<Rightarrow> memory \<Rightarrow> nat \<Rightarrow> memory \<times> uio \<times> urc \<Rightarrow> bool" where
  "moved acc cp k rw x m c r \<longleftrightarrow>
     (case r of (m', x', rc) \<Rightarrow> c \<le> k \<and> m' = transfer rw cp (take c (addrs x)) m \<and> uio_ok x' \<and> addrs x' = drop c (addrs x)
        \<and> uio_offset x' = wrap64 (uio_offset x + int c) \<and> uio_segflg x' = uio_segflg x \<and> (rc = Uok \<longleftrightarrow> c = k)
        \<and> (rc \<noteq> Uok \<longrightarrow> (\<exists>e. rc = Uerr e \<and> (fault acc (addrs x ! c) = Some e \<or> SEGSIZE \<le> int c \<and> e = EFAULT))))"

lemma moved_0: "uio_ok x \<Longrightarrow> moved acc cp 0 rw x m 0 (m, x, Uok)"
  by (simp add: moved_def uio_ok_def)

lemma moved_next: "uio_ok x \<Longrightarrow> 0 < uio_iovcnt x \<Longrightarrow> iov_len (iov_now x) \<le> 0 \<Longrightarrow> moved acc cp k rw (next_iov x) m c r = moved acc cp k rw x m c r"
  by (simp add: moved_def next_iov_ok(2)) (simp add: next_iov_def)

lemma moved_area:
  assumes "uio_ok x" and "0 < uio_iovcnt x" and "move_area acc cp n rw x m = (m', c, rc)" and "uio_segflg x \<noteq> UIO_XMEM" and "0 \<le> n" and "n \<le> iov_len (iov_now x)"
  shows "moved acc cp (nat n) rw x m (nat c) (m', advance c x, rc)"
proof -
  note t = move_area_transfer [OF assms(3-6)] and a = addrs_now [OF assms(1,2)]
  then have c: "0 \<le> c" "c \<le> iov_len (iov_now x)" using assms(6) by auto
  have "take (nat c) (addrs x) = take (nat c) (area (iov_now x))" using a c by simp
  moreover have "fault acc (iov_base (iov_now x) + c) = fault acc (addrs x ! nat c)" if "c \<noteq> n"
    using a c t that assms(6) by (simp add: nth_append area_def)
  ultimately show ?thesis
    using t advance_ok [OF assms(1,2) c] c(1) unfolding moved_def by (auto simp: advance_def nat_eq_iff2)
qed

lemma moved_more:
  assumes "moved acc cp k rw x m k (m1, x1, Uok)" and "k \<le> length (addrs x)" and "moved acc (cp + int k) j rw x1 m1 c r"
  shows "moved acc cp (k + j) rw x m (k + c) r"
proof -
  obtain m' x' rc where r: "r = (m', x', rc)" by (cases r)
  from assms(1) have x1: "m1 = transfer rw cp (take k (addrs x)) m" "addrs x1 = drop k (addrs x)"
    "uio_offset x1 = wrap64 (uio_offset x + int k)" "uio_segflg x1 = uio_segflg x" by (simp_all add: moved_def)
  have "transfer rw (cp + int k) (take c (addrs x1)) m1 = transfer rw cp (take (k + c) (addrs x)) m"
    unfolding x1 take_add by (subst transfer_append) (use assms(2) in simp)
  then show ?thesis
    using assms(2,3) unfolding r moved_def by (auto simp: x1 wrap64_add' ac_simps)
qed

lemma uiomove_loop_moved:
  assumes "uio_ok x" and "uio_segflg x \<noteq> UIO_XMEM" and "0 \<le> n"
  shows "\<exists>c. moved acc cp (nat (min n (uio_resid x))) rw x m c (uiomove_loop acc cp n rw x m Uok)"
  using assms
proof (induction acc cp n rw x m "Uok" rule: uiomove_loop.induct)
  case (1 acc cp n rw x m)
  let ?k = "nat (min n (uio_resid x))"
  note ok = \<open>uio_ok x\<close>
  consider "\<not> (n > 0 \<and> uio_resid x \<noteq> 0)" | "n > 0" "uio_resid x \<noteq> 0" "iov_len (iov_now x) \<le> 0" | "n > 0" "uio_resid x \<noteq> 0" "0 < iov_len (iov_now x)"
    by linarith
  then show ?case
  proof cases
    case 1
    then have "?k = 0" using \<open>0 \<le> n\<close> by (auto simp: min_def)
    then show ?thesis using 1 moved_0 [OF ok, of acc cp rw m] by (intro exI [of _ 0], subst uiomove_loop.simps) auto
  next
    case 2
    have i: "0 < uio_iovcnt x" using 2 ok by (simp add: more_areas)
    from "1.hyps"(1) [OF _ _ 2(3)] 2 i next_iov_ok(1) [OF ok i 2(3)] 1(4,5)
    obtain c where "moved acc cp (nat (min n (uio_resid (next_iov x)))) rw (next_iov x) m c (uiomove_loop acc cp n rw (next_iov x) m Uok)"
      by (auto simp: next_iov_def)
    then have "moved acc cp ?k rw x m c (uiomove_loop acc cp n rw (next_iov x) m Uok)"
      using moved_next [OF ok i 2(3)] by (simp add: next_iov_def)
    then show ?thesis using 2 i by (subst uiomove_loop.simps) auto
  next
    case 3
    have i: "0 < uio_iovcnt x" using 3 ok by (simp add: more_areas)
    let ?n = "min (iov_len (iov_now x)) n"
    obtain m1 c1 rc1 where a: "move_area acc cp ?n rw x m = (m1, c1, rc1)" by (cases "move_area acc cp ?n rw x m")
    have n: "0 < ?n" "?n \<le> iov_len (iov_now x)" "?n \<le> n" using 3 by simp_all
    note d = moved_area [OF ok i a 1(4) _ n(2)]
    have len: "int (length (area (iov_now x))) \<le> uio_resid x" using addrs_now [OF ok i] ok by (simp add: uio_ok_def)
    then have k: "nat ?n \<le> ?k" using n by auto
    have r: "uiomove_loop acc cp n rw x m Uok = uiomove_loop acc (cp + c1) (n - c1) rw (advance c1 x) m1 rc1"
      using 3 i a by (subst uiomove_loop.simps) simp
    show ?thesis
    proof (cases "rc1 = Uok")
      case True
      then have c1: "c1 = ?n" using move_area_ok a by blast
      have d: "moved acc cp (nat c1) rw x m (nat c1) (m1, advance c1 x, Uok)" using d n(1) True c1 by simp
      have "\<exists>c. moved acc (cp + c1) (nat (min (n - c1) (uio_resid (advance c1 x)))) rw (advance c1 x) m1 c (uiomove_loop acc (cp + c1) (n - c1) rw (advance c1 x) m1 Uok)"
        by (rule "1.hyps"(2)) (use 3 i a True c1 n 1(4) advance_ok(1) [OF ok i, of c1] in \<open>auto simp: advance_def\<close>)
      then obtain c where c: "moved acc (cp + c1) (nat (min (n - c1) (uio_resid (advance c1 x)))) rw (advance c1 x) m1 c (uiomove_loop acc (cp + c1) (n - c1) rw (advance c1 x) m1 Uok)" ..
      have "uio_resid (advance c1 x) = uio_resid x - c1" by (simp add: advance_def)
      then have s: "?k = nat c1 + nat (min (n - c1) (uio_resid (advance c1 x)))" using c1 n k by (auto simp: min_def)
      have "nat c1 \<le> length (addrs x)" using len c1 n ok by (simp add: uio_ok_def)
      from moved_more [OF d this, of _ c "uiomove_loop acc (cp + c1) (n - c1) rw (advance c1 x) m1 Uok"] c show ?thesis
        unfolding s r True using c1 n(1) by auto
    next
      case False
      then have e: "uiomove_loop acc (cp + c1) (n - c1) rw (advance c1 x) m1 rc1 = (m1, advance c1 x, rc1)" by (subst uiomove_loop.simps) simp
      have "moved acc cp ?k rw x m (nat c1) (m1, advance c1 x, rc1)" using d n(1) False k unfolding moved_def by auto
      then show ?thesis unfolding r e by blast
    qed
  qed
qed


lemma one_area:
  assumes "uio_ok x" and "uio_iovcnt x = 1"
  shows "uio_resid x = iov_len (iov_now x)" and "addrs x = area (iov_now x)"
proof -
  have "addrs (next_iov x) = []" using assms(2) by (simp add: addrs_def areas_def next_iov_def)
  with addrs_now [OF assms(1)] assms(2) show a: "addrs x = area (iov_now x)" by simp
  with now_len [OF assms(1)] assms show "uio_resid x = iov_len (iov_now x)" by (simp add: uio_ok_def)
qed

lemma uiomove_moved:
  assumes "uio_ok x" and "uio_segflg x \<noteq> UIO_XMEM" and "0 \<le> n" and "0 < uio_resid x"
  shows "\<exists>c. moved acc cp (nat (min n (uio_resid x))) rw x m c (uiomove acc cp n rw x m)"
proof (cases "uio_iovcnt x = 1")
  case True
  note r = one_area [OF assms(1) True]
  let ?n = "min (iov_len (iov_now x)) n"
  obtain m' c rc where a: "move_area acc cp ?n rw x m = (m', c, rc)" by (cases "move_area acc cp ?n rw x m")
  have "moved acc cp (nat ?n) rw x m (nat c) (m', advance c x, rc)" by (rule moved_area [OF assms(1) _ a assms(2)]) (use True assms(3,4) r in auto)
  then show ?thesis using True assms(4) r a by (auto simp: uiomove_def min.commute)
next
  case False
  with uiomove_loop_moved [OF assms(1-3)] assms(4) show ?thesis by (simp add: uiomove_def)
qed

section \<open>Properties\<close>

text \<open>A caller with three areas, one of them empty, whose memory ends at 1000, and a kernel buffer with the numbers of its addresses.\<close>

definition ex_acc :: access where
  "ex_acc = \<lparr>fault = (\<lambda>a. if 1000 \<le> a then Some EFAULT else None), attached = (\<lambda>dp a. a < 1000)\<rparr>"

definition ex_uio :: uio where
  "ex_uio = \<lparr>uio_vec = [\<lparr>iov_base = 100, iov_len = 2\<rparr>, \<lparr>iov_base = 50, iov_len = 0\<rparr>, \<lparr>iov_base = 998, iov_len = 4\<rparr>], uio_iov = 0, uio_xmem = 0,
     uio_iovcnt = 3, uio_iovdcnt = 0, uio_offset = 7, uio_resid = 6, uio_segflg = UIO_USERSPACE, uio_fmode = 1\<rparr>"

definition ex_mem :: memory where
  "ex_mem = \<lparr>kmem = (\<lambda>a. word_of_int a), umem = (\<lambda>a. 0)\<rparr>"

lemma ex_uio_ok: "uio_ok ex_uio" "addrs ex_uio = [100, 101, 998, 999, 1000, 1001]"
  by code_simp+

text \<open>
  C33. In all modes but \<open>UIO_XMEM\<close>, \<open>uiomove\<close> sees the areas of a caller as one sequence of addresses. It moves the first \<open>c\<close> bytes between the buffer and that sequence and
  leaves the rest as the new areas; it moves all that was asked and there is room for, or it returns the error of the address it stopped at
  (or \<open>EFAULT\<close> where an area is larger than a segment). The offset grows by what was moved. With \<open>UIO_XMEM\<close> that is not so: there
  the areas, the count and the offset go on by the whole length also where the copy failed.
\<close>

theorem uiomove_refines:
  assumes "uio_ok x" and "uio_segflg x \<noteq> UIO_XMEM" and "0 \<le> n" and "0 < uio_resid x"
  shows "case uiomove acc cp n rw x m of (m', x', rc) \<Rightarrow>
     \<exists>c. int c \<le> min n (uio_resid x) \<and> m' = transfer rw cp (take c (addrs x)) m \<and> uio_ok x' \<and> addrs x' = drop c (addrs x)
        \<and> uio_offset x' = wrap64 (uio_offset x + int c) \<and> (rc = Uok \<longleftrightarrow> int c = min n (uio_resid x))
        \<and> (rc \<noteq> Uok \<longrightarrow> (\<exists>e. rc = Uerr e \<and> (fault acc (addrs x ! c) = Some e \<or> SEGSIZE \<le> int c \<and> e = EFAULT)))"
proof -
  obtain c where c: "moved acc cp (nat (min n (uio_resid x))) rw x m c (uiomove acc cp n rw x m)" using uiomove_moved [OF assms] by blast
  have "int c \<le> min n (uio_resid x) \<longleftrightarrow> c \<le> nat (min n (uio_resid x))" "int c = min n (uio_resid x) \<longleftrightarrow> c = nat (min n (uio_resid x))"
    using assms(3,4) by linarith+
  with c show ?thesis unfolding moved_def by (auto split: prod.splits)
qed

theorem uiomove_refines_witness:
  "\<exists>m' x'. uiomove ex_acc 20 10 UIO_READ ex_uio ex_mem = (m', x', Uerr EFAULT) \<and> addrs x' = [1000, 1001] \<and> m' = transfer UIO_READ 20 [100, 101, 998, 999] ex_mem"
proof -
  obtain m' x' rc where r: "uiomove ex_acc 20 10 UIO_READ ex_uio ex_mem = (m', x', rc)" by (cases "uiomove ex_acc 20 10 UIO_READ ex_uio ex_mem")
  have "case uiomove ex_acc 20 10 UIO_READ ex_uio ex_mem of (m', x', rc) \<Rightarrow> rc = Uerr EFAULT \<and> uio_resid x' = 2" by code_simp
  then have e: "rc = Uerr EFAULT" "uio_resid x' = 2" using r by simp_all
  from uiomove_refines [where x = ex_uio and n = 10 and acc = ex_acc and cp = 20 and rw = UIO_READ and m = ex_mem] ex_uio_ok r
  obtain c where c: "m' = transfer UIO_READ 20 (take c (addrs ex_uio)) ex_mem" "addrs x' = drop c (addrs ex_uio)" "uio_ok x'" "c \<le> 6"
    by (auto simp: ex_uio_def)
  have "c = 4" using c(2,3,4) e(2) by (simp add: uio_ok_def ex_uio_ok(2))
  with c e r show ?thesis by (simp add: ex_uio_ok(2))
qed

lemma find_area_ok:
  assumes "uio_ok x" and "0 < uio_resid x"
  shows "\<exists>y. find_area x = (y, True) \<and> uio_ok y \<and> 0 < uio_iovcnt y \<and> 0 < iov_len (iov_now y) \<and> uio_resid y = uio_resid x \<and> uio_segflg y = uio_segflg x
     \<and> uiomove_loop acc cp 1 rw x m Uok = uiomove_loop acc cp 1 rw y m Uok"
  using assms
proof (induction x rule: find_area.induct)
  case (1 x)
  have i: "0 < uio_iovcnt x" using 1(2,3) by (simp add: more_areas)
  show ?case
  proof (cases "0 < iov_len (iov_now x)")
    case True
    then show ?thesis using 1 i by (subst find_area.simps) simp
  next
    case False
    then have f: "find_area x = find_area (next_iov x)" using i by (subst find_area.simps) simp
    have g: "uiomove_loop acc cp 1 rw x m Uok = uiomove_loop acc cp 1 rw (next_iov x) m Uok"
      using False i 1(3) by (subst uiomove_loop.simps) simp
    have "uio_ok (next_iov x)" "0 < uio_resid (next_iov x)" using next_iov_ok(1) [OF 1(2) i] False 1(3) by (auto simp: next_iov_def)
    from 1(1) [OF _ False this] i show ?thesis unfolding f g by (simp add: next_iov_def)
  qed
qed

lemma advance_0: "uio_ok x \<Longrightarrow> advance 0 x = x"
  by (simp add: advance_def upd_def uio_ok_def)

lemma first_fault_1: "first_fault bad a 1 = (if bad a then Some 0 else None)"
  by (simp add: first_fault_def)

lemma copy_bytes_1: "copy_bytes s a d 1 t = t(d := s a)"
  using copy_bytes_Suc [of s a d 0 t] by simp

lemma move_one:
  assumes "uio_ok x" and "0 < uio_iovcnt x" and "0 < iov_len (iov_now x)" and "uio_resid x \<noteq> 0" and "uio_segflg x \<noteq> UIO_XMEM"
  shows "uiomove_loop acc cp 1 rw x m Uok =
    (let a = iov_base (iov_now x) in
     case fault acc a of
       Some e \<Rightarrow> (m, x, Uerr e)
     | None \<Rightarrow> ((case rw of UIO_READ \<Rightarrow> m\<lparr>umem := (umem m)(a := kmem m cp)\<rparr> | UIO_WRITE \<Rightarrow> m\<lparr>kmem := (kmem m)(cp := umem m a)\<rparr>), advance 1 x, Uok))"
proof -
  let ?a = "iov_base (iov_now x)"
  have n: "min (iov_len (iov_now x)) 1 = 1" "(1 :: int) \<le> SEGSIZE" using assms(3) by (simp_all add: SEGSIZE_def)
  have c: "uiocopy_count acc ?a 1 = (case fault acc ?a of Some e \<Rightarrow> (0, Uerr e) | None \<Rightarrow> (1, Uok))"
    using n(2) by (auto simp: uiocopy_count_def first_fault_1 split: option.split)
  have m: "move_area acc cp 1 rw x m = (case fault acc ?a of Some e \<Rightarrow> (m, 0, Uerr e)
     | None \<Rightarrow> ((case rw of UIO_READ \<Rightarrow> m\<lparr>umem := (umem m)(?a := kmem m cp)\<rparr> | UIO_WRITE \<Rightarrow> m\<lparr>kmem := (kmem m)(cp := umem m ?a)\<rparr>), 1, Uok))"
    using assms(5) by (auto simp: move_area_def uiocopyout_def uiocopyin_def c copy_bytes_1 split: option.split uio_rw.split)
  have "uiomove_loop acc cp 1 rw x m Uok = (case move_area acc cp 1 rw x m of (m, c, rc) \<Rightarrow> uiomove_loop acc (cp + c) (1 - c) rw (advance c x) m rc)"
    using assms n(1) by (subst uiomove_loop.simps) simp
  then show ?thesis unfolding m by (auto simp: Let_def advance_0 [OF assms(1)] uiomove_loop.simps split: option.split)
qed

lemma uiomove_loop_short:
  assumes "uio_ok x" and "0 \<le> n" and "0 < uio_resid x"
  shows "uiomove acc cp n rw x m = uiomove_loop acc cp n rw x m Uok"
proof (cases "uio_iovcnt x = 1")
  case True
  note r = one_area [OF assms(1) True]
  let ?n = "min (iov_len (iov_now x)) n"
  obtain m' c rc where a: "move_area acc cp ?n rw x m = (m', c, rc)" by (cases "move_area acc cp ?n rw x m")
  have f: "uiomove acc cp n rw x m = (m', advance c x, rc)" using True assms(3) r a by (simp add: uiomove_def)
  show ?thesis
  proof (cases "n = 0")
    case n: True
    have "first_fault bad u 0 = None" for bad u by (simp add: first_fault_def)
    then have "m' = m" "c = 0" "rc = Uok" using a n r assms(3)
      by (auto simp: move_area_def uiocopyout_def uiocopyin_def uiocopy_count_def xmemout_def xmemin_def xmem_count_def SEGSIZE_def split: uio_rw.splits if_splits)
    then show ?thesis unfolding f using n advance_0 [OF assms(1)] by (subst uiomove_loop.simps) simp
  next
    case False
    then have l: "uiomove_loop acc cp n rw x m Uok = uiomove_loop acc (cp + c) (n - c) rw (advance c x) m' rc"
      using True assms(2,3) r a by (subst uiomove_loop.simps) simp
    have "rc = Uok \<Longrightarrow> n - c \<le> 0 \<or> uio_resid (advance c x) = 0" using move_area_ok [of acc cp ?n rw x m m' c] a r by (auto simp: advance_def min_def split: if_splits)
    then show ?thesis unfolding f l by (subst uiomove_loop.simps) auto
  qed
qed (use assms in \<open>simp add: uiomove_def\<close>)

text \<open>
  C35. The short cut of \<open>uiomove\<close> for a caller with one area does what the loop over the areas would do.
\<close>

theorem uiomove_fast_path:
  assumes "uio_ok x" and "0 \<le> n" and "0 < uio_resid x"
  shows "uiomove acc cp n rw x m = uiomove_loop acc cp n rw x m Uok"
  by (rule uiomove_loop_short [OF assms])

definition ex_one :: uio where
  "ex_one = ex_uio\<lparr>uio_iov := 2, uio_iovcnt := 1, uio_resid := 4\<rparr>"

theorem uiomove_fast_path_witness:
  "uiomove ex_acc 20 3 UIO_READ ex_one ex_mem = uiomove_loop ex_acc 20 3 UIO_READ ex_one ex_mem Uok
     \<and> snd (snd (uiomove ex_acc 20 3 UIO_READ ex_one ex_mem)) = Uerr EFAULT"
proof -
  have "uio_ok ex_one" "0 < uio_resid ex_one" "snd (snd (uiomove ex_acc 20 3 UIO_READ ex_one ex_mem)) = Uerr EFAULT" by code_simp+
  with uiomove_fast_path [where x = ex_one and n = 3 and acc = ex_acc and cp = 20 and rw = UIO_READ and m = ex_mem] show ?thesis by simp
qed

text \<open>
  A character at a time is the same as a move of one byte: \<open>ureadc\<close> and \<open>uwritec\<close> change the memory and the areas as \<open>uiomove\<close> does, and
  fail where it fails.
\<close>

lemma characters_are_moves:
  assumes "uio_ok x" and "0 < uio_resid x" and "uio_segflg x = UIO_USERSPACE \<or> uio_segflg x = UIO_USERISPACE"
  shows "ureadc acc (kmem m cp) x m = (case uiomove acc cp 1 UIO_READ x m of (m', x', rc) \<Rightarrow> (m', x', if rc = Uok then Uok else Uerr EFAULT))
     \<and> uwritec acc x m = (case uiomove acc cp 1 UIO_WRITE x m of (m', x', rc) \<Rightarrow> (x', if rc = Uok then uint (kmem m' cp) else -1))"
proof -
  have f: "uiomove acc cp 1 rw x m = uiomove_loop acc cp 1 rw x m Uok" for rw by (rule uiomove_loop_short [OF assms(1) _ assms(2)]) simp
  obtain y where y: "find_area x = (y, True)" "uio_ok y" "0 < uio_iovcnt y" "0 < iov_len (iov_now y)" "uio_resid y = uio_resid x" "uio_segflg y = uio_segflg x"
    using find_area_ok [OF assms(1,2), of acc cp UIO_READ m] by fast
  have l: "uiomove_loop acc cp 1 rw x m Uok = uiomove_loop acc cp 1 rw y m Uok" for rw using find_area_ok [OF assms(1,2), of acc cp rw m] y(1) by auto
  have u: "uint (w :: byte) \<noteq> -1" for w
  proof -
    have "0 \<le> uint w" by simp
    then show ?thesis by linarith
  qed
  have "uiomove_loop acc cp 1 rw y m Uok =
    (let a = iov_base (iov_now y) in
     case fault acc a of
       Some e \<Rightarrow> (m, y, Uerr e)
     | None \<Rightarrow> ((case rw of UIO_READ \<Rightarrow> m\<lparr>umem := (umem m)(a := kmem m cp)\<rparr> | UIO_WRITE \<Rightarrow> m\<lparr>kmem := (kmem m)(cp := umem m a)\<rparr>), advance 1 y, Uok))" for rw
    by (rule move_one) (use y assms(2,3) in auto)
  then show ?thesis
    using assms(2,3) y u unfolding f l ureadc_def uwritec_def by (auto simp: Let_def subyte_def fubyte_def split: option.split)
qed

lemma characters_are_moves_witness:
  "ureadc ex_acc 33 ex_uio ex_mem = (case uiomove ex_acc 33 1 UIO_READ ex_uio ex_mem of (m', x', rc) \<Rightarrow> (m', x', if rc = Uok then Uok else Uerr EFAULT))
     \<and> uwritec ex_acc ex_uio ex_mem = (advance 1 ex_uio, 0)"
proof -
  have "uio_resid ex_uio = 6" "uio_segflg ex_uio = UIO_USERSPACE" "kmem ex_mem 33 = 33" by (simp_all add: ex_uio_def ex_mem_def)
  moreover have "snd (uwritec ex_acc ex_uio ex_mem) = 0" "fst (uwritec ex_acc ex_uio ex_mem) = advance 1 ex_uio" by code_simp+
  ultimately have e: "uwritec ex_acc ex_uio ex_mem = (advance 1 ex_uio, 0)" and k: "kmem ex_mem 33 = 33"
    and c: "0 < uio_resid ex_uio" "uio_segflg ex_uio = UIO_USERSPACE \<or> uio_segflg ex_uio = UIO_USERISPACE" by (simp_all add: prod_eq_iff)
  show ?thesis by (rule conjI [OF conjunct1 [OF characters_are_moves [OF ex_uio_ok(1) c, of ex_acc ex_mem 33, unfolded k]] e])
qed

lemma scatter_other: "a \<notin> set as \<Longrightarrow> scatter k p as u a = u a"
  by (induction as arbitrary: p u) auto

lemma scatter_nth: "distinct as \<Longrightarrow> i < length as \<Longrightarrow> scatter k p as u (as ! i) = k (p + int i)"
  by (induction as arbitrary: p u i) (auto simp: nth_Cons scatter_other ac_simps split: nat.split)

lemma gather_before: "a < p \<Longrightarrow> gather u p as k a = k a"
  by (induction as arbitrary: p k) auto

lemma gather_nth: "i < length as \<Longrightarrow> gather u p as k (p + int i) = u (as ! i)"
proof (induction as arbitrary: p k i)
  case (Cons a as)
  show ?case
  proof (cases i)
    case 0
    then show ?thesis using gather_before [of p "p + 1" u as] by simp
  next
    case (Suc j)
    then show ?thesis using Cons.IH [of j "p + 1"] Cons.prems by (simp add: ac_simps)
  qed
qed simp

lemma uiomove_all:
  assumes "uio_ok x" and "uio_segflg x \<noteq> UIO_XMEM" and "0 \<le> n" and "0 < uio_resid x" and "uio_resid x \<le> SEGSIZE" and "\<forall>a \<in> set (addrs x). fault acc a = None"
  shows "\<exists>x'. uiomove acc cp n rw x m = (transfer rw cp (take (nat n) (addrs x)) m, x', Uok)"
proof -
  obtain c where c: "moved acc cp (nat (min n (uio_resid x))) rw x m c (uiomove acc cp n rw x m)" using uiomove_moved [OF assms(1-4)] by blast
  have len: "length (addrs x) = nat (uio_resid x)" using assms(1) by (simp add: uio_ok_def)
  have "c = nat (min n (uio_resid x))"
  proof (rule ccontr)
    assume n: "c \<noteq> nat (min n (uio_resid x))"
    with c have l: "c < length (addrs x)" "int c < SEGSIZE" using len assms(5) by (auto simp: moved_def split: prod.splits)
    then have "fault acc (addrs x ! c) = None" using assms(6) by simp
    with c n l show False by (auto simp: moved_def split: prod.splits)
  qed
  moreover have "take (nat (min n (uio_resid x))) (addrs x) = take (nat n) (addrs x)" using len by (auto simp: min_def)
  ultimately show ?thesis using c by (auto simp: moved_def split: prod.splits)
qed

text \<open>
  C34. What was given to a caller comes back: bytes that \<open>uiomove\<close> has put into the areas of a caller, and then takes from them, are the ones of the
  buffer they came from, if the mode is not \<open>UIO_XMEM\<close> and the areas are accessible, do not overlap and are together no larger than a segment.
\<close>

theorem uiomove_roundtrip:
  assumes "uio_ok x" and "uio_segflg x \<noteq> UIO_XMEM" and "0 \<le> n" and "0 < uio_resid x" and "uio_resid x \<le> SEGSIZE"
    and "\<forall>a \<in> set (addrs x). fault acc a = None" and "distinct (addrs x)"
  shows "case uiomove acc cp n UIO_READ x m of (m1, x1, rc1) \<Rightarrow> case uiomove acc cp' n UIO_WRITE x m1 of (m2, x2, rc2) \<Rightarrow>
     rc1 = Uok \<and> rc2 = Uok \<and> (\<forall>i. 0 \<le> i \<and> i < min n (uio_resid x) \<longrightarrow> kmem m2 (cp' + i) = kmem m (cp + i))"
proof -
  let ?as = "take (nat n) (addrs x)"
  obtain x1 where 1: "uiomove acc cp n UIO_READ x m = (transfer UIO_READ cp ?as m, x1, Uok)" using uiomove_all [OF assms(1-6)] by blast
  obtain x2 where 2: "uiomove acc cp' n UIO_WRITE x (transfer UIO_READ cp ?as m) = (transfer UIO_WRITE cp' ?as (transfer UIO_READ cp ?as m), x2, Uok)"
    using uiomove_all [OF assms(1-6)] by blast
  have "kmem (transfer UIO_WRITE cp' ?as (transfer UIO_READ cp ?as m)) (cp' + i) = kmem m (cp + i)" if i: "0 \<le> i" "i < min n (uio_resid x)" for i
  proof -
    have l: "nat i < length ?as" using i assms(1) by (simp add: uio_ok_def nat_less_iff)
    have "gather (scatter (kmem m) cp ?as (umem m)) cp' ?as (kmem m) (cp' + int (nat i)) = kmem m (cp + int (nat i))"
      unfolding gather_nth [OF l] by (rule scatter_nth) (use assms(7) l in simp_all)
    then show ?thesis using i(1) by (simp add: transfer_def)
  qed
  then show ?thesis by (simp add: 1 2)
qed

theorem uiomove_roundtrip_witness:
  "case uiomove ex_acc 20 2 UIO_READ (ex_uio\<lparr>uio_iovcnt := 1, uio_resid := 2\<rparr>) ex_mem of (m1, x1, rc1) \<Rightarrow>
     case uiomove ex_acc 500 2 UIO_WRITE (ex_uio\<lparr>uio_iovcnt := 1, uio_resid := 2\<rparr>) m1 of (m2, x2, rc2) \<Rightarrow> rc2 = Uok \<and> kmem m2 501 = 21"
proof -
  let ?x = "ex_uio\<lparr>uio_iovcnt := 1, uio_resid := 2\<rparr>"
  have "case uiomove ex_acc 20 2 UIO_READ ?x ex_mem of (m1, x1, rc1) \<Rightarrow> case uiomove ex_acc 500 2 UIO_WRITE ?x m1 of (m2, x2, rc2) \<Rightarrow>
     rc1 = Uok \<and> rc2 = Uok \<and> (\<forall>i. 0 \<le> i \<and> i < min 2 (uio_resid ?x) \<longrightarrow> kmem m2 (500 + i) = kmem ex_mem (20 + i))"
  proof (rule uiomove_roundtrip)
    have a: "addrs ?x = [100, 101]" by code_simp
    show "uio_ok ?x" by code_simp
    show "\<forall>a \<in> set (addrs ?x). fault ex_acc a = None" "distinct (addrs ?x)" unfolding a by (simp_all add: ex_acc_def)
  qed (simp_all add: ex_uio_def SEGSIZE_def)
  then show ?thesis by (auto simp: ex_mem_def split: prod.splits dest!: spec [of _ 1])
qed

end
