(* ===== verification/Rdwr.thy ===== *)
theory Rdwr
  imports FdServices UioProps
begin

text \<open>
  Reading, writing and seeking (\<open>src/bos/kernel/lfs/rdwr.c\<close>, \<open>lfs/seek.c\<close>, \<open>vno_rw\<close> of \<open>lfs/vno_fops.c\<close>) on the open files of theory \<open>FdSys\<close>. A call is
  \<open>use_begin\<close>, which takes the descriptor, any steps of other threads, and then its end here: the transfer and \<open>ufdrele\<close>. What lies below a file, the
  table of operations and the vnodes, is a parameter; \<open>'w\<close> is the rest of the world, memory included.
\<close>

section \<open>Parameters\<close>

datatype vtype = VNON | VREG | VDIR | VBLK | VCHR | VLNK | VSOCK | VBAD | VFIFO | VMPC

text \<open>The return code of a file operation; the last is \<open>EAGAIN | (1 << 31)\<close>, with which streams ask that \<open>EAGAIN\<close> be returned.\<close>

datatype io_rc = Iok | Ierr errno | Istreams

text \<open>
  \<open>fo_rw\<close> of a table of file operations: the areas that are left, with the offset in them, the new \<open>f_dir_off\<close>, the return code and
  the world. The file is passed as it is when the call is made.
\<close>

type_synonym 'w fo_rw = "nat option \<Rightarrow> open_file \<Rightarrow> uio_rw \<Rightarrow> uio \<Rightarrow> int \<Rightarrow> 'w \<Rightarrow> uio \<times> int \<times> io_rc \<times> 'w"

definition FNDELAY :: "32 word" where "FNDELAY = 0x8000"
definition FKERNEL :: "32 word" where "FKERNEL = 0x40000000"
definition DTYPE_SOCKET :: int where "DTYPE_SOCKET = 2"
definition IOV_MAX :: int where "IOV_MAX = 16"
definition OFF_MAX :: int where "OFF_MAX = 0x7fffffff"
definition DEV_OFF_MAX :: int where "DEV_OFF_MAX = 0xffffffffff"

section \<open>rwuio\<close>

text \<open>The loop that adds up the areas.\<close>

fun sum_resid :: "iovec list \<Rightarrow> int \<Rightarrow> int option" where
  "sum_resid [] r = Some r"
| "sum_resid (v # vs) r =
     (if iov_len v < 0 then None
      else let r = wrap32 (r + iov_len v) in if r < 0 then None else sum_resid vs r)"

definition may_rw :: "uio_rw \<Rightarrow> open_file \<Rightarrow> bool" where
  "may_rw rw fp \<longleftrightarrow> f_flag fp AND (case rw of UIO_READ \<Rightarrow> FREAD OR FEXEC | UIO_WRITE \<Rightarrow> FWRITE) \<noteq> 0"

definition the_uio :: "open_file \<Rightarrow> iovec list \<Rightarrow> nat \<Rightarrow> uio_seg \<Rightarrow> 32 word \<Rightarrow> int \<Rightarrow> uio" where
  "the_uio fp iov iovcnt seg fflag n =
     \<lparr>uio_vec = iov, uio_iov = 0, uio_xmem = 0, uio_iovcnt = int iovcnt, uio_iovdcnt = 0, uio_offset = f_offset fp, uio_resid = n, uio_segflg = seg,
      uio_fmode = f_flag fp OR fflag\<rparr>"

text \<open>The result has the count only where the code stores it. \<open>uio_xmem\<close> and \<open>uio_iovdcnt\<close>, which the code leaves unset, are 0.\<close>

definition rwuio :: "'w fo_rw \<Rightarrow> nat \<Rightarrow> iovec list \<Rightarrow> nat \<Rightarrow> int \<Rightarrow> uio_seg \<Rightarrow> uio_rw \<Rightarrow> 32 word \<Rightarrow> ftab \<Rightarrow> 'w \<Rightarrow> ftab \<times> 'w \<times> io_rc \<times> int option" where
  "rwuio fo f iov iovcnt ext seg rw fflag k w =
     (if \<not> may_rw rw (fl k f) then (k, w, Ierr EBADF, None)
      else case sum_resid (take iovcnt iov) 0 of
        None \<Rightarrow> (k, w, Ierr EINVAL, None)
      | Some cnt \<Rightarrow>
          let (x, d, rc, w) = fo (f_ops (fl k f)) (fl k f) rw (the_uio (fl k f) iov iovcnt seg fflag cnt) ext w;
              rc = (if rc = Ierr EINTR then if cnt = uio_resid x then Ierr ERESTART else Iok else rc)
          in (set_fl f (\<lambda>r. r\<lparr>f_offset := uio_offset x, f_dir_off := d\<rparr>) k, w, rc, Some (cnt - uio_resid x)))"

text \<open>Streams' \<open>EAGAIN\<close> loses its mark.\<close>

definition unmark :: "io_rc \<Rightarrow> io_rc" where
  "unmark rc = (if rc = Istreams then Ierr EAGAIN else rc)"

section \<open>The system calls\<close>

definition is_vnode :: "open_file \<Rightarrow> bool" where
  "is_vnode fp \<longleftrightarrow> f_type fp = DTYPE_VNODE"

text \<open>What \<open>rdwr\<close> makes of the return code and the count of \<open>rwuio\<close>.\<close>

definition rdwr_fix :: "(nat option \<Rightarrow> vtype) \<Rightarrow> open_file \<Rightarrow> uio_rw \<Rightarrow> io_rc \<Rightarrow> int \<Rightarrow> io_rc \<times> int" where
  "rdwr_fix vt fp rw rc cnt =
     (if rc = Iok then (rc, cnt)
      else
        let (rc, cnt) = (if rc = Ierr EAGAIN \<and> f_flag fp AND FNDELAY \<noteq> 0 \<and> is_vnode fp \<and> vt (f_up fp) \<in> {VFIFO, VCHR, VMPC} then (Iok, 0) else (rc, cnt));
            rc = unmark rc;
            rc = (if cnt \<noteq> 0 \<and> rw = UIO_WRITE \<and> is_vnode fp \<and> vt (f_up fp) = VREG then Iok else rc)
        in (rc, cnt))"

definition io_result :: "io_rc \<Rightarrow> int \<Rightarrow> errno + int" where
  "io_result rc cnt = (case rc of Iok \<Rightarrow> Inr cnt | Ierr e \<Rightarrow> Inl e | Istreams \<Rightarrow> Inl EAGAIN)"

text \<open>\<open>rdwr\<close> after \<open>getf\<close>, by the thread \<open>t\<close> that holds the descriptor \<open>fd\<close> and its file \<open>f\<close>.\<close>

definition rdwr_end :: "'w fo_rw \<Rightarrow> (nat option \<Rightarrow> vtype) \<Rightarrow> nat \<Rightarrow> nat \<Rightarrow> nat \<Rightarrow> iovec list \<Rightarrow> nat \<Rightarrow> int \<Rightarrow> uio_rw \<Rightarrow> fsys \<Rightarrow> 'w \<Rightarrow> (fsys \<times> 'w) option" where
  "rdwr_end fo vt t fd f iov iovcnt ext rw s w =
     (let (k, w, rc, cnt) = rwuio fo f iov iovcnt ext UIO_USERSPACE rw 0 (ft s) w;
          (rc, cnt) = rdwr_fix vt (fl k f) rw rc (case cnt of None \<Rightarrow> 0 | Some c \<Rightarrow> c)
      in do {
        (u, _) \<leftarrow> ufdrele (int fd) (own_proc s t);
        Some (done_call t (io_result rc cnt) k u s, w)
      })"

text \<open>
  \<open>kreadv\<close> and \<open>kwritev\<close>: the checks, and then \<open>rdwr\<close> up to \<open>getf\<close>. \<open>iov\<close> is the array of areas copied in from the caller, \<open>None\<close> where
  the copy fails. The kernel lock is not modelled.
\<close>

definition krdwr_begin :: "nat \<Rightarrow> int \<Rightarrow> int \<Rightarrow> iovec list option \<Rightarrow> fsys \<Rightarrow> fsys option" where
  "krdwr_begin t fd iovcnt iov s =
     (if iovcnt > IOV_MAX \<or> iovcnt \<le> 0 then Some (done_call t (Inl EINVAL) (ft s) (own_proc s t) s)
      else if iov = None then Some (done_call t (Inl EFAULT) (ft s) (own_proc s t) s)
      else use_begin t fd s)"

definition kreadv_begin :: "nat \<Rightarrow> int \<Rightarrow> int \<Rightarrow> iovec list option \<Rightarrow> fsys \<Rightarrow> fsys option" where
  "kreadv_begin = krdwr_begin"

definition kwritev_begin :: "nat \<Rightarrow> int \<Rightarrow> int \<Rightarrow> iovec list option \<Rightarrow> fsys \<Rightarrow> fsys option" where
  "kwritev_begin = krdwr_begin"

section \<open>Services of the kernel\<close>

definition fp_rdwr :: "'w fo_rw \<Rightarrow> nat \<Rightarrow> iovec list \<Rightarrow> nat \<Rightarrow> int \<Rightarrow> uio_seg \<Rightarrow> uio_rw \<Rightarrow> ftab \<Rightarrow> 'w \<Rightarrow> ftab \<times> 'w \<times> io_rc \<times> int option" where
  "fp_rdwr fo f iov iovcnt ext seg rw k w =
     (let (k, w, rc, cnt) = rwuio fo f iov iovcnt ext seg rw FKERNEL k w in (k, w, unmark rc, cnt))"

definition fp_read :: "'w fo_rw \<Rightarrow> nat \<Rightarrow> int \<Rightarrow> int \<Rightarrow> int \<Rightarrow> uio_seg \<Rightarrow> ftab \<Rightarrow> 'w \<Rightarrow> ftab \<times> 'w \<times> io_rc \<times> int option" where
  "fp_read fo f buf nbytes ext seg = fp_rdwr fo f [\<lparr>iov_base = buf, iov_len = nbytes\<rparr>] 1 ext seg UIO_READ"

definition fp_write :: "'w fo_rw \<Rightarrow> nat \<Rightarrow> int \<Rightarrow> int \<Rightarrow> int \<Rightarrow> uio_seg \<Rightarrow> ftab \<Rightarrow> 'w \<Rightarrow> ftab \<times> 'w \<times> io_rc \<times> int option" where
  "fp_write fo f buf nbytes ext seg = fp_rdwr fo f [\<lparr>iov_base = buf, iov_len = nbytes\<rparr>] 1 ext seg UIO_WRITE"

definition fp_readv :: "'w fo_rw \<Rightarrow> nat \<Rightarrow> iovec list \<Rightarrow> nat \<Rightarrow> int \<Rightarrow> uio_seg \<Rightarrow> ftab \<Rightarrow> 'w \<Rightarrow> ftab \<times> 'w \<times> io_rc \<times> int option" where
  "fp_readv fo f iov iovcnt ext seg = fp_rdwr fo f iov iovcnt ext seg UIO_READ"

definition fp_writev :: "'w fo_rw \<Rightarrow> nat \<Rightarrow> iovec list \<Rightarrow> nat \<Rightarrow> int \<Rightarrow> uio_seg \<Rightarrow> ftab \<Rightarrow> 'w \<Rightarrow> ftab \<times> 'w \<times> io_rc \<times> int option" where
  "fp_writev fo f iov iovcnt ext seg = fp_rdwr fo f iov iovcnt ext seg UIO_WRITE"

text \<open>\<open>fp_rwuio\<close>, whose \<open>_NO_MOVE\<close> directions keep the offset.\<close>

definition fp_rwuio :: "'w fo_rw \<Rightarrow> nat \<Rightarrow> uio_rw \<Rightarrow> bool \<Rightarrow> uio \<Rightarrow> int \<Rightarrow> ftab \<Rightarrow> 'w \<Rightarrow> ftab \<times> 'w \<times> io_rc \<times> uio" where
  "fp_rwuio fo f rw no_move x ext k w =
     (let (x, d, rc, w) = fo (f_ops (fl k f)) (fl k f) rw x ext w;
          k = set_fl f (\<lambda>r. r\<lparr>f_dir_off := d\<rparr>) k;
          k = (if no_move then k else set_fl f (\<lambda>r. r\<lparr>f_offset := uio_offset x\<rparr>) k)
      in (k, w, unmark rc, x))"

text \<open>The file operation of vnodes; \<open>rdwrdir\<close> reads directories and \<open>vnop_rdwr\<close> is \<open>VNOP_RDWR\<close>.\<close>

definition vno_rw :: "(nat option \<Rightarrow> vtype) \<Rightarrow> (open_file \<Rightarrow> uio \<Rightarrow> int \<Rightarrow> 'w \<Rightarrow> uio \<times> int \<times> io_rc \<times> 'w)
    \<Rightarrow> (nat option \<Rightarrow> uio_rw \<Rightarrow> 32 word \<Rightarrow> uio \<Rightarrow> int \<Rightarrow> nat option \<Rightarrow> 'w \<Rightarrow> uio \<times> io_rc \<times> 'w) \<Rightarrow> 'w fo_rw" where
  "vno_rw vt rdwrdir vnop_rdwr ops fp rw x ext w =
     (if vt (f_up fp) = VREG \<and> uio_resid x = 0 then (x, f_dir_off fp, Iok, w)
      else if vt (f_up fp) = VDIR then rdwrdir fp x ext w
      else let (x, rc, w) = vnop_rdwr (f_up fp) rw (f_flag fp) x ext (f_cred fp) w in (x, f_dir_off fp, rc, w))"

section \<open>Seeking\<close>

text \<open>
  \<open>getattr\<close> is the size \<open>VNOP_GETATTR\<close> gives, or its error. \<open>SEEK_SET\<close>, \<open>SEEK_CUR\<close> and \<open>SEEK_END\<close> are 0, 1 and 2. The offset the switch comes to:
\<close>

definition seek_to :: "(nat option \<Rightarrow> errno + int) \<Rightarrow> open_file \<Rightarrow> int \<Rightarrow> int \<Rightarrow> errno + int" where
  "seek_to getattr fp off sbase =
     (if sbase = 0 then Inr off
      else if sbase = 1 then Inr (wrap64 (off + f_offset fp))
      else if sbase = 2 then (case getattr (f_up fp) of Inl e \<Rightarrow> Inl e | Inr va_size \<Rightarrow> Inr (wrap64 (va_size + off)))
      else Inl EINVAL)"

text \<open>\<open>offp\<close> is \<open>None\<close> for \<open>lseek\<close>; for \<open>_lseek\<close> it is the result of the \<open>copyout\<close> of the new offset.\<close>

definition lseek_body :: "(nat option \<Rightarrow> vtype) \<Rightarrow> (nat option \<Rightarrow> errno + int) \<Rightarrow> nat \<Rightarrow> int \<Rightarrow> int \<Rightarrow> uerror option \<Rightarrow> ftab \<Rightarrow> ftab \<times> (errno + int)" where
  "lseek_body vt getattr f off sbase offp k =
     (let fp = fl k f; vp = f_up fp; moved = (\<lambda>off. set_fl f (\<lambda>r. r\<lparr>f_offset := off, f_dir_off := 0\<rparr>) k) in
      if f_type fp \<noteq> DTYPE_VNODE then (k, Inl (if f_type fp = DTYPE_SOCKET then ESPIPE else EINVAL))
      else if vt vp = VFIFO then (k, Inl ESPIPE)
      else case seek_to getattr fp off sbase of
        Inl e \<Rightarrow> (k, Inl e)
      | Inr off \<Rightarrow>
          (case offp of
             Some c \<Rightarrow> let offmax = (if vt vp = VCHR \<or> vt vp = VBLK then DEV_OFF_MAX else OFF_MAX) in
               if off < 0 \<or> off > offmax then (k, Inl EINVAL)
               else (case c of Some e \<Rightarrow> (k, Inl e) | None \<Rightarrow> (moved off, Inr 0))
           | None \<Rightarrow> if off < 0 \<or> off > OFF_MAX then (k, Inl EINVAL) else (moved off, Inr off)))"

definition lseek_end :: "(nat option \<Rightarrow> vtype) \<Rightarrow> (nat option \<Rightarrow> errno + int) \<Rightarrow> nat \<Rightarrow> nat \<Rightarrow> nat \<Rightarrow> int \<Rightarrow> int \<Rightarrow> uerror option \<Rightarrow> fsys \<Rightarrow> fsys option" where
  "lseek_end vt getattr t fd f off sbase offp s =
     (let (k, r) = lseek_body vt getattr f off sbase offp (ft s) in do {
        (u, _) \<leftarrow> ufdrele (int fd) (own_proc s t);
        Some (done_call t r k u s)
      })"

text \<open>\<open>fp_llseek\<close>; \<open>junk\<close> is what \<open>newoff\<close> holds where nothing has been stored in it.\<close>

definition fp_llseek :: "(nat option \<Rightarrow> errno + int) \<Rightarrow> int \<Rightarrow> nat \<Rightarrow> int \<Rightarrow> int \<Rightarrow> ftab \<Rightarrow> ftab \<times> uerror" where
  "fp_llseek getattr junk f offset whence k =
     (let fp = fl k f;
          (rc, newoff) = (if whence = 2 \<and> f_type fp \<noteq> DTYPE_VNODE then (Some EINVAL, junk)
                          else case seek_to getattr fp offset whence of Inl e \<Rightarrow> (Some e, junk) | Inr newoff \<Rightarrow> (None, newoff));
          rc = (if newoff > DEV_OFF_MAX then Some EINVAL else rc)
      in if rc = None then (set_fl f (\<lambda>r. r\<lparr>f_offset := newoff\<rparr>) k, None) else (k, rc))"

end
