(* ===== verification/FdLock.thy ===== *)
theory FdLock
  imports Rdwr ReclockProps
begin

text \<open>
  Record locks from the system call down: \<open>lockf\<close> (\<open>src/bos/kernel/lfs/lockf.c\<close>), \<open>F_GETLK\<close>, \<open>F_SETLK\<close> and \<open>F_SETLKW\<close> of \<open>kfcntl\<close> (\<open>lfs/fcntl.c\<close>),
  the request that \<open>lockrelease\<close> makes when a descriptor is closed (\<open>lfs/lockrlse.c\<close>), and \<open>jfs_lockctl\<close> (\<open>pfs/xix_lckctl.c\<close>), on the open files of theory
  \<open>FdSys\<close> and the table of locks of theory \<open>Reclock\<close>. A call is its beginning, which takes the descriptor, any steps of others, and its end here; a call that waits
  for a lock goes on, with the descriptor held, when it is woken.
\<close>

section \<open>The file system\<close>

text \<open>What the journaled file system knows of a vnode: the index of the gnode, the inode's size and mode, how often the file is mapped, and \<open>vfs_type\<close>.\<close>

record lnode =
  ln_gp :: nat
  i_size :: int
  i_mode :: "32 word"
  gn_mrdcnt :: int
  gn_mwrcnt :: int
  vfs_type :: int

definition ENF_LOCK :: "32 word \<Rightarrow> bool" where
  "ENF_LOCK mode \<longleftrightarrow> mode AND (0x400 OR 0x40 OR 0x8 OR 0x1) = 0x400"

definition jfs_lockctl :: "flox_conf \<Rightarrow> (int \<Rightarrow> int) \<Rightarrow> lnode \<Rightarrow> int \<Rightarrow> eflock \<Rightarrow> 32 word \<Rightarrow> int \<Rightarrow> int \<Rightarrow> nat \<Rightarrow> locksys \<Rightarrow> lock_res" where
  "jfs_lockctl cf rrc v off ld cmd fcn rid thr k =
     (if ENF_LOCK (i_mode v) \<and> (gn_mrdcnt v \<noteq> 0 \<and> l_type ld = F_WRLCK \<or> gn_mwrcnt v \<noteq> 0) then LRet k ld rid (Some EMFILE)
      else common_reclock cf rrc \<lparr>q_gp = ln_gp v, q_size = i_size v, q_off = off, q_cmd = cmd OR INOFLCK, q_fcn = fcn, q_thr = thr\<rparr> ld rid k)"

section \<open>Where a call gets to\<close>

text \<open>
  A call is done, with what it copies out to the caller; it sleeps for a lock; or it never returns. \<open>give_back\<close> is \<open>ufdrele\<close> and the return, with the
  user structure \<open>u\<close>.
\<close>

datatype lock_call = CDone locksys fsys "eflock option" | CAsleep locksys lock_sleep fsys | CHang

definition lock_result :: "uerror \<Rightarrow> errno + int" where
  "lock_result rc = (case rc of None \<Rightarrow> Inr 0 | Some e \<Rightarrow> Inl e)"

definition give_back :: "nat \<Rightarrow> nat \<Rightarrow> uerror \<Rightarrow> uproc \<Rightarrow> eflock option \<Rightarrow> locksys \<Rightarrow> fsys \<Rightarrow> lock_call option" where
  "give_back t fd rc u out k s =
     map_option (\<lambda>(u, _). CDone k (done_call t (lock_result rc) (ft s) u s) out) (ufdrele (int fd) u)"

section \<open>lockf\<close>

abbreviation (input) F_ULOCK :: int where "F_ULOCK \<equiv> 0"
abbreviation (input) F_LOCK :: int where "F_LOCK \<equiv> 1"
abbreviation (input) F_TLOCK :: int where "F_TLOCK \<equiv> 2"
abbreviation (input) F_TEST :: int where "F_TEST \<equiv> 3"

text \<open>\<open>l_start\<close> and \<open>l_len\<close>; \<open>size\<close>, here \<open>sz\<close>, is a \<open>long\<close>, and so is its negation.\<close>

definition lockf_section :: "int \<Rightarrow> int \<times> int" where
  "lockf_section sz = (if sz < 0 then (sz, wrap32 (- sz)) else (0, sz))"

text \<open>The request of a call, and \<open>locking\<close>.\<close>

definition lockf_ask :: "open_file \<Rightarrow> int \<Rightarrow> int \<Rightarrow> int \<Rightarrow> int \<Rightarrow> errno + (eflock \<times> 32 word)" where
  "lockf_ask fp function sz pid vfs =
     (let (start, len) = lockf_section sz;
          lk = (\<lambda>ty. \<lparr>l_type = ty, l_whence = 1, l_sysid = 0, l_pid = pid, l_vfs = vfs, l_start = start, l_len = len\<rparr>)
      in if function = F_ULOCK then Inr (lk F_UNLCK, SETFLCK)
         else if function = F_LOCK \<or> function = F_TLOCK
         then if f_flag fp AND FWRITE = 0 then Inl EBADF
              else Inr (lk F_WRLCK, if function = F_LOCK then SETFLCK OR SLPFLCK else SETFLCK)
         else if function = F_TEST then Inr (lk F_WRLCK, 0)
         else Inl EINVAL)"

text \<open>After \<open>VNOP_LOCKCTL\<close>.\<close>

definition lockf_fin :: "nat \<Rightarrow> nat \<Rightarrow> int \<Rightarrow> 32 word \<Rightarrow> lock_res \<Rightarrow> fsys \<Rightarrow> lock_call option" where
  "lockf_fin t fd function locking res s =
     (case res of
        LHang \<Rightarrow> Some CHang
      | LSleep k z \<Rightarrow> Some (CAsleep k z s)
      | LRet k ld rid rc \<Rightarrow>
          (case rc of
             Some e \<Rightarrow> give_back t fd (Some (if e = EAGAIN then EACCES else e)) (own_proc s t) None k s
           | None \<Rightarrow> give_back t fd (if function = F_TEST \<and> l_type ld \<noteq> F_UNLCK then Some EACCES else None)
                       (if locking AND SETFLCK \<noteq> 0 then mark_lock fd (own_proc s t) else own_proc s t) None k s))"

text \<open>\<open>lockf\<close> up to \<open>getft\<close>, from there to the end or to a sleep, and from a sleep on; \<open>sig\<close> says that a signal ended it.\<close>

definition lockf_begin :: "nat \<Rightarrow> int \<Rightarrow> fsys \<Rightarrow> fsys option" where
  "lockf_begin t fd s =
     map_option (\<lambda>(u, r). case r of Inl e \<Rightarrow> done_call t (Inl e) (ft s) u s | Inr f \<Rightarrow> goes_on t (FUse (nat fd) f) (ft s) u s)
       (getft (length (threads_of (owner s ! t) s)) fd DTYPE_VNODE (ft s) (own_proc s t))"

definition lockf_end :: "flox_conf \<Rightarrow> (int \<Rightarrow> int) \<Rightarrow> (nat option \<Rightarrow> lnode) \<Rightarrow> int \<Rightarrow> nat \<Rightarrow> nat \<Rightarrow> nat \<Rightarrow> int \<Rightarrow> int \<Rightarrow> locksys \<Rightarrow> fsys \<Rightarrow> lock_call option" where
  "lockf_end cf rrc node pid t fd f function sz k s =
     (let fp = fl (ft s) f; v = node (f_up fp) in
      case lockf_ask fp function sz pid (vfs_type v) of
        Inl e \<Rightarrow> give_back t fd (Some e) (own_proc s t) None k s
      | Inr (ld, locking) \<Rightarrow> lockf_fin t fd function locking (jfs_lockctl cf rrc v (f_offset fp) ld locking 0 0 t k) s)"

definition lockf_wake :: "flox_conf \<Rightarrow> (int \<Rightarrow> int) \<Rightarrow> bool \<Rightarrow> nat \<Rightarrow> nat \<Rightarrow> int \<Rightarrow> lock_sleep \<Rightarrow> locksys \<Rightarrow> fsys \<Rightarrow> lock_call option" where
  "lockf_wake cf rrc sig t fd function z k s = lockf_fin t fd function (q_cmd (z_req z)) (reclock_wake cf rrc sig z k) s"

section \<open>fcntl\<close>

text \<open>
  A \<open>struct flock\<close> of the caller is an \<open>eflock\<close> with its offsets in 32 bits; it is \<open>None\<close> where \<open>copyin\<close> fails, and \<open>out_ok\<close> is whether \<open>copyout\<close> does not. \<open>extended\<close> is
  the construction of \<open>lock_buf\<close>.
\<close>

definition extended :: "eflock \<Rightarrow> int \<Rightarrow> int \<Rightarrow> eflock" where
  "extended lk pid vfs = lk\<lparr>l_sysid := 0, l_pid := pid, l_vfs := vfs\<rparr>"

definition may_lock :: "(nat option \<Rightarrow> vtype) \<Rightarrow> open_file \<Rightarrow> eflock option \<Rightarrow> errno + eflock" where
  "may_lock vt fp arg =
     (if f_type fp \<noteq> DTYPE_VNODE \<or> vt (f_up fp) = VFIFO then Inl EINVAL
      else case arg of None \<Rightarrow> Inl EFAULT | Some lk \<Rightarrow> Inr lk)"

definition setlk_ask :: "(nat option \<Rightarrow> vtype) \<Rightarrow> open_file \<Rightarrow> eflock option \<Rightarrow> errno + eflock" where
  "setlk_ask vt fp arg =
     (case may_lock vt fp arg of
        Inl e \<Rightarrow> Inl e
      | Inr lk \<Rightarrow> if l_type lk = F_RDLCK \<and> f_flag fp AND FREAD = 0 \<or> l_type lk = F_WRLCK \<and> f_flag fp AND FWRITE = 0 then Inl EBADF else Inr lk)"

definition setlk_fin :: "nat \<Rightarrow> nat \<Rightarrow> lock_res \<Rightarrow> fsys \<Rightarrow> lock_call option" where
  "setlk_fin t fd res s =
     (case res of
        LHang \<Rightarrow> Some CHang
      | LSleep k z \<Rightarrow> Some (CAsleep k z s)
      | LRet k ld rid rc \<Rightarrow>
          if rc = Some EAGAIN then give_back t fd (Some EACCES) (own_proc s t) None k s
          else if rc = Some EINTR then give_back t fd (Some ERESTART) (own_proc s t) None k s
          else give_back t fd rc (mark_lock fd (own_proc s t)) None k s)"

definition setlk_end :: "flox_conf \<Rightarrow> (int \<Rightarrow> int) \<Rightarrow> (nat option \<Rightarrow> lnode) \<Rightarrow> (nat option \<Rightarrow> vtype) \<Rightarrow> int \<Rightarrow> nat \<Rightarrow> nat \<Rightarrow> nat \<Rightarrow> bool \<Rightarrow> eflock option \<Rightarrow> locksys \<Rightarrow> fsys
    \<Rightarrow> lock_call option" where
  "setlk_end cf rrc node vt pid t fd f wait arg k s =
     (let fp = fl (ft s) f; v = node (f_up fp) in
      case setlk_ask vt fp arg of
        Inl e \<Rightarrow> give_back t fd (Some e) (own_proc s t) None k s
      | Inr lk \<Rightarrow> setlk_fin t fd (jfs_lockctl cf rrc v (f_offset fp) (extended lk pid (vfs_type v)) (if wait then SETFLCK OR SLPFLCK else SETFLCK) 0 0 t k) s)"

definition setlk_wake :: "flox_conf \<Rightarrow> (int \<Rightarrow> int) \<Rightarrow> bool \<Rightarrow> nat \<Rightarrow> nat \<Rightarrow> lock_sleep \<Rightarrow> locksys \<Rightarrow> fsys \<Rightarrow> lock_call option" where
  "setlk_wake cf rrc sig t fd z k s = setlk_fin t fd (reclock_wake cf rrc sig z k) s"

text \<open>What \<open>F_GETLK\<close> puts into the caller's structure \<open>lk\<close>, from the one that \<open>VNOP_LOCKCTL\<close> leaves.\<close>

definition getlk_answer :: "eflock \<Rightarrow> eflock \<Rightarrow> eflock" where
  "getlk_answer lk ld =
     (if l_type ld = F_UNLCK then lk\<lparr>l_type := F_UNLCK\<rparr> else ld\<lparr>l_start := wrap32 (l_start ld), l_len := wrap32 (l_len ld)\<rparr>)"

definition getlk_fin :: "nat \<Rightarrow> nat \<Rightarrow> eflock \<Rightarrow> bool \<Rightarrow> lock_res \<Rightarrow> fsys \<Rightarrow> lock_call option" where
  "getlk_fin t fd lk out_ok res s =
     (case res of
        LHang \<Rightarrow> Some CHang
      | LSleep k z \<Rightarrow> Some (CAsleep k z s)
      | LRet k ld rid rc \<Rightarrow>
          if rc = Some EAGAIN then give_back t fd (Some EACCES) (own_proc s t) None k s
          else if \<not> out_ok then give_back t fd (Some EFAULT) (own_proc s t) None k s
          else give_back t fd rc (own_proc s t) (Some (getlk_answer lk ld)) k s)"

definition getlk_end :: "flox_conf \<Rightarrow> (int \<Rightarrow> int) \<Rightarrow> (nat option \<Rightarrow> lnode) \<Rightarrow> (nat option \<Rightarrow> vtype) \<Rightarrow> int \<Rightarrow> nat \<Rightarrow> nat \<Rightarrow> nat \<Rightarrow> eflock option \<Rightarrow> bool \<Rightarrow> locksys \<Rightarrow> fsys
    \<Rightarrow> lock_call option" where
  "getlk_end cf rrc node vt pid t fd f arg out_ok k s =
     (let fp = fl (ft s) f; v = node (f_up fp) in
      case may_lock vt fp arg of
        Inl e \<Rightarrow> give_back t fd (Some e) (own_proc s t) None k s
      | Inr lk \<Rightarrow> getlk_fin t fd lk out_ok (jfs_lockctl cf rrc v (f_offset fp) (extended lk pid (vfs_type v)) 0 0 0 t k) s)"

section \<open>Closing\<close>

text \<open>The lock request of \<open>lockrelease\<close>, by the process with the user structure \<open>u\<close>, for the open file \<open>f\<close>; without a mark there is none.\<close>

definition marked_for :: "ftab \<Rightarrow> nat \<Rightarrow> uproc \<Rightarrow> bool" where
  "marked_for s f u \<longleftrightarrow> list_ex (\<lambda>i. lock_marked s (uf u i) \<and> same_vnode s f (uf u i)) [0..<U_maxofile u]"

definition unlock_all :: "int \<Rightarrow> int \<Rightarrow> eflock" where
  "unlock_all pid vfs = \<lparr>l_type = F_UNLCK, l_whence = 0, l_sysid = 0, l_pid = pid, l_vfs = vfs, l_start = 0, l_len = 0\<rparr>"

definition lockrelease_locks :: "flox_conf \<Rightarrow> (int \<Rightarrow> int) \<Rightarrow> (nat option \<Rightarrow> lnode) \<Rightarrow> int \<Rightarrow> nat \<Rightarrow> nat \<Rightarrow> ftab \<Rightarrow> uproc \<Rightarrow> locksys \<Rightarrow> locksys \<times> uerror" where
  "lockrelease_locks cf rrc node pid t f s u k =
     (let v = node (f_up (fl s f)) in
      if U_lockflag u \<and> marked_for s f u
      then (case jfs_lockctl cf rrc v 0 (unlock_all pid (vfs_type v)) SETFLCK 0 0 t k of
              LRet k ld rid rc \<Rightarrow> (k, rc) | LSleep k z \<Rightarrow> (k, None) | LHang \<Rightarrow> (k, None))
      else (k, None))"

end
