(* ===== verification/RdwrProps.thy ===== *)
theory RdwrProps
  imports Rdwr
begin

text \<open>The calls of theory \<open>Rdwr\<close> in any state the open files can reach.\<close>

section \<open>What rwuio hands down\<close>

lemma wrap32_neg:
  assumes "2 ^ 31 \<le> x" and "x < 2 ^ 32"
  shows "wrap32 x = x - 2 ^ 32"
proof -
  have "(x + 2 ^ 31) mod 2 ^ 32 = (x - 2 ^ 31) mod 2 ^ 32" using mod_add_self2 [of "x - 2 ^ 31" "2 ^ 32"] by (simp add: add.commute)
  then show ?thesis using assms by (simp add: wrap32_def)
qed

lemma sum_resid_Some:
  assumes "\<forall>v \<in> set vs. - (2 ^ 31) \<le> iov_len v \<and> iov_len v < 2 ^ 31" and "0 \<le> r" and "r < 2 ^ 31"
  shows "sum_resid vs r = (if (\<forall>v \<in> set vs. 0 \<le> iov_len v) \<and> r + (\<Sum>v \<leftarrow> vs. iov_len v) < 2 ^ 31 then Some (r + (\<Sum>v \<leftarrow> vs. iov_len v)) else None)"
  using assms
proof (induction vs arbitrary: r)
  case (Cons v vs)
  have nonneg: "0 \<le> (\<Sum>v \<leftarrow> vs. iov_len v)" if "\<forall>v \<in> set vs. 0 \<le> iov_len v" using that by (induction vs) auto
  show ?case
  proof (cases "0 \<le> iov_len v \<and> r + iov_len v < 2 ^ 31")
    case True
    then have "wrap32 (r + iov_len v) = r + iov_len v" using Cons.prems(2) by (simp add: wrap32_id)
    then show ?thesis using True Cons.IH [of "r + iov_len v"] Cons.prems by (simp add: Let_def ac_simps)
  next
    case False
    show ?thesis
    proof (cases "iov_len v < 0")
      case neg: False
      with False Cons.prems have "2 ^ 31 \<le> r + iov_len v" "r + iov_len v < 2 ^ 32" by auto
      then have "wrap32 (r + iov_len v) < 0" by (simp add: wrap32_neg)
      then show ?thesis using neg nonneg \<open>2 ^ 31 \<le> r + iov_len v\<close> by (auto simp: Let_def)
    qed auto
  qed
qed simp

lemma addrs_the_uio: "addrs (the_uio fp iov n seg fflag c) = concat (map area (take n iov))"
  by (simp add: addrs_def areas_def the_uio_def)

lemma length_areas: "\<forall>v \<in> set vs. 0 \<le> iov_len v \<Longrightarrow> int (length (concat (map area vs))) = (\<Sum>v \<leftarrow> vs. iov_len v)"
  by (induction vs) auto

lemma the_uio_ok:
  assumes "n \<le> length iov" and "\<forall>v \<in> set (take n iov). 0 \<le> iov_len v" and "c = (\<Sum>v \<leftarrow> take n iov. iov_len v)" and "wrap64 (f_offset fp) = f_offset fp"
  shows "uio_ok (the_uio fp iov n seg fflag c)"
  using assms length_areas [OF assms(2)] addrs_the_uio [of fp iov n seg fflag c] unfolding uio_ok_def areas_def by (simp add: the_uio_def)


text \<open>The fate of a call that passes the checks, and of one that does not.\<close>

definition areas_ok :: "iovec list \<Rightarrow> bool" where
  "areas_ok vs \<longleftrightarrow> (\<forall>v \<in> set vs. 0 \<le> iov_len v) \<and> (\<Sum>v \<leftarrow> vs. iov_len v) < 2 ^ 31"

lemma sum_resid_take:
  assumes "\<forall>v \<in> set iov. - (2 ^ 31) \<le> iov_len v \<and> iov_len v < 2 ^ 31"
  shows "sum_resid (take n iov) 0 = (if areas_ok (take n iov) then Some (\<Sum>v \<leftarrow> take n iov. iov_len v) else None)"
proof -
  have "\<forall>v \<in> set (take n iov). - (2 ^ 31) \<le> iov_len v \<and> iov_len v < 2 ^ 31" using assms by (auto dest: in_set_takeD)
  from sum_resid_Some [OF this, of 0] show ?thesis by (simp add: areas_ok_def)
qed

text \<open>
  C37. On a file that is open for the direction of the transfer, \<open>rwuio\<close> accepts the areas of a call exactly when none has a negative length and the sum
  fits into an \<open>int\<close>. It then calls the operation of the file once, with a well-formed uio, the addresses of which are those of the areas in order, at the
  offset of the file, stores the offset that is left in it and gives the difference of the counts. Otherwise it fails with \<open>EINVAL\<close>, having called nothing.
\<close>

theorem rwuio_bounds:
  assumes "n \<le> length iov" and "\<forall>v \<in> set iov. - (2 ^ 31) \<le> iov_len v \<and> iov_len v < 2 ^ 31" and "wrap64 (f_offset (fl k f)) = f_offset (fl k f)" and "may_rw rw (fl k f)"
  shows "if (\<forall>v \<in> set (take n iov). 0 \<le> iov_len v) \<and> (\<Sum>v \<leftarrow> take n iov. iov_len v) < 2 ^ 31
     then \<exists>x x' d rc w'. uio_ok x \<and> addrs x = concat (map area (take n iov)) \<and> uio_offset x = f_offset (fl k f) \<and> uio_segflg x = seg
        \<and> fo (f_ops (fl k f)) (fl k f) rw x ext w = (x', d, rc, w')
        \<and> rwuio fo f iov n ext seg rw fflag k w
           = (set_fl f (\<lambda>r. r\<lparr>f_offset := uio_offset x', f_dir_off := d\<rparr>) k, w',
              if rc = Ierr EINTR then if uio_resid x' = uio_resid x then Ierr ERESTART else Iok else rc, Some (uio_resid x - uio_resid x'))
     else rwuio fo f iov n ext seg rw fflag k w = (k, w, Ierr EINVAL, None)"
proof (cases "areas_ok (take n iov)")
  case True
  let ?c = "\<Sum>v \<leftarrow> take n iov. iov_len v" and ?x = "the_uio (fl k f) iov n seg fflag (\<Sum>v \<leftarrow> take n iov. iov_len v)"
  obtain x' d rc w' where o: "fo (f_ops (fl k f)) (fl k f) rw ?x ext w = (x', d, rc, w')" by (cases "fo (f_ops (fl k f)) (fl k f) rw ?x ext w")
  have c: "uio_resid ?x = ?c" "uio_offset ?x = f_offset (fl k f)" "uio_segflg ?x = seg" by (simp_all add: the_uio_def)
  have "rwuio fo f iov n ext seg rw fflag k w = (set_fl f (\<lambda>r. r\<lparr>f_offset := uio_offset x', f_dir_off := d\<rparr>) k, w',
      if rc = Ierr EINTR then if uio_resid x' = uio_resid ?x then Ierr ERESTART else Iok else rc, Some (uio_resid ?x - uio_resid x'))"
    unfolding c(1) using True assms(4) sum_resid_take [OF assms(2), of n] by (simp add: rwuio_def o eq_commute)
  moreover have "uio_ok ?x" using True by (intro the_uio_ok [OF assms(1) _ refl assms(3)]) (simp add: areas_ok_def)
  ultimately show ?thesis using True o c(2,3) addrs_the_uio unfolding areas_ok_def by simp blast
next
  case False
  then show ?thesis using sum_resid_take [OF assms(2), of n] assms(4) by (auto simp: areas_ok_def rwuio_def)
qed

definition ex_iov :: "iovec list" where
  "ex_iov = [\<lparr>iov_base = 100, iov_len = 2\<rparr>, \<lparr>iov_base = 60, iov_len = 0x7fffffff\<rparr>, \<lparr>iov_base = 200, iov_len = 3\<rparr>]"

definition ex_ftab :: ftab where
  "ex_ftab = \<lparr>files = [blank_file\<lparr>f_flag := FREAD OR FWRITE, f_count := 1, f_type := DTYPE_VNODE, f_up := Some 7\<rparr>], ffreelist = None\<rparr>"

theorem rwuio_bounds_witness:
  "rwuio (\<lambda>ops fp rw x ext w. (x, 0, Iok, Suc w)) 0 ex_iov 2 0 UIO_USERSPACE UIO_READ 0 ex_ftab 0 = (ex_ftab, 0, Ierr EINVAL, None)"
  using rwuio_bounds [where n = 2 and iov = ex_iov and k = ex_ftab and f = 0 and rw = UIO_READ and seg = UIO_USERSPACE and fflag = 0
      and fo = "\<lambda>ops fp rw x ext w. (x, 0, Iok, Suc w)" and ext = 0 and w = 0]
  by (simp add: ex_iov_def ex_ftab_def may_rw_def blank_file_def FREAD_def FWRITE_def FEXEC_def wrap64_def)

section \<open>Reading and writing\<close>

definition set_offset :: "int \<Rightarrow> int \<Rightarrow> open_file \<Rightarrow> open_file" where
  "set_offset off d r = r\<lparr>f_offset := off, f_dir_off := d\<rparr>"

lemma set_offset_fields [simp]: "f_count (set_offset off d r) = f_count r" "f_up (set_offset off d r) = f_up r" "f_flag (set_offset off d r) = f_flag r"
    "f_type (set_offset off d r) = f_type r" "f_offset (set_offset off d r) = off"
  by (simp_all add: set_offset_def)

lemma set_offset_fun: "set_offset off d = (\<lambda>r. r\<lparr>f_offset := off, f_dir_off := d\<rparr>)"
  by (rule ext) (simp add: set_offset_def)

text \<open>The end of a call on a descriptor: the file may have a new offset, and the thread is done.\<close>

lemma call_end_ok:
  assumes ok: "fsys_ok cf s" and t: "t < length (fthr s)" "fthr s ! t = FUse j f"
  shows "\<exists>u. ufdrele (int j) (own_proc s t) = Some (u, None)
     \<and> fsys_ok cf (done_call t r (ft s) u s) \<and> fsys_ok cf (done_call t r (set_fl f (set_offset off d) (ft s)) u s) \<and> fthr (done_call t r k u s) ! t = FIdle"
proof -
  from use_end_ok [OF ok t] obtain s' where "use_end t j s = Some s'" "fsys_ok cf s'" by blast
  then obtain u rc where u: "ufdrele (int j) (own_proc s t) = Some (u, rc)" "fsys_ok cf (done_call t (Inr 0) (ft s) u s)" by (auto simp: use_end_def)
  have rc: "rc = None"
  proof -
    have "in_range (int j) (own_proc s t)" using pinvD(7) [OF own_inv [OF ok t(1)], of t] thr_of_view [OF t(1)] t(2) by (simp add: in_range_def)
    then show ?thesis using u(1) by (auto simp: ufdrele_def Let_def split: if_splits)
  qed
  have e: "done_call t r k u s = (done_call t (Inr 0) (ft s) u s)\<lparr>ft := k, fres := Some r\<rparr>" for r k by (simp add: done_call_def set_fthr_def set_proc_def)
  have "fsys_ok cf ((done_call t (Inr 0) (ft s) u s)\<lparr>ft := set_fl f (set_offset off d) (ft (done_call t (Inr 0) (ft s) u s))\<rparr>)"
    by (rule any_change_ok [OF u(2)]) simp_all
  then have 1: "fsys_ok cf (done_call t r (set_fl f (set_offset off d) (ft s)) u s)" for r
    using fsys_ok_res [where cf = cf and s = "(done_call t (Inr 0) (ft s) u s)\<lparr>ft := set_fl f (set_offset off d) (ft s)\<rparr>" and r = "Some r"]
    unfolding e [of r] by (simp add: done_call_def set_fthr_def set_proc_def)
  have 2: "fsys_ok cf (done_call t r (ft s) u s)" for r
    using fsys_ok_res [where cf = cf and s = "done_call t (Inr 0) (ft s) u s" and r = "Some r"] u(2) by (simp add: done_call_def set_fthr_def set_proc_def)
  have "fthr (done_call t r k u s) ! t = FIdle" using t(1) by (simp add: done_call_def set_fthr_def set_proc_def)
  with 1 2 u(1) rc show ?thesis by blast
qed


text \<open>
  The answer of \<open>read\<close> and \<open>write\<close> where the operation of the file gave the code \<open>rc\<close> and moved \<open>m\<close> bytes: the count, but the error where there is
  one. An interrupted transfer that has moved something is a success, and one that has not is started again; \<open>EAGAIN\<close> of a FIFO or character device in
  no-delay mode is a count of 0; and a write to a regular file that has moved something is a success whatever the error.
\<close>

definition rdwr_answer :: "(nat option \<Rightarrow> vtype) \<Rightarrow> open_file \<Rightarrow> uio_rw \<Rightarrow> io_rc \<Rightarrow> int \<Rightarrow> errno + int" where
  "rdwr_answer vt fp rw rc m =
     (let written = rw = UIO_WRITE \<and> is_vnode fp \<and> vt (f_up fp) = VREG \<and> m \<noteq> 0 in
      case rc of
        Iok \<Rightarrow> Inr m
      | Istreams \<Rightarrow> if written then Inr m else Inl EAGAIN
      | Ierr e \<Rightarrow>
          if e = EINTR then if m = 0 then Inl ERESTART else Inr m
          else if e = EAGAIN \<and> f_flag fp AND FNDELAY \<noteq> 0 \<and> is_vnode fp \<and> vt (f_up fp) \<in> {VFIFO, VCHR, VMPC} then Inr 0
          else if written then Inr m else Inl e)"

lemma rdwr_fix_answer:
  assumes "f_flag fp' = f_flag fp" and "f_up fp' = f_up fp" and "f_type fp' = f_type fp"
  shows "(case rdwr_fix vt fp' rw (if rc = Ierr EINTR then if m = 0 then Ierr ERESTART else Iok else rc) m of (rc', m') \<Rightarrow> io_result rc' m')
     = rdwr_answer vt fp rw rc m"
  using assms by (auto simp: rdwr_fix_def rdwr_answer_def io_result_def unmark_def is_vnode_def Let_def split: io_rc.split)

text \<open>
  C32. A \<open>read\<close> or \<open>write\<close> comes to its end whatever other threads and processes did in between: the descriptor is given back and no assertion fails. On a file
  not open for the direction it fails with \<open>EBADF\<close>, and with lengths that are negative or too many with \<open>EINVAL\<close>, and nothing has been called or changed.
  Otherwise the operation of the file has been called once, with all areas at the file's offset; the offset and \<open>f_dir_off\<close> of the file the call
  began with are those it left, no other file has changed, and the answer is \<open>rdwr_answer\<close> of its code and of the number of bytes by which it
  counted down: that number or its error. \<open>EINTR\<close> is never returned; a \<open>write\<close> to a regular file that returns an error has moved nothing.
\<close>

theorem rdwr_accounts:
  assumes "0 < np" and "0 < nt" and "run (fd_next cf) es (finit cf np nt) = Some s" and "t < length (fthr s)" and "fthr s ! t = FUse j f"
    and "n \<le> length iov" and "\<forall>v \<in> set iov. - (2 ^ 31) \<le> iov_len v \<and> iov_len v < 2 ^ 31"
  shows "\<exists>s' w' r. rdwr_end fo vt t j f iov n ext rw s w = Some (s', w') \<and> fsys_ok cf s' \<and> fthr s' ! t = FIdle \<and> fres s' = Some r
     \<and> (let fp = fl (ft s) f; c = \<Sum>v \<leftarrow> take n iov. iov_len v in
        if \<not> may_rw rw fp then r = Inl EBADF \<and> ft s' = ft s \<and> w' = w
        else if (\<exists>v \<in> set (take n iov). iov_len v < 0) \<or> 2 ^ 31 \<le> c then r = Inl EINVAL \<and> ft s' = ft s \<and> w' = w
        else case fo (f_ops fp) fp rw (the_uio fp iov n UIO_USERSPACE 0 c) ext w of (x, d, rc, w1) \<Rightarrow>
          w' = w1 \<and> ft s' = set_fl f (set_offset (uio_offset x) d) (ft s) \<and> r = rdwr_answer vt fp rw rc (c - uio_resid x))"
proof -
  note ok = run_ok [OF assms(1-3)] and t = assms(4,5) and sr = sum_resid_take [OF assms(7), of n]
  let ?fp = "fl (ft s) f" and ?c = "\<Sum>v \<leftarrow> take n iov. iov_len v"
  have f: "f < length (files (ft s))" using ftab_atD(6) [OF free_files_ok [OF ok] use_held(2) [OF ok t]] .
  have fin: "\<exists>s'. rdwr_end fo vt t j f iov n ext rw s w = Some (s', w') \<and> fsys_ok cf s' \<and> fthr s' ! t = FIdle \<and> fres s' = Some r \<and> ft s' = k"
    if r: "rwuio fo f iov n ext UIO_USERSPACE rw 0 (ft s) w = (k, w', rc, cnt)"
      and a: "(case rdwr_fix vt (fl k f) rw rc (case cnt of None \<Rightarrow> 0 | Some c \<Rightarrow> c) of (rc', m') \<Rightarrow> io_result rc' m') = r"
      and k: "k = ft s \<or> k = set_fl f (set_offset off d) (ft s)" for k w' rc cnt r off d
  proof -
    from call_end_ok [OF ok t, of r off d k] k obtain u where u: "ufdrele (int j) (own_proc s t) = Some (u, None)"
      "fsys_ok cf (done_call t r k u s)" "fthr (done_call t r k u s) ! t = FIdle" by blast
    have "rdwr_end fo vt t j f iov n ext rw s w = Some (done_call t r k u s, w')"
      using u(1) a by (auto simp: rdwr_end_def r split: prod.splits)
    with u show ?thesis by (auto simp: done_call_def)
  qed
  consider "\<not> may_rw rw ?fp" | "may_rw rw ?fp" "\<not> areas_ok (take n iov)" | "may_rw rw ?fp" "areas_ok (take n iov)" by blast
  then show ?thesis
  proof cases
    case 1
    then have "rwuio fo f iov n ext UIO_USERSPACE rw 0 (ft s) w = (ft s, w, Ierr EBADF, None)" by (simp add: rwuio_def)
    from fin [OF this, of "Inl EBADF"] 1 show ?thesis by (auto simp: rdwr_fix_def unmark_def io_result_def Let_def)
  next
    case 2
    then have "rwuio fo f iov n ext UIO_USERSPACE rw 0 (ft s) w = (ft s, w, Ierr EINVAL, None)" using sr by (simp add: rwuio_def)
    from fin [OF this, of "Inl EINVAL"] 2 show ?thesis by (auto simp: areas_ok_def rdwr_fix_def unmark_def io_result_def Let_def not_less not_le)
  next
    case 3
    obtain x d rc w1 where o: "fo (f_ops ?fp) ?fp rw (the_uio ?fp iov n UIO_USERSPACE 0 ?c) ext w = (x, d, rc, w1)"
      by (cases "fo (f_ops ?fp) ?fp rw (the_uio ?fp iov n UIO_USERSPACE 0 ?c) ext w")
    let ?k = "set_fl f (set_offset (uio_offset x) d) (ft s)" and ?m = "?c - uio_resid x"
    have r: "rwuio fo f iov n ext UIO_USERSPACE rw 0 (ft s) w
        = (?k, w1, if rc = Ierr EINTR then if ?m = 0 then Ierr ERESTART else Iok else rc, Some ?m)"
      using 3 sr o by (simp add: rwuio_def set_offset_fun)
    have "(case rdwr_fix vt (fl ?k f) rw (if rc = Ierr EINTR then if ?m = 0 then Ierr ERESTART else Iok else rc) ?m of (rc', m') \<Rightarrow> io_result rc' m')
        = rdwr_answer vt ?fp rw rc ?m"
      by (rule rdwr_fix_answer) (use f in \<open>simp_all add: set_fl_def\<close>)
    then have "\<exists>s'. rdwr_end fo vt t j f iov n ext rw s w = Some (s', w1) \<and> fsys_ok cf s' \<and> fthr s' ! t = FIdle
        \<and> fres s' = Some (rdwr_answer vt ?fp rw rc ?m) \<and> ft s' = ?k" by (intro fin [OF r _ disjI2 [OF refl]]) simp
    moreover have "\<not> ((\<exists>v \<in> set (take n iov). iov_len v < 0) \<or> 2 ^ 31 \<le> ?c)" using 3(2) by (auto simp: areas_ok_def)
    ultimately show ?thesis using 3(1) o by (simp only: Let_def if_False prod.case not_True_eq_False) blast
  qed
qed

definition ex_fo :: "memory fo_rw" where
  "ex_fo ops fp rw x ext m =
     (if uio_segflg x = UIO_XMEM \<or> uio_offset x < 0 \<or> uio_offset x > 1000 then (x, f_dir_off fp, Ierr EINVAL, m)
      else let (m, x, rc) = uiomove ex_acc (uio_offset x) 3 rw x m
           in (x, f_dir_off fp, case rc of Uok \<Rightarrow> Iok | Uerr e \<Rightarrow> Ierr e | Ufail \<Rightarrow> Ierr EIO, m))"

definition ex_use :: "fev list" where
  "ex_use = [Call 0 (Open 2), Opened 0 (Inr (7, 1)), Call 0 (Use 0)]"

lemma ex_use_now: "0 < length (fthr (fd_ex ex_use))" "fthr (fd_ex ex_use) ! 0 = FUse 0 0" "f_offset (fl (ft (fd_ex ex_use)) 0) = 0"
  by code_simp+

theorem rdwr_accounts_witness:
  "\<exists>s' w'. rdwr_end ex_fo (\<lambda>vp. VREG) 0 0 0 ex_iov 1 0 UIO_READ (fd_ex ex_use) ex_mem = Some (s', w') \<and> fsys_ok fd_cf s' \<and> fres s' = Some (Inr 2)
     \<and> f_offset (fl (ft s') 0) = 2"
proof -
  have "case rdwr_end ex_fo (\<lambda>vp. VREG) 0 0 0 ex_iov 1 0 UIO_READ (fd_ex ex_use) ex_mem of None \<Rightarrow> False
     | Some (s', w') \<Rightarrow> fres s' = Some (Inr 2) \<and> f_offset (fl (ft s') 0) = 2" by code_simp
  moreover have "\<forall>v \<in> set ex_iov. - (2 ^ 31) \<le> iov_len v \<and> iov_len v < 2 ^ 31" by (simp add: ex_iov_def)
  moreover have "1 \<le> length ex_iov" by (simp add: ex_iov_def)
  ultimately show ?thesis
    using rdwr_accounts [where fo = ex_fo and vt = "\<lambda>vp. VREG" and iov = ex_iov and n = 1 and ext = 0 and rw = UIO_READ and w = ex_mem,
        OF _ _ fd_ex_Some ex_use_now(1,2)] by fastforce
qed

section \<open>Seeking\<close>

definition seek_base :: "(nat option \<Rightarrow> errno + int) \<Rightarrow> open_file \<Rightarrow> int \<Rightarrow> int" where
  "seek_base getattr fp sbase = (if sbase = 0 then 0 else if sbase = 1 then f_offset fp else case getattr (f_up fp) of Inr z \<Rightarrow> z | Inl e \<Rightarrow> 0)"

definition seek_max :: "(nat option \<Rightarrow> vtype) \<Rightarrow> open_file \<Rightarrow> uerror option \<Rightarrow> int" where
  "seek_max vt fp offp = (if offp \<noteq> None \<and> vt (f_up fp) \<in> {VCHR, VBLK} then DEV_OFF_MAX else OFF_MAX)"

definition seekable :: "(nat option \<Rightarrow> vtype) \<Rightarrow> (nat option \<Rightarrow> errno + int) \<Rightarrow> open_file \<Rightarrow> int \<Rightarrow> uerror option \<Rightarrow> bool" where
  "seekable vt getattr fp sbase offp \<longleftrightarrow> is_vnode fp \<and> vt (f_up fp) \<noteq> VFIFO \<and> sbase \<in> {0, 1, 2} \<and> (sbase = 2 \<longrightarrow> (\<exists>z. getattr (f_up fp) = Inr z)) \<and> offp \<in> {None, Some None}"

lemma wrap64_over: "2 ^ 63 \<le> x \<Longrightarrow> x < 2 ^ 64 \<Longrightarrow> wrap64 x < 0"
proof -
  assume x: "2 ^ 63 \<le> x" "x < 2 ^ 64"
  have "(x + 2 ^ 63) mod 2 ^ 64 = (x - 2 ^ 63) mod 2 ^ 64" using mod_add_self2 [of "x - 2 ^ 63" "2 ^ 64"] by (simp add: add.commute)
  with x show ?thesis by (simp add: wrap64_def)
qed

lemma seek_to_exact:
  assumes "- (2 ^ 63) \<le> off" "off < 2 ^ 63" and "0 \<le> f_offset fp" "f_offset fp \<le> DEV_OFF_MAX" and "\<forall>z. getattr (f_up fp) = Inr z \<longrightarrow> 0 \<le> z \<and> z < 2 ^ 32"
    and "seek_to getattr fp off sbase = Inr o1"
  shows "o1 = seek_base getattr fp sbase + off \<or> o1 < 0 \<and> DEV_OFF_MAX < seek_base getattr fp sbase + off"
proof -
  let ?b = "seek_base getattr fp sbase"
  have b: "0 \<le> ?b" "?b < 2 ^ 41" using assms(3,4,5) by (auto simp: seek_base_def DEV_OFF_MAX_def split: sum.split)
  have "o1 = ?b + off \<or> o1 = wrap64 (?b + off)" using assms(6) by (auto simp: seek_to_def seek_base_def ac_simps split: if_splits sum.splits)
  then show ?thesis
  proof
    assume "o1 = wrap64 (?b + off)"
    then show ?thesis using b assms(1,2) wrap64_id [of "?b + off"] wrap64_over [of "?b + off"]
      by (cases "?b + off < 2 ^ 63") (auto simp: DEV_OFF_MAX_def)
  qed simp
qed

lemma lseek_body_cases:
  assumes "- (2 ^ 63) \<le> off" "off < 2 ^ 63" and "0 \<le> f_offset (fl k f)" "f_offset (fl k f) \<le> DEV_OFF_MAX" and "\<forall>z. getattr (f_up (fl k f)) = Inr z \<longrightarrow> 0 \<le> z \<and> z < 2 ^ 32"
    and o1: "o1 = seek_base getattr (fl k f) sbase + off"
  shows "lseek_body vt getattr f off sbase offp k =
    (if seekable vt getattr (fl k f) sbase offp \<and> 0 \<le> o1 \<and> o1 \<le> seek_max vt (fl k f) offp then (set_fl f (set_offset o1 0) k, Inr (if offp = None then o1 else 0))
     else (k, snd (lseek_body vt getattr f off sbase offp k)))
   \<and> (\<not> (seekable vt getattr (fl k f) sbase offp \<and> 0 \<le> o1 \<and> o1 \<le> seek_max vt (fl k f) offp) \<longrightarrow>
       (\<exists>e. snd (lseek_body vt getattr f off sbase offp k) = Inl e \<and> (seekable vt getattr (fl k f) sbase offp \<longrightarrow> e = EINVAL)))"
proof (cases "is_vnode (fl k f) \<and> vt (f_up (fl k f)) \<noteq> VFIFO \<and> (\<exists>x. seek_to getattr (fl k f) off sbase = Inr x)")
  case True
  then obtain x where x: "seek_to getattr (fl k f) off sbase = Inr x" by blast
  note e = seek_to_exact [OF assms(1-5) x, folded o1]
  have s: "seekable vt getattr (fl k f) sbase offp \<longleftrightarrow> offp \<in> {None, Some None}"
    using True x by (auto simp: seekable_def seek_to_def split: if_splits sum.splits)
  have m: "seek_max vt (fl k f) offp \<le> DEV_OFF_MAX" "OFF_MAX \<le> DEV_OFF_MAX" by (simp_all add: seek_max_def DEV_OFF_MAX_def OFF_MAX_def)
  have "0 \<le> x \<and> x \<le> seek_max vt (fl k f) offp \<longleftrightarrow> 0 \<le> o1 \<and> o1 \<le> seek_max vt (fl k f) offp" "0 \<le> x \<and> x \<le> seek_max vt (fl k f) offp \<Longrightarrow> x = o1"
    using e m by auto
  then show ?thesis using True x m unfolding s lseek_body_def
    by (cases offp) (auto simp: Let_def is_vnode_def set_offset_fun seek_max_def split: option.split)
next
  case False
  then have n: "\<not> seekable vt getattr (fl k f) sbase offp"
    by (auto simp: seekable_def seek_to_def)
  have "\<exists>e. lseek_body vt getattr f off sbase offp k = (k, Inl e)" using False by (auto simp: lseek_body_def Let_def is_vnode_def split: sum.split)
  with n show ?thesis by auto
qed

text \<open>
  C36. \<open>lseek\<close> and \<open>_lseek\<close> come to their end in any state the open files can reach. They set the offset to the base that was asked for plus \<open>off\<close>, as
  exact numbers, if that is not negative and not over the limit for the kind of file, and otherwise fail and change no file: no sum wraps around
  unnoticed.
\<close>

theorem lseek_outcome:
  assumes "0 < np" and "0 < nt" and "run (fd_next cf) es (finit cf np nt) = Some s" and "t < length (fthr s)" and "fthr s ! t = FUse j f"
    and "- (2 ^ 63) \<le> off" and "off < 2 ^ 63" and "0 \<le> f_offset (fl (ft s) f)" and "f_offset (fl (ft s) f) \<le> DEV_OFF_MAX"
    and "\<forall>z. getattr (f_up (fl (ft s) f)) = Inr z \<longrightarrow> 0 \<le> z \<and> z < 2 ^ 32"
  shows "\<exists>s' r. lseek_end vt getattr t j f off sbase offp s = Some s' \<and> fsys_ok cf s' \<and> fthr s' ! t = FIdle \<and> fres s' = Some r
     \<and> (let fp = fl (ft s) f; x = seek_base getattr fp sbase + off in
        if seekable vt getattr fp sbase offp \<and> 0 \<le> x \<and> x \<le> seek_max vt fp offp
        then ft s' = set_fl f (set_offset x 0) (ft s) \<and> r = Inr (if offp = None then x else 0)
        else ft s' = ft s \<and> (\<exists>e. r = Inl e \<and> (seekable vt getattr fp sbase offp \<longrightarrow> e = EINVAL)))"
proof -
  note ok = run_ok [OF assms(1-3)] and t = assms(4,5)
  let ?x = "seek_base getattr (fl (ft s) f) sbase + off"
  obtain k r where b: "lseek_body vt getattr f off sbase offp (ft s) = (k, r)" by (cases "lseek_body vt getattr f off sbase offp (ft s)")
  note c = lseek_body_cases [where vt = vt and sbase = sbase and offp = offp and getattr = getattr and k = "ft s" and f = f, OF assms(6-10) refl, unfolded b]
  have k: "k = ft s \<or> k = set_fl f (set_offset ?x 0) (ft s)" using c by (auto split: if_splits)
  from call_end_ok [OF ok t, of r ?x 0 k] k obtain u where u: "ufdrele (int j) (own_proc s t) = Some (u, None)"
    "fsys_ok cf (done_call t r k u s)" "fthr (done_call t r k u s) ! t = FIdle" by blast
  let ?s' = "done_call t r k u s"
  have e: "lseek_end vt getattr t j f off sbase offp s = Some ?s'" using u(1) by (simp add: lseek_end_def b)
  have f: "ft ?s' = k" "fres ?s' = Some r" by (simp_all add: done_call_def)
  have p: "if seekable vt getattr (fl (ft s) f) sbase offp \<and> 0 \<le> ?x \<and> ?x \<le> seek_max vt (fl (ft s) f) offp
      then k = set_fl f (set_offset ?x 0) (ft s) \<and> r = Inr (if offp = None then ?x else 0)
      else k = ft s \<and> (\<exists>e. r = Inl e \<and> (seekable vt getattr (fl (ft s) f) sbase offp \<longrightarrow> e = EINVAL))"
    by (cases "seekable vt getattr (fl (ft s) f) sbase offp \<and> 0 \<le> ?x \<and> ?x \<le> seek_max vt (fl (ft s) f) offp") (use c in \<open>simp, simp only: if_False snd_conv prod.inject, blast\<close>)
  show ?thesis unfolding Let_def
    by (rule exI [of _ ?s'], rule exI [of _ r], rule conjI [OF e], rule conjI [OF u(2)], rule conjI [OF u(3)], rule conjI [OF f(2)]) (unfold f(1), rule p)
qed

theorem lseek_outcome_witness:
  "\<exists>s'. lseek_end (\<lambda>vp. VREG) (\<lambda>vp. Inr 500) 0 0 0 (- 100) 2 None (fd_ex ex_use) = Some s' \<and> fsys_ok fd_cf s' \<and> fres s' = Some (Inr 400)"
proof -
  have "case lseek_end (\<lambda>vp. VREG) (\<lambda>vp. Inr 500) 0 0 0 (- 100) 2 None (fd_ex ex_use) of None \<Rightarrow> False | Some s' \<Rightarrow> fres s' = Some (Inr 400)" by code_simp
  moreover have "\<exists>s' r. lseek_end (\<lambda>vp. VREG) (\<lambda>vp. Inr 500) 0 0 0 (- 100) 2 None (fd_ex ex_use) = Some s' \<and> fsys_ok fd_cf s'"
    using lseek_outcome [where vt = "\<lambda>vp. VREG" and getattr = "\<lambda>vp. Inr 500" and off = "- 100" and sbase = 2 and offp = None,
        OF _ _ fd_ex_Some ex_use_now(1,2)] ex_use_now(3) by (fastforce simp: DEV_OFF_MAX_def)
  ultimately show ?thesis by auto
qed

end
