(* ===== verification/FdLockProps.thy ===== *)
theory FdLockProps
  imports FdLock RdwrProps
begin

text \<open>
  What the calls for record locks do, from the system call to the map of bytes that a file's list of locks stands for: the bytes a request names, the end
  of a call with its mark on the descriptor, and the three calls: to set a lock, to ask for one, and to close.
\<close>

section \<open>The bytes of a request\<close>

text \<open>The first and the last byte that a request \<open>ld\<close> names, at the offset \<open>off\<close> of a file of size \<open>sz\<close>, as numbers without a bound; and the request in these terms.\<close>

definition first_byte :: "int \<Rightarrow> int \<Rightarrow> eflock \<Rightarrow> int" where
  "first_byte sz off ld = l_start ld + (if l_whence ld = 1 then off else if l_whence ld = 2 then sz else 0)"

definition last_byte :: "int \<Rightarrow> int \<Rightarrow> eflock \<Rightarrow> int" where
  "last_byte sz off ld = (if l_len ld = 0 then MAXEND else first_byte sz off ld + l_len ld - 1)"

definition bytes_of :: "int \<Rightarrow> int \<Rightarrow> eflock \<Rightarrow> eflock" where
  "bytes_of sz off ld = ld\<lparr>l_whence := 0, l_start := first_byte sz off ld, l_len := last_byte sz off ld\<rparr>"

definition names_bytes :: "int \<Rightarrow> int \<Rightarrow> eflock \<Rightarrow> bool" where
  "names_bytes sz off ld \<longleftrightarrow> l_whence ld \<in> {0, 1, 2} \<and> 0 \<le> l_len ld \<and> 0 \<le> first_byte sz off ld \<and> first_byte sz off ld \<le> last_byte sz off ld"

text \<open>No sum of the call leaves 64 bits.\<close>

definition in_int32 :: "int \<Rightarrow> bool" where
  "in_int32 x \<longleftrightarrow> - (2 ^ 31) \<le> x \<and> x < 2 ^ 31"

definition offset_ok :: "int \<Rightarrow> bool" where
  "offset_ok x \<longleftrightarrow> 0 \<le> x \<and> x \<le> DEV_OFF_MAX"

lemma convoff_first:
  assumes "offset_ok sz" and "offset_ok off" and "in_int32 (l_start ld)" and "l_whence ld \<in> {0, 1, 2}"
  shows "convoff sz off ld 0 =
    (if first_byte sz off ld < 0 then (Some EINVAL, ld\<lparr>l_start := first_byte sz off ld\<rparr>) else (None, ld\<lparr>l_whence := 0, l_start := first_byte sz off ld\<rparr>))"
proof -
  have "wrap64 (l_start ld + off) = l_start ld + off" "wrap64 (l_start ld + sz) = l_start ld + sz"
    using assms(1-3) by (auto simp: offset_ok_def in_int32_def DEV_OFF_MAX_def intro!: wrap64_id)
  with assms(4) show ?thesis by (auto simp: convoff_def first_byte_def)
qed

lemma lock_span_bytes:
  assumes "offset_ok (q_size r)" and "offset_ok (q_off r)" and "in_int32 (l_start ld)" and "in_int32 (l_len ld)" and "l_whence ld \<in> {0, 1, 2}"
    and "0 \<le> first_byte (q_size r) (q_off r) ld"
  shows "fst (convoff (q_size r) (q_off r) ld 0) = None" and "lock_span r ld = bytes_of (q_size r) (q_off r) ld"
proof -
  note c = convoff_first [OF assms(1-3,5)]
  show "fst (convoff (q_size r) (q_off r) ld 0) = None" using c assms(6) by simp
  have "first_byte (q_size r) (q_off r) ld < 2 ^ 62"
    using assms(1-3) by (auto simp: first_byte_def offset_ok_def in_int32_def DEV_OFF_MAX_def)
  then have "wrap64 (l_len ld + (first_byte (q_size r) (q_off r) ld - 1)) = l_len ld + (first_byte (q_size r) (q_off r) ld - 1)"
    using assms(4,6) by (auto simp: in_int32_def intro!: wrap64_id)
  then show "lock_span r ld = bytes_of (q_size r) (q_off r) ld"
    using c assms(6) by (simp add: lock_span_def bytes_of_def last_byte_def algebra_simps)
qed

lemma reclock_refuses:
  assumes "offset_ok (q_size r)" and "offset_ok (q_off r)" and "in_int32 (l_start ld)" and "in_int32 (l_len ld) \<or> l_len ld < 0"
    and "\<not> names_bytes (q_size r) (q_off r) ld"
  shows "\<exists>ld'. common_reclock cf rrc r ld rid k = LRet k ld' rid (Some EINVAL) \<and> l_type ld' = l_type ld"
proof (cases "l_whence ld \<in> {0, 1, 2} \<and> 0 \<le> first_byte (q_size r) (q_off r) ld")
  case True
  note c = convoff_first [OF assms(1-3) conjunct1 [OF True]]
  show ?thesis
  proof (cases "0 \<le> l_len ld")
    case len: True
    then have "in_int32 (l_len ld)" using assms(4) by linarith
    note s = lock_span_bytes [OF assms(1-3) this, OF conjunct1 [OF True] conjunct2 [OF True]]
    have "\<not> first_byte (q_size r) (q_off r) ld \<le> last_byte (q_size r) (q_off r) ld" using assms(5) True len by (auto simp: names_bytes_def)
    then have "l_start (lock_span r ld) > l_end (lock_span r ld)" unfolding s(2) by (simp add: bytes_of_def)
    then show ?thesis using c True len unfolding lock_span_def by (auto simp: common_reclock_def Let_def split: if_splits)
  qed (use c True in \<open>auto simp: common_reclock_def Let_def\<close>)
next
  case False
  have "l_type (snd (convoff (q_size r) (q_off r) ld 0)) = l_type ld" by (simp add: convoff_keeps)
  moreover have "fst (convoff (q_size r) (q_off r) ld 0) = Some EINVAL"
  proof (cases "l_whence ld \<in> {0, 1, 2}")
    case True
    with False show ?thesis using convoff_first [OF assms(1-3)] by auto
  qed (simp add: convoff_def)
  ultimately show ?thesis by (auto simp: common_reclock_def Let_def split: prod.splits option.splits)
qed

lemma setlk_named:
  assumes "reclock_ok (nflox_max cf) ngn k" and "q_gp r < ngn" and "q_cmd r AND SETFLCK \<noteq> 0"
    and "l_type ld = F_RDLCK \<or> l_type ld = F_WRLCK \<or> l_type ld = F_UNLCK"
    and "offset_ok (q_size r)" and "offset_ok (q_off r)" and "in_int32 (l_start ld)" and "in_int32 (l_len ld)"
    and "names_bytes (q_size r) (q_off r) ld"
  shows "setlk_post (q_gp r) (bytes_of (q_size r) (q_off r) ld) k (common_reclock cf rrc r ld 0 k)"
proof -
  have n: "l_whence ld \<in> {0, 1, 2}" "0 \<le> l_len ld" "0 \<le> first_byte (q_size r) (q_off r) ld" "first_byte (q_size r) (q_off r) ld \<le> last_byte (q_size r) (q_off r) ld"
    using assms(9) by (simp_all add: names_bytes_def)
  note s = lock_span_bytes [OF assms(5-8) n(1,3)]
  have "l_start (lock_span r ld) \<le> l_end (lock_span r ld)" using n(4) unfolding s(2) by (simp add: bytes_of_def)
  note b = common_reclock_body [OF s(1) n(2) this, of cf rrc 0 k]
  have "setlk_post (q_gp r) (lock_span r ld) k (reclock_body cf rrc r (l_whence ld) (lock_span r ld) 0 k)"
    by (rule setlk_body [OF assms(1,2) _ _ assms(3)]) (use b assms(4) in simp_all)
  then show ?thesis using b s(2) by simp
qed

section \<open>The end of a call\<close>

lemma done_after_set_proc:
  "owner s ! t < length (procs s) \<Longrightarrow> done_call t r (ft s) u' (set_proc (owner s ! t) u s) = done_call t r (ft s) u' s"
  by (simp add: done_call_def set_fthr_def set_proc_def)

lemma upd_keeps: "(\<And>x. g (h x) = g x) \<Longrightarrow> g (upd xs i h ! j) = g (xs ! j)"
  by (cases "i < length xs") (auto simp: upd_def nth_list_update)

lemma ufdrele_keeps:
  assumes "ufdrele fd u = Some (u', rc)"
  shows "U_lockflag u' = U_lockflag u" and "U_maxofile u' = U_maxofile u" and "uf_fp (uf u' i) = uf_fp (uf u i)" and "uf_flags (uf u' i) = uf_flags (uf u i)"
  using assms by (auto simp: ufdrele_def Let_def set_uf_def upd_keeps [where g = uf_fp] upd_keeps [where g = uf_flags] split: if_splits)

lemma mark_lock_keeps:
  shows "U_lockflag (mark_lock j u)" and "U_maxofile (mark_lock j u) = U_maxofile u" and "uf_fp (uf (mark_lock j u) i) = uf_fp (uf u i)"
    and "j < length (U_ufd u) \<Longrightarrow> has UF_FDLOCK (uf (mark_lock j u) j)"
  by (simp_all add: mark_lock_def set_uf_def upd_keeps [where g = uf_fp] nth_upd has_def word_ao_absorbs UF_FDLOCK_def)

text \<open>The call of \<open>t\<close> is over: the state is a good one, the table of files is unchanged, and the result is \<open>r\<close>.\<close>

definition over :: "fcfg \<Rightarrow> nat \<Rightarrow> errno + int \<Rightarrow> fsys \<Rightarrow> fsys \<Rightarrow> bool" where
  "over fc t r s s' \<longleftrightarrow> fsys_ok fc s' \<and> fthr s' ! t = FIdle \<and> ft s' = ft s \<and> fres s' = Some r"

lemma give_back_ok:
  assumes ok: "fsys_ok fc s" and t: "t < length (fthr s)" "fthr s ! t = FUse j f" and u: "u = own_proc s t \<or> u = mark_lock j (own_proc s t)"
  shows "\<exists>s'. give_back t j rc u out k s = Some (CDone k s' out) \<and> over fc t (lock_result rc) s s'
    \<and> (u = mark_lock j (own_proc s t) \<and> f_type (fl (ft s) f) = DTYPE_VNODE \<longrightarrow> U_lockflag (own_proc s' t) \<and> marked_for (ft s') f (own_proc s' t))"
proof -
  let ?s = "set_proc (owner s ! t) u s"
  have o: "owner s ! t < length (procs s)" using fsys_okD(2) [OF ok t(1)] .
  have "same_ufd (own_proc s t) u" using u same_mark same_ufd_triv by blast
  then have ok': "fsys_ok fc ?s" by (rule set_proc_ok [OF ok t(1)])
  have p: "own_proc ?s t = u" "t < length (fthr ?s)" "fthr ?s ! t = FUse j f" using o t by (simp_all add: set_proc_def)
  obtain u' where r: "ufdrele (int j) u = Some (u', None)" "fsys_ok fc (done_call t (lock_result rc) (ft s) u' s)"
    "fthr (done_call t (lock_result rc) (ft s) u' s) ! t = FIdle"
    using call_end_ok [OF ok' p(2,3), of "lock_result rc" 0 0 "ft s"] done_after_set_proc [OF o] unfolding p(1) by (auto simp: set_proc_def)
  let ?s' = "done_call t (lock_result rc) (ft s) u' s"
  have own: "own_proc ?s' t = u'" "ft ?s' = ft s" "fres ?s' = Some (lock_result rc)" using o by (simp_all add: done_call_def set_fthr_def set_proc_def)
  have "U_lockflag u' \<and> marked_for (ft s) f u'" if m: "u = mark_lock j (own_proc s t)" "f_type (fl (ft s) f) = DTYPE_VNODE"
  proof -
    note inv = pinvD [OF own_inv [OF ok t(1)]]
    have j: "j < U_maxofile (own_proc s t)" using inv(7) [of t] thr_of_view [OF t(1)] t(2) by simp
    then have "j < length (U_ufd (own_proc s t))" using inv(1,2) by simp
    then have "has UF_FDLOCK (uf u j)" using mark_lock_keeps(4) m(1) by blast
    moreover have "uf_fp (uf u' j) = Some f" using ufdrele_keeps(3) [OF r(1)] mark_lock_keeps(3) m(1) use_held(1) [OF ok t] by simp
    ultimately have "lock_marked (ft s) (uf u' j)" "same_vnode (ft s) f (uf u' j)"
      using ufdrele_keeps(4) [OF r(1), of j] m(2) by (simp_all add: lock_marked_def same_vnode_def has_def)
    then have "marked_for (ft s) f u'" using j ufdrele_keeps(2) [OF r(1)] mark_lock_keeps(2) m(1) by (auto simp: marked_for_def list_ex_iff)
    then show ?thesis using ufdrele_keeps(1) [OF r(1)] mark_lock_keeps(1) m(1) by simp
  qed
  moreover have "give_back t j rc u out k s = Some (CDone k ?s' out)" by (simp add: give_back_def r(1))
  ultimately show ?thesis using r own by (intro exI [of _ ?s']) (simp add: over_def)
qed

section \<open>Setting a lock\<close>

text \<open>What a call that sets or releases the lock \<open>e\<close> on the file \<open>gp\<close> comes to; \<open>f\<close> is the open file.\<close>

definition lock_outcome :: "fcfg \<Rightarrow> nat \<Rightarrow> eflock \<Rightarrow> nat \<Rightarrow> nat \<Rightarrow> fsys \<Rightarrow> locksys \<Rightarrow> lock_call \<Rightarrow> bool" where
  "lock_outcome fc gp e t f s k c \<longleftrightarrow>
     (let clash = (l_type e \<noteq> F_UNLCK \<and> (\<exists>p \<in> set (views k ! gp). blocks (snd p) e)) in
      case c of
        CDone k' s' out \<Rightarrow>
          if over fc t (Inr 0) s s'
          then \<not> clash \<and> U_lockflag (own_proc s' t) \<and> marked_for (ft s') f (own_proc s' t)
            \<and> (\<exists>v. views k' = (views k)[gp := v] \<and> vok v \<and> overridden (views k ! gp) e v)
          else if clash then views k' = views k \<and> (\<exists>x \<in> {EACCES, EDEADLK, ENOLCK}. over fc t (Inl x) s s')
          else over fc t (Inl ENOLCK) s s'
            \<and> (\<exists>v. views k' = (views k)[gp := v] \<and> vok v \<and> (\<forall>w b ty. w \<noteq> owner_of e \<longrightarrow> holds v w b ty = holds (views k ! gp) w b ty))
      | CAsleep k' z s' \<Rightarrow> clash \<and> s' = s \<and> views k' = views k \<and> z_ld z = e
      | CHang \<Rightarrow> clash)"

lemma over_one: "over fc t r s s' \<Longrightarrow> over fc t r' s s' = (r' = r)"
  by (auto simp: over_def)

text \<open>The code an error is given back as.\<close>

definition as_access :: "uerror \<Rightarrow> uerror" where
  "as_access rc = (if rc = Some EAGAIN then Some EACCES else rc)"

lemma outcome_done:
  assumes "setlk_post gp e k (LRet k' ld rid rc)" and "over fc t (lock_result (as_access rc)) s s'"
    and "rc = None \<Longrightarrow> U_lockflag (own_proc s' t) \<and> marked_for (ft s') f (own_proc s' t)"
  shows "lock_outcome fc gp e t f s k (CDone k' s' out)"
proof (cases "l_type e \<noteq> F_UNLCK \<and> (\<exists>p \<in> set (views k ! gp). blocks (snd p) e)")
  case True
  then have "views k' = views k" "rc \<in> {Some EAGAIN, Some EDEADLK, Some ENOLCK}" using assms(1) by (auto simp: setlk_post_def)
  with True assms(2) show ?thesis by (auto simp: lock_outcome_def over_one [OF assms(2)] as_access_def lock_result_def)
next
  case False
  then obtain v where v: "views k' = (views k)[gp := v]" "vok v" "if rc = None then overridden (views k ! gp) e v
      else rc = Some ENOLCK \<and> (\<forall>w b ty. w \<noteq> owner_of e \<longrightarrow> holds v w b ty = holds (views k ! gp) w b ty)"
    using assms(1) unfolding setlk_post_def Let_def lock_res.case if_not_P [OF False] by blast
  show ?thesis
  proof (cases rc)
    case None
    then have o: "over fc t (Inr 0) s s'" using assms(2) by (simp add: as_access_def lock_result_def)
    show ?thesis unfolding lock_outcome_def Let_def lock_call.case if_P [OF o] using False assms(3) [OF None] v None by auto
  next
    case (Some x)
    then have x: "x = ENOLCK" using v(3) by simp
    then have o: "over fc t (Inl ENOLCK) s s'" using assms(2) Some by (simp add: as_access_def lock_result_def)
    then have n: "\<not> over fc t (Inr 0) s s'" by (simp add: over_one [OF o])
    show ?thesis unfolding lock_outcome_def Let_def lock_call.case if_not_P [OF n] if_not_P [OF False]
      by (rule conjI [OF o]) (rule exI [of _ v], use v Some in simp)
  qed
qed

lemma outcome_waits:
  "setlk_post gp e k (LSleep k' z) \<Longrightarrow> lock_outcome fc gp e t f s k (CAsleep k' z s)" "setlk_post gp e k LHang \<Longrightarrow> lock_outcome fc gp e t f s k CHang"
  by (simp_all add: lock_outcome_def setlk_post_def Let_def)

lemma lockf_fin_outcome:
  assumes ok: "fsys_ok fc s" and t: "t < length (fthr s)" "fthr s ! t = FUse j f" and v: "f_type (fl (ft s) f) = DTYPE_VNODE"
    and res: "setlk_post gp e k res" and l: "locking AND SETFLCK \<noteq> 0" "function \<noteq> F_TEST"
  shows "\<exists>c. lockf_fin t j function locking res s = Some c \<and> lock_outcome fc gp e t f s k c"
proof (cases res)
  case (LRet k' ld rid rc)
  let ?u = "if rc = None then mark_lock j (own_proc s t) else own_proc s t"
  have "lockf_fin t j function locking res s = give_back t j (as_access rc) ?u None k' s"
    using l LRet by (auto simp: lockf_fin_def as_access_def split: option.split)
  with give_back_ok [OF ok t, of ?u "as_access rc" None k'] v outcome_done [OF res [unfolded LRet]] show ?thesis by (cases rc) auto
qed (use res outcome_waits in \<open>auto simp: lockf_fin_def\<close>)

lemma setlk_fin_outcome:
  assumes ok: "fsys_ok fc s" and t: "t < length (fthr s)" "fthr s ! t = FUse j f" and v: "f_type (fl (ft s) f) = DTYPE_VNODE"
    and res: "setlk_post gp e k res"
  shows "\<exists>c. setlk_fin t j res s = Some c \<and> lock_outcome fc gp e t f s k c"
proof (cases res)
  case (LRet k' ld rid rc)
  let ?u = "if rc = Some EAGAIN then own_proc s t else mark_lock j (own_proc s t)"
  have "rc \<noteq> Some EINTR" using res unfolding LRet setlk_post_def Let_def by (auto split: if_splits)
  then have "setlk_fin t j res s = give_back t j (as_access rc) ?u None k' s" using LRet by (simp add: setlk_fin_def as_access_def)
  with give_back_ok [OF ok t, of ?u "as_access rc" None k'] v outcome_done [OF res [unfolded LRet]] show ?thesis by (cases "rc = Some EAGAIN") auto
qed (use res outcome_waits in \<open>auto simp: setlk_fin_def\<close>)

text \<open>The table of locks in a state that calls and wake-ups reach.\<close>

lemma reach_ok:
  assumes "nmin \<le> nflox_max cf" and "run (reclock_next cf rrc) ls (flckinit ngn nmin, []) = Some (k, zs)"
  shows "reclock_ok (nflox_max cf) ngn k"
  using reclock_machine.run_inv [OF flckinit_inv [OF assms(1)] assms(2)] by (simp add: reclock_inv_def)

text \<open>
  A file in enforcement mode that is mapped for writing takes no request at all, not even one to unlock, and one that is mapped for reading none for a write lock.
\<close>

definition refused :: "lnode \<Rightarrow> int \<Rightarrow> bool" where
  "refused v ty \<longleftrightarrow> ENF_LOCK (i_mode v) \<and> (gn_mrdcnt v \<noteq> 0 \<and> ty = F_WRLCK \<or> gn_mwrcnt v \<noteq> 0)"

lemma jfs_open: "\<not> refused v (l_type ld) \<Longrightarrow> jfs_lockctl cf rrc v off ld cmd fcn rid thr k
    = common_reclock cf rrc \<lparr>q_gp = ln_gp v, q_size = i_size v, q_off = off, q_cmd = cmd OR INOFLCK, q_fcn = fcn, q_thr = thr\<rparr> ld rid k"
  by (auto simp: jfs_lockctl_def refused_def)

lemma jfs_refuses: "refused v (l_type ld) \<Longrightarrow> jfs_lockctl cf rrc v off ld cmd fcn rid thr k = LRet k ld rid (Some EMFILE)"
  by (auto simp: jfs_lockctl_def refused_def)

lemma open_mode [simp]: "\<not> ENF_LOCK (i_mode v) \<Longrightarrow> \<not> refused v ty"
  by (simp add: refused_def)

definition section_first :: "int \<Rightarrow> int \<Rightarrow> int" where
  "section_first off sz = (if sz < 0 then off + sz else off)"

definition section_last :: "int \<Rightarrow> int \<Rightarrow> int" where
  "section_last off sz = (if sz = 0 then MAXEND else if sz < 0 then off - 1 else off + sz - 1)"

definition lockf_entry :: "int \<Rightarrow> int \<Rightarrow> int \<Rightarrow> int \<Rightarrow> int \<Rightarrow> eflock" where
  "lockf_entry function pid vfs off sz = \<lparr>l_type = (if function = F_ULOCK then F_UNLCK else F_WRLCK), l_whence = 0, l_sysid = 0, l_pid = pid, l_vfs = vfs,
     l_start = section_first off sz, l_len = section_last off sz\<rparr>"

lemma lockf_asks_type:
  "lockf_ask fp function sz pid vfs = Inr (ld, locking) \<Longrightarrow> function \<in> {F_ULOCK, F_LOCK, F_TLOCK} \<Longrightarrow> l_type ld = (if function = F_ULOCK then F_UNLCK else F_WRLCK)"
  by (auto simp: lockf_ask_def lockf_section_def Let_def split: if_splits)

lemma lockf_asks:
  assumes "lockf_ask fp function sz pid vfs = Inr (ld, locking)" and "function \<in> {F_ULOCK, F_LOCK, F_TLOCK}" and "in_int32 sz"
  shows "locking AND SETFLCK \<noteq> 0" and "in_int32 (l_start ld)" and "in_int32 (l_len ld)" and "l_type ld = F_RDLCK \<or> l_type ld = F_WRLCK \<or> l_type ld = F_UNLCK"
    and "names_bytes len off ld \<longleftrightarrow> - (2 ^ 31) < sz \<and> 0 \<le> section_first off sz \<and> section_first off sz \<le> section_last off sz"
    and "names_bytes len off ld \<Longrightarrow> bytes_of len off ld = lockf_entry function pid vfs off sz"
proof -
  have w: "wrap32 (- sz) = (if sz = - (2 ^ 31) then sz else - sz)" using assms(3) by (auto simp: in_int32_def wrap32_def)
  show "locking AND SETFLCK \<noteq> 0" "in_int32 (l_start ld)" "in_int32 (l_len ld)" "l_type ld = F_RDLCK \<or> l_type ld = F_WRLCK \<or> l_type ld = F_UNLCK"
    using assms w by (auto simp: lockf_ask_def lockf_section_def Let_def in_int32_def split: if_splits)
  show n: "names_bytes len off ld \<longleftrightarrow> - (2 ^ 31) < sz \<and> 0 \<le> section_first off sz \<and> section_first off sz \<le> section_last off sz"
    using assms w by (auto simp: lockf_ask_def lockf_section_def Let_def in_int32_def names_bytes_def first_byte_def last_byte_def section_first_def section_last_def split: if_splits)
  show "bytes_of len off ld = lockf_entry function pid vfs off sz" if "names_bytes len off ld"
    using assms w that unfolding n
    by (auto simp: lockf_ask_def lockf_section_def Let_def in_int32_def bytes_of_def first_byte_def last_byte_def section_first_def section_last_def lockf_entry_def split: if_splits)
qed

definition ex_node :: "nat option \<Rightarrow> lnode" where
  "ex_node vp = \<lparr>ln_gp = 0, i_size = 500, i_mode = 0, gn_mrdcnt = 0, gn_mwrcnt = 0, vfs_type = 0\<rparr>"

text \<open>A call that does not ask to wait comes back at once.\<close>

definition returns :: "lock_res \<Rightarrow> bool" where
  "returns res = (case res of LRet k ld rid rc \<Rightarrow> True | _ \<Rightarrow> False)"

lemma end_returns [simp]: "returns (reclock_end r whence ld rid rc k)"
  by (simp add: returns_def reclock_end_def Let_def)

lemma reclock_returns:
  assumes "q_fcn r = 0" and "q_cmd r AND SLPFLCK = 0"
  shows "returns (common_reclock cf rrc r ld rid k)"
proof -
  have "returns (reclock_body cf rrc r whence ld rid k)" for whence ld
    using assms by (auto simp: reclock_body_def Let_def split: prod.split option.split)
  moreover have "returns (LRet k ld rid rc)" for ld rc by (simp add: returns_def)
  ultimately show ?thesis unfolding common_reclock_def Let_def by (auto split: prod.split option.split)
qed

text \<open>
  C38. \<open>lockf\<close> on an open file of the journaled file system, whatever other threads and processes have done before by legal calls: at offset \<open>off\<close> it
  locks or unlocks exactly the bytes from \<open>off\<close>
  to \<open>off + sz - 1\<close>, from \<open>off + sz\<close> to \<open>off - 1\<close> if \<open>sz\<close> is negative, or all from \<open>off\<close> to \<open>MAXEND\<close> if it is 0, and marks the descriptor so that a close
  will unlock them. With no lock changed, where another process has one of them locked, it fails with \<open>EACCES\<close>, \<open>EDEADLK\<close> or \<open>ENOLCK\<close>, or, for \<open>F_LOCK\<close> only, waits or does not come
  back from its deadlock check; with \<open>EINVAL\<close> where there are no such bytes; and with \<open>EMFILE\<close> where the file is in enforcement mode and mapped (\<open>refused\<close>).
  There is one more outcome: where nobody is in the way it can fail with \<open>ENOLCK\<close>, the table being full, and then the locks that other owners have are as before but
  those the caller has on the file may have changed. The descriptor is given back unless the call waits, and no file changes.
\<close>

theorem lockf_locks_section:
  assumes "0 < np" and "0 < nt" and "run (fd_next fc) es (finit fc np nt) = Some s" and "t < length (fthr s)" and "fthr s ! t = FUse j f"
    and "nmin \<le> nflox_max cf" and "run (reclock_next cf rrc) ls (flckinit ngn nmin, []) = Some (k, zs)" and "list_all lock_legal ls"
    and "f_type (fl (ft s) f) = DTYPE_VNODE" and "node (f_up (fl (ft s) f)) = v" and "f_offset (fl (ft s) f) = off"
    and "ln_gp v < ngn" and "offset_ok (i_size v)" and "offset_ok off" and "in_int32 sz"
    and "function \<in> {F_ULOCK, F_LOCK, F_TLOCK}" and "function = F_ULOCK \<or> f_flag (fl (ft s) f) AND FWRITE \<noteq> 0"
  shows "\<exists>c. lockf_end cf rrc node pid t j f function sz k s = Some c
    \<and> (function \<noteq> F_LOCK \<longrightarrow> (\<exists>k' s' out. c = CDone k' s' out))
    \<and> (if refused v (if function = F_ULOCK then F_UNLCK else F_WRLCK) then \<exists>s'. c = CDone k s' None \<and> over fc t (Inl EMFILE) s s'
       else if - (2 ^ 31) < sz \<and> 0 \<le> section_first off sz \<and> section_first off sz \<le> section_last off sz
       then lock_outcome fc (ln_gp v) (lockf_entry function pid (vfs_type v) off sz) t f s k c
       else \<exists>s'. c = CDone k s' None \<and> over fc t (Inl EINVAL) s s')"
proof -
  note ok = run_ok [OF assms(1-3)] and kok = reach_ok [OF assms(6,7)]
  let ?ty = "if function = F_ULOCK then F_UNLCK else F_WRLCK"
  obtain ld locking where a: "lockf_ask (fl (ft s) f) function sz pid (vfs_type v) = Inr (ld, locking)"
    using assms(16,17) by (cases "lockf_section sz") (auto simp: lockf_ask_def)
  note req = lockf_asks(1-4) [OF a assms(16,15)] lockf_asks(5,6) [OF a assms(16,15), where len = "i_size v" and off = off]
  note ty = lockf_asks_type [OF a assms(16)]
  let ?r = "\<lparr>q_gp = ln_gp v, q_size = i_size v, q_off = off, q_cmd = locking OR INOFLCK, q_fcn = 0, q_thr = t\<rparr>"
  have err: "\<exists>s'. give_back t j (Some x) (own_proc s t) None k s = Some (CDone k s' None) \<and> over fc t (Inl x) s s'" for x
    using give_back_ok [OF ok assms(4,5), of "own_proc s t" "Some x" None k] by (auto simp: lock_result_def)
  show ?thesis
  proof (cases "refused v ?ty")
    case True
    then have e: "lockf_end cf rrc node pid t j f function sz k s = give_back t j (Some EMFILE) (own_proc s t) None k s"
      using a assms(10,11) jfs_refuses [of v ld] ty by (simp add: lockf_end_def Let_def lockf_fin_def)
    from err [of EMFILE] True show ?thesis unfolding e by auto
  next
    case open_: False
    then have e: "lockf_end cf rrc node pid t j f function sz k s = lockf_fin t j function locking (common_reclock cf rrc ?r ld 0 k) s"
      using a assms(10,11) jfs_open [of v ld] ty by (simp add: lockf_end_def Let_def)
    have set: "(locking OR INOFLCK) AND SETFLCK \<noteq> 0" using req(1) by (simp add: bit.conj_disj_distrib2)
    show ?thesis
    proof (cases "names_bytes (i_size v) off ld")
      case True
      have post: "setlk_post (q_gp ?r) (bytes_of (q_size ?r) (q_off ?r) ld) k (common_reclock cf rrc ?r ld 0 k)"
        by (rule setlk_named [OF kok]) (use assms(12-14) set req(2-4) True in simp_all)
      have "function \<noteq> F_TEST" using assms(16) by auto
      from lockf_fin_outcome [OF ok assms(4,5,9) post req(1) this] obtain c where
        c: "lockf_fin t j function locking (common_reclock cf rrc ?r ld 0 k) s = Some c"
          "lock_outcome fc (ln_gp v) (bytes_of (i_size v) off ld) t f s k c" by auto
      have "\<exists>k' s' out. c = CDone k' s' out" if "function \<noteq> F_LOCK"
      proof -
        have "locking = SETFLCK" using a assms(16) that by (auto simp: lockf_ask_def Let_def split: if_splits prod.splits)
        then have "returns (common_reclock cf rrc ?r ld 0 k)" by (intro reclock_returns) simp_all
        then show ?thesis using c(1) by (auto simp: returns_def lockf_fin_def give_back_def split: lock_res.splits option.splits)
      qed
      then show ?thesis using c open_ True req(5,6) unfolding e by auto
    next
      case False
      then obtain ld' where r: "common_reclock cf rrc ?r ld 0 k = LRet k ld' 0 (Some EINVAL)"
        using reclock_refuses [of ?r ld cf rrc 0 k] assms(13,14) req(2,3) by auto
      from err [of EINVAL] show ?thesis using False req(5) open_ unfolding e r by (auto simp: lockf_fin_def)
    qed
  qed
qed

theorem lockf_locks_section_witness:
  "\<exists>k k' s'. run (reclock_next ex_cf ex_rrc) ex_lrun (flckinit 1 10, []) = Some (k, [])
     \<and> lockf_end ex_cf ex_rrc ex_node 3 0 0 0 F_TLOCK 5 k (fd_ex ex_use) = Some (CDone k' s' None) \<and> views k' = views k
     \<and> over fd_cf 0 (Inl EACCES) (fd_ex ex_use) s'"
proof -
  obtain k where k: "run (reclock_next ex_cf ex_rrc) ex_lrun (flckinit 1 10, []) = Some (k, [])"
    "views k = [[(9, (ex_lk F_WRLCK 1 0 9)), (8, (ex_lk F_RDLCK 2 20 29))]]"
    using ex_lrun_views by blast
  have f: "f_type (fl (ft (fd_ex ex_use)) 0) = DTYPE_VNODE" "f_flag (fl (ft (fd_ex ex_use)) 0) AND FWRITE \<noteq> 0" by code_simp+
  have "case run (reclock_next ex_cf ex_rrc) ex_lrun (flckinit 1 10, []) of None \<Rightarrow> False
    | Some (k, zs) \<Rightarrow> (case lockf_end ex_cf ex_rrc ex_node 3 0 0 0 F_TLOCK 5 k (fd_ex ex_use) of
        Some (CDone k' s' out) \<Rightarrow> out = None \<and> fres s' = Some (Inl EACCES) \<and> reccnt k' = reccnt k | _ \<Rightarrow> False)" by code_simp
  then obtain k' s' where c: "lockf_end ex_cf ex_rrc ex_node 3 0 0 0 F_TLOCK 5 k (fd_ex ex_use) = Some (CDone k' s' None)" "fres s' = Some (Inl EACCES)"
    using k(1) by (auto split: option.splits lock_call.splits)
  have lg: "list_all lock_legal ex_lrun" by code_simp
  have "\<exists>c. lockf_end ex_cf ex_rrc ex_node 3 0 0 0 F_TLOCK 5 k (fd_ex ex_use) = Some c
    \<and> (F_TLOCK \<noteq> F_LOCK \<longrightarrow> (\<exists>k' s' out. c = CDone k' s' out))
    \<and> (if refused (ex_node (Some 7)) (if F_TLOCK = F_ULOCK then F_UNLCK else F_WRLCK)
       then \<exists>s'. c = CDone k s' None \<and> over fd_cf 0 (Inl EMFILE) (fd_ex ex_use) s'
       else if - (2 ^ 31) < (5 :: int) \<and> 0 \<le> section_first 0 5 \<and> section_first 0 5 \<le> section_last 0 5
       then lock_outcome fd_cf (ln_gp (ex_node (Some 7))) (lockf_entry F_TLOCK 3 (vfs_type (ex_node (Some 7))) 0 5) 0 0 (fd_ex ex_use) k c
       else \<exists>s'. c = CDone k s' None \<and> over fd_cf 0 (Inl EINVAL) (fd_ex ex_use) s')"
    by (rule lockf_locks_section [OF _ _ fd_ex_Some ex_use_now(1,2) _ k(1) lg f(1) _ ex_use_now(3)])
      (use f(2) in \<open>simp_all add: ex_cf_def ex_node_def ENF_LOCK_def offset_ok_def DEV_OFF_MAX_def in_int32_def\<close>)
  moreover have "\<not> refused (ex_node (Some 7)) ty" for ty by (simp add: refused_def ex_node_def ENF_LOCK_def)
  moreover have e: "section_first 0 5 = 0" "section_last 0 5 = 4" "ln_gp (ex_node (Some 7)) = 0" "vfs_type (ex_node (Some 7)) = 0"
    by (simp_all add: section_first_def section_last_def ex_node_def)
  moreover have "l_type (lockf_entry F_TLOCK 3 0 0 5) \<noteq> F_UNLCK" "blocks (ex_lk F_WRLCK 1 0 9) (lockf_entry F_TLOCK 3 0 0 5)" by code_simp+
  then have b: "l_type (lockf_entry F_TLOCK 3 0 0 5) \<noteq> F_UNLCK \<and> (\<exists>p \<in> set (views k ! 0). blocks (snd p) (lockf_entry F_TLOCK 3 0 0 5))" by (simp add: k(2))
  ultimately have o: "lock_outcome fd_cf 0 (lockf_entry F_TLOCK 3 0 0 5) 0 0 (fd_ex ex_use) k (CDone k' s' None)" using c(1) by simp
  have n: "\<not> over fd_cf 0 (Inr 0) (fd_ex ex_use) s'" using c(2) by (simp add: over_def)
  from o c(2) have "views k' = views k" "over fd_cf 0 (Inl EACCES) (fd_ex ex_use) s'"
    unfolding lock_outcome_def Let_def lock_call.case if_not_P [OF n] if_P [OF b] by (auto simp: over_def)
  with k(1) c(1) show ?thesis by blast
qed

lemma extended_bytes: "names_bytes len off (extended lk pid vfs) = names_bytes len off lk"
  by (simp add: extended_def names_bytes_def first_byte_def last_byte_def cong: if_cong)

lemma setlk_calls:
  assumes ok: "fsys_ok fc s" "t < length (fthr s)" "fthr s ! t = FUse j f" and k: "reclock_ok (nflox_max cf) ngn k" "ln_gp v < ngn"
    and v: "f_type (fl (ft s) f) = DTYPE_VNODE" "node (f_up (fl (ft s) f)) = v" "\<not> ENF_LOCK (i_mode v)" "offset_ok (i_size v)" "offset_ok (f_offset (fl (ft s) f))"
    and lk: "setlk_ask vt (fl (ft s) f) arg = Inr lk" "in_int32 (l_start lk)" "in_int32 (l_len lk)" "l_type lk = F_RDLCK \<or> l_type lk = F_WRLCK \<or> l_type lk = F_UNLCK"
    and n: "names_bytes (i_size v) (f_offset (fl (ft s) f)) lk"
  shows "\<exists>c. setlk_end cf rrc node vt pid t j f wait arg k s = Some c
    \<and> lock_outcome fc (ln_gp v) (bytes_of (i_size v) (f_offset (fl (ft s) f)) (extended lk pid (vfs_type v))) t f s k c"
proof -
  let ?off = "f_offset (fl (ft s) f)" and ?lk = "extended lk pid (vfs_type v)"
  let ?r = "\<lparr>q_gp = ln_gp v, q_size = i_size v, q_off = ?off, q_cmd = (if wait then SETFLCK OR SLPFLCK else SETFLCK) OR INOFLCK, q_fcn = 0, q_thr = t\<rparr>"
  have e: "setlk_end cf rrc node vt pid t j f wait arg k s = setlk_fin t j (common_reclock cf rrc ?r ?lk 0 k) s"
    using lk(1) v(2,3) by (simp add: setlk_end_def Let_def jfs_open)
  have "setlk_post (q_gp ?r) (bytes_of (q_size ?r) (q_off ?r) ?lk) k (common_reclock cf rrc ?r ?lk 0 k)"
    by (rule setlk_named [OF k(1)]) (use k(2) v(4,5) lk n in \<open>auto simp: extended_bytes, auto simp: extended_def\<close>)
  then show ?thesis unfolding e using setlk_fin_outcome [OF ok v(1)] by simp
qed

section \<open>Asking for a lock\<close>

lemma getlk_named:
  assumes "reclock_ok (nflox_max cf) ngn k" and "q_gp r < ngn" and "q_cmd r AND SETFLCK = 0" and "q_cmd r AND SLPFLCK = 0" and "q_fcn r = 0"
    and "l_type ld = F_RDLCK \<or> l_type ld = F_WRLCK"
    and "offset_ok (q_size r)" and "offset_ok (q_off r)" and "in_int32 (l_start ld)" and "in_int32 (l_len ld)"
    and "names_bytes (q_size r) (q_off r) ld"
  shows "\<exists>ld'. common_reclock cf rrc r ld 0 k = LRet k ld' 0 None
    \<and> (if \<exists>p \<in> set (views k ! q_gp r). blocks (snd p) (bytes_of (q_size r) (q_off r) ld)
       then \<exists>p \<in> set (views k ! q_gp r). blocks (snd p) (bytes_of (q_size r) (q_off r) ld)
         \<and> l_type ld' = l_type (snd p) \<and> owner_of ld' = owner_of (snd p) \<and> l_type (snd p) \<noteq> F_UNLCK
       else l_type ld' = F_UNLCK)"
proof -
  have n: "l_whence ld \<in> {0, 1, 2}" "0 \<le> l_len ld" "0 \<le> first_byte (q_size r) (q_off r) ld" "first_byte (q_size r) (q_off r) ld \<le> last_byte (q_size r) (q_off r) ld"
    using assms(11) by (simp_all add: names_bytes_def)
  note s = lock_span_bytes [OF assms(7-10) n(1,3)]
  have "l_start (lock_span r ld) \<le> l_end (lock_span r ld)" using n(4) unfolding s(2) by (simp add: bytes_of_def)
  note b = common_reclock_body [OF s(1) n(2) this, of cf rrc 0 k]
  note p = probe_body [OF assms(1,2) _ _ assms(5,4), of "lock_span r ld" cf rrc "l_whence ld" 0]
  have t: "l_type (snd p) \<noteq> F_UNLCK" if "p \<in> set (views k ! q_gp r)" for p
    using reclock_ok_vok [OF assms(1,2)] that by (auto simp: vok_def entry_ok_def)
  show ?thesis
  proof (cases "\<exists>p \<in> set (views k ! q_gp r). blocks (snd p) (bytes_of (q_size r) (q_off r) ld)")
    case True
    then obtain p where p: "p \<in> set (views k ! q_gp r)" "blocks (snd p) (bytes_of (q_size r) (q_off r) ld)"
      "reclock_body cf rrc r (l_whence ld) (lock_span r ld) 0 k = reclock_end r (l_whence ld) (snd p) 0 None k"
      using p b assms(3,6) s(2) by auto
    obtain ld' where "reclock_end r (l_whence ld) (snd p) 0 None k = LRet k ld' 0 None" "l_type ld' = l_type (snd p)" "owner_of ld' = owner_of (snd p)"
      using end_keeps by blast
    with p b True t show ?thesis by auto
  next
    case False
    then have "reclock_body cf rrc r (l_whence ld) (lock_span r ld) 0 k = reclock_end r (l_whence ld) ((lock_span r ld)\<lparr>l_type := F_UNLCK\<rparr>) 0 None k"
      using p b assms(3,6) s(2) by auto
    with end_keeps [of r "l_whence ld" "(lock_span r ld)\<lparr>l_type := F_UNLCK\<rparr>" 0 None k] b False show ?thesis by auto
  qed
qed

text \<open>
  C39. \<open>F_GETLK\<close> tells the truth, in any state of the open files and of the locks: it changes no lock and no file, gives the descriptor back, and puts into the
  caller's structure the kind and the owner of a lock that is in the way of the one asked for, or, where there is none, only \<open>F_UNLCK\<close>.
\<close>

theorem getlk_tells:
  assumes "0 < np" and "0 < nt" and "run (fd_next fc) es (finit fc np nt) = Some s" and "t < length (fthr s)" and "fthr s ! t = FUse j f"
    and "nmin \<le> nflox_max cf" and "run (reclock_next cf rrc) ls (flckinit ngn nmin, []) = Some (k, zs)"
    and "f_type (fl (ft s) f) = DTYPE_VNODE" and "vt (f_up (fl (ft s) f)) \<noteq> VFIFO" and "node (f_up (fl (ft s) f)) = v" and "f_offset (fl (ft s) f) = off"
    and "ln_gp v < ngn" and "\<not> ENF_LOCK (i_mode v)" and "offset_ok (i_size v)" and "offset_ok off"
    and "in_int32 (l_start lk)" and "in_int32 (l_len lk)" and "l_type lk = F_RDLCK \<or> l_type lk = F_WRLCK" and "names_bytes (i_size v) off lk"
  shows "\<exists>s' out. getlk_end cf rrc node vt pid t j f (Some lk) True k s = Some (CDone k s' (Some out)) \<and> over fc t (Inr 0) s s'
    \<and> (let e = bytes_of (i_size v) off (extended lk pid (vfs_type v)) in
       if \<exists>p \<in> set (views k ! ln_gp v). blocks (snd p) e
       then \<exists>p \<in> set (views k ! ln_gp v). blocks (snd p) e \<and> l_type out = l_type (snd p) \<and> owner_of out = owner_of (snd p)
       else out = lk\<lparr>l_type := F_UNLCK\<rparr>)"
proof -
  note ok = run_ok [OF assms(1-3)] and kok = reach_ok [OF assms(6,7)]
  let ?r = "\<lparr>q_gp = ln_gp v, q_size = i_size v, q_off = off, q_cmd = INOFLCK, q_fcn = 0, q_thr = t\<rparr>" and ?lk = "extended lk pid (vfs_type v)"
  have e: "getlk_end cf rrc node vt pid t j f (Some lk) True k s = getlk_fin t j lk True (common_reclock cf rrc ?r ?lk 0 k) s"
    using assms(8-11,13) by (simp add: getlk_end_def Let_def may_lock_def jfs_open)
  have n: "names_bytes (i_size v) off ?lk" using assms(19) by (simp add: extended_bytes)
  have "\<exists>ld'. common_reclock cf rrc ?r ?lk 0 k = LRet k ld' 0 None
    \<and> (if \<exists>p \<in> set (views k ! q_gp ?r). blocks (snd p) (bytes_of (q_size ?r) (q_off ?r) ?lk)
       then \<exists>p \<in> set (views k ! q_gp ?r). blocks (snd p) (bytes_of (q_size ?r) (q_off ?r) ?lk)
         \<and> l_type ld' = l_type (snd p) \<and> owner_of ld' = owner_of (snd p) \<and> l_type (snd p) \<noteq> F_UNLCK
       else l_type ld' = F_UNLCK)"
    by (rule getlk_named [OF kok]) (use assms(12,14-18) n in \<open>simp_all add: extended_def\<close>)
  then obtain ld' where l: "common_reclock cf rrc ?r ?lk 0 k = LRet k ld' 0 None"
    "if \<exists>p \<in> set (views k ! ln_gp v). blocks (snd p) (bytes_of (i_size v) off ?lk)
       then \<exists>p \<in> set (views k ! ln_gp v). blocks (snd p) (bytes_of (i_size v) off ?lk)
         \<and> l_type ld' = l_type (snd p) \<and> owner_of ld' = owner_of (snd p) \<and> l_type (snd p) \<noteq> F_UNLCK
       else l_type ld' = F_UNLCK" unfolding lock_req.select_convs by blast
  obtain s' where s': "give_back t j None (own_proc s t) (Some (getlk_answer lk ld')) k s = Some (CDone k s' (Some (getlk_answer lk ld')))" "over fc t (Inr 0) s s'"
    using give_back_ok [OF ok assms(4,5), of "own_proc s t" None "Some (getlk_answer lk ld')" k] by (auto simp: lock_result_def)
  show ?thesis
    by (rule exI [of _ s'], rule exI [of _ "getlk_answer lk ld'"], unfold e l(1) Let_def)
      (use s' l(2) in \<open>auto simp: getlk_fin_def getlk_answer_def owner_of_def split: if_splits\<close>)
qed

theorem getlk_tells_witness:
  "\<exists>k s' out. run (reclock_next ex_cf ex_rrc) ex_lrun (flckinit 1 10, []) = Some (k, [])
     \<and> getlk_end ex_cf ex_rrc ex_node (\<lambda>vp. VREG) 3 0 0 0 (Some (ex_lk F_WRLCK 0 22 3)) True k (fd_ex ex_use) = Some (CDone k s' (Some out))
     \<and> over fd_cf 0 (Inr 0) (fd_ex ex_use) s' \<and> l_type out = F_RDLCK \<and> l_pid out = 2"
proof -
  obtain k where k: "run (reclock_next ex_cf ex_rrc) ex_lrun (flckinit 1 10, []) = Some (k, [])"
    "views k = [[(9, (ex_lk F_WRLCK 1 0 9)), (8, (ex_lk F_RDLCK 2 20 29))]]"
    using ex_lrun_views by blast
  have f: "f_type (fl (ft (fd_ex ex_use)) 0) = DTYPE_VNODE" by code_simp
  let ?lk = "ex_lk F_WRLCK 0 22 3" and ?v = "ex_node (Some 7)"
  have "\<exists>s' out. getlk_end ex_cf ex_rrc ex_node (\<lambda>vp. VREG) 3 0 0 0 (Some ?lk) True k (fd_ex ex_use) = Some (CDone k s' (Some out)) \<and> over fd_cf 0 (Inr 0) (fd_ex ex_use) s'
    \<and> (let e = bytes_of (i_size ?v) 0 (extended ?lk 3 (vfs_type ?v)) in
       if \<exists>p \<in> set (views k ! ln_gp ?v). blocks (snd p) e
       then \<exists>p \<in> set (views k ! ln_gp ?v). blocks (snd p) e \<and> l_type out = l_type (snd p) \<and> owner_of out = owner_of (snd p)
       else out = ?lk\<lparr>l_type := F_UNLCK\<rparr>)"
    by (rule getlk_tells [OF _ _ fd_ex_Some ex_use_now(1,2) _ k(1) f _ _ ex_use_now(3)])
      (simp_all add: ex_cf_def ex_node_def ex_lk_def ENF_LOCK_def offset_ok_def DEV_OFF_MAX_def in_int32_def names_bytes_def first_byte_def last_byte_def)
  moreover have "ln_gp ?v = 0" "\<not> blocks (ex_lk F_WRLCK 1 0 9) (bytes_of (i_size ?v) 0 (extended ?lk 3 (vfs_type ?v)))"
    "blocks (ex_lk F_RDLCK 2 20 29) (bytes_of (i_size ?v) 0 (extended ?lk 3 (vfs_type ?v)))" by code_simp+
  ultimately show ?thesis using k by (auto simp: Let_def ex_lk_def owner_of_def)
qed

section \<open>Closing\<close>

lemma regflck_inside: "l_end h \<le> l_end ld \<Longrightarrow> snd (regflck ld h) = EEnd \<or> snd (regflck ld h) = EAfter"
  by (simp add: regflck_def)

lemma adj_step_unlock:
  assumes "l_type (a_ld a) = F_UNLCK" and "l_type (fset h) \<noteq> F_UNLCK" and "l_end (fset h) \<le> l_end (a_ld a)" and "adj_step cf gp h a = (out, a')"
  shows "out \<noteq> ARet (Some x) \<and> a_ld a' = a_ld a"
proof -
  obtain st en where r: "regflck (a_ld a) (fset h) = (st, en)" by fastforce
  have en: "en = EEnd \<or> en = EAfter" using regflck_inside [OF assms(3)] r by simp
  from assms(4) en assms(1,2) show ?thesis unfolding adj_step_def Let_def r by (cases st) (auto split: if_splits)
qed

lemma adj_loop_unlock:
  assumes "l_type (a_ld a) = F_UNLCK" and "\<forall>h \<in> set fls. own (fset h) (a_ld a) \<longrightarrow> l_type (fset h) \<noteq> F_UNLCK \<and> l_end (fset h) \<le> l_end (a_ld a)"
    and "adj_loop cf gp fls a = (out, a')"
  shows "out \<noteq> ARet (Some x) \<and> a_ld a' = a_ld a"
  using assms
proof (induction fls arbitrary: a)
  case (Cons h fls)
  show ?case
  proof (cases "own (fset h) (a_ld a)")
    case True
    obtain o1 a1 where s: "adj_step cf gp h a = (o1, a1)" by fastforce
    have "o1 \<noteq> ARet (Some x)" "a_ld a1 = a_ld a" using adj_step_unlock [OF Cons.prems(1) _ _ s] Cons.prems(2) True by auto
    with Cons.IH [of a1] Cons.prems s True show ?thesis by (cases o1) auto
  next
    case False
    then show ?thesis using Cons.IH [of a] Cons.prems by simp
  qed
qed auto

lemma unlock_returns:
  assumes k: "reclock_ok (nflox_max cf) ngn k" and gp: "q_gp r < ngn" and set: "q_cmd r AND SETFLCK \<noteq> 0" and t: "l_type e = F_UNLCK"
    and far: "\<forall>p \<in> set (views k ! q_gp r). owner_of (snd p) = owner_of e \<longrightarrow> l_end (snd p) \<le> l_end e"
  shows "\<exists>k' ld' rid'. reclock_body cf rrc r whence e 0 k = LRet k' ld' rid' None"
proof -
  let ?fs = "gn_filocks k ! q_gp r" and ?gp = "q_gp r"
  let ?ins = "case ?fs of [] \<Rightarrow> None | h # _ \<Rightarrow> Some (fl_id h)"
  let ?fls = "case ?ins of None \<Rightarrow> ?fs | Some i \<Rightarrow> dropWhile (\<lambda>h. fl_id h \<noteq> i) ?fs" and ?a = "\<lparr>a_ld = e, a_ins = ?ins, a_rf = 0, a_k = k\<rparr>"
  have g: "?gp < length (gn_filocks k)" using k gp by (simp add: reclock_ok_def)
  have w: "(fl_id h, fset h) \<in> set (views k ! ?gp)" if "h \<in> set ?fs" for h using that by (auto simp: views_nth [OF g] view_def)
  have m: "l_type (fset h) \<noteq> F_UNLCK" if "h \<in> set ?fs" for h
    using reclock_ok_vok [OF k gp] w [OF that] by (auto simp: vok_def entry_ok_def)
  have in_fs: "h \<in> set ?fs" if "h \<in> set ?fls" for h using that by (auto split: option.splits dest: set_dropWhileD)
  have "\<forall>h \<in> set ?fls. own (fset h) (a_ld ?a) \<longrightarrow> l_type (fset h) \<noteq> F_UNLCK \<and> l_end (fset h) \<le> l_end (a_ld ?a)"
    using far w m in_fs by (fastforce simp: own_iff)
  moreover obtain out a where loop: "adj_loop cf ?gp ?fls ?a = (out, a)" by fastforce
  ultimately have o: "out \<noteq> ARet (Some x) \<and> a_ld a = e" for x using adj_loop_unlock [OF _ _ loop] t by simp
  obtain k' ld' rid' ret where adj: "flckadj cf rrc ?gp ?ins e 0 k = (k', ld', rid', ret)" using prod_cases4 by blast
  have "ret = None"
  proof (cases out)
    case (ARet x)
    then show ?thesis using o [of "the x"] adj loop by (cases x) (simp_all add: flckadj_def)
  qed (use o t adj loop in \<open>auto simp: flckadj_def Let_def split: if_splits\<close>)
  moreover have "reclock_body cf rrc r whence e 0 k = reclock_end r whence ld' rid' ret k'" using t adj set unfolding reclock_body_def Let_def by auto
  ultimately show ?thesis using reclock_end_k [of r whence ld' rid' None k'] by auto
qed

text \<open>
  C40. Closing any descriptor of a file of the journaled file system, if a descriptor of the file is marked, as it is after a lock has been set. Unless the file is in enforcement mode
  and mapped for writing, the request of \<open>lockrelease\<close> succeeds, even with the table full, and afterwards no byte of the file is held by the process, while what other owners
  hold, and all other files, are as before. For a file in enforcement mode that is mapped for writing the request fails with \<open>EMFILE\<close> and all locks stay. This is shown for processes whose locks
  lie below \<open>MAXEND\<close>; a lock beyond survives too (\<open>close_keeps_far_lock\<close>).
\<close>

theorem close_unlocks:
  assumes "nmin \<le> nflox_max cf" and "run (reclock_next cf rrc) ls (flckinit ngn nmin, []) = Some (k, zs)" and "list_all lock_legal ls"
    and "node (f_up (fl s f)) = v" and "ln_gp v < ngn" and "offset_ok (i_size v)"
    and "U_lockflag u" and "marked_for s f u"
    and "\<forall>p \<in> set (views k ! ln_gp v). owner_of (snd p) = (pid, 0, vfs_type v) \<longrightarrow> l_end (snd p) \<le> MAXEND"
  shows "if ENF_LOCK (i_mode v) \<and> gn_mwrcnt v \<noteq> 0 then lockrelease_locks cf rrc node pid t f s u k = (k, Some EMFILE)
    else \<exists>k' w. lockrelease_locks cf rrc node pid t f s u k = (k', None) \<and> views k' = (views k)[ln_gp v := w] \<and> vok w
      \<and> (\<forall>o' b ty. holds w o' b ty \<longleftrightarrow> o' \<noteq> (pid, 0, vfs_type v) \<and> holds (views k ! ln_gp v) o' b ty)"
proof (cases "refused v F_UNLCK")
  case True
  then show ?thesis using assms(4,7,8) jfs_refuses [of v "unlock_all pid (vfs_type v)"]
    by (simp add: refused_def lockrelease_locks_def Let_def unlock_all_def)
next
  case open_: False
  note kok = reach_ok [OF assms(1,2)]
  let ?ld = "unlock_all pid (vfs_type v)"
  let ?r = "\<lparr>q_gp = ln_gp v, q_size = i_size v, q_off = 0, q_cmd = SETFLCK OR INOFLCK, q_fcn = 0, q_thr = t\<rparr>" and ?e = "bytes_of (i_size v) 0 ?ld"
  have n: "names_bytes (i_size v) 0 ?ld" "l_type ?e = F_UNLCK" "l_start ?e = 0" "l_end ?e = MAXEND" "owner_of ?e = (pid, 0, vfs_type v)"
    by (simp_all add: unlock_all_def names_bytes_def bytes_of_def first_byte_def last_byte_def owner_of_def)
  have i: "in_int32 (l_start ?ld)" "in_int32 (l_len ?ld)" "offset_ok 0" "l_whence ?ld \<in> {0, 1, 2}" "0 \<le> l_len ?ld" "0 \<le> first_byte (i_size v) 0 ?ld"
    by (simp_all add: unlock_all_def in_int32_def offset_ok_def DEV_OFF_MAX_def first_byte_def)
  have post: "setlk_post (q_gp ?r) (bytes_of (q_size ?r) (q_off ?r) ?ld) k (common_reclock cf rrc ?r ?ld 0 k)"
    by (rule setlk_named [OF kok]) (use assms(5,6) n(1) i in \<open>simp_all add: unlock_all_def\<close>)
  note sp = lock_span_bytes [where r = ?r, unfolded lock_req.select_convs, OF assms(6) i(3,1,2,4,6)]
  have "\<exists>k' ld' rid'. reclock_body cf rrc ?r (l_whence ?ld) ?e 0 k = LRet k' ld' rid' None"
    by (rule unlock_returns [OF kok]) (use assms(5,9) n in simp_all)
  then obtain k' ld' rid' where r: "common_reclock cf rrc ?r ?ld 0 k = LRet k' ld' rid' None"
    using common_reclock_body [where r = ?r and ld = ?ld, unfolded lock_req.select_convs, OF sp(1) i(5)] n(3,4) unfolding sp(2) by auto
  then obtain w where w: "views k' = (views k)[ln_gp v := w]" "vok w" "overridden (views k ! ln_gp v) ?e w"
    using post n(2) by (auto simp: setlk_post_def)
  have "holds w o' b ty \<longleftrightarrow> o' \<noteq> (pid, 0, vfs_type v) \<and> holds (views k ! ln_gp v) o' b ty" for o' b ty
  proof (cases "o' = (pid, 0, vfs_type v) \<and> covers ?e b")
    case False
    have "\<not> holds (views k ! ln_gp v) o' b ty" if "o' = (pid, 0, vfs_type v)"
    proof
      assume "holds (views k ! ln_gp v) o' b ty"
      then obtain p where "p \<in> set (views k ! ln_gp v)" "owner_of (snd p) = o'" "l_start (snd p) \<le> b" "b \<le> l_end (snd p)" by (auto simp: holds_def)
      with reclock_ok_vok [OF kok assms(5)] assms(9) that False n(3,4) show False by (fastforce simp: vok_def entry_ok_def covers_def)
    qed
    then show ?thesis using w(3) False n(5) unfolding overridden_def by metis
  qed (use w(3) n(2,5) in \<open>auto simp: overridden_def\<close>)
  moreover have "lockrelease_locks cf rrc node pid t f s u k = (k', None)"
    using assms(4,7,8) r jfs_open [of v ?ld] open_ by (simp add: lockrelease_locks_def Let_def unlock_all_def)
  ultimately have "\<exists>k' w. lockrelease_locks cf rrc node pid t f s u k = (k', None) \<and> views k' = (views k)[ln_gp v := w] \<and> vok w
      \<and> (\<forall>o' b ty. holds w o' b ty \<longleftrightarrow> o' \<noteq> (pid, 0, vfs_type v) \<and> holds (views k ! ln_gp v) o' b ty)" using w(1,2) by blast
  moreover have "\<not> (ENF_LOCK (i_mode v) \<and> gn_mwrcnt v \<noteq> 0)" using open_ by (simp add: refused_def)
  ultimately show ?thesis by (simp only: if_False)
qed

theorem close_unlocks_witness:
  "\<exists>k k' w. run (reclock_next ex_cf ex_rrc) ex_lrun (flckinit 1 10, []) = Some (k, [])
     \<and> lockrelease_locks ex_cf ex_rrc ex_node 1 0 0 (ft (fd_ex ex_use)) (mark_lock 0 (own_proc (fd_ex ex_use) 0)) k = (k', None)
     \<and> views k' = [w] \<and> \<not> holds w (1, 0, 0) 4 F_WRLCK \<and> holds w (2, 0, 0) 25 F_RDLCK"
proof -
  obtain k where k: "run (reclock_next ex_cf ex_rrc) ex_lrun (flckinit 1 10, []) = Some (k, [])"
    "views k = [[(9, (ex_lk F_WRLCK 1 0 9)), (8, (ex_lk F_RDLCK 2 20 29))]]"
    using ex_lrun_views by blast
  have m: "U_lockflag (mark_lock 0 (own_proc (fd_ex ex_use) 0))" "marked_for (ft (fd_ex ex_use)) 0 (mark_lock 0 (own_proc (fd_ex ex_use) 0))" by code_simp+
  have lg: "list_all lock_legal ex_lrun" by code_simp
  have "if ENF_LOCK (i_mode (ex_node None)) \<and> gn_mwrcnt (ex_node None) \<noteq> 0
    then lockrelease_locks ex_cf ex_rrc ex_node 1 0 0 (ft (fd_ex ex_use)) (mark_lock 0 (own_proc (fd_ex ex_use) 0)) k = (k, Some EMFILE)
    else \<exists>k' w. lockrelease_locks ex_cf ex_rrc ex_node 1 0 0 (ft (fd_ex ex_use)) (mark_lock 0 (own_proc (fd_ex ex_use) 0)) k = (k', None)
      \<and> views k' = (views k)[ln_gp (ex_node None) := w] \<and> vok w
      \<and> (\<forall>o' b ty. holds w o' b ty \<longleftrightarrow> o' \<noteq> (1, 0, vfs_type (ex_node None)) \<and> holds (views k ! ln_gp (ex_node None)) o' b ty)"
    by (rule close_unlocks [OF _ k(1) lg _ _ _ m]) (simp_all add: ex_cf_def ex_node_def offset_ok_def DEV_OFF_MAX_def k(2) ex_lk_def)
  moreover have "gn_mwrcnt (ex_node None) = 0" by (simp add: ex_node_def)
  ultimately have "\<exists>k' w. lockrelease_locks ex_cf ex_rrc ex_node 1 0 0 (ft (fd_ex ex_use)) (mark_lock 0 (own_proc (fd_ex ex_use) 0)) k = (k', None)
      \<and> views k' = (views k)[ln_gp (ex_node None) := w] \<and> vok w
      \<and> (\<forall>o' b ty. holds w o' b ty \<longleftrightarrow> o' \<noteq> (1, 0, vfs_type (ex_node None)) \<and> holds (views k ! ln_gp (ex_node None)) o' b ty)" by simp
  moreover have "ln_gp (ex_node None) = 0" "vfs_type (ex_node None) = 0" by (simp_all add: ex_node_def)
  moreover have "holds (views k ! 0) (2, 0, 0) 25 F_RDLCK" by (simp add: k(2) holds_def ex_lk_def owner_of_def)
  ultimately show ?thesis using k by auto
qed

text \<open>A lock beyond \<open>MAXEND\<close> survives: process 1 locks 100 bytes from the last offset a file can have, closes the file, and still holds all but the first of them.\<close>

definition ex_far :: "reclock_ev list" where
  "ex_far = [RlCall \<lparr>q_gp = 0, q_size = 0, q_off = MAXEND, q_cmd = SETFLCK, q_fcn = 0, q_thr = 0\<rparr> \<lparr>l_type = F_WRLCK, l_whence = 1, l_sysid = 0, l_pid = 1, l_vfs = 0, l_start = 0, l_len = 100\<rparr> 0]"

lemma close_keeps_far_lock:
  "\<exists>k k'. run (reclock_next ex_cf ex_rrc) ex_far (flckinit 1 10, []) = Some (k, [])
     \<and> lockrelease_locks ex_cf ex_rrc ex_node 1 0 0 (ft (fd_ex ex_use)) (mark_lock 0 (own_proc (fd_ex ex_use) 0)) k = (k', None)
     \<and> holds (views k' ! 0) (1, 0, 0) (MAXEND + 1) F_WRLCK"
proof -
  have "case run (reclock_next ex_cf ex_rrc) ex_far (flckinit 1 10, []) of None \<Rightarrow> False
    | Some (k, zs) \<Rightarrow> zs = [] \<and> (case lockrelease_locks ex_cf ex_rrc ex_node 1 0 0 (ft (fd_ex ex_use)) (mark_lock 0 (own_proc (fd_ex ex_use) 0)) k of
        (k', rc) \<Rightarrow> rc = None \<and> map (map snd) (views k') = [[ex_lk F_WRLCK 1 (MAXEND + 1) (MAXEND + 99)]])" by code_simp
  then obtain k k' where k: "run (reclock_next ex_cf ex_rrc) ex_far (flckinit 1 10, []) = Some (k, [])"
    "lockrelease_locks ex_cf ex_rrc ex_node 1 0 0 (ft (fd_ex ex_use)) (mark_lock 0 (own_proc (fd_ex ex_use) 0)) k = (k', None)"
    "map (map snd) (views k') = [[ex_lk F_WRLCK 1 (MAXEND + 1) (MAXEND + 99)]]" by (auto split: option.splits prod.splits)
  then have "holds (views k' ! 0) (1, 0, 0) (MAXEND + 1) F_WRLCK" by (auto simp: holds_def ex_lk_def owner_of_def)
  with k show ?thesis by blast
qed

end
