(* ===== verification/Spec2Isabelle.thy ===== *)
theory Spec2Isabelle
  imports Cred Uidl Ipc SemProps MsgProps ReclockProps ClistProps FdLockProps
begin

text \<open>
  A model of parts of the AIX kernel, \<open>src/bos/kernel\<close>, with the theorems that make them correct.
  Paths below are relative to that directory.

  \<^bold>\<open>What is modelled.\<close>

  \<^item> Privileges and identities. Every system call asks \<open>suser\<close>, \<open>privcheck\<close> or \<open>groupmember\<close> who its
  caller is. Theory \<open>Cred\<close> has the privilege vectors of \<open>s/priv/priv.c\<close>, the calls of \<open>s/auth/uid.c\<close>
  and \<open>s/auth/gid.c\<close> over the record \<open>ucred\<close> of \<open>sys/cred.h\<close>, and \<open>new_uidl\<close> of \<open>proc/sysproc.c\<close>, which
  moves a process to the list of another user. Theory \<open>Uidl\<close> adds what \<open>kforkx\<close> (\<open>proc/fork.c\<close>),
  \<open>newproc\<close> and \<open>freeproc\<close> (\<open>proc/newproc.c\<close>) do to those lists; the test of \<open>kforkx\<close> and the link in \<open>newproc\<close> are two steps, as the lock
  of the table is free in between.

  \<^item> System V IPC. \<open>Ipc\<close> has \<open>ipcaccess\<close> and \<open>ipcget\<close> of \<open>ipc/ipc.c\<close>, the latter in both its compilations.
  \<open>SemUndo\<close> and \<open>Sem\<close> have \<open>ipc/sem.c\<close>: sets of semaphores, the entries for adjustment on exit, \<open>semctl\<close>,
  \<open>semget\<close>, \<open>semop\<close> with its two ways to do the operations (\<open>atomic\<close> and \<open>order\<close>), \<open>semexit\<close>. \<open>Msg\<close> has \<open>ipc/msg.c\<close>:
  the queues, \<open>msgctl\<close>, \<open>msgget\<close>, \<open>msgrcv\<close>, \<open>msgsnd\<close>, their kernel interfaces and \<open>msgselect\<close>.
  Both call \<open>ipcaccess\<close> and \<open>ipcget\<close>, and through them \<open>Cred\<close>.

  \<^item> Record locks. \<open>Reclock\<close> has \<open>lfs/lockctl.c\<close>: the lists of locks in an array of slots, their adjustment
  by a request (\<open>flckadj\<close>), the search for a conflict (\<open>blocked\<close>), sleeping, waking and the deadlock check. Where \<open>delflck\<close> panics, or unlinks an
  entry that is not on its list, the model sets \<open>k_bad\<close>; no run of legal requests (\<open>lock_legal\<close>) gets there.

  \<^item> Character lists. \<open>Clist\<close> has the operations of \<open>ios/clist.c\<close> on cblocks, their free lists and the queues of the
  drivers; \<open>ClistSys\<close> has the calls of processes, which \<open>get_unpinned\<close> interrupts, \<open>waitcfree\<close>, \<open>pincf\<close> and \<open>cinit\<close> (\<open>ios/cinit.c\<close>),
  and \<open>clist_fine\<close>, the same machine with the \<open>put_pinned_front\<close> of \<open>waitcfree\<close>, which runs without a lock, in two halves.

  \<^item> Open files. \<open>Fd\<close> has the descriptors of a process (\<open>lfs/fd.c\<close>), the system's table of open files (\<open>lfs/fio.c\<close>,
  \<open>lfs/closef.c\<close>) and \<open>lockrelease\<close> (\<open>lfs/lockrlse.c\<close>). \<open>FdSys\<close> has the calls: \<open>close\<close> and \<open>closefd\<close> (\<open>lfs/close.c\<close>), \<open>kfcntl\<close>
  (\<open>lfs/fcntl.c\<close>), \<open>copen\<close> and the beginning and end of \<open>openpnp\<close> (\<open>lfs/open.c\<close>), \<open>fs_fork\<close>, \<open>fs_exec\<close> and \<open>fs_exit\<close>
  (\<open>lfs/fee.c\<close>), \<open>finit\<close>, and the steps of many threads of many processes over one table of files. A thread that uses a
  descriptor, opens a file, waits to close one or is in its last close is in a state of the type \<open>fthread\<close>.

  \<^item> Moving bytes. \<open>Uio\<close> has \<open>uiomove\<close>, \<open>ureadc\<close> and \<open>uwritec\<close> of \<open>ios/uio.c\<close>, which move bytes between a buffer of the kernel and the
  areas of a caller, over the copies of \<open>ml/POWER/copyx_ppc.s\<close>, \<open>vmm/POWER/xmem.c\<close> and \<open>vmm/POWER/userio.c\<close>. Which addresses fault is a parameter (\<open>access\<close>).

  \<^item> Reading, writing and seeking. \<open>Rdwr\<close> has \<open>lfs/rdwr.c\<close> (\<open>kreadv\<close>, \<open>kwritev\<close>, \<open>rdwr\<close>, \<open>rwuio\<close> and the services \<open>fp_read\<close> to \<open>fp_rwuio\<close>),
  \<open>lfs/seek.c\<close> and \<open>vno_rw\<close> of \<open>lfs/vno_fops.c\<close>, on the open files of \<open>FdSys\<close> and the areas of \<open>Uio\<close>. Parameters are the read and write
  operation of an open file (\<open>fo_rw\<close>), the types of vnodes (\<open>vt\<close>) and what \<open>VNOP_GETATTR\<close> gives (\<open>getattr\<close>).

  \<^item> Calls for record locks. \<open>FdLock\<close> joins the open files and the record locks: \<open>lockf\<close> (\<open>lfs/lockf.c\<close>), the commands \<open>F_GETLK\<close>, \<open>F_SETLK\<close> and \<open>F_SETLKW\<close> of
  \<open>kfcntl\<close>, the request that \<open>lockrelease\<close> makes in a close, and \<open>jfs_lockctl\<close> (\<open>pfs/xix_lckctl.c\<close>), which calls \<open>common_reclock\<close>. What the file system
  knows of a vnode is a parameter (\<open>node\<close>).

  A C struct is a record with the same fields, a list through pointers is a list or, where the aliasing
  matters (the process lists, the record locks, the cblocks), an array with indices for pointers. A
  failure of a call is the value of \<open>u_error\<close> or the result, as in the code; a failed assertion, a NULL pointer
  that is followed or a loop that does not end is \<open>None\<close>. Fields of \<open>short\<close> and \<open>ushort\<close> are integers that are cut
  where the code stores them (\<open>sshort\<close>, \<open>ushort\<close> of \<open>Prelude\<close>); vectors of bits and characters are words.

  \<^bold>\<open>How the parts run.\<close> A component is a step function over its state: a step takes an event (a call, a
  wake-up, a signal, a fork, an interrupt) and gives the next state or \<open>None\<close>. The locales \<open>machine\<close>,
  \<open>total_machine\<close> and \<open>guarded_machine\<close> of \<open>Prelude\<close> say what one step must keep and give what holds of whole
  runs. Their interpretations are \<open>privs\<close> and \<open>unpriv\<close> (\<open>Cred\<close>), \<open>uidl_machine\<close> (\<open>Uidl\<close>), \<open>sem_machine\<close> (\<open>SemSys\<close>), \<open>msg_machine\<close>
  (\<open>MsgSys\<close>), \<open>reclock_machine\<close> (\<open>ReclockProps\<close>), \<open>clist_machine\<close> (\<open>ClistRun\<close>) and \<open>fd\<close> (\<open>FdRun\<close>). The other interfaces are
  \<open>ident_space\<close> (\<open>Ipc\<close>), the identifiers that name the objects of a facility, which semaphores
  (\<open>semids\<close>) and message queues (\<open>msgids\<close>) provide; \<open>adjustments\<close> (\<open>SemUndo\<close>), an accumulated map that \<open>semaoe\<close>
  provides (\<open>semadj\<close>); and \<open>typed_fifo\<close> (\<open>MsgProps\<close>), a queue with one order per type (\<open>msgq\<close>).

  An event of a machine is the part of a call between two points at which the code gives up its lock. In
  \<open>sem.c\<close>, \<open>msg.c\<close> and \<open>lockctl.c\<close> that is a sleep; in \<open>clist.c\<close> it is also the wait for \<open>C_MAINT_LOCK\<close>, the \<open>pin\<close>
  that may page fault and the return from it; among open files, the look at the path of \<open>open\<close>, the use of a descriptor
  between \<open>getf\<close> and \<open>ufdrele\<close>, the wait for it in \<open>close\<close>, the file operation of the last close and each round of the loops over the
  descriptors. Interrupt handlers run whole calls at any such point.

  \<^bold>\<open>What is shown.\<close>

  \<^item> \<open>Cred\<close>, \<open>Uidl\<close>: no sequence of calls adds a privilege or takes an unprivileged process out of its
  initial identities; giving up root is final; the lists by user stay rings, so that the loops over them end, and
  have never more processes than the limit and the forks that are between their test and their link.

  \<^item> \<open>SemInv\<close>, \<open>SemCalls\<close>, \<open>SemSys\<close>, \<open>SemProps\<close>: values and identifiers stay valid under every interleaving; an
  operation is done whole or not at all; the entries for exit implement a map; removal and \<open>SETVAL\<close>
  clear them; no wake-up is lost but one, which is shown. Runs are of legal calls (\<open>legal_ev\<close>): arguments that fit their types, no negative semaphore
  number in \<open>semctl\<close>, none of 32768 or more with \<open>SEM_UNDO\<close>. What those do is shown apart, in \<open>negative_semnum_is_wild\<close> and \<open>high_numbers_pile_up\<close>.

  \<^item> \<open>MsgInv\<close>, \<open>MsgSys\<close>, \<open>MsgProps\<close>: the counters agree with the queues; a receive finds the message the manual
  promises and returns the bytes that were sent; messages of a type leave in the order they came; no wake-up is lost but
  those of writers after \<open>IPC_SET\<close>, one of which is shown (\<open>raised_limit_wakes_nobody\<close>).

  \<^item> \<open>ReclockInv\<close>, \<open>ReclockAdj\<close>, \<open>ReclockStep\<close>, \<open>ReclockCalls\<close>, \<open>ReclockSlots\<close>, \<open>ReclockProps\<close>: a list of locks stands for a map from bytes to
  owners; a request overrides that map; no byte is locked for writing twice; no slot is freed twice, unless two requests with \<open>MNT_NFS\<close> sleep on one
  entry, which is shown; the deadlock check is right where it ends and may not end.

  \<^item> \<open>ClistRel\<close>, \<open>ClistFree\<close>, \<open>ClistEffect\<close>, \<open>ClistOps\<close>, \<open>ClistLoops\<close>: each cblock is in one place, and each operation is one
  on queues of bytes. \<open>ClistHold\<close>, \<open>ClistRun\<close>, \<open>ClistQueue\<close>, \<open>ClistGo\<close>, \<open>ClistProps\<close>: so it is under every interleaving; no
  assertion fails and no cblock is lost as long as nothing comes between the two halves of \<open>put_pinned_front\<close> in \<open>waitcfree\<close> (\<open>undisturbed\<close>), and where
  something does an assertion can fail (\<open>waitcfree_race\<close>); \<open>pincf\<close> ends with an exact result.

  \<^item> \<open>FdTab\<close>: a table of files whose counts agree with who refers to each file, and what every operation does to it.
  \<open>FdProc\<close>: a process and its threads. \<open>FdInv\<close>, \<open>FdRun\<close>: both together, kept by every step. \<open>FdProps\<close>, \<open>FdLoops\<close>, \<open>FdServices\<close>: the counts are right
  under every interleaving and no assertion fails; no file is lost, or freed under a thread that uses it; who waits to close gets on;
  \<open>fork\<close> shares files, \<open>exec\<close> closes what it should and \<open>exit\<close> takes its references off every count, and both end; and where the kernel services go wrong.

  \<^item> \<open>UioProps\<close>: the areas of a caller stand for one sequence of addresses, of which a move takes a prefix; the short cut for one area and the
  calls for one character are such moves; what is moved out and in again is unchanged. \<open>RdwrProps\<close>: \<open>read\<close>, \<open>write\<close> and \<open>lseek\<close> hold what they
  use, whatever other threads do. The answer of \<open>read\<close> and \<open>write\<close> is an exact function (\<open>rdwr_answer\<close>) of what the file operation returned, of which
  nothing is assumed; no offset of a seek wraps around.

  \<^item> \<open>FdLockProps\<close>: \<open>lockf\<close> locks exactly the bytes that its size names, with every sum exact; \<open>F_GETLK\<close> reports a conflicting lock when and only when there
  is one; what was locked through a descriptor is marked on it, and a close of the file then gives up every lock of the process below \<open>MAXEND\<close>, but not those beyond.
  A full table can cost the caller its own locks (\<open>ENOLCK\<close>), and files in enforcement mode that are mapped refuse requests, that of a close too (\<open>EMFILE\<close>).

  \<^bold>\<open>Bounds.\<close> A loop that may run for ever has fuel, and the theorems show that the fuel given is enough. A walk along the
  processes of a user gets one step per slot of the table, and a ring visits each at most once; the loops over the undo entries
  and the messages go down their lists; the deadlock check and the wake-up loops get the number of slots, which a
  walk without repetition cannot exceed; walks along cblocks get the number of cblocks, and \<open>putcbp\<close> one round for each byte;
  the loops of \<open>exec\<close> and \<open>exit\<close> take at most two steps for each descriptor; a round of \<open>uiomove\<close> uses up an area, bytes asked for, or ends with
  an error. The numbers of
  processes, sets, queues, slots, cblocks, files, descriptors and threads are parameters, bounded only where the code stores them in a narrow
  type, or by \<open>v_clist\<close> between 30 and \<open>2 ^ 30\<close>.

  \<^bold>\<open>What is not modelled.\<close> Audit records, trace hooks and accounting counters, which change no modelled state.
  The multiprocessor compilations of \<open>sem.c\<close> and \<open>msg.c\<close>, whose locks per set and queue are elsewhere; \<open>ipcget\<close> has
  both. The callbacks of \<open>lockctl.c\<close> that unlock the inode around a sleep. In \<open>clist.c\<close>, the walk of \<open>get_unpinned\<close> along the list
  is a single step, and so are \<open>put_pinned_front\<close> in \<open>waitcfree\<close> in \<open>clist_next\<close> and each of its halves in \<open>clist_fine\<close>; counters are
  integers without a bound but for the sum in \<open>pincf\<close>. \<open>pin\<close> and \<open>unpin\<close> count, and whether a \<open>pin\<close> succeeds is part of the event. Of
  open files: the look at the path and the vnode operations, whose results are part of the events; the request for a record lock, which is in
  \<open>FdLock\<close> and leaves a mark here; the hooks of \<open>close\<close> and \<open>exec\<close>, mapped segments, the directories of a process, \<open>fp_getf\<close>, \<open>fp_open\<close> and
  \<open>fp_close\<close>, the flag \<open>FSYNC\<close> that \<open>open\<close> adds on a removable device, and the error \<open>closef\<close> returns where it has none. \<open>p_active\<close> is the number of
  threads, and the use count of a descriptor, a \<open>short\<close>, has no bound: it is at most the number of threads of the process. A transfer is one step between
  \<open>getf\<close> and \<open>ufdrele\<close>, and the lock on the offset, which the code compiles out around a transfer and takes around a seek, is not there; nor are
  reading of directories (\<open>rdwrdir\<close>), the pinning of areas (\<open>pinu\<close>), the registers and segments of a copy, and the counters of bytes moved. Of
  \<open>fork\<close>, \<open>exec\<close> and \<open>exit\<close> only the process lists and the open files. Shared memory (\<open>ipc/shm.c\<close>), whose work is done by the virtual memory manager. Of the rest of the
  kernel, path names and the other calls of the logical file system, file systems, scheduling, signals, timers, virtual memory, sockets, streams and
  device drivers; of the rest of the system, commands, libraries, tables for languages and code sets, and
  the build environment.
\<close>

end
